(* ===== verification/Prelude.thy ===== *)
theory Prelude
  imports Main "HOL-Library.Word"
begin

unbundle bit_operations_syntax

text \<open>
  Shared vocabulary of the development: the machine integer types of the C sources, the status
  codes of \<^verbatim>\<open>sdk/include/pai/error.h\<close>, the little-endian byte codecs that
  \<^verbatim>\<open>protocol/frame.c\<close>, \<^verbatim>\<open>protocol/message.c\<close>, \<^verbatim>\<open>protocol/connection.c\<close> and
  \<^verbatim>\<open>ir/ir.c\<close> each carry a private copy of, and the generic lemmas on words and lists the
  component theories use.

  Conventions. A C function that can fail returns \<^typ>\<open>'e + 'a\<close>: \<open>Inl\<close> the negative status,
  \<open>Inr\<close> the values it writes through its output pointers on \<open>PAI_OK\<close>. Handles (\<open>conn\<close>,
  \<open>planner\<close>, \<open>graph\<close>, \<dots>) and output pointers are valid objects, so the guards that refuse a
  NULL handle have no counterpart; a data pointer the code allows to be NULL is an
  \<^typ>\<open>'a option\<close>.
\<close>

section \<open>Types\<close>

type_synonym u8 = "8 word"
type_synonym u16 = "16 word"
type_synonym u32 = "32 word"
type_synonym u64 = "64 word"
type_synonym bytes = "8 word list"

text \<open>Negative status codes. \<open>PAI_OK\<close> is the \<open>Inr\<close> side of a result.\<close>

datatype pai_err =
    PAI_ERR_INVALID_ARG
  | PAI_ERR_NOMEM
  | PAI_ERR_UNSUPPORTED
  | PAI_ERR_CAPABILITY
  | PAI_ERR_TIMEOUT
  | PAI_ERR_MISMATCH
  | PAI_ERR_IO
  | PAI_ERR_INIT
  | PAI_ERR_INTERNAL
  | PAI_ERR_PROTOCOL

type_synonym 'a res = "pai_err + 'a"

text \<open>The integer behind a status, as it travels in ERROR frames.\<close>

definition PAI_OK :: u32 where
  "PAI_OK = 0"

fun status_code :: "pai_err \<Rightarrow> u32" where
  "status_code PAI_ERR_INVALID_ARG = -1"
| "status_code PAI_ERR_NOMEM = -2"
| "status_code PAI_ERR_UNSUPPORTED = -3"
| "status_code PAI_ERR_CAPABILITY = -4"
| "status_code PAI_ERR_TIMEOUT = -5"
| "status_code PAI_ERR_MISMATCH = -6"
| "status_code PAI_ERR_IO = -7"
| "status_code PAI_ERR_INIT = -8"
| "status_code PAI_ERR_INTERNAL = -9"
| "status_code PAI_ERR_PROTOCOL = -10"

definition pai_status_str :: "u32 \<Rightarrow> string" where
  "pai_status_str status =
     (if status = PAI_OK then ''ok''
      else if status = status_code PAI_ERR_INVALID_ARG then ''invalid argument''
      else if status = status_code PAI_ERR_NOMEM then ''out of memory''
      else if status = status_code PAI_ERR_UNSUPPORTED then ''unsupported''
      else if status = status_code PAI_ERR_CAPABILITY then ''capability unavailable''
      else if status = status_code PAI_ERR_TIMEOUT then ''timeout''
      else if status = status_code PAI_ERR_MISMATCH then ''validation mismatch''
      else if status = status_code PAI_ERR_IO then ''i/o error''
      else if status = status_code PAI_ERR_INIT then ''initialization failed''
      else if status = status_code PAI_ERR_INTERNAL then ''internal error''
      else if status = status_code PAI_ERR_PROTOCOL then ''protocol violation''
      else ''unknown'')"

lemma status_code_inj: "status_code a = status_code b \<longleftrightarrow> a = b"
  by (cases a; cases b) simp_all

lemma status_code_not_ok: "status_code e \<noteq> PAI_OK"
  by (cases e) (simp_all add: PAI_OK_def)

text \<open>The outcome of code that may run into undefined behaviour (\<open>Fault\<close>: an access outside the
  object it belongs to) or not end (\<open>Diverges\<close>).\<close>

datatype 'a outcome = Returns 'a | Fault | Diverges

section \<open>Collections of facts\<close>

named_theorems codec \<open>lengths and round trips of the byte codecs\<close>
named_theorems nat_word \<open>reading machine words as natural numbers\<close>

section \<open>Lists\<close>

text \<open>\<open>find_index P xs\<close>: the first index whose entry satisfies \<open>P\<close>, as the linear scans of
  the fixed-size tables do.\<close>

fun find_index :: "('a \<Rightarrow> bool) \<Rightarrow> 'a list \<Rightarrow> nat option" where
  "find_index P [] = None"
| "find_index P (x # xs) = (if P x then Some 0 else map_option Suc (find_index P xs))"

lemma find_index_Some:
  "find_index P xs = Some i \<Longrightarrow> i < length xs \<and> P (xs ! i) \<and> (\<forall>j<i. \<not> P (xs ! j))"
proof (induction xs arbitrary: i)
  case (Cons x xs)
  then show ?case
    by (auto split: if_splits simp: nth_Cons split: nat.splits)
qed simp

lemma find_index_None: "find_index P xs = None \<longleftrightarrow> (\<forall>x \<in> set xs. \<not> P x)"
  by (induction xs) auto

lemma find_index_exists: "x \<in> set xs \<Longrightarrow> P x \<Longrightarrow> \<exists>i. find_index P xs = Some i"
  using find_index_None [of P xs] by (cases "find_index P xs") auto

section \<open>C strings\<close>

text \<open>A C string is the bytes before the first zero.\<close>

definition cstr :: "bytes \<Rightarrow> bytes" where
  "cstr t = takeWhile (\<lambda>c. c \<noteq> 0) t"

lemma cstr_no_zero [simp]: "0 \<notin> set (cstr t)"
  by (auto simp: cstr_def dest: set_takeWhileD)

lemma cstr_id [simp]: "0 \<notin> set t \<Longrightarrow> cstr t = t"
  by (auto simp: cstr_def takeWhile_eq_all_conv)

lemma unat_of_nat32 [nat_word]: "n < 2 ^ 32 \<Longrightarrow> unat (of_nat n :: u32) = n"
  by (simp add: unat_of_nat)

section \<open>Little-endian codecs\<close>

definition put_le16 :: "u16 \<Rightarrow> bytes" where
  "put_le16 v = [ucast (v AND 0xFF), ucast (drop_bit 8 v)]"

definition put_le32 :: "u32 \<Rightarrow> bytes" where
  "put_le32 v =
     [ucast (v AND 0xFF), ucast (drop_bit 8 v AND 0xFF),
      ucast (drop_bit 16 v AND 0xFF), ucast (drop_bit 24 v)]"

definition put_le64 :: "u64 \<Rightarrow> bytes" where
  "put_le64 v = map (\<lambda>i. ucast (drop_bit (8 * i) v AND 0xFF)) [0..<8]"

definition get_le16 :: "bytes \<Rightarrow> u16" where
  "get_le16 p = ucast (p ! 0) OR push_bit 8 (ucast (p ! 1))"

definition get_le32 :: "bytes \<Rightarrow> u32" where
  "get_le32 p = ucast (p ! 0) OR push_bit 8 (ucast (p ! 1)) OR
     push_bit 16 (ucast (p ! 2)) OR push_bit 24 (ucast (p ! 3))"

definition get_le64 :: "bytes \<Rightarrow> u64" where
  "get_le64 p = foldl (\<lambda>v i. v OR push_bit (8 * i) (ucast (p ! i))) 0 [0..<8]"

lemma length_put_le [simp, codec]:
  "length (put_le16 a) = 2" "length (put_le32 b) = 4" "length (put_le64 c) = 8"
  by (simp_all add: put_le16_def put_le32_def put_le64_def)

text \<open>A byte selected from a word and shifted back is that word's slice.\<close>

lemma byte_slice_bit:
  fixes v :: "'a::len word"
  shows "bit (push_bit k (ucast (ucast (drop_bit k v AND 0xFF) :: u8) :: 'a word)) i
           \<longleftrightarrow> k \<le> i \<and> i < k + 8 \<and> bit v i"
proof -
  have ff: "(0xFF :: 'a word) = mask 8"
    by (simp add: mask_eq_exp_minus_1)
  show ?thesis
    by (auto simp: ff bit_simps dest: bit_imp_le_length)
qed

lemma byte_top_bit:
  fixes v :: "'a::len word"
  assumes "LENGTH('a) = k + 8"
  shows "bit (push_bit k (ucast (ucast (drop_bit k v) :: u8) :: 'a word)) i
           \<longleftrightarrow> k \<le> i \<and> i < k + 8 \<and> bit v i"
  using assms by (auto simp: bit_simps dest: bit_imp_le_length)

lemma get_put_le16 [simp, codec]: "get_le16 (put_le16 v @ xs) = v"
proof (rule bit_word_eqI)
  fix n :: nat assume "n < LENGTH(16)"
  then show "bit (get_le16 (put_le16 v @ xs)) n = bit v n"
    using byte_slice_bit [of 0 v n] byte_top_bit [where v = v and k = 8, of n]
    by (auto simp: get_le16_def put_le16_def bit_or_iff)
qed

lemma get_put_le32 [simp, codec]: "get_le32 (put_le32 v @ xs) = v"
proof (rule bit_word_eqI)
  fix n :: nat assume "n < LENGTH(32)"
  then show "bit (get_le32 (put_le32 v @ xs)) n = bit v n"
    using byte_slice_bit [of 0 v n] byte_slice_bit [of 8 v n] byte_slice_bit [of 16 v n]
      byte_top_bit [where v = v and k = 24, of n]
    by (auto simp: get_le32_def put_le32_def bit_or_iff)
qed

lemma foldl_or_bit:
  "bit (foldl (\<lambda>v i. v OR f i) a xs) n \<longleftrightarrow> bit a n \<or> (\<exists>i \<in> set xs. bit (f i :: u64) n)"
  by (induction xs arbitrary: a) (auto simp: bit_or_iff)

lemma get_put_le64 [simp, codec]: "get_le64 (put_le64 v @ xs) = v"
proof (rule bit_word_eqI)
  fix n :: nat assume n: "n < LENGTH(64)"
  have nth: "(put_le64 v @ xs) ! i = ucast (drop_bit (8 * i) v AND 0xFF)" if "i < 8" for i
    using that by (simp add: put_le64_def nth_append)
  have "bit (get_le64 (put_le64 v @ xs)) n \<longleftrightarrow>
      (\<exists>i<8. bit (push_bit (8 * i) (ucast ((put_le64 v @ xs) ! i) :: u64)) n)"
    by (simp only: get_le64_def foldl_or_bit set_upt) auto
  also have "\<dots> \<longleftrightarrow> (\<exists>i<8. 8 * i \<le> n \<and> n < 8 * i + 8 \<and> bit v n)"
    by (auto simp: nth byte_slice_bit)
  also have "\<dots> \<longleftrightarrow> bit v n"
  proof -
    have "n div 8 < 8 \<and> 8 * (n div 8) \<le> n \<and> n < 8 * (n div 8) + 8"
      using n by auto
    then show ?thesis by blast
  qed
  finally show "bit (get_le64 (put_le64 v @ xs)) n = bit v n" .
qed

lemmas get_put_le_plain [simp, codec] =
  get_put_le16 [where xs = "[]", simplified]
  get_put_le32 [where xs = "[]", simplified]
  get_put_le64 [where xs = "[]", simplified]

end
