(* ===== verification/Mem.thy ===== *)
theory Mem
  imports Prelude
begin

text \<open>
  The bit-twiddling helpers of \<^verbatim>\<open>memory/mem.h\<close> on 64-bit words, and what they compute on the
  natural numbers behind the words. The planner, the buddy allocator and the KV cache rest on the
  characterisations proved here, so no other theory looks at the bits.
\<close>

section \<open>Definitions\<close>

definition pai_mem_is_pow2 :: "u64 \<Rightarrow> bool" where
  "pai_mem_is_pow2 v \<longleftrightarrow> v \<noteq> 0 \<and> v AND (v - 1) = 0"

definition pai_mem_align_up :: "u64 \<Rightarrow> u64 \<Rightarrow> u64" where
  "pai_mem_align_up v align = (v + align - 1) AND NOT (align - 1)"

definition pai_mem_align_down :: "u64 \<Rightarrow> u64 \<Rightarrow> u64" where
  "pai_mem_align_down v align = v AND NOT (align - 1)"

function ceil_log2_loop :: "u64 \<Rightarrow> u64 \<Rightarrow> nat \<Rightarrow> nat" where
  "ceil_log2_loop v p ord =
     (if p < v \<and> ord < 63 then ceil_log2_loop v (push_bit 1 p) (Suc ord) else ord)"
  by pat_completeness auto
termination
  by (relation "measure (\<lambda>(v, p, ord). 63 - ord)") auto

definition pai_mem_ceil_log2 :: "u64 \<Rightarrow> nat" where
  "pai_mem_ceil_log2 v = (if v = 0 then 0 else ceil_log2_loop v 1 0)"

function floor_log2_loop :: "u64 \<Rightarrow> nat \<Rightarrow> nat" where
  "floor_log2_loop v ord = (if 1 < v then floor_log2_loop (drop_bit 1 v) (Suc ord) else ord)"
  by pat_completeness auto
termination
  by (relation "measure (\<lambda>(v, ord). unat v)")
    (auto simp: unsigned_drop_bit_eq drop_bit_Suc word_less_nat_alt unat_div)

definition pai_mem_floor_log2 :: "u64 \<Rightarrow> nat" where
  "pai_mem_floor_log2 v = floor_log2_loop v 0"

declare ceil_log2_loop.simps [simp del] floor_log2_loop.simps [simp del]

section \<open>Powers of two\<close>

lemma nat_and_pred_zero_iff: "0 < n \<Longrightarrow> (n AND (n - 1) = 0) \<longleftrightarrow> (\<exists>k. n = (2::nat) ^ k)"
proof (induction n rule: less_induct)
  case (less n)
  show ?case
  proof (cases "even n")
    case True
    then obtain m where m: "n = 2 * m" by blast
    with less.prems have m0: "0 < m" "m < n" by auto
    have "n AND (n - 1) = 2 * (m AND (m - 1))"
    proof -
      have "(n - 1) div 2 = m - 1" "odd (n - 1)" using m m0 by auto
      then show ?thesis using m and_nat_rec [of n "n - 1"] by simp
    qed
    moreover have "(\<exists>k. n = 2 ^ k) \<longleftrightarrow> (\<exists>k. m = 2 ^ k)"
    proof
      assume "\<exists>k. n = 2 ^ k"
      then obtain k where k: "n = 2 ^ k" by blast
      with True have "k \<noteq> 0" by (cases k) auto
      with k m show "\<exists>k. m = 2 ^ k" by (cases k) auto
    next
      assume "\<exists>k. m = 2 ^ k"
      then show "\<exists>k. n = 2 ^ k" using m by (metis power_Suc)
    qed
    ultimately show ?thesis using less.IH [OF m0(2) m0(1)] by simp
  next
    case False
    then obtain m where m: "n = 2 * m + 1" by (elim oddE)
    have "n AND (n - 1) = 2 * (m AND m)"
      using m and_nat_rec [of n "n - 1"] by auto
    then have "n AND (n - 1) = 0 \<longleftrightarrow> m = 0" by simp
    moreover have "(\<exists>k. n = 2 ^ k) \<longleftrightarrow> m = 0"
    proof
      assume "\<exists>k. n = 2 ^ k"
      then obtain k where k: "n = 2 ^ k" by blast
      with False have "k = 0" by (cases k) auto
      with k m show "m = 0" by simp
    next
      assume "m = 0"
      with m have "n = 2 ^ 0" by simp
      then show "\<exists>k. n = 2 ^ k" by blast
    qed
    ultimately show ?thesis by simp
  qed
qed

lemma pow2_word: "k < 64 \<Longrightarrow> unat ((2 :: u64) ^ k) = 2 ^ k"
proof -
  assume k: "k < 64"
  then have "(2::nat) ^ k < 2 ^ 64" by (rule power_strict_increasing) simp
  with k have "unat (of_nat (2 ^ k) :: u64) = 2 ^ k"
    by (simp only: unsigned_of_nat) (simp add: take_bit_nat_eq_self)
  then show ?thesis by simp
qed

lemma is_pow2_nat: "pai_mem_is_pow2 v \<longleftrightarrow> (\<exists>k<64. unat v = 2 ^ k)"
proof (cases "v = 0")
  case True
  then show ?thesis by (simp add: pai_mem_is_pow2_def)
next
  case False
  then have pos: "0 < unat v" by (simp add: unat_gt_0)
  have "v AND (v - 1) = 0 \<longleftrightarrow> unat (v AND (v - 1)) = 0"
    by (simp add: unat_eq_0)
  also have "\<dots> \<longleftrightarrow> unat v AND (unat v - 1) = 0"
    using False by (simp add: unsigned_and_eq unat_minus_one)
  also have "\<dots> \<longleftrightarrow> (\<exists>k. unat v = 2 ^ k)"
    by (rule nat_and_pred_zero_iff [OF pos])
  also have "\<dots> \<longleftrightarrow> (\<exists>k<64. unat v = 2 ^ k)"
  proof -
    have "unat v < 2 ^ 64" using unsigned_less [of v] by simp
    then have "unat v = 2 ^ k \<Longrightarrow> k < 64" for k
      by (metis one_less_numeral_iff power_strict_increasing_iff semiring_norm(76))
    then show ?thesis by blast
  qed
  finally show ?thesis using False by (simp add: pai_mem_is_pow2_def)
qed

section \<open>Alignment\<close>

text \<open>Rounding on natural numbers, the specification of \<open>pai_mem_align_up\<close>.\<close>

definition align_up_nat :: "nat \<Rightarrow> nat \<Rightarrow> nat" where
  "align_up_nat v a = (v + a - 1) div a * a"

lemma align_up_nat_dvd: "a dvd align_up_nat v a"
  by (simp add: align_up_nat_def)

lemma align_up_nat_ge: "0 < a \<Longrightarrow> v \<le> align_up_nat v a"
proof -
  assume a: "0 < a"
  have "v + a - 1 < ((v + a - 1) div a) * a + a"
    using a by (metis add.commute div_mult_mod_eq mod_less_divisor nat_add_left_cancel_less)
  then show ?thesis using a by (simp add: align_up_nat_def)
qed

lemma align_up_nat_less: "0 < a \<Longrightarrow> align_up_nat v a < v + a"
proof -
  assume a: "0 < a"
  have "align_up_nat v a \<le> v + a - 1"
    by (simp add: align_up_nat_def div_times_less_eq_dividend)
  then show ?thesis using a by simp
qed

lemma align_up_nat_1 [simp]: "align_up_nat v (Suc 0) = v"
  by (simp add: align_up_nat_def)

lemma and_not_mask_nat:
  fixes x :: u64
  assumes "k < 64"
  shows "unat (x AND NOT (2 ^ k - 1)) = unat x div 2 ^ k * 2 ^ k"
proof -
  have "x AND NOT (2 ^ k - 1) = push_bit k (drop_bit k x)"
    by (rule bit_word_eqI) (auto simp: bit_simps simp flip: mask_eq_exp_minus_1)
  moreover have "push_bit k (drop_bit k (unat x)) \<le> unat x"
    by (simp add: push_bit_eq_mult drop_bit_eq_div div_times_less_eq_dividend)
  then have "push_bit k (drop_bit k (unat x)) < 2 ^ 64"
    using unsigned_less [of x, where 'a = nat] by simp
  ultimately show ?thesis
    by (simp only: unsigned_push_bit_eq unsigned_drop_bit_eq len_of_numeral_defs)
      (use unsigned_less [of x, where 'a = nat] in
        \<open>simp add: take_bit_nat_eq_self push_bit_eq_mult drop_bit_eq_div\<close>)
qed

lemma align_up_unat:
  assumes pow: "pai_mem_is_pow2 align"
    and fits: "unat v + unat align - 1 < 2 ^ 64"
  shows "unat (pai_mem_align_up v align) = align_up_nat (unat v) (unat align)"
proof -
  obtain k where k: "k < 64" "unat align = 2 ^ k"
    using pow by (auto simp: is_pow2_nat)
  then have al: "align = 2 ^ k"
    by (metis pow2_word word_unat_eq_iff)
  have s: "v + align - 1 = v + (align - 1)" by simp
  have am: "unat (align - 1) = unat align - 1"
    using k by (intro unat_minus_one) auto
  have "unat (v + align - 1) = unat v + unat align - 1"
    using fits k(2) unfolding s
    by (subst unat_add_lem [THEN iffD1]) (simp_all add: am)
  then show ?thesis
    using and_not_mask_nat [OF k(1), of "v + align - 1"]
    by (simp add: pai_mem_align_up_def al align_up_nat_def flip: k(2))
qed

lemma align_down_unat:
  assumes "pai_mem_is_pow2 align"
  shows "unat (pai_mem_align_down v align) = unat v div unat align * unat align"
proof -
  obtain k where k: "k < 64" "unat align = 2 ^ k"
    using assms by (auto simp: is_pow2_nat)
  then have "align = 2 ^ k"
    by (metis pow2_word word_unat_eq_iff)
  then show ?thesis
    using and_not_mask_nat [OF k(1), of v] k by (simp add: pai_mem_align_down_def)
qed

section \<open>Logarithms\<close>

lemma ceil_log2_loop_spec:
  assumes "p = 2 ^ ord" "ord \<le> 63" "ord = 0 \<or> 2 ^ (ord - 1) < unat v" "unat v \<le> 2 ^ 63"
  shows "ceil_log2_loop v p ord \<le> 63 \<and> unat v \<le> 2 ^ ceil_log2_loop v p ord \<and>
    (ceil_log2_loop v p ord = 0 \<or> 2 ^ (ceil_log2_loop v p ord - 1) < unat v)"
  (is "?Q v p ord")
  using assms
proof (induction v p ord rule: ceil_log2_loop.induct)
  case (1 v p ord)
  have up: "unat p = 2 ^ ord"
    using "1.prems" by (simp add: pow2_word)
  show ?case
  proof (cases "p < v \<and> ord < 63")
    case True
    have "push_bit 1 p = 2 ^ Suc ord"
      using "1.prems"(1) by (simp add: push_bit_eq_mult)
    moreover have "2 ^ ord < unat v"
      using True up by (simp add: word_less_nat_alt)
    ultimately have "?Q v (push_bit 1 p) (Suc ord)"
      using "1.IH" [OF True] True "1.prems" by simp
    then show ?thesis
      using True by (simp only: ceil_log2_loop.simps [of v p ord] if_True simp_thms)
  next
    case False
    have "unat v \<le> 2 ^ ord"
    proof (cases "ord < 63")
      case True
      with False up show ?thesis by (simp add: word_less_nat_alt)
    next
      case False
      with "1.prems" have "ord = 63" by simp
      with "1.prems" show ?thesis by simp
    qed
    moreover have "ceil_log2_loop v p ord = ord"
      using False by (subst ceil_log2_loop.simps) (simp only: if_False)
    ultimately show ?thesis
      using "1.prems" by simp
  qed
qed

lemma ceil_log2_bounds:
  assumes "unat v \<le> 2 ^ 63"
  shows "pai_mem_ceil_log2 v \<le> 63" "unat v \<le> 2 ^ pai_mem_ceil_log2 v"
    "pai_mem_ceil_log2 v \<noteq> 0 \<Longrightarrow> 2 ^ (pai_mem_ceil_log2 v - 1) < unat v"
  using ceil_log2_loop_spec [of 1 0 v] assms by (auto simp: pai_mem_ceil_log2_def)

lemma floor_log2_loop_pow: "k < 64 \<Longrightarrow> floor_log2_loop (2 ^ k) ord = ord + k"
proof (induction k arbitrary: ord)
  case 0
  then show ?case by (simp add: floor_log2_loop.simps)
next
  case (Suc k)
  have "unat (2 ^ Suc k :: u64) = 2 ^ Suc k" by (rule pow2_word [OF Suc.prems])
  moreover have "(1::nat) < 2 ^ Suc k"
    by (rule one_less_power) simp_all
  ultimately have gt: "1 < (2 ^ Suc k :: u64)"
    by (simp only: word_less_nat_alt unsigned_1)
  have k: "k < 64" using Suc.prems by simp
  have "drop_bit 1 (2 ^ Suc k :: u64) = 2 ^ k"
    by (rule bit_word_eqI) (use Suc.prems in \<open>auto simp: bit_simps\<close>)
  then show ?case
    using gt Suc.IH [OF k, of "Suc ord"]
    by (subst floor_log2_loop.simps) (simp del: power_Suc)
qed

lemma floor_log2_pow2: "unat v = 2 ^ k \<Longrightarrow> k < 64 \<Longrightarrow> pai_mem_floor_log2 v = k"
  using floor_log2_loop_pow [of k 0] pow2_word [of k]
  by (metis add_0 pai_mem_floor_log2_def word_unat_eq_iff)

section \<open>Properties\<close>

text \<open>\<open>pai_mem_is_pow2\<close> accepts exactly the powers of two that fit in 64 bits.\<close>

theorem is_pow2_iff: "pai_mem_is_pow2 v \<longleftrightarrow> (\<exists>k<64. v = 2 ^ k)"
proof -
  have "unat v = 2 ^ k \<longleftrightarrow> v = 2 ^ k" if "k < 64" for k
    using pow2_word [OF that] by (metis word_unat_eq_iff)
  then show ?thesis by (auto simp: is_pow2_nat)
qed

text \<open>For a power-of-two alignment and no wrap in \<open>v + align - 1\<close>, \<open>pai_mem_align_up\<close>
  returns the least multiple of \<open>align\<close> that is at least \<open>v\<close>.\<close>

theorem align_up_least_multiple:
  assumes "pai_mem_is_pow2 align" and "unat v + unat align - 1 < 2 ^ 64"
  shows "unat align dvd unat (pai_mem_align_up v align) \<and> v \<le> pai_mem_align_up v align \<and>
    (\<forall>m. unat align dvd m \<longrightarrow> unat v \<le> m \<longrightarrow> unat (pai_mem_align_up v align) \<le> m)"
proof (intro conjI allI impI)
  have pos: "0 < unat align"
    using assms(1) by (auto simp: is_pow2_nat)
  note eq = align_up_unat [OF assms]
  show "unat align dvd unat (pai_mem_align_up v align)"
    by (simp add: eq align_up_nat_dvd)
  show "v \<le> pai_mem_align_up v align"
    using pos by (simp add: word_le_nat_alt eq align_up_nat_ge)
  fix m assume m: "unat align dvd m" "unat v \<le> m"
  then obtain q where q: "m = unat align * q" by blast
  have "align_up_nat (unat v) (unat align) < unat align * (q + 1)"
    using align_up_nat_less [OF pos, of "unat v"] m(2) q by simp
  then have "(unat v + unat align - 1) div unat align < q + 1"
    using pos unfolding align_up_nat_def by (metis mult.commute mult_less_cancel1)
  then show "unat (pai_mem_align_up v align) \<le> m"
    by (simp add: eq align_up_nat_def q mult.commute)
qed

theorem align_up_least_multiple_witness:
  "pai_mem_is_pow2 16 \<and> unat (16::u64) dvd unat (pai_mem_align_up 17 16) \<and>
   pai_mem_align_up 17 16 = 32"
  using align_up_least_multiple [of 16 17]
  by (simp add: pai_mem_is_pow2_def pai_mem_align_up_def)

end
