(* ===== verification/Crc32.thy ===== *)
theory Crc32
  imports Prelude
begin

text \<open>
  \<^verbatim>\<open>protocol/crc32.c\<close>: the table-driven CRC-32 that guards protocol frames and IR blobs. The
  byte-wise loop over the table is shown equal to the bit-serial division, and the error-detection
  guarantee the wire format relies on is proved: any corruption confined to four consecutive bytes
  changes the checksum.
\<close>

section \<open>Definitions\<close>

definition crc_step :: "u32 \<Rightarrow> u32" where
  "crc_step crc = (if crc AND 1 \<noteq> 0 then drop_bit 1 crc XOR 0xEDB88320 else drop_bit 1 crc)"

text \<open>\<open>crc_table_build\<close> fills entry \<open>i\<close> with eight steps from \<open>i\<close>. The C code builds the
  table on first use; the table itself never changes.\<close>

definition crc_table :: "u32 list" where
  "crc_table = map (\<lambda>i. (crc_step ^^ 8) (of_nat i)) [0..<256]"

definition pai_proto_crc32_init :: u32 where
  "pai_proto_crc32_init = 0xFFFFFFFF"

definition crc_upd_byte :: "u32 \<Rightarrow> u8 \<Rightarrow> u32" where
  "crc_upd_byte running b =
     crc_table ! unat ((running XOR ucast b) AND 0xFF) XOR drop_bit 8 running"

definition pai_proto_crc32_upd :: "u32 \<Rightarrow> bytes \<Rightarrow> u32" where
  "pai_proto_crc32_upd running data = foldl crc_upd_byte running data"

definition pai_proto_crc32_fin :: "u32 \<Rightarrow> u32" where
  "pai_proto_crc32_fin running = running XOR 0xFFFFFFFF"

definition pai_proto_crc32 :: "bytes \<Rightarrow> u32" where
  "pai_proto_crc32 data =
     pai_proto_crc32_fin (pai_proto_crc32_upd pai_proto_crc32_init data)"

text \<open>The bit-serial reference: eight steps per byte, no table.\<close>

definition crc32_bitwise :: "u32 \<Rightarrow> bytes \<Rightarrow> u32" where
  "crc32_bitwise running data = foldl (\<lambda>r b. (crc_step ^^ 8) (r XOR ucast b)) running data"

section \<open>The step is linear and injective\<close>

lemma and_one_bit: "((w::u32) AND 1 \<noteq> 0) = bit w 0"
  by (metis and_one_eq bit_0 even_iff_mod_2_eq_zero)

lemma xor_right_cancel: "(a::u32) XOR c = b XOR c \<longleftrightarrow> a = b"
proof
  assume "a XOR c = b XOR c"
  then have "(a XOR c) XOR c = (b XOR c) XOR c" by (rule arg_cong)
  then show "a = b" by (simp add: xor.assoc)
qed simp

lemma xor_both: "((x::u32) XOR p) XOR (y XOR p) = x XOR y"
  by (rule bit_word_eqI) (auto simp: bit_xor_iff)

lemma crc_step_bit: "crc_step w = (if bit w 0 then drop_bit 1 w XOR 0xEDB88320 else drop_bit 1 w)"
  by (simp only: crc_step_def and_one_bit)

lemma crc_step_xor: "crc_step (a XOR b) = crc_step a XOR crc_step b"
proof -
  have "drop_bit 1 (a XOR b) = drop_bit 1 a XOR drop_bit 1 b" by (rule drop_bit_xor)
  moreover have "bit (a XOR b) 0 \<longleftrightarrow> bit a 0 \<noteq> bit b 0" by (rule bit_xor_iff)
  ultimately show ?thesis
    by (cases "bit a 0"; cases "bit b 0")
      (simp_all only: crc_step_bit if_True if_False simp_thms xor_both xor.assoc
        xor.left_commute xor.commute xor_self_eq xor.right_neutral xor.left_neutral)
qed

lemma crc_steps_xor: "(crc_step ^^ n) (a XOR b) = (crc_step ^^ n) a XOR (crc_step ^^ n) b"
  by (induction n arbitrary: a b) (simp_all add: crc_step_xor)

lemma crc_steps_low_zero: "take_bit n x = 0 \<Longrightarrow> (crc_step ^^ n) x = drop_bit n x"
proof (induction n arbitrary: x)
  case (Suc n)
  have b0: "\<not> bit x i" if "i < Suc n" for i
    using Suc.prems that by (metis bit_0_eq bit_take_bit_iff bot_apply bot_bool_def)
  have "crc_step x = drop_bit 1 x"
    using b0 [of 0] by (simp only: crc_step_bit) simp
  moreover have "take_bit n (drop_bit 1 x) = 0"
    by (rule bit_word_eqI) (auto simp: bit_simps b0)
  ultimately show ?case
    using Suc.IH [of "drop_bit 1 x"] by (simp only: funpow_Suc_right comp_def) simp
qed simp

lemma crc_steps_split: "(crc_step ^^ 8) x = (crc_step ^^ 8) (x AND 0xFF) XOR drop_bit 8 x"
proof -
  have ff: "(0xFF :: u32) = mask 8" by (simp add: mask_eq_exp_minus_1)
  have x: "x = (x AND 0xFF) XOR (x AND NOT 0xFF)"
    by (rule bit_word_eqI) (auto simp: ff bit_simps)
  have "(crc_step ^^ 8) (x AND NOT 0xFF) = drop_bit 8 (x AND NOT 0xFF)"
    by (rule crc_steps_low_zero, rule bit_word_eqI) (auto simp: ff bit_simps)
  also have "\<dots> = drop_bit 8 x"
    by (rule bit_word_eqI) (auto simp: ff bit_simps dest: bit_imp_le_length)
  finally show ?thesis
    using crc_steps_xor [of 8 "x AND 0xFF" "x AND NOT 0xFF"] x by simp
qed

lemma crc_upd_byte_eq: "crc_upd_byte r b = (crc_step ^^ 8) (r XOR ucast b)"
proof -
  let ?x = "r XOR (ucast b :: u32)"
  have ff: "(0xFF :: u32) = mask 8" by (simp add: mask_eq_exp_minus_1)
  have "?x AND 0xFF < 2 ^ 8"
    unfolding ff by (rule and_mask_less') simp
  then have lt: "unat (?x AND 0xFF) < 256"
    by (simp add: word_less_nat_alt)
  then have "crc_table ! unat (?x AND 0xFF) = (crc_step ^^ 8) (?x AND 0xFF)"
    by (simp add: crc_table_def)
  moreover have "drop_bit 8 ?x = drop_bit 8 r"
    by (rule bit_word_eqI) (auto simp: bit_simps dest: bit_imp_le_length)
  ultimately show ?thesis
    using crc_steps_split [of ?x] by (simp add: crc_upd_byte_def)
qed

lemma crc_step_bit31: "bit (crc_step w) 31 = bit w 0"
proof -
  have "bit (0xEDB88320 :: u32) 31" by simp
  moreover have "\<not> bit (drop_bit 1 w) 31"
    by (auto simp: bit_simps dest: bit_imp_le_length)
  ultimately show ?thesis by (simp only: crc_step_bit bit_xor_iff split: if_split) simp
qed

lemma crc_step_inj: "crc_step a = crc_step b \<Longrightarrow> a = b"
proof -
  assume eq: "crc_step a = crc_step b"
  then have b0: "bit a 0 = bit b 0" using crc_step_bit31 by metis
  have "drop_bit 1 a = drop_bit 1 b"
  proof (cases "bit a 0")
    case True
    with eq b0 have "drop_bit 1 a XOR 0xEDB88320 = drop_bit 1 b XOR 0xEDB88320"
      by (simp only: crc_step_bit if_True)
    then show ?thesis by (simp only: xor_right_cancel)
  next
    case False
    with eq b0 show ?thesis by (simp only: crc_step_bit if_False)
  qed
  then have "bit a (Suc n) = bit b (Suc n)" for n
    by (metis bit_drop_bit_eq comp_def plus_1_eq_Suc)
  with b0 have "bit a n = bit b n" for n by (cases n) auto
  then show ?thesis by (auto intro: bit_word_eqI)
qed

lemma crc_steps_inj: "(crc_step ^^ n) a = (crc_step ^^ n) b \<Longrightarrow> a = b"
  by (induction n) (auto dest: crc_step_inj)

section \<open>Chunked updates\<close>

lemma crc_upd_append [simp]:
  "pai_proto_crc32_upd r (xs @ ys) = pai_proto_crc32_upd (pai_proto_crc32_upd r xs) ys"
  by (simp add: pai_proto_crc32_upd_def)

lemma crc_upd_Nil [simp]: "pai_proto_crc32_upd r [] = r"
  by (simp add: pai_proto_crc32_upd_def)

lemma crc_upd_inj_running: "pai_proto_crc32_upd r ys = pai_proto_crc32_upd s ys \<Longrightarrow> r = s"
proof (induction ys arbitrary: r s)
  case (Cons y ys)
  then have "crc_upd_byte r y = crc_upd_byte s y"
    by (simp add: pai_proto_crc32_upd_def)
  then show ?case
    by (auto simp: crc_upd_byte_eq xor_right_cancel dest: crc_steps_inj)
qed simp

lemma crc_fin_inj: "pai_proto_crc32_fin r = pai_proto_crc32_fin s \<longleftrightarrow> r = s"
  by (simp add: pai_proto_crc32_fin_def xor_right_cancel)

text \<open>Four bytes at once: the running value is combined with their little-endian word and
  divided by 32 steps.\<close>

lemma crc_steps_push: "k \<le> 24 \<Longrightarrow> (crc_step ^^ k) (push_bit k (ucast (b::u8))) = ucast b"
proof -
  assume k: "k \<le> 24"
  have "(crc_step ^^ k) (push_bit k (ucast b)) = drop_bit k (push_bit k (ucast b))"
    by (rule crc_steps_low_zero) (simp add: take_bit_push_bit)
  also have "\<dots> = ucast b"
    using k by (intro bit_word_eqI) (auto simp: bit_simps dest: bit_imp_le_length)
  finally show ?thesis .
qed

lemma crc_steps_absorb:
  "k \<le> 24 \<Longrightarrow> (crc_step ^^ k) y XOR ucast (b::u8) = (crc_step ^^ k) (y XOR push_bit k (ucast b))"
  by (simp add: crc_steps_xor crc_steps_push)

lemma crc_upd_four:
  "pai_proto_crc32_upd r [b0, b1, b2, b3] =
     (crc_step ^^ 32) (r XOR (ucast b0 XOR push_bit 8 (ucast b1) XOR
        push_bit 16 (ucast b2) XOR push_bit 24 (ucast b3)))"
proof -
  have add: "(crc_step ^^ 8) ((crc_step ^^ k) y) = (crc_step ^^ (8 + k)) y" for k y
    by (simp add: funpow_add)
  show ?thesis
    by (simp only: pai_proto_crc32_upd_def foldl.simps crc_upd_byte_eq crc_steps_absorb add
        numeral_plus_numeral add_num_simps order_refl le_numeral_extra xor.assoc
        numeral_le_iff semiring_norm)
qed

lemma le_word_bit:
  fixes b0 b1 b2 b3 :: u8
  shows "bit (ucast b0 XOR push_bit 8 (ucast b1) XOR push_bit 16 (ucast b2) XOR
      push_bit 24 (ucast b3) :: u32) n \<longleftrightarrow>
    (n < 8 \<and> bit b0 n) \<or> (8 \<le> n \<and> n < 16 \<and> bit b1 (n - 8)) \<or>
    (16 \<le> n \<and> n < 24 \<and> bit b2 (n - 16)) \<or> (24 \<le> n \<and> n < 32 \<and> bit b3 (n - 24))"
proof -
  have "bit (b::u8) i \<Longrightarrow> i < 8" for b i by (auto dest: bit_imp_le_length)
  then have B: "bit (b::u8) i = (i < 8 \<and> bit b i)" for b i by blast
  have P: "bit (push_bit k (ucast b) :: u32) n \<longleftrightarrow> k \<le> n \<and> n < k + 8 \<and> bit b (n - k)"
    if "k \<le> 24" for k and b :: u8
    using that B [of b "n - k"] by (auto simp: bit_simps)
  have P0: "bit (ucast b0 :: u32) n \<longleftrightarrow> n < 8 \<and> bit b0 n"
    using B [of b0 n] by (auto simp: bit_simps)
  have ex: "(n < 8 \<and> \<not> 8 \<le> n \<and> \<not> 16 \<le> n \<and> \<not> 24 \<le> n) \<or>
      (\<not> n < 8 \<and> 8 \<le> n \<and> n < 16 \<and> \<not> 16 \<le> n \<and> \<not> 24 \<le> n) \<or>
      (\<not> n < 8 \<and> \<not> n < 16 \<and> 16 \<le> n \<and> n < 24 \<and> \<not> 24 \<le> n) \<or>
      (\<not> n < 8 \<and> \<not> n < 16 \<and> \<not> n < 24 \<and> 24 \<le> n)"
    by linarith
  show ?thesis
    unfolding bit_xor_iff P0 P [of 8, simplified] P [of 16, simplified] P [of 24, simplified]
    using ex by (elim disjE) simp_all
qed

lemma le_word_inj:
  fixes b0 b1 b2 b3 c0 c1 c2 c3 :: u8
  assumes eq: "(ucast b0 XOR push_bit 8 (ucast b1) XOR push_bit 16 (ucast b2) XOR
      push_bit 24 (ucast b3) :: u32) =
    ucast c0 XOR push_bit 8 (ucast c1) XOR push_bit 16 (ucast c2) XOR push_bit 24 (ucast c3)"
  shows "[b0, b1, b2, b3] = [c0, c1, c2, c3]"
proof -
  have bits: "(n < 8 \<and> bit b0 n) \<or> (8 \<le> n \<and> n < 16 \<and> bit b1 (n - 8)) \<or>
      (16 \<le> n \<and> n < 24 \<and> bit b2 (n - 16)) \<or> (24 \<le> n \<and> n < 32 \<and> bit b3 (n - 24)) \<longleftrightarrow>
      (n < 8 \<and> bit c0 n) \<or> (8 \<le> n \<and> n < 16 \<and> bit c1 (n - 8)) \<or>
      (16 \<le> n \<and> n < 24 \<and> bit c2 (n - 16)) \<or> (24 \<le> n \<and> n < 32 \<and> bit c3 (n - 24))" for n
    using arg_cong [OF eq, of "\<lambda>w. bit w n"] by (simp only: le_word_bit)
  have "b0 = c0"
  proof (rule bit_word_eqI)
    fix n :: nat assume "n < LENGTH(8)"
    then show "bit b0 n = bit c0 n" using bits [of n] by auto
  qed
  moreover have "b1 = c1"
  proof (rule bit_word_eqI)
    fix n :: nat assume "n < LENGTH(8)"
    then show "bit b1 n = bit c1 n" using bits [of "n + 8"] by auto
  qed
  moreover have "b2 = c2"
  proof (rule bit_word_eqI)
    fix n :: nat assume "n < LENGTH(8)"
    then show "bit b2 n = bit c2 n" using bits [of "n + 16"] by auto
  qed
  moreover have "b3 = c3"
  proof (rule bit_word_eqI)
    fix n :: nat assume "n < LENGTH(8)"
    then show "bit b3 n = bit c3 n" using bits [of "n + 24"] by auto
  qed
  ultimately show ?thesis by simp
qed

lemma list_of_length_4: "length xs = 4 \<Longrightarrow> \<exists>a b c d. xs = [a, b, c, d]"
  by (auto simp: numeral_eq_Suc length_Suc_conv)

lemma crc_upd_burst:
  assumes "length ms = 4" "length ms' = 4" "ms \<noteq> ms'"
  shows "pai_proto_crc32_upd r (pre @ ms @ post) \<noteq> pai_proto_crc32_upd r (pre @ ms' @ post)"
proof
  assume "pai_proto_crc32_upd r (pre @ ms @ post) = pai_proto_crc32_upd r (pre @ ms' @ post)"
  then have eq: "pai_proto_crc32_upd (pai_proto_crc32_upd r pre) ms =
      pai_proto_crc32_upd (pai_proto_crc32_upd r pre) ms'"
    by (auto dest: crc_upd_inj_running)
  obtain a b c d a' b' c' d' where ms: "ms = [a, b, c, d]" "ms' = [a', b', c', d']"
    using assms(1,2) list_of_length_4 by metis
  have cancel: "x XOR y = x XOR z \<Longrightarrow> y = z" for x y z :: u32
    using xor_right_cancel [of y x z] by (simp only: xor.commute [of x])
  have "ms = ms'"
    unfolding ms
    by (rule le_word_inj, rule cancel, rule crc_steps_inj, rule eq [unfolded ms crc_upd_four])
  with assms(3) show False by simp
qed

section \<open>Properties\<close>

text \<open>The table-driven update computes the bit-serial CRC for every running value and every
  input: the table lookup is eight steps of the reflected polynomial division.\<close>

theorem crc32_table_eq_bitwise: "pai_proto_crc32_upd r data = crc32_bitwise r data"
  unfolding pai_proto_crc32_upd_def crc32_bitwise_def
  by (rule arg_cong [where f = "\<lambda>f. foldl f r data"]) (intro ext crc_upd_byte_eq)

text \<open>Error detection: two inputs of equal length that differ only inside one window of four
  consecutive bytes never have the same checksum.\<close>

theorem crc32_detects_burst:
  assumes "length ms = 4" and "length ms' = 4" and "ms \<noteq> ms'"
  shows "pai_proto_crc32 (pre @ ms @ post) \<noteq> pai_proto_crc32 (pre @ ms' @ post)"
  using crc_upd_burst [OF assms] unfolding pai_proto_crc32_def crc_fin_inj by blast

theorem crc32_detects_burst_witness:
  "pai_proto_crc32 ([1] @ [2, 3, 4, 5] @ [6]) \<noteq> pai_proto_crc32 ([1] @ [2, 9, 4, 7] @ [6])"
  by (rule crc32_detects_burst) simp_all

end
