(* ===== verification/Frame.thy ===== *)
theory Frame
  imports Crc32
begin

text \<open>
  \<^verbatim>\<open>protocol/frame.c\<close>: the 40-byte frame header of the Prospero Protocol, its encoder, decoder
  and integrity check. The wire buffer is a byte list; the encoder returns the bytes it stores.
\<close>

section \<open>Constants and the frame record\<close>

definition PAI_PROTO_MAGIC :: u32 where "PAI_PROTO_MAGIC = 0x50494150"
definition PAI_PROTO_VERSION_MAJOR :: u8 where "PAI_PROTO_VERSION_MAJOR = 0"
definition PAI_PROTO_VERSION_MINOR :: u8 where "PAI_PROTO_VERSION_MINOR = 1"
definition PAI_PROTO_HEADER_SIZE :: u32 where "PAI_PROTO_HEADER_SIZE = 40"
definition PAI_PROTO_MAX_PAYLOAD :: u32 where "PAI_PROTO_MAX_PAYLOAD = 0x100000"

definition PAI_PROTO_FLAG_REPLY :: u32 where "PAI_PROTO_FLAG_REPLY = 1"
definition PAI_PROTO_FLAG_STREAM_START :: u32 where "PAI_PROTO_FLAG_STREAM_START = 2"
definition PAI_PROTO_FLAG_STREAM_END :: u32 where "PAI_PROTO_FLAG_STREAM_END = 4"
definition PAI_PROTO_FLAG_COMPRESSED :: u32 where "PAI_PROTO_FLAG_COMPRESSED = 8"

lemmas proto_consts =
  PAI_PROTO_MAGIC_def PAI_PROTO_VERSION_MAJOR_def PAI_PROTO_VERSION_MINOR_def
  PAI_PROTO_HEADER_SIZE_def PAI_PROTO_MAX_PAYLOAD_def PAI_PROTO_FLAG_REPLY_def
  PAI_PROTO_FLAG_STREAM_START_def PAI_PROTO_FLAG_STREAM_END_def PAI_PROTO_FLAG_COMPRESSED_def

record pai_proto_frame =
  version :: u16
  msg_type :: u32
  flags :: u32
  request_id :: u64
  session_id :: u64
  payload :: "bytes option"
  payload_len :: u32

text \<open>The bytes \<open>payload[0 .. payload_len)\<close>. A sender's frame is well formed when the
  buffer behind \<open>payload\<close> really holds \<open>payload_len\<close> bytes.\<close>

definition payload_bytes :: "pai_proto_frame \<Rightarrow> bytes" where
  "payload_bytes f = take (unat (payload_len f)) (case payload f of None \<Rightarrow> [] | Some bs \<Rightarrow> bs)"

definition frame_wf :: "pai_proto_frame \<Rightarrow> bool" where
  "frame_wf f \<longleftrightarrow> length (payload_bytes f) = unat (payload_len f)"

section \<open>Codec\<close>

definition pai_proto_frame_size :: "u32 \<Rightarrow> u32" where
  "pai_proto_frame_size n = PAI_PROTO_HEADER_SIZE + n"

text \<open>Header bytes \<open>[0, 32)\<close>, the part the checksum covers.\<close>

definition header_crc_part :: "pai_proto_frame \<Rightarrow> bytes" where
  "header_crc_part f =
     put_le32 PAI_PROTO_MAGIC @ [PAI_PROTO_VERSION_MAJOR, PAI_PROTO_VERSION_MINOR] @
     put_le16 (ucast (flags f)) @ put_le32 (msg_type f) @ put_le32 (payload_len f) @
     put_le64 (request_id f) @ put_le64 (session_id f)"

definition frame_crc :: "bytes \<Rightarrow> bytes \<Rightarrow> u32" where
  "frame_crc hdr pay =
     pai_proto_crc32_fin (pai_proto_crc32_upd (pai_proto_crc32_upd pai_proto_crc32_init hdr) pay)"

definition frame_header :: "pai_proto_frame \<Rightarrow> bytes" where
  "frame_header f =
     header_crc_part f @ put_le32 (frame_crc (header_crc_part f) (payload_bytes f)) @ put_le32 0"

definition pai_proto_frame_encode :: "pai_proto_frame \<Rightarrow> u32 \<Rightarrow> bytes res" where
  "pai_proto_frame_encode f cap =
     (if payload_len f > PAI_PROTO_MAX_PAYLOAD then Inl PAI_ERR_INVALID_ARG
      else if flags f AND PAI_PROTO_FLAG_COMPRESSED \<noteq> 0 then Inl PAI_ERR_INVALID_ARG
      else if cap < pai_proto_frame_size (payload_len f) then Inl PAI_ERR_INVALID_ARG
      else Inr (frame_header f @ payload_bytes f))"

definition pai_proto_frame_decode :: "bytes \<Rightarrow> pai_proto_frame res" where
  "pai_proto_frame_decode data =
     (if get_le32 data \<noteq> PAI_PROTO_MAGIC then Inl PAI_ERR_PROTOCOL
      else if get_le32 (drop 36 data) \<noteq> 0 then Inl PAI_ERR_PROTOCOL
      else if ucast (get_le16 (drop 6 data)) AND PAI_PROTO_FLAG_COMPRESSED \<noteq> 0
        then Inl PAI_ERR_PROTOCOL
      else if get_le32 (drop 12 data) > PAI_PROTO_MAX_PAYLOAD then Inl PAI_ERR_PROTOCOL
      else Inr \<lparr> version = push_bit 8 (ucast (data ! 4)) OR ucast (data ! 5),
                 msg_type = get_le32 (drop 8 data),
                 flags = ucast (get_le16 (drop 6 data)),
                 request_id = get_le64 (drop 16 data),
                 session_id = get_le64 (drop 24 data),
                 payload = None,
                 payload_len = get_le32 (drop 12 data) \<rparr>)"

definition pai_proto_frame_validate :: "bytes \<Rightarrow> bytes option \<Rightarrow> unit res" where
  "pai_proto_frame_validate hdr pay =
     (case pai_proto_frame_decode hdr of
        Inl _ \<Rightarrow> Inl PAI_ERR_PROTOCOL
      | Inr f \<Rightarrow>
          if payload_len f > 0 \<and> pay = None then Inl PAI_ERR_INVALID_ARG
          else
            (let pb = take (unat (payload_len f)) (case pay of None \<Rightarrow> [] | Some bs \<Rightarrow> bs);
                 expected = frame_crc (take 32 hdr) pb
             in if get_le32 (drop 32 hdr) \<noteq> expected then Inl PAI_ERR_PROTOCOL else Inr ()))"

section \<open>Lemmas\<close>

lemma length_header_crc_part [simp, codec]: "length (header_crc_part f) = 32"
  by (simp add: header_crc_part_def)

lemma length_frame_header [simp, codec]: "length (frame_header f) = 40"
  by (simp add: frame_header_def)

lemma take_32_header [simp]: "take 32 (frame_header f) = header_crc_part f"
  by (simp add: frame_header_def)

lemma header_fields:
  "get_le32 (frame_header f @ xs) = PAI_PROTO_MAGIC"
  "get_le32 (drop 36 (frame_header f)) = 0"
  "get_le16 (drop 6 (frame_header f)) = ucast (flags f)"
  "get_le32 (drop 12 (frame_header f)) = payload_len f"
  "get_le32 (drop 8 (frame_header f)) = msg_type f"
  "get_le64 (drop 16 (frame_header f)) = request_id f"
  "get_le64 (drop 24 (frame_header f)) = session_id f"
  "get_le32 (drop 32 (frame_header f)) = frame_crc (header_crc_part f) (payload_bytes f)"
  "frame_header f ! 4 = PAI_PROTO_VERSION_MAJOR"
  "frame_header f ! 5 = PAI_PROTO_VERSION_MINOR"
  by (simp_all add: frame_header_def header_crc_part_def nth_append)

lemmas header_magic = header_fields(1) [where xs = "[]", simplified]

text \<open>Truncating the flags to the 16 bits of the wire keeps the low bits, so the reserved
  compression flag is seen by both ends alike.\<close>

lemma flags_truncate: "ucast (ucast (w :: u32) :: u16) = w AND (0xFFFF :: u32)"
proof -
  have m: "(0xFFFF :: u32) = mask 16" by (simp add: mask_eq_exp_minus_1)
  show ?thesis
    unfolding m by (rule bit_word_eqI) (auto simp: bit_simps)
qed

lemma flags_compressed:
  "(w AND 0xFFFF) AND PAI_PROTO_FLAG_COMPRESSED = w AND PAI_PROTO_FLAG_COMPRESSED"
  by (simp add: PAI_PROTO_FLAG_COMPRESSED_def and.assoc)

definition frame_sendable :: "pai_proto_frame \<Rightarrow> bool" where
  "frame_sendable f \<longleftrightarrow>
     payload_len f \<le> PAI_PROTO_MAX_PAYLOAD \<and> flags f AND PAI_PROTO_FLAG_COMPRESSED = 0"

text \<open>What a receiver reads from the header of \<open>f\<close>.\<close>

definition decoded :: "pai_proto_frame \<Rightarrow> pai_proto_frame" where
  "decoded f = f\<lparr>version := 1, flags := flags f AND 0xFFFF, payload := None\<rparr>"

lemma decode_header:
  assumes "frame_sendable f"
  shows "pai_proto_frame_decode (frame_header f) = Inr (decoded f)"
  using assms
  by (simp add: pai_proto_frame_decode_def header_fields header_magic flags_compressed
      flags_truncate frame_sendable_def decoded_def PAI_PROTO_VERSION_MAJOR_def
      PAI_PROTO_VERSION_MINOR_def not_less)

lemma validate_header:
  assumes "frame_sendable f" "frame_wf f" "payload_len f > 0 \<longrightarrow> pay = Some (payload_bytes f)"
  shows "pai_proto_frame_validate (frame_header f) pay = Inr ()"
proof -
  have "take (unat (payload_len f)) (case pay of None \<Rightarrow> [] | Some bs \<Rightarrow> bs) = payload_bytes f"
  proof (cases "payload_len f = 0")
    case True
    then show ?thesis by (simp add: payload_bytes_def)
  next
    case False
    with assms(3) have "pay = Some (payload_bytes f)" by (simp add: word_neq_0_conv)
    then show ?thesis using assms(2) by (simp add: frame_wf_def)
  qed
  then show ?thesis
    using assms
    by (auto simp: pai_proto_frame_validate_def decode_header decoded_def header_fields Let_def)
qed

lemma validate_payload_bytes:
  assumes "frame_sendable f" "length bs = unat (payload_len f)"
    "pai_proto_frame_validate (frame_header f) (Some bs) = Inr ()"
  shows "frame_crc (header_crc_part f) bs = frame_crc (header_crc_part f) (payload_bytes f)"
  using assms
  by (auto simp: pai_proto_frame_validate_def decode_header decoded_def header_fields Let_def
      split: if_splits)

section \<open>Properties\<close>

text \<open>C19. Round trip: whatever the encoder emits for a well-formed frame, the decoder reads back
  from the first 40 bytes the same type, request id, session id and payload length and the low 16
  flag bits, and the integrity check accepts header and payload.\<close>

theorem frame_roundtrip:
  assumes "pai_proto_frame_encode f cap = Inr wire" and "frame_wf f"
  shows "pai_proto_frame_decode (take 40 wire) =
           Inr (f\<lparr>version := 1, flags := flags f AND 0xFFFF, payload := None\<rparr>) \<and>
         drop 40 wire = payload_bytes f \<and>
         length wire = unat (payload_len f) + 40 \<and>
         pai_proto_frame_validate (take 40 wire) (Some (drop 40 wire)) = Inr ()"
proof -
  have s: "frame_sendable f" and w: "wire = frame_header f @ payload_bytes f"
    using assms(1)
    by (auto simp: pai_proto_frame_encode_def frame_sendable_def not_less split: if_splits)
  then show ?thesis
    using decode_header [OF s] validate_header [OF s assms(2), of "Some (payload_bytes f)"] assms(2)
    by (simp add: decoded_def frame_wf_def)
qed

definition ping_frame :: pai_proto_frame where
  "ping_frame = \<lparr>version = 0, msg_type = 4, flags = 1, request_id = 7, session_id = 9,
     payload = Some [10, 11], payload_len = 2\<rparr>"

theorem frame_roundtrip_witness:
  "pai_proto_frame_decode (take 40 (frame_header ping_frame @ payload_bytes ping_frame)) =
     Inr (ping_frame\<lparr>version := 1, flags := 1, payload := None\<rparr>)"
  using frame_roundtrip [of ping_frame 42 "frame_header ping_frame @ payload_bytes ping_frame"]
  by (simp add: pai_proto_frame_encode_def ping_frame_def frame_wf_def payload_bytes_def
      pai_proto_frame_size_def proto_consts)

text \<open>C10. Integrity: if a payload of the right length differs from the one that was encoded only
  inside one window of four consecutive bytes, the integrity check refuses the frame.\<close>

theorem frame_corruption_detected:
  assumes "pai_proto_frame_encode f cap = Inr wire" and "frame_wf f"
    and "payload_bytes f = pre @ ms @ post" and "length ms = 4" and "length ms' = 4" and "ms' \<noteq> ms"
  shows "pai_proto_frame_validate (take 40 wire) (Some (pre @ ms' @ post)) = Inl PAI_ERR_PROTOCOL"
proof -
  have s: "frame_sendable f" and w: "wire = frame_header f @ payload_bytes f"
    using assms(1)
    by (auto simp: pai_proto_frame_encode_def frame_sendable_def not_less split: if_splits)
  have len: "length (pre @ ms' @ post) = unat (payload_len f)"
    using assms(2-5) by (simp add: frame_wf_def)
  have "frame_crc (header_crc_part f) (pre @ ms' @ post) \<noteq>
      frame_crc (header_crc_part f) (pre @ ms @ post)"
    using crc_upd_burst [OF assms(5,4,6)] by (simp only: frame_crc_def crc_fin_inj not_False_eq_True)
  then show ?thesis
    using len s assms(3)
    by (simp add: w pai_proto_frame_validate_def decode_header decoded_def header_fields Let_def)
qed

definition blob_frame :: pai_proto_frame where
  "blob_frame = ping_frame\<lparr>payload := Some [1, 2, 3, 4, 5], payload_len := 5\<rparr>"

theorem frame_corruption_detected_witness:
  "pai_proto_frame_validate (take 40 (frame_header blob_frame @ payload_bytes blob_frame))
     (Some ([1] @ [2, 3, 4, 6] @ [])) = Inl PAI_ERR_PROTOCOL"
proof (rule frame_corruption_detected [of blob_frame 64 _ "[1]" "[2, 3, 4, 5]" "[]"])
  show "pai_proto_frame_encode blob_frame 64 =
      Inr (frame_header blob_frame @ payload_bytes blob_frame)"
    by (simp add: pai_proto_frame_encode_def blob_frame_def ping_frame_def
        pai_proto_frame_size_def proto_consts)
qed (simp_all add: blob_frame_def ping_frame_def frame_wf_def payload_bytes_def)

end
