(* ===== verification/Message.thy ===== *)
theory Message
  imports Frame
begin

text \<open>
  \<^verbatim>\<open>protocol/message.c\<close>: the payload codecs. An encoder returns the bytes it stores at
  \<open>out[0 .. *out_len)\<close>; a decoder takes the payload pointer (\<open>None\<close> for NULL) and its length,
  and returns the slices and values it hands out. A C string is the list of its bytes before the
  terminating zero, a \<open>float\<close> the 32-bit word that is copied verbatim.

  The locale \<open>payload_codec\<close> is the contract between these codecs and the frame layer: an encoder
  that respects its capacity and a decoder that inverts it. Its client lemma says that such a
  payload survives framing, and every codec of the file is an interpretation.
\<close>

section \<open>Message types\<close>

definition PAI_PROTO_MSG_HELLO :: u32 where "PAI_PROTO_MSG_HELLO = 0x0001"
definition PAI_PROTO_MSG_HELLO_ACK :: u32 where "PAI_PROTO_MSG_HELLO_ACK = 0x0002"
definition PAI_PROTO_MSG_HELLO_NACK :: u32 where "PAI_PROTO_MSG_HELLO_NACK = 0x0003"
definition PAI_PROTO_MSG_PING :: u32 where "PAI_PROTO_MSG_PING = 0x0004"
definition PAI_PROTO_MSG_PONG :: u32 where "PAI_PROTO_MSG_PONG = 0x0005"
definition PAI_PROTO_MSG_ERROR :: u32 where "PAI_PROTO_MSG_ERROR = 0x0006"
definition PAI_PROTO_MSG_CLOSE :: u32 where "PAI_PROTO_MSG_CLOSE = 0x0007"
definition PAI_PROTO_MSG_SESSION_CREATE :: u32 where "PAI_PROTO_MSG_SESSION_CREATE = 0x0101"
definition PAI_PROTO_MSG_SESSION_CREATED :: u32 where "PAI_PROTO_MSG_SESSION_CREATED = 0x0102"
definition PAI_PROTO_MSG_SESSION_CLOSE :: u32 where "PAI_PROTO_MSG_SESSION_CLOSE = 0x0103"
definition PAI_PROTO_MSG_SESSION_CLOSED :: u32 where "PAI_PROTO_MSG_SESSION_CLOSED = 0x0104"
definition PAI_PROTO_MSG_GENERATE :: u32 where "PAI_PROTO_MSG_GENERATE = 0x0201"
definition PAI_PROTO_MSG_ACCEPTED :: u32 where "PAI_PROTO_MSG_ACCEPTED = 0x0202"
definition PAI_PROTO_MSG_TOKEN :: u32 where "PAI_PROTO_MSG_TOKEN = 0x0203"
definition PAI_PROTO_MSG_COMPLETE :: u32 where "PAI_PROTO_MSG_COMPLETE = 0x0204"
definition PAI_PROTO_MSG_EMBED :: u32 where "PAI_PROTO_MSG_EMBED = 0x0205"
definition PAI_PROTO_MSG_EMBEDDING :: u32 where "PAI_PROTO_MSG_EMBEDDING = 0x0206"
definition PAI_PROTO_MSG_STREAM_DATA :: u32 where "PAI_PROTO_MSG_STREAM_DATA = 0x0301"
definition PAI_PROTO_MSG_STREAM_CLOSE :: u32 where "PAI_PROTO_MSG_STREAM_CLOSE = 0x0302"

lemmas msg_consts =
  PAI_PROTO_MSG_HELLO_def PAI_PROTO_MSG_HELLO_ACK_def PAI_PROTO_MSG_HELLO_NACK_def
  PAI_PROTO_MSG_PING_def PAI_PROTO_MSG_PONG_def PAI_PROTO_MSG_ERROR_def PAI_PROTO_MSG_CLOSE_def
  PAI_PROTO_MSG_SESSION_CREATE_def PAI_PROTO_MSG_SESSION_CREATED_def
  PAI_PROTO_MSG_SESSION_CLOSE_def PAI_PROTO_MSG_SESSION_CLOSED_def PAI_PROTO_MSG_GENERATE_def
  PAI_PROTO_MSG_ACCEPTED_def PAI_PROTO_MSG_TOKEN_def PAI_PROTO_MSG_COMPLETE_def
  PAI_PROTO_MSG_EMBED_def PAI_PROTO_MSG_EMBEDDING_def PAI_PROTO_MSG_STREAM_DATA_def
  PAI_PROTO_MSG_STREAM_CLOSE_def

definition msg_names :: "(u32 \<times> string) list" where
  "msg_names =
     [(PAI_PROTO_MSG_HELLO, ''hello''), (PAI_PROTO_MSG_HELLO_ACK, ''hello_ack''),
      (PAI_PROTO_MSG_HELLO_NACK, ''hello_nack''), (PAI_PROTO_MSG_PING, ''ping''),
      (PAI_PROTO_MSG_PONG, ''pong''), (PAI_PROTO_MSG_ERROR, ''error''),
      (PAI_PROTO_MSG_CLOSE, ''close''), (PAI_PROTO_MSG_SESSION_CREATE, ''session_create''),
      (PAI_PROTO_MSG_SESSION_CREATED, ''session_created''),
      (PAI_PROTO_MSG_SESSION_CLOSE, ''session_close''),
      (PAI_PROTO_MSG_SESSION_CLOSED, ''session_closed''), (PAI_PROTO_MSG_GENERATE, ''generate''),
      (PAI_PROTO_MSG_ACCEPTED, ''accepted''), (PAI_PROTO_MSG_TOKEN, ''token''),
      (PAI_PROTO_MSG_COMPLETE, ''complete''), (PAI_PROTO_MSG_EMBED, ''embed''),
      (PAI_PROTO_MSG_EMBEDDING, ''embedding''), (PAI_PROTO_MSG_STREAM_DATA, ''stream_data''),
      (PAI_PROTO_MSG_STREAM_CLOSE, ''stream_close'')]"

definition pai_proto_msg_name :: "u32 \<Rightarrow> string" where
  "pai_proto_msg_name t = (case map_of msg_names t of Some n \<Rightarrow> n | None \<Rightarrow> ''unknown'')"

section \<open>Codecs\<close>

subsection \<open>Capabilities, single words\<close>

definition PAI_PROTO_U32_PAIR_SIZE :: u32 where "PAI_PROTO_U32_PAIR_SIZE = 8"

definition pai_proto_msg_encode_caps :: "u32 \<Rightarrow> u32 \<Rightarrow> bytes res" where
  "pai_proto_msg_encode_caps cap caps =
     (if cap < PAI_PROTO_U32_PAIR_SIZE then Inl PAI_ERR_INVALID_ARG
      else Inr (put_le32 caps @ put_le32 0))"

definition pai_proto_msg_decode_caps :: "bytes option \<Rightarrow> u32 \<Rightarrow> u32 res" where
  "pai_proto_msg_decode_caps pay len =
     (case pay of
        None \<Rightarrow> Inl PAI_ERR_PROTOCOL
      | Some p \<Rightarrow> if len < PAI_PROTO_U32_PAIR_SIZE then Inl PAI_ERR_PROTOCOL else Inr (get_le32 p))"

definition pai_proto_msg_encode_u32 :: "u32 \<Rightarrow> u32 \<Rightarrow> bytes res" where
  "pai_proto_msg_encode_u32 cap val =
     (if cap < PAI_PROTO_U32_PAIR_SIZE then Inl PAI_ERR_INVALID_ARG
      else Inr (put_le32 val @ put_le32 0))"

definition pai_proto_msg_decode_u32 :: "bytes option \<Rightarrow> u32 \<Rightarrow> u32 res" where
  "pai_proto_msg_decode_u32 pay len =
     (case pay of
        None \<Rightarrow> Inl PAI_ERR_PROTOCOL
      | Some p \<Rightarrow> if len < PAI_PROTO_U32_PAIR_SIZE then Inl PAI_ERR_PROTOCOL else Inr (get_le32 p))"

subsection \<open>Errors\<close>

definition PAI_PROTO_ERROR_MSG_MAX :: u32 where "PAI_PROTO_ERROR_MSG_MAX = 255"

definition pai_proto_msg_encode_error :: "u32 \<Rightarrow> u32 \<Rightarrow> bytes option \<Rightarrow> bytes res" where
  "pai_proto_msg_encode_error cap status msg =
     (let msg_len =
        (case msg of
           None \<Rightarrow> 0
         | Some m \<Rightarrow>
             (let l = of_nat (length m)
              in if l > PAI_PROTO_ERROR_MSG_MAX then PAI_PROTO_ERROR_MSG_MAX else l));
        total = 8 + msg_len
      in if cap < total then Inl PAI_ERR_INVALID_ARG
         else Inr (put_le32 status @ put_le32 msg_len @
                   take (unat msg_len) (case msg of None \<Rightarrow> [] | Some m \<Rightarrow> m)))"

text \<open>\<open>msg_cap\<close> is \<open>None\<close> for a NULL \<open>out_msg\<close>; the copied text comes with its terminator.\<close>

definition pai_proto_msg_decode_error ::
    "bytes option \<Rightarrow> u32 \<Rightarrow> u32 option \<Rightarrow> (u32 \<times> bytes option) res" where
  "pai_proto_msg_decode_error pay len msg_cap =
     (case pay of
        None \<Rightarrow> Inl PAI_ERR_PROTOCOL
      | Some p \<Rightarrow>
          if len < 8 then Inl PAI_ERR_PROTOCOL
          else
            (let status = get_le32 p; msg_len = get_le32 (drop 4 p)
             in if msg_len > len - 8 then Inl PAI_ERR_PROTOCOL
                else Inr (status,
                  (case msg_cap of
                     None \<Rightarrow> None
                   | Some c \<Rightarrow>
                       if c > 0 then
                         (let n = (if msg_len < c - 1 then msg_len else c - 1)
                          in Some (take (unat n) (drop 8 p) @ [0]))
                       else None))))"

subsection \<open>Length-prefixed blobs\<close>

definition encode_u16_blob :: "u32 \<Rightarrow> bytes option \<Rightarrow> u32 \<Rightarrow> bytes res" where
  "encode_u16_blob cap blob blob_len =
     (if blob_len > 0xFFFF then Inl PAI_ERR_INVALID_ARG
      else if blob_len > 0 \<and> blob = None then Inl PAI_ERR_INVALID_ARG
      else if cap < 2 + blob_len then Inl PAI_ERR_INVALID_ARG
      else Inr (put_le16 (ucast blob_len) @
                take (unat blob_len) (case blob of None \<Rightarrow> [] | Some b \<Rightarrow> b)))"

definition decode_u16_blob :: "bytes option \<Rightarrow> u32 \<Rightarrow> bytes res" where
  "decode_u16_blob pay len =
     (case pay of
        None \<Rightarrow> Inl PAI_ERR_PROTOCOL
      | Some p \<Rightarrow>
          if len < 2 then Inl PAI_ERR_PROTOCOL
          else
            (let blob_len = (ucast (get_le16 p) :: u32)
             in if blob_len > len - 2 then Inl PAI_ERR_PROTOCOL
                else Inr (take (unat blob_len) (drop 2 p))))"

definition pai_proto_msg_encode_token :: "u32 \<Rightarrow> bytes option \<Rightarrow> u32 \<Rightarrow> bytes res" where
  "pai_proto_msg_encode_token cap token token_len = encode_u16_blob cap token token_len"

definition pai_proto_msg_decode_token :: "bytes option \<Rightarrow> u32 \<Rightarrow> bytes res" where
  "pai_proto_msg_decode_token pay len = decode_u16_blob pay len"

subsection \<open>Generate, with the optional sampler trailer\<close>

record pai_proto_sampler =
  temperature :: u32
  top_p :: u32
  top_k :: u32
  max_tokens :: u32
  seed :: u64

definition PAI_PROTO_SAMPLER_MAGIC :: u32 where "PAI_PROTO_SAMPLER_MAGIC = 0x50414953"
definition SIZEOF_SAMPLER :: u32 where "SIZEOF_SAMPLER = 24"

text \<open>\<^verbatim>\<open>message.c\<close> writes 64-bit values as two 32-bit halves.\<close>

definition msg_put_le64 :: "u64 \<Rightarrow> bytes" where
  "msg_put_le64 v = put_le32 (ucast (v AND 0xFFFFFFFF)) @ put_le32 (ucast (drop_bit 32 v))"

definition msg_get_le64 :: "bytes \<Rightarrow> u64" where
  "msg_get_le64 p = ucast (get_le32 p) OR push_bit 32 (ucast (get_le32 (drop 4 p)))"

definition encode_sampler_trailer :: "pai_proto_sampler \<Rightarrow> bytes" where
  "encode_sampler_trailer s =
     put_le32 PAI_PROTO_SAMPLER_MAGIC @ put_le32 (temperature s) @ put_le32 (top_p s) @
     put_le32 (top_k s) @ put_le32 (max_tokens s) @ msg_put_le64 (seed s)"

definition decode_sampler_trailer :: "bytes \<Rightarrow> u32 \<Rightarrow> pai_proto_sampler res" where
  "decode_sampler_trailer t len =
     (if len \<noteq> 4 + SIZEOF_SAMPLER \<or> get_le32 t \<noteq> PAI_PROTO_SAMPLER_MAGIC
      then Inl PAI_ERR_PROTOCOL
      else Inr \<lparr>temperature = get_le32 (drop 4 t), top_p = get_le32 (drop 8 t),
                top_k = get_le32 (drop 12 t), max_tokens = get_le32 (drop 16 t),
                seed = msg_get_le64 (drop 20 t)\<rparr>)"

definition pai_proto_msg_encode_generate2 ::
    "u32 \<Rightarrow> bytes option \<Rightarrow> pai_proto_sampler option \<Rightarrow> bytes res" where
  "pai_proto_msg_encode_generate2 cap prompt sampler =
     (case prompt of
        None \<Rightarrow> Inl PAI_ERR_INVALID_ARG
      | Some p \<Rightarrow>
          (let plen = (of_nat (length p) :: u32)
           in if plen > 0xFFFF then Inl PAI_ERR_INVALID_ARG
              else
                (case sampler of
                   None \<Rightarrow> encode_u16_blob cap prompt plen
                 | Some s \<Rightarrow>
                     if cap < 2 + plen + 4 + SIZEOF_SAMPLER then Inl PAI_ERR_INVALID_ARG
                     else Inr (put_le16 (ucast plen) @ take (unat plen) p @
                               encode_sampler_trailer s))))"

text \<open>\<open>want\<close>: both sampler output pointers are non-NULL. \<open>out_has_sampler\<close> is the option.\<close>

definition pai_proto_msg_decode_generate2 ::
    "bytes option \<Rightarrow> u32 \<Rightarrow> bool \<Rightarrow> (bytes \<times> pai_proto_sampler option) res" where
  "pai_proto_msg_decode_generate2 pay len want =
     (case decode_u16_blob pay len of
        Inl e \<Rightarrow> Inl e
      | Inr prompt \<Rightarrow>
          (let p = the pay; plen = (ucast (get_le16 p) :: u32)
           in Inr (prompt,
                if want \<and> len > 2 + plen then
                  (case decode_sampler_trailer (drop (unat (2 + plen)) p) (len - (2 + plen)) of
                     Inl _ \<Rightarrow> None | Inr s \<Rightarrow> Some s)
                else None)))"

definition pai_proto_msg_encode_generate :: "u32 \<Rightarrow> bytes option \<Rightarrow> bytes res" where
  "pai_proto_msg_encode_generate cap prompt = pai_proto_msg_encode_generate2 cap prompt None"

definition pai_proto_msg_decode_generate :: "bytes option \<Rightarrow> u32 \<Rightarrow> bytes res" where
  "pai_proto_msg_decode_generate pay len =
     (case pai_proto_msg_decode_generate2 pay len False of Inl e \<Rightarrow> Inl e | Inr (p, _) \<Rightarrow> Inr p)"

subsection \<open>Embeddings\<close>

definition PAI_PROTO_MAX_EMBED_DIM :: u32 where "PAI_PROTO_MAX_EMBED_DIM = 0x10000"

definition pai_proto_msg_encode_embed :: "u32 \<Rightarrow> bytes option \<Rightarrow> u32 \<Rightarrow> bytes res" where
  "pai_proto_msg_encode_embed cap txt text_len = encode_u16_blob cap txt text_len"

definition pai_proto_msg_decode_embed :: "bytes option \<Rightarrow> u32 \<Rightarrow> bytes res" where
  "pai_proto_msg_decode_embed pay len =
     (case decode_u16_blob pay len of
        Inl e \<Rightarrow> Inl e
      | Inr blob \<Rightarrow>
          if len \<noteq> 2 + ucast (get_le16 (the pay)) then Inl PAI_ERR_PROTOCOL else Inr blob)"

definition pai_proto_msg_encode_embedding :: "u32 \<Rightarrow> u32 list option \<Rightarrow> u32 \<Rightarrow> bytes res" where
  "pai_proto_msg_encode_embedding cap vals dim =
     (if dim = 0 \<or> dim > PAI_PROTO_MAX_EMBED_DIM \<or> vals = None then Inl PAI_ERR_INVALID_ARG
      else if cap < 4 + dim * 4 then Inl PAI_ERR_INVALID_ARG
      else Inr (put_le32 dim @ concat (map put_le32 (take (unat dim) (the vals)))))"

text \<open>The decoder hands out a pointer to \<open>dim\<close> floats inside the payload.\<close>

fun read_floats :: "nat \<Rightarrow> bytes \<Rightarrow> u32 list" where
  "read_floats 0 p = []"
| "read_floats (Suc n) p = get_le32 p # read_floats n (drop 4 p)"

definition pai_proto_msg_decode_embedding :: "bytes option \<Rightarrow> u32 \<Rightarrow> u32 list res" where
  "pai_proto_msg_decode_embedding pay len =
     (case pay of
        None \<Rightarrow> Inl PAI_ERR_PROTOCOL
      | Some p \<Rightarrow>
          if len < 4 then Inl PAI_ERR_PROTOCOL
          else
            (let dim = get_le32 p
             in if dim = 0 \<or> dim > PAI_PROTO_MAX_EMBED_DIM \<or> len \<noteq> 4 + dim * 4
                then Inl PAI_ERR_PROTOCOL
                else Inr (read_floats (unat dim) (drop 4 p))))"

subsection \<open>Stream data\<close>

definition pai_proto_msg_encode_stream_data ::
    "u32 \<Rightarrow> u8 \<Rightarrow> u32 \<Rightarrow> bytes option \<Rightarrow> u32 \<Rightarrow> bytes res" where
  "pai_proto_msg_encode_stream_data cap kind seqno data data_len =
     (if data_len > 0 \<and> data = None then Inl PAI_ERR_INVALID_ARG
      else if cap < 12 + data_len then Inl PAI_ERR_INVALID_ARG
      else Inr ([kind, 0, 0, 0] @ put_le32 seqno @ put_le32 data_len @
                take (unat data_len) (case data of None \<Rightarrow> [] | Some d \<Rightarrow> d)))"

definition pai_proto_msg_decode_stream_data ::
    "bytes option \<Rightarrow> u32 \<Rightarrow> (u8 \<times> u32 \<times> bytes) res" where
  "pai_proto_msg_decode_stream_data pay len =
     (case pay of
        None \<Rightarrow> Inl PAI_ERR_PROTOCOL
      | Some p \<Rightarrow>
          if len < 12 then Inl PAI_ERR_PROTOCOL
          else
            (let data_len = get_le32 (drop 8 p)
             in if data_len > len - 12 then Inl PAI_ERR_PROTOCOL
                else Inr (p ! 0, get_le32 (drop 4 p), take (unat data_len) (drop 12 p))))"

section \<open>Word facts\<close>

lemma unat_of_nat_small: "n < 2 ^ LENGTH('a) \<Longrightarrow> unat (of_nat n :: 'a::len word) = n"
  by (simp add: unsigned_of_nat take_bit_nat_eq_self)

lemma unat_add_small:
  "unat (a::u32) + unat b < 2 ^ 32 \<Longrightarrow> unat (a + b) = unat a + unat b"
  by (subst unat_add_lem [THEN iffD1]) simp_all

lemma unat_le16 [nat_word]:
  assumes "(l::u32) \<le> 0xFFFF"
  shows "ucast (ucast l :: u16) = l"
proof -
  have m: "(0xFFFF :: u32) = mask 16" by (simp add: mask_eq_exp_minus_1)
  have "l < 2 ^ 16"
    using assms by (simp add: word_less_nat_alt word_le_nat_alt)
  then have "l AND 0xFFFF = l"
    unfolding m by (rule less_mask_eq)
  then show ?thesis by (simp add: flags_truncate)
qed

lemma msg_le64 [simp, codec]:
  "length (msg_put_le64 v) = 8" "msg_get_le64 (msg_put_le64 v @ xs) = v"
proof -
  have m: "(0xFFFFFFFF :: u64) = mask 32" by (simp add: mask_eq_exp_minus_1)
  show "msg_get_le64 (msg_put_le64 v @ xs) = v"
    by (rule bit_word_eqI)
      (auto simp: msg_get_le64_def msg_put_le64_def m bit_simps not_less dest: bit_imp_le_length)
qed (simp add: msg_put_le64_def)

lemma length_sampler_trailer [simp, codec]: "length (encode_sampler_trailer s) = 28"
  by (simp add: encode_sampler_trailer_def)

lemma sampler_trailer_roundtrip:
  "decode_sampler_trailer (encode_sampler_trailer s) 28 = Inr s"
  using msg_le64(2) [of "seed s" "[]"]
  by (simp add: decode_sampler_trailer_def encode_sampler_trailer_def SIZEOF_SAMPLER_def)

lemma read_floats_concat: "read_floats (length vs) (concat (map put_le32 vs)) = vs"
  by (induction vs) simp_all

lemma length_concat_le32 [simp]: "length (concat (map put_le32 vs)) = 4 * length vs"
  by (induction vs) simp_all

section \<open>The contract between payload codecs and frames\<close>

locale payload_codec =
  fixes enc :: "'a \<Rightarrow> u32 \<Rightarrow> bytes res"
    and dec :: "bytes option \<Rightarrow> u32 \<Rightarrow> 'b res"
    and view :: "'a \<Rightarrow> 'b"
    and wf :: "'a \<Rightarrow> bool"
  assumes enc_fits: "wf x \<Longrightarrow> enc x cap = Inr bs \<Longrightarrow> length bs \<le> unat cap"
    and dec_enc: "wf x \<Longrightarrow> enc x cap = Inr bs \<Longrightarrow> dec (Some bs) (of_nat (length bs)) = Inr (view x)"
begin

lemma payload_size: "wf x \<Longrightarrow> enc x cap = Inr bs \<Longrightarrow> unat (of_nat (length bs) :: u32) = length bs"
  using enc_fits unsigned_less [of cap, where 'a = nat]
  by (intro unat_of_nat_small) (fastforce intro: le_less_trans)

text \<open>A payload that was encoded, framed, transmitted and validated decodes to the value that was
  encoded.\<close>

lemma framed_roundtrip:
  assumes "wf x" "enc x cap = Inr bs"
    and "payload f = Some bs" "payload_len f = of_nat (length bs)"
    and "pai_proto_frame_encode f wcap = Inr wire"
  shows "pai_proto_frame_validate (take 40 wire) (Some (drop 40 wire)) = Inr () \<and>
    dec (Some (drop 40 wire)) (payload_len f) = Inr (view x)"
proof -
  have pb: "payload_bytes f = bs"
    using assms payload_size [OF assms(1,2)] by (simp add: payload_bytes_def)
  then have wff: "frame_wf f"
    using assms payload_size [OF assms(1,2)] by (simp add: frame_wf_def)
  have s: "frame_sendable f" and w: "wire = frame_header f @ payload_bytes f"
    using assms(5)
    by (auto simp: pai_proto_frame_encode_def frame_sendable_def not_less split: if_splits)
  show ?thesis
    using validate_header [OF s wff, of "Some bs"] dec_enc [OF assms(1,2)] assms(4)
    by (simp add: w pb)
qed

end

section \<open>Every codec meets the contract\<close>

lemma u32_pair_bytes:
  "pai_proto_msg_encode_u32 cap v = Inr bs \<Longrightarrow> bs = put_le32 v @ put_le32 0 \<and> 8 \<le> unat cap"
  "pai_proto_msg_encode_caps cap v = Inr bs \<Longrightarrow> bs = put_le32 v @ put_le32 0 \<and> 8 \<le> unat cap"
  by (auto simp: pai_proto_msg_encode_u32_def pai_proto_msg_encode_caps_def
      PAI_PROTO_U32_PAIR_SIZE_def word_less_nat_alt split: if_splits)

interpretation caps_codec: payload_codec
  "\<lambda>caps cap. pai_proto_msg_encode_caps cap caps" pai_proto_msg_decode_caps "\<lambda>c. c" "\<lambda>_. True"
  by unfold_locales
    (auto dest!: u32_pair_bytes simp: pai_proto_msg_decode_caps_def PAI_PROTO_U32_PAIR_SIZE_def)

interpretation u32_codec: payload_codec
  "\<lambda>v cap. pai_proto_msg_encode_u32 cap v" pai_proto_msg_decode_u32 "\<lambda>v. v" "\<lambda>_. True"
  by unfold_locales
    (auto dest!: u32_pair_bytes simp: pai_proto_msg_decode_u32_def PAI_PROTO_U32_PAIR_SIZE_def)

text \<open>ERROR: the text is cut at 255 bytes; a receiver with room for 256 gets all of it.\<close>

lemma encode_error_bytes:
  assumes "pai_proto_msg_encode_error cap st m = Inr bs"
    and "\<And>x. m = Some x \<Longrightarrow> length x < 2 ^ 32"
  defines "t \<equiv> take 255 (case m of None \<Rightarrow> [] | Some x \<Rightarrow> x)"
  shows "bs = put_le32 st @ put_le32 (of_nat (length t)) @ t \<and> 8 + length t \<le> unat cap"
proof -
  define l :: u32 where "l = of_nat (length t)"
  have t255: "length t \<le> 255" by (simp add: t_def)
  then have ul: "unat l = length t" by (simp add: l_def unat_of_nat_small)
  have "(case m of None \<Rightarrow> 0 | Some x \<Rightarrow> (let k = of_nat (length x)
      in if k > PAI_PROTO_ERROR_MSG_MAX then PAI_PROTO_ERROR_MSG_MAX else k)) = l"
  proof (cases m)
    case (Some x)
    then have "unat (of_nat (length x) :: u32) = length x"
      using assms(2) by (simp add: unat_of_nat_small)
    then show ?thesis
      using Some by (simp add: l_def t_def PAI_PROTO_ERROR_MSG_MAX_def word_less_nat_alt Let_def)
  qed (simp add: l_def t_def)
  moreover have "take (unat l) (case m of None \<Rightarrow> [] | Some x \<Rightarrow> x) = t"
    by (auto simp: ul t_def min_def)
  moreover have "unat (8 + l) = 8 + length t"
    using t255 ul by (subst unat_add_small) simp_all
  ultimately show ?thesis
    using assms(1)
    by (auto simp: pai_proto_msg_encode_error_def Let_def l_def word_less_nat_alt split: if_splits)
qed

lemma decode_error_bytes:
  assumes "length t \<le> 255"
  shows "pai_proto_msg_decode_error (Some (put_le32 st @ put_le32 (of_nat (length t)) @ t))
      (of_nat (8 + length t)) (Some 256) = Inr (st, Some (t @ [0]))"
proof -
  have u: "unat (of_nat (length t) :: u32) = length t"
    using assms by (simp add: unat_of_nat_small)
  then have "\<not> (of_nat (8 + length t) :: u32) < 8"
    using assms by (simp add: word_less_nat_alt unat_of_nat_small del: of_nat_add)
  moreover have "(of_nat (8 + length t) :: u32) - 8 = of_nat (length t)" by simp
  moreover have "unat (if (of_nat (length t) :: u32) < 255 then of_nat (length t) else 255 :: u32)
      = length t"
    using u assms by (simp add: word_less_nat_alt)
  ultimately show ?thesis
    using u assms by (simp add: pai_proto_msg_decode_error_def Let_def del: of_nat_add)
qed

interpretation error_codec: payload_codec
  "\<lambda>(st, m) cap. pai_proto_msg_encode_error cap st m"
  "\<lambda>p l. pai_proto_msg_decode_error p l (Some 256)"
  "\<lambda>(st, m). (st, Some (take 255 (case m of None \<Rightarrow> [] | Some x \<Rightarrow> x) @ [0]))"
  "\<lambda>(st, m). \<forall>x. m = Some x \<longrightarrow> length x < 2 ^ 32"
proof unfold_locales
  fix x cap bs
  assume wf: "case x of (st, m) \<Rightarrow> \<forall>x. m = Some x \<longrightarrow> length x < 2 ^ 32"
    and enc: "(case x of (st, m) \<Rightarrow> \<lambda>cap. pai_proto_msg_encode_error cap st m) cap = Inr bs"
  obtain st m where x: "x = (st, m)" by (cases x)
  let ?t = "take 255 (case m of None \<Rightarrow> [] | Some x \<Rightarrow> x)"
  have b: "bs = put_le32 st @ put_le32 (of_nat (length ?t)) @ ?t \<and> 8 + length ?t \<le> unat cap"
    using encode_error_bytes [of cap st m bs] wf enc by (simp add: x)
  then show "length bs \<le> unat cap" by simp
  show "pai_proto_msg_decode_error (Some bs) (of_nat (length bs)) (Some 256) =
      Inr (case x of (st, m) \<Rightarrow> (st, Some (take 255 (case m of None \<Rightarrow> [] | Some x \<Rightarrow> x) @ [0])))"
    using decode_error_bytes [of ?t st] b by (simp add: x)
qed

lemma ucast_of_nat_16: "ucast (of_nat n :: u32) = (of_nat n :: u16)"
  by (rule bit_word_eqI) (auto simp: bit_simps)

lemma encode_blob_bytes:
  assumes "encode_u16_blob cap (Some b) (of_nat (length b)) = Inr bs" "length b < 2 ^ 32"
  shows "bs = put_le16 (of_nat (length b)) @ b \<and> length b \<le> 0xFFFF \<and> 2 + length b \<le> unat cap"
proof -
  let ?l = "of_nat (length b) :: u32"
  have u: "unat ?l = length b" using assms(2) by (simp add: unat_of_nat_small)
  have g: "\<not> ?l > 0xFFFF" "\<not> cap < 2 + ?l" and bs: "bs = put_le16 (ucast ?l) @ take (unat ?l) b"
    using assms(1) by (auto simp: encode_u16_blob_def split: if_splits)
  have le: "length b \<le> 0xFFFF" using g(1) u by (simp add: word_less_nat_alt)
  then have "unat (2 + ?l) = 2 + length b" using u by (subst unat_add_small) simp_all
  then show ?thesis
    using g(2) bs u le by (simp add: word_less_nat_alt ucast_of_nat_16)
qed

lemma decode_blob_bytes:
  assumes "length b \<le> 0xFFFF" "length bs = 2 + length b + length rest" "length bs < 2 ^ 32"
    "bs = put_le16 (of_nat (length b)) @ b @ rest"
  shows "decode_u16_blob (Some bs) (of_nat (length bs)) = Inr b"
    and "ucast (get_le16 bs) = (of_nat (length b) :: u32)"
proof -
  have g: "get_le16 bs = of_nat (length b)" by (simp add: assms(4))
  have "(of_nat (length b) :: u32) \<le> 0xFFFF"
    using assms(1) by (simp add: word_le_nat_alt unat_of_nat_small)
  from unat_le16 [OF this] show e: "ucast (get_le16 bs) = (of_nat (length b) :: u32)"
    by (simp add: g ucast_of_nat_16)
  have ul: "unat (of_nat (length bs) :: u32) = length bs"
    using assms(3) by (intro unat_of_nat_small) simp
  have "(of_nat (length bs) :: u32) - 2 = of_nat (length b + length rest)"
    using assms(2) by simp
  moreover have "unat (of_nat (length b + length rest) :: u32) = length b + length rest"
    using assms(2,3) by (intro unat_of_nat_small) simp
  ultimately show "decode_u16_blob (Some bs) (of_nat (length bs)) = Inr b"
    using ul assms(1,2,4) e
    by (simp add: decode_u16_blob_def Let_def word_less_nat_alt unat_of_nat_small del: of_nat_add)
qed

interpretation token_codec: payload_codec
  "\<lambda>t cap. pai_proto_msg_encode_token cap (Some t) (of_nat (length t))"
  pai_proto_msg_decode_token "\<lambda>t. t" "\<lambda>t. length t < 2 ^ 32"
proof unfold_locales
  fix t :: bytes and cap bs
  assume wf: "length t < 2 ^ 32"
    and enc: "pai_proto_msg_encode_token cap (Some t) (of_nat (length t)) = Inr bs"
  have b: "bs = put_le16 (of_nat (length t)) @ t \<and> length t \<le> 0xFFFF \<and> 2 + length t \<le> unat cap"
    using encode_blob_bytes wf enc by (simp add: pai_proto_msg_encode_token_def)
  then show "length bs \<le> unat cap" by simp
  show "pai_proto_msg_decode_token (Some bs) (of_nat (length bs)) = Inr t"
    using decode_blob_bytes(1) [of t bs "[]"] b by (simp add: pai_proto_msg_decode_token_def)
qed

interpretation embed_codec: payload_codec
  "\<lambda>t cap. pai_proto_msg_encode_embed cap (Some t) (of_nat (length t))"
  pai_proto_msg_decode_embed "\<lambda>t. t" "\<lambda>t. length t < 2 ^ 32"
proof unfold_locales
  fix t :: bytes and cap bs
  assume wf: "length t < 2 ^ 32"
    and enc: "pai_proto_msg_encode_embed cap (Some t) (of_nat (length t)) = Inr bs"
  have b: "bs = put_le16 (of_nat (length t)) @ t \<and> length t \<le> 0xFFFF \<and> 2 + length t \<le> unat cap"
    using encode_blob_bytes wf enc by (simp add: pai_proto_msg_encode_embed_def)
  then show "length bs \<le> unat cap" by simp
  show "pai_proto_msg_decode_embed (Some bs) (of_nat (length bs)) = Inr t"
    using decode_blob_bytes [of t bs "[]"] b by (simp add: pai_proto_msg_decode_embed_def)
qed

lemma encode_generate_bytes:
  assumes "pai_proto_msg_encode_generate2 cap (Some p) s = Inr bs" "length p < 2 ^ 32"
  defines "tr \<equiv> (case s of None \<Rightarrow> [] | Some x \<Rightarrow> encode_sampler_trailer x)"
  shows "bs = put_le16 (of_nat (length p)) @ p @ tr \<and> length p \<le> 0xFFFF \<and> length bs \<le> unat cap"
proof (cases s)
  case None
  then show ?thesis
    using encode_blob_bytes [of cap p bs] assms
    by (auto simp: pai_proto_msg_encode_generate2_def Let_def split: if_splits)
next
  case (Some x)
  let ?l = "of_nat (length p) :: u32"
  have u: "unat ?l = length p" using assms(2) by (simp add: unat_of_nat_small)
  have g: "\<not> ?l > 0xFFFF" "\<not> cap < 2 + ?l + 4 + SIZEOF_SAMPLER"
    and bs: "bs = put_le16 (ucast ?l) @ take (unat ?l) p @ encode_sampler_trailer x"
    using assms(1) Some
    by (auto simp: pai_proto_msg_encode_generate2_def Let_def split: if_splits)
  have le: "length p \<le> 0xFFFF" using g(1) u by (simp add: word_less_nat_alt)
  have "unat (30 + ?l) = 30 + length p" using u le by (subst unat_add_small) simp_all
  then have "unat (2 + ?l + 4 + SIZEOF_SAMPLER) = 30 + length p"
    by (simp add: SIZEOF_SAMPLER_def add.commute add.left_commute)
  then show ?thesis
    using g(2) bs u le Some by (simp add: tr_def word_less_nat_alt ucast_of_nat_16)
qed

interpretation generate_codec: payload_codec
  "\<lambda>(p, s) cap. pai_proto_msg_encode_generate2 cap (Some p) s"
  "\<lambda>pay l. pai_proto_msg_decode_generate2 pay l True" "\<lambda>x. x" "\<lambda>(p, s). length p < 2 ^ 32"
proof unfold_locales
  fix x cap bs
  assume wf: "case x of (p, s) \<Rightarrow> length p < 2 ^ 32"
    and enc: "(case x of (p, s) \<Rightarrow> \<lambda>cap. pai_proto_msg_encode_generate2 cap (Some p) s) cap = Inr bs"
  obtain p s where x: "x = (p, s)" by (cases x)
  let ?tr = "case s of None \<Rightarrow> [] | Some x \<Rightarrow> encode_sampler_trailer x"
  have b: "bs = put_le16 (of_nat (length p)) @ p @ ?tr" "length p \<le> 0xFFFF" "length bs \<le> unat cap"
    using encode_generate_bytes [of cap p s bs] wf enc unfolding x by auto
  then show "length bs \<le> unat cap" by simp
  have lb: "length bs < 2 ^ 32"
    using b(3) unsigned_less [of cap, where 'a = nat] by simp
  have d: "decode_u16_blob (Some bs) (of_nat (length bs)) = Inr p"
    and g: "ucast (get_le16 bs) = (of_nat (length p) :: u32)"
    using decode_blob_bytes [of p bs ?tr] b(1,2) lb by simp_all
  have u2: "unat (2 + of_nat (length p) :: u32) = 2 + length p"
    using b(2) by (subst unat_add_small) (simp_all add: unat_of_nat_small)
  show "pai_proto_msg_decode_generate2 (Some bs) (of_nat (length bs)) True = Inr x"
  proof (cases s)
    case None
    then have "(of_nat (length bs) :: u32) = 2 + of_nat (length p)" using b(1) by simp
    then show ?thesis using d g None by (simp add: pai_proto_msg_decode_generate2_def x Let_def)
  next
    case (Some t)
    have "(2 + of_nat (length p) :: u32) < of_nat (length bs)"
      using b(1) lb Some u2 by (simp add: word_less_nat_alt unat_of_nat_small del: of_nat_add)
    moreover have "(of_nat (length bs) :: u32) - (2 + of_nat (length p)) = 28"
      using b(1) Some by simp
    moreover have "drop (2 + length p) bs = encode_sampler_trailer t"
      using b(1) Some by simp
    ultimately show ?thesis
      unfolding pai_proto_msg_decode_generate2_def Let_def d g option.sel u2
      by (simp only: sum.case simp_thms if_True sampler_trailer_roundtrip x Some)
  qed
qed

lemma encode_embedding_bytes:
  assumes "pai_proto_msg_encode_embedding cap (Some vs) (of_nat (length vs)) = Inr bs"
    "length vs < 2 ^ 32"
  shows "bs = put_le32 (of_nat (length vs)) @ concat (map put_le32 vs) \<and>
    0 < length vs \<and> length vs \<le> 0x10000 \<and> 4 + 4 * length vs \<le> unat cap"
proof -
  let ?d = "of_nat (length vs) :: u32"
  have u: "unat ?d = length vs" using assms(2) by (simp add: unat_of_nat_small)
  have g: "?d \<noteq> 0" "\<not> ?d > PAI_PROTO_MAX_EMBED_DIM" "\<not> cap < 4 + ?d * 4"
    and bs: "bs = put_le32 ?d @ concat (map put_le32 (take (unat ?d) vs))"
    using assms(1) by (auto simp: pai_proto_msg_encode_embedding_def split: if_splits)
  have le: "length vs \<le> 0x10000"
    using g(2) u by (simp add: PAI_PROTO_MAX_EMBED_DIM_def word_less_nat_alt)
  have "4 + ?d * 4 = of_nat (4 + 4 * length vs)" by simp
  then have "unat (4 + ?d * 4) = 4 + 4 * length vs"
    using le by (simp only: unat_of_nat_small) (simp add: unat_of_nat_small del: of_nat_add)
  moreover have "0 < length vs" using g(1) u by (metis unat_eq_0 gr0I)
  ultimately show ?thesis using g(3) bs u le by (simp add: word_less_nat_alt)
qed

interpretation embedding_codec: payload_codec
  "\<lambda>vs cap. pai_proto_msg_encode_embedding cap (Some vs) (of_nat (length vs))"
  pai_proto_msg_decode_embedding "\<lambda>vs. vs" "\<lambda>vs. length vs < 2 ^ 32"
proof unfold_locales
  fix vs :: "u32 list" and cap bs
  assume wf: "length vs < 2 ^ 32"
    and enc: "pai_proto_msg_encode_embedding cap (Some vs) (of_nat (length vs)) = Inr bs"
  have b: "bs = put_le32 (of_nat (length vs)) @ concat (map put_le32 vs)" "0 < length vs"
    "length vs \<le> 0x10000" "4 + 4 * length vs \<le> unat cap"
    using encode_embedding_bytes [OF enc wf] by simp_all
  then show "length bs \<le> unat cap" by simp
  have u: "unat (of_nat (length vs) :: u32) = length vs" using wf by (simp add: unat_of_nat_small)
  have "(of_nat (length bs) :: u32) = 4 + of_nat (length vs) * 4" using b(1) by simp
  moreover have "\<not> (of_nat (length bs) :: u32) < 4"
    using b(1,3) by (simp add: word_less_nat_alt unat_of_nat_small del: of_nat_add of_nat_mult)
  moreover have "(of_nat (length vs) :: u32) \<noteq> 0" using u b(2) by (metis unat_0 less_irrefl)
  ultimately show "pai_proto_msg_decode_embedding (Some bs) (of_nat (length bs)) = Inr vs"
    using b u by (simp add: pai_proto_msg_decode_embedding_def PAI_PROTO_MAX_EMBED_DIM_def
        word_less_nat_alt read_floats_concat Let_def)
qed

lemma encode_stream_bytes:
  assumes "pai_proto_msg_encode_stream_data cap k q (Some d) (of_nat (length d)) = Inr bs"
    "length d < 2 ^ 32 - 12"
  shows "bs = [k, 0, 0, 0] @ put_le32 q @ put_le32 (of_nat (length d)) @ d \<and>
    12 + length d \<le> unat cap"
proof -
  let ?l = "of_nat (length d) :: u32"
  have u: "unat ?l = length d" using assms(2) by (simp add: unat_of_nat_small)
  then have "unat (12 + ?l) = 12 + length d" using assms(2) by (subst unat_add_small) simp_all
  then show ?thesis
    using assms(1) u
    by (auto simp: pai_proto_msg_encode_stream_data_def word_less_nat_alt split: if_splits)
qed

interpretation stream_codec: payload_codec
  "\<lambda>(k, q, d) cap. pai_proto_msg_encode_stream_data cap k q (Some d) (of_nat (length d))"
  pai_proto_msg_decode_stream_data "\<lambda>x. x" "\<lambda>(k, q, d). length d < 2 ^ 32 - 12"
proof unfold_locales
  fix x cap bs
  assume wf: "case x of (k, q, d) \<Rightarrow> length d < 2 ^ 32 - 12"
    and enc: "(case x of (k, q, d) \<Rightarrow> \<lambda>cap. pai_proto_msg_encode_stream_data cap k q (Some d)
        (of_nat (length d))) cap = Inr bs"
  obtain k q d where x: "x = (k, q, d)" by (cases x)
  have b: "bs = [k, 0, 0, 0] @ put_le32 q @ put_le32 (of_nat (length d)) @ d"
    "12 + length d \<le> unat cap"
    using encode_stream_bytes wf enc by (simp_all add: x)
  then show "length bs \<le> unat cap" by simp
  have u: "unat (of_nat (length d) :: u32) = length d"
    using wf by (simp add: x unat_of_nat_small)
  have lb: "(of_nat (length bs) :: u32) = of_nat (12 + length d)" using b(1) by simp
  then have "\<not> (of_nat (length bs) :: u32) < 12"
    using wf by (simp add: x word_less_nat_alt unat_of_nat_small del: of_nat_add)
  moreover have "(of_nat (length bs) :: u32) - 12 = of_nat (length d)" using lb by simp
  ultimately show "pai_proto_msg_decode_stream_data (Some bs) (of_nat (length bs)) = Inr x"
    using b(1) u by (simp add: pai_proto_msg_decode_stream_data_def Let_def x)
qed

section \<open>Properties\<close>

text \<open>C31. GENERATE over the wire: a prompt with or without sampler settings that was encoded and
  framed passes the receiver's integrity check and decodes to exactly the same prompt and
  settings.\<close>

theorem generate_over_wire:
  assumes "length p < 2 ^ 32" and "pai_proto_msg_encode_generate2 cap (Some p) s = Inr bs"
    and "payload f = Some bs" and "payload_len f = of_nat (length bs)"
    and "pai_proto_frame_encode f wcap = Inr wire"
  shows "pai_proto_frame_validate (take 40 wire) (Some (drop 40 wire)) = Inr () \<and>
    pai_proto_msg_decode_generate2 (Some (drop 40 wire)) (payload_len f) True = Inr (p, s)"
  using generate_codec.framed_roundtrip [of "(p, s)" cap bs f wcap wire] assms by simp

definition demo_sampler :: pai_proto_sampler where
  "demo_sampler = \<lparr>temperature = 0x3F800000, top_p = 0x3F000000, top_k = 40, max_tokens = 64,
     seed = 0x1122334455667788\<rparr>"

definition demo_prompt :: bytes where "demo_prompt = [104, 105]"

definition demo_generate :: bytes where
  "demo_generate = put_le16 2 @ demo_prompt @ encode_sampler_trailer demo_sampler"

definition demo_frame :: pai_proto_frame where
  "demo_frame = ping_frame\<lparr>payload := Some demo_generate, payload_len := 32\<rparr>"

theorem generate_over_wire_witness:
  "pai_proto_msg_decode_generate2
     (Some (drop 40 (frame_header demo_frame @ payload_bytes demo_frame))) (payload_len demo_frame)
     True = Inr (demo_prompt, Some demo_sampler)"
proof -
  have "pai_proto_msg_encode_generate2 100 (Some demo_prompt) (Some demo_sampler) = Inr demo_generate"
    by (simp add: pai_proto_msg_encode_generate2_def demo_prompt_def demo_generate_def
        SIZEOF_SAMPLER_def)
  moreover have "pai_proto_frame_encode demo_frame 100 =
      Inr (frame_header demo_frame @ payload_bytes demo_frame)"
    by (simp add: pai_proto_frame_encode_def demo_frame_def ping_frame_def
        pai_proto_frame_size_def proto_consts)
  ultimately show ?thesis
    using generate_over_wire [of demo_prompt 100 "Some demo_sampler" demo_generate demo_frame 100]
    by (simp add: demo_frame_def demo_generate_def demo_prompt_def)
qed

text \<open>Backward compatibility: a v1 decoder reads the prompt of a v2 payload and ignores the
  sampler trailer.\<close>

theorem generate_v1_reads_v2:
  assumes "length p < 2 ^ 32" and "pai_proto_msg_encode_generate2 cap (Some p) s = Inr bs"
  shows "pai_proto_msg_decode_generate (Some bs) (of_nat (length bs)) = Inr p"
proof -
  have "pai_proto_msg_decode_generate2 (Some bs) (of_nat (length bs)) True = Inr (p, s)"
    using generate_codec.dec_enc [of "(p, s)" cap bs] assms by simp
  then show ?thesis
    by (auto simp: pai_proto_msg_decode_generate_def pai_proto_msg_decode_generate2_def Let_def
        split: sum.splits)
qed

theorem generate_v1_reads_v2_witness:
  "pai_proto_msg_decode_generate (Some demo_generate) 32 = Inr demo_prompt"
  using generate_v1_reads_v2 [of demo_prompt 100 "Some demo_sampler" demo_generate]
  by (simp add: pai_proto_msg_encode_generate2_def demo_prompt_def demo_generate_def
        SIZEOF_SAMPLER_def)

text \<open>EMBEDDING round trip: the vector that was encoded is the vector that is decoded, bit
  for bit, and the payload never exceeds the buffer it was written to.\<close>

theorem embedding_roundtrip:
  assumes "length vs < 2 ^ 32"
    and "pai_proto_msg_encode_embedding cap (Some vs) (of_nat (length vs)) = Inr bs"
  shows "pai_proto_msg_decode_embedding (Some bs) (of_nat (length bs)) = Inr vs \<and>
    length bs \<le> unat cap"
  using embedding_codec.dec_enc [OF assms] embedding_codec.enc_fits [OF assms] by simp

theorem embedding_roundtrip_witness:
  "pai_proto_msg_decode_embedding (Some (put_le32 2 @ put_le32 7 @ put_le32 9)) 12 = Inr [7, 9]"
  using embedding_roundtrip [of "[7, 9]" 12 "put_le32 2 @ put_le32 7 @ put_le32 9"]
  by (simp add: pai_proto_msg_encode_embedding_def PAI_PROTO_MAX_EMBED_DIM_def)

text \<open>ERROR over the wire: status and text (cut at 255 bytes) arrive, with the terminating
  zero the receiver adds.\<close>

theorem error_over_wire:
  assumes "length m < 2 ^ 32" and "pai_proto_msg_encode_error cap st (Some m) = Inr bs"
    and "payload f = Some bs" and "payload_len f = of_nat (length bs)"
    and "pai_proto_frame_encode f wcap = Inr wire"
  shows "pai_proto_msg_decode_error (Some (drop 40 wire)) (payload_len f) (Some 256) =
    Inr (st, Some (take 255 m @ [0]))"
  using error_codec.framed_roundtrip [of "(st, Some m)" cap bs f wcap wire] assms by simp

definition demo_error_frame :: pai_proto_frame where
  "demo_error_frame =
     ping_frame\<lparr>payload := Some (put_le32 (-7) @ put_le32 2 @ [105, 111]), payload_len := 10\<rparr>"

theorem error_over_wire_witness:
  "pai_proto_msg_decode_error
     (Some (drop 40 (frame_header demo_error_frame @ payload_bytes demo_error_frame)))
     (payload_len demo_error_frame) (Some 256) = Inr (status_code PAI_ERR_IO, Some [105, 111, 0])"
  using error_over_wire [of "[105, 111]" 64 "-7" "put_le32 (-7) @ put_le32 2 @ [105, 111]"
      demo_error_frame 100]
  by (simp add: pai_proto_msg_encode_error_def demo_error_frame_def ping_frame_def
      pai_proto_frame_encode_def pai_proto_frame_size_def proto_consts
      PAI_PROTO_ERROR_MSG_MAX_def)

text \<open>Hostile STREAM_DATA payloads: when the decoder accepts \<open>len\<close> bytes of a buffer that
  holds at least \<open>len\<close> bytes, the slice it hands out lies inside the first \<open>len\<close> bytes,
  whatever length field the peer sent.\<close>

theorem stream_data_in_bounds:
  assumes "pai_proto_msg_decode_stream_data (Some p) len = Inr (k, q, d)" and "unat len \<le> length p"
  shows "12 + length d \<le> unat len \<and> d = take (length d) (drop 12 p)"
proof -
  have g: "\<not> len < 12" "\<not> get_le32 (drop 8 p) > len - 12"
    and d: "d = take (unat (get_le32 (drop 8 p))) (drop 12 p)"
    using assms(1) by (auto simp: pai_proto_msg_decode_stream_data_def Let_def split: if_splits)
  have "unat (len - 12) = unat len - 12"
    using g(1) by (simp add: unat_sub word_le_nat_alt word_less_nat_alt not_less)
  then show ?thesis
    using g assms(2) by (auto simp: d word_less_nat_alt min_def)
qed

theorem stream_data_in_bounds_witness:
  "12 + length [5 :: u8] \<le> unat (13 :: u32) \<and>
   [5 :: u8] = take (length [5 :: u8]) (drop 12 ([3, 0, 0, 0] @ put_le32 1 @ put_le32 1 @ [5]))"
  using stream_data_in_bounds [of "[3, 0, 0, 0] @ put_le32 1 @ put_le32 1 @ [5]" 13 3 1 "[5]"]
  by (simp add: pai_proto_msg_decode_stream_data_def)

text \<open>Size computation of \<open>pai_proto_msg_encode_stream_data\<close>: \<open>12u + data_len\<close> is a 32-bit
  sum, so for a \<open>data_len\<close> within 12 of the 32-bit maximum it wraps, the capacity check passes,
  and the encoder stores more bytes than the buffer holds.\<close>

theorem encode_stream_data_overflow:
  "\<exists>cap k q d bs. pai_proto_msg_encode_stream_data cap k q (Some d) (of_nat (length d)) = Inr bs \<and>
     unat cap < length bs"
proof -
  define d :: bytes where "d = replicate (2 ^ 32 - 12) 0"
  have l: "length d = 4294967284" by (simp add: d_def)
  have "pai_proto_msg_encode_stream_data 16 0 0 (Some d) (of_nat (length d)) =
      Inr ([0, 0, 0, 0] @ put_le32 0 @ put_le32 4294967284 @ d)"
    by (simp add: pai_proto_msg_encode_stream_data_def l)
  moreover have "unat (16 :: u32) < length ([0, 0, 0, 0] @ put_le32 0 @ put_le32 4294967284 @ d)"
    by (simp add: l)
  ultimately show ?thesis by blast
qed

end
