(* ===== verification/Pipe.thy ===== *)
theory Pipe
  imports Prelude
begin

text \<open>
  \<^verbatim>\<open>protocol/transport_pipe.c\<close>: the in-memory pipe pair. A pipe is a heap buffer with a read
  offset and a fill count; the model keeps the buffer at its allocated size, so that a
  \<open>memcpy\<close> past its end is visible as the outcome \<open>Fault\<close>, and a loop that never ends as
  \<open>Diverges\<close>. Sizes are 32-bit, with the wrap-around of the sums written out.

  The locale \<open>byte_stream\<close> states the transport contract of \<^verbatim>\<open>protocol.h\<close> (a byte stream:
  what is pulled is what was pushed, in order); the pipe is its interpretation.
\<close>

section \<open>Pipes\<close>

record pai_proto_pipe =
  buf :: bytes
  cap :: nat
  head :: nat
  len :: nat
  closed :: bool

definition pipe_new :: pai_proto_pipe where
  "pipe_new = \<lparr>buf = [], cap = 0, head = 0, len = 0, closed = False\<rparr>"

text \<open>The capacity search \<open>while (newcap < need) newcap *= 2\<close> on 32-bit values; \<open>None\<close> is a
  loop that does not end.\<close>

partial_function (option) grow_cap :: "nat \<Rightarrow> nat \<Rightarrow> nat option" where
  "grow_cap newcap need =
     (if newcap < need then grow_cap (newcap * 2 mod 2 ^ 32) need else Some newcap)"

text \<open>The final \<open>memcpy\<close> to \<open>buf + head + len\<close>: a fault when it runs past the buffer.\<close>

definition pipe_store :: "pai_proto_pipe \<Rightarrow> bytes \<Rightarrow> (pai_proto_pipe \<times> unit res) outcome" where
  "pipe_store p data =
     (if head p + len p + length data > cap p then Fault
      else Returns (p\<lparr>buf := take (head p + len p) (buf p) @ data @
                            drop (head p + len p + length data) (buf p),
                     len := len p + length data\<rparr>, Inr ()))"

text \<open>The move to a larger buffer. The bytes of a fresh buffer beyond the copied ones are
  unspecified in C; they are never read.\<close>

definition pipe_realloc :: "pai_proto_pipe \<Rightarrow> nat \<Rightarrow> pai_proto_pipe" where
  "pipe_realloc p newcap =
     p\<lparr>buf := take (len p) (drop (head p) (buf p)) @ replicate (newcap - len p) 0,
       cap := newcap, head := 0\<rparr>"

text \<open>\<open>mem n\<close>: whether \<open>malloc(n)\<close> succeeds.\<close>

definition pipe_push ::
    "(nat \<Rightarrow> bool) \<Rightarrow> pai_proto_pipe \<Rightarrow> bytes \<Rightarrow> (pai_proto_pipe \<times> unit res) outcome" where
  "pipe_push mem pipe data =
     (if closed pipe then Returns (pipe, Inl PAI_ERR_IO)
      else if length data = 0 then Returns (pipe, Inr ())
      else
        (let p1 = (if len pipe = 0 then pipe\<lparr>head := 0\<rparr> else pipe);
             need = (len p1 + length data) mod 2 ^ 32
         in if need > cap p1 then
              (case grow_cap (if cap p1 \<noteq> 0 then cap p1 else 256) need of
                 None \<Rightarrow> Diverges
               | Some newcap \<Rightarrow>
                   if \<not> mem newcap then Returns (p1, Inl PAI_ERR_NOMEM)
                   else pipe_store (pipe_realloc p1 newcap) data)
            else pipe_store p1 data))"

definition pipe_pull :: "pai_proto_pipe \<Rightarrow> nat \<Rightarrow> pai_proto_pipe \<times> bytes \<times> unit res" where
  "pipe_pull pipe nbytes =
     (if len pipe = 0 then
        (if closed pipe then (pipe, [], Inl PAI_ERR_IO) else (pipe, [], Inr ()))
      else
        (let n = (if nbytes < len pipe then nbytes else len pipe);
             data = take n (drop (head pipe) (buf pipe));
             p1 = pipe\<lparr>head := head pipe + n, len := len pipe - n\<rparr>;
             p2 = (if len p1 = 0 then p1\<lparr>head := 0\<rparr> else p1)
         in (p2, data, Inr ())))"

section \<open>Pairs and endpoints\<close>

record pai_proto_pipe_pair =
  a_to_b :: pai_proto_pipe
  b_to_a :: pai_proto_pipe

text \<open>The three \<open>calloc\<close> results are the arguments. When one of the two pipes is missing the
  cleanup path calls \<open>pai_proto_pipe_pair_destroy\<close>, which reads \<open>pair->a_to_b->buf\<close> and
  \<open>pair->b_to_a->buf\<close> without a check.\<close>

definition pai_proto_pipe_pair_destroy ::
    "pai_proto_pipe option \<Rightarrow> pai_proto_pipe option \<Rightarrow> unit outcome" where
  "pai_proto_pipe_pair_destroy ab ba =
     (case ab of None \<Rightarrow> Fault | Some _ \<Rightarrow> (case ba of None \<Rightarrow> Fault | Some _ \<Rightarrow> Returns ()))"

definition pai_proto_pipe_pair_create ::
    "bool \<Rightarrow> bool \<Rightarrow> bool \<Rightarrow> pai_proto_pipe_pair res outcome" where
  "pai_proto_pipe_pair_create pair_ok ab_ok ba_ok =
     (if \<not> pair_ok then Returns (Inl PAI_ERR_NOMEM)
      else
        (let ab = (if ab_ok then Some pipe_new else None);
             ba = (if ba_ok then Some pipe_new else None)
         in if ab = None \<or> ba = None then
              (case pai_proto_pipe_pair_destroy ab ba of
                 Returns _ \<Rightarrow> Returns (Inl PAI_ERR_NOMEM) | Fault \<Rightarrow> Fault | Diverges \<Rightarrow> Diverges)
            else Returns (Inr \<lparr>a_to_b = the ab, b_to_a = the ba\<rparr>)))"

text \<open>Endpoint \<open>True\<close> is side A: it sends into \<open>a_to_b\<close> and receives from \<open>b_to_a\<close>.\<close>

definition endpoint_send ::
    "(nat \<Rightarrow> bool) \<Rightarrow> bool \<Rightarrow> pai_proto_pipe_pair \<Rightarrow> bytes \<Rightarrow>
     (pai_proto_pipe_pair \<times> unit res) outcome" where
  "endpoint_send mem side pair data =
     (case pipe_push mem (if side then a_to_b pair else b_to_a pair) data of
        Returns (p, r) \<Rightarrow>
          Returns (if side then pair\<lparr>a_to_b := p\<rparr> else pair\<lparr>b_to_a := p\<rparr>, r)
      | Fault \<Rightarrow> Fault
      | Diverges \<Rightarrow> Diverges)"

definition endpoint_recv ::
    "bool \<Rightarrow> pai_proto_pipe_pair \<Rightarrow> nat \<Rightarrow> pai_proto_pipe_pair \<times> bytes \<times> unit res" where
  "endpoint_recv side pair nbytes =
     (case pipe_pull (if side then b_to_a pair else a_to_b pair) nbytes of
        (p, data, r) \<Rightarrow> (if side then pair\<lparr>b_to_a := p\<rparr> else pair\<lparr>a_to_b := p\<rparr>, data, r))"

definition endpoint_close :: "pai_proto_pipe_pair \<Rightarrow> pai_proto_pipe_pair" where
  "endpoint_close pair =
     pair\<lparr>a_to_b := (a_to_b pair)\<lparr>closed := True\<rparr>, b_to_a := (b_to_a pair)\<lparr>closed := True\<rparr>\<rparr>"

section \<open>The byte-stream contract\<close>

datatype stream_op = Push bytes | Pull nat

locale byte_stream =
  fixes push :: "'s \<Rightarrow> bytes \<Rightarrow> ('s \<times> unit res) outcome"
    and pull :: "'s \<Rightarrow> nat \<Rightarrow> 's \<times> bytes \<times> unit res"
    and contents :: "'s \<Rightarrow> bytes"
    and invar :: "'s \<Rightarrow> bool"
  assumes push_ok: "invar s \<Longrightarrow> push s d = Returns (s', Inr ()) \<Longrightarrow>
      invar s' \<and> contents s' = contents s @ d"
    and push_err: "invar s \<Longrightarrow> push s d = Returns (s', Inl e) \<Longrightarrow>
      invar s' \<and> contents s' = contents s"
    and pull_fifo: "invar s \<Longrightarrow> pull s n = (s', bs, r) \<Longrightarrow>
      invar s' \<and> contents s = bs @ contents s' \<and> length bs \<le> n"
    and pull_progress: "invar s \<Longrightarrow> contents s \<noteq> [] \<Longrightarrow> 0 < n \<Longrightarrow> pull s n = (s', bs, r) \<Longrightarrow>
      bs \<noteq> [] \<and> r = Inr ()"
begin

text \<open>A run of pushes and pulls: the final state, the bytes accepted and the bytes delivered;
  \<open>None\<close> as soon as a push faults or diverges.\<close>

fun run :: "'s \<Rightarrow> stream_op list \<Rightarrow> ('s \<times> bytes \<times> bytes) option" where
  "run s [] = Some (s, [], [])"
| "run s (Push d # ops) =
     (case push s d of
        Returns (s', r) \<Rightarrow>
          map_option (\<lambda>(t, sent, got). (t, (if r = Inr () then d @ sent else sent), got)) (run s' ops)
      | _ \<Rightarrow> None)"
| "run s (Pull n # ops) =
     (case pull s n of
        (s', bs, r) \<Rightarrow> map_option (\<lambda>(t, sent, got). (t, sent, bs @ got)) (run s' ops))"

lemma run_fifo:
  "invar s \<Longrightarrow> run s ops = Some (t, sent, got) \<Longrightarrow>
     invar t \<and> contents s @ sent = got @ contents t"
proof (induction s ops arbitrary: t sent got rule: run.induct)
  case (1 s)
  then show ?case by simp
next
  case (2 s d ops)
  then obtain s' r sent' where p: "push s d = Returns (s', r)"
    and rn: "run s' ops = Some (t, sent', got)"
    and sent: "sent = (if r = Inr () then d @ sent' else sent')"
    by (auto split: outcome.splits)
  show ?case
  proof (cases r)
    case (Inl e)
    with push_err [OF "2.prems"(1)] p have "invar s'" "contents s' = contents s" by blast+
    with "2.IH" [OF p refl _ rn] Inl sent show ?thesis by simp
  next
    case (Inr u)
    with push_ok [OF "2.prems"(1)] p have "invar s'" "contents s' = contents s @ d" by simp_all
    with "2.IH" [OF p refl _ rn] Inr sent show ?thesis by simp
  qed
next
  case (3 s n ops)
  obtain s' bs r where p: "pull s n = (s', bs, r)" by (cases "pull s n") auto
  with "3.prems" obtain got' where rn: "run s' ops = Some (t, sent, got')"
    and got: "got = bs @ got'"
    by auto
  have "invar s'" "contents s = bs @ contents s'"
    using pull_fifo [OF "3.prems"(1) p] by simp_all
  with "3.IH" [OF p [symmetric] refl _ rn] got show ?case by simp
qed

end

section \<open>The pipe implements it\<close>

definition pipe_inv :: "pai_proto_pipe \<Rightarrow> bool" where
  "pipe_inv p \<longleftrightarrow> length (buf p) = cap p \<and> head p + len p \<le> cap p"

definition pipe_contents :: "pai_proto_pipe \<Rightarrow> bytes" where
  "pipe_contents p = take (len p) (drop (head p) (buf p))"

lemma grow_cap_ge: "grow_cap c need = Some nc \<Longrightarrow> need \<le> nc"
  by (rule grow_cap.raw_induct [where P = "\<lambda>c need nc. need \<le> nc"])
    (auto split: if_splits)

lemma pipe_store_Returns:
  assumes "pipe_inv p" "pipe_store p d = Returns (p', r)"
  shows "r = Inr () \<and> pipe_inv p' \<and> pipe_contents p' = pipe_contents p @ d"
  using assms
  by (auto simp: pipe_store_def pipe_inv_def pipe_contents_def take_drop add.commute
      split: if_splits)

lemma pipe_realloc_keeps:
  assumes "pipe_inv p" "len p \<le> nc"
  shows "pipe_inv (pipe_realloc p nc)" "pipe_contents (pipe_realloc p nc) = pipe_contents p"
  using assms by (auto simp: pipe_realloc_def pipe_inv_def pipe_contents_def)

lemma pipe_push_cases:
  assumes inv: "pipe_inv p" and ret: "pipe_push mem p d = Returns (p', r)"
  shows "pipe_inv p' \<and> pipe_contents p' = (if r = Inr () then pipe_contents p @ d else pipe_contents p)"
proof -
  define p1 where "p1 = (if len p = 0 then p\<lparr>head := 0\<rparr> else p)"
  have i1: "pipe_inv p1" and c1: "pipe_contents p1 = pipe_contents p"
    using inv by (auto simp: p1_def pipe_inv_def pipe_contents_def)
  have l1: "len p1 \<le> cap p1" using i1 by (simp add: pipe_inv_def)
  consider "r = Inl PAI_ERR_IO \<and> p' = p" | "r = Inr () \<and> p' = p \<and> d = []"
    | "r = Inl PAI_ERR_NOMEM \<and> p' = p1"
    | (grown) nc where "cap p1 < nc" "pipe_store (pipe_realloc p1 nc) d = Returns (p', r)"
    | (plain) "pipe_store p1 d = Returns (p', r)"
    using ret unfolding pipe_push_def Let_def p1_def [symmetric]
    by (fastforce dest: grow_cap_ge split: if_splits option.splits)
  then show ?thesis
  proof cases
    case grown
    then show ?thesis
      using pipe_store_Returns [OF pipe_realloc_keeps(1) [OF i1] grown(2)]
        pipe_realloc_keeps(2) [OF i1] c1 l1 by simp
  next
    case plain
    then show ?thesis using pipe_store_Returns [OF i1 plain] c1 by simp
  qed (use inv i1 c1 in auto)
qed

lemma pipe_pull_cases:
  assumes "pipe_inv p" "pipe_pull p n = (p', bs, r)"
  shows "pipe_inv p' \<and> pipe_contents p = bs @ pipe_contents p' \<and> length bs \<le> n \<and>
    (pipe_contents p \<noteq> [] \<longrightarrow> r = Inr () \<and> (0 < n \<longrightarrow> bs \<noteq> []))"
proof (cases "len p = 0")
  case True
  with assms show ?thesis by (auto simp: pipe_pull_def pipe_contents_def split: if_splits)
next
  case False
  define m where "m = (if n < len p then n else len p)"
  have m: "m \<le> n" "m \<le> len p" "0 < n \<Longrightarrow> 0 < m" using False by (auto simp: m_def)
  have bs: "bs = take m (drop (head p) (buf p))" and r: "r = Inr ()"
    and p': "p' = (if len p - m = 0 then p\<lparr>head := 0, len := 0\<rparr>
                   else p\<lparr>head := head p + m, len := len p - m\<rparr>)"
    using assms(2) False by (auto simp: pipe_pull_def Let_def m_def split: if_splits)
  have "pipe_contents p = bs @ pipe_contents p'"
    using m(2) unfolding bs p' pipe_contents_def
    by (cases "len p = m") (auto simp: add.commute simp flip: take_add drop_drop)
  moreover have "length bs = m"
    using assms(1) m(2) by (auto simp: bs pipe_inv_def)
  ultimately show ?thesis
    using assms(1) m r by (auto simp: p' pipe_inv_def)
qed

interpretation pipe: byte_stream "pipe_push mem" pipe_pull pipe_contents pipe_inv for mem
proof unfold_locales
  fix s d s' e
  assume i: "pipe_inv s"
  show "pipe_push mem s d = Returns (s', Inr ()) \<Longrightarrow>
      pipe_inv s' \<and> pipe_contents s' = pipe_contents s @ d"
    using pipe_push_cases [OF i] by fastforce
  show "pipe_push mem s d = Returns (s', Inl e) \<Longrightarrow>
      pipe_inv s' \<and> pipe_contents s' = pipe_contents s"
    using pipe_push_cases [OF i] by fastforce
qed (use pipe_pull_cases in blast)+

section \<open>When a push is safe\<close>

lemma grow_cap_double: "c < need \<Longrightarrow> c * 2 < 2 ^ 32 \<Longrightarrow> grow_cap c need = grow_cap (c * 2) need"
  by (subst grow_cap.simps) simp

text \<open>The search ends for every request of at most \<open>2 ^ 31\<close> bytes \<dots>\<close>

lemma grow_cap_terminates:
  assumes "0 < c" "need \<le> 2 ^ 31" "c < 2 ^ 32"
  shows "\<exists>nc. grow_cap c need = Some nc"
  using assms
proof (induction "need - c" arbitrary: c rule: less_induct)
  case less
  show ?case
  proof (cases "c < need")
    case True
    then have "c * 2 < 2 ^ 32" "need - c * 2 < need - c" using less.prems by auto
    with less.hyps [of "c * 2"] less.prems True show ?thesis by (simp add: grow_cap_double)
  next
    case False
    then show ?thesis by (simp add: grow_cap.simps)
  qed
qed

text \<open>\<dots> and never for a larger one, once the doubling has wrapped to zero.\<close>

lemma grow_cap_zero: "0 < need \<Longrightarrow> grow_cap 0 need = None"
proof -
  assume need: "0 < need"
  have "nc \<noteq> nc" if "grow_cap 0 need = Some nc" for nc
  proof (rule grow_cap.raw_induct [where P = "\<lambda>c n nc. c = 0 \<longrightarrow> 0 < n \<longrightarrow> False",
        OF _ that, THEN mp, THEN mp, THEN FalseE])
    fix f c n nc'
    assume IH: "\<And>c n nc'. f c n = Some nc' \<Longrightarrow> c = 0 \<longrightarrow> 0 < n \<longrightarrow> False"
      and eq: "(if c < n then f (c * 2 mod 2 ^ 32 :: nat) n else Some c) = Some nc'"
    show "c = 0 \<longrightarrow> 0 < n \<longrightarrow> False"
      using IH [of 0 n nc'] eq by (cases "c = 0") (auto split: if_splits)
  qed (use need in auto)
  then show ?thesis by (cases "grow_cap 0 need") auto
qed

text \<open>A push is safe whenever the read offset has been compacted away: right after the pipe was
  empty, or after it moved to a larger buffer.\<close>

lemma pipe_push_compact:
  assumes inv: "pipe_inv p" and open_p: "\<not> closed p" and compact: "head p = 0 \<or> len p = 0"
    and size: "len p + length d \<le> 2 ^ 31" and cap: "cap p < 2 ^ 32" and mem: "\<And>n. mem n"
  shows "\<exists>p'. pipe_push mem p d = Returns (p', Inr ())"
proof (cases "d = []")
  case True
  then show ?thesis using open_p by (simp add: pipe_push_def)
next
  case False
  define p1 where "p1 = (if len p = 0 then p\<lparr>head := 0\<rparr> else p)"
  have p1: "head p1 = 0" "len p1 = len p" "cap p1 = cap p"
    using compact by (auto simp: p1_def)
  have need: "(len p1 + length d) mod 2 ^ 32 = len p + length d"
    using size p1 by simp
  show ?thesis
  proof (cases "len p + length d > cap p")
    case True
    have "\<exists>nc. grow_cap (if cap p1 \<noteq> 0 then cap p1 else 256) (len p + length d) = Some nc"
      by (rule grow_cap_terminates) (use size cap p1 in auto)
    then obtain nc where
      nc: "grow_cap (if cap p1 \<noteq> 0 then cap p1 else 256) (len p + length d) = Some nc" ..
    then have "len p + length d \<le> nc" by (rule grow_cap_ge)
    then have "pipe_store (pipe_realloc p1 nc) d \<noteq> Fault"
      by (simp add: pipe_store_def pipe_realloc_def p1)
    then show ?thesis
      using open_p False True nc mem need p1
      by (auto simp: pipe_push_def Let_def p1_def [symmetric] pipe_store_def split: if_splits)
  next
    case fits: False
    then show ?thesis
      using open_p False need p1
      by (auto simp: pipe_push_def Let_def p1_def [symmetric] pipe_store_def)
  qed
qed

section \<open>Properties\<close>

text \<open>C29. FIFO delivery: along any run of pushes and pulls that does not fault, the bytes
  delivered so far followed by the bytes still buffered are exactly the bytes buffered at the
  start followed by the bytes accepted, in order.\<close>

theorem pipe_fifo:
  assumes "pipe_inv p" and "pipe.run mem p ops = Some (p', sent, got)"
  shows "pipe_contents p @ sent = got @ pipe_contents p' \<and> pipe_inv p'"
  using pipe.run_fifo [OF assms] by simp

definition small_pipe :: pai_proto_pipe where
  "small_pipe = \<lparr>buf = [0, 0, 0, 0], cap = 4, head = 0, len = 0, closed = False\<rparr>"

theorem pipe_fifo_witness:
  "pipe_contents small_pipe @ [1, 2, 3] = [1, 2, 3] @ pipe_contents (small_pipe\<lparr>buf := [1, 2, 3, 0]\<rparr>)
   \<and> pipe_inv (small_pipe\<lparr>buf := [1, 2, 3, 0]\<rparr>)"
proof -
  have "pipe.run (\<lambda>_. True) small_pipe [Push [1, 2], Pull 1, Push [3], Pull 5] =
      Some (small_pipe\<lparr>buf := [1, 2, 3, 0]\<rparr>, [1, 2, 3], [1, 2, 3])"
    by (simp add: small_pipe_def pipe_push_def pipe_pull_def pipe_store_def)
  from pipe_fifo [OF _ this] show ?thesis
    by (simp add: pipe_inv_def small_pipe_def)
qed

text \<open>Memory safety of a compact push: on an open pipe whose unread bytes start at offset 0
  (or that is empty), a push of at most \<open>2 ^ 31\<close> bytes in total, with memory available, succeeds:
  no write outside the buffer, no endless growth.\<close>

theorem pipe_push_safe:
  assumes "pipe_inv p" and "\<not> closed p" and "head p = 0 \<or> len p = 0"
    and "len p + length d \<le> 2 ^ 31" and "cap p < 2 ^ 32"
  shows "\<exists>p'. pipe_push (\<lambda>_. True) p d = Returns (p', Inr ()) \<and>
    pipe_contents p' = pipe_contents p @ d"
  using pipe_push_compact [OF assms, of "\<lambda>_. True"] pipe_push_cases [OF assms(1)] by fastforce

theorem pipe_push_safe_witness:
  "\<exists>p'. pipe_push (\<lambda>_. True) pipe_new [1, 2, 3] = Returns (p', Inr ()) \<and>
    pipe_contents p' = pipe_contents pipe_new @ [1, 2, 3]"
  by (rule pipe_push_safe) (simp_all add: pipe_new_def pipe_inv_def)

text \<open>C32. Exactly when a push writes outside the buffer. The capacity test of \<open>pipe_push\<close>
  compares \<open>len + nbytes\<close> with the capacity and ignores the read offset. For every pipe whose
  unread bytes lie inside its buffer, every data and every behaviour of \<open>malloc\<close> (\<open>len + nbytes\<close>
  below \<open>2 ^ 32\<close>): the push faults precisely when the pipe is open, the data and the unread bytes
  are not empty, the test passes (\<open>len + nbytes \<le> cap\<close>) and the offset pushes the end of the write
  past the buffer (\<open>cap < head + len + nbytes\<close>). In every other case, growing included, nothing is
  written outside.\<close>

theorem pipe_push_overruns:
  assumes "pipe_inv p" and "len p + length d < 2 ^ 32"
  shows "pipe_push mem p d = Fault \<longleftrightarrow>
    \<not> closed p \<and> d \<noteq> [] \<and> len p \<noteq> 0 \<and> len p + length d \<le> cap p \<and>
    cap p < head p + len p + length d"
proof (cases "closed p \<or> d = [] \<or> len p + length d \<le> cap p")
  case True
  then show ?thesis
    using assms by (auto simp: pipe_push_def pipe_store_def pipe_inv_def Let_def split: if_splits)
next
  case False
  let ?p1 = "if len p = 0 then p\<lparr>head := 0\<rparr> else p"
  let ?g = "grow_cap (if cap p \<noteq> 0 then cap p else 256) (len p + length d)"
  have store: "pipe_store (pipe_realloc ?p1 nc) d \<noteq> Fault" if "?g = Some nc" for nc
    using grow_cap_ge [OF that] by (simp add: pipe_store_def pipe_realloc_def Let_def)
  have "pipe_push mem p d = (case ?g of None \<Rightarrow> Diverges
      | Some nc \<Rightarrow> if \<not> mem nc then Returns (?p1, Inl PAI_ERR_NOMEM)
                   else pipe_store (pipe_realloc ?p1 nc) d)"
    using False assms(2) by (simp add: pipe_push_def Let_def)
  then have "pipe_push mem p d \<noteq> Fault"
    using store by (cases ?g) simp_all
  with False show ?thesis by blast
qed

text \<open>The situation is reached by two calls on a new pipe: 256 bytes pushed, 200 pulled; then a
  push of 100 bytes overruns the buffer.\<close>

definition half_read_pipe :: pai_proto_pipe where
  "half_read_pipe = \<lparr>buf = replicate 256 0, cap = 256, head = 200, len = 56, closed = False\<rparr>"

lemma half_read_pipe_reached:
  "pipe_push (\<lambda>_. True) pipe_new (replicate 256 0) =
     Returns (half_read_pipe\<lparr>head := 0, len := 256\<rparr>, Inr ())"
  "fst (pipe_pull (half_read_pipe\<lparr>head := 0, len := 256\<rparr>) 200) = half_read_pipe"
proof -
  have g: "grow_cap 256 256 = Some 256" by (simp add: grow_cap.simps)
  show "pipe_push (\<lambda>_. True) pipe_new (replicate 256 0) =
     Returns (half_read_pipe\<lparr>head := 0, len := 256\<rparr>, Inr ())"
    by (simp add: pipe_new_def half_read_pipe_def pipe_push_def pipe_store_def pipe_realloc_def g)
  show "fst (pipe_pull (half_read_pipe\<lparr>head := 0, len := 256\<rparr>) 200) = half_read_pipe"
    by (simp add: half_read_pipe_def pipe_pull_def)
qed

theorem pipe_push_overruns_witness:
  "pipe_push (\<lambda>_. True) half_read_pipe (replicate 100 0) = Fault \<and>
   pipe_push (\<lambda>_. True) half_read_pipe (replicate 300 0) \<noteq> Fault"
  using pipe_push_overruns [of half_read_pipe "replicate 100 0" "\<lambda>_. True"]
    pipe_push_overruns [of half_read_pipe "replicate 300 0" "\<lambda>_. True"]
  by (simp add: pipe_inv_def half_read_pipe_def)

text \<open>When one of the two pipes cannot be allocated, creating a pair does not report
  \<open>PAI_ERR_NOMEM\<close>: its cleanup dereferences the missing pipe.\<close>

theorem pipe_pair_create_oom:
  "pai_proto_pipe_pair_create True ab ba =
     (if ab \<and> ba then Returns (Inr \<lparr>a_to_b = pipe_new, b_to_a = pipe_new\<rparr>) else Fault)"
  by (auto simp: pai_proto_pipe_pair_create_def pai_proto_pipe_pair_destroy_def)

end
