(* ===== verification/Connection.thy ===== *)
theory Connection
  imports Message Pipe
begin

text \<open>
  \<^verbatim>\<open>protocol/connection.c\<close>: the connection state machine. \<open>pai_proto_conn\<close> is the C struct; the
  transport's own state (\<open>transport.ctx\<close>) and the application's (\<open>user\<close>) are type parameters. The
  function pointers of \<open>pai_proto_transport_t\<close> and \<open>pai_proto_callbacks_t\<close>, and whether a
  \<open>malloc\<close> succeeds, form the environment \<open>E\<close>; a callback may change the connection (an
  application answers from inside \<open>on_message\<close>), so it maps a connection to a connection, and a
  NULL entry is \<open>None\<close>. Frames are passed to handlers by value.

  \<open>header_buf\<close> and \<open>payload_buf\<close> hold the bytes received so far, so \<open>header_filled\<close> and
  \<open>payload_filled\<close> are their lengths.
\<close>

section \<open>State\<close>

datatype pai_proto_role = PAI_PROTO_ROLE_CLIENT | PAI_PROTO_ROLE_SERVER

datatype pai_proto_state =
    PAI_PROTO_STATE_NEW
  | PAI_PROTO_STATE_NEGOTIATING
  | PAI_PROTO_STATE_OPEN
  | PAI_PROTO_STATE_CLOSED

definition PAI_PROTO_NACK_VERSION :: u32 where "PAI_PROTO_NACK_VERSION = 1"
definition PAI_PROTO_NACK_CAPS :: u32 where "PAI_PROTO_NACK_CAPS = 2"
definition PAI_PROTO_CLOSE_NORMAL :: u32 where "PAI_PROTO_CLOSE_NORMAL = 0"
definition PAI_PROTO_CLOSE_PROTOCOL :: u32 where "PAI_PROTO_CLOSE_PROTOCOL = 1"
definition PAI_PROTO_CLOSE_APP :: u32 where "PAI_PROTO_CLOSE_APP = 2"
definition PAI_PROTO_CLOSE_PEER_GONE :: u32 where "PAI_PROTO_CLOSE_PEER_GONE = 3"
definition PAI_PROTO_CAP_KNOWN :: u32 where "PAI_PROTO_CAP_KNOWN = 0x7F"
definition PAI_PROTO_STREAM_GENERATE :: u8 where "PAI_PROTO_STREAM_GENERATE = 5"
definition PAI_PROTO_MAX_STREAMS :: nat where "PAI_PROTO_MAX_STREAMS = 16"
definition PAI_PROTO_MAX_SESSIONS :: nat where "PAI_PROTO_MAX_SESSIONS = 16"
definition PAI_PROTO_POLL_BATCH :: nat where "PAI_PROTO_POLL_BATCH = 64"

record ('u, 't) pai_proto_conn =
  role :: pai_proto_role
  local_caps :: u32
  remote_caps :: u32
  negotiated_caps :: u32
  state :: pai_proto_state
  nack_reason :: u32
  transport :: 't
  user :: 'u
  next_request_id :: u64
  next_session_id :: u64
  header_buf :: bytes
  payload_buf :: "bytes option"
  pending :: pai_proto_frame
  streams :: "u64 list"
  stream_seqs :: "u32 list"
  sessions :: "u64 list"

record ('u, 't) conn_env =
  t_send :: "'t \<Rightarrow> bytes \<Rightarrow> 't \<times> unit res"
  t_recv :: "'t \<Rightarrow> nat \<Rightarrow> 't \<times> bytes \<times> unit res"
  t_close :: "'t \<Rightarrow> 't"
  on_hello :: "(('u, 't) pai_proto_conn \<Rightarrow> u32 \<Rightarrow> ('u, 't) pai_proto_conn \<times> u32) option"
  on_message ::
    "(('u, 't) pai_proto_conn \<Rightarrow> pai_proto_frame \<Rightarrow> ('u, 't) pai_proto_conn \<times> u32) option"
  on_stream_begin :: "(('u, 't) pai_proto_conn \<Rightarrow> u64 \<Rightarrow> u64 \<Rightarrow> ('u, 't) pai_proto_conn) option"
  on_stream_data ::
    "(('u, 't) pai_proto_conn \<Rightarrow> u64 \<Rightarrow> u64 \<Rightarrow> u8 \<Rightarrow> u32 \<Rightarrow> bytes \<Rightarrow>
      ('u, 't) pai_proto_conn) option"
  on_stream_end :: "(('u, 't) pai_proto_conn \<Rightarrow> u64 \<Rightarrow> u64 \<Rightarrow> ('u, 't) pai_proto_conn) option"
  on_close :: "(('u, 't) pai_proto_conn \<Rightarrow> u32 \<Rightarrow> ('u, 't) pai_proto_conn) option"
  malloc_ok :: "nat \<Rightarrow> bool"

definition zero_frame :: pai_proto_frame where
  "zero_frame = \<lparr>version = 0, msg_type = 0, flags = 0, request_id = 0, session_id = 0,
     payload = None, payload_len = 0\<rparr>"

section \<open>Lifecycle\<close>

definition conn_reset_phase :: "('u, 't) pai_proto_conn \<Rightarrow> ('u, 't) pai_proto_conn" where
  "conn_reset_phase c = c\<lparr>payload_buf := None, header_buf := [], pending := zero_frame\<rparr>"

definition conn_set_closed ::
    "('u, 't) conn_env \<Rightarrow> ('u, 't) pai_proto_conn \<Rightarrow> u32 \<Rightarrow> ('u, 't) pai_proto_conn" where
  "conn_set_closed E c reason =
     (if state c = PAI_PROTO_STATE_CLOSED then c
      else
        (let c1 = conn_reset_phase (c\<lparr>state := PAI_PROTO_STATE_CLOSED\<rparr>);
             c2 = c1\<lparr>transport := t_close E (transport c1)\<rparr>
         in case on_close E of None \<Rightarrow> c2 | Some f \<Rightarrow> f c2 reason))"

definition pai_proto_conn_init ::
    "pai_proto_role \<Rightarrow> u32 \<Rightarrow> 't \<Rightarrow> 'u \<Rightarrow> ('u, 't) pai_proto_conn" where
  "pai_proto_conn_init r caps t u =
     \<lparr>role = r, local_caps = caps AND PAI_PROTO_CAP_KNOWN, remote_caps = 0, negotiated_caps = 0,
      state = PAI_PROTO_STATE_NEW, nack_reason = 0, transport = t, user = u,
      next_request_id = 1, next_session_id = 1, header_buf = [], payload_buf = None,
      pending = zero_frame, streams = replicate PAI_PROTO_MAX_STREAMS 0,
      stream_seqs = replicate PAI_PROTO_MAX_STREAMS 0,
      sessions = replicate PAI_PROTO_MAX_SESSIONS 0\<rparr>"

definition pai_proto_conn_destroy ::
    "('u, 't) conn_env \<Rightarrow> ('u, 't) pai_proto_conn \<Rightarrow> ('u, 't) pai_proto_conn" where
  "pai_proto_conn_destroy E c =
     (let c1 = conn_reset_phase c
      in c1\<lparr>transport := t_close E (transport c1), state := PAI_PROTO_STATE_CLOSED\<rparr>)"

section \<open>Sending\<close>

definition conn_send_unchecked ::
    "('u, 't) conn_env \<Rightarrow> ('u, 't) pai_proto_conn \<Rightarrow> pai_proto_frame \<Rightarrow>
     ('u, 't) pai_proto_conn \<times> unit res" where
  "conn_send_unchecked E c f =
     (if payload_len f > PAI_PROTO_MAX_PAYLOAD then (c, Inl PAI_ERR_INVALID_ARG)
      else if flags f AND PAI_PROTO_FLAG_COMPRESSED \<noteq> 0 then (c, Inl PAI_ERR_INVALID_ARG)
      else
        (let part = put_le32 PAI_PROTO_MAGIC @ [PAI_PROTO_VERSION_MAJOR, PAI_PROTO_VERSION_MINOR] @
               put_le16 (ucast (flags f)) @ put_le32 (msg_type f) @ put_le32 (payload_len f) @
               put_le64 (request_id f) @ put_le64 (session_id f);
             crc = pai_proto_crc32_upd (pai_proto_crc32_upd pai_proto_crc32_init part)
               (payload_bytes f);
             header = part @ put_le32 (pai_proto_crc32_fin crc) @ put_le32 0
         in case t_send E (transport c) header of
              (t1, Inl e) \<Rightarrow> (c\<lparr>transport := t1\<rparr>, Inl e)
            | (t1, Inr _) \<Rightarrow>
                if payload_len f > 0 then
                  (case t_send E t1 (payload_bytes f) of (t2, r) \<Rightarrow> (c\<lparr>transport := t2\<rparr>, r))
                else (c\<lparr>transport := t1\<rparr>, Inr ())))"

definition pai_proto_conn_send ::
    "('u, 't) conn_env \<Rightarrow> ('u, 't) pai_proto_conn \<Rightarrow> pai_proto_frame \<Rightarrow>
     ('u, 't) pai_proto_conn \<times> unit res" where
  "pai_proto_conn_send E c f =
     (if state c \<noteq> PAI_PROTO_STATE_OPEN then (c, Inl PAI_ERR_INVALID_ARG)
      else conn_send_unchecked E c f)"

definition pai_proto_conn_send_raw ::
    "('u, 't) conn_env \<Rightarrow> ('u, 't) pai_proto_conn \<Rightarrow> u32 \<Rightarrow> u32 \<Rightarrow> u64 \<Rightarrow> u64 \<Rightarrow>
     bytes option \<Rightarrow> u32 \<Rightarrow> ('u, 't) pai_proto_conn \<times> unit res" where
  "pai_proto_conn_send_raw E c mt fl rid sid pay plen =
     (if state c \<noteq> PAI_PROTO_STATE_OPEN then (c, Inl PAI_ERR_INVALID_ARG)
      else conn_send_unchecked E c
        (zero_frame\<lparr>msg_type := mt, flags := fl, request_id := rid, session_id := sid,
                    payload := pay, payload_len := plen\<rparr>))"

definition pai_proto_conn_new_request_id ::
    "('u, 't) pai_proto_conn \<Rightarrow> ('u, 't) pai_proto_conn \<times> u64" where
  "pai_proto_conn_new_request_id c =
     (let nxt = next_request_id c + 1
      in (c\<lparr>next_request_id := (if nxt = 0 then 1 else nxt)\<rparr>, next_request_id c))"

definition bytes_of_string :: "string \<Rightarrow> bytes" where
  "bytes_of_string s = map (\<lambda>ch. of_nat (of_char ch)) s"

text \<open>Best effort: a reply that cannot be delivered is only logged.\<close>

definition conn_send_error_reply ::
    "('u, 't) conn_env \<Rightarrow> ('u, 't) pai_proto_conn \<Rightarrow> pai_proto_frame \<Rightarrow> u32 \<Rightarrow>
     ('u, 't) pai_proto_conn" where
  "conn_send_error_reply E c orig status =
     (case pai_proto_msg_encode_error 264 status (Some (bytes_of_string (pai_status_str status))) of
        Inl _ \<Rightarrow> c
      | Inr pay \<Rightarrow>
          fst (conn_send_unchecked E c
            (zero_frame\<lparr>msg_type := PAI_PROTO_MSG_ERROR, flags := PAI_PROTO_FLAG_REPLY,
                        request_id := request_id orig, session_id := session_id orig,
                        payload := Some pay, payload_len := of_nat (length pay)\<rparr>)))"

section \<open>Sessions\<close>

definition pai_proto_conn_session_active :: "('u, 't) pai_proto_conn \<Rightarrow> u64 \<Rightarrow> bool" where
  "pai_proto_conn_session_active c sid = (if sid = 0 then False else sid \<in> set (sessions c))"

text \<open>The id search of \<open>pai_proto_conn_session_open\<close>: the id found and the allocator after it.\<close>

partial_function (option) session_next_id :: "u64 list \<Rightarrow> u64 \<Rightarrow> (u64 \<times> u64) option" where
  "session_next_id tab nxt =
     (if nxt = 0 then session_next_id tab (nxt + 1)
      else if nxt \<in> set tab then session_next_id tab (nxt + 1)
      else Some (nxt, nxt + 1))"

definition pai_proto_conn_session_open ::
    "('u, 't) pai_proto_conn \<Rightarrow> (('u, 't) pai_proto_conn \<times> u64 res) option" where
  "pai_proto_conn_session_open c =
     (case session_next_id (sessions c) (next_session_id c) of
        None \<Rightarrow> None
      | Some (sid, nxt) \<Rightarrow>
          (let c1 = c\<lparr>next_session_id := nxt\<rparr>
           in case find_index (\<lambda>x. x = 0) (sessions c1) of
                Some i \<Rightarrow> Some (c1\<lparr>sessions := (sessions c1)[i := sid]\<rparr>, Inr sid)
              | None \<Rightarrow> Some (c1, Inl PAI_ERR_NOMEM)))"

definition pai_proto_conn_session_close ::
    "('u, 't) pai_proto_conn \<Rightarrow> u64 \<Rightarrow> ('u, 't) pai_proto_conn" where
  "pai_proto_conn_session_close c sid =
     (case find_index (\<lambda>x. x = sid) (sessions c) of
        Some i \<Rightarrow> c\<lparr>sessions := (sessions c)[i := 0]\<rparr>
      | None \<Rightarrow> c)"

section \<open>Inbound streams\<close>

definition stream_index :: "('u, 't) pai_proto_conn \<Rightarrow> u64 \<Rightarrow> nat option" where
  "stream_index c rid = find_index (\<lambda>x. x = rid) (streams c)"

definition stream_begin ::
    "('u, 't) pai_proto_conn \<Rightarrow> u64 \<Rightarrow> ('u, 't) pai_proto_conn \<times> unit res" where
  "stream_begin c rid =
     (if stream_index c rid \<noteq> None then (c, Inl PAI_ERR_PROTOCOL)
      else
        (case find_index (\<lambda>x. x = 0) (streams c) of
           Some i \<Rightarrow> (c\<lparr>streams := (streams c)[i := rid], stream_seqs := (stream_seqs c)[i := 0]\<rparr>,
                      Inr ())
         | None \<Rightarrow> (c, Inl PAI_ERR_NOMEM)))"

definition stream_end :: "('u, 't) pai_proto_conn \<Rightarrow> u64 \<Rightarrow> ('u, 't) pai_proto_conn" where
  "stream_end c rid =
     (case stream_index c rid of
        Some i \<Rightarrow> c\<lparr>streams := (streams c)[i := 0], stream_seqs := (stream_seqs c)[i := 0]\<rparr>
      | None \<Rightarrow> c)"

text \<open>The callback invocations shared by the handlers.\<close>

definition call_message ::
    "('u, 't) conn_env \<Rightarrow> ('u, 't) pai_proto_conn \<Rightarrow> pai_proto_frame \<Rightarrow>
     ('u, 't) pai_proto_conn" where
  "call_message E c f =
     (case on_message E of
        None \<Rightarrow> c
      | Some cb \<Rightarrow>
          (case cb c f of (c1, st) \<Rightarrow> if st \<noteq> PAI_OK then conn_send_error_reply E c1 f st else c1))"

definition call_stream_data ::
    "('u, 't) conn_env \<Rightarrow> ('u, 't) pai_proto_conn \<Rightarrow> pai_proto_frame \<Rightarrow> u8 \<Rightarrow> u32 \<Rightarrow> bytes \<Rightarrow>
     ('u, 't) pai_proto_conn" where
  "call_stream_data E c f kind seqno data =
     (case on_stream_data E of
        None \<Rightarrow> c
      | Some cb \<Rightarrow> cb c (request_id f) (session_id f) kind seqno data)"

text \<open>The common tail of \<open>conn_handle_stream\<close>: close the stream on a terminal frame, else bump
  the ordinal of a TOKEN stream.\<close>

definition stream_finish ::
    "('u, 't) conn_env \<Rightarrow> ('u, 't) pai_proto_conn \<Rightarrow> pai_proto_frame \<Rightarrow> nat \<Rightarrow> bool \<Rightarrow>
     ('u, 't) pai_proto_conn" where
  "stream_finish E c f idx terminal =
     (if terminal then
        (let c1 = stream_end c (request_id f)
         in case on_stream_end E of None \<Rightarrow> c1 | Some cb \<Rightarrow> cb c1 (request_id f) (session_id f))
      else if msg_type f = PAI_PROTO_MSG_TOKEN then
        c\<lparr>stream_seqs := (stream_seqs c)[idx := stream_seqs c ! idx + 1]\<rparr>
      else c)"

definition conn_handle_stream ::
    "('u, 't) conn_env \<Rightarrow> ('u, 't) pai_proto_conn \<Rightarrow> pai_proto_frame \<Rightarrow>
     ('u, 't) pai_proto_conn \<times> unit res" where
  "conn_handle_stream E c f =
     (let terminal = (flags f AND PAI_PROTO_FLAG_STREAM_END \<noteq> 0);
          starts = (flags f AND PAI_PROTO_FLAG_STREAM_START \<noteq> 0)
      in if starts \<and> request_id f = 0 then (c, Inl PAI_ERR_PROTOCOL)
         else
           (case (if starts then
                    (case stream_begin c (request_id f) of
                       (c1, Inl e) \<Rightarrow> (c1, Inl e)
                     | (c1, Inr _) \<Rightarrow>
                         ((case on_stream_begin E of
                             None \<Rightarrow> c1
                           | Some cb \<Rightarrow> cb c1 (request_id f) (session_id f)), Inr ()))
                  else (c, Inr ())) of
              (c2, Inl e) \<Rightarrow> (c2, Inl e)
            | (c2, Inr _) \<Rightarrow>
                (case stream_index c2 (request_id f) of
                   None \<Rightarrow> (c2, Inl PAI_ERR_PROTOCOL)
                 | Some idx \<Rightarrow>
                     if msg_type f = PAI_PROTO_MSG_STREAM_DATA then
                       (case pai_proto_msg_decode_stream_data (payload f) (payload_len f) of
                          Inl _ \<Rightarrow> (c2, Inl PAI_ERR_PROTOCOL)
                        | Inr (kind, seqno, data) \<Rightarrow>
                            (stream_finish E (call_stream_data E c2 f kind seqno data) f idx terminal,
                             Inr ()))
                     else if msg_type f = PAI_PROTO_MSG_TOKEN then
                       (case pai_proto_msg_decode_token (payload f) (payload_len f) of
                          Inl _ \<Rightarrow> (c2, Inl PAI_ERR_PROTOCOL)
                        | Inr token \<Rightarrow>
                            (let c3 = call_stream_data E c2 f PAI_PROTO_STREAM_GENERATE
                                        (stream_seqs c2 ! idx) token
                             in (stream_finish E (call_message E c3 f) f idx terminal, Inr ())))
                     else if msg_type f = PAI_PROTO_MSG_STREAM_CLOSE then
                       (stream_finish E (call_message E c2 f) f idx True, Inr ())
                     else (stream_finish E c2 f idx terminal, Inr ()))))"

section \<open>Negotiation\<close>

definition pai_proto_conn_start ::
    "('u, 't) conn_env \<Rightarrow> ('u, 't) pai_proto_conn \<Rightarrow> ('u, 't) pai_proto_conn \<times> unit res" where
  "pai_proto_conn_start E c =
     (if role c \<noteq> PAI_PROTO_ROLE_CLIENT \<or> state c \<noteq> PAI_PROTO_STATE_NEW
      then (c, Inl PAI_ERR_INVALID_ARG)
      else
        (case pai_proto_msg_encode_caps 8 (local_caps c) of
           Inl e \<Rightarrow> (c, Inl e)
         | Inr pay \<Rightarrow>
             (case conn_send_unchecked E (c\<lparr>next_request_id := next_request_id c + 1\<rparr>)
                     (zero_frame\<lparr>msg_type := PAI_PROTO_MSG_HELLO, request_id := next_request_id c,
                                 payload := Some pay, payload_len := of_nat (length pay)\<rparr>) of
                (c1, Inl e) \<Rightarrow> (c1, Inl e)
              | (c1, Inr _) \<Rightarrow> (c1\<lparr>state := PAI_PROTO_STATE_NEGOTIATING\<rparr>, Inr ()))))"

definition conn_send_negotiation ::
    "('u, 't) conn_env \<Rightarrow> ('u, 't) pai_proto_conn \<Rightarrow> u32 \<Rightarrow> u32 \<Rightarrow> u64 \<Rightarrow>
     ('u, 't) pai_proto_conn \<times> unit res" where
  "conn_send_negotiation E c mt val rid =
     (case pai_proto_msg_encode_u32 8 val of
        Inl e \<Rightarrow> (c, Inl e)
      | Inr pay \<Rightarrow>
          conn_send_unchecked E c
            (zero_frame\<lparr>msg_type := mt, flags := PAI_PROTO_FLAG_REPLY, request_id := rid,
                        payload := Some pay, payload_len := of_nat (length pay)\<rparr>))"

definition version_major_ok :: "pai_proto_frame \<Rightarrow> bool" where
  "version_major_ok f \<longleftrightarrow> drop_bit 8 (version f) = ucast PAI_PROTO_VERSION_MAJOR"

definition conn_handle_hello_server ::
    "('u, 't) conn_env \<Rightarrow> ('u, 't) pai_proto_conn \<Rightarrow> pai_proto_frame \<Rightarrow>
     ('u, 't) pai_proto_conn \<times> unit res" where
  "conn_handle_hello_server E c f =
     (case pai_proto_msg_decode_caps (payload f) (payload_len f) of
        Inl _ \<Rightarrow> (c, Inl PAI_ERR_PROTOCOL)
      | Inr remote \<Rightarrow>
          if \<not> version_major_ok f then
            (conn_set_closed E
               (fst (conn_send_negotiation E c PAI_PROTO_MSG_HELLO_NACK PAI_PROTO_NACK_VERSION
                       (request_id f)))
               PAI_PROTO_CLOSE_PROTOCOL, Inr ())
          else
            (case (case on_hello E of None \<Rightarrow> (c, local_caps c) | Some cb \<Rightarrow> cb c remote) of
               (c1, server_caps) \<Rightarrow>
                 if server_caps = 0 then
                   (conn_set_closed E
                      (fst (conn_send_negotiation E c1 PAI_PROTO_MSG_HELLO_NACK PAI_PROTO_NACK_CAPS
                              (request_id f)))
                      PAI_PROTO_CLOSE_NORMAL, Inr ())
                 else
                   (let negotiated = server_caps AND remote AND PAI_PROTO_CAP_KNOWN
                    in conn_send_negotiation E
                         (c1\<lparr>local_caps := server_caps AND PAI_PROTO_CAP_KNOWN,
                             remote_caps := remote AND PAI_PROTO_CAP_KNOWN,
                             negotiated_caps := negotiated,
                             state := PAI_PROTO_STATE_OPEN\<rparr>)
                         PAI_PROTO_MSG_HELLO_ACK negotiated (request_id f))))"

definition conn_handle_ack_client ::
    "('u, 't) pai_proto_conn \<Rightarrow> pai_proto_frame \<Rightarrow> ('u, 't) pai_proto_conn \<times> unit res" where
  "conn_handle_ack_client c f =
     (if \<not> version_major_ok f then (c, Inl PAI_ERR_PROTOCOL)
      else
        (case pai_proto_msg_decode_caps (payload f) (payload_len f) of
           Inl _ \<Rightarrow> (c, Inl PAI_ERR_PROTOCOL)
         | Inr negotiated \<Rightarrow>
             (c\<lparr>remote_caps := negotiated,
                negotiated_caps := negotiated AND PAI_PROTO_CAP_KNOWN,
                state := PAI_PROTO_STATE_OPEN\<rparr>, Inr ())))"

definition conn_handle_nack_client ::
    "('u, 't) conn_env \<Rightarrow> ('u, 't) pai_proto_conn \<Rightarrow> pai_proto_frame \<Rightarrow>
     ('u, 't) pai_proto_conn \<times> unit res" where
  "conn_handle_nack_client E c f =
     (let reason = (case pai_proto_msg_decode_u32 (payload f) (payload_len f) of
                      Inl _ \<Rightarrow> 0 | Inr r \<Rightarrow> r)
      in (conn_set_closed E (c\<lparr>nack_reason := reason\<rparr>) PAI_PROTO_CLOSE_NORMAL, Inr ()))"

definition conn_handle_preopen ::
    "('u, 't) conn_env \<Rightarrow> ('u, 't) pai_proto_conn \<Rightarrow> pai_proto_frame \<Rightarrow>
     ('u, 't) pai_proto_conn \<times> unit res" where
  "conn_handle_preopen E c f =
     (if role c = PAI_PROTO_ROLE_SERVER then
        (if msg_type f \<noteq> PAI_PROTO_MSG_HELLO then (c, Inl PAI_ERR_PROTOCOL)
         else conn_handle_hello_server E c f)
      else if msg_type f = PAI_PROTO_MSG_HELLO_ACK then conn_handle_ack_client c f
      else if msg_type f = PAI_PROTO_MSG_HELLO_NACK then conn_handle_nack_client E c f
      else (c, Inl PAI_ERR_PROTOCOL))"

section \<open>Open-state dispatch\<close>

definition conn_handle_open ::
    "('u, 't) conn_env \<Rightarrow> ('u, 't) pai_proto_conn \<Rightarrow> pai_proto_frame \<Rightarrow>
     ('u, 't) pai_proto_conn \<times> unit res" where
  "conn_handle_open E c f =
     (if \<not> version_major_ok f then (c, Inl PAI_ERR_PROTOCOL)
      else if msg_type f = PAI_PROTO_MSG_HELLO \<or> msg_type f = PAI_PROTO_MSG_HELLO_ACK \<or>
              msg_type f = PAI_PROTO_MSG_HELLO_NACK then (c, Inl PAI_ERR_PROTOCOL)
      else if msg_type f = PAI_PROTO_MSG_PING then
        conn_send_unchecked E c
          (zero_frame\<lparr>msg_type := PAI_PROTO_MSG_PONG, flags := PAI_PROTO_FLAG_REPLY,
                      request_id := request_id f, session_id := session_id f\<rparr>)
      else if msg_type f = PAI_PROTO_MSG_CLOSE then
        (let reason = (if payload_len f > 0 then
                         (case pai_proto_msg_decode_u32 (payload f) (payload_len f) of
                            Inl _ \<Rightarrow> PAI_PROTO_CLOSE_NORMAL | Inr r \<Rightarrow> r)
                       else PAI_PROTO_CLOSE_NORMAL)
         in (conn_set_closed E c reason, Inr ()))
      else if msg_type f = PAI_PROTO_MSG_STREAM_DATA \<or> msg_type f = PAI_PROTO_MSG_TOKEN \<or>
              msg_type f = PAI_PROTO_MSG_STREAM_CLOSE then conn_handle_stream E c f
      else
        (let c1 = (if msg_type f = PAI_PROTO_MSG_COMPLETE then stream_end c (request_id f) else c)
         in case on_message E of
              None \<Rightarrow> (c1, Inr ())
            | Some cb \<Rightarrow>
                (case cb c1 f of
                   (c2, st) \<Rightarrow>
                     (if st \<noteq> PAI_OK \<and> request_id f \<noteq> 0 \<and> msg_type f \<noteq> PAI_PROTO_MSG_ERROR \<and>
                         msg_type f \<noteq> PAI_PROTO_MSG_PONG
                      then conn_send_error_reply E c2 f st else c2, Inr ()))))"

section \<open>Receive pump\<close>

text \<open>One pass of the loop body of \<open>pai_proto_conn_poll\<close>: \<open>Stop\<close> is a \<open>break\<close> with the result
  so far, \<open>Frame\<close> a completely processed frame.\<close>

datatype poll_flow = Stop "unit res" | Frame

definition poll_dispatch ::
    "('u, 't) conn_env \<Rightarrow> ('u, 't) pai_proto_conn \<Rightarrow> ('u, 't) pai_proto_conn \<times> poll_flow" where
  "poll_dispatch E c =
     (case pai_proto_frame_validate (header_buf c) (payload_buf c) of
        Inl _ \<Rightarrow> (conn_set_closed E c PAI_PROTO_CLOSE_PROTOCOL, Stop (Inl PAI_ERR_PROTOCOL))
      | Inr _ \<Rightarrow>
          (let f = (pending c)\<lparr>payload := payload_buf c\<rparr>;
               c1 = c\<lparr>pending := f\<rparr>
           in case (if state c1 = PAI_PROTO_STATE_OPEN then conn_handle_open E c1 f
                    else conn_handle_preopen E c1 f) of
                (c2, Inl _) \<Rightarrow>
                  (conn_set_closed E c2 PAI_PROTO_CLOSE_PROTOCOL, Stop (Inl PAI_ERR_PROTOCOL))
              | (c2, Inr _) \<Rightarrow> (conn_reset_phase c2, Frame)))"

definition poll_payload ::
    "('u, 't) conn_env \<Rightarrow> ('u, 't) pai_proto_conn \<Rightarrow> ('u, 't) pai_proto_conn \<times> poll_flow" where
  "poll_payload E c =
     (let have = (case payload_buf c of None \<Rightarrow> [] | Some b \<Rightarrow> b);
          want = unat (payload_len (pending c))
      in if want > length have then
           (case t_recv E (transport c) (want - length have) of
              (t1, data, Inl e) \<Rightarrow>
                (let c1 = c\<lparr>transport := t1\<rparr>
                 in if e = PAI_ERR_IO then
                      (conn_set_closed E c1 PAI_PROTO_CLOSE_PROTOCOL, Stop (Inl PAI_ERR_PROTOCOL))
                    else (conn_set_closed E c1 PAI_PROTO_CLOSE_PEER_GONE, Stop (Inl e)))
            | (t1, data, Inr _) \<Rightarrow>
                (let c1 = c\<lparr>transport := t1, payload_buf := Some (have @ data)\<rparr>
                 in if length (have @ data) < want then (c1, Stop (Inr ())) else poll_dispatch E c1))
         else poll_dispatch E c)"

definition poll_step ::
    "('u, 't) conn_env \<Rightarrow> ('u, 't) pai_proto_conn \<Rightarrow> ('u, 't) pai_proto_conn \<times> poll_flow" where
  "poll_step E c =
     (if length (header_buf c) < 40 then
        (case t_recv E (transport c) (40 - length (header_buf c)) of
           (t1, data, Inl e) \<Rightarrow>
             (let c1 = conn_set_closed E (c\<lparr>transport := t1\<rparr>) PAI_PROTO_CLOSE_PEER_GONE
              in if e = PAI_ERR_IO \<and> data = [] then (c1, Stop (Inr ())) else (c1, Stop (Inl e)))
         | (t1, data, Inr _) \<Rightarrow>
             (let c1 = c\<lparr>transport := t1, header_buf := header_buf c @ data\<rparr>
              in if length (header_buf c1) < 40 then (c1, Stop (Inr ()))
                 else
                   (case pai_proto_frame_decode (header_buf c1) of
                      Inl _ \<Rightarrow>
                        (conn_set_closed E c1 PAI_PROTO_CLOSE_PROTOCOL, Stop (Inl PAI_ERR_PROTOCOL))
                    | Inr f \<Rightarrow>
                        (let c2 = c1\<lparr>pending := f\<rparr>
                         in if payload_len f > 0 then
                              (if \<not> malloc_ok E (unat (payload_len f)) then
                                 (conn_set_closed E c2 PAI_PROTO_CLOSE_APP,
                                  Stop (Inl PAI_ERR_NOMEM))
                               else poll_payload E (c2\<lparr>payload_buf := Some []\<rparr>))
                            else poll_payload E c2))))
      else poll_payload E c)"

text \<open>The loop runs at most \<open>PAI_PROTO_POLL_BATCH\<close> times; \<open>n\<close> counts the passes left.\<close>

fun poll_loop ::
    "('u, 't) conn_env \<Rightarrow> nat \<Rightarrow> nat \<Rightarrow> ('u, 't) pai_proto_conn \<Rightarrow>
     ('u, 't) pai_proto_conn \<times> unit res \<times> nat" where
  "poll_loop E 0 frames c = (c, Inr (), frames)"
| "poll_loop E (Suc n) frames c =
     (if state c = PAI_PROTO_STATE_CLOSED then (c, Inr (), frames)
      else
        (case poll_step E c of
           (c1, Stop r) \<Rightarrow> (c1, r, frames)
         | (c1, Frame) \<Rightarrow> poll_loop E n (Suc frames) c1))"

definition pai_proto_conn_poll ::
    "('u, 't) conn_env \<Rightarrow> ('u, 't) pai_proto_conn \<Rightarrow>
     ('u, 't) pai_proto_conn \<times> unit res \<times> nat" where
  "pai_proto_conn_poll E c = poll_loop E PAI_PROTO_POLL_BATCH 0 c"

definition pai_proto_conn_state_name :: "pai_proto_state \<Rightarrow> string" where
  "pai_proto_conn_state_name s =
     (case s of
        PAI_PROTO_STATE_NEW \<Rightarrow> ''new''
      | PAI_PROTO_STATE_NEGOTIATING \<Rightarrow> ''negotiating''
      | PAI_PROTO_STATE_OPEN \<Rightarrow> ''open''
      | PAI_PROTO_STATE_CLOSED \<Rightarrow> ''closed'')"

end
