(* ===== verification/Conn_Safety.thy ===== *)
theory Conn_Safety
  imports Connection
begin

text \<open>
  Invariants and safety of the connection state machine: the id tables, the receive buffers, the
  life cycle. The locale \<open>conn_app\<close> is the contract between \<open>connection.c\<close> and the code it calls
  through function pointers: \<open>recv\<close> never delivers more than was asked for, and a callback touches
  the connection only through the public sending and session functions.
\<close>

section \<open>Slot tables\<close>

text \<open>Both \<open>streams\<close> and \<open>sessions\<close> are fixed tables of ids in which 0 marks a free slot.\<close>

definition slots_ok :: "nat \<Rightarrow> u64 list \<Rightarrow> bool" where
  "slots_ok n xs \<longleftrightarrow> length xs = n \<and>
     (\<forall>i < n. \<forall>j < n. i \<noteq> j \<longrightarrow> xs ! i = xs ! j \<longrightarrow> xs ! i = 0)"

lemma slots_ok_replicate [simp]: "slots_ok n (replicate n 0)"
  by (simp add: slots_ok_def)

lemma slots_ok_update:
  assumes "slots_ok n xs" "v = 0 \<or> v \<notin> set xs"
  shows "slots_ok n (xs[i := v])"
proof (cases "i < length xs")
  case True
  then show ?thesis
    using assms by (auto simp: slots_ok_def nth_list_update in_set_conv_nth)
next
  case False
  then show ?thesis using assms by (simp add: slots_ok_def)
qed

lemma set_update_free:
  assumes "find_index (\<lambda>x. x = 0) xs = Some i" "slots_ok n xs"
  shows "set (xs[i := v]) - {0} = insert v (set xs) - {0}"
proof -
  have i: "i < length xs" "xs ! i = 0" using find_index_Some [OF assms(1)] by auto
  show ?thesis
    using i by (auto simp: set_conv_nth nth_list_update split: if_splits)
qed

lemma set_update_clear:
  assumes "find_index (\<lambda>x. x = k) xs = Some i" "slots_ok n xs" "k \<noteq> 0"
  shows "set (xs[i := 0]) - {0} = set xs - {0, k}"
proof -
  have i: "i < length xs" "xs ! i = k" using find_index_Some [OF assms(1)] by auto
  have u: "\<And>j. j < length xs \<Longrightarrow> xs ! j = k \<Longrightarrow> j = i"
    using assms(2,3) i by (auto simp: slots_ok_def)
  show ?thesis
  proof (intro set_eqI iffI)
    fix x assume "x \<in> set (xs[i := 0]) - {0}"
    then obtain j where "j < length xs" "xs[i := 0] ! j = x" "x \<noteq> 0" by (auto simp: in_set_conv_nth)
    then show "x \<in> set xs - {0, k}" using u by (cases "j = i") auto
  next
    fix x assume "x \<in> set xs - {0, k}"
    then obtain j where "j < length xs" "xs ! j = x" "x \<noteq> 0" "x \<noteq> k" by (auto simp: in_set_conv_nth)
    then have "xs[i := 0] ! j = x" using i by (cases "j = i") auto
    then show "x \<in> set (xs[i := 0]) - {0}"
      using \<open>j < length xs\<close> \<open>x \<noteq> 0\<close> by (metis DiffI length_list_update nth_mem singletonD)
  qed
qed

section \<open>Sessions\<close>

text \<open>Among \<open>length tab + 2\<close> consecutive candidates one is neither 0 nor taken.\<close>

lemma free_id_exists:
  fixes tab :: "u64 list" and nxt :: u64
  assumes "length tab \<le> 1000"
  shows "\<exists>k \<le> length tab + 1. nxt + of_nat k \<noteq> 0 \<and> nxt + of_nat k \<notin> set tab"
proof (rule ccontr)
  assume "\<not> ?thesis"
  then have sub: "(\<lambda>k. nxt + of_nat k) ` {.. length tab + 1} \<subseteq> insert 0 (set tab)"
    by auto
  have inj: "inj_on (\<lambda>k. nxt + of_nat k :: u64) {.. length tab + 1}"
  proof (rule inj_onI)
    fix i j
    assume ij: "i \<in> {.. length tab + 1}" "j \<in> {.. length tab + 1}"
      and eq: "nxt + of_nat i = nxt + of_nat j"
    from eq have "unat (of_nat i :: u64) = unat (of_nat j :: u64)" by simp
    moreover have "unat (of_nat i :: u64) = i" "unat (of_nat j :: u64) = j"
      using ij assms by (auto intro!: unat_of_nat_small)
    ultimately show "i = j" by simp
  qed
  have "length tab + 2 = card ((\<lambda>k. nxt + of_nat k :: u64) ` {.. length tab + 1})"
    using inj by (simp add: card_image)
  also have "\<dots> \<le> card (insert 0 (set tab))"
    using sub by (rule card_mono [rotated]) simp
  also have "\<dots> \<le> length tab + 1"
    using card_length [of tab] by (auto simp: card_insert_if)
  finally show False by simp
qed

lemma session_next_id_from:
  assumes "nxt + of_nat k \<noteq> 0 \<and> nxt + of_nat k \<notin> set tab"
  shows "\<exists>sid. session_next_id tab nxt = Some (sid, sid + 1) \<and> sid \<noteq> 0 \<and> sid \<notin> set tab"
  using assms
proof (induction k arbitrary: nxt)
  case 0
  then show ?case by (simp add: session_next_id.simps)
next
  case (Suc k)
  have "nxt + 1 + of_nat k \<noteq> 0 \<and> nxt + 1 + of_nat k \<notin> set tab"
    using Suc.prems by (simp add: add.assoc)
  from Suc.IH [OF this] show ?case
    by (cases "nxt = 0 \<or> nxt \<in> set tab") (auto simp: session_next_id.simps [of tab nxt])
qed

lemma session_next_id_total:
  assumes "length tab \<le> 1000"
  shows "\<exists>sid. session_next_id tab nxt = Some (sid, sid + 1) \<and> sid \<noteq> 0 \<and> sid \<notin> set tab"
  using free_id_exists [OF assms, of nxt] session_next_id_from by blast

lemma session_open_cases:
  assumes "slots_ok PAI_PROTO_MAX_SESSIONS (sessions c)"
  shows "\<exists>c' r. pai_proto_conn_session_open c = Some (c', r) \<and>
           slots_ok PAI_PROTO_MAX_SESSIONS (sessions c') \<and>
           (if 0 \<in> set (sessions c)
            then \<exists>sid. r = Inr sid \<and> sid \<noteq> 0 \<and> sid \<notin> set (sessions c) \<and>
                   set (sessions c') - {0} = insert sid (set (sessions c)) - {0}
            else r = Inl PAI_ERR_NOMEM \<and> sessions c' = sessions c)"
proof -
  have "length (sessions c) \<le> 1000"
    using assms by (simp add: slots_ok_def PAI_PROTO_MAX_SESSIONS_def)
  then obtain sid where sid: "session_next_id (sessions c) (next_session_id c) = Some (sid, sid + 1)"
    "sid \<noteq> 0" "sid \<notin> set (sessions c)"
    using session_next_id_total by blast
  show ?thesis
  proof (cases "find_index (\<lambda>x. x = 0) (sessions c)")
    case None
    then have "0 \<notin> set (sessions c)" by (auto simp: find_index_None)
    then show ?thesis using None sid assms by (simp add: pai_proto_conn_session_open_def)
  next
    case (Some i)
    then have "0 \<in> set (sessions c)" using find_index_Some [OF Some] by (metis nth_mem)
    moreover have "slots_ok PAI_PROTO_MAX_SESSIONS ((sessions c)[i := sid])"
      using slots_ok_update [OF assms] sid(3) by blast
    ultimately show ?thesis
      using Some sid set_update_free [OF Some assms] by (simp add: pai_proto_conn_session_open_def)
  qed
qed

lemma session_active_iff:
  "pai_proto_conn_session_active c sid \<longleftrightarrow> sid \<in> set (sessions c) - {0}"
  by (auto simp: pai_proto_conn_session_active_def)

text \<open>Opening a session always returns, though its id search is an unbounded loop on a
  wrapping counter: with a free slot it yields a fresh nonzero id that becomes active beside the
  sessions already active, and with a full table it reports \<open>PAI_ERR_NOMEM\<close> and changes no slot.\<close>

theorem session_open_fresh:
  assumes "slots_ok PAI_PROTO_MAX_SESSIONS (sessions c)"
  shows "\<exists>c' r. pai_proto_conn_session_open c = Some (c', r) \<and>
           slots_ok PAI_PROTO_MAX_SESSIONS (sessions c') \<and>
           (if 0 \<in> set (sessions c)
            then \<exists>sid. r = Inr sid \<and> sid \<noteq> 0 \<and> \<not> pai_proto_conn_session_active c sid \<and>
                   (\<forall>x. pai_proto_conn_session_active c' x \<longleftrightarrow>
                        x = sid \<or> pai_proto_conn_session_active c x)
            else r = Inl PAI_ERR_NOMEM \<and> sessions c' = sessions c)"
proof -
  obtain c' r where o: "pai_proto_conn_session_open c = Some (c', r)"
    and s: "slots_ok PAI_PROTO_MAX_SESSIONS (sessions c')"
    and b: "if 0 \<in> set (sessions c)
            then \<exists>sid. r = Inr sid \<and> sid \<noteq> 0 \<and> sid \<notin> set (sessions c) \<and>
                   set (sessions c') - {0} = insert sid (set (sessions c)) - {0}
            else r = Inl PAI_ERR_NOMEM \<and> sessions c' = sessions c"
    using session_open_cases [OF assms] by blast
  show ?thesis
  proof (cases "0 \<in> set (sessions c)")
    case True
    with b obtain sid where sid: "r = Inr sid" "sid \<noteq> 0" "sid \<notin> set (sessions c)"
      and set: "set (sessions c') - {0} = insert sid (set (sessions c)) - {0}"
      by auto
    have "pai_proto_conn_session_active c' x \<longleftrightarrow> x = sid \<or> pai_proto_conn_session_active c x" for x
      unfolding session_active_iff set using sid(2) by blast
    then show ?thesis using o s sid True by (auto simp: session_active_iff)
  next
    case False
    then show ?thesis using o s b by simp
  qed
qed

theorem session_open_fresh_witness:
  "\<exists>c' r. pai_proto_conn_session_open
            (pai_proto_conn_init PAI_PROTO_ROLE_SERVER 1 () ()) = Some (c', r) \<and> (\<exists>sid. r = Inr sid)"
  using session_open_fresh [of "pai_proto_conn_init PAI_PROTO_ROLE_SERVER 1 () ()"]
  by (fastforce simp: pai_proto_conn_init_def PAI_PROTO_MAX_SESSIONS_def)

lemma session_close_slots:
  assumes "slots_ok n (sessions c)"
  shows "slots_ok n (sessions (pai_proto_conn_session_close c sid))"
  using assms
  by (auto simp: pai_proto_conn_session_close_def slots_ok_update split: option.split)

section \<open>Life cycle order\<close>

text \<open>The states are ordered as the C enumeration numbers them: a connection only moves up.\<close>

fun state_code :: "pai_proto_state \<Rightarrow> nat" where
  "state_code PAI_PROTO_STATE_NEW = 0"
| "state_code PAI_PROTO_STATE_NEGOTIATING = 1"
| "state_code PAI_PROTO_STATE_OPEN = 2"
| "state_code PAI_PROTO_STATE_CLOSED = 3"

instantiation pai_proto_state :: linorder
begin

definition less_eq_pai_proto_state :: "pai_proto_state \<Rightarrow> pai_proto_state \<Rightarrow> bool" where
  "less_eq_pai_proto_state a b \<longleftrightarrow> state_code a \<le> state_code b"

definition less_pai_proto_state :: "pai_proto_state \<Rightarrow> pai_proto_state \<Rightarrow> bool" where
  "less_pai_proto_state a b \<longleftrightarrow> state_code a < state_code b"

instance
proof
  fix a b :: pai_proto_state
  show "a = b" if "a \<le> b" "b \<le> a"
    using that by (cases a; cases b) (auto simp: less_eq_pai_proto_state_def)
qed (auto simp: less_eq_pai_proto_state_def less_pai_proto_state_def)

end

lemma state_le_closed [simp]: "s \<le> PAI_PROTO_STATE_CLOSED"
  by (cases s) (auto simp: less_eq_pai_proto_state_def)

lemma state_closed_le [simp]: "PAI_PROTO_STATE_CLOSED \<le> s \<longleftrightarrow> s = PAI_PROTO_STATE_CLOSED"
  by (cases s) (auto simp: less_eq_pai_proto_state_def)

lemma state_le_open: "s \<le> PAI_PROTO_STATE_OPEN \<longleftrightarrow> s \<noteq> PAI_PROTO_STATE_CLOSED"
  by (cases s) (auto simp: less_eq_pai_proto_state_def)

section \<open>The connection invariant\<close>

text \<open>\<open>rx_ok\<close>: the receive buffers are never filled past their size, no payload buffer exists
  before its header is complete (none is leaked or reused), and the pending length is within the
  protocol's limit.\<close>

definition rx_bufs_ok :: "bytes \<Rightarrow> bytes option \<Rightarrow> u32 \<Rightarrow> bool" where
  "rx_bufs_ok hdr pay n \<longleftrightarrow> length hdr \<le> 40 \<and>
     (length hdr < 40 \<longrightarrow> pay = None) \<and>
     (length hdr = 40 \<longrightarrow> n \<le> PAI_PROTO_MAX_PAYLOAD \<and>
        (case pay of None \<Rightarrow> n = 0 | Some b \<Rightarrow> n \<noteq> 0 \<and> length b \<le> unat n))"

definition rx_ok :: "('u, 't) pai_proto_conn \<Rightarrow> bool" where
  "rx_ok c \<longleftrightarrow> rx_bufs_ok (header_buf c) (payload_buf c) (payload_len (pending c))"

lemma rx_bufs_ok_empty [simp]: "rx_bufs_ok [] None n"
  by (simp add: rx_bufs_ok_def)

definition conn_inv :: "('u, 't) pai_proto_conn \<Rightarrow> bool" where
  "conn_inv c \<longleftrightarrow>
     slots_ok PAI_PROTO_MAX_SESSIONS (sessions c) \<and> slots_ok PAI_PROTO_MAX_STREAMS (streams c) \<and>
     length (stream_seqs c) = PAI_PROTO_MAX_STREAMS \<and> rx_ok c"

lemma rx_ok_reset: "rx_ok (conn_reset_phase c)"
  by (simp add: rx_ok_def conn_reset_phase_def)

lemma conn_inv_init: "conn_inv (pai_proto_conn_init r caps t u)"
  by (simp add: conn_inv_def pai_proto_conn_init_def rx_ok_def)

text \<open>What the code behind a function pointer may do to the connection.\<close>

definition app_step :: "('u, 't) pai_proto_conn \<Rightarrow> ('u, 't) pai_proto_conn \<Rightarrow> bool" where
  "app_step c c' \<longleftrightarrow>
     (\<exists>t u nr ns ss. c' = c\<lparr>transport := t, user := u, next_request_id := nr,
                           next_session_id := ns, sessions := ss\<rparr> \<and>
        (slots_ok PAI_PROTO_MAX_SESSIONS (sessions c) \<longrightarrow> slots_ok PAI_PROTO_MAX_SESSIONS ss))"

text \<open>A step of the machine: it keeps the invariant and the role, and never moves back.\<close>

definition core_step :: "('u, 't) pai_proto_conn \<Rightarrow> ('u, 't) pai_proto_conn \<Rightarrow> bool" where
  "core_step c c' \<longleftrightarrow> (conn_inv c \<longrightarrow> conn_inv c') \<and> role c' = role c \<and> state c \<le> state c'"

lemma core_step_refl [simp]: "core_step c c"
  by (simp add: core_step_def)

lemma core_step_trans [trans]: "core_step a b \<Longrightarrow> core_step b c \<Longrightarrow> core_step a c"
  by (auto simp: core_step_def)

lemma core_step_if:
  assumes "b \<Longrightarrow> core_step c (fst x)" "\<not> b \<Longrightarrow> core_step c (fst y)"
  shows "core_step c (fst (if b then x else y))"
  using assms by simp

lemma app_step_core: "app_step c c' \<Longrightarrow> core_step c c' \<and> state c' = state c"
  by (auto simp: app_step_def core_step_def conn_inv_def rx_ok_def)

lemma app_step_transport: "app_step c (c\<lparr>transport := t\<rparr>)"
  unfolding app_step_def
  by (intro exI [of _ t] exI [of _ "user c"] exI [of _ "next_request_id c"]
      exI [of _ "next_session_id c"] exI [of _ "sessions c"]) simp

lemma send_app_step: "app_step c (fst (conn_send_unchecked E c f))"
proof -
  have r: "app_step c c" using app_step_transport [of c "transport c"] by simp
  show ?thesis
    using r app_step_transport
    by (auto simp: conn_send_unchecked_def Let_def split: prod.splits sum.splits)
qed

lemma send_core: "core_step c (fst (conn_send_unchecked E c f))"
  using app_step_core [OF send_app_step] by blast

lemma error_reply_core: "core_step c (conn_send_error_reply E c f st)"
  by (auto simp: conn_send_error_reply_def send_core split: sum.splits)

lemma negotiation_core: "core_step c (fst (conn_send_negotiation E c mt v rid))"
  by (auto simp: conn_send_negotiation_def send_core split: sum.splits)

lemma stream_begin_core:
  assumes "rid \<noteq> 0"
  shows "core_step c (fst (stream_begin c rid))"
proof -
  have "rid \<notin> set (streams c)" if "stream_index c rid = None"
    using that by (auto simp: stream_index_def find_index_None)
  then show ?thesis
    by (auto simp: stream_begin_def core_step_def conn_inv_def rx_ok_def slots_ok_update
        split: option.splits)
qed

lemma stream_end_core: "core_step c (stream_end c rid)"
  by (auto simp: stream_end_def core_step_def conn_inv_def rx_ok_def slots_ok_update
      split: option.splits)

locale conn_app =
  fixes E :: "('u, 't) conn_env"
  assumes recv_bound: "t_recv E t n = (t', bs, r) \<Longrightarrow> length bs \<le> n"
    and hello_step: "on_hello E = Some h \<Longrightarrow> app_step c (fst (h c caps))"
    and message_step: "on_message E = Some m \<Longrightarrow> app_step c (fst (m c f))"
    and stream_begin_step: "on_stream_begin E = Some b \<Longrightarrow> app_step c (b c rid sid)"
    and stream_data_step: "on_stream_data E = Some d \<Longrightarrow> app_step c (d c rid sid kind q bs)"
    and stream_end_step: "on_stream_end E = Some e \<Longrightarrow> app_step c (e c rid sid)"
    and close_step: "on_close E = Some cl \<Longrightarrow> app_step c (cl c reason)"
begin

lemma set_closed_core:
  "core_step c (conn_set_closed E c reason) \<and> state (conn_set_closed E c reason) = PAI_PROTO_STATE_CLOSED"
proof (cases "state c = PAI_PROTO_STATE_CLOSED")
  case True
  then show ?thesis by (simp add: conn_set_closed_def)
next
  case False
  let ?c2 = "(conn_reset_phase (c\<lparr>state := PAI_PROTO_STATE_CLOSED\<rparr>))
    \<lparr>transport := t_close E (transport (conn_reset_phase (c\<lparr>state := PAI_PROTO_STATE_CLOSED\<rparr>)))\<rparr>"
  have 2: "core_step c ?c2" "state ?c2 = PAI_PROTO_STATE_CLOSED"
    by (auto simp: core_step_def conn_inv_def conn_reset_phase_def rx_ok_def)
  show ?thesis
  proof (cases "on_close E")
    case None
    then show ?thesis using False 2 by (simp add: conn_set_closed_def Let_def)
  next
    case (Some cl)
    have "core_step ?c2 (cl ?c2 reason)" "state (cl ?c2 reason) = PAI_PROTO_STATE_CLOSED"
      using app_step_core [OF close_step [OF Some, of ?c2 reason]] 2(2) by auto
    then show ?thesis
      using False Some 2 core_step_trans by (simp add: conn_set_closed_def Let_def)
  qed
qed

lemmas set_closed_step = set_closed_core [THEN conjunct1]
  and set_closed_state = set_closed_core [THEN conjunct2]

lemma call_message_core: "core_step c (call_message E c f)"
proof (cases "on_message E")
  case (Some m)
  obtain c1 st where m: "m c f = (c1, st)" by fastforce
  have "core_step c c1" using app_step_core [OF message_step [OF Some, of c f]] m by simp
  then show ?thesis
    using Some m error_reply_core core_step_trans by (fastforce simp: call_message_def)
qed (simp add: call_message_def)

lemma call_stream_data_core: "core_step c (call_stream_data E c f kind q bs)"
  using app_step_core [OF stream_data_step]
  by (auto simp: call_stream_data_def split: option.splits)

lemma stream_finish_core: "core_step c (stream_finish E c f idx terminal)"
proof -
  have 1: "core_step c (c\<lparr>stream_seqs := (stream_seqs c)[idx := v]\<rparr>)" for v
    by (simp add: core_step_def conn_inv_def rx_ok_def)
  show ?thesis
    using stream_end_core core_step_trans app_step_core [OF stream_end_step] 1
    by (fastforce simp: stream_finish_def Let_def split: option.splits)
qed

lemma stream_open_core:
  assumes "request_id f \<noteq> 0" "stream_begin c (request_id f) = (c1, r)"
  shows "core_step c (case on_stream_begin E of None \<Rightarrow> c1
                      | Some cb \<Rightarrow> cb c1 (request_id f) (session_id f))"
proof -
  have "core_step c c1" using stream_begin_core [OF assms(1), of c] assms(2) by simp
  then show ?thesis
    using app_step_core [OF stream_begin_step] core_step_trans by (fastforce split: option.splits)
qed

lemma handle_stream_core: "core_step c (fst (conn_handle_stream E c f))"
proof -
  define opened where
    "opened = (if flags f AND PAI_PROTO_FLAG_STREAM_START \<noteq> 0 then
        (case stream_begin c (request_id f) of
           (c1, Inl e) \<Rightarrow> (c1, Inl e)
         | (c1, Inr _) \<Rightarrow>
             ((case on_stream_begin E of None \<Rightarrow> c1
               | Some cb \<Rightarrow> cb c1 (request_id f) (session_id f)), Inr ()))
      else (c, Inr () :: unit res))"
  show ?thesis
  proof (cases "flags f AND PAI_PROTO_FLAG_STREAM_START \<noteq> 0 \<and> request_id f = 0")
    case True
    then show ?thesis by (simp add: conn_handle_stream_def)
  next
    case False
    obtain c2 r where o: "opened = (c2, r)" by fastforce
    have "core_step c (fst opened)"
      using False stream_open_core [of f c] stream_begin_core [of "request_id f" c]
      by (auto simp: opened_def split: prod.splits sum.splits)
    then have 2: "core_step c c2" using o by simp
    note fin = core_step_trans [OF 2 stream_finish_core]
      core_step_trans [OF 2 core_step_trans [OF call_stream_data_core stream_finish_core]]
      core_step_trans [OF 2 core_step_trans [OF call_message_core stream_finish_core]]
      core_step_trans [OF 2 core_step_trans [OF call_stream_data_core
          core_step_trans [OF call_message_core stream_finish_core]]]
    show ?thesis
      unfolding conn_handle_stream_def Let_def opened_def [symmetric] o
      using False 2 fin by (auto split: sum.splits option.splits prod.splits)
  qed
qed

lemma hello_server_core:
  assumes "state c \<noteq> PAI_PROTO_STATE_CLOSED"
  shows "core_step c (fst (conn_handle_hello_server E c f))"
proof (cases "pai_proto_msg_decode_caps (payload f) (payload_len f)")
  case (Inl e)
  then show ?thesis by (simp add: conn_handle_hello_server_def)
next
  case (Inr remote)
  note refuse = core_step_trans [OF negotiation_core set_closed_step]
  obtain c1 caps where h:
    "(case on_hello E of None \<Rightarrow> (c, local_caps c) | Some cb \<Rightarrow> cb c remote) = (c1, caps)"
    by fastforce
  have 1: "core_step c c1" "state c1 = state c"
    using h app_step_core [OF hello_step, of _ c remote] by (auto split: option.splits)
  have "core_step c1 (c1\<lparr>local_caps := a, remote_caps := b, negotiated_caps := n,
      state := PAI_PROTO_STATE_OPEN\<rparr>)" for a b n
    using assms 1(2) by (simp add: core_step_def conn_inv_def rx_ok_def state_le_open)
  from core_step_trans [OF this negotiation_core] show ?thesis
    using Inr h 1 refuse core_step_trans [OF 1(1)]
    by (auto simp: conn_handle_hello_server_def Let_def)
qed

lemma preopen_core:
  assumes "state c \<noteq> PAI_PROTO_STATE_CLOSED"
  shows "core_step c (fst (conn_handle_preopen E c f))"
proof -
  have "core_step c (fst (conn_handle_ack_client c f))"
    using assms
    by (auto simp: conn_handle_ack_client_def core_step_def conn_inv_def rx_ok_def state_le_open
        split: sum.splits)
  moreover have "core_step c (fst (conn_handle_nack_client E c f))"
  proof -
    have "core_step c (c\<lparr>nack_reason := r\<rparr>)" for r
      by (simp add: core_step_def conn_inv_def rx_ok_def)
    from core_step_trans [OF this set_closed_step] show ?thesis
      by (simp add: conn_handle_nack_client_def Let_def)
  qed
  ultimately show ?thesis
    using hello_server_core [OF assms] by (simp add: conn_handle_preopen_def)
qed

lemma open_core: "core_step c (fst (conn_handle_open E c f))"
proof -
  let ?c1 = "if msg_type f = PAI_PROTO_MSG_COMPLETE then stream_end c (request_id f) else c"
  have 1: "core_step c ?c1" by (simp add: stream_end_core)
  have "core_step c (fst (case on_message E of None \<Rightarrow> (?c1, Inr () :: unit res)
      | Some cb \<Rightarrow> (case cb ?c1 f of (c2, st) \<Rightarrow>
          (if st \<noteq> PAI_OK \<and> request_id f \<noteq> 0 \<and> msg_type f \<noteq> PAI_PROTO_MSG_ERROR \<and>
              msg_type f \<noteq> PAI_PROTO_MSG_PONG
           then conn_send_error_reply E c2 f st else c2, Inr ()))))" (is "core_step c (fst ?m)")
  proof (cases "on_message E")
    case None
    then show ?thesis using 1 by simp
  next
    case (Some m)
    obtain c2 st where m: "m ?c1 f = (c2, st)" by fastforce
    have 2: "core_step c c2"
      using core_step_trans [OF 1] app_step_core [OF message_step [OF Some, of ?c1 f]] m by simp
    show ?thesis
      using 2 core_step_trans [OF 2 error_reply_core] by (simp only: Some m option.case prod.case fst_conv if_split) simp
  qed
  then show ?thesis
    unfolding conn_handle_open_def Let_def
    by (intro core_step_if; (simp only: fst_conv core_step_refl send_core handle_stream_core
          set_closed_step)?)
qed

lemma dispatch_core:
  assumes "state c \<noteq> PAI_PROTO_STATE_CLOSED"
  shows "core_step c (fst (poll_dispatch E c))"
proof (cases "pai_proto_frame_validate (header_buf c) (payload_buf c)")
  case (Inl e)
  then show ?thesis by (simp add: poll_dispatch_def set_closed_step)
next
  case (Inr u)
  define f where "f = (pending c)\<lparr>payload := payload_buf c\<rparr>"
  define h where "h = (if state c = PAI_PROTO_STATE_OPEN then conn_handle_open E (c\<lparr>pending := f\<rparr>) f
                       else conn_handle_preopen E (c\<lparr>pending := f\<rparr>) f)"
  have "core_step c (c\<lparr>pending := f\<rparr>)"
    by (simp add: core_step_def conn_inv_def rx_ok_def f_def)
  moreover have "core_step (c\<lparr>pending := f\<rparr>) (fst h)"
    using open_core preopen_core [of "c\<lparr>pending := f\<rparr>"] assms by (simp add: h_def)
  ultimately have h: "core_step c (fst h)" by (rule core_step_trans)
  have r: "core_step d (conn_reset_phase d)" for d :: "('u, 't) pai_proto_conn"
    by (simp add: core_step_def conn_inv_def rx_ok_reset) (simp add: conn_reset_phase_def)
  have "fst (poll_dispatch E c) = (case h of (c2, Inl _) \<Rightarrow> conn_set_closed E c2 PAI_PROTO_CLOSE_PROTOCOL
      | (c2, Inr _) \<Rightarrow> conn_reset_phase c2)"
    using Inr by (auto simp: poll_dispatch_def Let_def h_def f_def split: sum.splits prod.splits)
  then show ?thesis
    using core_step_trans [OF h set_closed_step] core_step_trans [OF h r]
    by (auto split: prod.splits sum.splits)
qed

lemma transport_core: "core_step c (c\<lparr>transport := t\<rparr>)"
  by (rule app_step_core [OF app_step_transport, THEN conjunct1])

lemma payload_core:
  assumes open_c: "state c \<noteq> PAI_PROTO_STATE_CLOSED" and full: "length (header_buf c) = 40"
  shows "core_step c (fst (poll_payload E c))"
proof -
  define old where "old = (case payload_buf c of None \<Rightarrow> [] | Some b \<Rightarrow> b)"
  define want where "want = unat (payload_len (pending c))"
  obtain t1 data r where rc: "t_recv E (transport c) (want - length old) = (t1, data, r)"
    by (cases "t_recv E (transport c) (want - length old)") auto
  have b: "length data \<le> want - length old" using recv_bound [OF rc] .
  let ?c1 = "c\<lparr>transport := t1, payload_buf := Some (old @ data)\<rparr>"
  have 1: "core_step c ?c1" if "length old < want"
    using b that full
    by (auto simp: core_step_def conn_inv_def rx_ok_def rx_bufs_ok_def want_def)
  have err: "core_step c (conn_set_closed E (c\<lparr>transport := t1\<rparr>) reason)" for reason
    using core_step_trans [OF transport_core set_closed_step] .
  show ?thesis
  proof (cases "length old < want")
    case False
    then show ?thesis
      using dispatch_core [OF open_c]
      by (simp add: poll_payload_def old_def want_def)
  next
    case True
    have "poll_payload E c = (case r of
        Inl e \<Rightarrow> if e = PAI_ERR_IO
          then (conn_set_closed E (c\<lparr>transport := t1\<rparr>) PAI_PROTO_CLOSE_PROTOCOL, Stop (Inl PAI_ERR_PROTOCOL))
          else (conn_set_closed E (c\<lparr>transport := t1\<rparr>) PAI_PROTO_CLOSE_PEER_GONE, Stop (Inl e))
      | Inr _ \<Rightarrow> if length (old @ data) < want then (?c1, Stop (Inr ())) else poll_dispatch E ?c1)"
      using True rc by (simp add: poll_payload_def old_def want_def Let_def split: sum.splits)
    then show ?thesis
      using err 1 [OF True] core_step_trans [OF 1 [OF True] dispatch_core [of ?c1]] open_c
      by (cases r) (auto intro!: core_step_if)
  qed
qed

lemma step_core:
  assumes open_c: "state c \<noteq> PAI_PROTO_STATE_CLOSED" and inv: "conn_inv c"
  shows "core_step c (fst (poll_step E c))"
proof (cases "length (header_buf c) < 40")
  case False
  then show ?thesis
    using payload_core [OF open_c] inv
    by (simp add: poll_step_def conn_inv_def rx_ok_def rx_bufs_ok_def)
next
  case True
  obtain t1 data r where rc: "t_recv E (transport c) (40 - length (header_buf c)) = (t1, data, r)"
    by (cases "t_recv E (transport c) (40 - length (header_buf c))") auto
  have b: "length data \<le> 40 - length (header_buf c)" using recv_bound [OF rc] .
  let ?c1 = "c\<lparr>transport := t1, header_buf := header_buf c @ data\<rparr>"
  have none: "payload_buf c = None"
    using inv True by (simp add: conn_inv_def rx_ok_def rx_bufs_ok_def)
  have err: "core_step c (conn_set_closed E (c\<lparr>transport := t1\<rparr>) reason)" for reason
    using core_step_trans [OF transport_core set_closed_step] .
  have part: "core_step c ?c1" if "length (header_buf ?c1) < 40"
    using that none inv by (simp add: core_step_def conn_inv_def rx_ok_def rx_bufs_ok_def)
  have bad: "core_step c (conn_set_closed E (?c1\<lparr>pending := f\<rparr>) reason)" for f reason
  proof -
    have "conn_inv (conn_set_closed E (c\<lparr>transport := t1\<rparr>) reason)"
      using inv err by (simp add: core_step_def)
    moreover have "conn_set_closed E (?c1\<lparr>pending := f\<rparr>) reason =
        conn_set_closed E (c\<lparr>transport := t1\<rparr>) reason"
      using open_c by (simp add: conn_set_closed_def conn_reset_phase_def)
    ultimately show ?thesis using err by simp
  qed
  have bad1: "core_step c (conn_set_closed E ?c1 reason)" for reason
    using bad [of "pending c" reason] by simp
  have ok: "core_step c (fst (poll_payload E (?c1\<lparr>pending := f, payload_buf := pb\<rparr>)))"
    if "length (header_buf ?c1) = 40" "payload_len f \<le> PAI_PROTO_MAX_PAYLOAD"
      "pb = (if payload_len f > 0 then Some [] else None)" for f pb
  proof -
    have "core_step c (?c1\<lparr>pending := f, payload_buf := pb\<rparr>)"
      using that inv
      by (auto simp: core_step_def conn_inv_def rx_ok_def rx_bufs_ok_def word_gt_0)
    from core_step_trans [OF this payload_core] show ?thesis using that(1) open_c by simp
  qed
  have ok1: "core_step c (fst (poll_payload E (?c1\<lparr>pending := f, payload_buf := Some []\<rparr>)))"
    if "length (header_buf ?c1) = 40" "payload_len f \<le> PAI_PROTO_MAX_PAYLOAD" "payload_len f > 0" for f
    using ok [OF that(1,2), of "Some []"] that(3) by simp
  have ok0: "core_step c (fst (poll_payload E (?c1\<lparr>pending := f\<rparr>)))"
    if "length (header_buf ?c1) = 40" "payload_len f \<le> PAI_PROTO_MAX_PAYLOAD" "\<not> payload_len f > 0" for f
  proof -
    have "?c1\<lparr>pending := f\<rparr> = ?c1\<lparr>pending := f, payload_buf := None\<rparr>"
      using none by (cases c) simp
    then show ?thesis using ok [OF that(1,2), of None] that(3) by metis
  qed
  have lim: "payload_len f \<le> PAI_PROTO_MAX_PAYLOAD" if "pai_proto_frame_decode h = Inr f" for h f
    using that by (auto simp: pai_proto_frame_decode_def not_less split: if_splits)
  show ?thesis
  proof (cases r)
    case (Inl e)
    then show ?thesis using True rc err by (simp add: poll_step_def Let_def)
  next
    case (Inr u)
    show ?thesis
    proof (cases "length (header_buf ?c1) < 40")
      case short: True
      then show ?thesis using True rc Inr part by (simp add: poll_step_def Let_def)
    next
      case False
      then have 40: "length (header_buf ?c1) = 40" using b True by simp
      then show ?thesis
        using True rc Inr False bad1 bad ok1 [OF 40 lim] ok0 [OF 40 lim] unfolding poll_step_def
        by (auto simp: Let_def split: sum.splits)
    qed
  qed
qed

lemma loop_core: "conn_inv c \<Longrightarrow> core_step c (fst (poll_loop E n k c))"
proof (induction n arbitrary: k c)
  case (Suc n)
  show ?case
  proof (cases "state c = PAI_PROTO_STATE_CLOSED")
    case False
    obtain c1 fl where st: "poll_step E c = (c1, fl)" by fastforce
    then have 1: "core_step c c1" using step_core [OF False Suc.prems] by simp
    then have "conn_inv c1" using Suc.prems by (simp add: core_step_def)
    from core_step_trans [OF 1 Suc.IH [OF this]] show ?thesis
      using False st 1 by (cases fl) simp_all
  qed simp
qed simp

lemma loop_error_closed:
  "poll_loop E n k c = (c', Inl e, m) \<Longrightarrow> state c' = PAI_PROTO_STATE_CLOSED"
proof (induction n arbitrary: k c)
  case (Suc n)
  have d: "state c' = PAI_PROTO_STATE_CLOSED" if "poll_dispatch E c = (c', Stop (Inl e))" for c c' e
    using that set_closed_state
    by (auto simp: poll_dispatch_def Let_def split: sum.splits prod.splits)
  have p: "state c' = PAI_PROTO_STATE_CLOSED" if "poll_payload E c = (c', Stop (Inl e))" for c c' e
    using that d set_closed_state
    by (auto simp: poll_payload_def Let_def split: sum.splits prod.splits if_splits)
  have s: "state c' = PAI_PROTO_STATE_CLOSED" if "poll_step E c = (c', Stop (Inl e))" for c c' e
    using that p set_closed_state
    by (auto simp: poll_step_def Let_def split: sum.splits prod.splits if_splits)
  show ?case
    using Suc.prems Suc.IH s [of c c' e]
    by (auto split: if_splits prod.splits poll_flow.splits)
qed simp

end

lemma loop_frames: "poll_loop E n k c = (c', r, m) \<Longrightarrow> k \<le> m \<and> m \<le> k + n"
  by (induction n arbitrary: k c) (fastforce split: if_splits prod.splits poll_flow.splits)+

section \<open>Whole frames\<close>

text \<open>\<open>conn_send_unchecked\<close> has its own copy of the encoder; it emits the header and the payload
  that \<open>pai_proto_frame_encode\<close> would.\<close>

lemma conn_send_header:
  "conn_send_unchecked E c f =
     (if \<not> frame_sendable f then (c, Inl PAI_ERR_INVALID_ARG)
      else
        (case t_send E (transport c) (frame_header f) of
           (t1, Inl e) \<Rightarrow> (c\<lparr>transport := t1\<rparr>, Inl e)
         | (t1, Inr _) \<Rightarrow>
             if payload_len f > 0 then
               (case t_send E t1 (payload_bytes f) of (t2, r) \<Rightarrow> (c\<lparr>transport := t2\<rparr>, r))
             else (c\<lparr>transport := t1\<rparr>, Inr ())))"
  by (auto simp: conn_send_unchecked_def frame_sendable_def frame_header_def header_crc_part_def
      frame_crc_def Let_def not_less)

text \<open>What the dispatcher sees of a frame \<open>f\<close> that was sent, and what it does with it.\<close>

definition received :: "pai_proto_frame \<Rightarrow> pai_proto_frame" where
  "received f = f\<lparr>version := 1, flags := flags f AND 0xFFFF,
     payload := (if payload_len f > 0 then Some (payload_bytes f) else None)\<rparr>"

definition deliver ::
    "('u, 't) conn_env \<Rightarrow> ('u, 't) pai_proto_conn \<Rightarrow> pai_proto_frame \<Rightarrow>
     ('u, 't) pai_proto_conn \<times> poll_flow" where
  "deliver E c f =
     (let c1 = c\<lparr>header_buf := frame_header f, payload_buf := payload (received f),
                 pending := received f\<rparr>
      in case (if state c = PAI_PROTO_STATE_OPEN then conn_handle_open E c1 (received f)
               else conn_handle_preopen E c1 (received f)) of
           (c2, Inl _) \<Rightarrow> (conn_set_closed E c2 PAI_PROTO_CLOSE_PROTOCOL, Stop (Inl PAI_ERR_PROTOCOL))
         | (c2, Inr _) \<Rightarrow> (conn_reset_phase c2, Frame))"

lemma received_simps [simp]:
  "payload_len (received f) = payload_len f" "msg_type (received f) = msg_type f"
  "request_id (received f) = request_id f" "session_id (received f) = session_id f"
  "flags (received f) = flags f AND 0xFFFF" "version (received f) = 1"
  by (simp_all add: received_def)

lemma version_received [simp]: "version_major_ok (received f)"
  by (simp add: version_major_ok_def received_def PAI_PROTO_VERSION_MAJOR_def drop_bit_eq_div)

lemma dispatch_received:
  assumes "frame_sendable f" "frame_wf f" "header_buf c = frame_header f"
    "payload_buf c = payload (received f)" "pending c = decoded f"
  shows "poll_dispatch E c = deliver E c f"
proof -
  have "pai_proto_frame_validate (header_buf c) (payload_buf c) = Inr ()"
    using validate_header [OF assms(1,2), of "payload (received f)"] assms(3,4)
    by (simp add: received_def)
  moreover have "(pending c)\<lparr>payload := payload_buf c\<rparr> = received f"
    using assms(4,5) by (simp add: decoded_def received_def)
  moreover have "c\<lparr>header_buf := frame_header f, payload_buf := payload (received f),
      pending := received f\<rparr> = c\<lparr>pending := received f\<rparr>"
    using assms(3,4) by (cases c) simp
  ultimately show ?thesis by (simp add: poll_dispatch_def deliver_def Let_def)
qed

lemma poll_step_frame:
  assumes c: "header_buf c = []" "payload_buf c = None"
    and f: "frame_sendable f" "frame_wf f" and mem: "malloc_ok E (unat (payload_len f))"
    and hdr: "t_recv E (transport c) 40 = (t1, frame_header f, Inr ())"
    and pay: "payload_len f > 0 \<Longrightarrow>
      t_recv E t1 (unat (payload_len f)) = (t2, payload_bytes f, Inr ())"
    and none: "payload_len f = 0 \<Longrightarrow> t2 = t1"
  shows "poll_step E c = deliver E (c\<lparr>transport := t2\<rparr>) f"
proof -
  let ?c2 = "c\<lparr>transport := t1, header_buf := frame_header f, pending := decoded f\<rparr>"
  have dec: "pai_proto_frame_decode (frame_header f) = Inr (decoded f)"
    using decode_header [OF f(1)] .
  have len: "payload_len (decoded f) = payload_len f" by (simp add: decoded_def)
  have deliver_eq: "deliver E (c\<lparr>header_buf := frame_header f, pending := decoded f,
      transport := t2, payload_buf := b\<rparr>) f = deliver E (c\<lparr>transport := t2\<rparr>) f" for b
    by (cases c) (simp add: deliver_def)
  show ?thesis
  proof (cases "payload_len f = 0")
    case True
    have "poll_step E c = poll_payload E ?c2"
      using c(1) hdr dec True by (simp add: poll_step_def Let_def len)
    also have "\<dots> = poll_dispatch E ?c2"
      using c(2) True by (simp add: poll_payload_def len)
    also have "\<dots> = deliver E ?c2 f"
      by (rule dispatch_received) (use f c True in \<open>simp_all add: received_def\<close>)
    also have "\<dots> = deliver E (c\<lparr>transport := t2\<rparr>) f"
      using True none by (simp add: deliver_def)
    finally show ?thesis .
  next
    case False
    then have pos: "0 < payload_len f" by (simp add: word_neq_0_conv)
    then have upos: "0 < unat (payload_len f)" by (simp add: word_less_nat_alt)
    have lb: "length (payload_bytes f) = unat (payload_len f)" using f(2) by (simp add: frame_wf_def)
    have "poll_step E c = poll_payload E (?c2\<lparr>payload_buf := Some []\<rparr>)"
      using c(1) hdr dec pos mem by (simp add: poll_step_def Let_def len)
    also have "\<dots> = poll_dispatch E (?c2\<lparr>transport := t2, payload_buf := Some (payload_bytes f)\<rparr>)"
      using pay [OF pos] upos lb by (simp add: poll_payload_def len Let_def)
    also have "\<dots> = deliver E (?c2\<lparr>transport := t2, payload_buf := Some (payload_bytes f)\<rparr>) f"
      by (rule dispatch_received) (use f pos in \<open>simp_all add: received_def\<close>)
    finally show ?thesis by (simp add: deliver_eq)
  qed
qed

end
