(* ===== verification/Handshake.thy ===== *)
theory Handshake
  imports Conn_Safety
begin

text \<open>
  Connections at work: the pipe pair of \<^verbatim>\<open>protocol/transport_pipe.c\<close> as the transport of
  \<^verbatim>\<open>protocol/connection.c\<close>, the client callback of \<^verbatim>\<open>protocol/ping.c\<close> as an application, and
  the end-to-end behaviour of two connections joined by a pair.

  A pipe operation that faults or diverges ends the process; \<open>Crashed\<close> is the transport state
  from then on. The two endpoints share one pair, so running one side after the other passes the
  transport state along (\<open>handover\<close>).
\<close>

section \<open>The pipe pair as a transport\<close>

datatype link = Link pai_proto_pipe_pair | Crashed

fun link_send :: "(nat \<Rightarrow> bool) \<Rightarrow> bool \<Rightarrow> link \<Rightarrow> bytes \<Rightarrow> link \<times> unit res" where
  "link_send mem side (Link pair) data =
     (case endpoint_send mem side pair data of
        Returns (pair', r) \<Rightarrow> (Link pair', r)
      | _ \<Rightarrow> (Crashed, Inl PAI_ERR_IO))"
| "link_send mem side Crashed data = (Crashed, Inl PAI_ERR_IO)"

fun link_recv :: "bool \<Rightarrow> link \<Rightarrow> nat \<Rightarrow> link \<times> bytes \<times> unit res" where
  "link_recv side (Link pair) n =
     (case endpoint_recv side pair n of (pair', data, r) \<Rightarrow> (Link pair', data, r))"
| "link_recv side Crashed n = (Crashed, [], Inl PAI_ERR_IO)"

fun link_close :: "link \<Rightarrow> link" where
  "link_close (Link pair) = Link (endpoint_close pair)"
| "link_close Crashed = Crashed"

definition pipe_env :: "bool \<Rightarrow> ('u, link) conn_env" where
  "pipe_env side =
     \<lparr>t_send = link_send (\<lambda>_. True) side, t_recv = link_recv side, t_close = link_close,
      on_hello = None, on_message = None, on_stream_begin = None, on_stream_data = None,
      on_stream_end = None, on_close = None, malloc_ok = (\<lambda>_. True)\<rparr>"

definition handover :: "('u, link) pai_proto_conn \<Rightarrow> ('v, link) pai_proto_conn \<Rightarrow>
    ('v, link) pai_proto_conn" where
  "handover c d = d\<lparr>transport := transport c\<rparr>"

section \<open>The ping client\<close>

record ping_ctx =
  expected_req :: u64
  got_pong :: bool
  arrival_ns :: u64

text \<open>\<open>now\<close> is the reading of \<open>pai_proto_now_ns\<close>.\<close>

definition ping_on_message ::
    "u64 \<Rightarrow> (ping_ctx, 't) pai_proto_conn \<Rightarrow> pai_proto_frame \<Rightarrow>
     (ping_ctx, 't) pai_proto_conn \<times> u32" where
  "ping_on_message now c f =
     (if msg_type f = PAI_PROTO_MSG_PONG \<and> flags f AND PAI_PROTO_FLAG_REPLY \<noteq> 0 \<and>
         request_id f = expected_req (user c)
      then (c\<lparr>user := (user c)\<lparr>got_pong := True, arrival_ns := now\<rparr>\<rparr>, PAI_OK)
      else (c, PAI_OK))"

definition ping_env :: "u64 \<Rightarrow> (ping_ctx, link) conn_env" where
  "ping_env now = (pipe_env True)\<lparr>on_message := Some (ping_on_message now)\<rparr>"

lemma ping_app_step: "app_step c (fst (ping_on_message now c f))"
proof -
  have "app_step c (c\<lparr>user := u\<rparr>)" for u
    unfolding app_step_def
    by (intro exI [of _ "transport c"] exI [of _ u] exI [of _ "next_request_id c"]
        exI [of _ "next_session_id c"] exI [of _ "sessions c"]) simp
  from this [of "user c"] this show ?thesis by (simp add: ping_on_message_def)
qed

lemma pipe_pull_bound: "pipe_pull p n = (p', bs, r) \<Longrightarrow> length bs \<le> n"
  by (auto simp: pipe_pull_def Let_def split: if_splits)

lemma link_recv_bound: "link_recv side t n = (t', bs, r) \<Longrightarrow> length bs \<le> n"
  by (cases t)
    (auto simp: endpoint_recv_def dest: pipe_pull_bound split: prod.splits if_splits)

interpretation ping: conn_app "ping_env now" for now
  by unfold_locales
    (auto simp: ping_env_def pipe_env_def ping_app_step dest: link_recv_bound)

interpretation bare: conn_app "pipe_env side" for side
  by unfold_locales (auto simp: pipe_env_def dest: link_recv_bound)

section \<open>Reading and writing whole frames\<close>

definition pipe_ready :: "pai_proto_pipe \<Rightarrow> bool" where
  "pipe_ready p \<longleftrightarrow> pipe_inv p \<and> \<not> closed p \<and> head p = 0 \<and> cap p < 2 ^ 32"

lemma pipe_ready_new [simp]: "pipe_ready pipe_new"
  by (simp add: pipe_ready_def pipe_new_def pipe_inv_def)

lemma pipe_contents_new [simp]: "pipe_contents pipe_new = []"
  by (simp add: pipe_contents_def pipe_new_def)

lemma length_contents: "pipe_inv p \<Longrightarrow> length (pipe_contents p) = len p"
  by (auto simp: pipe_contents_def pipe_inv_def)

lemma grow_cap_bound: "grow_cap c need = Some nc \<Longrightarrow> c < 2 ^ 32 \<Longrightarrow> nc < 2 ^ 32"
  by (rule grow_cap.raw_induct [where P = "\<lambda>c need nc. c < 2 ^ 32 \<longrightarrow> nc < 2 ^ 32", THEN mp])
    (auto split: if_splits)

lemma pipe_push_ready:
  assumes "pipe_ready p" "length (pipe_contents p) + length d \<le> 2 ^ 31"
  shows "\<exists>p'. pipe_push (\<lambda>_. True) p d = Returns (p', Inr ()) \<and> pipe_ready p' \<and>
    pipe_contents p' = pipe_contents p @ d"
proof -
  have p: "pipe_inv p" "\<not> closed p" "head p = 0" "cap p < 2 ^ 32" "len p + length d \<le> 2 ^ 31"
    using assms length_contents by (auto simp: pipe_ready_def)
  obtain p' where r: "pipe_push (\<lambda>_. True) p d = Returns (p', Inr ())"
    using pipe_push_compact [OF p(1,2) _ p(5,4), of "\<lambda>_. True"] p(3) by blast
  have 1: "(if len p = 0 then p\<lparr>head := 0\<rparr> else p) = p" using p(3) by (cases p) simp
  consider "p' = p"
    | c need nc where "grow_cap c need = Some nc" "c < 2 ^ 32"
        "pipe_store (pipe_realloc p nc) d = Returns (p', Inr ())"
    | "pipe_store p d = Returns (p', Inr ())"
  proof -
    have c: "(if cap p \<noteq> 0 then cap p else 256) < 2 ^ 32" using p(4) by simp
    show ?thesis
      using r p(2) c that unfolding pipe_push_def Let_def 1
      by (fastforce split: if_split_asm option.splits)
  qed
  then have "\<not> closed p' \<and> head p' = 0 \<and> cap p' < 2 ^ 32"
  proof cases
    case (2 c need nc)
    then show ?thesis
      using grow_cap_bound [OF 2(1,2)] p(2) by (auto simp: pipe_store_def pipe_realloc_def split: if_splits)
  qed (use p in \<open>auto simp: pipe_store_def split: if_splits\<close>)
  then show ?thesis
    using r pipe_push_cases [OF p(1) r] by (auto simp: pipe_ready_def)
qed

lemma pipe_pull_exact:
  assumes "pipe_inv p" "0 < n" "n \<le> length (pipe_contents p)"
  shows "\<exists>p'. pipe_pull p n = (p', take n (pipe_contents p), Inr ()) \<and> pipe_inv p' \<and>
    pipe_contents p' = drop n (pipe_contents p) \<and> closed p' = closed p \<and> cap p' = cap p \<and>
    (n = length (pipe_contents p) \<longrightarrow> head p' = 0)"
proof -
  have l: "length (pipe_contents p) = len p" using length_contents [OF assms(1)] .
  obtain p' bs r where q: "pipe_pull p n = (p', bs, r)" by (cases "pipe_pull p n") auto
  have ne: "pipe_contents p \<noteq> []" using assms(2,3) by auto
  have c: "pipe_inv p'" "pipe_contents p = bs @ pipe_contents p'" "r = Inr ()"
    using pipe_pull_cases [OF assms(1) q] ne by blast+
  have p': "length bs = n" "closed p' = closed p" "cap p' = cap p" "n = len p \<longrightarrow> head p' = 0"
    using q assms l by (auto simp: pipe_pull_def Let_def pipe_inv_def split: if_splits)
  have "bs = take n (pipe_contents p)" "pipe_contents p' = drop n (pipe_contents p)"
    using c(2) p'(1) by auto
  then show ?thesis using q c(1,3) p'(2-4) l by (intro exI [of _ p']) simp
qed

lemma pipe_pull_empty:
  assumes "pipe_ready p" "pipe_contents p = []"
  shows "pipe_pull p n = (p, [], Inr ())"
  using assms length_contents [of p] by (simp add: pipe_ready_def pipe_pull_def)

text \<open>\<open>sends\<close>: the outgoing pipe of one side, \<open>reads\<close>: the incoming one.\<close>

definition out_pipe :: "bool \<Rightarrow> pai_proto_pipe_pair \<Rightarrow> pai_proto_pipe" where
  "out_pipe side pair = (if side then a_to_b pair else b_to_a pair)"

lemma link_send_ready:
  assumes "pipe_ready (out_pipe side pair)"
    "length (pipe_contents (out_pipe side pair)) + length d \<le> 2 ^ 31"
  shows "\<exists>pair'. link_send (\<lambda>_. True) side (Link pair) d = (Link pair', Inr ()) \<and>
    pipe_ready (out_pipe side pair') \<and>
    pipe_contents (out_pipe side pair') = pipe_contents (out_pipe side pair) @ d \<and>
    out_pipe (\<not> side) pair' = out_pipe (\<not> side) pair"
  using pipe_push_ready [OF assms] by (auto simp: out_pipe_def endpoint_send_def)

lemma link_recv_exact:
  assumes "pipe_inv (out_pipe (\<not> side) pair)" "0 < n"
    "n \<le> length (pipe_contents (out_pipe (\<not> side) pair))"
  shows "\<exists>pair'. link_recv side (Link pair) n =
      (Link pair', take n (pipe_contents (out_pipe (\<not> side) pair)), Inr ()) \<and>
    pipe_inv (out_pipe (\<not> side) pair') \<and>
    pipe_contents (out_pipe (\<not> side) pair') = drop n (pipe_contents (out_pipe (\<not> side) pair)) \<and>
    closed (out_pipe (\<not> side) pair') = closed (out_pipe (\<not> side) pair) \<and>
    cap (out_pipe (\<not> side) pair') = cap (out_pipe (\<not> side) pair) \<and>
    (n = length (pipe_contents (out_pipe (\<not> side) pair)) \<longrightarrow> head (out_pipe (\<not> side) pair') = 0) \<and>
    out_pipe side pair' = out_pipe side pair"
  using pipe_pull_exact [OF assms] by (auto simp: out_pipe_def endpoint_recv_def)

lemma link_recv_empty:
  assumes "pipe_ready (out_pipe (\<not> side) pair)" "pipe_contents (out_pipe (\<not> side) pair) = []"
  shows "link_recv side (Link pair) n = (Link pair, [], Inr ())"
  using pipe_pull_empty [OF assms] by (auto simp: out_pipe_def endpoint_recv_def)

section \<open>Connections joined by a pair\<close>

definition joined :: "bool \<Rightarrow> ('u, link) conn_env \<Rightarrow> bool" where
  "joined side E \<longleftrightarrow> t_send E = link_send (\<lambda>_. True) side \<and> t_recv E = link_recv side \<and>
     malloc_ok E = (\<lambda>_. True)"

lemma joined_pipe_env [simp]: "joined side (pipe_env side)"
  by (simp add: joined_def pipe_env_def)

lemma joined_ping_env [simp]: "joined True (ping_env now)"
  by (simp add: joined_def ping_env_def pipe_env_def)

text \<open>\<open>quiet side pair\<close>: an open pair whose outgoing pipe of that side is drained.\<close>

definition quiet :: "bool \<Rightarrow> pai_proto_pipe_pair \<Rightarrow> bool" where
  "quiet side pair \<longleftrightarrow> pipe_ready (out_pipe side pair) \<and> pipe_contents (out_pipe side pair) = []"

definition carries :: "bool \<Rightarrow> pai_proto_frame \<Rightarrow> pai_proto_pipe_pair \<Rightarrow> bool" where
  "carries side f pair \<longleftrightarrow> pipe_ready (out_pipe side pair) \<and>
     pipe_contents (out_pipe side pair) = frame_header f @ payload_bytes f"

lemma max_payload_bound:
  assumes "frame_sendable f" "frame_wf f"
  shows "length (payload_bytes f) \<le> 2 ^ 20"
proof -
  have "unat (payload_len f) \<le> unat PAI_PROTO_MAX_PAYLOAD"
    using assms(1) by (simp add: frame_sendable_def word_le_nat_alt)
  then show ?thesis using assms(2) by (simp add: frame_wf_def PAI_PROTO_MAX_PAYLOAD_def)
qed

lemma send_joined:
  assumes E: "joined side E" and q: "quiet side pair" and f: "frame_sendable f" "frame_wf f"
  shows "\<exists>pair'. (\<forall>c. transport c = Link pair \<longrightarrow>
      conn_send_unchecked E c f = (c\<lparr>transport := Link pair'\<rparr>, Inr ())) \<and>
    carries side f pair' \<and> out_pipe (\<not> side) pair' = out_pipe (\<not> side) pair"
proof -
  obtain p1 where 1: "link_send (\<lambda>_. True) side (Link pair) (frame_header f) = (Link p1, Inr ())"
    "pipe_ready (out_pipe side p1)" "pipe_contents (out_pipe side p1) = frame_header f"
    "out_pipe (\<not> side) p1 = out_pipe (\<not> side) pair"
    using link_send_ready [of side pair "frame_header f"] q by (auto simp: quiet_def)
  show ?thesis
  proof (cases "payload_len f = 0")
    case True
    then have "payload_bytes f = []" by (simp add: payload_bytes_def)
    then show ?thesis
      using True E f(1) 1 by (auto simp: conn_send_header joined_def carries_def)
  next
    case False
    obtain p2 where 2: "link_send (\<lambda>_. True) side (Link p1) (payload_bytes f) = (Link p2, Inr ())"
      "pipe_ready (out_pipe side p2)"
      "pipe_contents (out_pipe side p2) = frame_header f @ payload_bytes f"
      "out_pipe (\<not> side) p2 = out_pipe (\<not> side) pair"
      using link_send_ready [of side p1 "payload_bytes f"] max_payload_bound [OF f] 1 by auto
    show ?thesis
      using False E f(1) 1(1) 2
      by (auto simp: conn_send_header joined_def carries_def word_gt_0)
  qed
qed

lemma recv_joined:
  assumes E: "joined side E" and t: "transport c = Link pair" and p: "carries (\<not> side) f pair"
    and c: "header_buf c = []" "payload_buf c = None" and f: "frame_sendable f" "frame_wf f"
  shows "\<exists>pair'. poll_step E c = deliver E (c\<lparr>transport := Link pair'\<rparr>) f \<and>
    quiet (\<not> side) pair' \<and> out_pipe side pair' = out_pipe side pair"
proof -
  have len: "length (payload_bytes f) = unat (payload_len f)" using f(2) by (simp add: frame_wf_def)
  obtain p1 where 1: "link_recv side (Link pair) 40 = (Link p1, frame_header f, Inr ())"
    "pipe_inv (out_pipe (\<not> side) p1)" "pipe_contents (out_pipe (\<not> side) p1) = payload_bytes f"
    "\<not> closed (out_pipe (\<not> side) p1)" "cap (out_pipe (\<not> side) p1) < 2 ^ 32"
    "payload_bytes f = [] \<longrightarrow> head (out_pipe (\<not> side) p1) = 0" "out_pipe side p1 = out_pipe side pair"
    using link_recv_exact [of side pair 40] p by (auto simp: carries_def pipe_ready_def)
  have E': "t_recv E = link_recv side" "malloc_ok E = (\<lambda>_. True)" using E by (auto simp: joined_def)
  show ?thesis
  proof (cases "payload_len f = 0")
    case True
    then have nil: "payload_bytes f = []" by (simp add: payload_bytes_def)
    have "poll_step E c = deliver E (c\<lparr>transport := Link p1\<rparr>) f"
      using 1(1) t True by (intro poll_step_frame [OF c f]) (simp_all add: E')
    then show ?thesis using 1 nil by (auto simp: quiet_def pipe_ready_def)
  next
    case False
    then have pos: "0 < unat (payload_len f)" by (simp add: unat_gt_0)
    obtain p2 where 2: "link_recv side (Link p1) (unat (payload_len f)) =
        (Link p2, payload_bytes f, Inr ())"
      "pipe_inv (out_pipe (\<not> side) p2)" "pipe_contents (out_pipe (\<not> side) p2) = []"
      "\<not> closed (out_pipe (\<not> side) p2)" "cap (out_pipe (\<not> side) p2) < 2 ^ 32"
      "head (out_pipe (\<not> side) p2) = 0" "out_pipe side p2 = out_pipe side pair"
      using link_recv_exact [of side p1 "unat (payload_len f)"] 1 len pos by auto
    have "poll_step E c = deliver E (c\<lparr>transport := Link p2\<rparr>) f"
      using 1(1) 2(1) t False
      by (intro poll_step_frame [OF c f, where ?t1.0 = "Link p1"])
        (simp_all add: E' del: link_recv.simps)
    then show ?thesis using 2 by (auto simp: quiet_def pipe_ready_def)
  qed
qed

text \<open>A poll that has drained its pipe stops there.\<close>

lemma poll_quiet:
  assumes "joined side E" "transport c = Link pair" "quiet (\<not> side) pair" "header_buf c = []"
  shows "poll_loop E n k c = (c, Inr (), k)"
proof (cases n)
  case (Suc m)
  have "poll_step E c = (c, Stop (Inr ()))"
    using assms link_recv_empty [of side pair 40]
    by (cases c) (simp add: poll_step_def joined_def quiet_def)
  then show ?thesis using Suc by simp
qed simp

lemma poll_one:
  assumes "joined side E" "transport c = Link pair" "carries (\<not> side) f pair" "header_buf c = []"
    "payload_buf c = None" "frame_sendable f" "frame_wf f" "state c \<noteq> PAI_PROTO_STATE_CLOSED"
  shows "\<exists>pair'. quiet (\<not> side) pair' \<and> out_pipe side pair' = out_pipe side pair \<and>
    (\<forall>c' pair''. deliver E (c\<lparr>transport := Link pair'\<rparr>) f = (c', Frame) \<longrightarrow>
       transport c' = Link pair'' \<longrightarrow> quiet (\<not> side) pair'' \<longrightarrow> header_buf c' = [] \<longrightarrow>
       pai_proto_conn_poll E c = (c', Inr (), 1))"
proof -
  obtain pair' where p: "poll_step E c = deliver E (c\<lparr>transport := Link pair'\<rparr>) f"
    "quiet (\<not> side) pair'" "out_pipe side pair' = out_pipe side pair"
    using recv_joined [OF assms(1-7)] by blast
  have "pai_proto_conn_poll E c = (c', Inr (), 1)"
    if "deliver E (c\<lparr>transport := Link pair'\<rparr>) f = (c', Frame)"
      "transport c' = Link pair''" "quiet (\<not> side) pair''" "header_buf c' = []" for c' pair''
  proof -
    have b: "PAI_PROTO_POLL_BATCH = Suc 63" by (simp add: PAI_PROTO_POLL_BATCH_def)
    show ?thesis
      unfolding pai_proto_conn_poll_def b poll_loop.simps
      using p(1) that poll_quiet [OF assms(1) that(2-4)] assms(8) by simp
  qed
  then show ?thesis using p by blast
qed

section \<open>Negotiation frames\<close>

lemma u32_pair_frame:
  assumes "f = zero_frame\<lparr>msg_type := mt, flags := fl, request_id := rid,
      payload := Some (put_le32 v @ put_le32 0), payload_len := 8\<rparr>"
    "fl AND PAI_PROTO_FLAG_COMPRESSED = 0"
  shows "frame_sendable f" "frame_wf f"
    "pai_proto_msg_decode_caps (payload (received f)) (payload_len (received f)) = Inr v"
  using assms
  by (simp_all add: frame_sendable_def frame_wf_def payload_bytes_def PAI_PROTO_MAX_PAYLOAD_def
      zero_frame_def pai_proto_msg_decode_caps_def received_def PAI_PROTO_U32_PAIR_SIZE_def)

definition hello_frame :: "u32 \<Rightarrow> u64 \<Rightarrow> pai_proto_frame" where
  "hello_frame caps rid = zero_frame\<lparr>msg_type := PAI_PROTO_MSG_HELLO, flags := 0, request_id := rid,
     payload := Some (put_le32 caps @ put_le32 0), payload_len := 8\<rparr>"

definition ack_frame :: "u32 \<Rightarrow> u64 \<Rightarrow> pai_proto_frame" where
  "ack_frame caps rid = zero_frame\<lparr>msg_type := PAI_PROTO_MSG_HELLO_ACK, flags := PAI_PROTO_FLAG_REPLY,
     request_id := rid, payload := Some (put_le32 caps @ put_le32 0), payload_len := 8\<rparr>"

lemmas hello_frame_ok = u32_pair_frame [OF hello_frame_def, simplified]
lemmas ack_frame_ok = u32_pair_frame [OF ack_frame_def, simplified PAI_PROTO_FLAG_REPLY_def
    PAI_PROTO_FLAG_COMPRESSED_def, simplified]

lemma start_hello:
  assumes "role c = PAI_PROTO_ROLE_CLIENT" "state c = PAI_PROTO_STATE_NEW"
    "conn_send_unchecked E (c\<lparr>next_request_id := next_request_id c + 1\<rparr>)
       (hello_frame (local_caps c) (next_request_id c)) = (c1, Inr ())"
  shows "pai_proto_conn_start E c = (c1\<lparr>state := PAI_PROTO_STATE_NEGOTIATING\<rparr>, Inr ())"
proof -
  have "hello_frame a b = zero_frame\<lparr>msg_type := PAI_PROTO_MSG_HELLO, request_id := b,
      payload := Some (put_le32 a @ put_le32 0), payload_len := of_nat 8\<rparr>" for a b
    by (simp add: hello_frame_def zero_frame_def)
  then show ?thesis
    using assms by (simp add: pai_proto_conn_start_def pai_proto_msg_encode_caps_def
        PAI_PROTO_U32_PAIR_SIZE_def)
qed

lemma negotiation_ack:
  "conn_send_negotiation E c PAI_PROTO_MSG_HELLO_ACK v rid = conn_send_unchecked E c (ack_frame v rid)"
  by (simp add: conn_send_negotiation_def pai_proto_msg_encode_u32_def PAI_PROTO_U32_PAIR_SIZE_def
      ack_frame_def)

lemma deliver_hello:
  assumes "role s = PAI_PROTO_ROLE_SERVER" "state s = PAI_PROTO_STATE_NEW" "on_hello E = None"
    "local_caps s \<noteq> 0"
    and send: "\<And>d. transport d = transport s \<Longrightarrow>
      conn_send_unchecked E d (ack_frame (local_caps s AND caps AND PAI_PROTO_CAP_KNOWN) rid) =
        (d\<lparr>transport := t\<rparr>, Inr ())"
  shows "\<exists>s'. deliver E s (hello_frame caps rid) = (s', Frame) \<and> transport s' = t \<and>
    header_buf s' = [] \<and> payload_buf s' = None \<and> role s' = role s \<and> state s' = PAI_PROTO_STATE_OPEN \<and>
    negotiated_caps s' = local_caps s AND caps AND PAI_PROTO_CAP_KNOWN"
proof -
  have mt: "msg_type (hello_frame caps rid) = PAI_PROTO_MSG_HELLO"
    "request_id (hello_frame caps rid) = rid" by (simp_all add: hello_frame_def)
  show ?thesis
    using assms(1-4) hello_frame_ok(3) [of caps rid]
    by (simp add: deliver_def Let_def conn_handle_preopen_def conn_handle_hello_server_def mt
        negotiation_ack send conn_reset_phase_def)
qed

lemma deliver_ack:
  assumes "role c = PAI_PROTO_ROLE_CLIENT" "state c = PAI_PROTO_STATE_NEGOTIATING"
  shows "\<exists>c'. deliver E c (ack_frame v rid) = (c', Frame) \<and> transport c' = transport c \<and>
    header_buf c' = [] \<and> payload_buf c' = None \<and> role c' = role c \<and> state c' = PAI_PROTO_STATE_OPEN \<and>
    negotiated_caps c' = v AND PAI_PROTO_CAP_KNOWN"
proof -
  have mt: "msg_type (ack_frame v rid) = PAI_PROTO_MSG_HELLO_ACK" by (simp add: ack_frame_def)
  show ?thesis
    using assms ack_frame_ok(3) [of v rid]
    by (simp add: deliver_def Let_def conn_handle_preopen_def conn_handle_ack_client_def mt
        conn_reset_phase_def)
qed

text \<open>The two negotiation steps, each from a quiet pair.\<close>

lemma client_hello:
  assumes E: "joined True E" and c: "role c = PAI_PROTO_ROLE_CLIENT" "state c = PAI_PROTO_STATE_NEW"
    "transport c = Link pair" and q: "quiet True pair"
  shows "\<exists>pair'. pai_proto_conn_start E c =
      (c\<lparr>next_request_id := next_request_id c + 1, transport := Link pair',
         state := PAI_PROTO_STATE_NEGOTIATING\<rparr>, Inr ()) \<and>
    carries True (hello_frame (local_caps c) (next_request_id c)) pair' \<and>
    out_pipe False pair' = out_pipe False pair"
proof -
  let ?f = "hello_frame (local_caps c) (next_request_id c)"
  have "transport (c\<lparr>next_request_id := next_request_id c + 1\<rparr>) = Link pair" using c(3) by simp
  with send_joined [OF E q hello_frame_ok(1) hello_frame_ok(2),
      of "local_caps c" "next_request_id c"] obtain pair' where
    "conn_send_unchecked E (c\<lparr>next_request_id := next_request_id c + 1\<rparr>) ?f =
       (c\<lparr>next_request_id := next_request_id c + 1, transport := Link pair'\<rparr>, Inr ())"
    "carries True ?f pair'" "out_pipe False pair' = out_pipe False pair"
    by auto
  then show ?thesis using start_hello [OF c(1,2)] by blast
qed

lemma server_hello:
  assumes E: "joined False E" "on_hello E = None"
    and s: "role s = PAI_PROTO_ROLE_SERVER" "state s = PAI_PROTO_STATE_NEW" "local_caps s \<noteq> 0"
      "header_buf s = []" "payload_buf s = None" "transport s = Link pair"
    and p: "carries True (hello_frame caps rid) pair" "quiet False pair"
  shows "\<exists>s' pair'. pai_proto_conn_poll E s = (s', Inr (), 1) \<and> transport s' = Link pair' \<and>
    header_buf s' = [] \<and> payload_buf s' = None \<and> state s' = PAI_PROTO_STATE_OPEN \<and>
    negotiated_caps s' = local_caps s AND caps AND PAI_PROTO_CAP_KNOWN \<and>
    carries False (ack_frame (local_caps s AND caps AND PAI_PROTO_CAP_KNOWN) rid) pair' \<and>
    quiet True pair'"
proof -
  let ?ack = "ack_frame (local_caps s AND caps AND PAI_PROTO_CAP_KNOWN) rid"
  have carries: "carries (\<not> False) (hello_frame caps rid) pair" using p(1) by simp
  obtain p1 where 1: "quiet True p1" "out_pipe False p1 = out_pipe False pair"
    and poll: "\<And>c' pair''. deliver E (s\<lparr>transport := Link p1\<rparr>) (hello_frame caps rid) = (c', Frame) \<Longrightarrow>
       transport c' = Link pair'' \<Longrightarrow> quiet True pair'' \<Longrightarrow> header_buf c' = [] \<Longrightarrow>
       pai_proto_conn_poll E s = (c', Inr (), 1)"
    using poll_one [OF E(1) s(6) carries s(4,5) hello_frame_ok(1,2)] s(2) by auto
  have q: "quiet False p1" using p(2) 1(2) by (simp add: quiet_def)
  obtain p2 where send: "\<And>d :: ('a, link) pai_proto_conn. transport d = Link p1 \<Longrightarrow>
      conn_send_unchecked E d ?ack = (d\<lparr>transport := Link p2\<rparr>, Inr ())"
    and 2: "carries False ?ack p2" "out_pipe True p2 = out_pipe True p1"
    using send_joined [OF E(1) q ack_frame_ok(1) ack_frame_ok(2),
        of "local_caps s AND caps AND PAI_PROTO_CAP_KNOWN" rid] by auto
  have "\<exists>s'. deliver E (s\<lparr>transport := Link p1\<rparr>) (hello_frame caps rid) = (s', Frame) \<and>
      transport s' = Link p2 \<and> header_buf s' = [] \<and> payload_buf s' = None \<and>
      role s' = role (s\<lparr>transport := Link p1\<rparr>) \<and> state s' = PAI_PROTO_STATE_OPEN \<and>
      negotiated_caps s' = local_caps (s\<lparr>transport := Link p1\<rparr>) AND caps AND PAI_PROTO_CAP_KNOWN"
    by (rule deliver_hello) (use s E(2) send in simp_all)
  then obtain s' where s': "deliver E (s\<lparr>transport := Link p1\<rparr>) (hello_frame caps rid) = (s', Frame)"
    "transport s' = Link p2" "header_buf s' = []" "payload_buf s' = None"
    "state s' = PAI_PROTO_STATE_OPEN"
    "negotiated_caps s' = local_caps s AND caps AND PAI_PROTO_CAP_KNOWN"
    by auto
  have "quiet True p2" using 1(1) 2(2) by (simp add: quiet_def)
  then show ?thesis using poll [OF s'(1,2)] s' 2(1) by blast
qed

lemma client_ack:
  assumes E: "joined True E"
    and c: "role c = PAI_PROTO_ROLE_CLIENT" "state c = PAI_PROTO_STATE_NEGOTIATING"
      "header_buf c = []" "payload_buf c = None" "transport c = Link pair"
    and p: "carries False (ack_frame v rid) pair" "quiet True pair"
  shows "\<exists>c' pair'. pai_proto_conn_poll E c = (c', Inr (), 1) \<and> transport c' = Link pair' \<and>
    state c' = PAI_PROTO_STATE_OPEN \<and> negotiated_caps c' = v AND PAI_PROTO_CAP_KNOWN \<and>
    quiet True pair' \<and> quiet False pair'"
proof -
  have carries: "carries (\<not> True) (ack_frame v rid) pair" using p(1) by simp
  obtain p1 where 1: "quiet False p1" "out_pipe True p1 = out_pipe True pair"
    and poll: "\<And>c' pair''. deliver E (c\<lparr>transport := Link p1\<rparr>) (ack_frame v rid) = (c', Frame) \<Longrightarrow>
       transport c' = Link pair'' \<Longrightarrow> quiet False pair'' \<Longrightarrow> header_buf c' = [] \<Longrightarrow>
       pai_proto_conn_poll E c = (c', Inr (), 1)"
    using poll_one [OF E c(5) carries c(3,4) ack_frame_ok(1,2)] c(2) by auto
  have "quiet True p1" using 1(2) p(2) by (simp add: quiet_def)
  then show ?thesis
    using deliver_ack [of "c\<lparr>transport := Link p1\<rparr>" E v rid] c poll 1(1) by fastforce
qed

section \<open>Properties\<close>

definition fresh_pair :: pai_proto_pipe_pair where
  "fresh_pair = \<lparr>a_to_b = pipe_new, b_to_a = pipe_new\<rparr>"

lemma quiet_fresh [simp]: "quiet side fresh_pair"
  by (simp add: quiet_def out_pipe_def fresh_pair_def)

text \<open>C3. Handshake: over a fresh pipe pair, a client that starts, a server that polls and the
  client that polls again all succeed with one frame each; both end up OPEN and agree on the
  capabilities: those the client offered, the server supports and the protocol knows. The pair is
  drained and open in both directions afterwards.\<close>

theorem handshake_over_pipe:
  assumes "joined True EA" and "joined False EB" and "on_hello EB = None"
    and "scaps AND PAI_PROTO_CAP_KNOWN \<noteq> 0"
  shows "\<exists>c1 s1 c2 pair.
    pai_proto_conn_start EA (pai_proto_conn_init PAI_PROTO_ROLE_CLIENT ccaps (Link fresh_pair) u) =
      (c1, Inr ()) \<and>
    pai_proto_conn_poll EB
      (handover c1 (pai_proto_conn_init PAI_PROTO_ROLE_SERVER scaps (Link fresh_pair) v)) =
      (s1, Inr (), 1) \<and>
    pai_proto_conn_poll EA (handover s1 c1) = (c2, Inr (), 1) \<and>
    state s1 = PAI_PROTO_STATE_OPEN \<and> state c2 = PAI_PROTO_STATE_OPEN \<and>
    negotiated_caps s1 = ccaps AND scaps AND PAI_PROTO_CAP_KNOWN \<and>
    negotiated_caps c2 = negotiated_caps s1 \<and>
    transport c2 = Link pair \<and> quiet True pair \<and> quiet False pair"
proof -
  let ?c = "pai_proto_conn_init PAI_PROTO_ROLE_CLIENT ccaps (Link fresh_pair) u"
  let ?s = "pai_proto_conn_init PAI_PROTO_ROLE_SERVER scaps (Link fresh_pair) v"
  have ci: "role ?c = PAI_PROTO_ROLE_CLIENT" "state ?c = PAI_PROTO_STATE_NEW"
    "transport ?c = Link fresh_pair" "header_buf ?c = []" "payload_buf ?c = None"
    "local_caps ?c = ccaps AND PAI_PROTO_CAP_KNOWN"
    and si: "role ?s = PAI_PROTO_ROLE_SERVER" "state ?s = PAI_PROTO_STATE_NEW" "header_buf ?s = []"
    "payload_buf ?s = None" "local_caps ?s = scaps AND PAI_PROTO_CAP_KNOWN"
    by (simp_all add: pai_proto_conn_init_def)
  obtain p1 where 1: "pai_proto_conn_start EA ?c = (?c\<lparr>next_request_id := next_request_id ?c + 1,
      transport := Link p1, state := PAI_PROTO_STATE_NEGOTIATING\<rparr>, Inr ())"
    "carries True (hello_frame (ccaps AND PAI_PROTO_CAP_KNOWN) (next_request_id ?c)) p1"
    "out_pipe False p1 = out_pipe False fresh_pair"
    using client_hello [OF assms(1) ci(1,2,3)] ci(6) by auto
  define c1 where "c1 = ?c\<lparr>next_request_id := next_request_id ?c + 1,
      transport := Link p1, state := PAI_PROTO_STATE_NEGOTIATING\<rparr>"
  have q1: "quiet False p1" using 1(3) quiet_fresh [of False] by (simp add: quiet_def)
  have caps: "(scaps AND PAI_PROTO_CAP_KNOWN) AND ccaps AND PAI_PROTO_CAP_KNOWN =
      ccaps AND scaps AND PAI_PROTO_CAP_KNOWN"
    by (rule bit_word_eqI) (auto simp: bit_simps)
  obtain s1 p2 where 2: "pai_proto_conn_poll EB (handover c1 ?s) = (s1, Inr (), 1)"
    "transport s1 = Link p2" "state s1 = PAI_PROTO_STATE_OPEN"
    "negotiated_caps s1 = ccaps AND scaps AND PAI_PROTO_CAP_KNOWN"
    "carries False (ack_frame (ccaps AND scaps AND PAI_PROTO_CAP_KNOWN) (next_request_id ?c)) p2"
    "quiet True p2"
    using server_hello [OF assms(2,3), of "handover c1 ?s" p1 "ccaps AND PAI_PROTO_CAP_KNOWN"
        "next_request_id ?c"] si assms(4) 1(2) q1
    by (auto simp: handover_def c1_def caps)
  have "(ccaps AND scaps AND PAI_PROTO_CAP_KNOWN) AND PAI_PROTO_CAP_KNOWN =
      ccaps AND scaps AND PAI_PROTO_CAP_KNOWN"
    by (rule bit_word_eqI) (auto simp: bit_simps)
  then obtain c2 p3 where "pai_proto_conn_poll EA (handover s1 c1) = (c2, Inr (), 1)"
    "transport c2 = Link p3" "state c2 = PAI_PROTO_STATE_OPEN"
    "negotiated_caps c2 = ccaps AND scaps AND PAI_PROTO_CAP_KNOWN" "quiet True p3" "quiet False p3"
    using client_ack [OF assms(1), of "handover s1 c1" p2] ci 2(2,5,6)
    by (fastforce simp: handover_def c1_def)
  then show ?thesis using 1(1) 2(1-4) unfolding c1_def by metis
qed

theorem handshake_over_pipe_witness:
  "\<exists>c1 s1 c2.
    pai_proto_conn_start (ping_env 5) (pai_proto_conn_init PAI_PROTO_ROLE_CLIENT 0x7F (Link fresh_pair)
      \<lparr>expected_req = 0, got_pong = False, arrival_ns = 0\<rparr>) = (c1, Inr ()) \<and>
    pai_proto_conn_poll (pipe_env False)
      (handover c1 (pai_proto_conn_init PAI_PROTO_ROLE_SERVER 3 (Link fresh_pair) ())) = (s1, Inr (), 1) \<and>
    pai_proto_conn_poll (ping_env 5) (handover s1 c1) = (c2, Inr (), 1) \<and>
    state c2 = PAI_PROTO_STATE_OPEN \<and> negotiated_caps c2 = 3"
proof -
  have n: "(3 :: u32) AND PAI_PROTO_CAP_KNOWN \<noteq> 0"
    and caps: "(0x7F :: u32) AND 3 AND PAI_PROTO_CAP_KNOWN = 3"
    by (simp_all add: PAI_PROTO_CAP_KNOWN_def)
  have h: "on_hello (pipe_env False) = None" by (simp add: pipe_env_def)
  from handshake_over_pipe [OF joined_ping_env joined_pipe_env h n, of 5 "0x7F"
      "\<lparr>expected_req = 0, got_pong = False, arrival_ns = 0\<rparr>" "()"]
  show ?thesis unfolding caps by (elim exE conjE) (intro exI conjI; simp)
qed

text \<open>A PING or PONG frame as the sender builds it.\<close>

definition bare_frame :: "u32 \<Rightarrow> u32 \<Rightarrow> u64 \<Rightarrow> u64 \<Rightarrow> pai_proto_frame" where
  "bare_frame mt fl rid sid =
     zero_frame\<lparr>msg_type := mt, flags := fl, request_id := rid, session_id := sid\<rparr>"

lemma bare_frame_simps [simp]:
  "msg_type (bare_frame mt fl rid sid) = mt" "flags (bare_frame mt fl rid sid) = fl"
  "request_id (bare_frame mt fl rid sid) = rid" "session_id (bare_frame mt fl rid sid) = sid"
  "payload_len (bare_frame mt fl rid sid) = 0"
  by (simp_all add: bare_frame_def zero_frame_def)

lemma bare_frame_ok:
  "fl AND PAI_PROTO_FLAG_COMPRESSED = 0 \<Longrightarrow> frame_sendable (bare_frame mt fl rid sid)"
  "frame_wf (bare_frame mt fl rid sid)"
  by (simp_all add: frame_sendable_def frame_wf_def payload_bytes_def)

lemma reply_not_compressed [simp]: "PAI_PROTO_FLAG_REPLY AND PAI_PROTO_FLAG_COMPRESSED = 0"
  by (simp add: proto_consts)

lemma server_pong:
  assumes E: "joined False E"
    and s: "state s = PAI_PROTO_STATE_OPEN" "header_buf s = []" "payload_buf s = None"
      "transport s = Link pair"
    and p: "carries True (bare_frame PAI_PROTO_MSG_PING 0 rid sid) pair" "quiet False pair"
  shows "\<exists>s' pair'. pai_proto_conn_poll E s = (s', Inr (), 1) \<and> transport s' = Link pair' \<and>
    state s' = PAI_PROTO_STATE_OPEN \<and> user s' = user s \<and> quiet True pair' \<and>
    carries False (bare_frame PAI_PROTO_MSG_PONG PAI_PROTO_FLAG_REPLY rid sid) pair'"
proof -
  let ?ping = "bare_frame PAI_PROTO_MSG_PING 0 rid sid"
  let ?pong = "bare_frame PAI_PROTO_MSG_PONG PAI_PROTO_FLAG_REPLY rid sid"
  have carries: "carries (\<not> False) ?ping pair" using p(1) by simp
  have ok: "frame_sendable ?ping" "frame_sendable ?pong" by (simp_all add: bare_frame_ok)
  obtain p1 where 1: "quiet True p1" "out_pipe False p1 = out_pipe False pair"
    and poll: "\<And>c' pair''. deliver E (s\<lparr>transport := Link p1\<rparr>) ?ping = (c', Frame) \<Longrightarrow>
       transport c' = Link pair'' \<Longrightarrow> quiet True pair'' \<Longrightarrow> header_buf c' = [] \<Longrightarrow>
       pai_proto_conn_poll E s = (c', Inr (), 1)"
    using poll_one [OF E s(4) carries s(2,3) ok(1) bare_frame_ok(2)] s(1) by auto
  have q: "quiet False p1" using p(2) 1(2) by (simp add: quiet_def)
  obtain p2 where send: "\<And>d :: ('a, link) pai_proto_conn. transport d = Link p1 \<Longrightarrow>
      conn_send_unchecked E d ?pong = (d\<lparr>transport := Link p2\<rparr>, Inr ())"
    and 2: "carries False ?pong p2" "out_pipe True p2 = out_pipe True p1"
    using send_joined [OF E q ok(2) bare_frame_ok(2)] by auto
  have q2: "quiet True p2" using 1(1) 2(2) by (simp add: quiet_def)
  define s' where "s' = conn_reset_phase (s\<lparr>header_buf := frame_header ?ping,
      payload_buf := payload (received ?ping), pending := received ?ping, transport := Link p2\<rparr>)"
  have "deliver E (s\<lparr>transport := Link p1\<rparr>) ?ping = (s', Frame)"
    using send [unfolded bare_frame_def] s(1)
    by (simp add: deliver_def Let_def conn_handle_open_def msg_consts s'_def)
  from poll [OF this, of p2] show ?thesis
    using q2 2(1) s(1) by (intro exI [of _ s'] exI [of _ p2]) (simp add: s'_def conn_reset_phase_def)
qed

lemma client_pong:
  assumes c: "state c = PAI_PROTO_STATE_OPEN" "header_buf c = []" "payload_buf c = None"
      "transport c = Link pair" "expected_req (user c) = rid"
    and p: "carries False (bare_frame PAI_PROTO_MSG_PONG PAI_PROTO_FLAG_REPLY rid sid) pair"
  shows "\<exists>c'. pai_proto_conn_poll (ping_env now) c = (c', Inr (), 1) \<and>
    state c' = PAI_PROTO_STATE_OPEN \<and> got_pong (user c') \<and> arrival_ns (user c') = now"
proof -
  let ?pong = "bare_frame PAI_PROTO_MSG_PONG PAI_PROTO_FLAG_REPLY rid sid"
  have carries: "carries (\<not> True) ?pong pair" using p by simp
  obtain p1 where 1: "quiet False p1"
    and poll: "\<And>c' pair''. deliver (ping_env now) (c\<lparr>transport := Link p1\<rparr>) ?pong = (c', Frame) \<Longrightarrow>
       transport c' = Link pair'' \<Longrightarrow> quiet False pair'' \<Longrightarrow> header_buf c' = [] \<Longrightarrow>
       pai_proto_conn_poll (ping_env now) c = (c', Inr (), 1)"
    using poll_one [OF joined_ping_env c(4) carries c(2,3) bare_frame_ok(1) bare_frame_ok(2), of now]
      c(1) by auto
  have fl: "(PAI_PROTO_FLAG_REPLY AND 0xFFFF) AND PAI_PROTO_FLAG_REPLY \<noteq> 0"
    by (simp add: proto_consts)
  have m: "on_message (ping_env now) = Some (ping_on_message now)" by (simp add: ping_env_def)
  have "\<exists>c'. deliver (ping_env now) (c\<lparr>transport := Link p1\<rparr>) ?pong = (c', Frame) \<and>
      transport c' = Link p1 \<and> header_buf c' = [] \<and> state c' = PAI_PROTO_STATE_OPEN \<and>
      got_pong (user c') \<and> arrival_ns (user c') = now"
    using c fl
    by (simp add: deliver_def Let_def conn_handle_open_def m ping_on_message_def
        conn_reset_phase_def msg_consts)
  then show ?thesis using poll 1 by blast
qed

text \<open>Ping: between two open connections with drained pipes, a PING sent by the client is
  answered by the server's next poll without involving its application, and the client's next poll
  hands the matching PONG to the ping callback, which records it and its arrival time.\<close>

theorem ping_roundtrip:
  assumes "joined False EB"
    and "state c = PAI_PROTO_STATE_OPEN" "header_buf c = []" "payload_buf c = None"
      "transport c = Link pair" "expected_req (user c) = rid"
    and "state s = PAI_PROTO_STATE_OPEN" "header_buf s = []" "payload_buf s = None"
    and "quiet True pair" "quiet False pair"
  shows "\<exists>c1 s1 c2.
    pai_proto_conn_send_raw (ping_env now) c PAI_PROTO_MSG_PING 0 rid sid None 0 = (c1, Inr ()) \<and>
    pai_proto_conn_poll EB (handover c1 s) = (s1, Inr (), 1) \<and> user s1 = user s \<and>
    pai_proto_conn_poll (ping_env now) (handover s1 c1) = (c2, Inr (), 1) \<and>
    got_pong (user c2) \<and> arrival_ns (user c2) = now"
proof -
  let ?ping = "bare_frame PAI_PROTO_MSG_PING 0 rid sid"
  have ok: "frame_sendable ?ping" by (simp add: bare_frame_ok)
  have ping: "zero_frame\<lparr>msg_type := PAI_PROTO_MSG_PING, flags := 0, request_id := rid,
      session_id := sid, payload := None, payload_len := 0\<rparr> = ?ping"
    by (simp add: bare_frame_def zero_frame_def)
  obtain p1 where 1: "conn_send_unchecked (ping_env now) c ?ping = (c\<lparr>transport := Link p1\<rparr>, Inr ())"
    "carries True ?ping p1" "out_pipe False p1 = out_pipe False pair"
    using send_joined [OF joined_ping_env assms(10) ok bare_frame_ok(2), of now] assms(5) by auto
  have q: "quiet False p1" using 1(3) assms(11) by (simp add: quiet_def)
  have send: "pai_proto_conn_send_raw (ping_env now) c PAI_PROTO_MSG_PING 0 rid sid None 0 =
      (c\<lparr>transport := Link p1\<rparr>, Inr ())"
    using 1(1) assms(2) ping by (simp add: pai_proto_conn_send_raw_def)
  obtain s1 p2 where 2: "pai_proto_conn_poll EB (handover (c\<lparr>transport := Link p1\<rparr>) s) = (s1, Inr (), 1)"
    "transport s1 = Link p2" "user s1 = user s"
    "carries False (bare_frame PAI_PROTO_MSG_PONG PAI_PROTO_FLAG_REPLY rid sid) p2"
    using server_pong [OF assms(1), of "handover (c\<lparr>transport := Link p1\<rparr>) s" p1 rid sid]
      1(2) q assms(7-9)
    by (auto simp: handover_def)
  obtain c2 where "pai_proto_conn_poll (ping_env now) (handover s1 (c\<lparr>transport := Link p1\<rparr>)) =
      (c2, Inr (), 1)" "got_pong (user c2)" "arrival_ns (user c2) = now"
    using client_pong [of "handover s1 (c\<lparr>transport := Link p1\<rparr>)" p2 rid sid now] assms(2-6) 2(2,4)
    by (auto simp: handover_def)
  then show ?thesis using send 2(1,3) by blast
qed

definition open_client :: "(ping_ctx, link) pai_proto_conn" where
  "open_client = (pai_proto_conn_init PAI_PROTO_ROLE_CLIENT 1 (Link fresh_pair)
     \<lparr>expected_req = 9, got_pong = False, arrival_ns = 0\<rparr>)\<lparr>state := PAI_PROTO_STATE_OPEN\<rparr>"

definition open_server :: "(unit, link) pai_proto_conn" where
  "open_server = (pai_proto_conn_init PAI_PROTO_ROLE_SERVER 1 (Link fresh_pair) ())
     \<lparr>state := PAI_PROTO_STATE_OPEN\<rparr>"

theorem ping_roundtrip_witness:
  "\<exists>c1 s1 c2.
    pai_proto_conn_send_raw (ping_env 77) open_client PAI_PROTO_MSG_PING 0 9 4 None 0 = (c1, Inr ()) \<and>
    pai_proto_conn_poll (pipe_env False) (handover c1 open_server) = (s1, Inr (), 1) \<and>
    user s1 = user open_server \<and>
    pai_proto_conn_poll (ping_env 77) (handover s1 c1) = (c2, Inr (), 1) \<and>
    got_pong (user c2) \<and> arrival_ns (user c2) = 77"
  by (rule ping_roundtrip [OF joined_pipe_env, where pair = fresh_pair])
    (simp_all add: open_client_def open_server_def pai_proto_conn_init_def)

text \<open>C11. The receive pump is safe: for an application that keeps the connection contract, one
  call of \<open>pai_proto_conn_poll\<close> processes at most 64 frames, keeps the connection invariant (id
  tables without duplicates, receive buffers never filled past their size, no payload buffer
  without its header), never moves the life cycle backwards, and every error it reports leaves the
  connection CLOSED.\<close>

theorem poll_safe:
  assumes "conn_app E" and "conn_inv c" and "pai_proto_conn_poll E c = (c', r, frames)"
  shows "conn_inv c' \<and> role c' = role c \<and> state c \<le> state c' \<and> frames \<le> 64 \<and>
    (\<forall>e. r = Inl e \<longrightarrow> state c' = PAI_PROTO_STATE_CLOSED)"
proof -
  have l: "poll_loop E PAI_PROTO_POLL_BATCH 0 c = (c', r, frames)"
    using assms(3) by (simp add: pai_proto_conn_poll_def)
  show ?thesis
    using conn_app.loop_core [OF assms(1,2), of PAI_PROTO_POLL_BATCH 0] loop_frames [OF l]
      conn_app.loop_error_closed [OF assms(1)] l assms(2)
    by (auto simp: core_step_def PAI_PROTO_POLL_BATCH_def)
qed

theorem poll_safe_witness:
  "conn_inv (fst (pai_proto_conn_poll (ping_env 5)
     (pai_proto_conn_init PAI_PROTO_ROLE_CLIENT 1 (Link fresh_pair)
       \<lparr>expected_req = 0, got_pong = False, arrival_ns = 0\<rparr>)))"
proof -
  obtain c' r n where p: "pai_proto_conn_poll (ping_env 5)
     (pai_proto_conn_init PAI_PROTO_ROLE_CLIENT 1 (Link fresh_pair)
       \<lparr>expected_req = 0, got_pong = False, arrival_ns = 0\<rparr>) = (c', r, n)"
    by (metis prod.exhaust)
  from poll_safe [OF ping.conn_app_axioms conn_inv_init p] p show ?thesis by simp
qed

text \<open>Sending: on an open connection \<open>pai_proto_conn_send\<close> hands the transport exactly the
  bytes \<open>pai_proto_frame_encode\<close> produces, though it has its own copy of the header encoder; on any
  other state it refuses the frame and touches nothing.\<close>

theorem conn_send_is_encode:
  assumes "\<And>t bs. t_send E t bs = (t @ bs, Inr ())" and "frame_wf f"
    and "pai_proto_frame_encode f n = Inr wire"
  shows "pai_proto_conn_send E c f =
    (if state c = PAI_PROTO_STATE_OPEN then (c\<lparr>transport := transport c @ wire\<rparr>, Inr ())
     else (c, Inl PAI_ERR_INVALID_ARG))"
proof -
  have s: "frame_sendable f" and w: "wire = frame_header f @ payload_bytes f"
    using assms(3)
    by (auto simp: pai_proto_frame_encode_def frame_sendable_def not_less split: if_splits)
  have "payload_bytes f = []" if "\<not> payload_len f > 0"
    using that by (simp add: payload_bytes_def word_gt_0)
  then show ?thesis
    using s assms(1) by (auto simp: pai_proto_conn_send_def conn_send_header w)
qed

definition tape_env :: "(unit, bytes) conn_env" where
  "tape_env = \<lparr>t_send = (\<lambda>t bs. (t @ bs, Inr ())), t_recv = (\<lambda>t n. (drop n t, take n t, Inr ())),
     t_close = (\<lambda>t. t), on_hello = None, on_message = None, on_stream_begin = None,
     on_stream_data = None, on_stream_end = None, on_close = None, malloc_ok = (\<lambda>_. True)\<rparr>"

theorem conn_send_is_encode_witness:
  "pai_proto_conn_send tape_env
     ((pai_proto_conn_init PAI_PROTO_ROLE_CLIENT 1 [] ())\<lparr>state := PAI_PROTO_STATE_OPEN\<rparr>) ping_frame =
   ((pai_proto_conn_init PAI_PROTO_ROLE_CLIENT 1 [] ())\<lparr>state := PAI_PROTO_STATE_OPEN,
      transport := frame_header ping_frame @ payload_bytes ping_frame\<rparr>, Inr ())"
proof -
  have "pai_proto_frame_encode ping_frame 42 =
      Inr (frame_header ping_frame @ payload_bytes ping_frame)" "frame_wf ping_frame"
    by (simp_all add: pai_proto_frame_encode_def ping_frame_def frame_wf_def payload_bytes_def
      pai_proto_frame_size_def proto_consts)
  from conn_send_is_encode [of tape_env, OF _ this(2,1),
      of "(pai_proto_conn_init PAI_PROTO_ROLE_CLIENT 1 [] ())\<lparr>state := PAI_PROTO_STATE_OPEN\<rparr>"]
  show ?thesis by (simp add: tape_env_def pai_proto_conn_init_def)
qed

text \<open>A stream frame with a nonzero request id that names no open stream and does not
  open one is refused, and no callback runs.\<close>

theorem stream_needs_start:
  assumes "request_id f \<noteq> 0" and "request_id f \<notin> set (streams c)"
    and "flags f AND PAI_PROTO_FLAG_STREAM_START = 0"
  shows "conn_handle_stream E c f = (c, Inl PAI_ERR_PROTOCOL)"
proof -
  have "stream_index c (request_id f) = None"
    using assms(2) by (auto simp: stream_index_def find_index_None)
  then show ?thesis using assms by (simp add: conn_handle_stream_def)
qed

theorem stream_needs_start_witness:
  "conn_handle_stream (pipe_env False) open_server
     (bare_frame PAI_PROTO_MSG_STREAM_DATA 0 3 0) = (open_server, Inl PAI_ERR_PROTOCOL)"
  by (rule stream_needs_start)
    (simp_all add: open_server_def pai_proto_conn_init_def PAI_PROTO_MAX_STREAMS_def)

text \<open>Request id 0 escapes that check: while a stream slot is free, a STREAM_DATA frame on
  id 0 is delivered to the application although no stream was ever opened, because a free slot
  also holds 0.\<close>

theorem stream_zero_needs_no_start:
  assumes "0 \<in> set (streams c)" and "request_id f = 0" and "msg_type f = PAI_PROTO_MSG_STREAM_DATA"
    and "flags f = 0"
    and "pai_proto_msg_decode_stream_data (payload f) (payload_len f) = Inr (kind, q, data)"
  shows "conn_handle_stream E c f = (call_stream_data E c f kind q data, Inr ())"
proof -
  obtain i where "stream_index c 0 = Some i"
    using find_index_exists [OF assms(1), of "\<lambda>x. x = 0"] by (auto simp: stream_index_def)
  then show ?thesis
    using assms by (simp add: conn_handle_stream_def stream_finish_def msg_consts)
qed

definition orphan_frame :: pai_proto_frame where
  "orphan_frame = zero_frame\<lparr>msg_type := PAI_PROTO_MSG_STREAM_DATA,
     payload := Some ([1, 0, 0, 0] @ put_le32 5 @ put_le32 2 @ [65, 66]), payload_len := 14\<rparr>"

theorem stream_zero_needs_no_start_witness:
  "\<exists>kind q data. conn_handle_stream (pipe_env False) open_server orphan_frame =
     (call_stream_data (pipe_env False) open_server orphan_frame kind q data, Inr ())"
proof -
  have "\<exists>kind q data. pai_proto_msg_decode_stream_data (payload orphan_frame)
      (payload_len orphan_frame) = Inr (kind, q, data)"
    by (simp add: pai_proto_msg_decode_stream_data_def orphan_frame_def)
  then obtain kind q data where "pai_proto_msg_decode_stream_data (payload orphan_frame)
      (payload_len orphan_frame) = Inr (kind, q, data)" by blast
  from stream_zero_needs_no_start [OF _ _ _ _ this, of open_server "pipe_env False"]
  show ?thesis
    by (auto simp: open_server_def pai_proto_conn_init_def PAI_PROTO_MAX_STREAMS_def orphan_frame_def
        zero_frame_def)
qed

end
