(* ===== verification/Alloc_Spec.thy ===== *)
theory Alloc_Spec
  imports Mem
begin

text \<open>
  The contract of a memory allocator, shared by \<^verbatim>\<open>memory/arena.c\<close> and
  \<^verbatim>\<open>memory/allocator.c\<close>. The live allocations are a map from payload addresses to their sizes;
  the laws say that a new payload is aligned, inside the managed region and disjoint from the live
  ones. \<open>allocator_free\<close> adds the release of a single payload.
\<close>

type_synonym live_map = "nat \<rightharpoonup> nat"

datatype 'al alloc_op = Alloc u64 'al | Free nat

locale allocator =
  fixes alloc :: "'s \<Rightarrow> u64 \<Rightarrow> 'al::len word \<Rightarrow> 's \<times> nat option"
    and region :: "'s \<Rightarrow> nat set"
    and live :: "'s \<Rightarrow> live_map \<Rightarrow> bool"
  assumes alloc_some: "live s M \<Longrightarrow> alloc s n a = (s', Some p) \<Longrightarrow> 0 < n \<Longrightarrow>
      live s' (M(p \<mapsto> unat n)) \<and> p \<notin> dom M \<and> unat a dvd p"
    and alloc_none: "live s M \<Longrightarrow> alloc s n a = (s', None) \<Longrightarrow> live s' M"
    and alloc_region: "alloc s n a = (s', r) \<Longrightarrow> region s' = region s"
    and live_disjoint: "live s M \<Longrightarrow> M p = Some k \<Longrightarrow> M q = Some m \<Longrightarrow> p \<noteq> q \<Longrightarrow>
      p + k \<le> q \<or> q + m \<le> p"
    and live_region: "live s M \<Longrightarrow> M p = Some k \<Longrightarrow> {p ..< p + k} \<subseteq> region s"
begin

text \<open>A sequence of requests: the final state and the live map after it.\<close>

fun requests :: "'s \<Rightarrow> live_map \<Rightarrow> (u64 \<times> 'al word) list \<Rightarrow> 's \<times> live_map" where
  "requests s M [] = (s, M)"
| "requests s M ((n, a) # rs) =
     (case alloc s n a of
        (s', None) \<Rightarrow> requests s' M rs
      | (s', Some p) \<Rightarrow> requests s' (M(p \<mapsto> unat n)) rs)"

lemma requests_live:
  assumes "live s M" "\<forall>(n, a) \<in> set rs. 0 < n" "requests s M rs = (s', M')"
  shows "live s' M' \<and> region s' = region s \<and> M \<subseteq>\<^sub>m M'"
  using assms
proof (induction s M rs rule: requests.induct)
  case (2 s M n a rs)
  obtain t r where al: "alloc s n a = (t, r)" by fastforce
  have pos: "0 < n" and rest: "\<forall>(n, a) \<in> set rs. 0 < n" using "2.prems"(2) by auto
  show ?case
  proof (cases r)
    case None
    then show ?thesis
      using "2.IH"(1) [OF al [symmetric] None alloc_none [OF "2.prems"(1)] rest] al "2.prems"(3)
        alloc_region [OF al] by auto
  next
    case (Some p)
    have p: "live t (M(p \<mapsto> unat n))" "p \<notin> dom M"
      using alloc_some [OF "2.prems"(1), of n a t p] al Some pos by auto
    have "requests t (M(p \<mapsto> unat n)) rs = (s', M')" using al Some "2.prems"(3) by simp
    from "2.IH"(2) [OF al [symmetric] Some p(1) rest this]
    have "live s' M'" "region s' = region s" "M(p \<mapsto> unat n) \<subseteq>\<^sub>m M'"
      using alloc_region [OF al] by (simp_all add: fun_upd_def)
    moreover have "M \<subseteq>\<^sub>m M(p \<mapsto> unat n)" using p(2) by (auto simp: map_le_def)
    ultimately show ?thesis using map_le_trans by blast
  qed
qed (auto simp: map_le_refl)

end

locale allocator_free = allocator alloc region live
  for alloc :: "'s \<Rightarrow> u64 \<Rightarrow> 'al::len word \<Rightarrow> 's \<times> nat option"
    and region :: "'s \<Rightarrow> nat set"
    and live :: "'s \<Rightarrow> live_map \<Rightarrow> bool" +
  fixes release :: "'s \<Rightarrow> nat \<Rightarrow> 's"
  assumes release_live: "live s M \<Longrightarrow> p \<in> dom M \<Longrightarrow> live (release s p) (M(p := None))"
    and release_region: "region (release s p) = region s"
begin

text \<open>Any interleaving of requests and releases; a release of an address that is not live is
  skipped by the client.\<close>

fun session :: "'s \<Rightarrow> live_map \<Rightarrow> 'al word alloc_op list \<Rightarrow> 's \<times> live_map" where
  "session s M [] = (s, M)"
| "session s M (Alloc n a # ops) =
     (case alloc s n a of
        (s', None) \<Rightarrow> session s' M ops
      | (s', Some p) \<Rightarrow> session s' (M(p \<mapsto> unat n)) ops)"
| "session s M (Free p # ops) =
     (if p \<in> dom M then session (release s p) (M(p := None)) ops else session s M ops)"

lemma session_live:
  assumes "live s M" "\<forall>n a. Alloc n a \<in> set ops \<longrightarrow> 0 < n" "session s M ops = (s', M')"
  shows "live s' M' \<and> region s' = region s"
  using assms
proof (induction s M ops rule: session.induct)
  case (2 s M n a ops)
  obtain t r where al: "alloc s n a = (t, r)" by fastforce
  have pos: "0 < n" and rest: "\<forall>n a. Alloc n a \<in> set ops \<longrightarrow> 0 < n" using "2.prems"(2) by auto
  show ?case
  proof (cases r)
    case None
    then show ?thesis
      using "2.IH"(1) [OF al [symmetric] None alloc_none [OF "2.prems"(1)] rest] al "2.prems"(3)
        alloc_region [OF al] by auto
  next
    case (Some p)
    have p: "live t (M(p \<mapsto> unat n))"
      using alloc_some [OF "2.prems"(1), of n a t p] al Some pos by blast
    have "session t (M(p \<mapsto> unat n)) ops = (s', M')" using al Some "2.prems"(3) by simp
    from "2.IH"(2) [OF al [symmetric] Some p rest this] show ?thesis
      using alloc_region [OF al] by simp
  qed
next
  case (3 s M p ops)
  show ?case
  proof (cases "p \<in> dom M")
    case True
    then have "session (release s p) (M(p := None)) ops = (s', M')" using "3.prems"(3) by simp
    from "3.IH"(1) [OF True release_live [OF "3.prems"(1) True] _ this] show ?thesis
      using "3.prems"(2) release_region by auto
  next
    case False
    then show ?thesis using "3.IH"(2) [OF False "3.prems"(1)] "3.prems"(2,3) by auto
  qed
qed auto

end

end
