(* ===== verification/Arena.thy ===== *)
theory Arena
  imports Alloc_Spec
begin

text \<open>
  \<^verbatim>\<open>memory/arena.c\<close>: the bump arena. All three fields are 64-bit words, as \<open>uintptr_t\<close> and
  \<open>uint64_t\<close> are; the alignment argument is a 32-bit word.
\<close>

section \<open>Operations\<close>

record pai_arena =
  base :: u64
  size :: u64
  used :: u64

definition pai_arena_init :: "u64 \<Rightarrow> u64 \<Rightarrow> pai_arena" where
  "pai_arena_init memory n = \<lparr>base = memory, size = n, used = 0\<rparr>"

definition pai_arena_alloc :: "pai_arena \<Rightarrow> u64 \<Rightarrow> u32 \<Rightarrow> pai_arena \<times> u64 option" where
  "pai_arena_alloc arena n align =
     (let cur = base arena + used arena
      in if align = 0 \<or> align AND (align - 1) \<noteq> 0 then (arena, None)
         else
           (let aligned = (cur + ucast align - 1) AND NOT (ucast (align - 1));
                offset = aligned - base arena
            in if offset > size arena \<or> n > size arena - offset then (arena, None)
               else (arena\<lparr>used := offset + n\<rparr>, Some aligned)))"

definition pai_arena_reset :: "pai_arena \<Rightarrow> pai_arena" where
  "pai_arena_reset arena = arena\<lparr>used := 0\<rparr>"

definition pai_arena_used :: "pai_arena \<Rightarrow> u64" where
  "pai_arena_used arena = used arena"

definition pai_arena_free :: "pai_arena \<Rightarrow> u64" where
  "pai_arena_free arena = size arena - used arena"

section \<open>The arena as an allocator\<close>

definition arena_region :: "pai_arena \<Rightarrow> nat set" where
  "arena_region s = {unat (base s) ..< unat (base s) + unat (size s)}"

definition arena_inv :: "pai_arena \<Rightarrow> bool" where
  "arena_inv s \<longleftrightarrow> base s \<noteq> 0 \<and> unat (base s) + unat (size s) < 2 ^ 64 \<and> used s \<le> size s"

definition arena_live :: "pai_arena \<Rightarrow> live_map \<Rightarrow> bool" where
  "arena_live s M \<longleftrightarrow> arena_inv s \<and>
     (\<forall>p n. M p = Some n \<longrightarrow> unat (base s) \<le> p \<and> p + n \<le> unat (base s) + unat (used s) \<and> 0 < n) \<and>
     (\<forall>p n q m. M p = Some n \<longrightarrow> M q = Some m \<longrightarrow> p \<noteq> q \<longrightarrow> p + n \<le> q \<or> q + m \<le> p)"

lemma unat_ucast32: "unat (ucast (x :: u32) :: u64) = unat x"
  using unsigned_less [of x, where 'a = nat]
  by (simp add: unsigned_ucast_eq take_bit_nat_eq_self)

lemma pow2_ucast:
  assumes "align \<noteq> 0" "align AND (align - 1) = (0 :: u32)"
  shows "pai_mem_is_pow2 (ucast align)" "ucast (align - 1) = (ucast align - 1 :: u64)"
proof -
  have 1: "unat (align - 1) = unat align - 1"
    using assms(1) by (simp add: unat_gt_0 unat_sub word_le_nat_alt Suc_leI)
  show 2: "ucast (align - 1) = (ucast align - 1 :: u64)"
  proof -
    have "(1 :: u64) \<le> ucast align"
      using assms(1) by (simp add: word_le_nat_alt unat_ucast32 Suc_leI unat_gt_0)
    then have "unat (ucast align - 1 :: u64) = unat align - 1"
      by (simp add: unat_sub unat_ucast32)
    then show ?thesis
      using 1 by (simp add: word_unat_eq_iff unat_ucast32)
  qed
  have "ucast align AND (ucast align - 1 :: u64) = ucast (align AND (align - 1))"
    unfolding 2 [symmetric] by (rule bit_word_eqI) (auto simp: bit_simps)
  then show "pai_mem_is_pow2 (ucast align)"
    using assms by (simp add: pai_mem_is_pow2_def word_unat_eq_iff unat_ucast32)
qed

lemma arena_aligned_eq:
  assumes "align \<noteq> 0" "align AND (align - 1) = (0 :: u32)"
  shows "(cur + ucast align - 1) AND NOT (ucast (align - 1)) = pai_mem_align_up cur (ucast align)"
  using pow2_ucast [OF assms] by (simp add: pai_mem_align_up_def)

text \<open>When the rounding wraps around the address space the result is 0, below every region.\<close>

lemma align_up_wraps:
  assumes "pai_mem_is_pow2 a" "2 ^ 64 \<le> unat v + unat a - 1"
  shows "pai_mem_align_up v a = 0"
proof -
  obtain k where k: "k < 64" "unat a = 2 ^ k" using assms(1) by (auto simp: is_pow2_nat)
  then have a: "a = 2 ^ k" by (metis pow2_word word_unat_eq_iff)
  have pos: "1 \<le> unat v + unat a" using k one_le_power [of "2 :: nat" k] by linarith
  have "unat (v + a - 1) = unat v + unat a - 1 - 2 ^ 64"
  proof -
    have "v + a - 1 = of_nat (unat v + unat a - 1 - 2 ^ 64)"
    proof -
      have "(of_nat (unat v + unat a - 1 - 2 ^ 64) :: u64) =
          of_nat (unat v + unat a - 1 - 2 ^ 64 + 2 ^ 64)" by simp
      also have "\<dots> = of_nat (unat v + unat a - 1)" using assms(2) by simp
      also have "\<dots> = v + a - 1"
        using pos by (simp only: of_nat_diff of_nat_add) simp
      finally show ?thesis by simp
    qed
    moreover have "unat v + unat a - 1 - 2 ^ 64 < 2 ^ 64"
      using unsigned_less [of v, where 'a = nat] unsigned_less [of a, where 'a = nat] by simp
    ultimately show ?thesis by (simp add: unsigned_of_nat take_bit_nat_eq_self)
  qed
  also have "\<dots> < 2 ^ k"
  proof -
    have "unat v < 2 ^ 64" using unsigned_less [of v, where 'a = nat] by simp
    moreover have "(1 :: nat) \<le> 2 ^ k" by simp
    ultimately show ?thesis unfolding k(2) by linarith
  qed
  finally have "unat (pai_mem_align_up v a) = 0"
    using and_not_mask_nat [OF k(1), of "v + a - 1"] by (simp add: pai_mem_align_up_def a)
  then show ?thesis by (simp add: unat_eq_zero)
qed

lemma arena_alloc_cases:
  assumes inv: "arena_inv s" and al: "pai_arena_alloc s n a = (s', Some p)"
  shows "arena_inv s' \<and> unat a dvd unat p \<and> unat (base s) + unat (used s) \<le> unat p \<and>
    unat p + unat n = unat (base s) + unat (used s') \<and> base s' = base s \<and> size s' = size s"
proof -
  have a: "a \<noteq> 0" "a AND (a - 1) = 0"
    using al by (auto simp: pai_arena_alloc_def Let_def split: if_splits)
  let ?cur = "base s + used s"
  have p: "p = pai_mem_align_up ?cur (ucast a)" and s': "s' = s\<lparr>used := p - base s + n\<rparr>"
    and off: "p - base s \<le> size s" "n \<le> size s - (p - base s)"
    using al a by (auto simp: pai_arena_alloc_def Let_def arena_aligned_eq split: if_splits)
  have us: "unat (used s) \<le> unat (size s)" and b: "unat (base s) + unat (size s) < 2 ^ 64"
    and b0: "0 < unat (base s)"
    using inv by (auto simp: arena_inv_def word_le_nat_alt unat_gt_0)
  have cur: "unat ?cur = unat (base s) + unat (used s)"
    using us b by (simp add: unat_word_ariths)
  note pow = pow2_ucast(1) [OF a]
  have fits: "unat ?cur + unat (ucast a :: u64) - 1 < 2 ^ 64"
  proof (rule ccontr)
    assume "\<not> ?thesis"
    then have "p = 0" using align_up_wraps [OF pow, of ?cur] p by simp
    then have "unat (p - base s) = 2 ^ 64 - unat (base s)"
      using b0 by (simp add: unat_sub_if' del: diff_0)
    then show False using off(1) b by (simp add: word_le_nat_alt)
  qed
  have up: "unat p = align_up_nat (unat (base s) + unat (used s)) (unat a)"
    using align_up_unat [OF pow fits] p cur by (simp add: unat_ucast32)
  have a0: "0 < unat a" using a(1) by (simp add: unat_gt_0)
  have ge: "unat (base s) + unat (used s) \<le> unat p"
    using align_up_nat_ge [OF a0] up by simp
  then have o: "unat (p - base s) = unat p - unat (base s)"
    by (intro unat_sub) (simp add: word_le_nat_alt)
  have n: "unat n \<le> unat (size s) - (unat p - unat (base s))" "unat p - unat (base s) \<le> unat (size s)"
    using off o by (auto simp: word_le_nat_alt unat_sub)
  have u': "unat (p - base s + n) = unat p - unat (base s) + unat n"
    using o n b by (simp add: unat_word_ariths)
  show ?thesis
    using ge u' n us b b0 align_up_nat_dvd [of "unat a"] up inv
    by (auto simp: s' arena_inv_def word_le_nat_alt)
qed

interpretation arena: allocator
    "\<lambda>s n a. map_prod id (map_option unat) (pai_arena_alloc s n a)" arena_region arena_live
proof unfold_locales
  fix s M n a s' p
  assume live: "arena_live s M" and n: "0 < n"
    and al: "map_prod id (map_option unat) (pai_arena_alloc s n a) = (s', Some p)"
  obtain q where q: "pai_arena_alloc s n a = (s', Some q)" "p = unat q"
    using al by (cases "pai_arena_alloc s n a") auto
  note c = arena_alloc_cases [OF _ q(1)]
  have inv: "arena_inv s" using live by (simp add: arena_live_def)
  have out: "M r = Some m \<Longrightarrow> r + m \<le> p \<and> 0 < m" for r m
    using live c [OF inv] q(2) by (fastforce simp: arena_live_def)
  have "p \<notin> dom M" using out by fastforce
  moreover have "0 < unat n" using n by (simp add: word_less_nat_alt)
  then have "arena_live s' (M(p \<mapsto> unat n))"
    using live c [OF inv] q(2) out unfolding arena_live_def
    by (auto split: if_splits) fastforce+
  ultimately show "arena_live s' (M(p \<mapsto> unat n)) \<and> p \<notin> dom M \<and> unat a dvd p"
    using c [OF inv] q(2) by simp
next
  fix s M n a s'
  assume "arena_live s M" "map_prod id (map_option unat) (pai_arena_alloc s n a) = (s', None)"
  then show "arena_live s' M"
    by (auto simp: pai_arena_alloc_def Let_def split: if_splits)
next
  fix s n a s' r
  assume "map_prod id (map_option unat) (pai_arena_alloc s n a) = (s', r)"
  then show "arena_region s' = arena_region s"
    by (auto simp: pai_arena_alloc_def Let_def arena_region_def split: if_splits)
next
  fix s M p k
  assume live: "arena_live s M" and p: "M p = Some k"
  then have "unat (base s) \<le> p" "p + k \<le> unat (base s) + unat (used s)" "used s \<le> size s"
    by (auto simp: arena_live_def arena_inv_def)
  then show "{p ..< p + k} \<subseteq> arena_region s"
    by (auto simp: arena_region_def word_le_nat_alt)
qed (auto simp: arena_live_def)

section \<open>Properties\<close>

text \<open>Bump allocation: a successful allocation returns an address aligned as requested, at
  or after everything allocated so far, and accounts exactly for it; nothing outside the arena's
  region is ever handed out, even when the alignment arithmetic wraps around the address space.\<close>

theorem arena_alloc_sound:
  assumes "arena_inv s" and "pai_arena_alloc s n a = (s', Some p)"
  shows "arena_inv s' \<and> unat a dvd unat p \<and> unat (base s) + unat (used s) \<le> unat p \<and>
    unat p + unat n = unat (base s) + unat (used s') \<and> base s' = base s \<and> size s' = size s"
  by (rule arena_alloc_cases [OF assms])

definition demo_arena :: pai_arena where
  "demo_arena = pai_arena_init 0x1001 256"

theorem arena_alloc_sound_witness:
  "unat (64 :: u32) dvd unat (0x1040 :: u64) \<and>
   pai_arena_alloc demo_arena 10 64 = (demo_arena\<lparr>used := 73\<rparr>, Some 0x1040)"
proof -
  have e: "pai_arena_alloc demo_arena 10 64 = (demo_arena\<lparr>used := 73\<rparr>, Some 0x1040)"
    by (simp add: pai_arena_alloc_def demo_arena_def pai_arena_init_def)
  moreover have "arena_inv demo_arena"
    by (simp add: arena_inv_def demo_arena_def pai_arena_init_def)
  ultimately show ?thesis using arena_alloc_sound [OF _ e] by blast
qed

end
