(* ===== verification/Buddy.thy ===== *)
theory Buddy
  imports Alloc_Spec
begin

text \<open>
  \<^verbatim>\<open>memory/allocator.c\<close>: the buddy allocator. Addresses are natural numbers below \<open>2 ^ 64\<close>. The
  managed memory is a store of the cells the allocator itself reads and writes: the magic number
  and the order in each block header and the back pointer in front of each payload (\<open>buddy_heap\<close>).
  The chain of blocks that starts at \<open>free_lists[o]\<close> and runs through the \<open>next\<close> cells is the HOL
  list at index \<open>o\<close>. Sums are taken modulo \<open>2 ^ 64\<close> where the code adds 64-bit values.
\<close>

section \<open>State\<close>

definition PAI_BUDDY_MIN_SIZE :: u64 where "PAI_BUDDY_MIN_SIZE = 128"
definition PAI_BUDDY_MAX_ORDER :: nat where "PAI_BUDDY_MAX_ORDER = 30"
definition PAI_BUDDY_MAGIC_FREE :: u64 where "PAI_BUDDY_MAGIC_FREE = 0x4652454546414942"
definition PAI_BUDDY_MAGIC_ALLOC :: u64 where "PAI_BUDDY_MAGIC_ALLOC = 0x414C4C4F46414942"
definition PAI_BUDDY_HEADER :: nat where "PAI_BUDDY_HEADER = 32"

record buddy_heap =
  magic :: "nat \<Rightarrow> u64"
  order_cell :: "nat \<Rightarrow> nat"
  backptr :: "nat \<Rightarrow> nat"

record pai_buddy =
  base :: nat
  size :: nat
  max_order :: nat
  free_lists :: "nat list list"
  owned :: "nat option"
  used_bytes :: nat
  allocs :: u64
  frees :: u64
  splits :: u64
  merges :: u64
  heap :: buddy_heap

section \<open>Blocks and free lists\<close>

definition block_off :: "pai_buddy \<Rightarrow> nat \<Rightarrow> nat" where
  "block_off b block = block - base b"

definition block_is_free :: "buddy_heap \<Rightarrow> nat \<Rightarrow> nat \<Rightarrow> bool" where
  "block_is_free h block ord \<longleftrightarrow> magic h block = PAI_BUDDY_MAGIC_FREE \<and> order_cell h block = ord"

definition block_set_header :: "buddy_heap \<Rightarrow> nat \<Rightarrow> u64 \<Rightarrow> nat \<Rightarrow> buddy_heap" where
  "block_set_header h block mg ord =
     h\<lparr>magic := (magic h)(block := mg), order_cell := (order_cell h)(block := ord)\<rparr>"

definition free_list_push :: "pai_buddy \<Rightarrow> nat \<Rightarrow> nat \<Rightarrow> pai_buddy" where
  "free_list_push b ord block =
     b\<lparr>heap := block_set_header (heap b) block PAI_BUDDY_MAGIC_FREE ord,
       free_lists := (free_lists b)[ord := block # free_lists b ! ord]\<rparr>"

definition free_list_pop :: "pai_buddy \<Rightarrow> nat \<Rightarrow> pai_buddy \<times> nat option" where
  "free_list_pop b ord =
     (case free_lists b ! ord of
        [] \<Rightarrow> (b, None)
      | block # rest \<Rightarrow> (b\<lparr>free_lists := (free_lists b)[ord := rest]\<rparr>, Some block))"

definition free_list_remove :: "pai_buddy \<Rightarrow> nat \<Rightarrow> nat \<Rightarrow> pai_buddy" where
  "free_list_remove b ord block =
     b\<lparr>free_lists := (free_lists b)[ord := remove1 block (free_lists b ! ord)]\<rparr>"

section \<open>Set-up\<close>

text \<open>\<open>free_lists\<close> has \<open>PAI_BUDDY_MAX_ORDER + 1\<close> entries; storing to an index beyond them is a
  fault.\<close>

definition pai_buddy_init :: "buddy_heap \<Rightarrow> nat \<Rightarrow> u64 \<Rightarrow> pai_buddy res outcome" where
  "pai_buddy_init h memory n =
     (if memory = 0 \<or> \<not> pai_mem_is_pow2 n \<or> n < PAI_BUDDY_MIN_SIZE \<or> memory mod unat n \<noteq> 0
      then Returns (Inl PAI_ERR_INVALID_ARG)
      else
        (let b = \<lparr>base = memory, size = unat n, max_order = pai_mem_floor_log2 n,
                  free_lists = replicate (PAI_BUDDY_MAX_ORDER + 1) [], owned = None,
                  used_bytes = 0, allocs = 0, frees = 0, splits = 0, merges = 0, heap = h\<rparr>
         in if max_order b > PAI_BUDDY_MAX_ORDER then Fault
            else Returns (Inr (free_list_push b (max_order b) (base b)))))"

text \<open>\<open>raw\<close> is the result of \<open>malloc(2 * size)\<close>, 0 when it fails.\<close>

definition pai_buddy_init_owned :: "buddy_heap \<Rightarrow> nat \<Rightarrow> u64 \<Rightarrow> pai_buddy res outcome" where
  "pai_buddy_init_owned h raw n =
     (if \<not> pai_mem_is_pow2 n \<or> n < PAI_BUDDY_MIN_SIZE \<or> n > push_bit PAI_BUDDY_MAX_ORDER 1
      then Returns (Inl PAI_ERR_INVALID_ARG)
      else if unat n > (2 ^ 64 - 1) div 2 then Returns (Inl PAI_ERR_NOMEM)
      else if raw = 0 then Returns (Inl PAI_ERR_NOMEM)
      else
        (case pai_buddy_init h (raw + (unat n - raw mod unat n) mod unat n) n of
           Returns (Inr b) \<Rightarrow> Returns (Inr (b\<lparr>owned := Some raw\<rparr>))
         | r \<Rightarrow> r))"

definition pai_buddy_destroy :: "pai_buddy \<Rightarrow> pai_buddy" where
  "pai_buddy_destroy b = b\<lparr>owned := None\<rparr>"

section \<open>Allocation\<close>

definition alloc_order :: "u64 \<Rightarrow> u64 \<Rightarrow> nat" where
  "alloc_order n align =
     (let ord = pai_mem_ceil_log2 (n + align + of_nat PAI_BUDDY_HEADER)
      in if ord < 6 then 6 else ord)"

function find_order :: "pai_buddy \<Rightarrow> nat \<Rightarrow> nat" where
  "find_order b found =
     (if found \<le> max_order b \<and> free_lists b ! found = [] then find_order b (Suc found) else found)"
  by pat_completeness auto
termination
  by (relation "measure (\<lambda>(b, found). Suc (max_order b) - found)") auto

fun split_down :: "pai_buddy \<Rightarrow> nat \<Rightarrow> nat \<Rightarrow> nat \<Rightarrow> pai_buddy" where
  "split_down b block found ord =
     (if ord < found then
        (let f = found - 1;
             half = block + 2 ^ f;
             b1 = b\<lparr>heap := block_set_header (heap b) half PAI_BUDDY_MAGIC_FREE f\<rparr>;
             b2 = free_list_push b1 f half
         in split_down (b2\<lparr>splits := splits b2 + 1\<rparr>) block f ord)
      else b)"

definition pai_buddy_alloc :: "pai_buddy \<Rightarrow> u64 \<Rightarrow> u64 \<Rightarrow> pai_buddy \<times> nat option" where
  "pai_buddy_alloc b n align =
     (if n = 0 \<or> align = 0 \<or> \<not> pai_mem_is_pow2 align \<or> n > - 1 - align \<or>
         n + align > - 1 - of_nat PAI_BUDDY_HEADER
      then (b, None)
      else
        (let ord = alloc_order n align
         in if ord > max_order b then (b, None)
            else
              (let found = find_order b ord
               in if found > max_order b then (b, None)
                  else
                    (case free_list_pop b found of
                       (b1, None) \<Rightarrow> (b1, None)
                     | (b1, Some block) \<Rightarrow>
                         (let b2 = split_down b1 block found ord;
                              ptr = unat (pai_mem_align_up (of_nat (block + PAI_BUDDY_HEADER)) align);
                              h = block_set_header (heap b2) block PAI_BUDDY_MAGIC_ALLOC ord
                          in (b2\<lparr>heap := h\<lparr>backptr := (backptr h)(ptr - 8 := block)\<rparr>,
                                 used_bytes := (used_bytes b2 + 2 ^ ord) mod 2 ^ 64,
                                 allocs := allocs b2 + 1\<rparr>, Some ptr))))))"

section \<open>Release\<close>

function merge_up :: "pai_buddy \<Rightarrow> nat \<Rightarrow> nat \<Rightarrow> pai_buddy \<times> nat \<times> nat" where
  "merge_up b block ord =
     (if ord < max_order b then
        (let buddy_off = block_off b block XOR 2 ^ ord;
             buddy_block = base b + buddy_off
         in if buddy_off \<ge> size b \<or> \<not> block_is_free (heap b) buddy_block ord then (b, block, ord)
            else
              (let b1 = free_list_remove b ord buddy_block
               in merge_up (b1\<lparr>merges := merges b1 + 1\<rparr>)
                    (if buddy_block < block then buddy_block else block) (Suc ord)))
      else (b, block, ord))"
  by pat_completeness auto
termination
  by (relation "measure (\<lambda>(b, block, ord). max_order b - ord)") (auto simp: free_list_remove_def Let_def)

definition pai_buddy_free :: "pai_buddy \<Rightarrow> nat \<Rightarrow> pai_buddy" where
  "pai_buddy_free b ptr =
     (if ptr = 0 then b
      else
        (let block = backptr (heap b) (ptr - 8)
         in if block < base b \<or> block \<ge> base b + size b then b
            else if magic (heap b) block \<noteq> PAI_BUDDY_MAGIC_ALLOC then b
            else
              (let ord = order_cell (heap b) block;
                   b1 = b\<lparr>used_bytes := (used_bytes b + 2 ^ 64 - 2 ^ ord) mod 2 ^ 64,
                          frees := frees b + 1,
                          heap := block_set_header (heap b) block PAI_BUDDY_MAGIC_FREE ord\<rparr>
               in case merge_up b1 block ord of (b2, blk, o2) \<Rightarrow> free_list_push b2 o2 blk)))"

definition pai_buddy_used :: "pai_buddy \<Rightarrow> nat" where
  "pai_buddy_used b = used_bytes b"

definition pai_buddy_avail :: "pai_buddy \<Rightarrow> nat" where
  "pai_buddy_avail b = (size b + 2 ^ 64 - used_bytes b) mod 2 ^ 64"

declare find_order.simps [simp del] split_down.simps [simp del] merge_up.simps [simp del]

section \<open>Tilings\<close>

text \<open>A block \<open>(a, ord)\<close> is the interval of \<open>2 ^ ord\<close> bytes at \<open>a\<close>. A set of blocks tiles the
  region when every block is aligned to its size and inside, and every address of the region is in
  exactly one block.\<close>

type_synonym block = "nat \<times> nat"

definition in_block :: "nat \<Rightarrow> block \<Rightarrow> bool" where
  "in_block x blk \<longleftrightarrow> fst blk \<le> x \<and> x < fst blk + 2 ^ snd blk"

definition block_ok :: "nat \<Rightarrow> nat \<Rightarrow> block \<Rightarrow> bool" where
  "block_ok bs m blk \<longleftrightarrow> 6 \<le> snd blk \<and> snd blk \<le> m \<and> 2 ^ snd blk dvd fst blk \<and> bs \<le> fst blk \<and>
     fst blk + 2 ^ snd blk \<le> bs + 2 ^ m"

definition tiling :: "nat \<Rightarrow> nat \<Rightarrow> block set \<Rightarrow> bool" where
  "tiling bs m B \<longleftrightarrow> (\<forall>blk \<in> B. block_ok bs m blk) \<and>
     (\<forall>x. bs \<le> x \<and> x < bs + 2 ^ m \<longrightarrow> (\<exists>blk \<in> B. in_block x blk)) \<and>
     (\<forall>x. \<forall>blk \<in> B. \<forall>blk' \<in> B. in_block x blk \<longrightarrow> in_block x blk' \<longrightarrow> blk = blk')"

lemma block_ok_start:
  assumes "block_ok bs m (a, ord)"
  shows "bs \<le> a" "a < bs + 2 ^ m"
proof -
  have "bs \<le> a" "a + 2 ^ ord \<le> bs + 2 ^ m" using assms by (auto simp: block_ok_def)
  moreover have "(0 :: nat) < 2 ^ ord" by simp
  ultimately show "bs \<le> a" "a < bs + 2 ^ m" by linarith+
qed

lemma in_block_start [simp]: "in_block a (a, ord)"
  by (simp add: in_block_def)

lemma in_block_halves: "in_block x (a, Suc ord) \<longleftrightarrow> in_block x (a, ord) \<or> in_block x (a + 2 ^ ord, ord)"
  by (auto simp: in_block_def)

lemma halves_apart: "in_block x (a, ord) \<Longrightarrow> in_block x (a + 2 ^ ord, ord) \<Longrightarrow> False"
  by (simp add: in_block_def)

lemma tiling_overlap:
  "tiling bs m B \<Longrightarrow> blk \<in> B \<Longrightarrow> blk' \<in> B \<Longrightarrow> in_block x blk \<Longrightarrow> in_block x blk' \<Longrightarrow> blk = blk'"
  unfolding tiling_def by blast

lemma tiling_split:
  assumes t: "tiling bs m (insert (a, Suc ord) B)" and new: "(a, Suc ord) \<notin> B" and "6 \<le> ord"
  shows "tiling bs m (insert (a, ord) (insert (a + 2 ^ ord, ord) B))"
    and "(a, ord) \<notin> B" and "(a + 2 ^ ord, ord) \<notin> B"
proof -
  have ok: "block_ok bs m (a, Suc ord)" "\<And>blk. blk \<in> B \<Longrightarrow> block_ok bs m blk"
    using t by (auto simp: tiling_def)
  have apart: False if "blk \<in> B" "in_block x blk" "in_block x (a, Suc ord)" for blk x
    using tiling_overlap [OF t, of blk "(a, Suc ord)" x] that new by auto
  have apart': False if "blk \<in> B" "in_block x blk" "in_block x (a, ord) \<or> in_block x (a + 2 ^ ord, ord)"
    for blk x using apart [OF that(1,2)] that(3) by (simp add: in_block_halves)
  show "(a, ord) \<notin> B" "(a + 2 ^ ord, ord) \<notin> B"
    using apart' [of "(a, ord)" a] apart' [of "(a + 2 ^ ord, ord)" "a + 2 ^ ord"] by auto
  have halves: "block_ok bs m (a, ord)" "block_ok bs m (a + 2 ^ ord, ord)"
    using ok(1) assms(3) by (auto simp: block_ok_def elim: dvd_trans [rotated] intro: dvd_add)
  show "tiling bs m (insert (a, ord) (insert (a + 2 ^ ord, ord) B))"
    unfolding tiling_def
  proof (intro conjI ballI allI impI)
    fix x assume "bs \<le> x \<and> x < bs + 2 ^ m"
    then obtain blk where "blk \<in> insert (a, Suc ord) B" "in_block x blk"
      using t unfolding tiling_def by blast
    then show "\<exists>blk \<in> insert (a, ord) (insert (a + 2 ^ ord, ord) B). in_block x blk"
      by (auto simp: in_block_halves)
  next
    fix x blk blk'
    assume "blk \<in> insert (a, ord) (insert (a + 2 ^ ord, ord) B)"
      "blk' \<in> insert (a, ord) (insert (a + 2 ^ ord, ord) B)" "in_block x blk" "in_block x blk'"
    then show "blk = blk'"
      using apart' [of blk x] apart' [of blk' x] halves_apart [of x a ord]
        tiling_overlap [OF t, of blk blk' x] by blast
  qed (use ok halves in auto)
qed

lemma tiling_join:
  assumes t: "tiling bs m (insert (a, ord) (insert (a + 2 ^ ord, ord) B))"
    and new: "(a, ord) \<notin> B" "(a + 2 ^ ord, ord) \<notin> B" and al: "2 ^ Suc ord dvd a" and "Suc ord \<le> m"
  shows "tiling bs m (insert (a, Suc ord) B)" and "(a, Suc ord) \<notin> B"
proof -
  have ok: "block_ok bs m (a, ord)" "block_ok bs m (a + 2 ^ ord, ord)"
    "\<And>blk. blk \<in> B \<Longrightarrow> block_ok bs m blk"
    using t by (auto simp: tiling_def)
  have apart: False if "blk \<in> B" "in_block x blk" "in_block x (a, Suc ord)" for blk x
    using tiling_overlap [OF t, of blk "(a, ord)" x] tiling_overlap [OF t, of blk "(a + 2 ^ ord, ord)" x]
      that new by (auto simp: in_block_halves)
  show "(a, Suc ord) \<notin> B" using apart [of "(a, Suc ord)" a] by auto
  have joined: "block_ok bs m (a, Suc ord)"
    using ok(1,2) al assms(5) by (auto simp: block_ok_def)
  show "tiling bs m (insert (a, Suc ord) B)"
    unfolding tiling_def
  proof (intro conjI ballI allI impI)
    fix x assume "bs \<le> x \<and> x < bs + 2 ^ m"
    then obtain blk where "blk \<in> insert (a, ord) (insert (a + 2 ^ ord, ord) B)" "in_block x blk"
      using t unfolding tiling_def by blast
    then show "\<exists>blk \<in> insert (a, Suc ord) B. in_block x blk"
      by (auto simp: in_block_halves)
  next
    fix x blk blk'
    assume "blk \<in> insert (a, Suc ord) B" "blk' \<in> insert (a, Suc ord) B"
      "in_block x blk" "in_block x blk'"
    then show "blk = blk'"
      using apart [of blk x] apart [of blk' x] tiling_overlap [OF t, of blk blk' x] by blast
  qed (use ok joined in auto)
qed

section \<open>Siblings\<close>

lemma xor_pow2:
  assumes "2 ^ k dvd (x :: nat)"
  shows "x XOR 2 ^ k = (if 2 ^ Suc k dvd x then x + 2 ^ k else x - 2 ^ k)"
proof -
  obtain y where y: "x = 2 ^ k * y" using assms by blast
  have "x XOR 2 ^ k = push_bit k (y XOR 1)"
    unfolding push_bit_xor by (simp add: y push_bit_eq_mult mult.commute)
  moreover have "y XOR 1 = (if even y then y + 1 else y - 1)"
    using xor_one_eq [of y] by (cases "even y") simp_all
  moreover have "2 ^ Suc k dvd x \<longleftrightarrow> even y"
    by (simp add: y mult.commute)
  ultimately show ?thesis
    by (simp add: y push_bit_eq_mult algebra_simps diff_mult_distrib2)
qed

lemma dyadic_start:
  assumes "2 ^ p dvd (d :: nat)" "2 ^ p dvd x" "d \<le> x" "x < d + 2 ^ p"
  shows "d = x"
proof -
  have "2 ^ p dvd x - d" using assms by simp
  moreover have "x - d < 2 ^ p" using assms by linarith
  ultimately show ?thesis using assms(3) by (auto dest: dvd_imp_le)
qed

lemma dyadic_nested:
  assumes "q \<le> p" "2 ^ p dvd (d :: nat)" "2 ^ q dvd lo" "d \<le> x" "x < d + 2 ^ p" "lo \<le> x" "x < lo + 2 ^ q"
  shows "d \<le> lo \<and> lo + 2 ^ q \<le> d + 2 ^ p"
proof -
  have dq: "2 ^ q dvd d" "(2 :: nat) ^ q dvd 2 ^ p"
    using assms(1,2) by (auto intro: power_le_dvd le_imp_power_dvd)
  obtain i where i: "lo = 2 ^ q * i" using assms(3) by blast
  obtain j where j: "d = 2 ^ q * j" using dq(1) by blast
  obtain k where k: "(2 :: nat) ^ p = 2 ^ q * k" using dq(2) by blast
  have "2 ^ q * j < 2 ^ q * (i + 1)" "2 ^ q * i < 2 ^ q * (j + k)"
    using assms(4-7) i j k by (simp_all add: algebra_simps)
  then have "j < i + 1" "i < j + k" by (metis mult_less_cancel1)+
  then have "j \<le> i" "i + 1 \<le> j + k" by simp_all
  then have "2 ^ q * j \<le> 2 ^ q * i" "2 ^ q * (i + 1) \<le> 2 ^ q * (j + k)"
    by (simp_all only: mult_le_mono2)
  then show ?thesis by (simp add: i j k algebra_simps)
qed

lemma sibling_cases:
  assumes al: "2 ^ m dvd (bs :: nat)" and "ord < m" and a: "2 ^ ord dvd a" "bs \<le> a" "a + 2 ^ ord \<le> bs + 2 ^ m"
  obtains (left) "bs + ((a - bs) XOR 2 ^ ord) = a + 2 ^ ord" "2 ^ Suc ord dvd a"
      "a + 2 ^ Suc ord \<le> bs + 2 ^ m"
  | (right) c where "bs + ((a - bs) XOR 2 ^ ord) = c" "a = c + 2 ^ ord" "2 ^ Suc ord dvd c" "bs \<le> c"
proof -
  have d: "2 ^ Suc ord dvd bs" "2 ^ ord dvd bs"
    using power_le_dvd [OF al, of "Suc ord"] power_le_dvd [OF al, of ord] assms(2) by simp_all
  have "2 ^ ord dvd a - bs" using a(1) d(2) by (simp add: dvd_diff_nat)
  note x = xor_pow2 [OF this]
  show thesis
  proof (cases "2 ^ Suc ord dvd a - bs")
    case True
    then have dv: "2 ^ Suc ord dvd a" using d(1) a(2) by (metis dvd_diffD)
    obtain i where i: "a - bs = 2 ^ Suc ord * i" using True by blast
    obtain j where j: "(2 :: nat) ^ m = 2 ^ Suc ord * j"
      using assms(2) by (metis Suc_leI dvdE le_imp_power_dvd)
    have "(0 :: nat) < 2 ^ ord" by simp
    then have "a - bs < 2 ^ m" using a(2,3) by linarith
    then have "2 ^ Suc ord * i < 2 ^ Suc ord * j" by (simp only: i j)
    then have "Suc i \<le> j" by simp
    then have "2 ^ Suc ord * Suc i \<le> 2 ^ Suc ord * j" by (rule mult_le_mono2)
    then have "a + 2 ^ Suc ord \<le> bs + 2 ^ m" using i j a(2) by simp
    then show ?thesis using left x True dv a(2) by simp
  next
    case False
    have ge: "2 ^ ord \<le> a - bs"
    proof (rule ccontr)
      assume "\<not> ?thesis"
      with \<open>2 ^ ord dvd a - bs\<close> have "a - bs = 0" by (meson dvd_imp_le not_gr_zero)
      with False show False by simp
    qed
    have odd: "2 ^ Suc ord dvd (a - bs) - 2 ^ ord"
    proof -
      obtain i where i: "a - bs = 2 ^ ord * i" using \<open>2 ^ ord dvd a - bs\<close> by blast
      then have "odd i" using False by (simp add: mult.commute)
      then obtain h where "i = 2 * h + 1" by (auto elim: oddE)
      then show ?thesis using i by (simp add: algebra_simps)
    qed
    then have "2 ^ Suc ord dvd a - 2 ^ ord"
    proof -
      have "a - 2 ^ ord = bs + ((a - bs) - 2 ^ ord)" using ge a(2) by simp
      then show ?thesis using odd d(1) by simp
    qed
    then show ?thesis
      using right [of "a - 2 ^ ord"] x False ge a(2) by simp
  qed
qed

section \<open>The allocator invariant\<close>

definition free_set :: "pai_buddy \<Rightarrow> block set" where
  "free_set b = {(a, ord). ord < length (free_lists b) \<and> a \<in> set (free_lists b ! ord)}"

text \<open>\<open>A\<close>: the allocated blocks, \<open>X\<close>: blocks in flight inside an operation, neither listed
  nor allocated. Together with the listed blocks they tile the region, and every listed or
  allocated block carries its header.\<close>

definition geometry :: "pai_buddy \<Rightarrow> bool" where
  "geometry b \<longleftrightarrow> size b = 2 ^ max_order b \<and> 7 \<le> max_order b \<and> max_order b \<le> 30 \<and>
     2 ^ max_order b dvd base b \<and> 0 < base b \<and> base b + size b < 2 ^ 64 \<and>
     length (free_lists b) = 31 \<and> (\<forall>l \<in> set (free_lists b). distinct l)"

definition core :: "pai_buddy \<Rightarrow> block set \<Rightarrow> block set \<Rightarrow> bool" where
  "core b A X \<longleftrightarrow> geometry b \<and> X \<inter> (free_set b \<union> A) = {} \<and>
     tiling (base b) (max_order b) (X \<union> (free_set b \<union> A)) \<and>
     (\<forall>blk \<in> free_set b. block_is_free (heap b) (fst blk) (snd blk)) \<and>
     (\<forall>blk \<in> A. magic (heap b) (fst blk) = PAI_BUDDY_MAGIC_ALLOC \<and>
        order_cell (heap b) (fst blk) = snd blk)"

text \<open>What the list and header operations leave alone.\<close>

definition same_frame :: "pai_buddy \<Rightarrow> pai_buddy \<Rightarrow> bool" where
  "same_frame b b' \<longleftrightarrow> base b' = base b \<and> size b' = size b \<and> max_order b' = max_order b \<and>
     used_bytes b' = used_bytes b \<and> backptr (heap b') = backptr (heap b)"

lemma same_frame_refl [simp]: "same_frame b b" by (simp add: same_frame_def)

lemma same_frame_trans: "same_frame a b \<Longrightarrow> same_frame b c \<Longrightarrow> same_frame a c"
  by (simp add: same_frame_def)

lemma same_frame_ops [simp]:
  "same_frame b (free_list_push b ord a)" "same_frame b (free_list_remove b ord a)"
  "same_frame b (b\<lparr>splits := n\<rparr>)" "same_frame b (b\<lparr>merges := n\<rparr>)"
  by (simp_all add: same_frame_def free_list_push_def free_list_remove_def block_set_header_def)

lemma free_set_push: "ord < length (free_lists b) \<Longrightarrow>
    free_set (free_list_push b ord a) = insert (a, ord) (free_set b)"
  by (auto simp: free_set_def free_list_push_def nth_list_update split: if_splits)

lemma free_set_remove:
  assumes "geometry b"
  shows "free_set (free_list_remove b ord a) = free_set b - {(a, ord)}"
proof -
  have "distinct (free_lists b ! i)" if "i < length (free_lists b)" for i
    using assms that by (auto simp: geometry_def)
  then show ?thesis
    by (cases "ord < length (free_lists b)")
      (auto simp: free_set_def free_list_remove_def nth_list_update split: if_splits)
qed

lemma magic_neq: "PAI_BUDDY_MAGIC_FREE \<noteq> PAI_BUDDY_MAGIC_ALLOC"
  by (simp add: PAI_BUDDY_MAGIC_FREE_def PAI_BUDDY_MAGIC_ALLOC_def)

lemma core_headers:
  assumes "core b A X"
  shows "(a, ord) \<in> free_set b \<Longrightarrow> magic (heap b) a = PAI_BUDDY_MAGIC_FREE"
    "(a, ord) \<in> free_set b \<Longrightarrow> order_cell (heap b) a = ord"
    "(a, ord) \<in> A \<Longrightarrow> magic (heap b) a = PAI_BUDDY_MAGIC_ALLOC"
    "(a, ord) \<in> A \<Longrightarrow> order_cell (heap b) a = ord"
  using assms by (force simp: core_def block_is_free_def)+

lemma core_counters [simp]:
  "core (b\<lparr>splits := n\<rparr>) A X = core b A X" "core (b\<lparr>merges := n\<rparr>) A X = core b A X"
  "core (b\<lparr>used_bytes := k, allocs := n\<rparr>) A X = core b A X"
  "core (b\<lparr>used_bytes := k, frees := n\<rparr>) A X = core b A X"
  by (simp_all add: core_def geometry_def free_set_def)

lemma core_overlap:
  assumes "core b A X" "blk \<in> X \<union> (free_set b \<union> A)" "blk' \<in> X \<union> (free_set b \<union> A)" "fst blk = fst blk'"
  shows "blk = blk'"
  using tiling_overlap [of "base b" "max_order b" _ blk blk' "fst blk"] assms
  by (auto simp: core_def in_block_def)

lemma core_order: "core b A X \<Longrightarrow> blk \<in> X \<union> (free_set b \<union> A) \<Longrightarrow> block_ok (base b) (max_order b) blk"
  by (auto simp: core_def tiling_def)

lemma geometry_lists:
  assumes "geometry b" "length ls = length (free_lists b)" "\<forall>l \<in> set ls. distinct l"
  shows "geometry (b\<lparr>free_lists := ls, heap := h\<rparr>)"
  using assms by (simp add: geometry_def)

lemma core_push:
  assumes c: "core b A (insert (a, ord) X)" and new: "(a, ord) \<notin> X"
  shows "core (free_list_push b ord a) A X"
proof -
  have g: "geometry b" using c by (simp add: core_def)
  have "block_ok (base b) (max_order b) (a, ord)" using core_order [OF c] by simp
  then have o: "ord < length (free_lists b)" using g by (simp add: block_ok_def geometry_def)
  have out: "(a, ord) \<notin> free_set b \<union> A" using c by (auto simp: core_def)
  have keep: "fst blk \<noteq> a" if "blk \<in> free_set b \<union> A" for blk
    using core_overlap [OF c, of blk "(a, ord)"] that out by auto
  have d: "\<forall>l \<in> set ((free_lists b)[ord := a # free_lists b ! ord]). distinct l"
    using g o out
    by (auto simp: geometry_def free_set_def dest!: set_update_subset_insert [THEN subsetD])
  have g': "geometry (free_list_push b ord a)"
    using geometry_lists [OF g _ d] by (simp add: free_list_push_def geometry_def)
  have h: "magic (heap (free_list_push b ord a)) x = (if x = a then PAI_BUDDY_MAGIC_FREE else magic (heap b) x)"
    "order_cell (heap (free_list_push b ord a)) x = (if x = a then ord else order_cell (heap b) x)" for x
    by (simp_all add: free_list_push_def block_set_header_def)
  have u: "X \<union> (free_set (free_list_push b ord a) \<union> A) = insert (a, ord) X \<union> (free_set b \<union> A)"
    using free_set_push [OF o] by auto
  show ?thesis
    unfolding core_def u
    using c g' keep new free_set_push [OF o, of a]
    by (auto simp: core_def block_is_free_def h same_frame_ops(1) [unfolded same_frame_def])
qed

lemma core_unlist:
  assumes c: "core b A X" and f: "(a, ord) \<in> free_set b"
  shows "core (free_list_remove b ord a) A (insert (a, ord) X)"
proof -
  have g: "geometry b" using c by (simp add: core_def)
  have na: "(a, ord) \<notin> A" "(a, ord) \<notin> X"
    using core_headers(1) [OF c f] core_headers(3) [OF c, of a ord] magic_neq f c
    by (auto simp: core_def)
  have d: "\<forall>l \<in> set ((free_lists b)[ord := remove1 a (free_lists b ! ord)]). distinct l"
    using g f
    by (auto simp: geometry_def free_set_def dest!: set_update_subset_insert [THEN subsetD])
  have g': "geometry (free_list_remove b ord a)"
    using geometry_lists [OF g _ d] by (simp add: free_list_remove_def geometry_def)
  have u: "insert (a, ord) X \<union> (free_set (free_list_remove b ord a) \<union> A) = X \<union> (free_set b \<union> A)"
    using free_set_remove [OF g] f by auto
  show ?thesis
    unfolding core_def u
    using c g' na free_set_remove [OF g]
    by (auto simp: core_def free_list_remove_def)
qed

section \<open>Splitting and merging\<close>

lemma push_after_header:
  "free_list_push (b\<lparr>heap := block_set_header (heap b) a PAI_BUDDY_MAGIC_FREE ord\<rparr>) ord a =
   free_list_push b ord a"
  by (simp add: free_list_push_def block_set_header_def)

lemma core_flight_split:
  assumes c: "core b A {(a, Suc ord)}" and "6 \<le> ord"
  shows "core b A {(a, ord), (a + 2 ^ ord, ord)}"
proof -
  have t: "tiling (base b) (max_order b) (insert (a, Suc ord) (free_set b \<union> A))"
    and n: "(a, Suc ord) \<notin> free_set b \<union> A"
    using c by (auto simp: core_def)
  show ?thesis
    using tiling_split [OF t n assms(2)] c by (auto simp: core_def)
qed

lemma split_down_core:
  assumes "core b A {(block, found)}" "6 \<le> ord" "ord \<le> found"
  shows "core (split_down b block found ord) A {(block, ord)} \<and>
    same_frame b (split_down b block found ord)"
  using assms
proof (induction "found - ord" arbitrary: b found)
  case 0
  then show ?case by (simp add: split_down.simps)
next
  case (Suc n)
  define f where "f = found - 1"
  have f: "found = Suc f" "ord \<le> f" "n = f - ord" using Suc.hyps(2) by (auto simp: f_def)
  let ?b2 = "free_list_push b f (block + 2 ^ f)"
  have "core b A {(block + 2 ^ f, f), (block, f)}"
    using core_flight_split [of b A block f] Suc.prems f by (simp add: insert_commute)
  then have 2: "core ?b2 A {(block, f)}" by (rule core_push) simp
  have "core (?b2\<lparr>splits := splits ?b2 + 1\<rparr>) A {(block, f)}" using 2 by simp
  from Suc.hyps(1) [OF f(3) this Suc.prems(2) f(2)]
  have "core (split_down (?b2\<lparr>splits := splits ?b2 + 1\<rparr>) block f ord) A {(block, ord)}"
    "same_frame b (split_down (?b2\<lparr>splits := splits ?b2 + 1\<rparr>) block f ord)"
    using same_frame_trans [OF same_frame_trans [OF same_frame_ops(1) same_frame_ops(3)]] by blast+
  moreover have "split_down b block found ord =
      split_down (?b2\<lparr>splits := splits ?b2 + 1\<rparr>) block f ord"
    using f Suc.hyps(2) by (subst split_down.simps) (simp add: Let_def push_after_header)
  ultimately show ?case by simp
qed

text \<open>The address of a block's sibling always starts a block, no larger than the sibling.\<close>

lemma sibling_block:
  assumes t: "tiling bs m B" and mem: "(a, ord) \<in> B" and al: "2 ^ m dvd bs" and "ord < m"
    and bb: "bb = bs + ((a - bs) XOR 2 ^ ord)"
  shows "bb \<noteq> a" and "\<exists>p \<le> ord. (bb, p) \<in> B"
proof -
  have ok: "2 ^ ord dvd a" "bs \<le> a" "a + 2 ^ ord \<le> bs + 2 ^ m"
    using t mem by (auto simp: tiling_def block_ok_def)
  obtain lo where lo: "2 ^ Suc ord dvd lo" "{lo, lo + 2 ^ ord} = {a, bb}" "a \<noteq> bb"
    "bs \<le> bb" "bb < bs + 2 ^ m"
  proof (rule sibling_cases [OF al assms(4) ok])
    assume l: "bs + ((a - bs) XOR 2 ^ ord) = a + 2 ^ ord" "2 ^ Suc ord dvd a"
      "a + 2 ^ Suc ord \<le> bs + 2 ^ m"
    moreover have "a + 2 ^ ord < bs + 2 ^ m"
      using l(3) zero_less_power [of "2 :: nat" ord] unfolding power_Suc by linarith
    ultimately show thesis using that [of a] ok(2) bb by simp
  next
    fix c
    assume r: "bs + ((a - bs) XOR 2 ^ ord) = c" "a = c + 2 ^ ord" "2 ^ Suc ord dvd c" "bs \<le> c"
    moreover have "c < bs + 2 ^ m"
      using r(2) ok(3) zero_less_power [of "2 :: nat" ord] by linarith
    ultimately show thesis using that [of c] bb by (simp add: insert_commute)
  qed
  then show "bb \<noteq> a" by simp
  obtain d p where dp: "(d, p) \<in> B" "in_block bb (d, p)"
    using t lo(4,5) unfolding tiling_def by (metis surj_pair)
  have okd: "2 ^ p dvd d" using t dp(1) by (auto simp: tiling_def block_ok_def)
  have le: "p \<le> ord"
  proof (rule ccontr)
    assume np: "\<not> p \<le> ord"
    then have sp: "Suc ord \<le> p" by simp
    have "lo \<le> bb" "bb < lo + 2 ^ Suc ord" using lo(2) by (auto simp: doubleton_eq_iff)
    then have "in_block lo (d, p) \<and> in_block (lo + 2 ^ ord) (d, p)"
      using dyadic_nested [of "Suc ord" p d lo bb] dp(2) okd lo(1) sp by (auto simp: in_block_def)
    then have "in_block a (d, p)" using lo(2) by (auto simp: doubleton_eq_iff)
    then have "(d, p) = (a, ord)" using tiling_overlap [OF t dp(1) mem] by simp
    then show False using np by simp
  qed
  moreover have "2 ^ ord dvd bb"
    using power_le_dvd [OF lo(1), of ord] lo(2) by (auto simp: doubleton_eq_iff)
  ultimately have "2 ^ p dvd bb" using power_le_dvd by blast
  then have "d = bb" using dyadic_start [of p d bb] okd dp(2) by (simp add: in_block_def)
  then show "\<exists>p \<le> ord. (bb, p) \<in> B" using dp(1) le by blast
qed

text \<open>So a block whose sibling's address carries a free header of the same order has that sibling
  on the free list: the header there is a real one.\<close>

lemma sibling_listed:
  assumes c: "core b A {(block, ord)}" and "ord < max_order b"
    and bb: "bb = base b + (block_off b block XOR 2 ^ ord)"
    and free: "block_is_free (heap b) bb ord"
  shows "(bb, ord) \<in> free_set b"
proof -
  have t: "tiling (base b) (max_order b) ({(block, ord)} \<union> (free_set b \<union> A))"
    and al: "2 ^ max_order b dvd base b"
    using c by (auto simp: core_def geometry_def)
  have mem: "(block, ord) \<in> {(block, ord)} \<union> (free_set b \<union> A)" by simp
  from sibling_block [OF t mem al assms(2) bb [unfolded block_off_def]] obtain p where
    p: "(bb, p) \<in> {(block, ord)} \<union> (free_set b \<union> A)" "bb \<noteq> block"
    by blast
  have m: "magic (heap b) bb = PAI_BUDDY_MAGIC_FREE" "order_cell (heap b) bb = ord"
    using free by (auto simp: block_is_free_def)
  have "(bb, p) \<in> free_set b"
    using p core_headers(3) [OF c, of bb p] m(1) magic_neq by auto
  then show ?thesis using core_headers(2) [OF c] m(2) by blast
qed

lemma merge_step_core:
  assumes c: "core b A {(block, ord)}" and "ord < max_order b"
    and bb: "bb = base b + (block_off b block XOR 2 ^ ord)"
    and f: "(bb, ord) \<in> free_set b"
  shows "core (free_list_remove b ord bb) A {(if bb < block then bb else block, Suc ord)}"
proof -
  let ?b1 = "free_list_remove b ord bb"
  have c1: "core ?b1 A {(bb, ord), (block, ord)}" using core_unlist [OF c f] .
  have g: "geometry b" using c by (simp add: core_def)
  have eq: "base ?b1 = base b" "max_order ?b1 = max_order b" by (simp_all add: free_list_remove_def)
  have ok: "block_ok (base b) (max_order b) (block, ord)" using core_order [OF c] by simp
  then have a: "2 ^ ord dvd block" "base b \<le> block" "block + 2 ^ ord \<le> base b + 2 ^ max_order b"
    by (auto simp: block_ok_def)
  have al: "2 ^ max_order b dvd base b" using g by (simp add: geometry_def)
  have t: "tiling (base b) (max_order b) ({(bb, ord), (block, ord)} \<union> (free_set ?b1 \<union> A))"
    and n: "(bb, ord) \<notin> free_set ?b1 \<union> A" "(block, ord) \<notin> free_set ?b1 \<union> A"
    using c1 eq by (auto simp: core_def)
  have join: "core ?b1 A {(lo, Suc ord)}"
    if lo: "{(lo, ord), (lo + 2 ^ ord, ord)} = {(bb, ord), (block, ord)}" "2 ^ Suc ord dvd lo" for lo
  proof -
    have t': "tiling (base b) (max_order b) (insert (lo, ord) (insert (lo + 2 ^ ord, ord) (free_set ?b1 \<union> A)))"
      using t lo(1) by (metis insert_is_Un Un_assoc)
    have "(lo, ord) \<notin> free_set ?b1 \<union> A" "(lo + 2 ^ ord, ord) \<notin> free_set ?b1 \<union> A"
      using n lo(1) by (auto simp: doubleton_eq_iff)
    from tiling_join [OF t' this lo(2)] show ?thesis
      using c1 eq assms(2) by (auto simp: core_def)
  qed
  show ?thesis
  proof (rule sibling_cases [OF al assms(2) a])
    assume l: "base b + ((block - base b) XOR 2 ^ ord) = block + 2 ^ ord" "2 ^ Suc ord dvd block"
    then show ?thesis using join [of block] bb by (simp add: block_off_def insert_commute)
  next
    fix d
    assume r: "base b + ((block - base b) XOR 2 ^ ord) = d" "block = d + 2 ^ ord" "2 ^ Suc ord dvd d"
    then show ?thesis using join [of d] bb by (simp add: block_off_def insert_commute)
  qed
qed

lemma merge_up_core:
  assumes "core b A {(block, ord)}" "merge_up b block ord = (b', block', ord')"
  shows "core b' A {(block', ord')} \<and> same_frame b b'"
  using assms
proof (induction b block ord rule: merge_up.induct)
  case (1 b block ord)
  define off where "off = block_off b block XOR 2 ^ ord"
  define bb where "bb = base b + off"
  show ?case
  proof (cases "ord < max_order b \<and> off < size b \<and> block_is_free (heap b) bb ord")
    case False
    then have "merge_up b block ord = (b, block, ord)"
      by (subst merge_up.simps) (auto simp: off_def bb_def Let_def)
    then show ?thesis using 1 by simp
  next
    case True
    let ?b1 = "(free_list_remove b ord bb)\<lparr>merges := merges (free_list_remove b ord bb) + 1\<rparr>"
    have m: "merge_up b block ord = merge_up ?b1 (if bb < block then bb else block) (Suc ord)"
      using True by (subst merge_up.simps) (simp add: off_def bb_def Let_def)
    have "(bb, ord) \<in> free_set b"
      using sibling_listed [OF "1.prems"(1), of bb] True by (simp add: bb_def off_def)
    from merge_step_core [OF "1.prems"(1) _ _ this]
    have "core ?b1 A {(if bb < block then bb else block, Suc ord)}"
      using True by (simp add: bb_def off_def)
    then have "core b' A {(block', ord')} \<and> same_frame ?b1 b'"
      using "1.IH" [of off bb "free_list_remove b ord bb"] True m "1.prems"(2)
      by (simp add: bb_def off_def)
    then show ?thesis
      using same_frame_trans [OF same_frame_trans [OF same_frame_ops(2) same_frame_ops(4)]] by blast
  qed
qed

section \<open>Requests\<close>

lemma ceil_log2_loop_fits:
  assumes "unat p = 2 ^ ord" "ord \<le> 63"
  shows "ceil_log2_loop v p ord < 63 \<longrightarrow> unat v \<le> 2 ^ ceil_log2_loop v p ord"
  using assms
proof (induction v p ord rule: ceil_log2_loop.induct)
  case (1 v p ord)
  show ?case
  proof (cases "p < v \<and> ord < 63")
    case True
    have "unat (push_bit 1 p) = 2 ^ Suc ord"
    proof -
      have "p = 2 ^ ord" using "1.prems"(1) True pow2_word [of ord] by (simp add: word_unat_eq_iff)
      then have "push_bit 1 p = 2 ^ Suc ord" by (simp add: push_bit_eq_mult mult.commute)
      then show ?thesis using True pow2_word [of "Suc ord"] by simp
    qed
    then show ?thesis using "1.IH" [OF True] True by (simp add: ceil_log2_loop.simps [of v p])
  next
    case False
    then show ?thesis
      using "1.prems" by (auto simp: ceil_log2_loop.simps [of v p] word_less_nat_alt not_less)
  qed
qed

lemma alloc_order_fits:
  assumes "alloc_order n align < 63" "\<not> n > - 1 - align" "\<not> n + align > - 1 - of_nat PAI_BUDDY_HEADER"
  shows "unat n + unat align + 32 \<le> 2 ^ alloc_order n align" "6 \<le> alloc_order n align"
proof -
  have "unat n \<le> unat (- 1 - align)" using assms(2) by (simp add: word_le_nat_alt not_less)
  moreover have "unat (- 1 - align) = 2 ^ 64 - 1 - unat align"
    using unat_sub [of align "- 1"] by (simp add: unsigned_minus_1_eq_mask mask_eq_exp_minus_1)
  ultimately have s: "unat (n + align) = unat n + unat align"
    using unsigned_less [of align, where 'a = nat] by (subst unat_add_lem [THEN iffD1]) auto
  have "unat (n + align) \<le> unat (- 1 - (32 :: u64))"
    using assms(3) by (simp add: word_le_nat_alt not_less PAI_BUDDY_HEADER_def)
  moreover have "unat (- 1 - (32 :: u64)) = 2 ^ 64 - 33" by simp
  ultimately have t: "unat (n + align + 32) = unat n + unat align + 32"
    using s by (subst unat_add_lem [THEN iffD1]) auto
  let ?c = "pai_mem_ceil_log2 (n + align + 32)"
  have "?c < 63" using assms(1) by (auto simp: alloc_order_def PAI_BUDDY_HEADER_def Let_def split: if_splits)
  moreover have "n + align + 32 \<noteq> 0" using t by (auto simp: unat_eq_0 [symmetric] simp del: unat_eq_0)
  ultimately have "unat (n + align + 32) \<le> 2 ^ ?c"
    using ceil_log2_loop_fits [of 1 0 "n + align + 32"] by (simp add: pai_mem_ceil_log2_def)
  moreover have "(2 :: nat) ^ ?c \<le> 2 ^ alloc_order n align"
    by (rule power_increasing) (auto simp: alloc_order_def PAI_BUDDY_HEADER_def Let_def)
  ultimately show "unat n + unat align + 32 \<le> 2 ^ alloc_order n align" using t by linarith
  show "6 \<le> alloc_order n align" by (simp add: alloc_order_def Let_def)
qed

lemma find_order_spec:
  "ord \<le> find_order b ord \<and> (\<forall>i. ord \<le> i \<and> i < find_order b ord \<longrightarrow> free_lists b ! i = []) \<and>
   (find_order b ord \<le> max_order b \<longrightarrow> free_lists b ! find_order b ord \<noteq> [])"
proof (induction b ord rule: find_order.induct)
  case (1 b ord)
  show ?case
  proof (cases "ord \<le> max_order b \<and> free_lists b ! ord = []")
    case True
    then have "find_order b ord = find_order b (Suc ord)" by (subst find_order.simps) simp
    moreover have "free_lists b ! i = []" if "ord \<le> i" "i < find_order b (Suc ord)" for i
      using "1.IH" [OF True] that True by (cases "i = ord") auto
    ultimately show ?thesis using "1.IH" [OF True] by auto
  next
    case False
    then have "find_order b ord = ord" by (subst find_order.simps) auto
    then show ?thesis using False by auto
  qed
qed

lemma core_allocate:
  assumes c: "core b A {(a, ord)}"
  shows "core (b\<lparr>heap := (block_set_header (heap b) a PAI_BUDDY_MAGIC_ALLOC ord)\<lparr>backptr := f\<rparr>\<rparr>)
    (insert (a, ord) A) {}"
proof -
  have "fst blk \<noteq> a" if "blk \<in> free_set b \<union> A" for blk
    using core_overlap [OF c, of blk "(a, ord)"] that c by (auto simp: core_def)
  then show ?thesis
    using c by (auto simp: core_def geometry_def free_set_def block_is_free_def block_set_header_def)
qed

lemma core_deallocate:
  assumes c: "core b A {}" and a: "(a, ord) \<in> A"
  shows "core (b\<lparr>heap := block_set_header (heap b) a PAI_BUDDY_MAGIC_FREE ord\<rparr>)
    (A - {(a, ord)}) {(a, ord)}"
proof -
  have f: "(a, ord) \<notin> free_set b"
    using core_headers(1) [OF c, of a ord] core_headers(3) [OF c a] magic_neq by auto
  have "fst blk \<noteq> a" if "blk \<in> free_set b \<union> A" "blk \<noteq> (a, ord)" for blk
    using core_overlap [OF c, of blk "(a, ord)"] that a by auto
  moreover have "insert (a, ord) (free_set b \<union> (A - {(a, ord)})) = free_set b \<union> A" using a by auto
  ultimately show ?thesis
    using c f by (fastforce simp: core_def geometry_def free_set_def block_is_free_def block_set_header_def)
qed

section \<open>Live allocations\<close>

text \<open>\<open>L\<close> maps each payload address handed out to its block, the block's order and the size
  requested.\<close>

type_synonym buddy_live = "nat \<rightharpoonup> nat \<times> nat \<times> nat"

definition live_blocks :: "buddy_live \<Rightarrow> block set" where
  "live_blocks L = {(blk, ord). \<exists>p n. L p = Some (blk, ord, n)}"

definition live_sum :: "buddy_live \<Rightarrow> nat" where
  "live_sum L = (\<Sum>p \<in> dom L. 2 ^ fst (snd (the (L p))))"

definition buddy_inv :: "pai_buddy \<Rightarrow> buddy_live \<Rightarrow> bool" where
  "buddy_inv b L \<longleftrightarrow> core b (live_blocks L) {} \<and> finite (dom L) \<and>
     used_bytes b = live_sum L mod 2 ^ 64 \<and>
     (\<forall>p blk ord n. L p = Some (blk, ord, n) \<longrightarrow>
        blk + 32 \<le> p \<and> p + n \<le> blk + 2 ^ ord \<and> 0 < n \<and> backptr (heap b) (p - 8) = blk) \<and>
     (\<forall>p q blk ord n m. L p = Some (blk, ord, n) \<longrightarrow> L q = Some (blk, ord, m) \<longrightarrow> p = q)"

lemma live_blocks_upd: "p \<notin> dom L \<Longrightarrow> live_blocks (L(p \<mapsto> (blk, ord, n))) = insert (blk, ord) (live_blocks L)"
  by (fastforce simp: live_blocks_def dom_def split: if_splits)

lemma live_sum_upd:
  "finite (dom L) \<Longrightarrow> p \<notin> dom L \<Longrightarrow> live_sum (L(p \<mapsto> (blk, ord, n))) = live_sum L + 2 ^ ord"
  unfolding live_sum_def
  by (subst dom_fun_upd) (simp add: add.commute, rule sum.cong, auto)

lemma live_sum_remove:
  assumes "finite (dom L)" "L p = Some (blk, ord, n)"
  shows "live_sum L = live_sum (L(p := None)) + 2 ^ ord"
proof -
  have "L = (L(p := None))(p \<mapsto> (blk, ord, n))" using assms(2) by (auto simp: fun_eq_iff)
  then have "live_sum L = live_sum ((L(p := None))(p \<mapsto> (blk, ord, n)))" by (rule arg_cong)
  also have "\<dots> = live_sum (L(p := None)) + 2 ^ ord"
    by (rule live_sum_upd) (use assms(1) in auto)
  finally show ?thesis .
qed

lemma live_same_block:
  assumes "buddy_inv b L" "L p = Some (blk, ord, n)" "L q = Some (blk', ord', m)"
    "in_block x (blk, ord)" "in_block x (blk', ord')"
  shows "p = q"
proof -
  have t: "tiling (base b) (max_order b) (free_set b \<union> live_blocks L)"
    using assms(1) by (simp add: buddy_inv_def core_def)
  have "(blk, ord) = (blk', ord')"
    using tiling_overlap [OF t _ _ assms(4,5)] assms(2,3) by (auto simp: live_blocks_def)
  then show ?thesis using assms(1-3) unfolding buddy_inv_def by blast
qed

lemma alloc_payload:
  assumes g: "geometry b" and ok: "block_ok (base b) (max_order b) (blk, ord)"
    and al: "pai_mem_is_pow2 align" and fits: "unat n + unat align + 32 \<le> 2 ^ ord"
    and ptr: "ptr = unat (pai_mem_align_up (of_nat (blk + PAI_BUDDY_HEADER)) align)"
  shows "blk + 32 \<le> ptr \<and> ptr + unat n \<le> blk + 2 ^ ord \<and> unat align dvd ptr"
proof -
  have top: "blk + 2 ^ ord < 2 ^ 64" using g ok by (simp add: geometry_def block_ok_def)
  have a0: "0 < unat align" using al by (auto simp: is_pow2_nat)
  have "blk + 32 < 2 ^ 64" using top fits by linarith
  then have w: "unat (of_nat (blk + 32) :: u64) = blk + 32"
    by (simp only: unsigned_of_nat) (simp add: take_bit_nat_eq_self)
  have "unat (of_nat (blk + 32) :: u64) + unat align - 1 < 2 ^ 64"
    unfolding w using top fits by linarith
  from align_up_unat [OF al this] have "ptr = align_up_nat (blk + 32) (unat align)"
    by (simp only: ptr w PAI_BUDDY_HEADER_def)
  then show ?thesis
    using align_up_nat_ge [OF a0, of "blk + 32"] align_up_nat_less [OF a0, of "blk + 32"]
      align_up_nat_dvd [of "unat align"] fits by auto
qed

lemma buddy_alloc_cases:
  assumes inv: "buddy_inv b L" and al: "pai_buddy_alloc b n align = (b', Some ptr)"
  shows "\<exists>blk ord. buddy_inv b' (L(ptr \<mapsto> (blk, ord, unat n))) \<and> ptr \<notin> dom L \<and> unat align dvd ptr \<and>
    0 < n \<and> base b' = base b \<and> size b' = size b"
proof -
  let ?A = "live_blocks L"
  have c: "core b ?A {}" using inv by (simp add: buddy_inv_def)
  then have g: "geometry b" by (simp add: core_def)
  define ord where "ord = alloc_order n align"
  define found where "found = find_order b ord"
  have guard: "n \<noteq> 0" "pai_mem_is_pow2 align" "\<not> n > - 1 - align"
      "\<not> n + align > - 1 - of_nat PAI_BUDDY_HEADER" "ord \<le> max_order b" "found \<le> max_order b"
    using al by (auto simp: pai_buddy_alloc_def Let_def ord_def found_def not_less split: if_splits)
  have align0: "align \<noteq> 0" using guard(2) by (auto simp: pai_mem_is_pow2_def)
  have fl: "free_lists b ! found \<noteq> []" "ord \<le> found"
    using find_order_spec [of ord b] guard(6) by (auto simp: found_def)
  then obtain blk rest where br: "free_lists b ! found = blk # rest" by (cases "free_lists b ! found") auto
  define b1 where "b1 = free_list_remove b found blk"
  have pop: "free_list_pop b found = (b1, Some blk)"
    by (simp add: free_list_pop_def br b1_def free_list_remove_def)
  have "(blk, found) \<in> free_set b"
    using br guard(6) g by (simp add: free_set_def geometry_def)
  then have "core b1 ?A {(blk, found)}" using core_unlist [OF c] by (simp add: b1_def)
  moreover have o: "unat n + unat align + 32 \<le> 2 ^ ord" "6 \<le> ord"
    using alloc_order_fits [OF _ guard(3,4)] guard(5) g by (auto simp: ord_def geometry_def)
  ultimately have 2: "core (split_down b1 blk found ord) ?A {(blk, ord)}"
    "same_frame b1 (split_down b1 blk found ord)"
    using split_down_core fl(2) by blast+
  define b2 where "b2 = split_down b1 blk found ord"
  have fr: "same_frame b b2"
    using same_frame_trans [OF same_frame_ops(2)] 2(2) by (simp add: b1_def b2_def)
  define f where "f = (backptr (heap b2))(ptr - 8 := blk)"
  have b': "b' = b2\<lparr>heap := (block_set_header (heap b2) blk PAI_BUDDY_MAGIC_ALLOC ord)\<lparr>backptr := f\<rparr>,
      used_bytes := (used_bytes b2 + 2 ^ ord) mod 2 ^ 64, allocs := allocs b2 + 1\<rparr>"
    and ptr: "ptr = unat (pai_mem_align_up (of_nat (blk + PAI_BUDDY_HEADER)) align)"
    using al guard pop align0
    unfolding pai_buddy_alloc_def Let_def ord_def [symmetric] found_def [symmetric]
    by (simp_all add: b2_def f_def block_set_header_def not_less del: of_nat_add) auto
  have c2: "core b2 ?A {(blk, ord)}" and g2: "geometry b2" using 2(1) by (auto simp: b2_def core_def)
  have pay: "blk + 32 \<le> ptr" "ptr + unat n \<le> blk + 2 ^ ord" "unat align dvd ptr"
    using alloc_payload [OF g2 _ guard(2) o(1) ptr] core_order [OF c2] by auto
  have out: "\<not> in_block x (blk, ord)" if "L q = Some (bq, oq, m)" "in_block x (bq, oq)" for q bq oq m x
  proof
    assume x: "in_block x (blk, ord)"
    have t: "tiling (base b2) (max_order b2) ({(blk, ord)} \<union> (free_set b2 \<union> ?A))"
      using c2 by (simp add: core_def)
    have mem: "(bq, oq) \<in> ?A" using that(1) by (auto simp: live_blocks_def)
    then have "(blk, ord) = (bq, oq)" using tiling_overlap [OF t _ _ x that(2)] by simp
    then show False using c2 mem by (auto simp: core_def)
  qed
  have n0: "0 < unat n" using guard(1) by (simp add: unat_gt_0)
  have inp: "in_block ptr (blk, ord)"
    using pay n0 by (simp add: in_block_def)
  have old: "blk' + 32 \<le> q \<and> q + m \<le> blk' + 2 ^ ord' \<and> 0 < m \<and> backptr (heap b) (q - 8) = blk'"
    if "L q = Some (blk', ord', m)" for q blk' ord' m
    using inv that by (simp add: buddy_inv_def)
  have fresh: "ptr \<notin> dom L"
  proof
    assume "ptr \<in> dom L"
    then obtain bq oq m where q: "L ptr = Some (bq, oq, m)" by (auto simp: dom_def)
    then have "in_block ptr (bq, oq)" using old [OF q] by (simp add: in_block_def)
    then show False using out [OF q] inp by blast
  qed
  have core': "core b' (live_blocks (L(ptr \<mapsto> (blk, ord, unat n)))) {}"
    using core_allocate [OF c2, of f] live_blocks_upd [OF fresh] by (simp add: b')
  have bp: "backptr (heap b') = (backptr (heap b))(ptr - 8 := blk)"
    using fr by (simp add: b' f_def same_frame_def)
  have "buddy_inv b' (L(ptr \<mapsto> (blk, ord, unat n)))"
    unfolding buddy_inv_def
  proof (intro conjI allI impI)
    show "used_bytes b' = live_sum (L(ptr \<mapsto> (blk, ord, unat n))) mod 2 ^ 64"
      using inv fr live_sum_upd [OF _ fresh, of blk ord "unat n"]
      by (simp add: b' buddy_inv_def same_frame_def mod_add_left_eq)
  next
    fix q bq oq m
    assume "(L(ptr \<mapsto> (blk, ord, unat n))) q = Some (bq, oq, m)"
    then show "bq + 32 \<le> q" "q + m \<le> bq + 2 ^ oq" "0 < m" "backptr (heap b') (q - 8) = bq"
      using old [of q bq oq m] pay n0 fresh
      by (auto simp: bp split: if_splits)
  next
    fix q r bq oq m k
    assume "(L(ptr \<mapsto> (blk, ord, unat n))) q = Some (bq, oq, m)"
      "(L(ptr \<mapsto> (blk, ord, unat n))) r = Some (bq, oq, k)"
    then show "q = r"
      using inv out [of _ blk ord _ blk] unfolding buddy_inv_def by (auto split: if_splits)
  qed (use core' inv in \<open>auto simp: buddy_inv_def\<close>)
  then show ?thesis
    using fresh pay(3) fr guard(1) by (auto simp: b' same_frame_def word_gt_0)
qed

lemma buddy_alloc_none: "pai_buddy_alloc b n align = (b', None) \<Longrightarrow> b' = b"
  by (auto simp: pai_buddy_alloc_def Let_def free_list_pop_def split: if_splits list.splits)

lemma live_blocks_remove:
  assumes "buddy_inv b L" "L p = Some (blk, ord, n)"
  shows "live_blocks (L(p := None)) = live_blocks L - {(blk, ord)}"
proof -
  have uniq: "q = p" if "L q = Some (blk, ord, m)" for q m
    using assms that unfolding buddy_inv_def by blast
  show ?thesis
  proof (intro set_eqI iffI)
    fix x assume "x \<in> live_blocks (L(p := None))"
    then obtain d e q m where "x = (d, e)" "q \<noteq> p" "L q = Some (d, e, m)"
      by (auto simp: live_blocks_def split: if_splits)
    then show "x \<in> live_blocks L - {(blk, ord)}" using uniq [of q m] by (auto simp: live_blocks_def)
  next
    fix x assume "x \<in> live_blocks L - {(blk, ord)}"
    then obtain d e q m where x: "x = (d, e)" "x \<noteq> (blk, ord)" "L q = Some (d, e, m)"
      by (auto simp: live_blocks_def)
    then have "(L(p := None)) q = Some (d, e, m)" using assms(2) by auto
    then show "x \<in> live_blocks (L(p := None))" unfolding live_blocks_def x(1) by blast
  qed
qed

lemma buddy_free_live:
  assumes inv: "buddy_inv b L" and p: "L p = Some (blk, ord, n)"
  shows "buddy_inv (pai_buddy_free b p) (L(p := None))"
proof -
  let ?A = "live_blocks L"
  have c: "core b ?A {}" using inv by (simp add: buddy_inv_def)
  then have g: "geometry b" by (simp add: core_def)
  have mem: "(blk, ord) \<in> ?A" using p by (auto simp: live_blocks_def)
  have old: "blk' + 32 \<le> q \<and> q + m \<le> blk' + 2 ^ ord' \<and> 0 < m \<and> backptr (heap b) (q - 8) = blk'"
    if "L q = Some (blk', ord', m)" for q blk' ord' m
    using inv that by (simp add: buddy_inv_def)
  have ok: "block_ok (base b) (max_order b) (blk, ord)" using core_order [OF c] mem by simp
  then have rng: "base b \<le> blk" "blk < base b + size b" "ord \<le> 30"
    using g block_ok_start [OF ok] by (auto simp: block_ok_def geometry_def)
  have hd: "magic (heap b) blk = PAI_BUDDY_MAGIC_ALLOC" "order_cell (heap b) blk = ord"
    using core_headers(3,4) [OF c mem] by auto
  define b1 where "b1 = b\<lparr>used_bytes := (used_bytes b + 2 ^ 64 - 2 ^ ord) mod 2 ^ 64,
      frees := frees b + 1, heap := block_set_header (heap b) blk PAI_BUDDY_MAGIC_FREE ord\<rparr>"
  have "b1 = b\<lparr>heap := block_set_header (heap b) blk PAI_BUDDY_MAGIC_FREE ord\<rparr>
     \<lparr>used_bytes := (used_bytes b + 2 ^ 64 - 2 ^ ord) mod 2 ^ 64, frees := frees b + 1\<rparr>"
    by (cases b) (simp add: b1_def)
  then have c1: "core b1 (?A - {(blk, ord)}) {(blk, ord)}"
    using core_deallocate [OF c mem] by (simp only: core_counters)
  obtain b2 blk2 o2 where m: "merge_up b1 blk ord = (b2, blk2, o2)" by (cases "merge_up b1 blk ord") auto
  have 2: "core b2 (?A - {(blk, ord)}) {(blk2, o2)}" "same_frame b1 b2"
    using merge_up_core [OF c1 m] by auto
  have c3: "core (free_list_push b2 o2 blk2) (?A - {(blk, ord)}) {}"
    by (rule core_push [OF 2(1)]) simp
  have free: "pai_buddy_free b p = free_list_push b2 o2 blk2"
    using old [OF p] rng hd m by (simp add: pai_buddy_free_def Let_def b1_def)
  have fr: "used_bytes (pai_buddy_free b p) = (used_bytes b + 2 ^ 64 - 2 ^ ord) mod 2 ^ 64"
    "backptr (heap (pai_buddy_free b p)) = backptr (heap b)"
    using same_frame_trans [OF 2(2) same_frame_ops(1) [of b2 o2 blk2]]
    by (auto simp: free same_frame_def b1_def block_set_header_def)
  have le: "(2 :: nat) ^ ord \<le> 2 ^ 64" by (rule power_increasing) (use rng(3) in auto)
  have "used_bytes (pai_buddy_free b p) = live_sum (L(p := None)) mod 2 ^ 64"
  proof -
    let ?S = "live_sum (L(p := None))"
    have "used_bytes b = (?S + 2 ^ ord) mod 2 ^ 64"
      using inv live_sum_remove [of L p blk ord n] p by (simp add: buddy_inv_def)
    then have "(used_bytes b + 2 ^ 64 - 2 ^ ord) mod 2 ^ 64 = ((?S + 2 ^ ord) mod 2 ^ 64 + (2 ^ 64 - 2 ^ ord)) mod 2 ^ 64"
      using le by simp
    also have "\<dots> = (?S + 2 ^ ord + (2 ^ 64 - 2 ^ ord)) mod 2 ^ 64" by (rule mod_add_left_eq)
    also have "?S + 2 ^ ord + (2 ^ 64 - 2 ^ ord) = ?S + 2 ^ 64" using le by linarith
    finally show ?thesis using fr(1) by simp
  qed
  then show ?thesis
    using c3 inv live_blocks_remove [OF inv p] old
    unfolding buddy_inv_def by (auto simp: free [symmetric] fr(2) split: if_splits)
qed

lemma buddy_init_inv:
  assumes i: "pai_buddy_init h memory n = Returns (Inr b)" and top: "memory + unat n < 2 ^ 64"
  shows "buddy_inv b Map.empty \<and> base b = memory \<and> size b = unat n"
proof -
  have a: "memory \<noteq> 0" "pai_mem_is_pow2 n" "128 \<le> unat n" "unat n dvd memory"
    "pai_mem_floor_log2 n \<le> 30"
    and b: "b = free_list_push \<lparr>base = memory, size = unat n, max_order = pai_mem_floor_log2 n,
                  free_lists = replicate 31 [], owned = None, used_bytes = 0, allocs = 0, frees = 0,
                  splits = 0, merges = 0, heap = h\<rparr> (pai_mem_floor_log2 n) memory" (is "b = free_list_push ?b0 ?m memory")
    using i by (auto simp: pai_buddy_init_def PAI_BUDDY_MIN_SIZE_def PAI_BUDDY_MAX_ORDER_def Let_def
        word_less_nat_alt not_less dvd_eq_mod_eq_0 split: if_splits)
  obtain k where k: "k < 64" "unat n = 2 ^ k" using a(2) by (auto simp: is_pow2_nat)
  have m: "?m = k" using floor_log2_pow2 [OF k(2,1)] .
  have "(2 :: nat) ^ 7 \<le> 2 ^ k" using a(3) k by simp
  then have k7: "7 \<le> k" by (rule power_le_imp_le_exp [rotated]) simp
  have fs: "free_set ?b0 = {}" by (auto simp: free_set_def)
  have "core ?b0 {} {(memory, k)}"
    using a k m k7 top fs
    by (auto simp: core_def geometry_def tiling_def block_ok_def in_block_def)
  then have "core b {} {}" unfolding b m by (rule core_push) simp
  then show ?thesis
    by (simp add: buddy_inv_def live_blocks_def live_sum_def)
      (simp add: b free_list_push_def)
qed

definition buddy_region :: "pai_buddy \<Rightarrow> nat set" where
  "buddy_region b = {base b ..< base b + size b}"

definition buddy_live :: "pai_buddy \<Rightarrow> live_map \<Rightarrow> bool" where
  "buddy_live b M \<longleftrightarrow> (\<exists>L. buddy_inv b L \<and> M = (\<lambda>p. map_option (\<lambda>(blk, ord, n). n) (L p)))"

lemma merge_up_region: "merge_up b blk ord = (b', blk', ord') \<Longrightarrow> base b' = base b \<and> size b' = size b"
proof (induction b blk ord rule: merge_up.induct)
  case (1 b blk ord)
  from "1.prems" show ?case
    using "1.IH" by (subst (asm) merge_up.simps)
      (auto simp: Let_def free_list_remove_def split: if_splits)
qed

lemma buddy_free_region: "base (pai_buddy_free b p) = base b \<and> size (pai_buddy_free b p) = size b"
  using merge_up_region
  by (auto simp: pai_buddy_free_def Let_def free_list_push_def split: prod.splits)

lemma buddy_alloc_region:
  "pai_buddy_alloc b n a = (b', r) \<Longrightarrow> base b' = base b \<and> size b' = size b"
proof -
  have s: "base (split_down b blk f ord) = base b \<and> size (split_down b blk f ord) = size b" for b blk f ord
  proof (induction b blk f ord rule: split_down.induct)
    case (1 b blk f ord)
    then show ?case by (subst (1 2) split_down.simps) (simp add: Let_def free_list_push_def)
  qed
  show "pai_buddy_alloc b n a = (b', r) \<Longrightarrow> ?thesis"
    using s by (auto simp: pai_buddy_alloc_def Let_def free_list_pop_def split: if_splits list.splits)
qed

interpretation buddy: allocator_free pai_buddy_alloc buddy_region buddy_live pai_buddy_free
proof unfold_locales
  fix s M n a s' p
  assume live: "buddy_live s M" and al: "pai_buddy_alloc s n a = (s', Some p)"
  obtain L where L: "buddy_inv s L" "M = (\<lambda>p. map_option (\<lambda>(blk, ord, n). n) (L p))"
    using live by (auto simp: buddy_live_def)
  obtain blk ord where r: "buddy_inv s' (L(p \<mapsto> (blk, ord, unat n)))" "p \<notin> dom L" "unat a dvd p"
    using buddy_alloc_cases [OF L(1) al] by blast
  have "M(p \<mapsto> unat n) = (\<lambda>q. map_option (\<lambda>(blk, ord, n). n) ((L(p \<mapsto> (blk, ord, unat n))) q))"
    by (auto simp: L(2) fun_eq_iff)
  then show "buddy_live s' (M(p \<mapsto> unat n)) \<and> p \<notin> dom M \<and> unat a dvd p"
    using r L(2) by (auto simp: buddy_live_def dom_def)
next
  fix s M p
  assume live: "buddy_live s M" and p: "p \<in> dom M"
  obtain L where L: "buddy_inv s L" "M = (\<lambda>p. map_option (\<lambda>(blk, ord, n). n) (L p))"
    using live by (auto simp: buddy_live_def)
  then obtain blk ord n where "L p = Some (blk, ord, n)" using p by (auto simp: dom_def)
  from buddy_free_live [OF L(1) this]
  have "buddy_inv (pai_buddy_free s p) (L(p := None))" .
  moreover have "M(p := None) = (\<lambda>q. map_option (\<lambda>(blk, ord, n). n) ((L(p := None)) q))"
    by (auto simp: L(2) fun_eq_iff)
  ultimately show "buddy_live (pai_buddy_free s p) (M(p := None))" by (auto simp: buddy_live_def)
next
  fix s M p k q m
  assume live: "buddy_live s M" and p: "M p = Some k" and q: "M q = Some m" and ne: "p \<noteq> q"
  obtain L where L: "buddy_inv s L" "M = (\<lambda>p. map_option (\<lambda>(blk, ord, n). n) (L p))"
    using live by (auto simp: buddy_live_def)
  obtain blk ord where p': "L p = Some (blk, ord, k)" using p L(2) by auto
  obtain blk' ord' where q': "L q = Some (blk', ord', m)" using q L(2) by auto
  have b: "blk + 32 \<le> p" "p + k \<le> blk + 2 ^ ord" "0 < k" "blk' + 32 \<le> q" "q + m \<le> blk' + 2 ^ ord'" "0 < m"
    using L(1) p' q' unfolding buddy_inv_def by blast+
  show "p + k \<le> q \<or> q + m \<le> p"
  proof (rule ccontr)
    assume "\<not> ?thesis"
    then have "in_block (max p q) (blk, ord)" "in_block (max p q) (blk', ord')"
      using b by (auto simp: in_block_def max_def)
    then show False using live_same_block [OF L(1) p' q'] ne by blast
  qed
next
  fix s M p k
  assume live: "buddy_live s M" and p: "M p = Some k"
  obtain L where L: "buddy_inv s L" "M = (\<lambda>p. map_option (\<lambda>(blk, ord, n). n) (L p))"
    using live by (auto simp: buddy_live_def)
  obtain blk ord where p': "L p = Some (blk, ord, k)" using p L(2) by auto
  have "(blk, ord) \<in> live_blocks L" using p' by (auto simp: live_blocks_def)
  then have "block_ok (base s) (max_order s) (blk, ord)" "geometry s"
    using L(1) core_order [of s "live_blocks L" "{}"] by (auto simp: buddy_inv_def core_def)
  moreover have "blk + 32 \<le> p" "p + k \<le> blk + 2 ^ ord" using L(1) p' unfolding buddy_inv_def by blast+
  ultimately show "{p ..< p + k} \<subseteq> buddy_region s"
    by (auto simp: buddy_region_def block_ok_def geometry_def)
next
  fix s M n a s'
  assume "buddy_live s M" "pai_buddy_alloc s n a = (s', None)"
  then show "buddy_live s' M" using buddy_alloc_none by blast
next
  fix s n a s' r
  assume "pai_buddy_alloc s n a = (s', r)"
  then show "buddy_region s' = buddy_region s"
    using buddy_alloc_region by (simp add: buddy_region_def)
next
  fix s p
  show "buddy_region (pai_buddy_free s p) = buddy_region s"
    using buddy_free_region by (simp add: buddy_region_def)
qed

section \<open>Accounting\<close>

lemma live_sum_le:
  assumes inv: "buddy_inv b L"
  shows "live_sum L \<le> size b"
proof -
  define ivl where "ivl p = {fst (the (L p)) ..< fst (the (L p)) + 2 ^ fst (snd (the (L p)))}" for p
  have g: "geometry b" and fin: "finite (dom L)" using inv by (auto simp: buddy_inv_def core_def)
  have ib: "x \<in> ivl p \<longleftrightarrow> in_block x (fst (the (L p)), fst (snd (the (L p))))" for x p
    by (auto simp: ivl_def in_block_def)
  have split: "L p = Some (fst (the (L p)), fst (snd (the (L p))), snd (snd (the (L p))))" if "p \<in> dom L" for p
    using that by auto
  have "live_sum L = (\<Sum>p \<in> dom L. card (ivl p))"
    by (simp add: live_sum_def ivl_def)
  also have "\<dots> = card (\<Union>p \<in> dom L. ivl p)"
  proof (rule card_UN_disjoint [symmetric])
    show "\<forall>p \<in> dom L. \<forall>q \<in> dom L. p \<noteq> q \<longrightarrow> ivl p \<inter> ivl q = {}"
      using live_same_block [OF inv split split] ib by blast
  qed (use fin in \<open>auto simp: ivl_def\<close>)
  also have "\<dots> \<le> card {base b ..< base b + size b}"
  proof (rule card_mono)
    show "(\<Union>p \<in> dom L. ivl p) \<subseteq> {base b ..< base b + size b}"
    proof (rule UN_least)
      fix p assume p: "p \<in> dom L"
      have "(fst (the (L p)), fst (snd (the (L p)))) \<in> live_blocks L"
        using split [OF p] unfolding live_blocks_def by blast
      then have "block_ok (base b) (max_order b) (fst (the (L p)), fst (snd (the (L p))))"
        using inv core_order [of b "live_blocks L" "{}"] by (auto simp: buddy_inv_def)
      then show "ivl p \<subseteq> {base b ..< base b + size b}"
        using g by (auto simp: ivl_def block_ok_def geometry_def)
    qed
  qed simp
  finally show ?thesis by simp
qed

section \<open>Coalescing\<close>

definition sib :: "pai_buddy \<Rightarrow> nat \<Rightarrow> nat \<Rightarrow> nat" where
  "sib b a ord = base b + (block_off b a XOR 2 ^ ord)"

text \<open>No two siblings are both free: merging has gone as far as it can.\<close>

definition coalesced :: "pai_buddy \<Rightarrow> bool" where
  "coalesced b \<longleftrightarrow> (\<forall>a ord. (a, ord) \<in> free_set b \<longrightarrow> ord < max_order b \<longrightarrow> (sib b a ord, ord) \<notin> free_set b)"

lemma sib_sib: "base b \<le> a \<Longrightarrow> sib b (sib b a ord) ord = a"
  by (simp add: sib_def block_off_def xor.assoc)

lemma sib_neq: "base b \<le> a \<Longrightarrow> sib b a ord \<noteq> a"
proof
  assume "base b \<le> a" "sib b a ord = a"
  then have "(a - base b) XOR 2 ^ ord = a - base b" by (simp add: sib_def block_off_def)
  then have "(a - base b) XOR ((a - base b) XOR 2 ^ ord) = 0" by simp
  then show False by (simp add: xor.assoc [symmetric])
qed

lemma coalesced_frame:
  assumes "coalesced b" "free_set b' \<subseteq> free_set b" "base b' = base b" "max_order b' = max_order b"
  shows "coalesced b'"
  using assms by (auto simp: coalesced_def sib_def block_off_def)

lemma coalesced_push:
  assumes co: "coalesced b" and c: "core b A (insert (a, ord) X)"
    and s: "ord < max_order b \<longrightarrow> (sib b a ord, ord) \<notin> free_set b"
  shows "coalesced (free_list_push b ord a)"
proof -
  have "block_ok (base b) (max_order b) (a, ord)" "geometry b"
    using core_order [OF c] c by (auto simp: core_def)
  then have o: "ord < length (free_lists b)" and a: "base b \<le> a"
    by (auto simp: block_ok_def geometry_def)
  have ge: "base b \<le> d" if "(d, p) \<in> free_set b" for d p
    using core_order [OF c, of "(d, p)"] that by (simp add: block_ok_def)
  have eq: "sib (free_list_push b ord a) = sib b" "max_order (free_list_push b ord a) = max_order b"
    by (simp_all add: fun_eq_iff sib_def block_off_def free_list_push_def)
  show ?thesis
    unfolding coalesced_def eq free_set_push [OF o]
  proof (intro allI impI notI)
    fix d p
    assume d: "(d, p) \<in> insert (a, ord) (free_set b)" "p < max_order b"
      "(sib b d p, p) \<in> insert (a, ord) (free_set b)"
    show False
    proof (cases "(d, p) = (a, ord)")
      case True
      then show False using d s sib_neq [OF a] by auto
    next
      case False
      then have dp: "(d, p) \<in> free_set b" using d(1) by auto
      then have "(sib b d p, p) = (a, ord)" using d co by (auto simp: coalesced_def)
      then have "d = sib b a ord" "p = ord" using sib_sib [OF ge [OF dp], of p] by auto
      then show False using dp d(2) s by simp
    qed
  qed
qed

lemma split_down_coalesced:
  assumes "coalesced b" "core b A {(block, found)}" "6 \<le> ord" "ord \<le> found"
  shows "coalesced (split_down b block found ord)"
  using assms
proof (induction "found - ord" arbitrary: b found)
  case 0
  then show ?case by (simp add: split_down.simps)
next
  case (Suc n)
  define f where "f = found - 1"
  have f: "found = Suc f" "ord \<le> f" "n = f - ord" using Suc.hyps(2) by (auto simp: f_def)
  let ?b2 = "free_list_push b f (block + 2 ^ f)"
  have c: "core b A {(block + 2 ^ f, f), (block, f)}"
    using core_flight_split [of b A block f] Suc.prems f by (simp add: insert_commute)
  have g: "geometry b" using c by (simp add: core_def)
  have ok: "block_ok (base b) (max_order b) (block, Suc f)" using core_order [OF Suc.prems(2)] f by simp
  have "sib b (block + 2 ^ f) f = block"
  proof -
    have "2 ^ Suc f dvd block - base b"
      using ok g power_le_dvd [of 2 "max_order b" "base b" "Suc f"]
      by (intro dvd_diff_nat) (auto simp: block_ok_def geometry_def)
    then have "(block - base b) XOR 2 ^ f = block - base b + 2 ^ f"
      using xor_pow2 [of f "block - base b"] power_le_dvd [of 2 "Suc f" _ f] by auto
    then have "sib b block f = block + 2 ^ f"
      using ok by (simp add: sib_def block_off_def block_ok_def)
    then show ?thesis using sib_sib [of b block f] ok by (simp add: block_ok_def)
  qed
  moreover have "(block, f) \<notin> free_set b" using c by (auto simp: core_def)
  ultimately have "coalesced ?b2" using coalesced_push [OF Suc.prems(1) c] by simp
  moreover have "core ?b2 A {(block, f)}" by (rule core_push [OF c]) simp
  ultimately have "coalesced (split_down (?b2\<lparr>splits := splits ?b2 + 1\<rparr>) block f ord)"
    using Suc.hyps(1) [OF f(3), of "?b2\<lparr>splits := splits ?b2 + 1\<rparr>"] Suc.prems(3) f(2)
      coalesced_frame [of ?b2 "?b2\<lparr>splits := splits ?b2 + 1\<rparr>"]
    by (simp add: free_set_def)
  moreover have "split_down b block found ord =
      split_down (?b2\<lparr>splits := splits ?b2 + 1\<rparr>) block f ord"
    using f Suc.hyps(2) by (subst split_down.simps) (simp add: Let_def push_after_header)
  ultimately show ?case by simp
qed

lemma merge_up_coalesced:
  assumes "coalesced b" "core b A {(block, ord)}" "merge_up b block ord = (b', block', ord')"
  shows "coalesced b' \<and> (ord' < max_order b' \<longrightarrow> (sib b' block' ord', ord') \<notin> free_set b')"
  using assms
proof (induction b block ord rule: merge_up.induct)
  case (1 b block ord)
  define bb where "bb = sib b block ord"
  have bb: "bb = base b + (block_off b block XOR 2 ^ ord)" by (simp add: bb_def sib_def)
  show ?case
  proof (cases "ord < max_order b \<and> (block_off b block XOR 2 ^ ord) < size b \<and> block_is_free (heap b) bb ord")
    case False
    then have "merge_up b block ord = (b, block, ord)"
      by (subst merge_up.simps) (auto simp: bb Let_def)
    moreover have "(bb, ord) \<notin> free_set b" if "ord < max_order b"
    proof
      assume f: "(bb, ord) \<in> free_set b"
      then have "block_ok (base b) (max_order b) (bb, ord)" using core_order [OF "1.prems"(2)] by simp
      then have "bb < base b + size b"
        using block_ok_start [of "base b" "max_order b" bb ord] "1.prems"(2) by (simp add: core_def geometry_def)
      moreover have "block_is_free (heap b) bb ord"
        using core_headers(1,2) [OF "1.prems"(2) f] by (simp add: block_is_free_def)
      ultimately show False using False that by (simp add: bb)
    qed
    ultimately show ?thesis using "1.prems" by (auto simp: bb_def)
  next
    case True
    let ?b1 = "(free_list_remove b ord bb)\<lparr>merges := merges (free_list_remove b ord bb) + 1\<rparr>"
    have m: "merge_up b block ord = merge_up ?b1 (if bb < block then bb else block) (Suc ord)"
      using True by (subst merge_up.simps) (simp add: bb Let_def)
    have f: "(bb, ord) \<in> free_set b"
      using sibling_listed [OF "1.prems"(2) _ bb] True by simp
    from merge_step_core [OF "1.prems"(2) _ bb this]
    have c1: "core ?b1 A {(if bb < block then bb else block, Suc ord)}" using True by simp
    have "free_set ?b1 \<subseteq> free_set b"
      using free_set_remove [of b ord bb] "1.prems"(2) by (auto simp: core_def free_set_def)
    then have "coalesced ?b1"
      using coalesced_frame [OF "1.prems"(1)] by (simp add: free_list_remove_def)
    then show ?thesis
      using "1.IH" [of "block_off b block XOR 2 ^ ord" bb "free_list_remove b ord bb"] True m
        "1.prems"(3) c1 by (simp add: bb)
  qed
qed

lemma buddy_alloc_coalesced:
  assumes inv: "buddy_inv b L" and co: "coalesced b" and al: "pai_buddy_alloc b n align = (b', r)"
  shows "coalesced b'"
proof (cases r)
  case None
  then show ?thesis using buddy_alloc_none al co by blast
next
  case (Some ptr)
  let ?A = "live_blocks L"
  have c: "core b ?A {}" using inv by (simp add: buddy_inv_def)
  define ord where "ord = alloc_order n align"
  define found where "found = find_order b ord"
  have guard: "\<not> n > - 1 - align" "\<not> n + align > - 1 - of_nat PAI_BUDDY_HEADER" "ord \<le> max_order b"
      "found \<le> max_order b"
    using al Some by (auto simp: pai_buddy_alloc_def Let_def ord_def found_def not_less split: if_splits)
  obtain blk rest where br: "free_lists b ! found = blk # rest" and le: "ord \<le> found"
    using find_order_spec [of ord b] guard(4) by (auto simp: found_def neq_Nil_conv)
  define b1 where "b1 = free_list_remove b found blk"
  have pop: "free_list_pop b found = (b1, Some blk)"
    by (simp add: free_list_pop_def br b1_def free_list_remove_def)
  have g: "geometry b" using c by (simp add: core_def)
  have mem: "(blk, found) \<in> free_set b" using br guard(4) g by (simp add: free_set_def geometry_def)
  have c1: "core b1 ?A {(blk, found)}" using core_unlist [OF c mem] by (simp add: b1_def)
  have "coalesced b1"
    using coalesced_frame [OF co, of b1] free_set_remove [OF g] by (auto simp: b1_def free_list_remove_def)
  moreover have "6 \<le> ord"
    using alloc_order_fits(2) [OF _ guard(1,2)] guard(3) g by (simp add: ord_def geometry_def)
  ultimately have 2: "coalesced (split_down b1 blk found ord)"
    using split_down_coalesced [OF _ c1] le by blast
  have "free_set b' = free_set (split_down b1 blk found ord) \<and> base b' = base (split_down b1 blk found ord)
      \<and> max_order b' = max_order (split_down b1 blk found ord)"
    using al Some pop guard unfolding pai_buddy_alloc_def Let_def ord_def [symmetric] found_def [symmetric]
    by (auto simp: free_set_def split: if_splits)
  then show ?thesis using coalesced_frame [OF 2, of b'] by simp
qed

lemma buddy_free_coalesced:
  assumes inv: "buddy_inv b L" and co: "coalesced b" and p: "L p = Some (blk, ord, n)"
  shows "coalesced (pai_buddy_free b p)"
proof -
  let ?A = "live_blocks L"
  have c: "core b ?A {}" using inv by (simp add: buddy_inv_def)
  have mem: "(blk, ord) \<in> ?A" using p by (auto simp: live_blocks_def)
  define b1 where "b1 = b\<lparr>used_bytes := (used_bytes b + 2 ^ 64 - 2 ^ ord) mod 2 ^ 64,
      frees := frees b + 1, heap := block_set_header (heap b) blk PAI_BUDDY_MAGIC_FREE ord\<rparr>"
  have "b1 = b\<lparr>heap := block_set_header (heap b) blk PAI_BUDDY_MAGIC_FREE ord\<rparr>
     \<lparr>used_bytes := (used_bytes b + 2 ^ 64 - 2 ^ ord) mod 2 ^ 64, frees := frees b + 1\<rparr>"
    by (cases b) (simp add: b1_def)
  then have c1: "core b1 (?A - {(blk, ord)}) {(blk, ord)}"
    using core_deallocate [OF c mem] by (simp only: core_counters)
  obtain b2 blk2 o2 where m: "merge_up b1 blk ord = (b2, blk2, o2)" by (cases "merge_up b1 blk ord") auto
  have "coalesced b1" using coalesced_frame [OF co, of b1] by (simp add: b1_def free_set_def)
  from merge_up_coalesced [OF this c1 m] merge_up_core [OF c1 m]
  have co2: "coalesced (free_list_push b2 o2 blk2)"
    using coalesced_push [of b2 "?A - {(blk, ord)}" blk2 o2 "{}"] by blast
  have "p \<noteq> 0" "backptr (heap b) (p - 8) = blk" using inv p unfolding buddy_inv_def by fastforce+
  then have "pai_buddy_free b p = b \<or> pai_buddy_free b p = free_list_push b2 o2 blk2"
    using core_headers(4) [OF c mem] m by (simp add: pai_buddy_free_def Let_def b1_def)
  then show ?thesis using co co2 by metis
qed

lemma coalesced_empty:
  assumes inv: "buddy_inv b Map.empty" and co: "coalesced b"
  shows "free_set b = {(base b, max_order b)}"
proof -
  have c: "core b {} {}" using inv by (simp add: buddy_inv_def live_blocks_def)
  then have t: "tiling (base b) (max_order b) (free_set b)" and al: "2 ^ max_order b dvd base b"
    by (auto simp: core_def geometry_def)
  have "\<exists>blk \<in> free_set b. in_block (base b) blk" using t by (simp add: tiling_def)
  then obtain blk0 where "blk0 \<in> free_set b" by blast
  from ex_has_least_nat [of "\<lambda>blk. blk \<in> free_set b", OF this, of snd]
  obtain a ord where ao: "(a, ord) \<in> free_set b"
    and least: "\<And>d p. (d, p) \<in> free_set b \<Longrightarrow> ord \<le> p"
    by auto
  have ok: "block_ok (base b) (max_order b) (a, ord)" using t ao by (auto simp: tiling_def)
  have "\<not> ord < max_order b"
  proof
    assume lt: "ord < max_order b"
    obtain p where "p \<le> ord" "(sib b a ord, p) \<in> free_set b"
      using sibling_block(2) [OF t ao al lt refl] by (auto simp: sib_def block_off_def)
    then have "(sib b a ord, ord) \<in> free_set b" using least by (metis le_antisym)
    then show False using co ao lt by (auto simp: coalesced_def)
  qed
  then have om: "ord = max_order b" and ab: "a = base b" using ok by (auto simp: block_ok_def)
  have uniq: "blk = (a, ord)" if blk: "blk \<in> free_set b" for blk
  proof -
    have "block_ok (base b) (max_order b) blk" using t blk by (auto simp: tiling_def)
    then have "in_block (fst blk) (a, ord)"
      using block_ok_start [of "base b" "max_order b" "fst blk" "snd blk"] om ab by (simp add: in_block_def)
    then show ?thesis using tiling_overlap [OF t blk ao, of "fst blk"] by (simp add: in_block_def)
  qed
  have "free_set b = {(a, ord)}" by (rule equalityI subsetI singletonI)+ (use ao uniq in blast)+
  then show ?thesis by (simp only: om ab)
qed

text \<open>The allocator contract holds with coalescing as part of the live states.\<close>

definition tidy_live :: "pai_buddy \<Rightarrow> live_map \<Rightarrow> bool" where
  "tidy_live b M \<longleftrightarrow> buddy_live b M \<and> coalesced b"

interpretation tidy: allocator_free pai_buddy_alloc buddy_region tidy_live pai_buddy_free
proof unfold_locales
  fix s M n a s' p
  assume t: "tidy_live s M" and al: "pai_buddy_alloc s n a = (s', Some p)" and n: "0 < n"
  have "coalesced s'" using t buddy_alloc_coalesced [OF _ _ al] by (auto simp: tidy_live_def buddy_live_def)
  then show "tidy_live s' (M(p \<mapsto> unat n)) \<and> p \<notin> dom M \<and> unat a dvd p"
    using buddy.alloc_some [OF _ al n] t unfolding tidy_live_def by blast
next
  fix s M p
  assume t: "tidy_live s M" and p: "p \<in> dom M"
  then obtain L where L: "buddy_inv s L" "M = (\<lambda>p. map_option (\<lambda>(blk, ord, n). n) (L p))" "coalesced s"
    by (auto simp: tidy_live_def buddy_live_def)
  then obtain blk ord n where "L p = Some (blk, ord, n)" using p by (auto simp: dom_def)
  then have "coalesced (pai_buddy_free s p)" using buddy_free_coalesced L by blast
  then show "tidy_live (pai_buddy_free s p) (M(p := None))"
    using buddy.release_live [OF _ p] t by (simp add: tidy_live_def)
next
  fix s M n a s'
  assume "tidy_live s M" "pai_buddy_alloc s n a = (s', None)"
  then show "tidy_live s' M" using buddy_alloc_none by blast
next
  fix s n a s' r
  assume "pai_buddy_alloc s n a = (s', r)"
  then show "buddy_region s' = buddy_region s" by (rule buddy.alloc_region)
next
  fix s M p k q m
  assume "tidy_live s M" "M p = Some k" "M q = Some m" "p \<noteq> q"
  then show "p + k \<le> q \<or> q + m \<le> p" using buddy.live_disjoint [of s M p k q m] by (simp add: tidy_live_def)
next
  fix s M p k
  assume "tidy_live s M" "M p = Some k"
  then show "{p ..< p + k} \<subseteq> buddy_region s" using buddy.live_region [of s M p k] by (simp add: tidy_live_def)
next
  fix s p
  show "buddy_region (pai_buddy_free s p) = buddy_region s" by (rule buddy.release_region)
qed

lemma init_tidy:
  assumes "pai_buddy_init h memory n = Returns (Inr b)" "memory + unat n < 2 ^ 64"
  shows "tidy_live b Map.empty"
proof -
  have inv: "buddy_inv b Map.empty" using buddy_init_inv [OF assms] by simp
  then have "buddy_live b Map.empty" by (auto simp: buddy_live_def intro!: exI [of _ Map.empty])
  moreover have "free_set b = {(base b, max_order b)}"
  proof -
    have "b = free_list_push (b\<lparr>free_lists := replicate 31 [], heap := h\<rparr>) (max_order b) (base b)"
      using assms(1)
      by (auto simp: pai_buddy_init_def Let_def free_list_push_def PAI_BUDDY_MAX_ORDER_def split: if_splits)
    moreover have "max_order b \<le> 30" using inv by (simp add: buddy_inv_def core_def geometry_def)
    ultimately show ?thesis
      using free_set_push [of "max_order b" "b\<lparr>free_lists := replicate 31 [], heap := h\<rparr>" "base b"]
      by (auto simp: free_set_def)
  qed
  then have "coalesced b" by (auto simp: coalesced_def)
  ultimately show ?thesis by (simp add: tidy_live_def)
qed

section \<open>Properties\<close>

text \<open>C13. Soundness of \<open>pai_buddy_alloc\<close>: from any state that satisfies the allocator invariant,
  a successful request returns a payload aligned as asked, inside the region, disjoint from every
  live payload, and the invariant (blocks tile the region, headers match, back pointers lead to
  the block) holds with the new allocation added; a refused request changes nothing.\<close>

theorem buddy_alloc_sound:
  assumes "buddy_inv b L" and "pai_buddy_alloc b n align = (b', r)"
  shows "case r of
      None \<Rightarrow> b' = b
    | Some p \<Rightarrow> unat align dvd p \<and> base b \<le> p \<and> p + unat n \<le> base b + size b \<and>
        (\<forall>q blk ord m. L q = Some (blk, ord, m) \<longrightarrow> p + unat n \<le> q \<or> q + m \<le> p) \<and>
        (\<exists>blk ord. buddy_inv b' (L(p \<mapsto> (blk, ord, unat n))))"
proof (cases r)
  case None
  then show ?thesis using buddy_alloc_none assms(2) by simp
next
  case (Some p)
  obtain blk ord where i: "buddy_inv b' (L(p \<mapsto> (blk, ord, unat n)))" "p \<notin> dom L" "unat align dvd p"
    and n: "0 < n" and eq: "base b' = base b" "size b' = size b"
    using buddy_alloc_cases [OF assms(1)] assms(2) Some by blast
  define M where "M = (\<lambda>q. map_option (\<lambda>(blk, ord, n). n) ((L(p \<mapsto> (blk, ord, unat n))) q))"
  have live: "buddy_live b' M" using i(1) by (auto simp: buddy_live_def M_def)
  have "{p ..< p + unat n} \<subseteq> buddy_region b'" using buddy.live_region [OF live, of p] by (simp add: M_def)
  moreover have "0 < unat n" using n by (simp add: word_less_nat_alt)
  ultimately have "base b \<le> p" "p + unat n \<le> base b + size b"
    by (auto simp: buddy_region_def eq)
  moreover have "p + unat n \<le> q \<or> q + m \<le> p" if "L q = Some (blk', ord', m)" for q blk' ord' m
  proof -
    have "q \<noteq> p" using that i(2) by auto
    then have "M p = Some (unat n)" "M q = Some m" using that by (simp_all add: M_def)
    then show ?thesis using buddy.live_disjoint [OF live] \<open>q \<noteq> p\<close> by metis
  qed
  ultimately show ?thesis using i Some by auto
qed

definition zero_heap :: buddy_heap where
  "zero_heap = \<lparr>magic = (\<lambda>_. 0), order_cell = (\<lambda>_. 0), backptr = (\<lambda>_. 0)\<rparr>"

definition demo_buddy :: pai_buddy where
  "demo_buddy = free_list_push \<lparr>base = 4096, size = 1024, max_order = 10,
     free_lists = replicate 31 [], owned = None, used_bytes = 0, allocs = 0, frees = 0, splits = 0,
     merges = 0, heap = zero_heap\<rparr> 10 4096"

lemma demo_buddy_init: "pai_buddy_init zero_heap 4096 1024 = Returns (Inr demo_buddy)"
proof -
  have "pai_mem_floor_log2 1024 = 10"
    using floor_log2_pow2 [of 1024 10] by simp
  then show ?thesis
    by (simp add: pai_buddy_init_def pai_mem_is_pow2_def PAI_BUDDY_MIN_SIZE_def Let_def
        PAI_BUDDY_MAX_ORDER_def demo_buddy_def)
qed

lemma demo_buddy_inv: "buddy_inv demo_buddy Map.empty"
  using buddy_init_inv [OF demo_buddy_init] by simp

lemma demo_alloc_order: "alloc_order 100 64 = 8"
  by (simp add: alloc_order_def PAI_BUDDY_HEADER_def pai_mem_ceil_log2_def ceil_log2_loop.simps)

lemma demo_alloc: "\<exists>b'. pai_buddy_alloc demo_buddy 100 64 = (b', Some 4160)"
proof -
  have f: "find_order demo_buddy 8 = 10"
    by (simp add: find_order.simps demo_buddy_def free_list_push_def)
  show ?thesis
    by (simp add: pai_buddy_alloc_def demo_alloc_order f pai_mem_is_pow2_def PAI_BUDDY_HEADER_def
        pai_mem_align_up_def Let_def)
      (simp add: demo_buddy_def free_list_push_def free_list_pop_def)
qed

theorem buddy_alloc_sound_witness:
  "\<exists>b'. pai_buddy_alloc demo_buddy 100 64 = (b', Some 4160) \<and>
     (\<exists>blk ord. buddy_inv b' (Map.empty(4160 \<mapsto> (blk, ord, 100))))"
proof -
  obtain b' where "pai_buddy_alloc demo_buddy 100 64 = (b', Some 4160)"
    using demo_alloc by blast
  with buddy_alloc_sound [OF demo_buddy_inv this] show ?thesis by auto
qed

text \<open>C27. No fragmentation survives: after any sequence of allocations and releases that leaves
  nothing allocated, the region is again one single free block and the accounting is back at
  zero.\<close>

theorem buddy_all_freed:
  assumes "pai_buddy_init h memory n = Returns (Inr b)" and "memory + unat n < 2 ^ 64"
    and "\<forall>m a. Alloc m a \<in> set ops \<longrightarrow> 0 < m"
    and "buddy.session b Map.empty ops = (b', Map.empty)"
  shows "free_set b' = {(memory, max_order b')} \<and> size b' = 2 ^ max_order b' \<and> size b' = unat n \<and>
    pai_buddy_used b' = 0 \<and> pai_buddy_avail b' = unat n"
proof -
  have t: "tidy_live b' Map.empty" and r: "buddy_region b' = buddy_region b"
    using tidy.session_live [OF init_tidy [OF assms(1,2)] assms(3,4)] by auto
  then obtain L where L: "buddy_inv b' L" "Map.empty = (\<lambda>p. map_option (\<lambda>(blk, ord, n). n) (L p))"
    and co: "coalesced b'"
    by (auto simp: tidy_live_def buddy_live_def)
  have "L = Map.empty"
  proof
    fix p show "L p = None" using fun_cong [OF L(2), of p] by simp
  qed
  with L(1) have inv: "buddy_inv b' Map.empty" by simp
  have g: "geometry b'" using inv by (simp add: buddy_inv_def core_def)
  have b: "base b = memory" "size b = unat n" "geometry b"
    using buddy_init_inv [OF assms(1,2)] by (auto simp: buddy_inv_def core_def)
  have "base b' < base b' + size b'" "base b < base b + size b"
    using g b(3) by (simp_all add: geometry_def)
  then have "base b' = base b \<and> base b' + size b' = base b + size b"
    using r [unfolded buddy_region_def] atLeastLessThan_eq_iff by blast
  then have eq: "base b' = memory" "size b' = unat n" using b by auto
  have "used_bytes b' = 0" using inv by (simp add: buddy_inv_def live_sum_def)
  then show ?thesis
    using coalesced_empty [OF inv co] eq g unsigned_less [of n, where 'a = nat]
    by (simp add: pai_buddy_used_def pai_buddy_avail_def geometry_def)
qed

lemma demo_round_trip:
  "\<exists>b'. buddy.session demo_buddy Map.empty [Alloc 100 64, Free 4160] = (b', Map.empty)"
proof -
  obtain b' where "pai_buddy_alloc demo_buddy 100 64 = (b', Some 4160)"
    using demo_alloc by blast
  then show ?thesis by (auto simp: buddy.session.simps)
qed

theorem buddy_all_freed_witness:
  "\<exists>b'. buddy.session demo_buddy Map.empty [Alloc 100 64, Free 4160] = (b', Map.empty) \<and>
     free_set b' = {(4096, max_order b')} \<and> pai_buddy_avail b' = 1024"
proof -
  obtain b' where b': "buddy.session demo_buddy Map.empty [Alloc 100 64, Free 4160] = (b', Map.empty)"
    using demo_round_trip by blast
  have ops: "\<forall>m a. Alloc m a \<in> set [Alloc 100 64, Free 4160] \<longrightarrow> 0 < m" by simp
  from buddy_all_freed [OF demo_buddy_init _ ops b'] show ?thesis using b' by auto
qed

lemma buddy_alloc_none_iff:
  assumes "buddy_inv b L" and "n \<noteq> 0" and "pai_mem_is_pow2 align"
    and "unat n + unat align + 32 < 2 ^ 64"
  shows "snd (pai_buddy_alloc b n align) = None \<longleftrightarrow>
    (\<forall>(a, ord) \<in> free_set b. ord < alloc_order n align)"
proof -
  have c: "core b (live_blocks L) {}" using assms(1) by (simp add: buddy_inv_def)
  then have g: "geometry b" by (simp add: core_def)
  have m1: "unat (- 1 - x) = 2 ^ 64 - 1 - unat x" for x :: u64
    using unat_sub [of x "- 1"] by (simp add: unsigned_minus_1_eq_mask mask_eq_exp_minus_1)
  have sum: "unat (n + align) = unat n + unat align"
    using assms(4) by (subst unat_add_lem [THEN iffD1]) auto
  have guard: "\<not> n > - 1 - align" "\<not> n + align > - 1 - of_nat PAI_BUDDY_HEADER" "align \<noteq> 0"
    using assms(3,4) sum
    by (auto simp: word_less_nat_alt m1 PAI_BUDDY_HEADER_def pai_mem_is_pow2_def)
  let ?o = "alloc_order n align"
  let ?f = "find_order b ?o"
  note fo = find_order_spec [of ?o b]
  have le: "ord \<le> max_order b" if "(a, ord) \<in> free_set b" for a ord
    using core_order [OF c, of "(a, ord)"] that by (simp add: block_ok_def)
  have none: "snd (pai_buddy_alloc b n align) = None \<longleftrightarrow> max_order b < ?o \<or> max_order b < ?f"
    using assms(2,3) guard fo
    by (auto simp: pai_buddy_alloc_def Let_def free_list_pop_def split: list.splits)
  show ?thesis
  proof
    assume "snd (pai_buddy_alloc b n align) = None"
    with none consider "max_order b < ?o" | "max_order b < ?f" by blast
    then show "\<forall>(a, ord) \<in> free_set b. ord < ?o"
    proof cases
      case 2
      have False if "(a, ord) \<in> free_set b" "?o \<le> ord" for a ord
        using fo le [OF that(1)] that 2 by (auto simp: free_set_def)
      then show ?thesis by force
    qed (use le in fastforce)
  next
    assume all: "\<forall>(a, ord) \<in> free_set b. ord < ?o"
    have "max_order b < ?f"
    proof (rule ccontr)
      assume nf: "\<not> max_order b < ?f"
      then obtain a where "a \<in> set (free_lists b ! ?f)" using fo by (cases "free_lists b ! ?f") auto
      then have "(a, ?f) \<in> free_set b" using nf g by (auto simp: free_set_def geometry_def)
      then show False using all fo by fastforce
    qed
    then show "snd (pai_buddy_alloc b n align) = None" using none by simp
  qed
qed

text \<open>Completeness of \<open>pai_buddy_alloc\<close>: a well-formed request is refused exactly when no
  free block of the order it needs, or a larger one, is left.\<close>

theorem buddy_alloc_complete:
  assumes "buddy_inv b L" and "n \<noteq> 0" and "pai_mem_is_pow2 align"
    and "unat n + unat align + 32 < 2 ^ 64"
  shows "snd (pai_buddy_alloc b n align) = None \<longleftrightarrow>
    (\<forall>(a, ord) \<in> free_set b. ord < alloc_order n align)"
  using assms by (rule buddy_alloc_none_iff)

theorem buddy_alloc_complete_witness:
  "snd (pai_buddy_alloc demo_buddy 2000 64) = None \<longleftrightarrow>
    (\<forall>(a, ord) \<in> free_set demo_buddy. ord < alloc_order 2000 64)"
  by (rule buddy_alloc_complete [OF demo_buddy_inv]) (simp_all add: pai_mem_is_pow2_def)

text \<open>\<open>pai_buddy_init\<close> does not check the order bound that \<open>pai_buddy_init_owned\<close> checks: a
  region of \<open>2 ^ 31\<close> bytes or more passes its tests and is stored outside \<open>free_lists\<close>.\<close>

theorem buddy_init_order_unchecked:
  assumes "31 \<le> k" and "k < 64" and "0 < memory" and "2 ^ k dvd memory"
  shows "pai_buddy_init h memory (2 ^ k) = Fault \<and>
    pai_buddy_init_owned h raw (2 ^ k) = Returns (Inl PAI_ERR_INVALID_ARG)"
proof -
  have u: "unat (2 ^ k :: u64) = 2 ^ k" using pow2_word [OF assms(2)] .
  have fl: "pai_mem_floor_log2 (2 ^ k) = k" using floor_log2_pow2 [OF u assms(2)] .
  have p: "pai_mem_is_pow2 (2 ^ k)" using u assms(2) by (auto simp: is_pow2_nat)
  have "(2 :: nat) ^ 31 \<le> 2 ^ k" using assms(1) by (rule power_increasing) simp
  then have big: "2147483648 \<le> (2 :: nat) ^ k" by simp
  then have "\<not> (2 ^ k :: u64) < PAI_BUDDY_MIN_SIZE" "(2 ^ k :: u64) > push_bit PAI_BUDDY_MAX_ORDER 1"
    by (simp_all add: word_less_nat_alt u PAI_BUDDY_MIN_SIZE_def PAI_BUDDY_MAX_ORDER_def)
  then show ?thesis
    using assms p fl u
    by (simp add: pai_buddy_init_def pai_buddy_init_owned_def Let_def PAI_BUDDY_MAX_ORDER_def
        dvd_eq_mod_eq_0)
qed

theorem buddy_init_order_unchecked_witness:
  "pai_buddy_init zero_heap 2147483648 (2 ^ 31) = Fault \<and>
   pai_buddy_init_owned zero_heap 5 (2 ^ 31) = Returns (Inl PAI_ERR_INVALID_ARG)"
  by (rule buddy_init_order_unchecked) simp_all

end
