(* ===== verification/KvCache.thy ===== *)
theory KvCache
  imports Buddy
begin

text \<open>
  \<^verbatim>\<open>cache/kv_cache.c\<close>: the key/value cache, a client of the buddy allocator. A cache owns one block
  of the region per successful reservation and three arrays with one slot per token position. A
  store outside these arrays is a fault. The memory of the region is the \<open>heap\<close> of the allocator.
\<close>

section \<open>State\<close>

definition PAI_KV_MAX_LAYERS :: u32 where "PAI_KV_MAX_LAYERS = 64"
definition PAI_KV_BLOCK_TOKENS :: u64 where "PAI_KV_BLOCK_TOKENS = 128"

record pai_kv_cache =
  kbuddy :: pai_buddy
  kregion :: nat
  region_size :: u64
  owned_region :: bool
  num_layers :: u32
  kv_bytes_per_token :: u32
  capacity_tokens :: u32
  block_ptrs :: "u64 list"
  prefix_hashes :: "u64 list"
  block_bytes_used :: "u32 list"
  positions :: u32
  last_touched :: u64
  tick :: u64
  quant_enabled :: u32
  spill_enabled :: u32
  stats_blocks :: u64
  stats_prefix_hits :: u64
  stats_prefix_miss :: u64

definition block_bytes :: "pai_kv_cache \<Rightarrow> u64" where
  "block_bytes c = ucast (num_layers c) * ucast (kv_bytes_per_token c)"

section \<open>Set-up and release\<close>

text \<open>\<open>rounded\<close> starts at 64 and is shifted left until it covers a block or reaches \<open>2 ^ 30\<close>; the
  argument of \<open>round_block\<close> is its exponent.\<close>

function round_block :: "nat \<Rightarrow> u64 \<Rightarrow> u64" where
  "round_block k bb = (if k < 30 \<and> 2 ^ k < bb then round_block (Suc k) bb else 2 ^ k)"
  by pat_completeness auto
termination
  by (relation "measure (\<lambda>(k, bb). 30 - k)") auto

declare round_block.simps [simp del]

definition block_tokens_cap :: "u64 \<Rightarrow> u64 \<Rightarrow> u64" where
  "block_tokens_cap rs bb =
     (let cap = rs div round_block 6 bb in if cap > PAI_KV_BLOCK_TOKENS then PAI_KV_BLOCK_TOKENS else cap)"

text \<open>\<open>calloc_ok\<close> tells whether the three \<open>calloc\<close> calls succeed.\<close>

definition pai_kv_cache_init ::
    "buddy_heap \<Rightarrow> nat \<Rightarrow> u64 \<Rightarrow> u32 \<Rightarrow> u32 \<Rightarrow> bool \<Rightarrow> pai_kv_cache res outcome" where
  "pai_kv_cache_init h memory rs nl kvb calloc_ok =
     (if memory = 0 \<or> nl = 0 \<or> nl > PAI_KV_MAX_LAYERS \<or> kvb = 0 \<or> rs < PAI_BUDDY_MIN_SIZE \<or> rs AND (rs - 1) \<noteq> 0
      then Returns (Inl PAI_ERR_INVALID_ARG)
      else case pai_buddy_init h memory rs of
        Fault \<Rightarrow> Fault
      | Diverges \<Rightarrow> Diverges
      | Returns (Inl e) \<Rightarrow> Returns (Inl e)
      | Returns (Inr b) \<Rightarrow>
          (let cap = block_tokens_cap rs (ucast nl * ucast kvb)
           in if cap = 0 then Returns (Inl PAI_ERR_INVALID_ARG)
              else if \<not> calloc_ok then Returns (Inl PAI_ERR_NOMEM)
              else Returns (Inr
                \<lparr>kbuddy = b, kregion = memory, region_size = rs, owned_region = False, num_layers = nl,
                 kv_bytes_per_token = kvb, capacity_tokens = ucast cap,
                 block_ptrs = replicate (unat cap) 0, prefix_hashes = replicate (unat cap) 0,
                 block_bytes_used = replicate (unat cap) 0, positions = 0, last_touched = 0, tick = 0,
                 quant_enabled = 0, spill_enabled = 0, stats_blocks = 0, stats_prefix_hits = 0,
                 stats_prefix_miss = 0\<rparr>)))"

text \<open>\<open>raw\<close> is the result of \<open>malloc(2 * region_size)\<close>, 0 when it fails.\<close>

definition pai_kv_cache_init_owned ::
    "buddy_heap \<Rightarrow> nat \<Rightarrow> u64 \<Rightarrow> u32 \<Rightarrow> u32 \<Rightarrow> bool \<Rightarrow> pai_kv_cache res outcome" where
  "pai_kv_cache_init_owned h raw rs nl kvb calloc_ok =
     (if rs < PAI_BUDDY_MIN_SIZE \<or> rs AND (rs - 1) \<noteq> 0 \<or> unat rs > (2 ^ 64 - 1) div 2
      then Returns (Inl PAI_ERR_INVALID_ARG)
      else if raw = 0 then Returns (Inl PAI_ERR_NOMEM)
      else
        (case pai_kv_cache_init h (raw + (unat rs - raw mod unat rs) mod unat rs) rs nl kvb calloc_ok of
           Returns (Inr c) \<Rightarrow> Returns (Inr (c\<lparr>owned_region := True, kbuddy := (kbuddy c)\<lparr>owned := Some raw\<rparr>\<rparr>))
         | r \<Rightarrow> r))"

text \<open>The zeroed structure that \<open>memset\<close> leaves; the region itself is not touched.\<close>

definition kv_zero :: "buddy_heap \<Rightarrow> pai_kv_cache" where
  "kv_zero h =
     \<lparr>kbuddy = \<lparr>base = 0, size = 0, max_order = 0, free_lists = replicate (PAI_BUDDY_MAX_ORDER + 1) [],
                owned = None, used_bytes = 0, allocs = 0, frees = 0, splits = 0, merges = 0, heap = h\<rparr>,
      kregion = 0, region_size = 0, owned_region = False, num_layers = 0, kv_bytes_per_token = 0,
      capacity_tokens = 0, block_ptrs = [], prefix_hashes = [], block_bytes_used = [], positions = 0,
      last_touched = 0, tick = 0, quant_enabled = 0, spill_enabled = 0, stats_blocks = 0,
      stats_prefix_hits = 0, stats_prefix_miss = 0\<rparr>"

text \<open>The zeroed cache and the allocation handed back to \<open>free\<close>, if any.\<close>

definition pai_kv_cache_destroy :: "pai_kv_cache \<Rightarrow> pai_kv_cache \<times> nat option" where
  "pai_kv_cache_destroy c =
     (kv_zero (heap (kbuddy c)), if owned_region c then owned (kbuddy c) else None)"

definition pai_kv_cache_capacity_bytes :: "pai_kv_cache \<Rightarrow> u64" where
  "pai_kv_cache_capacity_bytes c =
     ucast (capacity_tokens c) * ucast (num_layers c) * ucast (kv_bytes_per_token c)"

section \<open>Reservation and access\<close>

definition pai_kv_cache_reserve :: "pai_kv_cache \<Rightarrow> u32 \<Rightarrow> (pai_kv_cache \<times> u32 res) outcome" where
  "pai_kv_cache_reserve c tokens =
     (if tokens = 0 then Returns (c, Inl PAI_ERR_INVALID_ARG)
      else if positions c + tokens > capacity_tokens c then Returns (c, Inl PAI_ERR_NOMEM)
      else
        (let need = block_bytes c * ucast tokens; i = unat (positions c)
         in case pai_buddy_alloc (kbuddy c) need 64 of
              (b, None) \<Rightarrow> Returns (c\<lparr>kbuddy := b\<rparr>, Inl PAI_ERR_NOMEM)
            | (b, Some block) \<Rightarrow>
                if i \<ge> length (block_ptrs c) \<or> i \<ge> length (block_bytes_used c) then Fault
                else Returns
                  (c\<lparr>kbuddy := b, block_ptrs := (block_ptrs c)[i := of_nat (block - kregion c)],
                     block_bytes_used := (block_bytes_used c)[i := ucast need],
                     positions := positions c + tokens, stats_blocks := stats_blocks c + 1\<rparr>,
                   Inr (positions c))))"

definition pai_kv_cache_touch :: "pai_kv_cache \<Rightarrow> u32 \<Rightarrow> u64 \<Rightarrow> (pai_kv_cache \<times> bool) outcome" where
  "pai_kv_cache_touch c pos prefix_hash =
     (if pos \<ge> positions c then Returns (c, False)
      else
        (let c1 = c\<lparr>tick := tick c + 1, last_touched := tick c + 1\<rparr>; i = unat pos
         in if i \<ge> length (prefix_hashes c) then Fault
            else if prefix_hashes c ! i = prefix_hash
            then Returns (c1\<lparr>stats_prefix_hits := stats_prefix_hits c + 1\<rparr>, True)
            else Returns
              (c1\<lparr>prefix_hashes := (prefix_hashes c)[i := prefix_hash],
                  stats_prefix_miss := stats_prefix_miss c + 1\<rparr>, False)))"

definition pai_kv_prefix_hash :: "u64 \<Rightarrow> u32 \<Rightarrow> u64" where
  "pai_kv_prefix_hash hash token_id =
     (let h1 = (hash XOR ucast (token_id AND 0xFF)) * 0x100000001B3;
          h2 = (h1 XOR ucast (drop_bit 8 token_id AND 0xFF)) * 0x100000001B3;
          h3 = (h2 XOR ucast (drop_bit 16 token_id AND 0xFF)) * 0x100000001B3
      in (h3 XOR ucast (drop_bit 24 token_id AND 0xFF)) * 0x100000001B3)"

definition pai_kv_cache_reset :: "pai_kv_cache \<Rightarrow> pai_kv_cache outcome" where
  "pai_kv_cache_reset c =
     (let n = unat (capacity_tokens c); own = owned (kbuddy c);
          b = pai_buddy_destroy ((kbuddy c)\<lparr>owned := None\<rparr>);
          c1 = c\<lparr>positions := 0, tick := 0, last_touched := 0, stats_blocks := 0, stats_prefix_hits := 0,
                 stats_prefix_miss := 0, block_ptrs := replicate n 0, prefix_hashes := replicate n 0,
                 block_bytes_used := replicate n 0\<rparr>
      in if kregion c = 0 then Returns (c1\<lparr>kbuddy := b\<lparr>owned := own\<rparr>\<rparr>)
         else case pai_buddy_init (heap b) (kregion c) (region_size c) of
                Returns (Inr b') \<Rightarrow> Returns (c1\<lparr>kbuddy := b'\<lparr>owned := own\<rparr>\<rparr>)
              | Returns (Inl e) \<Rightarrow> Returns (c1\<lparr>kbuddy := b\<lparr>owned := own\<rparr>\<rparr>)
              | Fault \<Rightarrow> Fault
              | Diverges \<Rightarrow> Diverges)"

lemmas kv_consts = PAI_KV_MAX_LAYERS_def PAI_KV_BLOCK_TOKENS_def PAI_BUDDY_MIN_SIZE_def

section \<open>Invariant\<close>

text \<open>A run of a cache with the list of its reservations since the last reset, each as (first position,
  number of tokens).\<close>

inductive kv_run :: "pai_kv_cache \<Rightarrow> (nat \<times> nat) list \<Rightarrow> bool" where
  kv_init: "pai_kv_cache_init h memory rs nl kvb ok = Returns (Inr c) \<Longrightarrow> memory + unat rs < 2 ^ 64 \<Longrightarrow> kv_run c []"
| kv_init_owned: "pai_kv_cache_init_owned h raw rs nl kvb ok = Returns (Inr c) \<Longrightarrow> raw + 2 * unat rs < 2 ^ 64 \<Longrightarrow>
    kv_run c []"
| kv_reserve: "kv_run c log \<Longrightarrow> pai_kv_cache_reserve c tokens = Returns (c', Inr pos) \<Longrightarrow>
    kv_run c' (log @ [(unat pos, unat tokens)])"
| kv_reserve_err: "kv_run c log \<Longrightarrow> pai_kv_cache_reserve c tokens = Returns (c', Inl e) \<Longrightarrow> kv_run c' log"
| kv_touch: "kv_run c log \<Longrightarrow> pai_kv_cache_touch c p hash = Returns (c', hit) \<Longrightarrow> kv_run c' log"
| kv_reset: "kv_run c log \<Longrightarrow> pai_kv_cache_reset c = Returns c' \<Longrightarrow> kv_run c' []"

definition bb :: "pai_kv_cache \<Rightarrow> nat" where
  "bb c = unat (num_layers c) * unat (kv_bytes_per_token c)"

definition kv_shape :: "pai_kv_cache \<Rightarrow> bool" where
  "kv_shape c \<longleftrightarrow>
     0 < unat (num_layers c) \<and> unat (num_layers c) \<le> 64 \<and> 0 < unat (kv_bytes_per_token c) \<and>
     unat (positions c) \<le> unat (capacity_tokens c) \<and> 0 < unat (capacity_tokens c) \<and> unat (capacity_tokens c) \<le> 128 \<and>
     length (block_ptrs c) = unat (capacity_tokens c) \<and> length (prefix_hashes c) = unat (capacity_tokens c) \<and>
     length (block_bytes_used c) = unat (capacity_tokens c) \<and>
     base (kbuddy c) = kregion c \<and> size (kbuddy c) = unat (region_size c) \<and>
     0 < kregion c \<and> kregion c + unat (region_size c) < 2 ^ 64 \<and> unat (region_size c) \<le> 2 ^ 30 \<and>
     kregion c mod unat (region_size c) = 0 \<and> pai_mem_is_pow2 (region_size c) \<and> 128 \<le> unat (region_size c) \<and>
     (0 < positions c \<longrightarrow> bb c \<le> unat (region_size c))"

text \<open>The address of the block of a reservation.\<close>

definition block_at :: "pai_kv_cache \<Rightarrow> nat \<Rightarrow> nat" where
  "block_at c s = kregion c + unat (block_ptrs c ! s)"

definition kv_inv :: "pai_kv_cache \<Rightarrow> (nat \<times> nat) list \<Rightarrow> bool" where
  "kv_inv c log \<longleftrightarrow> kv_shape c \<and> sum_list (map snd log) = unat (positions c) \<and>
     sorted_wrt (\<lambda>(s, t) (s', t'). s + t \<le> s' \<and> block_at c s \<noteq> block_at c s') log \<and>
     (\<exists>M. buddy_live (kbuddy c) M \<and> dom M = (\<lambda>(s, t). block_at c s) ` set log \<and>
        (\<forall>(s, t) \<in> set log. 0 < t \<and> s + t \<le> unat (positions c) \<and> M (block_at c s) = Some (t * bb c) \<and>
           unat (block_bytes_used c ! s) = t * bb c))"

lemma unat_ucast_up: "unat (ucast (x :: u32) :: u64) = unat x"
  using unsigned_less [of x, where 'a = nat] by (simp add: unsigned_ucast_eq take_bit_nat_eq_self)

lemma bb_less: "kv_shape c \<Longrightarrow> bb c < 2 ^ 38"
proof -
  assume s: "kv_shape c"
  have "bb c \<le> 64 * unat (kv_bytes_per_token c)" using s by (simp add: kv_shape_def bb_def)
  also have "\<dots> < 64 * 2 ^ 32" using unsigned_less [of "kv_bytes_per_token c", where 'a = nat] by simp
  finally show ?thesis by simp
qed

lemma block_bytes_unat: "kv_shape c \<Longrightarrow> unat (block_bytes c) = bb c"
  using bb_less [of c] by (simp add: block_bytes_def bb_def unat_word_ariths unat_ucast_up)

lemma need_unat:
  assumes "kv_shape c" "bb c * unat (t :: u32) < 2 ^ 64"
  shows "unat (block_bytes c * ucast t) = bb c * unat t"
  using assms block_bytes_unat [OF assms(1)] by (simp add: unat_word_ariths unat_ucast_up)

lemma kv_alloc_bound:
  assumes "buddy_live b M" "pai_buddy_alloc b n a = (b', Some p)" "0 < n"
  shows "unat n \<le> size b" "base b \<le> p" "p + unat n \<le> base b + size b"
proof -
  have "buddy_live b' (M(p \<mapsto> unat n))" using buddy.alloc_some [OF assms] by blast
  from buddy.live_region [OF this, of p "unat n"]
  have "{p ..< p + unat n} \<subseteq> {base b ..< base b + size b}"
    using buddy_alloc_region [OF assms(2)] by (simp add: buddy_region_def)
  moreover have "0 < unat n" using assms(3) by (simp add: word_less_nat_alt)
  ultimately show "base b \<le> p" "p + unat n \<le> base b + size b" by auto
  then show "unat n \<le> size b" by linarith
qed

text \<open>The sum of positions and tokens may wrap at 32 bits; the request then exceeds every region.\<close>

lemma reserve_no_wrap:
  assumes inv: "kv_shape c" and live: "buddy_live (kbuddy c) M" and t: "tokens \<noteq> 0"
    and ok: "\<not> positions c + tokens > capacity_tokens c"
    and al: "pai_buddy_alloc (kbuddy c) (block_bytes c * ucast tokens) 64 = (b, Some p)"
  shows "unat (positions c) + unat tokens \<le> unat (capacity_tokens c)"
proof (rule ccontr)
  assume n: "\<not> ?thesis"
  have le: "unat (positions c + tokens) \<le> unat (capacity_tokens c)" using ok by (simp add: word_less_nat_alt)
  have big: "2 ^ 32 \<le> unat (positions c) + unat tokens"
  proof (rule ccontr)
    assume "\<not> ?thesis"
    then have "unat (positions c + tokens) = unat (positions c) + unat tokens"
      by (simp add: unat_word_ariths)
    with le n show False by simp
  qed
  have pos: "0 < positions c" using big unsigned_less [of tokens, where 'a = nat]
    by (cases "positions c = 0") (auto simp: word_neq_0_conv)
  have small: "bb c \<le> 2 ^ 30" "1 \<le> bb c" "unat (positions c) \<le> 128"
    using inv pos unfolding kv_shape_def bb_def by auto
  have tl: "2 ^ 32 \<le> unat tokens + 128" using big small(3) by linarith
  have fit: "bb c * unat tokens \<le> 2 ^ 30 * 2 ^ 32"
    using small(1) unsigned_less [of tokens, where 'a = nat] by (intro mult_le_mono) auto
  then have u: "unat (block_bytes c * ucast tokens) = bb c * unat tokens" using need_unat [OF inv] by simp
  have "0 < unat tokens" using tl by (cases "unat tokens") auto
  then have "0 < bb c * unat tokens" using small(2) by simp
  then have "0 < block_bytes c * ucast tokens" using u by (simp add: word_less_nat_alt)
  from kv_alloc_bound(1) [OF live al this] have "bb c * unat tokens \<le> 2 ^ 30"
    using inv u unfolding kv_shape_def by linarith
  moreover have "unat tokens \<le> bb c * unat tokens" using small(2) by simp
  ultimately have "unat tokens \<le> 2 ^ 30" by (rule le_trans [rotated])
  then show False using tl by simp
qed

lemma reserve_cases:
  assumes inv: "kv_inv c log" and r: "pai_kv_cache_reserve c tokens = r"
  obtains e where "r = Returns (c, Inl e)"
    "e = (if tokens = 0 then PAI_ERR_INVALID_ARG else PAI_ERR_NOMEM)"
    "tokens = 0 \<or> unat (positions c) + unat tokens > unat (capacity_tokens c) \<or>
      snd (pai_buddy_alloc (kbuddy c) (block_bytes c * ucast tokens) 64) = None"
  | b p where "pai_buddy_alloc (kbuddy c) (block_bytes c * ucast tokens) 64 = (b, Some p)"
    "tokens \<noteq> 0" "unat (positions c) + unat tokens \<le> unat (capacity_tokens c)"
    "unat (block_bytes c * ucast tokens) = bb c * unat tokens" "0 < bb c * unat tokens"
    "r = Returns
       (c\<lparr>kbuddy := b, block_ptrs := (block_ptrs c)[unat (positions c) := of_nat (p - kregion c)],
          block_bytes_used := (block_bytes_used c)[unat (positions c) := ucast (block_bytes c * ucast tokens)],
          positions := positions c + tokens, stats_blocks := stats_blocks c + 1\<rparr>,
        Inr (positions c))"
proof -
  obtain M where live: "buddy_live (kbuddy c) M" and sh: "kv_shape c" using inv by (auto simp: kv_inv_def)
  obtain b q where al: "pai_buddy_alloc (kbuddy c) (block_bytes c * ucast tokens) 64 = (b, q)" by fastforce
  consider "tokens = 0" | "tokens \<noteq> 0" "positions c + tokens > capacity_tokens c"
    | "tokens \<noteq> 0" "\<not> positions c + tokens > capacity_tokens c" "q = None"
    | p where "tokens \<noteq> 0" "\<not> positions c + tokens > capacity_tokens c" "q = Some p" by (cases q) auto
  then show thesis
  proof cases
    case 1 then show ?thesis using r that(1) by (auto simp: pai_kv_cache_reserve_def)
  next
    case 2
    have "unat (positions c + tokens) \<le> unat (positions c) + unat tokens" by (simp add: unat_word_ariths)
    then show ?thesis using r that(1) 2 by (auto simp: pai_kv_cache_reserve_def word_less_nat_alt)
  next
    case 3
    then show ?thesis using r that(1) al buddy_alloc_none [of "kbuddy c" _ 64 b]
      by (auto simp: pai_kv_cache_reserve_def Let_def)
  next
    case 4
    have fits: "unat (positions c) + unat tokens \<le> unat (capacity_tokens c)"
      using reserve_no_wrap [OF sh live 4(1,2)] al 4(3) by simp
    have t: "0 < unat tokens" using 4(1) by (simp add: unat_gt_0)
    have "unat tokens \<le> 128" using fits sh by (simp add: kv_shape_def)
    then have "bb c * unat tokens \<le> 2 ^ 38 * 128" using bb_less [OF sh] by (intro mult_le_mono) auto
    then have u: "unat (block_bytes c * ucast tokens) = bb c * unat tokens" using need_unat [OF sh] by simp
    have "0 < bb c * unat tokens" using sh t by (simp add: kv_shape_def bb_def)
    moreover have "unat (positions c) < length (block_ptrs c)" "unat (positions c) < length (block_bytes_used c)"
      using sh fits t by (auto simp: kv_shape_def)
    ultimately show ?thesis using that(2) [of b p] al 4 r u fits by (simp add: pai_kv_cache_reserve_def Let_def not_le)
  qed
qed

lemma reserve_inv:
  assumes inv: "kv_inv c log" and r: "pai_kv_cache_reserve c tokens = Returns (c', Inr pos)"
  shows "kv_inv c' (log @ [(unat pos, unat tokens)])"
proof (rule reserve_cases [OF inv r])
  fix b p
  assume al: "pai_buddy_alloc (kbuddy c) (block_bytes c * ucast tokens) 64 = (b, Some p)"
    and t: "tokens \<noteq> 0" and fits: "unat (positions c) + unat tokens \<le> unat (capacity_tokens c)"
    and u: "unat (block_bytes c * ucast tokens) = bb c * unat tokens" and pos0: "0 < bb c * unat tokens"
    and eq: "Returns (c', Inr pos) = Returns
       (c\<lparr>kbuddy := b, block_ptrs := (block_ptrs c)[unat (positions c) := of_nat (p - kregion c)],
          block_bytes_used := (block_bytes_used c)[unat (positions c) := ucast (block_bytes c * ucast tokens)],
          positions := positions c + tokens, stats_blocks := stats_blocks c + 1\<rparr>,
        Inr (positions c) :: u32 res)"
  let ?i = "unat (positions c)" and ?n = "block_bytes c * ucast tokens :: u64"
  from eq have c': "c' = c\<lparr>kbuddy := b, block_ptrs := (block_ptrs c)[?i := of_nat (p - kregion c)],
          block_bytes_used := (block_bytes_used c)[?i := ucast ?n],
          positions := positions c + tokens, stats_blocks := stats_blocks c + 1\<rparr>" and pos: "pos = positions c"
    by simp_all
  obtain M where live: "buddy_live (kbuddy c) M" and sh: "kv_shape c"
    and dm: "dom M = (\<lambda>(s, t). block_at c s) ` set log"
    and all: "\<forall>(s, t) \<in> set log. 0 < t \<and> s + t \<le> ?i \<and> M (block_at c s) = Some (t * bb c) \<and>
           unat (block_bytes_used c ! s) = t * bb c"
    and so: "sorted_wrt (\<lambda>(s, t) (s', t'). s + t \<le> s' \<and> block_at c s \<noteq> block_at c s') log"
    and sm: "sum_list (map snd log) = ?i"
    using inv unfolding kv_inv_def by blast
  have old: "0 < m \<and> s + m \<le> ?i \<and> M (block_at c s) = Some (m * bb c) \<and> unat (block_bytes_used c ! s) = m * bb c"
    if "(s, m) \<in> set log" for s m
    using all that by auto
  have n0: "0 < ?n" using pos0 u by (simp add: word_less_nat_alt)
  have b: "buddy_live b (M(p \<mapsto> bb c * unat tokens))" "p \<notin> dom M" using buddy.alloc_some [OF live al n0] u by auto
  note bd = kv_alloc_bound [OF live al n0]
  have t0: "0 < unat tokens" using t by (simp add: unat_gt_0)
  have cap: "unat (capacity_tokens c) \<le> 128" using sh by (simp add: kv_shape_def)
  have sum: "unat (positions c + tokens) = ?i + unat tokens"
    using fits cap by (simp add: unat_word_ariths)
  have reg: "base b = kregion c" "size b = unat (region_size c)" using buddy_alloc_region [OF al] sh by (simp_all add: kv_shape_def)
  have "p < 2 ^ 64" "kregion c \<le> p" using bd sh unfolding kv_shape_def by linarith+
  then have off: "unat (of_nat (p - kregion c) :: u64) = p - kregion c" "kregion c \<le> p"
    by (simp_all add: unsigned_of_nat take_bit_nat_eq_self del: of_nat_diff)
  have i: "?i < length (block_ptrs c)" "?i < length (block_bytes_used c)" using sh fits t0 by (auto simp: kv_shape_def)
  have le30: "bb c * unat tokens \<le> 2 ^ 30" using bd(1) u sh by (simp add: kv_shape_def)
  then have used: "unat (ucast ?n :: u32) = bb c * unat tokens"
    using u by (simp add: unsigned_ucast_eq take_bit_nat_eq_self)
  have kb: "kbuddy c' = b" by (simp add: c')
  have at: "block_at c' ?i = p" using off i by (simp add: block_at_def c')
  have at': "block_at c' s = block_at c s" "block_bytes_used c' ! s = block_bytes_used c ! s" if "s < ?i" for s
    using that by (simp_all add: block_at_def c')
  have lt: "s < ?i" if "(s, t) \<in> set log" for s t using old [OF that] by linarith
  have "kv_shape c'"
  proof -
    have "bb c \<le> bb c * unat tokens" using t0 by simp
    then have "bb c \<le> unat (region_size c)" using bd(1) u sh unfolding kv_shape_def by linarith
    then show ?thesis using sh fits reg sum by (simp add: kv_shape_def c' bb_def)
  qed
  moreover have "sum_list (map snd (log @ [(unat pos, unat tokens)])) = unat (positions c')"
    using sm sum by (simp add: c')
  moreover have "sorted_wrt (\<lambda>(s, t) (s', t'). s + t \<le> s' \<and> block_at c' s \<noteq> block_at c' s')
      (log @ [(unat pos, unat tokens)])"
    unfolding sorted_wrt_append
  proof (intro conjI)
    show "sorted_wrt (\<lambda>(s, t) (s', t'). s + t \<le> s' \<and> block_at c' s \<noteq> block_at c' s') log"
      using so by (rule sorted_wrt_mono_rel [rotated]) (auto simp: at' dest: lt)
    show "\<forall>x \<in> set log. \<forall>y \<in> set [(unat pos, unat tokens)].
        (\<lambda>(s, t) (s', t'). s + t \<le> s' \<and> block_at c' s \<noteq> block_at c' s') x y"
    proof clarsimp
      fix s m assume x: "(s, m) \<in> set log"
      then have "block_at c s \<in> dom M" using old by blast
      then have "block_at c s \<noteq> p" using b(2) by blast
      then show "s + m \<le> unat pos \<and> block_at c' s \<noteq> block_at c' (unat pos)"
        using old [OF x] at at'(1) [OF lt [OF x]] pos by simp
    qed
  qed simp
  moreover have "dom (M(p \<mapsto> bb c * unat tokens)) = (\<lambda>(s, t). block_at c' s) ` set (log @ [(unat pos, unat tokens)])"
  proof -
    have "(\<lambda>(s, t). block_at c' s) ` set log = (\<lambda>(s, t). block_at c s) ` set log"
      by (rule image_cong) (auto simp: at' dest: lt)
    then show ?thesis using dm at pos by simp
  qed
  moreover have "0 < m \<and> s + m \<le> unat (positions c') \<and>
      (M(p \<mapsto> bb c * unat tokens)) (block_at c' s) = Some (m * bb c') \<and> unat (block_bytes_used c' ! s) = m * bb c'"
    if x: "(s, m) \<in> set (log @ [(unat pos, unat tokens)])" for s m
  proof (cases "(s, m) \<in> set log")
    case True
    then have "block_at c s \<noteq> p" using dm b(2) by force
    then show ?thesis using old [OF True] at' [OF lt [OF True]] sum by (simp add: c' bb_def)
  next
    case False
    then show ?thesis using x at used t0 i sum pos by (simp add: c' bb_def mult.commute)
  qed
  ultimately show ?thesis unfolding kv_inv_def using b(1) kb by blast
qed (use r in simp)

lemma buddy_inv_owned [simp]: "buddy_inv (b\<lparr>owned := ow\<rparr>) L \<longleftrightarrow> buddy_inv b L"
  by (simp add: buddy_inv_def core_def geometry_def free_set_def)

lemma buddy_init_ok:
  assumes "pai_buddy_init h memory rs = Returns (Inr b)" "memory + unat rs < 2 ^ 64"
  shows "buddy_live (b\<lparr>owned := ow\<rparr>) Map.empty" "base b = memory" "size b = unat rs" "unat rs \<le> 2 ^ 30" "0 < memory"
    "memory mod unat rs = 0" "pai_mem_is_pow2 rs" "128 \<le> unat rs"
proof -
  have i: "buddy_inv b Map.empty \<and> base b = memory \<and> size b = unat rs" using buddy_init_inv [OF assms] .
  then have "buddy_inv (b\<lparr>owned := ow\<rparr>) Map.empty" by simp
  then show "buddy_live (b\<lparr>owned := ow\<rparr>) Map.empty" by (auto simp: buddy_live_def intro!: exI [of _ Map.empty])
  have g: "geometry b" using i by (simp add: buddy_inv_def core_def)
  have "(2 :: nat) ^ max_order b \<le> 2 ^ 30" using g by (intro power_increasing) (auto simp: geometry_def)
  then show "base b = memory" "size b = unat rs" "unat rs \<le> 2 ^ 30" using i g by (auto simp: geometry_def)
  show "0 < memory" "memory mod unat rs = 0" "pai_mem_is_pow2 rs" "128 \<le> unat rs"
    using assms(1) by (auto simp: pai_buddy_init_def PAI_BUDDY_MIN_SIZE_def word_less_nat_alt split: if_splits)
qed

lemma round_block_ge: "6 \<le> k \<Longrightarrow> k \<le> 30 \<Longrightarrow> 64 \<le> unat (round_block k n)"
proof (induction k n rule: round_block.induct)
  case (1 k n)
  have "(2 :: nat) ^ 6 \<le> 2 ^ k" using 1(2) by (intro power_increasing) auto
  then show ?case using 1 pow2_word [of k] by (subst round_block.simps) auto
qed

lemma cap_bound: "unat (block_tokens_cap rs n) \<le> 128"
  by (simp add: block_tokens_cap_def Let_def PAI_KV_BLOCK_TOKENS_def word_less_nat_alt)

lemma cap_ucast: "unat (ucast (block_tokens_cap rs n) :: u32) = unat (block_tokens_cap rs n)"
  using cap_bound [of rs n] by (simp add: unsigned_ucast_eq take_bit_nat_eq_self)

lemma init_inv:
  assumes "pai_kv_cache_init h memory rs nl kvb ok = Returns (Inr c)" "memory + unat rs < 2 ^ 64"
  shows "kv_inv (c\<lparr>owned_region := r, kbuddy := (kbuddy c)\<lparr>owned := ow\<rparr>\<rparr>) []"
proof -
  obtain b where b: "pai_buddy_init h memory rs = Returns (Inr b)"
    using assms(1) by (auto simp: pai_kv_cache_init_def split: if_splits outcome.splits sum.splits)
  note ok = buddy_init_ok [OF b assms(2)]
  have f: "kbuddy c = b" "kregion c = memory" "region_size c = rs" "num_layers c = nl" "kv_bytes_per_token c = kvb"
    "positions c = 0" "block_tokens_cap rs (ucast nl * ucast kvb) \<noteq> 0"
    "capacity_tokens c = ucast (block_tokens_cap rs (ucast nl * ucast kvb))"
    "length (block_ptrs c) = unat (capacity_tokens c)" "length (prefix_hashes c) = unat (capacity_tokens c)"
    "length (block_bytes_used c) = unat (capacity_tokens c)"
    using assms(1) b by (auto simp: pai_kv_cache_init_def Let_def cap_ucast split: if_splits)
  have n: "nl \<noteq> 0" "nl \<le> 64" "kvb \<noteq> 0"
    using assms(1) by (auto simp: pai_kv_cache_init_def PAI_KV_MAX_LAYERS_def not_less split: if_splits)
  have "kv_shape (c\<lparr>owned_region := r, kbuddy := (kbuddy c)\<lparr>owned := ow\<rparr>\<rparr>)"
    using ok f n cap_bound [of rs "ucast nl * ucast kvb"] assms(2)
    by (simp add: kv_shape_def cap_ucast unat_gt_0 word_le_nat_alt)
  then show ?thesis using ok(1) f by (auto simp: kv_inv_def intro!: exI [of _ Map.empty])
qed

lemma kv_inv_fields:
  assumes "kv_inv c log" "kbuddy c' = kbuddy c" "kregion c' = kregion c" "region_size c' = region_size c"
    "num_layers c' = num_layers c" "kv_bytes_per_token c' = kv_bytes_per_token c" "positions c' = positions c"
    "capacity_tokens c' = capacity_tokens c" "block_ptrs c' = block_ptrs c" "block_bytes_used c' = block_bytes_used c"
    "length (prefix_hashes c') = length (prefix_hashes c)"
  shows "kv_inv c' log"
  using assms by (simp add: kv_inv_def kv_shape_def bb_def block_at_def)

lemma touch_inv:
  assumes "kv_inv c log" "pai_kv_cache_touch c p hash = Returns (c', hit)"
  shows "kv_inv c' log"
  by (rule kv_inv_fields [OF assms(1)])
    (use assms(2) in \<open>auto simp: pai_kv_cache_touch_def Let_def split: if_splits\<close>)

lemma touch_total: "kv_inv c log \<Longrightarrow> \<exists>c' hit. pai_kv_cache_touch c p hash = Returns (c', hit)"
  by (auto simp: pai_kv_cache_touch_def Let_def kv_inv_def kv_shape_def word_le_nat_alt not_le)

lemma reset_inv:
  assumes "kv_inv c log"
  shows "\<exists>c'. pai_kv_cache_reset c = Returns c' \<and> kv_inv c' []"
proof -
  have s: "kv_shape c" using assms by (simp add: kv_inv_def)
  obtain k where k: "unat (region_size c) = 2 ^ k" "k < 64" using s by (auto simp: kv_shape_def is_pow2_nat)
  have "(2 :: nat) ^ k \<le> 2 ^ 30" using s k(1) by (simp add: kv_shape_def)
  then have "k \<le> 30" by (rule power_le_imp_le_exp [rotated]) simp
  then have "pai_mem_floor_log2 (region_size c) \<le> 30" using floor_log2_pow2 [OF k] by simp
  then obtain b where b: "pai_buddy_init (heap (kbuddy c)) (kregion c) (region_size c) = Returns (Inr b)"
    using s by (auto simp: pai_buddy_init_def kv_shape_def PAI_BUDDY_MIN_SIZE_def PAI_BUDDY_MAX_ORDER_def
        word_less_nat_alt Let_def)
  note ok = buddy_init_ok [OF b]
  have top: "kregion c + unat (region_size c) < 2 ^ 64" using s by (simp add: kv_shape_def)
  let ?c = "c\<lparr>positions := 0, tick := 0, last_touched := 0, stats_blocks := 0, stats_prefix_hits := 0,
      stats_prefix_miss := 0, block_ptrs := replicate (unat (capacity_tokens c)) 0,
      prefix_hashes := replicate (unat (capacity_tokens c)) 0,
      block_bytes_used := replicate (unat (capacity_tokens c)) 0, kbuddy := b\<lparr>owned := owned (kbuddy c)\<rparr>\<rparr>"
  have "pai_kv_cache_reset c = Returns ?c"
    using b s by (simp add: pai_kv_cache_reset_def pai_buddy_destroy_def kv_shape_def Let_def)
  moreover have "kv_inv ?c []"
    using ok [OF top] s by (auto simp: kv_inv_def kv_shape_def intro!: exI [of _ Map.empty])
  ultimately show ?thesis by blast
qed

lemma init_owned_inv:
  assumes "pai_kv_cache_init_owned h raw rs nl kvb ok = Returns (Inr c)" "raw + 2 * unat rs < 2 ^ 64"
  shows "kv_inv c []"
proof -
  let ?m = "raw + (unat rs - raw mod unat rs) mod unat rs"
  obtain c0 where i: "pai_kv_cache_init h ?m rs nl kvb ok = Returns (Inr c0)"
    and c: "c = c0\<lparr>owned_region := True, kbuddy := (kbuddy c0)\<lparr>owned := Some raw\<rparr>\<rparr>" and r: "\<not> rs < 128"
    using assms(1)
    by (auto simp: pai_kv_cache_init_owned_def PAI_BUDDY_MIN_SIZE_def split: if_splits outcome.splits sum.splits)
  have "0 < unat rs" using r by (simp add: word_less_nat_alt)
  then have "(unat rs - raw mod unat rs) mod unat rs < unat rs" by simp
  then have "?m + unat rs < 2 ^ 64" using assms(2) by linarith
  from init_inv [OF i this] show ?thesis by (simp add: c)
qed

lemma kv_run_inv: "kv_run c log \<Longrightarrow> kv_inv c log"
proof (induction rule: kv_run.induct)
  case (kv_init h memory rs nl kvb ok c)
  from init_inv [OF this, where r = "owned_region c" and ow = "owned (kbuddy c)"] show ?case by simp
next
  case (kv_init_owned h raw rs nl kvb ok c)
  then show ?case by (rule init_owned_inv)
next
  case (kv_reserve c log tokens c' pos)
  then show ?case using reserve_inv by blast
next
  case (kv_reserve_err c log tokens c' e)
  then show ?case using reserve_cases [OF kv_reserve_err(3,2)] by auto
next
  case (kv_touch c log p hash c' hit)
  then show ?case using touch_inv by blast
next
  case (kv_reset c log c')
  then show ?case using reset_inv by fastforce
qed

section \<open>The prefix hash\<close>

definition fnv_step :: "u64 \<Rightarrow> u8 \<Rightarrow> u64" where
  "fnv_step h x = (h XOR ucast x) * 0x100000001B3"

lemma prefix_hash_fnv: "pai_kv_prefix_hash h t = foldl fnv_step h (put_le32 t)"
proof -
  have m: "(0xFF :: u32) = mask 8" by (simp add: mask_eq_exp_minus_1)
  have b: "(ucast (x AND 0xFF) :: u64) = ucast (ucast x :: u8)" "(ucast (x AND 0xFF) :: u8) = ucast x" for x :: u32
    unfolding m by (rule bit_word_eqI, auto simp: bit_simps)+
  show ?thesis by (simp only: pai_kv_prefix_hash_def put_le32_def fnv_step_def Let_def b foldl.simps)
qed

lemma fnv_prime_unit: "(0x100000001B3 :: u64) * 0xCE965057AFF6957B = 1"
  by simp

lemma fnv_step_inj: "fnv_step h x = fnv_step g x \<Longrightarrow> h = g"
proof -
  assume "fnv_step h x = fnv_step g x"
  then have "(h XOR ucast x) * (0x100000001B3 * 0xCE965057AFF6957B) = (g XOR ucast x) * (0x100000001B3 * 0xCE965057AFF6957B)"
    unfolding fnv_step_def mult.assoc [symmetric] by (rule arg_cong)
  then have "h XOR ucast x = g XOR ucast x" unfolding fnv_prime_unit by simp
  then have "(h XOR ucast x) XOR ucast x = (g XOR ucast x) XOR ucast x" by simp
  then show "h = g" by (simp add: xor.assoc)
qed

lemma fnv_fold_inj: "foldl fnv_step h bs = foldl fnv_step g bs \<Longrightarrow> h = g"
  by (induction bs arbitrary: h g) (auto dest: fnv_step_inj)

section \<open>Properties\<close>

definition demo_kv :: pai_kv_cache where
  "demo_kv =
     \<lparr>kbuddy = demo_buddy, kregion = 4096, region_size = 1024, owned_region = False, num_layers = 1,
      kv_bytes_per_token = 100, capacity_tokens = 8, block_ptrs = replicate 8 0, prefix_hashes = replicate 8 0,
      block_bytes_used = replicate 8 0, positions = 0, last_touched = 0, tick = 0, quant_enabled = 0,
      spill_enabled = 0, stats_blocks = 0, stats_prefix_hits = 0, stats_prefix_miss = 0\<rparr>"

lemma demo_kv_init: "pai_kv_cache_init zero_heap 4096 1024 1 100 True = Returns (Inr demo_kv)"
proof -
  have "block_tokens_cap 1024 100 = 8" by (simp add: block_tokens_cap_def round_block.simps PAI_KV_BLOCK_TOKENS_def)
  then show ?thesis by (simp add: pai_kv_cache_init_def demo_buddy_init kv_consts demo_kv_def)
qed

lemma demo_kv_run: "kv_run demo_kv []"
  using kv_init [OF demo_kv_init] by simp

lemma demo_kv_reserve:
  "\<exists>c'. pai_kv_cache_reserve demo_kv 1 = Returns (c', Inr 0) \<and> kv_run c' [(0, 1)] \<and> block_ptrs c' ! 0 = 64 \<and>
     bb c' = 100"
proof -
  obtain b where "pai_buddy_alloc demo_buddy 100 64 = (b, Some 4160)" using demo_alloc by blast
  then have "\<exists>c'. pai_kv_cache_reserve demo_kv 1 = Returns (c', Inr 0) \<and> block_ptrs c' ! 0 = 64 \<and> bb c' = 100"
    by (simp add: pai_kv_cache_reserve_def demo_kv_def block_bytes_def bb_def)
  then show ?thesis using kv_reserve [OF demo_kv_run, of 1] by fastforce
qed

text \<open>C35. In every state a cache can reach, the blocks of its reservations lie inside the region, are
  pairwise disjoint and as large as their tokens need, the reservations cover the positions without
  overlap, and no array of the cache is indexed outside its bounds.\<close>

theorem kv_blocks_safe:
  assumes "kv_run c log" and "(s, t) \<in> set log"
  shows "sum_list (map snd log) = unat (positions c) \<and> positions c \<le> capacity_tokens c \<and>
    s < length (block_ptrs c) \<and> unat (block_bytes_used c ! s) = t * bb c \<and>
    unat (block_ptrs c ! s) + t * bb c \<le> unat (region_size c) \<and>
    (\<forall>(s', t') \<in> set log. (s', t') = (s, t) \<or>
       (s + t \<le> s' \<or> s' + t' \<le> s) \<and>
       (unat (block_ptrs c ! s) + t * bb c \<le> unat (block_ptrs c ! s') \<or>
        unat (block_ptrs c ! s') + t' * bb c \<le> unat (block_ptrs c ! s)))"
proof -
  from kv_run_inv [OF assms(1)] obtain M where live: "buddy_live (kbuddy c) M" and sh: "kv_shape c"
    and so: "sorted_wrt (\<lambda>(s, t) (s', t'). s + t \<le> s' \<and> block_at c s \<noteq> block_at c s') log"
    and sm: "sum_list (map snd log) = unat (positions c)"
    and all: "\<forall>(s, t) \<in> set log. 0 < t \<and> s + t \<le> unat (positions c) \<and> M (block_at c s) = Some (t * bb c) \<and>
           unat (block_bytes_used c ! s) = t * bb c"
    unfolding kv_inv_def by blast
  have old: "0 < m" "s + m \<le> unat (positions c)" "M (block_at c s) = Some (m * bb c)"
    "unat (block_bytes_used c ! s) = m * bb c" if "(s, m) \<in> set log" for s m
    using all that by auto
  have reg: "unat (block_ptrs c ! s) + t * bb c \<le> unat (region_size c)"
  proof -
    have "0 < t * bb c" using old(1) [OF assms(2)] sh by (simp add: kv_shape_def bb_def)
    with buddy.live_region [OF live old(3) [OF assms(2)]] show ?thesis
      using sh by (auto simp: buddy_region_def block_at_def kv_shape_def)
  qed
  have dis: "(s', t') = (s, t) \<or> (s + t \<le> s' \<or> s' + t' \<le> s) \<and> block_at c s \<noteq> block_at c s'"
    if x: "(s', t') \<in> set log" for s' t'
  proof -
    obtain i j where ij: "i < length log" "log ! i = (s, t)" "j < length log" "log ! j = (s', t')"
      using assms(2) x unfolding in_set_conv_nth by blast
    have "i < j \<longrightarrow> s + t \<le> s' \<and> block_at c s \<noteq> block_at c s'" "j < i \<longrightarrow> s' + t' \<le> s \<and> block_at c s' \<noteq> block_at c s"
      using sorted_wrt_nth_less [OF so, of i j] sorted_wrt_nth_less [OF so, of j i] ij by auto
    then show ?thesis using ij by (cases i j rule: linorder_cases) auto
  qed
  have sep: "(s', t') = (s, t) \<or> (s + t \<le> s' \<or> s' + t' \<le> s) \<and>
       (unat (block_ptrs c ! s) + t * bb c \<le> unat (block_ptrs c ! s') \<or>
        unat (block_ptrs c ! s') + t' * bb c \<le> unat (block_ptrs c ! s))" if "(s', t') \<in> set log" for s' t'
    using dis [OF that] buddy.live_disjoint [OF live old(3) [OF assms(2)] old(3) [OF that]]
    by (auto simp: block_at_def)
  have "s < length (block_ptrs c)" using old(1,2) [OF assms(2)] sh by (auto simp: kv_shape_def)
  then show ?thesis using sm reg sep old [OF assms(2)] sh by (auto simp: kv_shape_def word_le_nat_alt)
qed

theorem kv_blocks_safe_witness:
  "\<exists>c. kv_run c [(0, 1)] \<and> unat (block_ptrs c ! 0) = 64 \<and> unat (block_bytes_used c ! 0) = 100"
proof -
  obtain c where c: "kv_run c [(0, 1)]" "block_ptrs c ! 0 = 64" "bb c = 100" using demo_kv_reserve by blast
  have "unat (block_bytes_used c ! 0) = 1 * bb c" using kv_blocks_safe [OF c(1), of 0 1] by simp
  moreover have "unat (block_ptrs c ! 0) = 64" using c(2) by simp
  ultimately show ?thesis using c(1,3) by auto
qed

text \<open>\<open>pai_kv_cache_reserve\<close> never faults. It returns the old number of positions and adds the
  tokens when they fit the capacity and the region has a free block large enough, and otherwise
  leaves the cache as it was; the 32-bit sum of positions and tokens may wrap without harm.\<close>

theorem kv_reserve_exact:
  assumes "kv_run c log"
  shows "if tokens \<noteq> 0 \<and> unat (positions c) + unat tokens \<le> unat (capacity_tokens c) \<and>
       (\<exists>(a, ord) \<in> free_set (kbuddy c). alloc_order (of_nat (bb c * unat tokens)) 64 \<le> ord)
    then \<exists>c'. pai_kv_cache_reserve c tokens = Returns (c', Inr (positions c)) \<and>
      unat (positions c') = unat (positions c) + unat tokens
    else pai_kv_cache_reserve c tokens =
      Returns (c, Inl (if tokens = 0 then PAI_ERR_INVALID_ARG else PAI_ERR_NOMEM))"
proof -
  have inv: "kv_inv c log" using kv_run_inv [OF assms] .
  then obtain M where live: "buddy_live (kbuddy c) M" and sh: "kv_shape c" by (auto simp: kv_inv_def)
  obtain L where L: "buddy_inv (kbuddy c) L" using live by (auto simp: buddy_live_def)
  have iff: "snd (pai_buddy_alloc (kbuddy c) (block_bytes c * ucast tokens) 64) = None \<longleftrightarrow>
      \<not> (\<exists>(a, ord) \<in> free_set (kbuddy c). alloc_order (of_nat (bb c * unat tokens)) 64 \<le> ord)"
    if "tokens \<noteq> 0" "unat (positions c) + unat tokens \<le> unat (capacity_tokens c)"
  proof -
    have "unat tokens \<le> 128" using that(2) sh by (simp add: kv_shape_def)
    then have "bb c * unat tokens \<le> 2 ^ 38 * 128" using bb_less [OF sh] by (intro mult_le_mono) auto
    then have fit: "bb c * unat tokens + 96 < 2 ^ 64" by simp
    then have u: "unat (block_bytes c * ucast tokens) = bb c * unat tokens" using need_unat [OF sh] by simp
    have w: "block_bytes c * ucast tokens = of_nat (bb c * unat tokens)" unfolding u [symmetric] by simp
    have "0 < bb c * unat tokens" using sh that(1) by (simp add: kv_shape_def bb_def unat_gt_0)
    then have "block_bytes c * ucast tokens \<noteq> 0" using u by auto
    from buddy_alloc_none_iff [OF L this, of 64] show ?thesis
      using u fit by (simp add: w pai_mem_is_pow2_def not_le split_beta)
  qed
  show ?thesis
  proof (rule reserve_cases [OF inv refl])
    fix e assume "pai_kv_cache_reserve c tokens = Returns (c, Inl e)"
      "e = (if tokens = 0 then PAI_ERR_INVALID_ARG else PAI_ERR_NOMEM)"
      "tokens = 0 \<or> unat (positions c) + unat tokens > unat (capacity_tokens c) \<or>
        snd (pai_buddy_alloc (kbuddy c) (block_bytes c * ucast tokens) 64) = None"
    then show ?thesis using iff by (auto simp: not_less)
  next
    fix b p assume a: "tokens \<noteq> 0" "unat (positions c) + unat tokens \<le> unat (capacity_tokens c)"
      "pai_buddy_alloc (kbuddy c) (block_bytes c * ucast tokens) 64 = (b, Some p)"
      "pai_kv_cache_reserve c tokens = Returns
       (c\<lparr>kbuddy := b, block_ptrs := (block_ptrs c)[unat (positions c) := of_nat (p - kregion c)],
          block_bytes_used := (block_bytes_used c)[unat (positions c) := ucast (block_bytes c * ucast tokens)],
          positions := positions c + tokens, stats_blocks := stats_blocks c + 1\<rparr>,
        Inr (positions c))"
    have "unat (positions c + tokens) = unat (positions c) + unat tokens"
      using a(2) sh by (simp add: unat_word_ariths kv_shape_def)
    then show ?thesis using a iff by simp
  qed
qed

theorem kv_reserve_exact_witness: "pai_kv_cache_reserve demo_kv 9 = Returns (demo_kv, Inl PAI_ERR_NOMEM)"
  using kv_reserve_exact [OF demo_kv_run, of 9] by (simp add: demo_kv_def)

lemma round_block_pow2: "j \<le> k \<Longrightarrow> k \<le> 30 \<Longrightarrow> round_block j (2 ^ k) = 2 ^ k"
proof (induction j "2 ^ k :: u64" rule: round_block.induct)
  case (1 j)
  have "(2 ^ j :: u64) < 2 ^ k \<longleftrightarrow> j < k"
    using pow2_word [of j] pow2_word [of k] 1(2,3) by (simp add: word_less_nat_alt)
  then show ?case using 1 by (subst round_block.simps) auto
qed

text \<open>The capacity that \<open>pai_kv_cache_init\<close> claims is not available: when a block is a power of two
  of at least 64 bytes and the region holds at most 128 of them, the claimed capacity is the whole
  region, and reserving it on the fresh cache fails, because the allocator adds its header and the
  alignment to the request.\<close>

theorem kv_capacity_unreachable:
  assumes "pai_kv_cache_init h memory (2 ^ m) nl kvb ok = Returns (Inr c)"
    and "unat nl * unat kvb = 2 ^ k" and "6 \<le> k" and "k \<le> m" and "m \<le> k + 7" and "m \<le> 30"
    and "memory + 2 ^ m < 2 ^ 64"
  shows "unat (pai_kv_cache_capacity_bytes c) = 2 ^ m \<and>
    pai_kv_cache_reserve c (capacity_tokens c) = Returns (c, Inl PAI_ERR_NOMEM)"
proof -
  have um: "unat (2 ^ m :: u64) = 2 ^ m" using pow2_word [of m] assms(6) by simp
  have "memory + unat (2 ^ m :: u64) < 2 ^ 64" unfolding um by (rule assms(7))
  then have inv: "kv_inv c []" by (intro kv_run_inv kv_init [OF assms(1)])
  then have sh: "kv_shape c" by (simp add: kv_inv_def)
  obtain b where b: "pai_buddy_init h memory (2 ^ m) = Returns (Inr b)"
    using assms(1) by (auto simp: pai_kv_cache_init_def split: if_splits outcome.splits sum.splits)
  have f: "num_layers c = nl" "kv_bytes_per_token c = kvb" "positions c = 0" "kbuddy c = b"
    "capacity_tokens c = ucast (block_tokens_cap (2 ^ m) (ucast nl * ucast kvb))"
    using assms(1) b by (auto simp: pai_kv_cache_init_def Let_def split: if_splits)
  have mo: "max_order b = m"
    using b floor_log2_pow2 [OF um] assms(6) by (auto simp: pai_buddy_init_def Let_def free_list_push_def split: if_splits)
  have ubb: "unat (ucast nl * ucast kvb :: u64) = 2 ^ k"
    using block_bytes_unat [OF sh] assms(2) by (simp add: block_bytes_def bb_def f)
  then have w: "ucast nl * ucast kvb = (2 ^ k :: u64)"
    using pow2_word [of k] assms(4,6) by (simp add: word_unat_eq_iff)
  have "(2 :: nat) ^ (m - k) \<le> 2 ^ 7" using assms(5) by (intro power_increasing) auto
  then have cap: "unat (capacity_tokens c) = 2 ^ (m - k)"
    using um pow2_word [of k] assms(4,6) round_block_pow2 [of 6 k] assms(3)
    by (simp add: f cap_ucast) (simp add: block_tokens_cap_def w Let_def unat_div PAI_KV_BLOCK_TOKENS_def word_less_nat_alt power_diff)
  have pw: "(2 :: nat) ^ (m - k) * 2 ^ k = 2 ^ m" using assms(4) by (simp flip: power_add)
  have m64: "(2 :: nat) ^ m \<le> 2 ^ 30" using assms(6) by (rule power_increasing) simp
  have "pai_kv_cache_capacity_bytes c = ucast (capacity_tokens c) * (ucast nl * ucast kvb)"
    by (simp add: pai_kv_cache_capacity_bytes_def f mult.assoc)
  then have cb: "unat (pai_kv_cache_capacity_bytes c) = 2 ^ m"
    using cap ubb m64 pw by (simp add: unat_word_ariths unat_ucast_up)
  have need: "unat (block_bytes c * ucast (capacity_tokens c)) = 2 ^ m"
    using need_unat [OF sh, of "capacity_tokens c"] cap assms(2) pw m64 by (simp add: bb_def f mult.commute)
  have sum: "unat (block_bytes c * ucast (capacity_tokens c) + 64 + of_nat PAI_BUDDY_HEADER) = 2 ^ m + 96"
    using need m64 by (simp add: unat_word_ariths PAI_BUDDY_HEADER_def)
  let ?o = "pai_mem_ceil_log2 (block_bytes c * ucast (capacity_tokens c) + 64 + of_nat PAI_BUDDY_HEADER)"
  have "unat (block_bytes c * ucast (capacity_tokens c) + 64 + of_nat PAI_BUDDY_HEADER) \<le> 2 ^ 63"
    unfolding sum using m64 by simp
  from ceil_log2_bounds(2) [OF this] have "2 ^ m + 96 \<le> (2 :: nat) ^ ?o" unfolding sum .
  then have "(2 :: nat) ^ m < 2 ^ ?o" by linarith
  then have "m < ?o" by (rule power_less_imp_less_exp [rotated]) simp
  then have "max_order b < alloc_order (block_bytes c * ucast (capacity_tokens c)) 64"
    using assms(3,4) by (simp add: mo alloc_order_def Let_def)
  then have "snd (pai_buddy_alloc (kbuddy c) (block_bytes c * ucast (capacity_tokens c)) 64) = None"
    by (simp add: pai_buddy_alloc_def Let_def f)
  moreover have "capacity_tokens c \<noteq> 0" using cap by auto
  ultimately have "pai_kv_cache_reserve c (capacity_tokens c) = Returns (c, Inl PAI_ERR_NOMEM)"
    by (cases rule: reserve_cases [OF inv refl, of "capacity_tokens c"]) simp_all
  then show ?thesis using cb by blast
qed

theorem kv_capacity_unreachable_witness:
  "\<exists>c. pai_kv_cache_init zero_heap 4096 1024 1 64 True = Returns (Inr c) \<and>
     unat (pai_kv_cache_capacity_bytes c) = 1024 \<and>
     pai_kv_cache_reserve c (capacity_tokens c) = Returns (c, Inl PAI_ERR_NOMEM)"
proof -
  have "block_tokens_cap 1024 64 = 16" by (simp add: block_tokens_cap_def round_block.simps PAI_KV_BLOCK_TOKENS_def)
  then obtain c where "pai_kv_cache_init zero_heap 4096 (2 ^ 10) 1 64 True = Returns (Inr c)"
    by (simp add: pai_kv_cache_init_def demo_buddy_init kv_consts)
  from kv_capacity_unreachable [OF this, of 6] this show ?thesis by auto
qed

end
