(* ===== verification/Tensor.thy ===== *)
theory Tensor
  imports Prelude
begin

text \<open>
  \<^verbatim>\<open>tensor/dtype.c\<close> and \<^verbatim>\<open>tensor/tensor.c\<close>: datatype tables, quantization descriptors and
  dense row-major tensor descriptors. Floats are their IEEE 754 bit patterns, which is all the
  descriptor code looks at; \<open>PAI_DTYPE_COUNT\<close> stands for every value outside the enumeration.
\<close>

section \<open>Datatypes\<close>

datatype pai_dtype =
    PAI_DTYPE_F32 | PAI_DTYPE_F16 | PAI_DTYPE_BF16 | PAI_DTYPE_I32 | PAI_DTYPE_U32
  | PAI_DTYPE_I16 | PAI_DTYPE_U16 | PAI_DTYPE_I8 | PAI_DTYPE_U8 | PAI_DTYPE_COUNT

fun k_pai_dtype_info :: "pai_dtype \<Rightarrow> (u32 \<times> u32 \<times> string) option" where
  "k_pai_dtype_info PAI_DTYPE_F32 = Some (32, 4, ''f32'')"
| "k_pai_dtype_info PAI_DTYPE_F16 = Some (16, 2, ''f16'')"
| "k_pai_dtype_info PAI_DTYPE_BF16 = Some (16, 2, ''bf16'')"
| "k_pai_dtype_info PAI_DTYPE_I32 = Some (32, 4, ''i32'')"
| "k_pai_dtype_info PAI_DTYPE_U32 = Some (32, 4, ''u32'')"
| "k_pai_dtype_info PAI_DTYPE_I16 = Some (16, 2, ''i16'')"
| "k_pai_dtype_info PAI_DTYPE_U16 = Some (16, 2, ''u16'')"
| "k_pai_dtype_info PAI_DTYPE_I8 = Some (8, 1, ''i8'')"
| "k_pai_dtype_info PAI_DTYPE_U8 = Some (8, 1, ''u8'')"
| "k_pai_dtype_info PAI_DTYPE_COUNT = None"

definition pai_dtype_size :: "pai_dtype \<Rightarrow> u32" where
  "pai_dtype_size d = (case k_pai_dtype_info d of None \<Rightarrow> 0 | Some (bits, sz, nm) \<Rightarrow> sz)"

definition pai_dtype_bits :: "pai_dtype \<Rightarrow> u32" where
  "pai_dtype_bits d = (case k_pai_dtype_info d of None \<Rightarrow> 0 | Some (bits, sz, nm) \<Rightarrow> bits)"

definition pai_dtype_name :: "pai_dtype \<Rightarrow> string" where
  "pai_dtype_name d = (case k_pai_dtype_info d of None \<Rightarrow> ''?'' | Some (bits, sz, nm) \<Rightarrow> nm)"

definition pai_dtype_accumulator :: "pai_dtype \<Rightarrow> pai_dtype" where
  "pai_dtype_accumulator d =
     (if d \<in> {PAI_DTYPE_F32, PAI_DTYPE_I32, PAI_DTYPE_U32} then d
      else if d \<in> {PAI_DTYPE_F16, PAI_DTYPE_BF16} then PAI_DTYPE_F32
      else if d \<in> {PAI_DTYPE_I16, PAI_DTYPE_U16, PAI_DTYPE_I8, PAI_DTYPE_U8} then PAI_DTYPE_I32
      else PAI_DTYPE_COUNT)"

section \<open>Quantization descriptors\<close>

datatype quant_scheme = PAI_QUANT_NONE | PAI_QUANT_PER_TENSOR | PAI_QUANT_PER_CHANNEL

record pai_quant =
  scheme :: quant_scheme
  storage :: pai_dtype
  accumulator :: pai_dtype
  scale :: u32
  zero_point :: u32
  channels :: u32
  scale_ch :: "u32 list option"
  zero_point_ch :: "u32 list option"

definition f32_one :: u32 where "f32_one = 0x3F800000"
definition f32_isfinite :: "u32 \<Rightarrow> bool" where "f32_isfinite b \<longleftrightarrow> drop_bit 23 b AND 0xFF \<noteq> 0xFF"
definition f32_is_zero :: "u32 \<Rightarrow> bool" where "f32_is_zero b \<longleftrightarrow> b AND 0x7FFFFFFF = 0"

definition pai_quant_init :: pai_quant where
  "pai_quant_init = \<lparr>scheme = PAI_QUANT_NONE, storage = PAI_DTYPE_F32, accumulator = PAI_DTYPE_F32,
     scale = f32_one, zero_point = 0, channels = 0, scale_ch = None, zero_point_ch = None\<rparr>"

definition pai_quant_storage_ok :: "pai_dtype \<Rightarrow> bool" where
  "pai_quant_storage_ok d \<longleftrightarrow> d \<in> {PAI_DTYPE_I16, PAI_DTYPE_U16, PAI_DTYPE_I8, PAI_DTYPE_U8}"

definition pai_quant_init_per_tensor :: "pai_dtype \<Rightarrow> u32 \<Rightarrow> u32 \<Rightarrow> pai_quant res" where
  "pai_quant_init_per_tensor st sc zp =
     (if \<not> pai_quant_storage_ok st then Inl PAI_ERR_INVALID_ARG
      else if \<not> f32_isfinite sc \<or> f32_is_zero sc then Inl PAI_ERR_INVALID_ARG
      else Inr \<lparr>scheme = PAI_QUANT_PER_TENSOR, storage = st, accumulator = pai_dtype_accumulator st,
                scale = sc, zero_point = zp, channels = 0, scale_ch = None, zero_point_ch = None\<rparr>)"

definition pai_quant_init_per_channel ::
    "pai_dtype \<Rightarrow> u32 \<Rightarrow> u32 list option \<Rightarrow> u32 list option \<Rightarrow> pai_quant res" where
  "pai_quant_init_per_channel st ch sc zp =
     (if \<not> pai_quant_storage_ok st then Inl PAI_ERR_INVALID_ARG
      else if ch = 0 \<or> sc = None \<or> zp = None then Inl PAI_ERR_INVALID_ARG
      else Inr \<lparr>scheme = PAI_QUANT_PER_CHANNEL, storage = st, accumulator = pai_dtype_accumulator st,
                scale = f32_one, zero_point = 0, channels = ch, scale_ch = sc, zero_point_ch = zp\<rparr>)"

definition pai_quant_set_accumulator :: "pai_quant \<Rightarrow> pai_dtype \<Rightarrow> pai_quant res" where
  "pai_quant_set_accumulator q d =
     (if d = PAI_DTYPE_COUNT then Inl PAI_ERR_INVALID_ARG else Inr (q\<lparr>accumulator := d\<rparr>))"

definition pai_quant_accumulator :: "pai_quant \<Rightarrow> pai_dtype" where
  "pai_quant_accumulator q = accumulator q"

section \<open>Tensors\<close>

definition PAI_TENSOR_MAX_RANK :: nat where "PAI_TENSOR_MAX_RANK = 6"

text \<open>The first \<open>rank\<close> entries of the fixed arrays; \<open>rank\<close> is the length of \<open>shape\<close>.\<close>

record pai_tensor =
  dtype :: pai_dtype
  shape :: "u64 list"
  strides :: "u64 list"
  size_bytes :: u64
  data :: "u64 option"

text \<open>The stride loop runs from the last dimension to the first: the strides of a shape and the
  element count it ends with.\<close>

fun row_major :: "u64 list \<Rightarrow> u64 list \<times> u64" where
  "row_major [] = ([], 1)"
| "row_major (d # ds) = (case row_major ds of (ss, stride) \<Rightarrow> (stride # ss, stride * d))"

definition pai_tensor_init :: "pai_dtype \<Rightarrow> u64 list \<Rightarrow> u64 option \<Rightarrow> pai_tensor res" where
  "pai_tensor_init dt sh buf =
     (if length sh = 0 \<or> length sh > PAI_TENSOR_MAX_RANK then Inl PAI_ERR_INVALID_ARG
      else if pai_dtype_size dt = 0 then Inl PAI_ERR_UNSUPPORTED
      else if 0 \<in> set sh then Inl PAI_ERR_INVALID_ARG
      else
        (case row_major sh of (ss, stride) \<Rightarrow>
           Inr \<lparr>dtype = dt, shape = sh, strides = ss, size_bytes = stride * ucast (pai_dtype_size dt),
                data = buf\<rparr>))"

definition pai_tensor_nelem :: "pai_tensor \<Rightarrow> u64" where
  "pai_tensor_nelem t = foldl (\<lambda>n d. n * d) 1 (shape t)"

text \<open>The overflow-checked product of \<open>pai_tensor_contiguous_size\<close>.\<close>

fun checked_prod :: "u64 \<Rightarrow> u64 list \<Rightarrow> u64 option" where
  "checked_prod n [] = Some n"
| "checked_prod n (d # ds) = (if d = 0 \<or> n > - 1 div d then None else checked_prod (n * d) ds)"

definition pai_tensor_contiguous_size :: "pai_dtype \<Rightarrow> u64 list \<Rightarrow> u64 res" where
  "pai_tensor_contiguous_size dt sh =
     (if length sh = 0 \<or> length sh > PAI_TENSOR_MAX_RANK then Inl PAI_ERR_INVALID_ARG
      else if pai_dtype_size dt = 0 then Inl PAI_ERR_UNSUPPORTED
      else
        (case checked_prod 1 sh of
           None \<Rightarrow> Inl PAI_ERR_INVALID_ARG
         | Some n \<Rightarrow>
             if n > - 1 div ucast (pai_dtype_size dt) then Inl PAI_ERR_INVALID_ARG
             else Inr (n * ucast (pai_dtype_size dt))))"

definition pai_tensor_offset :: "pai_tensor \<Rightarrow> u64 list \<Rightarrow> u64" where
  "pai_tensor_offset t idx = foldl (\<lambda>off (i, s). off + i * s) 0 (zip idx (strides t))"

section \<open>Lemmas\<close>

definition nat_prod :: "u64 list \<Rightarrow> nat" where
  "nat_prod sh = prod_list (map unat sh)"

lemma unat_max_div: "d \<noteq> 0 \<Longrightarrow> unat ((- 1 :: u64) div d) = (2 ^ 64 - 1) div unat d"
  by (simp add: unat_div unsigned_minus_1_eq_mask mask_eq_exp_minus_1)

lemma mult_checked:
  assumes "d \<noteq> 0"
  shows "(n :: u64) \<le> - 1 div d \<longleftrightarrow> unat n * unat d < 2 ^ 64"
proof -
  have d: "0 < unat d" using assms by (simp add: unat_gt_0)
  have "n \<le> - 1 div d \<longleftrightarrow> unat n \<le> (2 ^ 64 - 1) div unat d"
    by (simp add: word_le_nat_alt unat_max_div [OF assms])
  also have "\<dots> \<longleftrightarrow> unat n * unat d \<le> 2 ^ 64 - 1"
    using d by (simp only: less_eq_div_iff_mult_less_eq)
  finally show ?thesis by auto
qed

lemma unat_mult_small: "unat (a :: u64) * unat b < 2 ^ 64 \<Longrightarrow> unat (a * b) = unat a * unat b"
  by (simp add: unat_word_ariths)

lemma nat_prod_simps [simp]:
  "nat_prod [] = 1" "nat_prod (d # ds) = unat d * nat_prod ds"
  by (simp_all add: nat_prod_def)

lemma nat_prod_pos: "0 \<notin> set sh \<Longrightarrow> 0 < nat_prod sh"
  by (induction sh) (auto simp: unat_gt_0)

lemma nat_prod_mono: "d \<noteq> 0 \<Longrightarrow> n \<le> n * unat (d :: u64)"
  by (cases "unat d") (auto simp: unat_eq_0)

text \<open>The product loop succeeds exactly when every factor is nonzero and the product fits.\<close>

lemma checked_prod_spec:
  "checked_prod n sh =
     (if 0 \<notin> set sh \<and> unat n * nat_prod sh < 2 ^ 64 then Some (of_nat (unat n * nat_prod sh))
      else None)"
proof (induction sh arbitrary: n)
  case (Cons d ds)
  show ?case
  proof (cases "d = 0 \<or> n > - 1 div d")
    case True
    then have *: "d = 0 \<or> \<not> unat n * unat d < 2 ^ 64"
      using mult_checked [of d n] by (auto simp: not_le)
    have **: "unat n * unat d \<le> unat n * nat_prod (d # ds)" if "0 \<notin> set ds"
      using nat_prod_pos [OF that] by simp
    have "\<not> (0 \<notin> set (d # ds) \<and> unat n * nat_prod (d # ds) < 2 ^ 64)"
    proof -
      have False if z: "0 \<notin> set (d # ds)" and lt: "unat n * nat_prod (d # ds) < 2 ^ 64"
      proof -
        have "d \<noteq> 0" "0 \<notin> set ds" using z by auto
        then show False
          using * ** lt by (meson le_less_trans)
      qed
      then show ?thesis by blast
    qed
    then show ?thesis
      using True by (simp only: checked_prod.simps if_True if_False)
  next
    case False
    then have "unat (n * d) = unat n * unat d"
      using mult_checked [of d n] by (intro unat_mult_small) (auto simp: not_less)
    then show ?thesis
      using False Cons [of "n * d"] by (simp add: ac_simps)
  qed
next
  case Nil
  then show ?case using unsigned_less [of n, where 'a = nat] by simp
qed

lemma esize_cases: "unat (pai_dtype_size dt) \<in> {0, 1, 2, 4}"
  by (cases dt) (simp_all add: pai_dtype_size_def)

lemma esize_ucast [simp]: "unat (ucast (pai_dtype_size dt) :: u64) = unat (pai_dtype_size dt)"
  by (cases dt) (simp_all add: pai_dtype_size_def)

lemma esize_eq_0 [simp]: "(ucast (pai_dtype_size dt) :: u64) = 0 \<longleftrightarrow> pai_dtype_size dt = 0"
  by (cases dt) (simp_all add: pai_dtype_size_def)

text \<open>Row-major strides of a shape whose element count fits: no product wraps.\<close>

lemma row_major_unat:
  assumes "0 \<notin> set sh" "nat_prod sh < 2 ^ 64"
  shows "unat (snd (row_major sh)) = nat_prod sh"
  using assms
proof (induction sh)
  case (Cons d ds)
  have pos: "0 < unat d" using Cons.prems(1) by (auto simp: unat_gt_0)
  have "nat_prod ds \<le> unat d * nat_prod ds" using pos by simp
  then have "nat_prod ds < 2 ^ 64" using Cons.prems(2) by (simp only: nat_prod_simps)
  then have "unat (snd (row_major ds)) = nat_prod ds"
    using Cons by simp
  then show ?case
    using Cons.prems(2) unat_mult_small [of "snd (row_major ds)" d]
    by (cases "row_major ds") (simp add: mult.commute)
qed simp

lemma row_major_lengths [simp]: "length (fst (row_major sh)) = length sh"
  by (induction sh) (simp_all add: case_prod_beta)

text \<open>The specification of a linear element index: mixed-radix digits, most significant first.\<close>

fun nat_offset :: "nat list \<Rightarrow> nat list \<Rightarrow> nat" where
  "nat_offset (d # ds) (i # is) = i * prod_list ds + nat_offset ds is"
| "nat_offset ds is = 0"

lemma nat_offset_bound:
  "list_all2 (\<lambda>i d. i < d) is ds \<Longrightarrow> nat_offset ds is < prod_list ds"
proof (induction rule: list_all2_induct)
  case (Cons i "is" d ds)
  then have "nat_offset (d # ds) (i # is) < i * prod_list ds + prod_list ds" by simp
  also have "\<dots> = Suc i * prod_list ds" by simp
  also have "\<dots> \<le> d * prod_list ds" using Cons by (intro mult_le_mono1) simp
  finally show ?case by simp
qed simp

lemma nat_offset_inj:
  assumes "list_all2 (\<lambda>i d. i < d) is ds" "list_all2 (\<lambda>i d. i < d) js ds"
    and "nat_offset ds is = nat_offset ds js"
  shows "is = js"
  using assms
proof (induction ds arbitrary: "is" js rule: list.induct)
  case (Cons d ds)
  obtain i is' j js' where ij: "is = i # is'" "js = j # js'"
    "list_all2 (\<lambda>i d. i < d) is' ds" "list_all2 (\<lambda>i d. i < d) js' ds"
    using Cons.prems(1,2) by (cases "is"; cases js) auto
  let ?p = "prod_list ds"
  have lt: "nat_offset ds is' < ?p" "nat_offset ds js' < ?p"
    using ij nat_offset_bound by blast+
  then have "(nat_offset ds is' + ?p * i) div ?p = i" "(nat_offset ds js' + ?p * j) div ?p = j"
    by simp_all
  moreover have "nat_offset ds is' + ?p * i = nat_offset ds js' + ?p * j"
    using Cons.prems(3) ij by (simp add: ac_simps)
  ultimately have "i = j" by metis
  then show ?case using Cons.IH [OF ij(3,4)] Cons.prems(3) ij by simp
qed simp

lemma foldl_add_shift:
  "foldl (\<lambda>off (i, s). off + i * s) (a :: u64) xs = a + foldl (\<lambda>off (i, s). off + i * s) 0 xs"
proof (induction xs arbitrary: a)
  case (Cons x xs)
  obtain i s where "x = (i, s)" by (cases x)
  then show ?case using Cons [of "a + i * s"] Cons [of "i * s"] by (simp add: ac_simps)
qed simp

text \<open>The 64-bit offset loop computes that index without wrapping.\<close>

lemma offset_unat:
  assumes "list_all2 (\<lambda>i d. i < d) idx sh" "nat_prod sh < 2 ^ 64"
  shows "unat (foldl (\<lambda>off (i, s). off + i * s) 0 (zip idx (fst (row_major sh)))) =
           nat_offset (map unat sh) (map unat idx)"
  using assms
proof (induction rule: list_all2_induct)
  case (Cons i "is" d ds)
  let ?r = "foldl (\<lambda>off (i, s). off + i * s) 0 (zip is (fst (row_major ds)))"
  have nz: "0 \<notin> set ds" using Cons(2) by (auto simp: list_all2_conv_all_nth in_set_conv_nth)
  have lt: "list_all2 (\<lambda>i d. i < d) (map unat (i # is)) (map unat (d # ds))"
    using Cons(1,2) by (simp add: list_all2_map1 list_all2_map2 word_less_nat_alt)
  have "0 < unat d" using Cons(1) by (simp add: word_less_nat_alt)
  then have "nat_prod ds \<le> unat d * nat_prod ds" by simp
  then have small: "nat_prod ds < 2 ^ 64" using Cons.prems by (simp only: nat_prod_simps)
  have strd: "unat (snd (row_major ds)) = nat_prod ds"
    using row_major_unat [OF nz small] .
  have r: "unat ?r = nat_offset (map unat ds) (map unat is)" using Cons.IH small by simp
  have "unat i * nat_prod ds + unat ?r < 2 ^ 64"
    using nat_offset_bound [OF lt] Cons.prems by (simp add: r nat_prod_def)
  then have "unat (i * snd (row_major ds) + ?r) = unat i * nat_prod ds + unat ?r"
    by (simp add: unat_word_ariths strd mod_add_right_eq mod_add_left_eq)
  then show ?case
    using foldl_add_shift [of "i * snd (row_major ds)" "zip is (fst (row_major ds))"] r
    by (cases "row_major ds") (simp add: nat_prod_def)
qed simp

lemma contiguous_size_iff:
  "pai_tensor_contiguous_size dt sh = Inr b \<longleftrightarrow>
     1 \<le> length sh \<and> length sh \<le> 6 \<and> pai_dtype_size dt \<noteq> 0 \<and> 0 \<notin> set sh \<and>
     unat b = prod_list (map unat sh) * unat (pai_dtype_size dt)"
proof (cases "1 \<le> length sh \<and> length sh \<le> 6 \<and> pai_dtype_size dt \<noteq> 0")
  case True
  let ?e = "ucast (pai_dtype_size dt) :: u64"
  have e: "?e \<noteq> 0" "0 < unat ?e" using True by (auto simp: unat_gt_0)
  have len: "length sh \<noteq> 0" "\<not> 6 < length sh" using True by auto
  have size: "pai_tensor_contiguous_size dt sh =
      (if 0 \<notin> set sh \<and> nat_prod sh < 2 ^ 64 \<and> nat_prod sh * unat ?e < 2 ^ 64
       then Inr (of_nat (nat_prod sh) * ?e) else Inl PAI_ERR_INVALID_ARG)"
    using len True mult_checked [OF e(1), of "of_nat (nat_prod sh)"]
    by (auto simp: pai_tensor_contiguous_size_def PAI_TENSOR_MAX_RANK_def checked_prod_spec unat_of_nat
        not_less)
  have "nat_prod sh \<le> nat_prod sh * unat ?e" using e by simp
  then have "nat_prod sh < 2 ^ 64" if "nat_prod sh * unat ?e < 2 ^ 64" using that by linarith
  moreover have "unat (of_nat (nat_prod sh) * ?e) = nat_prod sh * unat ?e"
    if "nat_prod sh * unat ?e < 2 ^ 64" "nat_prod sh < 2 ^ 64"
    using that by (simp add: unat_word_ariths unat_of_nat)
  moreover have "unat b < 2 ^ 64" using unsigned_less [of b, where 'a = nat] by simp
  ultimately show ?thesis
    using True unfolding size nat_prod_def [symmetric]
    by (auto simp: word_unat_eq_iff)
next
  case False
  then show ?thesis
    by (cases sh) (auto simp: pai_tensor_contiguous_size_def PAI_TENSOR_MAX_RANK_def)
qed

section \<open>Properties\<close>

text \<open>C33. \<open>pai_tensor_contiguous_size\<close> succeeds exactly on shapes of rank 1 to 6 with a known datatype
  and nonzero dimensions whose byte count fits 64 bits, and then returns that byte count: the product
  of the dimensions and the element size over the natural numbers.\<close>

theorem contiguous_size_exact:
  "pai_tensor_contiguous_size dt sh = Inr b \<longleftrightarrow>
     1 \<le> length sh \<and> length sh \<le> 6 \<and> pai_dtype_size dt \<noteq> 0 \<and> 0 \<notin> set sh \<and>
     unat b = prod_list (map unat sh) * unat (pai_dtype_size dt)"
  by (rule contiguous_size_iff)

text \<open>In a tensor whose byte size fits 64 bits, two in-range index vectors address the same
  element only if they are equal, and every element so addressed lies inside \<open>size_bytes\<close>.\<close>

theorem tensor_offset_injective:
  assumes t: "pai_tensor_init dt sh buf = Inr t" and b: "pai_tensor_contiguous_size dt sh = Inr b"
    and i: "list_all2 (\<lambda>i d. i < d) idx sh" and j: "list_all2 (\<lambda>i d. i < d) jdx sh"
  shows "(pai_tensor_offset t idx = pai_tensor_offset t jdx \<longrightarrow> idx = jdx) \<and>
         size_bytes t = b \<and>
         (unat (pai_tensor_offset t idx) + 1) * unat (pai_dtype_size dt) \<le> unat (size_bytes t)"
proof -
  let ?e = "unat (pai_dtype_size dt)"
  have e: "0 < ?e" "0 \<notin> set sh" and ub: "unat b = nat_prod sh * ?e"
    using b by (auto simp: contiguous_size_iff nat_prod_def unat_gt_0)
  have "nat_prod sh \<le> nat_prod sh * ?e" using e by simp
  also have fit: "nat_prod sh * ?e < 2 ^ 64"
    using unsigned_less [of b, where 'a = nat] ub by simp
  finally have small: "nat_prod sh < 2 ^ 64" .
  have ts: "strides t = fst (row_major sh)"
    "size_bytes t = snd (row_major sh) * ucast (pai_dtype_size dt)"
    using t by (auto simp: pai_tensor_init_def case_prod_beta split: if_splits)
  have off: "unat (pai_tensor_offset t k) = nat_offset (map unat sh) (map unat k)"
    "nat_offset (map unat sh) (map unat k) < nat_prod sh"
    if "list_all2 (\<lambda>i d. i < d) k sh" for k
    using offset_unat [OF that small] that nat_offset_bound [of "map unat k" "map unat sh"]
    by (simp_all add: pai_tensor_offset_def ts nat_prod_def list_all2_map1 list_all2_map2
        word_less_nat_alt)
  have "unat (size_bytes t) = unat b"
    using unat_mult_small [of "snd (row_major sh)" "ucast (pai_dtype_size dt)"] fit ub
      row_major_unat [OF e(2) small] by (simp add: ts)
  moreover have "idx = jdx" if "pai_tensor_offset t idx = pai_tensor_offset t jdx"
  proof -
    have "map unat idx = map unat jdx"
      using that off(1) i j
      by (intro nat_offset_inj [of _ "map unat sh"])
        (simp_all add: list_all2_map1 list_all2_map2 word_less_nat_alt [symmetric] flip: off(1))
    moreover have "inj (unat :: u64 \<Rightarrow> nat)" by (rule injI) (simp add: word_unat_eq_iff)
    ultimately show ?thesis by (rule map_injective)
  qed
  moreover have "(unat (pai_tensor_offset t idx) + 1) * ?e \<le> nat_prod sh * ?e"
    using off [OF i] by (intro mult_le_mono1) simp
  ultimately show ?thesis by (simp add: ub word_unat_eq_iff)
qed

theorem tensor_offset_injective_witness:
  "(pai_tensor_offset \<lparr>dtype = PAI_DTYPE_F32, shape = [2, 3], strides = [3, 1], size_bytes = 24,
       data = None\<rparr> [1, 2] \<noteq>
    pai_tensor_offset \<lparr>dtype = PAI_DTYPE_F32, shape = [2, 3], strides = [3, 1], size_bytes = 24,
       data = None\<rparr> [1, 1])"
  using tensor_offset_injective [of PAI_DTYPE_F32 "[2, 3]" None
      "\<lparr>dtype = PAI_DTYPE_F32, shape = [2, 3], strides = [3, 1], size_bytes = 24, data = None\<rparr>"
      24 "[1, 2]" "[1, 1]"]
  by (simp add: pai_tensor_init_def pai_tensor_contiguous_size_def PAI_TENSOR_MAX_RANK_def
      pai_dtype_size_def)

text \<open>\<open>pai_tensor_init\<close> has no overflow check: on the shape \<open>2^32 x 2^32\<close> it returns a tensor
  whose \<open>size_bytes\<close> is 0, where \<open>pai_tensor_contiguous_size\<close> refuses the same shape.\<close>

theorem tensor_init_size_wraps:
  "\<exists>t. pai_tensor_init PAI_DTYPE_F32 [0x100000000, 0x100000000] buf = Inr t \<and> size_bytes t = 0 \<and>
     pai_tensor_contiguous_size PAI_DTYPE_F32 [0x100000000, 0x100000000] = Inl PAI_ERR_INVALID_ARG"
  by (simp add: pai_tensor_init_def pai_tensor_contiguous_size_def PAI_TENSOR_MAX_RANK_def
      pai_dtype_size_def word_less_nat_alt unat_max_div)

end
