(* ===== verification/Ir.thy ===== *)
theory Ir
  imports Tensor Crc32
begin

text \<open>
  \<^verbatim>\<open>ir/ir.c\<close>: the Prospero IR program builder and its flat binary serialization. The arrays indexed
  by id are lists, the entry of id \<open>i\<close> at position \<open>i - 1\<close>; the arity of an op is the length of its
  lists. Every read of the decoder goes through \<open>rd\<close>, which is \<open>Fault\<close> when it leaves the input
  buffer, so that memory safety of the decoder is a theorem about its outcome.
\<close>

section \<open>Programs\<close>

definition PAI_IR_MAX_VALUES :: nat where "PAI_IR_MAX_VALUES = 1024"
definition PAI_IR_MAX_OPS :: nat where "PAI_IR_MAX_OPS = 1024"
definition PAI_IR_MAX_ARITY :: nat where "PAI_IR_MAX_ARITY = 16"
definition PAI_IR_OP_KIND_COUNT :: u8 where "PAI_IR_OP_KIND_COUNT = 18"
definition PAI_IR_VALUE_KIND_COUNT :: u8 where "PAI_IR_VALUE_KIND_COUNT = 5"
definition PAI_IR_DEVICE_COUNT :: u8 where "PAI_IR_DEVICE_COUNT = 3"
definition PAI_IR_QUANT_REPR_COUNT :: u8 where "PAI_IR_QUANT_REPR_COUNT = 4"
definition PAI_IR_QUANT_BLOCK_GROUP :: u8 where "PAI_IR_QUANT_BLOCK_GROUP = 2"
definition PAI_IR_QUANT_BLOCK_COUNT :: u8 where "PAI_IR_QUANT_BLOCK_COUNT = 3"
definition PAI_IR_MAGIC :: u32 where "PAI_IR_MAGIC = 0x52495041"
definition PAI_IR_VERSION :: u16 where "PAI_IR_VERSION = 1"
definition PAI_IR_HEADER_SIZE :: nat where "PAI_IR_HEADER_SIZE = 32"
definition PAI_IR_VALUE_REC_SIZE :: nat where "PAI_IR_VALUE_REC_SIZE = 76"
definition PAI_IR_CRC_COVER :: nat where "PAI_IR_CRC_COVER = 24"

lemmas ir_consts = PAI_IR_MAX_VALUES_def PAI_IR_MAX_OPS_def PAI_IR_MAX_ARITY_def PAI_IR_OP_KIND_COUNT_def
  PAI_IR_VALUE_KIND_COUNT_def PAI_IR_DEVICE_COUNT_def PAI_IR_QUANT_REPR_COUNT_def
  PAI_IR_QUANT_BLOCK_GROUP_def PAI_IR_QUANT_BLOCK_COUNT_def

lemmas ir_sizes = PAI_IR_HEADER_SIZE_def PAI_IR_VALUE_REC_SIZE_def PAI_IR_CRC_COVER_def

record pai_ir_quant =
  present :: u8
  bit_width :: u8
  scale_repr :: u8
  zero_point_repr :: u8
  is_signed :: u8
  block_structure :: u8
  group_size :: u16

record pai_ir_value =
  ivdtype :: pai_dtype
  ivrank :: u8
  ivkind :: u8
  ivdevice :: u8
  ivshape :: "u64 list"
  ivsize :: u64
  ivalign :: u64
  ivquant :: pai_ir_quant

record pai_ir_op =
  iokind :: u8
  iodevice :: u8
  ioinputs :: "u16 list"
  iooutputs :: "u16 list"

record pai_ir_program =
  ivalues :: "pai_ir_value list"
  iops :: "pai_ir_op list"
  input_ids :: "u32 list"
  output_ids :: "u32 list"

definition zero_quant :: pai_ir_quant where
  "zero_quant = \<lparr>present = 0, bit_width = 0, scale_repr = 0, zero_point_repr = 0, is_signed = 0,
     block_structure = 0, group_size = 0\<rparr>"

definition pai_ir_init :: pai_ir_program where
  "pai_ir_init = \<lparr>ivalues = [], iops = [], input_ids = [], output_ids = []\<rparr>"

definition pai_ir_add_value ::
    "pai_ir_program \<Rightarrow> pai_dtype \<Rightarrow> u64 list \<Rightarrow> u64 \<Rightarrow> u8 \<Rightarrow> u8 \<Rightarrow> pai_ir_program \<times> nat" where
  "pai_ir_add_value prog dt sh al k dev =
     (if length sh = 0 \<or> length sh > PAI_TENSOR_MAX_RANK \<or> length (ivalues prog) \<ge> PAI_IR_MAX_VALUES \<or>
         dt = PAI_DTYPE_COUNT \<or> k \<ge> PAI_IR_VALUE_KIND_COUNT \<or> dev \<ge> PAI_IR_DEVICE_COUNT \<or>
         al \<noteq> 0 \<and> al AND (al - 1) \<noteq> 0
      then (prog, 0)
      else
        (case pai_tensor_contiguous_size dt sh of
           Inl e \<Rightarrow> (prog, 0)
         | Inr b \<Rightarrow>
             if b = 0 then (prog, 0)
             else
               (prog\<lparr>ivalues := ivalues prog @
                   [\<lparr>ivdtype = dt, ivrank = of_nat (length sh), ivkind = k, ivdevice = dev,
                     ivshape = sh @ replicate (PAI_TENSOR_MAX_RANK - length sh) 0, ivsize = b,
                     ivalign = (if al \<noteq> 0 then al else 16), ivquant = zero_quant\<rparr>]\<rparr>,
                length (ivalues prog) + 1)))"

definition quant_bad :: "pai_ir_quant \<Rightarrow> bool" where
  "quant_bad q \<longleftrightarrow>
     bit_width q = 0 \<or> bit_width q > 64 \<or> scale_repr q \<ge> PAI_IR_QUANT_REPR_COUNT \<or>
     zero_point_repr q \<ge> PAI_IR_QUANT_REPR_COUNT \<or> block_structure q \<ge> PAI_IR_QUANT_BLOCK_COUNT \<or>
     block_structure q = PAI_IR_QUANT_BLOCK_GROUP \<and> group_size q = 0"

definition pai_ir_value_set_quant :: "pai_ir_program \<Rightarrow> nat \<Rightarrow> pai_ir_quant \<Rightarrow> pai_ir_program res" where
  "pai_ir_value_set_quant prog v q =
     (if v = 0 \<or> v > length (ivalues prog) then Inl PAI_ERR_INVALID_ARG
      else if present q \<noteq> 0 \<and> quant_bad q then Inl PAI_ERR_INVALID_ARG
      else Inr (prog\<lparr>ivalues := (ivalues prog)[v - 1 := (ivalues prog ! (v - 1))\<lparr>ivquant := q\<rparr>]\<rparr>))"

fun ir_outputs_ok :: "nat \<Rightarrow> u16 list \<Rightarrow> u16 list \<Rightarrow> u16 list \<Rightarrow> bool" where
  "ir_outputs_ok nv ins seen [] = True"
| "ir_outputs_ok nv ins seen (v # vs) =
     (v \<noteq> 0 \<and> unat v \<le> nv \<and> v \<notin> set seen \<and> v \<notin> set ins \<and> ir_outputs_ok nv ins (v # seen) vs)"

definition pai_ir_add_op ::
    "pai_ir_program \<Rightarrow> u8 \<Rightarrow> u8 \<Rightarrow> u16 list \<Rightarrow> u16 list \<Rightarrow> pai_ir_program \<times> nat" where
  "pai_ir_add_op prog k dev ins outs =
     (if length ins > PAI_IR_MAX_ARITY \<or> length outs > PAI_IR_MAX_ARITY \<or> k \<ge> PAI_IR_OP_KIND_COUNT \<or>
         dev \<ge> PAI_IR_DEVICE_COUNT \<or> length (iops prog) \<ge> PAI_IR_MAX_OPS
      then (prog, 0)
      else if \<exists>v \<in> set ins. v = 0 \<or> unat v > length (ivalues prog) then (prog, 0)
      else if \<not> ir_outputs_ok (length (ivalues prog)) ins [] outs then (prog, 0)
      else (prog\<lparr>iops := iops prog @ [\<lparr>iokind = k, iodevice = dev, ioinputs = ins, iooutputs = outs\<rparr>]\<rparr>,
            length (iops prog) + 1))"

definition pai_ir_set_input :: "pai_ir_program \<Rightarrow> u32 \<Rightarrow> pai_ir_program" where
  "pai_ir_set_input prog v =
     (if v = 0 \<or> unat v > length (ivalues prog) \<or> length (input_ids prog) \<ge> PAI_IR_MAX_VALUES then prog
      else prog\<lparr>input_ids := input_ids prog @ [v]\<rparr>)"

definition pai_ir_set_output :: "pai_ir_program \<Rightarrow> u32 \<Rightarrow> pai_ir_program" where
  "pai_ir_set_output prog v =
     (if v = 0 \<or> unat v > length (ivalues prog) \<or> length (output_ids prog) \<ge> PAI_IR_MAX_VALUES then prog
      else prog\<lparr>output_ids := output_ids prog @ [v]\<rparr>)"

section \<open>Names\<close>

definition ir_op_names :: "string list" where
  "ir_op_names =
     [''none'', ''add'', ''mul'', ''gemm'', ''gemv'', ''matmul'', ''relu'', ''softmax'', ''layernorm'',
      ''rmsnorm'', ''rope'', ''attention'', ''reshape'', ''concat'', ''convert'', ''copy'', ''silu'',
      ''custom'']"

definition k_value_kind_names :: "string list" where
  "k_value_kind_names = [''activation'', ''input'', ''param'', ''constant'', ''output'']"

definition k_device_names :: "string list" where "k_device_names = [''any'', ''cpu'', ''gpu'']"

definition pai_ir_op_kind_name :: "u8 \<Rightarrow> string" where
  "pai_ir_op_kind_name k =
     (if k \<ge> PAI_IR_OP_KIND_COUNT \<or> unat k \<ge> length ir_op_names then ''?'' else ir_op_names ! unat k)"

definition pai_ir_value_kind_name :: "u8 \<Rightarrow> string" where
  "pai_ir_value_kind_name k =
     (if k \<ge> PAI_IR_VALUE_KIND_COUNT \<or> unat k \<ge> length k_value_kind_names then ''?''
      else k_value_kind_names ! unat k)"

definition pai_ir_device_name :: "u8 \<Rightarrow> string" where
  "pai_ir_device_name d =
     (if d \<ge> PAI_IR_DEVICE_COUNT \<or> unat d \<ge> length k_device_names then ''?'' else k_device_names ! unat d)"

section \<open>Encoding\<close>

fun dtype_code :: "pai_dtype \<Rightarrow> u8" where
  "dtype_code PAI_DTYPE_F32 = 0"
| "dtype_code PAI_DTYPE_F16 = 1"
| "dtype_code PAI_DTYPE_BF16 = 2"
| "dtype_code PAI_DTYPE_I32 = 3"
| "dtype_code PAI_DTYPE_U32 = 4"
| "dtype_code PAI_DTYPE_I16 = 5"
| "dtype_code PAI_DTYPE_U16 = 6"
| "dtype_code PAI_DTYPE_I8 = 7"
| "dtype_code PAI_DTYPE_U8 = 8"
| "dtype_code PAI_DTYPE_COUNT = 9"

definition dtype_of_code :: "u8 \<Rightarrow> pai_dtype" where
  "dtype_of_code c =
     (if unat c < 9
      then [PAI_DTYPE_F32, PAI_DTYPE_F16, PAI_DTYPE_BF16, PAI_DTYPE_I32, PAI_DTYPE_U32,
            PAI_DTYPE_I16, PAI_DTYPE_U16, PAI_DTYPE_I8, PAI_DTYPE_U8] ! unat c
      else PAI_DTYPE_COUNT)"

definition op_record_size :: "pai_ir_op \<Rightarrow> nat" where
  "op_record_size p = 8 + 2 * length (ioinputs p) + 2 * length (iooutputs p)"

definition pai_ir_encoded_size :: "pai_ir_program \<Rightarrow> nat" where
  "pai_ir_encoded_size prog =
     (let op_bytes = foldl (\<lambda>b p. (b + op_record_size p) mod 2 ^ 32) 0 (iops prog);
          total = PAI_IR_HEADER_SIZE + length (ivalues prog) * PAI_IR_VALUE_REC_SIZE + op_bytes +
            (length (input_ids prog) + length (output_ids prog)) mod 2 ^ 32 * 4
      in if total > 2 ^ 32 - 1 then 0 else total)"

definition encode_value :: "pai_ir_value \<Rightarrow> bytes" where
  "encode_value v =
     [dtype_code (ivdtype v), ivrank v, ivkind v, ivdevice v, present (ivquant v), bit_width (ivquant v),
      scale_repr (ivquant v), zero_point_repr (ivquant v), is_signed (ivquant v),
      block_structure (ivquant v)] @
     put_le16 (group_size (ivquant v)) @ put_le64 (ivalign v) @ put_le64 (ivsize v) @
     concat (map put_le64 (ivshape v))"

definition encode_op :: "pai_ir_op \<Rightarrow> bytes" where
  "encode_op p =
     [iokind p, iodevice p, of_nat (length (ioinputs p)), of_nat (length (iooutputs p))] @
     put_le16 0 @ put_le16 0 @ concat (map put_le16 (ioinputs p)) @ concat (map put_le16 (iooutputs p))"

definition encode_body :: "pai_ir_program \<Rightarrow> bytes" where
  "encode_body prog =
     concat (map encode_value (ivalues prog)) @ concat (map encode_op (iops prog)) @
     concat (map put_le32 (input_ids prog)) @ concat (map put_le32 (output_ids prog))"

definition encode_head :: "pai_ir_program \<Rightarrow> bytes" where
  "encode_head prog =
     put_le32 PAI_IR_MAGIC @ put_le16 PAI_IR_VERSION @ put_le16 0 @
     put_le32 (of_nat (length (ivalues prog))) @ put_le32 (of_nat (length (iops prog))) @
     put_le32 (of_nat (length (input_ids prog))) @ put_le32 (of_nat (length (output_ids prog)))"

definition ir_crc :: "bytes \<Rightarrow> bytes \<Rightarrow> u32" where
  "ir_crc head body =
     pai_proto_crc32_fin (pai_proto_crc32_upd (pai_proto_crc32_upd pai_proto_crc32_init head) body)"

definition pai_ir_encode :: "pai_ir_program \<Rightarrow> nat \<Rightarrow> bytes res" where
  "pai_ir_encode prog cap =
     (if pai_ir_encoded_size prog = 0 \<or> pai_ir_encoded_size prog > cap then Inl PAI_ERR_INVALID_ARG
      else
        (let head = encode_head prog; body = encode_body prog
         in Inr (head @ put_le32 (ir_crc head body) @ put_le32 0 @ body)))"

section \<open>Decoding\<close>

definition rd :: "bytes \<Rightarrow> nat \<Rightarrow> nat \<Rightarrow> (bytes \<Rightarrow> 'a outcome) \<Rightarrow> 'a outcome" where
  "rd blob off n k = (if off + n \<le> length blob then k (take n (drop off blob)) else Fault)"

definition le_get_u64 :: "bytes \<Rightarrow> u64" where
  "le_get_u64 p = foldl (\<lambda>v i. push_bit 8 v OR ucast (p ! i)) 0 (rev [0 ..< 8])"

text \<open>The bounds pass over the op records.\<close>

fun scan_ops :: "bytes \<Rightarrow> nat \<Rightarrow> nat \<Rightarrow> nat res outcome" where
  "scan_ops body 0 p = Returns (Inr p)"
| "scan_ops body (Suc n) p =
     (if p + 8 > length body then Returns (Inl PAI_ERR_PROTOCOL)
      else rd body p 4 (\<lambda>r.
        let sz = 8 + 2 * (unat (r ! 2) + unat (r ! 3))
        in if p + sz > length body then Returns (Inl PAI_ERR_PROTOCOL) else scan_ops body n (p + sz)))"

definition decode_value :: "bytes \<Rightarrow> pai_ir_value res" where
  "decode_value r =
     (let q = \<lparr>present = r ! 4, bit_width = r ! 5, scale_repr = r ! 6, zero_point_repr = r ! 7,
               is_signed = r ! 8, block_structure = r ! 9, group_size = get_le16 (drop 10 r)\<rparr>;
          v = \<lparr>ivdtype = dtype_of_code (r ! 0), ivrank = r ! 1, ivkind = r ! 2, ivdevice = r ! 3,
               ivshape = map (\<lambda>d. le_get_u64 (drop (28 + 8 * d) r)) [0 ..< PAI_TENSOR_MAX_RANK],
               ivsize = le_get_u64 (drop 20 r), ivalign = le_get_u64 (drop 12 r), ivquant = q\<rparr>
      in if unat (r ! 0) \<ge> 9 \<or> r ! 1 = 0 \<or> unat (r ! 1) > PAI_TENSOR_MAX_RANK \<or>
            r ! 2 \<ge> PAI_IR_VALUE_KIND_COUNT \<or> r ! 3 \<ge> PAI_IR_DEVICE_COUNT then Inl PAI_ERR_PROTOCOL
         else if present q \<noteq> 0 \<and> quant_bad q then Inl PAI_ERR_PROTOCOL
         else
           (case pai_tensor_contiguous_size (ivdtype v) (take (unat (ivrank v)) (ivshape v)) of
              Inl e \<Rightarrow> Inl PAI_ERR_PROTOCOL
            | Inr b \<Rightarrow>
                if b \<noteq> ivsize v \<or> ivsize v = 0 then Inl PAI_ERR_PROTOCOL
                else if ivalign v = 0 \<or> ivalign v AND (ivalign v - 1) \<noteq> 0 then Inl PAI_ERR_PROTOCOL
                else Inr v))"

fun decode_values :: "bytes \<Rightarrow> nat \<Rightarrow> nat \<Rightarrow> pai_ir_value list res outcome" where
  "decode_values body 0 i = Returns (Inr [])"
| "decode_values body (Suc n) i =
     rd body (i * PAI_IR_VALUE_REC_SIZE) PAI_IR_VALUE_REC_SIZE (\<lambda>r.
       case decode_value r of
         Inl e \<Rightarrow> Returns (Inl e)
       | Inr v \<Rightarrow>
           (case decode_values body n (Suc i) of
              Returns (Inr vs) \<Rightarrow> Returns (Inr (v # vs))
            | x \<Rightarrow> x))"

fun read_inputs :: "bytes \<Rightarrow> nat \<Rightarrow> nat \<Rightarrow> nat \<Rightarrow> u16 list res outcome" where
  "read_inputs body nv 0 p = Returns (Inr [])"
| "read_inputs body nv (Suc n) p =
     rd body p 2 (\<lambda>r.
       let d = get_le16 r
       in if d = 0 \<or> unat d > nv then Returns (Inl PAI_ERR_PROTOCOL)
          else
            (case read_inputs body nv n (p + 2) of
               Returns (Inr ds) \<Rightarrow> Returns (Inr (d # ds))
             | x \<Rightarrow> x))"

fun read_outputs :: "bytes \<Rightarrow> nat \<Rightarrow> u16 list \<Rightarrow> u16 list \<Rightarrow> nat \<Rightarrow> nat \<Rightarrow> u16 list res outcome" where
  "read_outputs body nv ins seen 0 p = Returns (Inr [])"
| "read_outputs body nv ins seen (Suc n) p =
     rd body p 2 (\<lambda>r.
       let d = get_le16 r
       in if d = 0 \<or> unat d > nv then Returns (Inl PAI_ERR_PROTOCOL)
          else if d \<in> set seen then Returns (Inl PAI_ERR_PROTOCOL)
          else if d \<in> set ins then Returns (Inl PAI_ERR_PROTOCOL)
          else
            (case read_outputs body nv ins (d # seen) n (p + 2) of
               Returns (Inr ds) \<Rightarrow> Returns (Inr (d # ds))
             | x \<Rightarrow> x))"

text \<open>One op record and the position after it.\<close>

definition decode_op :: "bytes \<Rightarrow> nat \<Rightarrow> nat \<Rightarrow> (pai_ir_op \<times> nat) res outcome" where
  "decode_op body nv p =
     rd body p 4 (\<lambda>r.
       let ni = unat (r ! 2); no = unat (r ! 3)
       in if r ! 0 \<ge> PAI_IR_OP_KIND_COUNT \<or> r ! 1 \<ge> PAI_IR_DEVICE_COUNT \<or> ni = 0 \<or> ni > PAI_IR_MAX_ARITY \<or>
             no = 0 \<or> no > PAI_IR_MAX_ARITY then Returns (Inl PAI_ERR_PROTOCOL)
          else
            (case read_inputs body nv ni (p + 8) of
               Returns (Inr ins) \<Rightarrow>
                 (case read_outputs body nv ins [] no (p + 8 + 2 * ni) of
                    Returns (Inr outs) \<Rightarrow>
                      Returns (Inr (\<lparr>iokind = r ! 0, iodevice = r ! 1, ioinputs = ins, iooutputs = outs\<rparr>,
                                    p + 8 + 2 * (ni + no)))
                  | Returns (Inl e) \<Rightarrow> Returns (Inl e)
                  | Fault \<Rightarrow> Fault
                  | Diverges \<Rightarrow> Diverges)
             | Returns (Inl e) \<Rightarrow> Returns (Inl e)
             | Fault \<Rightarrow> Fault
             | Diverges \<Rightarrow> Diverges))"

fun decode_ops :: "bytes \<Rightarrow> nat \<Rightarrow> nat \<Rightarrow> nat \<Rightarrow> (pai_ir_op list \<times> nat) res outcome" where
  "decode_ops body nv 0 p = Returns (Inr ([], p))"
| "decode_ops body nv (Suc n) p =
     (case decode_op body nv p of
        Returns (Inr (x, q)) \<Rightarrow>
          (case decode_ops body nv n q of
             Returns (Inr (xs, q')) \<Rightarrow> Returns (Inr (x # xs, q'))
           | r \<Rightarrow> r)
      | Returns (Inl e) \<Rightarrow> Returns (Inl e)
      | Fault \<Rightarrow> Fault
      | Diverges \<Rightarrow> Diverges)"

fun read_ids :: "bytes \<Rightarrow> nat \<Rightarrow> nat \<Rightarrow> nat \<Rightarrow> u32 list res outcome" where
  "read_ids body nv 0 p = Returns (Inr [])"
| "read_ids body nv (Suc n) p =
     rd body p 4 (\<lambda>r.
       let d = get_le32 r
       in if d = 0 \<or> unat d > nv then Returns (Inl PAI_ERR_PROTOCOL)
          else
            (case read_ids body nv n (p + 4) of
               Returns (Inr ds) \<Rightarrow> Returns (Inr (d # ds))
             | x \<Rightarrow> x))"

definition decode_records :: "bytes \<Rightarrow> nat \<Rightarrow> nat \<Rightarrow> nat \<Rightarrow> nat \<Rightarrow> pai_ir_program res outcome" where
  "decode_records body nv np ni no =
     (case decode_values body nv 0 of
        Returns (Inr vs) \<Rightarrow>
          (case decode_ops body nv np (nv * PAI_IR_VALUE_REC_SIZE) of
             Returns (Inr (ps, p)) \<Rightarrow>
               (case read_ids body nv ni p of
                  Returns (Inr is) \<Rightarrow>
                    (case read_ids body nv no (p + 4 * ni) of
                       Returns (Inr os) \<Rightarrow>
                         Returns (Inr \<lparr>ivalues = vs, iops = ps, input_ids = is, output_ids = os\<rparr>)
                     | Returns (Inl e) \<Rightarrow> Returns (Inl e) | Fault \<Rightarrow> Fault | Diverges \<Rightarrow> Diverges)
                | Returns (Inl e) \<Rightarrow> Returns (Inl e) | Fault \<Rightarrow> Fault | Diverges \<Rightarrow> Diverges)
           | Returns (Inl e) \<Rightarrow> Returns (Inl e) | Fault \<Rightarrow> Fault | Diverges \<Rightarrow> Diverges)
      | Returns (Inl e) \<Rightarrow> Returns (Inl e) | Fault \<Rightarrow> Fault | Diverges \<Rightarrow> Diverges)"

text \<open>The checks on the header and the bounds pass come before any record is read.\<close>

definition pai_ir_decode :: "bytes \<Rightarrow> pai_ir_program res outcome" where
  "pai_ir_decode blob =
     (if length blob < PAI_IR_HEADER_SIZE then Returns (Inl PAI_ERR_INVALID_ARG)
      else rd blob 0 PAI_IR_HEADER_SIZE (\<lambda>h.
        let nv = unat (get_le32 (drop 8 h)); np = unat (get_le32 (drop 12 h));
            ni = unat (get_le32 (drop 16 h)); no = unat (get_le32 (drop 20 h));
            body = drop PAI_IR_HEADER_SIZE blob
        in if get_le32 h \<noteq> PAI_IR_MAGIC then Returns (Inl PAI_ERR_PROTOCOL)
           else if get_le16 (drop 4 h) \<noteq> PAI_IR_VERSION then Returns (Inl PAI_ERR_PROTOCOL)
           else if get_le16 (drop 6 h) \<noteq> 0 \<or> get_le32 (drop 28 h) \<noteq> 0 then Returns (Inl PAI_ERR_PROTOCOL)
           else if nv > PAI_IR_MAX_VALUES \<or> np > PAI_IR_MAX_OPS \<or> ni > PAI_IR_MAX_VALUES \<or>
                   no > PAI_IR_MAX_VALUES then Returns (Inl PAI_ERR_PROTOCOL)
           else if ir_crc (take PAI_IR_CRC_COVER h) body \<noteq> get_le32 (drop 24 h)
           then Returns (Inl PAI_ERR_PROTOCOL)
           else if nv * PAI_IR_VALUE_REC_SIZE > length body then Returns (Inl PAI_ERR_PROTOCOL)
           else
             (case scan_ops body np (nv * PAI_IR_VALUE_REC_SIZE) of
                Returns (Inr p) \<Rightarrow>
                  if p + 4 * (ni + no) > length body then Returns (Inl PAI_ERR_PROTOCOL)
                  else decode_records body nv np ni no
              | Returns (Inl e) \<Rightarrow> Returns (Inl e) | Fault \<Rightarrow> Fault | Diverges \<Rightarrow> Diverges)))"

section \<open>Valid programs\<close>

definition value_valid :: "pai_ir_value \<Rightarrow> bool" where
  "value_valid v \<longleftrightarrow>
     ivdtype v \<noteq> PAI_DTYPE_COUNT \<and> ivrank v \<noteq> 0 \<and> unat (ivrank v) \<le> PAI_TENSOR_MAX_RANK \<and>
     ivkind v < PAI_IR_VALUE_KIND_COUNT \<and> ivdevice v < PAI_IR_DEVICE_COUNT \<and>
     length (ivshape v) = PAI_TENSOR_MAX_RANK \<and>
     pai_tensor_contiguous_size (ivdtype v) (take (unat (ivrank v)) (ivshape v)) = Inr (ivsize v) \<and>
     ivsize v \<noteq> 0 \<and> ivalign v \<noteq> 0 \<and> ivalign v AND (ivalign v - 1) = 0 \<and>
     (present (ivquant v) \<noteq> 0 \<longrightarrow> \<not> quant_bad (ivquant v))"

definition op_valid :: "nat \<Rightarrow> pai_ir_op \<Rightarrow> bool" where
  "op_valid nv p \<longleftrightarrow>
     iokind p < PAI_IR_OP_KIND_COUNT \<and> iodevice p < PAI_IR_DEVICE_COUNT \<and>
     length (ioinputs p) \<le> PAI_IR_MAX_ARITY \<and> length (iooutputs p) \<le> PAI_IR_MAX_ARITY \<and>
     (\<forall>d \<in> set (ioinputs p) \<union> set (iooutputs p). d \<noteq> 0 \<and> unat d \<le> nv) \<and>
     distinct (iooutputs p) \<and> set (ioinputs p) \<inter> set (iooutputs p) = {}"

definition ids_valid :: "nat \<Rightarrow> u32 list \<Rightarrow> bool" where
  "ids_valid nv ds \<longleftrightarrow> length ds \<le> PAI_IR_MAX_VALUES \<and> (\<forall>d \<in> set ds. d \<noteq> 0 \<and> unat d \<le> nv)"

definition ir_valid :: "pai_ir_program \<Rightarrow> bool" where
  "ir_valid prog \<longleftrightarrow>
     length (ivalues prog) \<le> PAI_IR_MAX_VALUES \<and> length (iops prog) \<le> PAI_IR_MAX_OPS \<and>
     (\<forall>v \<in> set (ivalues prog). value_valid v) \<and>
     (\<forall>p \<in> set (iops prog). op_valid (length (ivalues prog)) p) \<and>
     ids_valid (length (ivalues prog)) (input_ids prog) \<and> ids_valid (length (ivalues prog)) (output_ids prog)"

lemma ir_outputs_ok_iff:
  "ir_outputs_ok nv ins seen outs \<longleftrightarrow>
     distinct outs \<and> set outs \<inter> set seen = {} \<and> set ins \<inter> set outs = {} \<and>
     (\<forall>d \<in> set outs. d \<noteq> 0 \<and> unat d \<le> nv)"
  by (induction outs arbitrary: seen) auto

lemma op_valid_mono: "op_valid nv p \<Longrightarrow> nv \<le> nv' \<Longrightarrow> op_valid nv' p"
  unfolding op_valid_def by (meson le_trans)

lemma ids_valid_mono: "ids_valid nv ds \<Longrightarrow> nv \<le> nv' \<Longrightarrow> ids_valid nv' ds"
  unfolding ids_valid_def by (meson le_trans)

inductive ir_built :: "pai_ir_program \<Rightarrow> bool" where
  "ir_built pai_ir_init"
| "ir_built prog \<Longrightarrow> ir_built (fst (pai_ir_add_value prog dt sh al k dev))"
| "ir_built prog \<Longrightarrow> pai_ir_value_set_quant prog v q = Inr prog' \<Longrightarrow> ir_built prog'"
| "ir_built prog \<Longrightarrow> ir_built (fst (pai_ir_add_op prog k dev ins outs))"
| "ir_built prog \<Longrightarrow> ir_built (pai_ir_set_input prog d)"
| "ir_built prog \<Longrightarrow> ir_built (pai_ir_set_output prog d)"

lemma add_value_valid:
  assumes "ir_valid prog"
  shows "ir_valid (fst (pai_ir_add_value prog dt sh al k dev))"
proof (cases "fst (pai_ir_add_value prog dt sh al k dev) = prog")
  case False
  then obtain x where p: "fst (pai_ir_add_value prog dt sh al k dev) = prog\<lparr>ivalues := ivalues prog @ [x]\<rparr>"
    and len: "length (ivalues prog) < PAI_IR_MAX_VALUES" and x: "value_valid x"
  proof -
    have c: "length sh \<noteq> 0" "length sh \<le> 6" "length (ivalues prog) < PAI_IR_MAX_VALUES" "dt \<noteq> PAI_DTYPE_COUNT"
      "k < PAI_IR_VALUE_KIND_COUNT" "dev < PAI_IR_DEVICE_COUNT" "al \<noteq> 0 \<longrightarrow> al AND (al - 1) = 0"
      using False by (auto simp: pai_ir_add_value_def PAI_TENSOR_MAX_RANK_def split: if_splits)
    obtain b where b: "pai_tensor_contiguous_size dt sh = Inr b" "b \<noteq> 0"
      using False by (auto simp: pai_ir_add_value_def split: if_splits sum.splits)
    let ?x = "\<lparr>ivdtype = dt, ivrank = of_nat (length sh), ivkind = k, ivdevice = dev,
                     ivshape = sh @ replicate (PAI_TENSOR_MAX_RANK - length sh) 0, ivsize = b,
                     ivalign = (if al \<noteq> 0 then al else 16), ivquant = zero_quant\<rparr>"
    have r: "unat (of_nat (length sh) :: u8) = length sh"
      using c(2) by (simp add: unat_of_nat)
    then have "of_nat (length sh) \<noteq> (0 :: u8)" using c(1) by (metis unat_0)
    then have "value_valid ?x"
      using c b r by (simp add: value_valid_def PAI_TENSOR_MAX_RANK_def zero_quant_def)
    moreover have "fst (pai_ir_add_value prog dt sh al k dev) = prog\<lparr>ivalues := ivalues prog @ [?x]\<rparr>"
      using c b by (auto simp: pai_ir_add_value_def PAI_TENSOR_MAX_RANK_def not_le)
    ultimately show ?thesis using that c(3) by blast
  qed
  then show ?thesis
    using assms unfolding p ir_valid_def by (auto intro: op_valid_mono ids_valid_mono)
qed (use assms in simp)

lemma set_ids_valid:
  assumes "ir_valid prog"
  shows "ir_valid (pai_ir_set_input prog d)" "ir_valid (pai_ir_set_output prog d)"
  using assms by (auto simp: ir_valid_def ids_valid_def pai_ir_set_input_def pai_ir_set_output_def not_le not_less)

lemma built_valid: "ir_built prog \<Longrightarrow> ir_valid prog"
proof (induction rule: ir_built.induct)
  case (3 prog v q prog')
  then show ?case
    by (auto simp: ir_valid_def pai_ir_value_set_quant_def value_valid_def split: if_splits
        dest!: set_update_subset_insert [THEN subsetD])
next
  case (4 prog k dev ins outs)
  then show ?case
    by (auto simp: pai_ir_add_op_def ir_valid_def op_valid_def ir_outputs_ok_iff not_le not_less split: if_splits)
qed (simp_all add: add_value_valid set_ids_valid, simp add: ir_valid_def pai_ir_init_def ids_valid_def)

end
