(* ===== verification/Ir_Codec.thy ===== *)
theory Ir_Codec
  imports Ir
begin

text \<open>
  The IR blob codec of \<^verbatim>\<open>ir/ir.c\<close>: the decoder inverts the encoder, never reads outside its input
  and only returns valid programs.
\<close>

section \<open>Reading what was written\<close>

lemma rd_append [simp]: "rd (pre @ x @ post) (length pre) (length x) k = k x"
  by (simp add: rd_def)

lemma rd_at: "p = length pre \<Longrightarrow> n = length x \<Longrightarrow> rd (pre @ x @ post) p n k = k x"
  by simp

lemma rd_no_fault: "off + n \<le> length blob \<Longrightarrow> rd blob off n k = k (take n (drop off blob))"
  by (simp add: rd_def)

lemma le_get_u64_eq [simp]: "le_get_u64 p = get_le64 p"
  by (simp add: le_get_u64_def get_le64_def upt_rec push_bit_or or.assoc) (simp add: ac_simps)

lemma dtype_code_inv [simp]: "dtype_of_code (dtype_code d) = d"
  by (cases d) (simp_all add: dtype_of_code_def)

lemma dtype_code_less: "d \<noteq> PAI_DTYPE_COUNT \<Longrightarrow> unat (dtype_code d) < 9"
  by (cases d) simp_all

lemma length_concat_codec [simp]:
  "length (concat (map put_le16 a)) = 2 * length a" "length (concat (map put_le32 b)) = 4 * length b"
  "length (concat (map put_le64 c)) = 8 * length c"
  by (induction a, simp_all) (induction b, simp_all, induction c, simp_all)

lemma six_elements: "length xs = 6 \<Longrightarrow> \<exists>a b c d e f. xs = [a, b, c, d, e, f]"
  by (auto simp: eval_nat_numeral length_Suc_conv)

lemma length_encode_value: "length (ivshape v) = PAI_TENSOR_MAX_RANK \<Longrightarrow> length (encode_value v) = 76"
  by (simp add: encode_value_def PAI_TENSOR_MAX_RANK_def)

lemma decode_encode_value:
  assumes "value_valid v"
  shows "decode_value (encode_value v) = Inr v"
proof -
  have "length (ivshape v) = 6" using assms by (simp add: value_valid_def PAI_TENSOR_MAX_RANK_def)
  then obtain a b c d e f where s: "ivshape v = [a, b, c, d, e, f]" using six_elements by blast
  let ?r = "encode_value v"
  have r: "?r ! 0 = dtype_code (ivdtype v)" "?r ! 1 = ivrank v" "?r ! 2 = ivkind v" "?r ! 3 = ivdevice v"
    "?r ! 4 = present (ivquant v)" "?r ! 5 = bit_width (ivquant v)" "?r ! 6 = scale_repr (ivquant v)"
    "?r ! 7 = zero_point_repr (ivquant v)" "?r ! 8 = is_signed (ivquant v)"
    "?r ! 9 = block_structure (ivquant v)" "get_le16 (drop 10 ?r) = group_size (ivquant v)"
    "get_le64 (drop 12 ?r) = ivalign v" "get_le64 (drop 20 ?r) = ivsize v"
    by (simp_all add: encode_value_def drop_append)
  have sh: "map (\<lambda>k. get_le64 (drop (28 + 8 * k) ?r)) [0 ..< PAI_TENSOR_MAX_RANK] = ivshape v"
    by (simp add: PAI_TENSOR_MAX_RANK_def upt_rec encode_value_def drop_append s)
  show ?thesis
    using assms dtype_code_less [of "ivdtype v"]
    unfolding decode_value_def r le_get_u64_eq sh Let_def
    by (cases v; cases "ivquant v") (auto simp: value_valid_def not_le)
qed

lemma decode_encode_values:
  assumes "\<forall>v \<in> set vs. value_valid v" "length pre = i * 76"
  shows "decode_values (pre @ concat (map encode_value vs) @ post) (length vs) i = Returns (Inr vs)"
  using assms
proof (induction vs arbitrary: pre i)
  case (Cons v vs)
  have len: "length (encode_value v) = 76"
    using Cons.prems by (intro length_encode_value) (simp add: value_valid_def)
  have "decode_values ((pre @ encode_value v) @ concat (map encode_value vs) @ post) (length vs) (Suc i) =
      Returns (Inr vs)"
    using Cons.prems len by (intro Cons.IH) simp_all
  moreover have "rd (pre @ encode_value v @ concat (map encode_value vs) @ post) (i * 76) 76 k =
      k (encode_value v)" for k :: "bytes \<Rightarrow> pai_ir_value list res outcome"
    using Cons.prems(2) len by (intro rd_at) simp_all
  ultimately show ?case
    using Cons.prems(1) by (simp add: decode_encode_value PAI_IR_VALUE_REC_SIZE_def)
qed simp

lemma read_inputs_ok:
  assumes "\<forall>d \<in> set ds. d \<noteq> 0 \<and> unat d \<le> nv"
  shows "read_inputs (pre @ concat (map put_le16 ds) @ post) nv (length ds) (length pre) = Returns (Inr ds)"
  using assms
proof (induction ds arbitrary: pre)
  case (Cons d ds)
  have "read_inputs ((pre @ put_le16 d) @ concat (map put_le16 ds) @ post) nv (length ds) (length (pre @ put_le16 d)) =
      Returns (Inr ds)" using Cons by (intro Cons.IH) simp
  moreover have "rd (pre @ put_le16 d @ concat (map put_le16 ds) @ post) (length pre) 2 k = k (put_le16 d)"
    for k :: "bytes \<Rightarrow> u16 list res outcome" by (intro rd_at) simp_all
  ultimately show ?case using Cons.prems by simp
qed simp

lemma read_outputs_ok:
  assumes "ir_outputs_ok nv ins seen ds"
  shows "read_outputs (pre @ concat (map put_le16 ds) @ post) nv ins seen (length ds) (length pre) = Returns (Inr ds)"
  using assms
proof (induction ds arbitrary: pre seen)
  case (Cons d ds)
  have "read_outputs ((pre @ put_le16 d) @ concat (map put_le16 ds) @ post) nv ins (d # seen) (length ds)
      (length (pre @ put_le16 d)) = Returns (Inr ds)" using Cons by (intro Cons.IH) simp
  moreover have "rd (pre @ put_le16 d @ concat (map put_le16 ds) @ post) (length pre) 2 k = k (put_le16 d)"
    for k :: "bytes \<Rightarrow> u16 list res outcome" by (intro rd_at) simp_all
  ultimately show ?case using Cons.prems by simp
qed simp

lemma read_ids_ok:
  assumes "\<forall>d \<in> set ds. d \<noteq> 0 \<and> unat d \<le> nv"
  shows "read_ids (pre @ concat (map put_le32 ds) @ post) nv (length ds) (length pre) = Returns (Inr ds)"
  using assms
proof (induction ds arbitrary: pre)
  case (Cons d ds)
  have "read_ids ((pre @ put_le32 d) @ concat (map put_le32 ds) @ post) nv (length ds) (length (pre @ put_le32 d)) =
      Returns (Inr ds)" using Cons by (intro Cons.IH) simp
  moreover have "rd (pre @ put_le32 d @ concat (map put_le32 ds) @ post) (length pre) 4 k = k (put_le32 d)"
    for k :: "bytes \<Rightarrow> u32 list res outcome" by (intro rd_at) simp_all
  ultimately show ?case using Cons.prems by simp
qed simp

text \<open>Ops the decoder accepts: at least one input and one output.\<close>

definition op_nonempty :: "pai_ir_op \<Rightarrow> bool" where
  "op_nonempty p \<longleftrightarrow> ioinputs p \<noteq> [] \<and> iooutputs p \<noteq> []"

lemma arity_byte: "n \<le> 16 \<Longrightarrow> unat (of_nat n :: u8) = n"
  by (simp add: unat_of_nat)

lemma length_encode_op [simp]: "length (encode_op p) = op_record_size p"
  by (simp add: encode_op_def op_record_size_def)

lemma rd_op_header:
  "rd (pre @ encode_op p @ post) (length pre) 4 k =
    k [iokind p, iodevice p, of_nat (length (ioinputs p)), of_nat (length (iooutputs p))]"
  by (simp add: rd_def encode_op_def)

lemma decode_encode_op:
  assumes "op_valid nv p" "op_nonempty p"
  shows "decode_op (pre @ encode_op p @ post) nv (length pre) =
    Returns (Inr (p, length pre + op_record_size p))"
proof -
  let ?h = "[iokind p, iodevice p, of_nat (length (ioinputs p)), of_nat (length (iooutputs p))] @ put_le16 0 @ put_le16 0"
  let ?body = "pre @ encode_op p @ post"
  have n: "unat (of_nat (length (ioinputs p)) :: u8) = length (ioinputs p)"
    "unat (of_nat (length (iooutputs p)) :: u8) = length (iooutputs p)"
    using assms(1) by (auto simp: op_valid_def PAI_IR_MAX_ARITY_def intro: arity_byte)
  have "?body = (pre @ ?h) @ concat (map put_le16 (ioinputs p)) @ concat (map put_le16 (iooutputs p)) @ post"
    by (simp add: encode_op_def)
  moreover have "read_inputs ((pre @ ?h) @ concat (map put_le16 (ioinputs p)) @ concat (map put_le16 (iooutputs p)) @ post)
      nv (length (ioinputs p)) (length (pre @ ?h)) = Returns (Inr (ioinputs p))"
    using assms(1) by (intro read_inputs_ok) (simp add: op_valid_def)
  moreover have "length (pre @ ?h) = length pre + 8" by simp
  ultimately have ri: "read_inputs ?body nv (length (ioinputs p)) (length pre + 8) = Returns (Inr (ioinputs p))"
    by metis
  have "?body = (pre @ ?h @ concat (map put_le16 (ioinputs p))) @ concat (map put_le16 (iooutputs p)) @ post"
    by (simp add: encode_op_def)
  moreover have "read_outputs ((pre @ ?h @ concat (map put_le16 (ioinputs p))) @ concat (map put_le16 (iooutputs p)) @ post)
      nv (ioinputs p) [] (length (iooutputs p)) (length (pre @ ?h @ concat (map put_le16 (ioinputs p)))) =
      Returns (Inr (iooutputs p))"
    using assms(1) by (intro read_outputs_ok) (auto simp: op_valid_def ir_outputs_ok_iff)
  moreover have "length (pre @ ?h @ concat (map put_le16 (ioinputs p))) = length pre + 8 + 2 * length (ioinputs p)"
    by simp
  ultimately have ro: "read_outputs ?body nv (ioinputs p) [] (length (iooutputs p))
      (length pre + 8 + 2 * length (ioinputs p)) = Returns (Inr (iooutputs p))"
    by metis
  have "iokind p < PAI_IR_OP_KIND_COUNT" "iodevice p < PAI_IR_DEVICE_COUNT"
    "length (ioinputs p) \<le> PAI_IR_MAX_ARITY" "length (iooutputs p) \<le> PAI_IR_MAX_ARITY"
    using assms(1) by (simp_all add: op_valid_def)
  then show ?thesis
    unfolding decode_op_def rd_op_header
    using assms(2) ri ro by (simp add: n op_nonempty_def not_le [symmetric] op_record_size_def)
qed

lemma decode_encode_ops:
  assumes "\<forall>p \<in> set ps. op_valid nv p \<and> op_nonempty p"
  shows "decode_ops (pre @ concat (map encode_op ps) @ post) nv (length ps) (length pre) =
    Returns (Inr (ps, length pre + length (concat (map encode_op ps))))"
  using assms
proof (induction ps arbitrary: pre)
  case (Cons p ps)
  have "decode_ops ((pre @ encode_op p) @ concat (map encode_op ps) @ post) nv (length ps) (length (pre @ encode_op p)) =
      Returns (Inr (ps, length (pre @ encode_op p) + length (concat (map encode_op ps))))"
    using Cons.prems by (intro Cons.IH) simp
  moreover have "decode_op (pre @ encode_op p @ concat (map encode_op ps) @ post) nv (length pre) =
      Returns (Inr (p, length pre + op_record_size p))"
    using Cons.prems by (intro decode_encode_op) simp_all
  ultimately show ?case by simp
qed simp

lemma scan_encode_ops:
  assumes "\<forall>p \<in> set ps. op_valid nv p"
  shows "scan_ops (pre @ concat (map encode_op ps) @ post) (length ps) (length pre) =
    Returns (Inr (length pre + length (concat (map encode_op ps))))"
  using assms
proof (induction ps arbitrary: pre)
  case (Cons p ps)
  have n: "unat (of_nat (length (ioinputs p)) :: u8) = length (ioinputs p)"
    "unat (of_nat (length (iooutputs p)) :: u8) = length (iooutputs p)"
    using Cons.prems by (auto simp: op_valid_def PAI_IR_MAX_ARITY_def intro: arity_byte)
  have "scan_ops ((pre @ encode_op p) @ concat (map encode_op ps) @ post) (length ps) (length (pre @ encode_op p)) =
      Returns (Inr (length (pre @ encode_op p) + length (concat (map encode_op ps))))"
    using Cons.prems by (intro Cons.IH) simp
  moreover have "rd (pre @ encode_op p @ concat (map encode_op ps) @ post) (length pre) 4 k =
      k [iokind p, iodevice p, of_nat (length (ioinputs p)), of_nat (length (iooutputs p))]"
    for k :: "bytes \<Rightarrow> nat res outcome"
    by (rule rd_op_header)
  ultimately show ?case by (simp add: n op_record_size_def add_mult_distrib2 add.assoc)
qed simp

section \<open>The whole blob\<close>

lemma length_encode_head [simp]: "length (encode_head prog) = 24"
  by (simp add: encode_head_def)

definition encode_blob :: "pai_ir_program \<Rightarrow> bytes" where
  "encode_blob prog =
     encode_head prog @ put_le32 (ir_crc (encode_head prog) (encode_body prog)) @ put_le32 0 @ encode_body prog"

lemma length_values:
  "\<forall>v \<in> set vs. value_valid v \<Longrightarrow> length (concat (map encode_value vs)) = 76 * length vs"
  by (induction vs) (auto simp: length_encode_value value_valid_def)

lemma length_ops: "length (concat (map encode_op ps)) = (\<Sum>p \<leftarrow> ps. op_record_size p)"
  by (simp add: length_concat comp_def)

lemma ops_bytes_bound:
  assumes "\<forall>p \<in> set ps. op_valid nv p"
  shows "(\<Sum>p \<leftarrow> ps. op_record_size p) \<le> 72 * length ps"
  using assms by (induction ps) (auto simp: op_valid_def op_record_size_def PAI_IR_MAX_ARITY_def)

lemma fold_op_bytes:
  assumes "b + (\<Sum>p \<leftarrow> ps. op_record_size p) < 2 ^ 32"
  shows "foldl (\<lambda>b p. (b + op_record_size p) mod 2 ^ 32) b ps = b + (\<Sum>p \<leftarrow> ps. op_record_size p)"
  using assms by (induction ps arbitrary: b) simp_all

lemma encoded_size_valid:
  assumes "ir_valid prog"
  shows "pai_ir_encoded_size prog = length (encode_blob prog)" and "length (encode_blob prog) < 2 ^ 32"
    and "0 < length (encode_blob prog)"
proof -
  let ?ob = "\<Sum>p \<leftarrow> iops prog. op_record_size p"
  have b: "length (ivalues prog) \<le> 1024" "length (iops prog) \<le> 1024" "length (input_ids prog) \<le> 1024"
    "length (output_ids prog) \<le> 1024" "\<forall>v \<in> set (ivalues prog). value_valid v"
    "\<forall>p \<in> set (iops prog). op_valid (length (ivalues prog)) p"
    using assms by (simp_all add: ir_valid_def ids_valid_def ir_consts)
  have ob: "?ob \<le> 73728" using ops_bytes_bound [OF b(6)] b(2) by linarith
  have len: "length (encode_blob prog) = 32 + length (ivalues prog) * 76 + ?ob +
      (length (input_ids prog) + length (output_ids prog)) * 4"
    using length_values [OF b(5)] by (simp add: encode_blob_def encode_body_def length_ops [symmetric])
  have "foldl (\<lambda>b p. (b + op_record_size p) mod 2 ^ 32) 0 (iops prog) = ?ob"
    using fold_op_bytes [of 0 "iops prog"] ob by simp
  then show "pai_ir_encoded_size prog = length (encode_blob prog)"
    using b(1-4) ob unfolding pai_ir_encoded_size_def len ir_sizes Let_def by simp
  show "length (encode_blob prog) < 2 ^ 32" "0 < length (encode_blob prog)"
    using b(1-4) ob by (simp_all add: len)
qed

lemma encode_valid:
  assumes "ir_valid prog" "length (encode_blob prog) \<le> cap"
  shows "pai_ir_encode prog cap = Inr (encode_blob prog)"
  using assms encoded_size_valid [OF assms(1)]
  by (simp add: pai_ir_encode_def encode_blob_def Let_def)

lemma head_fields:
  fixes crc :: u32 and prog :: pai_ir_program
  defines "h \<equiv> encode_head prog @ put_le32 crc @ put_le32 0"
  shows "get_le32 h = PAI_IR_MAGIC" "get_le16 (drop 4 h) = PAI_IR_VERSION" "get_le16 (drop 6 h) = 0"
    "get_le32 (drop 8 h) = of_nat (length (ivalues prog))" "get_le32 (drop 12 h) = of_nat (length (iops prog))"
    "get_le32 (drop 16 h) = of_nat (length (input_ids prog))" "get_le32 (drop 20 h) = of_nat (length (output_ids prog))"
    "get_le32 (drop 24 h) = crc" "get_le32 (drop 28 h) = 0" "length h = 32" "take 24 h = encode_head prog"
  by (simp_all add: h_def encode_head_def drop_append)

lemma scan_encode_body:
  assumes v: "ir_valid prog"
  shows "scan_ops (encode_body prog) (length (iops prog)) (length (ivalues prog) * 76) =
      Returns (Inr (length (ivalues prog) * 76 + length (concat (map encode_op (iops prog)))))"
proof -
  have "length (concat (map encode_value (ivalues prog))) = length (ivalues prog) * 76"
    using length_values [of "ivalues prog"] v by (simp add: ir_valid_def)
  then show ?thesis
    using scan_encode_ops [of "iops prog" "length (ivalues prog)" "concat (map encode_value (ivalues prog))"] v
    by (simp add: encode_body_def ir_valid_def)
qed

lemma decode_blob_records:
  assumes v: "ir_valid prog"
  shows "pai_ir_decode (encode_blob prog) =
    decode_records (encode_body prog) (length (ivalues prog)) (length (iops prog))
      (length (input_ids prog)) (length (output_ids prog))"
proof -
  let ?crc = "ir_crc (encode_head prog) (encode_body prog)"
  define h where "h = encode_head prog @ put_le32 ?crc @ put_le32 0"
  note f = head_fields [of prog ?crc, folded h_def]
  have blob: "encode_blob prog = h @ encode_body prog" by (simp add: encode_blob_def h_def)
  have b: "length (ivalues prog) \<le> 1024" "length (iops prog) \<le> 1024" "length (input_ids prog) \<le> 1024"
    "length (output_ids prog) \<le> 1024" "\<forall>v \<in> set (ivalues prog). value_valid v"
    using v by (simp_all add: ir_valid_def ids_valid_def ir_consts)
  have n: "unat (of_nat k :: u32) = k" if "k \<le> 1024" for k using that by (simp add: unat_of_nat)
  have "length (encode_body prog) = length (ivalues prog) * 76 + length (concat (map encode_op (iops prog))) +
      4 * (length (input_ids prog) + length (output_ids prog))"
    using length_values [OF b(5)] by (simp add: encode_body_def)
  moreover have "rd (encode_blob prog) 0 32 k = k h" for k :: "bytes \<Rightarrow> pai_ir_program res outcome"
    by (simp add: rd_def blob f)
  moreover have "drop 32 (encode_blob prog) = encode_body prog" "\<not> length (encode_blob prog) < 32"
    by (simp_all add: blob f)
  ultimately show ?thesis
    using scan_encode_body [OF v] b(1-4)
    unfolding pai_ir_decode_def ir_sizes
    by (simp add: f n ir_consts Let_def)
qed

text \<open>The record pass over an encoded body, up to the ops.\<close>

lemma encode_body_parts:
  assumes v: "ir_valid prog"
  shows "decode_values (encode_body prog) (length (ivalues prog)) 0 = Returns (Inr (ivalues prog))"
    and "length (concat (map encode_value (ivalues prog))) = length (ivalues prog) * 76"
  using decode_encode_values [of "ivalues prog" "[]" 0] length_values [of "ivalues prog"] v
  by (simp_all add: encode_body_def ir_valid_def)

lemma decode_encode_blob:
  assumes v: "ir_valid prog" and ne: "\<forall>p \<in> set (iops prog). op_nonempty p"
  shows "pai_ir_decode (encode_blob prog) = Returns (Inr prog)"
proof -
  let ?nv = "length (ivalues prog)"
  let ?vs = "concat (map encode_value (ivalues prog))" and ?ps = "concat (map encode_op (iops prog))"
  let ?is = "concat (map put_le32 (input_ids prog))" and ?os = "concat (map put_le32 (output_ids prog))"
  have b: "\<forall>p \<in> set (iops prog). op_valid ?nv p \<and> op_nonempty p"
    "\<forall>d \<in> set (input_ids prog). d \<noteq> 0 \<and> unat d \<le> ?nv" "\<forall>d \<in> set (output_ids prog). d \<noteq> 0 \<and> unat d \<le> ?nv"
    using v ne by (simp_all add: ir_valid_def ids_valid_def)
  note dv = encode_body_parts(1) [OF v] and lv = encode_body_parts(2) [OF v]
  have body: "encode_body prog = ?vs @ ?ps @ ?is @ ?os" by (simp add: encode_body_def)
  have dp: "decode_ops (encode_body prog) ?nv (length (iops prog)) (?nv * 76) =
      Returns (Inr (iops prog, ?nv * 76 + length ?ps))"
    using decode_encode_ops [OF b(1), of ?vs "?is @ ?os"] unfolding lv body .
  have di: "read_ids (encode_body prog) ?nv (length (input_ids prog)) (?nv * 76 + length ?ps) =
      Returns (Inr (input_ids prog))"
    using read_ids_ok [OF b(2), of "?vs @ ?ps" ?os] by (simp add: body lv)
  have "length (?vs @ ?ps @ ?is) = ?nv * 76 + length ?ps + 4 * length (input_ids prog)"
    using lv by simp
  moreover have "read_ids ((?vs @ ?ps @ ?is) @ ?os @ []) ?nv (length (output_ids prog)) (length (?vs @ ?ps @ ?is)) =
      Returns (Inr (output_ids prog))"
    by (rule read_ids_ok [OF b(3)])
  ultimately have do: "read_ids (encode_body prog) ?nv (length (output_ids prog))
      (?nv * 76 + length ?ps + 4 * length (input_ids prog)) = Returns (Inr (output_ids prog))"
    unfolding body by (metis append_Nil2 append_assoc)
  show ?thesis
    unfolding decode_blob_records [OF v] decode_records_def PAI_IR_VALUE_REC_SIZE_def dv dp by (simp add: di do)
qed

lemma decode_empty_op:
  assumes "op_valid nv p" "\<not> op_nonempty p"
  shows "decode_op (pre @ encode_op p @ post) nv (length pre) = Returns (Inl PAI_ERR_PROTOCOL)"
proof -
  have "of_nat (length (ioinputs p)) = (0 :: u8) \<or> of_nat (length (iooutputs p)) = (0 :: u8)"
    using assms(2) by (auto simp: op_nonempty_def)
  then show ?thesis unfolding decode_op_def rd_op_header by (auto simp: Let_def)
qed

lemma decode_ops_rejects:
  assumes "\<forall>p \<in> set ps. op_valid nv p" "\<exists>p \<in> set ps. \<not> op_nonempty p"
  shows "decode_ops (pre @ concat (map encode_op ps) @ post) nv (length ps) (length pre) =
    Returns (Inl PAI_ERR_PROTOCOL)"
  using assms
proof (induction ps arbitrary: pre)
  case (Cons p ps)
  show ?case
  proof (cases "op_nonempty p")
    case True
    then have "decode_op (pre @ encode_op p @ concat (map encode_op ps) @ post) nv (length pre) =
        Returns (Inr (p, length pre + op_record_size p))"
      using Cons.prems by (intro decode_encode_op) simp_all
    moreover have "decode_ops ((pre @ encode_op p) @ concat (map encode_op ps) @ post) nv (length ps)
        (length (pre @ encode_op p)) = Returns (Inl PAI_ERR_PROTOCOL)"
      using Cons.prems True by (intro Cons.IH) simp_all
    ultimately show ?thesis by simp
  next
    case False
    then show ?thesis using decode_empty_op [OF _ False, of nv pre] Cons.prems by simp
  qed
qed simp

section \<open>Safety of the decoder on arbitrary input\<close>

text \<open>\<open>yields r P\<close>: the computation returns, and a successful result satisfies \<open>P\<close>.\<close>

definition yields :: "'a res outcome \<Rightarrow> ('a \<Rightarrow> bool) \<Rightarrow> bool" where
  "yields x P \<longleftrightarrow> (\<exists>r. x = Returns r \<and> (\<forall>a. r = Inr a \<longrightarrow> P a))"

lemma yields_simps [simp]:
  "yields (Returns (Inr a)) P \<longleftrightarrow> P a" "yields (Returns (Inl e)) P" "\<not> yields Fault P" "\<not> yields Diverges P"
  by (auto simp: yields_def)

lemma yields_cases:
  assumes "yields x P" "\<And>a. P a \<Longrightarrow> x = Returns (Inr a) \<Longrightarrow> thesis" "\<And>e. x = Returns (Inl e) \<Longrightarrow> thesis"
  shows thesis
  using assms by (auto simp: yields_def split: sum.splits) (metis sum.exhaust)

lemma yields_rd: "off + n \<le> length b \<Longrightarrow> yields (k (take n (drop off b))) P \<Longrightarrow> yields (rd b off n k) P"
  by (simp add: rd_def)

lemma read_inputs_yields:
  assumes "p + 2 * n \<le> length body"
  shows "yields (read_inputs body nv n p) (\<lambda>ds. length ds = n \<and> (\<forall>d \<in> set ds. d \<noteq> 0 \<and> unat d \<le> nv))"
  using assms
proof (induction n arbitrary: p)
  case (Suc n)
  from Suc.prems have "yields (read_inputs body nv n (p + 2)) (\<lambda>ds. length ds = n \<and> (\<forall>d \<in> set ds. d \<noteq> 0 \<and> unat d \<le> nv))"
    by (intro Suc.IH) simp
  then show ?case using Suc.prems
    by (elim yields_cases) (auto intro!: yields_rd simp: Let_def)
qed simp

lemma read_outputs_yields:
  assumes "p + 2 * n \<le> length body"
  shows "yields (read_outputs body nv ins seen n p) (\<lambda>ds. length ds = n \<and> ir_outputs_ok nv ins seen ds)"
  using assms
proof (induction n arbitrary: p seen)
  case (Suc n)
  let ?d = "get_le16 (take 2 (drop p body))"
  from Suc.prems have "yields (read_outputs body nv ins (?d # seen) n (p + 2))
      (\<lambda>ds. length ds = n \<and> ir_outputs_ok nv ins (?d # seen) ds)"
    by (intro Suc.IH) simp
  then show ?case using Suc.prems
    by (elim yields_cases) (auto intro!: yields_rd simp: Let_def)
qed simp

lemma read_ids_yields:
  assumes "p + 4 * n \<le> length body"
  shows "yields (read_ids body nv n p) (\<lambda>ds. length ds = n \<and> (\<forall>d \<in> set ds. d \<noteq> 0 \<and> unat d \<le> nv))"
  using assms
proof (induction n arbitrary: p)
  case (Suc n)
  from Suc.prems have "yields (read_ids body nv n (p + 4)) (\<lambda>ds. length ds = n \<and> (\<forall>d \<in> set ds. d \<noteq> 0 \<and> unat d \<le> nv))"
    by (intro Suc.IH) simp
  then show ?case using Suc.prems
    by (elim yields_cases) (auto intro!: yields_rd simp: Let_def)
qed simp

lemma decode_value_valid: "decode_value r = Inr v \<Longrightarrow> value_valid v"
proof -
  assume a: "decode_value r = Inr v"
  have "dtype_of_code (r ! 0) \<noteq> PAI_DTYPE_COUNT" if "unat (r ! 0) < 9"
  proof -
    have "unat (r ! 0) \<in> {0, 1, 2, 3, 4, 5, 6, 7, 8}" using that by auto
    then show ?thesis by (auto simp: dtype_of_code_def)
  qed
  then show ?thesis
    using a by (auto simp: decode_value_def value_valid_def Let_def not_le not_less split: if_splits sum.splits)
qed

lemma decode_values_yields:
  assumes "(i + n) * 76 \<le> length body"
  shows "yields (decode_values body n i) (\<lambda>vs. length vs = n \<and> (\<forall>v \<in> set vs. value_valid v))"
  using assms
proof (induction n arbitrary: i)
  case (Suc n)
  from Suc.prems have IH: "yields (decode_values body n (Suc i)) (\<lambda>vs. length vs = n \<and> (\<forall>v \<in> set vs. value_valid v))"
    by (intro Suc.IH) simp
  have "i * 76 + 76 \<le> length body" using Suc.prems by simp
  then show ?case using IH unfolding decode_values.simps PAI_IR_VALUE_REC_SIZE_def
    by (elim yields_cases; intro yields_rd) (auto split: sum.splits dest: decode_value_valid)
qed simp

lemma scan_ops_yields:
  assumes "p \<le> length body"
  shows "yields (scan_ops body n p) (\<lambda>q. p \<le> q \<and> q \<le> length body)"
  using assms
proof (induction n arbitrary: p)
  case (Suc n)
  show ?case
  proof (cases "p + 8 > length body")
    case False
    let ?r = "take 4 (drop p body)"
    let ?sz = "8 + 2 * (unat (?r ! 2) + unat (?r ! 3))"
    have "yields (scan_ops body n (p + ?sz)) (\<lambda>q. p \<le> q \<and> q \<le> length body)" if "p + ?sz \<le> length body"
      using Suc.IH [OF that] by (auto simp: yields_def)
    then show ?thesis using False by (auto intro!: yields_rd simp: Let_def not_less)
  qed simp
qed simp

text \<open>After the bounds pass the second pass stays inside the record and ends where the first did.\<close>

lemma decode_op_yields:
  fixes body :: bytes and p :: nat
  defines "sz \<equiv> 8 + 2 * (unat (take 4 (drop p body) ! 2) + unat (take 4 (drop p body) ! 3))"
  assumes "p + sz \<le> length body"
  shows "yields (decode_op body nv p) (\<lambda>(x, q). op_valid nv x \<and> op_nonempty x \<and> q = p + sz)"
proof -
  let ?ni = "unat (take 4 (drop p body) ! 2)" and ?no = "unat (take 4 (drop p body) ! 3)"
  have l: "p + 8 + 2 * ?ni \<le> length body" "p + 8 + 2 * ?ni + 2 * ?no \<le> length body" "p + 4 \<le> length body"
    using assms(2) unfolding sz_def by (auto simp del: nth_take nth_drop)
  from read_inputs_yields [OF l(1), of nv] show ?thesis
  proof (rule yields_cases)
    fix ins assume i: "length ins = ?ni \<and> (\<forall>d \<in> set ins. d \<noteq> 0 \<and> unat d \<le> nv)"
      "read_inputs body nv ?ni (p + 8) = Returns (Inr ins)"
    from read_outputs_yields [OF l(2), of nv ins "[]"] show ?thesis
    proof (rule yields_cases)
      fix outs assume "length outs = ?no \<and> ir_outputs_ok nv ins [] outs"
        "read_outputs body nv ins [] ?no (p + 8 + 2 * ?ni) = Returns (Inr outs)"
      then show ?thesis using i l(3) unfolding decode_op_def
        by (intro yields_rd) (auto simp: Let_def op_valid_def ir_outputs_ok_iff op_nonempty_def sz_def not_le)
    qed (use i l(3) in \<open>auto simp: decode_op_def Let_def intro!: yields_rd\<close>)
  qed (use l(3) in \<open>auto simp: decode_op_def Let_def intro!: yields_rd\<close>)
qed

lemma decode_ops_yields:
  assumes "scan_ops body n p = Returns (Inr q)"
  shows "yields (decode_ops body nv n p)
    (\<lambda>(xs, q'). length xs = n \<and> (\<forall>x \<in> set xs. op_valid nv x \<and> op_nonempty x) \<and> q' = q)"
  using assms
proof (induction n arbitrary: p)
  case (Suc n)
  let ?sz = "8 + 2 * (unat (take 4 (drop p body) ! 2) + unat (take 4 (drop p body) ! 3))"
  have s: "p + ?sz \<le> length body" "scan_ops body n (p + ?sz) = Returns (Inr q)"
    using Suc.prems by (auto simp: rd_def Let_def split: if_splits)
  from decode_op_yields [OF s(1), of nv] Suc.IH [OF s(2)] show ?case
    by (elim yields_cases) auto
qed simp

lemma decode_records_yields:
  assumes "nv * 76 \<le> length body" "scan_ops body np (nv * 76) = Returns (Inr q)"
    and "q + 4 * (ni + no) \<le> length body"
    and "nv \<le> PAI_IR_MAX_VALUES" "np \<le> PAI_IR_MAX_OPS" "ni \<le> PAI_IR_MAX_VALUES" "no \<le> PAI_IR_MAX_VALUES"
  shows "yields (decode_records body nv np ni no) (\<lambda>prog. ir_valid prog \<and> (\<forall>p \<in> set (iops prog). op_nonempty p))"
proof -
  have 1: "yields (decode_values body nv 0) (\<lambda>vs. length vs = nv \<and> (\<forall>v \<in> set vs. value_valid v))"
    using decode_values_yields [of 0 nv body] assms(1) by simp
  note 2 = decode_ops_yields [OF assms(2), of nv]
  have 3: "yields (read_ids body nv ni q) (\<lambda>ds. length ds = ni \<and> (\<forall>d \<in> set ds. d \<noteq> 0 \<and> unat d \<le> nv))"
    "yields (read_ids body nv no (q + 4 * ni)) (\<lambda>ds. length ds = no \<and> (\<forall>d \<in> set ds. d \<noteq> 0 \<and> unat d \<le> nv))"
    using assms(3) by (auto intro!: read_ids_yields)
  from 1 2 3 assms(4-7) show ?thesis
    unfolding decode_records_def PAI_IR_VALUE_REC_SIZE_def
    by (elim yields_cases) (auto simp: ir_valid_def ids_valid_def)
qed

section \<open>Properties\<close>

text \<open>C9. Whatever bytes it is given, the IR decoder never reads outside them and returns; and a program
  it accepts is valid: counts within the limits, sizes that match shapes, power-of-two alignments,
  ids that exist, distinct outputs disjoint from the inputs, quantization metadata in range.\<close>

theorem ir_decode_safe:
  "(\<exists>e. pai_ir_decode blob = Returns (Inl e)) \<or> (\<exists>prog. pai_ir_decode blob = Returns (Inr prog) \<and> ir_valid prog)"
proof -
  have "yields (pai_ir_decode blob) ir_valid"
  proof (cases "length blob < 32")
    case False
    let ?h = "take 32 blob" and ?body = "drop 32 blob"
    let ?nv = "unat (get_le32 (drop 8 ?h))" and ?np = "unat (get_le32 (drop 12 ?h))"
    let ?ni = "unat (get_le32 (drop 16 ?h))" and ?no = "unat (get_le32 (drop 20 ?h))"
    have "yields (scan_ops ?body ?np (?nv * 76)) (\<lambda>q. q \<le> length ?body)" if "?nv * 76 \<le> length ?body"
      using scan_ops_yields [OF that, of ?np] by (auto simp: yields_def)
    moreover have "yields (decode_records ?body ?nv ?np ?ni ?no) ir_valid"
      if "?nv * 76 \<le> length ?body" "scan_ops ?body ?np (?nv * 76) = Returns (Inr q)"
        "q + 4 * (?ni + ?no) \<le> length ?body"
        "?nv \<le> PAI_IR_MAX_VALUES" "?np \<le> PAI_IR_MAX_OPS" "?ni \<le> PAI_IR_MAX_VALUES" "?no \<le> PAI_IR_MAX_VALUES" for q
      using decode_records_yields [OF that] by (auto simp: yields_def)
    ultimately show ?thesis using False
      unfolding pai_ir_decode_def ir_sizes
      by (simp add: rd_def Let_def not_le not_less) (auto elim!: yields_cases simp: not_less)
  qed (simp add: pai_ir_decode_def ir_sizes)
  then show ?thesis by (auto simp: yields_def) (metis sum.exhaust)
qed

text \<open>C18. Round trip: a program built through the interface whose ops all have inputs and outputs is
  encoded into exactly \<open>pai_ir_encoded_size\<close> bytes, and decoding these bytes gives it back.\<close>

theorem ir_roundtrip:
  assumes "ir_built prog" and "\<forall>p \<in> set (iops prog). ioinputs p \<noteq> [] \<and> iooutputs p \<noteq> []"
    and "pai_ir_encoded_size prog \<le> cap"
  shows "\<exists>blob. pai_ir_encode prog cap = Inr blob \<and> length blob = pai_ir_encoded_size prog \<and>
    pai_ir_decode blob = Returns (Inr prog)"
proof -
  have v: "ir_valid prog" using built_valid [OF assms(1)] .
  have "\<forall>p \<in> set (iops prog). op_nonempty p" using assms(2) by (simp add: op_nonempty_def)
  then show ?thesis
    using encode_valid [OF v] encoded_size_valid(1) [OF v] assms(3) decode_encode_blob [OF v] by simp
qed

lemma five_zeros: "replicate 5 x = [x, x, x, x, x]"
  by (simp add: numeral_eq_Suc)

definition demo_ir :: pai_ir_program where
  "demo_ir =
     pai_ir_set_input (fst (pai_ir_add_op (fst (pai_ir_add_value (fst (pai_ir_add_value pai_ir_init
       PAI_DTYPE_F32 [4] 0 1 0)) PAI_DTYPE_F32 [4] 64 4 0)) 6 0 [1] [2])) 1"

theorem ir_roundtrip_witness:
  "\<exists>blob. pai_ir_encode demo_ir 256 = Inr blob \<and> length blob = 200 \<and> pai_ir_decode blob = Returns (Inr demo_ir)"
proof -
  have b: "ir_built demo_ir" unfolding demo_ir_def by (intro ir_built.intros(1,2,4,5))
  have c: "pai_tensor_contiguous_size PAI_DTYPE_F32 [4] = Inr 16"
    by (simp add: pai_tensor_contiguous_size_def PAI_TENSOR_MAX_RANK_def pai_dtype_size_def)
  let ?a = "\<lparr>ivdtype = PAI_DTYPE_F32, ivrank = 1, ivkind = 1, ivdevice = 0, ivshape = [4, 0, 0, 0, 0, 0], ivsize = 16,
        ivalign = 16, ivquant = zero_quant\<rparr>"
  let ?b = "\<lparr>ivdtype = PAI_DTYPE_F32, ivrank = 1, ivkind = 4, ivdevice = 0, ivshape = [4, 0, 0, 0, 0, 0], ivsize = 16,
        ivalign = 64, ivquant = zero_quant\<rparr>"
  have v1: "fst (pai_ir_add_value pai_ir_init PAI_DTYPE_F32 [4] 0 1 0) =
      \<lparr>ivalues = [?a], iops = [], input_ids = [], output_ids = []\<rparr>"
    by (simp add: pai_ir_add_value_def pai_ir_init_def c ir_consts PAI_TENSOR_MAX_RANK_def five_zeros word_le_nat_alt)
  have v2: "fst (pai_ir_add_value \<lparr>ivalues = [?a], iops = [], input_ids = [], output_ids = []\<rparr>
      PAI_DTYPE_F32 [4] 64 4 0) = \<lparr>ivalues = [?a, ?b], iops = [], input_ids = [], output_ids = []\<rparr>"
    by (simp add: pai_ir_add_value_def c ir_consts PAI_TENSOR_MAX_RANK_def five_zeros)
  have o1: "fst (pai_ir_add_op \<lparr>ivalues = [?a, ?b], iops = [], input_ids = [], output_ids = []\<rparr> 6 0 [1] [2]) =
      \<lparr>ivalues = [?a, ?b], iops = [\<lparr>iokind = 6, iodevice = 0, ioinputs = [1], iooutputs = [2]\<rparr>],
       input_ids = [], output_ids = []\<rparr>"
    by (simp add: pai_ir_add_op_def ir_consts)
  have eq: "demo_ir = \<lparr>ivalues =
      [\<lparr>ivdtype = PAI_DTYPE_F32, ivrank = 1, ivkind = 1, ivdevice = 0, ivshape = [4, 0, 0, 0, 0, 0], ivsize = 16,
        ivalign = 16, ivquant = zero_quant\<rparr>,
       \<lparr>ivdtype = PAI_DTYPE_F32, ivrank = 1, ivkind = 4, ivdevice = 0, ivshape = [4, 0, 0, 0, 0, 0], ivsize = 16,
        ivalign = 64, ivquant = zero_quant\<rparr>],
      iops = [\<lparr>iokind = 6, iodevice = 0, ioinputs = [1], iooutputs = [2]\<rparr>], input_ids = [1], output_ids = []\<rparr>"
    unfolding demo_ir_def v1 v2 o1 by (simp add: pai_ir_set_input_def ir_consts)
  have "pai_ir_encoded_size demo_ir = 200"
    by (simp add: eq pai_ir_encoded_size_def ir_sizes op_record_size_def)
  then show ?thesis using ir_roundtrip [OF b, of 256] by (simp add: eq)
qed

text \<open>C34. Every program that the builder functions can produce is well-formed: counts within the arrays,
  values with a known dtype, a non-zero exact size and a power-of-two alignment, ops whose ids name values of
  the program, with distinct outputs that are not inputs.\<close>

theorem ir_build_wf: "ir_built prog \<Longrightarrow> ir_valid prog"
  by (rule built_valid)

theorem ir_build_wf_witness: "ir_valid demo_ir"
  unfolding demo_ir_def by (intro ir_build_wf ir_built.intros(1,2,4,5))

text \<open>A program with an op that has no inputs or no outputs, which the builder accepts, is encoded
  without an error into a blob that the decoder refuses.\<close>

theorem ir_zero_arity_not_decodable:
  assumes "ir_built prog" and "\<exists>p \<in> set (iops prog). ioinputs p = [] \<or> iooutputs p = []"
    and "pai_ir_encoded_size prog \<le> cap"
  shows "\<exists>blob. pai_ir_encode prog cap = Inr blob \<and> pai_ir_decode blob = Returns (Inl PAI_ERR_PROTOCOL)"
proof -
  have v: "ir_valid prog" using built_valid [OF assms(1)] .
  have "\<exists>p \<in> set (iops prog). \<not> op_nonempty p" using assms(2) by (auto simp: op_nonempty_def)
  then have "decode_ops (encode_body prog) (length (ivalues prog)) (length (iops prog)) (length (ivalues prog) * 76) =
      Returns (Inl PAI_ERR_PROTOCOL)"
    using decode_ops_rejects [of "iops prog" "length (ivalues prog)" "concat (map encode_value (ivalues prog))"]
      v encode_body_parts(2) [OF v] by (simp add: encode_body_def ir_valid_def)
  then have "pai_ir_decode (encode_blob prog) = Returns (Inl PAI_ERR_PROTOCOL)"
    unfolding decode_blob_records [OF v] decode_records_def PAI_IR_VALUE_REC_SIZE_def encode_body_parts(1) [OF v]
    by simp
  then show ?thesis using encode_valid [OF v] encoded_size_valid(1) [OF v] assms(3) by simp
qed

theorem ir_zero_arity_not_decodable_witness:
  "\<exists>blob. pai_ir_encode (fst (pai_ir_add_op pai_ir_init 17 0 [] [])) 64 = Inr blob \<and>
     pai_ir_decode blob = Returns (Inl PAI_ERR_PROTOCOL)"
proof -
  have b: "ir_built (fst (pai_ir_add_op pai_ir_init 17 0 [] []))" by (intro ir_built.intros(1,2,4,5))
  have eq: "fst (pai_ir_add_op pai_ir_init 17 0 [] []) =
      \<lparr>ivalues = [], iops = [\<lparr>iokind = 17, iodevice = 0, ioinputs = [], iooutputs = []\<rparr>], input_ids = [], output_ids = []\<rparr>"
    by (simp add: pai_ir_add_op_def pai_ir_init_def ir_consts)
  have "pai_ir_encoded_size (fst (pai_ir_add_op pai_ir_init 17 0 [] [])) \<le> 64"
    unfolding eq by (simp add: pai_ir_encoded_size_def ir_sizes op_record_size_def)
  then show ?thesis using ir_zero_arity_not_decodable [OF b, of 64] by (simp add: eq)
qed

end
