(* ===== verification/Planner.thy ===== *)
theory Planner
  imports Mem "HOL-Library.Multiset"
begin

text \<open>
  \<^verbatim>\<open>memory/planner.c\<close>: the static memory planner. All quantities are natural numbers below
  \<open>2 ^ 64\<close>; \<open>add64\<close>, \<open>sub64\<close> and \<open>align64\<close> are the 64-bit operations of the code with their
  wrap-around. The sorted linked list of free ranges is a list of (offset, size) pairs, the array
  of live allocations a list of (end, offset, size) triples.

  \<open>qsort\<close> leaves the order of equal elements open, so the sorted array is an argument of the
  build and \<open>qsort_result\<close> says what the C standard promises of it.
\<close>

section \<open>64-bit arithmetic\<close>

definition add64 :: "nat \<Rightarrow> nat \<Rightarrow> nat" where "add64 x y = (x + y) mod 2 ^ 64"
definition sub64 :: "nat \<Rightarrow> nat \<Rightarrow> nat" where "sub64 x y = (x + 2 ^ 64 - y) mod 2 ^ 64"
definition align64 :: "nat \<Rightarrow> nat \<Rightarrow> nat" where
  "align64 v a = unat (pai_mem_align_up (of_nat v) (of_nat a))"

lemma add64_small: "x + y < 2 ^ 64 \<Longrightarrow> add64 x y = x + y"
  by (simp add: add64_def)

lemma sub64_small: "y \<le> x \<Longrightarrow> x < 2 ^ 64 \<Longrightarrow> sub64 x y = x - y"
proof -
  assume le: "y \<le> x" and lt: "x < 2 ^ 64"
  from le obtain d where x: "x = y + d" using le_Suc_ex by blast
  have "y + d + 2 ^ 64 - y = d + 2 ^ 64" by simp
  then show ?thesis using lt unfolding sub64_def x by (simp only: mod_add_self2) simp
qed

lemma align64_small:
  assumes "pai_mem_is_pow2 (of_nat a)" "a < 2 ^ 64" "v + a < 2 ^ 64"
  shows "align64 v a = align_up_nat v a"
proof -
  have "unat (of_nat v :: u64) = v" "unat (of_nat a :: u64) = a"
    using assms by (simp_all add: unsigned_of_nat take_bit_nat_eq_self)
  then show ?thesis
    using align_up_unat [OF assms(1), of "of_nat v"] assms(3) by (simp add: align64_def)
qed

section \<open>The planner\<close>

definition PAI_MEM_PLANNER_MAX_ALLOCS :: nat where "PAI_MEM_PLANNER_MAX_ALLOCS = 1024"

record pai_mem_alloc =
  size :: nat
  align :: nat
  start :: nat
  fin :: nat
  pinned :: nat

record pai_mem_planner =
  allocs :: "pai_mem_alloc list"
  arena_align :: nat

definition pai_mem_planner_init :: pai_mem_planner where
  "pai_mem_planner_init = \<lparr>allocs = [], arena_align = 0\<rparr>"

definition pai_mem_planner_set_arena_align :: "pai_mem_planner \<Rightarrow> nat \<Rightarrow> pai_mem_planner res" where
  "pai_mem_planner_set_arena_align p a =
     (if a = 0 \<or> \<not> pai_mem_is_pow2 (of_nat a) then Inl PAI_ERR_INVALID_ARG
      else Inr (p\<lparr>arena_align := a\<rparr>))"

definition planner_add_common ::
    "pai_mem_planner \<Rightarrow> nat \<Rightarrow> nat \<Rightarrow> nat \<Rightarrow> nat \<Rightarrow> nat \<Rightarrow> pai_mem_planner res" where
  "planner_add_common p sz al st en pin =
     (if sz = 0 \<or> al = 0 \<or> \<not> pai_mem_is_pow2 (of_nat al) \<or> en \<le> st \<or>
         sz > 2 ^ 64 - 1 - (al - 1)
      then Inl PAI_ERR_INVALID_ARG
      else if length (allocs p) \<ge> PAI_MEM_PLANNER_MAX_ALLOCS then Inl PAI_ERR_NOMEM
      else Inr (p\<lparr>allocs := allocs p @
                   [\<lparr>size = sz, align = al, start = st, fin = en, pinned = pin\<rparr>]\<rparr>))"

definition pai_mem_planner_add ::
    "pai_mem_planner \<Rightarrow> nat \<Rightarrow> nat \<Rightarrow> nat \<Rightarrow> nat \<Rightarrow> pai_mem_planner res" where
  "pai_mem_planner_add p sz al st en = planner_add_common p sz al st en 0"

definition pai_mem_planner_add_pinned ::
    "pai_mem_planner \<Rightarrow> nat \<Rightarrow> nat \<Rightarrow> nat \<Rightarrow> nat \<Rightarrow> pai_mem_planner res" where
  "pai_mem_planner_add_pinned p sz al st en = planner_add_common p sz al st en 1"

section \<open>Sorting\<close>

type_synonym sort_entry = "pai_mem_alloc \<times> nat"

definition alloc_cmp :: "sort_entry \<Rightarrow> sort_entry \<Rightarrow> int" where
  "alloc_cmp a b =
     (let ea = fst a; eb = fst b
      in if pinned ea \<noteq> pinned eb then (if pinned ea < pinned eb then -1 else 1)
         else if start ea \<noteq> start eb then (if start ea < start eb then -1 else 1)
         else if fin ea \<noteq> fin eb then (if fin ea > fin eb then -1 else 1)
         else 0)"

definition sort_input :: "pai_mem_planner \<Rightarrow> sort_entry list" where
  "sort_input p = zip (allocs p) [0 ..< length (allocs p)]"

definition qsort_result :: "(sort_entry \<Rightarrow> sort_entry \<Rightarrow> int) \<Rightarrow> sort_entry list \<Rightarrow> sort_entry list \<Rightarrow> bool" where
  "qsort_result cmp xs ys \<longleftrightarrow> mset ys = mset xs \<and> sorted_wrt (\<lambda>x y. cmp x y \<le> 0) ys"

section \<open>The free list\<close>

type_synonym free_node = "nat \<times> nat"

definition pool_size :: nat where "pool_size = PAI_MEM_PLANNER_MAX_ALLOCS * 2 + 4"

definition free_list_insert :: "free_node list \<Rightarrow> nat \<Rightarrow> nat \<Rightarrow> nat \<Rightarrow> free_node list \<times> nat" where
  "free_list_insert fl used off sz =
     (let pre = takeWhile (\<lambda>n. fst n < off) fl;
          post = dropWhile (\<lambda>n. fst n < off) fl
      in if pre \<noteq> [] \<and> add64 (fst (last pre)) (snd (last pre)) = off then
           (if post \<noteq> [] \<and> add64 off sz = fst (hd post) then
              (butlast pre @ [(fst (last pre), add64 (add64 (snd (last pre)) sz) (snd (hd post)))]
                 @ tl post, used)
            else (butlast pre @ [(fst (last pre), add64 (snd (last pre)) sz)] @ post, used))
         else if post \<noteq> [] \<and> add64 off sz = fst (hd post) then
           (pre @ [(off, add64 (snd (hd post)) sz)] @ tl post, used)
         else if used \<ge> pool_size then (fl, used)
         else (pre @ [(off, sz)] @ post, Suc used))"

text \<open>The best-fit scan: the position of the smallest range that takes the aligned request.\<close>

fun best_fit :: "nat \<Rightarrow> nat \<Rightarrow> nat \<Rightarrow> (nat \<times> free_node) option \<Rightarrow> free_node list \<Rightarrow> (nat \<times> free_node) option" where
  "best_fit al sz i best [] = best"
| "best_fit al sz i best (n # ns) =
     best_fit al sz (Suc i)
       (if snd n \<ge> add64 (sub64 (align64 (fst n) al) (fst n)) sz \<and>
           (case best of None \<Rightarrow> True | Some (_, b) \<Rightarrow> snd n < snd b)
        then Some (i, n) else best) ns"

section \<open>The sweep\<close>

type_synonym live_alloc = "nat \<times> nat \<times> nat"

record sweep =
  frees :: "free_node list"
  pool_used :: nat
  live :: "live_alloc list"
  cursor :: nat
  max_end :: nat
  peak :: nat
  naive :: nat
  reuse_count :: nat
  offs :: "nat list"
  pin_count :: nat
  pin_bytes :: nat

text \<open>The release loop with its swap-with-last removal: \<open>kept\<close> are the entries before \<open>j\<close>.\<close>

function release_loop ::
    "nat \<Rightarrow> free_node list \<Rightarrow> nat \<Rightarrow> live_alloc list \<Rightarrow> live_alloc list \<Rightarrow>
     free_node list \<times> nat \<times> live_alloc list" where
  "release_loop st fl used kept [] = (fl, used, kept)"
| "release_loop st fl used kept (x # xs) =
     (if fst x \<le> st then
        (let (fl', used') = free_list_insert fl used (fst (snd x)) (snd (snd x))
         in release_loop st fl' used' kept (if xs = [] then [] else last xs # butlast xs))
      else release_loop st fl used (kept @ [x]) xs)"
  by pat_completeness auto
termination
  by (relation "measure (\<lambda>(st, fl, used, kept, rest). length rest)") auto

definition place :: "sweep \<Rightarrow> sort_entry \<Rightarrow> nat \<Rightarrow> sweep" where
  "place s e off =
     s\<lparr>offs := (offs s)[snd e := off],
       max_end := (let m = add64 off (size (fst e)) in if max_end s > m then max_end s else m),
       live := live s @ [(fin (fst e), off, size (fst e))]\<rparr>"

definition extend_region :: "sweep \<Rightarrow> pai_mem_alloc \<Rightarrow> (sweep \<times> nat) res" where
  "extend_region s a =
     (let off = align64 (cursor s) (align a)
      in if off > 2 ^ 64 - 1 - size a then Inl PAI_ERR_NOMEM
         else Inr (s\<lparr>cursor := add64 off (size a)\<rparr>, off))"

definition take_best :: "sweep \<Rightarrow> pai_mem_alloc \<Rightarrow> nat \<times> free_node \<Rightarrow> sweep \<times> nat" where
  "take_best s a best =
     (case best of (i, off, sz) \<Rightarrow>
        (let aligned = align64 off (align a);
             left_pad = sub64 aligned off;
             right = sub64 (sub64 sz left_pad) (size a);
             fl0 = take i (frees s) @ drop (Suc i) (frees s);
             (fl1, u1) = (if left_pad > 0 then free_list_insert fl0 (pool_used s) off left_pad
                          else (fl0, pool_used s));
             (fl2, u2) = (if right > 0 then free_list_insert fl1 u1 (add64 aligned (size a)) right
                          else (fl1, u1))
         in (s\<lparr>frees := fl2, pool_used := u2, reuse_count := reuse_count s + 1\<rparr>, aligned)))"

definition track_peak :: "sweep \<Rightarrow> sweep" where
  "track_peak s =
     (let b = foldl (\<lambda>acc l. add64 acc (snd (snd l))) 0 (live s)
      in s\<lparr>peak := (if b > peak s then b else peak s)\<rparr>)"

definition plan_step :: "sweep \<Rightarrow> sort_entry \<Rightarrow> sweep res" where
  "plan_step s0 e =
     (let a = fst e;
          s = s0\<lparr>naive := add64 (naive s0) (align64 (size a) (align a))\<rparr>
      in if pinned a \<noteq> 0 then
           (let s1 = s\<lparr>pin_count := pin_count s + 1, pin_bytes := add64 (pin_bytes s) (size a)\<rparr>
            in case extend_region s1 a of
                 Inl er \<Rightarrow> Inl er
               | Inr (s2, off) \<Rightarrow> Inr (place s2 e off))
         else
           (let (fl, u, lv) = release_loop (start a) (frees s) (pool_used s) [] (live s);
                s1 = s\<lparr>frees := fl, pool_used := u, live := lv\<rparr>
            in case best_fit (align a) (size a) 0 None fl of
                 Some best \<Rightarrow> (case take_best s1 a best of (s2, off) \<Rightarrow> Inr (track_peak (place s2 e off)))
               | None \<Rightarrow>
                   (case extend_region s1 a of
                      Inl er \<Rightarrow> Inl er
                    | Inr (s2, off) \<Rightarrow> Inr (track_peak (place s2 e off)))))"

fun plan_sweep :: "sweep \<Rightarrow> sort_entry list \<Rightarrow> sweep res" where
  "plan_sweep s [] = Inr s"
| "plan_sweep s (e # es) = (case plan_step s e of Inl er \<Rightarrow> Inl er | Inr s' \<Rightarrow> plan_sweep s' es)"

section \<open>The plan\<close>

record pai_mem_plan =
  offsets :: "nat list"
  count :: nat
  region_bytes :: nat
  naive_bytes :: nat
  reuse_bytes :: nat
  peak_live :: nat
  reuses :: nat
  pinned_allocs :: nat
  pinned_bytes :: nat

definition sweep_init :: "nat \<Rightarrow> sweep" where
  "sweep_init n =
     \<lparr>frees = [], pool_used = 0, live = [], cursor = 0, max_end = 0, peak = 0, naive = 0,
      reuse_count = 0, offs = replicate n 0, pin_count = 0, pin_bytes = 0\<rparr>"

definition plan_empty :: pai_mem_plan where
  "plan_empty = \<lparr>offsets = [], count = 0, region_bytes = 0, naive_bytes = 0, reuse_bytes = 0,
     peak_live = 0, reuses = 0, pinned_allocs = 0, pinned_bytes = 0\<rparr>"

text \<open>\<open>mem\<close>: whether the four buffers could be allocated; \<open>sorted_arr\<close>: the array after \<open>qsort\<close>.\<close>

definition pai_mem_plan_build ::
    "bool \<Rightarrow> pai_mem_planner \<Rightarrow> sort_entry list \<Rightarrow> pai_mem_plan res" where
  "pai_mem_plan_build mem p sorted_arr =
     (if length (allocs p) = 0 then Inr plan_empty
      else if \<not> mem then Inl PAI_ERR_NOMEM
      else
        (case plan_sweep (sweep_init (length (allocs p))) sorted_arr of
           Inl e \<Rightarrow> Inl e
         | Inr s \<Rightarrow>
             (let raw = (if cursor s > max_end s then cursor s else max_end s);
                  arena = (if arena_align p \<noteq> 0 then arena_align p else 1);
                  region = align64 raw arena
              in Inr \<lparr>offsets = offs s, count = length (allocs p), region_bytes = region,
                      naive_bytes = naive s,
                      reuse_bytes = (if naive s \<ge> region then naive s - region else 0),
                      peak_live = peak s, reuses = reuse_count s,
                      pinned_allocs = pin_count s, pinned_bytes = pin_bytes s\<rparr>)))"

definition pai_mem_plan_check_budget :: "pai_mem_plan \<Rightarrow> nat \<Rightarrow> unit res" where
  "pai_mem_plan_check_budget plan budget =
     (if region_bytes plan \<le> budget then Inr () else Inl PAI_ERR_NOMEM)"

definition pai_mem_plan_free :: "pai_mem_plan \<Rightarrow> pai_mem_plan" where
  "pai_mem_plan_free plan = plan\<lparr>offsets := [], count := 0\<rparr>"

section \<open>Occupancy\<close>

text \<open>How many of the given ranges contain the address \<open>x\<close>. Ranges are disjoint when no address
  has more than one.\<close>

definition occ :: "nat \<Rightarrow> free_node list \<Rightarrow> nat" where
  "occ x fl = length (filter (\<lambda>n. fst n \<le> x \<and> x < fst n + snd n) fl)"

definition within :: "free_node list \<Rightarrow> nat \<Rightarrow> bool" where
  "within fl c \<longleftrightarrow> (\<forall>n \<in> set fl. fst n + snd n \<le> c)"

lemma occ_simps [simp]:
  "occ x [] = 0"
  "occ x (n # ns) = (if fst n \<le> x \<and> x < fst n + snd n then 1 else 0) + occ x ns"
  "occ x (fl @ fl') = occ x fl + occ x fl'"
  by (simp_all add: occ_def)

lemma occ_mset: "mset fl = mset fl' \<Longrightarrow> occ x fl = occ x fl'"
  by (metis occ_def mset_filter size_mset)

lemma within_simps [simp]:
  "within [] c" "within (n # ns) c \<longleftrightarrow> fst n + snd n \<le> c \<and> within ns c"
  "within (fl @ fl') c \<longleftrightarrow> within fl c \<and> within fl' c"
  by (auto simp: within_def)

lemma within_mono: "within fl c \<Longrightarrow> c \<le> d \<Longrightarrow> within fl d"
  by (auto simp: within_def)

lemma free_list_insert_ok:
  assumes "within fl c" "off + sz \<le> c" "c < 2 ^ 64" "free_list_insert fl used off sz = (fl', used')"
  shows "within fl' c \<and> (\<forall>x. occ x fl' \<le> occ x fl + occ x [(off, sz)])"
proof -
  define pre where "pre = takeWhile (\<lambda>n. fst n < off) fl"
  define post where "post = dropWhile (\<lambda>n. fst n < off) fl"
  have fl: "fl = pre @ post" by (simp add: pre_def post_def)
  then have w: "within pre c" "within post c" using assms(1) by simp_all
  have P: "pre = butlast pre @ [last pre]" if "pre \<noteq> []" using that by simp
  have Q: "post = hd post # tl post" if "post \<noteq> []" using that by simp
  have occ_pre: "occ x pre = occ x (butlast pre) + occ x [last pre]" "within (butlast pre) c"
      "fst (last pre) + snd (last pre) \<le> c" if "pre \<noteq> []" for x
    using P [OF that] w(1) by (metis occ_simps(3), metis within_simps(3), metis within_simps(2,3))
  have occ_post: "occ x post = occ x [hd post] + occ x (tl post)" "within (tl post) c"
      "fst (hd post) + snd (hd post) \<le> c" if "post \<noteq> []" for x
    using Q [OF that] w(2) by (metis append_Cons append_Nil occ_simps(3), metis within_simps(2), metis within_simps(2))
  have small: "add64 a b = a + b" if "a + b \<le> c" for a b
    using that assms(3) by (simp add: add64_def)
  let ?mp = "pre \<noteq> [] \<and> add64 (fst (last pre)) (snd (last pre)) = off"
  let ?ms = "post \<noteq> [] \<and> add64 off sz = fst (hd post)"
  consider (both) "?mp" "?ms" | (prev) "?mp" "\<not> ?ms" | (succ) "\<not> ?mp" "?ms"
    | (full) "\<not> ?mp" "\<not> ?ms" "fl' = fl" | (fresh) "\<not> ?mp" "\<not> ?ms" "fl' = pre @ [(off, sz)] @ post"
    using assms(4) by (fastforce simp: free_list_insert_def Let_def pre_def post_def split: if_splits)
  then show ?thesis
  proof cases
    case both
    have e: "fst (last pre) + snd (last pre) = off" "off + sz = fst (hd post)"
      using both small occ_pre(3) assms(2) by auto
    have sz: "add64 (add64 (snd (last pre)) sz) (snd (hd post)) = snd (last pre) + sz + snd (hd post)"
      using e occ_post(3) both by (simp add: small)
    have f: "fl' = butlast pre @ [(fst (last pre), snd (last pre) + sz + snd (hd post))] @ tl post"
      using assms(4) both sz by (simp add: free_list_insert_def Let_def pre_def [symmetric] post_def [symmetric])
    show ?thesis
      unfolding f fl using both occ_pre occ_post e by auto
  next
    case prev
    have e: "fst (last pre) + snd (last pre) = off" using prev small occ_pre(3) by auto
    have sz: "add64 (snd (last pre)) sz = snd (last pre) + sz" using e assms(2) by (simp add: small)
    have f: "fl' = butlast pre @ [(fst (last pre), snd (last pre) + sz)] @ post"
      using assms(4) prev sz
      by (auto simp: free_list_insert_def Let_def pre_def [symmetric] post_def [symmetric] split: if_splits)
    show ?thesis unfolding f fl using prev occ_pre e assms(2) w by auto
  next
    case succ
    have e: "off + sz = fst (hd post)" using succ small assms(2) by auto
    have sz: "add64 (snd (hd post)) sz = snd (hd post) + sz" using e occ_post(3) succ by (simp add: small)
    have f: "fl' = pre @ [(off, snd (hd post) + sz)] @ tl post"
      using assms(4) succ sz
      by (auto simp: free_list_insert_def Let_def pre_def [symmetric] post_def [symmetric] split: if_splits)
    show ?thesis unfolding f fl using succ occ_post e w by auto
  qed (use fl w assms(1,2) in auto)
qed

lemma insert_nonempty_ok:
  assumes "within fl c" "off + sz \<le> c" "c < 2 ^ 64"
    "(if 0 < sz then free_list_insert fl used off sz else (fl, used)) = (fl', used')"
  shows "within fl' c" "occ x fl' \<le> occ x fl + occ x [(off, sz)]"
proof -
  have "within fl' c \<and> (\<forall>x. occ x fl' \<le> occ x fl + occ x [(off, sz)])"
  proof (cases "0 < sz")
    case True
    then show ?thesis using assms(4) free_list_insert_ok [OF assms(1-3)] by simp
  next
    case False
    then show ?thesis using assms(1,4) by simp
  qed
  then show "within fl' c" "occ x fl' \<le> occ x fl + occ x [(off, sz)]" by blast+
qed

lemma release_loop_ok:
  assumes "within (fl @ map snd (kept @ rest)) c" "c < 2 ^ 64" "\<forall>k \<in> set kept. st < fst k"
    "release_loop st fl used kept rest = (fl', used', lv)"
  shows "within (fl' @ map snd lv) c \<and>
    (\<forall>x. occ x (fl' @ map snd lv) \<le> occ x (fl @ map snd (kept @ rest))) \<and>
    set lv = {l \<in> set (kept @ rest). st < fst l}"
  using assms
proof (induction st fl used kept rest rule: release_loop.induct)
  case (1 st fl used kept)
  then show ?case by auto
next
  case (2 st fl used kept x xs)
  show ?case
  proof (cases "fst x \<le> st")
    case True
    obtain fl1 u1 where i: "free_list_insert fl used (fst (snd x)) (snd (snd x)) = (fl1, u1)" by fastforce
    have ins: "within fl1 c" "\<And>y. occ y fl1 \<le> occ y fl + occ y [snd x]"
      using free_list_insert_ok [OF _ _ "2.prems"(2) i] "2.prems"(1) by auto
    define xs' where "xs' = (if xs = [] then [] else last xs # butlast xs)"
    have m: "mset xs' = mset xs"
      by (simp add: xs'_def) (metis add_mset_add_single append_butlast_last_id mset_append mset_single_iff_right)
    have s: "set xs' = set xs" using mset_eq_setD [OF m] .
    have o: "occ y (map snd xs') = occ y (map snd xs)" for y
      by (rule occ_mset) (simp add: m mset_map)
    have wx: "within (map snd xs') c" using "2.prems"(1) s by (auto simp: within_def)
    have "within (fl' @ map snd lv) c \<and>
      (\<forall>y. occ y (fl' @ map snd lv) \<le> occ y (fl1 @ map snd (kept @ xs'))) \<and>
      set lv = {l \<in> set (kept @ xs'). st < fst l}"
      using "2.IH"(1) [OF True i [symmetric]] "2.prems" True i ins(1) wx by (simp add: xs'_def)
    moreover have "occ y (fl1 @ map snd (kept @ xs')) \<le> occ y (fl @ map snd (kept @ x # xs))" for y
      using ins(2) [of y] o [of y] by simp
    moreover have "{l \<in> set (kept @ xs'). st < fst l} = {l \<in> set (kept @ x # xs). st < fst l}"
      using s True by auto
    ultimately show ?thesis using le_trans by (metis (no_types, lifting))
  next
    case False
    then show ?thesis using "2.IH"(2) [OF False] "2.prems" by simp
  qed
qed

lemma best_fit_sound:
  assumes "best_fit al sz i best fl = Some (j, n)"
  shows "best = Some (j, n) \<or>
    (i \<le> j \<and> j < i + length fl \<and> fl ! (j - i) = n \<and>
     add64 (sub64 (align64 (fst n) al) (fst n)) sz \<le> snd n)"
  using assms
proof (induction al sz i best fl rule: best_fit.induct)
  case (2 al sz i best m ms)
  from "2.IH" [OF "2.prems" [simplified]]
  show ?case by (auto split: if_splits simp: nth_Cons' Suc_le_eq)
qed simp

text \<open>An entry that \<open>planner_add_common\<close> accepts.\<close>

definition alloc_ok :: "pai_mem_alloc \<Rightarrow> bool" where
  "alloc_ok a \<longleftrightarrow> 0 < size a \<and> pai_mem_is_pow2 (of_nat (align a)) \<and> 0 < align a \<and> start a < fin a"

lemma take_best_ok:
  assumes fit: "best_fit (align a) (size a) 0 None (frees s) = Some best"
    and tb: "take_best s a best = (s', off)"
    and w: "within (frees s) c" and c: "c + align a + size a < 2 ^ 64" and a: "alloc_ok a"
  shows "within (frees s') c \<and> off + size a \<le> c \<and> align a dvd off \<and>
    (\<forall>x. occ x (frees s') + occ x [(off, size a)] \<le> occ x (frees s)) \<and>
    live s' = live s \<and> cursor s' = cursor s \<and> max_end s' = max_end s \<and> offs s' = offs s"
proof -
  obtain i o1 z where b: "best = (i, o1, z)" by (cases best) auto
  have i: "i < length (frees s)" "frees s ! i = (o1, z)"
    and f: "add64 (sub64 (align64 o1 (align a)) o1) (size a) \<le> z"
    using best_fit_sound [OF fit [unfolded b]] by auto
  have oz: "o1 + z \<le> c" using w i by (metis fst_conv nth_mem snd_conv within_def)
  define al where "al = align64 o1 (align a)"
  have al: "al = align_up_nat o1 (align a)"
    using align64_small [of "align a" o1] a c oz by (simp add: al_def alloc_ok_def)
  have ge: "o1 \<le> al" "al < o1 + align a" "align a dvd al"
    using align_up_nat_ge [of "align a" o1] align_up_nat_less [of "align a" o1] align_up_nat_dvd a
    by (auto simp: al alloc_ok_def)
  have lp: "sub64 al o1 = al - o1" by (rule sub64_small) (use ge c oz in auto)
  have fz: "al - o1 + size a \<le> z"
    using f ge c oz by (simp add: al_def [symmetric] lp add64_def)
  have r: "sub64 (sub64 z (al - o1)) (size a) = z - (al - o1) - size a"
    using fz oz c by (simp add: sub64_small)
  have ad: "add64 al (size a) = al + size a" using ge c oz fz by (simp add: add64_def)
  define fl0 where "fl0 = take i (frees s) @ drop (Suc i) (frees s)"
  have fl: "frees s = take i (frees s) @ (o1, z) # drop (Suc i) (frees s)"
    using i by (metis id_take_nth_drop)
  have o0: "occ x (frees s) = occ x fl0 + occ x [(o1, z)]" and w0: "within fl0 c" for x
    using w unfolding fl0_def by (subst fl, simp, subst (asm) fl, simp)
  obtain fl1 u1 where 1: "(if 0 < al - o1 then free_list_insert fl0 (pool_used s) o1 (al - o1)
      else (fl0, pool_used s)) = (fl1, u1)" by fastforce
  have w1: "within fl1 c" and o1': "occ x fl1 \<le> occ x fl0 + occ x [(o1, al - o1)]" for x
    using insert_nonempty_ok [OF w0 _ _ 1] ge fz oz c by simp_all
  obtain fl2 u2 where 2: "(if 0 < z - (al - o1) - size a
      then free_list_insert fl1 u1 (al + size a) (z - (al - o1) - size a) else (fl1, u1)) = (fl2, u2)"
    by fastforce
  have w2: "within fl2 c"
    and o2: "occ x fl2 \<le> occ x fl1 + occ x [(al + size a, z - (al - o1) - size a)]" for x
    using insert_nonempty_ok [OF w1 _ _ 2] ge fz oz c by simp_all
  have s': "s' = s\<lparr>frees := fl2, pool_used := u2, reuse_count := reuse_count s + 1\<rparr>" "off = al"
    using tb unfolding take_best_def b prod.case Let_def al_def [symmetric] lp r ad
      fl0_def [symmetric] 1 2 by simp_all
  have key: "occ x [(o1, al - o1)] + occ x [(al + size a, z - (al - o1) - size a)] + occ x [(al, size a)]
      \<le> occ x [(o1, z)]" for x
    using ge fz by auto
  have "occ x fl2 + occ x [(al, size a)] \<le> occ x (frees s)" for x
    using o0 [of x] o1' [of x] o2 [of x] key [of x] by linarith
  then show ?thesis using w2 ge fz oz by (auto simp: s')
qed

section \<open>The sweep invariant\<close>

definition overlap :: "pai_mem_alloc \<Rightarrow> pai_mem_alloc \<Rightarrow> bool" where
  "overlap a b \<longleftrightarrow> start a < fin b \<and> start b < fin a"

definition must_differ :: "pai_mem_alloc \<Rightarrow> pai_mem_alloc \<Rightarrow> bool" where
  "must_differ a b \<longleftrightarrow> overlap a b \<or> pinned a \<noteq> 0 \<or> pinned b \<noteq> 0"

definition apart :: "nat \<Rightarrow> nat \<Rightarrow> nat \<Rightarrow> nat \<Rightarrow> bool" where
  "apart o1 z1 o2 z2 \<longleftrightarrow> o1 + z1 \<le> o2 \<or> o2 + z2 \<le> o1"

text \<open>\<open>dn\<close>: the entries placed so far, \<open>lim\<close>: the step up to which expired allocations were
  released.\<close>

definition ranges :: "sweep \<Rightarrow> free_node list" where
  "ranges s = frees s @ map snd (live s)"

definition placed_ok :: "sweep \<Rightarrow> nat \<Rightarrow> sort_entry \<Rightarrow> bool" where
  "placed_ok s lim e \<longleftrightarrow> snd e < length (offs s) \<and> alloc_ok (fst e) \<and>
     align (fst e) dvd offs s ! snd e \<and> offs s ! snd e + size (fst e) \<le> cursor s \<and>
     ((fin (fst e), offs s ! snd e, size (fst e)) \<in> set (live s) \<or> fin (fst e) \<le> lim)"

definition sweep_inv :: "sweep \<Rightarrow> sort_entry list \<Rightarrow> nat \<Rightarrow> bool" where
  "sweep_inv s dn lim \<longleftrightarrow>
     within (ranges s) (cursor s) \<and> (\<forall>x. occ x (ranges s) \<le> 1) \<and> max_end s \<le> cursor s \<and>
     cursor s \<le> (\<Sum>e \<leftarrow> dn. size (fst e) + align (fst e)) \<and> distinct (map snd dn) \<and>
     (\<forall>e \<in> set dn. placed_ok s lim e) \<and>
     (\<forall>e \<in> set dn. \<forall>d \<in> set dn. snd e \<noteq> snd d \<longrightarrow> must_differ (fst e) (fst d) \<longrightarrow>
        apart (offs s ! snd e) (size (fst e)) (offs s ! snd d) (size (fst d)))"

lemma occ_pos: "(o1, z) \<in> set fl \<Longrightarrow> o1 \<le> x \<Longrightarrow> x < o1 + z \<Longrightarrow> 0 < occ x fl"
  by (induction fl) auto

lemma occ_apart:
  assumes "\<forall>x. occ x fl + occ x [(off, sz)] \<le> 1" "(o1, z) \<in> set fl" "0 < z" "0 < sz"
  shows "apart o1 z off sz"
proof (rule ccontr)
  assume "\<not> ?thesis"
  then have m: "o1 \<le> max o1 off" "max o1 off < o1 + z" "off \<le> max o1 off" "max o1 off < off + sz"
    using assms(3,4) by (auto simp: apart_def)
  have "0 < occ (max o1 off) fl" by (rule occ_pos [OF assms(2) m(1,2)])
  moreover have "occ (max o1 off) [(off, sz)] = 1" using m(3,4) by simp
  ultimately show False using assms(1) [THEN spec, of "max o1 off"] by simp
qed

lemma occ_above: "within fl c \<Longrightarrow> c \<le> x \<Longrightarrow> occ x fl = 0"
  by (auto simp: occ_def within_def filter_empty_conv)

lemma sum_list_snoc: "(\<Sum>e \<leftarrow> dn @ [e]. f e) = (\<Sum>e \<leftarrow> dn. f e) + (f e :: nat)"
  by simp

lemma place_inv:
  assumes inv: "within (ranges s) (cursor s)" "max_end s \<le> cursor s"
      "\<forall>x. occ x (ranges s) + occ x [(off, size (fst e))] \<le> 1"
    and c: "cursor s \<le> (\<Sum>e \<leftarrow> dn @ [e]. size (fst e) + align (fst e))" "cursor s < 2 ^ 64"
    and off: "off + size (fst e) \<le> cursor s" "align (fst e) dvd off" "alloc_ok (fst e)"
    and idx: "snd e < length (offs s)" "distinct (map snd (dn @ [e]))"
    and old: "\<forall>d \<in> set dn. placed_ok s lim d"
      "\<forall>a \<in> set dn. \<forall>d \<in> set dn. snd a \<noteq> snd d \<longrightarrow> must_differ (fst a) (fst d) \<longrightarrow>
        apart (offs s ! snd a) (size (fst a)) (offs s ! snd d) (size (fst d))"
    and sep: "\<forall>d \<in> set dn. must_differ (fst e) (fst d) \<longrightarrow>
        apart (offs s ! snd d) (size (fst d)) off (size (fst e))"
  shows "sweep_inv (place s e off) (dn @ [e]) lim"
proof -
  have r: "ranges (place s e off) = ranges s @ [(off, size (fst e))]"
    by (simp add: ranges_def place_def)
  have m: "max_end (place s e off) \<le> cursor s"
    using inv(2) off(1) c(2) by (simp add: place_def add64_def Let_def)
  have k: "cursor (place s e off) = cursor s" by (simp add: place_def)
  have ne: "snd d \<noteq> snd e" if "d \<in> set dn" for d
  proof -
    have "snd e \<notin> snd ` set dn" using idx(2) by simp
    then show ?thesis using imageI [OF that, of snd] by metis
  qed
  have o: "offs (place s e off) ! snd d = (if d = e then off else offs s ! snd d)" if "d \<in> set (dn @ [e])" for d
    using that idx(1) ne [of d] by (auto simp: place_def)
  have p1: "placed_ok (place s e off) lim d" if "d \<in> set dn" for d
    using that old(1) o [of d] idx(2) by (auto simp: placed_ok_def place_def)
  have p2: "placed_ok (place s e off) lim e"
    using off idx(1) by (simp add: placed_ok_def place_def)
  have pw: "apart (offs (place s e off) ! snd a) (size (fst a)) (offs (place s e off) ! snd d) (size (fst d))"
    if pq: "a \<in> set (dn @ [e])" "d \<in> set (dn @ [e])" "snd a \<noteq> snd d" "must_differ (fst a) (fst d)" for a d
  proof -
    consider "a \<in> set dn" "d \<in> set dn" | "a = e" "d \<in> set dn" | "a \<in> set dn" "d = e"
      using pq by auto
    then show ?thesis
    proof cases
      case 1
      then have "a \<noteq> e" "d \<noteq> e" using idx(2) by auto
      then show ?thesis using 1 old(2) o pq by auto
    next
      case 2
      then have "d \<noteq> e" using idx(2) by auto
      then show ?thesis using 2 sep o [of a] o [of d] pq by (auto simp: apart_def)
    next
      case 3
      then have "a \<noteq> e" using idx(2) by auto
      then show ?thesis
        using 3 sep o [of a] o [of d] pq by (auto simp: must_differ_def overlap_def)
    qed
  qed
  show ?thesis
    unfolding sweep_inv_def
  proof (intro conjI)
    show "\<forall>x. occ x (ranges (place s e off)) \<le> 1" using inv(3) by (simp add: r)
    show "\<forall>d \<in> set (dn @ [e]). placed_ok (place s e off) lim d" using p1 p2 by simp
    show "\<forall>a \<in> set (dn @ [e]). \<forall>d \<in> set (dn @ [e]). snd a \<noteq> snd d \<longrightarrow> must_differ (fst a) (fst d) \<longrightarrow>
        apart (offs (place s e off) ! snd a) (size (fst a)) (offs (place s e off) ! snd d) (size (fst d))"
      using pw by blast
  qed (use inv(1) off(1) m c(1) idx(2) in \<open>simp_all add: r k\<close>)
qed

lemma extend_ok:
  assumes a: "alloc_ok a" and c: "cursor s + align a + size a < 2 ^ 64"
  shows "\<exists>off. extend_region s a = Inr (s\<lparr>cursor := off + size a\<rparr>, off) \<and> cursor s \<le> off \<and>
    off < cursor s + align a \<and> align a dvd off"
proof -
  define off where "off = align_up_nat (cursor s) (align a)"
  have al: "align64 (cursor s) (align a) = off"
    using align64_small [of "align a" "cursor s"] a c by (simp add: off_def alloc_ok_def)
  have o: "cursor s \<le> off" "off < cursor s + align a" "align a dvd off"
    using align_up_nat_ge [of "align a" "cursor s"] align_up_nat_less [of "align a" "cursor s"]
      align_up_nat_dvd a by (auto simp: off_def alloc_ok_def)
  then have "off + size a < 2 ^ 64" using c by linarith
  then show ?thesis using al o by (simp add: extend_region_def Let_def add64_def)
qed

lemma sweep_inv_fields:
  assumes "sweep_inv s dn lim" "frees s' = frees s" "live s' = live s" "cursor s' = cursor s"
    "max_end s' = max_end s" "offs s' = offs s"
  shows "sweep_inv s' dn lim"
  using assms by (simp add: sweep_inv_def placed_ok_def ranges_def)

lemma track_peak_inv: "sweep_inv s dn lim \<Longrightarrow> sweep_inv (track_peak s) dn lim"
  by (rule sweep_inv_fields) (simp_all add: track_peak_def Let_def)

lemma offs_length: "length (offs (track_peak (place s e off))) = length (offs s)"
  by (simp add: track_peak_def place_def Let_def)

lemma pinned_step:
  assumes inv: "sweep_inv s dn lim" and e: "pinned (fst e) \<noteq> 0" "alloc_ok (fst e)"
    "snd e < length (offs s)" "distinct (map snd (dn @ [e]))"
    and tot: "(\<Sum>e \<leftarrow> dn @ [e]. size (fst e) + align (fst e)) < 2 ^ 64"
  shows "\<exists>s'. plan_step s e = Inr s' \<and> sweep_inv s' (dn @ [e]) lim \<and> length (offs s') = length (offs s)"
proof -
  let ?a = "fst e"
  define s1 where "s1 = s\<lparr>naive := add64 (naive s) (align64 (size ?a) (align ?a)),
     pin_count := pin_count s + 1, pin_bytes := add64 (pin_bytes s) (size ?a)\<rparr>"
  have i1: "sweep_inv s1 dn lim" by (rule sweep_inv_fields [OF inv]) (simp_all add: s1_def)
  have cu: "cursor s1 \<le> (\<Sum>e \<leftarrow> dn. size (fst e) + align (fst e))" using i1 by (simp add: sweep_inv_def)
  then have c: "cursor s1 + align ?a + size ?a < 2 ^ 64" using tot by simp
  obtain off where x: "extend_region s1 ?a = Inr (s1\<lparr>cursor := off + size ?a\<rparr>, off)"
    "cursor s1 \<le> off" "off < cursor s1 + align ?a" "align ?a dvd off"
    using extend_ok [OF e(2) c] by blast
  let ?s2 = "s1\<lparr>cursor := off + size ?a\<rparr>"
  have w: "within (ranges s1) (cursor s1)" and oc: "\<forall>x. occ x (ranges s1) \<le> 1"
    using i1 by (simp_all add: sweep_inv_def)
  have "sweep_inv (place ?s2 e off) (dn @ [e]) lim"
  proof (rule place_inv)
    show "within (ranges ?s2) (cursor ?s2)"
      using within_mono [OF w, of "off + size ?a"] x(2) by (simp add: ranges_def)
    show "\<forall>y. occ y (ranges ?s2) + occ y [(off, size ?a)] \<le> 1"
      using oc occ_above [OF w] x(2) by (auto simp: ranges_def)
    show "\<forall>d \<in> set dn. placed_ok ?s2 lim d"
      using i1 x(2) by (auto simp: sweep_inv_def placed_ok_def)
    show "\<forall>d \<in> set dn. must_differ (fst e) (fst d) \<longrightarrow>
        apart (offs ?s2 ! snd d) (size (fst d)) off (size (fst e))"
      using i1 x(2) by (fastforce simp: sweep_inv_def placed_ok_def apart_def)
    show "max_end ?s2 \<le> cursor ?s2" using i1 x(2) by (simp add: sweep_inv_def)
    show "cursor ?s2 \<le> (\<Sum>e \<leftarrow> dn @ [e]. size (fst e) + align (fst e))" using cu x(3) by simp
    show "cursor ?s2 < 2 ^ 64" using x(3) c by simp
  qed (use i1 e x(4) in \<open>auto simp: s1_def sweep_inv_def\<close>)
  moreover have "plan_step s e = Inr (place ?s2 e off)"
    using e(1) x(1) by (simp add: plan_step_def Let_def s1_def)
  ultimately show ?thesis by (simp add: place_def s1_def)
qed

lemma reusable_step:
  assumes inv: "sweep_inv s dn lim" and e: "pinned (fst e) = 0" "alloc_ok (fst e)"
    "snd e < length (offs s)" "distinct (map snd (dn @ [e]))"
    and lim: "lim \<le> start (fst e)" "\<forall>d \<in> set dn. pinned (fst d) = 0"
    and tot: "(\<Sum>e \<leftarrow> dn @ [e]. size (fst e) + align (fst e)) < 2 ^ 64"
  shows "\<exists>s'. plan_step s e = Inr s' \<and> sweep_inv s' (dn @ [e]) (start (fst e)) \<and>
    length (offs s') = length (offs s)"
proof -
  let ?a = "fst e"
  let ?tot = "\<Sum>e \<leftarrow> dn @ [e]. size (fst e) + align (fst e)"
  have w: "within (ranges s) (cursor s)" and oc: "\<forall>x. occ x (ranges s) \<le> 1"
    and cu: "cursor s \<le> (\<Sum>e \<leftarrow> dn. size (fst e) + align (fst e))"
    using inv by (simp_all add: sweep_inv_def)
  have c: "cursor s + align ?a + size ?a < 2 ^ 64" using tot cu by simp
  obtain fl u lv where rl: "release_loop (start ?a) (frees s) (pool_used s) [] (live s) = (fl, u, lv)"
    by (cases "release_loop (start ?a) (frees s) (pool_used s) [] (live s)") auto
  have rel: "within (fl @ map snd lv) (cursor s)" "\<forall>x. occ x (fl @ map snd lv) \<le> 1"
    "set lv = {l \<in> set (live s). start ?a < fst l}"
    using release_loop_ok [of "frees s" "[]" "live s" "cursor s", OF _ _ _ rl] w oc c
    by (auto simp: ranges_def intro: le_trans)
  define s1 where "s1 = s\<lparr>naive := add64 (naive s) (align64 (size ?a) (align ?a)),
     frees := fl, pool_used := u, live := lv\<rparr>"
  have p1: "\<forall>d \<in> set dn. placed_ok s1 (start ?a) d"
    using inv lim(1) rel(3) by (fastforce simp: sweep_inv_def placed_ok_def s1_def)
  have old: "\<forall>a \<in> set dn. \<forall>d \<in> set dn. snd a \<noteq> snd d \<longrightarrow> must_differ (fst a) (fst d) \<longrightarrow>
        apart (offs s ! snd a) (size (fst a)) (offs s ! snd d) (size (fst d))"
    using inv by (simp add: sweep_inv_def)
  have go: "sweep_inv (place s2 e off) (dn @ [e]) (start ?a)"
    if s2: "offs s2 = offs s" "live s2 = lv" "max_end s2 = max_end s" "cursor s \<le> cursor s2"
      "cursor s2 \<le> ?tot" "within (frees s2) (cursor s2)"
      and occ2: "\<forall>x. occ x (frees s2) + occ x (map snd lv) + occ x [(off, size ?a)] \<le> 1"
      and off: "off + size ?a \<le> cursor s2" "align ?a dvd off" for s2 off
  proof (rule place_inv)
    show "within (ranges s2) (cursor s2)"
      using s2 rel(1) within_mono by (auto simp: ranges_def)
    show "\<forall>x. occ x (ranges s2) + occ x [(off, size (fst e))] \<le> 1"
      using occ2 s2(2) by (simp add: ranges_def)
    then have o: "\<forall>x. occ x (map snd lv) + occ x [(off, size (fst e))] \<le> 1"
      using s2(2) by (auto simp: ranges_def split: if_splits)
    show "\<forall>d \<in> set dn. must_differ (fst e) (fst d) \<longrightarrow>
        apart (offs s2 ! snd d) (size (fst d)) off (size (fst e))"
    proof (intro ballI impI)
      fix d assume d: "d \<in> set dn" "must_differ (fst e) (fst d)"
      have "placed_ok s1 (start ?a) d" using p1 d(1) by blast
      moreover have "start ?a < fin (fst d)" using d lim(2) e(1) by (auto simp: must_differ_def overlap_def)
      ultimately have "(offs s ! snd d, size (fst d)) \<in> set (map snd lv)" "0 < size (fst d)"
        by (force simp: placed_ok_def s1_def alloc_ok_def)+
      then show "apart (offs s2 ! snd d) (size (fst d)) off (size (fst e))"
        using occ_apart [OF o] e(2) s2(1) by (simp add: alloc_ok_def)
    qed
    show "\<forall>d \<in> set dn. placed_ok s2 (start ?a) d"
      using p1 s2 by (force simp: placed_ok_def s1_def)
    show "max_end s2 \<le> cursor s2" using inv s2 by (simp add: sweep_inv_def)
    show "cursor s2 < 2 ^ 64" using s2(5) tot by simp
  qed (use s2 off e old in simp_all)
  show ?thesis
  proof (cases "best_fit (align ?a) (size ?a) 0 None fl")
    case (Some best)
    obtain s2 off where tb: "take_best s1 ?a best = (s2, off)" by fastforce
    have t: "within (frees s2) (cursor s) \<and> off + size ?a \<le> cursor s \<and> align ?a dvd off \<and>
      (\<forall>x. occ x (frees s2) + occ x [(off, size ?a)] \<le> occ x fl) \<and>
      live s2 = lv \<and> cursor s2 = cursor s \<and> max_end s2 = max_end s \<and> offs s2 = offs s"
      using take_best_ok [OF _ tb, of "cursor s"] Some rel(1) c e(2) by (simp add: s1_def)
    have "sweep_inv (place s2 e off) (dn @ [e]) (start ?a)"
    proof (rule go)
      show "\<forall>x. occ x (frees s2) + occ x (map snd lv) + occ x [(off, size ?a)] \<le> 1"
      proof
        fix x
        have "occ x (frees s2) + occ x [(off, size ?a)] \<le> occ x fl" using t by blast
        moreover have "occ x fl + occ x (map snd lv) \<le> 1" using rel(2) by simp
        ultimately show "occ x (frees s2) + occ x (map snd lv) + occ x [(off, size ?a)] \<le> 1" by linarith
      qed
    qed (use t cu in simp_all)
    moreover have "plan_step s e = Inr (track_peak (place s2 e off))"
      using e(1) rl Some tb by (simp add: plan_step_def Let_def s1_def)
    ultimately show ?thesis
      using t by (intro exI [of _ "track_peak (place s2 e off)"]) (simp add: track_peak_inv offs_length)
  next
    case None
    obtain off where x: "extend_region s1 ?a = Inr (s1\<lparr>cursor := off + size ?a\<rparr>, off)"
      "cursor s \<le> off" "off < cursor s + align ?a" "align ?a dvd off"
      using extend_ok [OF e(2), of s1] c by (auto simp: s1_def)
    let ?s2 = "s1\<lparr>cursor := off + size ?a\<rparr>"
    have "sweep_inv (place ?s2 e off) (dn @ [e]) (start ?a)"
    proof (rule go)
      show "within (frees ?s2) (cursor ?s2)"
        using rel(1) x(2) within_mono [of fl "cursor s" "off + size ?a"] by (simp add: s1_def)
      show "\<forall>y. occ y (frees ?s2) + occ y (map snd lv) + occ y [(off, size ?a)] \<le> 1"
        using rel occ_above [OF rel(1)] x(2) by (auto simp: s1_def)
    qed (use x cu in \<open>simp_all add: s1_def\<close>)
    moreover have "plan_step s e = Inr (track_peak (place ?s2 e off))"
      using e(1) rl None x(1) by (simp add: plan_step_def Let_def s1_def)
    ultimately show ?thesis
      by (intro exI [of _ "track_peak (place ?s2 e off)"]) (simp add: track_peak_inv offs_length s1_def)
  qed
qed

lemma cmp_order:
  assumes "alloc_cmp a b \<le> 0"
  shows "pinned (fst a) \<le> pinned (fst b)" "pinned (fst a) = pinned (fst b) \<Longrightarrow> start (fst a) \<le> start (fst b)"
  using assms by (auto simp: alloc_cmp_def Let_def split: if_splits)

lemma sweep_ok:
  assumes "sweep_inv s dn lim" "sorted_wrt (\<lambda>x y. alloc_cmp x y \<le> 0) es"
    "\<forall>e \<in> set es. alloc_ok (fst e) \<and> snd e < length (offs s) \<and> (pinned (fst e) = 0 \<longrightarrow> lim \<le> start (fst e))"
    "\<forall>d \<in> set dn. \<forall>e \<in> set es. pinned (fst d) \<le> pinned (fst e)"
    "distinct (map snd (dn @ es))" "(\<Sum>e \<leftarrow> dn @ es. size (fst e) + align (fst e)) < 2 ^ 64"
  shows "\<exists>s' lim'. plan_sweep s es = Inr s' \<and> sweep_inv s' (dn @ es) lim' \<and> length (offs s') = length (offs s)"
  using assms
proof (induction es arbitrary: s dn lim)
  case (Cons e es)
  have e: "alloc_ok (fst e)" "snd e < length (offs s)" "distinct (map snd (dn @ [e]))"
    "(\<Sum>e \<leftarrow> dn @ [e]. size (fst e) + align (fst e)) < 2 ^ 64"
    using Cons.prems by auto
  have cmp: "alloc_cmp e d \<le> 0" if "d \<in> set es" for d using Cons.prems(2) that by simp
  have "\<exists>s1 lim1. plan_step s e = Inr s1 \<and> sweep_inv s1 (dn @ [e]) lim1 \<and> length (offs s1) = length (offs s) \<and>
      (\<forall>d \<in> set es. pinned (fst d) = 0 \<longrightarrow> lim1 \<le> start (fst d))"
  proof (cases "pinned (fst e) = 0")
    case True
    have "\<forall>d \<in> set dn. pinned (fst d) = 0" "lim \<le> start (fst e)" using Cons.prems(3,4) True by auto
    moreover have "\<forall>d \<in> set es. pinned (fst d) = 0 \<longrightarrow> start (fst e) \<le> start (fst d)"
      using cmp_order(2) [OF cmp] True by simp
    ultimately show ?thesis using reusable_step [OF Cons.prems(1) True e(1,2,3) _ _ e(4)] by blast
  next
    case False
    have "\<forall>d \<in> set es. pinned (fst d) \<noteq> 0" using cmp_order(1) [OF cmp] False by fastforce
    then show ?thesis using pinned_step [OF Cons.prems(1) False e] by blast
  qed
  then obtain s1 lim1 where s1: "plan_step s e = Inr s1" "sweep_inv s1 (dn @ [e]) lim1"
    "length (offs s1) = length (offs s)" "\<forall>d \<in> set es. pinned (fst d) = 0 \<longrightarrow> lim1 \<le> start (fst d)"
    by blast
  have "\<forall>d \<in> set (dn @ [e]). \<forall>e \<in> set es. pinned (fst d) \<le> pinned (fst e)"
    using Cons.prems(4) cmp_order(1) [OF cmp] by auto
  then have "\<exists>s' lim'. plan_sweep s1 es = Inr s' \<and> sweep_inv s' ((dn @ [e]) @ es) lim' \<and>
      length (offs s') = length (offs s1)"
    using Cons.prems(2,3,5,6) s1 by (intro Cons.IH [OF s1(2)]) auto
  then show ?case using s1(1,3) by auto
qed auto

section \<open>Properties\<close>

definition planner_ok :: "pai_mem_planner \<Rightarrow> bool" where
  "planner_ok p \<longleftrightarrow> (\<forall>a \<in> set (allocs p). alloc_ok a) \<and>
     length (allocs p) \<le> PAI_MEM_PLANNER_MAX_ALLOCS \<and>
     (arena_align p = 0 \<or> pai_mem_is_pow2 (of_nat (arena_align p)) \<and> arena_align p < 2 ^ 64)"

definition planner_total :: "pai_mem_planner \<Rightarrow> nat" where
  "planner_total p = (\<Sum>a \<leftarrow> allocs p. size a + align a) + arena_align p + 1"

lemma planner_add_ok:
  "planner_ok p \<Longrightarrow> planner_add_common p sz al st en pin = Inr p' \<Longrightarrow> planner_ok p'"
  by (auto simp: planner_ok_def planner_add_common_def alloc_ok_def split: if_splits)

lemma sort_input_facts:
  "map fst (sort_input p) = allocs p" "map snd (sort_input p) = [0 ..< length (allocs p)]"
  by (simp_all add: sort_input_def)

lemma sort_input_mem:
  "e \<in> set (sort_input p) \<longleftrightarrow> snd e < length (allocs p) \<and> fst e = allocs p ! snd e"
  by (cases e) (auto simp: sort_input_def in_set_zip)

lemma is_pow2_1: "pai_mem_is_pow2 1"
  by (simp add: pai_mem_is_pow2_def)

lemma plan_build_sound:
  assumes "planner_ok p" and "planner_total p < 2 ^ 64"
    and "qsort_result alloc_cmp (sort_input p) arr"
  shows "\<exists>plan. pai_mem_plan_build True p arr = Inr plan \<and>
    (\<forall>i < length (allocs p). align (allocs p ! i) dvd offsets plan ! i \<and>
       offsets plan ! i + size (allocs p ! i) \<le> region_bytes plan) \<and>
    (\<forall>i < length (allocs p). \<forall>j < length (allocs p). i \<noteq> j \<longrightarrow>
       must_differ (allocs p ! i) (allocs p ! j) \<longrightarrow>
       apart (offsets plan ! i) (size (allocs p ! i)) (offsets plan ! j) (size (allocs p ! j)))"
proof (cases "allocs p = []")
  case True
  then show ?thesis by (simp add: pai_mem_plan_build_def)
next
  case False
  let ?n = "length (allocs p)"
  have ms: "mset arr = mset (sort_input p)" and so: "sorted_wrt (\<lambda>x y. alloc_cmp x y \<le> 0) arr"
    using assms(3) by (auto simp: qsort_result_def)
  have mem: "e \<in> set arr \<longleftrightarrow> snd e < ?n \<and> fst e = allocs p ! snd e" for e
    using mset_eq_setD [OF ms] sort_input_mem by blast
  have tot: "(\<Sum>e \<leftarrow> arr. size (fst e) + align (fst e)) = (\<Sum>a \<leftarrow> allocs p. size a + align a)"
  proof -
    have "(\<Sum>e \<leftarrow> arr. size (fst e) + align (fst e)) = sum_mset (image_mset (\<lambda>e. size (fst e) + align (fst e)) (mset arr))"
      by (simp add: sum_mset_sum_list flip: mset_map)
    also have "\<dots> = (\<Sum>e \<leftarrow> sort_input p. size (fst e) + align (fst e))"
      unfolding ms by (simp add: sum_mset_sum_list flip: mset_map)
    also have "\<dots> = (\<Sum>a \<leftarrow> map fst (sort_input p). size a + align a)" by (simp add: comp_def)
    finally show ?thesis by (simp only: sort_input_facts)
  qed
  have dist: "distinct (map snd arr)"
  proof -
    have "mset (map snd arr) = mset [0 ..< ?n]" using ms by (simp add: mset_map flip: sort_input_facts(2))
    then show ?thesis by (metis distinct_upt mset_eq_imp_distinct_iff)
  qed
  have "\<exists>s' lim'. plan_sweep (sweep_init ?n) arr = Inr s' \<and> sweep_inv s' ([] @ arr) lim' \<and>
      length (offs s') = length (offs (sweep_init ?n))"
  proof (rule sweep_ok [where lim = 0])
    show "sweep_inv (sweep_init ?n) [] 0" by (simp add: sweep_inv_def sweep_init_def ranges_def)
    show "\<forall>e \<in> set arr. alloc_ok (fst e) \<and> snd e < length (offs (sweep_init ?n)) \<and>
        (pinned (fst e) = 0 \<longrightarrow> 0 \<le> start (fst e))"
      using mem assms(1) by (auto simp: planner_ok_def sweep_init_def)
  qed (use so dist tot assms(2) in \<open>auto simp: planner_total_def\<close>)
  then obtain s lim where s: "plan_sweep (sweep_init ?n) arr = Inr s" "sweep_inv s arr lim" by auto
  define arena where "arena = (if arena_align p \<noteq> 0 then arena_align p else 1)"
  have raw: "(if cursor s > max_end s then cursor s else max_end s) = cursor s"
    using s(2) by (simp add: sweep_inv_def)
  have "cursor s \<le> (\<Sum>a \<leftarrow> allocs p. size a + align a)" using s(2) tot by (simp add: sweep_inv_def)
  then have "cursor s + arena < 2 ^ 64" using assms(2) by (simp add: planner_total_def arena_def)
  moreover have "pai_mem_is_pow2 (of_nat arena)" "0 < arena" "arena < 2 ^ 64"
    using assms(1) is_pow2_1 by (auto simp: arena_def planner_ok_def)
  ultimately have "cursor s \<le> align64 (cursor s) arena"
    using align64_small [of arena "cursor s"] align_up_nat_ge [of arena "cursor s"] by simp
  moreover obtain plan where "pai_mem_plan_build True p arr = Inr plan" "offsets plan = offs s"
    "region_bytes plan = align64 (cursor s) arena"
    using False s(1) by (simp add: pai_mem_plan_build_def Let_def raw arena_def)
  moreover have "placed_ok s lim (allocs p ! i, i)" if "i < ?n" for i
    using s(2) mem [of "(allocs p ! i, i)"] that by (simp add: sweep_inv_def)
  moreover have "apart (offs s ! i) (size (allocs p ! i)) (offs s ! j) (size (allocs p ! j))"
    if "i < ?n" "j < ?n" "i \<noteq> j" "must_differ (allocs p ! i) (allocs p ! j)" for i j
  proof -
    have "(allocs p ! i, i) \<in> set arr" "(allocs p ! j, j) \<in> set arr" using mem that by auto
    then show ?thesis using s(2) that(3,4) unfolding sweep_inv_def by fastforce
  qed
  ultimately show ?thesis by (fastforce simp: placed_ok_def)
qed

text \<open>C12. Soundness of the static plan: when the sizes and alignments add up to less than
  \<open>2 ^ 64\<close>, the build succeeds for every order \<open>qsort\<close> may give to ties; every buffer is aligned
  and inside the region, and any two buffers whose lifetimes overlap, or one of which is pinned,
  get disjoint ranges.\<close>

theorem plan_sound:
  assumes "planner_ok p" and "planner_total p < 2 ^ 64"
    and "qsort_result alloc_cmp (sort_input p) arr"
  shows "\<exists>plan. pai_mem_plan_build True p arr = Inr plan \<and>
    (\<forall>i < length (allocs p). align (allocs p ! i) dvd offsets plan ! i \<and>
       offsets plan ! i + size (allocs p ! i) \<le> region_bytes plan) \<and>
    (\<forall>i < length (allocs p). \<forall>j < length (allocs p). i \<noteq> j \<longrightarrow>
       must_differ (allocs p ! i) (allocs p ! j) \<longrightarrow>
       apart (offsets plan ! i) (size (allocs p ! i)) (offsets plan ! j) (size (allocs p ! j)))"
  using assms by (rule plan_build_sound)

definition demo_planner :: pai_mem_planner where
  "demo_planner =
     \<lparr>allocs = [\<lparr>size = 100, align = 16, start = 0, fin = 2, pinned = 0\<rparr>,
                \<lparr>size = 10, align = 64, start = 0, fin = 9, pinned = 1\<rparr>,
                \<lparr>size = 50, align = 16, start = 1, fin = 4, pinned = 0\<rparr>],
      arena_align = 4096\<rparr>"

definition demo_sorted :: "sort_entry list" where
  "demo_sorted = [(allocs demo_planner ! 0, 0), (allocs demo_planner ! 2, 2), (allocs demo_planner ! 1, 1)]"

theorem plan_sound_witness:
  "\<exists>plan. pai_mem_plan_build True demo_planner demo_sorted = Inr plan \<and>
     apart (offsets plan ! 0) 100 (offsets plan ! 2) 50 \<and> apart (offsets plan ! 0) 100 (offsets plan ! 1) 10"
proof -
  have ok: "planner_ok demo_planner"
    by (simp add: planner_ok_def demo_planner_def alloc_ok_def pai_mem_is_pow2_def
        PAI_MEM_PLANNER_MAX_ALLOCS_def)
  have tot: "planner_total demo_planner < 2 ^ 64" by (simp add: planner_total_def demo_planner_def)
  have q: "qsort_result alloc_cmp (sort_input demo_planner) demo_sorted"
    by (simp add: qsort_result_def sort_input_def demo_planner_def demo_sorted_def alloc_cmp_def upt_rec)
  obtain plan where b: "pai_mem_plan_build True demo_planner demo_sorted = Inr plan"
    and sep: "\<And>i j. i < 3 \<Longrightarrow> j < 3 \<Longrightarrow> i \<noteq> j \<Longrightarrow>
       must_differ (allocs demo_planner ! i) (allocs demo_planner ! j) \<Longrightarrow>
       apart (offsets plan ! i) (size (allocs demo_planner ! i)) (offsets plan ! j) (size (allocs demo_planner ! j))"
    using plan_sound [OF ok tot q] by (auto simp: demo_planner_def)
  have "must_differ (allocs demo_planner ! 0) (allocs demo_planner ! 2)"
    "must_differ (allocs demo_planner ! 0) (allocs demo_planner ! 1)"
    by (simp_all add: must_differ_def overlap_def demo_planner_def)
  then have "apart (offsets plan ! 0) 100 (offsets plan ! 2) 50" "apart (offsets plan ! 0) 100 (offsets plan ! 1) 10"
    using sep [of 0 2] sep [of 0 1] by (simp_all add: demo_planner_def)
  then show ?thesis using b by blast
qed

text \<open>Without that bound the plan can be wrong: the alignment of the region cursor wraps, the
  overflow test that follows passes, and two buffers that are live together share the same bytes
  in a plan reported as good.\<close>

definition huge_planner :: pai_mem_planner where
  "huge_planner =
     \<lparr>allocs = [\<lparr>size = 2 ^ 64 - 9, align = 1, start = 0, fin = 10, pinned = 0\<rparr>,
                \<lparr>size = 4, align = 16, start = 0, fin = 5, pinned = 0\<rparr>], arena_align = 0\<rparr>"

theorem plan_overlap_on_wrap:
  "(\<exists>p1. pai_mem_planner_add pai_mem_planner_init (2 ^ 64 - 9) 1 0 10 = Inr p1 \<and>
     pai_mem_planner_add p1 4 16 0 5 = Inr huge_planner) \<and>
   qsort_result alloc_cmp (sort_input huge_planner) (sort_input huge_planner) \<and>
   overlap (allocs huge_planner ! 0) (allocs huge_planner ! 1) \<and>
   (\<exists>plan. pai_mem_plan_build True huge_planner (sort_input huge_planner) = Inr plan \<and>
     \<not> apart (offsets plan ! 0) (size (allocs huge_planner ! 0))
         (offsets plan ! 1) (size (allocs huge_planner ! 1)))"
proof (intro conjI)
  show "\<exists>p1. pai_mem_planner_add pai_mem_planner_init (2 ^ 64 - 9) 1 0 10 = Inr p1 \<and>
     pai_mem_planner_add p1 4 16 0 5 = Inr huge_planner"
    by (simp add: pai_mem_planner_add_def planner_add_common_def pai_mem_planner_init_def
        huge_planner_def pai_mem_is_pow2_def PAI_MEM_PLANNER_MAX_ALLOCS_def)
  show "qsort_result alloc_cmp (sort_input huge_planner) (sort_input huge_planner)"
    by (simp add: qsort_result_def sort_input_def huge_planner_def alloc_cmp_def upt_rec)
  show "overlap (allocs huge_planner ! 0) (allocs huge_planner ! 1)"
    by (simp add: overlap_def huge_planner_def)
  have a: "align64 18446744073709551607 16 = 0" "align64 0 (Suc 0) = 0"
    by (simp_all add: align64_def pai_mem_align_up_def)
  show "\<exists>plan. pai_mem_plan_build True huge_planner (sort_input huge_planner) = Inr plan \<and>
     \<not> apart (offsets plan ! 0) (size (allocs huge_planner ! 0))
         (offsets plan ! 1) (size (allocs huge_planner ! 1))"
    by (simp add: pai_mem_plan_build_def huge_planner_def sort_input_def upt_rec sweep_init_def
        plan_step_def extend_region_def place_def track_peak_def add64_def a Let_def apart_def)
qed

end
