(* ===== verification/Graph.thy ===== *)
theory Graph
  imports Tensor Planner "HOL-Library.While_Combinator"
begin

text \<open>
  \<^verbatim>\<open>graph/graph.c\<close>: the compute graph, its topological order (Kahn), value lifetimes and the memory
  plan built from them. The arrays indexed by id are lists, the entry of id \<open>i\<close> at position \<open>i - 1\<close>
  (id 0 is the invalid id); \<open>num_values\<close> and \<open>num_ops\<close> are the lengths. Operator kinds are the
  integers of the enumeration.
\<close>

section \<open>The graph\<close>

definition PAI_GRAPH_MAX_VALUES :: nat where "PAI_GRAPH_MAX_VALUES = 1024"
definition PAI_GRAPH_MAX_OPS :: nat where "PAI_GRAPH_MAX_OPS = 1024"
definition PAI_GRAPH_MAX_ARITY :: nat where "PAI_GRAPH_MAX_ARITY = 16"

record pai_graph_value =
  vdtype :: pai_dtype
  vshape :: "u64 list"
  vsize :: u64
  valign :: u64
  producer :: nat
  is_input :: bool
  is_output :: bool

record pai_graph_op =
  kind :: int
  inputs :: "nat list"
  outputs :: "nat list"
  epoch :: nat

record pai_graph =
  vals :: "pai_graph_value list"
  ops :: "pai_graph_op list"
  is_sorted :: bool

abbreviation num_values :: "pai_graph \<Rightarrow> nat" where "num_values g \<equiv> length (vals g)"
abbreviation num_ops :: "pai_graph \<Rightarrow> nat" where "num_ops g \<equiv> length (ops g)"
abbreviation val_of :: "pai_graph \<Rightarrow> nat \<Rightarrow> pai_graph_value" where "val_of g v \<equiv> vals g ! (v - 1)"
abbreviation op_of :: "pai_graph \<Rightarrow> nat \<Rightarrow> pai_graph_op" where "op_of g u \<equiv> ops g ! (u - 1)"

definition k_op_names :: "string list" where
  "k_op_names =
     [''none'', ''add'', ''mul'', ''gemm'', ''gemv'', ''matmul'', ''relu'', ''softmax'', ''layernorm'',
      ''rmsnorm'', ''rope'', ''attention'', ''reshape'', ''concat'', ''convert'', ''copy'', ''silu'',
      ''custom'']"

definition pai_graph_op_kind_str :: "int \<Rightarrow> string" where
  "pai_graph_op_kind_str k =
     (if k < 0 \<or> k \<ge> int (length k_op_names) then ''?'' else k_op_names ! nat k)"

definition pai_graph_init :: pai_graph where
  "pai_graph_init = \<lparr>vals = [], ops = [], is_sorted = False\<rparr>"

text \<open>The id of a new value or op, 0 on failure, with the updated graph.\<close>

definition pai_graph_add_value ::
    "pai_graph \<Rightarrow> pai_dtype \<Rightarrow> u64 list \<Rightarrow> u64 \<Rightarrow> pai_graph \<times> nat" where
  "pai_graph_add_value g dt sh al =
     (if length sh = 0 \<or> length sh > PAI_TENSOR_MAX_RANK \<or> num_values g \<ge> PAI_GRAPH_MAX_VALUES \<or>
         al \<noteq> 0 \<and> al AND (al - 1) \<noteq> 0
      then (g, 0)
      else
        (case pai_tensor_contiguous_size dt sh of
           Inl e \<Rightarrow> (g, 0)
         | Inr b \<Rightarrow>
             (g\<lparr>vals := vals g @
                  [\<lparr>vdtype = dt, vshape = sh, vsize = b, valign = (if al \<noteq> 0 then al else 16),
                    producer = 0, is_input = False, is_output = False\<rparr>]\<rparr>,
              num_values g + 1)))"

definition set_producer :: "nat \<Rightarrow> pai_graph_value list \<Rightarrow> nat \<Rightarrow> pai_graph_value list" where
  "set_producer u vs v = vs[v - 1 := (vs ! (v - 1))\<lparr>producer := u\<rparr>]"

text \<open>The checks of \<open>pai_graph_add_op\<close>: ids exist, outputs have no producer and do not repeat, and
  the op does not consume its own output.\<close>

definition op_inputs_ok :: "pai_graph \<Rightarrow> nat list \<Rightarrow> bool" where
  "op_inputs_ok g ins \<longleftrightarrow> (\<forall>v \<in> set ins. v \<noteq> 0 \<and> v \<le> num_values g)"

fun op_outputs_ok :: "pai_graph \<Rightarrow> nat list \<Rightarrow> nat list \<Rightarrow> bool" where
  "op_outputs_ok g seen [] = True"
| "op_outputs_ok g seen (v # vs) =
     (v \<noteq> 0 \<and> v \<le> num_values g \<and> producer (val_of g v) = 0 \<and> v \<notin> set seen \<and>
      op_outputs_ok g (v # seen) vs)"

definition pai_graph_add_op ::
    "pai_graph \<Rightarrow> int \<Rightarrow> nat list \<Rightarrow> nat list \<Rightarrow> pai_graph \<times> nat" where
  "pai_graph_add_op g k ins outs =
     (if length ins > PAI_GRAPH_MAX_ARITY \<or> length outs > PAI_GRAPH_MAX_ARITY \<or>
         num_ops g \<ge> PAI_GRAPH_MAX_OPS
      then (g, 0)
      else if \<not> op_inputs_ok g ins then (g, 0)
      else if \<not> op_outputs_ok g [] outs then (g, 0)
      else if \<exists>i \<in> set ins. \<exists>k \<in> set outs. i = k then (g, 0)
      else
        (let id = num_ops g + 1
         in (g\<lparr>ops := ops g @ [\<lparr>kind = k, inputs = ins, outputs = outs, epoch = 0\<rparr>],
               vals := foldl (set_producer id) (vals g) outs, is_sorted := False\<rparr>, id)))"

definition pai_graph_set_input :: "pai_graph \<Rightarrow> nat \<Rightarrow> pai_graph" where
  "pai_graph_set_input g v =
     (if v \<noteq> 0 \<and> v \<le> num_values g
      then g\<lparr>vals := (vals g)[v - 1 := (val_of g v)\<lparr>is_input := True\<rparr>]\<rparr> else g)"

definition pai_graph_set_output :: "pai_graph \<Rightarrow> nat \<Rightarrow> pai_graph" where
  "pai_graph_set_output g v =
     (if v \<noteq> 0 \<and> v \<le> num_values g
      then g\<lparr>vals := (vals g)[v - 1 := (val_of g v)\<lparr>is_output := True\<rparr>]\<rparr> else g)"

section \<open>Topological order\<close>

record topo =
  indegree :: "nat list"
  queue :: "nat list"
  head :: nat
  order :: "nat list"

definition dec32 :: "nat \<Rightarrow> nat" where "dec32 n = (n + 2 ^ 32 - 1) mod 2 ^ 32"

definition op_indegree :: "pai_graph \<Rightarrow> nat \<Rightarrow> nat" where
  "op_indegree g u =
     length (filter (\<lambda>v. producer (val_of g v) \<noteq> 0 \<and> producer (val_of g v) \<noteq> u) (inputs (op_of g u)))"

definition topo_start :: "pai_graph \<Rightarrow> topo" where
  "topo_start g =
     (let deg = 0 # map (op_indegree g) [1 ..< num_ops g + 1]
      in \<lparr>indegree = deg, queue = filter (\<lambda>u. deg ! u = 0) [1 ..< num_ops g + 1], head = 0, order = []\<rparr>)"

text \<open>The three loops that make the consumers of \<open>u\<close>'s outputs available.\<close>

definition release_edge :: "nat \<Rightarrow> topo \<Rightarrow> topo" where
  "release_edge c t =
     (let n = dec32 (indegree t ! c); t' = t\<lparr>indegree := (indegree t)[c := n]\<rparr>
      in if n = 0 then t'\<lparr>queue := queue t' @ [c]\<rparr> else t')"

definition release_op :: "pai_graph \<Rightarrow> nat \<Rightarrow> nat \<Rightarrow> topo \<Rightarrow> nat \<Rightarrow> topo" where
  "release_op g u v t c =
     (if c = u then t
      else foldl (\<lambda>t w. if w = v then release_edge c t else t) t (inputs (op_of g c)))"

definition release_value :: "pai_graph \<Rightarrow> nat \<Rightarrow> topo \<Rightarrow> nat \<Rightarrow> topo" where
  "release_value g u t v = foldl (release_op g u v) t [1 ..< num_ops g + 1]"

definition topo_step :: "pai_graph \<Rightarrow> topo \<Rightarrow> topo" where
  "topo_step g t =
     (let u = queue t ! head t
      in foldl (release_value g u) (t\<lparr>head := head t + 1, order := order t @ [u]\<rparr>) (outputs (op_of g u)))"

definition set_epochs :: "pai_graph \<Rightarrow> nat list \<Rightarrow> pai_graph_op list" where
  "set_epochs g ord =
     foldl (\<lambda>os i. os[ord ! i - 1 := (os ! (ord ! i - 1))\<lparr>epoch := i\<rparr>]) (ops g) [0 ..< num_ops g]"

text \<open>\<open>None\<close>: the queue loop does not end.\<close>

definition pai_graph_topo_sort :: "pai_graph \<Rightarrow> (pai_graph \<times> unit res) option" where
  "pai_graph_topo_sort g =
     (case while_option (\<lambda>t. head t < length (queue t)) (topo_step g) (topo_start g) of
        None \<Rightarrow> None
      | Some t \<Rightarrow>
          if length (order t) \<noteq> num_ops g
          then Some (g\<lparr>is_sorted := False\<rparr>, Inl PAI_ERR_MISMATCH)
          else Some (g\<lparr>ops := set_epochs g (order t), is_sorted := True\<rparr>, Inr ()))"

section \<open>Lifetimes and the memory plan\<close>

text \<open>\<open>last_use\<close> and \<open>used\<close> after the scan over all ops: pairs indexed by value id minus one.\<close>

definition note_use :: "nat \<Rightarrow> (nat \<times> bool) list \<Rightarrow> nat \<Rightarrow> (nat \<times> bool) list" where
  "note_use e us v =
     us[v - 1 := (if e > fst (us ! (v - 1)) then e else fst (us ! (v - 1)), True)]"

definition scan_uses :: "pai_graph \<Rightarrow> (nat \<times> bool) list" where
  "scan_uses g =
     foldl (\<lambda>us p. foldl (note_use (epoch p)) us (inputs p)) (replicate (num_values g) (0, False)) (ops g)"

definition lifetime :: "pai_graph \<Rightarrow> (nat \<times> bool) list \<Rightarrow> nat \<Rightarrow> nat \<times> nat" where
  "lifetime g us v =
     (let value = val_of g v;
          st = (if producer value \<noteq> 0 then epoch (op_of g (producer value)) else 0)
      in (st, if is_output value then num_ops g
              else if snd (us ! (v - 1)) then fst (us ! (v - 1)) + 1
              else st + 1))"

text \<open>The two output arrays, as the list of (start, end) pairs of ids \<open>1, 2, \<dots>\<close>.\<close>

definition pai_graph_value_lifetimes :: "pai_graph \<Rightarrow> (pai_graph \<times> (nat \<times> nat) list res) option" where
  "pai_graph_value_lifetimes g =
     (case (if is_sorted g then Some (g, Inr ()) else pai_graph_topo_sort g) of
        None \<Rightarrow> None
      | Some (g', Inl e) \<Rightarrow> Some (g', Inl e)
      | Some (g', Inr _) \<Rightarrow>
          Some (g', Inr (map (lifetime g' (scan_uses g')) [1 ..< num_values g' + 1])))"

definition pai_graph_value_lifetimes_persistent ::
    "pai_graph \<Rightarrow> (pai_graph \<times> (nat \<times> nat) list res) option" where
  "pai_graph_value_lifetimes_persistent g =
     (case pai_graph_value_lifetimes g of
        None \<Rightarrow> None
      | Some (g', Inl e) \<Rightarrow> Some (g', Inl e)
      | Some (g', Inr ls) \<Rightarrow>
          Some (g', Inr (map (\<lambda>v. let l = ls ! (v - 1)
                                  in if producer (val_of g' v) = 0 then (fst l, num_ops g') else l)
                           [1 ..< num_values g' + 1])))"

record pai_graph_mem_plan =
  base :: pai_mem_plan
  voffsets :: "nat list"
  vregion_bytes :: nat
  vnaive_bytes :: nat
  vpeak_live :: nat

fun add_values :: "pai_mem_planner \<Rightarrow> (pai_graph_value \<times> nat \<times> nat) list \<Rightarrow> pai_mem_planner res" where
  "add_values p [] = Inr p"
| "add_values p ((value, st, en) # vs) =
     (case pai_mem_planner_add p (unat (vsize value)) (unat (valign value)) st en of
        Inl e \<Rightarrow> Inl e
      | Inr p' \<Rightarrow> add_values p' vs)"

text \<open>\<open>qsort\<close> is the sort of the planner, \<open>mem\<close> whether its buffers could be allocated.\<close>

definition graph_memory_plan_impl ::
    "bool \<Rightarrow> (sort_entry list \<Rightarrow> sort_entry list) \<Rightarrow> pai_graph \<Rightarrow> bool \<Rightarrow>
     (pai_graph \<times> pai_graph_mem_plan res) option" where
  "graph_memory_plan_impl mem qsort g persistent =
     (case (if is_sorted g then Some (g, Inr ()) else pai_graph_topo_sort g) of
        None \<Rightarrow> None
      | Some (g1, Inl e) \<Rightarrow> Some (g1, Inl e)
      | Some (g1, Inr _) \<Rightarrow>
          (case (if persistent then pai_graph_value_lifetimes_persistent g1
                 else pai_graph_value_lifetimes g1) of
             None \<Rightarrow> None
           | Some (g2, Inl e) \<Rightarrow> Some (g2, Inl e)
           | Some (g2, Inr ls) \<Rightarrow>
               (case add_values pai_mem_planner_init (zip (vals g2) ls) of
                  Inl e \<Rightarrow> Some (g2, Inl e)
                | Inr p \<Rightarrow>
                    (case pai_mem_plan_build mem p (qsort (sort_input p)) of
                       Inl e \<Rightarrow> Some (g2, Inl e)
                     | Inr b \<Rightarrow>
                         Some (g2, Inr \<lparr>base = pai_mem_plan_free b,
                                        voffsets = map (\<lambda>v. offsets b ! (v - 1)) [1 ..< num_values g2 + 1],
                                        vregion_bytes = region_bytes b, vnaive_bytes = naive_bytes b,
                                        vpeak_live = peak_live b\<rparr>)))))"

definition pai_graph_memory_plan where
  "pai_graph_memory_plan mem qsort g = graph_memory_plan_impl mem qsort g False"

definition pai_graph_memory_plan_persistent where
  "pai_graph_memory_plan_persistent mem qsort g = graph_memory_plan_impl mem qsort g True"

definition pai_graph_mem_plan_offset :: "pai_graph_mem_plan \<Rightarrow> nat \<Rightarrow> nat" where
  "pai_graph_mem_plan_offset plan v =
     (if v = 0 \<or> v > PAI_GRAPH_MAX_VALUES then 0
      else if v \<le> length (voffsets plan) then voffsets plan ! (v - 1) else 0)"

definition pai_graph_mem_plan_free :: "pai_graph_mem_plan \<Rightarrow> pai_graph_mem_plan" where
  "pai_graph_mem_plan_free plan = plan\<lparr>base := pai_mem_plan_free (base plan)\<rparr>"

section \<open>Well-formed graphs\<close>

definition epochs_ok :: "pai_graph \<Rightarrow> bool" where
  "epochs_ok g \<longleftrightarrow>
     (\<forall>u \<in> {1 .. num_ops g}. epoch (op_of g u) < num_ops g) \<and>
     inj_on (\<lambda>u. epoch (op_of g u)) {1 .. num_ops g} \<and>
     (\<forall>u \<in> {1 .. num_ops g}. \<forall>c \<in> {1 .. num_ops g}. \<forall>v \<in> set (outputs (op_of g u)).
        v \<in> set (inputs (op_of g c)) \<longrightarrow> epoch (op_of g u) < epoch (op_of g c))"

definition op_ok :: "pai_graph \<Rightarrow> nat \<Rightarrow> bool" where
  "op_ok g u \<longleftrightarrow>
     (\<forall>v \<in> set (inputs (op_of g u)) \<union> set (outputs (op_of g u)). v \<in> {1 .. num_values g}) \<and>
     length (inputs (op_of g u)) \<le> PAI_GRAPH_MAX_ARITY \<and> length (outputs (op_of g u)) \<le> PAI_GRAPH_MAX_ARITY \<and>
     distinct (outputs (op_of g u)) \<and> set (inputs (op_of g u)) \<inter> set (outputs (op_of g u)) = {}"

definition value_ok :: "pai_graph \<Rightarrow> nat \<Rightarrow> bool" where
  "value_ok g v \<longleftrightarrow>
     pai_tensor_contiguous_size (vdtype (val_of g v)) (vshape (val_of g v)) = Inr (vsize (val_of g v)) \<and>
     vsize (val_of g v) \<noteq> 0 \<and> pai_mem_is_pow2 (valign (val_of g v)) \<and> producer (val_of g v) \<le> num_ops g \<and>
     (\<forall>u \<in> {1 .. num_ops g}. producer (val_of g v) = u \<longleftrightarrow> v \<in> set (outputs (op_of g u)))"

definition graph_wf :: "pai_graph \<Rightarrow> bool" where
  "graph_wf g \<longleftrightarrow>
     num_values g \<le> PAI_GRAPH_MAX_VALUES \<and> num_ops g \<le> PAI_GRAPH_MAX_OPS \<and>
     (\<forall>u \<in> {1 .. num_ops g}. op_ok g u) \<and> (\<forall>v \<in> {1 .. num_values g}. value_ok g v) \<and>
     (is_sorted g \<longrightarrow> epochs_ok g)"

lemmas graph_wf_defs = graph_wf_def op_ok_def value_ok_def

lemma wf_op: "graph_wf g \<Longrightarrow> u \<in> {1 .. num_ops g} \<Longrightarrow> op_ok g u"
  by (simp add: graph_wf_def)

lemma wf_value: "graph_wf g \<Longrightarrow> v \<in> {1 .. num_values g} \<Longrightarrow> value_ok g v"
  by (simp add: graph_wf_def)

lemma wf_input:
  "graph_wf g \<Longrightarrow> u \<in> {1 .. num_ops g} \<Longrightarrow> v \<in> set (inputs (op_of g u)) \<Longrightarrow> v \<in> {1 .. num_values g}"
  by (drule (1) wf_op) (simp add: op_ok_def)

lemma wf_output:
  "graph_wf g \<Longrightarrow> u \<in> {1 .. num_ops g} \<Longrightarrow> v \<in> set (outputs (op_of g u)) \<Longrightarrow> v \<in> {1 .. num_values g}"
  by (drule (1) wf_op) (simp add: op_ok_def)

lemma id_less: "v \<in> {1 .. n} \<Longrightarrow> v - 1 < (n :: nat)"
  by auto

lemma graph_wfI:
  assumes "num_values g \<le> PAI_GRAPH_MAX_VALUES" "num_ops g \<le> PAI_GRAPH_MAX_OPS"
    and "\<And>u. u \<in> {1 .. num_ops g} \<Longrightarrow> op_ok g u" and "\<And>v. v \<in> {1 .. num_values g} \<Longrightarrow> value_ok g v"
    and "is_sorted g \<Longrightarrow> epochs_ok g"
  shows "graph_wf g"
  using assms unfolding graph_wf_def by blast

lemma add_value_wf:
  assumes "graph_wf g"
  shows "graph_wf (fst (pai_graph_add_value g dt sh al))"
proof (cases "fst (pai_graph_add_value g dt sh al) = g")
  case False
  then obtain b x where b: "pai_tensor_contiguous_size dt sh = Inr b"
    and len: "num_values g < PAI_GRAPH_MAX_VALUES"
    and g': "fst (pai_graph_add_value g dt sh al) = g\<lparr>vals := vals g @ [x]\<rparr>"
    and x: "vsize x = b" "producer x = 0" "valign x = (if al \<noteq> 0 then al else 16)"
      "vdtype x = dt" "vshape x = sh"
    and al: "al \<noteq> 0 \<Longrightarrow> al AND (al - 1) = 0"
    unfolding pai_graph_add_value_def by (auto split: if_splits sum.splits)
  have "unat b = nat_prod sh * unat (pai_dtype_size dt)" "0 \<notin> set sh" "pai_dtype_size dt \<noteq> 0"
    using b unfolding contiguous_size_iff nat_prod_def by simp_all
  then have "0 < unat b" using nat_prod_pos [of sh] by (simp add: unat_gt_0)
  then have "b \<noteq> 0" by auto
  moreover have "pai_mem_is_pow2 (valign x)"
    using al by (auto simp: pai_mem_is_pow2_def x)
  moreover have new: "num_values g + 1 \<notin> set (outputs (op_of g u))" if "u \<in> {1 .. num_ops g}" for u
    using wf_output [OF assms that, of "num_values g + 1"] by auto
  ultimately have top: "value_ok (g\<lparr>vals := vals g @ [x]\<rparr>) (num_values g + 1)"
    using b by (simp add: value_ok_def x)
  have old: "value_ok (g\<lparr>vals := vals g @ [x]\<rparr>) v" if "v \<in> {1 .. num_values g}" for v
    using wf_value [OF assms that] id_less [OF that] by (simp add: value_ok_def nth_append)
  show ?thesis unfolding g'
  proof (rule graph_wfI)
    show "value_ok (g\<lparr>vals := vals g @ [x]\<rparr>) v" if "v \<in> {1 .. num_values (g\<lparr>vals := vals g @ [x]\<rparr>)}" for v
      using that top old [of v] by (cases "v = num_values g + 1") simp_all
    show "op_ok (g\<lparr>vals := vals g @ [x]\<rparr>) u" if "u \<in> {1 .. num_ops (g\<lparr>vals := vals g @ [x]\<rparr>)}" for u
      using wf_op [OF assms, of u] that by (simp add: op_ok_def le_SucI)
  qed (use assms len in \<open>simp_all add: graph_wf_def epochs_ok_def\<close>)
qed (use assms in simp)

lemma flag_wf:
  assumes "graph_wf g" "\<And>x. producer (f x) = producer x \<and> vsize (f x) = vsize x \<and> valign (f x) = valign x \<and>
      vdtype (f x) = vdtype x \<and> vshape (f x) = vshape x"
  shows "graph_wf (g\<lparr>vals := (vals g)[i := f (vals g ! i)]\<rparr>)"
proof (rule graph_wfI)
  let ?g = "g\<lparr>vals := (vals g)[i := f (vals g ! i)]\<rparr>"
  show "value_ok ?g v" if "v \<in> {1 .. num_values ?g}" for v
    using wf_value [OF assms(1), of v] that assms(2) id_less [of v "num_values g"]
    by (cases "i = v - 1") (simp_all add: value_ok_def)
  show "op_ok ?g u" if "u \<in> {1 .. num_ops ?g}" for u
    using wf_op [OF assms(1), of u] that by (simp add: op_ok_def)
qed (use assms(1) in \<open>simp_all add: graph_wf_def epochs_ok_def\<close>)

lemma set_flags_wf:
  assumes "graph_wf g"
  shows "graph_wf (pai_graph_set_input g v)" "graph_wf (pai_graph_set_output g v)"
  using assms flag_wf [OF assms, of "\<lambda>x. x\<lparr>is_input := True\<rparr>" "v - 1"]
    flag_wf [OF assms, of "\<lambda>x. x\<lparr>is_output := True\<rparr>" "v - 1"]
  by (simp_all add: pai_graph_set_input_def pai_graph_set_output_def)

lemma set_producers:
  assumes "\<forall>v \<in> set outs. 1 \<le> v \<and> v \<le> length vs"
  shows "length (foldl (set_producer u) vs outs) = length vs"
    and "i < length vs \<Longrightarrow> foldl (set_producer u) vs outs ! i =
      (if Suc i \<in> set outs then (vs ! i)\<lparr>producer := u\<rparr> else vs ! i)"
  using assms
proof (induction outs arbitrary: vs)
  case (Cons w outs)
  {
    case 1
    then show ?case using Cons.IH(1) [of "set_producer u vs w"] by (simp add: set_producer_def)
  next
    case 2
    then show ?case using Cons.IH(2) [of "set_producer u vs w"]
      by (auto simp: set_producer_def nth_list_update)
  }
qed simp_all

lemma op_outputs_ok_iff:
  "op_outputs_ok g seen outs \<longleftrightarrow>
     distinct outs \<and> set outs \<inter> set seen = {} \<and>
     (\<forall>v \<in> set outs. 1 \<le> v \<and> v \<le> num_values g \<and> producer (val_of g v) = 0)"
  by (induction outs arbitrary: seen) auto

text \<open>Adding an op: the new id becomes the producer of its outputs and of nothing else.\<close>

lemma add_op_wf:
  assumes "graph_wf g"
  shows "graph_wf (fst (pai_graph_add_op g k ins outs))"
proof (cases "fst (pai_graph_add_op g k ins outs) = g")
  case False
  let ?p = "\<lparr>kind = k, inputs = ins, outputs = outs, epoch = 0\<rparr>"
  let ?vs = "foldl (set_producer (num_ops g + 1)) (vals g) outs"
  let ?g = "g\<lparr>ops := ops g @ [?p], vals := ?vs, is_sorted := False\<rparr>"
  have g': "fst (pai_graph_add_op g k ins outs) = ?g"
    and len: "num_ops g < PAI_GRAPH_MAX_OPS" "length ins \<le> PAI_GRAPH_MAX_ARITY" "length outs \<le> PAI_GRAPH_MAX_ARITY"
    and ins: "\<forall>v \<in> set ins. v \<in> {1 .. num_values g}" and disj: "set ins \<inter> set outs = {}"
    and outs: "distinct outs" "\<forall>v \<in> set outs. v \<in> {1 .. num_values g} \<and> producer (val_of g v) = 0"
    using False unfolding pai_graph_add_op_def Let_def
    by (auto simp: op_inputs_ok_def op_outputs_ok_iff Suc_le_eq split: if_splits)
  have nv: "length ?vs = num_values g" and nth: "i < num_values g \<Longrightarrow> ?vs ! i =
      (if Suc i \<in> set outs then (vals g ! i)\<lparr>producer := num_ops g + 1\<rparr> else vals g ! i)" for i
    using set_producers(1) [of outs "vals g" "num_ops g + 1"] outs(2)
      set_producers(2) [of outs "vals g" i "num_ops g + 1"] by auto
  have old: "op_of ?g u = op_of g u" if "u \<in> {1 .. num_ops g}" for u
    using id_less [OF that] by (simp add: nth_append)
  show ?thesis unfolding g'
  proof (rule graph_wfI)
    fix u assume u: "u \<in> {1 .. num_ops ?g}"
    show "op_ok ?g u"
    proof (cases "u = num_ops g + 1")
      case True
      then show ?thesis using ins outs disj nv len by (auto simp: op_ok_def)
    next
      case False
      then have "u \<in> {1 .. num_ops g}" using u by auto
      then show ?thesis using wf_op [OF assms] old [of u] nv by (simp add: op_ok_def)
    qed
  next
    fix v assume v: "v \<in> {1 .. num_values ?g}"
    then have v': "v \<in> {1 .. num_values g}" "v - 1 < num_values g" "Suc (v - 1) = v"
      using nv by auto
    have vo: "value_ok g v" using wf_value [OF assms v'(1)] .
    have val: "val_of ?g v =
        (if v \<in> set outs then (val_of g v)\<lparr>producer := num_ops g + 1\<rparr> else val_of g v)"
      using nth [OF v'(2)] v'(3) by simp
    have "(producer (val_of ?g v) = u) = (v \<in> set (outputs (op_of ?g u)))"
      if u: "u \<in> {1 .. num_ops g + 1}" for u
    proof (cases "u = num_ops g + 1")
      case True
      then show ?thesis using vo val by (auto simp: value_ok_def)
    next
      case False
      then have u': "u \<in> {1 .. num_ops g}" using u by auto
      then have "(producer (val_of g v) = u) = (v \<in> set (outputs (op_of g u)))"
        using vo by (simp add: value_ok_def)
      then show ?thesis using old [OF u'] outs(2) False u' val by auto
    qed
    then show "value_ok ?g v"
      using vo val unfolding value_ok_def by simp
  qed (use assms len nv in \<open>simp_all add: graph_wf_def\<close>)
qed (use assms in simp)

section \<open>The queue loop\<close>

text \<open>The consumers released by \<open>u\<close>, one entry per decremented edge, in the order of the loops.\<close>

definition consumers :: "pai_graph \<Rightarrow> nat \<Rightarrow> nat list" where
  "consumers g u =
     concat (map (\<lambda>v. concat (map (\<lambda>c. if c = u then [] else replicate (count_list (inputs (op_of g c)) v) c)
       [1 ..< num_ops g + 1])) (outputs (op_of g u)))"

abbreviation release_all :: "topo \<Rightarrow> nat list \<Rightarrow> topo" where
  "release_all \<equiv> foldl (\<lambda>t c. release_edge c t)"

lemma foldl_concat_map: "foldl (\<lambda>s x. foldl f s (h x)) s xs = foldl f s (concat (map h xs))"
  by (induction xs arbitrary: s) simp_all

lemma release_inputs:
  "foldl (\<lambda>t w. if w = v then release_edge c t else t) t ins = release_all t (replicate (count_list ins v) c)"
  by (induction ins arbitrary: t) auto

lemma topo_step_eq:
  "topo_step g t =
     (let u = queue t ! head t
      in release_all (t\<lparr>head := head t + 1, order := order t @ [u]\<rparr>) (consumers g u))"
proof -
  have op: "release_op g u v t c =
      release_all t (if c = u then [] else replicate (count_list (inputs (op_of g c)) v) c)" for u v t c
    by (simp add: release_op_def release_inputs)
  show ?thesis
    by (simp add: topo_step_def release_value_def [abs_def] op [abs_def] foldl_concat_map consumers_def Let_def)
qed

lemma dec32_pos: "0 < n \<Longrightarrow> n < 2 ^ 32 \<Longrightarrow> dec32 n = n - 1"
proof -
  assume n: "0 < n" "n < 2 ^ 32"
  then obtain m where m: "n = Suc m" by (cases n) auto
  have "Suc m + 2 ^ 32 - 1 = m + 2 ^ 32" by simp
  then show ?thesis using n unfolding dec32_def m by simp
qed

lemma release_all_spec:
  assumes "\<And>c. c \<in> set cs \<Longrightarrow> c < length (indegree t)"
    and "\<And>c. c \<in> set cs \<Longrightarrow> count_list cs c \<le> indegree t ! c \<and> indegree t ! c < 2 ^ 32"
  shows "\<exists>news. queue (release_all t cs) = queue t @ news \<and> distinct news \<and>
      set news = {c \<in> set cs. indegree t ! c = count_list cs c} \<and>
      head (release_all t cs) = head t \<and> order (release_all t cs) = order t \<and>
      length (indegree (release_all t cs)) = length (indegree t) \<and>
      (\<forall>c < length (indegree t). indegree (release_all t cs) ! c = indegree t ! c - count_list cs c)"
  using assms
proof (induction cs arbitrary: t)
  case (Cons c cs)
  let ?t = "release_edge c t"
  have c: "c < length (indegree t)" "count_list cs c + 1 \<le> indegree t ! c" "indegree t ! c < 2 ^ 32"
    using Cons.prems(1,2) [of c] by simp_all
  have dec: "dec32 (indegree t ! c) = indegree t ! c - 1" using c by (intro dec32_pos) auto
  have t: "indegree ?t = (indegree t)[c := indegree t ! c - 1]" "head ?t = head t" "order ?t = order t"
    "queue ?t = queue t @ (if indegree t ! c = 1 then [c] else [])"
    using c by (auto simp: release_edge_def dec Let_def)
  have IH: "\<exists>news. queue (release_all ?t cs) = queue ?t @ news \<and> distinct news \<and>
      set news = {d \<in> set cs. indegree ?t ! d = count_list cs d} \<and>
      head (release_all ?t cs) = head ?t \<and> order (release_all ?t cs) = order ?t \<and>
      length (indegree (release_all ?t cs)) = length (indegree ?t) \<and>
      (\<forall>d < length (indegree ?t). indegree (release_all ?t cs) ! d = indegree ?t ! d - count_list cs d)"
  proof (rule Cons.IH)
    fix d assume d: "d \<in> set cs"
    show "d < length (indegree ?t)" using Cons.prems(1) [of d] d by (simp add: t)
    show "count_list cs d \<le> indegree ?t ! d \<and> indegree ?t ! d < 2 ^ 32"
      using Cons.prems(2) [of d] d c by (cases "d = c") (auto simp: t)
  qed
  then obtain news where n: "queue (release_all ?t cs) = queue ?t @ news" "distinct news"
    "set news = {d \<in> set cs. indegree ?t ! d = count_list cs d}"
    "head (release_all ?t cs) = head t" "order (release_all ?t cs) = order t"
    "length (indegree (release_all ?t cs)) = length (indegree t)"
    "\<forall>d < length (indegree t). indegree (release_all ?t cs) ! d = indegree ?t ! d - count_list cs d"
    unfolding t(2,3) by (auto simp: t(1))
  let ?n = "(if indegree t ! c = 1 then [c] else []) @ news"
  have one: "c \<notin> set cs" if "indegree t ! c = 1"
    using that c(2) by (simp add: count_list_0_iff)
  have "set ?n = {d \<in> set (c # cs). indegree t ! d = count_list (c # cs) d}"
  proof (rule set_eqI)
    fix d
    show "d \<in> set ?n \<longleftrightarrow> d \<in> {d \<in> set (c # cs). indegree t ! d = count_list (c # cs) d}"
    proof (cases "d = c")
      case True
      have "c \<in> set news \<longleftrightarrow> c \<in> set cs \<and> indegree t ! c = count_list cs c + 1"
        unfolding n(3) using c by (auto simp: t(1))
      moreover have "c \<notin> set cs \<longleftrightarrow> count_list cs c = 0" by (simp add: count_list_0_iff)
      ultimately have "indegree t ! c = 1 \<or> c \<in> set news \<longleftrightarrow> indegree t ! c = count_list cs c + 1"
        using one by linarith
      then show ?thesis unfolding True by simp
    next
      case False
      then show ?thesis using n(3) t(1) by simp
    qed
  qed
  moreover have "distinct ?n" using n(2,3) one by auto
  moreover have "\<forall>d < length (indegree t). indegree (release_all ?t cs) ! d =
      indegree t ! d - count_list (c # cs) d"
    using n(7) c by (auto simp: t(1) nth_list_update)
  ultimately show ?case using n(1,4,5,6) t(4) by (intro exI [of _ ?n]) simp
qed simp

text \<open>How often a consumer is released: once per input that \<open>u\<close> produces.\<close>

lemma count_concat_map: "count_list (concat (map h xs)) c = (\<Sum>x \<leftarrow> xs. count_list (h x) c)"
  by (induction xs) (simp_all add: count_list_append)

lemma count_replicate: "count_list (replicate k x) y = (if x = y then k else 0)"
  by (induction k) auto

lemma sum_count_filter:
  assumes "distinct outs"
  shows "(\<Sum>v \<leftarrow> outs. count_list ins v) = length (filter (\<lambda>w. w \<in> set outs) ins)"
proof (induction ins)
  case (Cons w ins)
  have "(\<Sum>v \<leftarrow> outs. count_list (w # ins) v) =
      (\<Sum>v \<leftarrow> outs. (if w = v then 1 else 0) + count_list ins v)"
    by (rule arg_cong [where f = sum_list]) auto
  also have "\<dots> = (\<Sum>v \<leftarrow> outs. if w = v then 1 else 0) + (\<Sum>v \<leftarrow> outs. count_list ins v)"
    by (rule sum_list_addf)
  also have "(\<Sum>v \<leftarrow> outs. if w = v then 1 else (0 :: nat)) = (if w \<in> set outs then 1 else 0)"
    using assms by (simp add: sum_list_distinct_conv_sum_set)
  finally show ?case using Cons by simp
qed simp

lemma consumers_set: "set (consumers g u) \<subseteq> {1 .. num_ops g}"
  by (auto simp: consumers_def split: if_splits)

lemma count_consumers:
  assumes "graph_wf g" "u \<in> {1 .. num_ops g}" "c \<in> {1 .. num_ops g}"
  shows "count_list (consumers g u) c =
    length (filter (\<lambda>v. producer (val_of g v) = u) (inputs (op_of g c)))"
proof -
  let ?outs = "outputs (op_of g u)" and ?ins = "inputs (op_of g c)"
  have u: "distinct ?outs" "set (inputs (op_of g u)) \<inter> set ?outs = {}"
    using wf_op [OF assms(1,2)] by (auto simp: op_ok_def)
  have inner: "(\<Sum>c' \<leftarrow> [1 ..< num_ops g + 1]. count_list (if c' = u then []
        else replicate (count_list (inputs (op_of g c')) v) c') c) = (if c = u then 0 else count_list ?ins v)" for v
  proof -
    have "(\<Sum>c' \<leftarrow> [1 ..< num_ops g + 1]. count_list (if c' = u then []
          else replicate (count_list (inputs (op_of g c')) v) c') c) =
        (\<Sum>c' \<leftarrow> [1 ..< num_ops g + 1]. if c = c' then (if c = u then 0 else count_list ?ins v) else 0)"
      by (rule arg_cong [where f = sum_list]) (auto simp: count_replicate)
    also have "\<dots> = (if c = u then 0 else count_list ?ins v)"
      using assms(3) by (subst sum_list_distinct_conv_sum_set) (auto simp: sum.delta')
    finally show ?thesis .
  qed
  have "count_list (consumers g u) c = (\<Sum>v \<leftarrow> ?outs. if c = u then 0 else count_list ?ins v)"
    unfolding consumers_def count_concat_map inner ..
  also have "\<dots> = (if c = u then 0 else length (filter (\<lambda>w. w \<in> set ?outs) ?ins))"
    using sum_count_filter [OF u(1), of ?ins] by simp
  also have "\<dots> = length (filter (\<lambda>w. w \<in> set ?outs) ?ins)"
    using u(2) by (auto simp: filter_empty_conv)
  also have "filter (\<lambda>w. w \<in> set ?outs) ?ins = filter (\<lambda>v. producer (val_of g v) = u) ?ins"
  proof (rule filter_cong [OF refl])
    fix v assume "v \<in> set ?ins"
    then have "value_ok g v" using wf_input assms wf_value by blast
    then show "v \<in> set ?outs \<longleftrightarrow> producer (val_of g v) = u" using assms(2) by (simp add: value_ok_def)
  qed
  finally show ?thesis .
qed

definition pending :: "pai_graph \<Rightarrow> nat set \<Rightarrow> nat \<Rightarrow> nat" where
  "pending g P c =
     length (filter (\<lambda>v. producer (val_of g v) \<noteq> 0 \<and> producer (val_of g v) \<notin> P) (inputs (op_of g c)))"

lemma pending_insert:
  assumes "u \<notin> P" "u \<noteq> 0"
  shows "pending g P c = pending g (insert u P) c +
    length (filter (\<lambda>v. producer (val_of g v) = u) (inputs (op_of g c)))"
proof -
  have "length (filter (\<lambda>v. f v \<noteq> 0 \<and> f v \<notin> P) xs) =
      length (filter (\<lambda>v. f v \<noteq> 0 \<and> f v \<notin> insert u P) xs) + length (filter (\<lambda>v. f v = u) xs)"
    for f :: "nat \<Rightarrow> nat" and xs
    using assms by (induction xs) auto
  then show ?thesis unfolding pending_def .
qed

lemma pending_small: "graph_wf g \<Longrightarrow> c \<in> {1 .. num_ops g} \<Longrightarrow> pending g P c < 2 ^ 32"
  using wf_op [of g c]
  by (auto simp: pending_def op_ok_def PAI_GRAPH_MAX_ARITY_def intro: le_less_trans [OF length_filter_le])

text \<open>The loop invariant. \<open>ordered\<close>: every producer comes before its consumers.\<close>

definition ordered :: "pai_graph \<Rightarrow> nat list \<Rightarrow> bool" where
  "ordered g ord \<longleftrightarrow>
     (\<forall>j < length ord. \<forall>v \<in> set (inputs (op_of g (ord ! j))).
        producer (val_of g v) = 0 \<or> producer (val_of g v) \<in> set (take j ord))"

lemma ordered_snoc:
  assumes "ordered g ord"
    and "\<And>v. v \<in> set (inputs (op_of g u)) \<Longrightarrow> producer (val_of g v) = 0 \<or> producer (val_of g v) \<in> set ord"
  shows "ordered g (ord @ [u])"
  unfolding ordered_def
proof (intro allI impI ballI)
  fix j v assume j: "j < length (ord @ [u])" and v: "v \<in> set (inputs (op_of g ((ord @ [u]) ! j)))"
  show "producer (val_of g v) = 0 \<or> producer (val_of g v) \<in> set (take j (ord @ [u]))"
  proof (cases "j < length ord")
    case True
    then show ?thesis using assms(1) v by (simp add: ordered_def nth_append)
  next
    case False
    then have "j = length ord" using j by simp
    then show ?thesis using assms(2) [of v] v by simp
  qed
qed

definition topo_inv :: "pai_graph \<Rightarrow> topo \<Rightarrow> bool" where
  "topo_inv g t \<longleftrightarrow>
     length (indegree t) = num_ops g + 1 \<and> head t \<le> length (queue t) \<and>
     order t = take (head t) (queue t) \<and> distinct (queue t) \<and> set (queue t) \<subseteq> {1 .. num_ops g} \<and>
     (\<forall>c \<in> {1 .. num_ops g}. indegree t ! c = pending g (set (order t)) c) \<and>
     (\<forall>c \<in> {1 .. num_ops g}. c \<in> set (queue t) \<longleftrightarrow> indegree t ! c = 0) \<and>
     ordered g (order t)"

lemma pending_start:
  assumes "graph_wf g" "c \<in> {1 .. num_ops g}"
  shows "op_indegree g c = pending g {} c"
proof -
  have "producer (val_of g v) \<noteq> c" if "v \<in> set (inputs (op_of g c))" for v
    using wf_value [OF assms(1) wf_input [OF assms that]] wf_op [OF assms] that assms(2)
    by (auto simp: value_ok_def op_ok_def)
  then show ?thesis
    unfolding op_indegree_def pending_def by (auto intro!: arg_cong [where f = length] filter_cong)
qed

lemma topo_inv_start:
  assumes "graph_wf g"
  shows "topo_inv g (topo_start g)"
proof -
  have deg: "(0 # map (op_indegree g) [1 ..< num_ops g + 1]) ! c = pending g {} c"
    if "c \<in> {1 .. num_ops g}" for c
    using pending_start [OF assms that] that by (cases c) (simp_all del: upt_Suc)
  then show ?thesis
    unfolding topo_inv_def topo_start_def Let_def ordered_def by (simp del: nth_Cons' upt_Suc) auto
qed

lemma topo_inv_step:
  assumes wf: "graph_wf g" and inv: "topo_inv g t" and more: "head t < length (queue t)"
  shows "topo_inv g (topo_step g t) \<and> head (topo_step g t) = head t + 1"
proof -
  define u where "u = queue t ! head t"
  define cs where "cs = consumers g u"
  let ?t = "t\<lparr>head := head t + 1, order := order t @ [u]\<rparr>"
  have u: "u \<in> set (queue t)" using nth_mem [OF more] by (simp add: u_def)
  have "set (queue t) \<subseteq> {1 .. num_ops g}" using inv by (simp add: topo_inv_def)
  then have u1: "u \<in> {1 .. num_ops g}" and u0: "u \<noteq> 0" using u by auto
  have ord: "order t @ [u] = take (head t + 1) (queue t)" and ords: "set (order t @ [u]) = insert u (set (order t))"
    using inv more by (simp_all add: topo_inv_def u_def take_Suc_conv_app_nth)
  have nu: "u \<notin> set (order t)"
    using inv more ord by (metis distinct_take distinct_append list.set_intros(1) disjoint_iff topo_inv_def)
  have deg: "indegree t ! c = pending g (insert u (set (order t))) c + count_list cs c"
    if "c \<in> {1 .. num_ops g}" for c
    using inv that pending_insert [OF nu u0, of g c] count_consumers [OF wf u1 that]
    by (simp add: topo_inv_def cs_def)
  have cs: "c \<in> {1 .. num_ops g}" if "c \<in> set cs" for c
    using that consumers_set [of g u] by (auto simp: cs_def)
  obtain news where n: "queue (release_all ?t cs) = queue t @ news" "distinct news"
    "set news = {c \<in> set cs. indegree t ! c = count_list cs c}"
    "head (release_all ?t cs) = head t + 1" "order (release_all ?t cs) = order t @ [u]"
    "length (indegree (release_all ?t cs)) = length (indegree t)"
    "\<forall>c < length (indegree t). indegree (release_all ?t cs) ! c = indegree t ! c - count_list cs c"
  proof -
    have "\<And>c. c \<in> set cs \<Longrightarrow> c < length (indegree ?t)"
      using cs inv by (fastforce simp: topo_inv_def)
    moreover have "count_list cs c \<le> indegree ?t ! c \<and> indegree ?t ! c < 2 ^ 32" if "c \<in> set cs" for c
      using deg [OF cs [OF that]] pending_small [OF wf cs [OF that], of "set (order t)"] inv cs [OF that]
      by (simp add: topo_inv_def)
    ultimately show ?thesis using release_all_spec [of cs ?t] that by auto
  qed
  have step: "topo_step g t = release_all ?t cs"
    unfolding topo_step_eq Let_def cs_def u_def ..
  have deg': "indegree (release_all ?t cs) ! c = pending g (insert u (set (order t))) c"
    if "c \<in> {1 .. num_ops g}" for c
    using n(7) deg [OF that] inv that by (auto simp: topo_inv_def)
  have qin: "c \<in> set (queue t) \<longleftrightarrow> indegree t ! c = 0" if "c \<in> {1 .. num_ops g}" for c
    using inv that by (simp add: topo_inv_def)
  have cnt: "c \<in> set cs \<longleftrightarrow> count_list cs c \<noteq> 0" for c by (simp add: count_list_0_iff)
  have newq: "c \<in> set (queue t @ news) \<longleftrightarrow> pending g (insert u (set (order t))) c = 0"
    if "c \<in> {1 .. num_ops g}" for c
    using qin [OF that] deg [OF that] cnt [of c] n(3) by auto
  have "set news \<inter> set (queue t) = {}"
    using n(3) qin cs cnt by force
  then have dis: "distinct (queue t @ news)" using inv n(2) by (auto simp: topo_inv_def)
  have prod: "producer (val_of g v) = 0 \<or> producer (val_of g v) \<in> set (order t)"
    if "v \<in> set (inputs (op_of g u))" for v
  proof -
    have "pending g (set (order t)) u = 0" using inv u u1 by (simp add: topo_inv_def)
    then show ?thesis using that by (auto simp: pending_def filter_empty_conv)
  qed
  have "ordered g (order t)" using inv unfolding topo_inv_def by blast
  then have o': "ordered g (order t @ [u])" using prod by (rule ordered_snoc)
  have "order t @ [u] = take (head t + 1) (queue t @ news)" using ord more by simp
  then show ?thesis
    using inv more n(3) cs dis o' deg' newq unfolding step topo_inv_def n(1,4,5,6) ords by auto
qed

lemma topo_loop_ends:
  assumes "graph_wf g"
  obtains t where "while_option (\<lambda>t. head t < length (queue t)) (topo_step g) (topo_start g) = Some t"
    "topo_inv g t" "order t = queue t"
proof -
  have size: "length (queue t) \<le> num_ops g" if "topo_inv g t" for t
    using that card_mono [of "{1 .. num_ops g}" "set (queue t)"]
    by (simp add: topo_inv_def distinct_card)
  have "\<exists>t. while_option (\<lambda>t. head t < length (queue t)) (topo_step g) (topo_start g) = Some t"
  proof (rule measure_while_option_Some [where P = "topo_inv g" and f = "\<lambda>t. num_ops g - head t"])
    fix t assume t: "topo_inv g t" "head t < length (queue t)"
    then show "topo_inv g (topo_step g t) \<and> num_ops g - head (topo_step g t) < num_ops g - head t"
      using topo_inv_step [OF assms t] size [OF t(1)] by auto
  qed (rule topo_inv_start [OF assms])
  then obtain t where t: "while_option (\<lambda>t. head t < length (queue t)) (topo_step g) (topo_start g) = Some t" ..
  have inv: "topo_inv g t"
    using while_option_rule [where P = "topo_inv g", OF _ t topo_inv_start [OF assms]]
      topo_inv_step [OF assms] by blast
  moreover have "order t = queue t"
    using while_option_stop [OF t] inv by (simp add: topo_inv_def)
  ultimately show ?thesis using that t by blast
qed

section \<open>Correctness of the order\<close>

definition deps :: "pai_graph \<Rightarrow> (nat \<times> nat) set" where
  "deps g = {(u, c). u \<in> {1 .. num_ops g} \<and> c \<in> {1 .. num_ops g} \<and>
     (\<exists>v \<in> set (outputs (op_of g u)). v \<in> set (inputs (op_of g c)))}"

lemma epochs_edge:
  "epochs_ok g \<Longrightarrow> (u, c) \<in> deps g \<Longrightarrow> epoch (op_of g u) < epoch (op_of g c)"
  unfolding deps_def epochs_ok_def by blast

lemma epochs_acyclic:
  assumes "epochs_ok g"
  shows "acyclic (deps g)"
proof -
  have "deps g \<subseteq> measure (\<lambda>u. epoch (op_of g u))"
    using epochs_edge [OF assms] by (auto simp del: One_nat_def)
  then show ?thesis using acyclic_subset wf_acyclic wf_measure by blast
qed

text \<open>A nonempty set of ops in which each depends on another contains a cycle.\<close>

lemma stuck_cyclic:
  assumes "S \<subseteq> {1 .. num_ops g}" "S \<noteq> {}" "\<And>c. c \<in> S \<Longrightarrow> \<exists>u \<in> S. (u, c) \<in> deps g"
  shows "\<not> acyclic (deps g)"
proof
  assume "acyclic (deps g)"
  moreover have "finite (deps g)"
    by (rule finite_subset [of _ "{1 .. num_ops g} \<times> {1 .. num_ops g}"]) (auto simp: deps_def)
  ultimately have "wf (deps g)" using finite_acyclic_wf by blast
  then obtain c where "c \<in> S" "\<forall>u. (u, c) \<in> deps g \<longrightarrow> u \<notin> S"
    using assms(2) by (meson wfE_min ex_in_conv)
  then show False using assms(3) by blast
qed

lemma set_epochs_nth:
  assumes "distinct ord" "set ord \<subseteq> {1 .. length (os :: pai_graph_op list)}" "k \<le> length ord"
  shows "length (foldl (\<lambda>os i. os[ord ! i - 1 := (os ! (ord ! i - 1))\<lparr>epoch := i\<rparr>]) os [0 ..< k]) = length os \<and>
    (\<forall>u \<in> {1 .. length os}. \<exists>e. foldl (\<lambda>os i. os[ord ! i - 1 := (os ! (ord ! i - 1))\<lparr>epoch := i\<rparr>]) os [0 ..< k] ! (u - 1) =
       (os ! (u - 1))\<lparr>epoch := e\<rparr> \<and> (\<forall>i < k. ord ! i = u \<longrightarrow> e = i))"
  using assms(3)
proof (induction k)
  case 0
  have "\<exists>e. x = x\<lparr>epoch := e\<rparr>" for x :: pai_graph_op
    by (rule exI [of _ "epoch x"]) simp
  then show ?case by simp
next
  case (Suc k)
  let ?f = "\<lambda>os i. os[ord ! i - 1 := (os ! (ord ! i - 1))\<lparr>epoch := i\<rparr>]"
  let ?r = "foldl ?f os [0 ..< k]"
  have IH: "length ?r = length os" "\<forall>u \<in> {1 .. length os}. \<exists>e. ?r ! (u - 1) = (os ! (u - 1))\<lparr>epoch := e\<rparr> \<and>
      (\<forall>i < k. ord ! i = u \<longrightarrow> e = i)"
    using Suc by auto
  have k: "ord ! k \<in> {1 .. length os}" using assms(2) Suc.prems nth_mem [of k ord] by fastforce
  have "\<exists>e. foldl ?f os [0 ..< Suc k] ! (u - 1) = (os ! (u - 1))\<lparr>epoch := e\<rparr> \<and>
      (\<forall>i < Suc k. ord ! i = u \<longrightarrow> e = i)" if u: "u \<in> {1 .. length os}" for u
  proof (cases "u = ord ! k")
    case True
    have "i = k" if "i < Suc k" "ord ! i = u" for i
      using that True assms(1) Suc.prems nth_eq_iff_index_eq [of ord i k] by simp
    moreover obtain e where "?r ! (u - 1) = (os ! (u - 1))\<lparr>epoch := e\<rparr>" using IH(2) u by blast
    ultimately show ?thesis using True k IH(1) by (intro exI [of _ k]) (auto simp: id_less)
  next
    case False
    then have "u - 1 \<noteq> ord ! k - 1" using u k by auto
    then show ?thesis using IH(2) u False by (auto simp: less_Suc_eq)
  qed
  then show ?case using IH(1) by simp
qed

lemma set_epochs_spec:
  assumes "distinct ord" "set ord \<subseteq> {1 .. num_ops g}" "length ord = num_ops g"
  shows "length (set_epochs g ord) = num_ops g"
    and "u \<in> {1 .. num_ops g} \<Longrightarrow> inputs (set_epochs g ord ! (u - 1)) = inputs (op_of g u) \<and>
      outputs (set_epochs g ord ! (u - 1)) = outputs (op_of g u) \<and> kind (set_epochs g ord ! (u - 1)) = kind (op_of g u)"
    and "i < num_ops g \<Longrightarrow> epoch (set_epochs g ord ! (ord ! i - 1)) = i"
proof -
  note s = set_epochs_nth [OF assms(1,2), of "num_ops g", folded set_epochs_def, simplified assms(3), OF order_refl]
  show "length (set_epochs g ord) = num_ops g" using s by blast
  {
    assume "u \<in> {1 .. num_ops g}"
    then obtain e where "set_epochs g ord ! (u - 1) = (op_of g u)\<lparr>epoch := e\<rparr>" using s by blast
    then show "inputs (set_epochs g ord ! (u - 1)) = inputs (op_of g u) \<and>
      outputs (set_epochs g ord ! (u - 1)) = outputs (op_of g u) \<and> kind (set_epochs g ord ! (u - 1)) = kind (op_of g u)"
      by simp
  }
  assume i: "i < num_ops g"
  then have "ord ! i \<in> {1 .. num_ops g}" using assms(2,3) nth_mem [of i ord] by fastforce
  then show "epoch (set_epochs g ord ! (ord ! i - 1)) = i" using s i by fastforce
qed

text \<open>When the order covers all ops, its positions are valid epochs.\<close>

lemma full_order_epochs:
  assumes wf: "graph_wf g" and inv: "topo_inv g t" and q: "order t = queue t"
    and full: "length (order t) = num_ops g"
  shows "epochs_ok (g\<lparr>ops := set_epochs g (order t), is_sorted := True\<rparr>)" (is "epochs_ok ?g")
proof -
  let ?ord = "order t" and ?e = "\<lambda>u. epoch (op_of ?g u)"
  have d: "distinct ?ord" "set ?ord \<subseteq> {1 .. num_ops g}" "ordered g ?ord"
    using inv q unfolding topo_inv_def by auto
  note se = set_epochs_spec [OF d(1,2) full]
  have all: "set ?ord = {1 .. num_ops g}"
    by (rule card_subset_eq) (use d full in \<open>simp_all add: distinct_card\<close>)
  have pos: "\<exists>i < num_ops g. ?ord ! i = u \<and> ?e u = i" if "u \<in> {1 .. num_ops g}" for u
    using that se(3) full unfolding all [symmetric] in_set_conv_nth by auto
  have "?e u < ?e c" if u: "u \<in> {1 .. num_ops g}" and c: "c \<in> {1 .. num_ops g}"
    and v: "v \<in> set (outputs (op_of g u))" "v \<in> set (inputs (op_of g c))" for u c v
  proof -
    obtain i where i: "i < num_ops g" "?ord ! i = u" "?e u = i" using pos [OF u] by blast
    obtain j where j: "j < num_ops g" "?ord ! j = c" "?e c = j" using pos [OF c] by blast
    have pu: "producer (val_of g v) = u" "u \<noteq> 0"
      using wf_value [OF wf wf_input [OF wf c v(2)]] u v(1) by (simp_all add: value_ok_def)
    have "j < length ?ord" "v \<in> set (inputs (op_of g (?ord ! j)))" using j(1,2) full v(2) by simp_all
    then have "producer (val_of g v) = 0 \<or> producer (val_of g v) \<in> set (take j ?ord)"
      using d(3) unfolding ordered_def by blast
    then have "u \<in> set (take j ?ord)" using pu by simp
    then obtain k where "k < j" "?ord ! k = u" by (auto simp: in_set_conv_nth)
    then have "i = k" using i(1,2) d(1) j(1) full nth_eq_iff_index_eq [of ?ord i k] by simp
    then show ?thesis using \<open>k < j\<close> i j by simp
  qed
  moreover have "inj_on ?e {1 .. num_ops g}"
    by (rule inj_onI) (metis pos)
  moreover have "?e u < num_ops g" if "u \<in> {1 .. num_ops g}" for u
    using pos [OF that] by auto
  ultimately show ?thesis
    unfolding epochs_ok_def using se(1,2) by simp
qed

lemma partial_order_cyclic:
  assumes wf: "graph_wf g" and inv: "topo_inv g t" and q: "order t = queue t"
    and part: "length (order t) \<noteq> num_ops g"
  shows "\<not> acyclic (deps g)"
proof (rule stuck_cyclic)
  let ?S = "{1 .. num_ops g} - set (queue t)"
  show "?S \<subseteq> {1 .. num_ops g}" by blast
  show "?S \<noteq> {}"
  proof
    assume "?S = {}"
    then have "set (queue t) = {1 .. num_ops g}" using inv unfolding topo_inv_def by blast
    then have "length (queue t) = num_ops g" using inv distinct_card unfolding topo_inv_def by fastforce
    then show False using part q by simp
  qed
  fix c assume c: "c \<in> ?S"
  then have "pending g (set (queue t)) c \<noteq> 0" using inv q unfolding topo_inv_def by auto
  then obtain v where v: "v \<in> set (inputs (op_of g c))" "producer (val_of g v) \<noteq> 0"
      "producer (val_of g v) \<notin> set (queue t)"
    by (auto simp: pending_def filter_empty_conv)
  have cc: "c \<in> {1 .. num_ops g}" using c by blast
  have "value_ok g v" using wf_value [OF wf wf_input [OF wf cc v(1)]] .
  then have "producer (val_of g v) \<in> {1 .. num_ops g}"
    "v \<in> set (outputs (op_of g (producer (val_of g v))))"
    using v(2) unfolding value_ok_def by auto
  then show "\<exists>u \<in> ?S. (u, c) \<in> deps g"
    using v cc unfolding deps_def by blast
qed

lemma topo_sort_cases:
  assumes "graph_wf g"
  shows "\<exists>g'. (pai_graph_topo_sort g = Some (g', Inr ()) \<and> acyclic (deps g) \<and> epochs_ok g' \<and>
        is_sorted g' \<and> graph_wf g' \<and> vals g' = vals g \<and> map inputs (ops g') = map inputs (ops g) \<and>
        map outputs (ops g') = map outputs (ops g)) \<or>
      (pai_graph_topo_sort g = Some (g', Inl PAI_ERR_MISMATCH) \<and> \<not> acyclic (deps g) \<and>
        g' = g\<lparr>is_sorted := False\<rparr>)"
proof -
  obtain t where t: "while_option (\<lambda>t. head t < length (queue t)) (topo_step g) (topo_start g) = Some t"
    "topo_inv g t" "order t = queue t" using topo_loop_ends [OF assms] .
  show ?thesis
  proof (cases "length (order t) = num_ops g")
    case True
    let ?g = "g\<lparr>ops := set_epochs g (order t), is_sorted := True\<rparr>"
    have d: "distinct (order t)" "set (order t) \<subseteq> {1 .. num_ops g}"
      using t(2,3) unfolding topo_inv_def by auto
    note se = set_epochs_spec [OF d True]
    have e: "epochs_ok ?g" using full_order_epochs [OF assms t(2,3) True] .
    have same: "map inputs (ops ?g) = map inputs (ops g)" "map outputs (ops ?g) = map outputs (ops g)"
      using se(1) se(2) [of "Suc i" for i] by (auto intro!: nth_equalityI)
    have "deps ?g = deps g" unfolding deps_def using se(1,2) by auto
    then have ac: "acyclic (deps g)" using epochs_acyclic [OF e] by simp
    have "graph_wf ?g"
    proof (rule graph_wfI)
      show "op_ok ?g u" if "u \<in> {1 .. num_ops ?g}" for u
        using wf_op [OF assms, of u] that se(1) se(2) [of u] by (simp add: op_ok_def)
      show "value_ok ?g v" if "v \<in> {1 .. num_values ?g}" for v
        using wf_value [OF assms, of v] that se(1,2) by (simp add: value_ok_def)
    qed (use assms e se(1) in \<open>simp_all add: graph_wf_def\<close>)
    then show ?thesis using t(1) True e ac same by (intro exI [of _ ?g]) (simp add: pai_graph_topo_sort_def)
  next
    case False
    then show ?thesis using t(1) partial_order_cyclic [OF assms t(2,3) False]
      by (simp add: pai_graph_topo_sort_def)
  qed
qed

end
