(* ===== verification/Graph_Plan.thy ===== *)
theory Graph_Plan
  imports Graph "HOL-Library.Product_Lexorder"
begin

text \<open>
  What \<^verbatim>\<open>graph/graph.c\<close> promises to its callers: every graph built through its interface is well
  formed, \<open>pai_graph_topo_sort\<close> decides acyclicity, lifetimes are exact, and the storage the memory
  plan gives to a value is not written by another op while the value is still needed.
\<close>

section \<open>Graphs built through the interface\<close>

inductive built :: "pai_graph \<Rightarrow> bool" where
  built_init: "built pai_graph_init"
| built_value: "built g \<Longrightarrow> built (fst (pai_graph_add_value g dt sh al))"
| built_op: "built g \<Longrightarrow> built (fst (pai_graph_add_op g k ins outs))"
| built_input: "built g \<Longrightarrow> built (pai_graph_set_input g v)"
| built_output: "built g \<Longrightarrow> built (pai_graph_set_output g v)"
| built_sort: "built g \<Longrightarrow> pai_graph_topo_sort g = Some (g', r) \<Longrightarrow> built g'"

lemma init_wf: "graph_wf pai_graph_init"
  by (simp add: graph_wf_def pai_graph_init_def)

lemma unsorted_wf:
  assumes "graph_wf g"
  shows "graph_wf (g\<lparr>is_sorted := False\<rparr>)"
proof (rule graph_wfI)
  show "op_ok (g\<lparr>is_sorted := False\<rparr>) u" if "u \<in> {1 .. num_ops (g\<lparr>is_sorted := False\<rparr>)}" for u
    using wf_op [OF assms, of u] that by (simp add: op_ok_def)
  show "value_ok (g\<lparr>is_sorted := False\<rparr>) v" if "v \<in> {1 .. num_values (g\<lparr>is_sorted := False\<rparr>)}" for v
    using wf_value [OF assms, of v] that by (simp add: value_ok_def)
qed (use assms in \<open>simp_all add: graph_wf_def\<close>)

lemma built_wf: "built g \<Longrightarrow> graph_wf g"
proof (induction rule: built.induct)
  case (built_sort g g' r)
  then show ?case using topo_sort_cases [of g] unsorted_wf by auto
qed (simp_all add: init_wf add_value_wf add_op_wf set_flags_wf)

section \<open>The scan for last uses\<close>

text \<open>\<open>uses g\<close>: the (epoch, value) pairs in the order of the scan.\<close>

definition uses :: "pai_graph \<Rightarrow> (nat \<times> nat) list" where
  "uses g = concat (map (\<lambda>p. map (\<lambda>v. (epoch p, v)) (inputs p)) (ops g))"

lemma scan_uses_eq:
  "scan_uses g = foldl (\<lambda>us (e, v). note_use e us v) (replicate (num_values g) (0, False)) (uses g)"
proof -
  have "foldl (note_use e) us vs = foldl (\<lambda>us (e, v). note_use e us v) us (map (\<lambda>v. (e, v)) vs)" for e us vs
    by (induction vs arbitrary: us) simp_all
  then show ?thesis
    unfolding scan_uses_def uses_def by (simp add: foldl_concat_map)
qed

lemma foldl_note_use:
  assumes "\<forall>(e, v) \<in> set ps. 1 \<le> v \<and> v \<le> n"
  shows "let us = foldl (\<lambda>us (e, v). note_use e us v) (replicate n (0, False)) ps in
    length us = n \<and> (\<forall>i < n. (snd (us ! i) \<longleftrightarrow> (\<exists>e. (e, Suc i) \<in> set ps)) \<and>
    (\<forall>e. (e, Suc i) \<in> set ps \<longrightarrow> e \<le> fst (us ! i)) \<and>
    (if snd (us ! i) then (fst (us ! i), Suc i) \<in> set ps else fst (us ! i) = 0))"
  using assms(1) unfolding Let_def
proof (induction ps rule: rev_induct)
  case (snoc x ps)
  obtain e v where x: "x = (e, v)" by (cases x)
  define us where "us = foldl (\<lambda>us (e, v). note_use e us v) (replicate n (0, False)) ps"
  have v: "1 \<le> v" "v \<le> n" using snoc.prems x by auto
  have IH: "length us = n" "\<And>i. i < n \<Longrightarrow> (snd (us ! i) \<longleftrightarrow> (\<exists>e. (e, Suc i) \<in> set ps)) \<and>
    (\<forall>e. (e, Suc i) \<in> set ps \<longrightarrow> e \<le> fst (us ! i)) \<and>
    (if snd (us ! i) then (fst (us ! i), Suc i) \<in> set ps else fst (us ! i) = 0)"
    using snoc.IH snoc.prems by (simp_all add: us_def)
  have step: "foldl (\<lambda>us (e, v). note_use e us v) (replicate n (0, False)) (ps @ [x]) = note_use e us v"
    by (simp add: x us_def)
  show ?case unfolding step
  proof (intro conjI allI impI)
    fix i assume i: "i < n"
    show "snd (note_use e us v ! i) \<longleftrightarrow> (\<exists>e. (e, Suc i) \<in> set (ps @ [x]))"
      using IH i v by (cases "i = v - 1") (auto simp: note_use_def x)
    show "d \<le> fst (note_use e us v ! i)" if "(d, Suc i) \<in> set (ps @ [x])" for d
    proof (cases "i = v - 1")
      case True
      have "d \<le> fst (us ! i) \<or> d = e" using that IH(2) [OF i] x by auto
      then show ?thesis using True IH(1) i by (auto simp: note_use_def)
    next
      case False
      then show ?thesis using that IH(2) [OF i] x v by (auto simp: note_use_def)
    qed
    show "if snd (note_use e us v ! i) then (fst (note_use e us v ! i), Suc i) \<in> set (ps @ [x])
        else fst (note_use e us v ! i) = 0"
      using IH(1) IH(2) [OF i] i v
      by (cases "i = v - 1") (auto simp: note_use_def x split: if_splits)
  qed (simp add: note_use_def IH(1))
qed simp

lemma uses_iff:
  "(e, v) \<in> set (uses g) \<longleftrightarrow> (\<exists>u \<in> {1 .. num_ops g}. v \<in> set (inputs (op_of g u)) \<and> epoch (op_of g u) = e)"
proof -
  have "(e, v) \<in> set (uses g) \<longleftrightarrow> (\<exists>p \<in> set (ops g). v \<in> set (inputs p) \<and> epoch p = e)"
    unfolding uses_def by auto
  also have "set (ops g) = (\<lambda>u. op_of g u) ` {1 .. num_ops g}"
  proof -
    have "p \<in> (\<lambda>u. op_of g u) ` {1 .. num_ops g}" if "p \<in> set (ops g)" for p
    proof -
      obtain i where "i < num_ops g" "p = ops g ! i" using \<open>p \<in> set (ops g)\<close> by (auto simp: in_set_conv_nth)
      then show ?thesis by (intro image_eqI [of _ _ "Suc i"]) auto
    qed
    then show ?thesis using id_less by fastforce
  qed
  finally show ?thesis by blast
qed

definition users :: "pai_graph \<Rightarrow> nat \<Rightarrow> nat set" where
  "users g v = {u \<in> {1 .. num_ops g}. v \<in> set (inputs (op_of g u))}"

lemma finite_users [simp]: "finite (users g v)"
  by (simp add: users_def)

lemma scan_uses_spec:
  assumes wf: "graph_wf g" and v: "v \<in> {1 .. num_values g}"
  shows "snd (scan_uses g ! (v - 1)) \<longleftrightarrow> users g v \<noteq> {}"
    and "u \<in> users g v \<Longrightarrow> epoch (op_of g u) \<le> fst (scan_uses g ! (v - 1))"
    and "users g v \<noteq> {} \<Longrightarrow> \<exists>u \<in> users g v. epoch (op_of g u) = fst (scan_uses g ! (v - 1))"
proof -
  have r: "\<forall>(e, w) \<in> set (uses g). 1 \<le> w \<and> w \<le> num_values g"
  proof (clarify)
    fix e w assume "(e, w) \<in> set (uses g)"
    then obtain u where "u \<in> {1 .. num_ops g}" "w \<in> set (inputs (op_of g u))" unfolding uses_iff by blast
    then show "1 \<le> w \<and> w \<le> num_values g" using wf_input [OF wf] by fastforce
  qed
  have i: "v - 1 < num_values g" "Suc (v - 1) = v" using v by auto
  note s = foldl_note_use [OF r, folded scan_uses_eq, unfolded Let_def, THEN conjunct2, rule_format, OF i(1), unfolded i(2)]
  have us: "(\<exists>e. (e, v) \<in> set (uses g)) \<longleftrightarrow> users g v \<noteq> {}" unfolding uses_iff users_def by blast
  then show snd: "snd (scan_uses g ! (v - 1)) \<longleftrightarrow> users g v \<noteq> {}" using s by blast
  show "epoch (op_of g u) \<le> fst (scan_uses g ! (v - 1))" if "u \<in> users g v"
    using s that uses_iff [of "epoch (op_of g u)" v g] unfolding users_def by blast
  show "\<exists>u \<in> users g v. epoch (op_of g u) = fst (scan_uses g ! (v - 1))" if "users g v \<noteq> {}"
  proof -
    have "(fst (scan_uses g ! (v - 1)), v) \<in> set (uses g)" using s snd that by presburger
    then show ?thesis unfolding uses_iff users_def by blast
  qed
qed

lemma last_use_Max:
  assumes "graph_wf g" "v \<in> {1 .. num_values g}" "users g v \<noteq> {}"
  shows "fst (scan_uses g ! (v - 1)) = Max ((\<lambda>u. epoch (op_of g u)) ` users g v)"
proof (rule Max_eqI [symmetric])
  show "fst (scan_uses g ! (v - 1)) \<in> (\<lambda>u. epoch (op_of g u)) ` users g v"
    using scan_uses_spec(3) [OF assms] by force
qed (use scan_uses_spec(2) [OF assms(1,2)] in auto)

section \<open>Lifetimes\<close>

text \<open>The lifetime of a value: from its producer's epoch (0 without one) to just after its last
  consumer, the end of the execution for outputs, one step when nobody consumes it.\<close>

definition spec_start :: "pai_graph \<Rightarrow> nat \<Rightarrow> nat" where
  "spec_start g v = (if producer (val_of g v) = 0 then 0 else epoch (op_of g (producer (val_of g v))))"

definition spec_end :: "pai_graph \<Rightarrow> bool \<Rightarrow> nat \<Rightarrow> nat" where
  "spec_end g persistent v =
     (if is_output (val_of g v) \<or> persistent \<and> producer (val_of g v) = 0 then num_ops g
      else if users g v \<noteq> {} then Suc (Max ((\<lambda>u. epoch (op_of g u)) ` users g v))
      else Suc (spec_start g v))"

lemma spec_start_output:
  assumes "graph_wf g" "u \<in> {1 .. num_ops g}" "v \<in> set (outputs (op_of g u))"
  shows "spec_start g v = epoch (op_of g u)"
proof -
  have "producer (val_of g v) = u"
    using wf_value [OF assms(1) wf_output [OF assms]] assms(2,3) unfolding value_ok_def by blast
  then show ?thesis using assms(2) by (simp add: spec_start_def)
qed

lemma lifetime_spec:
  assumes "graph_wf g" "v \<in> {1 .. num_values g}"
  shows "lifetime g (scan_uses g) v = (spec_start g v, spec_end g False v)"
  using scan_uses_spec(1) [OF assms] last_use_Max [OF assms]
  by (cases "users g v = {}") (simp_all add: lifetime_def spec_start_def spec_end_def Let_def)

lemma persistent_spec:
  assumes "graph_wf g" "v \<in> {1 .. num_values g}"
  shows "(let l = lifetime g (scan_uses g) v in if producer (val_of g v) = 0 then (fst l, num_ops g) else l) =
    (spec_start g v, spec_end g True v)"
  by (simp add: lifetime_spec [OF assms] spec_start_def spec_end_def Let_def)

definition sorted_graph :: "pai_graph \<Rightarrow> (pai_graph \<times> unit res) option" where
  "sorted_graph g = (if is_sorted g then Some (g, Inr ()) else pai_graph_topo_sort g)"

lemma lifetimes_exact:
  assumes "graph_wf g" "sorted_graph g = Some (g', Inr ())" "graph_wf g'"
  shows "pai_graph_value_lifetimes g =
      Some (g', Inr (map (\<lambda>v. (spec_start g' v, spec_end g' False v)) [1 ..< num_values g' + 1]))"
    and "pai_graph_value_lifetimes_persistent g =
      Some (g', Inr (map (\<lambda>v. (spec_start g' v, spec_end g' True v)) [1 ..< num_values g' + 1]))"
proof -
  have l: "pai_graph_value_lifetimes g =
      Some (g', Inr (map (lifetime g' (scan_uses g')) [1 ..< num_values g' + 1]))"
    using assms(2) by (simp add: pai_graph_value_lifetimes_def sorted_graph_def del: upt_Suc)
  also have "map (lifetime g' (scan_uses g')) [1 ..< num_values g' + 1] =
      map (\<lambda>v. (spec_start g' v, spec_end g' False v)) [1 ..< num_values g' + 1]"
    using lifetime_spec [OF assms(3)] by (intro map_cong) auto
  finally show "pai_graph_value_lifetimes g =
      Some (g', Inr (map (\<lambda>v. (spec_start g' v, spec_end g' False v)) [1 ..< num_values g' + 1]))" .
  have nth: "map (lifetime g' (scan_uses g')) [1 ..< num_values g' + 1] ! (v - 1) = lifetime g' (scan_uses g') v"
    if "v \<in> {1 .. num_values g'}" for v
    using that by (auto simp del: upt_Suc)
  show "pai_graph_value_lifetimes_persistent g =
      Some (g', Inr (map (\<lambda>v. (spec_start g' v, spec_end g' True v)) [1 ..< num_values g' + 1]))"
    unfolding pai_graph_value_lifetimes_persistent_def l option.case prod.case sum.case
    using nth persistent_spec [OF assms(3)]
    by (intro arg_cong [where f = "\<lambda>ls. Some (g', Inr ls)"] map_cong refl) (simp del: upt_Suc)
qed

lemma spec_start_end:
  assumes wf: "graph_wf g" and ep: "epochs_ok g" and v: "v \<in> {1 .. num_values g}" and n: "0 < num_ops g"
  shows "spec_start g v < spec_end g p v"
proof -
  have vo: "value_ok g v" using wf_value [OF wf v] .
  have st: "spec_start g v < num_ops g"
    using vo ep n by (auto simp: spec_start_def epochs_ok_def value_ok_def)
  have "spec_start g v \<le> epoch (op_of g u)" if "u \<in> users g v" for u
  proof (cases "producer (val_of g v) = 0")
    case False
    then have "(producer (val_of g v), u) \<in> deps g"
      using that vo unfolding deps_def value_ok_def users_def by auto
    then show ?thesis using epochs_edge [OF ep] False by (simp add: spec_start_def less_imp_le)
  qed (simp add: spec_start_def)
  moreover have "Max ((\<lambda>u. epoch (op_of g u)) ` users g v) \<in> (\<lambda>u. epoch (op_of g u)) ` users g v"
    if "users g v \<noteq> {}" using that by (intro Max_in) auto
  ultimately have "spec_start g v \<le> Max ((\<lambda>u. epoch (op_of g u)) ` users g v)" if "users g v \<noteq> {}"
    using that by fastforce
  then show ?thesis using st by (cases "users g v = {}") (simp_all add: spec_end_def)
qed

text \<open>The bytes of \<open>v\<close> must survive op \<open>u\<close>: it exists by then and is an output, another output of
  \<open>u\<close>, or consumed by \<open>u\<close> or later.\<close>

definition survives :: "pai_graph \<Rightarrow> bool \<Rightarrow> nat \<Rightarrow> nat \<Rightarrow> bool" where
  "survives g persistent u v \<longleftrightarrow>
     (producer (val_of g v) = 0 \<or> epoch (op_of g (producer (val_of g v))) \<le> epoch (op_of g u)) \<and>
     (is_output (val_of g v) \<or> persistent \<and> producer (val_of g v) = 0 \<or> v \<in> set (outputs (op_of g u)) \<or>
      (\<exists>c \<in> users g v. epoch (op_of g u) \<le> epoch (op_of g c)))"

lemma survives_in_lifetime:
  assumes wf: "graph_wf g" and ep: "epochs_ok g" and v: "v \<in> {1 .. num_values g}"
    and u: "u \<in> {1 .. num_ops g}" and s: "survives g p u v"
  shows "spec_start g v \<le> epoch (op_of g u) \<and> epoch (op_of g u) < spec_end g p v"
proof
  show "spec_start g v \<le> epoch (op_of g u)" using s by (auto simp: survives_def spec_start_def)
  have lt: "epoch (op_of g u) < num_ops g" using ep u by (simp add: epochs_ok_def)
  consider (keep) "is_output (val_of g v) \<or> p \<and> producer (val_of g v) = 0"
    | (out) "v \<in> set (outputs (op_of g u))" | (used) c where "c \<in> users g v" "epoch (op_of g u) \<le> epoch (op_of g c)"
    using s unfolding survives_def by blast
  then show "epoch (op_of g u) < spec_end g p v"
  proof cases
    case keep
    then show ?thesis using lt by (simp add: spec_end_def)
  next
    case out
    have "0 < num_ops g" using lt by linarith
    then show ?thesis using spec_start_end [OF wf ep v, of p] spec_start_output [OF wf u out] by simp
  next
    case (used c)
    have "epoch (op_of g c) \<le> Max ((\<lambda>u. epoch (op_of g u)) ` users g v)"
      using used(1) by (intro Max_ge) auto
    moreover have "users g v \<noteq> {}" using used(1) by blast
    ultimately show ?thesis using lt used(2) by (simp add: spec_end_def)
  qed
qed

section \<open>The memory plan\<close>

definition planned :: "pai_graph_value \<times> nat \<times> nat \<Rightarrow> pai_mem_alloc" where
  "planned x = (case x of (value, st, en) \<Rightarrow>
     \<lparr>size = unat (vsize value), align = unat (valign value), start = st, fin = en, pinned = 0\<rparr>)"

lemma add_values_ok:
  assumes "\<forall>x \<in> set xs. vsize (fst x) \<noteq> 0 \<and> pai_mem_is_pow2 (valign (fst x)) \<and> fst (snd x) < snd (snd x) \<and>
      unat (vsize (fst x)) + unat (valign (fst x)) < 2 ^ 64"
    and "length (allocs p) + length xs \<le> PAI_MEM_PLANNER_MAX_ALLOCS"
  shows "add_values p xs = Inr (p\<lparr>allocs := allocs p @ map planned xs\<rparr>)"
  using assms
proof (induction xs arbitrary: p)
  case (Cons x xs)
  obtain va st en where x: "x = (va, st, en)" by (cases x)
  have "pai_mem_planner_add p (unat (vsize va)) (unat (valign va)) st en =
      Inr (p\<lparr>allocs := allocs p @ [planned x]\<rparr>)"
    using Cons.prems by (auto simp: x pai_mem_planner_add_def planner_add_common_def planned_def unat_eq_0
        pai_mem_is_pow2_def)
  moreover have "add_values (p\<lparr>allocs := allocs p @ [planned x]\<rparr>) xs =
      Inr (p\<lparr>allocs := (allocs p @ [planned x]) @ map planned xs\<rparr>)"
    using Cons.IH [of "p\<lparr>allocs := allocs p @ [planned x]\<rparr>"] Cons.prems by simp
  ultimately show ?case by (simp add: x)
qed simp

definition graph_bytes :: "pai_graph \<Rightarrow> nat" where
  "graph_bytes g = (\<Sum>x \<leftarrow> vals g. unat (vsize x) + unat (valign x)) + 1"

text \<open>\<open>qsort_ok\<close>: what the C standard promises of \<open>qsort\<close>.\<close>

definition qsort_ok :: "(sort_entry list \<Rightarrow> sort_entry list) \<Rightarrow> bool" where
  "qsort_ok qs \<longleftrightarrow> (\<forall>xs. qsort_result alloc_cmp xs (qs xs))"

lemma member_le_sum: "(x :: 'a) \<in> set xs \<Longrightarrow> (f x :: nat) \<le> (\<Sum>x \<leftarrow> xs. f x)"
  by (induction xs) auto

lemma sorted_plan:
  fixes p :: bool
  assumes wf: "graph_wf g" and ep: "epochs_ok g" and n: "0 < num_ops g" and b: "graph_bytes g < 2 ^ 64"
    and q: "qsort_ok qs"
  defines "xs \<equiv> zip (vals g) (map (\<lambda>v. (spec_start g v, spec_end g p v)) [1 ..< num_values g + 1])"
  shows "\<exists>pl plan. add_values pai_mem_planner_init xs = Inr pl \<and>
      pai_mem_plan_build True pl (qs (sort_input pl)) = Inr plan \<and>
      (\<forall>v \<in> {1 .. num_values g}. unat (valign (val_of g v)) dvd offsets plan ! (v - 1) \<and>
         offsets plan ! (v - 1) + unat (vsize (val_of g v)) \<le> region_bytes plan) \<and>
      (\<forall>v \<in> {1 .. num_values g}. \<forall>w \<in> {1 .. num_values g}. v \<noteq> w \<longrightarrow>
         spec_start g v < spec_end g p w \<longrightarrow> spec_start g w < spec_end g p v \<longrightarrow>
         apart (offsets plan ! (v - 1)) (unat (vsize (val_of g v)))
           (offsets plan ! (w - 1)) (unat (vsize (val_of g w))))"
proof -
  have lx: "length xs = num_values g" by (simp add: xs_def del: upt_Suc)
  have nth: "xs ! (v - 1) = (val_of g v, spec_start g v, spec_end g p v)" if "v \<in> {1 .. num_values g}" for v
    using that by (auto simp: xs_def simp del: upt_Suc)
  have mem: "\<exists>v \<in> {1 .. num_values g}. x = (val_of g v, spec_start g v, spec_end g p v)" if x: "x \<in> set xs" for x
  proof -
    obtain i where "i < num_values g" "x = xs ! i"
      using x unfolding in_set_conv_nth lx by blast
    then show ?thesis using nth [of "Suc i"] by (intro bexI [of _ "Suc i"]) auto
  qed
  have small: "unat (vsize (val_of g v)) + unat (valign (val_of g v)) < 2 ^ 64" if "v \<in> {1 .. num_values g}" for v
    using member_le_sum [of "val_of g v" "vals g" "\<lambda>x. unat (vsize x) + unat (valign x)"] b id_less [OF that]
    by (simp add: graph_bytes_def)
  define pl where "pl = pai_mem_planner_init\<lparr>allocs := map planned xs\<rparr>"
  have add: "add_values pai_mem_planner_init xs = Inr pl"
  proof -
    have "\<forall>x \<in> set xs. vsize (fst x) \<noteq> 0 \<and> pai_mem_is_pow2 (valign (fst x)) \<and> fst (snd x) < snd (snd x) \<and>
        unat (vsize (fst x)) + unat (valign (fst x)) < 2 ^ 64"
    proof
      fix x assume "x \<in> set xs"
      then obtain v where v: "v \<in> {1 .. num_values g}" "x = (val_of g v, spec_start g v, spec_end g p v)"
        using mem by blast
      then show "vsize (fst x) \<noteq> 0 \<and> pai_mem_is_pow2 (valign (fst x)) \<and> fst (snd x) < snd (snd x) \<and>
          unat (vsize (fst x)) + unat (valign (fst x)) < 2 ^ 64"
        using wf_value [OF wf v(1)] small [OF v(1)] spec_start_end [OF wf ep v(1) n, of p]
        by (simp add: value_ok_def)
    qed
    moreover have "num_values g \<le> 1024" using wf by (simp add: graph_wf_def PAI_GRAPH_MAX_VALUES_def)
    ultimately show ?thesis
      using add_values_ok [of xs pai_mem_planner_init]
      by (simp add: pl_def lx pai_mem_planner_init_def PAI_MEM_PLANNER_MAX_ALLOCS_def)
  qed
  have al: "allocs pl ! (v - 1) = \<lparr>size = unat (vsize (val_of g v)), align = unat (valign (val_of g v)),
      start = spec_start g v, fin = spec_end g p v, pinned = 0\<rparr>" if "v \<in> {1 .. num_values g}" for v
    using nth [OF that] lx id_less [OF that] by (simp add: pl_def planned_def)
  have len: "length (allocs pl) = num_values g" by (simp add: pl_def lx)
  have "planner_ok pl"
  proof -
    have "alloc_ok a" if a: "a \<in> set (allocs pl)" for a
    proof -
      obtain x where x: "x \<in> set xs" "a = planned x" using a by (auto simp: pl_def)
      obtain v where v: "v \<in> {1 .. num_values g}" "a = planned (val_of g v, spec_start g v, spec_end g p v)"
        using mem [OF x(1)] x(2) by blast
      then show ?thesis
        using wf_value [OF wf v(1)] spec_start_end [OF wf ep v(1) n, of p]
        by (auto simp: alloc_ok_def planned_def value_ok_def unat_gt_0 pai_mem_is_pow2_def)
    qed
    then show ?thesis
      using wf by (simp add: planner_ok_def len graph_wf_def PAI_GRAPH_MAX_VALUES_def
          PAI_MEM_PLANNER_MAX_ALLOCS_def) (simp add: pl_def pai_mem_planner_init_def)
  qed
  moreover have "planner_total pl < 2 ^ 64"
  proof -
    have "map (\<lambda>a. size a + align a) (allocs pl) = map (\<lambda>x. unat (vsize x) + unat (valign x)) (map fst xs)"
      by (auto simp: pl_def planned_def)
    also have "map fst xs = vals g" by (simp add: xs_def del: upt_Suc)
    finally show ?thesis using b
      by (simp add: planner_total_def graph_bytes_def pl_def pai_mem_planner_init_def)
  qed
  moreover have "qsort_result alloc_cmp (sort_input pl) (qs (sort_input pl))" using q by (simp add: qsort_ok_def)
  ultimately obtain plan where plan: "pai_mem_plan_build True pl (qs (sort_input pl)) = Inr plan"
    "\<forall>i < num_values g. align (allocs pl ! i) dvd offsets plan ! i \<and>
       offsets plan ! i + size (allocs pl ! i) \<le> region_bytes plan"
    "\<forall>i < num_values g. \<forall>j < num_values g. i \<noteq> j \<longrightarrow> must_differ (allocs pl ! i) (allocs pl ! j) \<longrightarrow>
       apart (offsets plan ! i) (size (allocs pl ! i)) (offsets plan ! j) (size (allocs pl ! j))"
    using plan_build_sound [of pl "qs (sort_input pl)"] unfolding len by blast
  have "unat (valign (val_of g v)) dvd offsets plan ! (v - 1) \<and>
      offsets plan ! (v - 1) + unat (vsize (val_of g v)) \<le> region_bytes plan" if "v \<in> {1 .. num_values g}" for v
    using plan(2) [rule_format, OF id_less [OF that]] al [OF that] by simp
  moreover have "apart (offsets plan ! (v - 1)) (unat (vsize (val_of g v)))
      (offsets plan ! (w - 1)) (unat (vsize (val_of g w)))"
    if v: "v \<in> {1 .. num_values g}" and w: "w \<in> {1 .. num_values g}" and "v \<noteq> w"
      "spec_start g v < spec_end g p w" "spec_start g w < spec_end g p v" for v w
    using plan(3) [rule_format, OF id_less [OF v] id_less [OF w]] al [OF v] al [OF w] that
    by (auto simp: must_differ_def overlap_def)
  ultimately show ?thesis using add plan(1) by blast
qed

lemma sorted_graph_ok:
  assumes "graph_wf g" "acyclic (deps g)"
  obtains g' where "sorted_graph g = Some (g', Inr ())" "graph_wf g'" "epochs_ok g'" "is_sorted g'"
    "vals g' = vals g" "map inputs (ops g') = map inputs (ops g)" "map outputs (ops g') = map outputs (ops g)"
proof (cases "is_sorted g")
  case True
  then show ?thesis using that [of g] assms(1) by (simp add: sorted_graph_def graph_wf_def)
next
  case False
  then show ?thesis using that topo_sort_cases [OF assms(1)] assms(2) unfolding sorted_graph_def by auto
qed

lemma deps_same:
  assumes "map inputs (ops h) = map inputs (ops g)" "map outputs (ops h) = map outputs (ops g)"
  shows "deps h = deps g"
proof -
  have n: "num_ops h = num_ops g" using assms(1) by (metis length_map)
  have "inputs (op_of h u) = inputs (op_of g u) \<and> outputs (op_of h u) = outputs (op_of g u)"
    if "u \<in> {1 .. num_ops g}" for u
    using id_less [OF that] n assms by (metis nth_map)
  then show ?thesis unfolding deps_def n by (auto simp del: One_nat_def)
qed

lemma memory_plan_facts:
  assumes "built g" and "acyclic (deps g)" and "0 < num_ops g" and "graph_bytes g < 2 ^ 64" and "qsort_ok qs"
  shows "\<exists>g' plan. graph_memory_plan_impl True qs g persistent = Some (g', Inr plan) \<and>
    graph_wf g' \<and> is_sorted g' \<and> num_ops g' = num_ops g \<and> epochs_ok g' \<and> vals g' = vals g \<and>
    (\<forall>v \<in> {1 .. num_values g'}.
       unat (valign (val_of g' v)) dvd pai_graph_mem_plan_offset plan v \<and>
       pai_graph_mem_plan_offset plan v + unat (vsize (val_of g' v)) \<le> vregion_bytes plan) \<and>
    (\<forall>u \<in> {1 .. num_ops g'}. \<forall>w \<in> set (outputs (op_of g' u)). \<forall>v \<in> {1 .. num_values g'}.
       v \<noteq> w \<longrightarrow> survives g' persistent u v \<longrightarrow>
       apart (pai_graph_mem_plan_offset plan v) (unat (vsize (val_of g' v)))
         (pai_graph_mem_plan_offset plan w) (unat (vsize (val_of g' w)))) \<and>
    (\<forall>v \<in> {1 .. num_values g'}. \<forall>w \<in> {1 .. num_values g'}.
       v \<noteq> w \<longrightarrow> producer (val_of g' v) = 0 \<longrightarrow> producer (val_of g' w) = 0 \<longrightarrow>
       apart (pai_graph_mem_plan_offset plan v) (unat (vsize (val_of g' v)))
         (pai_graph_mem_plan_offset plan w) (unat (vsize (val_of g' w))))"
proof -
  have wf: "graph_wf g" using built_wf [OF assms(1)] .
  obtain g' where g': "sorted_graph g = Some (g', Inr ())" "graph_wf g'" "epochs_ok g'" "is_sorted g'"
    "vals g' = vals g" "map inputs (ops g') = map inputs (ops g)"
    using sorted_graph_ok [OF wf assms(2)] by metis
  have nops: "num_ops g' = num_ops g" using g'(6) by (metis length_map)
  then have n: "0 < num_ops g'" using assms(3) by simp
  have b: "graph_bytes g' < 2 ^ 64" using assms(4) g'(5) by (simp add: graph_bytes_def)
  obtain pl plan where p: "add_values pai_mem_planner_init (zip (vals g')
        (map (\<lambda>v. (spec_start g' v, spec_end g' persistent v)) [1 ..< num_values g' + 1])) = Inr pl"
    "pai_mem_plan_build True pl (qs (sort_input pl)) = Inr plan"
    "\<forall>v \<in> {1 .. num_values g'}. unat (valign (val_of g' v)) dvd offsets plan ! (v - 1) \<and>
       offsets plan ! (v - 1) + unat (vsize (val_of g' v)) \<le> region_bytes plan"
    "\<forall>v \<in> {1 .. num_values g'}. \<forall>w \<in> {1 .. num_values g'}. v \<noteq> w \<longrightarrow>
       spec_start g' v < spec_end g' persistent w \<longrightarrow> spec_start g' w < spec_end g' persistent v \<longrightarrow>
       apart (offsets plan ! (v - 1)) (unat (vsize (val_of g' v)))
         (offsets plan ! (w - 1)) (unat (vsize (val_of g' w)))"
    using sorted_plan [OF g'(2,3) n b assms(5), of persistent] by blast
  have sg: "sorted_graph g' = Some (g', Inr ())" using g'(4) by (simp add: sorted_graph_def)
  note l = lifetimes_exact [OF g'(2) sg g'(2)]
  let ?plan = "\<lparr>base = pai_mem_plan_free plan,
      voffsets = map (\<lambda>v. offsets plan ! (v - 1)) [1 ..< num_values g' + 1],
      vregion_bytes = region_bytes plan, vnaive_bytes = naive_bytes plan, vpeak_live = peak_live plan\<rparr>"
  have run: "graph_memory_plan_impl True qs g persistent = Some (g', Inr ?plan)"
    using g'(1) l p(1,2) unfolding graph_memory_plan_impl_def sorted_graph_def
    by (cases persistent) (simp_all del: upt_Suc)
  have off: "pai_graph_mem_plan_offset ?plan v = offsets plan ! (v - 1)" if "v \<in> {1 .. num_values g'}" for v
    using that g'(2) by (auto simp: pai_graph_mem_plan_offset_def graph_wf_def simp del: upt_Suc)
  have sep: "apart (offsets plan ! (v - 1)) (unat (vsize (val_of g' v)))
      (offsets plan ! (w - 1)) (unat (vsize (val_of g' w)))"
    if u: "u \<in> {1 .. num_ops g'}" and w: "w \<in> set (outputs (op_of g' u))" and v: "v \<in> {1 .. num_values g'}"
      and "v \<noteq> w" "survives g' persistent u v" for u v w
  proof -
    have wi: "w \<in> {1 .. num_values g'}" using wf_output [OF g'(2) u w] .
    have "spec_start g' w = epoch (op_of g' u)" using spec_start_output [OF g'(2) u w] .
    then show ?thesis
      using survives_in_lifetime [OF g'(2,3) v u that(5)] spec_start_end [OF g'(2,3) wi n, of persistent]
        p(4) v wi \<open>v \<noteq> w\<close> by auto
  qed
  have init: "apart (offsets plan ! (v - 1)) (unat (vsize (val_of g' v)))
      (offsets plan ! (w - 1)) (unat (vsize (val_of g' w)))"
    if "v \<in> {1 .. num_values g'}" "w \<in> {1 .. num_values g'}" "v \<noteq> w"
      "producer (val_of g' v) = 0" "producer (val_of g' w) = 0" for v w
    using that p(4) spec_start_end [OF g'(2,3) that(1) n, of persistent]
      spec_start_end [OF g'(2,3) that(2) n, of persistent] by (simp add: spec_start_def)
  show ?thesis
    using run g'(2-5) nops off p(3) sep init wf_output [OF g'(2)]
    by (intro exI [of _ g'] exI [of _ ?plan]) simp
qed

section \<open>Properties\<close>

text \<open>C17. On every graph built through the interface the queue loop of \<open>pai_graph_topo_sort\<close> ends; it
  reports success exactly when the dependencies of the ops have no cycle, with epochs that number
  the ops from 0 and increase along every dependency, and \<open>PAI_ERR_MISMATCH\<close> otherwise.\<close>

theorem topo_sort_correct:
  assumes "built g"
  shows "\<exists>g' r. pai_graph_topo_sort g = Some (g', r) \<and> r = (if acyclic (deps g) then Inr () else Inl PAI_ERR_MISMATCH) \<and>
    vals g' = vals g \<and> (acyclic (deps g) \<longrightarrow> epochs_ok g' \<and> deps g' = deps g)"
proof -
  obtain g' where g': "(pai_graph_topo_sort g = Some (g', Inr ()) \<and> acyclic (deps g) \<and> epochs_ok g' \<and>
        is_sorted g' \<and> graph_wf g' \<and> vals g' = vals g \<and> map inputs (ops g') = map inputs (ops g) \<and>
        map outputs (ops g') = map outputs (ops g)) \<or>
      (pai_graph_topo_sort g = Some (g', Inl PAI_ERR_MISMATCH) \<and> \<not> acyclic (deps g) \<and>
        g' = g\<lparr>is_sorted := False\<rparr>)"
    using topo_sort_cases [OF built_wf [OF assms]] by blast
  then show ?thesis using deps_same [of g' g] by (intro exI [of _ g']) auto
qed

definition demo_graph :: pai_graph where
  "demo_graph =
     fst (pai_graph_add_op (fst (pai_graph_add_value (fst (pai_graph_add_value pai_graph_init
       PAI_DTYPE_F32 [4] 0)) PAI_DTYPE_F32 [4] 64)) 6 [1] [2])"

lemma demo_built: "built demo_graph"
  unfolding demo_graph_def by (intro built.intros)

lemma demo_graph_eq:
  "demo_graph =
     \<lparr>vals = [\<lparr>vdtype = PAI_DTYPE_F32, vshape = [4], vsize = 16, valign = 16, producer = 0,
                 is_input = False, is_output = False\<rparr>,
              \<lparr>vdtype = PAI_DTYPE_F32, vshape = [4], vsize = 16, valign = 64, producer = 1,
                 is_input = False, is_output = False\<rparr>],
      ops = [\<lparr>kind = 6, inputs = [1], outputs = [2], epoch = 0\<rparr>], is_sorted = False\<rparr>"
  by (simp add: demo_graph_def pai_graph_add_op_def pai_graph_add_value_def pai_graph_init_def
      pai_tensor_contiguous_size_def PAI_TENSOR_MAX_RANK_def pai_dtype_size_def
      PAI_GRAPH_MAX_VALUES_def PAI_GRAPH_MAX_OPS_def PAI_GRAPH_MAX_ARITY_def op_inputs_ok_def
      set_producer_def)

lemma demo_acyclic: "acyclic (deps demo_graph)"
proof -
  have "deps demo_graph = {}" by (auto simp: deps_def demo_graph_eq)
  then show ?thesis by (simp add: acyclic_def)
qed

theorem topo_sort_correct_witness:
  "\<exists>g' r. pai_graph_topo_sort demo_graph = Some (g', r) \<and> r = Inr () \<and> epochs_ok g'"
  using topo_sort_correct [OF demo_built] demo_acyclic by auto

text \<open>C26. The lifetimes are exact: with \<open>PAI_OK\<close>, value \<open>v\<close> starts at its producer's epoch (0 without a
  producer) and ends one past the largest epoch of its consumers, at the number of ops when it is an
  output (or, in the persistent variant, has no producer), one past its start when never consumed.\<close>

theorem value_lifetimes_exact:
  assumes "built g" and "acyclic (deps g)"
  shows "\<exists>g'. epochs_ok g' \<and> vals g' = vals g \<and>
    pai_graph_value_lifetimes g =
      Some (g', Inr (map (\<lambda>v. (spec_start g' v, spec_end g' False v)) [1 ..< num_values g' + 1])) \<and>
    pai_graph_value_lifetimes_persistent g =
      Some (g', Inr (map (\<lambda>v. (spec_start g' v, spec_end g' True v)) [1 ..< num_values g' + 1]))"
proof -
  have wf: "graph_wf g" using built_wf [OF assms(1)] .
  obtain g' where "sorted_graph g = Some (g', Inr ())" "graph_wf g'" "epochs_ok g'" "vals g' = vals g"
    using sorted_graph_ok [OF wf assms(2)] by metis
  then show ?thesis using lifetimes_exact [OF wf] by blast
qed

theorem value_lifetimes_exact_witness:
  "\<exists>g'. epochs_ok g' \<and> pai_graph_value_lifetimes demo_graph =
      Some (g', Inr (map (\<lambda>v. (spec_start g' v, spec_end g' False v)) [1 ..< num_values g' + 1]))"
  using value_lifetimes_exact [OF demo_built demo_acyclic] by blast

text \<open>C2. Storage reuse is safe: for an acyclic graph with at least one op whose sizes and alignments
  add up to less than \<open>2 ^ 64\<close>, the memory plan is built; every value is aligned and inside the
  region; an op writes its outputs only to bytes that no other value needs from then on; and
  values without a producer never share bytes at the start.\<close>

theorem graph_plan_safe:
  assumes "built g" and "acyclic (deps g)" and "0 < num_ops g" and "graph_bytes g < 2 ^ 64" and "qsort_ok qs"
  shows "\<exists>g' plan. graph_memory_plan_impl True qs g persistent = Some (g', Inr plan) \<and>
    epochs_ok g' \<and> vals g' = vals g \<and>
    (\<forall>v \<in> {1 .. num_values g'}.
       unat (valign (val_of g' v)) dvd pai_graph_mem_plan_offset plan v \<and>
       pai_graph_mem_plan_offset plan v + unat (vsize (val_of g' v)) \<le> vregion_bytes plan) \<and>
    (\<forall>u \<in> {1 .. num_ops g'}. \<forall>w \<in> set (outputs (op_of g' u)). \<forall>v \<in> {1 .. num_values g'}.
       v \<noteq> w \<longrightarrow> survives g' persistent u v \<longrightarrow>
       apart (pai_graph_mem_plan_offset plan v) (unat (vsize (val_of g' v)))
         (pai_graph_mem_plan_offset plan w) (unat (vsize (val_of g' w)))) \<and>
    (\<forall>v \<in> {1 .. num_values g'}. \<forall>w \<in> {1 .. num_values g'}.
       v \<noteq> w \<longrightarrow> producer (val_of g' v) = 0 \<longrightarrow> producer (val_of g' w) = 0 \<longrightarrow>
       apart (pai_graph_mem_plan_offset plan v) (unat (vsize (val_of g' v)))
         (pai_graph_mem_plan_offset plan w) (unat (vsize (val_of g' w))))"
  using memory_plan_facts [OF assms, of persistent] by blast

text \<open>A stable sort by the comparison's key is an admissible \<open>qsort\<close>.\<close>

definition key_sort :: "sort_entry list \<Rightarrow> sort_entry list" where
  "key_sort = sort_key (\<lambda>e. (pinned (fst e), start (fst e), - int (fin (fst e))))"

lemma key_sort_ok: "qsort_ok key_sort"
proof -
  have "alloc_cmp x y \<le> 0"
    if "(pinned (fst x), start (fst x), - int (fin (fst x))) \<le> (pinned (fst y), start (fst y), - int (fin (fst y)))" for x y
    using that by (auto simp: alloc_cmp_def Let_def)
  then have "sorted_wrt (\<lambda>x y. alloc_cmp x y \<le> 0) (key_sort xs)" for xs
    using sorted_sort_key [of "\<lambda>e. (pinned (fst e), start (fst e), - int (fin (fst e)))" xs]
    unfolding key_sort_def sorted_map by (auto elim!: sorted_wrt_mono_rel [rotated])
  then show ?thesis by (simp add: qsort_ok_def qsort_result_def) (simp add: key_sort_def)
qed

theorem graph_plan_safe_witness:
  "\<exists>g' plan. graph_memory_plan_impl True key_sort demo_graph False = Some (g', Inr plan) \<and>
     apart (pai_graph_mem_plan_offset plan 1) 16 (pai_graph_mem_plan_offset plan 2) 16"
proof -
  have "0 < num_ops demo_graph" "graph_bytes demo_graph < 2 ^ 64"
    by (simp_all add: demo_graph_eq graph_bytes_def)
  then obtain g' plan where p: "graph_memory_plan_impl True key_sort demo_graph False = Some (g', Inr plan)"
    "vals g' = vals demo_graph"
    "\<forall>u \<in> {1 .. num_ops g'}. \<forall>w \<in> set (outputs (op_of g' u)). \<forall>v \<in> {1 .. num_values g'}.
       v \<noteq> w \<longrightarrow> survives g' False u v \<longrightarrow>
       apart (pai_graph_mem_plan_offset plan v) (unat (vsize (val_of g' v)))
         (pai_graph_mem_plan_offset plan w) (unat (vsize (val_of g' w)))"
    using graph_plan_safe [OF demo_built demo_acyclic _ _ key_sort_ok, of False] by blast
  have t: "topo_start demo_graph = \<lparr>indegree = [0, 0], queue = [1], head = 0, order = []\<rparr>"
    by (simp add: topo_start_def op_indegree_def demo_graph_eq)
  have "pai_graph_topo_sort demo_graph =
      Some (demo_graph\<lparr>ops := [\<lparr>kind = 6, inputs = [1], outputs = [2], epoch = 0\<rparr>], is_sorted := True\<rparr>, Inr ())"
    unfolding pai_graph_topo_sort_def t
    by (subst while_option_unfold, simp, subst while_option_unfold)
      (simp add: topo_step_def release_value_def release_op_def demo_graph_eq set_epochs_def)
  moreover have "is_sorted demo_graph = False" by (simp add: demo_graph_eq)
  ultimately have "g' = demo_graph\<lparr>ops := [\<lparr>kind = 6, inputs = [1], outputs = [2], epoch = 0\<rparr>], is_sorted := True\<rparr>"
    using p(1) by (auto simp: graph_memory_plan_impl_def pai_graph_value_lifetimes_def
        split: sum.splits)
  then have "survives g' False 1 1" "num_ops g' = 1" "num_values g' = 2" "outputs (op_of g' 1) = [2]"
    "vsize (val_of g' 1) = 16" "vsize (val_of g' 2) = 16"
    by (simp_all add: survives_def users_def demo_graph_eq)
  then show ?thesis using p(1) p(3) [rule_format, of 1 2 1] by auto
qed

end
