(* ===== verification/Ir_Graph.thy ===== *)
theory Ir_Graph
  imports Ir_Codec Graph_Plan
begin

text \<open>
  \<^verbatim>\<open>ir/ir_graph.c\<close>: the conversions between compute graphs and IR programs. \<open>value_map\<close> is the list of
  the ids given out, the entry of id \<open>v\<close> at position \<open>v - 1\<close>.
\<close>

section \<open>Conversions\<close>

definition k_graph_to_ir :: "u8 list" where
  "k_graph_to_ir = [0, 1, 2, 3, 4, 5, 6, 7, 8, 9, 10, 11, 12, 13, 14, 15, 16, 17]"

definition k_ir_to_graph :: "int list" where
  "k_ir_to_graph = [0, 1, 2, 3, 4, 5, 6, 7, 8, 9, 10, 11, 12, 13, 14, 15, 16, 17]"

definition value_kind :: "pai_graph_value \<Rightarrow> u8" where
  "value_kind gv =
     (if is_input gv then 1 else if is_output gv then 4 else if producer gv = 0 then 2 else 0)"

fun ir_add_values ::
    "pai_ir_program \<Rightarrow> nat list \<Rightarrow> pai_graph_value list \<Rightarrow> (pai_ir_program \<times> nat list) res" where
  "ir_add_values prog value_map [] = Inr (prog, value_map)"
| "ir_add_values prog value_map (gv # gvs) =
     (case pai_ir_add_value prog (vdtype gv) (vshape gv) (valign gv) (value_kind gv) 0 of
        (prog', ir_id) \<Rightarrow>
          if ir_id = 0 then Inl PAI_ERR_NOMEM else ir_add_values prog' (value_map @ [ir_id]) gvs)"

fun ir_add_ops :: "nat list \<Rightarrow> pai_ir_program \<Rightarrow> pai_graph_op list \<Rightarrow> pai_ir_program res" where
  "ir_add_ops value_map prog [] = Inr prog"
| "ir_add_ops value_map prog (go # gos) =
     (if kind go < 0 \<or> kind go \<ge> 18 then Inl PAI_ERR_MISMATCH
      else
        (case pai_ir_add_op prog (k_graph_to_ir ! nat (kind go)) 0
                (map (\<lambda>v. of_nat (value_map ! (v - 1))) (inputs go))
                (map (\<lambda>v. of_nat (value_map ! (v - 1))) (outputs go)) of
           (prog', ir_id) \<Rightarrow>
             if ir_id = 0 then Inl PAI_ERR_NOMEM else ir_add_ops value_map prog' gos))"

definition ir_set_flags :: "pai_graph \<Rightarrow> nat list \<Rightarrow> pai_ir_program \<Rightarrow> nat \<Rightarrow> pai_ir_program" where
  "ir_set_flags g value_map prog v =
     (let prog1 = (if is_input (val_of g v) then pai_ir_set_input prog (of_nat (value_map ! (v - 1))) else prog)
      in if is_output (val_of g v) then pai_ir_set_output prog1 (of_nat (value_map ! (v - 1))) else prog1)"

definition pai_ir_from_graph :: "pai_graph \<Rightarrow> pai_ir_program res" where
  "pai_ir_from_graph g =
     (case ir_add_values pai_ir_init [] (vals g) of
        Inl e \<Rightarrow> Inl e
      | Inr (prog, value_map) \<Rightarrow>
          (case ir_add_ops value_map prog (ops g) of
             Inl e \<Rightarrow> Inl e
           | Inr prog' \<Rightarrow> Inr (foldl (ir_set_flags g value_map) prog' [1 ..< num_values g + 1])))"

fun graph_add_values :: "pai_graph \<Rightarrow> nat list \<Rightarrow> pai_ir_value list \<Rightarrow> (pai_graph \<times> nat list) res" where
  "graph_add_values g value_map [] = Inr (g, value_map)"
| "graph_add_values g value_map (iv # ivs) =
     (case pai_graph_add_value g (ivdtype iv) (take (unat (ivrank iv)) (ivshape iv)) (ivalign iv) of
        (g', v) \<Rightarrow>
          if v = 0 then Inl PAI_ERR_NOMEM else graph_add_values g' (value_map @ [v]) ivs)"

fun graph_add_ops :: "nat list \<Rightarrow> pai_graph \<Rightarrow> pai_ir_op list \<Rightarrow> pai_graph res" where
  "graph_add_ops value_map g [] = Inr g"
| "graph_add_ops value_map g (io # ios) =
     (if iokind io \<ge> PAI_IR_OP_KIND_COUNT then Inl PAI_ERR_MISMATCH
      else
        (case pai_graph_add_op g (k_ir_to_graph ! unat (iokind io))
                (map (\<lambda>d. value_map ! (unat d - 1)) (ioinputs io))
                (map (\<lambda>d. value_map ! (unat d - 1)) (iooutputs io)) of
           (g', u) \<Rightarrow> if u = 0 then Inl PAI_ERR_MISMATCH else graph_add_ops value_map g' ios))"

definition pai_ir_to_graph :: "pai_ir_program \<Rightarrow> pai_graph res" where
  "pai_ir_to_graph ir =
     (case graph_add_values pai_graph_init [] (ivalues ir) of
        Inl e \<Rightarrow> Inl e
      | Inr (g, value_map) \<Rightarrow>
          (case graph_add_ops value_map g (iops ir) of
             Inl e \<Rightarrow> Inl e
           | Inr g1 \<Rightarrow>
               (let g2 = foldl (\<lambda>h d. pai_graph_set_input h (value_map ! (unat d - 1))) g1 (input_ids ir)
                in Inr (foldl (\<lambda>h d. pai_graph_set_output h (value_map ! (unat d - 1))) g2 (output_ids ir)))))"

section \<open>From graph to IR\<close>

text \<open>The IR program a graph stands for.\<close>

definition ir_value_of :: "pai_graph_value \<Rightarrow> pai_ir_value" where
  "ir_value_of gv =
     \<lparr>ivdtype = vdtype gv, ivrank = of_nat (length (vshape gv)), ivkind = value_kind gv, ivdevice = 0,
      ivshape = vshape gv @ replicate (PAI_TENSOR_MAX_RANK - length (vshape gv)) 0, ivsize = vsize gv,
      ivalign = valign gv, ivquant = zero_quant\<rparr>"

definition ir_op_of :: "pai_graph_op \<Rightarrow> pai_ir_op" where
  "ir_op_of go =
     \<lparr>iokind = of_int (kind go), iodevice = 0, ioinputs = map of_nat (inputs go), iooutputs = map of_nat (outputs go)\<rparr>"

definition gval_ok :: "pai_graph_value \<Rightarrow> bool" where
  "gval_ok gv \<longleftrightarrow>
     pai_tensor_contiguous_size (vdtype gv) (vshape gv) = Inr (vsize gv) \<and> vsize gv \<noteq> 0 \<and> pai_mem_is_pow2 (valign gv)"

lemma gval_facts:
  assumes "gval_ok gv"
  shows "vshape gv \<noteq> []" "length (vshape gv) \<le> 6" "vdtype gv \<noteq> PAI_DTYPE_COUNT" "valign gv \<noteq> 0"
    "valign gv AND (valign gv - 1) = 0" "pai_dtype_size (vdtype gv) \<noteq> 0"
  using assms unfolding gval_ok_def contiguous_size_iff pai_mem_is_pow2_def
  by (auto simp: pai_dtype_size_def)

lemma value_kind_less: "value_kind gv < PAI_IR_VALUE_KIND_COUNT"
  by (simp add: value_kind_def PAI_IR_VALUE_KIND_COUNT_def word_less_nat_alt)

lemma ir_add_value_of:
  assumes "gval_ok gv" "length (ivalues prog) < PAI_IR_MAX_VALUES"
  shows "pai_ir_add_value prog (vdtype gv) (vshape gv) (valign gv) (value_kind gv) 0 =
    (prog\<lparr>ivalues := ivalues prog @ [ir_value_of gv]\<rparr>, length (ivalues prog) + 1)"
  using gval_facts [OF assms(1)] assms value_kind_less [of gv]
  by (simp add: pai_ir_add_value_def gval_ok_def ir_value_of_def PAI_TENSOR_MAX_RANK_def not_le
      PAI_IR_DEVICE_COUNT_def)

lemma ir_add_values_ok:
  assumes "\<forall>gv \<in> set gvs. gval_ok gv" "length (ivalues prog) + length gvs \<le> PAI_IR_MAX_VALUES"
    and "value_map = [1 ..< length (ivalues prog) + 1]"
  shows "ir_add_values prog value_map gvs =
    Inr (prog\<lparr>ivalues := ivalues prog @ map ir_value_of gvs\<rparr>, [1 ..< length (ivalues prog) + length gvs + 1])"
  using assms
proof (induction gvs arbitrary: prog value_map)
  case (Cons gv gvs)
  let ?p = "prog\<lparr>ivalues := ivalues prog @ [ir_value_of gv]\<rparr>"
  have "ir_add_values ?p (value_map @ [length (ivalues prog) + 1]) gvs =
      Inr (?p\<lparr>ivalues := ivalues ?p @ map ir_value_of gvs\<rparr>, [1 ..< length (ivalues ?p) + length gvs + 1])"
    using Cons.prems by (intro Cons.IH) simp_all
  then show ?case using Cons.prems ir_add_value_of [of gv prog] by (simp del: upt_Suc)
qed simp

lemma graph_to_ir_kind: "0 \<le> k \<Longrightarrow> k < 18 \<Longrightarrow> k_graph_to_ir ! nat k = of_int k \<and> of_int k < PAI_IR_OP_KIND_COUNT"
proof -
  assume "0 \<le> k" "k < 18"
  then have "k \<in> {0, 1, 2, 3, 4, 5, 6, 7, 8, 9, 10, 11, 12, 13, 14, 15, 16, 17}" by simp presburger
  then show ?thesis by (auto simp: k_graph_to_ir_def PAI_IR_OP_KIND_COUNT_def word_less_nat_alt)
qed

lemma nth_ids: "v \<in> {1 .. n} \<Longrightarrow> [1 ..< n + 1] ! (v - 1) = v"
  by (auto simp del: upt_Suc)

lemma map_ids: "\<forall>v \<in> set xs. v \<in> {1 .. n} \<Longrightarrow> map (\<lambda>v. f ([1 ..< n + 1] ! (v - 1))) xs = map f xs"
  using nth_ids [of _ n] by (intro map_cong refl arg_cong [where f = f]) blast

lemma of_nat_u16: "v \<in> {1 .. n} \<Longrightarrow> n \<le> 1024 \<Longrightarrow> unat (of_nat v :: u16) = v \<and> (of_nat v :: u16) \<noteq> 0"
proof -
  assume "v \<in> {1 .. n}" "n \<le> 1024"
  then have "unat (of_nat v :: u16) = v" "v \<noteq> 0" by (auto simp: unat_of_nat)
  then show ?thesis by (metis unat_0)
qed

definition gop_ok :: "nat \<Rightarrow> pai_graph_op \<Rightarrow> bool" where
  "gop_ok nv go \<longleftrightarrow>
     (\<forall>v \<in> set (inputs go) \<union> set (outputs go). v \<in> {1 .. nv}) \<and> length (inputs go) \<le> 16 \<and>
     length (outputs go) \<le> 16 \<and> distinct (outputs go) \<and> set (inputs go) \<inter> set (outputs go) = {} \<and>
     0 \<le> kind go \<and> kind go < 18"

lemma ids_inj_u16: "n \<le> 1024 \<Longrightarrow> inj_on (of_nat :: nat \<Rightarrow> u16) {1 .. n}"
  by (rule inj_onI) (metis of_nat_u16)

lemma op_valid_of:
  assumes "gop_ok nv go" "nv \<le> 1024"
  shows "op_valid nv (ir_op_of go)"
proof -
  have inj: "inj_on (of_nat :: nat \<Rightarrow> u16) (set (inputs go) \<union> set (outputs go))"
    using ids_inj_u16 [OF assms(2)] assms(1) by (auto simp: gop_ok_def intro: inj_on_subset)
  have "distinct (map (of_nat :: nat \<Rightarrow> u16) (outputs go))"
    using assms(1) inj by (auto simp: gop_ok_def distinct_map intro: inj_on_subset)
  moreover have "(of_nat :: nat \<Rightarrow> u16) ` set (inputs go) \<inter> of_nat ` set (outputs go) = {}"
    using assms(1) inj unfolding gop_ok_def by (metis image_empty inj_on_image_Int sup_ge1 sup_ge2)
  ultimately show ?thesis
    using assms of_nat_u16 [of _ nv] graph_to_ir_kind [of "kind go"]
    unfolding op_valid_def gop_ok_def ir_op_of_def by (auto simp: PAI_IR_DEVICE_COUNT_def PAI_IR_MAX_ARITY_def)
qed

lemma ir_add_op_of:
  assumes "gop_ok (length (ivalues prog)) go" "length (ivalues prog) \<le> 1024" "length (iops prog) < 1024"
  shows "pai_ir_add_op prog (k_graph_to_ir ! nat (kind go)) 0
      (map (\<lambda>v. of_nat ([1 ..< length (ivalues prog) + 1] ! (v - 1))) (inputs go))
      (map (\<lambda>v. of_nat ([1 ..< length (ivalues prog) + 1] ! (v - 1))) (outputs go)) =
    (prog\<lparr>iops := iops prog @ [ir_op_of go]\<rparr>, length (iops prog) + 1)"
proof -
  have m: "map (\<lambda>v. of_nat ([1 ..< length (ivalues prog) + 1] ! (v - 1))) (inputs go) = ioinputs (ir_op_of go)"
    "map (\<lambda>v. of_nat ([1 ..< length (ivalues prog) + 1] ! (v - 1))) (outputs go) = iooutputs (ir_op_of go)"
    using assms(1) map_ids [of "inputs go" "length (ivalues prog)" of_nat]
      map_ids [of "outputs go" "length (ivalues prog)" of_nat]
    unfolding ir_op_of_def gop_ok_def by (simp_all del: upt_Suc)
  have k: "k_graph_to_ir ! nat (kind go) = iokind (ir_op_of go)"
    using graph_to_ir_kind [of "kind go"] assms(1) by (simp add: gop_ok_def ir_op_of_def)
  have "op_valid (length (ivalues prog)) (ir_op_of go)" using op_valid_of [OF assms(1,2)] .
  moreover have "\<lparr>iokind = iokind (ir_op_of go), iodevice = 0, ioinputs = ioinputs (ir_op_of go),
      iooutputs = iooutputs (ir_op_of go)\<rparr> = ir_op_of go" by (simp add: ir_op_of_def)
  ultimately show ?thesis unfolding m k
    using assms(3)
    by (auto simp: pai_ir_add_op_def op_valid_def ir_outputs_ok_iff ir_consts not_le not_less)
qed

lemma ir_add_ops_ok:
  assumes "\<forall>go \<in> set gos. gop_ok (length (ivalues prog)) go" "length (ivalues prog) \<le> 1024"
    and "length (iops prog) + length gos \<le> 1024"
  shows "ir_add_ops [1 ..< length (ivalues prog) + 1] prog gos = Inr (prog\<lparr>iops := iops prog @ map ir_op_of gos\<rparr>)"
  using assms
proof (induction gos arbitrary: prog)
  case (Cons go gos)
  let ?p = "prog\<lparr>iops := iops prog @ [ir_op_of go]\<rparr>"
  have "ir_add_ops [1 ..< length (ivalues ?p) + 1] ?p gos = Inr (?p\<lparr>iops := iops ?p @ map ir_op_of gos\<rparr>)"
    using Cons.prems by (intro Cons.IH) simp_all
  then show ?case
    using Cons.prems ir_add_op_of [of prog go] by (simp add: gop_ok_def del: upt_Suc)
qed simp

lemma ir_flags_ok:
  assumes "length (ivalues prog) = num_values g" "num_values g \<le> 1024" "input_ids prog = []" "output_ids prog = []"
    and "k \<le> num_values g"
  shows "foldl (ir_set_flags g [1 ..< num_values g + 1]) prog [1 ..< k + 1] =
    prog\<lparr>input_ids := map of_nat (filter (\<lambda>v. is_input (val_of g v)) [1 ..< k + 1]),
         output_ids := map of_nat (filter (\<lambda>v. is_output (val_of g v)) [1 ..< k + 1])\<rparr>"
  using assms(5)
proof (induction k)
  case 0
  then show ?case using assms(3,4) by simp
next
  case (Suc k)
  let ?f = "\<lambda>h k. map (of_nat :: nat \<Rightarrow> u32) (filter h [1 ..< k + 1])"
  let ?p = "\<lambda>k. prog\<lparr>input_ids := ?f (\<lambda>v. is_input (val_of g v)) k, output_ids := ?f (\<lambda>v. is_output (val_of g v)) k\<rparr>"
  have nth: "[1 ..< num_values g + 1] ! (Suc k - 1) = Suc k" using Suc.prems nth_ids [of "Suc k" "num_values g"] by simp
  have "unat (of_nat (Suc k) :: u32) = Suc k" using Suc.prems assms(2)
    by (simp add: unat_of_nat del: of_nat_Suc)
  then have w: "unat (of_nat (Suc k) :: u32) = Suc k" "(of_nat (Suc k) :: u32) \<noteq> 0"
    by (assumption, metis Zero_not_Suc unat_0)
  have len: "length (?f h k) < 1024" for h
    using Suc.prems assms(2) length_filter_le [of h "[1 ..< k + 1]"] by (simp del: upt_Suc)
  have "foldl (ir_set_flags g [1 ..< num_values g + 1]) prog [1 ..< Suc k + 1] =
      ir_set_flags g [1 ..< num_values g + 1] (?p k) (Suc k)"
    using Suc by simp
  also have "\<dots> = ?p (Suc k)"
    using w len [of "\<lambda>v. is_input (val_of g v)"] len [of "\<lambda>v. is_output (val_of g v)"] Suc.prems assms(1)
    unfolding ir_set_flags_def nth Let_def
    by (auto simp: pai_ir_set_input_def pai_ir_set_output_def PAI_IR_MAX_VALUES_def simp del: of_nat_Suc)
  finally show ?case .
qed

definition ir_of_graph :: "pai_graph \<Rightarrow> pai_ir_program" where
  "ir_of_graph g =
     \<lparr>ivalues = map ir_value_of (vals g), iops = map ir_op_of (ops g),
      input_ids = map of_nat (filter (\<lambda>v. is_input (val_of g v)) [1 ..< num_values g + 1]),
      output_ids = map of_nat (filter (\<lambda>v. is_output (val_of g v)) [1 ..< num_values g + 1])\<rparr>"

lemma all_vals: "graph_wf g \<Longrightarrow> x \<in> set (vals g) \<Longrightarrow> gval_ok x"
proof -
  assume g: "graph_wf g" and "x \<in> set (vals g)"
  then obtain i where "i < num_values g" "x = vals g ! i" by (auto simp: in_set_conv_nth)
  then show ?thesis using wf_value [OF g, of "Suc i"] by (simp add: value_ok_def gval_ok_def)
qed

definition kinds_known :: "pai_graph \<Rightarrow> bool" where
  "kinds_known g \<longleftrightarrow> (\<forall>go \<in> set (ops g). 0 \<le> kind go \<and> kind go < 18)"

lemma all_ops: "graph_wf g \<Longrightarrow> kinds_known g \<Longrightarrow> go \<in> set (ops g) \<Longrightarrow> gop_ok (num_values g) go"
proof -
  assume g: "graph_wf g" and k: "kinds_known g" and go: "go \<in> set (ops g)"
  then obtain i where "i < num_ops g" "go = ops g ! i" by (auto simp: in_set_conv_nth)
  then show ?thesis using wf_op [OF g, of "Suc i"] k go
    by (simp add: op_ok_def gop_ok_def kinds_known_def PAI_GRAPH_MAX_ARITY_def)
qed

lemma from_graph_eq:
  assumes "graph_wf g" "kinds_known g"
  shows "pai_ir_from_graph g = Inr (ir_of_graph g)"
proof -
  have n: "num_values g \<le> 1024" "num_ops g \<le> 1024"
    using assms(1) by (simp_all add: graph_wf_def PAI_GRAPH_MAX_VALUES_def PAI_GRAPH_MAX_OPS_def)
  let ?p = "pai_ir_init\<lparr>ivalues := map ir_value_of (vals g)\<rparr>"
  have v: "ir_add_values pai_ir_init [] (vals g) = Inr (?p, [1 ..< num_values g + 1])"
    using ir_add_values_ok [of "vals g" pai_ir_init "[]"] all_vals [OF assms(1)] n
    by (simp add: pai_ir_init_def PAI_IR_MAX_VALUES_def)
  have o: "ir_add_ops [1 ..< num_values g + 1] ?p (ops g) = Inr (?p\<lparr>iops := map ir_op_of (ops g)\<rparr>)"
    using ir_add_ops_ok [of "ops g" ?p] all_ops [OF assms] n by (simp add: pai_ir_init_def del: upt_Suc)
  show ?thesis
    using ir_flags_ok [of "?p\<lparr>iops := map ir_op_of (ops g)\<rparr>" g "num_values g"] n
    unfolding pai_ir_from_graph_def v sum.case prod.case o
    by (simp add: ir_of_graph_def pai_ir_init_def del: upt_Suc)
qed

section \<open>From IR back to the graph\<close>

text \<open>A graph as the interface builds it again: not sorted, epochs 0.\<close>

definition fresh_graph :: "pai_graph \<Rightarrow> pai_graph" where
  "fresh_graph g = \<lparr>vals = vals g, ops = map (\<lambda>p. p\<lparr>epoch := 0\<rparr>) (ops g), is_sorted = False\<rparr>"

definition blank :: "pai_graph_value \<Rightarrow> pai_graph_value" where
  "blank x = x\<lparr>producer := 0, is_input := False, is_output := False\<rparr>"

lemma shape_of_ir:
  assumes "gval_ok gv"
  shows "take (unat (ivrank (ir_value_of gv))) (ivshape (ir_value_of gv)) = vshape gv"
proof -
  have "unat (of_nat (length (vshape gv)) :: u8) = length (vshape gv)"
    using gval_facts(2) [OF assms] by (simp add: unat_of_nat)
  then show ?thesis by (simp add: ir_value_of_def)
qed

lemma graph_add_value_of:
  assumes "gval_ok gv" "num_values g < 1024"
  shows "pai_graph_add_value g (ivdtype (ir_value_of gv)) (take (unat (ivrank (ir_value_of gv))) (ivshape (ir_value_of gv)))
      (ivalign (ir_value_of gv)) = (g\<lparr>vals := vals g @ [blank gv]\<rparr>, num_values g + 1)"
proof -
  have "ivdtype (ir_value_of gv) = vdtype gv" "ivalign (ir_value_of gv) = valign gv"
    by (simp_all add: ir_value_of_def)
  then show ?thesis
    using gval_facts [OF assms(1)] assms unfolding shape_of_ir [OF assms(1)]
    by (simp add: pai_graph_add_value_def gval_ok_def PAI_TENSOR_MAX_RANK_def PAI_GRAPH_MAX_VALUES_def blank_def)
qed

lemma graph_add_values_ok:
  assumes "\<forall>gv \<in> set gvs. gval_ok gv" "num_values h + length gvs \<le> 1024" "value_map = [1 ..< num_values h + 1]"
  shows "graph_add_values h value_map (map ir_value_of gvs) =
    Inr (h\<lparr>vals := vals h @ map blank gvs\<rparr>, [1 ..< num_values h + length gvs + 1])"
  using assms
proof (induction gvs arbitrary: h value_map)
  case (Cons gv gvs)
  let ?h = "h\<lparr>vals := vals h @ [blank gv]\<rparr>"
  have "graph_add_values ?h (value_map @ [num_values h + 1]) (map ir_value_of gvs) =
      Inr (?h\<lparr>vals := vals ?h @ map blank gvs\<rparr>, [1 ..< num_values ?h + length gvs + 1])"
    using Cons.prems by (intro Cons.IH) simp_all
  then show ?case using Cons.prems graph_add_value_of [of gv h] by (simp del: upt_Suc)
qed simp

text \<open>The graph after the first \<open>k\<close> ops were added again.\<close>

definition rebuilt :: "pai_graph \<Rightarrow> nat \<Rightarrow> pai_graph" where
  "rebuilt g k =
     \<lparr>vals = map (\<lambda>x. (blank x)\<lparr>producer := if producer x \<le> k then producer x else 0\<rparr>) (vals g),
      ops = map (\<lambda>p. p\<lparr>epoch := 0\<rparr>) (take k (ops g)), is_sorted = False\<rparr>"

lemma ir_to_graph_kind:
  "0 \<le> k \<Longrightarrow> k < 18 \<Longrightarrow> k_ir_to_graph ! unat (of_int k :: u8) = k"
proof -
  assume "0 \<le> k" "k < 18"
  then have "k \<in> {0, 1, 2, 3, 4, 5, 6, 7, 8, 9, 10, 11, 12, 13, 14, 15, 16, 17}" by simp presburger
  then show ?thesis by (auto simp: k_ir_to_graph_def)
qed

lemma map_ir_ids:
  assumes "\<forall>v \<in> set xs. v \<in> {1 .. n}" "n \<le> 1024"
  shows "map (\<lambda>d. [1 ..< n + 1] ! (unat d - 1)) (map (of_nat :: nat \<Rightarrow> u16) xs) = xs"
    and "map (\<lambda>d. [1 ..< n + 1] ! (unat d - 1)) (map (of_nat :: nat \<Rightarrow> u32) xs) = xs"
proof -
  have "[1 ..< n + 1] ! (unat (of_nat v :: u16) - 1) = v \<and> [1 ..< n + 1] ! (unat (of_nat v :: u32) - 1) = v"
    if "v \<in> set xs" for v
  proof -
    have "v \<in> {1 .. n}" "unat (of_nat v :: u16) = v" "unat (of_nat v :: u32) = v"
      using that assms by (auto simp: unat_of_nat)
    then show ?thesis using nth_ids [of v n] by simp
  qed
  then show "map (\<lambda>d. [1 ..< n + 1] ! (unat d - 1)) (map (of_nat :: nat \<Rightarrow> u16) xs) = xs"
    "map (\<lambda>d. [1 ..< n + 1] ! (unat d - 1)) (map (of_nat :: nat \<Rightarrow> u32) xs) = xs"
    by (simp_all add: map_idI comp_def)
qed

lemma rebuilt_step:
  assumes wf: "graph_wf g" and k: "k < num_ops g"
  defines "p \<equiv> ops g ! k"
  shows "pai_graph_add_op (rebuilt g k) (kind p) (inputs p) (outputs p) = (rebuilt g (Suc k), Suc k)"
proof -
  let ?h = "rebuilt g k"
  have o: "op_ok g (Suc k)" using wf_op [OF wf, of "Suc k"] k by simp
  have n: "num_values ?h = num_values g" "num_ops ?h = k" "num_ops g \<le> 1024"
    using k wf by (simp_all add: rebuilt_def graph_wf_def PAI_GRAPH_MAX_OPS_def)
  have prod: "producer (val_of g v) = Suc k \<longleftrightarrow> v \<in> set (outputs p)" if "v \<in> {1 .. num_values g}" for v
    using wf_value [OF wf that] k by (auto simp: value_ok_def p_def)
  have rng: "v \<in> {1 .. num_values g}" if "v \<in> set (inputs p) \<union> set (outputs p)" for v
    using o that by (simp add: op_ok_def p_def)
  have hv: "val_of ?h v = (blank (val_of g v))\<lparr>producer := if producer (val_of g v) \<le> k then producer (val_of g v) else 0\<rparr>"
    if "v \<in> {1 .. num_values g}" for v
    using id_less [OF that] by (simp add: rebuilt_def)
  have "producer (val_of ?h v) = 0" if "v \<in> set (outputs p)" for v
    using hv [of v] prod [of v] rng [of v] that by auto
  then have oo: "op_outputs_ok ?h [] (outputs p)"
    using o rng by (auto simp: op_outputs_ok_iff op_ok_def p_def n)
  have ii: "op_inputs_ok ?h (inputs p)" using rng by (fastforce simp: op_inputs_ok_def n)
  have vs: "foldl (set_producer (Suc k)) (vals ?h) (outputs p) = vals (rebuilt g (Suc k))"
  proof (rule nth_equalityI)
    have r: "\<forall>v \<in> set (outputs p). 1 \<le> v \<and> v \<le> length (vals ?h)" using rng n by auto
    show "length (foldl (set_producer (Suc k)) (vals ?h) (outputs p)) = length (vals (rebuilt g (Suc k)))"
      using set_producers(1) [OF r] by (simp add: rebuilt_def)
    fix i assume "i < length (foldl (set_producer (Suc k)) (vals ?h) (outputs p))"
    then have i: "i < num_values g" using set_producers(1) [OF r] n by simp
    then have "foldl (set_producer (Suc k)) (vals ?h) (outputs p) ! i =
        (if Suc i \<in> set (outputs p) then (vals ?h ! i)\<lparr>producer := Suc k\<rparr> else vals ?h ! i)"
      using set_producers(2) [OF r, of i] n by simp
    moreover have "producer (vals g ! i) = Suc k \<longleftrightarrow> Suc i \<in> set (outputs p)"
      using prod [of "Suc i"] i by simp
    ultimately show "foldl (set_producer (Suc k)) (vals ?h) (outputs p) ! i = vals (rebuilt g (Suc k)) ! i"
      using i by (auto simp: rebuilt_def le_Suc_eq)
  qed
  have "length (inputs p) \<le> 16" "length (outputs p) \<le> 16" "set (inputs p) \<inter> set (outputs p) = {}"
    using o by (simp_all add: op_ok_def p_def PAI_GRAPH_MAX_ARITY_def)
  moreover have "ops (rebuilt g (Suc k)) = ops ?h @ [\<lparr>kind = kind p, inputs = inputs p, outputs = outputs p, epoch = 0\<rparr>]"
    using k by (cases "ops g ! k") (simp add: rebuilt_def take_Suc_conv_app_nth p_def)
  ultimately show ?thesis
    using ii oo vs n k unfolding pai_graph_add_op_def
    by (auto simp: PAI_GRAPH_MAX_OPS_def PAI_GRAPH_MAX_ARITY_def Let_def) (simp add: rebuilt_def)
qed

lemma graph_add_ops_ok:
  assumes wf: "graph_wf g" and kn: "kinds_known g" and k: "k \<le> num_ops g"
  shows "graph_add_ops [1 ..< num_values g + 1] (rebuilt g k) (map ir_op_of (drop k (ops g))) = Inr (rebuilt g (num_ops g))"
  using k
proof (induction rule: inc_induct)
  case (step k)
  let ?p = "ops g ! k"
  have p: "gop_ok (num_values g) ?p" "num_values g \<le> 1024"
    using all_ops [OF wf kn nth_mem [OF step(2)]] wf by (simp_all add: graph_wf_def PAI_GRAPH_MAX_VALUES_def)
  have m: "map (\<lambda>d. [1 ..< num_values g + 1] ! (unat d - 1)) (ioinputs (ir_op_of ?p)) = inputs ?p"
    "map (\<lambda>d. [1 ..< num_values g + 1] ! (unat d - 1)) (iooutputs (ir_op_of ?p)) = outputs ?p"
    using map_ir_ids(1) [OF _ p(2), of "inputs ?p"] map_ir_ids(1) [OF _ p(2), of "outputs ?p"] p(1)
    unfolding ir_op_of_def gop_ok_def by (simp_all del: upt_Suc map_map)
  have kk: "k_ir_to_graph ! unat (iokind (ir_op_of ?p)) = kind ?p" "\<not> iokind (ir_op_of ?p) \<ge> PAI_IR_OP_KIND_COUNT"
    using p(1) ir_to_graph_kind [of "kind ?p"] graph_to_ir_kind [of "kind ?p"]
    by (simp_all add: gop_ok_def ir_op_of_def not_le)
  have d: "map ir_op_of (drop k (ops g)) = ir_op_of ?p # map ir_op_of (drop (Suc k) (ops g))"
    using Cons_nth_drop_Suc [OF step(2)] by (metis list.map(2))
  show ?case unfolding d
    unfolding graph_add_ops.simps m kk(1) rebuilt_step [OF wf step(2)] using kk(2) step.IH by simp
qed simp

lemma update_ids_nth:
  assumes "\<forall>v \<in> set vs. 1 \<le> v \<and> v \<le> length xs" "\<And>x. f (f x) = f x"
  shows "length (foldl (\<lambda>xs v. xs[v - 1 := f (xs ! (v - 1))]) xs vs) = length xs \<and>
    (\<forall>i < length xs. foldl (\<lambda>xs v. xs[v - 1 := f (xs ! (v - 1))]) xs vs ! i =
      (if Suc i \<in> set vs then f (xs ! i) else xs ! i))"
  using assms(1)
proof (induction vs arbitrary: xs)
  case (Cons v vs)
  from Cons.IH [of "xs[v - 1 := f (xs ! (v - 1))]"] Cons.prems show ?case
    by (auto simp: nth_list_update assms(2))
qed simp

lemma set_flags_fold:
  assumes "\<forall>v \<in> set vs. v \<in> {1 .. num_values h}"
  shows "foldl pai_graph_set_input h vs =
      h\<lparr>vals := foldl (\<lambda>xs v. xs[v - 1 := (xs ! (v - 1))\<lparr>is_input := True\<rparr>]) (vals h) vs\<rparr>"
    and "foldl pai_graph_set_output h vs =
      h\<lparr>vals := foldl (\<lambda>xs v. xs[v - 1 := (xs ! (v - 1))\<lparr>is_output := True\<rparr>]) (vals h) vs\<rparr>"
  using assms
proof (induction vs arbitrary: h)
  case (Cons v vs)
  {
    case 1
    then show ?case using Cons.IH(1) [of "pai_graph_set_input h v"] by (auto simp: pai_graph_set_input_def)
  next
    case 2
    then show ?case using Cons.IH(2) [of "pai_graph_set_output h v"] by (auto simp: pai_graph_set_output_def)
  }
qed simp_all

lemma foldl_map_ids: "foldl (\<lambda>h d. f h (m d)) h ds = foldl f h (map m ds)"
  by (induction ds arbitrary: h) simp_all

lemma flags_restored:
  assumes wf: "graph_wf g"
  defines "ins \<equiv> filter (\<lambda>v. is_input (val_of g v)) [1 ..< num_values g + 1]"
    and "outs \<equiv> filter (\<lambda>v. is_output (val_of g v)) [1 ..< num_values g + 1]"
  shows "foldl pai_graph_set_output (foldl pai_graph_set_input (rebuilt g (num_ops g)) ins) outs = fresh_graph g"
proof -
  let ?h = "rebuilt g (num_ops g)"
  let ?vs = "foldl (\<lambda>xs v. xs[v - 1 := (xs ! (v - 1))\<lparr>is_input := True\<rparr>]) (vals ?h) ins"
  let ?ws = "foldl (\<lambda>xs v. xs[v - 1 := (xs ! (v - 1))\<lparr>is_output := True\<rparr>]) ?vs outs"
  have nv: "num_values ?h = num_values g" by (simp add: rebuilt_def)
  have i: "\<forall>v \<in> set ins. v \<in> {1 .. num_values ?h}" and o: "\<forall>v \<in> set outs. v \<in> {1 .. num_values g}"
    by (auto simp: ins_def outs_def nv)
  note 1 = update_ids_nth [of ins "vals ?h" "\<lambda>x. x\<lparr>is_input := True\<rparr>", simplified nv]
  have v1: "length ?vs = num_values g" "\<And>j. j < num_values g \<Longrightarrow> ?vs ! j =
      (if Suc j \<in> set ins then (vals ?h ! j)\<lparr>is_input := True\<rparr> else vals ?h ! j)"
    using 1 i nv by auto
  have w1: "length ?ws = num_values g" "\<And>j. j < num_values g \<Longrightarrow> ?ws ! j =
      (if Suc j \<in> set outs then (?vs ! j)\<lparr>is_output := True\<rparr> else ?vs ! j)"
    using update_ids_nth [of outs ?vs "\<lambda>x. x\<lparr>is_output := True\<rparr>"] o v1(1) by auto
  have "?ws = vals g"
  proof (rule nth_equalityI)
    fix j assume "j < length ?ws"
    then have j: "j < num_values g" using w1(1) by simp
    have "producer (vals g ! j) \<le> num_ops g" using wf_value [OF wf, of "Suc j"] j by (simp add: value_ok_def)
    moreover have "Suc j \<in> set ins \<longleftrightarrow> is_input (vals g ! j)" "Suc j \<in> set outs \<longleftrightarrow> is_output (vals g ! j)"
      using j by (simp_all add: ins_def outs_def del: upt_Suc)
    ultimately show "?ws ! j = vals g ! j"
      using w1(2) [OF j] v1(2) [OF j] j by (cases "vals g ! j") (simp add: rebuilt_def blank_def)
  qed (rule w1(1))
  moreover have "foldl pai_graph_set_output (foldl pai_graph_set_input ?h ins) outs = ?h\<lparr>vals := ?ws\<rparr>"
    using set_flags_fold(1) [OF i] set_flags_fold(2) [of outs "?h\<lparr>vals := ?vs\<rparr>"] o v1(1) by simp
  ultimately show ?thesis by (simp add: fresh_graph_def rebuilt_def)
qed

section \<open>Properties\<close>

lemma ir_of_graph_valid:
  assumes "graph_wf g" "kinds_known g"
  shows "ir_valid (ir_of_graph g)"
proof -
  have n: "num_values g \<le> 1024" "num_ops g \<le> 1024"
    using assms(1) by (simp_all add: graph_wf_def PAI_GRAPH_MAX_VALUES_def PAI_GRAPH_MAX_OPS_def)
  have "value_valid (ir_value_of x)" if "x \<in> set (vals g)" for x
  proof -
    have x: "gval_ok x" using all_vals [OF assms(1) that] .
    then have "ivrank (ir_value_of x) \<noteq> 0 \<and> unat (ivrank (ir_value_of x)) \<le> 6"
      using gval_facts(1,2) [OF x] by (auto simp: ir_value_of_def unat_of_nat word_unat_eq_iff)
    then show ?thesis
      using shape_of_ir [OF x] gval_facts [OF x] x value_kind_less [of x]
      by (simp add: value_valid_def PAI_TENSOR_MAX_RANK_def gval_ok_def)
        (simp add: ir_value_of_def zero_quant_def PAI_IR_DEVICE_COUNT_def PAI_TENSOR_MAX_RANK_def)
  qed
  moreover have "op_valid (num_values g) (ir_op_of p)" if "p \<in> set (ops g)" for p
    using op_valid_of [OF all_ops [OF assms that] n(1)] .
  moreover have "ids_valid (num_values g) (map of_nat (filter P [1 ..< num_values g + 1]))" for P
  proof -
    have "unat (of_nat v :: u32) = v" "(of_nat v :: u32) \<noteq> 0" if "v \<in> {1 .. num_values g}" for v
    proof -
      show u: "unat (of_nat v :: u32) = v" using that n by (simp add: unat_of_nat)
      show "(of_nat v :: u32) \<noteq> 0" using u that by (metis atLeastAtMost_iff not_one_le_zero unat_0)
    qed
    moreover have "length (filter P [1 ..< num_values g + 1]) \<le> num_values g"
      using length_filter_le [of P "[1 ..< num_values g + 1]"] by (simp del: upt_Suc)
    ultimately show ?thesis using n(1) by (auto simp: ids_valid_def PAI_IR_MAX_VALUES_def simp del: upt_Suc)
  qed
  ultimately show ?thesis using n
    by (auto simp: ir_valid_def ir_of_graph_def PAI_IR_MAX_VALUES_def PAI_IR_MAX_OPS_def simp del: upt_Suc)
qed

text \<open>C16. A graph built through the interface whose op kinds are known survives the conversion to IR,
  serialization, deserialization and the conversion back: the rebuilt graph has the same values,
  flags, producers and ops, unsorted and with epochs 0. The blob stage asks for ops with inputs and
  outputs.\<close>

theorem graph_ir_blob_roundtrip:
  assumes "built g" and "kinds_known g" and "\<forall>p \<in> set (ops g). inputs p \<noteq> [] \<and> outputs p \<noteq> []"
    and "length (encode_blob (ir_of_graph g)) \<le> cap"
  shows "\<exists>ir blob. pai_ir_from_graph g = Inr ir \<and> pai_ir_encode ir cap = Inr blob \<and>
    pai_ir_decode blob = Returns (Inr ir) \<and> pai_ir_to_graph ir = Inr (fresh_graph g)"
proof -
  have wf: "graph_wf g" using built_wf [OF assms(1)] .
  have n: "num_values g \<le> 1024" using wf by (simp add: graph_wf_def PAI_GRAPH_MAX_VALUES_def)
  let ?ids = "[1 ..< num_values g + 1]"
  have v: "ir_valid (ir_of_graph g)" using ir_of_graph_valid [OF wf assms(2)] .
  have ne: "\<forall>p \<in> set (iops (ir_of_graph g)). op_nonempty p"
    using assms(3) by (auto simp: ir_of_graph_def op_nonempty_def ir_op_of_def)
  have 1: "graph_add_values pai_graph_init [] (ivalues (ir_of_graph g)) = Inr (rebuilt g 0, ?ids)"
  proof -
    have "rebuilt g 0 = pai_graph_init\<lparr>vals := map blank (vals g)\<rparr>"
      by (simp add: rebuilt_def pai_graph_init_def blank_def)
    then show ?thesis
      using graph_add_values_ok [of "vals g" pai_graph_init "[]"] all_vals [OF wf] n
      by (simp add: ir_of_graph_def pai_graph_init_def del: upt_Suc)
  qed
  have 2: "graph_add_ops ?ids (rebuilt g 0) (iops (ir_of_graph g)) = Inr (rebuilt g (num_ops g))"
    using graph_add_ops_ok [OF wf assms(2), of 0] by (simp add: ir_of_graph_def del: upt_Suc)
  have "\<forall>v \<in> set (filter P ?ids). v \<in> {1 .. num_values g}" for P by auto
  then have 3: "map (\<lambda>d. ?ids ! (unat d - 1)) (map (of_nat :: nat \<Rightarrow> u32) (filter P ?ids)) = filter P ?ids" for P
    using map_ir_ids(2) n by blast
  have 4: "foldl (\<lambda>h d. f h (?ids ! (unat d - 1))) h ds = foldl f h (map (\<lambda>d. ?ids ! (unat d - 1)) ds)"
    for f :: "pai_graph \<Rightarrow> nat \<Rightarrow> pai_graph" and h and ds :: "u32 list"
    by (rule foldl_map_ids)
  have "pai_ir_to_graph (ir_of_graph g) = Inr (fresh_graph g)"
    unfolding pai_ir_to_graph_def 1 sum.case prod.case 2 Let_def 4
    using 3 flags_restored [OF wf] by (simp add: ir_of_graph_def del: upt_Suc map_map)
  then show ?thesis
    using from_graph_eq [OF wf assms(2)] encode_valid [OF v assms(4)] decode_encode_blob [OF v ne] by blast
qed

theorem graph_ir_blob_roundtrip_witness:
  "\<exists>ir blob. pai_ir_from_graph demo_graph = Inr ir \<and> pai_ir_encode ir 4096 = Inr blob \<and>
    pai_ir_decode blob = Returns (Inr ir) \<and> pai_ir_to_graph ir = Inr (fresh_graph demo_graph)"
proof -
  have "kinds_known demo_graph" "\<forall>p \<in> set (ops demo_graph). inputs p \<noteq> [] \<and> outputs p \<noteq> []"
    by (simp_all add: kinds_known_def demo_graph_eq)
  moreover have "length (encode_blob (ir_of_graph demo_graph)) \<le> 4096"
    by (simp add: encode_blob_def encode_body_def ir_of_graph_def demo_graph_eq encode_value_def ir_value_of_def
        PAI_TENSOR_MAX_RANK_def op_record_size_def ir_op_of_def five_zeros)
  ultimately show ?thesis by (rule graph_ir_blob_roundtrip [OF demo_built])
qed

end
