(* ===== verification/Kir.thy ===== *)
theory Kir
  imports Ir
begin

text \<open>
  \<^verbatim>\<open>ir/kir.c\<close>: kernel descriptors and the naive lowering of an IR program, one kernel per op.
\<close>

section \<open>Kernels\<close>

definition PAI_KIR_MAX_OPS :: nat where "PAI_KIR_MAX_OPS = 16"
definition PAI_KIR_OP_MAX_IN :: nat where "PAI_KIR_OP_MAX_IN = 8"
definition PAI_KIR_OP_MAX_OUT :: nat where "PAI_KIR_OP_MAX_OUT = 2"
definition PAI_KIR_NAME_MAX :: nat where "PAI_KIR_NAME_MAX = 32"
definition PAI_KIR_MEM_ROW_MAJOR :: u8 where "PAI_KIR_MEM_ROW_MAJOR = 0"
definition PAI_KIR_MEM_PACKED :: u8 where "PAI_KIR_MEM_PACKED = 2"

lemmas kir_consts = PAI_KIR_MAX_OPS_def PAI_KIR_OP_MAX_IN_def PAI_KIR_OP_MAX_OUT_def PAI_KIR_NAME_MAX_def
  PAI_KIR_MEM_ROW_MAJOR_def PAI_KIR_MEM_PACKED_def

type_synonym pai_kir_tile = "u32 \<times> u32 \<times> u32"

record pai_kir_op =
  kkind :: u8
  kvector_width :: u8
  kmem_layout :: u8
  kin :: "u16 list"
  kout :: "u16 list"

record pai_kir_kernel =
  kname :: string
  workgroup :: pai_kir_tile
  tile :: pai_kir_tile
  vector_width :: u8
  fusion :: u8
  kops :: "pai_kir_op list"

definition pai_kir_init :: "string option \<Rightarrow> pai_kir_kernel" where
  "pai_kir_init name =
     \<lparr>kname = (case name of None \<Rightarrow> '''' | Some s \<Rightarrow>
                 take (if length s \<ge> PAI_KIR_NAME_MAX then PAI_KIR_NAME_MAX - 1 else length s) s),
      workgroup = (64, 1, 1), tile = (1, 1, 1), vector_width = 1, fusion = 0, kops = []\<rparr>"

definition pai_kir_add_op ::
    "pai_kir_kernel \<Rightarrow> u8 \<Rightarrow> u16 list \<Rightarrow> u16 list \<Rightarrow> u8 \<Rightarrow> u8 \<Rightarrow> pai_kir_kernel res" where
  "pai_kir_add_op k kd ins outs vw layout =
     (if kd \<ge> PAI_IR_OP_KIND_COUNT \<or> length ins > PAI_KIR_OP_MAX_IN \<or> length outs > PAI_KIR_OP_MAX_OUT \<or>
         vw = 0 \<or> layout > PAI_KIR_MEM_PACKED \<or> length (kops k) \<ge> PAI_KIR_MAX_OPS
      then Inl PAI_ERR_INVALID_ARG
      else Inr (k\<lparr>kops := kops k @
        [\<lparr>kkind = kd, kvector_width = vw, kmem_layout = layout, kin = ins, kout = outs\<rparr>]\<rparr>))"

definition pai_kir_set_workgroup :: "pai_kir_kernel \<Rightarrow> u32 \<Rightarrow> u32 \<Rightarrow> u32 \<Rightarrow> pai_kir_kernel res" where
  "pai_kir_set_workgroup k x y z =
     (if x = 0 \<or> y = 0 \<or> z = 0 then Inl PAI_ERR_INVALID_ARG else Inr (k\<lparr>workgroup := (x, y, z)\<rparr>))"

definition pai_kir_set_tile :: "pai_kir_kernel \<Rightarrow> u32 \<Rightarrow> u32 \<Rightarrow> u32 \<Rightarrow> pai_kir_kernel res" where
  "pai_kir_set_tile k x y z =
     (if x = 0 \<or> y = 0 \<or> z = 0 then Inl PAI_ERR_INVALID_ARG else Inr (k\<lparr>tile := (x, y, z)\<rparr>))"

section \<open>Lowering\<close>

text \<open>\<open>%u\<close> of \<open>snprintf\<close>.\<close>

fun dec_str :: "nat \<Rightarrow> string" where
  "dec_str n = (if n < 10 then [char_of (48 + n)] else dec_str (n div 10) @ [char_of (48 + n mod 10)])"

declare dec_str.simps [simp del]

definition kernel_name :: "nat \<Rightarrow> u8 \<Rightarrow> string" where
  "kernel_name u kd = take (PAI_KIR_NAME_MAX - 1) (''k'' @ dec_str u @ ''_'' @ pai_ir_op_kind_name kd)"

definition vec_step :: "pai_ir_program \<Rightarrow> u8 \<Rightarrow> u16 \<Rightarrow> u8" where
  "vec_step prog vec d =
     (let v = ivalues prog ! (unat d - 1)
      in if ivsize v div ucast (pai_dtype_size (ivdtype v)) mod 4 \<noteq> 0 then 1 else vec)"

fun lower_loop :: "pai_ir_program \<Rightarrow> nat \<Rightarrow> nat \<Rightarrow> pai_kir_kernel list \<Rightarrow> pai_ir_op list \<Rightarrow> pai_kir_kernel list res" where
  "lower_loop prog max_kernels u kernels [] = Inr kernels"
| "lower_loop prog max_kernels u kernels (p # ps) =
     (if length kernels \<ge> max_kernels then Inl PAI_ERR_NOMEM
      else if length (ioinputs p) > PAI_KIR_OP_MAX_IN \<or> length (iooutputs p) > PAI_KIR_OP_MAX_OUT
      then Inl PAI_ERR_UNSUPPORTED
      else
        (let vec = foldl (vec_step prog) (foldl (vec_step prog) 4 (ioinputs p)) (iooutputs p);
             k = (pai_kir_init (Some (kernel_name u (iokind p))))\<lparr>vector_width := vec\<rparr>
         in case pai_kir_add_op k (iokind p) (ioinputs p) (iooutputs p) vec PAI_KIR_MEM_ROW_MAJOR of
              Inl e \<Rightarrow> Inl e
            | Inr k' \<Rightarrow> lower_loop prog max_kernels (u + 1) (kernels @ [k']) ps))"

definition pai_kir_lower_program :: "pai_ir_program \<Rightarrow> nat \<Rightarrow> pai_kir_kernel list res" where
  "pai_kir_lower_program prog max_kernels = lower_loop prog max_kernels 1 [] (iops prog)"

section \<open>Correctness of the lowering\<close>

text \<open>The number of elements of a value, over the natural numbers.\<close>

definition nelems :: "pai_ir_value \<Rightarrow> nat" where
  "nelems v = prod_list (map unat (take (unat (ivrank v)) (ivshape v)))"

lemma nelems_div:
  assumes "value_valid v"
  shows "unat (ivsize v div ucast (pai_dtype_size (ivdtype v))) = nelems v"
  using assms by (auto simp: value_valid_def contiguous_size_iff unat_div nelems_def unat_eq_0)

lemma word_mod_4: "(w :: u64) mod 4 = 0 \<longleftrightarrow> unat w mod 4 = 0"
  by (simp add: word_unat_eq_iff unat_mod)

definition aligned4 :: "pai_ir_program \<Rightarrow> u16 \<Rightarrow> bool" where
  "aligned4 prog d \<longleftrightarrow> 4 dvd nelems (ivalues prog ! (unat d - 1))"

lemma vec_fold:
  assumes "ir_valid prog" "\<forall>d \<in> set ds. d \<noteq> 0 \<and> unat d \<le> length (ivalues prog)" "vec \<in> {1, 4}"
  shows "foldl (vec_step prog) vec ds = (if \<forall>d \<in> set ds. aligned4 prog d then vec else 1)"
  using assms(2,3)
proof (induction ds arbitrary: vec)
  case (Cons d ds)
  let ?v = "ivalues prog ! (unat d - 1)"
  have "0 < unat d" "unat d \<le> length (ivalues prog)" using Cons.prems by (simp_all add: unat_gt_0)
  then have "?v \<in> set (ivalues prog)" by (intro nth_mem) linarith
  then have "value_valid ?v" using assms(1) by (simp add: ir_valid_def)
  then have step: "vec_step prog vec d = (if aligned4 prog d then vec else 1)"
    by (simp add: vec_step_def Let_def word_mod_4 nelems_div aligned4_def dvd_eq_mod_eq_0)
  show ?case using Cons.IH [of "vec_step prog vec d"] Cons.prems by (auto simp: step)
qed simp

definition op_vec :: "pai_ir_program \<Rightarrow> pai_ir_op \<Rightarrow> u8" where
  "op_vec prog p = (if \<forall>d \<in> set (ioinputs p) \<union> set (iooutputs p). aligned4 prog d then 4 else 1)"

definition kernel_of :: "pai_ir_program \<Rightarrow> nat \<Rightarrow> pai_ir_op \<Rightarrow> pai_kir_kernel" where
  "kernel_of prog u p =
     \<lparr>kname = kernel_name u (iokind p), workgroup = (64, 1, 1), tile = (1, 1, 1), vector_width = op_vec prog p,
      fusion = 0,
      kops = [\<lparr>kkind = iokind p, kvector_width = op_vec prog p, kmem_layout = 0, kin = ioinputs p, kout = iooutputs p\<rparr>]\<rparr>"

lemma lower_loop_ok:
  assumes v: "ir_valid prog"
    and "\<forall>p \<in> set ps. op_valid (length (ivalues prog)) p \<and> length (ioinputs p) \<le> 8 \<and> length (iooutputs p) \<le> 2"
    and "length kernels + length ps \<le> max_kernels"
  shows "lower_loop prog max_kernels u kernels ps =
    Inr (kernels @ map (\<lambda>i. kernel_of prog (u + i) (ps ! i)) [0 ..< length ps])"
  using assms(2,3)
proof (induction ps arbitrary: u kernels)
  case (Cons p ps)
  have p: "op_valid (length (ivalues prog)) p" "length (ioinputs p) \<le> 8" "length (iooutputs p) \<le> 2"
    using Cons.prems by simp_all
  have "foldl (vec_step prog) (foldl (vec_step prog) 4 (ioinputs p)) (iooutputs p) = op_vec prog p"
    using p(1) vec_fold [OF v, of "ioinputs p" 4] vec_fold [OF v, of "iooutputs p"]
    by (auto simp: op_valid_def op_vec_def)
  moreover have "op_vec prog p \<noteq> 0" by (simp add: op_vec_def)
  moreover have "length (kernel_name u (iokind p)) < 32" by (simp add: kernel_name_def kir_consts)
  ultimately have k: "pai_kir_add_op ((pai_kir_init (Some (kernel_name u (iokind p))))\<lparr>vector_width := op_vec prog p\<rparr>)
      (iokind p) (ioinputs p) (iooutputs p) (op_vec prog p) PAI_KIR_MEM_ROW_MAJOR = Inr (kernel_of prog u p)"
    "foldl (vec_step prog) (foldl (vec_step prog) 4 (ioinputs p)) (iooutputs p) = op_vec prog p"
    using p by (auto simp: pai_kir_add_op_def pai_kir_init_def kernel_of_def kir_consts op_valid_def)
  have "lower_loop prog max_kernels u kernels (p # ps) =
      lower_loop prog max_kernels (u + 1) (kernels @ [kernel_of prog u p]) ps"
    using p(2,3) Cons.prems k by (simp add: kir_consts Let_def)
  also have "\<dots> = Inr ((kernels @ [kernel_of prog u p]) @
      map (\<lambda>i. kernel_of prog (u + 1 + i) (ps ! i)) [0 ..< length ps])"
    using Cons.prems by (intro Cons.IH) simp_all
  also have "\<dots> = Inr (kernels @ map (\<lambda>i. kernel_of prog (u + i) ((p # ps) ! i)) [0 ..< length (p # ps)])"
    by (simp add: map_upt_Suc del: upt_Suc)
  finally show ?case .
qed simp

text \<open>Lowering a program built through the interface, whose ops have at most eight inputs and two
  outputs, into a large enough array gives one kernel per op in order: same kind, same value ids, one
  64-wide workgroup, and vector width 4 exactly when every buffer of the op holds a multiple of four
  elements.\<close>

theorem kir_lower_exact:
  assumes "ir_built prog" and "length (iops prog) \<le> max_kernels"
    and "\<forall>p \<in> set (iops prog). length (ioinputs p) \<le> 8 \<and> length (iooutputs p) \<le> 2"
  shows "pai_kir_lower_program prog max_kernels =
    Inr (map (\<lambda>i. kernel_of prog (i + 1) (iops prog ! i)) [0 ..< length (iops prog)])"
  using lower_loop_ok [OF built_valid [OF assms(1)], of "iops prog" "[]" max_kernels 1] assms
    built_valid [OF assms(1)]
  by (auto simp: pai_kir_lower_program_def ir_valid_def)

theorem kir_lower_exact_witness:
  "pai_kir_lower_program (fst (pai_ir_add_op pai_ir_init 17 0 [] [])) 8 =
     Inr [kernel_of (fst (pai_ir_add_op pai_ir_init 17 0 [] [])) 1 \<lparr>iokind = 17, iodevice = 0, ioinputs = [], iooutputs = []\<rparr>]"
proof -
  have b: "ir_built (fst (pai_ir_add_op pai_ir_init 17 0 [] []))" by (intro ir_built.intros(1,4))
  have eq: "iops (fst (pai_ir_add_op pai_ir_init 17 0 [] [])) = [\<lparr>iokind = 17, iodevice = 0, ioinputs = [], iooutputs = []\<rparr>]"
    by (simp add: pai_ir_add_op_def pai_ir_init_def ir_consts)
  show ?thesis using kir_lower_exact [OF b, of 8] by (simp add: eq)
qed

end
