(* ===== verification/Pm4.thy ===== *)
theory Pm4
  imports Prelude
begin

text \<open>
  \<^verbatim>\<open>gpu/pm4/pm4.c\<close>: the builder of PM4 command streams. The buffer is a list of dwords; a store beyond
  it is a fault. The calls of the builder are also collected in one datatype, \<open>pm4_cmd\<close>, so that a
  stream is the result of a list of calls.
\<close>

section \<open>Constants\<close>

definition PAI_PM4_OP_NOP :: u32 where "PAI_PM4_OP_NOP = 0x10"
definition PAI_PM4_OP_DISPATCH_DIRECT :: u32 where "PAI_PM4_OP_DISPATCH_DIRECT = 0x15"
definition PAI_PM4_OP_CONTEXT_CONTROL :: u32 where "PAI_PM4_OP_CONTEXT_CONTROL = 0x28"
definition PAI_PM4_OP_INDIRECT_BUFFER :: u32 where "PAI_PM4_OP_INDIRECT_BUFFER = 0x3F"
definition PAI_PM4_OP_ACQUIRE_MEM :: u32 where "PAI_PM4_OP_ACQUIRE_MEM = 0x58"
definition PAI_PM4_OP_EVENT_WRITE :: u32 where "PAI_PM4_OP_EVENT_WRITE = 0x46"
definition PAI_PM4_OP_RELEASE_MEM :: u32 where "PAI_PM4_OP_RELEASE_MEM = 0x49"
definition PAI_PM4_OP_DMA_DATA :: u32 where "PAI_PM4_OP_DMA_DATA = 0x50"
definition PAI_PM4_OP_SET_SH_REG :: u32 where "PAI_PM4_OP_SET_SH_REG = 0x76"
definition PAI_PM4_OP_WAIT_REG_MEM :: u32 where "PAI_PM4_OP_WAIT_REG_MEM = 0x3C"
definition PAI_PM4_OP_WRITE_DATA :: u32 where "PAI_PM4_OP_WRITE_DATA = 0x37"
definition PAI_PM4_DISPATCH_INITIATOR :: u32 where "PAI_PM4_DISPATCH_INITIATOR = 0x41"
definition PAI_GFX1013_EOP_CACHE_FLUSH_EVENT :: u32 where "PAI_GFX1013_EOP_CACHE_FLUSH_EVENT = 0x14"
definition PAI_GFX1013_EOP_GCR_CONTROL :: u32 where "PAI_GFX1013_EOP_GCR_CONTROL = 0x703"
definition PAI_GFX1013_EOP_CACHE_POLICY :: u32 where "PAI_GFX1013_EOP_CACHE_POLICY = 3"
definition PAI_GFX1013_EOP_EVENT_INDEX :: u32 where "PAI_GFX1013_EOP_EVENT_INDEX = 5"
definition PAI_GFX1013_EOP_DATA_SEL_32B :: u32 where "PAI_GFX1013_EOP_DATA_SEL_32B = 1"

lemmas pm4_ops = PAI_PM4_OP_NOP_def PAI_PM4_OP_DISPATCH_DIRECT_def PAI_PM4_OP_CONTEXT_CONTROL_def
  PAI_PM4_OP_INDIRECT_BUFFER_def PAI_PM4_OP_ACQUIRE_MEM_def PAI_PM4_OP_EVENT_WRITE_def PAI_PM4_OP_RELEASE_MEM_def
  PAI_PM4_OP_DMA_DATA_def PAI_PM4_OP_SET_SH_REG_def PAI_PM4_OP_WAIT_REG_MEM_def PAI_PM4_OP_WRITE_DATA_def

lemmas pm4_consts = PAI_PM4_DISPATCH_INITIATOR_def PAI_GFX1013_EOP_CACHE_FLUSH_EVENT_def
  PAI_GFX1013_EOP_GCR_CONTROL_def PAI_GFX1013_EOP_CACHE_POLICY_def PAI_GFX1013_EOP_EVENT_INDEX_def
  PAI_GFX1013_EOP_DATA_SEL_32B_def

section \<open>Builder\<close>

record pai_pm4_builder =
  pbuf :: "u32 list"
  pcap :: u32
  plen :: u32

definition pai_pm4_builder_init :: "u32 list \<Rightarrow> u32 \<Rightarrow> pai_pm4_builder" where
  "pai_pm4_builder_init buf c = \<lparr>pbuf = buf, pcap = c, plen = 0\<rparr>"

text \<open>The result is the index of the reserved dwords in the buffer.\<close>

definition pai_pm4_emit :: "pai_pm4_builder \<Rightarrow> u32 \<Rightarrow> pai_pm4_builder \<times> nat option" where
  "pai_pm4_emit b dwords =
     (if dwords = 0 \<or> dwords > pcap b - plen b then (b, None)
      else (b\<lparr>plen := plen b + dwords\<rparr>, Some (unat (plen b))))"

definition pai_pm4_header3 :: "u32 \<Rightarrow> u32 \<Rightarrow> u32" where
  "pai_pm4_header3 opc count = 0xC0000000 OR push_bit 16 ((count - 2) AND 0x3FFF) OR push_bit 8 opc"

definition pm4_store :: "pai_pm4_builder \<Rightarrow> nat \<Rightarrow> u32 list \<Rightarrow> (pai_pm4_builder \<times> nat option) outcome" where
  "pm4_store b p ws =
     (if p + length ws > length (pbuf b) then Fault
      else Returns (b\<lparr>pbuf := take p (pbuf b) @ ws @ drop (p + length ws) (pbuf b)\<rparr>, Some p))"

text \<open>The shape of every packet function: reserve, give up when there is no room, else store; \<open>ok\<close> is
  the part of the argument check that is made after the reservation.\<close>

definition pm4_packet ::
    "pai_pm4_builder \<Rightarrow> u32 \<Rightarrow> bool \<Rightarrow> u32 list \<Rightarrow> (pai_pm4_builder \<times> nat option) outcome" where
  "pm4_packet b dwords ok ws =
     (case pai_pm4_emit b dwords of
        (b', None) \<Rightarrow> Returns (b', None)
      | (b', Some p) \<Rightarrow> if ok then pm4_store b' p ws else Returns (b', None))"

definition pai_pm4_nop :: "pai_pm4_builder \<Rightarrow> u32 \<Rightarrow> (pai_pm4_builder \<times> nat option) outcome" where
  "pai_pm4_nop b dwords =
     (if dwords < 2 then Returns (b, None)
      else pm4_packet b dwords True (pai_pm4_header3 PAI_PM4_OP_NOP dwords # replicate (unat dwords - 1) 0))"

definition pai_pm4_set_sh_reg_compute ::
    "pai_pm4_builder \<Rightarrow> u32 \<Rightarrow> u32 list \<Rightarrow> (pai_pm4_builder \<times> nat option) outcome" where
  "pai_pm4_set_sh_reg_compute b reg_offset vals =
     (if vals = [] \<or> length vals > 0x3FFE then Returns (b, None)
      else pm4_packet b (of_nat (length vals) + 2) True
        ((pai_pm4_header3 PAI_PM4_OP_SET_SH_REG (of_nat (length vals) + 2) OR 1) # (reg_offset AND 0xFFFF) # vals))"

definition pai_pm4_dispatch_direct ::
    "pai_pm4_builder \<Rightarrow> u32 \<Rightarrow> u32 \<Rightarrow> u32 \<Rightarrow> u32 \<Rightarrow> (pai_pm4_builder \<times> nat option) outcome" where
  "pai_pm4_dispatch_direct b group_x group_y group_z modifier =
     pm4_packet b 5 True
       [pai_pm4_header3 PAI_PM4_OP_DISPATCH_DIRECT 5 OR 1, group_x, group_y, group_z,
        (modifier AND 0xA038) OR PAI_PM4_DISPATCH_INITIATOR]"

definition pai_pm4_context_control ::
    "pai_pm4_builder \<Rightarrow> u32 \<Rightarrow> u32 \<Rightarrow> (pai_pm4_builder \<times> nat option) outcome" where
  "pai_pm4_context_control b load_control shadow_control =
     pm4_packet b 3 True [pai_pm4_header3 PAI_PM4_OP_CONTEXT_CONTROL 3, load_control, shadow_control]"

definition pai_pm4_acquire_mem :: "pai_pm4_builder \<Rightarrow> (pai_pm4_builder \<times> nat option) outcome" where
  "pai_pm4_acquire_mem b =
     pm4_packet b 8 True [pai_pm4_header3 PAI_PM4_OP_ACQUIRE_MEM 8, 0, 0xFFFFFFFF, 0x00FFFFFF, 0, 0, 0x0A, 0xC3B1]"

definition pai_pm4_release_mem_eop ::
    "pai_pm4_builder \<Rightarrow> u32 \<Rightarrow> u32 \<Rightarrow> u64 \<Rightarrow> u32 \<Rightarrow> (pai_pm4_builder \<times> nat option) outcome" where
  "pai_pm4_release_mem_eop b event_type event_index addr dat =
     pm4_packet b 8 True
       [pai_pm4_header3 PAI_PM4_OP_RELEASE_MEM 8, (event_type AND 0x3F) OR push_bit 8 (event_index AND 0x0F),
        ucast (addr AND 0xFFFFFFFF), ucast (drop_bit 32 addr), dat, 0, 0, 0]"

definition pai_pm4_release_mem_eop_fence ::
    "pai_pm4_builder \<Rightarrow> u64 \<Rightarrow> u32 \<Rightarrow> (pai_pm4_builder \<times> nat option) outcome" where
  "pai_pm4_release_mem_eop_fence b addr v =
     pm4_packet b 8 True
       [pai_pm4_header3 PAI_PM4_OP_RELEASE_MEM 8,
        (PAI_GFX1013_EOP_CACHE_FLUSH_EVENT AND 0x3F) OR push_bit 8 PAI_GFX1013_EOP_EVENT_INDEX OR
          push_bit 12 (PAI_GFX1013_EOP_GCR_CONTROL AND 0xFFF) OR push_bit 25 (PAI_GFX1013_EOP_CACHE_POLICY AND 3),
        push_bit 16 0 OR push_bit 24 0 OR push_bit 29 PAI_GFX1013_EOP_DATA_SEL_32B,
        ucast addr AND 0xFFFFFFFC, ucast (drop_bit 32 addr), v, 0, 0]"

definition pai_pm4_write_data ::
    "pai_pm4_builder \<Rightarrow> u64 \<Rightarrow> u32 list \<Rightarrow> (pai_pm4_builder \<times> nat option) outcome" where
  "pai_pm4_write_data b addr dat =
     (if dat = [] \<or> length dat > 0x3FFD then Returns (b, None)
      else pm4_packet b (of_nat (length dat) + 4) True
        (pai_pm4_header3 PAI_PM4_OP_WRITE_DATA (of_nat (length dat) + 4) # 0 # (ucast addr AND NOT 3) #
         ucast (drop_bit 32 addr) # dat))"

definition pai_pm4_dma_data ::
    "pai_pm4_builder \<Rightarrow> u64 \<Rightarrow> u64 \<Rightarrow> u32 \<Rightarrow> (pai_pm4_builder \<times> nat option) outcome" where
  "pai_pm4_dma_data b src dst n =
     pm4_packet b 7 (\<not> n > 0x1FFFFF)
       [push_bit 30 3 OR push_bit 1 1 OR push_bit 8 PAI_PM4_OP_DMA_DATA OR push_bit 16 5,
        push_bit 13 2 OR push_bit 15 1 OR push_bit 25 2 OR push_bit 27 1 OR push_bit 31 1,
        ucast (src AND 0xFFFFFFFF), ucast (drop_bit 32 src), ucast (dst AND 0xFFFFFFFF), ucast (drop_bit 32 dst),
        n AND 0x1FFFFF]"

definition pai_pm4_indirect_buffer ::
    "pai_pm4_builder \<Rightarrow> u64 \<Rightarrow> u32 \<Rightarrow> (pai_pm4_builder \<times> nat option) outcome" where
  "pai_pm4_indirect_buffer b ib_addr ib_size_dwords =
     pm4_packet b 4 (\<not> ib_size_dwords > 0xFFFFF)
       [pai_pm4_header3 PAI_PM4_OP_INDIRECT_BUFFER 4, ucast (ib_addr AND 0xFFFFFFFF),
        ucast (drop_bit 32 ib_addr) AND 0xFFFF, ib_size_dwords AND 0xFFFFF]"

definition pai_pm4_wait_reg_mem ::
    "pai_pm4_builder \<Rightarrow> u32 \<Rightarrow> u32 \<Rightarrow> u32 \<Rightarrow> u64 \<Rightarrow> u32 \<Rightarrow> u32 \<Rightarrow> u32 \<Rightarrow>
     (pai_pm4_builder \<times> nat option) outcome" where
  "pai_pm4_wait_reg_mem b compare_function operation cache_policy address reference msk poll_cycles =
     pm4_packet b 7 (\<not> (compare_function > 7 \<or> operation > 4 \<or> cache_policy > 3))
       [pai_pm4_header3 PAI_PM4_OP_WAIT_REG_MEM 7,
        0x10 OR (compare_function AND 7) OR push_bit 8 (operation AND 3) OR push_bit 4 (operation AND 0xC) OR
          push_bit 25 (cache_policy AND 3),
        ucast address AND NOT 3, ucast (drop_bit 32 address) AND 0x3FFFF, reference, msk,
        if poll_cycles > 0xFFFF0 then 0xFFFF else drop_bit 4 poll_cycles]"

definition pai_pm4_event_write ::
    "pai_pm4_builder \<Rightarrow> u32 \<Rightarrow> u32 \<Rightarrow> (pai_pm4_builder \<times> nat option) outcome" where
  "pai_pm4_event_write b event_type event_index =
     pm4_packet b 2 True
       [pai_pm4_header3 PAI_PM4_OP_EVENT_WRITE 2, (event_type AND 0x3F) OR push_bit 8 (event_index AND 0xF)]"

section \<open>Streams of calls\<close>

datatype pm4_cmd =
    Nop u32
  | SetShReg u32 "u32 list"
  | DispatchDirect u32 u32 u32 u32
  | ContextControl u32 u32
  | AcquireMem
  | ReleaseMemEop u32 u32 u64 u32
  | EopFence u64 u32
  | WriteData u64 "u32 list"
  | DmaData u64 u64 u32
  | IndirectBuffer u64 u32
  | WaitRegMem u32 u32 u32 u64 u32 u32 u32
  | EventWrite u32 u32

fun pm4_call :: "pai_pm4_builder \<Rightarrow> pm4_cmd \<Rightarrow> (pai_pm4_builder \<times> nat option) outcome" where
  "pm4_call b (Nop n) = pai_pm4_nop b n"
| "pm4_call b (SetShReg r vs) = pai_pm4_set_sh_reg_compute b r vs"
| "pm4_call b (DispatchDirect x y z m) = pai_pm4_dispatch_direct b x y z m"
| "pm4_call b (ContextControl l s) = pai_pm4_context_control b l s"
| "pm4_call b AcquireMem = pai_pm4_acquire_mem b"
| "pm4_call b (ReleaseMemEop t i a d) = pai_pm4_release_mem_eop b t i a d"
| "pm4_call b (EopFence a v) = pai_pm4_release_mem_eop_fence b a v"
| "pm4_call b (WriteData a ds) = pai_pm4_write_data b a ds"
| "pm4_call b (DmaData s d n) = pai_pm4_dma_data b s d n"
| "pm4_call b (IndirectBuffer a n) = pai_pm4_indirect_buffer b a n"
| "pm4_call b (WaitRegMem c p q a r m k) = pai_pm4_wait_reg_mem b c p q a r m k"
| "pm4_call b (EventWrite t i) = pai_pm4_event_write b t i"

text \<open>A list of calls: whether every one of them got its packet, and the builder after them.\<close>

fun pm4_calls :: "pai_pm4_builder \<Rightarrow> pm4_cmd list \<Rightarrow> (pai_pm4_builder \<times> bool) outcome" where
  "pm4_calls b [] = Returns (b, True)"
| "pm4_calls b (c # cs) =
     (case pm4_call b c of
        Returns (b', Some p) \<Rightarrow> pm4_calls b' cs
      | Returns (b', None) \<Rightarrow> Returns (b', False)
      | Fault \<Rightarrow> Fault
      | Diverges \<Rightarrow> Diverges)"

section \<open>Packets\<close>

definition hdr_type :: "u32 \<Rightarrow> u32" where "hdr_type h = drop_bit 30 h"
definition hdr_op :: "u32 \<Rightarrow> u32" where "hdr_op h = drop_bit 8 h AND 0xFF"
definition hdr_count :: "u32 \<Rightarrow> u32" where "hdr_count h = (drop_bit 16 h AND 0x3FFF) + 2"

lemma masks: "(0xFF :: u32) = mask 8" "(0x3FFF :: u32) = mask 14" "(3 :: u32) = mask 2"
  "(0xC0000000 :: u32) = push_bit 30 (mask 2)"
  by (simp_all add: mask_eq_exp_minus_1)

lemma opc_bit: "opc AND 0xFF = opc \<Longrightarrow> bit (opc :: u32) n \<Longrightarrow> n < 8"
  by (metis bit_and_iff bit_mask_iff masks(1))

lemma pm4_header_fields:
  assumes "opc AND 0xFF = opc" "low = 0 \<or> low = 1"
  shows "hdr_type (pai_pm4_header3 opc n OR low) = 3" "hdr_op (pai_pm4_header3 opc n OR low) = opc"
    "hdr_count (pai_pm4_header3 opc n OR low) = ((n - 2) AND 0x3FFF) + 2"
proof -
  have low: "bit low k \<Longrightarrow> k = 0" for k
    using assms(2) by (auto simp: bit_1_iff)
  note bits = hdr_type_def hdr_op_def hdr_count_def pai_pm4_header3_def masks
  show "hdr_type (pai_pm4_header3 opc n OR low) = 3" unfolding bits
    by (rule bit_word_eqI) (auto simp: bit_simps dest!: opc_bit [OF assms(1)] low)
  show "hdr_op (pai_pm4_header3 opc n OR low) = opc" unfolding bits
    by (rule bit_word_eqI) (auto simp: bit_simps dest: opc_bit [OF assms(1)] low)
  have "drop_bit 16 (pai_pm4_header3 opc n OR low) AND 0x3FFF = (n - 2) AND 0x3FFF" unfolding bits
    by (rule bit_word_eqI) (auto simp: bit_simps dest!: opc_bit [OF assms(1)] low)
  then show "hdr_count (pai_pm4_header3 opc n OR low) = ((n - 2) AND 0x3FFF) + 2" by (simp add: hdr_count_def)
qed

lemma and_3FFF: "unat (w :: u32) < 0x4000 \<Longrightarrow> w AND 0x3FFF = w"
  unfolding masks by (simp add: word_unat_eq_iff unsigned_take_bit_eq take_bit_nat_eq_self flip: take_bit_eq_mask)

definition addr_of :: "u32 \<Rightarrow> u32 \<Rightarrow> u64" where
  "addr_of lo hi = ucast lo OR push_bit 32 (ucast hi)"

text \<open>What a packet says, read back from its dwords; the header names the opcode and the number of
  dwords.\<close>

fun packet_says :: "pm4_cmd \<Rightarrow> u32 list \<Rightarrow> bool" where
  "packet_says (Nop n) ws \<longleftrightarrow> hdr_op (ws ! 0) = PAI_PM4_OP_NOP \<and> length ws = unat n"
| "packet_says (SetShReg r vs) ws \<longleftrightarrow>
     hdr_op (ws ! 0) = PAI_PM4_OP_SET_SH_REG \<and> ws ! 1 = r AND 0xFFFF \<and> drop 2 ws = vs \<and> length ws = length vs + 2"
| "packet_says (DispatchDirect x y z m) ws \<longleftrightarrow>
     hdr_op (ws ! 0) = PAI_PM4_OP_DISPATCH_DIRECT \<and> length ws = 5 \<and> ws ! 1 = x \<and> ws ! 2 = y \<and> ws ! 3 = z"
| "packet_says (ContextControl l s) ws \<longleftrightarrow>
     hdr_op (ws ! 0) = PAI_PM4_OP_CONTEXT_CONTROL \<and> length ws = 3 \<and> ws ! 1 = l \<and> ws ! 2 = s"
| "packet_says AcquireMem ws \<longleftrightarrow> hdr_op (ws ! 0) = PAI_PM4_OP_ACQUIRE_MEM \<and> length ws = 8"
| "packet_says (ReleaseMemEop t i a d) ws \<longleftrightarrow>
     hdr_op (ws ! 0) = PAI_PM4_OP_RELEASE_MEM \<and> length ws = 8 \<and> ws ! 1 AND 0xFFF000 \<noteq> 0x703000 \<and>
     addr_of (ws ! 2) (ws ! 3) = a \<and> ws ! 4 = d"
| "packet_says (EopFence a v) ws \<longleftrightarrow>
     hdr_op (ws ! 0) = PAI_PM4_OP_RELEASE_MEM \<and> length ws = 8 \<and> ws ! 1 AND 0xFFF000 = 0x703000 \<and>
     addr_of (ws ! 3) (ws ! 4) = a AND NOT 3 \<and> ws ! 5 = v"
| "packet_says (WriteData a ds) ws \<longleftrightarrow>
     hdr_op (ws ! 0) = PAI_PM4_OP_WRITE_DATA \<and> length ws = length ds + 4 \<and> addr_of (ws ! 2) (ws ! 3) = a AND NOT 3 \<and>
     drop 4 ws = ds"
| "packet_says (DmaData s d n) ws \<longleftrightarrow>
     hdr_op (ws ! 0) = PAI_PM4_OP_DMA_DATA \<and> length ws = 7 \<and> addr_of (ws ! 2) (ws ! 3) = s \<and>
     addr_of (ws ! 4) (ws ! 5) = d \<and> ws ! 6 AND 0x1FFFFF = n"
| "packet_says (IndirectBuffer a n) ws \<longleftrightarrow>
     hdr_op (ws ! 0) = PAI_PM4_OP_INDIRECT_BUFFER \<and> length ws = 4 \<and> addr_of (ws ! 1) (ws ! 2) = a AND mask 48 \<and>
     ws ! 3 AND 0xFFFFF = n"
| "packet_says (WaitRegMem c p q a r m k) ws \<longleftrightarrow>
     hdr_op (ws ! 0) = PAI_PM4_OP_WAIT_REG_MEM \<and> length ws = 7 \<and> ws ! 4 = r \<and> ws ! 5 = m"
| "packet_says (EventWrite t i) ws \<longleftrightarrow> hdr_op (ws ! 0) = PAI_PM4_OP_EVENT_WRITE \<and> length ws = 2"

definition packet_ok :: "pm4_cmd \<Rightarrow> u32 list \<Rightarrow> bool" where
  "packet_ok c ws \<longleftrightarrow> 2 \<le> length ws \<and> hdr_type (ws ! 0) = 3 \<and> unat (hdr_count (ws ! 0)) = length ws \<and> packet_says c ws"

lemma addr_masks: "(0xFFFFFFFF :: u64) = mask 32" "(3 :: u64) = mask 2" "(0xFFFF :: u32) = mask 16"
  by (simp_all add: mask_eq_exp_minus_1)

lemma addr_of_split: "addr_of (ucast (a AND 0xFFFFFFFF)) (ucast (drop_bit 32 a)) = a"
  unfolding addr_of_def addr_masks by (intro bit_word_eqI) (auto simp: bit_simps)

lemma addr_of_align: "addr_of (ucast a AND NOT 3) (ucast (drop_bit 32 a)) = a AND NOT 3"
  unfolding addr_of_def addr_masks masks
  by (intro bit_word_eqI) (auto simp: bit_simps, metis le_add_diff_inverse not_less)

lemma addr_of_48: "addr_of (ucast (a AND 0xFFFFFFFF)) (ucast (drop_bit 32 a) AND 0xFFFF) = a AND mask 48"
  unfolding addr_of_def addr_masks by (intro bit_word_eqI) (auto simp: bit_simps)

lemma fence_mask: "(0xFFFFFFFC :: u32) = NOT 3" by simp

lemma and_small: "(w :: u32) AND mask k = w" if "unat w < 2 ^ k"
  using that by (simp add: word_unat_eq_iff unsigned_take_bit_eq take_bit_nat_eq_self flip: take_bit_eq_mask)

lemma and_1FFFFF: "\<not> (w :: u32) > 0x1FFFFF \<Longrightarrow> w AND 0x1FFFFF = w" "\<not> w > 0xFFFFF \<Longrightarrow> w AND 0xFFFFF = w"
  using and_small [of w 21] and_small [of w 20] by (simp_all add: word_less_nat_alt mask_eq_exp_minus_1)

lemma legacy_mask: "((t AND 0x3F) OR push_bit 8 (i AND 0x0F)) AND 0xFFF000 \<noteq> (0x703000 :: u32)"
proof -
  have m: "(0x3F :: u32) = mask 6" "(0x0F :: u32) = mask 4" by (simp_all add: mask_eq_exp_minus_1)
  have "\<not> bit (((t AND 0x3F) OR push_bit 8 (i AND 0x0F)) AND 0xFFF000 :: u32) 12"
    unfolding m by (simp add: bit_simps)
  moreover have "bit (0x703000 :: u32) 12" by simp
  ultimately show ?thesis by metis
qed

section \<open>The builder writes exactly its packets\<close>

definition b_ok :: "pai_pm4_builder \<Rightarrow> bool" where
  "b_ok b \<longleftrightarrow> plen b \<le> pcap b \<and> unat (pcap b) \<le> length (pbuf b)"

definition written :: "pai_pm4_builder \<Rightarrow> u32 list" where
  "written b = take (unat (plen b)) (pbuf b)"

text \<open>The builder \<open>b'\<close> is \<open>b\<close> with the dwords \<open>ws\<close> appended and nothing else changed.\<close>

definition extends :: "pai_pm4_builder \<Rightarrow> u32 list \<Rightarrow> pai_pm4_builder \<Rightarrow> bool" where
  "extends b ws b' \<longleftrightarrow> written b' = written b @ ws \<and> unat (plen b') = unat (plen b) + length ws \<and>
     pcap b' = pcap b \<and> length (pbuf b') = length (pbuf b) \<and>
     drop (unat (plen b')) (pbuf b') = drop (unat (plen b')) (pbuf b)"

lemma emit_cases:
  assumes "b_ok b"
  obtains "pai_pm4_emit b n = (b, None)" "n = 0 \<or> unat (plen b) + unat n > unat (pcap b)"
  | "pai_pm4_emit b n = (b\<lparr>plen := plen b + n\<rparr>, Some (unat (plen b)))" "0 < unat n"
    "unat (plen b + n) = unat (plen b) + unat n" "unat (plen b) + unat n \<le> unat (pcap b)"
proof -
  have sub: "unat (pcap b - plen b) = unat (pcap b) - unat (plen b)" and le: "unat (plen b) \<le> unat (pcap b)"
    using assms by (simp_all add: b_ok_def unat_sub word_le_nat_alt)
  show thesis
  proof (cases "n = 0 \<or> n > pcap b - plen b")
    case True
    then have "n = 0 \<or> unat (plen b) + unat n > unat (pcap b)" using sub le by (auto simp: word_less_nat_alt)
    then show ?thesis using that(1) True by (simp add: pai_pm4_emit_def)
  next
    case False
    then have "\<not> unat (pcap b) - unat (plen b) < unat n" using sub by (simp add: word_less_nat_alt)
    then have "unat (plen b) + unat n \<le> unat (pcap b)" using le by linarith
    moreover from this have "unat (plen b + n) = unat (plen b) + unat n"
      using unsigned_less [of "pcap b", where 'a = nat] by (simp add: unat_word_ariths)
    ultimately show ?thesis using that(2) False by (simp add: pai_pm4_emit_def unat_gt_0)
  qed
qed

lemma packet_cases:
  assumes b: "b_ok b" and n: "length ws = unat n"
  obtains "pm4_packet b n ok ws = Returns (b, None)" "n = 0 \<or> unat (plen b) + unat n > unat (pcap b)"
  | "\<not> ok" "pm4_packet b n ok ws = Returns (b\<lparr>plen := plen b + n\<rparr>, None)" "b_ok (b\<lparr>plen := plen b + n\<rparr>)"
  | b' where "ok" "pm4_packet b n ok ws = Returns (b', Some (unat (plen b)))" "extends b ws b'" "b_ok b'"
    "0 < unat n" "unat (plen b) + unat n \<le> unat (pcap b)"
proof (rule emit_cases [OF b, of n])
  assume "pai_pm4_emit b n = (b, None)" "n = 0 \<or> unat (plen b) + unat n > unat (pcap b)"
  then show thesis using that(1) by (simp add: pm4_packet_def)
next
  assume e: "pai_pm4_emit b n = (b\<lparr>plen := plen b + n\<rparr>, Some (unat (plen b)))" "0 < unat n"
    "unat (plen b + n) = unat (plen b) + unat n" "unat (plen b) + unat n \<le> unat (pcap b)"
  have ok': "b_ok (b\<lparr>plen := plen b + n\<rparr>)" using b e(3,4) by (simp add: b_ok_def word_le_nat_alt)
  show thesis
  proof (cases ok)
    case False
    then show ?thesis using that(2) e(1) ok' by (simp add: pm4_packet_def)
  next
    case True
    let ?p = "unat (plen b)"
    let ?b = "b\<lparr>plen := plen b + n, pbuf := take ?p (pbuf b) @ ws @ drop (?p + length ws) (pbuf b)\<rparr>"
    have fit: "?p + length ws \<le> length (pbuf b)" using b e(4) n by (simp add: b_ok_def)
    have "pm4_packet b n ok ws = Returns (?b, Some ?p)"
      using True e(1) fit by (simp add: pm4_packet_def pm4_store_def)
    moreover have "extends b ws ?b" using fit e(3) n by (auto simp: extends_def written_def min_def)
    moreover have "b_ok ?b" using b e(3,4) n fit by (simp add: b_ok_def word_le_nat_alt)
    ultimately show ?thesis using that(3) True e by blast
  qed
qed

definition call_spec :: "pai_pm4_builder \<Rightarrow> pm4_cmd \<Rightarrow> (pai_pm4_builder \<times> nat option) outcome \<Rightarrow> bool" where
  "call_spec b c r \<longleftrightarrow>
     (\<exists>b'. b_ok b' \<and>
        (r = Returns (b', None) \<or> (\<exists>ws. r = Returns (b', Some (unat (plen b))) \<and> extends b ws b' \<and> packet_ok c ws)))"

lemma packet_spec:
  assumes "b_ok b" "length ws = unat n" "ok \<Longrightarrow> packet_ok c ws"
  shows "call_spec b c (pm4_packet b n ok ws)"
  using assms by (cases rule: packet_cases [OF assms(1,2), of ok]) (auto simp: call_spec_def)

lemma spec_none [simp]: "b_ok b \<Longrightarrow> call_spec b c (Returns (b, None))"
  by (auto simp: call_spec_def)

lemma packet_okI:
  assumes "length ws = unat n" "2 \<le> unat n" "unat n \<le> 0x4001" "hd ws = pai_pm4_header3 opc n OR low"
    "opc AND 0xFF = opc" "low = 0 \<or> low = 1" "hdr_op (ws ! 0) = opc \<Longrightarrow> packet_says c ws"
  shows "packet_ok c ws"
proof -
  have h: "ws ! 0 = pai_pm4_header3 opc n OR low" using assms(1,2,4) by (cases ws) auto
  have "unat (n - 2) = unat n - 2" using assms(2) by (simp add: unat_sub word_le_nat_alt)
  then have "(n - 2) AND 0x3FFF = n - 2" using assms(3) by (intro and_3FFF) simp
  then show ?thesis using pm4_header_fields [OF assms(5,6), of n] h assms(1,2,7) by (simp add: packet_ok_def)
qed

definition small_nop :: "pm4_cmd \<Rightarrow> bool" where
  "small_nop c \<longleftrightarrow> (case c of Nop n \<Rightarrow> unat n \<le> 0x4001 | _ \<Rightarrow> True)"

lemma len_word: "k \<le> 0x4001 \<Longrightarrow> m \<le> 4 \<Longrightarrow> unat (of_nat k + of_nat m :: u32) = k + m"
  by (simp add: unat_word_ariths unsigned_of_nat take_bit_nat_eq_self)

lemma call_correct:
  assumes b: "b_ok b" and c: "small_nop c"
  shows "call_spec b c (pm4_call b c)"
proof (cases c)
  case (Nop n)
  have "packet_ok c (pai_pm4_header3 PAI_PM4_OP_NOP n # replicate (unat n - 1) 0)" if "\<not> n < 2"
    using that c Nop by (intro packet_okI [where n = n and opc = PAI_PM4_OP_NOP and low = 0])
      (auto simp: pm4_ops small_nop_def word_less_nat_alt)
  then show ?thesis using b Nop
    by (auto simp: pai_pm4_nop_def word_less_nat_alt intro!: packet_spec)
next
  case (SetShReg r vs)
  let ?n = "of_nat (length vs) + 2 :: u32"
  have n: "unat ?n = length vs + 2" if "length vs \<le> 0x3FFE" using len_word [of "length vs" 2] that by simp
  have "packet_ok c ((pai_pm4_header3 PAI_PM4_OP_SET_SH_REG ?n OR 1) # (r AND 0xFFFF) # vs)"
    if "vs \<noteq> []" "length vs \<le> 0x3FFE"
    using that n SetShReg
    by (intro packet_okI [where n = ?n and opc = PAI_PM4_OP_SET_SH_REG and low = 1]) (auto simp: pm4_ops)
  then show ?thesis using b n SetShReg
    by (auto simp: pai_pm4_set_sh_reg_compute_def not_less intro!: packet_spec)
next
  case (WriteData a ds)
  let ?n = "of_nat (length ds) + 4 :: u32"
  have n: "unat ?n = length ds + 4" if "length ds \<le> 0x3FFD" using len_word [of "length ds" 4] that by simp
  have "packet_ok c (pai_pm4_header3 PAI_PM4_OP_WRITE_DATA ?n # 0 # (ucast a AND NOT 3) # ucast (drop_bit 32 a) # ds)"
    if "ds \<noteq> []" "length ds \<le> 0x3FFD"
    using that n WriteData addr_of_align [of a]
    by (intro packet_okI [where n = ?n and opc = PAI_PM4_OP_WRITE_DATA and low = 0]) (auto simp: pm4_ops)
  then show ?thesis using b n WriteData
    by (auto simp: pai_pm4_write_data_def not_less intro!: packet_spec)
next
  case (DispatchDirect x y z m)
  show ?thesis unfolding DispatchDirect pm4_call.simps pai_pm4_dispatch_direct_def
    by (intro packet_spec [OF b] packet_okI [where n = 5 and opc = PAI_PM4_OP_DISPATCH_DIRECT and low = 1]) (simp_all add: pm4_ops)
next
  case (ContextControl l s)
  show ?thesis unfolding ContextControl pm4_call.simps pai_pm4_context_control_def
    by (intro packet_spec [OF b] packet_okI [where n = 3 and opc = PAI_PM4_OP_CONTEXT_CONTROL and low = 0]) (simp_all add: pm4_ops)
next
  case AcquireMem
  show ?thesis unfolding AcquireMem pm4_call.simps pai_pm4_acquire_mem_def
    by (intro packet_spec [OF b] packet_okI [where n = 8 and opc = PAI_PM4_OP_ACQUIRE_MEM and low = 0]) (simp_all add: pm4_ops)
next
  case (ReleaseMemEop t i a d)
  show ?thesis unfolding ReleaseMemEop pm4_call.simps pai_pm4_release_mem_eop_def
    by (intro packet_spec [OF b] packet_okI [where n = 8 and opc = PAI_PM4_OP_RELEASE_MEM and low = 0])
      (use legacy_mask [of t i] addr_of_split [of a] in \<open>simp_all add: pm4_ops\<close>)
next
  case (EopFence a v)
  show ?thesis unfolding EopFence pm4_call.simps pai_pm4_release_mem_eop_fence_def fence_mask
    by (intro packet_spec [OF b] packet_okI [where n = 8 and opc = PAI_PM4_OP_RELEASE_MEM and low = 0])
      (use addr_of_align [of a] in \<open>simp_all add: pm4_ops pm4_consts\<close>)
next
  case (IndirectBuffer a n)
  show ?thesis unfolding IndirectBuffer pm4_call.simps pai_pm4_indirect_buffer_def
    by (intro packet_spec [OF b] packet_okI [where n = 4 and opc = PAI_PM4_OP_INDIRECT_BUFFER and low = 0])
      (use addr_of_48 [of a] and_1FFFFF(2) [of n] in \<open>simp_all add: pm4_ops\<close>)
next
  case (WaitRegMem f p q a r m k)
  show ?thesis unfolding WaitRegMem pm4_call.simps pai_pm4_wait_reg_mem_def
    by (intro packet_spec [OF b] packet_okI [where n = 7 and opc = PAI_PM4_OP_WAIT_REG_MEM and low = 0]) (simp_all add: pm4_ops)
next
  case (EventWrite t i)
  show ?thesis unfolding EventWrite pm4_call.simps pai_pm4_event_write_def
    by (intro packet_spec [OF b] packet_okI [where n = 2 and opc = PAI_PM4_OP_EVENT_WRITE and low = 0]) (simp_all add: pm4_ops)
next
  case (DmaData s d n)
  let ?h = "push_bit 30 3 OR push_bit 1 1 OR push_bit 8 PAI_PM4_OP_DMA_DATA OR push_bit 16 5 :: u32"
  have "hdr_type ?h = 3" "hdr_op ?h = PAI_PM4_OP_DMA_DATA" "hdr_count ?h = 7"
    by (simp_all add: hdr_type_def hdr_op_def hdr_count_def pm4_ops)
  then show ?thesis unfolding DmaData pm4_call.simps pai_pm4_dma_data_def
    by (intro packet_spec [OF b])
      (use addr_of_split [of s] addr_of_split [of d] and_1FFFFF(1) [of n] in \<open>simp_all add: packet_ok_def\<close>)
qed

lemma extends_trans: "extends a xs b \<Longrightarrow> extends b ys c \<Longrightarrow> extends a (xs @ ys) c"
proof -
  assume a: "extends a xs b" "extends b ys c"
  have k: "unat (plen c) = length ys + unat (plen b)" "drop (unat (plen b)) (pbuf b) = drop (unat (plen b)) (pbuf a)"
    using a unfolding extends_def by (simp, blast)
  have "drop (unat (plen c)) (pbuf b) = drop (length ys) (drop (unat (plen b)) (pbuf b))" by (simp add: k(1))
  also have "\<dots> = drop (unat (plen c)) (pbuf a)" unfolding k(2) by (simp add: k(1))
  finally show ?thesis using a unfolding extends_def by (metis add.assoc append.assoc length_append)
qed

lemma calls_correct:
  assumes "b_ok b" "\<forall>c \<in> set cs. small_nop c"
  shows "\<exists>b' r. pm4_calls b cs = Returns (b', r) \<and> b_ok b' \<and>
    (r \<longrightarrow> (\<exists>pss. list_all2 packet_ok cs pss \<and> extends b (concat pss) b'))"
  using assms
proof (induction cs arbitrary: b)
  case (Cons c cs)
  obtain b1 where b1: "b_ok b1" "pm4_call b c = Returns (b1, None) \<or>
      (\<exists>ws. pm4_call b c = Returns (b1, Some (unat (plen b))) \<and> extends b ws b1 \<and> packet_ok c ws)"
    using call_correct [of b c] Cons.prems by (auto simp: call_spec_def)
  show ?case
  proof (cases "pm4_call b c = Returns (b1, None)")
    case True
    then show ?thesis using b1(1) by (intro exI [of _ b1] exI [of _ False]) simp
  next
    case False
    then obtain ws where ws: "pm4_call b c = Returns (b1, Some (unat (plen b)))" "extends b ws b1" "packet_ok c ws"
      using b1(2) by blast
    obtain b' r where r: "pm4_calls b1 cs = Returns (b', r)" "b_ok b'"
      "r \<longrightarrow> (\<exists>pss. list_all2 packet_ok cs pss \<and> extends b1 (concat pss) b')"
      using Cons.IH [OF b1(1)] Cons.prems by auto
    have "\<exists>pss. list_all2 packet_ok (c # cs) pss \<and> extends b (concat pss) b'" if r' : r
    proof -
      obtain pss where "list_all2 packet_ok cs pss" "extends b1 (concat pss) b'" using r(3) r' by blast
      then have "list_all2 packet_ok (c # cs) (ws # pss)" "extends b (concat (ws # pss)) b'"
        using ws(3) extends_trans [OF ws(2)] by auto
      then show ?thesis by blast
    qed
    then show ?thesis using ws(1) r(1,2) by auto
  qed
qed (auto simp: extends_def)

section \<open>Properties\<close>

text \<open>A list of packet calls (no padding longer than a packet can be) on a builder whose capacity lies
  inside its buffer never stores outside the buffer; when every call gets its packet the new part of the stream is
  the concatenation of the packets, each with a type-3 header that gives its own opcode and length
  and with operands that read back as the arguments, and the rest of the buffer is untouched.\<close>

theorem pm4_stream_exact:
  assumes "plen b \<le> pcap b" and "unat (pcap b) \<le> length (pbuf b)" and "\<forall>c \<in> set cs. small_nop c"
  shows "\<exists>b' r. pm4_calls b cs = Returns (b', r) \<and> plen b' \<le> pcap b' \<and>
    (r \<longrightarrow> (\<exists>pss. list_all2 packet_ok cs pss \<and> extends b (concat pss) b'))"
  using calls_correct [of b cs] assms by (auto simp: b_ok_def)

theorem pm4_stream_exact_witness:
  "\<exists>b' r. pm4_calls (pai_pm4_builder_init (replicate 64 0) 64) [Nop 2, EopFence 4096 7] = Returns (b', r) \<and>
    plen b' \<le> pcap b'"
  using pm4_stream_exact [of "pai_pm4_builder_init (replicate 64 0) 64" "[Nop 2, EopFence 4096 7]"]
  by (auto simp: pai_pm4_builder_init_def small_nop_def)

text \<open>\<open>pai_pm4_dma_data\<close>, \<open>pai_pm4_indirect_buffer\<close> and \<open>pai_pm4_wait_reg_mem\<close> check their arguments
  after they have reserved their dwords: a refused call returns NULL and still moves the cursor, so that
  stale dwords of the buffer become part of the stream.\<close>

theorem pm4_refused_advances:
  assumes "plen b \<le> pcap b" and "unat (plen b) + 7 \<le> unat (pcap b)" and "n > 0x1FFFFF"
  shows "pai_pm4_dma_data b s d n = Returns (b\<lparr>plen := plen b + 7\<rparr>, None) \<and>
    pai_pm4_indirect_buffer b a n = Returns (b\<lparr>plen := plen b + 4\<rparr>, None) \<and>
    pai_pm4_wait_reg_mem b n p q a r m k = Returns (b\<lparr>plen := plen b + 7\<rparr>, None)"
proof -
  have "unat (pcap b - plen b) = unat (pcap b) - unat (plen b)" using assms(1) by (simp add: unat_sub word_le_nat_alt)
  then have "7 \<le> unat (pcap b - plen b)" using assms(2) by linarith
  then have "\<not> (7 :: u32) > pcap b - plen b" "\<not> (4 :: u32) > pcap b - plen b"
    by (simp_all add: word_less_nat_alt)
  moreover have "n > 0xFFFFF" "n > 7" using assms(3) by (simp_all add: word_less_nat_alt)
  ultimately show ?thesis using assms(3)
    by (simp add: pai_pm4_dma_data_def pai_pm4_indirect_buffer_def pai_pm4_wait_reg_mem_def pm4_packet_def pai_pm4_emit_def)
qed

theorem pm4_refused_advances_witness:
  "pai_pm4_dma_data (pai_pm4_builder_init (replicate 64 0) 64) 0 0 0x200000 =
     Returns ((pai_pm4_builder_init (replicate 64 0) 64)\<lparr>plen := 7\<rparr>, None)"
proof -
  let ?b = "pai_pm4_builder_init (replicate 64 0) 64"
  have "plen ?b \<le> pcap ?b" "unat (plen ?b) + 7 \<le> unat (pcap ?b)" by (simp_all add: pai_pm4_builder_init_def)
  from pm4_refused_advances [OF this, where n = "0x200000"] show ?thesis by (simp add: pai_pm4_builder_init_def)
qed

text \<open>\<open>pai_pm4_nop\<close> has no upper bound, so the 14-bit length field of its header wraps: a padding of
  \<open>0x4002 + k\<close> dwords announces \<open>k + 2\<close> of them.\<close>

lemma pm4_nop_length_wraps:
  assumes "k < 0x4000"
  shows "unat (hdr_count (pai_pm4_header3 PAI_PM4_OP_NOP (of_nat (0x4002 + k)))) = k + 2"
proof -
  have e: "(of_nat (0x4002 + k) - 2 :: u32) = of_nat k + 0x4000" by simp
  have f: "(of_nat k + 0x4000 :: u32) AND 0x3FFF = of_nat k"
    using assms unfolding masks
    by (simp add: word_unat_eq_iff unsigned_take_bit_eq unat_word_ariths unsigned_of_nat take_bit_eq_mod flip: take_bit_eq_mask)
  have "hdr_count (pai_pm4_header3 PAI_PM4_OP_NOP (of_nat (0x4002 + k))) = of_nat k + 2"
    using pm4_header_fields(3) [of PAI_PM4_OP_NOP 0 "of_nat (0x4002 + k)"] unfolding e f by (simp add: pm4_ops)
  then show ?thesis using assms by (simp add: unat_word_ariths unsigned_of_nat take_bit_nat_eq_self)
qed
end
