(* ===== verification/Host_Ref.thy ===== *)
theory Host_Ref
  imports Pm4
begin

text \<open>
  \<^verbatim>\<open>gpu/hal/backend_host_ref.c\<close>: the interpreter that runs PM4 streams on the host. Host memory is a map
  from addresses to bytes; an access to an unmapped byte is a fault. The stream is read from memory
  at each step, so a stream that overwrites itself is covered. A registered host kernel is a
  parameter: a function of its user data, thread and group counts and the memory.
\<close>

section \<open>Host memory\<close>

type_synonym memory = "u64 \<rightharpoonup> u8"

fun read_mem :: "memory \<Rightarrow> u64 \<Rightarrow> nat \<Rightarrow> bytes option" where
  "read_mem m a 0 = Some []"
| "read_mem m a (Suc n) =
     (case m a of None \<Rightarrow> None | Some x \<Rightarrow> map_option ((#) x) (read_mem m (a + 1) n))"

fun write_mem :: "memory \<Rightarrow> u64 \<Rightarrow> bytes \<Rightarrow> memory option" where
  "write_mem m a [] = Some m"
| "write_mem m a (x # xs) = (if m a = None then None else write_mem (m(a \<mapsto> x)) (a + 1) xs)"

definition read32 :: "memory \<Rightarrow> u64 \<Rightarrow> u32 option" where
  "read32 m a = map_option get_le32 (read_mem m a 4)"

fun words_of :: "bytes \<Rightarrow> u32 list" where
  "words_of (a # b # c # d # bs) = get_le32 [a, b, c, d] # words_of bs"
| "words_of bs = []"

section \<open>State\<close>

definition PAI_HOST_REG_SH_BASE :: u32 where "PAI_HOST_REG_SH_BASE = 0x0200"
definition PAI_HOST_REG_SH_COUNT :: u32 where "PAI_HOST_REG_SH_COUNT = 0x0100"
definition PAI_HOST_MAX_IB_DEPTH :: nat where "PAI_HOST_MAX_IB_DEPTH = 4"
definition PAI_REG_COMPUTE_NUM_THREAD_X :: u32 where "PAI_REG_COMPUTE_NUM_THREAD_X = 0x0207"
definition PAI_REG_COMPUTE_PGM_LO :: u32 where "PAI_REG_COMPUTE_PGM_LO = 0x020C"
definition PAI_REG_COMPUTE_PGM_HI :: u32 where "PAI_REG_COMPUTE_PGM_HI = 0x020D"
definition PAI_REG_COMPUTE_USER_DATA_0 :: u32 where "PAI_REG_COMPUTE_USER_DATA_0 = 0x0240"

lemmas host_consts = PAI_HOST_REG_SH_BASE_def PAI_HOST_REG_SH_COUNT_def PAI_HOST_MAX_IB_DEPTH_def
  PAI_REG_COMPUTE_NUM_THREAD_X_def PAI_REG_COMPUTE_PGM_LO_def PAI_REG_COMPUTE_PGM_HI_def
  PAI_REG_COMPUTE_USER_DATA_0_def

type_synonym pai_host_kernel_fn = "u32 list \<Rightarrow> u32 \<Rightarrow> u32 \<Rightarrow> memory \<Rightarrow> memory \<times> unit res"

record pai_host_shader_entry =
  code_addr :: u64
  fn :: pai_host_kernel_fn

record pai_host_ref_state =
  sh_regs :: "u32 list"
  shaders :: "pai_host_shader_entry list"
  hmem :: memory

definition pai_host_init :: "memory \<Rightarrow> pai_host_ref_state" where
  "pai_host_init m = \<lparr>sh_regs = replicate (unat PAI_HOST_REG_SH_COUNT) 0, shaders = [], hmem = m\<rparr>"

definition pai_host_reset :: "pai_host_ref_state \<Rightarrow> pai_host_ref_state" where
  "pai_host_reset st = st\<lparr>sh_regs := replicate (length (sh_regs st)) 0\<rparr>"

text \<open>The first entry with the same address is unlinked; \<open>ok\<close> tells whether \<open>calloc\<close> succeeds.\<close>

fun unlink :: "u64 \<Rightarrow> pai_host_shader_entry list \<Rightarrow> pai_host_shader_entry list" where
  "unlink a [] = []"
| "unlink a (e # es) = (if code_addr e = a then es else e # unlink a es)"

definition pai_gpu_host_register_shader ::
    "pai_host_ref_state \<Rightarrow> u64 \<Rightarrow> pai_host_kernel_fn \<Rightarrow> bool \<Rightarrow> pai_host_ref_state \<times> unit res" where
  "pai_gpu_host_register_shader st a f ok =
     (let es = unlink a (shaders st)
      in if \<not> ok then (st\<lparr>shaders := es\<rparr>, Inl PAI_ERR_NOMEM)
         else (st\<lparr>shaders := \<lparr>code_addr = a, fn = f\<rparr> # es\<rparr>, Inr ()))"

section \<open>One packet\<close>

text \<open>\<open>pm4[i + k]\<close>.\<close>

definition word_at :: "pai_host_ref_state \<Rightarrow> u64 \<Rightarrow> u32 \<Rightarrow> nat \<Rightarrow> u32 option" where
  "word_at st pm4 i k = read32 (hmem st) (pm4 + 4 * ucast (i + of_nat k))"

definition sh_reg :: "pai_host_ref_state \<Rightarrow> u32 \<Rightarrow> u32" where
  "sh_reg st r = sh_regs st ! unat (r - PAI_HOST_REG_SH_BASE)"

type_synonym host_result = "(pai_host_ref_state \<times> unit res) outcome"

definition host_set_sh_reg :: "pai_host_ref_state \<Rightarrow> u64 \<Rightarrow> u32 \<Rightarrow> u32 \<Rightarrow> host_result" where
  "host_set_sh_reg st pm4 i count =
     (case word_at st pm4 i 1 of
        None \<Rightarrow> Fault
      | Some w \<Rightarrow>
          (let reg = w AND 0xFFFF; n = count - 2
           in if reg < PAI_HOST_REG_SH_BASE \<or> reg + n > PAI_HOST_REG_SH_BASE + PAI_HOST_REG_SH_COUNT
              then Returns (st, Inl PAI_ERR_INTERNAL)
              else case read_mem (hmem st) (pm4 + 4 * ucast (i + 2)) (4 * unat n) of
                     None \<Rightarrow> Fault
                   | Some bs \<Rightarrow>
                       (let k = unat (reg - PAI_HOST_REG_SH_BASE)
                        in Returns (st\<lparr>sh_regs := take k (sh_regs st) @ words_of bs @ drop (k + unat n) (sh_regs st)\<rparr>,
                             Inr ()))))"

definition host_launch :: "pai_host_ref_state \<Rightarrow> u32 \<Rightarrow> pai_host_ref_state \<times> unit res" where
  "host_launch st group_x =
     (let a = push_bit 8 (ucast (sh_reg st PAI_REG_COMPUTE_PGM_LO)) OR push_bit 40 (ucast (sh_reg st PAI_REG_COMPUTE_PGM_HI));
          ud = take 16 (drop (unat (PAI_REG_COMPUTE_USER_DATA_0 - PAI_HOST_REG_SH_BASE)) (sh_regs st))
      in case find (\<lambda>e. code_addr e = a) (shaders st) of
           None \<Rightarrow> (st, Inl PAI_ERR_UNSUPPORTED)
         | Some e \<Rightarrow>
             (case fn e ud (sh_reg st PAI_REG_COMPUTE_NUM_THREAD_X) group_x (hmem st) of
                (m, r) \<Rightarrow> (st\<lparr>hmem := m\<rparr>, r)))"

definition host_dispatch :: "pai_host_ref_state \<Rightarrow> u64 \<Rightarrow> u32 \<Rightarrow> host_result" where
  "host_dispatch st pm4 i =
     (case word_at st pm4 i 1 of None \<Rightarrow> Fault | Some group_x \<Rightarrow> Returns (host_launch st group_x))"

definition store_bytes :: "pai_host_ref_state \<Rightarrow> u64 \<Rightarrow> bytes \<Rightarrow> host_result" where
  "store_bytes st a bs =
     (case write_mem (hmem st) a bs of None \<Rightarrow> Fault | Some m \<Rightarrow> Returns (st\<lparr>hmem := m\<rparr>, Inr ()))"

definition host_release_mem :: "pai_host_ref_state \<Rightarrow> u64 \<Rightarrow> u32 \<Rightarrow> u32 \<Rightarrow> host_result" where
  "host_release_mem st pm4 i count =
     (case word_at st pm4 i 1 of
        None \<Rightarrow> Fault
      | Some w \<Rightarrow>
          (let k = (if count \<ge> 8 \<and> w AND 0xFFF000 = 0x703000 then 3 else 2)
           in case (word_at st pm4 i k, word_at st pm4 i (k + 1), word_at st pm4 i (k + 2)) of
                (Some lo, Some hi, Some v) \<Rightarrow> store_bytes st (addr_of lo hi) (put_le32 v)
              | _ \<Rightarrow> Fault))"

text \<open>Whether \<open>n\<close> bytes at \<open>a\<close> and \<open>k\<close> bytes at \<open>b\<close> share an address.\<close>

definition ranges_meet :: "u64 \<Rightarrow> nat \<Rightarrow> u64 \<Rightarrow> nat \<Rightarrow> bool" where
  "ranges_meet a n b k \<longleftrightarrow> 0 < n \<and> 0 < k \<and> (unat (b - a) < n \<or> unat (a - b) < k)"

text \<open>The length of the copy is \<open>(count - 4) * sizeof(uint32_t)\<close> with the subtraction in 32 bits. It is a
  \<open>memcpy\<close>: undefined, hence a fault, when the destination overlaps the data in the stream.\<close>

definition host_write_data :: "pai_host_ref_state \<Rightarrow> u64 \<Rightarrow> u32 \<Rightarrow> u32 \<Rightarrow> host_result" where
  "host_write_data st pm4 i count =
     (case (word_at st pm4 i 2, word_at st pm4 i 3) of
        (Some lo, Some hi) \<Rightarrow>
          (case read_mem (hmem st) (pm4 + 4 * ucast (i + 4)) (4 * unat (count - 4)) of
             None \<Rightarrow> Fault
           | Some bs \<Rightarrow>
               if ranges_meet (pm4 + 4 * ucast (i + 4)) (length bs) (addr_of lo hi) (length bs) then Fault
               else store_bytes st (addr_of lo hi) bs)
      | _ \<Rightarrow> Fault)"

definition host_dma_data :: "pai_host_ref_state \<Rightarrow> u64 \<Rightarrow> u32 \<Rightarrow> host_result" where
  "host_dma_data st pm4 i =
     (case (word_at st pm4 i 2, word_at st pm4 i 3, word_at st pm4 i 4, word_at st pm4 i 5, word_at st pm4 i 6) of
        (Some slo, Some shi, Some dlo, Some dhi, Some w) \<Rightarrow>
          (case read_mem (hmem st) (addr_of slo shi) (unat (w AND 0x1FFFFF)) of
             None \<Rightarrow> Fault
           | Some bs \<Rightarrow> store_bytes st (addr_of dlo dhi) bs)
      | _ \<Rightarrow> Fault)"

definition host_packet :: "pai_host_ref_state \<Rightarrow> u64 \<Rightarrow> u32 \<Rightarrow> u32 \<Rightarrow> u32 \<Rightarrow> host_result" where
  "host_packet st pm4 i opc count =
     (if opc = PAI_PM4_OP_NOP \<or> opc = PAI_PM4_OP_CONTEXT_CONTROL \<or> opc = PAI_PM4_OP_EVENT_WRITE
      then Returns (st, Inr ())
      else if opc = PAI_PM4_OP_SET_SH_REG then host_set_sh_reg st pm4 i count
      else if opc = PAI_PM4_OP_DISPATCH_DIRECT then host_dispatch st pm4 i
      else if opc = PAI_PM4_OP_RELEASE_MEM then host_release_mem st pm4 i count
      else if opc = PAI_PM4_OP_WRITE_DATA then host_write_data st pm4 i count
      else if opc = PAI_PM4_OP_DMA_DATA then host_dma_data st pm4 i
      else Returns (st, Inl PAI_ERR_UNSUPPORTED))"

section \<open>Streams\<close>

text \<open>The loop of \<open>pai_host_run_stream\<close>. The first argument bounds the number of packets; running out of
  it is \<open>Diverges\<close>, which can only happen when the 32-bit sum of index and length wraps.\<close>

function (sequential) host_loop ::
    "nat \<Rightarrow> pai_host_ref_state \<Rightarrow> u64 \<Rightarrow> u32 \<Rightarrow> nat \<Rightarrow> u32 \<Rightarrow> host_result" where
  "host_loop fuel st pm4 dwords depth i =
     (if \<not> i < dwords then Returns (st, Inr ())
      else case fuel of
        0 \<Rightarrow> Diverges
      | Suc f \<Rightarrow>
          (case word_at st pm4 i 0 of
             None \<Rightarrow> Fault
           | Some header \<Rightarrow>
               (let opc = drop_bit 8 header AND 0xFF; count = (drop_bit 16 header AND 0x3FFF) + 2
                in if drop_bit 30 header \<noteq> 3 then Returns (st, Inl PAI_ERR_UNSUPPORTED)
                   else if count < 1 \<or> i + count > dwords then Returns (st, Inl PAI_ERR_INTERNAL)
                   else
                     (case (if opc = PAI_PM4_OP_INDIRECT_BUFFER then
                              (case (word_at st pm4 i 1, word_at st pm4 i 2, word_at st pm4 i 3) of
                                 (Some lo, Some hi, Some w) \<Rightarrow>
                                   if depth + 1 > PAI_HOST_MAX_IB_DEPTH then Returns (st, Inl PAI_ERR_INTERNAL)
                                   else host_loop (unat (w AND 0xFFFFF)) st (addr_of lo hi) (w AND 0xFFFFF) (depth + 1) 0
                               | _ \<Rightarrow> Fault)
                            else host_packet st pm4 i opc count) of
                        Returns (st', Inr u) \<Rightarrow> host_loop f st' pm4 dwords depth (i + count)
                      | Returns (st', Inl e) \<Rightarrow> Returns (st', Inl e)
                      | Fault \<Rightarrow> Fault
                      | Diverges \<Rightarrow> Diverges))))"
  by pat_completeness auto
termination
  by (relation "measures [\<lambda>(fuel, st, pm4, dwords, depth, i). PAI_HOST_MAX_IB_DEPTH - depth,
        \<lambda>(fuel, st, pm4, dwords, depth, i). fuel]") auto

declare host_loop.simps [simp del]

definition pai_host_run_stream :: "pai_host_ref_state \<Rightarrow> u64 \<Rightarrow> u32 \<Rightarrow> nat \<Rightarrow> host_result" where
  "pai_host_run_stream st pm4 dwords depth =
     (if depth > PAI_HOST_MAX_IB_DEPTH then Returns (st, Inl PAI_ERR_INTERNAL)
      else host_loop (unat dwords) st pm4 dwords depth 0)"

definition pai_host_submit :: "pai_host_ref_state \<Rightarrow> u64 \<Rightarrow> u32 \<Rightarrow> host_result" where
  "pai_host_submit st pm4 dwords = pai_host_run_stream st pm4 dwords 0"

definition pai_host_wait_label :: "pai_host_ref_state \<Rightarrow> u64 \<Rightarrow> u32 \<Rightarrow> host_result" where
  "pai_host_wait_label st label_addr label_value =
     (if label_addr \<noteq> 0 then store_bytes st label_addr (put_le32 label_value) else Returns (st, Inr ()))"

section \<open>What a stream means\<close>

text \<open>The effect of one builder call when the host runs its packet at nesting depth \<open>depth\<close>.\<close>

fun exec :: "nat \<Rightarrow> pai_host_ref_state \<Rightarrow> pm4_cmd \<Rightarrow> host_result" where
  "exec depth st (SetShReg r vs) =
     (let reg = unat (r AND 0xFFFF)
      in if reg < 0x200 \<or> reg + length vs > 0x300 then Returns (st, Inl PAI_ERR_INTERNAL)
         else Returns (st\<lparr>sh_regs := take (reg - 0x200) (sh_regs st) @ vs @ drop (reg - 0x200 + length vs) (sh_regs st)\<rparr>,
                Inr ()))"
| "exec depth st (DispatchDirect x y z m) = Returns (host_launch st x)"
| "exec depth st (ReleaseMemEop t i a d) = store_bytes st a (put_le32 d)"
| "exec depth st (EopFence a v) = store_bytes st (a AND NOT 3) (put_le32 v)"
| "exec depth st (WriteData a ds) = store_bytes st (a AND NOT 3) (concat (map put_le32 ds))"
| "exec depth st (DmaData s d n) =
     (case read_mem (hmem st) s (unat n) of None \<Rightarrow> Fault | Some bs \<Rightarrow> store_bytes st d bs)"
| "exec depth st (IndirectBuffer a n) = pai_host_run_stream st (a AND mask 48) n (depth + 1)"
| "exec depth st AcquireMem = Returns (st, Inl PAI_ERR_UNSUPPORTED)"
| "exec depth st (WaitRegMem c p q a r m k) = Returns (st, Inl PAI_ERR_UNSUPPORTED)"
| "exec depth st c = Returns (st, Inr ())"

fun exec_all :: "nat \<Rightarrow> pai_host_ref_state \<Rightarrow> pm4_cmd list \<Rightarrow> host_result" where
  "exec_all depth st [] = Returns (st, Inr ())"
| "exec_all depth st (c # cs) =
     (case exec depth st c of Returns (st', Inr u) \<Rightarrow> exec_all depth st' cs | r \<Rightarrow> r)"

text \<open>The dwords \<open>ws\<close> are in memory at \<open>a\<close>, and stay there while the calls take effect; no data write goes to
  where they are, so that its \<open>memcpy\<close> is defined.\<close>

definition holds :: "pai_host_ref_state \<Rightarrow> u64 \<Rightarrow> u32 list \<Rightarrow> bool" where
  "holds st a ws \<longleftrightarrow> read_mem (hmem st) a (4 * length ws) = Some (concat (map put_le32 ws))"

fun beside :: "u64 \<Rightarrow> u32 list \<Rightarrow> pm4_cmd \<Rightarrow> bool" where
  "beside a ws (WriteData x ds) \<longleftrightarrow> \<not> ranges_meet a (4 * length ws) (x AND NOT 3) (4 * length ds)"
| "beside a ws _ \<longleftrightarrow> True"

fun keeps :: "nat \<Rightarrow> pai_host_ref_state \<Rightarrow> u64 \<Rightarrow> u32 list \<Rightarrow> pm4_cmd list \<Rightarrow> bool" where
  "keeps depth st a ws [] \<longleftrightarrow> True"
| "keeps depth st a ws (c # cs) \<longleftrightarrow> holds st a ws \<and> beside a ws c \<and>
     (case exec depth st c of Returns (st', Inr u) \<Rightarrow> keeps depth st' a ws cs | _ \<Rightarrow> True)"

lemma read_mem_add:
  "read_mem m a (n + k) = (case read_mem m a n of None \<Rightarrow> None
     | Some xs \<Rightarrow> map_option ((@) xs) (read_mem m (a + of_nat n) k))"
  by (induction n arbitrary: a) (auto simp: ac_simps map_option_case split: option.splits)

lemma read_mem_length: "read_mem m a n = Some xs \<Longrightarrow> length xs = n"
  by (induction n arbitrary: a xs) (auto split: option.splits)

lemma read_mem_sub:
  assumes "read_mem m a (length xs + length ys + length zs) = Some (xs @ ys @ zs)"
  shows "read_mem m (a + of_nat (length xs)) (length ys) = Some ys"
  using assms by (auto simp: read_mem_add add.assoc split: option.splits dest!: read_mem_length)

lemma concat_le32_length: "length (concat (map put_le32 ws)) = 4 * length ws"
  by (induction ws) auto

lemma words_of_concat: "words_of (concat (map put_le32 ws)) = ws"
proof (induction ws)
  case (Cons w ws)
  obtain a b c d where "put_le32 w = [a, b, c, d]" by (simp add: put_le32_def)
  then show ?case using Cons get_put_le32 [of w "[]"] by simp
qed simp

lemma holds_sub:
  assumes "holds st a (pre @ ps @ post)"
  shows "read_mem (hmem st) (a + 4 * of_nat (length pre)) (4 * length ps) = Some (concat (map put_le32 ps))"
  using read_mem_sub [of "hmem st" a "concat (map put_le32 pre)" "concat (map put_le32 ps)" "concat (map put_le32 post)"]
    assms by (simp add: holds_def concat_le32_length algebra_simps)

lemma word_at_holds:
  assumes "holds st a ws" "length ws < 2 ^ 32" "unat i + k < length ws"
  shows "word_at st a i k = Some (ws ! (unat i + k))"
proof -
  let ?j = "unat i + k"
  have "ws = take ?j ws @ [ws ! ?j] @ drop (Suc ?j) ws" using assms(3) by (simp add: id_take_nth_drop)
  then have "read_mem (hmem st) (a + 4 * of_nat ?j) 4 = Some (put_le32 (ws ! ?j))"
    using holds_sub [of st a "take ?j ws" "[ws ! ?j]" "drop (Suc ?j) ws"] assms(1,3) by simp
  moreover have "(ucast (i + of_nat k) :: u64) = of_nat ?j"
    using assms(2,3) by (simp add: word_unat_eq_iff unsigned_ucast_eq unat_word_ariths unsigned_of_nat take_bit_eq_mod)
  ultimately show ?thesis using get_put_le32 [of "ws ! ?j" "[]"] by (simp add: word_at_def read32_def)
qed

lemma read_words_holds:
  assumes "holds st a ws" "length ws < 2 ^ 32" "unat (i :: u32) + k + n \<le> length ws"
  shows "read_mem (hmem st) (a + 4 * ucast (i + of_nat k)) (4 * n) = Some (concat (map put_le32 (take n (drop (unat i + k) ws))))"
proof (cases "n = 0")
  case False
  let ?j = "unat i + k"
  have "ws = take ?j ws @ take n (drop ?j ws) @ drop n (drop ?j ws)" by (metis append_take_drop_id)
  then have "read_mem (hmem st) (a + 4 * of_nat ?j) (4 * n) = Some (concat (map put_le32 (take n (drop ?j ws))))"
    using holds_sub [of st a "take ?j ws" "take n (drop ?j ws)" "drop n (drop ?j ws)"] assms(1,3) by simp
  moreover have "(ucast (i + of_nat k) :: u64) = of_nat ?j"
    using assms(2,3) False by (simp add: word_unat_eq_iff unsigned_ucast_eq unat_word_ariths unsigned_of_nat take_bit_eq_mod)
  ultimately show ?thesis by simp
qed simp

section \<open>The interpreter runs what the builder wrote\<close>

lemma and_mask_less: "unat (w AND mask k) < 2 ^ k"
  by (simp add: unsigned_take_bit_eq flip: take_bit_eq_mask)

lemma hdr_count_le: "unat (hdr_count h) \<le> 0x4001"
proof -
  have "unat (drop_bit 16 h AND 0x3FFF) < 2 ^ 14"
    unfolding masks by (rule and_mask_less)
  then show ?thesis by (simp add: hdr_count_def unat_word_ariths)
qed

lemma ranges_meet_sub:
  assumes "ranges_meet (a + of_nat d) n b k" "d + n \<le> N" "N < 2 ^ 64"
  shows "ranges_meet a N b k"
proof -
  let ?s = "a + of_nat d"
  have nk: "0 < n" "0 < k" and ov: "unat (b - ?s) < n \<or> unat (?s - b) < k" using assms(1) by (simp_all add: ranges_meet_def)
  have d: "unat (of_nat d :: u64) = d" using assms(2,3) by (simp add: unsigned_of_nat take_bit_nat_eq_self)
  from ov show ?thesis
  proof
    assume lt: "unat (b - ?s) < n"
    have "b - a = (b - ?s) + of_nat d" by simp
    moreover have "unat ((b - ?s) + of_nat d) \<le> unat (b - ?s) + unat (of_nat d :: u64)"
      unfolding unat_word_ariths by (rule mod_less_eq_dividend)
    ultimately have "unat (b - a) \<le> unat (b - ?s) + d" unfolding d by simp
    with lt assms(2) nk show ?thesis by (simp add: ranges_meet_def)
  next
    assume lt: "unat (?s - b) < k"
    show ?thesis
    proof (cases "d \<le> unat (?s - b)")
      case True
      then have "unat ((?s - b) - of_nat d) = unat (?s - b) - d" by (subst unat_sub) (simp_all add: word_le_nat_alt d)
      then have "unat (a - b) < k" using lt by simp
      with assms(2) nk show ?thesis by (simp add: ranges_meet_def)
    next
      case False
      have "unat (of_nat d - (?s - b)) = d - unat (?s - b)" using False by (subst unat_sub) (simp_all add: word_le_nat_alt d)
      then have "unat (b - a) < N" using assms(2) nk by simp
      with assms(2) nk show ?thesis by (simp add: ranges_meet_def)
    qed
  qed
qed

lemma packet_exec:
  assumes h: "holds st a ws" and ws: "ws = pre @ ps @ post" and len: "length ws < 2 ^ 32"
    and i: "i = of_nat (length pre)" and ok: "packet_ok c ps" and opc: "\<forall>x n. c \<noteq> IndirectBuffer x n"
    and apart: "beside a ws c"
  shows "host_packet st a i (hdr_op (ps ! 0)) (hdr_count (ps ! 0)) = exec depth st c"
proof -
  have ui: "unat i = length pre" using ws len by (simp add: i unsigned_of_nat take_bit_nat_eq_self)
  have w: "word_at st a i k = Some (ps ! k)" if "k < length ps" for k
    using word_at_holds [OF h len, of i k] that by (simp add: ui ws nth_append)
  have rd: "read_mem (hmem st) (a + 4 * ucast (i + of_nat k)) (4 * n) = Some (concat (map put_le32 (take n (drop k ps))))"
    if "k + n \<le> length ps" for k n
    using read_words_holds [OF h len, of i k n] that by (simp add: ui ws)
  have cnt: "unat (hdr_count (ps ! 0)) = length ps" "2 \<le> length ps" using ok by (simp_all add: packet_ok_def)
  show ?thesis
  proof (cases c)
    case (SetShReg r vs)
    then have p: "hdr_op (ps ! 0) = PAI_PM4_OP_SET_SH_REG" "ps ! 1 = r AND 0xFFFF" "drop 2 ps = vs" "length ps = length vs + 2"
      using ok by (simp_all add: packet_ok_def)
    let ?n = "hdr_count (ps ! 0) - 2" and ?r = "r AND 0xFFFF"
    have n: "unat ?n = length vs" using cnt p(4) by (simp add: unat_sub word_le_nat_alt)
    have r: "?r AND 0xFFFF = ?r" by (simp add: and.assoc)
    have rb: "unat ?r < 2 ^ 16"
      unfolding addr_masks by (rule and_mask_less)
    have cb: "length vs \<le> 0x4001" using hdr_count_le [of "ps ! 0"] cnt p(4) by simp
    have sum: "unat (?r + ?n) = unat ?r + length vs" using rb cb n by (simp add: unat_word_ariths)
    have rr: "unat (?r - 0x200) = unat ?r - 0x200" if "\<not> ?r < 0x200" using that by (simp add: unat_sub not_less)
    have g: "?r < PAI_HOST_REG_SH_BASE \<longleftrightarrow> unat ?r < 0x200"
      "?r + ?n > PAI_HOST_REG_SH_BASE + PAI_HOST_REG_SH_COUNT \<longleftrightarrow> unat ?r + length vs > 0x300"
      using sum by (simp_all add: host_consts word_less_nat_alt)
    have w1: "word_at st a i 1 = Some ?r" using w [of 1] cnt p(2) by simp
    have rd': "read_mem (hmem st) (a + 4 * ucast (i + 2)) (4 * length vs) = Some (concat (map put_le32 vs))"
      using rd [of 2 "length vs"] p(3,4) by simp
    show ?thesis
      unfolding SetShReg exec.simps host_packet_def p(1) host_set_sh_reg_def w1 option.case Let_def r g n rd' words_of_concat
      using rr by (auto simp: pm4_ops host_consts word_less_nat_alt)
  next
    case (WriteData x ds)
    then have p: "hdr_op (ps ! 0) = PAI_PM4_OP_WRITE_DATA" "addr_of (ps ! 2) (ps ! 3) = x AND NOT 3" "drop 4 ps = ds"
      "length ps = length ds + 4"
      using ok by (simp_all add: packet_ok_def)
    have n: "unat (hdr_count (ps ! 0) - 4) = length ds" using cnt p(4) by (simp add: unat_sub word_le_nat_alt)
    have w1: "word_at st a i 2 = Some (ps ! 2)" "word_at st a i 3 = Some (ps ! 3)" using w [of 2] w [of 3] p(4) by simp_all
    have rd': "read_mem (hmem st) (a + 4 * ucast (i + 4)) (4 * length ds) = Some (concat (map put_le32 ds))"
      using rd [of 4 "length ds"] p(3,4) by simp
    have "length pre + 4 \<le> length ws" using ws p(4) by simp
    then have ui4: "unat (i + 4) = length pre + 4" using len ui by (simp add: unat_word_ariths)
    have at: "a + 4 * ucast (i + 4) = a + of_nat (4 * (length pre + 4))"
      by (simp flip: ui4)
    have "\<not> ranges_meet (a + 4 * ucast (i + 4)) (4 * length ds) (x AND NOT 3) (4 * length ds)"
      unfolding at
      using ranges_meet_sub [of a "4 * (length pre + 4)" "4 * length ds" "x AND NOT 3" "4 * length ds" "4 * length ws"]
        apart ws p(4) len by (auto simp: WriteData)
    then show ?thesis
      unfolding WriteData exec.simps host_packet_def p(1) host_write_data_def w1 n rd'
      by (simp add: pm4_ops p(2) concat_le32_length)
  next
    case (DispatchDirect x y z m)
    then show ?thesis using ok w [of 1] by (simp add: packet_ok_def host_packet_def host_dispatch_def pm4_ops)
  next
    case (ReleaseMemEop t e x d)
    then show ?thesis using ok w [of 1] w [of 2] w [of 3] w [of 4]
      by (auto simp: packet_ok_def host_packet_def host_release_mem_def pm4_ops Let_def word_le_nat_alt)
  next
    case (EopFence x v)
    then show ?thesis using ok w [of 1] w [of 3] w [of 4] w [of 5]
      by (auto simp: packet_ok_def host_packet_def host_release_mem_def pm4_ops Let_def word_le_nat_alt)
  next
    case (DmaData s d n)
    then show ?thesis using ok w [of 2] w [of 3] w [of 4] w [of 5] w [of 6]
      by (auto simp: packet_ok_def host_packet_def host_dma_data_def pm4_ops split: option.splits)
  qed (use ok opc in \<open>simp_all add: packet_ok_def host_packet_def pm4_ops\<close>)
qed

lemma packet_ib:
  assumes h: "holds st a ws" and ws: "ws = pre @ ps @ post" and len: "length ws < 2 ^ 32"
    and i: "i = of_nat (length pre)" and ok: "packet_ok (IndirectBuffer x n) ps"
  shows "hdr_op (ps ! 0) = PAI_PM4_OP_INDIRECT_BUFFER"
    "\<exists>lo hi w. word_at st a i 1 = Some lo \<and> word_at st a i 2 = Some hi \<and> word_at st a i 3 = Some w \<and>
       addr_of lo hi = x AND mask 48 \<and> w AND 0xFFFFF = n"
proof -
  have ui: "unat i = length pre" using ws len by (simp add: i unsigned_of_nat take_bit_nat_eq_self)
  have w: "word_at st a i k = Some (ps ! k)" if "k < length ps" for k
    using word_at_holds [OF h len, of i k] that by (simp add: ui ws nth_append)
  show "hdr_op (ps ! 0) = PAI_PM4_OP_INDIRECT_BUFFER" using ok by (simp add: packet_ok_def)
  show "\<exists>lo hi w. word_at st a i 1 = Some lo \<and> word_at st a i 2 = Some hi \<and> word_at st a i 3 = Some w \<and>
       addr_of lo hi = x AND mask 48 \<and> w AND 0xFFFFF = n"
    using ok w [of 1] w [of 2] w [of 3] by (simp add: packet_ok_def)
qed

lemmas host_loop_hdr = host_loop.simps [folded hdr_op_def hdr_count_def hdr_type_def]

lemma loop_exec:
  assumes "list_all2 packet_ok cs pss" "ws = pre @ concat pss" "length ws < 2 ^ 32" "keeps depth st a ws cs"
    "length pss \<le> fuel"
  shows "host_loop fuel st a (of_nat (length ws)) depth (of_nat (length pre)) = exec_all depth st cs"
  using assms
proof (induction cs arbitrary: pss pre st fuel)
  case Nil
  then show ?case by (subst host_loop.simps) simp
next
  case (Cons c cs)
  from Cons.prems(1) obtain ps pss' where ps: "pss = ps # pss'" "packet_ok c ps" "list_all2 packet_ok cs pss'"
    by (auto simp: list_all2_Cons1)
  have ws: "ws = pre @ ps @ concat pss'" using Cons.prems(2) ps(1) by simp
  have h: "holds st a ws" "beside a ws c" using Cons.prems(4) by simp_all
  obtain f where f: "fuel = Suc f" "length pss' \<le> f" using Cons.prems(5) ps(1) by (cases fuel) auto
  let ?i = "of_nat (length pre) :: u32" and ?n = "of_nat (length ws) :: u32"
  let ?hd = "ps ! 0"
  have cnt: "unat (hdr_count ?hd) = length ps" "2 \<le> length ps" "hdr_type ?hd = 3" using ps(2) by (simp_all add: packet_ok_def)
  have small: "length pre < 2 ^ 32" "length (pre @ ps) < 2 ^ 32" using ws Cons.prems(3) by simp_all
  have ui: "unat ?i = length pre" "unat ?n = length ws"
    using small(1) Cons.prems(3) by (simp_all add: unsigned_of_nat take_bit_nat_eq_self)
  have w0: "word_at st a ?i 0 = Some ?hd"
  proof -
    have "unat ?i + 0 < length ws" "ws ! (unat ?i + 0) = ps ! 0" unfolding ui using cnt(2) by (cases ps; simp add: ws nth_append)+
    with word_at_holds [OF h(1) Cons.prems(3), of ?i 0] show ?thesis by (simp only: simp_thms)
  qed
  have "length pre < length ws" using cnt(2) ws by (cases ps) auto
  then have lt: "?i < ?n" unfolding word_less_nat_alt ui .
  have nx: "?i + hdr_count ?hd = of_nat (length (pre @ ps))"
    using cnt(1) by (simp flip: cnt(1))
  have sum: "unat (of_nat (length (pre @ ps)) :: u32) = length (pre @ ps)"
    using small(2) by (simp only: unsigned_of_nat) (simp add: take_bit_nat_eq_self)
  have guard: "\<not> hdr_count ?hd < 1" "\<not> ?i + hdr_count ?hd > ?n"
    unfolding nx word_less_nat_alt sum ui using cnt ws by (cases ps; simp)+
  have rest: "host_loop f st' a ?n depth (of_nat (length (pre @ ps))) = exec_all depth st' cs"
    if "exec depth st c = Returns (st', Inr ())" for st'
    using Cons.IH [OF ps(3), of "pre @ ps" st' f] that Cons.prems(3,4) f(2) ws by simp
  have body: "(if hdr_op ?hd = PAI_PM4_OP_INDIRECT_BUFFER then
      (case (word_at st a ?i 1, word_at st a ?i 2, word_at st a ?i 3) of
         (Some lo, Some hi, Some w) \<Rightarrow>
           if depth + 1 > PAI_HOST_MAX_IB_DEPTH then Returns (st, Inl PAI_ERR_INTERNAL)
           else host_loop (unat (w AND 0xFFFFF)) st (addr_of lo hi) (w AND 0xFFFFF) (depth + 1) 0
       | _ \<Rightarrow> Fault)
     else host_packet st a ?i (hdr_op ?hd) (hdr_count ?hd)) = exec depth st c" (is "?b = _")
  proof (cases "\<exists>x n. c = IndirectBuffer x n")
    case True
    then obtain x n where c: "c = IndirectBuffer x n" by blast
    from packet_ib [OF h(1) ws Cons.prems(3) refl ps(2) [unfolded c]] show ?thesis
      by (auto simp: c pai_host_run_stream_def)
  next
    case False
    then have "hdr_op ?hd \<noteq> PAI_PM4_OP_INDIRECT_BUFFER"
      using ps(2) by (cases c) (auto simp: packet_ok_def pm4_ops)
    then show ?thesis using packet_exec [OF h(1) ws Cons.prems(3) refl ps(2) _ h(2)] False by simp
  qed
  have "host_loop fuel st a ?n depth ?i =
     (case exec depth st c of
        Returns (st', Inr u) \<Rightarrow> host_loop f st' a ?n depth (?i + hdr_count ?hd)
      | Returns (st', Inl e) \<Rightarrow> Returns (st', Inl e)
      | Fault \<Rightarrow> Fault
      | Diverges \<Rightarrow> Diverges)"
    unfolding body [symmetric] unfolding f(1)
    by (subst host_loop_hdr) (use lt w0 guard cnt(3) in \<open>simp add: Let_def\<close>)
  also have "\<dots> = exec_all depth st (c # cs)"
    unfolding nx using rest by (auto split: outcome.splits prod.splits sum.splits)
  finally show ?case .
qed

lemma stream_exec:
  assumes "list_all2 packet_ok cs pss" "length (concat pss) < 2 ^ 32" "keeps depth st a (concat pss) cs"
    "depth \<le> PAI_HOST_MAX_IB_DEPTH"
  shows "pai_host_run_stream st a (of_nat (length (concat pss))) depth = exec_all depth st cs"
proof -
  have "length pss \<le> length (concat pss)"
    using assms(1) by (induction rule: list_all2_induct) (auto simp: packet_ok_def)
  moreover have "unat (of_nat (length (concat pss)) :: u32) = length (concat pss)"
    using assms(2) by (simp only: unsigned_of_nat) (simp add: take_bit_nat_eq_self)
  ultimately show ?thesis
    using loop_exec [OF assms(1) _ assms(2,3), of "[]"] assms(4) by (simp add: pai_host_run_stream_def)
qed

section \<open>Termination\<close>

lemma store_returns [simp]: "store_bytes st a bs \<noteq> Diverges"
  by (simp add: store_bytes_def split: option.splits)

lemma host_packet_returns: "host_packet st pm4 i opc count \<noteq> Diverges"
proof -
  have "host_set_sh_reg st pm4 i count \<noteq> Diverges" by (simp add: host_set_sh_reg_def Let_def split: option.splits)
  moreover have "host_dispatch st pm4 i \<noteq> Diverges" by (simp add: host_dispatch_def split: option.splits)
  moreover have "host_release_mem st pm4 i count \<noteq> Diverges"
    by (cases "word_at st pm4 i 1") (simp_all add: host_release_mem_def Let_def split: option.splits)
  moreover have "host_write_data st pm4 i count \<noteq> Diverges" by (simp add: host_write_data_def split: option.splits)
  moreover have "host_dma_data st pm4 i \<noteq> Diverges" by (simp add: host_dma_data_def split: option.splits)
  ultimately show ?thesis by (simp add: host_packet_def)
qed

lemma host_loop_level:
  assumes small: "unat dwords + 0x4001 < 2 ^ 32"
    and ib: "\<And>st a w. depth + 1 \<le> PAI_HOST_MAX_IB_DEPTH \<Longrightarrow>
      host_loop (unat (w AND 0xFFFFF)) st a (w AND 0xFFFFF) (depth + 1) 0 \<noteq> Diverges"
  shows "unat dwords \<le> fuel + unat i \<Longrightarrow> host_loop fuel st pm4 dwords depth i \<noteq> Diverges"
proof (induction fuel arbitrary: st i)
  case 0
  then have "\<not> i < dwords" by (simp add: word_less_nat_alt)
  then show ?case by (subst host_loop.simps) simp
next
  case (Suc f)
  show ?case
  proof (cases "i < dwords")
    case True
    have nx: "host_loop f st' pm4 dwords depth (i + hdr_count h) \<noteq> Diverges" for st' h
    proof (rule Suc.IH)
      have "unat (i + hdr_count h) = unat i + unat (hdr_count h)"
        using True small hdr_count_le [of h] by (simp add: unat_word_ariths word_less_nat_alt)
      moreover have "2 \<le> unat (hdr_count h)"
        using and_mask_less [of "drop_bit 16 h" 14] unfolding hdr_count_def masks by (simp add: unat_word_ariths)
      ultimately show "unat dwords \<le> f + unat (i + hdr_count h)" using Suc.prems by linarith
    qed
    define B where "B h = (if hdr_op h = PAI_PM4_OP_INDIRECT_BUFFER then
      (case (word_at st pm4 i 1, word_at st pm4 i 2, word_at st pm4 i 3) of
         (Some lo, Some hi, Some w) \<Rightarrow>
           if depth + 1 > PAI_HOST_MAX_IB_DEPTH then Returns (st, Inl PAI_ERR_INTERNAL)
           else host_loop (unat (w AND 0xFFFFF)) st (addr_of lo hi) (w AND 0xFFFFF) (depth + 1) 0
       | _ \<Rightarrow> Fault)
     else host_packet st pm4 i (hdr_op h) (hdr_count h))" for h
    have body: "B h \<noteq> Diverges" for h
      unfolding B_def using ib host_packet_returns by (auto split: option.splits)
    have "host_loop (Suc f) st pm4 dwords depth i =
      (case word_at st pm4 i 0 of None \<Rightarrow> Fault | Some h \<Rightarrow>
         if hdr_type h \<noteq> 3 then Returns (st, Inl PAI_ERR_UNSUPPORTED)
         else if hdr_count h < 1 \<or> i + hdr_count h > dwords then Returns (st, Inl PAI_ERR_INTERNAL)
         else (case B h of
             Returns (st', Inr u) \<Rightarrow> host_loop f st' pm4 dwords depth (i + hdr_count h)
           | Returns (st', Inl e) \<Rightarrow> Returns (st', Inl e) | Fault \<Rightarrow> Fault | Diverges \<Rightarrow> Diverges))"
      by (subst host_loop_hdr) (simp only: True B_def Let_def simp_thms if_False nat.case)
    then show ?thesis using nx body by (auto split: option.splits outcome.splits prod.splits sum.splits)
  qed (subst host_loop.simps, simp)
qed

lemma host_loop_returns: "unat dwords + 0x4001 < 2 ^ 32 \<Longrightarrow> host_loop (unat dwords) st pm4 dwords depth 0 \<noteq> Diverges"
proof (induction "PAI_HOST_MAX_IB_DEPTH - depth" arbitrary: dwords st pm4 depth rule: less_induct)
  case less
  have "host_loop (unat (w AND 0xFFFFF)) st a (w AND 0xFFFFF) (depth + 1) 0 \<noteq> Diverges"
    if "depth + 1 \<le> PAI_HOST_MAX_IB_DEPTH" for st a w
  proof (rule less.hyps)
    have "(0xFFFFF :: u32) = mask 20" by (simp add: mask_eq_exp_minus_1)
    then have "unat (w AND 0xFFFFF) < 2 ^ 20" using and_mask_less [of w 20] by simp
    then show "unat (w AND 0xFFFFF) + 0x4001 < 2 ^ 32" by simp
  qed (use that in simp)
  then show ?case using host_loop_level [OF less.prems] by simp
qed

section \<open>Properties\<close>

text \<open>C36. Build and run: a stream that the builder made from a list of calls and that lies in memory
  undisturbed by its own effects (the dwords are there before every call, and no data write goes over
  them) is interpreted as exactly those calls, in order, up to the first
  one that fails: registers, kernel launches with their group count, fences, data writes and copies
  get the arguments of the calls, indirect buffers are entered at the next depth, and \<open>ACQUIRE_MEM\<close> and
  \<open>WAIT_REG_MEM\<close> packets stop the run as unsupported.\<close>

theorem host_runs_built_stream:
  assumes "pm4_calls (pai_pm4_builder_init buf n) cs = Returns (b, True)" and "unat n \<le> length buf"
    and "\<forall>c \<in> set cs. small_nop c" and "keeps 0 st pm4 (written b) cs"
  shows "pai_host_submit st pm4 (plen b) = exec_all 0 st cs"
proof -
  have b0: "b_ok (pai_pm4_builder_init buf n)" using assms(2) by (simp add: b_ok_def pai_pm4_builder_init_def)
  obtain pss where pss: "list_all2 packet_ok cs pss" "extends (pai_pm4_builder_init buf n) (concat pss) b"
    using calls_correct [OF b0 assms(3)] assms(1) by auto
  have "written (pai_pm4_builder_init buf n) = []" "unat (plen (pai_pm4_builder_init buf n)) = 0"
    by (simp_all add: written_def pai_pm4_builder_init_def)
  then have w: "written b = concat pss" "unat (plen b) = length (concat pss)"
    using pss(2) unfolding extends_def by (metis append_Nil, metis add_0)
  have "plen b = of_nat (length (concat pss))" unfolding w(2) [symmetric] by simp
  moreover have "length (concat pss) < 2 ^ 32" unfolding w(2) [symmetric] using unsigned_less [of "plen b", where 'a = nat] by simp
  ultimately show ?thesis
    using stream_exec [OF pss(1), of 0 st pm4] assms(4) w(1) by (simp add: pai_host_submit_def host_consts)
qed

definition demo_stream :: "u32 list" where
  "demo_stream = [0xC0064900, 0x06703514, 0x20000000, 64, 0, 7, 0, 0]"

definition demo_host :: pai_host_ref_state where
  "demo_host = pai_host_init (\<lambda>a. if a < 32 then Some (concat (map put_le32 demo_stream) ! unat a)
     else if a < 128 then Some 0 else None)"

lemma demo_build:
  "pm4_calls (pai_pm4_builder_init (replicate 8 0) 8) [EopFence 64 7] =
     Returns (\<lparr>pbuf = demo_stream, pcap = 8, plen = 8\<rparr>, True)"
  by (simp add: pai_pm4_builder_init_def pai_pm4_release_mem_eop_fence_def pm4_packet_def pai_pm4_emit_def pm4_store_def
      demo_stream_def pai_pm4_header3_def pm4_ops pm4_consts)

lemma demo_bytes: "concat (map put_le32 demo_stream) =
    [0, 0x49, 6, 0xC0, 0x14, 0x35, 0x70, 6, 0, 0, 0, 0x20, 64, 0, 0, 0, 0, 0, 0, 0, 7, 0, 0, 0, 0, 0, 0, 0, 0, 0, 0, 0]"
  by (simp add: demo_stream_def put_le32_def)

lemma read_mem_numeral:
  "read_mem m a (numeral k) = (case m a of None \<Rightarrow> None | Some x \<Rightarrow> map_option ((#) x) (read_mem m (a + 1) (pred_numeral k)))"
  by (simp add: numeral_eq_Suc)

lemma demo_read: "holds demo_host 0 demo_stream"
proof -
  have "4 * length demo_stream = 32" by (simp add: demo_stream_def)
  then show ?thesis
    by (simp add: holds_def demo_host_def pai_host_init_def demo_bytes read_mem_numeral)
qed

theorem host_runs_built_stream_witness:
  "\<exists>st. pai_host_submit demo_host 0 8 = Returns (st, Inr ()) \<and> read32 (hmem st) 64 = Some 7"
proof -
  have k: "keeps 0 demo_host 0 (written \<lparr>pbuf = demo_stream, pcap = 8, plen = 8\<rparr>) [EopFence 64 7]"
    using demo_read by (auto simp: written_def demo_stream_def split: outcome.splits sum.splits)
  have "\<exists>st. exec_all 0 demo_host [EopFence 64 7] = Returns (st, Inr ()) \<and> read32 (hmem st) 64 = Some 7"
    by (simp add: store_bytes_def put_le32_def demo_host_def pai_host_init_def read32_def get_le32_def read_mem_numeral)
  then show ?thesis
    using host_runs_built_stream [OF demo_build _ _ k] by (simp add: small_nop_def)
qed

text \<open>C37. The interpreter ends on every stream and every memory, whatever the packets say, as long as the
  stream is shorter than \<open>2 ^ 32 - 0x4001\<close> dwords: nested indirect buffers stop at the depth limit and every
  packet moves the cursor forward.\<close>

theorem host_run_terminates:
  assumes "unat dwords + 0x4001 < 2 ^ 32"
  shows "pai_host_run_stream st pm4 dwords depth \<noteq> Diverges"
  using host_loop_returns [OF assms] by (simp add: pai_host_run_stream_def)

theorem host_run_terminates_witness: "pai_host_run_stream demo_host 0 8 0 \<noteq> Diverges"
  by (rule host_run_terminates) simp

end
