(* ===== verification/Ref_Ops.thy ===== *)
theory Ref_Ops
  imports Prelude "HOL-Library.Monad_Syntax"
begin

text \<open>
  \<^verbatim>\<open>cpu/reference/ref_ops.c\<close>: the reference kernels. A float is its 32-bit pattern and a double its 64-bit
  pattern; the arithmetic of the C implementation and of \<^verbatim>\<open>math.h\<close> is a parameter, the record \<open>fops\<close>.
  Buffers are addresses in one memory, so that aliasing buffers are covered; address 0 is NULL and an access
  outside the memory gives \<open>None\<close>. Sizes are natural numbers; a sum or product of sizes that the code compares
  is taken modulo \<open>2 ^ 64\<close>, while an index of a buffer that exists does not reach \<open>2 ^ 64\<close>. Every loop of the code is a \<open>loop\<close>, in the same order.
\<close>

section \<open>Floats and memory\<close>

record fops =
  fadd :: "u32 \<Rightarrow> u32 \<Rightarrow> u32"
  fsub :: "u32 \<Rightarrow> u32 \<Rightarrow> u32"
  fmul :: "u32 \<Rightarrow> u32 \<Rightarrow> u32"
  fdiv :: "u32 \<Rightarrow> u32 \<Rightarrow> u32"
  fneg :: "u32 \<Rightarrow> u32"
  fgt :: "u32 \<Rightarrow> u32 \<Rightarrow> bool"
  feq :: "u32 \<Rightarrow> u32 \<Rightarrow> bool"
  fabsf :: "u32 \<Rightarrow> u32"
  expf :: "u32 \<Rightarrow> u32"
  sqrtf :: "u32 \<Rightarrow> u32"
  f_of_nat :: "nat \<Rightarrow> u32"
  f_of_int :: "int \<Rightarrow> u32"
  f2d :: "u32 \<Rightarrow> u64"
  d2f :: "u64 \<Rightarrow> u32"
  dadd :: "u64 \<Rightarrow> u64 \<Rightarrow> u64"
  dsub :: "u64 \<Rightarrow> u64 \<Rightarrow> u64"
  dmul :: "u64 \<Rightarrow> u64 \<Rightarrow> u64"
  ddiv :: "u64 \<Rightarrow> u64 \<Rightarrow> u64"
  d_of_nat :: "nat \<Rightarrow> u64"
  dneg :: "u64 \<Rightarrow> u64"
  dpow :: "u64 \<Rightarrow> u64 \<Rightarrow> u64"
  dcos :: "u64 \<Rightarrow> u64"
  dsin :: "u64 \<Rightarrow> u64"

definition f0 :: u32 where "f0 = 0"
definition f1 :: u32 where "f1 = 0x3F800000"
definition feps :: u32 where "feps = 0x3727C5AC"
definition d0 :: u64 where "d0 = 0"

definition ldf :: "bytes \<Rightarrow> nat \<Rightarrow> u32 option" where
  "ldf m a = (if a + 4 \<le> length m then Some (get_le32 (take 4 (drop a m))) else None)"

definition stf :: "bytes \<Rightarrow> nat \<Rightarrow> u32 \<Rightarrow> bytes option" where
  "stf m a x = (if a + 4 \<le> length m then Some (take a m @ put_le32 x @ drop (a + 4) m) else None)"

primrec loop :: "nat \<Rightarrow> (nat \<Rightarrow> 's \<Rightarrow> 's option) \<Rightarrow> 's \<Rightarrow> 's option" where
  "loop 0 f s = Some s"
| "loop (Suc n) f s = Option.bind (loop n f s) (f n)"

type_synonym kernel_result = "(bytes \<times> unit res) option"

definition finish :: "bytes option \<Rightarrow> kernel_result" where
  "finish r = map_option (\<lambda>m. (m, Inr ())) r"

definition invalid :: "bytes \<Rightarrow> kernel_result" where
  "invalid m = Some (m, Inl PAI_ERR_INVALID_ARG)"

section \<open>Element-wise kernels\<close>

definition pai_ref_vecadd_f32 :: "fops \<Rightarrow> nat \<Rightarrow> nat \<Rightarrow> nat \<Rightarrow> nat \<Rightarrow> bytes \<Rightarrow> kernel_result" where
  "pai_ref_vecadd_f32 F a b c n m =
     (if (a = 0 \<or> b = 0 \<or> c = 0) \<and> n \<noteq> 0 then invalid m
      else finish (loop n (\<lambda>i m. do { x \<leftarrow> ldf m (a + 4 * i); y \<leftarrow> ldf m (b + 4 * i); stf m (c + 4 * i) (fadd F x y) }) m))"

definition pai_ref_vecsub_f32 :: "fops \<Rightarrow> nat \<Rightarrow> nat \<Rightarrow> nat \<Rightarrow> nat \<Rightarrow> bytes \<Rightarrow> kernel_result" where
  "pai_ref_vecsub_f32 F a b c n m =
     (if (a = 0 \<or> b = 0 \<or> c = 0) \<and> n \<noteq> 0 then invalid m
      else finish (loop n (\<lambda>i m. do { x \<leftarrow> ldf m (a + 4 * i); y \<leftarrow> ldf m (b + 4 * i); stf m (c + 4 * i) (fsub F x y) }) m))"

definition pai_ref_vecmul_f32 :: "fops \<Rightarrow> nat \<Rightarrow> nat \<Rightarrow> nat \<Rightarrow> nat \<Rightarrow> bytes \<Rightarrow> kernel_result" where
  "pai_ref_vecmul_f32 F a b c n m =
     (if (a = 0 \<or> b = 0 \<or> c = 0) \<and> n \<noteq> 0 then invalid m
      else finish (loop n (\<lambda>i m. do { x \<leftarrow> ldf m (a + 4 * i); y \<leftarrow> ldf m (b + 4 * i); stf m (c + 4 * i) (fmul F x y) }) m))"

definition pai_ref_clip_f32 :: "fops \<Rightarrow> nat \<Rightarrow> nat \<Rightarrow> nat \<Rightarrow> u32 \<Rightarrow> u32 \<Rightarrow> bytes \<Rightarrow> kernel_result" where
  "pai_ref_clip_f32 F a c n lo hi m =
     (if (a = 0 \<or> c = 0) \<and> n \<noteq> 0 then invalid m
      else if fgt F lo hi then invalid m
      else finish (loop n (\<lambda>i m. do { x \<leftarrow> ldf m (a + 4 * i);
        stf m (c + 4 * i) (if fgt F lo x then lo else if fgt F x hi then hi else x) }) m))"

definition pai_ref_relu_f32 :: "fops \<Rightarrow> nat \<Rightarrow> nat \<Rightarrow> nat \<Rightarrow> bytes \<Rightarrow> kernel_result" where
  "pai_ref_relu_f32 F a c n m =
     (if (a = 0 \<or> c = 0) \<and> n \<noteq> 0 then invalid m
      else finish (loop n (\<lambda>i m. do { x \<leftarrow> ldf m (a + 4 * i); stf m (c + 4 * i) (if fgt F x f0 then x else f0) }) m))"

definition pai_ref_silu_f32 :: "fops \<Rightarrow> nat \<Rightarrow> nat \<Rightarrow> nat \<Rightarrow> bytes \<Rightarrow> kernel_result" where
  "pai_ref_silu_f32 F a c n m =
     (if (a = 0 \<or> c = 0) \<and> n \<noteq> 0 then invalid m
      else finish (loop n (\<lambda>i m. do { x \<leftarrow> ldf m (a + 4 * i);
       stf m (c + 4 * i) (fdiv F x (fadd F f1 (expf F (fneg F x)))) }) m))"

definition pai_ref_scale_f32 :: "fops \<Rightarrow> nat \<Rightarrow> u32 \<Rightarrow> nat \<Rightarrow> bytes \<Rightarrow> kernel_result" where
  "pai_ref_scale_f32 F a alpha n m =
     (if a = 0 \<and> n \<noteq> 0 then invalid m
      else finish (loop n (\<lambda>i m. do { x \<leftarrow> ldf m (a + 4 * i); stf m (a + 4 * i) (fmul F alpha x) }) m))"

definition pai_ref_biasadd_f32 :: "fops \<Rightarrow> nat \<Rightarrow> nat \<Rightarrow> nat \<Rightarrow> nat \<Rightarrow> nat \<Rightarrow> bytes \<Rightarrow> kernel_result" where
  "pai_ref_biasadd_f32 F a bias c rows cols m =
     (if rows = 0 \<or> cols = 0 \<or> a = 0 \<or> bias = 0 \<or> c = 0 then invalid m
      else finish (loop rows (\<lambda>i. loop cols (\<lambda>j m. do {
        x \<leftarrow> ldf m (a + 4 * (i * cols + j)); y \<leftarrow> ldf m (bias + 4 * j);
        stf m (c + 4 * (i * cols + j)) (fadd F x y) })) m))"

section \<open>Copies\<close>

text \<open>\<open>memcpy\<close> of \<open>n\<close> floats; the source and the destination must not overlap, except when they are equal
  and \<open>pai_ref_copy_f32\<close> skips it.\<close>

definition memcpy_f :: "nat \<Rightarrow> nat \<Rightarrow> nat \<Rightarrow> bytes \<Rightarrow> bytes option" where
  "memcpy_f c a n m =
     (if n \<noteq> 0 \<and> (a + 4 * n > length m \<or> c + 4 * n > length m \<or> a < c + 4 * n \<and> c < a + 4 * n) then None
      else Some (take c m @ take (4 * n) (drop a m) @ drop (c + 4 * n) m))"

definition pai_ref_copy_f32 :: "nat \<Rightarrow> nat \<Rightarrow> nat \<Rightarrow> bytes \<Rightarrow> kernel_result" where
  "pai_ref_copy_f32 a c n m =
     (if (a = 0 \<or> c = 0) \<and> n \<noteq> 0 then invalid m
      else finish (if a \<noteq> c \<and> n \<noteq> 0 then memcpy_f c a n m else Some m))"

definition pai_ref_concat_f32 :: "nat \<Rightarrow> nat \<Rightarrow> nat \<Rightarrow> nat \<Rightarrow> nat \<Rightarrow> bytes \<Rightarrow> kernel_result" where
  "pai_ref_concat_f32 a b c na nb m =
     (if (a = 0 \<or> b = 0 \<or> c = 0) \<and> (na + nb) mod 2 ^ 64 \<noteq> 0 then invalid m
      else finish (do { m1 \<leftarrow> memcpy_f c a na m; memcpy_f (c + 4 * na) b nb m1 }))"

section \<open>Reductions and normalisations\<close>

definition pai_ref_dot_f32 :: "fops \<Rightarrow> nat \<Rightarrow> nat \<Rightarrow> nat \<Rightarrow> nat \<Rightarrow> bytes \<Rightarrow> kernel_result" where
  "pai_ref_dot_f32 F a b out n m =
     (if n = 0 \<or> out = 0 \<or> a = 0 \<or> b = 0 then invalid m
      else finish (do {
        acc \<leftarrow> loop n (\<lambda>i acc. do { x \<leftarrow> ldf m (a + 4 * i); y \<leftarrow> ldf m (b + 4 * i); Some (fadd F acc (fmul F x y)) }) f0;
        stf m out acc }))"

definition pai_ref_l1norm_f32 :: "fops \<Rightarrow> nat \<Rightarrow> nat \<Rightarrow> nat \<Rightarrow> bytes \<Rightarrow> kernel_result" where
  "pai_ref_l1norm_f32 F a out n m =
     (if n = 0 \<or> out = 0 \<or> a = 0 then invalid m
      else finish (do {
        acc \<leftarrow> loop n (\<lambda>i acc. do { x \<leftarrow> ldf m (a + 4 * i); Some (fadd F acc (fabsf F x)) }) f0;
        stf m out acc }))"

definition pai_ref_l2norm_f32 :: "fops \<Rightarrow> nat \<Rightarrow> nat \<Rightarrow> nat \<Rightarrow> bytes \<Rightarrow> kernel_result" where
  "pai_ref_l2norm_f32 F a out n m =
     (if n = 0 \<or> out = 0 \<or> a = 0 then invalid m
      else finish (do {
        acc \<leftarrow> loop n (\<lambda>i acc. do { x \<leftarrow> ldf m (a + 4 * i); Some (fadd F acc (fmul F x x)) }) f0;
        stf m out (sqrtf F acc) }))"

definition pai_ref_softmax_f32 :: "fops \<Rightarrow> nat \<Rightarrow> nat \<Rightarrow> nat \<Rightarrow> bytes \<Rightarrow> kernel_result" where
  "pai_ref_softmax_f32 F a c n m =
     (if n = 0 \<or> a = 0 \<or> c = 0 then invalid m
      else finish (do {
        x0 \<leftarrow> ldf m a;
        maxv \<leftarrow> loop (n - 1) (\<lambda>i mx. do { x \<leftarrow> ldf m (a + 4 * (i + 1)); Some (if fgt F x mx then x else mx) }) x0;
        (m, sum) \<leftarrow> loop n (\<lambda>i (m, s). do { x \<leftarrow> ldf m (a + 4 * i); let e = expf F (fsub F x maxv);
                                            m' \<leftarrow> stf m (c + 4 * i) e; Some (m', fadd F s e) }) (m, f0);
        loop n (\<lambda>i m. do { y \<leftarrow> ldf m (c + 4 * i); stf m (c + 4 * i) (fdiv F y sum) }) m }))"

definition rms_of :: "fops \<Rightarrow> nat \<Rightarrow> nat \<Rightarrow> u32 \<Rightarrow> bytes \<Rightarrow> u32 option" where
  "rms_of F a n eps m =
     (do { acc \<leftarrow> loop n (\<lambda>i acc. do { x \<leftarrow> ldf m (a + 4 * i); Some (dadd F acc (dmul F (f2d F x) (f2d F x))) }) d0;
           Some (fdiv F f1 (sqrtf F (fadd F (d2f F (ddiv F acc (d_of_nat F n))) eps))) })"

definition pai_ref_rmsnorm_f32 :: "fops \<Rightarrow> nat \<Rightarrow> nat \<Rightarrow> nat \<Rightarrow> u32 \<Rightarrow> bytes \<Rightarrow> kernel_result" where
  "pai_ref_rmsnorm_f32 F a c n eps m =
     (if n = 0 \<or> a = 0 \<or> c = 0 then invalid m
      else finish (do {
        rms \<leftarrow> rms_of F a n (if feq F eps f0 then feps else eps) m;
        loop n (\<lambda>i m. do { x \<leftarrow> ldf m (a + 4 * i); stf m (c + 4 * i) (fmul F x rms) }) m }))"

definition pai_ref_rmsnorm_gamma_f32 :: "fops \<Rightarrow> nat \<Rightarrow> nat \<Rightarrow> nat \<Rightarrow> nat \<Rightarrow> u32 \<Rightarrow> bytes \<Rightarrow> kernel_result" where
  "pai_ref_rmsnorm_gamma_f32 F a c n gamma eps m =
     (if n = 0 \<or> a = 0 \<or> c = 0 \<or> gamma = 0 then invalid m
      else finish (do {
        rms \<leftarrow> rms_of F a n (if feq F eps f0 then feps else eps) m;
        loop n (\<lambda>i m. do { x \<leftarrow> ldf m (a + 4 * i); g \<leftarrow> ldf m (gamma + 4 * i);
                           stf m (c + 4 * i) (fmul F (fmul F x g) rms) }) m }))"

definition opt_arg :: "bytes \<Rightarrow> nat \<Rightarrow> nat \<Rightarrow> (u32 \<Rightarrow> u32 \<Rightarrow> u32) \<Rightarrow> u32 \<Rightarrow> u32 option" where
  "opt_arg m p i f y = (if p = 0 then Some y else do { x \<leftarrow> ldf m (p + 4 * i); Some (f y x) })"

definition pai_ref_layernorm_f32 ::
    "fops \<Rightarrow> nat \<Rightarrow> nat \<Rightarrow> nat \<Rightarrow> nat \<Rightarrow> nat \<Rightarrow> u32 \<Rightarrow> bytes \<Rightarrow> kernel_result" where
  "pai_ref_layernorm_f32 F a c n gamma beta eps m =
     (if n = 0 \<or> a = 0 \<or> c = 0 then invalid m
      else finish (do {
        let eps = (if feq F eps f0 then feps else eps);
        (sum, sumsq) \<leftarrow> loop n (\<lambda>i (s, q). do { x \<leftarrow> ldf m (a + 4 * i);
            Some (dadd F s (f2d F x), dadd F q (dmul F (f2d F x) (f2d F x))) }) (d0, d0);
        let mean = d2f F (ddiv F sum (d_of_nat F n));
        let inv_std = fdiv F f1 (sqrtf F (fadd F (d2f F (dsub F (ddiv F sumsq (d_of_nat F n))
                        (dmul F (f2d F mean) (f2d F mean)))) eps));
        loop n (\<lambda>i m. do { x \<leftarrow> ldf m (a + 4 * i);
                           y1 \<leftarrow> opt_arg m gamma i (fmul F) (fmul F (fsub F x mean) inv_std);
                           y2 \<leftarrow> opt_arg m beta i (fadd F) y1;
                           stf m (c + 4 * i) y2 }) m }))"

section \<open>Matrix products\<close>

definition pai_ref_gemv_f32 :: "fops \<Rightarrow> nat \<Rightarrow> nat \<Rightarrow> nat \<Rightarrow> nat \<Rightarrow> nat \<Rightarrow> bytes \<Rightarrow> kernel_result" where
  "pai_ref_gemv_f32 F rows k a x y m =
     (if rows = 0 \<or> k = 0 \<or> a = 0 \<or> x = 0 \<or> y = 0 then invalid m
      else finish (loop rows (\<lambda>i m. do {
        acc \<leftarrow> loop k (\<lambda>j acc. do { u \<leftarrow> ldf m (a + 4 * (i * k + j)); v \<leftarrow> ldf m (x + 4 * j);
                                    Some (fadd F acc (fmul F u v)) }) f0;
        stf m (y + 4 * i) acc }) m))"

definition pai_ref_gemm_f32 :: "fops \<Rightarrow> nat \<Rightarrow> nat \<Rightarrow> nat \<Rightarrow> nat \<Rightarrow> nat \<Rightarrow> nat \<Rightarrow> bytes \<Rightarrow> kernel_result" where
  "pai_ref_gemm_f32 F rows n k a b c m =
     (if rows = 0 \<or> n = 0 \<or> k = 0 \<or> a = 0 \<or> b = 0 \<or> c = 0 then invalid m
      else finish (loop rows (\<lambda>i. loop n (\<lambda>j m. do {
        sum \<leftarrow> loop k (\<lambda>l sum. do { u \<leftarrow> ldf m (a + 4 * (i * k + l)); v \<leftarrow> ldf m (b + 4 * (l * n + j));
                                    Some (fadd F sum (fmul F u v)) }) f0;
        stf m (c + 4 * (i * n + j)) sum })) m))"

section \<open>Rotary embedding and attention\<close>

text \<open>\<open>dim\<close> is the code's \<open>hd\<close>.\<close>

definition pai_ref_rope_f32 ::
    "fops \<Rightarrow> nat \<Rightarrow> nat \<Rightarrow> nat \<Rightarrow> nat \<Rightarrow> nat \<Rightarrow> nat \<Rightarrow> nat \<Rightarrow> nat \<Rightarrow> nat \<Rightarrow> bytes \<Rightarrow> kernel_result" where
  "pai_ref_rope_f32 F x rows dim seq heads cos_t sin_t r2 out m =
     (if rows = 0 \<or> dim = 0 \<or> seq = 0 \<or> heads = 0 \<or> r2 = 0 \<or> (2 * r2) mod 2 ^ 64 > dim \<or> rows mod heads \<noteq> 0 \<or>
         x = 0 \<or> out = 0 \<or> cos_t = 0 \<or> sin_t = 0 then invalid m
      else finish (loop rows (\<lambda>row m. do {
        let p = row div heads;
        let xr = x + 4 * (row * dim);
        let orr = out + 4 * (row * dim);
        m1 \<leftarrow> loop r2 (\<lambda>i m. do {
          c \<leftarrow> ldf m (cos_t + 4 * (p * r2 + i));
          s \<leftarrow> ldf m (sin_t + 4 * (p * r2 + i));
          x0 \<leftarrow> ldf m (xr + 4 * i);
          x1 \<leftarrow> ldf m (xr + 4 * (i + r2));
          m' \<leftarrow> stf m (orr + 4 * i) (fsub F (fmul F x0 c) (fmul F x1 s));
          stf m' (orr + 4 * (i + r2)) (fadd F (fmul F x0 s) (fmul F x1 c)) }) m;
        let r = (2 * r2) mod 2 ^ 64;
        loop (dim - r) (\<lambda>i m. do { y \<leftarrow> ldf m (xr + 4 * (r + i)); stf m (orr + 4 * (r + i)) y }) m1 }) m))"

text \<open>The scores of one head at one position. \<open>scores\<close> is the heap array of \<open>seq\<close> floats, an object of its
  own; \<open>ok\<close> tells whether \<open>malloc\<close> succeeds.\<close>

definition head_scores ::
    "fops \<Rightarrow> nat \<Rightarrow> nat \<Rightarrow> nat \<Rightarrow> u32 \<Rightarrow> nat \<Rightarrow> nat \<Rightarrow> nat \<Rightarrow> bytes \<Rightarrow> u32 list \<Rightarrow> u32 list option" where
  "head_scores F hk dim kvh inv_scale qp k p m scores =
     (do {
        sc \<leftarrow> loop (p + 1) (\<lambda>i sc. do {
          dot \<leftarrow> loop dim (\<lambda>d dot. do { u \<leftarrow> ldf m (qp + 4 * d); v \<leftarrow> ldf m (k + 4 * ((i * hk + kvh) * dim + d));
                                       Some (fadd F dot (fmul F u v)) }) f0;
          Some (sc[i := fmul F dot inv_scale]) }) scores;
        let maxv = fold (\<lambda>i mx. if fgt F (sc ! i) mx then sc ! i else mx) [1 ..< p + 1] (sc ! 0);
        let (sc, sum) = fold (\<lambda>i (sc, s). (let e = expf F (fsub F (sc ! i) maxv) in (sc[i := e], fadd F s e)))
                          [0 ..< p + 1] (sc, f0);
        Some (fold (\<lambda>i sc. sc[i := fdiv F (sc ! i) sum]) [0 ..< p + 1] sc) })"

definition pai_ref_attention_f32 ::
    "fops \<Rightarrow> bool \<Rightarrow> nat \<Rightarrow> nat \<Rightarrow> nat \<Rightarrow> nat \<Rightarrow> nat \<Rightarrow> nat \<Rightarrow> nat \<Rightarrow> nat \<Rightarrow> bytes \<Rightarrow> kernel_result" where
  "pai_ref_attention_f32 F ok h hk seq dim q k v out m =
     (if h = 0 \<or> hk = 0 \<or> seq = 0 \<or> dim = 0 \<or> h mod hk \<noteq> 0 \<or> q = 0 \<or> k = 0 \<or> v = 0 \<or> out = 0 then invalid m
      else if \<not> ok then Some (m, Inl PAI_ERR_NOMEM)
      else
        (let inv_scale = fdiv F f1 (sqrtf F (f_of_nat F dim))
         in finish (map_option fst (loop seq (\<lambda>p. loop h (\<lambda>hh (m, scores). do {
              let kvh = (hh * hk) div h;
              sc \<leftarrow> head_scores F hk dim kvh inv_scale (q + 4 * ((p * h + hh) * dim)) k p m scores;
              m' \<leftarrow> loop dim (\<lambda>d m. do {
                acc \<leftarrow> loop (p + 1) (\<lambda>i acc. do { x \<leftarrow> ldf m (v + 4 * ((i * hk + kvh) * dim + d));
                                                  Some (fadd F acc (fmul F (sc ! i) x)) }) f0;
                stf m (out + 4 * ((p * h + hh) * dim + d)) acc }) m;
              Some (m', sc) })) (m, replicate seq 0)))))"


definition pai_ref_rope_cossin_f32 :: "fops \<Rightarrow> nat \<Rightarrow> nat \<Rightarrow> u32 \<Rightarrow> nat \<Rightarrow> nat \<Rightarrow> bytes \<Rightarrow> kernel_result" where
  "pai_ref_rope_cossin_f32 F ctx r2 base cos_t sin_t m =
     (if ctx = 0 \<or> r2 = 0 \<or> cos_t = 0 \<or> sin_t = 0 then invalid m
      else
        (let base = (if feq F base f0 then 0x461C4000 else base); two = d_of_nat F 2
         in finish (loop ctx (\<lambda>p. loop r2 (\<lambda>i m. do {
              let theta = dmul F (d_of_nat F p)
                    (dpow F (f2d F base) (ddiv F (dneg F (dmul F two (d_of_nat F i))) (dmul F two (d_of_nat F r2))));
              m' \<leftarrow> stf m (cos_t + 4 * (p * r2 + i)) (d2f F (dcos F theta));
              stf m' (sin_t + 4 * (p * r2 + i)) (d2f F (dsin F theta)) })) m)))"

section \<open>Quantised products\<close>

text \<open>A signed byte; the packed nibble \<open>flat\<close> of a buffer, sign-extended.\<close>

definition ld8 :: "bytes \<Rightarrow> nat \<Rightarrow> int option" where
  "ld8 m a = (if a < length m then Some (sint (m ! a)) else None)"

definition ld4 :: "bytes \<Rightarrow> nat \<Rightarrow> nat \<Rightarrow> int option" where
  "ld4 m a flat =
     (if a + flat div 2 < length m then
        (let x = m ! (a + flat div 2);
             nib = (if flat mod 2 = 0 then uint x mod 16 else uint x div 16)
         in Some (if nib \<ge> 8 then nib - 16 else nib))
      else None)"

definition pai_ref_gemm_w8_f32 ::
    "fops \<Rightarrow> nat \<Rightarrow> nat \<Rightarrow> nat \<Rightarrow> nat \<Rightarrow> nat \<Rightarrow> nat \<Rightarrow> nat \<Rightarrow> nat \<Rightarrow> bytes \<Rightarrow> kernel_result" where
  "pai_ref_gemm_w8_f32 F rows n k a w_q b_scales group_size c m =
     (if rows = 0 \<or> n = 0 \<or> k = 0 \<or> a = 0 \<or> w_q = 0 \<or> b_scales = 0 \<or> c = 0 then invalid m
      else
        (let gs = (if group_size = 0 \<or> group_size > k then k else group_size)
         in finish (loop rows (\<lambda>i. loop n (\<lambda>j m. do {
              sum \<leftarrow> loop k (\<lambda>t sum. do {
                s \<leftarrow> ldf m (b_scales + 4 * ((t div gs) * n + j));
                x \<leftarrow> ldf m (a + 4 * (i * k + t));
                w \<leftarrow> ld8 m (w_q + (t * n + j));
                Some (fadd F sum (fmul F (fmul F x (f_of_int F w)) s)) }) f0;
              stf m (c + 4 * (i * n + j)) sum })) m)))"

definition pai_ref_gemm_w4_f32 ::
    "fops \<Rightarrow> nat \<Rightarrow> nat \<Rightarrow> nat \<Rightarrow> nat \<Rightarrow> nat \<Rightarrow> nat \<Rightarrow> nat \<Rightarrow> nat \<Rightarrow> bytes \<Rightarrow> kernel_result" where
  "pai_ref_gemm_w4_f32 F rows n k a w_q4 b_scales group_size c m =
     (if rows = 0 \<or> n = 0 \<or> k = 0 \<or> a = 0 \<or> w_q4 = 0 \<or> b_scales = 0 \<or> c = 0 then invalid m
      else
        (let gs = (if group_size = 0 \<or> group_size > k then k else group_size)
         in finish (loop rows (\<lambda>i. loop n (\<lambda>j m. do {
              sum \<leftarrow> loop k (\<lambda>t sum. do {
                w \<leftarrow> ld4 m w_q4 (t * n + j);
                s \<leftarrow> ldf m (b_scales + 4 * ((t div gs) * n + j));
                x \<leftarrow> ldf m (a + 4 * (i * k + t));
                Some (fadd F sum (fmul F (fmul F x (f_of_int F w)) s)) }) f0;
              stf m (c + 4 * (i * n + j)) sum })) m)))"

section \<open>Fill and compare\<close>

definition pai_ref_memset16 :: "nat \<Rightarrow> u32 \<times> u32 \<times> u32 \<times> u32 \<Rightarrow> nat \<Rightarrow> bytes \<Rightarrow> kernel_result" where
  "pai_ref_memset16 dst pattern blocks m =
     (case pattern of (p0, p1, p2, p3) \<Rightarrow>
        if dst = 0 then invalid m
        else finish (loop blocks (\<lambda>i m. do {
          m \<leftarrow> stf m (dst + 4 * (i * 4 + 0)) p0;
          m \<leftarrow> stf m (dst + 4 * (i * 4 + 1)) p1;
          m \<leftarrow> stf m (dst + 4 * (i * 4 + 2)) p2;
          stf m (dst + 4 * (i * 4 + 3)) p3 }) m))"

text \<open>The first mismatching index, if any.\<close>

fun compare_from :: "fops \<Rightarrow> nat \<Rightarrow> nat \<Rightarrow> u32 \<Rightarrow> u32 \<Rightarrow> bytes \<Rightarrow> nat \<Rightarrow> nat \<Rightarrow> nat option option" where
  "compare_from F a b abs_tol rel_tol m i 0 = Some None"
| "compare_from F a b abs_tol rel_tol m i (Suc n) =
     (do { x \<leftarrow> ldf m (a + 4 * i); y \<leftarrow> ldf m (b + 4 * i);
           let diff = fabsf F (fsub F x y);
           let scale = fmul F (fabsf F y) rel_tol;
           let tol = (if fgt F abs_tol scale then abs_tol else scale);
           if fgt F diff tol then Some (Some i) else compare_from F a b abs_tol rel_tol m (Suc i) n })"

definition pai_ref_compare_f32 ::
    "fops \<Rightarrow> nat \<Rightarrow> nat \<Rightarrow> nat \<Rightarrow> u32 \<Rightarrow> u32 \<Rightarrow> bytes \<Rightarrow> (unit res \<times> u64) option" where
  "pai_ref_compare_f32 F a b n abs_tol rel_tol m =
     (if (a = 0 \<or> b = 0) \<and> n \<noteq> 0 then Some (Inl PAI_ERR_INVALID_ARG, - 1) else
      map_option (\<lambda>r. case r of None \<Rightarrow> (Inr (), - 1) | Some i \<Rightarrow> (Inl PAI_ERR_MISMATCH, of_nat i))
       (compare_from F a b abs_tol rel_tol m 0 n))"

end
