(* ===== verification/Ref_Spec.thy ===== *)
theory Ref_Spec
  imports Ref_Ops
begin

text \<open>
  The reference kernels of \<^verbatim>\<open>cpu/reference/ref_ops.c\<close> as functions on lists of floats: on buffers that lie
  in memory and do not overlap the destination, each kernel returns \<open>PAI_OK\<close>, writes the list its
  specification gives and changes nothing else. The lemmas on \<open>loop\<close> are shared by all of them.
\<close>

section \<open>Arrays in memory\<close>

text \<open>\<open>arr m a xs\<close>: the floats \<open>xs\<close> lie in memory at \<open>a\<close>. \<open>wrf m c xs\<close> is memory with \<open>xs\<close> written at \<open>c\<close>.\<close>

definition arr :: "bytes \<Rightarrow> nat \<Rightarrow> u32 list \<Rightarrow> bool" where
  "arr m a xs \<longleftrightarrow> a + 4 * length xs \<le> length m \<and> (\<forall>i < length xs. ldf m (a + 4 * i) = Some (xs ! i))"

definition wrf :: "bytes \<Rightarrow> nat \<Rightarrow> u32 list \<Rightarrow> bytes" where
  "wrf m c xs = take c m @ concat (map put_le32 xs) @ drop (c + 4 * length xs) m"

definition clear :: "nat \<Rightarrow> nat \<Rightarrow> nat \<Rightarrow> nat \<Rightarrow> bool" where
  "clear a n c k \<longleftrightarrow> a + 4 * n \<le> c \<or> c + 4 * k \<le> a"

text \<open>The two memories agree on every float that does not touch the \<open>k\<close> floats at \<open>c\<close>.\<close>

definition same_outside :: "bytes \<Rightarrow> nat \<Rightarrow> nat \<Rightarrow> bytes \<Rightarrow> bool" where
  "same_outside m c k m' \<longleftrightarrow> length m' = length m \<and>
     (\<forall>a. a + 4 \<le> c \<or> c + 4 * k \<le> a \<longrightarrow> ldf m' a = ldf m a)"

lemma length_put_floats [simp]: "length (concat (map put_le32 xs)) = 4 * length xs"
  by (induction xs) auto

lemma length_wrf [simp]: "c + 4 * length xs \<le> length m \<Longrightarrow> length (wrf m c xs) = length m"
  by (simp add: wrf_def)

lemma wrf_Nil [simp]: "wrf m c [] = m"
  by (simp add: wrf_def)

lemma stf_wrf: "c + 4 \<le> length m \<Longrightarrow> stf m c x = Some (wrf m c [x])"
  by (simp add: stf_def wrf_def)

lemma wrf_append:
  assumes "c + 4 * length xs + 4 * length ys \<le> length m"
  shows "wrf (wrf m c xs) (c + 4 * length xs) ys = wrf m c (xs @ ys)"
  using assms by (simp add: wrf_def add_ac)

lemma ldf_take_drop: "take k (drop a m) = take k (drop a m') \<Longrightarrow> length m = length m' \<Longrightarrow> 4 \<le> k \<Longrightarrow> ldf m a = ldf m' a"
  by (simp add: ldf_def) (metis take_take min.absorb1)

lemma ldf_wrf_other:
  assumes "c + 4 * length xs \<le> length m" "a + 4 \<le> c \<or> c + 4 * length xs \<le> a"
  shows "ldf (wrf m c xs) a = ldf m a"
proof (rule ldf_take_drop [where k = 4])
  show "take 4 (drop a (wrf m c xs)) = take 4 (drop a m)"
    using assms by (auto simp: wrf_def drop_take min_def)
qed (use assms in auto)

lemma ldf_wrf_same:
  assumes "c + 4 * length xs \<le> length m" "i < length xs"
  shows "ldf (wrf m c xs) (c + 4 * i) = Some (xs ! i)"
proof -
  have "concat (map put_le32 xs) = concat (map put_le32 (take i xs)) @ put_le32 (xs ! i) @ concat (map put_le32 (drop (Suc i) xs))"
    using assms(2) by (metis (no_types, lifting) concat.simps(2) concat_append id_take_nth_drop list.simps(9) map_append)
  then have "take 4 (drop (c + 4 * i) (wrf m c xs)) = put_le32 (xs ! i)"
    using assms by (simp add: wrf_def)
  moreover have "get_le32 (put_le32 (xs ! i)) = xs ! i" using get_put_le32 [of "xs ! i" "[]"] by simp
  ultimately show ?thesis using assms by (simp add: ldf_def)
qed

lemma arr_wrf: "c + 4 * length xs \<le> length m \<Longrightarrow> arr (wrf m c xs) c xs"
  by (simp add: arr_def ldf_wrf_same)

lemma same_outside_refl [simp]: "same_outside m c k m"
  by (simp add: same_outside_def)

lemma same_outside_wrf:
  "c \<le> d \<Longrightarrow> d + 4 * length xs \<le> c + 4 * k \<Longrightarrow> c + 4 * k \<le> length m \<Longrightarrow> same_outside m c k m' \<Longrightarrow>
     same_outside m c k (wrf m' d xs)"
  by (auto simp: same_outside_def ldf_wrf_other)

lemma arr_outside:
  assumes "arr m a xs" "same_outside m c k m'" "clear a (length xs) c k"
  shows "arr m' a xs"
  unfolding arr_def
proof (intro conjI allI impI)
  fix i assume "i < length xs"
  then have "a + 4 * i + 4 \<le> c \<or> c + 4 * k \<le> a + 4 * i" using assms(3) by (auto simp: clear_def)
  then show "ldf m' (a + 4 * i) = Some (xs ! i)"
    using assms(1,2) \<open>i < length xs\<close> unfolding arr_def same_outside_def by auto
qed (use assms in \<open>simp add: arr_def same_outside_def\<close>)

lemma arr_ldf: "arr m a xs \<Longrightarrow> i < length xs \<Longrightarrow> ldf m (a + 4 * i) = Some (xs ! i)"
  by (simp add: arr_def)

lemma arr_bound: "arr m a xs \<Longrightarrow> a + 4 * length xs \<le> length m"
  by (simp add: arr_def)

section \<open>Loops\<close>

lemma loop_fold: "(\<And>i s. i < n \<Longrightarrow> body i s = Some (f i s)) \<Longrightarrow> loop n body s = Some (fold f [0 ..< n] s)"
  by (induction n) auto

text \<open>A loop over states that carry a memory (\<open>mm\<close>), whose step \<open>i\<close> writes its block of \<open>w\<close> floats computed
  from memory outside the target, writes the concatenation of the blocks.\<close>

lemma loop_gen:
  assumes c: "c + 4 * (w * n) \<le> length m" and s0: "P 0 s0" "mm s0 = m"
    and step: "\<And>i s. i < n \<Longrightarrow> P i s \<Longrightarrow> same_outside m c (w * n) (mm s) \<Longrightarrow>
      \<exists>s'. body i s = Some s' \<and> P (Suc i) s' \<and> mm s' = wrf (mm s) (c + 4 * (w * i)) (G i)"
    and len: "\<And>i. i < n \<Longrightarrow> length (G i) = w"
  shows "\<exists>s'. loop n body s0 = Some s' \<and> P n s' \<and> mm s' = wrf m c (concat (map G [0 ..< n]))"
proof -
  have "\<exists>s'. loop j body s0 = Some s' \<and> P j s' \<and> mm s' = wrf m c (concat (map G [0 ..< j])) \<and>
      length (concat (map G [0 ..< j])) = w * j" if "j \<le> n" for j
    using that
  proof (induction j)
    case (Suc j)
    let ?xs = "concat (map G [0 ..< j])"
    obtain s' where IH: "loop j body s0 = Some s'" "P j s'" "mm s' = wrf m c ?xs" "length ?xs = w * j"
      using Suc by auto
    have le: "w * j + w \<le> w * n" using Suc.prems by (metis Suc_le_eq mult_Suc_right mult_le_mono2 add.commute Suc_leI)
    have so: "same_outside m c (w * n) (mm s')"
      unfolding IH(3) using IH(4) le c Suc.prems by (intro same_outside_wrf) auto
    obtain t where t: "body j s' = Some t" "P (Suc j) t" "mm t = wrf (mm s') (c + 4 * (w * j)) (G j)"
      using step [OF _ IH(2) so] Suc.prems by auto
    have "mm t = wrf m c (?xs @ G j)"
      using wrf_append [of c ?xs "G j" m] t(3) IH(3,4) c len Suc.prems le by simp
    then show ?case using IH t len Suc.prems by simp
  qed (use s0 in simp)
  then show ?thesis by blast
qed

lemma loop_blocks:
  assumes "c + 4 * (w * n) \<le> length m"
    and "\<And>i m'. i < n \<Longrightarrow> same_outside m c (w * n) m' \<Longrightarrow> body i m' = Some (wrf m' (c + 4 * (w * i)) (G i))"
    and "\<And>i. i < n \<Longrightarrow> length (G i) = w"
  shows "loop n body m = Some (wrf m c (concat (map G [0 ..< n])))"
  using loop_gen [of c w n m "\<lambda>_ _. True" m "\<lambda>m. m" body G] assms by auto

lemma concat_singles: "concat (map (\<lambda>i. [g i]) xs) = map g xs"
  by (induction xs) auto

lemma loop_cells:
  assumes "c + 4 * n \<le> length m"
    and "\<And>i m'. i < n \<Longrightarrow> same_outside m c n m' \<Longrightarrow> body i m' = Some (wrf m' (c + 4 * i) [g i])"
  shows "loop n body m = Some (wrf m c (map g [0 ..< n]))"
  using loop_blocks [of c 1 n m body "\<lambda>i. [g i]"] assms by (simp add: concat_singles)

lemma loop_cells_acc:
  assumes "c + 4 * n \<le> length m"
    and "\<And>i m' s. i < n \<Longrightarrow> same_outside m c n m' \<Longrightarrow> body i (m', s) = Some (wrf m' (c + 4 * i) [g i], h i s)"
  shows "loop n body (m, s0) = Some (wrf m c (map g [0 ..< n]), fold h [0 ..< n] s0)"
proof -
  have "\<exists>s'. loop n body (m, s0) = Some s' \<and> snd s' = fold h [0 ..< n] s0 \<and> fst s' = wrf m c (concat (map (\<lambda>i. [g i]) [0 ..< n]))"
  proof (rule loop_gen [where w = 1])
    fix i s assume "i < n" "snd s = fold h [0 ..< i] s0" "same_outside m c (1 * n) (fst s)"
    then show "\<exists>s'. body i s = Some s' \<and> snd s' = fold h [0 ..< Suc i] s0 \<and> fst s' = wrf (fst s) (c + 4 * (1 * i)) [g i]"
      using assms(2) [of i "fst s" "snd s"] by (cases s) simp
  qed (use assms(1) in simp_all)
  then show ?thesis by (auto simp: concat_singles prod_eq_iff)
qed

lemma loop_inplace:
  assumes "arr m c ys" "length ys = n"
    and "\<And>i m'. i < n \<Longrightarrow> body i m' = Option.bind (ldf m' (c + 4 * i)) (\<lambda>y. stf m' (c + 4 * i) (f y))"
  shows "loop n body m = Some (wrf m c (map f ys))"
proof -
  have "loop j body m = Some (wrf m c (map f (take j ys)))" if "j \<le> n" for j
    using that
  proof (induction j)
    case (Suc j)
    have c: "c + 4 * n \<le> length m" using arr_bound [OF assms(1)] assms(2) by simp
    let ?m = "wrf m c (map f (take j ys))"
    have "ldf ?m (c + 4 * j) = ldf m (c + 4 * j)"
      using c Suc.prems assms(2) by (intro ldf_wrf_other) simp_all
    then have "ldf ?m (c + 4 * j) = Some (ys ! j)" using arr_ldf [OF assms(1), of j] assms(2) Suc.prems by simp
    moreover have "stf ?m (c + 4 * j) (f (ys ! j)) = Some (wrf m c (map f (take j ys) @ [f (ys ! j)]))"
      using wrf_append [of c "map f (take j ys)" "[f (ys ! j)]" m] c Suc.prems assms(2)
      by (subst stf_wrf) simp_all
    ultimately show ?case using Suc assms(2,3) by (simp add: take_Suc_conv_app_nth)
  qed simp
  from this [of n] show ?thesis using assms(2) by simp
qed

section \<open>Element-wise kernels\<close>

lemma clear_same [simp]: "same_outside m c k m' \<Longrightarrow> length m' = length m"
  by (simp add: same_outside_def)

lemma map2_cells:
  assumes "arr m a xs" "arr m b ys" "length xs = n" "length ys = n" "c + 4 * n \<le> length m"
    "clear a n c n" "clear b n c n"
  shows "loop n (\<lambda>i m. do { x \<leftarrow> ldf m (a + 4 * i); y \<leftarrow> ldf m (b + 4 * i); stf m (c + 4 * i) (f x y) }) m =
    Some (wrf m c (map2 f xs ys))"
proof -
  have "map2 f xs ys = map (\<lambda>i. f (xs ! i) (ys ! i)) [0 ..< n]"
    using assms(3,4) by (intro nth_equalityI) simp_all
  moreover have "loop n (\<lambda>i m. do { x \<leftarrow> ldf m (a + 4 * i); y \<leftarrow> ldf m (b + 4 * i); stf m (c + 4 * i) (f x y) }) m =
    Some (wrf m c (map (\<lambda>i. f (xs ! i) (ys ! i)) [0 ..< n]))"
  proof (rule loop_cells [OF assms(5)])
    fix i m' assume i: "i < n" and so: "same_outside m c n m'"
    have "arr m' a xs" "arr m' b ys" using arr_outside [OF assms(1) so] arr_outside [OF assms(2) so] assms by simp_all
    then show "do { x \<leftarrow> ldf m' (a + 4 * i); y \<leftarrow> ldf m' (b + 4 * i); stf m' (c + 4 * i) (f x y) } =
        Some (wrf m' (c + 4 * i) [f (xs ! i) (ys ! i)])"
      using i assms(3-) so by (simp add: stf_wrf arr_ldf)
  qed
  ultimately show ?thesis by simp
qed

lemma map_cells:
  assumes "arr m a xs" "length xs = n" "c + 4 * n \<le> length m" "clear a n c n"
  shows "loop n (\<lambda>i m. do { x \<leftarrow> ldf m (a + 4 * i); stf m (c + 4 * i) (f x) }) m = Some (wrf m c (map f xs))"
proof -
  have "map f xs = map (\<lambda>i. f (xs ! i)) [0 ..< n]" using assms(2) by (intro nth_equalityI) simp_all
  moreover have "loop n (\<lambda>i m. do { x \<leftarrow> ldf m (a + 4 * i); stf m (c + 4 * i) (f x) }) m =
    Some (wrf m c (map (\<lambda>i. f (xs ! i)) [0 ..< n]))"
  proof (rule loop_cells [OF assms(3)])
    fix i m' assume i: "i < n" and so: "same_outside m c n m'"
    have "arr m' a xs" using arr_outside [OF assms(1) so] assms by simp
    then show "do { x \<leftarrow> ldf m' (a + 4 * i); stf m' (c + 4 * i) (f x) } = Some (wrf m' (c + 4 * i) [f (xs ! i)])"
      using i assms(2-) so by (simp add: stf_wrf arr_ldf)
  qed
  ultimately show ?thesis by simp
qed
lemma put_get_le32:
  assumes "length bs = 4"
  shows "put_le32 (get_le32 bs) = bs"
proof -
  obtain a b c d where bs: "bs = [a, b, c, d]"
    using assms by (auto simp: length_Suc_conv numeral_eq_Suc)
  have ff: "(0xFF :: u32) = mask 8" by (simp add: mask_eq_exp_minus_1)
  have hi: "8 \<le> n \<Longrightarrow> \<not> bit x n" for x :: u8 and n
    by (auto dest: bit_imp_le_length)
  show ?thesis
    unfolding bs put_le32_def get_le32_def ff
    by (auto intro!: bit_word_eqI simp: bit_simps hi)
qed

lemma wrf_wrf:
  "c + 4 * length xs \<le> length m \<Longrightarrow> length ys = length xs \<Longrightarrow> wrf (wrf m c xs) c ys = wrf m c ys"
  by (simp add: wrf_def)

section \<open>Specifications\<close>

definition fsum :: "fops \<Rightarrow> nat \<Rightarrow> (nat \<Rightarrow> u32) \<Rightarrow> u32" where
  "fsum F n f = fold (\<lambda>l s. fadd F s (f l)) [0 ..< n] f0"

definition dsum :: "fops \<Rightarrow> u64 list \<Rightarrow> u64" where
  "dsum F xs = fold (\<lambda>x s. dadd F s x) xs d0"

definition tab :: "nat \<Rightarrow> nat \<Rightarrow> (nat \<Rightarrow> nat \<Rightarrow> 'a) \<Rightarrow> 'a list" where
  "tab rows cols g = concat (map (\<lambda>i. map (g i) [0 ..< cols]) [0 ..< rows])"

definition relu_spec :: "fops \<Rightarrow> u32 list \<Rightarrow> u32 list" where
  "relu_spec F xs = map (\<lambda>x. if fgt F x f0 then x else f0) xs"

definition silu_spec :: "fops \<Rightarrow> u32 list \<Rightarrow> u32 list" where
  "silu_spec F xs = map (\<lambda>x. fdiv F x (fadd F f1 (expf F (fneg F x)))) xs"

definition softmax_spec :: "fops \<Rightarrow> u32 list \<Rightarrow> u32 list" where
  "softmax_spec F xs =
     (let mx = fold (\<lambda>x mx. if fgt F x mx then x else mx) (tl xs) (hd xs);
          es = map (\<lambda>x. expf F (fsub F x mx)) xs;
          s = fold (\<lambda>e s. fadd F s e) es f0
      in map (\<lambda>e. fdiv F e s) es)"

definition rms_spec :: "fops \<Rightarrow> u32 \<Rightarrow> u32 list \<Rightarrow> u32" where
  "rms_spec F eps xs =
     fdiv F f1 (sqrtf F (fadd F (d2f F (ddiv F (dsum F (map (\<lambda>x. dmul F (f2d F x) (f2d F x)) xs))
       (d_of_nat F (length xs)))) (if feq F eps f0 then feps else eps)))"

definition rmsnorm_spec :: "fops \<Rightarrow> u32 \<Rightarrow> u32 list \<Rightarrow> u32 list" where
  "rmsnorm_spec F eps xs = map (\<lambda>x. fmul F x (rms_spec F eps xs)) xs"

definition rmsnorm_gamma_spec :: "fops \<Rightarrow> u32 \<Rightarrow> u32 list \<Rightarrow> u32 list \<Rightarrow> u32 list" where
  "rmsnorm_gamma_spec F eps gs xs = map2 (\<lambda>x g. fmul F (fmul F x g) (rms_spec F eps xs)) xs gs"

definition layernorm_spec :: "fops \<Rightarrow> u32 \<Rightarrow> u32 list \<Rightarrow> u32 list" where
  "layernorm_spec F eps xs =
     (let n = d_of_nat F (length xs);
          mean = d2f F (ddiv F (dsum F (map (f2d F) xs)) n);
          var = d2f F (dsub F (ddiv F (dsum F (map (\<lambda>x. dmul F (f2d F x) (f2d F x)) xs)) n)
                  (dmul F (f2d F mean) (f2d F mean)));
          inv_std = fdiv F f1 (sqrtf F (fadd F var (if feq F eps f0 then feps else eps)))
      in map (\<lambda>x. fmul F (fsub F x mean) inv_std) xs)"

definition gemm_spec :: "fops \<Rightarrow> nat \<Rightarrow> nat \<Rightarrow> nat \<Rightarrow> u32 list \<Rightarrow> u32 list \<Rightarrow> u32 list" where
  "gemm_spec F rows n k xs ys =
     tab rows n (\<lambda>i j. fsum F k (\<lambda>l. fmul F (xs ! (i * k + l)) (ys ! (l * n + j))))"

definition rope_spec :: "fops \<Rightarrow> nat \<Rightarrow> nat \<Rightarrow> nat \<Rightarrow> nat \<Rightarrow> u32 list \<Rightarrow> u32 list \<Rightarrow> u32 list \<Rightarrow> u32 list" where
  "rope_spec F rows dim heads r2 xs cs ss =
     tab rows dim (\<lambda>row j.
       (let p = row div heads; x = (\<lambda>i. xs ! (row * dim + i)); c = (\<lambda>i. cs ! (p * r2 + i)); s = (\<lambda>i. ss ! (p * r2 + i))
        in if j < r2 then fsub F (fmul F (x j) (c j)) (fmul F (x (j + r2)) (s j))
           else if j < 2 * r2 then fadd F (fmul F (x (j - r2)) (s (j - r2))) (fmul F (x j) (c (j - r2)))
           else x j))"

text \<open>Causal attention of head \<open>hh\<close> at position \<open>p\<close>: the softmax of the scaled products with the keys of
  positions \<open>0 .. p\<close> weighs the values of those positions.\<close>

definition probs_spec :: "fops \<Rightarrow> nat \<Rightarrow> nat \<Rightarrow> nat \<Rightarrow> u32 list \<Rightarrow> u32 list \<Rightarrow> nat \<Rightarrow> nat \<Rightarrow> u32 list" where
  "probs_spec F h hk dim qs ks p hh =
     softmax_spec F (map (\<lambda>i. fmul F (fsum F dim (\<lambda>d. fmul F (qs ! ((p * h + hh) * dim + d))
         (ks ! ((i * hk + hh * hk div h) * dim + d)))) (fdiv F f1 (sqrtf F (f_of_nat F dim)))) [0 ..< p + 1])"

definition head_spec :: "fops \<Rightarrow> nat \<Rightarrow> nat \<Rightarrow> nat \<Rightarrow> u32 list \<Rightarrow> u32 list \<Rightarrow> u32 list \<Rightarrow> nat \<Rightarrow> nat \<Rightarrow> u32 list" where
  "head_spec F h hk dim qs ks vs p hh =
     map (\<lambda>d. fsum F (p + 1) (\<lambda>i. fmul F (probs_spec F h hk dim qs ks p hh ! i) (vs ! ((i * hk + hh * hk div h) * dim + d))))
       [0 ..< dim]"

definition attention_spec :: "fops \<Rightarrow> nat \<Rightarrow> nat \<Rightarrow> nat \<Rightarrow> nat \<Rightarrow> u32 list \<Rightarrow> u32 list \<Rightarrow> u32 list \<Rightarrow> u32 list" where
  "attention_spec F h hk seq dim qs ks vs =
     concat (map (\<lambda>p. concat (map (head_spec F h hk dim qs ks vs p) [0 ..< h])) [0 ..< seq])"

section \<open>Element-wise kernels and copies\<close>

definition done_with :: "bytes \<Rightarrow> nat \<Rightarrow> u32 list \<Rightarrow> kernel_result" where
  "done_with m c xs = Some (wrf m c xs, Inr ())"

lemma finish_Some [simp]: "finish (Some (wrf m c xs)) = done_with m c xs"
  by (simp add: finish_def done_with_def)

lemma vec2_correct:
  assumes "arr m a xs" "arr m b ys" "length xs = n" "length ys = n" "c + 4 * n \<le> length m"
    "clear a n c n" "clear b n c n" "a \<noteq> 0" "b \<noteq> 0" "c \<noteq> 0"
  shows "pai_ref_vecadd_f32 F a b c n m = done_with m c (map2 (fadd F) xs ys)"
    and "pai_ref_vecsub_f32 F a b c n m = done_with m c (map2 (fsub F) xs ys)"
    and "pai_ref_vecmul_f32 F a b c n m = done_with m c (map2 (fmul F) xs ys)"
  using map2_cells [OF assms(1-7)] assms(8-10)
  by (simp_all add: pai_ref_vecadd_f32_def pai_ref_vecsub_f32_def pai_ref_vecmul_f32_def)

lemma vec1_correct:
  assumes "arr m a xs" "length xs = n" "c + 4 * n \<le> length m" "clear a n c n" "a \<noteq> 0" "c \<noteq> 0"
  shows "pai_ref_relu_f32 F a c n m = done_with m c (relu_spec F xs)"
    and "pai_ref_silu_f32 F a c n m = done_with m c (silu_spec F xs)"
  using map_cells [OF assms(1-4)] assms(5,6)
  by (simp_all add: pai_ref_relu_f32_def pai_ref_silu_f32_def relu_spec_def silu_spec_def)

lemma arr_bytes:
  assumes "arr m a xs"
  shows "take (4 * length xs) (drop a m) = concat (map put_le32 xs)"
proof -
  have "take (4 * j) (drop a m) = concat (map put_le32 (take j xs))" if "j \<le> length xs" for j
    using that
  proof (induction j)
    case (Suc j)
    have l: "a + 4 * length xs \<le> length m" using arr_bound [OF assms] .
    have "get_le32 (take 4 (drop (a + 4 * j) m)) = xs ! j"
      using arr_ldf [OF assms, of j] Suc.prems l by (simp add: ldf_def)
    moreover have "put_le32 (get_le32 bs) = bs" if "length bs = 4" for bs
      using that by (rule put_get_le32)
    moreover have k: "length (take 4 (drop (a + 4 * j) m)) = 4" using l Suc.prems by simp
    ultimately have "take 4 (drop (a + 4 * j) m) = put_le32 (xs ! j)"
      by metis
    moreover have "take (4 * Suc j) (drop a m) = take (4 * j) (drop a m) @ take 4 (drop (a + 4 * j) m)"
      using take_add [of "4 * j" 4 "drop a m"] by (simp add: add.commute)
    ultimately show ?case using Suc by (simp add: take_Suc_conv_app_nth)
  qed simp
  from this [of "length xs"] show ?thesis by simp
qed

lemma memcpy_correct:
  assumes "arr m a xs" "length xs = n" "c + 4 * n \<le> length m" "clear a n c n"
  shows "memcpy_f c a n m = Some (wrf m c xs)"
proof -
  have "\<not> (a + 4 * n > length m \<or> c + 4 * n > length m \<or> a < c + 4 * n \<and> c < a + 4 * n)"
    using assms(2-4) arr_bound [OF assms(1)] unfolding clear_def by linarith
  then show ?thesis
    using arr_bytes [OF assms(1)] unfolding memcpy_f_def wrf_def assms(2) by simp
qed


lemma copy_correct:
  assumes "arr m a xs" "length xs = n" "c + 4 * n \<le> length m" "clear a n c n" "a \<noteq> 0" "c \<noteq> 0" "n \<noteq> 0"
  shows "pai_ref_copy_f32 a c n m = done_with m c xs"
proof -
  have "a \<noteq> c" using assms(4,7) unfolding clear_def by linarith
  then show ?thesis using memcpy_correct [OF assms(1-4)] assms(5-) by (simp add: pai_ref_copy_f32_def)
qed

lemma concat_correct:
  assumes "arr m a xs" "arr m b ys" "length xs = na" "length ys = nb" "c + 4 * (na + nb) \<le> length m"
    "clear a na c (na + nb)" "clear b nb c (na + nb)" "a \<noteq> 0" "b \<noteq> 0" "c \<noteq> 0"
  shows "pai_ref_concat_f32 a b c na nb m = done_with m c (xs @ ys)"
proof -
  have l: "c + 4 * na \<le> length m" using assms(5) by simp
  have l': "clear a na c na" using assms(6) unfolding clear_def distrib_left by linarith
  have 1: "memcpy_f c a na m = Some (wrf m c xs)" by (rule memcpy_correct [OF assms(1,3) l l'])
  have "same_outside m c (na + nb) (wrf m c xs)"
    using assms(3,5) by (intro same_outside_wrf) simp_all
  then have b: "arr (wrf m c xs) b ys" using assms(2,4,7) by (blast intro: arr_outside)
  have k: "clear b nb (c + 4 * na) nb" "c + 4 * na + 4 * nb \<le> length (wrf m c xs)"
    using assms(3,5,7) l unfolding clear_def distrib_left by (linarith, simp)
  have 2: "memcpy_f (c + 4 * na) b nb (wrf m c xs) = Some (wrf m c (xs @ ys))"
    using memcpy_correct [OF b assms(4) k(2,1)] wrf_append [of c xs ys m] assms(3,4,5) by simp
  show ?thesis using 1 2 assms(8-10) by (simp add: pai_ref_concat_f32_def)
qed

section \<open>Normalisations\<close>

lemma fold_nth: "fold (\<lambda>i s. f (xs ! i) s) [0 ..< length xs] s = fold f xs s"
proof -
  have "fold f (map ((!) xs) [0 ..< length xs]) s = fold (\<lambda>i s. f (xs ! i) s) [0 ..< length xs] s"
    by (simp add: fold_map comp_def)
  then show ?thesis by (simp add: map_nth)
qed

lemma fold_nth_tl:
  "fold (\<lambda>i s. f (xs ! Suc i) s) [0 ..< length xs - 1] s = fold f (tl xs) s"
  by (cases xs) (simp_all add: fold_nth)

lemma loop_read:
  assumes "arr m a xs" "length xs = n"
  shows "loop n (\<lambda>i s. do { x \<leftarrow> ldf m (a + 4 * i); Some (f x s) }) s0 = Some (fold f xs s0)"
  using loop_fold [of n "\<lambda>i s. do { x \<leftarrow> ldf m (a + 4 * i); Some (f x s) }" "\<lambda>i s. f (xs ! i) s" s0]
    arr_ldf [OF assms(1)] fold_nth [of f xs s0] assms(2) by simp

lemma softmax_correct:
  assumes "arr m a xs" "length xs = n" "c + 4 * n \<le> length m" "clear a n c n" "a \<noteq> 0" "c \<noteq> 0" "n \<noteq> 0"
  shows "pai_ref_softmax_f32 F a c n m = done_with m c (softmax_spec F xs)"
proof -
  define mx where "mx = fold (\<lambda>x mx. if fgt F x mx then x else mx) (tl xs) (hd xs)"
  define es where "es = map (\<lambda>x. expf F (fsub F x mx)) xs"
  have x0: "ldf m a = Some (hd xs)"
    using arr_ldf [OF assms(1), of 0] assms(2,7) hd_conv_nth [of xs] by auto
  have 1: "loop (n - 1) (\<lambda>i mx. do { x \<leftarrow> ldf m (a + 4 * (i + 1)); Some (if fgt F x mx then x else mx) }) (hd xs) = Some mx"
    using loop_fold [of "n - 1" "\<lambda>i mx. do { x \<leftarrow> ldf m (a + 4 * (i + 1)); Some (if fgt F x mx then x else mx) }"
        "\<lambda>i mx. if fgt F (xs ! Suc i) mx then xs ! Suc i else mx" "hd xs"]
      arr_ldf [OF assms(1), of "Suc i" for i] assms(2)
      fold_nth_tl [of "\<lambda>x mx. if fgt F x mx then x else mx" xs "hd xs"] by (simp add: mx_def)
  have 2: "loop n (\<lambda>i (m, s). do { x \<leftarrow> ldf m (a + 4 * i); let e = expf F (fsub F x mx);
                                    m' \<leftarrow> stf m (c + 4 * i) e; Some (m', fadd F s e) }) (m, f0) =
      Some (wrf m c (map (\<lambda>i. es ! i) [0 ..< n]), fold (\<lambda>i s. fadd F s (es ! i)) [0 ..< n] f0)"
  proof (rule loop_cells_acc [OF assms(3)])
    fix i m' s assume i: "i < n" and so: "same_outside m c n m'"
    have "arr m' a xs" using arr_outside [OF assms(1) so] assms(2,4) by simp
    then show "(case (m', s) of (m, s) \<Rightarrow> do { x \<leftarrow> ldf m (a + 4 * i); let e = expf F (fsub F x mx);
          m' \<leftarrow> stf m (c + 4 * i) e; Some (m', fadd F s e) }) = Some (wrf m' (c + 4 * i) [es ! i], fadd F s (es ! i))"
      using i assms(2,3) so by (simp add: stf_wrf arr_ldf es_def Let_def)
  qed
  have es: "map (\<lambda>i. es ! i) [0 ..< n] = es" "length es = n"
    using assms(2) map_nth [of es] by (simp_all add: es_def)
  have sum: "fold (\<lambda>i s. fadd F s (es ! i)) [0 ..< n] f0 = fold (\<lambda>e s. fadd F s e) es f0"
    using fold_nth [of "\<lambda>e s. fadd F s e" es f0] es by simp
  have 3: "loop n (\<lambda>i m. do { y \<leftarrow> ldf m (c + 4 * i); stf m (c + 4 * i) (f y) }) (wrf m c es) =
      Some (wrf m c (map f es))" for f
    using loop_inplace [OF arr_wrf es(2), where body = "\<lambda>i m. do { y \<leftarrow> ldf m (c + 4 * i); stf m (c + 4 * i) (f y) }"]
      es assms(3) wrf_wrf [of c es m "map f es"] by simp
  show ?thesis
    using assms(5-7) x0 1 2 3 unfolding es(1) sum pai_ref_softmax_f32_def softmax_spec_def mx_def [symmetric] Let_def es_def [symmetric]
    by simp
qed


lemma rms_correct:
  assumes "arr m a xs" "length xs = n"
  shows "rms_of F a n (if feq F eps f0 then feps else eps) m = Some (rms_spec F eps xs)"
  using loop_read [OF assms, of "\<lambda>x acc. dadd F acc (dmul F (f2d F x) (f2d F x))" d0] assms(2)
  by (simp add: rms_of_def rms_spec_def dsum_def fold_map comp_def)

lemma rmsnorm_correct:
  assumes "arr m a xs" "length xs = n" "c + 4 * n \<le> length m" "clear a n c n" "a \<noteq> 0" "c \<noteq> 0" "n \<noteq> 0"
  shows "pai_ref_rmsnorm_f32 F a c n eps m = done_with m c (rmsnorm_spec F eps xs)"
  using map_cells [OF assms(1-4), of "\<lambda>x. fmul F x (rms_spec F eps xs)"] rms_correct [OF assms(1,2), of F eps] assms(5-7)
  by (simp add: pai_ref_rmsnorm_f32_def rmsnorm_spec_def)

lemma rmsnorm_gamma_correct:
  assumes "arr m a xs" "arr m g gs" "length xs = n" "length gs = n" "c + 4 * n \<le> length m" "clear a n c n" "clear g n c n"
    "a \<noteq> 0" "c \<noteq> 0" "g \<noteq> 0" "n \<noteq> 0"
  shows "pai_ref_rmsnorm_gamma_f32 F a c n g eps m = done_with m c (rmsnorm_gamma_spec F eps gs xs)"
  using map2_cells [OF assms(1-7), of "\<lambda>x g. fmul F (fmul F x g) (rms_spec F eps xs)"]
    rms_correct [OF assms(1,3), of F eps] assms(8-11)
  by (simp add: pai_ref_rmsnorm_gamma_f32_def rmsnorm_gamma_spec_def)

lemma fold_pair: "fold (\<lambda>x (s, q). (f x s, g x q)) xs (s, q) = (fold f xs s, fold g xs q)"
  by (induction xs arbitrary: s q) simp_all

lemma layernorm_correct:
  assumes "arr m a xs" "length xs = n" "c + 4 * n \<le> length m" "clear a n c n" "a \<noteq> 0" "c \<noteq> 0" "n \<noteq> 0"
  shows "pai_ref_layernorm_f32 F a c n 0 0 eps m = done_with m c (layernorm_spec F eps xs)"
proof -
  have "loop n (\<lambda>i (s, q). do { x \<leftarrow> ldf m (a + 4 * i);
      Some (dadd F s (f2d F x), dadd F q (dmul F (f2d F x) (f2d F x))) }) (d0, d0) =
    loop n (\<lambda>i s. do { x \<leftarrow> ldf m (a + 4 * i); Some (case s of (s, q) \<Rightarrow> (dadd F s (f2d F x), dadd F q (dmul F (f2d F x) (f2d F x)))) }) (d0, d0)"
    by (simp add: case_prod_unfold)
  also have "\<dots> = Some (dsum F (map (f2d F) xs), dsum F (map (\<lambda>x. dmul F (f2d F x) (f2d F x)) xs))"
    unfolding loop_read [OF assms(1,2)] by (simp add: fold_pair dsum_def fold_map comp_def)
  finally show ?thesis
    using assms(2,5-7) map_cells [OF assms(1-4)]
    by (simp add: pai_ref_layernorm_f32_def opt_arg_def layernorm_spec_def Let_def)
qed

section \<open>Matrix product\<close>

lemma same_outside_trans:
  "same_outside m c k m1 \<Longrightarrow> same_outside m1 d j m2 \<Longrightarrow> c \<le> d \<Longrightarrow> d + 4 * j \<le> c + 4 * k \<Longrightarrow> same_outside m c k m2"
  unfolding same_outside_def by fastforce

lemma length_tab [simp]: "length (tab rows cols g) = rows * cols"
  by (induction rows) (simp_all add: tab_def)

lemma index_less: "i < (r :: nat) \<Longrightarrow> j < k \<Longrightarrow> i * k + j < r * k"
  by (metis add_less_mono1 mult_Suc Suc_leI mult_le_mono1 add.commute less_le_trans)

text \<open>A double loop that writes cell \<open>(i, j)\<close> of a matrix.\<close>

lemma loop_matrix:
  assumes c: "c + 4 * (rows * cols) \<le> length m"
    and step: "\<And>i j m'. i < rows \<Longrightarrow> j < cols \<Longrightarrow> same_outside m c (rows * cols) m' \<Longrightarrow>
      body i j m' = Some (wrf m' (c + 4 * (i * cols + j)) [g i j])"
  shows "loop rows (\<lambda>i. loop cols (body i)) m = Some (wrf m c (tab rows cols g))"
  unfolding tab_def
proof (rule loop_blocks [where w = cols])
  fix i m' assume i: "i < rows" and so: "same_outside m c (cols * rows) m'"
  have le: "i * cols + cols \<le> rows * cols" using i by (metis Suc_leI mult_Suc add.commute mult_le_mono1)
  have "loop cols (body i) m' = Some (wrf m' (c + 4 * (i * cols)) (map (g i) [0 ..< cols]))"
  proof (rule loop_cells)
    show "c + 4 * (i * cols) + 4 * cols \<le> length m'" using c le so by simp
    fix j m'' assume j: "j < cols" and so': "same_outside m' (c + 4 * (i * cols)) cols m''"
    have "same_outside m c (rows * cols) m''"
      using so so' le by (auto intro: same_outside_trans simp: mult.commute)
    then show "body i j m'' = Some (wrf m'' (c + 4 * (i * cols) + 4 * j) [g i j])"
      using step [OF i j] by (simp add: add.assoc)
  qed
  then show "loop cols (body i) m' = Some (wrf m' (c + 4 * (cols * i)) (map (g i) [0 ..< cols]))"
    by (simp add: mult.commute)
qed (use c in \<open>simp_all add: mult.commute\<close>)

lemma gemm_correct:
  assumes a: "arr m a xs" "length xs = rows * k" and b: "arr m b ys" "length ys = k * n"
    and c: "c + 4 * (rows * n) \<le> length m" "clear a (rows * k) c (rows * n)" "clear b (k * n) c (rows * n)"
    and nz: "rows \<noteq> 0" "n \<noteq> 0" "k \<noteq> 0" "a \<noteq> 0" "b \<noteq> 0" "c \<noteq> 0"
  shows "pai_ref_gemm_f32 F rows n k a b c m = done_with m c (gemm_spec F rows n k xs ys)"
proof -
  have "loop rows (\<lambda>i. loop n (\<lambda>j m. do {
        sum \<leftarrow> loop k (\<lambda>l sum. do { u \<leftarrow> ldf m (a + 4 * (i * k + l)); v \<leftarrow> ldf m (b + 4 * (l * n + j));
                                    Some (fadd F sum (fmul F u v)) }) f0;
        stf m (c + 4 * (i * n + j)) sum })) m = Some (wrf m c (gemm_spec F rows n k xs ys))"
    unfolding gemm_spec_def
  proof (rule loop_matrix [OF c(1)])
    fix i j m' assume i: "i < rows" and j: "j < n" and so: "same_outside m c (rows * n) m'"
    have ab: "arr m' a xs" "arr m' b ys"
      using arr_outside [OF a(1) so] arr_outside [OF b(1) so] a(2) b(2) c(2,3) by simp_all
    have "loop k (\<lambda>l sum. do { u \<leftarrow> ldf m' (a + 4 * (i * k + l)); v \<leftarrow> ldf m' (b + 4 * (l * n + j));
        Some (fadd F sum (fmul F u v)) }) f0 =
      Some (fold (\<lambda>l sum. fadd F sum (fmul F (xs ! (i * k + l)) (ys ! (l * n + j)))) [0 ..< k] f0)"
      using arr_ldf [OF ab(1), of "i * k + l" for l] arr_ldf [OF ab(2), of "l * n + j" for l] a(2) b(2)
        index_less [OF i] index_less [OF _ j]
      by (intro loop_fold) simp
    moreover have "c + 4 * (i * n + j) + 4 \<le> length m'" using index_less [OF i j] c(1) so by simp
    ultimately show "do { sum \<leftarrow> loop k (\<lambda>l sum. do { u \<leftarrow> ldf m' (a + 4 * (i * k + l));
          v \<leftarrow> ldf m' (b + 4 * (l * n + j)); Some (fadd F sum (fmul F u v)) }) f0;
        stf m' (c + 4 * (i * n + j)) sum } =
      Some (wrf m' (c + 4 * (i * n + j)) [fsum F k (\<lambda>l. fmul F (xs ! (i * k + l)) (ys ! (l * n + j)))])"
      by (simp add: stf_wrf fsum_def)
  qed
  then show ?thesis using nz by (simp add: pai_ref_gemm_f32_def)
qed


section \<open>Rotary embedding\<close>

lemma wrf_commute:
  assumes "c + 4 * length xs \<le> d" "d + 4 * length ys \<le> length m"
  shows "wrf (wrf m c xs) d ys = wrf (wrf m d ys) c xs"
proof -
  have "take (d - (c + 4 * length xs)) (drop (c + 4 * length xs) m) = drop (c + 4 * length xs) (take d m)"
    using assms by (simp add: drop_take)
  then show ?thesis using assms by (simp add: wrf_def drop_take)
qed

text \<open>A loop that writes two columns \<open>r\<close> floats apart.\<close>

lemma loop_pairs:
  assumes c: "c + 4 * (2 * r) \<le> length m"
    and step: "\<And>i m'. i < r \<Longrightarrow> same_outside m c (2 * r) m' \<Longrightarrow>
      body i m' = Some (wrf (wrf m' (c + 4 * i) [f i]) (c + 4 * (i + r)) [g i])"
  shows "loop r body m = Some (wrf m c (map f [0 ..< r] @ map g [0 ..< r]))"
proof -
  have "loop j body m = Some (wrf (wrf m c (map f [0 ..< j])) (c + 4 * r) (map g [0 ..< j]))" if "j \<le> r" for j
    using that
  proof (induction j)
    case (Suc j)
    let ?fs = "map f [0 ..< j]" and ?gs = "map g [0 ..< j]"
    let ?m = "wrf (wrf m c ?fs) (c + 4 * r) ?gs"
    have so: "same_outside m c (2 * r) ?m"
      using Suc.prems c by (intro same_outside_wrf) simp_all
    have "wrf ?m (c + 4 * j) [f j] = wrf (wrf (wrf m c ?fs) (c + 4 * j) [f j]) (c + 4 * r) ?gs"
      using Suc.prems c by (intro wrf_commute [symmetric]) simp_all
    also have "wrf (wrf m c ?fs) (c + 4 * j) [f j] = wrf m c (?fs @ [f j])"
      using wrf_append [of c ?fs "[f j]" m] Suc.prems c by simp
    finally have 1: "wrf ?m (c + 4 * j) [f j] = wrf (wrf m c (?fs @ [f j])) (c + 4 * r) ?gs" .
    have 2: "wrf (wrf (wrf m c (?fs @ [f j])) (c + 4 * r) ?gs) (c + 4 * (j + r)) [g j] =
        wrf (wrf m c (?fs @ [f j])) (c + 4 * r) (?gs @ [g j])"
      using wrf_append [of "c + 4 * r" ?gs "[g j]" "wrf m c (?fs @ [f j])"] Suc.prems c by (simp add: ac_simps)
    show ?case using Suc step [OF _ so, of j] 2 by (simp add: 1)
  qed simp
  from this [of r] show ?thesis using wrf_append [of c "map f [0 ..< r]" "map g [0 ..< r]" m] c by simp
qed

definition rope_cell :: "fops \<Rightarrow> nat \<Rightarrow> nat \<Rightarrow> nat \<Rightarrow> u32 list \<Rightarrow> u32 list \<Rightarrow> u32 list \<Rightarrow> nat \<Rightarrow> nat \<Rightarrow> u32" where
  "rope_cell F dim heads r2 xs cs ss row j =
     (let p = row div heads; x = (\<lambda>i. xs ! (row * dim + i)); c = (\<lambda>i. cs ! (p * r2 + i)); s = (\<lambda>i. ss ! (p * r2 + i))
      in if j < r2 then fsub F (fmul F (x j) (c j)) (fmul F (x (j + r2)) (s j))
         else if j < 2 * r2 then fadd F (fmul F (x (j - r2)) (s (j - r2))) (fmul F (x j) (c (j - r2)))
         else x j)"

lemma rope_row_cells:
  assumes "2 * r \<le> n"
  shows "map f [0 ..< n] = (map f [0 ..< r] @ map (\<lambda>i. f (i + r)) [0 ..< r]) @ map (\<lambda>i. f (2 * r + i)) [0 ..< n - 2 * r]"
  using assms by (intro nth_equalityI) (auto simp: nth_append)

lemma rope_correct:
  assumes x: "arr m x xs" "length xs = rows * dim" and t: "arr m ct cs" "arr m st ss" "length cs = ctx * r2" "length ss = ctx * r2"
    and c: "c + 4 * (rows * dim) \<le> length m" "clear x (rows * dim) c (rows * dim)"
      "clear ct (ctx * r2) c (rows * dim)" "clear st (ctx * r2) c (rows * dim)"
    and r: "rows = seq * heads" "seq \<le> ctx" "2 * r2 \<le> dim" "2 * r2 < 2 ^ 64"
    and nz: "seq \<noteq> 0" "heads \<noteq> 0" "r2 \<noteq> 0" "x \<noteq> 0" "ct \<noteq> 0" "st \<noteq> 0" "c \<noteq> 0"
  shows "pai_ref_rope_f32 F x rows dim seq heads ct st r2 c m = done_with m c (rope_spec F rows dim heads r2 xs cs ss)"
proof -
  let ?cell = "rope_cell F dim heads r2 xs cs ss"
  let ?A = "\<lambda>row i m. do {
          c' \<leftarrow> ldf m (ct + 4 * (row div heads * r2 + i));
          s \<leftarrow> ldf m (st + 4 * (row div heads * r2 + i));
          x0 \<leftarrow> ldf m (x + 4 * (row * dim) + 4 * i);
          x1 \<leftarrow> ldf m (x + 4 * (row * dim) + 4 * (i + r2));
          m' \<leftarrow> stf m (c + 4 * (row * dim) + 4 * i) (fsub F (fmul F x0 c') (fmul F x1 s));
          stf m' (c + 4 * (row * dim) + 4 * (i + r2)) (fadd F (fmul F x0 s) (fmul F x1 c')) }"
  let ?B = "\<lambda>row i m. do { y \<leftarrow> ldf m (x + 4 * (row * dim) + 4 * (2 * r2 + i));
          stf m (c + 4 * (row * dim) + 4 * (2 * r2 + i)) y }"
  have row: "Option.bind (loop r2 (?A row) m') (loop (dim - 2 * r2) (?B row)) =
      Some (wrf m' (c + 4 * (dim * row)) (map (?cell row) [0 ..< dim]))"
    if i: "row < rows" and so: "same_outside m c (dim * rows) m'" for row m'
  proof -
    have le: "row * dim + dim \<le> rows * dim" using i by (metis Suc_leI mult_Suc add.commute mult_le_mono1)
    have p: "row div heads < ctx" using i r(1,2) nz(2) by (metis less_mult_imp_div_less less_le_trans)
    have bnd: "c + 4 * (row * dim) + 4 * dim \<le> length m'" using c(1) le so by simp
    have arrs: "arr m'' x xs \<and> arr m'' ct cs \<and> arr m'' st ss"
      if "same_outside m' (c + 4 * (row * dim)) k m''" "k \<le> dim" for m'' k
    proof -
      have "same_outside m c (rows * dim) m''"
        by (rule same_outside_trans [OF so [unfolded mult.commute [of dim]] that(1)]) (use le that(2) in simp_all)
      then show ?thesis using arr_outside x t c by metis
    qed
    have ldx: "ldf m'' (x + 4 * (row * dim) + 4 * i) = Some (xs ! (row * dim + i))" if "arr m'' x xs" "i < dim" for m'' i
      using arr_ldf [OF that(1), of "row * dim + i"] x(2) index_less [OF \<open>row < rows\<close> that(2)] by (simp add: add.assoc)
    have 1: "loop r2 (?A row) m' = Some (wrf m' (c + 4 * (row * dim)) (map (?cell row) [0 ..< r2] @ map (\<lambda>i. ?cell row (i + r2)) [0 ..< r2]))"
    proof (rule loop_pairs)
      show "c + 4 * (row * dim) + 4 * (2 * r2) \<le> length m'" using bnd r(3) by linarith
      fix i m'' assume i2: "i < r2" and so2: "same_outside m' (c + 4 * (row * dim)) (2 * r2) m''"
      have a: "arr m'' x xs" "arr m'' ct cs" "arr m'' st ss" using arrs [OF so2 r(3)] by simp_all
      have lt: "row div heads * r2 + i < ctx * r2" using index_less [OF p i2] .
      have "length m'' = length m'" using so2 by simp
      then have s: "stf m'' (c + 4 * (row * dim) + 4 * i) y = Some (wrf m'' (c + 4 * (row * dim) + 4 * i) [y])"
        "stf (wrf m'' (c + 4 * (row * dim) + 4 * i) [y]) (c + 4 * (row * dim) + 4 * (i + r2)) z =
          Some (wrf (wrf m'' (c + 4 * (row * dim) + 4 * i) [y]) (c + 4 * (row * dim) + 4 * (i + r2)) [z])" for y z
        using bnd r(3) i2 by (simp_all add: stf_wrf)
      show "?A row i m'' = Some (wrf (wrf m'' (c + 4 * (row * dim) + 4 * i) [?cell row i])
          (c + 4 * (row * dim) + 4 * (i + r2)) [?cell row (i + r2)])"
        using arr_ldf [OF a(2), of "row div heads * r2 + i"] arr_ldf [OF a(3), of "row div heads * r2 + i"]
          ldx [OF a(1), of i] ldx [OF a(1), of "i + r2"] i2 r(3) lt t(3,4)
        by (simp add: s rope_cell_def Let_def del: distrib_left_numeral)
    qed
    let ?m = "wrf m' (c + 4 * (row * dim)) (map (?cell row) [0 ..< r2] @ map (\<lambda>i. ?cell row (i + r2)) [0 ..< r2])"
    have so1: "same_outside m' (c + 4 * (row * dim)) dim ?m"
      using bnd r(3) by (intro same_outside_wrf) simp_all
    have 2: "loop (dim - 2 * r2) (?B row) ?m = Some (wrf ?m (c + 4 * (row * dim) + 4 * (2 * r2)) (map (\<lambda>i. ?cell row (2 * r2 + i)) [0 ..< dim - 2 * r2]))"
    proof (rule loop_cells)
      show "c + 4 * (row * dim) + 4 * (2 * r2) + 4 * (dim - 2 * r2) \<le> length ?m" using bnd r(3) by simp
      fix i m'' assume i2: "i < dim - 2 * r2" and so2: "same_outside ?m (c + 4 * (row * dim) + 4 * (2 * r2)) (dim - 2 * r2) m''"
      have "same_outside m' (c + 4 * (row * dim)) dim m''"
        by (rule same_outside_trans [OF so1 so2]) (use r(3) in simp_all)
      then have "arr m'' x xs" "length m'' = length m'" using arrs [of dim m''] by simp_all
      then show "?B row i m'' = Some (wrf m'' (c + 4 * (row * dim) + 4 * (2 * r2) + 4 * i) [?cell row (2 * r2 + i)])"
        using ldx [of m'' "2 * r2 + i"] i2 bnd stf_wrf [of "c + 4 * (row * dim) + 4 * (2 * r2 + i)" m'']
        by (simp add: rope_cell_def Let_def add.assoc)
    qed
    show ?thesis
      using 1 2 wrf_append [of "c + 4 * (row * dim)" "map (?cell row) [0 ..< r2] @ map (\<lambda>i. ?cell row (i + r2)) [0 ..< r2]"
          "map (\<lambda>i. ?cell row (2 * r2 + i)) [0 ..< dim - 2 * r2]" m'] bnd r(3)
      by (simp add: rope_row_cells [OF r(3), of "?cell row"] mult.commute)
  qed
  have "loop rows (\<lambda>row m. Option.bind (loop r2 (?A row) m) (loop (dim - 2 * r2) (?B row))) m =
      Some (wrf m c (rope_spec F rows dim heads r2 xs cs ss))"
    unfolding rope_spec_def rope_cell_def [symmetric] tab_def
    by (rule loop_blocks [where w = dim]) (use c(1) row in \<open>simp_all add: mult.commute\<close>)
  moreover have "rows \<noteq> 0" "dim \<noteq> 0" "rows mod heads = 0" using r(1,3) nz by simp_all
  ultimately show ?thesis
    using nz r(3,4) by (simp add: pai_ref_rope_f32_def Let_def)
qed

section \<open>Attention\<close>

lemma fold_updates:
  assumes "n \<le> length sc"
  shows "fold (\<lambda>i sc. sc[i := f i (sc ! i)]) [0 ..< n] sc = map (\<lambda>i. f i (sc ! i)) [0 ..< n] @ drop n sc"
  using assms
proof (induction n)
  case (Suc n)
  then have "drop n sc = sc ! n # drop (Suc n) sc" by (simp add: Cons_nth_drop_Suc)
  then show ?case using Suc by (simp add: nth_append list_update_append)
qed simp

lemma fold_upd_sum:
  assumes "n \<le> length sc"
  shows "fold (\<lambda>i (sc, s). (let e = f (sc ! i) in (sc[i := e], fadd F s e))) [0 ..< n] (sc, s0) =
    (map (\<lambda>i. f (sc ! i)) [0 ..< n] @ drop n sc, fold (\<lambda>i s. fadd F s (f (sc ! i))) [0 ..< n] s0)"
  using assms
proof (induction n)
  case (Suc n)
  then have "drop n sc = sc ! n # drop (Suc n) sc" by (simp add: Cons_nth_drop_Suc)
  then show ?case using Suc by (simp add: nth_append list_update_append Let_def)
qed simp

lemma fold_tail_nth:
  "0 < n \<Longrightarrow> n \<le> length sc \<Longrightarrow>
     fold (\<lambda>i mx. f (sc ! i) mx) [1 ..< n] (sc ! 0) = fold f (tl (take n sc)) (hd (take n sc))"
proof -
  assume n: "0 < n" "n \<le> length sc"
  then have "tl (take n sc) = map ((!) sc) [1 ..< n]"
    by (intro nth_equalityI) (simp_all add: nth_tl)
  moreover have "hd (take n sc) = sc ! 0" using n by (cases sc) simp_all
  ultimately show ?thesis by (simp add: fold_map comp_def)
qed

lemma softmax_updates:
  assumes "0 < n" "n \<le> length sc"
  shows "(let maxv = fold (\<lambda>i mx. if fgt F (sc ! i) mx then sc ! i else mx) [1 ..< n] (sc ! 0);
        (sc, sum) = fold (\<lambda>i (sc, s). (let e = expf F (fsub F (sc ! i) maxv) in (sc[i := e], fadd F s e))) [0 ..< n] (sc, f0)
      in Some (fold (\<lambda>i sc. sc[i := fdiv F (sc ! i) sum]) [0 ..< n] sc)) =
    Some (softmax_spec F (take n sc) @ drop n sc)"
proof -
  define mx where "mx = fold (\<lambda>i mx. if fgt F (sc ! i) mx then sc ! i else mx) [1 ..< n] (sc ! 0)"
  have mx: "mx = fold (\<lambda>x mx. if fgt F x mx then x else mx) (tl (take n sc)) (hd (take n sc))"
    unfolding mx_def by (rule fold_tail_nth [OF assms, where f = "\<lambda>x mx. if fgt F x mx then x else mx"])
  let ?es = "map (\<lambda>x. expf F (fsub F x mx)) (take n sc)"
  let ?s = "fold (\<lambda>e s. fadd F s e) ?es f0"
  have es: "map (\<lambda>i. expf F (fsub F (sc ! i) mx)) [0 ..< n] = ?es"
    using assms by (intro nth_equalityI) simp_all
  have s: "fold (\<lambda>i s. fadd F s (expf F (fsub F (sc ! i) mx))) [0 ..< n] f0 = ?s"
    by (simp add: fold_map comp_def flip: es)
  have len: "length ?es = n" using assms by simp
  have "fold (\<lambda>i sc. sc[i := fdiv F (sc ! i) ?s]) [0 ..< n] (?es @ drop n sc) =
      map (\<lambda>i. fdiv F ((?es @ drop n sc) ! i) ?s) [0 ..< n] @ drop n sc"
    using fold_updates [of n "?es @ drop n sc" "\<lambda>_ x. fdiv F x ?s"] assms by simp
  also have "map (\<lambda>i. fdiv F ((?es @ drop n sc) ! i) ?s) [0 ..< n] = map (\<lambda>e. fdiv F e ?s) ?es"
    using assms by (intro nth_equalityI) (simp_all add: nth_append)
  finally have 1: "fold (\<lambda>i sc. sc[i := fdiv F (sc ! i) ?s]) [0 ..< n] (?es @ drop n sc) = map (\<lambda>e. fdiv F e ?s) ?es @ drop n sc" .
  have 2: "fold (\<lambda>i (sc, s). (let e = expf F (fsub F (sc ! i) mx) in (sc[i := e], fadd F s e))) [0 ..< n] (sc, f0) =
      (?es @ drop n sc, ?s)"
    using fold_upd_sum [OF assms(2), of "\<lambda>x. expf F (fsub F x mx)" F f0] unfolding es s .
  show ?thesis
    unfolding mx_def [symmetric] unfolding Let_def [of mx] 2
    by (simp only: Let_def softmax_spec_def mx [symmetric] prod.case 1)
qed


lemma length_softmax [simp]: "length (softmax_spec F xs) = length xs"
  by (simp add: softmax_spec_def Let_def)

lemma head_scores_correct:
  assumes q: "arr m q qs" "length qs = seq * h * dim" and k: "arr m k ks" "length ks = seq * hk * dim"
    and b: "p < seq" "hh < h" "hk \<noteq> 0" and sc: "length sc = seq"
  shows "\<exists>sc'. head_scores F hk dim (hh * hk div h) (fdiv F f1 (sqrtf F (f_of_nat F dim))) (q + 4 * ((p * h + hh) * dim)) k p m sc = Some sc' \<and>
    length sc' = seq \<and> (\<forall>i \<le> p. sc' ! i = probs_spec F h hk dim qs ks p hh ! i)"
proof -
  let ?v = "hh * hk div h" and ?is = "fdiv F f1 (sqrtf F (f_of_nat F dim))"
  define dot where "dot = (\<lambda>i. fsum F dim (\<lambda>d. fmul F (qs ! ((p * h + hh) * dim + d)) (ks ! ((i * hk + ?v) * dim + d))))"
  have v: "?v < hk" using b(2,3) by (metis div_less_iff_less_mult gr_zeroI less_nat_zero_code mult.commute mult_less_cancel2 neq0_conv)
  have row: "loop dim (\<lambda>d dot. do { u \<leftarrow> ldf m (q + 4 * ((p * h + hh) * dim) + 4 * d); w \<leftarrow> ldf m (k + 4 * ((i * hk + ?v) * dim + d));
      Some (fadd F dot (fmul F u w)) }) f0 = Some (dot i)" if i: "i < p + 1" for i
    unfolding dot_def fsum_def
  proof (rule loop_fold)
    fix d s assume d: "d < dim"
    have "p * h + hh < seq * h" "i * hk + ?v < seq * hk" using index_less b(1,2) v i by simp_all
    then have "(p * h + hh) * dim + d < seq * h * dim" "(i * hk + ?v) * dim + d < seq * hk * dim"
      using index_less d by blast+
    then show "do { u \<leftarrow> ldf m (q + 4 * ((p * h + hh) * dim) + 4 * d); w \<leftarrow> ldf m (k + 4 * ((i * hk + ?v) * dim + d));
        Some (fadd F s (fmul F u w)) } = Some (fadd F s (fmul F (qs ! ((p * h + hh) * dim + d)) (ks ! ((i * hk + ?v) * dim + d))))"
      using arr_ldf [OF q(1), of "(p * h + hh) * dim + d"] arr_ldf [OF k(1), of "(i * hk + ?v) * dim + d"] q(2) k(2)
      by (simp add: add.assoc)
  qed
  let ?sc = "map (\<lambda>i. fmul F (dot i) ?is) [0 ..< p + 1] @ drop (p + 1) sc"
  have 1: "loop (p + 1) (\<lambda>i sc. do {
        dot \<leftarrow> loop dim (\<lambda>d dot. do { u \<leftarrow> ldf m (q + 4 * ((p * h + hh) * dim) + 4 * d); v \<leftarrow> ldf m (k + 4 * ((i * hk + ?v) * dim + d));
                                     Some (fadd F dot (fmul F u v)) }) f0;
        Some (sc[i := fmul F dot ?is]) }) sc = Some ?sc"
  proof -
    have "loop (p + 1) body sc = Some ?sc" if "\<And>i s. i < p + 1 \<Longrightarrow> body i s = Some (s[i := fmul F (dot i) ?is])" for body
      using loop_fold [of "p + 1" body "\<lambda>i sc. sc[i := fmul F (dot i) ?is]" sc] that
        fold_updates [of "p + 1" sc "\<lambda>i _. fmul F (dot i) ?is"] b(1) sc by simp
    then show ?thesis by this (simp only: row bind.bind_lunit)
  qed
  have len: "0 < p + 1" "p + 1 \<le> length ?sc" using sc b(1) by simp_all
  have tk: "take (p + 1) ?sc = map (\<lambda>i. fmul F (dot i) ?is) [0 ..< p + 1]" by simp
  have "head_scores F hk dim ?v ?is (q + 4 * ((p * h + hh) * dim)) k p m sc =
      Some (probs_spec F h hk dim qs ks p hh @ drop (p + 1) ?sc)"
    unfolding head_scores_def 1 bind.bind_lunit unfolding softmax_updates [OF len] tk
    unfolding probs_spec_def dot_def ..
  then show ?thesis using sc b(1) by (simp add: nth_append probs_spec_def)
qed


lemma length_head_spec [simp]: "length (head_spec F h hk dim qs ks vs p hh) = dim"
  by (simp add: head_spec_def)

lemma length_concat_const: "(\<And>x. x \<in> set xs \<Longrightarrow> length (g x) = w) \<Longrightarrow> length (concat (map g xs)) = length xs * w"
  by (induction xs) simp_all

lemma attention_correct:
  assumes q: "arr m q qs" "length qs = seq * h * dim" and k: "arr m k ks" "length ks = seq * hk * dim"
    and v: "arr m v vs" "length vs = seq * hk * dim"
    and c: "c + 4 * (seq * h * dim) \<le> length m" "clear q (seq * h * dim) c (seq * h * dim)"
      "clear k (seq * hk * dim) c (seq * h * dim)" "clear v (seq * hk * dim) c (seq * h * dim)"
    and nz: "h \<noteq> 0" "hk \<noteq> 0" "seq \<noteq> 0" "dim \<noteq> 0" "h mod hk = 0" "q \<noteq> 0" "k \<noteq> 0" "v \<noteq> 0" "c \<noteq> 0"
  shows "pai_ref_attention_f32 F True h hk seq dim q k v c m = done_with m c (attention_spec F h hk seq dim qs ks vs)"
proof -
  let ?hs = "\<lambda>p hh. head_spec F h hk dim qs ks vs p hh"
  let ?is = "fdiv F f1 (sqrtf F (f_of_nat F dim))"
  define head where "head = (\<lambda>p hh (m, scores). do {
              let kvh = (hh * hk) div h;
              sc \<leftarrow> head_scores F hk dim kvh ?is (q + 4 * ((p * h + hh) * dim)) k p m scores;
              m' \<leftarrow> loop dim (\<lambda>d m. do {
                acc \<leftarrow> loop (p + 1) (\<lambda>i acc. do { x \<leftarrow> ldf m (v + 4 * ((i * hk + kvh) * dim + d));
                                                  Some (fadd F acc (fmul F (sc ! i) x)) }) f0;
                stf m (c + 4 * ((p * h + hh) * dim + d)) acc }) m;
              Some (m', sc) })"
  have head: "\<exists>s'. head p hh s = Some s' \<and> length (snd s') = seq \<and> fst s' = wrf (fst s) (c + 4 * ((p * h + hh) * dim)) (?hs p hh)"
    if p: "p < seq" and hh: "hh < h" and s: "length (snd s) = seq" and so: "same_outside m c (seq * h * dim) (fst s)" for p hh s
  proof -
    let ?o = "(p * h + hh) * dim" and ?v = "hh * hk div h"
    have vlt: "?v < hk" using hh nz(2) by (metis div_less_iff_less_mult gr_zeroI less_nat_zero_code mult.commute mult_less_cancel2 neq0_conv)
    have "Suc (p * h + hh) * dim \<le> seq * h * dim" using index_less [OF p hh] by (intro mult_le_mono1) simp
    then have bnd: "?o + dim \<le> seq * h * dim" by simp
    have qk: "arr (fst s) q qs" "arr (fst s) k ks"
      using arr_outside [OF q(1) so] arr_outside [OF k(1) so] q(2) k(2) c by simp_all
    obtain sc where sc: "head_scores F hk dim ?v ?is (q + 4 * ?o) k p (fst s) (snd s) = Some sc"
      "length sc = seq" "\<forall>i \<le> p. sc ! i = probs_spec F h hk dim qs ks p hh ! i"
      using head_scores_correct [OF qk(1) q(2) qk(2) k(2) p hh nz(2) s] by blast
    have "loop dim (\<lambda>d m. do {
        acc \<leftarrow> loop (p + 1) (\<lambda>i acc. do { x \<leftarrow> ldf m (v + 4 * ((i * hk + ?v) * dim + d));
                                          Some (fadd F acc (fmul F (sc ! i) x)) }) f0;
        stf m (c + 4 * (?o + d)) acc }) (fst s) = Some (wrf (fst s) (c + 4 * ?o) (?hs p hh))"
      unfolding head_spec_def
    proof (rule loop_cells)
      show b: "c + 4 * ?o + 4 * dim \<le> length (fst s)" using c(1) so bnd by simp
      fix d m' assume d: "d < dim" and so': "same_outside (fst s) (c + 4 * ?o) dim m'"
      have so2: "same_outside m c (seq * h * dim) m'"
        by (rule same_outside_trans [OF so so']) (use bnd in simp_all)
      have va: "arr m' v vs" using arr_outside [OF v(1) so2] v(2) c(4) by simp
      have "loop (p + 1) (\<lambda>i acc. do { x \<leftarrow> ldf m' (v + 4 * ((i * hk + ?v) * dim + d));
          Some (fadd F acc (fmul F (sc ! i) x)) }) f0 =
        Some (fsum F (p + 1) (\<lambda>i. fmul F (probs_spec F h hk dim qs ks p hh ! i) (vs ! ((i * hk + ?v) * dim + d))))"
        unfolding fsum_def
      proof (rule loop_fold)
        fix i acc assume i: "i < p + 1"
        have "(i * hk + ?v) * dim + d < seq * hk * dim"
          using index_less d vlt p i by (metis Suc_eq_plus1 less_Suc_eq_le le_less_trans)
        then show "do { x \<leftarrow> ldf m' (v + 4 * ((i * hk + ?v) * dim + d)); Some (fadd F acc (fmul F (sc ! i) x)) } =
            Some (fadd F acc (fmul F (probs_spec F h hk dim qs ks p hh ! i) (vs ! ((i * hk + ?v) * dim + d))))"
          using arr_ldf [OF va, of "(i * hk + ?v) * dim + d"] v(2) sc(3) i by simp
      qed
      moreover have "c + 4 * (?o + d) + 4 \<le> length m'" using b d so' by simp
      ultimately show "do { acc \<leftarrow> loop (p + 1) (\<lambda>i acc. do { x \<leftarrow> ldf m' (v + 4 * ((i * hk + ?v) * dim + d));
            Some (fadd F acc (fmul F (sc ! i) x)) }) f0; stf m' (c + 4 * (?o + d)) acc } =
          Some (wrf m' (c + 4 * ?o + 4 * d) [fsum F (p + 1) (\<lambda>i. fmul F (probs_spec F h hk dim qs ks p hh ! i)
            (vs ! ((i * hk + ?v) * dim + d)))])"
        by (simp add: stf_wrf add.assoc)
    qed
    then show ?thesis using sc unfolding head_def by (simp add: case_prod_unfold Let_def)
  qed
  have pos: "\<exists>s'. loop h (head p) s = Some s' \<and> length (snd s') = seq \<and>
      fst s' = wrf (fst s) (c + 4 * ((h * dim) * p)) (concat (map (?hs p) [0 ..< h]))"
    if p: "p < seq" and s: "length (snd s) = seq" and so: "same_outside m c (seq * h * dim) (fst s)" for p and s :: "bytes \<times> u32 list"
  proof (rule loop_gen [where w = dim and m = "fst s" and P = "\<lambda>_ s. length (snd s) = seq"])
    have "(h * dim) * Suc p \<le> (h * dim) * seq" using p by (intro mult_le_mono2) simp
    moreover have "(h * dim) * Suc p = h * dim * p + dim * h" "(h * dim) * seq = seq * h * dim" by simp_all
    ultimately have bnd: "h * dim * p + dim * h \<le> seq * h * dim" by metis
    then show "c + 4 * (h * dim * p) + 4 * (dim * h) \<le> length (fst s)" using c(1) so by simp
    fix hh and t :: "bytes \<times> u32 list" assume hh: "hh < h" and t: "length (snd t) = seq" and so': "same_outside (fst s) (c + 4 * (h * dim * p)) (dim * h) (fst t)"
    have "same_outside m c (seq * h * dim) (fst t)"
      by (rule same_outside_trans [OF so so']) (use bnd in simp_all)
    then show "\<exists>s'. head p hh t = Some s' \<and> length (snd s') = seq \<and>
        fst s' = wrf (fst t) (c + 4 * (h * dim * p) + 4 * (dim * hh)) (?hs p hh)"
      using head [OF p hh t] by (simp add: algebra_simps)
  qed (use s in simp_all)
  have "\<exists>s'. loop seq (\<lambda>p. loop h (head p)) (m, replicate seq 0) = Some s' \<and> length (snd s') = seq \<and>
      fst s' = wrf m c (attention_spec F h hk seq dim qs ks vs)"
    unfolding attention_spec_def
  proof (rule loop_gen [where w = "h * dim" and P = "\<lambda>_ s. length (snd s) = seq"])
    show "c + 4 * (h * dim * seq) \<le> length m" using c(1) by (simp add: ac_simps)
    fix p and s :: "bytes \<times> u32 list" assume "p < seq" "length (snd s) = seq" "same_outside m c (h * dim * seq) (fst s)"
    then show "\<exists>s'. loop h (head p) s = Some s' \<and> length (snd s') = seq \<and>
        fst s' = wrf (fst s) (c + 4 * (h * dim * p)) (concat (map (?hs p) [0 ..< h]))"
      by (intro pos) (simp_all add: ac_simps)
  qed (simp_all add: length_concat_const)
  then obtain s' where "loop seq (\<lambda>p. loop h (head p)) (m, replicate seq 0) = Some s'"
    "fst s' = wrf m c (attention_spec F h hk seq dim qs ks vs)" by blast
  then show ?thesis using nz unfolding pai_ref_attention_f32_def head_def by simp
qed

end
