(* ===== verification/Op_Registry.thy ===== *)
theory Op_Registry
  imports Tensor Ref_Spec
begin

text \<open>
  \<^verbatim>\<open>runtime/op_registry.c\<close>: the table of operations, the registry that is filled from it, and the eager
  evaluation of an operation on dense tensors through the reference kernels. A descriptor's \<open>ref_fn\<close> is
  only compared with NULL by the code, so it is a boolean here.
\<close>

section \<open>Kernel ids, capabilities and descriptors\<close>

definition PAI_KERNEL_NONE :: int where "PAI_KERNEL_NONE = 0"
definition PAI_KERNEL_ADD1D :: int where "PAI_KERNEL_ADD1D = 1"
definition PAI_KERNEL_SUB1D :: int where "PAI_KERNEL_SUB1D = 2"
definition PAI_KERNEL_MUL1D :: int where "PAI_KERNEL_MUL1D = 3"
definition PAI_KERNEL_RELU :: int where "PAI_KERNEL_RELU = 4"
definition PAI_KERNEL_CLIP :: int where "PAI_KERNEL_CLIP = 5"
definition PAI_KERNEL_BIASADD :: int where "PAI_KERNEL_BIASADD = 6"
definition PAI_KERNEL_MATMUL :: int where "PAI_KERNEL_MATMUL = 7"
definition PAI_KERNEL_MUL1D_U32 :: int where "PAI_KERNEL_MUL1D_U32 = 8"
definition PAI_KERNEL_SUB1D_U32 :: int where "PAI_KERNEL_SUB1D_U32 = 9"
definition PAI_KERNEL_RELU_U32 :: int where "PAI_KERNEL_RELU_U32 = 10"
definition PAI_KERNEL_CLIP_U32 :: int where "PAI_KERNEL_CLIP_U32 = 11"
definition PAI_KERNEL_ADD2D_U32 :: int where "PAI_KERNEL_ADD2D_U32 = 12"
definition PAI_KERNEL_MATMUL_U32 :: int where "PAI_KERNEL_MATMUL_U32 = 13"

lemmas kernel_ids =
  PAI_KERNEL_NONE_def PAI_KERNEL_ADD1D_def PAI_KERNEL_SUB1D_def PAI_KERNEL_MUL1D_def PAI_KERNEL_RELU_def
  PAI_KERNEL_CLIP_def PAI_KERNEL_BIASADD_def PAI_KERNEL_MATMUL_def PAI_KERNEL_MUL1D_U32_def
  PAI_KERNEL_SUB1D_U32_def PAI_KERNEL_RELU_U32_def PAI_KERNEL_CLIP_U32_def PAI_KERNEL_ADD2D_U32_def
  PAI_KERNEL_MATMUL_U32_def

definition PAI_OP_CAP_CPU_REF :: u32 where "PAI_OP_CAP_CPU_REF = 1"
definition PAI_OP_CAP_GPU_SERIAL :: u32 where "PAI_OP_CAP_GPU_SERIAL = 2"
definition PAI_OP_CAP_HOST_REF :: u32 where "PAI_OP_CAP_HOST_REF = 4"

lemmas op_caps = PAI_OP_CAP_CPU_REF_def PAI_OP_CAP_GPU_SERIAL_def PAI_OP_CAP_HOST_REF_def

definition pai_op_kernel_id_str :: "int \<Rightarrow> string" where
  "pai_op_kernel_id_str i =
     (if i = PAI_KERNEL_ADD1D then ''add1d''
      else if i = PAI_KERNEL_SUB1D then ''sub1d''
      else if i = PAI_KERNEL_MUL1D then ''mul1d''
      else if i = PAI_KERNEL_RELU then ''relu''
      else if i = PAI_KERNEL_CLIP then ''clip''
      else if i = PAI_KERNEL_BIASADD then ''biasadd''
      else if i = PAI_KERNEL_MATMUL then ''matmul''
      else if i = PAI_KERNEL_MUL1D_U32 then ''mul1d_u32''
      else if i = PAI_KERNEL_SUB1D_U32 then ''sub1d_u32''
      else if i = PAI_KERNEL_RELU_U32 then ''relu_u32''
      else if i = PAI_KERNEL_CLIP_U32 then ''clip_u32''
      else if i = PAI_KERNEL_ADD2D_U32 then ''add2d_u32''
      else if i = PAI_KERNEL_MATMUL_U32 then ''matmul_u32''
      else ''unknown'')"

record pai_op_descriptor =
  op_name :: string
  op_version :: nat
  num_inputs :: nat
  num_outputs :: nat
  in_dtype :: pai_dtype
  out_dtype :: pai_dtype
  caps :: u32
  ref_fn :: bool
  kernel_id :: int

section \<open>The builtin table\<close>

definition f32_op :: "string \<Rightarrow> nat \<Rightarrow> u32 \<Rightarrow> int \<Rightarrow> pai_op_descriptor" where
  "f32_op name ins cs k =
     \<lparr>op_name = name, op_version = 1, num_inputs = ins, num_outputs = 1, in_dtype = PAI_DTYPE_F32,
      out_dtype = PAI_DTYPE_F32, caps = cs, ref_fn = True, kernel_id = k\<rparr>"

definition u32_op :: "string \<Rightarrow> nat \<Rightarrow> int \<Rightarrow> pai_op_descriptor" where
  "u32_op name ins k =
     \<lparr>op_name = name, op_version = 1, num_inputs = ins, num_outputs = 1, in_dtype = PAI_DTYPE_U32,
      out_dtype = PAI_DTYPE_U32, caps = 0, ref_fn = False, kernel_id = k\<rparr>"

definition gpu_caps :: u32 where
  "gpu_caps = PAI_OP_CAP_CPU_REF OR PAI_OP_CAP_GPU_SERIAL OR PAI_OP_CAP_HOST_REF"

definition serial_ops :: "pai_op_descriptor list" where
  "serial_ops =
     [f32_op ''vecadd_f32'' 2 gpu_caps PAI_KERNEL_ADD1D,
      f32_op ''vecsub_f32'' 2 gpu_caps PAI_KERNEL_SUB1D,
      f32_op ''vecmul_f32'' 2 gpu_caps PAI_KERNEL_MUL1D,
      f32_op ''relu_f32'' 1 gpu_caps PAI_KERNEL_RELU,
      f32_op ''clip_f32'' 1 gpu_caps PAI_KERNEL_CLIP,
      f32_op ''biasadd_f32'' 2 gpu_caps PAI_KERNEL_BIASADD,
      f32_op ''matmul_f32'' 2 gpu_caps PAI_KERNEL_MATMUL]"

definition reference_ops :: "pai_op_descriptor list" where
  "reference_ops =
     [f32_op ''gemv_f32'' 2 PAI_OP_CAP_CPU_REF PAI_KERNEL_NONE,
      f32_op ''scale_f32'' 1 PAI_OP_CAP_CPU_REF PAI_KERNEL_NONE,
      f32_op ''softmax_f32'' 1 PAI_OP_CAP_CPU_REF PAI_KERNEL_NONE,
      f32_op ''silu_f32'' 1 PAI_OP_CAP_CPU_REF PAI_KERNEL_NONE,
      f32_op ''copy_f32'' 1 PAI_OP_CAP_CPU_REF PAI_KERNEL_NONE,
      f32_op ''dot_f32'' 2 PAI_OP_CAP_CPU_REF PAI_KERNEL_NONE,
      f32_op ''l1norm_f32'' 1 PAI_OP_CAP_CPU_REF PAI_KERNEL_NONE,
      f32_op ''l2norm_f32'' 1 PAI_OP_CAP_CPU_REF PAI_KERNEL_NONE,
      f32_op ''concat_f32'' 2 PAI_OP_CAP_CPU_REF PAI_KERNEL_NONE,
      f32_op ''layernorm_f32'' 3 PAI_OP_CAP_CPU_REF PAI_KERNEL_NONE,
      f32_op ''rmsnorm_f32'' 1 PAI_OP_CAP_CPU_REF PAI_KERNEL_NONE,
      f32_op ''rmsnorm_gamma_f32'' 2 PAI_OP_CAP_CPU_REF PAI_KERNEL_NONE,
      f32_op ''rope_f32'' 6 PAI_OP_CAP_CPU_REF PAI_KERNEL_NONE,
      f32_op ''attention_f32'' 3 PAI_OP_CAP_CPU_REF PAI_KERNEL_NONE,
      f32_op ''gemm_f32'' 2 PAI_OP_CAP_CPU_REF PAI_KERNEL_NONE,
      f32_op ''gemm_w8_f32'' 3 PAI_OP_CAP_CPU_REF PAI_KERNEL_NONE,
      f32_op ''gemm_w4_f32'' 3 PAI_OP_CAP_CPU_REF PAI_KERNEL_NONE]"

definition integer_ops :: "pai_op_descriptor list" where
  "integer_ops =
     [u32_op ''mul1d_u32'' 2 PAI_KERNEL_MUL1D_U32, u32_op ''sub1d_u32'' 2 PAI_KERNEL_SUB1D_U32,
      u32_op ''relu_u32'' 1 PAI_KERNEL_RELU_U32, u32_op ''clip_u32'' 1 PAI_KERNEL_CLIP_U32,
      u32_op ''add2d_u32'' 2 PAI_KERNEL_ADD2D_U32, u32_op ''matmul_u32'' 2 PAI_KERNEL_MATMUL_U32]"

definition s_builtin_ops :: "pai_op_descriptor list" where
  "s_builtin_ops = serial_ops @ reference_ops @ integer_ops"

section \<open>The registry\<close>

definition PAI_OP_REGISTRY_MAX_OPS :: nat where "PAI_OP_REGISTRY_MAX_OPS = 64"

text \<open>\<open>count\<close> is the length of \<open>reg_ops\<close>. The registry keeps pointers to descriptors that it does not
  copy; a descriptor of the model is the one pointed to.\<close>

record pai_op_registry =
  reg_version :: nat
  reg_ops :: "pai_op_descriptor list"

definition pai_op_registry_init :: pai_op_registry where
  "pai_op_registry_init = \<lparr>reg_version = 1, reg_ops = []\<rparr>"

definition pai_op_registry_register :: "pai_op_registry \<Rightarrow> pai_op_descriptor \<Rightarrow> pai_op_registry \<times> unit res" where
  "pai_op_registry_register reg d =
     (if length (reg_ops reg) \<ge> PAI_OP_REGISTRY_MAX_OPS then (reg, Inl PAI_ERR_NOMEM)
      else (reg\<lparr>reg_ops := reg_ops reg @ [d]\<rparr>, Inr ()))"

fun register_all :: "pai_op_registry \<Rightarrow> pai_op_descriptor list \<Rightarrow> pai_op_registry \<times> unit res" where
  "register_all reg [] = (reg, Inr ())"
| "register_all reg (d # ds) =
     (case pai_op_registry_register reg d of
        (reg', Inl e) \<Rightarrow> (reg', Inl e)
      | (reg', Inr _) \<Rightarrow> register_all reg' ds)"

definition pai_op_registry_builtin :: "pai_op_registry \<times> unit res" where
  "pai_op_registry_builtin = register_all pai_op_registry_init s_builtin_ops"

definition pai_op_registry_lookup :: "pai_op_registry \<Rightarrow> string \<Rightarrow> pai_op_descriptor option" where
  "pai_op_registry_lookup reg name = find (\<lambda>d. op_name d = name) (reg_ops reg)"

definition pai_op_registry_lookup_kernel :: "pai_op_registry \<Rightarrow> int \<Rightarrow> pai_op_descriptor option" where
  "pai_op_registry_lookup_kernel reg i =
     (if i = PAI_KERNEL_NONE then None else find (\<lambda>d. kernel_id d = i) (reg_ops reg))"

definition pai_op_registry_count :: "pai_op_registry \<Rightarrow> nat" where
  "pai_op_registry_count reg = length (reg_ops reg)"

definition pai_op_supports :: "pai_op_descriptor option \<Rightarrow> u32 \<Rightarrow> bool" where
  "pai_op_supports d cs = (case d of None \<Rightarrow> False | Some d \<Rightarrow> caps d AND cs = cs)"

section \<open>Eager evaluation\<close>

text \<open>The pointer of a tensor, 0 for NULL; an absent tensor is \<open>None\<close>.\<close>

definition data_ptr :: "pai_tensor \<Rightarrow> nat" where
  "data_ptr t = (case data t of None \<Rightarrow> 0 | Some p \<Rightarrow> unat p)"

definition nelem :: "pai_tensor \<Rightarrow> nat" where
  "nelem t = unat (pai_tensor_nelem t)"

fun check_tensors :: "pai_dtype \<Rightarrow> pai_tensor option list \<Rightarrow> unit res" where
  "check_tensors dt [] = Inr ()"
| "check_tensors dt (t # ts) =
     (case t of
        None \<Rightarrow> Inl PAI_ERR_INVALID_ARG
      | Some t \<Rightarrow>
          if data_ptr t = 0 then Inl PAI_ERR_INVALID_ARG
          else if dtype t \<noteq> dt then Inl PAI_ERR_MISMATCH
          else check_tensors dt ts)"

definition pai_op_eval_check ::
    "pai_op_descriptor \<Rightarrow> pai_tensor option list \<Rightarrow> pai_tensor option list \<Rightarrow> unit res" where
  "pai_op_eval_check d ins outs =
     (case check_tensors (in_dtype d) (take (num_inputs d) ins) of
        Inl e \<Rightarrow> Inl e
      | Inr _ \<Rightarrow> check_tensors (out_dtype d) (take (num_outputs d) outs))"

text \<open>The dispatch by kernel id, \<open>None\<close> for the default branch, and the dispatch by name that follows it. \<open>a\<close>, \<open>b\<close>
  and \<open>c\<close> are \<open>inputs[0]\<close>, \<open>inputs[1]\<close> and \<open>outputs[0]\<close>, which exist for the arities of the builtin table; products
  of sizes wrap.\<close>

definition eval_kernel ::
    "fops \<Rightarrow> int \<Rightarrow> pai_tensor \<Rightarrow> pai_tensor \<Rightarrow> pai_tensor \<Rightarrow> u32 list \<Rightarrow> bytes \<Rightarrow> kernel_result option" where
  "eval_kernel F k a b c params m =
     (let pa = data_ptr a; pb = data_ptr b; pc = data_ptr c; n = nelem c
      in if k = PAI_KERNEL_ADD1D then
           Some (if nelem a \<noteq> n \<or> nelem b \<noteq> n then invalid m else pai_ref_vecadd_f32 F pa pb pc n m)
         else if k = PAI_KERNEL_SUB1D then
           Some (if nelem a \<noteq> n \<or> nelem b \<noteq> n then invalid m else pai_ref_vecsub_f32 F pa pb pc n m)
         else if k = PAI_KERNEL_MUL1D then
           Some (if nelem a \<noteq> n \<or> nelem b \<noteq> n then invalid m else pai_ref_vecmul_f32 F pa pb pc n m)
         else if k = PAI_KERNEL_RELU then
           Some (if nelem a \<noteq> n then invalid m else pai_ref_relu_f32 F pa pc n m)
         else if k = PAI_KERNEL_CLIP then
           (let lo = (if length params > 0 then params ! 0 else f0);
                hi = (if length params > 1 then params ! 1 else f1)
            in Some (if nelem a \<noteq> n then invalid m else pai_ref_clip_f32 F pa pc n lo hi m))
         else if k = PAI_KERNEL_BIASADD then
           (let cols = pai_tensor_nelem b; rows = (if cols \<noteq> 0 then pai_tensor_nelem a div cols else 0)
            in Some (if cols = 0 \<or> rows * cols \<noteq> pai_tensor_nelem a \<or> rows * cols \<noteq> pai_tensor_nelem c then invalid m
                     else pai_ref_biasadd_f32 F pa pb pc (unat rows) (unat cols) m))
         else if k = PAI_KERNEL_MATMUL then
           (let rows = (if length (shape a) \<ge> 2 then shape a ! 0 else 0);
                ks = (if length (shape a) \<ge> 2 then shape a ! 1 else 0);
                n = (if length (shape b) \<ge> 2 then shape b ! 1 else 0);
                k2 = (if length (shape b) \<ge> 2 then shape b ! 0 else 0)
            in Some (if rows = 0 \<or> n = 0 \<or> ks = 0 \<or> ks \<noteq> k2 then invalid m
                     else if pai_tensor_nelem a \<noteq> rows * ks \<or> pai_tensor_nelem b \<noteq> ks * n \<or> pai_tensor_nelem c \<noteq> rows * n
                     then invalid m
                     else pai_ref_gemm_f32 F (unat rows) (unat n) (unat ks) pa pb pc m))
         else None)"

definition eval_named ::
    "fops \<Rightarrow> string \<Rightarrow> pai_tensor \<Rightarrow> pai_tensor \<Rightarrow> pai_tensor \<Rightarrow> u32 list \<Rightarrow> bytes \<Rightarrow> kernel_result" where
  "eval_named F name a b c params m =
     (let pa = data_ptr a; pb = data_ptr b; pc = data_ptr c
      in if name = ''gemv_f32'' then
           (let rows = pai_tensor_nelem c; k = (if rows \<noteq> 0 then pai_tensor_nelem a div rows else 0)
            in if rows = 0 \<or> k = 0 \<or> pai_tensor_nelem a \<noteq> rows * k \<or> pai_tensor_nelem b \<noteq> k then invalid m
               else pai_ref_gemv_f32 F (unat rows) (unat k) pa pb pc m)
         else if name = ''softmax_f32'' then
           if nelem a \<noteq> nelem c then invalid m else pai_ref_softmax_f32 F pa pc (nelem c) m
         else if name = ''silu_f32'' then
           if nelem a \<noteq> nelem c then invalid m else pai_ref_silu_f32 F pa pc (nelem c) m
         else if name = ''copy_f32'' then
           if nelem a \<noteq> nelem c then invalid m else pai_ref_copy_f32 pa pc (nelem c) m
         else if name = ''dot_f32'' then
           if nelem b \<noteq> nelem a \<or> nelem c \<noteq> 1 then invalid m else pai_ref_dot_f32 F pa pb pc (nelem a) m
         else if name = ''l1norm_f32'' then
           if nelem c \<noteq> 1 then invalid m else pai_ref_l1norm_f32 F pa pc (nelem a) m
         else if name = ''l2norm_f32'' then
           if nelem c \<noteq> 1 then invalid m else pai_ref_l2norm_f32 F pa pc (nelem a) m
         else if name = ''scale_f32'' then
           (let alpha = (if length params > 0 then params ! 0 else f1)
            in if nelem a \<noteq> nelem c then invalid m
               else Option.bind (if pc \<noteq> pa then memcpy_f pc pa (nelem c) m else Some m)
                      (\<lambda>m. pai_ref_scale_f32 F pc alpha (nelem c) m))
         else Some (m, Inl PAI_ERR_UNSUPPORTED))"

definition pai_op_eval_f32 ::
    "fops \<Rightarrow> pai_op_registry \<Rightarrow> string \<Rightarrow> pai_tensor option list \<Rightarrow> pai_tensor option list \<Rightarrow> u32 list \<Rightarrow>
     bytes \<Rightarrow> kernel_result" where
  "pai_op_eval_f32 F reg name ins outs params m =
     (case pai_op_registry_lookup reg name of
        None \<Rightarrow> Some (m, Inl PAI_ERR_UNSUPPORTED)
      | Some d \<Rightarrow>
          if num_inputs d \<noteq> length ins \<or> num_outputs d \<noteq> length outs then invalid m
          else if \<not> ref_fn d then Some (m, Inl PAI_ERR_UNSUPPORTED)
          else
            (case pai_op_eval_check d ins outs of
               Inl e \<Rightarrow> Some (m, Inl e)
             | Inr _ \<Rightarrow>
                 (let a = the (ins ! 0); b = (if length ins > 1 then the (ins ! 1) else a); c = the (outs ! 0)
                  in case eval_kernel F (kernel_id d) a b c params m of
                       Some r \<Rightarrow> r
                     | None \<Rightarrow> eval_named F (op_name d) a b c params m)))"

end
