(* ===== verification/Scheduler.thy ===== *)
theory Scheduler
  imports Graph_Plan Op_Registry
begin

text \<open>
  \<^verbatim>\<open>scheduler/scheduler.c\<close>: the execution plan of a graph, the reference executor, kernel selection through
  the operator registry and the session registry. Policies and operator kinds are the integers of their
  enumerations. The executor runs on one memory in which \<open>region\<close> is an address (0 is NULL); the arithmetic
  is the parameter \<open>F\<close>, \<open>mem i\<close> tells whether the allocation of step \<open>i\<close> (of attention) succeeds, and \<open>wall i\<close>
  is the time the clock measures for step \<open>i\<close>.
\<close>

section \<open>Kinds, devices and names\<close>

definition PAI_OP_ADD :: int where "PAI_OP_ADD = 1"
definition PAI_OP_MUL :: int where "PAI_OP_MUL = 2"
definition PAI_OP_GEMM :: int where "PAI_OP_GEMM = 3"
definition PAI_OP_GEMV :: int where "PAI_OP_GEMV = 4"
definition PAI_OP_MATMUL :: int where "PAI_OP_MATMUL = 5"
definition PAI_OP_RELU :: int where "PAI_OP_RELU = 6"
definition PAI_OP_SOFTMAX :: int where "PAI_OP_SOFTMAX = 7"
definition PAI_OP_LAYERNORM :: int where "PAI_OP_LAYERNORM = 8"
definition PAI_OP_RMSNORM :: int where "PAI_OP_RMSNORM = 9"
definition PAI_OP_ROPE :: int where "PAI_OP_ROPE = 10"
definition PAI_OP_ATTENTION :: int where "PAI_OP_ATTENTION = 11"
definition PAI_OP_RESHAPE :: int where "PAI_OP_RESHAPE = 12"
definition PAI_OP_CONCAT :: int where "PAI_OP_CONCAT = 13"
definition PAI_OP_CONVERT :: int where "PAI_OP_CONVERT = 14"
definition PAI_OP_COPY :: int where "PAI_OP_COPY = 15"
definition PAI_OP_SILU :: int where "PAI_OP_SILU = 16"

lemmas op_kinds =
  PAI_OP_ADD_def PAI_OP_MUL_def PAI_OP_GEMM_def PAI_OP_GEMV_def PAI_OP_MATMUL_def PAI_OP_RELU_def
  PAI_OP_SOFTMAX_def PAI_OP_LAYERNORM_def PAI_OP_RMSNORM_def PAI_OP_ROPE_def PAI_OP_ATTENTION_def
  PAI_OP_RESHAPE_def PAI_OP_CONCAT_def PAI_OP_CONVERT_def PAI_OP_COPY_def PAI_OP_SILU_def

definition PAI_SCHED_EXCLUSIVE :: int where "PAI_SCHED_EXCLUSIVE = 2"
definition PAI_SCHED_BALANCED :: int where "PAI_SCHED_BALANCED = 3"
definition PAI_SCHED_DEV_ANY :: u8 where "PAI_SCHED_DEV_ANY = 0"
definition PAI_SCHED_DEV_CPU :: u8 where "PAI_SCHED_DEV_CPU = 1"
definition PAI_SCHED_DEV_GPU :: u8 where "PAI_SCHED_DEV_GPU = 2"
definition PAI_SCHED_MEM_PERFORMANCE :: u8 where "PAI_SCHED_MEM_PERFORMANCE = 0"
definition PAI_SCHED_MEM_BALANCED :: u8 where "PAI_SCHED_MEM_BALANCED = 1"
definition PAI_SCHED_MEM_CAPACITY :: u8 where "PAI_SCHED_MEM_CAPACITY = 2"

definition k_policy_names :: "string list" where
  "k_policy_names = [''interactive'', ''throughput'', ''exclusive'', ''balanced'']"
definition k_device_names :: "string list" where
  "k_device_names = [''any'', ''cpu'', ''gpu'']"
definition k_mode_names :: "string list" where
  "k_mode_names = [''performance'', ''balanced'', ''capacity'']"

definition pai_sched_policy_name :: "int \<Rightarrow> string" where
  "pai_sched_policy_name p = (if p < 0 \<or> p \<ge> int (length k_policy_names) then ''?'' else k_policy_names ! nat p)"

definition pai_sched_device_name :: "u8 \<Rightarrow> string" where
  "pai_sched_device_name d =
     (if unat d \<ge> unat PAI_SCHED_DEV_GPU + 1 \<or> unat d \<ge> length k_device_names then ''?'' else k_device_names ! unat d)"

definition pai_sched_memory_mode_name :: "u8 \<Rightarrow> string" where
  "pai_sched_memory_mode_name d =
     (if unat d \<ge> unat PAI_SCHED_MEM_CAPACITY + 1 \<or> unat d \<ge> length k_mode_names then ''?'' else k_mode_names ! unat d)"

definition default_device :: "int \<Rightarrow> u8" where
  "default_device k =
     (if k \<in> {PAI_OP_GEMM, PAI_OP_GEMV, PAI_OP_MATMUL, PAI_OP_ATTENTION, PAI_OP_SOFTMAX}
      then PAI_SCHED_DEV_GPU else PAI_SCHED_DEV_CPU)"

definition is_compute_kind :: "int \<Rightarrow> bool" where
  "is_compute_kind k \<longleftrightarrow>
     k \<in> {PAI_OP_ADD, PAI_OP_MUL, PAI_OP_GEMM, PAI_OP_GEMV, PAI_OP_MATMUL, PAI_OP_RELU, PAI_OP_SOFTMAX,
           PAI_OP_LAYERNORM, PAI_OP_RMSNORM, PAI_OP_ROPE, PAI_OP_ATTENTION}"

section \<open>The execution plan\<close>

record pai_sched_step =
  op_id :: nat
  device :: u8
  sepoch :: nat
  live_bytes :: u64
  produced_bytes :: u64
  released_bytes :: u64

text \<open>\<open>num_steps\<close> is the length of \<open>steps\<close>.\<close>

record pai_sched_plan =
  steps :: "pai_sched_step list"
  policy :: int
  sregion_bytes :: nat
  snaive_bytes :: nat
  speak_live :: nat
  gpu_steps :: nat
  cpu_steps :: nat

text \<open>\<open>hints\<close> is the array of device hints, indexed by op id, or NULL.\<close>

definition resolve_device :: "pai_graph \<Rightarrow> nat \<Rightarrow> int \<Rightarrow> (nat \<Rightarrow> u8) option \<Rightarrow> u8 res" where
  "resolve_device g u pol hints =
     (let def = (if pol = PAI_SCHED_EXCLUSIVE \<and> is_compute_kind (kind (op_of g u)) then PAI_SCHED_DEV_GPU
                 else default_device (kind (op_of g u)))
      in case hints of
           None \<Rightarrow> Inr def
         | Some h \<Rightarrow>
             if h u \<noteq> PAI_SCHED_DEV_ANY then
               if h u \<noteq> PAI_SCHED_DEV_CPU \<and> h u \<noteq> PAI_SCHED_DEV_GPU then Inl PAI_ERR_INVALID_ARG
               else Inr (h u)
             else Inr def)"

definition op_at_epoch :: "pai_graph \<Rightarrow> nat list" where
  "op_at_epoch g =
     foldl (\<lambda>at u. at[epoch (op_of g u) := u]) (replicate PAI_GRAPH_MAX_OPS 0) [1 ..< num_ops g + 1]"

text \<open>The sum of the sizes of the values whose lifetime satisfies \<open>P\<close>.\<close>

definition sum_sizes :: "pai_graph \<Rightarrow> (nat \<times> nat) list \<Rightarrow> (nat \<Rightarrow> nat \<Rightarrow> bool) \<Rightarrow> u64" where
  "sum_sizes g ls P =
     foldl (\<lambda>acc v. if P (fst (ls ! (v - 1))) (snd (ls ! (v - 1))) then acc + vsize (val_of g v) else acc) 0
       [1 ..< num_values g + 1]"

definition build_step ::
    "pai_graph \<Rightarrow> (nat \<times> nat) list \<Rightarrow> int \<Rightarrow> (nat \<Rightarrow> u8) option \<Rightarrow> nat \<Rightarrow> pai_sched_step res" where
  "build_step g ls pol hints s =
     (let u = op_at_epoch g ! s
      in if u = 0 then Inl PAI_ERR_MISMATCH
         else
           (case resolve_device g u pol hints of
              Inl e \<Rightarrow> Inl e
            | Inr d \<Rightarrow>
                (let live_before = sum_sizes g ls (\<lambda>st en. st < s \<and> en > s);
                     released = sum_sizes g ls (\<lambda>st en. en = s);
                     produced = sum_sizes g ls (\<lambda>st en. st = s)
                 in Inr \<lparr>op_id = u, device = d, sepoch = s, live_bytes = live_before + produced,
                         produced_bytes = produced, released_bytes = released\<rparr>)))"

fun build_steps ::
    "pai_graph \<Rightarrow> (nat \<times> nat) list \<Rightarrow> int \<Rightarrow> (nat \<Rightarrow> u8) option \<Rightarrow> nat list \<Rightarrow> pai_sched_step list res" where
  "build_steps g ls pol hints [] = Inr []"
| "build_steps g ls pol hints (s # ss) =
     (case build_step g ls pol hints s of
        Inl e \<Rightarrow> Inl e
      | Inr st \<Rightarrow>
          (case build_steps g ls pol hints ss of Inl e \<Rightarrow> Inl e | Inr sts \<Rightarrow> Inr (st # sts)))"

definition sched_build_impl ::
    "pai_graph \<Rightarrow> pai_graph_mem_plan \<Rightarrow> int \<Rightarrow> (nat \<Rightarrow> u8) option \<Rightarrow> bool \<Rightarrow>
     (pai_graph \<times> pai_sched_plan res) option" where
  "sched_build_impl g mp pol hints persistent =
     (if pol < 0 \<or> pol > PAI_SCHED_BALANCED then Some (g, Inl PAI_ERR_INVALID_ARG)
      else
        (case (if is_sorted g then Some (g, Inr ()) else pai_graph_topo_sort g) of
           None \<Rightarrow> None
         | Some (g1, Inl e) \<Rightarrow> Some (g1, Inl e)
         | Some (g1, Inr _) \<Rightarrow>
             (case (if persistent then pai_graph_value_lifetimes_persistent g1
                    else pai_graph_value_lifetimes g1) of
                None \<Rightarrow> None
              | Some (g2, Inl e) \<Rightarrow> Some (g2, Inl e)
              | Some (g2, Inr ls) \<Rightarrow>
                  (case build_steps g2 ls pol hints [0 ..< num_ops g2] of
                     Inl e \<Rightarrow> Some (g2, Inl e)
                   | Inr sts \<Rightarrow>
                       Some (g2, Inr \<lparr>steps = sts, policy = pol, sregion_bytes = vregion_bytes mp,
                                      snaive_bytes = vnaive_bytes mp, speak_live = vpeak_live mp,
                                      gpu_steps = length (filter (\<lambda>st. device st = PAI_SCHED_DEV_GPU) sts),
                                      cpu_steps = length (filter (\<lambda>st. device st \<noteq> PAI_SCHED_DEV_GPU) sts)\<rparr>)))))"

definition pai_sched_build where
  "pai_sched_build g mp pol hints = sched_build_impl g mp pol hints False"

definition pai_sched_build_persistent where
  "pai_sched_build_persistent g mp pol hints = sched_build_impl g mp pol hints True"

definition pai_sched_plan_memory_mode :: "pai_sched_plan \<Rightarrow> nat \<Rightarrow> u8" where
  "pai_sched_plan_memory_mode plan budget =
     (if budget \<ge> sregion_bytes plan then PAI_SCHED_MEM_PERFORMANCE
      else if budget \<ge> speak_live plan then PAI_SCHED_MEM_BALANCED
      else PAI_SCHED_MEM_CAPACITY)"

definition pai_sched_plan_check :: "pai_sched_plan \<Rightarrow> nat \<Rightarrow> unit res" where
  "pai_sched_plan_check plan budget = (if budget < speak_live plan then Inl PAI_ERR_NOMEM else Inr ())"

section \<open>The reference executor\<close>

definition value_nelem :: "pai_graph \<Rightarrow> nat \<Rightarrow> u64" where
  "value_nelem g v = foldl (\<lambda>n d. n * d) 1 (vshape (val_of g v))"

definition value_ptr :: "pai_graph_mem_plan \<Rightarrow> nat \<Rightarrow> nat \<Rightarrow> nat" where
  "value_ptr mp region v = region + pai_graph_mem_plan_offset mp v"

abbreviation vrank :: "pai_graph_value \<Rightarrow> nat" where "vrank x \<equiv> length (vshape x)"
abbreviation vdim :: "pai_graph_value \<Rightarrow> nat \<Rightarrow> u64" where "vdim x i \<equiv> vshape x ! i"

definition mismatch :: "bytes \<Rightarrow> kernel_result" where "mismatch m = Some (m, Inl PAI_ERR_MISMATCH)"
definition unsupported :: "bytes \<Rightarrow> kernel_result" where "unsupported m = Some (m, Inl PAI_ERR_UNSUPPORTED)"

text \<open>The shape checks of \<open>run_gemm\<close>: the sizes \<open>(m, n, k)\<close> when they pass.\<close>

definition gemm_dims :: "pai_graph_value \<Rightarrow> pai_graph_value \<Rightarrow> pai_graph_value \<Rightarrow> bool \<Rightarrow> (u64 \<times> u64 \<times> u64) option" where
  "gemm_dims a b c is_gemv =
     (if is_gemv then
        if vrank a \<noteq> 2 \<or> vrank b \<noteq> 1 \<or> vrank c \<noteq> 1 then None
        else if vdim b 0 \<noteq> vdim a 1 \<or> vdim c 0 \<noteq> vdim a 0 then None
        else Some (vdim a 0, 1, vdim a 1)
      else if vrank a = 1 then
        if vrank b \<noteq> 2 \<or> vdim b 0 \<noteq> vdim a 0 then None
        else if vrank c = 1 then if vdim c 0 \<noteq> vdim b 1 then None else Some (1, vdim b 1, vdim a 0)
        else if vrank c = 2 then if vdim c 0 \<noteq> 1 \<or> vdim c 1 \<noteq> vdim b 1 then None else Some (1, vdim b 1, vdim a 0)
        else None
      else if vrank a \<noteq> 2 \<or> vrank b \<noteq> 2 then None
      else if vdim b 0 \<noteq> vdim a 1 \<or> vrank c \<noteq> 2 \<or> vdim c 0 \<noteq> vdim a 0 \<or> vdim c 1 \<noteq> vdim b 1 then None
      else Some (vdim a 0, vdim b 1, vdim a 1))"

definition run_gemm ::
    "fops \<Rightarrow> pai_graph \<Rightarrow> pai_graph_mem_plan \<Rightarrow> nat \<Rightarrow> nat \<Rightarrow> nat \<Rightarrow> nat \<Rightarrow> bool \<Rightarrow> bytes \<Rightarrow> kernel_result" where
  "run_gemm F g mp region a b c is_gemv m =
     (case gemm_dims (val_of g a) (val_of g b) (val_of g c) is_gemv of
        None \<Rightarrow> mismatch m
      | Some (r, n, k) \<Rightarrow>
          pai_ref_gemm_f32 F (unat r) (unat n) (unat k) (value_ptr mp region a) (value_ptr mp region b)
            (value_ptr mp region c) m)"

text \<open>The loop over rows with its early exit. With no rows the status the code returns is the one of the previous
  step, uninitialised in the first; \<open>None\<close> stands for it. No graph has a value with a zero dimension.\<close>

fun row_loop :: "(nat \<Rightarrow> bytes \<Rightarrow> kernel_result) \<Rightarrow> nat \<Rightarrow> nat \<Rightarrow> bytes \<Rightarrow> kernel_result" where
  "row_loop f r 0 m = None"
| "row_loop f r (Suc n) m =
     (case f r m of
        None \<Rightarrow> None
      | Some (m', Inl e) \<Rightarrow> Some (m', Inl e)
      | Some (m', Inr _) \<Rightarrow> if n = 0 then Some (m', Inr ()) else row_loop f (Suc r) n m')"

definition exec_rmsnorm ::
    "fops \<Rightarrow> pai_graph \<Rightarrow> pai_graph_mem_plan \<Rightarrow> nat \<Rightarrow> nat list \<Rightarrow> nat list \<Rightarrow> bytes \<Rightarrow> kernel_result" where
  "exec_rmsnorm F g mp region ins outs m =
     (let a = val_of g (ins ! 0); c = val_of g (outs ! 0);
          pa = value_ptr mp region (ins ! 0); pc = value_ptr mp region (outs ! 0)
      in if length ins < 1 \<or> length ins > 2 \<or> length outs \<noteq> 1 \<or> vrank a < 1 \<or> vrank a > 2 then mismatch m
         else
           (let rows = (if vrank a = 2 then vdim a 0 else 1); cols = vdim a (vrank a - 1)
            in if vrank c \<noteq> vrank a \<or> vdim c (vrank a - 1) \<noteq> cols \<or> vrank a = 2 \<and> vdim c 0 \<noteq> rows then mismatch m
               else if length ins = 2 then
                 (let gv = val_of g (ins ! 1); pg = value_ptr mp region (ins ! 1)
                  in if vrank gv \<noteq> 1 \<or> vdim gv 0 \<noteq> cols then mismatch m
                     else row_loop (\<lambda>r. pai_ref_rmsnorm_gamma_f32 F (pa + 4 * (r * unat cols)) (pc + 4 * (r * unat cols))
                                          (unat cols) pg f0) 0 (unat rows) m)
               else row_loop (\<lambda>r. pai_ref_rmsnorm_f32 F (pa + 4 * (r * unat cols)) (pc + 4 * (r * unat cols))
                                    (unat cols) f0) 0 (unat rows) m))"

definition exec_concat ::
    "pai_graph \<Rightarrow> pai_graph_mem_plan \<Rightarrow> nat \<Rightarrow> nat list \<Rightarrow> nat list \<Rightarrow> bytes \<Rightarrow> kernel_result" where
  "exec_concat g mp region ins outs m =
     (let a = val_of g (ins ! 0); b = val_of g (ins ! 1); c = val_of g (outs ! 0);
          na = value_nelem g (ins ! 0); nb = value_nelem g (ins ! 1); nc = value_nelem g (outs ! 0)
      in if length ins \<noteq> 2 \<or> length outs \<noteq> 1 then mismatch m
         else if nc \<noteq> na + nb then mismatch m
         else if vrank a = 2 \<and> vrank b = 2 \<and> vrank c = 2 \<and> (vdim a 1 \<noteq> vdim b 1 \<or> vdim c 1 \<noteq> vdim a 1) then mismatch m
         else pai_ref_concat_f32 (value_ptr mp region (ins ! 0)) (value_ptr mp region (ins ! 1))
                (value_ptr mp region (outs ! 0)) (unat na) (unat nb) m)"

definition exec_rope ::
    "fops \<Rightarrow> pai_graph \<Rightarrow> pai_graph_mem_plan \<Rightarrow> nat \<Rightarrow> nat list \<Rightarrow> nat list \<Rightarrow> bytes \<Rightarrow> kernel_result" where
  "exec_rope F g mp region ins outs m =
     (let a = val_of g (ins ! 0); co = val_of g (ins ! 1); si = val_of g (ins ! 2); c = val_of g (outs ! 0);
          nc = value_nelem g (outs ! 0)
      in if length ins \<noteq> 3 \<or> length outs \<noteq> 1 \<or> vrank a < 2 \<or> vrank a > 3 \<or> vrank c \<noteq> vrank a then mismatch m
         else
           (let hd = vdim a (vrank a - 1); seq = vdim a 0; heads = (if vrank a = 3 then vdim a 1 else 1)
            in if vdim c (vrank a - 1) \<noteq> hd \<or> vdim c 0 \<noteq> seq \<or> vrank a = 3 \<and> vdim c 1 \<noteq> heads then mismatch m
               else if vrank co \<noteq> 2 \<or> vrank si \<noteq> 2 \<or> vdim co 1 \<noteq> vdim si 1 \<or> vdim co 0 \<noteq> vdim si 0 then mismatch m
               else
                 (let r2 = vdim co 1
                  in if 2 * r2 > hd \<or> seq = 0 \<or> seq > vdim co 0 \<or> hd = 0 \<or> heads = 0 \<or> nc mod hd \<noteq> 0 then mismatch m
                     else pai_ref_rope_f32 F (value_ptr mp region (ins ! 0)) (unat (nc div hd)) (unat hd) (unat seq)
                            (unat heads) (value_ptr mp region (ins ! 1)) (value_ptr mp region (ins ! 2)) (unat r2)
                            (value_ptr mp region (outs ! 0)) m)))"

definition exec_attention ::
    "fops \<Rightarrow> bool \<Rightarrow> pai_graph \<Rightarrow> pai_graph_mem_plan \<Rightarrow> nat \<Rightarrow> nat list \<Rightarrow> nat list \<Rightarrow> bytes \<Rightarrow> kernel_result" where
  "exec_attention F ok g mp region ins outs m =
     (let a = val_of g (ins ! 0); b = val_of g (ins ! 1); v = val_of g (ins ! 2); c = val_of g (outs ! 0)
      in if length ins \<noteq> 3 \<or> length outs \<noteq> 1 \<or> vrank a \<noteq> 3 \<or> vrank b \<noteq> 3 \<or> vrank c \<noteq> 3 then mismatch m
         else
           (let seq = vdim a 0; hh = vdim a 1; hd = vdim a 2; hk = vdim b 1
            in if vdim b 0 \<noteq> seq \<or> vdim b 2 \<noteq> hd \<or> vrank v \<noteq> 3 \<or> vdim v 0 \<noteq> seq \<or> vdim v 1 \<noteq> hk \<or> vdim v 2 \<noteq> hd \<or>
                  vdim c 0 \<noteq> seq \<or> vdim c 1 \<noteq> hh \<or> vdim c 2 \<noteq> hd \<or> hh = 0 \<or> hk = 0 \<or> hh mod hk \<noteq> 0 then mismatch m
               else pai_ref_attention_f32 F ok (unat hh) (unat hk) (unat seq) (unat hd) (value_ptr mp region (ins ! 0))
                      (value_ptr mp region (ins ! 1)) (value_ptr mp region (ins ! 2)) (value_ptr mp region (outs ! 0)) m))"

text \<open>The arity and size guards of the element-wise kinds, the switch over the kinds, and one step with its dtype
  guards. Fields of an absent operand are only used after the arity check.\<close>

definition unary_bad :: "pai_graph \<Rightarrow> nat list \<Rightarrow> nat list \<Rightarrow> bool" where
  "unary_bad g ins outs \<longleftrightarrow>
     length ins \<noteq> 1 \<or> length outs \<noteq> 1 \<or> value_nelem g (outs ! 0) \<noteq> value_nelem g (ins ! 0)"

definition binary_bad :: "pai_graph \<Rightarrow> nat list \<Rightarrow> nat list \<Rightarrow> bool" where
  "binary_bad g ins outs \<longleftrightarrow>
     length ins \<noteq> 2 \<or> length outs \<noteq> 1 \<or> value_nelem g (ins ! 0) \<noteq> value_nelem g (ins ! 1) \<or>
     value_nelem g (outs ! 0) \<noteq> value_nelem g (ins ! 0)"

definition exec_kind ::
    "fops \<Rightarrow> bool \<Rightarrow> pai_graph \<Rightarrow> pai_graph_mem_plan \<Rightarrow> nat \<Rightarrow> int \<Rightarrow> nat list \<Rightarrow> nat list \<Rightarrow> bytes \<Rightarrow> kernel_result" where
  "exec_kind F ok g mp region k ins outs m =
     (let na = unat (value_nelem g (ins ! 0)); pa = value_ptr mp region (ins ! 0);
          pb = value_ptr mp region (ins ! 1); pc = value_ptr mp region (outs ! 0)
      in if k = PAI_OP_ADD then if binary_bad g ins outs then mismatch m else pai_ref_vecadd_f32 F pa pb pc na m
         else if k = PAI_OP_MUL then if binary_bad g ins outs then mismatch m else pai_ref_vecmul_f32 F pa pb pc na m
         else if k = PAI_OP_GEMM \<or> k = PAI_OP_MATMUL then
           if length ins \<noteq> 2 \<or> length outs \<noteq> 1 then mismatch m
           else run_gemm F g mp region (ins ! 0) (ins ! 1) (outs ! 0) False m
         else if k = PAI_OP_GEMV then
           if length ins \<noteq> 2 \<or> length outs \<noteq> 1 then mismatch m
           else run_gemm F g mp region (ins ! 0) (ins ! 1) (outs ! 0) True m
         else if k = PAI_OP_RELU then if unary_bad g ins outs then mismatch m else pai_ref_relu_f32 F pa pc na m
         else if k = PAI_OP_SOFTMAX then if unary_bad g ins outs then mismatch m else pai_ref_softmax_f32 F pa pc na m
         else if k = PAI_OP_RMSNORM then exec_rmsnorm F g mp region ins outs m
         else if k = PAI_OP_SILU then if unary_bad g ins outs then mismatch m else pai_ref_silu_f32 F pa pc na m
         else if k = PAI_OP_LAYERNORM then
           if unary_bad g ins outs then mismatch m else pai_ref_layernorm_f32 F pa pc na 0 0 f0 m
         else if k = PAI_OP_CONCAT then exec_concat g mp region ins outs m
         else if k = PAI_OP_COPY \<or> k = PAI_OP_RESHAPE then
           if unary_bad g ins outs then mismatch m else pai_ref_copy_f32 pa pc na m
         else if k = PAI_OP_CONVERT then
           if length ins \<noteq> 1 \<or> length outs \<noteq> 1 \<or> vdtype (val_of g (ins ! 0)) \<noteq> vdtype (val_of g (outs ! 0)) then unsupported m
           else pai_ref_copy_f32 pa pc na m
         else if k = PAI_OP_ROPE then exec_rope F g mp region ins outs m
         else if k = PAI_OP_ATTENTION then exec_attention F ok g mp region ins outs m
         else unsupported m)"

definition exec_op ::
    "fops \<Rightarrow> bool \<Rightarrow> pai_graph \<Rightarrow> pai_graph_mem_plan \<Rightarrow> nat \<Rightarrow> pai_graph_op \<Rightarrow> bytes \<Rightarrow> kernel_result" where
  "exec_op F ok g mp region p m =
     (if \<exists>v \<in> set (inputs p). vdtype (val_of g v) \<noteq> PAI_DTYPE_F32 then unsupported m
      else if \<exists>v \<in> set (outputs p). vdtype (val_of g v) \<noteq> PAI_DTYPE_F32 then unsupported m
      else exec_kind F ok g mp region (kind p) (inputs p) (outputs p) m)"

record pai_sched_run_stats =
  steps_executed :: nat
  rgpu_steps :: nat
  rcpu_steps :: nat

type_synonym hook_call = "nat \<times> nat \<times> u8 \<times> u64"

text \<open>The loop over the steps, with the calls of the hook it makes (in order).\<close>

fun exec_steps ::
    "fops \<Rightarrow> (nat \<Rightarrow> bool) \<Rightarrow> (nat \<Rightarrow> u64) \<Rightarrow> bool \<Rightarrow> pai_graph \<Rightarrow> pai_graph_mem_plan \<Rightarrow> nat \<Rightarrow> nat \<Rightarrow>
     pai_sched_step list \<Rightarrow> pai_sched_run_stats \<Rightarrow> bytes \<Rightarrow> (bytes \<times> hook_call list \<times> pai_sched_run_stats res) option" where
  "exec_steps F mem wall hook g mp region i [] stats m = Some (m, [], Inr stats)"
| "exec_steps F mem wall hook g mp region i (st # sts) stats m =
     (case exec_op F (mem i) g mp region (op_of g (op_id st)) m of
        None \<Rightarrow> None
      | Some (m', Inl e) \<Rightarrow> Some (m', [], Inl e)
      | Some (m', Inr _) \<Rightarrow>
          (let stats1 = stats\<lparr>steps_executed := steps_executed stats + 1\<rparr>;
               stats2 = (if device st = PAI_SCHED_DEV_GPU then stats1\<lparr>rgpu_steps := rgpu_steps stats1 + 1\<rparr>
                         else stats1\<lparr>rcpu_steps := rcpu_steps stats1 + 1\<rparr>)
           in map_option (\<lambda>(m, calls, r). (m, (if hook then [(i, op_id st, device st, wall i)] else []) @ calls, r))
                (exec_steps F mem wall hook g mp region (Suc i) sts stats2 m')))"

definition pai_sched_execute_hooked ::
    "fops \<Rightarrow> (nat \<Rightarrow> bool) \<Rightarrow> (nat \<Rightarrow> u64) \<Rightarrow> bool \<Rightarrow> pai_graph \<Rightarrow> pai_graph_mem_plan \<Rightarrow> pai_sched_plan \<Rightarrow> nat \<Rightarrow>
     bytes \<Rightarrow> (bytes \<times> hook_call list \<times> pai_sched_run_stats res) option" where
  "pai_sched_execute_hooked F mem wall hook g mp plan region m =
     (if region = 0 then Some (m, [], Inl PAI_ERR_INVALID_ARG)
      else if length (steps plan) \<noteq> num_ops g then Some (m, [], Inl PAI_ERR_MISMATCH)
      else exec_steps F mem wall hook g mp region 0 (steps plan)
             \<lparr>steps_executed = 0, rgpu_steps = 0, rcpu_steps = 0\<rparr> m)"

definition pai_sched_execute where
  "pai_sched_execute F mem wall g mp plan region m = pai_sched_execute_hooked F mem wall False g mp plan region m"

section \<open>Kernel selection\<close>

definition op_registry_name :: "int \<Rightarrow> string option" where
  "op_registry_name k =
     (if k = PAI_OP_ADD then Some ''vecadd_f32''
      else if k = PAI_OP_MUL then Some ''vecmul_f32''
      else if k = PAI_OP_GEMM \<or> k = PAI_OP_MATMUL then Some ''matmul_f32''
      else if k = PAI_OP_GEMV then Some ''gemv_f32''
      else if k = PAI_OP_RELU then Some ''relu_f32''
      else if k = PAI_OP_SOFTMAX then Some ''softmax_f32''
      else if k = PAI_OP_SILU then Some ''silu_f32''
      else if k = PAI_OP_LAYERNORM then Some ''layernorm_f32''
      else if k = PAI_OP_RMSNORM then Some ''rmsnorm_f32''
      else if k = PAI_OP_CONCAT then Some ''concat_f32''
      else if k = PAI_OP_COPY \<or> k = PAI_OP_RESHAPE \<or> k = PAI_OP_CONVERT then Some ''copy_f32''
      else if k = PAI_OP_ROPE then Some ''rope_f32''
      else if k = PAI_OP_ATTENTION then Some ''attention_f32''
      else None)"

record pai_kernel_entry =
  kkind :: int
  kop_name :: string
  kkernel_id :: int
  kdevice :: u8
  kcaps :: u32

definition registry_or_builtin :: "pai_op_registry option \<Rightarrow> pai_op_registry res" where
  "registry_or_builtin reg =
     (case reg of Some r \<Rightarrow> Inr r
      | None \<Rightarrow> (case pai_op_registry_builtin of (r, Inl e) \<Rightarrow> Inl e | (r, Inr _) \<Rightarrow> Inr r))"

definition pai_kernel_select ::
    "pai_graph \<Rightarrow> nat \<Rightarrow> pai_op_registry option \<Rightarrow> pai_kernel_entry res" where
  "pai_kernel_select g u reg =
     (if u = 0 \<or> u > num_ops g then Inl PAI_ERR_INVALID_ARG
      else
        (case registry_or_builtin reg of
           Inl e \<Rightarrow> Inl e
         | Inr r \<Rightarrow>
             (case op_registry_name (kind (op_of g u)) of
                None \<Rightarrow> Inl PAI_ERR_UNSUPPORTED
              | Some name \<Rightarrow>
                  (case pai_op_registry_lookup r name of
                     None \<Rightarrow> Inl PAI_ERR_UNSUPPORTED
                   | Some d \<Rightarrow>
                       Inr \<lparr>kkind = kind (op_of g u), kop_name = op_name d, kkernel_id = kernel_id d,
                            kdevice = default_device (kind (op_of g u)), kcaps = caps d\<rparr>))))"

fun check_steps :: "pai_graph \<Rightarrow> u32 \<Rightarrow> pai_op_registry \<Rightarrow> pai_sched_step list \<Rightarrow> unit res" where
  "check_steps g req r [] = Inr ()"
| "check_steps g req r (st # sts) =
     (case pai_kernel_select g (op_id st) (Some r) of
        Inl e \<Rightarrow> Inl e
      | Inr entry \<Rightarrow> if kcaps entry AND req \<noteq> req then Inl PAI_ERR_UNSUPPORTED else check_steps g req r sts)"

definition pai_kernel_plan_check :: "pai_graph \<Rightarrow> pai_sched_plan \<Rightarrow> u32 \<Rightarrow> pai_op_registry option \<Rightarrow> unit res" where
  "pai_kernel_plan_check g plan req reg =
     (case registry_or_builtin reg of Inl e \<Rightarrow> Inl e | Inr r \<Rightarrow> check_steps g req r (steps plan))"

definition pai_sched_execute_vtable where
  "pai_sched_execute_vtable F mem wall g mp plan region m =
     (case pai_kernel_plan_check g plan PAI_OP_CAP_CPU_REF None of
        Inl e \<Rightarrow> Some (m, [], Inl e)
      | Inr _ \<Rightarrow> pai_sched_execute F mem wall g mp plan region m)"

section \<open>Sessions\<close>

definition PAI_SCHED_MAX_SESSIONS :: nat where "PAI_SCHED_MAX_SESSIONS = 16"

record pai_sched_session =
  sid :: u64
  priority :: int
  spolicy :: u8
  active :: bool

record pai_sched_sessions =
  slots :: "pai_sched_session list"
  scount :: u32
  next_id :: u64

definition pai_sched_sessions_init :: pai_sched_sessions where
  "pai_sched_sessions_init =
     \<lparr>slots = replicate PAI_SCHED_MAX_SESSIONS \<lparr>sid = 0, priority = 0, spolicy = 0, active = False\<rparr>, scount = 0, next_id = 1\<rparr>"

text \<open>The first index from \<open>i\<close> on whose slot satisfies \<open>P\<close>.\<close>

fun first_slot :: "(pai_sched_session \<Rightarrow> bool) \<Rightarrow> nat \<Rightarrow> pai_sched_session list \<Rightarrow> nat option" where
  "first_slot P i [] = None"
| "first_slot P i (s # ss) = (if P s then Some i else first_slot P (Suc i) ss)"

definition pai_sched_session_create ::
    "pai_sched_sessions \<Rightarrow> int \<Rightarrow> u8 \<Rightarrow> pai_sched_sessions \<times> u64 res" where
  "pai_sched_session_create ss prio pol =
     (if uint pol > PAI_SCHED_BALANCED then (ss, Inl PAI_ERR_INVALID_ARG)
      else
        (case first_slot (\<lambda>s. \<not> active s) 0 (slots ss) of
           None \<Rightarrow> (ss, Inl PAI_ERR_NOMEM)
         | Some i \<Rightarrow>
             (ss\<lparr>slots := (slots ss)[i := \<lparr>sid = next_id ss, priority = prio, spolicy = pol, active = True\<rparr>],
                 scount := scount ss + 1, next_id := next_id ss + 1\<rparr>, Inr (next_id ss))))"

definition pai_sched_session_destroy :: "pai_sched_sessions \<Rightarrow> u64 \<Rightarrow> pai_sched_sessions \<times> unit res" where
  "pai_sched_session_destroy ss i =
     (if i = 0 then (ss, Inl PAI_ERR_INVALID_ARG)
      else
        (case first_slot (\<lambda>s. active s \<and> sid s = i) 0 (slots ss) of
           None \<Rightarrow> (ss, Inl PAI_ERR_MISMATCH)
         | Some k \<Rightarrow>
             (ss\<lparr>slots := (slots ss)[k := (slots ss ! k)\<lparr>active := False\<rparr>], scount := scount ss - 1\<rparr>, Inr ())))"

definition pai_sched_session_active :: "pai_sched_sessions \<Rightarrow> u64 \<Rightarrow> bool" where
  "pai_sched_session_active ss i \<longleftrightarrow> i \<noteq> 0 \<and> first_slot (\<lambda>s. active s \<and> sid s = i) 0 (slots ss) \<noteq> None"

definition pai_sched_pick_session :: "pai_sched_sessions \<Rightarrow> int" where
  "pai_sched_pick_session ss =
     foldl (\<lambda>best i. if \<not> active (slots ss ! i) then best
                     else if best < 0 \<or> priority (slots ss ! i) > priority (slots ss ! nat best) then int i
                     else best) (- 1) [0 ..< PAI_SCHED_MAX_SESSIONS]"

end
