(* ===== verification/Sched_Ops.thy ===== *)
theory Sched_Ops
  imports Scheduler
begin

text \<open>
  What one step of the executor of \<^verbatim>\<open>scheduler/scheduler.c\<close> computes. \<open>op_check\<close> decides by arity, dtypes and
  shapes which error a step returns; \<open>op_value\<close> is the contents of the output as a function of the contents
  of the inputs, without memory. On operands that lie in memory and apart from the output, \<open>exec_op\<close> is
  exactly these two.
\<close>

section \<open>Values of an op\<close>

text \<open>\<open>op_check\<close>: which error an op gives, decided by arity, dtypes and shapes alone. \<open>op_value\<close>: the contents of its
  output as a function of the contents of its inputs.\<close>

definition vlen :: "pai_graph \<Rightarrow> nat \<Rightarrow> nat" where "vlen g v = nat_prod (vshape (val_of g v))"

definition rms_shape :: "pai_graph \<Rightarrow> nat list \<Rightarrow> nat list \<Rightarrow> (nat \<times> nat) option" where
  "rms_shape g ins outs =
     (let a = val_of g (ins ! 0); c = val_of g (outs ! 0); cols = vdim a (vrank a - 1); rows = (if vrank a = 2 then vdim a 0 else 1)
      in if (length ins = 1 \<or> length ins = 2) \<and> length outs = 1 \<and> (vrank a = 1 \<or> vrank a = 2) \<and> vshape c = vshape a \<and>
            (length ins = 2 \<longrightarrow> vshape (val_of g (ins ! 1)) = [cols])
         then Some (unat rows, unat cols) else None)"

definition concat_shape :: "pai_graph \<Rightarrow> nat list \<Rightarrow> nat list \<Rightarrow> bool" where
  "concat_shape g ins outs \<longleftrightarrow>
     length ins = 2 \<and> length outs = 1 \<and> vlen g (outs ! 0) = vlen g (ins ! 0) + vlen g (ins ! 1) \<and>
     (vrank (val_of g (ins ! 0)) = 2 \<and> vrank (val_of g (ins ! 1)) = 2 \<and> vrank (val_of g (outs ! 0)) = 2 \<longrightarrow>
        vdim (val_of g (ins ! 0)) 1 = vdim (val_of g (ins ! 1)) 1 \<and> vdim (val_of g (outs ! 0)) 1 = vdim (val_of g (ins ! 0)) 1)"

text \<open>\<open>(positions, heads, head size, half the rotated size)\<close>.\<close>

definition rope_shape :: "pai_graph \<Rightarrow> nat list \<Rightarrow> nat list \<Rightarrow> (nat \<times> nat \<times> nat \<times> nat) option" where
  "rope_shape g ins outs =
     (let a = val_of g (ins ! 0); co = val_of g (ins ! 1); hd = vdim a (vrank a - 1); heads = (if vrank a = 3 then vdim a 1 else 1)
      in if length ins = 3 \<and> length outs = 1 \<and> (vrank a = 2 \<or> vrank a = 3) \<and> vshape (val_of g (outs ! 0)) = vshape a \<and>
            vrank co = 2 \<and> vshape (val_of g (ins ! 2)) = vshape co \<and> 2 * unat (vdim co 1) \<le> unat hd \<and> vdim a 0 \<le> vdim co 0
         then Some (unat (vdim a 0), unat heads, unat hd, unat (vdim co 1)) else None)"

definition attention_shape :: "pai_graph \<Rightarrow> nat list \<Rightarrow> nat list \<Rightarrow> (nat \<times> nat \<times> nat \<times> nat) option" where
  "attention_shape g ins outs =
     (let a = val_of g (ins ! 0); b = val_of g (ins ! 1)
      in if length ins = 3 \<and> length outs = 1 \<and> vrank a = 3 \<and> vshape (val_of g (outs ! 0)) = vshape a \<and>
            vrank b = 3 \<and> vdim b 0 = vdim a 0 \<and> vdim b 2 = vdim a 2 \<and> vshape (val_of g (ins ! 2)) = vshape b \<and>
            vdim a 1 mod vdim b 1 = 0
         then Some (unat (vdim a 1), unat (vdim b 1), unat (vdim a 0), unat (vdim a 2)) else None)"

definition unary_shape :: "pai_graph \<Rightarrow> nat list \<Rightarrow> nat list \<Rightarrow> bool" where
  "unary_shape g ins outs \<longleftrightarrow> length ins = 1 \<and> length outs = 1 \<and> vlen g (outs ! 0) = vlen g (ins ! 0)"

definition binary_shape :: "pai_graph \<Rightarrow> nat list \<Rightarrow> nat list \<Rightarrow> bool" where
  "binary_shape g ins outs \<longleftrightarrow>
     length ins = 2 \<and> length outs = 1 \<and> vlen g (ins ! 0) = vlen g (ins ! 1) \<and> vlen g (outs ! 0) = vlen g (ins ! 0)"

definition gemm_shape :: "pai_graph \<Rightarrow> nat list \<Rightarrow> nat list \<Rightarrow> bool \<Rightarrow> (nat \<times> nat \<times> nat) option" where
  "gemm_shape g ins outs is_gemv =
     (if length ins = 2 \<and> length outs = 1
      then map_option (\<lambda>(r, n, k). (unat r, unat n, unat k))
             (gemm_dims (val_of g (ins ! 0)) (val_of g (ins ! 1)) (val_of g (outs ! 0)) is_gemv)
      else None)"

definition guard :: "bool \<Rightarrow> unit res" where
  "guard b = (if b then Inr () else Inl PAI_ERR_MISMATCH)"

definition kind_check :: "bool \<Rightarrow> pai_graph \<Rightarrow> int \<Rightarrow> nat list \<Rightarrow> nat list \<Rightarrow> unit res" where
  "kind_check ok g k ins outs =
     (if k = PAI_OP_ADD \<or> k = PAI_OP_MUL then guard (binary_shape g ins outs)
      else if k = PAI_OP_GEMM \<or> k = PAI_OP_MATMUL \<or> k = PAI_OP_GEMV then guard (gemm_shape g ins outs (k = PAI_OP_GEMV) \<noteq> None)
      else if k = PAI_OP_RELU \<or> k = PAI_OP_SOFTMAX \<or> k = PAI_OP_SILU \<or> k = PAI_OP_LAYERNORM \<or> k = PAI_OP_COPY \<or> k = PAI_OP_RESHAPE
      then guard (unary_shape g ins outs)
      else if k = PAI_OP_RMSNORM then guard (rms_shape g ins outs \<noteq> None)
      else if k = PAI_OP_CONCAT then guard (concat_shape g ins outs)
      else if k = PAI_OP_CONVERT then
        if length ins = 1 \<and> length outs = 1 then Inr () else Inl PAI_ERR_UNSUPPORTED
      else if k = PAI_OP_ROPE then guard (rope_shape g ins outs \<noteq> None)
      else if k = PAI_OP_ATTENTION then
        if attention_shape g ins outs = None then Inl PAI_ERR_MISMATCH else if ok then Inr () else Inl PAI_ERR_NOMEM
      else Inl PAI_ERR_UNSUPPORTED)"

definition all_f32 :: "pai_graph \<Rightarrow> pai_graph_op \<Rightarrow> bool" where
  "all_f32 g p \<longleftrightarrow> (\<forall>v \<in> set (inputs p) \<union> set (outputs p). vdtype (val_of g v) = PAI_DTYPE_F32)"

definition op_check :: "bool \<Rightarrow> pai_graph \<Rightarrow> pai_graph_op \<Rightarrow> unit res" where
  "op_check ok g p = (if all_f32 g p then kind_check ok g (kind p) (inputs p) (outputs p) else Inl PAI_ERR_UNSUPPORTED)"

definition chunk :: "nat \<Rightarrow> 'a list \<Rightarrow> nat \<Rightarrow> 'a list" where
  "chunk cols xs r = take cols (drop (r * cols) xs)"

definition kind_value :: "fops \<Rightarrow> pai_graph \<Rightarrow> int \<Rightarrow> nat list \<Rightarrow> nat list \<Rightarrow> (nat \<Rightarrow> u32 list) \<Rightarrow> u32 list" where
  "kind_value F g k ins outs env =
     (let x = env (ins ! 0); y = env (ins ! 1); z = env (ins ! 2)
      in if k = PAI_OP_ADD then map2 (fadd F) x y
         else if k = PAI_OP_MUL then map2 (fmul F) x y
         else if k = PAI_OP_GEMM \<or> k = PAI_OP_MATMUL \<or> k = PAI_OP_GEMV then
           (case the (gemm_shape g ins outs (k = PAI_OP_GEMV)) of (r, n, d) \<Rightarrow> gemm_spec F r n d x y)
         else if k = PAI_OP_RELU then relu_spec F x
         else if k = PAI_OP_SOFTMAX then softmax_spec F x
         else if k = PAI_OP_RMSNORM then
           (case the (rms_shape g ins outs) of (rows, cols) \<Rightarrow>
              concat (map (\<lambda>r. if length ins = 2 then rmsnorm_gamma_spec F f0 y (chunk cols x r)
                               else rmsnorm_spec F f0 (chunk cols x r)) [0 ..< rows]))
         else if k = PAI_OP_SILU then silu_spec F x
         else if k = PAI_OP_LAYERNORM then layernorm_spec F f0 x
         else if k = PAI_OP_CONCAT then x @ y
         else if k = PAI_OP_ROPE then
           (case the (rope_shape g ins outs) of (seq, heads, dm, r2) \<Rightarrow> rope_spec F (seq * heads) dm heads r2 x y z)
         else if k = PAI_OP_ATTENTION then
           (case the (attention_shape g ins outs) of (h, hk, seq, dm) \<Rightarrow> attention_spec F h hk seq dm x y z)
         else x)"

definition op_value :: "fops \<Rightarrow> pai_graph \<Rightarrow> pai_graph_op \<Rightarrow> (nat \<Rightarrow> u32 list) \<Rightarrow> u32 list" where
  "op_value F g p env = kind_value F g (kind p) (inputs p) (outputs p) env"

section \<open>The operands of an op in memory\<close>

definition f32_value :: "pai_graph \<Rightarrow> nat \<Rightarrow> bool" where
  "f32_value g v \<longleftrightarrow> 0 \<notin> set (vshape (val_of g v)) \<and> 4 * vlen g v < 2 ^ 64 \<and> unat (vsize (val_of g v)) = 4 * vlen g v"

lemma value_ok_f32:
  assumes "value_ok g v" "vdtype (val_of g v) = PAI_DTYPE_F32"
  shows "f32_value g v"
proof -
  have sz: "pai_dtype_size PAI_DTYPE_F32 = 4" by (simp add: pai_dtype_size_def)
  have "unat (vsize (val_of g v)) = vlen g v * 4 \<and> 0 \<notin> set (vshape (val_of g v))"
    using assms unfolding value_ok_def contiguous_size_iff vlen_def nat_prod_def by (simp add: sz)
  then show ?thesis using unsigned_less [of "vsize (val_of g v)", where 'a = nat] by (simp add: f32_value_def mult.commute)
qed


lemma nelem_unat:
  assumes "f32_value g v"
  shows "unat (value_nelem g v) = vlen g v"
proof -
  have "unat (foldl (\<lambda>n d. n * d) n sh) = unat n * nat_prod sh"
    if "0 \<notin> set sh" "unat n * nat_prod sh < 2 ^ 64" for n :: u64 and sh
    using that
  proof (induction sh arbitrary: n)
    case (Cons d ds)
    have "0 < nat_prod ds" using nat_prod_pos [of ds] Cons.prems(1) by simp
    then have "unat n * unat d \<le> unat n * (unat d * nat_prod ds)" by simp
    then have "unat n * unat d < 2 ^ 64" using Cons.prems(2) by (simp only: nat_prod_simps)
    then have "unat (n * d) = unat n * unat d" by (rule unat_mult_small)
    then show ?case using Cons by (simp add: mult.assoc)
  qed simp
  from this [of "vshape (val_of g v)" 1] show ?thesis
    using assms by (simp add: value_nelem_def f32_value_def vlen_def)
qed

lemma vlen_pos: "f32_value g v \<Longrightarrow> 0 < vlen g v"
  using nat_prod_pos by (simp add: f32_value_def vlen_def)

lemma nelem_eq_iff: "f32_value g v \<Longrightarrow> f32_value g w \<Longrightarrow> value_nelem g v = value_nelem g w \<longleftrightarrow> vlen g v = vlen g w"
  by (metis nelem_unat word_unat_eq_iff)

text \<open>The inputs of \<open>p\<close> hold \<open>env\<close>, its outputs lie in memory and apart from the inputs.\<close>

definition operands :: "bytes \<Rightarrow> pai_graph \<Rightarrow> pai_graph_mem_plan \<Rightarrow> nat \<Rightarrow> pai_graph_op \<Rightarrow> (nat \<Rightarrow> u32 list) \<Rightarrow> bool" where
  "operands m g mp region p env \<longleftrightarrow>
     region \<noteq> 0 \<and> (\<forall>v \<in> set (inputs p) \<union> set (outputs p). value_ok g v) \<and>
     (\<forall>v \<in> set (inputs p). vdtype (val_of g v) = PAI_DTYPE_F32 \<longrightarrow>
        arr m (value_ptr mp region v) (env v) \<and> length (env v) = vlen g v) \<and>
     (\<forall>w \<in> set (outputs p). value_ptr mp region w + unat (vsize (val_of g w)) \<le> length m \<and>
        (\<forall>v \<in> set (inputs p). apart (pai_graph_mem_plan_offset mp v) (unat (vsize (val_of g v)))
           (pai_graph_mem_plan_offset mp w) (unat (vsize (val_of g w)))))"

lemma operand_in:
  assumes "operands m g mp region p env" "all_f32 g p" "i < length (inputs p)"
  shows "f32_value g (inputs p ! i)" "arr m (value_ptr mp region (inputs p ! i)) (env (inputs p ! i))"
    "length (env (inputs p ! i)) = vlen g (inputs p ! i)" "0 < value_ptr mp region (inputs p ! i)"
proof -
  have v: "inputs p ! i \<in> set (inputs p)" using assms(3) by simp
  then show "f32_value g (inputs p ! i)"
    using assms(1,2) by (intro value_ok_f32) (auto simp: operands_def all_f32_def)
  show "arr m (value_ptr mp region (inputs p ! i)) (env (inputs p ! i))"
    "length (env (inputs p ! i)) = vlen g (inputs p ! i)" "0 < value_ptr mp region (inputs p ! i)"
    using assms(1,2) v by (auto simp: operands_def all_f32_def value_ptr_def)
qed

lemma operand_out:
  assumes "operands m g mp region p env" "all_f32 g p" "length (outputs p) = 1"
  shows "f32_value g (outputs p ! 0)" "value_ptr mp region (outputs p ! 0) + 4 * vlen g (outputs p ! 0) \<le> length m"
    "0 < value_ptr mp region (outputs p ! 0)"
    "i < length (inputs p) \<Longrightarrow> clear (value_ptr mp region (inputs p ! i)) (vlen g (inputs p ! i))
       (value_ptr mp region (outputs p ! 0)) (vlen g (outputs p ! 0))"
proof -
  have w: "outputs p ! 0 \<in> set (outputs p)" using assms(3) by simp
  show f: "f32_value g (outputs p ! 0)"
    using assms(1,2) w by (intro value_ok_f32) (auto simp: operands_def all_f32_def)
  show "value_ptr mp region (outputs p ! 0) + 4 * vlen g (outputs p ! 0) \<le> length m" "0 < value_ptr mp region (outputs p ! 0)"
    using assms(1) w f by (auto simp: operands_def f32_value_def value_ptr_def)
  show "clear (value_ptr mp region (inputs p ! i)) (vlen g (inputs p ! i))
       (value_ptr mp region (outputs p ! 0)) (vlen g (outputs p ! 0))" if i: "i < length (inputs p)"
  proof -
    have "apart (pai_graph_mem_plan_offset mp (inputs p ! i)) (unat (vsize (val_of g (inputs p ! i))))
        (pai_graph_mem_plan_offset mp (outputs p ! 0)) (unat (vsize (val_of g (outputs p ! 0))))"
      using assms(1) w i by (simp add: operands_def)
    then show ?thesis
      using operand_in(1) [OF assms(1,2) i] f unfolding apart_def clear_def f32_value_def value_ptr_def by linarith
  qed
qed


section \<open>Each kind runs as its value\<close>

definition outcome :: "bytes \<Rightarrow> nat \<Rightarrow> unit res \<Rightarrow> u32 list \<Rightarrow> kernel_result" where
  "outcome m c r ys = (case r of Inl e \<Rightarrow> Some (m, Inl e) | Inr _ \<Rightarrow> done_with m c ys)"

lemma outcome_simps [simp]:
  "outcome m c (guard b) ys = (if b then done_with m c ys else mismatch m)"
  "outcome m c (Inr ()) ys = done_with m c ys" "outcome m c (Inl e) ys = Some (m, Inl e)"
  by (simp_all add: outcome_def guard_def mismatch_def)

abbreviation runs :: "fops \<Rightarrow> bool \<Rightarrow> pai_graph \<Rightarrow> pai_graph_mem_plan \<Rightarrow> nat \<Rightarrow> pai_graph_op \<Rightarrow> (nat \<Rightarrow> u32 list) \<Rightarrow> bytes \<Rightarrow> bool" where
  "runs F ok g mp region p env m \<equiv>
     exec_kind F ok g mp region (kind p) (inputs p) (outputs p) m =
     outcome m (value_ptr mp region (outputs p ! 0)) (kind_check ok g (kind p) (inputs p) (outputs p))
       (kind_value F g (kind p) (inputs p) (outputs p) env)"

lemma binary_runs:
  assumes o: "operands m g mp region p env" "all_f32 g p" and k: "kind p = PAI_OP_ADD \<or> kind p = PAI_OP_MUL"
  shows "runs F ok g mp region p env m"
proof -
  have bad: "binary_bad g (inputs p) (outputs p) = (\<not> binary_shape g (inputs p) (outputs p))"
    using operand_in(1) [OF o] operand_out(1) [OF o] nelem_eq_iff by (auto simp: binary_shape_def binary_bad_def)
  have "runs F ok g mp region p env m" if s: "binary_shape g (inputs p) (outputs p)"
  proof -
    have b: "length (inputs p) = 2" "length (outputs p) = 1" "vlen g (inputs p ! 0) = vlen g (inputs p ! 1)"
      "vlen g (outputs p ! 0) = vlen g (inputs p ! 0)" using s by (simp_all add: binary_shape_def)
    have i: "0 < length (inputs p)" "1 < length (inputs p)" using b by simp_all
    note v = vec2_correct [OF operand_in(2) [OF o i(1)] operand_in(2) [OF o i(2)], of "vlen g (inputs p ! 0)"
        "value_ptr mp region (outputs p ! 0)" F]
    have "pai_ref_vecadd_f32 F (value_ptr mp region (inputs p ! 0)) (value_ptr mp region (inputs p ! 1))
        (value_ptr mp region (outputs p ! 0)) (vlen g (inputs p ! 0)) m =
        done_with m (value_ptr mp region (outputs p ! 0)) (map2 (fadd F) (env (inputs p ! 0)) (env (inputs p ! 1)))"
      "pai_ref_vecmul_f32 F (value_ptr mp region (inputs p ! 0)) (value_ptr mp region (inputs p ! 1))
        (value_ptr mp region (outputs p ! 0)) (vlen g (inputs p ! 0)) m =
        done_with m (value_ptr mp region (outputs p ! 0)) (map2 (fmul F) (env (inputs p ! 0)) (env (inputs p ! 1)))"
      using v(1,3) operand_in(3,4) [OF o i(1)] operand_in(3,4) [OF o i(2)] operand_out(2,3) [OF o b(2)]
        operand_out(4) [OF o b(2) i(1)] operand_out(4) [OF o b(2) i(2)] b(3,4) by simp_all
    then show ?thesis using k s nelem_unat [OF operand_in(1) [OF o i(1)]]
      by (elim disjE) (simp_all add: exec_kind_def kind_check_def kind_value_def op_kinds bad Let_def)
  qed
  moreover have "runs F ok g mp region p env m" if "\<not> binary_shape g (inputs p) (outputs p)"
    using k that by (elim disjE) (simp_all add: exec_kind_def kind_check_def op_kinds bad Let_def)
  ultimately show ?thesis by blast
qed

lemma unary_runs:
  assumes o: "operands m g mp region p env" "all_f32 g p"
    and k: "kind p = PAI_OP_RELU \<or> kind p = PAI_OP_SOFTMAX \<or> kind p = PAI_OP_SILU \<or> kind p = PAI_OP_LAYERNORM \<or>
      kind p = PAI_OP_COPY \<or> kind p = PAI_OP_RESHAPE"
  shows "runs F ok g mp region p env m"
proof -
  have bad: "unary_bad g (inputs p) (outputs p) = (\<not> unary_shape g (inputs p) (outputs p))"
    using operand_in(1) [OF o] operand_out(1) [OF o] nelem_eq_iff by (auto simp: unary_shape_def unary_bad_def)
  have "runs F ok g mp region p env m" if s: "unary_shape g (inputs p) (outputs p)"
  proof -
    have b: "length (inputs p) = 1" "length (outputs p) = 1" "vlen g (outputs p ! 0) = vlen g (inputs p ! 0)"
      using s by (simp_all add: unary_shape_def)
    have i: "0 < length (inputs p)" using b by simp
    note in0 = operand_in [OF o i]
    have c: "value_ptr mp region (outputs p ! 0) + 4 * vlen g (inputs p ! 0) \<le> length m"
      "clear (value_ptr mp region (inputs p ! 0)) (vlen g (inputs p ! 0)) (value_ptr mp region (outputs p ! 0)) (vlen g (inputs p ! 0))"
      "value_ptr mp region (inputs p ! 0) \<noteq> 0" "value_ptr mp region (outputs p ! 0) \<noteq> 0" "vlen g (inputs p ! 0) \<noteq> 0"
      using in0(4) operand_out(2,3) [OF o b(2)] operand_out(4) [OF o b(2) i] b(3) vlen_pos [OF in0(1)] by simp_all
    note eqs = vec1_correct [OF in0(2,3) c(1-4)] softmax_correct [OF in0(2,3) c] layernorm_correct [OF in0(2,3) c]
      copy_correct [OF in0(2,3) c]
    show ?thesis using k s nelem_unat [OF in0(1)]
      by (elim disjE) (simp_all add: exec_kind_def kind_check_def kind_value_def op_kinds bad Let_def eqs)
  qed
  moreover have "runs F ok g mp region p env m" if "\<not> unary_shape g (inputs p) (outputs p)"
    using k that by (elim disjE) (simp_all add: exec_kind_def kind_check_def op_kinds bad Let_def)
  ultimately show ?thesis by blast
qed


lemma nat_prod_ranks:
  "length sh = 1 \<Longrightarrow> nat_prod sh = unat (sh ! 0)"
  "length sh = 2 \<Longrightarrow> nat_prod sh = unat (sh ! 0) * unat (sh ! 1)"
  "length sh = 3 \<Longrightarrow> nat_prod sh = unat (sh ! 0) * unat (sh ! 1) * unat (sh ! 2)"
  by (auto simp: length_Suc_conv numeral_eq_Suc)

lemma dims_pos:
  assumes "f32_value g v" "i < vrank (val_of g v)"
  shows "0 < unat (vdim (val_of g v) i)"
proof -
  have "vdim (val_of g v) i \<in> set (vshape (val_of g v))" using assms(2) by simp
  then have "vdim (val_of g v) i \<noteq> 0" using assms(1) by (metis f32_value_def)
  then show ?thesis by (simp add: unat_gt_0)
qed

lemma gemm_dims_lens:
  assumes "gemm_dims (val_of g a) (val_of g b) (val_of g c) is_gemv = Some (r, n, k)"
    and f: "f32_value g a" "f32_value g b" "f32_value g c"
  shows "vlen g a = unat r * unat k" "vlen g b = unat k * unat n" "vlen g c = unat r * unat n"
    "unat r \<noteq> 0" "unat n \<noteq> 0" "unat k \<noteq> 0"
  using assms(1) dims_pos [OF f(1), of 0] dims_pos [OF f(1), of 1] dims_pos [OF f(2), of 0] dims_pos [OF f(2), of 1] nat_prod_ranks
  unfolding gemm_dims_def vlen_def by (auto split: if_splits simp del: One_nat_def length_greater_0_conv)

lemma gemm_runs:
  assumes o: "operands m g mp region p env" "all_f32 g p"
    and k: "kind p = PAI_OP_GEMM \<or> kind p = PAI_OP_MATMUL \<or> kind p = PAI_OP_GEMV"
  shows "runs F ok g mp region p env m"
proof (cases "length (inputs p) = 2 \<and> length (outputs p) = 1")
  case True
  then have i: "0 < length (inputs p)" "1 < length (inputs p)" and out: "length (outputs p) = 1" by simp_all
  have "run_gemm F g mp region (inputs p ! 0) (inputs p ! 1) (outputs p ! 0) is_gemv m =
      outcome m (value_ptr mp region (outputs p ! 0)) (guard (gemm_shape g (inputs p) (outputs p) is_gemv \<noteq> None))
        (case the (gemm_shape g (inputs p) (outputs p) is_gemv) of (r, n, d) \<Rightarrow>
           gemm_spec F r n d (env (inputs p ! 0)) (env (inputs p ! 1)))" for is_gemv
  proof (cases "gemm_dims (val_of g (inputs p ! 0)) (val_of g (inputs p ! 1)) (val_of g (outputs p ! 0)) is_gemv")
    case None
    then show ?thesis using True by (simp add: run_gemm_def gemm_shape_def)
  next
    case (Some d)
    obtain r n k where d: "d = (r, n, k)" by (cases d) auto
    note l = gemm_dims_lens [OF Some [unfolded d] operand_in(1) [OF o i(1)] operand_in(1) [OF o i(2)] operand_out(1) [OF o out]]
    have "pai_ref_gemm_f32 F (unat r) (unat n) (unat k) (value_ptr mp region (inputs p ! 0)) (value_ptr mp region (inputs p ! 1))
        (value_ptr mp region (outputs p ! 0)) m = done_with m (value_ptr mp region (outputs p ! 0))
          (gemm_spec F (unat r) (unat n) (unat k) (env (inputs p ! 0)) (env (inputs p ! 1)))"
      by (rule gemm_correct [OF operand_in(2) [OF o i(1)] _ operand_in(2) [OF o i(2)]])
        (use l operand_in(3,4) [OF o i(1)] operand_in(3,4) [OF o i(2)] operand_out(2,3) [OF o out] operand_out(4) [OF o out i(1)] operand_out(4) [OF o out i(2)] in \<open>simp_all\<close>)
    then show ?thesis using True Some d by (simp add: run_gemm_def gemm_shape_def)
  qed
  from this [of True] this [of False] show ?thesis
    using k True by (elim disjE) (simp_all add: exec_kind_def kind_check_def kind_value_def op_kinds Let_def)
next
  case False
  then have "gemm_shape g (inputs p) (outputs p) b = None" for b by (auto simp: gemm_shape_def)
  then show ?thesis using k False by (elim disjE) (auto simp: exec_kind_def kind_check_def op_kinds Let_def)
qed

lemma concat_runs:
  assumes o: "operands m g mp region p env" "all_f32 g p" and k: "kind p = PAI_OP_CONCAT"
  shows "runs F ok g mp region p env m"
proof (cases "length (inputs p) = 2 \<and> length (outputs p) = 1")
  case True
  then have i: "0 < length (inputs p)" "1 < length (inputs p)" and out: "length (outputs p) = 1" by simp_all
  note a = operand_in [OF o i(1)] and b = operand_in [OF o i(2)] and c = operand_out [OF o out]
  have small: "vlen g (inputs p ! 0) + vlen g (inputs p ! 1) < 2 ^ 64"
    using a(1) b(1) by (simp add: f32_value_def)
  then have "unat (value_nelem g (inputs p ! 0) + value_nelem g (inputs p ! 1)) = vlen g (inputs p ! 0) + vlen g (inputs p ! 1)"
    using nelem_unat [OF a(1)] nelem_unat [OF b(1)] by (simp add: unat_word_ariths)
  then have nc: "value_nelem g (outputs p ! 0) = value_nelem g (inputs p ! 0) + value_nelem g (inputs p ! 1) \<longleftrightarrow>
      vlen g (outputs p ! 0) = vlen g (inputs p ! 0) + vlen g (inputs p ! 1)"
    using nelem_unat [OF c(1)] by (metis word_unat_eq_iff)
  have "exec_concat g mp region (inputs p) (outputs p) m =
      outcome m (value_ptr mp region (outputs p ! 0)) (guard (concat_shape g (inputs p) (outputs p))) (env (inputs p ! 0) @ env (inputs p ! 1))"
  proof (cases "concat_shape g (inputs p) (outputs p)")
    case s: True
    have "pai_ref_concat_f32 (value_ptr mp region (inputs p ! 0)) (value_ptr mp region (inputs p ! 1)) (value_ptr mp region (outputs p ! 0))
        (vlen g (inputs p ! 0)) (vlen g (inputs p ! 1)) m =
        done_with m (value_ptr mp region (outputs p ! 0)) (env (inputs p ! 0) @ env (inputs p ! 1))"
      by (rule concat_correct [OF a(2) b(2)])
        (use s a(3,4) b(3,4) c(2,3) c(4) [OF i(1)] c(4) [OF i(2)] in \<open>simp_all add: concat_shape_def\<close>)
    then show ?thesis
      using s True nc nelem_unat [OF a(1)] nelem_unat [OF b(1)] unfolding exec_concat_def Let_def
      by (auto simp: concat_shape_def)
  next
    case False
    then show ?thesis using True nc unfolding exec_concat_def Let_def by (auto simp: concat_shape_def)
  qed
  then show ?thesis using k by (simp add: exec_kind_def kind_check_def kind_value_def op_kinds Let_def)
next
  case False
  then have "\<not> concat_shape g (inputs p) (outputs p)" by (auto simp: concat_shape_def)
  then show ?thesis using k False by (auto simp: exec_kind_def kind_check_def op_kinds Let_def exec_concat_def)
qed

lemma convert_runs:
  assumes o: "operands m g mp region p env" "all_f32 g p" and k: "kind p = PAI_OP_CONVERT"
    and same: "length (inputs p) = 1 \<Longrightarrow> length (outputs p) = 1 \<Longrightarrow> vlen g (outputs p ! 0) = vlen g (inputs p ! 0)"
  shows "runs F ok g mp region p env m"
proof (cases "length (inputs p) = 1 \<and> length (outputs p) = 1")
  case True
  then have i: "0 < length (inputs p)" and out: "length (outputs p) = 1" by simp_all
  note a = operand_in [OF o i] and c = operand_out [OF o out]
  have "pai_ref_copy_f32 (value_ptr mp region (inputs p ! 0)) (value_ptr mp region (outputs p ! 0)) (vlen g (inputs p ! 0)) m =
      done_with m (value_ptr mp region (outputs p ! 0)) (env (inputs p ! 0))"
    by (rule copy_correct [OF a(2,3)]) (use a(4) c(2,3) c(4) [OF i] same True vlen_pos [OF a(1)] in simp_all)
  moreover have "vdtype (val_of g (inputs p ! 0)) = vdtype (val_of g (outputs p ! 0))"
    using o(2) i out by (simp add: all_f32_def)
  ultimately show ?thesis
    using k True nelem_unat [OF a(1)] by (simp add: exec_kind_def kind_check_def kind_value_def op_kinds Let_def)
next
  case False
  then show ?thesis using k by (auto simp: exec_kind_def kind_check_def op_kinds Let_def unsupported_def)
qed


lemma shape_eqs:
  "length xs = 1 \<Longrightarrow> xs = ys \<longleftrightarrow> length ys = 1 \<and> ys ! 0 = xs ! 0"
  "length xs = 2 \<Longrightarrow> xs = ys \<longleftrightarrow> length ys = 2 \<and> ys ! 0 = xs ! 0 \<and> ys ! 1 = xs ! 1"
  "length xs = 3 \<Longrightarrow> xs = ys \<longleftrightarrow> length ys = 3 \<and> ys ! 0 = xs ! 0 \<and> ys ! 1 = xs ! 1 \<and> ys ! 2 = xs ! 2"
  by (auto simp: length_Suc_conv numeral_eq_Suc)

lemma chunk_arr:
  assumes "arr m a xs" "length xs = rows * cols" "r < rows"
  shows "arr m (a + 4 * (r * cols)) (chunk cols xs r)" "length (chunk cols xs r) = cols"
proof -
  have le: "r * cols + cols \<le> rows * cols" using assms(3) by (metis Suc_leI mult_Suc add.commute mult_le_mono1)
  then show len: "length (chunk cols xs r) = cols" using assms(2) by (simp add: chunk_def)
  have "ldf m (a + 4 * (r * cols) + 4 * i) = Some (chunk cols xs r ! i)" if "i < cols" for i
  proof -
    have "r * cols \<le> length xs" using le assms(2) by linarith
    then show ?thesis
      using arr_ldf [OF assms(1), of "r * cols + i"] that le assms(2) by (simp add: chunk_def add.assoc)
  qed
  then show "arr m (a + 4 * (r * cols)) (chunk cols xs r)"
    using arr_bound [OF assms(1)] le assms(2) by (simp add: arr_def len)
qed

lemma row_loop_blocks:
  assumes n: "n \<noteq> 0" and c: "c + 4 * (w * n) \<le> length m"
    and step: "\<And>i m'. i < n \<Longrightarrow> same_outside m c (w * n) m' \<Longrightarrow> f i m' = done_with m' (c + 4 * (w * i)) (G i)"
    and len: "\<And>i. i < n \<Longrightarrow> length (G i) = w"
  shows "row_loop f 0 n m = done_with m c (concat (map G [0 ..< n]))"
proof -
  have "row_loop f j k (wrf m c (concat (map G [0 ..< j]))) = done_with m c (concat (map G [0 ..< n]))"
    if "j + k = n" "k \<noteq> 0" for j k
    using that
  proof (induction k arbitrary: j)
    case (Suc k)
    let ?xs = "concat (map G [0 ..< j])"
    have l: "length ?xs = w * j" using length_concat_const [of "[0 ..< j]" G w] len Suc.prems(1) by (simp add: mult.commute)
    have le: "w * j + w \<le> w * n"
      using Suc.prems(1) mult_le_mono2 [of "Suc j" n w] by simp
    have "c + 4 * length ?xs \<le> c + 4 * (w * n)" using l le by linarith
    then have "same_outside m c (w * n) (wrf m c ?xs)" using c by (intro same_outside_wrf) simp_all
    then have "f j (wrf m c ?xs) = done_with (wrf m c ?xs) (c + 4 * (w * j)) (G j)" using step [of j] Suc.prems(1) by simp
    moreover have "wrf (wrf m c ?xs) (c + 4 * (w * j)) (G j) = wrf m c (concat (map G [0 ..< Suc j]))"
      using wrf_append [of c ?xs "G j" m] l le c len [of j] Suc.prems(1) by simp
    ultimately show ?case
      using Suc.IH [of "Suc j"] Suc.prems(1) by (cases "k = 0") (auto simp: done_with_def)
  qed simp
  from this [of 0 n] show ?thesis using n by simp
qed

lemma rms_shape_checks:
  assumes i: "length (inputs p) = 1 \<or> length (inputs p) = 2" "length (outputs p) = 1"
  shows "rms_shape g (inputs p) (outputs p) = Some (rows, cols) \<Longrightarrow> f32_value g (inputs p ! 0) \<Longrightarrow>
    vlen g (inputs p ! 0) = rows * cols \<and> vlen g (outputs p ! 0) = rows * cols \<and> rows \<noteq> 0 \<and> cols \<noteq> 0 \<and>
    (length (inputs p) = 2 \<longrightarrow> vlen g (inputs p ! 1) = cols)"
  using dims_pos [of g "inputs p ! 0" 0] dims_pos [of g "inputs p ! 0" 1] nat_prod_ranks(1,2)
  by (auto simp: rms_shape_def Let_def vlen_def split: if_splits simp del: length_greater_0_conv)

lemma rms_shape_None:
  fixes g ins outs
  defines "a \<equiv> val_of g (ins ! 0)" and "c \<equiv> val_of g (outs ! 0)"
  assumes "rms_shape g ins outs = None"
  shows "(length ins < 1 \<or> length ins > 2 \<or> length outs \<noteq> 1 \<or> vrank a < 1 \<or> vrank a > 2) \<or>
    (vrank c \<noteq> vrank a \<or> vdim c (vrank a - 1) \<noteq> vdim a (vrank a - 1) \<or> vrank a = 2 \<and> vdim c 0 \<noteq> (if vrank a = 2 then vdim a 0 else 1)) \<or>
    (length ins = 2 \<and> (vrank (val_of g (ins ! 1)) \<noteq> 1 \<or> vdim (val_of g (ins ! 1)) 0 \<noteq> vdim a (vrank a - 1)))"
proof (rule ccontr)
  assume n: "\<not> ?thesis"
  then have r: "vrank a = 1 \<or> vrank a = 2" and l: "length ins = 1 \<or> length ins = 2" "length outs = 1" by linarith+
  have s: "vshape c = vshape a" using r n by (elim disjE) (auto simp: shape_eqs)
  have "length ins = 2 \<Longrightarrow> vshape (val_of g (ins ! 1)) = [vdim a (vrank a - 1)]"
    using n by (auto simp: length_Suc_conv)
  then show False using assms(3) r l s by (auto simp: rms_shape_def Let_def a_def c_def)
qed

lemma if_Some_D: "(if C then Some x else None) = Some y \<Longrightarrow> C \<and> x = y"
  by (auto split: if_splits)

lemma rms_shape_Some:
  fixes g ins outs
  defines "a \<equiv> val_of g (ins ! 0)" and "c \<equiv> val_of g (outs ! 0)"
  assumes "rms_shape g ins outs = Some (rows, cols)"
  shows "\<not> (length ins < 1 \<or> length ins > 2 \<or> length outs \<noteq> 1 \<or> vrank a < 1 \<or> vrank a > 2)"
    "\<not> (vrank c \<noteq> vrank a \<or> vdim c (vrank a - 1) \<noteq> vdim a (vrank a - 1) \<or> vrank a = 2 \<and> vdim c 0 \<noteq> (if vrank a = 2 then vdim a 0 else 1))"
    "length ins = 2 \<Longrightarrow> \<not> (vrank (val_of g (ins ! 1)) \<noteq> 1 \<or> vdim (val_of g (ins ! 1)) 0 \<noteq> vdim a (vrank a - 1))"
    "rows = unat (if vrank a = 2 then vdim a 0 else 1)" "cols = unat (vdim a (vrank a - 1))"
proof -
  note d = if_Some_D [OF assms(3) [unfolded rms_shape_def Let_def], folded a_def c_def]
  note C = d [THEN conjunct1]
  show "rows = unat (if vrank a = 2 then vdim a 0 else 1)" "cols = unat (vdim a (vrank a - 1))"
    using d [THEN conjunct2] by simp_all
  show "\<not> (length ins < 1 \<or> length ins > 2 \<or> length outs \<noteq> 1 \<or> vrank a < 1 \<or> vrank a > 2)"
    using C by linarith
  show "\<not> (vrank c \<noteq> vrank a \<or> vdim c (vrank a - 1) \<noteq> vdim a (vrank a - 1) \<or> vrank a = 2 \<and> vdim c 0 \<noteq> (if vrank a = 2 then vdim a 0 else 1))"
    using C by simp
  show "length ins = 2 \<Longrightarrow> \<not> (vrank (val_of g (ins ! 1)) \<noteq> 1 \<or> vdim (val_of g (ins ! 1)) 0 \<noteq> vdim a (vrank a - 1))"
    using C by simp
qed

lemma nested_guard:
  "D \<or> E \<or> (b \<and> C) \<Longrightarrow> (if D then x else if E then x else if b then (if C then x else y) else z) = x"
  by auto

lemma rmsnorm_runs:
  assumes o: "operands m g mp region p env" "all_f32 g p" and k: "kind p = PAI_OP_RMSNORM"
  shows "runs F ok g mp region p env m"
proof -
  let ?a = "value_ptr mp region (inputs p ! 0)" and ?c = "value_ptr mp region (outputs p ! 0)"
  let ?x = "env (inputs p ! 0)" and ?y = "env (inputs p ! 1)"
  have "exec_rmsnorm F g mp region (inputs p) (outputs p) m =
      outcome m ?c (guard (rms_shape g (inputs p) (outputs p) \<noteq> None))
        (case the (rms_shape g (inputs p) (outputs p)) of (rows, cols) \<Rightarrow>
           concat (map (\<lambda>r. if length (inputs p) = 2 then rmsnorm_gamma_spec F f0 ?y (chunk cols ?x r)
                            else rmsnorm_spec F f0 (chunk cols ?x r)) [0 ..< rows]))"
  proof (cases "rms_shape g (inputs p) (outputs p)")
    case None
    have "exec_rmsnorm F g mp region (inputs p) (outputs p) m = mismatch m"
      unfolding exec_rmsnorm_def Let_def by (rule nested_guard [OF rms_shape_None [OF None]])
    then show ?thesis by (simp add: None)
  next
    case (Some rc)
    obtain rows cols where rc: "rc = (rows, cols)" by (cases rc)
    have l: "length (inputs p) = 1 \<or> length (inputs p) = 2" "length (outputs p) = 1"
      using Some unfolding rms_shape_def Let_def by (auto split: if_splits)
    have i: "0 < length (inputs p)" using l(1) by auto
    note a = operand_in [OF o i] and c = operand_out [OF o l(2)]
    have s: "vlen g (inputs p ! 0) = rows * cols" "vlen g (outputs p ! 0) = rows * cols" "rows \<noteq> 0" "cols \<noteq> 0"
      "length (inputs p) = 2 \<Longrightarrow> vlen g (inputs p ! 1) = cols"
      using rms_shape_checks [OF l Some [unfolded rc] a(1)] by simp_all
    let ?f = "\<lambda>r. if length (inputs p) = 2 then pai_ref_rmsnorm_gamma_f32 F (?a + 4 * (r * cols)) (?c + 4 * (r * cols)) cols
                 (value_ptr mp region (inputs p ! 1)) f0
               else pai_ref_rmsnorm_f32 F (?a + 4 * (r * cols)) (?c + 4 * (r * cols)) cols f0"
    let ?G = "\<lambda>r. if length (inputs p) = 2 then rmsnorm_gamma_spec F f0 ?y (chunk cols ?x r) else rmsnorm_spec F f0 (chunk cols ?x r)"
    have "row_loop ?f 0 rows m = done_with m ?c (concat (map ?G [0 ..< rows]))"
    proof (rule row_loop_blocks [where w = cols])
      show "?c + 4 * (cols * rows) \<le> length m" using c(2) s(2) by (simp add: mult.commute)
      fix r assume r: "r < rows"
      note ch = chunk_arr [OF a(2) a(3) [unfolded s(1)] r]
      show "length (?G r) = cols" using ch(2) l s(5) operand_in(3) [OF o, of 1]
        by (auto simp: rmsnorm_gamma_spec_def rmsnorm_spec_def)
      fix m' assume so: "same_outside m ?c (cols * rows) m'"
      have le: "r * cols + cols \<le> rows * cols" using r by (metis Suc_leI mult_Suc add.commute mult_le_mono1)
      have cl: "clear (?a + 4 * (r * cols)) cols (?c + 4 * (r * cols)) cols"
        "clear (?a + 4 * (r * cols)) cols ?c (cols * rows)"
        using c(4) [OF i] le unfolding s(1,2) clear_def mult.commute [of cols rows] by linarith+
      have ar: "arr m' (?a + 4 * (r * cols)) (chunk cols ?x r)"
        using arr_outside [OF ch(1) so] cl(2) ch(2) by simp
      have b: "?c + 4 * (r * cols) + 4 * cols \<le> length m'" using c(2) s(2) le so by simp
      have ptr: "?a + 4 * (r * cols) \<noteq> 0" "?c + 4 * (r * cols) \<noteq> 0" using a(4) c(3) by simp_all
      show "?f r m' = done_with m' (?c + 4 * (cols * r)) (?G r)"
      proof (cases "length (inputs p) = 2")
        case True
        then have i1: "1 < length (inputs p)" by simp
        note g1 = operand_in [OF o i1]
        have "arr m' (value_ptr mp region (inputs p ! 1)) ?y"
          using arr_outside [OF g1(2) so] c(4) [OF i1] g1(3) s(2) by (simp add: mult.commute)
        moreover have "clear (value_ptr mp region (inputs p ! 1)) cols (?c + 4 * (r * cols)) cols"
          using c(4) [OF i1] le unfolding s(2) s(5) [OF True] clear_def by linarith
        ultimately show ?thesis
          using rmsnorm_gamma_correct [OF ar _ ch(2), of "value_ptr mp region (inputs p ! 1)" ?y "?c + 4 * (r * cols)" F f0]
            True g1(3,4) s(4) s(5) [OF True] b cl ptr by (simp add: mult.commute)
      next
        case False
        then show ?thesis
          using rmsnorm_correct [OF ar ch(2) b cl(1) ptr s(4), of F f0] by (simp add: mult.commute)
      qed
    qed (use s in simp)
    moreover have "exec_rmsnorm F g mp region (inputs p) (outputs p) m = row_loop ?f 0 rows m"
    proof -
      note t = rms_shape_Some [OF Some [unfolded rc]]
      show ?thesis
        unfolding exec_rmsnorm_def Let_def if_not_P [OF t(1)] if_not_P [OF t(2)] t(4,5) [symmetric]
        using t(3) by (cases "length (inputs p) = 2") (simp_all only: if_True if_False simp_thms)
    qed
    ultimately show ?thesis by (simp add: Some rc)
  qed
  then show ?thesis using k by (simp add: exec_kind_def kind_check_def kind_value_def op_kinds Let_def del: One_nat_def)
qed

lemma unat_nonzero: "unat x \<noteq> 0 \<Longrightarrow> x \<noteq> 0"
  by auto

lemma dim_le_vlen:
  assumes "f32_value g v" "i < vrank (val_of g v)"
  shows "unat (vdim (val_of g v) i) \<le> vlen g v"
proof -
  have "\<And>x. x \<in> set sh \<Longrightarrow> 0 \<notin> set sh \<Longrightarrow> unat x \<le> nat_prod sh" for sh :: "u64 list"
  proof (induction sh)
    case (Cons d ds)
    then have "0 < nat_prod ds" "0 < unat d" using nat_prod_pos [of ds] by (auto simp: unat_gt_0)
    then have "nat_prod ds \<le> unat d * nat_prod ds" "unat d \<le> unat d * nat_prod ds" by simp_all
    moreover have "unat x \<le> nat_prod ds \<or> x = d" using Cons by auto
    ultimately show ?case using order_trans by (metis nat_prod_simps(2))
  qed simp
  then show ?thesis using assms nth_mem by (simp add: vlen_def f32_value_def)
qed

lemma guards_mismatch:
  "(if C1 then mismatch m else if C2 then mismatch m else if C3 then mismatch m else if C4 then mismatch m else r) =
     (if \<not> C1 \<and> \<not> C2 \<and> \<not> C3 \<and> \<not> C4 then r else mismatch m)"
  by simp

lemma if_conj_mismatch:
  "(if \<not> C1 \<and> \<not> C2 then r else mismatch m) = (if C1 then mismatch m else if C2 then mismatch m else r)"
  by simp

lemma rope_runs:
  assumes o: "operands m g mp region p env" "all_f32 g p" and k: "kind p = PAI_OP_ROPE"
  shows "runs F ok g mp region p env m"
proof (cases "length (inputs p) = 3 \<and> length (outputs p) = 1")
  case True
  then have i: "0 < length (inputs p)" "1 < length (inputs p)" "2 < length (inputs p)" and out: "length (outputs p) = 1" by simp_all
  define a co si c where "a = val_of g (inputs p ! 0)" and "co = val_of g (inputs p ! 1)" and "si = val_of g (inputs p ! 2)"
    and "c = val_of g (outputs p ! 0)"
  note x = operand_in [OF o i(1)] and ct = operand_in [OF o i(2)] and st = operand_in [OF o i(3)] and w = operand_out [OF o out]
  have vl: "vlen g (inputs p ! 0) = nat_prod (vshape a)" "vlen g (inputs p ! 1) = nat_prod (vshape co)"
    "vlen g (inputs p ! 2) = nat_prod (vshape si)" "vlen g (outputs p ! 0) = nat_prod (vshape c)"
    by (simp_all only: vlen_def a_def co_def si_def c_def)
  let ?hd = "vdim a (vrank a - 1)" and ?heads = "if vrank a = 3 then vdim a 1 else 1" and ?nc = "value_nelem g (outputs p ! 0)"
  let ?C1 = "vrank a < 2 \<or> vrank a > 3 \<or> vrank c \<noteq> vrank a"
  let ?C2 = "vdim c (vrank a - 1) \<noteq> ?hd \<or> vdim c 0 \<noteq> vdim a 0 \<or> vrank a = 3 \<and> vdim c 1 \<noteq> ?heads"
  let ?C3 = "vrank co \<noteq> 2 \<or> vrank si \<noteq> 2 \<or> vdim co 1 \<noteq> vdim si 1 \<or> vdim co 0 \<noteq> vdim si 0"
  let ?C4 = "2 * vdim co 1 > ?hd \<or> vdim a 0 = 0 \<or> vdim a 0 > vdim co 0 \<or> ?hd = 0 \<or> ?heads = 0 \<or> ?nc mod ?hd \<noteq> 0"
  let ?S = "(vrank a = 2 \<or> vrank a = 3) \<and> vshape c = vshape a \<and> vrank co = 2 \<and> vshape si = vshape co \<and>
      2 * unat (vdim co 1) \<le> unat ?hd \<and> vdim a 0 \<le> vdim co 0"
  have shape: "rope_shape g (inputs p) (outputs p) =
      (if ?S then Some (unat (vdim a 0), unat ?heads, unat ?hd, unat (vdim co 1)) else None)"
    using True unfolding rope_shape_def Let_def a_def co_def si_def c_def by simp
  have dbl: "unat (2 * vdim co 1) = 2 * unat (vdim co 1)" if "vrank co = 2"
  proof -
    have "4 * unat (vdim co 1) < 2 ^ 64"
      using dim_le_vlen [OF ct(1), of 1] ct(1) that by (simp add: f32_value_def co_def)
    then show ?thesis by (simp add: unat_word_ariths)
  qed
  have lens: "vlen g (inputs p ! 0) = unat (vdim a 0) * unat ?heads * unat ?hd \<and> unat (vdim a 0) \<noteq> 0 \<and> unat ?heads \<noteq> 0 \<and> unat ?hd \<noteq> 0"
    if "vrank a = 2 \<or> vrank a = 3"
    using that dims_pos [OF x(1), of 0, folded a_def] dims_pos [OF x(1), of 1, folded a_def] dims_pos [OF x(1), of 2, folded a_def]
      nat_prod_ranks(2,3) [of "vshape a"]
    by (elim disjE) (simp_all add: vl)
  have conds: "\<not> ?C1 \<and> \<not> ?C2 \<and> \<not> ?C3 \<and> \<not> ?C4 \<longleftrightarrow> ?S"
  proof
    assume n: "\<not> ?C1 \<and> \<not> ?C2 \<and> \<not> ?C3 \<and> \<not> ?C4"
    then have r: "vrank a = 2 \<or> vrank a = 3" by linarith
    have "vshape c = vshape a" using r n by (elim disjE) (simp_all add: shape_eqs)
    moreover have "vshape si = vshape co" using n by (simp add: shape_eqs)
    moreover have "\<not> 2 * vdim co 1 > ?hd" "vrank co = 2" using n by blast+
    then have "2 * unat (vdim co 1) \<le> unat ?hd" using dbl by (metis not_less word_le_nat_alt)
    moreover have "vdim a 0 \<le> vdim co 0" using n not_less by blast
    ultimately show ?S using n r by simp
  next
    assume s: ?S
    have "unat ?nc = unat (vdim a 0) * unat ?heads * unat ?hd"
      using nelem_unat [OF w(1)] lens s by (simp add: vl)
    then have "unat (?nc mod ?hd) = 0" by (simp add: unat_mod)
    then have "?nc mod ?hd = 0" by (simp add: unat_eq_0)
    moreover have "\<not> 2 * vdim co 1 > ?hd" using s dbl by (simp add: not_less word_le_nat_alt)
    moreover have u: "unat (vdim a 0) \<noteq> 0" "unat ?heads \<noteq> 0" "unat ?hd \<noteq> 0" using lens s by blast+
    note u [THEN unat_nonzero]
    ultimately show "\<not> ?C1 \<and> \<not> ?C2 \<and> \<not> ?C3 \<and> \<not> ?C4" using s by auto
  qed
  have run: "exec_rope F g mp region (inputs p) (outputs p) m =
      (if ?S then pai_ref_rope_f32 F (value_ptr mp region (inputs p ! 0)) (unat (?nc div ?hd)) (unat ?hd) (unat (vdim a 0))
         (unat ?heads) (value_ptr mp region (inputs p ! 1)) (value_ptr mp region (inputs p ! 2)) (unat (vdim co 1))
         (value_ptr mp region (outputs p ! 0)) m else mismatch m)"
    unfolding conds [symmetric] guards_mismatch [symmetric] exec_rope_def Let_def
    by (simp only: True simp_thms flip: a_def co_def si_def c_def)
  have ker: "pai_ref_rope_f32 F (value_ptr mp region (inputs p ! 0)) (unat (?nc div ?hd)) (unat ?hd) (unat (vdim a 0))
         (unat ?heads) (value_ptr mp region (inputs p ! 1)) (value_ptr mp region (inputs p ! 2)) (unat (vdim co 1))
         (value_ptr mp region (outputs p ! 0)) m =
      done_with m (value_ptr mp region (outputs p ! 0)) (rope_spec F (unat (vdim a 0) * unat ?heads) (unat ?hd) (unat ?heads) (unat (vdim co 1))
         (env (inputs p ! 0)) (env (inputs p ! 1)) (env (inputs p ! 2)))" if s: ?S
  proof -
    let ?rows = "unat (vdim a 0) * unat ?heads"
    have lx: "vlen g (inputs p ! 0) = ?rows * unat ?hd" "unat (vdim a 0) \<noteq> 0" "unat ?heads \<noteq> 0" "unat ?hd \<noteq> 0" using lens s by simp_all
    have lw: "vlen g (outputs p ! 0) = ?rows * unat ?hd" using lx(1) s by (simp add: vl)
    have rows: "unat (?nc div ?hd) = ?rows" using nelem_unat [OF w(1)] lw lx(4) by (simp add: unat_div)
    have lt: "vlen g (inputs p ! 1) = unat (vdim co 0) * unat (vdim co 1)" "vlen g (inputs p ! 2) = unat (vdim co 0) * unat (vdim co 1)"
      using s nat_prod_ranks(2) [of "vshape co"] by (simp_all add: vl del: One_nat_def)
    have r2: "unat (vdim co 1) \<noteq> 0" "2 * unat (vdim co 1) < 2 ^ 64"
      using dims_pos [OF ct(1), of 1, folded co_def] s unsigned_less [of ?hd, where 'a = nat] by simp_all
    show ?thesis
      unfolding rows
      by (rule rope_correct [OF x(2) _ ct(2) st(2), where ctx = "unat (vdim co 0)"])
        (use x(3,4) ct(3,4) st(3,4) w(2,3) w(4) [OF i(1)] w(4) [OF i(2)] w(4) [OF i(3)] lx lw lt r2 s in
          \<open>simp_all add: word_le_nat_alt\<close>)
  qed
  have "exec_rope F g mp region (inputs p) (outputs p) m =
      outcome m (value_ptr mp region (outputs p ! 0)) (guard (rope_shape g (inputs p) (outputs p) \<noteq> None))
        (case the (rope_shape g (inputs p) (outputs p)) of (seq, heads, dm, r2) \<Rightarrow>
           rope_spec F (seq * heads) dm heads r2 (env (inputs p ! 0)) (env (inputs p ! 1)) (env (inputs p ! 2)))"
  proof (cases ?S)
    case s: True
    show ?thesis unfolding shape run if_P [OF s] ker [OF s] by simp
  next
    case s: False
    show ?thesis unfolding shape run if_not_P [OF s] by simp
  qed
  then show ?thesis
    using k by (simp add: exec_kind_def kind_check_def kind_value_def op_kinds Let_def del: One_nat_def)
next
  case False
  then have "rope_shape g (inputs p) (outputs p) = None" by (auto simp: rope_shape_def Let_def)
  then show ?thesis using k False
    by (auto simp: exec_kind_def kind_check_def op_kinds Let_def exec_rope_def)
qed


lemma attention_runs:
  assumes o: "operands m g mp region p env" "all_f32 g p" and k: "kind p = PAI_OP_ATTENTION"
  shows "runs F ok g mp region p env m"
proof (cases "length (inputs p) = 3 \<and> length (outputs p) = 1")
  case True
  then have i: "0 < length (inputs p)" "1 < length (inputs p)" "2 < length (inputs p)" and out: "length (outputs p) = 1" by simp_all
  define a b v c where "a = val_of g (inputs p ! 0)" and "b = val_of g (inputs p ! 1)" and "v = val_of g (inputs p ! 2)"
    and "c = val_of g (outputs p ! 0)"
  have vl: "vlen g (inputs p ! 0) = nat_prod (vshape a)" "vlen g (inputs p ! 1) = nat_prod (vshape b)"
    "vlen g (inputs p ! 2) = nat_prod (vshape v)" "vlen g (outputs p ! 0) = nat_prod (vshape c)"
    by (simp_all only: vlen_def a_def b_def v_def c_def)
  note x = operand_in [OF o i(1)] and y = operand_in [OF o i(2)] and z = operand_in [OF o i(3)] and w = operand_out [OF o out]
  let ?C1 = "vrank a \<noteq> 3 \<or> vrank b \<noteq> 3 \<or> vrank c \<noteq> 3"
  let ?C2 = "vdim b 0 \<noteq> vdim a 0 \<or> vdim b 2 \<noteq> vdim a 2 \<or> vrank v \<noteq> 3 \<or> vdim v 0 \<noteq> vdim a 0 \<or> vdim v 1 \<noteq> vdim b 1 \<or>
    vdim v 2 \<noteq> vdim a 2 \<or> vdim c 0 \<noteq> vdim a 0 \<or> vdim c 1 \<noteq> vdim a 1 \<or> vdim c 2 \<noteq> vdim a 2 \<or> vdim a 1 = 0 \<or> vdim b 1 = 0 \<or>
    vdim a 1 mod vdim b 1 \<noteq> 0"
  let ?S = "vrank a = 3 \<and> vshape c = vshape a \<and> vrank b = 3 \<and> vdim b 0 = vdim a 0 \<and> vdim b 2 = vdim a 2 \<and> vshape v = vshape b \<and>
      vdim a 1 mod vdim b 1 = 0"
  have shape: "attention_shape g (inputs p) (outputs p) =
      (if ?S then Some (unat (vdim a 1), unat (vdim b 1), unat (vdim a 0), unat (vdim a 2)) else None)"
    using True unfolding attention_shape_def Let_def a_def b_def v_def c_def by simp
  have pos: "unat (vdim a 0) \<noteq> 0 \<and> unat (vdim a 1) \<noteq> 0 \<and> unat (vdim a 2) \<noteq> 0 \<and> unat (vdim b 1) \<noteq> 0"
    if "vrank a = 3" "vrank b = 3"
    using that dims_pos [OF x(1), of 0, folded a_def] dims_pos [OF x(1), of 1, folded a_def] dims_pos [OF x(1), of 2, folded a_def]
      dims_pos [OF y(1), of 1, folded b_def] by simp
  have conds: "\<not> ?C1 \<and> \<not> ?C2 \<longleftrightarrow> ?S"
  proof
    assume n: "\<not> ?C1 \<and> \<not> ?C2"
    then have "vshape c = vshape a" "vshape v = vshape b" by (simp_all add: shape_eqs)
    then show ?S using n by simp
  next
    assume s: ?S
    then have "vdim a 1 \<noteq> 0" "vdim b 1 \<noteq> 0" using pos by (metis unsigned_0)+
    then show "\<not> ?C1 \<and> \<not> ?C2" using s by simp
  qed
  have run: "exec_attention F ok g mp region (inputs p) (outputs p) m =
      (if ?S then pai_ref_attention_f32 F ok (unat (vdim a 1)) (unat (vdim b 1)) (unat (vdim a 0)) (unat (vdim a 2))
         (value_ptr mp region (inputs p ! 0)) (value_ptr mp region (inputs p ! 1)) (value_ptr mp region (inputs p ! 2))
         (value_ptr mp region (outputs p ! 0)) m else mismatch m)"
    unfolding conds [symmetric] if_conj_mismatch exec_attention_def Let_def
    by (simp only: True simp_thms flip: a_def b_def v_def c_def)
  have ker: "pai_ref_attention_f32 F ok (unat (vdim a 1)) (unat (vdim b 1)) (unat (vdim a 0)) (unat (vdim a 2))
         (value_ptr mp region (inputs p ! 0)) (value_ptr mp region (inputs p ! 1)) (value_ptr mp region (inputs p ! 2))
         (value_ptr mp region (outputs p ! 0)) m =
      (if ok then done_with m (value_ptr mp region (outputs p ! 0)) (attention_spec F (unat (vdim a 1)) (unat (vdim b 1)) (unat (vdim a 0))
         (unat (vdim a 2)) (env (inputs p ! 0)) (env (inputs p ! 1)) (env (inputs p ! 2))) else Some (m, Inl PAI_ERR_NOMEM))" if s: ?S
  proof -
    have ps: "unat (vdim a 0) \<noteq> 0" "unat (vdim a 1) \<noteq> 0" "unat (vdim a 2) \<noteq> 0" "unat (vdim b 1) \<noteq> 0" using pos s by simp_all
    have l: "vlen g (inputs p ! 0) = unat (vdim a 0) * unat (vdim a 1) * unat (vdim a 2)"
      "vlen g (inputs p ! 1) = unat (vdim a 0) * unat (vdim b 1) * unat (vdim a 2)"
      "vlen g (inputs p ! 2) = unat (vdim a 0) * unat (vdim b 1) * unat (vdim a 2)"
      "vlen g (outputs p ! 0) = unat (vdim a 0) * unat (vdim a 1) * unat (vdim a 2)"
      using s nat_prod_ranks(3) [of "vshape a"] nat_prod_ranks(3) [of "vshape b"] by (simp_all add: vl del: One_nat_def)
    have md: "unat (vdim a 1) mod unat (vdim b 1) = 0" using s by (metis unat_mod unsigned_0)
    have "pai_ref_attention_f32 F True (unat (vdim a 1)) (unat (vdim b 1)) (unat (vdim a 0)) (unat (vdim a 2))
         (value_ptr mp region (inputs p ! 0)) (value_ptr mp region (inputs p ! 1)) (value_ptr mp region (inputs p ! 2))
         (value_ptr mp region (outputs p ! 0)) m = done_with m (value_ptr mp region (outputs p ! 0))
         (attention_spec F (unat (vdim a 1)) (unat (vdim b 1)) (unat (vdim a 0)) (unat (vdim a 2)) (env (inputs p ! 0)) (env (inputs p ! 1)) (env (inputs p ! 2)))"
      by (rule attention_correct [OF x(2) _ y(2) _ z(2)])
        (use x(3,4) y(3,4) z(3,4) w(2,3) w(4) [OF i(1)] w(4) [OF i(2)] w(4) [OF i(3)] l ps md in simp_all)
    moreover have "pai_ref_attention_f32 F False (unat (vdim a 1)) (unat (vdim b 1)) (unat (vdim a 0)) (unat (vdim a 2))
         (value_ptr mp region (inputs p ! 0)) (value_ptr mp region (inputs p ! 1)) (value_ptr mp region (inputs p ! 2))
         (value_ptr mp region (outputs p ! 0)) m = Some (m, Inl PAI_ERR_NOMEM)"
      using ps md x(4) y(4) z(4) w(3) by (simp add: pai_ref_attention_f32_def)
    ultimately show ?thesis by (cases ok) simp_all
  qed
  have "exec_attention F ok g mp region (inputs p) (outputs p) m =
      outcome m (value_ptr mp region (outputs p ! 0)) (if attention_shape g (inputs p) (outputs p) = None then Inl PAI_ERR_MISMATCH
          else if ok then Inr () else Inl PAI_ERR_NOMEM)
        (case the (attention_shape g (inputs p) (outputs p)) of (h, hk, seq, dm) \<Rightarrow>
           attention_spec F h hk seq dm (env (inputs p ! 0)) (env (inputs p ! 1)) (env (inputs p ! 2)))"
  proof (cases ?S)
    case s: True
    show ?thesis unfolding shape run if_P [OF s] ker [OF s] by simp
  next
    case s: False
    show ?thesis unfolding shape run if_not_P [OF s] by (simp add: mismatch_def)
  qed
  then show ?thesis
    using k by (simp add: exec_kind_def kind_check_def kind_value_def op_kinds Let_def del: One_nat_def)
next
  case False
  then have "attention_shape g (inputs p) (outputs p) = None" by (auto simp: attention_shape_def Let_def)
  then show ?thesis using k False
    by (auto simp: exec_kind_def kind_check_def op_kinds Let_def exec_attention_def mismatch_def)
qed

text \<open>A same-dtype \<open>CONVERT\<close> is a copy of the input's size; the sizes of its operands are not compared.\<close>

definition convert_sizes :: "pai_graph \<Rightarrow> pai_graph_op \<Rightarrow> bool" where
  "convert_sizes g p \<longleftrightarrow> (kind p = PAI_OP_CONVERT \<longrightarrow> length (inputs p) = 1 \<longrightarrow> length (outputs p) = 1 \<longrightarrow>
     vlen g (outputs p ! 0) = vlen g (inputs p ! 0))"

lemma exec_op_runs:
  assumes o: "operands m g mp region p env" and c: "convert_sizes g p"
  shows "exec_op F ok g mp region p m = outcome m (value_ptr mp region (outputs p ! 0)) (op_check ok g p) (op_value F g p env)"
proof (cases "all_f32 g p")
  case True
  have "runs F ok g mp region p env m"
  proof -
    consider "kind p = PAI_OP_ADD \<or> kind p = PAI_OP_MUL"
      | "kind p = PAI_OP_RELU \<or> kind p = PAI_OP_SOFTMAX \<or> kind p = PAI_OP_SILU \<or> kind p = PAI_OP_LAYERNORM \<or>
          kind p = PAI_OP_COPY \<or> kind p = PAI_OP_RESHAPE"
      | "kind p = PAI_OP_GEMM \<or> kind p = PAI_OP_MATMUL \<or> kind p = PAI_OP_GEMV"
      | "kind p = PAI_OP_CONCAT" | "kind p = PAI_OP_CONVERT" | "kind p = PAI_OP_RMSNORM" | "kind p = PAI_OP_ROPE"
      | "kind p = PAI_OP_ATTENTION"
      | (other) "kind p \<notin> {PAI_OP_ADD, PAI_OP_MUL, PAI_OP_RELU, PAI_OP_SOFTMAX, PAI_OP_SILU, PAI_OP_LAYERNORM, PAI_OP_COPY,
          PAI_OP_RESHAPE, PAI_OP_GEMM, PAI_OP_MATMUL, PAI_OP_GEMV, PAI_OP_CONCAT, PAI_OP_CONVERT, PAI_OP_RMSNORM, PAI_OP_ROPE,
          PAI_OP_ATTENTION}"
      by blast
    then show ?thesis
    proof cases
      case other
      then show ?thesis by (simp add: exec_kind_def kind_check_def Let_def unsupported_def)
    qed (use binary_runs unary_runs gemm_runs concat_runs convert_runs rmsnorm_runs rope_runs attention_runs o True c in
        \<open>simp_all add: convert_sizes_def\<close>)
  qed
  moreover have "exec_op F ok g mp region p m = exec_kind F ok g mp region (kind p) (inputs p) (outputs p) m"
    using True by (auto simp: exec_op_def all_f32_def)
  ultimately show ?thesis using True by (simp add: op_check_def op_value_def)
next
  case False
  then have "exec_op F ok g mp region p m = unsupported m" by (auto simp: exec_op_def all_f32_def)
  then show ?thesis using False by (simp add: op_check_def unsupported_def)
qed

lemma length_specs [simp]:
  "length (relu_spec F xs) = length xs" "length (silu_spec F xs) = length xs" "length (layernorm_spec F e xs) = length xs"
  "length (gemm_spec F r n k xs ys) = r * n" "length (rope_spec F rows dm h r2 xs cs ss) = rows * dm"
  "length (attention_spec F h hk seq dm qs ks vs) = seq * (h * dm)"
  "length (rmsnorm_spec F e xs) = length xs" "length (rmsnorm_gamma_spec F e gs xs) = min (length xs) (length gs)"
  by (simp_all add: relu_spec_def silu_spec_def layernorm_spec_def gemm_spec_def rope_spec_def attention_spec_def
      rmsnorm_spec_def rmsnorm_gamma_spec_def Let_def length_concat_const)

lemma rope_shape_len:
  assumes "rope_shape g ins outs = Some (seq, heads, dm, r2)"
  shows "length outs = 1 \<and> vlen g (outs ! 0) = seq * heads * dm"
proof -
  note d = if_Some_D [OF assms [unfolded rope_shape_def Let_def]]
  then have r: "vrank (val_of g (ins ! 0)) = 2 \<or> vrank (val_of g (ins ! 0)) = 3" by blast
  show ?thesis using r d nat_prod_ranks(2,3) [of "vshape (val_of g (ins ! 0))"]
    by (elim disjE) (auto simp: vlen_def)
qed

lemma attention_shape_len:
  assumes "attention_shape g ins outs = Some (h, hk, seq, dm)"
  shows "length outs = 1 \<and> vlen g (outs ! 0) = seq * (h * dm)"
  using if_Some_D [OF assms [unfolded attention_shape_def Let_def]] nat_prod_ranks(3) [of "vshape (val_of g (ins ! 0))"]
  by (auto simp: vlen_def)

lemma guard_Inr [simp]: "guard b = Inr () \<longleftrightarrow> b"
  by (simp add: guard_def)

lemma op_value_length:
  assumes o: "operands m g mp region p env" and c: "convert_sizes g p" and ok: "op_check ok g p = Inr ()"
  shows "all_f32 g p \<and> length (outputs p) = 1 \<and> length (op_value F g p env) = vlen g (outputs p ! 0)"
proof -
  have f: "all_f32 g p" and kc: "kind_check ok g (kind p) (inputs p) (outputs p) = Inr ()"
    using ok by (auto simp: op_check_def split: if_splits)
  note len = operand_in(3) [OF o f] and f1 = operand_in(1) [OF o f] and f2 = operand_out(1) [OF o f]
  have "length (outputs p) = 1 \<and> length (kind_value F g (kind p) (inputs p) (outputs p) env) = vlen g (outputs p ! 0)"
  proof -
    consider "kind p = PAI_OP_ADD \<or> kind p = PAI_OP_MUL"
      | "kind p = PAI_OP_RELU \<or> kind p = PAI_OP_SOFTMAX \<or> kind p = PAI_OP_SILU \<or> kind p = PAI_OP_LAYERNORM \<or>
          kind p = PAI_OP_COPY \<or> kind p = PAI_OP_RESHAPE"
      | "kind p = PAI_OP_GEMM \<or> kind p = PAI_OP_MATMUL \<or> kind p = PAI_OP_GEMV"
      | "kind p = PAI_OP_CONCAT" | "kind p = PAI_OP_CONVERT" | "kind p = PAI_OP_RMSNORM" | "kind p = PAI_OP_ROPE"
      | "kind p = PAI_OP_ATTENTION"
      using kc unfolding kind_check_def by (auto split: if_splits)
    then show ?thesis
    proof cases
      case 1
      then have "binary_shape g (inputs p) (outputs p)" using kc by (elim disjE) (simp_all add: kind_check_def op_kinds)
      then show ?thesis using 1 len [of 0] len [of 1]
        by (elim disjE) (simp_all add: binary_shape_def kind_value_def op_kinds Let_def)
    next
      case 2
      then have "unary_shape g (inputs p) (outputs p)" using kc by (elim disjE) (simp_all add: kind_check_def op_kinds)
      then show ?thesis using 2 len [of 0]
        by (elim disjE) (simp_all add: unary_shape_def kind_value_def op_kinds Let_def)
    next
      case 3
      then have "gemm_shape g (inputs p) (outputs p) (kind p = PAI_OP_GEMV) \<noteq> None"
        using kc by (elim disjE) (simp_all add: kind_check_def op_kinds)
      then obtain r n k where gd: "gemm_dims (val_of g (inputs p ! 0)) (val_of g (inputs p ! 1)) (val_of g (outputs p ! 0)) (kind p = PAI_OP_GEMV) = Some (r, n, k)"
        and l: "length (inputs p) = 2" "length (outputs p) = 1" by (auto simp: gemm_shape_def split: if_splits)
      have "vlen g (outputs p ! 0) = unat r * unat n"
        using gemm_dims_lens(3) [OF gd f1 f1 f2] l by simp
      then show ?thesis using 3 gd l by (elim disjE) (simp_all add: kind_value_def gemm_shape_def op_kinds Let_def)
    next
      case 4
      then show ?thesis using kc len [of 0] len [of 1] by (simp add: kind_check_def kind_value_def concat_shape_def op_kinds Let_def)
    next
      case 5
      then show ?thesis using kc c len [of 0]
        by (simp add: kind_check_def kind_value_def convert_sizes_def op_kinds Let_def split: if_splits del: length_greater_0_conv)
    next
      case 6
      then obtain rows cols where s: "rms_shape g (inputs p) (outputs p) = Some (rows, cols)"
        using kc by (auto simp: kind_check_def op_kinds)
      have l: "length (inputs p) = 1 \<or> length (inputs p) = 2" "length (outputs p) = 1"
        using rms_shape_Some(1) [OF s] by linarith+
      then have i: "0 < length (inputs p)" by auto
      have v: "vlen g (inputs p ! 0) = rows * cols" "vlen g (outputs p ! 0) = rows * cols"
        "length (inputs p) = 2 \<Longrightarrow> vlen g (inputs p ! 1) = cols"
        using rms_shape_checks [OF l s f1] i by simp_all
      have row: "length (if length (inputs p) = 2 then rmsnorm_gamma_spec F f0 (env (inputs p ! 1)) (chunk cols (env (inputs p ! 0)) r)
          else rmsnorm_spec F f0 (chunk cols (env (inputs p ! 0)) r)) = cols" if "r < rows" for r
        using chunk_arr(2) [OF operand_in(2) [OF o f i] len [OF i, unfolded v(1)] that] v(3) len [of 1] by simp
      show ?thesis
        using 6 s v(2) l(2) length_concat_const [of "[0 ..< rows]" "\<lambda>r. if length (inputs p) = 2
            then rmsnorm_gamma_spec F f0 (env (inputs p ! 1)) (chunk cols (env (inputs p ! 0)) r)
            else rmsnorm_spec F f0 (chunk cols (env (inputs p ! 0)) r)" cols] row
        by (simp add: kind_value_def op_kinds Let_def del: One_nat_def)
    next
      case 7
      then show ?thesis using kc rope_shape_len by (auto simp: kind_check_def kind_value_def op_kinds Let_def)
    next
      case 8
      then show ?thesis using kc attention_shape_len
        by (auto simp: kind_check_def kind_value_def op_kinds Let_def split: if_splits)
    qed
  qed
  then show ?thesis using f by (simp add: op_value_def)
qed

end
