(* ===== verification/Sched_Exec.thy ===== *)
theory Sched_Exec
  imports Sched_Ops
begin

text \<open>
  The executor of \<^verbatim>\<open>scheduler/scheduler.c\<close> on a whole graph: with the storage of the memory plan, in which values
  share bytes, a run computes the solution of the dataflow equations of the graph. The invariant is the one of
  liveness: before each step, every value that is still needed holds its contents in its place.
\<close>

section \<open>Congruence of values\<close>

lemma op_value_cong:
  assumes ok: "op_check ok g p = Inr ()" and eq: "\<And>v. v \<in> set (inputs p) \<Longrightarrow> env v = env' v"
  shows "op_value F g p env = op_value F g p env'"
proof -
  have kc: "kind_check ok g (kind p) (inputs p) (outputs p) = Inr ()"
    using ok by (auto simp: op_check_def split: if_splits)
  have e: "i < length (inputs p) \<Longrightarrow> env (inputs p ! i) = env' (inputs p ! i)" for i using eq by simp
  have "kind_value F g (kind p) (inputs p) (outputs p) env = kind_value F g (kind p) (inputs p) (outputs p) env'"
  proof (cases "3 \<le> length (inputs p)")
    case True
    then have "0 < length (inputs p)" "1 < length (inputs p)" "2 < length (inputs p)" by linarith+
    then show ?thesis unfolding kind_value_def by (simp only: e)
  next
    case False
    have k: "kind p \<noteq> PAI_OP_ROPE \<and> kind p \<noteq> PAI_OP_ATTENTION"
    proof -
      have "rope_shape g (inputs p) (outputs p) = None" "attention_shape g (inputs p) (outputs p) = None"
        using False unfolding rope_shape_def attention_shape_def Let_def by auto
      then show ?thesis using kc by (auto simp: kind_check_def op_kinds split: if_splits)
    qed
    show ?thesis
    proof (cases "length (inputs p) = 2")
      case True
      then have "0 < length (inputs p)" "1 < length (inputs p)" by linarith+
      then show ?thesis using k unfolding kind_value_def by (simp only: e Let_def if_False simp_thms)
    next
      case two: False
      have "\<not> binary_shape g (inputs p) (outputs p)" "gemm_shape g (inputs p) (outputs p) b = None"
        "\<not> concat_shape g (inputs p) (outputs p)" for b
        using two by (simp_all add: binary_shape_def gemm_shape_def concat_shape_def)
      then have k2: "kind p \<notin> {PAI_OP_ADD, PAI_OP_MUL, PAI_OP_GEMM, PAI_OP_MATMUL, PAI_OP_GEMV, PAI_OP_CONCAT}"
        using kc by (auto simp: kind_check_def op_kinds split: if_splits)
      have "0 < length (inputs p)"
      proof (rule ccontr)
        assume "\<not> 0 < length (inputs p)"
        then have n: "inputs p = []" by simp
        have "\<not> unary_shape g [] (outputs p)" "rms_shape g [] (outputs p) = None"
          by (simp_all add: unary_shape_def rms_shape_def)
        then show False using kc k k2 n by (auto simp: kind_check_def split: if_splits)
      qed
      then show ?thesis
        using k k2 two unfolding kind_value_def by (simp only: e Let_def if_False simp_thms insert_iff de_Morgan_disj empty_iff)
    qed
  qed
  then show ?thesis by (simp add: op_value_def)
qed

section \<open>Storage and live values\<close>

text \<open>The values whose contents the steps from epoch \<open>s\<close> on, or the caller, still need.\<close>

definition live :: "pai_graph \<Rightarrow> bool \<Rightarrow> nat \<Rightarrow> nat \<Rightarrow> bool" where
  "live g persistent s v \<longleftrightarrow>
     (producer (val_of g v) = 0 \<or> epoch (op_of g (producer (val_of g v))) < s) \<and>
     (is_output (val_of g v) \<or> persistent \<and> producer (val_of g v) = 0 \<or> (\<exists>c \<in> users g v. s \<le> epoch (op_of g c)))"

definition storage :: "pai_graph \<Rightarrow> bool \<Rightarrow> pai_graph_mem_plan \<Rightarrow> bool" where
  "storage g persistent mp \<longleftrightarrow>
     graph_wf g \<and> epochs_ok g \<and>
     (\<forall>v \<in> {1 .. num_values g}. pai_graph_mem_plan_offset mp v + unat (vsize (val_of g v)) \<le> vregion_bytes mp) \<and>
     (\<forall>u \<in> {1 .. num_ops g}. \<forall>w \<in> set (outputs (op_of g u)). \<forall>v \<in> {1 .. num_values g}.
        v \<noteq> w \<longrightarrow> survives g persistent u v \<longrightarrow>
        apart (pai_graph_mem_plan_offset mp v) (unat (vsize (val_of g v)))
          (pai_graph_mem_plan_offset mp w) (unat (vsize (val_of g w))))"

definition holds :: "pai_graph \<Rightarrow> bool \<Rightarrow> pai_graph_mem_plan \<Rightarrow> nat \<Rightarrow> nat \<Rightarrow> (nat \<Rightarrow> u32 list) \<Rightarrow> bytes \<Rightarrow> bool" where
  "holds g persistent mp region s env m \<longleftrightarrow>
     (\<forall>v \<in> {1 .. num_values g}. live g persistent s v \<longrightarrow> vdtype (val_of g v) = PAI_DTYPE_F32 \<longrightarrow>
        arr m (value_ptr mp region v) (env v) \<and> length (env v) = vlen g v)"

lemma input_live:
  assumes "graph_wf g" "epochs_ok g" "u \<in> {1 .. num_ops g}" "v \<in> set (inputs (op_of g u))"
  shows "live g persistent (epoch (op_of g u)) v" "survives g persistent u v"
proof -
  have v: "v \<in> {1 .. num_values g}" using wf_input [OF assms(1,3,4)] .
  have us: "u \<in> users g v" using assms(3,4) by (simp add: users_def)
  have "epoch (op_of g (producer (val_of g v))) < epoch (op_of g u)" if "producer (val_of g v) \<noteq> 0"
  proof -
    have p: "producer (val_of g v) \<in> {1 .. num_ops g}" "v \<in> set (outputs (op_of g (producer (val_of g v))))"
      using wf_value [OF assms(1) v] that by (auto simp: value_ok_def)
    then show ?thesis using assms(2-4) unfolding epochs_ok_def by blast
  qed
  then show "live g persistent (epoch (op_of g u)) v" "survives g persistent u v"
    using us by (auto simp: live_def survives_def intro: less_imp_le)
qed

lemma live_step:
  assumes "graph_wf g" "epochs_ok g" "u \<in> {1 .. num_ops g}" "outputs (op_of g u) = [w]"
    and "v \<in> {1 .. num_values g}" "v \<noteq> w" "live g persistent (Suc (epoch (op_of g u))) v"
  shows "live g persistent (epoch (op_of g u)) v" "survives g persistent u v"
proof -
  have "epoch (op_of g (producer (val_of g v))) \<noteq> epoch (op_of g u)" if n: "producer (val_of g v) \<noteq> 0"
  proof
    assume e: "epoch (op_of g (producer (val_of g v))) = epoch (op_of g u)"
    have p: "producer (val_of g v) \<in> {1 .. num_ops g}" "v \<in> set (outputs (op_of g (producer (val_of g v))))"
      using wf_value [OF assms(1,5)] n by (auto simp: value_ok_def)
    have "producer (val_of g v) = u" using assms(2,3) p(1) e unfolding epochs_ok_def inj_on_def by blast
    then show False using p(2) assms(4,6) by simp
  qed
  then show "live g persistent (epoch (op_of g u)) v" "survives g persistent u v"
    using assms(7) by (auto simp: live_def survives_def Suc_le_eq less_Suc_eq intro: less_imp_le)
qed

lemma step_operands:
  assumes st: "storage g persistent mp" and u: "u \<in> {1 .. num_ops g}" and r: "region \<noteq> 0" "region + vregion_bytes mp \<le> length m"
    and h: "holds g persistent mp region (epoch (op_of g u)) env m"
  shows "operands m g mp region (op_of g u) env"
  unfolding operands_def
proof (intro conjI ballI impI r(1))
  have wf: "graph_wf g" "epochs_ok g" using st by (simp_all add: storage_def)
  fix v assume "v \<in> set (inputs (op_of g u)) \<union> set (outputs (op_of g u))"
  then have "v \<in> {1 .. num_values g}" using wf_input [OF wf(1) u] wf_output [OF wf(1) u] by blast
  then show "value_ok g v" using wf_value [OF wf(1)] by blast
next
  have wf: "graph_wf g" "epochs_ok g" using st by (simp_all add: storage_def)
  fix v assume v: "v \<in> set (inputs (op_of g u))" and f: "vdtype (val_of g v) = PAI_DTYPE_F32"
  then have "arr m (value_ptr mp region v) (env v) \<and> length (env v) = vlen g v"
    using h input_live(1) [OF wf u v, of persistent] wf_input [OF wf(1) u v] unfolding holds_def by blast
  then show "arr m (value_ptr mp region v) (env v)" "length (env v) = vlen g v" by simp_all
next
  have wf: "graph_wf g" "epochs_ok g" using st by (simp_all add: storage_def)
  fix w assume w: "w \<in> set (outputs (op_of g u))"
  have wi: "w \<in> {1 .. num_values g}" using wf_output [OF wf(1) u w] .
  then have "pai_graph_mem_plan_offset mp w + unat (vsize (val_of g w)) \<le> vregion_bytes mp"
    using st unfolding storage_def by blast
  then show "value_ptr mp region w + unat (vsize (val_of g w)) \<le> length m" using r(2) by (simp add: value_ptr_def)
  fix v assume v: "v \<in> set (inputs (op_of g u))"
  have "v \<noteq> w" using wf_op [OF wf(1) u] v w unfolding op_ok_def by blast
  then show "apart (pai_graph_mem_plan_offset mp v) (unat (vsize (val_of g v))) (pai_graph_mem_plan_offset mp w) (unat (vsize (val_of g w)))"
    using st u w wf_input [OF wf(1) u v] input_live(2) [OF wf u v] unfolding storage_def by blast
qed


section \<open>One step\<close>

text \<open>The memories have the same length and agree outside \<open>lo .. hi\<close>.\<close>

definition frame :: "nat \<Rightarrow> nat \<Rightarrow> bytes \<Rightarrow> bytes \<Rightarrow> bool" where
  "frame lo hi m m' \<longleftrightarrow> length m' = length m \<and> take lo m' = take lo m \<and> drop hi m' = drop hi m"

lemma frame_refl [simp]: "frame lo hi m m"
  by (simp add: frame_def)

lemma frame_trans: "frame lo hi m m1 \<Longrightarrow> frame lo hi m1 m2 \<Longrightarrow> frame lo hi m m2"
  by (simp add: frame_def)

lemma frame_wrf:
  assumes "lo \<le> c" "c + 4 * length xs \<le> hi" "hi \<le> length m"
  shows "frame lo hi m (wrf m c xs)"
  using assms by (simp add: frame_def wrf_def)

lemma step_runs:
  assumes st: "storage g persistent mp" and u: "u \<in> {1 .. num_ops g}" and r: "region \<noteq> 0" "region + vregion_bytes mp \<le> length m"
    and h: "holds g persistent mp region (epoch (op_of g u)) env m" and c: "convert_sizes g (op_of g u)"
  shows "exec_op F ok g mp region (op_of g u) m =
      outcome m (value_ptr mp region (outputs (op_of g u) ! 0)) (op_check ok g (op_of g u)) (op_value F g (op_of g u) env)"
    and "op_check ok g (op_of g u) = Inr () \<Longrightarrow> ys = op_value F g (op_of g u) env \<Longrightarrow>
      \<exists>w. outputs (op_of g u) = [w] \<and> frame region (region + vregion_bytes mp) m (wrf m (value_ptr mp region w) ys) \<and>
        holds g persistent mp region (Suc (epoch (op_of g u))) (env(w := ys)) (wrf m (value_ptr mp region w) ys)"
proof -
  have wf: "graph_wf g" "epochs_ok g" using st by (simp_all add: storage_def)
  note o = step_operands [OF st u r h]
  show "exec_op F ok g mp region (op_of g u) m =
      outcome m (value_ptr mp region (outputs (op_of g u) ! 0)) (op_check ok g (op_of g u)) (op_value F g (op_of g u) env)"
    by (rule exec_op_runs [OF o c])
  assume ok: "op_check ok g (op_of g u) = Inr ()" and ys: "ys = op_value F g (op_of g u) env"
  have l: "all_f32 g (op_of g u)" "length (outputs (op_of g u)) = 1" "length ys = vlen g (outputs (op_of g u) ! 0)"
    using op_value_length [OF o c ok, of F] ys by simp_all
  obtain w where w: "outputs (op_of g u) = [w]" using l(2) by (auto simp: length_Suc_conv)
  have wi: "w \<in> {1 .. num_values g}" using wf_output [OF wf(1) u] w by simp
  have fw: "f32_value g w" using operand_out(1) [OF o l(1,2)] w by simp
  have sz: "pai_graph_mem_plan_offset mp w + 4 * length ys \<le> vregion_bytes mp"
  proof -
    have "pai_graph_mem_plan_offset mp w + unat (vsize (val_of g w)) \<le> vregion_bytes mp" using st wi unfolding storage_def by blast
    then show ?thesis using fw l(3) w by (simp add: f32_value_def)
  qed
  have b: "value_ptr mp region w + 4 * length ys \<le> length m" using sz r(2) by (simp add: value_ptr_def)
  have fr: "frame region (region + vregion_bytes mp) m (wrf m (value_ptr mp region w) ys)"
    using sz r(2) by (intro frame_wrf) (simp_all add: value_ptr_def)
  have "arr (wrf m (value_ptr mp region w) ys) (value_ptr mp region v) ((env(w := ys)) v) \<and> length ((env(w := ys)) v) = vlen g v"
    if v: "v \<in> {1 .. num_values g}" and lv: "live g persistent (Suc (epoch (op_of g u))) v" and fv: "vdtype (val_of g v) = PAI_DTYPE_F32" for v
  proof (cases "v = w")
    case True
    then show ?thesis using arr_wrf [OF b] l(3) w by simp
  next
    case False
    note s = live_step [OF wf u w v False lv]
    have a: "arr m (value_ptr mp region v) (env v)" "length (env v) = vlen g v" using h v s(1) fv unfolding holds_def by blast+
    have "apart (pai_graph_mem_plan_offset mp v) (unat (vsize (val_of g v))) (pai_graph_mem_plan_offset mp w) (unat (vsize (val_of g w)))"
      using st u v False s(2) w unfolding storage_def by (metis list.set_intros(1))
    then have "clear (value_ptr mp region v) (length (env v)) (value_ptr mp region w) (length ys)"
      using value_ok_f32 [OF wf_value [OF wf(1) v] fv] fw a(2) l(3) w
      unfolding apart_def clear_def f32_value_def value_ptr_def by simp
    moreover have "same_outside m (value_ptr mp region w) (length ys) (wrf m (value_ptr mp region w) ys)"
      using b by (intro same_outside_wrf) simp_all
    ultimately show ?thesis using arr_outside [OF a(1)] a(2) False by simp
  qed
  then show "\<exists>w. outputs (op_of g u) = [w] \<and> frame region (region + vregion_bytes mp) m (wrf m (value_ptr mp region w) ys) \<and>
        holds g persistent mp region (Suc (epoch (op_of g u))) (env(w := ys)) (wrf m (value_ptr mp region w) ys)"
    using w fr unfolding holds_def by blast
qed

section \<open>Dataflow\<close>

text \<open>\<open>env\<close> solves the equations of the ops of epochs below \<open>s\<close>, and is \<open>env0\<close> on the values no such op produces.\<close>

definition dataflow :: "fops \<Rightarrow> pai_graph \<Rightarrow> nat \<Rightarrow> (nat \<Rightarrow> u32 list) \<Rightarrow> (nat \<Rightarrow> u32 list) \<Rightarrow> bool" where
  "dataflow F g s env0 env \<longleftrightarrow>
     (\<forall>v \<in> {1 .. num_values g}. producer (val_of g v) = 0 \<longrightarrow> env v = env0 v) \<and>
     (\<forall>u \<in> {1 .. num_ops g}. epoch (op_of g u) < s \<longrightarrow>
        (\<exists>w. outputs (op_of g u) = [w] \<and> env w = op_value F g (op_of g u) env))"

lemma dataflow_step:
  assumes wf: "graph_wf g" "epochs_ok g" and u: "u \<in> {1 .. num_ops g}" and w: "outputs (op_of g u) = [w]"
    and d: "dataflow F g (epoch (op_of g u)) env0 env"
    and ok: "\<And>x. x \<in> {1 .. num_ops g} \<Longrightarrow> epoch (op_of g x) \<le> epoch (op_of g u) \<Longrightarrow> \<exists>ok. op_check ok g (op_of g x) = Inr ()"
  shows "dataflow F g (Suc (epoch (op_of g u))) env0 (env(w := op_value F g (op_of g u) env))"
  unfolding dataflow_def
proof (intro conjI ballI impI)
  let ?env = "env(w := op_value F g (op_of g u) env)"
  have wi: "w \<in> {1 .. num_values g}" and pw: "producer (val_of g w) = u"
    using wf_output [OF wf(1) u] wf_value [OF wf(1)] u w by (auto simp: value_ok_def)
  fix v assume v: "v \<in> {1 .. num_values g}" "producer (val_of g v) = 0"
  then have "v \<noteq> w" using pw u by auto
  then show "?env v = env0 v" using d v unfolding dataflow_def by simp
next
  let ?env = "env(w := op_value F g (op_of g u) env)"
  fix x assume x: "x \<in> {1 .. num_ops g}" and e: "epoch (op_of g x) < Suc (epoch (op_of g u))"
  obtain k where k: "op_check k g (op_of g x) = Inr ()" using ok [OF x] e by auto
  have "w \<notin> set (inputs (op_of g x))"
  proof
    assume "w \<in> set (inputs (op_of g x))"
    then have "epoch (op_of g u) < epoch (op_of g x)" using wf(2) u x w unfolding epochs_ok_def by (metis list.set_intros(1))
    then show False using e by simp
  qed
  then have eq: "op_value F g (op_of g x) ?env = op_value F g (op_of g x) env"
    by (intro op_value_cong [OF k]) auto
  show "\<exists>y. outputs (op_of g x) = [y] \<and> ?env y = op_value F g (op_of g x) ?env"
  proof (cases "x = u")
    case True
    then show ?thesis using w eq by simp
  next
    case False
    then have "epoch (op_of g x) \<noteq> epoch (op_of g u)" using wf(2) u x unfolding epochs_ok_def inj_on_def by blast
    then obtain y where y: "outputs (op_of g x) = [y]" "env y = op_value F g (op_of g x) env"
      using d x e unfolding dataflow_def by (auto simp: less_Suc_eq)
    have "producer (val_of g y) = x" "producer (val_of g w) = u"
      using wf_value [OF wf(1) wf_output [OF wf(1) x]] wf_value [OF wf(1) wf_output [OF wf(1) u]] x u y(1) w
      by (auto simp: value_ok_def)
    then have "y \<noteq> w" using False by auto
    then show ?thesis using y eq by simp
  qed
qed


section \<open>The whole run\<close>

text \<open>The steps carry the ops of epochs \<open>i, i + 1, \<dots>\<close>.\<close>

definition in_order :: "pai_graph \<Rightarrow> nat \<Rightarrow> pai_sched_step list \<Rightarrow> bool" where
  "in_order g i sts \<longleftrightarrow> i + length sts = num_ops g \<and>
     (\<forall>j < length sts. op_id (sts ! j) \<in> {1 .. num_ops g} \<and> epoch (op_of g (op_id (sts ! j))) = i + j)"

definition gpu_count :: "pai_sched_step list \<Rightarrow> nat" where
  "gpu_count sts = length (filter (\<lambda>st. device st = PAI_SCHED_DEV_GPU) sts)"

definition cpu_count :: "pai_sched_step list \<Rightarrow> nat" where
  "cpu_count sts = length (filter (\<lambda>st. device st \<noteq> PAI_SCHED_DEV_GPU) sts)"

definition hook_calls :: "bool \<Rightarrow> (nat \<Rightarrow> u64) \<Rightarrow> nat \<Rightarrow> pai_sched_step list \<Rightarrow> hook_call list" where
  "hook_calls hook wall i sts =
     (if hook then map (\<lambda>j. (i + j, op_id (sts ! j), device (sts ! j), wall (i + j))) [0 ..< length sts] else [])"

lemma in_order_Cons:
  assumes "in_order g i (st # sts)"
  shows "op_id st \<in> {1 .. num_ops g}" "epoch (op_of g (op_id st)) = i" "in_order g (Suc i) sts"
  using assms unfolding in_order_def by (auto simp: All_less_Suc2)

lemma hook_calls_Cons:
  "hook_calls hook wall i (st # sts) =
     (if hook then [(i, op_id st, device st, wall i)] else []) @ hook_calls hook wall (Suc i) sts"
proof -
  have "[0 ..< Suc n] = 0 # map Suc [0 ..< n]" for n by (simp add: upt_conv_Cons map_Suc_upt del: upt_Suc)
  then show ?thesis by (simp add: hook_calls_def del: upt_Suc)
qed

lemma run_steps:
  assumes st: "storage g persistent mp" and r: "region \<noteq> 0" "region + vregion_bytes mp \<le> length m"
    and h: "holds g persistent mp region i env m" and d: "dataflow F g i env0 env"
    and c: "\<forall>u \<in> {1 .. num_ops g}. convert_sizes g (op_of g u)"
    and o: "in_order g i sts"
    and past: "\<And>x. x \<in> {1 .. num_ops g} \<Longrightarrow> epoch (op_of g x) < i \<Longrightarrow> \<exists>ok. op_check ok g (op_of g x) = Inr ()"
  shows "\<exists>m' calls res. exec_steps F mem wall hook g mp region i sts stats m = Some (m', calls, res) \<and>
    frame region (region + vregion_bytes mp) m m' \<and>
    (case res of
       Inl e \<Rightarrow> \<exists>j < length sts. op_check (mem (i + j)) g (op_of g (op_id (sts ! j))) = Inl e \<and>
         (\<forall>k < j. op_check (mem (i + k)) g (op_of g (op_id (sts ! k))) = Inr ()) \<and> calls = hook_calls hook wall i (take j sts)
     | Inr s' \<Rightarrow> (\<forall>j < length sts. op_check (mem (i + j)) g (op_of g (op_id (sts ! j))) = Inr ()) \<and>
         s' = \<lparr>steps_executed = steps_executed stats + length sts, rgpu_steps = rgpu_steps stats + gpu_count sts,
               rcpu_steps = rcpu_steps stats + cpu_count sts\<rparr> \<and> calls = hook_calls hook wall i sts \<and>
         (\<exists>env'. dataflow F g (num_ops g) env0 env' \<and> holds g persistent mp region (num_ops g) env' m'))"
  using r(2) h d o past
proof (induction sts arbitrary: i m env stats)
  case Nil
  then have "i = num_ops g" by (simp add: in_order_def)
  then show ?case using Nil.prems by (auto simp: gpu_count_def cpu_count_def hook_calls_def)
next
  case (Cons s sts)
  have wf: "graph_wf g" "epochs_ok g" using st by (simp_all add: storage_def)
  note so = in_order_Cons [OF Cons.prems(4)]
  let ?p = "op_of g (op_id s)"
  have c': "convert_sizes g ?p" using c so(1) by blast
  have h': "holds g persistent mp region (epoch ?p) env m" using Cons.prems(2) so(2) by simp
  note run = step_runs [OF st so(1) r(1) Cons.prems(1) h' c', where F = F and ok = "mem i"]
  show ?case
  proof (cases "op_check (mem i) g ?p")
    case (Inl e)
    then show ?thesis using run(1) by (auto simp: hook_calls_def intro!: exI [of _ 0])
  next
    case (Inr x)
    then have ok: "op_check (mem i) g ?p = Inr ()" by simp
    let ?ys = "op_value F g ?p env"
    obtain w where w: "outputs ?p = [w]" "frame region (region + vregion_bytes mp) m (wrf m (value_ptr mp region w) ?ys)"
      "holds g persistent mp region (Suc i) (env(w := ?ys)) (wrf m (value_ptr mp region w) ?ys)"
      using run(2) [OF ok refl] so(2) by auto
    let ?m = "wrf m (value_ptr mp region w) ?ys"
    have e1: "exec_op F (mem i) g mp region ?p m = Some (?m, Inr ())" using run(1) ok w(1) by (simp add: done_with_def)
    have past': "\<exists>ok. op_check ok g (op_of g x) = Inr ()" if "x \<in> {1 .. num_ops g}" "epoch (op_of g x) < Suc i" for x
    proof (cases "epoch (op_of g x) = i")
      case True
      then have "x = op_id s" using so(1,2) that(1) wf(2) unfolding epochs_ok_def inj_on_def by metis
      then show ?thesis using ok by blast
    next
      case False
      then show ?thesis using Cons.prems(5) that by simp
    qed
    have d': "dataflow F g (Suc i) env0 (env(w := ?ys))"
      using dataflow_step [OF wf so(1) w(1), of F env0 env] Cons.prems(3) past' so(2) by (simp add: less_Suc_eq_le)
    have len: "region + vregion_bytes mp \<le> length ?m" using w(2) Cons.prems(1) by (simp add: frame_def)
    let ?st = "(if device s = PAI_SCHED_DEV_GPU then stats\<lparr>steps_executed := steps_executed stats + 1, rgpu_steps := rgpu_steps stats + 1\<rparr>
        else stats\<lparr>steps_executed := steps_executed stats + 1, rcpu_steps := rcpu_steps stats + 1\<rparr>)"
    obtain m' calls res where IH: "exec_steps F mem wall hook g mp region (Suc i) sts ?st ?m = Some (m', calls, res)"
      "frame region (region + vregion_bytes mp) ?m m'"
      "case res of
         Inl e \<Rightarrow> \<exists>j < length sts. op_check (mem (Suc i + j)) g (op_of g (op_id (sts ! j))) = Inl e \<and>
           (\<forall>k < j. op_check (mem (Suc i + k)) g (op_of g (op_id (sts ! k))) = Inr ()) \<and> calls = hook_calls hook wall (Suc i) (take j sts)
       | Inr s' \<Rightarrow> (\<forall>j < length sts. op_check (mem (Suc i + j)) g (op_of g (op_id (sts ! j))) = Inr ()) \<and>
           s' = \<lparr>steps_executed = steps_executed ?st + length sts, rgpu_steps = rgpu_steps ?st + gpu_count sts,
                 rcpu_steps = rcpu_steps ?st + cpu_count sts\<rparr> \<and> calls = hook_calls hook wall (Suc i) sts \<and>
           (\<exists>env'. dataflow F g (num_ops g) env0 env' \<and> holds g persistent mp region (num_ops g) env' m')"
      using Cons.IH [OF len w(3) d' so(3) past', of ?st] by blast
    have run': "exec_steps F mem wall hook g mp region i (s # sts) stats m =
        Some (m', (if hook then [(i, op_id s, device s, wall i)] else []) @ calls, res)"
      using IH(1) e1 by (simp add: Let_def split: if_splits)
    have fr: "frame region (region + vregion_bytes mp) m m'" using frame_trans [OF w(2) IH(2)] .
    show ?thesis
    proof (cases res)
      case (Inl e)
      then obtain j where j: "j < length sts" "op_check (mem (Suc i + j)) g (op_of g (op_id (sts ! j))) = Inl e"
        "\<forall>k < j. op_check (mem (Suc i + k)) g (op_of g (op_id (sts ! k))) = Inr ()" "calls = hook_calls hook wall (Suc i) (take j sts)"
        using IH(3) by auto
      have "\<forall>k < Suc j. op_check (mem (i + k)) g (op_of g (op_id ((s # sts) ! k))) = Inr ()"
        using j(3) ok by (simp add: All_less_Suc2)
      then show ?thesis
        using run' fr j Inl by (intro exI [of _ m'] exI conjI) (auto simp: hook_calls_Cons intro!: exI [of _ "Suc j"])
    next
      case (Inr s')
      have "\<forall>k < length (s # sts). op_check (mem (i + k)) g (op_of g (op_id ((s # sts) ! k))) = Inr ()"
        using IH(3) Inr ok by (simp add: All_less_Suc2)
      moreover have "s' = \<lparr>steps_executed = steps_executed stats + length (s # sts), rgpu_steps = rgpu_steps stats + gpu_count (s # sts),
               rcpu_steps = rcpu_steps stats + cpu_count (s # sts)\<rparr>"
        using IH(3) Inr by (simp add: gpu_count_def cpu_count_def split: if_splits)
      ultimately show ?thesis
        using run' fr IH(3) Inr by (intro exI [of _ m'] exI conjI) (auto simp: hook_calls_Cons)
    qed
  qed
qed

section \<open>The plan of the scheduler\<close>

lemma foldl_updates:
  assumes "inj_on f (set us)" "\<forall>u \<in> set us. f u < length at"
  shows "length (foldl (\<lambda>at u. at[f u := u]) at us) = length at \<and>
    (\<forall>u \<in> set us. foldl (\<lambda>at u. at[f u := u]) at us ! f u = u)"
  using assms
proof (induction us rule: rev_induct)
  case (snoc x us)
  then have IH: "length (foldl (\<lambda>at u. at[f u := u]) at us) = length at"
    "\<forall>u \<in> set us. foldl (\<lambda>at u. at[f u := u]) at us ! f u = u" by (simp_all add: inj_on_def)
  have "foldl (\<lambda>at u. at[f u := u]) at (us @ [x]) ! f u = u" if "u \<in> set (us @ [x])" for u
    using that IH snoc.prems by (cases "f u = f x") (auto simp: inj_on_def)
  then show ?case using IH(1) by simp
qed simp

lemma epochs_onto:
  assumes "epochs_ok g" "s < num_ops g"
  obtains u where "u \<in> {1 .. num_ops g}" "epoch (op_of g u) = s"
proof -
  have "(\<lambda>u. epoch (op_of g u)) ` {1 .. num_ops g} = {..< num_ops g}"
  proof (rule card_subset_eq)
    show "(\<lambda>u. epoch (op_of g u)) ` {1 .. num_ops g} \<subseteq> {..< num_ops g}" using assms(1) by (auto simp: epochs_ok_def)
    show "card ((\<lambda>u. epoch (op_of g u)) ` {1 .. num_ops g}) = card {..< num_ops g}"
      using assms(1) by (simp add: epochs_ok_def card_image)
  qed simp
  then show ?thesis using assms(2) that by (metis (no_types, lifting) imageE lessThan_iff)
qed

lemma op_at_epoch_spec:
  assumes "graph_wf g" "epochs_ok g" "s < num_ops g"
  shows "op_at_epoch g ! s \<in> {1 .. num_ops g}" "epoch (op_of g (op_at_epoch g ! s)) = s"
proof -
  obtain u where u: "u \<in> {1 .. num_ops g}" "epoch (op_of g u) = s" using epochs_onto [OF assms(2,3)] .
  have set: "set [1 ..< num_ops g + 1] = {1 .. num_ops g}" by auto
  have lt: "\<forall>u \<in> {1 .. num_ops g}. epoch (op_of g u) < PAI_GRAPH_MAX_OPS"
    using assms(1,2) unfolding epochs_ok_def graph_wf_def by (meson less_le_trans)
  have "op_at_epoch g ! epoch (op_of g u) = u"
    unfolding op_at_epoch_def
    by (rule foldl_updates [where f = "\<lambda>u. epoch (op_of g u)", THEN conjunct2, rule_format])
      (use u(1) assms(2) lt in \<open>simp_all only: set length_replicate epochs_ok_def\<close>)
  then show "op_at_epoch g ! s \<in> {1 .. num_ops g}" "epoch (op_of g (op_at_epoch g ! s)) = s" using u by simp_all
qed

definition hint_ok :: "(nat \<Rightarrow> u8) option \<Rightarrow> nat \<Rightarrow> bool" where
  "hint_ok hints u \<longleftrightarrow> (case hints of None \<Rightarrow> True | Some h \<Rightarrow> h u \<in> {PAI_SCHED_DEV_ANY, PAI_SCHED_DEV_CPU, PAI_SCHED_DEV_GPU})"

definition placed :: "pai_graph \<Rightarrow> int \<Rightarrow> (nat \<Rightarrow> u8) option \<Rightarrow> nat \<Rightarrow> u8" where
  "placed g pol hints u =
     (case hints of
        Some h \<Rightarrow> if h u \<noteq> PAI_SCHED_DEV_ANY then h u
                  else if pol = PAI_SCHED_EXCLUSIVE \<and> is_compute_kind (kind (op_of g u)) then PAI_SCHED_DEV_GPU
                  else default_device (kind (op_of g u))
      | None \<Rightarrow> if pol = PAI_SCHED_EXCLUSIVE \<and> is_compute_kind (kind (op_of g u)) then PAI_SCHED_DEV_GPU
                else default_device (kind (op_of g u)))"

lemma resolve_device_spec:
  "resolve_device g u pol hints = (if hint_ok hints u then Inr (placed g pol hints u) else Inl PAI_ERR_INVALID_ARG)"
  by (auto simp: resolve_device_def hint_ok_def placed_def Let_def split: option.splits)

text \<open>The total size of the values that satisfy \<open>P\<close>.\<close>

definition bytes_of :: "pai_graph \<Rightarrow> (nat \<Rightarrow> bool) \<Rightarrow> nat" where
  "bytes_of g P = (\<Sum>v \<in> {v \<in> {1 .. num_values g}. P v}. unat (vsize (val_of g v)))"

lemma bytes_of_le: "bytes_of g P \<le> graph_bytes g"
proof -
  have "bytes_of g P \<le> (\<Sum>v \<in> {1 .. num_values g}. unat (vsize (val_of g v)))"
    unfolding bytes_of_def by (intro sum_mono2) auto
  also have "\<dots> = (\<Sum>x \<leftarrow> vals g. unat (vsize x))"
    by (simp add: sum_list_sum_nth atLeast0LessThan)
      (rule sum.reindex_bij_witness [of _ Suc "\<lambda>v. v - 1"]; auto)
  also have "\<dots> \<le> graph_bytes g" unfolding graph_bytes_def by (simp add: sum_list_addf)
  finally show ?thesis .
qed

lemma sum_sizes_spec:
  assumes "graph_bytes g < 2 ^ 64"
    and ls: "ls = map (\<lambda>v. (a v, b v)) [1 ..< num_values g + 1]"
  shows "unat (sum_sizes g ls P) = bytes_of g (\<lambda>v. P (a v) (b v))"
proof -
  let ?f = "\<lambda>acc v. if P (fst (ls ! (v - 1))) (snd (ls ! (v - 1))) then acc + vsize (val_of g v) else acc"
  have nth: "ls ! (v - 1) = (a v, b v)" if "v \<in> {1 .. num_values g}" for v
    using that unfolding ls by (auto simp del: upt_Suc)
  have "foldl ?f 0 [1 ..< k + 1] = of_nat (\<Sum>v \<in> {v \<in> {1 .. k}. P (a v) (b v)}. unat (vsize (val_of g v)))" if "k \<le> num_values g" for k
    using that
  proof (induction k)
    case (Suc k)
    have "{v \<in> {1 .. Suc k}. P (a v) (b v)} = (if P (a (Suc k)) (b (Suc k)) then insert (Suc k) {v \<in> {1 .. k}. P (a v) (b v)}
        else {v \<in> {1 .. k}. P (a v) (b v)})" by (auto simp: le_Suc_eq)
    then show ?case using Suc nth [of "Suc k"] by (simp add: add.commute)
  qed simp
  from this [of "num_values g"] have "sum_sizes g ls P = of_nat (bytes_of g (\<lambda>v. P (a v) (b v)))"
    unfolding sum_sizes_def bytes_of_def by simp
  moreover have "bytes_of g (\<lambda>v. P (a v) (b v)) < 2 ^ 64" using bytes_of_le assms(1) le_less_trans by blast
  ultimately show ?thesis by (simp add: unsigned_of_nat take_bit_nat_eq_self)
qed


definition planned_step :: "pai_graph \<Rightarrow> (nat \<times> nat) list \<Rightarrow> int \<Rightarrow> (nat \<Rightarrow> u8) option \<Rightarrow> nat \<Rightarrow> pai_sched_step" where
  "planned_step g ls pol hints s =
     (let u = op_at_epoch g ! s
      in \<lparr>op_id = u, device = placed g pol hints u, sepoch = s,
          live_bytes = sum_sizes g ls (\<lambda>st en. st < s \<and> en > s) + sum_sizes g ls (\<lambda>st en. st = s),
          produced_bytes = sum_sizes g ls (\<lambda>st en. st = s), released_bytes = sum_sizes g ls (\<lambda>st en. en = s)\<rparr>)"

lemma build_steps_ok:
  assumes "graph_wf g" "epochs_ok g" "\<forall>u \<in> {1 .. num_ops g}. hint_ok hints u" "set ss \<subseteq> {..< num_ops g}"
  shows "build_steps g ls pol hints ss = Inr (map (planned_step g ls pol hints) ss)"
  using assms(4)
proof (induction ss)
  case (Cons s ss)
  then have u: "op_at_epoch g ! s \<in> {1 .. num_ops g}" using op_at_epoch_spec(1) [OF assms(1,2), of s] by simp
  then have "build_step g ls pol hints s = Inr (planned_step g ls pol hints s)"
    using assms(3) by (simp add: build_step_def resolve_device_spec planned_step_def Let_def)
  then show ?case using Cons by simp
qed simp

lemma sched_build_ok:
  assumes wf: "graph_wf g" "epochs_ok g" "is_sorted g" and pol: "0 \<le> pol" "pol \<le> PAI_SCHED_BALANCED"
    and h: "\<forall>u \<in> {1 .. num_ops g}. hint_ok hints u"
  obtains sp where "sched_build_impl g mp pol hints persistent = Some (g, Inr sp)"
    "steps sp = map (planned_step g (map (\<lambda>v. (spec_start g v, spec_end g persistent v)) [1 ..< num_values g + 1]) pol hints) [0 ..< num_ops g]"
    "gpu_steps sp = gpu_count (steps sp)" "cpu_steps sp = cpu_count (steps sp)" "policy sp = pol"
    "sregion_bytes sp = vregion_bytes mp" "speak_live sp = vpeak_live mp"
proof -
  have np: "\<not> (pol < 0 \<or> pol > PAI_SCHED_BALANCED)" using pol by linarith
  have sg: "sorted_graph g = Some (g, Inr ())" using wf(3) by (simp add: sorted_graph_def)
  note l = lifetimes_exact [OF wf(1) sg wf(1)]
  have "(if persistent then pai_graph_value_lifetimes_persistent g else pai_graph_value_lifetimes g) =
      Some (g, Inr (map (\<lambda>v. (spec_start g v, spec_end g persistent v)) [1 ..< num_values g + 1]))"
    using l by (cases persistent) simp_all
  moreover have "build_steps g (map (\<lambda>v. (spec_start g v, spec_end g persistent v)) [1 ..< num_values g + 1]) pol hints [0 ..< num_ops g] =
      Inr (map (planned_step g (map (\<lambda>v. (spec_start g v, spec_end g persistent v)) [1 ..< num_values g + 1]) pol hints) [0 ..< num_ops g])"
      (is "_ = Inr ?sts")
    by (rule build_steps_ok [OF wf(1,2) h]) auto
  ultimately have "sched_build_impl g mp pol hints persistent =
      Some (g, Inr \<lparr>steps = ?sts, policy = pol, sregion_bytes = vregion_bytes mp, snaive_bytes = vnaive_bytes mp,
        speak_live = vpeak_live mp, gpu_steps = gpu_count ?sts, cpu_steps = cpu_count ?sts\<rparr>)"
    unfolding sched_build_impl_def gpu_count_def cpu_count_def if_not_P [OF np] if_P [OF wf(3)]
    by (simp only: option.case prod.case sum.case)
  then show ?thesis by (rule that) simp_all
qed

lemma planned_in_order:
  assumes "graph_wf g" "epochs_ok g"
  shows "in_order g 0 (map (planned_step g ls pol hints) [0 ..< num_ops g])"
  using op_at_epoch_spec [OF assms] by (simp add: in_order_def planned_step_def Let_def)

lemma sched_build_steps:
  assumes "sched_build_impl g mp pol hints persistent = Some (g', Inr sp)" "graph_wf g" "is_sorted g" "epochs_ok g"
  shows "g' = g" "in_order g 0 (steps sp)" "gpu_steps sp = gpu_count (steps sp)" "cpu_steps sp = cpu_count (steps sp)"
proof -
  have sg: "sorted_graph g = Some (g, Inr ())" using assms(3) by (simp add: sorted_graph_def)
  note l = lifetimes_exact [OF assms(2) sg assms(2)]
  have run: "(if persistent then pai_graph_value_lifetimes_persistent g else pai_graph_value_lifetimes g) =
      Some (g, Inr (map (\<lambda>v. (spec_start g v, spec_end g persistent v)) [1 ..< num_values g + 1]))" (is "_ = Some (g, Inr ?ls)")
    using l by (cases persistent) simp_all
  obtain sts where b: "build_steps g ?ls pol hints [0 ..< num_ops g] = Inr sts"
    and s: "g' = g" "steps sp = sts" "gpu_steps sp = gpu_count sts" "cpu_steps sp = cpu_count sts"
    using assms(1,3) run
    by (auto simp: sched_build_impl_def gpu_count_def cpu_count_def simp del: upt_Suc split: if_splits sum.splits)
  have "build_steps g ls pol hints ss = Inr sts \<Longrightarrow>
      length sts = length ss \<and> (\<forall>j < length ss. op_id (sts ! j) = op_at_epoch g ! (ss ! j))" for ls ss sts
  proof (induction ss arbitrary: sts)
    case (Cons x ss)
    then show ?case
      by (auto simp: build_step_def Let_def All_less_Suc2 split: sum.splits if_splits)
  qed simp
  from this [OF b] show "in_order g 0 (steps sp)"
    using op_at_epoch_spec [OF assms(2,4)] s(2) by (simp add: in_order_def)
  show "g' = g" "gpu_steps sp = gpu_count (steps sp)" "cpu_steps sp = cpu_count (steps sp)" using s by simp_all
qed

lemma live_partition:
  assumes wf: "graph_wf g" "epochs_ok g" "graph_bytes g < 2 ^ 64" and s: "s < num_ops g"
    and ls: "ls = map (\<lambda>v. (spec_start g v, spec_end g p v)) [1 ..< num_values g + 1]"
  shows "unat (sum_sizes g ls (\<lambda>st en. st < s \<and> en > s) + sum_sizes g ls (\<lambda>st en. st = s)) =
    bytes_of g (\<lambda>v. spec_start g v \<le> s \<and> s < spec_end g p v)"
proof -
  let ?A = "{v \<in> {1 .. num_values g}. spec_start g v < s \<and> spec_end g p v > s}" and ?B = "{v \<in> {1 .. num_values g}. spec_start g v = s}"
  have n: "0 < num_ops g" using s by linarith
  have "{v \<in> {1 .. num_values g}. spec_start g v \<le> s \<and> s < spec_end g p v} = ?A \<union> ?B"
  proof (rule set_eqI)
    fix v
    show "v \<in> {v \<in> {1 .. num_values g}. spec_start g v \<le> s \<and> s < spec_end g p v} \<longleftrightarrow> v \<in> ?A \<union> ?B"
      using spec_start_end [OF wf(1,2) _ n, of v p] by (cases "v \<in> {1 .. num_values g}") auto
  qed
  then have "bytes_of g (\<lambda>v. spec_start g v \<le> s \<and> s < spec_end g p v) =
      bytes_of g (\<lambda>v. spec_start g v < s \<and> spec_end g p v > s) + bytes_of g (\<lambda>v. spec_start g v = s)"
    unfolding bytes_of_def by (simp add: sum.union_disjoint disjoint_iff)
  moreover have "bytes_of g (\<lambda>v. spec_start g v \<le> s \<and> s < spec_end g p v) < 2 ^ 64"
    using bytes_of_le wf(3) le_less_trans by blast
  ultimately show ?thesis
    using sum_sizes_spec [OF wf(3) ls, of "\<lambda>st en. st < s \<and> en > s"] sum_sizes_spec [OF wf(3) ls, of "\<lambda>st en. st = s"]
    by (simp add: unat_word_ariths)
qed


section \<open>Properties\<close>

text \<open>C1. The executor refines the dataflow semantics of the graph in reused storage. For an acyclic graph built
  through the interface, planned with the memory planner and scheduled, a run on a region that holds the values without a producer
  never leaves the region; it fails exactly with an error that the arity, dtypes and shapes of some op (or a failed
  allocation) give; and when it succeeds, every step has run, and the outputs of the graph (in a persistent plan also its
  inputs) hold the contents of the one environment that solves \<open>output = op (inputs)\<close> for every op. \<open>CONVERT\<close> ops
  must have operands of equal size.\<close>

theorem execute_refines_dataflow:
  assumes "built g" and "acyclic (deps g)" and "0 < num_ops g" and "graph_bytes g < 2 ^ 64" and "qsort_ok qs"
    and "graph_memory_plan_impl True qs g persistent = Some (h, Inr mp)"
    and "sched_build_impl h mp pol hints persistent = Some (h', Inr sp)"
    and "region \<noteq> 0" and "region + vregion_bytes mp \<le> length m"
    and "\<forall>u \<in> {1 .. num_ops h'}. convert_sizes h' (op_of h' u)"
    and "\<forall>v \<in> {1 .. num_values h'}. producer (val_of h' v) = 0 \<longrightarrow> vdtype (val_of h' v) = PAI_DTYPE_F32 \<longrightarrow>
           arr m (value_ptr mp region v) (env v) \<and> length (env v) = vlen h' v"
  shows "\<exists>m' calls res. pai_sched_execute_hooked F mem wall hook h' mp sp region m = Some (m', calls, res) \<and>
    frame region (region + vregion_bytes mp) m m' \<and>
    (case res of
       Inl e \<Rightarrow> \<exists>u \<in> {1 .. num_ops h'}. op_check (mem (epoch (op_of h' u))) h' (op_of h' u) = Inl e
     | Inr stats \<Rightarrow>
         (\<forall>u \<in> {1 .. num_ops h'}. op_check (mem (epoch (op_of h' u))) h' (op_of h' u) = Inr ()) \<and>
         stats = \<lparr>steps_executed = num_ops h', rgpu_steps = gpu_steps sp, rcpu_steps = cpu_steps sp\<rparr> \<and>
         calls = hook_calls hook wall 0 (steps sp) \<and>
         (\<exists>env'. (\<forall>v \<in> {1 .. num_values h'}. producer (val_of h' v) = 0 \<longrightarrow> env' v = env v) \<and>
            (\<forall>u \<in> {1 .. num_ops h'}. \<exists>w. outputs (op_of h' u) = [w] \<and> env' w = op_value F h' (op_of h' u) env') \<and>
            (\<forall>v \<in> {1 .. num_values h'}. is_output (val_of h' v) \<or> persistent \<and> producer (val_of h' v) = 0 \<longrightarrow>
               vdtype (val_of h' v) = PAI_DTYPE_F32 \<longrightarrow> arr m' (value_ptr mp region v) (env' v))))"
proof -
  obtain k where k: "graph_wf k" "is_sorted k" "epochs_ok k" "storage k persistent mp" "h = k"
    using memory_plan_facts [OF assms(1-5), of persistent] assms(6) unfolding storage_def by auto
  note b = sched_build_steps [OF assms(7) [unfolded k(5)] k(1-3)]
  have h': "h' = k" using b(1) .
  have hold: "holds k persistent mp region 0 env m"
    using assms(11) unfolding h' holds_def by (auto simp: live_def)
  have d0: "dataflow F k 0 env env" by (simp add: dataflow_def)
  have len: "length (steps sp) = num_ops k" using b(2) by (simp add: in_order_def)
  let ?z = "\<lparr>steps_executed = 0, rgpu_steps = 0, rcpu_steps = 0\<rparr>"
  have past: "\<And>x. x \<in> {1 .. num_ops k} \<Longrightarrow> epoch (op_of k x) < 0 \<Longrightarrow> \<exists>ok. op_check ok k (op_of k x) = Inr ()" by simp
  obtain m' calls res where r: "exec_steps F mem wall hook k mp region 0 (steps sp) ?z m = Some (m', calls, res)"
    "frame region (region + vregion_bytes mp) m m'"
    "case res of
       Inl e \<Rightarrow> \<exists>j < length (steps sp). op_check (mem (0 + j)) k (op_of k (op_id (steps sp ! j))) = Inl e \<and>
         (\<forall>i < j. op_check (mem (0 + i)) k (op_of k (op_id (steps sp ! i))) = Inr ()) \<and> calls = hook_calls hook wall 0 (take j (steps sp))
     | Inr s' \<Rightarrow> (\<forall>j < length (steps sp). op_check (mem (0 + j)) k (op_of k (op_id (steps sp ! j))) = Inr ()) \<and>
         s' = \<lparr>steps_executed = steps_executed ?z + length (steps sp), rgpu_steps = rgpu_steps ?z + gpu_count (steps sp), rcpu_steps = rcpu_steps ?z + cpu_count (steps sp)\<rparr> \<and>
         calls = hook_calls hook wall 0 (steps sp) \<and>
         (\<exists>env'. dataflow F k (num_ops k) env env' \<and> holds k persistent mp region (num_ops k) env' m')"
    using run_steps [OF k(4) assms(8,9) hold d0 assms(10) [unfolded h'] b(2) past, of mem wall hook ?z] by blast
  have ep: "op_id (steps sp ! j) \<in> {1 .. num_ops k} \<and> epoch (op_of k (op_id (steps sp ! j))) = j" if "j < num_ops k" for j
    using b(2) that len by (simp add: in_order_def)
  have run: "pai_sched_execute_hooked F mem wall hook k mp sp region m = Some (m', calls, res)"
    using r(1) assms(8) len by (simp add: pai_sched_execute_hooked_def)
  have final: "live k persistent (num_ops k) v"
    if v: "v \<in> {1 .. num_values k}" and o: "is_output (val_of k v) \<or> persistent \<and> producer (val_of k v) = 0" for v
    using wf_value [OF k(1) v] k(3) o by (auto simp: live_def value_ok_def epochs_ok_def)
  have "case res of
       Inl e \<Rightarrow> \<exists>u \<in> {1 .. num_ops k}. op_check (mem (epoch (op_of k u))) k (op_of k u) = Inl e
     | Inr stats \<Rightarrow>
         (\<forall>u \<in> {1 .. num_ops k}. op_check (mem (epoch (op_of k u))) k (op_of k u) = Inr ()) \<and>
         stats = \<lparr>steps_executed = num_ops k, rgpu_steps = gpu_steps sp, rcpu_steps = cpu_steps sp\<rparr> \<and>
         calls = hook_calls hook wall 0 (steps sp) \<and>
         (\<exists>env'. (\<forall>v \<in> {1 .. num_values k}. producer (val_of k v) = 0 \<longrightarrow> env' v = env v) \<and>
            (\<forall>u \<in> {1 .. num_ops k}. \<exists>w. outputs (op_of k u) = [w] \<and> env' w = op_value F k (op_of k u) env') \<and>
            (\<forall>v \<in> {1 .. num_values k}. is_output (val_of k v) \<or> persistent \<and> producer (val_of k v) = 0 \<longrightarrow>
               vdtype (val_of k v) = PAI_DTYPE_F32 \<longrightarrow> arr m' (value_ptr mp region v) (env' v)))"
  proof (cases res)
    case (Inl e)
    then obtain j where "j < num_ops k" "op_check (mem j) k (op_of k (op_id (steps sp ! j))) = Inl e" using r(3) len by auto
    then have "\<exists>u \<in> {1 .. num_ops k}. op_check (mem (epoch (op_of k u))) k (op_of k u) = Inl e" using ep [of j] by metis
    then show ?thesis using Inl by simp
  next
    case (Inr s')
    have all: "op_check (mem (epoch (op_of k u))) k (op_of k u) = Inr ()" if u: "u \<in> {1 .. num_ops k}" for u
    proof -
      have j: "epoch (op_of k u) < num_ops k" using k(3) u by (simp add: epochs_ok_def)
      then have "op_id (steps sp ! epoch (op_of k u)) = u" using ep [OF j] u k(3) unfolding epochs_ok_def inj_on_def by blast
      moreover have "\<forall>j < length (steps sp). op_check (mem (0 + j)) k (op_of k (op_id (steps sp ! j))) = Inr ()"
        using r(3) unfolding Inr sum.case by (rule conjunct1)
      ultimately show ?thesis using j len by (metis add_0)
    qed
    obtain env' where env': "dataflow F k (num_ops k) env env'" "holds k persistent mp region (num_ops k) env' m'"
      using r(3) Inr by auto
    have "s' = \<lparr>steps_executed = num_ops k, rgpu_steps = gpu_steps sp, rcpu_steps = cpu_steps sp\<rparr>" "calls = hook_calls hook wall 0 (steps sp)"
      using r(3) Inr len b(3,4) by auto
    moreover have "(\<forall>v \<in> {1 .. num_values k}. producer (val_of k v) = 0 \<longrightarrow> env' v = env v)"
      "(\<forall>u \<in> {1 .. num_ops k}. \<exists>w. outputs (op_of k u) = [w] \<and> env' w = op_value F k (op_of k u) env')"
      using env'(1) k(3) unfolding dataflow_def epochs_ok_def by blast+
    moreover have "\<forall>v \<in> {1 .. num_values k}. is_output (val_of k v) \<or> persistent \<and> producer (val_of k v) = 0 \<longrightarrow>
        vdtype (val_of k v) = PAI_DTYPE_F32 \<longrightarrow> arr m' (value_ptr mp region v) (env' v)"
      using env'(2) final unfolding holds_def by blast
    ultimately show ?thesis unfolding Inr sum.case using all by blast
  qed
  then show ?thesis unfolding h' using run r(2) by blast
qed

definition run_graph :: pai_graph where "run_graph = pai_graph_set_output demo_graph 2"

definition run_sorted :: pai_graph where "run_sorted = run_graph\<lparr>is_sorted := True\<rparr>"

definition demo_fops :: fops where
  "demo_fops = \<lparr>fadd = (+), fsub = (-), fmul = (*), fdiv = (div), fneg = (\<lambda>x. - x), fgt = (\<lambda>x y. y < x), feq = (=), fabsf = (\<lambda>x. x),
     expf = (\<lambda>x. x), sqrtf = (\<lambda>x. x), f_of_nat = of_nat, f_of_int = of_int, f2d = ucast, d2f = ucast, dadd = (+), dsub = (-),
     dmul = (*), ddiv = (div), d_of_nat = of_nat, dneg = (\<lambda>x. - x), dpow = (\<lambda>x y. x), dcos = (\<lambda>x. x), dsin = (\<lambda>x. x)\<rparr>"

lemma run_graph_eq:
  "run_graph =
     \<lparr>vals = [\<lparr>vdtype = PAI_DTYPE_F32, vshape = [4], vsize = 16, valign = 16, producer = 0,
                 is_input = False, is_output = False\<rparr>,
              \<lparr>vdtype = PAI_DTYPE_F32, vshape = [4], vsize = 16, valign = 64, producer = 1,
                 is_input = False, is_output = True\<rparr>],
      ops = [\<lparr>kind = 6, inputs = [1], outputs = [2], epoch = 0\<rparr>], is_sorted = False\<rparr>"
  by (simp add: run_graph_def demo_graph_eq pai_graph_set_output_def)

lemma run_graph_built: "built run_graph"
  unfolding run_graph_def by (rule built_output [OF demo_built])

lemma run_graph_acyclic: "acyclic (deps run_graph)"
proof -
  have "deps run_graph = {}" by (auto simp: deps_def run_graph_eq)
  then show ?thesis by (simp add: acyclic_def)
qed

lemma run_graph_sort: "pai_graph_topo_sort run_graph = Some (run_sorted, Inr ())"
proof -
  have t: "topo_start run_graph = \<lparr>indegree = [0, 0], queue = [1], head = 0, order = []\<rparr>"
    by (simp add: topo_start_def op_indegree_def run_graph_eq)
  show ?thesis
    unfolding pai_graph_topo_sort_def t run_sorted_def
    by (subst while_option_unfold, simp, subst while_option_unfold)
      (simp add: topo_step_def release_value_def release_op_def run_graph_eq set_epochs_def)
qed

lemma run_graph_plan:
  obtains mp where "graph_memory_plan_impl True key_sort run_graph False = Some (run_sorted, Inr mp)"
    "graph_wf run_sorted" "epochs_ok run_sorted"
    "\<forall>v \<in> {1 .. 2}. pai_graph_mem_plan_offset mp v + 16 \<le> vregion_bytes mp"
proof -
  have n: "0 < num_ops run_graph" "graph_bytes run_graph < 2 ^ 64" by (simp_all add: run_graph_eq graph_bytes_def)
  obtain h mp where p: "graph_memory_plan_impl True key_sort run_graph False = Some (h, Inr mp)" "graph_wf h" "epochs_ok h" "vals h = vals run_graph"
    "\<forall>v \<in> {1 .. num_values h}. unat (valign (val_of h v)) dvd pai_graph_mem_plan_offset mp v \<and>
       pai_graph_mem_plan_offset mp v + unat (vsize (val_of h v)) \<le> vregion_bytes mp"
    using memory_plan_facts [OF run_graph_built run_graph_acyclic n key_sort_ok, of False] by blast
  have "is_sorted run_graph = False" "is_sorted run_sorted" by (simp_all add: run_graph_eq run_sorted_def)
  then have h: "h = run_sorted"
    using p(1) run_graph_sort by (auto simp: graph_memory_plan_impl_def pai_graph_value_lifetimes_def split: sum.splits)
  have "pai_graph_mem_plan_offset mp v + 16 \<le> vregion_bytes mp" if "v \<in> {1 .. 2}" for v
  proof -
    have "v = 1 \<or> v = 2" using that by auto
    then show ?thesis
      using p(5) [rule_format, of 1] p(5) [rule_format, of 2] unfolding h by (auto simp: run_sorted_def run_graph_eq)
  qed
  then show ?thesis using that p h by blast
qed

theorem execute_refines_dataflow_witness:
  "\<exists>mp sp m' calls. graph_memory_plan_impl True key_sort run_graph False = Some (run_sorted, Inr mp) \<and>
     pai_sched_build run_sorted mp 0 None = Some (run_sorted, Inr sp) \<and>
     pai_sched_execute_hooked demo_fops (\<lambda>_. True) (\<lambda>_. 0) True run_sorted mp sp 64
       (wrf (replicate (64 + vregion_bytes mp) 0) (value_ptr mp 64 1) [1, 2, 3, 4]) =
       Some (m', calls, Inr \<lparr>steps_executed = 1, rgpu_steps = 0, rcpu_steps = 1\<rparr>) \<and>
     arr m' (value_ptr mp 64 2) [1, 2, 3, 4]"
proof -
  obtain mp where p: "graph_memory_plan_impl True key_sort run_graph False = Some (run_sorted, Inr mp)"
    "graph_wf run_sorted" "epochs_ok run_sorted" "\<forall>v \<in> {1 .. 2}. pai_graph_mem_plan_offset mp v + 16 \<le> vregion_bytes mp"
    using run_graph_plan .
  have two: "v \<in> {1 .. 2} \<Longrightarrow> v = 1 \<or> v = 2" for v :: nat by auto
  have rs: "num_ops run_sorted = 1" "num_values run_sorted = 2" "is_sorted run_sorted" "producer (val_of run_sorted 1) = 0 \<and> producer (val_of run_sorted 2) = 1"
    "op_of run_sorted 1 = \<lparr>kind = 6, inputs = [1], outputs = [2], epoch = 0\<rparr>" "vlen run_sorted 1 = 4" "vlen run_sorted 2 = 4"
    "is_output (val_of run_sorted 2)" "vdtype (val_of run_sorted 1) = PAI_DTYPE_F32" "vdtype (val_of run_sorted 2) = PAI_DTYPE_F32"
    by (simp_all add: run_sorted_def run_graph_eq vlen_def)
  obtain sp where b: "sched_build_impl run_sorted mp 0 None False = Some (run_sorted, Inr sp)"
    "steps sp = map (planned_step run_sorted (map (\<lambda>v. (spec_start run_sorted v, spec_end run_sorted False v)) [1 ..< num_values run_sorted + 1]) 0 None) [0 ..< num_ops run_sorted]"
    "gpu_steps sp = gpu_count (steps sp)" "cpu_steps sp = cpu_count (steps sp)"
    using sched_build_ok [OF p(2,3) rs(3), of 0 None mp False] by (auto simp: PAI_SCHED_BALANCED_def hint_ok_def)
  have "op_at_epoch run_sorted ! 0 = 1" using op_at_epoch_spec(1) [OF p(2,3), of 0] rs(1) by simp
  then have gpu: "gpu_steps sp = 0" "cpu_steps sp = 1"
    using b(2-4) rs by (simp_all add: planned_step_def gpu_count_def cpu_count_def placed_def default_device_def is_compute_kind_def
        op_kinds PAI_SCHED_EXCLUSIVE_def PAI_SCHED_DEV_CPU_def PAI_SCHED_DEV_GPU_def)
  let ?m = "wrf (replicate (64 + vregion_bytes mp) 0) (value_ptr mp 64 1) [1, 2, 3, 4]"
  let ?env = "\<lambda>_. [1, 2, 3, 4] :: u32 list"
  have fits: "value_ptr mp 64 1 + 4 * length [1, 2, 3, 4 :: u32] \<le> length (replicate (64 + vregion_bytes mp) (0 :: u8))"
    using p(4) [rule_format, of 1] by (simp add: value_ptr_def)
  have len: "length ?m = 64 + vregion_bytes mp" using fits by simp
  have init: "\<forall>v \<in> {1 .. num_values run_sorted}. producer (val_of run_sorted v) = 0 \<longrightarrow> vdtype (val_of run_sorted v) = PAI_DTYPE_F32 \<longrightarrow>
      arr ?m (value_ptr mp 64 v) (?env v) \<and> length (?env v) = vlen run_sorted v"
  proof (intro ballI impI)
    fix v assume "v \<in> {1 .. num_values run_sorted}" "producer (val_of run_sorted v) = 0"
    then have "v = 1" using rs(2,4) by (cases "v = 2") auto
    then show "arr ?m (value_ptr mp 64 v) (?env v) \<and> length (?env v) = vlen run_sorted v"
      using arr_wrf [OF fits] rs(6) by simp
  qed
  have conv: "\<forall>u \<in> {1 .. num_ops run_sorted}. convert_sizes run_sorted (op_of run_sorted u)"
    using rs by (auto simp: convert_sizes_def op_kinds)
  have chk: "op_check ok run_sorted (op_of run_sorted 1) = Inr ()" for ok
    using rs by (simp add: op_check_def all_f32_def kind_check_def op_kinds unary_shape_def)
  obtain m' calls res where r: "pai_sched_execute_hooked demo_fops (\<lambda>_. True) (\<lambda>_. 0) True run_sorted mp sp 64 ?m = Some (m', calls, res)"
    "case res of
       Inl e \<Rightarrow> \<exists>u \<in> {1 .. num_ops run_sorted}. op_check True run_sorted (op_of run_sorted u) = Inl e
     | Inr stats \<Rightarrow> (\<forall>u \<in> {1 .. num_ops run_sorted}. op_check True run_sorted (op_of run_sorted u) = Inr ()) \<and>
         stats = \<lparr>steps_executed = num_ops run_sorted, rgpu_steps = gpu_steps sp, rcpu_steps = cpu_steps sp\<rparr> \<and>
         calls = hook_calls True (\<lambda>_. 0) 0 (steps sp) \<and>
         (\<exists>env'. (\<forall>v \<in> {1 .. num_values run_sorted}. producer (val_of run_sorted v) = 0 \<longrightarrow> env' v = ?env v) \<and>
            (\<forall>u \<in> {1 .. num_ops run_sorted}. \<exists>w. outputs (op_of run_sorted u) = [w] \<and> env' w = op_value demo_fops run_sorted (op_of run_sorted u) env') \<and>
            (\<forall>v \<in> {1 .. num_values run_sorted}. is_output (val_of run_sorted v) \<or> False \<and> producer (val_of run_sorted v) = 0 \<longrightarrow>
               vdtype (val_of run_sorted v) = PAI_DTYPE_F32 \<longrightarrow> arr m' (value_ptr mp 64 v) (env' v)))"
    using execute_refines_dataflow [OF run_graph_built run_graph_acyclic _ _ key_sort_ok p(1) b(1) _ _ conv init, of demo_fops "\<lambda>_. True" "\<lambda>_. 0" True] len
    by (auto simp: run_graph_eq graph_bytes_def)
  have ok: "res = Inr \<lparr>steps_executed = 1, rgpu_steps = 0, rcpu_steps = 1\<rparr>"
    using r(2) chk rs(1) gpu by (cases res) auto
  obtain env' where f: "\<forall>v \<in> {1 .. num_values run_sorted}. producer (val_of run_sorted v) = 0 \<longrightarrow> env' v = ?env v"
    "\<forall>u \<in> {1 .. num_ops run_sorted}. \<exists>w. outputs (op_of run_sorted u) = [w] \<and> env' w = op_value demo_fops run_sorted (op_of run_sorted u) env'"
    "\<forall>v \<in> {1 .. num_values run_sorted}. is_output (val_of run_sorted v) \<or> False \<and> producer (val_of run_sorted v) = 0 \<longrightarrow>
       vdtype (val_of run_sorted v) = PAI_DTYPE_F32 \<longrightarrow> arr m' (value_ptr mp 64 v) (env' v)"
    using r(2) unfolding ok sum.case by blast
  have e: "env' 1 = [1, 2, 3, 4]" "env' 2 = op_value demo_fops run_sorted (op_of run_sorted 1) env'" "arr m' (value_ptr mp 64 2) (env' 2)"
    using f(1) [rule_format, of 1] f(2) [rule_format, of 1] f(3) [rule_format, of 2] rs by simp_all
  have "env' 2 = [1, 2, 3, 4]"
    using e(1,2) rs(5) by (simp add: op_value_def kind_value_def op_kinds relu_spec_def demo_fops_def f0_def)
  then show ?thesis using p(1) b(1) r(1) ok e(3) unfolding pai_sched_build_def by auto
qed

lemma sched_build_sorted:
  assumes "sorted_graph g = Some (h, Inr ())" "is_sorted h" "0 \<le> pol" "pol \<le> PAI_SCHED_BALANCED"
  shows "sched_build_impl g mp pol hints persistent = sched_build_impl h mp pol hints persistent"
  using assms unfolding sched_build_impl_def sorted_graph_def by simp

text \<open>C28. The plan of the scheduler is exact: with a valid policy and valid hints it is built; step \<open>s\<close> carries the
  op of epoch \<open>s\<close>, placed by its hint or its default; its live bytes are the sizes of the values live at \<open>s\<close>, and the bytes it
  produces and releases are those of the values that start and end there.\<close>

theorem sched_build_exact:
  assumes "built g" and "acyclic (deps g)" and "graph_bytes g < 2 ^ 64" and "0 \<le> pol" and "pol \<le> PAI_SCHED_BALANCED"
    and "\<forall>u \<in> {1 .. num_ops g}. hint_ok hints u"
  shows "\<exists>h sp. sched_build_impl g mp pol hints persistent = Some (h, Inr sp) \<and> epochs_ok h \<and> vals h = vals g \<and>
    length (steps sp) = num_ops h \<and> gpu_steps sp + cpu_steps sp = num_ops h \<and>
    (\<forall>s < num_ops h. op_id (steps sp ! s) \<in> {1 .. num_ops h} \<and> epoch (op_of h (op_id (steps sp ! s))) = s \<and>
       device (steps sp ! s) = placed h pol hints (op_id (steps sp ! s)) \<and>
       unat (live_bytes (steps sp ! s)) = bytes_of h (\<lambda>v. spec_start h v \<le> s \<and> s < spec_end h persistent v) \<and>
       unat (produced_bytes (steps sp ! s)) = bytes_of h (\<lambda>v. spec_start h v = s) \<and>
       unat (released_bytes (steps sp ! s)) = bytes_of h (\<lambda>v. spec_end h persistent v = s))"
proof -
  have wf: "graph_wf g" using built_wf [OF assms(1)] .
  obtain h where h: "sorted_graph g = Some (h, Inr ())" "graph_wf h" "epochs_ok h" "is_sorted h" "vals h = vals g"
    "map inputs (ops h) = map inputs (ops g)"
    using sorted_graph_ok [OF wf assms(2)] by metis
  have n: "num_ops h = num_ops g" using h(6) by (metis length_map)
  then have hh: "\<forall>u \<in> {1 .. num_ops h}. hint_ok hints u" using assms(6) by simp
  have gb: "graph_bytes h < 2 ^ 64" using assms(3) h(5) by (simp add: graph_bytes_def)
  let ?ls = "map (\<lambda>v. (spec_start h v, spec_end h persistent v)) [1 ..< num_values h + 1]"
  obtain sp where sp: "sched_build_impl h mp pol hints persistent = Some (h, Inr sp)"
    "steps sp = map (planned_step h ?ls pol hints) [0 ..< num_ops h]" "gpu_steps sp = gpu_count (steps sp)" "cpu_steps sp = cpu_count (steps sp)"
    by (rule sched_build_ok [OF h(2,3,4) assms(4,5) hh, where mp = mp and persistent = persistent]) blast
  have st: "steps sp ! s = planned_step h ?ls pol hints s" if "s < num_ops h" for s using sp(2) that by simp
  have "op_id (steps sp ! s) \<in> {1 .. num_ops h} \<and> epoch (op_of h (op_id (steps sp ! s))) = s \<and>
       device (steps sp ! s) = placed h pol hints (op_id (steps sp ! s)) \<and>
       unat (live_bytes (steps sp ! s)) = bytes_of h (\<lambda>v. spec_start h v \<le> s \<and> s < spec_end h persistent v) \<and>
       unat (produced_bytes (steps sp ! s)) = bytes_of h (\<lambda>v. spec_start h v = s) \<and>
       unat (released_bytes (steps sp ! s)) = bytes_of h (\<lambda>v. spec_end h persistent v = s)" if s: "s < num_ops h" for s
    using op_at_epoch_spec [OF h(2,3) s] live_partition [OF h(2,3) gb s refl, of persistent]
      sum_sizes_spec [OF gb refl, where P = "\<lambda>st en. st = s" and a = "spec_start h" and b = "spec_end h persistent"]
      sum_sizes_spec [OF gb refl, where P = "\<lambda>st en. en = s" and a = "spec_start h" and b = "spec_end h persistent"]
    unfolding st [OF s] planned_step_def Let_def by (simp del: upt_Suc)
  moreover have "gpu_steps sp + cpu_steps sp = num_ops h"
    using sum_length_filter_compl [of "\<lambda>st. device st = PAI_SCHED_DEV_GPU" "steps sp"] sp(2-4) by (simp add: gpu_count_def cpu_count_def)
  ultimately show ?thesis
    using sp(1,2) h(3,5) sched_build_sorted [OF h(1,4) assms(4,5), of mp hints persistent] by (intro exI [of _ h] exI [of _ sp]) simp
qed

definition demo_mem_plan :: pai_graph_mem_plan where
  "demo_mem_plan = \<lparr>base = plan_empty, voffsets = [0, 64], vregion_bytes = 128, vnaive_bytes = 32, vpeak_live = 32\<rparr>"

theorem sched_build_exact_witness:
  "\<exists>h sp. sched_build_impl run_graph demo_mem_plan 2 (Some (\<lambda>u. PAI_SCHED_DEV_ANY)) True = Some (h, Inr sp) \<and>
     epochs_ok h \<and> gpu_steps sp + cpu_steps sp = num_ops h"
proof -
  have "graph_bytes run_graph < 2 ^ 64" "(0 :: int) \<le> 2" "2 \<le> PAI_SCHED_BALANCED"
    "\<forall>u \<in> {1 .. num_ops run_graph}. hint_ok (Some (\<lambda>u. PAI_SCHED_DEV_ANY)) u"
    by (simp_all add: run_graph_eq graph_bytes_def PAI_SCHED_BALANCED_def hint_ok_def)
  from sched_build_exact [OF run_graph_built run_graph_acyclic this, of demo_mem_plan True] show ?thesis by blast
qed

section \<open>Conversions of unequal size\<close>

text \<open>A \<open>CONVERT\<close> whose output has fewer elements than its input succeeds and writes the surplus elements behind the
  storage of its output.\<close>

theorem convert_overruns:
  assumes "kind p = PAI_OP_CONVERT" and "inputs p = [a]" and "outputs p = [c]" and "all_f32 g p"
    and "f32_value g a" and "arr m (value_ptr mp region a) xs" and "length xs = vlen g a" and "vlen g c < vlen g a"
    and "region \<noteq> 0" and "value_ptr mp region c + 4 * vlen g a \<le> length m"
    and "clear (value_ptr mp region a) (vlen g a) (value_ptr mp region c) (vlen g a)"
  shows "\<exists>m'. exec_op F ok g mp region p m = Some (m', Inr ()) \<and>
    (\<forall>i. vlen g c \<le> i \<and> i < vlen g a \<longrightarrow> ldf m' (value_ptr mp region c + 4 * i) = Some (xs ! i))"
proof -
  have "pai_ref_copy_f32 (value_ptr mp region a) (value_ptr mp region c) (vlen g a) m = done_with m (value_ptr mp region c) xs"
    by (rule copy_correct [OF assms(6,7,10,11)]) (use assms(8,9) in \<open>simp_all add: value_ptr_def\<close>)
  then have "exec_op F ok g mp region p m = Some (wrf m (value_ptr mp region c) xs, Inr ())"
    using assms(1-4) nelem_unat [OF assms(5)]
    by (simp add: exec_op_def all_f32_def exec_kind_def op_kinds Let_def done_with_def)
  then show ?thesis using ldf_wrf_same [of "value_ptr mp region c" xs m] assms(7,10) by auto
qed


definition convert_graph :: pai_graph where
  "convert_graph =
     fst (pai_graph_add_op (fst (pai_graph_add_value (fst (pai_graph_add_value pai_graph_init PAI_DTYPE_F32 [4] 0))
       PAI_DTYPE_F32 [2] 0)) PAI_OP_CONVERT [1] [2])"

lemma convert_graph_eq:
  "vals convert_graph = [\<lparr>vdtype = PAI_DTYPE_F32, vshape = [4], vsize = 16, valign = 16, producer = 0, is_input = False, is_output = False\<rparr>,
      \<lparr>vdtype = PAI_DTYPE_F32, vshape = [2], vsize = 8, valign = 16, producer = 1, is_input = False, is_output = False\<rparr>]"
  "ops convert_graph = [\<lparr>kind = PAI_OP_CONVERT, inputs = [1], outputs = [2], epoch = 0\<rparr>]"
  by (simp_all add: convert_graph_def pai_graph_add_op_def pai_graph_add_value_def pai_graph_init_def
      pai_tensor_contiguous_size_def PAI_TENSOR_MAX_RANK_def pai_dtype_size_def
      PAI_GRAPH_MAX_VALUES_def PAI_GRAPH_MAX_OPS_def PAI_GRAPH_MAX_ARITY_def op_inputs_ok_def
      set_producer_def)

theorem convert_overruns_witness:
  "\<exists>m'. exec_op demo_fops True convert_graph demo_mem_plan 16 (op_of convert_graph 1) (wrf (replicate 200 0) 16 [5, 6, 7, 8]) = Some (m', Inr ()) \<and>
     ldf m' (value_ptr demo_mem_plan 16 2 + 4 * 2) = Some 7"
proof -
  let ?m = "wrf (replicate 200 0) 16 [5, 6, 7, 8]" and ?p = "op_of convert_graph 1"
  have p: "kind ?p = PAI_OP_CONVERT" "inputs ?p = [1]" "outputs ?p = [2]" by (simp_all add: convert_graph_eq)
  have v: "value_ptr demo_mem_plan 16 1 = 16" "value_ptr demo_mem_plan 16 2 = 80"
    by (simp_all add: value_ptr_def pai_graph_mem_plan_offset_def demo_mem_plan_def PAI_GRAPH_MAX_VALUES_def)
  have l: "vlen convert_graph 1 = 4" "vlen convert_graph 2 = 2" by (simp_all add: vlen_def convert_graph_eq)
  have f: "all_f32 convert_graph ?p" "f32_value convert_graph 1"
    using p l by (simp_all add: all_f32_def f32_value_def convert_graph_eq)
  have a: "arr ?m (value_ptr demo_mem_plan 16 1) [5, 6, 7, 8]" unfolding v by (rule arr_wrf) simp
  have "\<exists>m'. exec_op demo_fops True convert_graph demo_mem_plan 16 ?p ?m = Some (m', Inr ()) \<and>
      (\<forall>i. vlen convert_graph 2 \<le> i \<and> i < vlen convert_graph 1 \<longrightarrow> ldf m' (value_ptr demo_mem_plan 16 2 + 4 * i) = Some ([5, 6, 7, 8] ! i))"
    by (rule convert_overruns [OF p f a]) (simp_all add: l v clear_def del: One_nat_def)
  then obtain m' where m': "exec_op demo_fops True convert_graph demo_mem_plan 16 ?p ?m = Some (m', Inr ())"
    "\<forall>i. vlen convert_graph 2 \<le> i \<and> i < vlen convert_graph 1 \<longrightarrow> ldf m' (value_ptr demo_mem_plan 16 2 + 4 * i) = Some ([5, 6, 7, 8] ! i)"
    by blast
  have "ldf m' (value_ptr demo_mem_plan 16 2 + 4 * 2) = Some 7" using m'(2) [rule_format, of 2] unfolding l by simp
  then show ?thesis using m'(1) by blast
qed

end
