(* ===== verification/Sched_Gate.thy ===== *)
theory Sched_Gate
  imports Sched_Exec
begin

text \<open>
  The registry gate in front of the executor (\<^verbatim>\<open>pai_sched_execute_vtable\<close>) and the session
  table of \<^verbatim>\<open>scheduler/scheduler.c\<close>. The built-in registry fits its table and has a CPU
  reference kernel for every op kind that has a name, so the gate refuses a plan exactly when one of its
  ops has none. The session table refines a map from session ids to their priority and policy.
\<close>

section \<open>Kernel selection\<close>

lemma register_all_fits:
  "length (reg_ops reg) + length ds \<le> PAI_OP_REGISTRY_MAX_OPS \<Longrightarrow>
     register_all reg ds = (reg\<lparr>reg_ops := reg_ops reg @ ds\<rparr>, Inr ())"
  by (induction ds arbitrary: reg) (simp_all add: pai_op_registry_register_def)

definition builtin_registry :: pai_op_registry where
  "builtin_registry = \<lparr>reg_version = 1, reg_ops = s_builtin_ops\<rparr>"

lemmas builtin_tables = s_builtin_ops_def serial_ops_def reference_ops_def integer_ops_def f32_op_def u32_op_def

lemma builtin_ok: "pai_op_registry_builtin = (builtin_registry, Inr ())"
  unfolding pai_op_registry_builtin_def
  by (subst register_all_fits) (simp_all add: pai_op_registry_init_def builtin_registry_def builtin_tables PAI_OP_REGISTRY_MAX_OPS_def)

lemma builtin_lookup:
  assumes "op_registry_name k = Some name"
  shows "\<exists>d. pai_op_registry_lookup builtin_registry name = Some d \<and> op_name d = name \<and> caps d AND PAI_OP_CAP_CPU_REF = PAI_OP_CAP_CPU_REF"
  using assms unfolding op_registry_name_def
  by (auto simp: pai_op_registry_lookup_def builtin_registry_def builtin_tables gpu_caps_def op_caps split: if_splits)


lemma registry_default: "registry_or_builtin None = Inr builtin_registry"
  by (simp add: registry_or_builtin_def builtin_ok)

lemma select_builtin:
  assumes "0 < u" "u \<le> num_ops g"
  shows "case op_registry_name (kind (op_of g u)) of
      None \<Rightarrow> pai_kernel_select g u (Some builtin_registry) = Inl PAI_ERR_UNSUPPORTED
    | Some name \<Rightarrow> \<exists>e. pai_kernel_select g u (Some builtin_registry) = Inr e \<and> kop_name e = name \<and>
        kkind e = kind (op_of g u) \<and> kdevice e = default_device (kind (op_of g u)) \<and>
        kcaps e AND PAI_OP_CAP_CPU_REF = PAI_OP_CAP_CPU_REF"
proof (cases "op_registry_name (kind (op_of g u))")
  case None
  then show ?thesis using assms by (simp add: pai_kernel_select_def registry_or_builtin_def)
next
  case (Some name)
  then show ?thesis using assms builtin_lookup [OF Some] by (auto simp: pai_kernel_select_def registry_or_builtin_def)
qed

lemma check_steps_builtin:
  assumes "\<forall>st \<in> set sts. 0 < op_id st \<and> op_id st \<le> num_ops g"
  shows "check_steps g PAI_OP_CAP_CPU_REF builtin_registry sts =
     (if \<forall>st \<in> set sts. op_registry_name (kind (op_of g (op_id st))) \<noteq> None then Inr () else Inl PAI_ERR_UNSUPPORTED)"
  using assms
proof (induction sts)
  case (Cons st sts)
  then show ?case using select_builtin [of "op_id st" g]
    by (cases "op_registry_name (kind (op_of g (op_id st)))") auto
qed simp

text \<open>The gate of the registry-driven executor: for a plan whose op ids are ops of the graph,
  \<^verbatim>\<open>pai_sched_execute_vtable\<close> runs the plan as \<^verbatim>\<open>pai_sched_execute\<close> does when every
  op kind has a kernel name, and otherwise it returns PAI_ERR_UNSUPPORTED before any byte of the region
  is written. (The built-in registry never lacks a named kernel or its CPU reference.)
\<close>

theorem vtable_gate:
  assumes "\<forall>st \<in> set (steps plan). 0 < op_id st \<and> op_id st \<le> num_ops g"
  shows "pai_sched_execute_vtable F mem wall g mp plan region m =
     (if \<forall>st \<in> set (steps plan). op_registry_name (kind (op_of g (op_id st))) \<noteq> None
      then pai_sched_execute F mem wall g mp plan region m
      else Some (m, [], Inl PAI_ERR_UNSUPPORTED))"
  by (simp add: pai_sched_execute_vtable_def pai_kernel_plan_check_def registry_default check_steps_builtin [OF assms] del: not_None_eq)

text \<open>A graph whose only op has a kind without a kernel, and the plan that runs it.\<close>

definition unnamed_graph :: pai_graph where
  "unnamed_graph = convert_graph\<lparr>ops := [(op_of convert_graph 1)\<lparr>kind := 99\<rparr>]\<rparr>"

definition unnamed_plan :: pai_sched_plan where
  "unnamed_plan = \<lparr>steps = [\<lparr>op_id = 1, device = PAI_SCHED_DEV_CPU, sepoch = 0, live_bytes = 0, produced_bytes = 0, released_bytes = 0\<rparr>],
     policy = 0, sregion_bytes = 0, snaive_bytes = 0, speak_live = 0, gpu_steps = 0, cpu_steps = 1\<rparr>"

theorem vtable_gate_witness:
  "pai_sched_execute_vtable demo_fops (\<lambda>_. True) (\<lambda>_. 0) unnamed_graph demo_mem_plan unnamed_plan 16 [1, 2, 3] =
     Some ([1, 2, 3], [], Inl PAI_ERR_UNSUPPORTED)"
proof -
  have g: "\<forall>st \<in> set (steps unnamed_plan). 0 < op_id st \<and> op_id st \<le> num_ops unnamed_graph"
    by (simp add: unnamed_plan_def unnamed_graph_def)
  have "\<not> (\<forall>st \<in> set (steps unnamed_plan). op_registry_name (kind (op_of unnamed_graph (op_id st))) \<noteq> None)"
    by (simp add: unnamed_plan_def unnamed_graph_def op_registry_name_def op_kinds)
  then show ?thesis unfolding vtable_gate [OF g] by (rule if_not_P)
qed

section \<open>Sessions\<close>

text \<open>
  Requests on the table, and the specification they refine: a finite map from ids to priority and
  policy, with the next id to hand out.
\<close>

datatype session_req = Create int u8 | Destroy u64

type_synonym session_map = "u64 \<rightharpoonup> int \<times> u8"

fun session_step :: "pai_sched_sessions \<Rightarrow> session_req \<Rightarrow> pai_sched_sessions \<times> u64 res" where
  "session_step ss (Create p pol) = pai_sched_session_create ss p pol"
| "session_step ss (Destroy i) = (case pai_sched_session_destroy ss i of (ss', Inl e) \<Rightarrow> (ss', Inl e) | (ss', Inr _) \<Rightarrow> (ss', Inr i))"

fun session_run :: "pai_sched_sessions \<Rightarrow> session_req list \<Rightarrow> pai_sched_sessions \<times> u64 res list" where
  "session_run ss [] = (ss, [])"
| "session_run ss (r # rs) =
     (case session_step ss r of (ss', a) \<Rightarrow> case session_run ss' rs of (t, as) \<Rightarrow> (t, a # as))"

fun spec_step :: "session_map \<times> u64 \<Rightarrow> session_req \<Rightarrow> (session_map \<times> u64) \<times> u64 res" where
  "spec_step (M, n) (Create p pol) =
     (if uint pol > PAI_SCHED_BALANCED then ((M, n), Inl PAI_ERR_INVALID_ARG)
      else if card (dom M) = PAI_SCHED_MAX_SESSIONS then ((M, n), Inl PAI_ERR_NOMEM)
      else ((M(n \<mapsto> (p, pol)), n + 1), Inr n))"
| "spec_step (M, n) (Destroy i) =
     (if i = 0 then ((M, n), Inl PAI_ERR_INVALID_ARG)
      else if M i = None then ((M, n), Inl PAI_ERR_MISMATCH)
      else ((M(i := None), n), Inr i))"

fun spec_run :: "session_map \<times> u64 \<Rightarrow> session_req list \<Rightarrow> (session_map \<times> u64) \<times> u64 res list" where
  "spec_run S [] = (S, [])"
| "spec_run S (r # rs) = (case spec_step S r of (S', a) \<Rightarrow> case spec_run S' rs of (T, as) \<Rightarrow> (T, a # as))"

text \<open>
  The abstraction: the active slots as a map. \<open>sessions_ok n\<close> is the invariant of the table after
  fewer than \<open>n\<close> creations.
\<close>

definition live_slots :: "pai_sched_sessions \<Rightarrow> pai_sched_session list" where
  "live_slots ss = filter active (slots ss)"

definition entry_of :: "pai_sched_session \<Rightarrow> u64 \<times> int \<times> u8" where
  "entry_of s = (sid s, priority s, spolicy s)"

definition sessions_of :: "pai_sched_sessions \<Rightarrow> session_map" where
  "sessions_of ss = map_of (map entry_of (live_slots ss))"

definition sessions_ok :: "nat \<Rightarrow> pai_sched_sessions \<Rightarrow> bool" where
  "sessions_ok n ss \<longleftrightarrow> length (slots ss) = PAI_SCHED_MAX_SESSIONS \<and> distinct (map sid (live_slots ss)) \<and>
     (\<forall>s \<in> set (live_slots ss). 0 < sid s \<and> sid s < next_id ss) \<and> unat (scount ss) = length (live_slots ss) \<and>
     0 < next_id ss \<and> unat (next_id ss) \<le> n"

lemma first_slot_Some:
  assumes "first_slot P i xs = Some k"
  obtains ys x zs where "xs = ys @ x # zs" "k = i + length ys" "P x" "\<forall>y \<in> set ys. \<not> P y"
  using assms
proof (induction xs arbitrary: i thesis)
  case (Cons a xs)
  show ?case
  proof (cases "P a")
    case True
    then show ?thesis using Cons.prems(1) [of "[]" a xs] Cons.prems(2) by simp
  next
    case False
    then obtain ys x zs where d: "xs = ys @ x # zs" "k = Suc i + length ys" "P x" "\<forall>y \<in> set ys. \<not> P y"
      using Cons.IH [of "Suc i"] Cons.prems(2) by auto
    then show ?thesis using Cons.prems(1) [of "a # ys" x zs] False by simp
  qed
qed simp

lemma first_slot_None: "first_slot P i xs = None \<longleftrightarrow> (\<forall>x \<in> set xs. \<not> P x)"
  by (induction xs arbitrary: i) auto

lemma sessions_of_card:
  assumes "distinct (map sid (live_slots ss))" shows "card (dom (sessions_of ss)) = length (live_slots ss)"
proof -
  have "dom (sessions_of ss) = sid ` set (live_slots ss)"
    by (force simp: sessions_of_def dom_map_of_conv_image_fst entry_of_def)
  then show ?thesis using assms by (metis distinct_card length_map set_map)
qed

lemma sessions_of_None: "sessions_of ss i = None \<longleftrightarrow> (\<forall>s \<in> set (slots ss). \<not> (active s \<and> sid s = i))"
  by (force simp: sessions_of_def live_slots_def map_of_eq_None_iff entry_of_def)

lemma map_of_middle:
  assumes "k \<notin> fst ` set xs" shows "map_of (xs @ (k, v) # ys) = (map_of (xs @ ys))(k \<mapsto> v)"
  using assms by (induction xs) (auto simp: fun_upd_twist)

lemma map_of_drop_middle:
  assumes "distinct (map fst (xs @ (k, v) # ys))" shows "map_of (xs @ ys) = (map_of (xs @ (k, v) # ys))(k := None)"
  using assms
proof (induction xs)
  case Nil
  then have "k \<notin> fst ` set ys" by simp
  then show ?case by (simp add: fun_eq_iff map_of_eq_None_iff)
next
  case (Cons a xs)
  then show ?case by (auto simp: fun_upd_twist)
qed

lemma create_refines:
  assumes "sessions_ok n ss" "n < 2 ^ 64 - 1" "pai_sched_session_create ss p pol = (ss', a)"
  shows "sessions_ok (Suc n) ss' \<and> spec_step (sessions_of ss, next_id ss) (Create p pol) = ((sessions_of ss', next_id ss'), a)"
proof -
  let ?c = "card (dom (sessions_of ss))"
  have len: "length (slots ss) = PAI_SCHED_MAX_SESSIONS" and d: "distinct (map sid (live_slots ss))"
    and lt: "\<forall>s \<in> set (live_slots ss). 0 < sid s \<and> sid s < next_id ss"
    and cnt: "unat (scount ss) = length (live_slots ss)" and nx: "0 < next_id ss" "unat (next_id ss) \<le> n"
    using assms(1) by (auto simp: sessions_ok_def)
  have c: "?c = length (live_slots ss)" by (rule sessions_of_card [OF d])
  have keep: "sessions_ok (Suc n) ss" using assms(1) by (auto simp: sessions_ok_def)
  consider "uint pol > PAI_SCHED_BALANCED"
    | "\<not> uint pol > PAI_SCHED_BALANCED" "first_slot (\<lambda>s. \<not> active s) 0 (slots ss) = None"
    | k where "\<not> uint pol > PAI_SCHED_BALANCED" "first_slot (\<lambda>s. \<not> active s) 0 (slots ss) = Some k"
    by (cases "first_slot (\<lambda>s. \<not> active s) 0 (slots ss)") auto
  then show ?thesis
  proof cases
    case 1
    then show ?thesis using assms(3) keep by (auto simp: pai_sched_session_create_def)
  next
    case 2
    then have "live_slots ss = slots ss" by (simp add: first_slot_None live_slots_def)
    then show ?thesis using assms(3) keep 2 c len by (auto simp: pai_sched_session_create_def)
  next
    case 3
    obtain ys x zs where xs: "slots ss = ys @ x # zs" "k = length ys" "\<not> active x"
      using first_slot_Some [OF 3(2)] by (metis add_0)
    let ?x = "\<lparr>sid = next_id ss, priority = p, spolicy = pol, active = True\<rparr>"
    have s': "slots ss' = ys @ ?x # zs" "scount ss' = scount ss + 1" "next_id ss' = next_id ss + 1" "a = Inr (next_id ss)"
      using assms(3) 3 xs by (auto simp: pai_sched_session_create_def)
    have l: "live_slots ss = filter active ys @ filter active zs"
      "live_slots ss' = filter active ys @ ?x # filter active zs"
      using xs s' by (simp_all add: live_slots_def)
    have few: "length (live_slots ss) < PAI_SCHED_MAX_SESSIONS"
      using len xs(1) length_filter_le [of active ys] length_filter_le [of active zs] unfolding l(1) length_append by (simp, linarith)
    have n1: "unat (next_id ss + 1) = Suc (unat (next_id ss))" using nx assms(2) by (simp add: unat_add_lem [THEN iffD1])
    have sc: "unat (scount ss + 1) = Suc (unat (scount ss))"
      using few cnt by (simp add: PAI_SCHED_MAX_SESSIONS_def unat_add_lem [THEN iffD1])
    have fresh: "next_id ss \<notin> sid ` set (live_slots ss)" using lt by auto
    have up: "next_id ss < next_id ss + 1" using n1 by (simp add: word_less_nat_alt)
    have ok: "sessions_ok (Suc n) ss'"
      using len d lt cnt nx n1 sc fresh up xs s' l unfolding sessions_ok_def by (auto intro: less_trans)
    have x: "entry_of ?x = (next_id ss, p, pol)" by (simp add: entry_of_def)
    have "sessions_of ss' = (sessions_of ss)(next_id ss \<mapsto> (p, pol))"
      unfolding sessions_of_def l map_append list.map x using fresh unfolding l
      by (intro map_of_middle) (auto simp: entry_of_def)
    then show ?thesis using ok 3 c few s' by simp
  qed
qed


lemma destroy_refines:
  assumes "sessions_ok n ss" "session_step ss (Destroy i) = (ss', a)"
  shows "sessions_ok (Suc n) ss' \<and> spec_step (sessions_of ss, next_id ss) (Destroy i) = ((sessions_of ss', next_id ss'), a)"
proof -
  have len: "length (slots ss) = PAI_SCHED_MAX_SESSIONS" and d: "distinct (map sid (live_slots ss))"
    and lt: "\<forall>s \<in> set (live_slots ss). 0 < sid s \<and> sid s < next_id ss"
    and cnt: "unat (scount ss) = length (live_slots ss)" and nx: "0 < next_id ss" "unat (next_id ss) \<le> n"
    using assms(1) by (auto simp: sessions_ok_def)
  have keep: "sessions_ok (Suc n) ss" using assms(1) by (auto simp: sessions_ok_def)
  consider "i = 0" | "i \<noteq> 0" "first_slot (\<lambda>s. active s \<and> sid s = i) 0 (slots ss) = None"
    | k where "i \<noteq> 0" "first_slot (\<lambda>s. active s \<and> sid s = i) 0 (slots ss) = Some k"
    by (cases "first_slot (\<lambda>s. active s \<and> sid s = i) 0 (slots ss)") auto
  then show ?thesis
  proof cases
    case 1
    then show ?thesis using assms(2) keep by (auto simp: pai_sched_session_destroy_def)
  next
    case 2
    then have "sessions_of ss i = None" unfolding sessions_of_None first_slot_None by blast
    then show ?thesis using assms(2) keep 2 by (auto simp: pai_sched_session_destroy_def)
  next
    case 3
    obtain ys x zs where xs: "slots ss = ys @ x # zs" "k = length ys" "active x" "sid x = i"
      using first_slot_Some [OF 3(2)] by (metis add_0)
    have s': "slots ss' = ys @ x\<lparr>active := False\<rparr> # zs" "scount ss' = scount ss - 1" "next_id ss' = next_id ss" "a = Inr i"
      using assms(2) 3 xs by (auto simp: pai_sched_session_destroy_def)
    have l: "live_slots ss = filter active ys @ x # filter active zs"
      "live_slots ss' = filter active ys @ filter active zs"
      using xs s' by (simp_all add: live_slots_def)
    have "scount ss \<noteq> 0" using cnt l by auto
    then have sc: "unat (scount ss - 1) = unat (scount ss) - 1" by (simp add: unat_minus_one)
    have ok: "sessions_ok (Suc n) ss'"
      using len d lt cnt nx sc xs s' l unfolding sessions_ok_def by auto
    have e: "entry_of x = (i, priority x, spolicy x)" by (simp add: entry_of_def xs)
    have "distinct (map fst (map entry_of (live_slots ss)))" using d by (simp add: comp_def entry_of_def)
    then have "sessions_of ss' = (sessions_of ss)(i := None)"
      unfolding sessions_of_def l map_append list.map e by (intro map_of_drop_middle) simp
    moreover have "sessions_of ss i \<noteq> None" using xs by (auto simp: sessions_of_None)
    ultimately show ?thesis using ok 3 s' by simp
  qed
qed

lemma step_refines:
  assumes "sessions_ok n ss" "n < 2 ^ 64 - 1" "session_step ss r = (ss', a)"
  shows "sessions_ok (Suc n) ss' \<and> spec_step (sessions_of ss, next_id ss) r = ((sessions_of ss', next_id ss'), a)"
proof (cases r)
  case (Create p pol)
  then show ?thesis using create_refines [OF assms(1,2)] assms(3) by auto
next
  case (Destroy i)
  then show ?thesis using destroy_refines [OF assms(1)] assms(3) by auto
qed

lemma run_refines:
  assumes "sessions_ok n ss" "n + length rs < 2 ^ 64" "session_run ss rs = (ss', as)"
  shows "sessions_ok (n + length rs) ss' \<and> spec_run (sessions_of ss, next_id ss) rs = ((sessions_of ss', next_id ss'), as)"
  using assms
proof (induction rs arbitrary: n ss as)
  case (Cons r rs)
  obtain t a bs where r: "session_step ss r = (t, a)" "session_run t rs = (ss', bs)" "as = a # bs"
    using Cons.prems(3) by (auto split: prod.splits)
  have "sessions_ok (Suc n) t" "spec_step (sessions_of ss, next_id ss) r = ((sessions_of t, next_id t), a)"
    using step_refines [OF Cons.prems(1) _ r(1)] Cons.prems(2) by simp_all
  then show ?case using Cons.IH [of "Suc n" t bs] Cons.prems(2) r by simp
qed simp

lemma init_ok: "sessions_ok 1 pai_sched_sessions_init" "sessions_of pai_sched_sessions_init = Map.empty" "next_id pai_sched_sessions_init = 1"
  by (auto simp: sessions_ok_def pai_sched_sessions_init_def live_slots_def sessions_of_def)

lemma active_iff: "sessions_ok n ss \<Longrightarrow> pai_sched_session_active ss i \<longleftrightarrow> i \<in> dom (sessions_of ss)"
proof -
  assume ok: "sessions_ok n ss"
  have "pai_sched_session_active ss i \<longleftrightarrow> i \<noteq> 0 \<and> sessions_of ss i \<noteq> None"
    by (auto simp: pai_sched_session_active_def sessions_of_None first_slot_None)
  moreover have "sessions_of ss 0 = None"
    using ok by (auto simp: sessions_of_None sessions_ok_def live_slots_def)
  ultimately show ?thesis by (cases "i = 0") (auto simp: dom_def)
qed

text \<open>What the loop of \<^verbatim>\<open>pai_sched_pick_session\<close> has found after \<open>n\<close> slots.\<close>

definition best_slot :: "pai_sched_session list \<Rightarrow> nat \<Rightarrow> int \<Rightarrow> bool" where
  "best_slot sl n b \<longleftrightarrow>
     (if \<forall>i < n. \<not> active (sl ! i) then b = - 1
      else \<exists>k < n. b = int k \<and> active (sl ! k) \<and>
        (\<forall>i < n. active (sl ! i) \<longrightarrow> priority (sl ! i) < priority (sl ! k) \<or> priority (sl ! i) = priority (sl ! k) \<and> k \<le> i))"

lemma best_slot_fold:
  "best_slot sl n (foldl (\<lambda>best i. if \<not> active (sl ! i) then best
       else if best < 0 \<or> priority (sl ! i) > priority (sl ! nat best) then int i else best) (- 1) [0 ..< n])"
proof (induction n)
  case (Suc n)
  let ?b = "foldl (\<lambda>best i. if \<not> active (sl ! i) then best
       else if best < 0 \<or> priority (sl ! i) > priority (sl ! nat best) then int i else best) (- 1) [0 ..< n]"
  show ?case
  proof (cases "\<forall>i < n. \<not> active (sl ! i)")
    case True
    then have "?b = - 1" using Suc by (simp add: best_slot_def)
    then show ?thesis using True by (auto simp: best_slot_def less_Suc_eq)
  next
    case False
    then obtain k where k: "k < n" "?b = int k" "active (sl ! k)"
      "\<forall>i < n. active (sl ! i) \<longrightarrow> priority (sl ! i) < priority (sl ! k) \<or> priority (sl ! i) = priority (sl ! k) \<and> k \<le> i"
      using Suc unfolding best_slot_def if_not_P [OF False] by blast
    have some: "\<not> (\<forall>i < Suc n. \<not> active (sl ! i))" using k by (auto simp: less_Suc_eq)
    show ?thesis
    proof (cases "active (sl ! n) \<and> priority (sl ! k) < priority (sl ! n)")
      case True
      then have "\<forall>i < n. active (sl ! i) \<longrightarrow> priority (sl ! i) < priority (sl ! n)" using k(4) by force
      then show ?thesis using True k some unfolding best_slot_def by (auto simp: less_Suc_eq)
    next
      case False
      then show ?thesis using k some unfolding best_slot_def by (auto simp: less_Suc_eq)
    qed
  qed
qed (simp add: best_slot_def)

text \<open>C38. The session table refines the specification: for every sequence of fewer than $2^{64}-1$ creations
  and destructions from the initial table, the replies (ids and errors) are those of the map
  specification, the count is the number of live sessions, a session is reported active exactly when it
  is in the map, and the session picked is one of highest priority ($-1$ when there is none).
\<close>

theorem sessions_refine:
  assumes "length rs < 2 ^ 64 - 1" "session_run pai_sched_sessions_init rs = (ss, as)"
  shows "\<exists>M n. spec_run (Map.empty, 1) rs = ((M, n), as) \<and> next_id ss = n \<and> unat (scount ss) = card (dom M) \<and>
     (\<forall>i. pai_sched_session_active ss i \<longleftrightarrow> i \<in> dom M) \<and>
     (M = Map.empty \<longleftrightarrow> pai_sched_pick_session ss = - 1) \<and>
     (M \<noteq> Map.empty \<longrightarrow> (\<exists>i p pol. M i = Some (p, pol) \<and> sid (slots ss ! nat (pai_sched_pick_session ss)) = i \<and>
        (\<forall>j q r. M j = Some (q, r) \<longrightarrow> q \<le> p)))"
proof -
  have r: "sessions_ok (1 + length rs) ss" "spec_run (Map.empty, 1) rs = ((sessions_of ss, next_id ss), as)"
    using run_refines [OF init_ok(1) _ assms(2)] assms(1) by (simp_all add: init_ok)
  have ok: "length (slots ss) = PAI_SCHED_MAX_SESSIONS" "distinct (map sid (live_slots ss))"
    "unat (scount ss) = length (live_slots ss)" using r(1) by (auto simp: sessions_ok_def)
  have c: "unat (scount ss) = card (dom (sessions_of ss))" using sessions_of_card ok by simp
  have b: "best_slot (slots ss) PAI_SCHED_MAX_SESSIONS (pai_sched_pick_session ss)"
    unfolding pai_sched_pick_session_def by (rule best_slot_fold)
  have e: "sessions_of ss = Map.empty \<longleftrightarrow> (\<forall>i < PAI_SCHED_MAX_SESSIONS. \<not> active (slots ss ! i))"
    using ok(1) by (auto simp: fun_eq_iff sessions_of_None all_set_conv_all_nth)
  have em: "sessions_of ss = Map.empty \<longleftrightarrow> pai_sched_pick_session ss = - 1"
    using b unfolding best_slot_def e by (auto split: if_splits)
  have "\<exists>i p pol. sessions_of ss i = Some (p, pol) \<and> sid (slots ss ! nat (pai_sched_pick_session ss)) = i \<and>
        (\<forall>j q r. sessions_of ss j = Some (q, r) \<longrightarrow> q \<le> p)" if ne: "sessions_of ss \<noteq> Map.empty"
  proof -
    obtain k where k: "k < PAI_SCHED_MAX_SESSIONS" "pai_sched_pick_session ss = int k" "active (slots ss ! k)"
      "\<forall>i < PAI_SCHED_MAX_SESSIONS. active (slots ss ! i) \<longrightarrow> priority (slots ss ! i) \<le> priority (slots ss ! k)"
      using b ne unfolding best_slot_def e by (auto split: if_splits simp: le_less)
    have in_slots: "\<exists>i < PAI_SCHED_MAX_SESSIONS. active (slots ss ! i) \<and> entry_of (slots ss ! i) = (j, q, r)"
      if "sessions_of ss j = Some (q, r)" for j q r
      using map_of_SomeD [OF that [unfolded sessions_of_def]] ok(1) by (auto simp: live_slots_def in_set_conv_nth)
    have "\<forall>j q r. sessions_of ss j = Some (q, r) \<longrightarrow> q \<le> priority (slots ss ! k)"
      using k(4) in_slots by (fastforce simp: entry_of_def)
    moreover have "sessions_of ss (sid (slots ss ! k)) = Some (priority (slots ss ! k), spolicy (slots ss ! k))"
      unfolding sessions_of_def
    proof (rule map_of_is_SomeI)
      show "distinct (map fst (map entry_of (live_slots ss)))" using ok(2) by (simp add: comp_def entry_of_def)
      show "(sid (slots ss ! k), priority (slots ss ! k), spolicy (slots ss ! k)) \<in> set (map entry_of (live_slots ss))"
        using k ok(1) by (auto simp: live_slots_def entry_of_def image_iff intro!: exI [of _ "slots ss ! k"])
    qed
    ultimately show ?thesis using k(2) by simp
  qed
  then show ?thesis using r(2) c em active_iff [OF r(1)] by blast
qed

definition three_requests :: "session_req list" where
  "three_requests = [Create 5 0, Create 5 1, Destroy 1, Create 5 2]"

theorem sessions_refine_witness:
  "\<exists>M n. spec_run (Map.empty, 1) three_requests = ((M, n), snd (session_run pai_sched_sessions_init three_requests)) \<and> n = 4"
proof -
  have "length three_requests < 2 ^ 64 - 1" by (simp add: three_requests_def)
  from sessions_refine [OF this surjective_pairing]
  obtain M n where "spec_run (Map.empty, 1) three_requests = ((M, n), snd (session_run pai_sched_sessions_init three_requests))"
    "next_id (fst (session_run pai_sched_sessions_init three_requests)) = n" by blast
  moreover have "next_id (fst (session_run pai_sched_sessions_init three_requests)) = 4" by code_simp
  ultimately show ?thesis by blast
qed

text \<open>Sessions of equal priority are picked by slot and not by id: after creating sessions 1 and 2,
  destroying 1 and creating 3, the session picked is 3, though session 2 has the same priority and a
  lower id.
\<close>

theorem pick_ties_by_slot:
  "let ss = fst (session_run pai_sched_sessions_init three_requests) in
     pai_sched_pick_session ss = 0 \<and> sid (slots ss ! 0) = 3 \<and> pai_sched_session_active ss 2 \<and>
     active (slots ss ! 1) \<and> sid (slots ss ! 1) = 2 \<and> priority (slots ss ! 1) = priority (slots ss ! 0)"
  by code_simp

end
