(* ===== verification/Json.thy ===== *)
theory Json
  imports Prelude
begin

text \<open>
  \<^verbatim>\<open>gateway/json.c\<close>: the JSON parser and writer of the gateway. A document keeps its nodes in an
  array linked by indices and its strings in an arena of NUL-terminated entries.

  A text has fewer than $2^{31}$ bytes, so the position is a natural number that does not wrap; the sizes of
  the arena and of the write buffer wrap at 32 bits. Growing an array asks \<^verbatim>\<open>realloc\<close>: the \<open>k\<close>-th
  request succeeds when \<open>A k\<close> does. An access outside an array is \<open>Fault\<close>, a loop that does not end
  is \<open>Diverges\<close>. A double is its bit pattern; the arithmetic of the C implementation, \<^verbatim>\<open>pow\<close> and
  \<^verbatim>\<open>printf\<close> are the parameter \<open>jops\<close>.
\<close>

section \<open>Documents\<close>

definition PAI_JSON_MAX_DEPTH :: nat where "PAI_JSON_MAX_DEPTH = 32"
definition PAI_JSON_MAX_NODES :: u32 where "PAI_JSON_MAX_NODES = 8192"
definition PAI_JSON_MAX_STRING :: u32 where "PAI_JSON_MAX_STRING = 0x100000"

datatype pai_json_type_t =
  PAI_JSON_NULL | PAI_JSON_BOOL | PAI_JSON_NUMBER | PAI_JSON_STRING | PAI_JSON_ARRAY | PAI_JSON_OBJECT

record pai_json_node =
  ntype :: pai_json_type_t
  key :: int
  str :: int
  num :: u64
  boolean :: bool
  first_child :: int
  next_node :: int

text \<open>\<open>num_nodes\<close> is the length of \<open>nodes\<close> and \<open>str_used\<close> the length of \<open>strs\<close>;
  \<open>reallocs\<close> counts the requests to the allocator.\<close>

record pai_json_doc =
  nodes :: "pai_json_node list"
  cap_nodes :: nat
  strs :: bytes
  str_cap :: u32
  root :: int
  reallocs :: nat

record jops =
  jadd :: "u64 \<Rightarrow> u64 \<Rightarrow> u64"
  jmul :: "u64 \<Rightarrow> u64 \<Rightarrow> u64"
  jneg :: "u64 \<Rightarrow> u64"
  jdigit :: "nat \<Rightarrow> u64"
  jpow10 :: "int \<Rightarrow> u64"
  jfmt :: "u64 \<Rightarrow> bytes"

text \<open>Code that updates a state and returns a status.\<close>

type_synonym ('s, 'a) run = "('s \<times> 'a res) outcome"
type_synonym 'a jres = "(pai_json_doc, 'a) run"

definition jbind :: "('s, 'a) run \<Rightarrow> ('s \<Rightarrow> 'a \<Rightarrow> ('s, 'b) run) \<Rightarrow> ('s, 'b) run" where
  "jbind r f =
     (case r of
        Returns (d, Inr x) \<Rightarrow> f d x
      | Returns (d, Inl e) \<Rightarrow> Returns (d, Inl e)
      | Fault \<Rightarrow> Fault
      | Diverges \<Rightarrow> Diverges)"

definition jfail :: "'s \<Rightarrow> pai_err \<Rightarrow> ('s, 'a) run" where
  "jfail d e = Returns (d, Inl e)"

definition jret :: "'s \<Rightarrow> 'a \<Rightarrow> ('s, 'a) run" where
  "jret d x = Returns (d, Inr x)"

definition blank_node :: "pai_json_type_t \<Rightarrow> pai_json_node" where
  "blank_node t = \<lparr>ntype = t, key = - 1, str = - 1, num = 0, boolean = False, first_child = - 1, next_node = - 1\<rparr>"

text \<open>A negative index is an error of the caller's: \<open>PAI_ERR_NOMEM\<close>.\<close>

definition new_node :: "(nat \<Rightarrow> bool) \<Rightarrow> pai_json_doc \<Rightarrow> pai_json_type_t \<Rightarrow> nat jres" where
  "new_node A d t =
     (if of_nat (length (nodes d)) \<ge> PAI_JSON_MAX_NODES then jfail d PAI_ERR_NOMEM
      else
        (let ncap = (if cap_nodes d = 0 then 64 else cap_nodes d * 2); full = (length (nodes d) = cap_nodes d);
             d1 = (if full then d\<lparr>reallocs := Suc (reallocs d)\<rparr> else d)
         in if full \<and> \<not> A (reallocs d) then jfail d1 PAI_ERR_NOMEM
            else
              (let d2 = (if full then d1\<lparr>cap_nodes := ncap\<rparr> else d1)
               in if length (nodes d2) < cap_nodes d2
                  then jret (d2\<lparr>nodes := nodes d2 @ [blank_node t]\<rparr>) (length (nodes d2))
                  else Fault)))"

text \<open>The doubling of a 32-bit capacity; \<open>None\<close> when the loop does not end.\<close>

partial_function (option) double_until :: "u32 \<Rightarrow> u32 \<Rightarrow> u32 option" where
  "double_until need ncap = (if ncap < need then double_until need (ncap * 2) else Some ncap)"

declare double_until.simps [code]

definition store_str :: "pai_json_doc \<Rightarrow> bytes \<Rightarrow> int jres" where
  "store_str d s =
     (if length (strs d) + length s < unat (str_cap d)
      then jret (d\<lparr>strs := strs d @ s @ [0]\<rparr>) (sint (of_nat (length (strs d)) :: u32))
      else Fault)"

definition new_str :: "(nat \<Rightarrow> bool) \<Rightarrow> pai_json_doc \<Rightarrow> bytes \<Rightarrow> int jres" where
  "new_str A d s =
     (if of_nat (length s) > PAI_JSON_MAX_STRING then jret d (- 1)
      else
        (let total = of_nat (length (strs d)) + (of_nat (length s) + 1)
         in if total > str_cap d then
              (case double_until total (if str_cap d = 0 then 1024 else str_cap d) of
                 None \<Rightarrow> Diverges
               | Some ncap \<Rightarrow>
                   (let d1 = d\<lparr>reallocs := Suc (reallocs d)\<rparr>
                    in if A (reallocs d) then store_str (d1\<lparr>str_cap := ncap\<rparr>) s else jret d1 (- 1)))
            else store_str d s))"

section \<open>Lexical level\<close>

text \<open>Character codes: 0x22 quote, 0x5C backslash, 0x2F slash, 0x7B and 0x7D braces, 0x5B and 0x5D brackets, 0x2C comma,
  0x3A colon, 0x2D minus, 0x2B plus, 0x2E full stop.\<close>

definition is_ws :: "u8 \<Rightarrow> bool" where
  "is_ws c \<longleftrightarrow> c = 0x20 \<or> c = 0x09 \<or> c = 0x0A \<or> c = 0x0D"

definition skip_ws :: "bytes \<Rightarrow> nat \<Rightarrow> nat" where
  "skip_ws s pos = pos + length (takeWhile is_ws (drop pos s))"

definition hex_val :: "u8 \<Rightarrow> u32 option" where
  "hex_val c =
     (if 0x30 \<le> c \<and> c \<le> 0x39 then Some (ucast c - 0x30)
      else if 0x61 \<le> c \<and> c \<le> 0x66 then Some (ucast c - 0x61 + 10)
      else if 0x41 \<le> c \<and> c \<le> 0x46 then Some (ucast c - 0x41 + 10)
      else None)"

text \<open>Four hex digits at the head of a text.\<close>

definition hex_step :: "u32 \<Rightarrow> u32 \<Rightarrow> u32" where
  "hex_step cp h = push_bit 4 cp OR h"

fun hex4 :: "bytes \<Rightarrow> u32 option" where
  "hex4 (a # b # c # d # _) =
     (case (hex_val a, hex_val b, hex_val c, hex_val d) of
        (Some a, Some b, Some c, Some d) \<Rightarrow> Some (hex_step (hex_step (hex_step (hex_step 0 a) b) c) d)
      | _ \<Rightarrow> None)"
| "hex4 _ = None"

definition utf8_encode :: "u32 \<Rightarrow> bytes" where
  "utf8_encode u =
     (if u < 0x80 then [ucast u]
      else if u < 0x800 then [ucast (0xC0 OR drop_bit 6 u), ucast (0x80 OR (u AND 0x3F))]
      else if u < 0x10000 then
        [ucast (0xE0 OR drop_bit 12 u), ucast (0x80 OR (drop_bit 6 u AND 0x3F)), ucast (0x80 OR (u AND 0x3F))]
      else
        [ucast (0xF0 OR drop_bit 18 u), ucast (0x80 OR (drop_bit 12 u AND 0x3F)),
         ucast (0x80 OR (drop_bit 6 u AND 0x3F)), ucast (0x80 OR (u AND 0x3F))])"

definition is_digit :: "u8 \<Rightarrow> bool" where
  "is_digit c \<longleftrightarrow> 0x30 \<le> c \<and> c \<le> 0x39"

definition digit :: "u8 \<Rightarrow> nat" where
  "digit c = unat c - 0x30"

definition d_ten :: u64 where "d_ten = 0x4024000000000000"
definition d_tenth :: u64 where "d_tenth = 0x3FB999999999999A"

text \<open>The digits at a position, and the three loops over digits. The exponent is a small integer in a double, exact.\<close>

definition digits_at :: "bytes \<Rightarrow> nat \<Rightarrow> bytes" where
  "digits_at s i = takeWhile is_digit (drop i s)"

definition int_digits :: "jops \<Rightarrow> bytes \<Rightarrow> u64" where
  "int_digits F ds = foldl (\<lambda>v c. jadd F (jmul F v d_ten) (jdigit F (digit c))) 0 ds"

definition frac_digits :: "jops \<Rightarrow> u64 \<Rightarrow> bytes \<Rightarrow> u64" where
  "frac_digits F v ds =
     fst (foldl (\<lambda>(v, frac) c. (jadd F v (jmul F (jdigit F (digit c)) frac), jmul F frac d_tenth)) (v, d_tenth) ds)"

fun exp_digits :: "nat \<Rightarrow> bytes \<Rightarrow> nat option" where
  "exp_digits e [] = Some e"
| "exp_digits e (c # cs) = (let e' = e * 10 + digit c in if e' > 300 then None else exp_digits e' cs)"

definition at :: "bytes \<Rightarrow> nat \<Rightarrow> u8 option" where
  "at s i = (if i < length s then Some (s ! i) else None)"

definition scale_exp :: "jops \<Rightarrow> u64 \<Rightarrow> bool \<Rightarrow> nat \<Rightarrow> u64" where
  "scale_exp F v neg e = (if e \<noteq> 0 then jmul F v (jpow10 F (if neg then - int e else int e)) else v)"

definition parse_exponent :: "jops \<Rightarrow> bytes \<Rightarrow> nat \<Rightarrow> u64 \<Rightarrow> (nat \<times> u64) res" where
  "parse_exponent F s i v =
     (if at s i = Some 0x65 \<or> at s i = Some 0x45 then
        (let sign = (at s (i + 1) = Some 0x2B \<or> at s (i + 1) = Some 0x2D); neg = (at s (i + 1) = Some 0x2D);
             j = (if sign then i + 2 else i + 1); ds = digits_at s j
         in if ds = [] then Inl PAI_ERR_PROTOCOL
            else case exp_digits 0 ds of
                   None \<Rightarrow> Inl PAI_ERR_PROTOCOL
                 | Some e \<Rightarrow> Inr (j + length ds, scale_exp F v neg e))
      else Inr (i, v))"

definition parse_fraction :: "jops \<Rightarrow> bytes \<Rightarrow> nat \<Rightarrow> u64 \<Rightarrow> (nat \<times> u64) res" where
  "parse_fraction F s i v =
     (if at s i = Some 0x2E then
        (let ds = digits_at s (i + 1)
         in if ds = [] then Inl PAI_ERR_PROTOCOL
            else parse_exponent F s (i + 1 + length ds) (frac_digits F v ds))
      else parse_exponent F s i v)"

definition parse_number :: "jops \<Rightarrow> bytes \<Rightarrow> nat \<Rightarrow> (nat \<times> u64) res" where
  "parse_number F s pos =
     (let neg = (at s pos = Some 0x2D); i = (if neg then pos + 1 else pos);
          ds = (if at s i = Some 0x30 then [0x30] else digits_at s i)
      in if ds = [] then Inl PAI_ERR_PROTOCOL
         else case parse_fraction F s (i + length ds) (if at s i = Some 0x30 then 0 else int_digits F ds) of
                Inl e \<Rightarrow> Inl e
              | Inr (j, v) \<Rightarrow> Inr (j, if neg then jneg F v else v))"


text \<open>The escapes of one character, and the surrogate that may follow a high one at \<open>p\<close>.\<close>

definition simple_escape :: "u8 \<Rightarrow> u8 option" where
  "simple_escape e =
     (if e = 0x22 \<or> e = 0x5C \<or> e = 0x2F then Some e
      else if e = 0x62 then Some 0x08
      else if e = 0x66 then Some 0x0C
      else if e = 0x6E then Some 0x0A
      else if e = 0x72 then Some 0x0D
      else if e = 0x74 then Some 0x09
      else None)"

definition high_surrogate :: "u32 \<Rightarrow> bool" where
  "high_surrogate cp \<longleftrightarrow> 0xD800 \<le> cp \<and> cp \<le> 0xDBFF"

definition low_surrogate :: "u32 \<Rightarrow> bool" where
  "low_surrogate cp \<longleftrightarrow> 0xDC00 \<le> cp \<and> cp \<le> 0xDFFF"

definition low_escape :: "bytes \<Rightarrow> u32 option" where
  "low_escape t =
     (if 6 \<le> length t \<and> t ! 0 = 0x5C \<and> t ! 1 = 0x75 then
        (case hex4 (drop 2 t) of None \<Rightarrow> None | Some lo \<Rightarrow> if low_surrogate lo then Some lo else None)
      else None)"

definition code_point :: "bytes \<Rightarrow> u32 \<Rightarrow> nat \<Rightarrow> u32" where
  "code_point s cp p =
     (if high_surrogate cp then
        (case low_escape (drop p s) of
           Some lo \<Rightarrow> 0x10000 + push_bit 10 (cp - 0xD800) + (lo - 0xDC00)
         | None \<Rightarrow> 0xFFFD)
      else if low_surrogate cp then 0xFFFD
      else cp)"

definition after_escape :: "bytes \<Rightarrow> u32 \<Rightarrow> nat \<Rightarrow> nat" where
  "after_escape s cp p = (if high_surrogate cp \<and> low_escape (drop p s) \<noteq> None then p + 6 else p)"

text \<open>Appending to the temporary buffer \<open>tmp\<close> of capacity \<open>cap\<close>.\<close>

definition push_tmp :: "(nat \<Rightarrow> bool) \<Rightarrow> pai_json_doc \<Rightarrow> u32 \<Rightarrow> bytes \<Rightarrow> bytes \<Rightarrow> (u32 \<times> bytes) jres" where
  "push_tmp A d cap tmp bs =
     (let grow = (of_nat (length tmp) + of_nat (length bs) > cap); ncap = (if cap = 0 then 64 else cap * 2);
          d1 = (if grow then d\<lparr>reallocs := Suc (reallocs d)\<rparr> else d); cap1 = (if grow then ncap else cap)
      in if grow \<and> \<not> A (reallocs d) then jfail d1 PAI_ERR_NOMEM
         else if length tmp + length bs \<le> unat cap1 then jret d1 (cap1, tmp @ bs)
         else Fault)"

lemma after_escape_less: "pos < length s \<Longrightarrow> length s - after_escape s cp (pos + 6) < length s - pos"
  by (rule diff_less_mono2) (simp_all add: after_escape_def)

function string_loop :: "(nat \<Rightarrow> bool) \<Rightarrow> bytes \<Rightarrow> pai_json_doc \<Rightarrow> nat \<Rightarrow> u32 \<Rightarrow> bytes \<Rightarrow> (nat \<times> bytes) jres" where
  "string_loop A s d pos cap tmp =
     (if pos \<ge> length s then jfail d PAI_ERR_PROTOCOL
      else if s ! pos = 0x22 then jret d (pos + 1, tmp)
      else if s ! pos = 0x5C then
        (if pos + 1 \<ge> length s then jfail d PAI_ERR_PROTOCOL
         else if s ! (pos + 1) = 0x75 then
           (case hex4 (drop (pos + 2) s) of
              None \<Rightarrow> jfail d PAI_ERR_PROTOCOL
            | Some cp \<Rightarrow>
                jbind (push_tmp A d cap tmp (utf8_encode (code_point s cp (pos + 6))))
                  (\<lambda>d (cap, tmp). string_loop A s d (after_escape s cp (pos + 6)) cap tmp))
         else
           (case simple_escape (s ! (pos + 1)) of
              None \<Rightarrow> jfail d PAI_ERR_PROTOCOL
            | Some c \<Rightarrow> jbind (push_tmp A d cap tmp [c]) (\<lambda>d (cap, tmp). string_loop A s d (pos + 2) cap tmp)))
      else if s ! pos < 0x20 then jfail d PAI_ERR_PROTOCOL
      else jbind (push_tmp A d cap tmp [s ! pos]) (\<lambda>d (cap, tmp). string_loop A s d (pos + 1) cap tmp))"
  by pat_completeness auto
termination
  by (relation "measure (\<lambda>(A, s, d, pos, cap, tmp). length s - pos)") (auto simp: after_escape_less)

declare string_loop.simps [simp del]

definition parse_string :: "(nat \<Rightarrow> bool) \<Rightarrow> bytes \<Rightarrow> pai_json_doc \<Rightarrow> nat \<Rightarrow> (nat \<times> int) jres" where
  "parse_string A s d pos =
     jbind (string_loop A s d pos 0 [])
       (\<lambda>d (pos, tmp).
          if of_nat (length tmp) > PAI_JSON_MAX_STRING then jfail d PAI_ERR_NOMEM
          else jbind (new_str A d tmp) (\<lambda>d i. if i \<ge> 0 then jret d (pos, i) else jfail d PAI_ERR_NOMEM))"

section \<open>Values\<close>

text \<open>The walk to the last sibling: a walk longer than the number of nodes has met a node twice and does not end.\<close>

fun last_sibling :: "pai_json_node list \<Rightarrow> nat \<Rightarrow> nat \<Rightarrow> nat outcome" where
  "last_sibling ns 0 i = Diverges"
| "last_sibling ns (Suc f) i =
     (if i \<ge> length ns then Fault
      else if next_node (ns ! i) \<ge> 0 then last_sibling ns f (nat (next_node (ns ! i)))
      else Returns i)"

definition append_child :: "pai_json_doc \<Rightarrow> nat \<Rightarrow> nat \<Rightarrow> unit jres" where
  "append_child d parent child =
     (if parent \<ge> length (nodes d) then Fault
      else if first_child (nodes d ! parent) < 0
      then jret (d\<lparr>nodes := (nodes d)[parent := (nodes d ! parent)\<lparr>first_child := int child\<rparr>]\<rparr>) ()
      else
        (case last_sibling (nodes d) (Suc (length (nodes d))) (nat (first_child (nodes d ! parent))) of
           Returns l \<Rightarrow> jret (d\<lparr>nodes := (nodes d)[l := (nodes d ! l)\<lparr>next_node := int child\<rparr>]\<rparr>) ()
         | Fault \<Rightarrow> Fault
         | Diverges \<Rightarrow> Diverges))"

definition set_node :: "pai_json_doc \<Rightarrow> nat \<Rightarrow> (pai_json_node \<Rightarrow> pai_json_node) \<Rightarrow> pai_json_doc" where
  "set_node d i f = d\<lparr>nodes := (nodes d)[i := f (nodes d ! i)]\<rparr>"

definition parse_literal ::
    "(nat \<Rightarrow> bool) \<Rightarrow> bytes \<Rightarrow> pai_json_doc \<Rightarrow> nat \<Rightarrow> bytes \<Rightarrow> pai_json_type_t \<Rightarrow> bool \<Rightarrow> (nat \<times> nat) jres" where
  "parse_literal A s d pos lit t b =
     (if take (length lit) (drop pos s) = lit then
        jbind (new_node A d t) (\<lambda>d node. jret (set_node d node (\<lambda>n. n\<lparr>boolean := b\<rparr>)) (node, pos + length lit))
      else jfail d PAI_ERR_PROTOCOL)"

text \<open>\<open>parse_value\<close> with its two loops. A call is given fuel; each nested call and each turn of a loop uses one, and
  every second of them has consumed a character, so \<open>2 * n + 2\<close> is enough for a text of \<open>n\<close> bytes.\<close>

function (sequential) parse_value :: "jops \<Rightarrow> (nat \<Rightarrow> bool) \<Rightarrow> bytes \<Rightarrow> nat \<Rightarrow> pai_json_doc \<Rightarrow> nat \<Rightarrow> nat \<Rightarrow> (nat \<times> nat) jres"
and parse_members :: "jops \<Rightarrow> (nat \<Rightarrow> bool) \<Rightarrow> bytes \<Rightarrow> nat \<Rightarrow> pai_json_doc \<Rightarrow> nat \<Rightarrow> nat \<Rightarrow> nat \<Rightarrow> (nat \<times> nat) jres"
and parse_elements :: "jops \<Rightarrow> (nat \<Rightarrow> bool) \<Rightarrow> bytes \<Rightarrow> nat \<Rightarrow> pai_json_doc \<Rightarrow> nat \<Rightarrow> nat \<Rightarrow> nat \<Rightarrow> (nat \<times> nat) jres" where
  "parse_value F A s 0 d pos0 depth = Diverges"
| "parse_value F A s (Suc f) d pos0 depth =
     (if depth > PAI_JSON_MAX_DEPTH then jfail d PAI_ERR_NOMEM
      else
        (let pos = skip_ws s pos0
         in case at s pos of
              None \<Rightarrow> jfail d PAI_ERR_PROTOCOL
            | Some c \<Rightarrow>
                if c = 0x7B then
                  jbind (new_node A d PAI_JSON_OBJECT)
                    (\<lambda>d node. let pos = skip_ws s (pos + 1)
                               in if at s pos = Some 0x7D then jret d (node, pos + 1)
                                  else parse_members F A s f d pos depth node)
                else if c = 0x5B then
                  jbind (new_node A d PAI_JSON_ARRAY)
                    (\<lambda>d node. let pos = skip_ws s (pos + 1)
                               in if at s pos = Some 0x5D then jret d (node, pos + 1)
                                  else parse_elements F A s f d pos depth node)
                else if c = 0x22 then
                  jbind (new_node A d PAI_JSON_STRING)
                    (\<lambda>d node. jbind (parse_string A s d (pos + 1))
                                (\<lambda>d (pos, i). jret (set_node d node (\<lambda>n. n\<lparr>str := i\<rparr>)) (node, pos)))
                else if c = 0x74 then parse_literal A s d pos [0x74, 0x72, 0x75, 0x65] PAI_JSON_BOOL True
                else if c = 0x66 then parse_literal A s d pos [0x66, 0x61, 0x6C, 0x73, 0x65] PAI_JSON_BOOL False
                else if c = 0x6E then parse_literal A s d pos [0x6E, 0x75, 0x6C, 0x6C] PAI_JSON_NULL False
                else
                  (case parse_number F s pos of
                     Inl e \<Rightarrow> jfail d e
                   | Inr (pos, v) \<Rightarrow>
                       jbind (new_node A d PAI_JSON_NUMBER)
                         (\<lambda>d node. jret (set_node d node (\<lambda>n. n\<lparr>num := v\<rparr>)) (node, pos)))))"
| "parse_members F A s 0 d pos depth node = Diverges"
| "parse_members F A s (Suc f) d pos depth node =
     (if at s pos \<noteq> Some 0x22 then jfail d PAI_ERR_PROTOCOL
      else
        jbind (parse_string A s d (pos + 1))
          (\<lambda>d (pos, key_idx).
             let pos = skip_ws s pos
             in if at s pos \<noteq> Some 0x3A then jfail d PAI_ERR_PROTOCOL
                else
                  jbind (parse_value F A s f d (pos + 1) (depth + 1))
                    (\<lambda>d (val_idx, pos).
                       if val_idx \<ge> length (nodes d) then Fault
                       else
                         jbind (append_child (set_node d val_idx (\<lambda>n. n\<lparr>key := key_idx\<rparr>)) node val_idx)
                           (\<lambda>d _. let pos = skip_ws s pos
                                  in if at s pos = Some 0x2C then parse_members F A s f d (pos + 1) depth node
                                     else if at s pos = Some 0x7D then jret d (node, pos + 1)
                                     else jfail d PAI_ERR_PROTOCOL))))"
| "parse_elements F A s 0 d pos depth node = Diverges"
| "parse_elements F A s (Suc f) d pos depth node =
     jbind (parse_value F A s f d pos (depth + 1))
       (\<lambda>d (val_idx, pos).
          jbind (append_child d node val_idx)
            (\<lambda>d _. let pos = skip_ws s pos
                   in if at s pos = Some 0x2C then parse_elements F A s f d (pos + 1) depth node
                      else if at s pos = Some 0x5D then jret d (node, pos + 1)
                      else jfail d PAI_ERR_PROTOCOL))"
  by pat_completeness auto
termination
  by (relation "measure (case_sum (\<lambda>(F, A, s, f, _). f) (case_sum (\<lambda>(F, A, s, f, _). f) (\<lambda>(F, A, s, f, _). f)))") simp_all

definition empty_doc :: pai_json_doc where
  "empty_doc = \<lparr>nodes = [], cap_nodes = 0, strs = [], str_cap = 0, root = - 1, reallocs = 0\<rparr>"

definition pai_json_parse :: "jops \<Rightarrow> (nat \<Rightarrow> bool) \<Rightarrow> bytes \<Rightarrow> unit jres" where
  "pai_json_parse F A s =
     jbind (parse_value F A s (2 * length s + 2) empty_doc 0 0)
       (\<lambda>d (r, pos). if skip_ws s pos \<noteq> length s then jfail d PAI_ERR_PROTOCOL else jret (d\<lparr>root := int r\<rparr>) ())"

definition pai_json_destroy :: "pai_json_doc \<Rightarrow> pai_json_doc" where
  "pai_json_destroy d = empty_doc\<lparr>reallocs := reallocs d\<rparr>"


section \<open>Accessors\<close>

definition pai_json_root :: "pai_json_doc \<Rightarrow> int" where
  "pai_json_root d = root d"

definition valid_node :: "pai_json_doc \<Rightarrow> int \<Rightarrow> bool" where
  "valid_node d i \<longleftrightarrow> 0 \<le> i \<and> nat i < length (nodes d)"

definition pai_json_type :: "pai_json_doc \<Rightarrow> int \<Rightarrow> pai_json_type_t" where
  "pai_json_type d i = (if valid_node d i then ntype (nodes d ! nat i) else PAI_JSON_NULL)"

text \<open>The NUL-terminated string at an index of the arena; \<open>None\<close> when it runs out of the arena.\<close>

definition c_string :: "pai_json_doc \<Rightarrow> nat \<Rightarrow> bytes option" where
  "c_string d k = (if 0 \<in> set (drop k (strs d)) then Some (takeWhile (\<lambda>c. c \<noteq> 0) (drop k (strs d))) else None)"

text \<open>The index of the string, \<open>None\<close> for NULL.\<close>

definition pai_json_str :: "pai_json_doc \<Rightarrow> int \<Rightarrow> nat option" where
  "pai_json_str d i =
     (if \<not> valid_node d i \<or> ntype (nodes d ! nat i) \<noteq> PAI_JSON_STRING \<or> str (nodes d ! nat i) < 0 then None
      else Some (nat (str (nodes d ! nat i))))"

definition pai_json_num :: "pai_json_doc \<Rightarrow> int \<Rightarrow> u64" where
  "pai_json_num d i =
     (if \<not> valid_node d i \<or> ntype (nodes d ! nat i) \<noteq> PAI_JSON_NUMBER then 0 else num (nodes d ! nat i))"

definition pai_json_bool :: "pai_json_doc \<Rightarrow> int \<Rightarrow> bool" where
  "pai_json_bool d i =
     (if \<not> valid_node d i \<or> ntype (nodes d ! nat i) \<noteq> PAI_JSON_BOOL then False else boolean (nodes d ! nat i))"

text \<open>The walks over the children. The fuel is more than the number of nodes, as in \<open>last_sibling\<close>.\<close>

fun member_loop :: "pai_json_doc \<Rightarrow> bytes \<Rightarrow> nat \<Rightarrow> int \<Rightarrow> int outcome" where
  "member_loop d k 0 child = Diverges"
| "member_loop d k (Suc f) child =
     (if child < 0 then Returns (- 1)
      else if \<not> valid_node d child then Fault
      else
        (let n = nodes d ! nat child
         in if key n \<ge> 0 then
              (case c_string d (nat (key n)) of
                 None \<Rightarrow> Fault
               | Some k' \<Rightarrow> if k' = k then Returns child else member_loop d k f (next_node n))
            else member_loop d k f (next_node n)))"

definition pai_json_member :: "pai_json_doc \<Rightarrow> int \<Rightarrow> bytes \<Rightarrow> int outcome" where
  "pai_json_member d obj k =
     (if \<not> valid_node d obj \<or> ntype (nodes d ! nat obj) \<noteq> PAI_JSON_OBJECT then Returns (- 1)
      else member_loop d k (Suc (Suc (length (nodes d)))) (first_child (nodes d ! nat obj)))"

fun len_loop :: "pai_json_doc \<Rightarrow> nat \<Rightarrow> int \<Rightarrow> nat \<Rightarrow> int outcome" where
  "len_loop d 0 child n = Diverges"
| "len_loop d (Suc f) child n =
     (if child < 0 then Returns (int n)
      else if \<not> valid_node d child then Fault
      else len_loop d f (next_node (nodes d ! nat child)) (Suc n))"

definition pai_json_array_len :: "pai_json_doc \<Rightarrow> int \<Rightarrow> int outcome" where
  "pai_json_array_len d arr =
     (if \<not> valid_node d arr \<or> ntype (nodes d ! nat arr) \<noteq> PAI_JSON_ARRAY then Returns (- 1)
      else len_loop d (Suc (Suc (length (nodes d)))) (first_child (nodes d ! nat arr)) 0)"

fun at_loop :: "pai_json_doc \<Rightarrow> nat \<Rightarrow> int \<Rightarrow> nat \<Rightarrow> nat \<Rightarrow> int outcome" where
  "at_loop d 0 child n i = Diverges"
| "at_loop d (Suc f) child n i =
     (if child < 0 then Returns (- 1)
      else if n = i then Returns child
      else if \<not> valid_node d child then Fault
      else at_loop d f (next_node (nodes d ! nat child)) (Suc n) i)"

definition pai_json_array_at :: "pai_json_doc \<Rightarrow> int \<Rightarrow> nat \<Rightarrow> int outcome" where
  "pai_json_array_at d arr i =
     (if \<not> valid_node d arr \<or> ntype (nodes d ! nat arr) \<noteq> PAI_JSON_ARRAY then Returns (- 1)
      else at_loop d (Suc (Suc (length (nodes d)))) (first_child (nodes d ! nat arr)) 0 i)"

definition pai_json_str_member :: "pai_json_doc \<Rightarrow> int \<Rightarrow> bytes \<Rightarrow> nat option outcome" where
  "pai_json_str_member d obj k =
     (case pai_json_member d obj k of
        Returns m \<Rightarrow> Returns (if m < 0 then None else pai_json_str d m)
      | Fault \<Rightarrow> Fault
      | Diverges \<Rightarrow> Diverges)"

section \<open>Writer\<close>

text \<open>\<open>len\<close> is the length of \<open>buf\<close>.\<close>

record pai_json_wb =
  buf :: bytes
  wcap :: u32
  wreallocs :: nat

definition pai_json_wb_init :: pai_json_wb where
  "pai_json_wb_init = \<lparr>buf = [], wcap = 0, wreallocs = 0\<rparr>"

definition pai_json_wb_reserve :: "(nat \<Rightarrow> bool) \<Rightarrow> pai_json_wb \<Rightarrow> u32 \<Rightarrow> (pai_json_wb, unit) run" where
  "pai_json_wb_reserve A wb extra =
     (let need = of_nat (length (buf wb)) + extra
      in if need \<le> wcap wb then jret wb ()
         else
           (case double_until need (if wcap wb = 0 then 256 else wcap wb) of
              None \<Rightarrow> Diverges
            | Some ncap \<Rightarrow>
                (let wb1 = wb\<lparr>wreallocs := Suc (wreallocs wb)\<rparr>
                 in if A (wreallocs wb) then jret (wb1\<lparr>wcap := ncap\<rparr>) () else jfail wb1 PAI_ERR_NOMEM)))"

definition wb_store :: "pai_json_wb \<Rightarrow> bytes \<Rightarrow> (pai_json_wb, unit) run" where
  "wb_store wb s =
     (if length (buf wb) + length s \<le> unat (wcap wb) then jret (wb\<lparr>buf := buf wb @ s\<rparr>) () else Fault)"

definition pai_json_wb_putc :: "(nat \<Rightarrow> bool) \<Rightarrow> pai_json_wb \<Rightarrow> u8 \<Rightarrow> (pai_json_wb, unit) run" where
  "pai_json_wb_putc A wb c = jbind (pai_json_wb_reserve A wb 1) (\<lambda>wb _. wb_store wb [c])"

definition pai_json_wb_putn :: "(nat \<Rightarrow> bool) \<Rightarrow> pai_json_wb \<Rightarrow> bytes \<Rightarrow> (pai_json_wb, unit) run" where
  "pai_json_wb_putn A wb s =
     jbind (pai_json_wb_reserve A wb (of_nat (length s))) (\<lambda>wb _. if s \<noteq> [] then wb_store wb s else jret wb ())"

definition pai_json_wb_puts :: "(nat \<Rightarrow> bool) \<Rightarrow> pai_json_wb \<Rightarrow> bytes \<Rightarrow> (pai_json_wb, unit) run" where
  "pai_json_wb_puts A wb s = pai_json_wb_putn A wb s"

text \<open>\<open>s\<close> is the formatted text; from 512 bytes on it is formatted into a heap buffer.\<close>

definition pai_json_wb_putf :: "(nat \<Rightarrow> bool) \<Rightarrow> pai_json_wb \<Rightarrow> bytes \<Rightarrow> (pai_json_wb, unit) run" where
  "pai_json_wb_putf A wb s =
     (let wb1 = wb\<lparr>wreallocs := Suc (wreallocs wb)\<rparr>
      in if length s \<ge> 512 then if A (wreallocs wb) then pai_json_wb_putn A wb1 s else jfail wb1 PAI_ERR_NOMEM
         else pai_json_wb_putn A wb s)"

definition hex_digit :: "u8 \<Rightarrow> u8" where
  "hex_digit n = (if n < 10 then 0x30 + n else 0x57 + n)"

definition escape :: "u8 \<Rightarrow> bytes" where
  "escape c =
     (if c = 0x22 then [0x5C, 0x22]
      else if c = 0x5C then [0x5C, 0x5C]
      else if c = 0x08 then [0x5C, 0x62]
      else if c = 0x0C then [0x5C, 0x66]
      else if c = 0x0A then [0x5C, 0x6E]
      else if c = 0x0D then [0x5C, 0x72]
      else if c = 0x09 then [0x5C, 0x74]
      else if c < 0x20 then [0x5C, 0x75, 0x30, 0x30, hex_digit (drop_bit 4 c), hex_digit (c AND 0x0F)]
      else [c])"

fun quote_loop :: "(nat \<Rightarrow> bool) \<Rightarrow> bytes \<Rightarrow> pai_json_wb \<Rightarrow> (pai_json_wb, unit) run" where
  "quote_loop A [] wb = jret wb ()"
| "quote_loop A (c # s) wb =
     jbind (case escape c of [c] \<Rightarrow> pai_json_wb_putc A wb c | e \<Rightarrow> pai_json_wb_puts A wb e) (\<lambda>wb _. quote_loop A s wb)"

definition pai_json_quote :: "(nat \<Rightarrow> bool) \<Rightarrow> pai_json_wb \<Rightarrow> bytes \<Rightarrow> (pai_json_wb, unit) run" where
  "pai_json_quote A wb s =
     jbind (pai_json_wb_putc A wb 0x22)
       (\<lambda>wb _. jbind (quote_loop A s wb) (\<lambda>wb _. pai_json_wb_putc A wb 0x22))"

definition pai_json_put_number :: "jops \<Rightarrow> (nat \<Rightarrow> bool) \<Rightarrow> pai_json_wb \<Rightarrow> u64 \<Rightarrow> (pai_json_wb, unit) run" where
  "pai_json_put_number F A wb v = pai_json_wb_putf A wb (jfmt F v)"

text \<open>The serializer with its loop over children, whose separator and key come first. The fuel counts calls and turns; on a
  document that is a tree \<open>2 * num_nodes + 2\<close> is enough.\<close>

definition put_c_string :: "(nat \<Rightarrow> bool) \<Rightarrow> pai_json_doc \<Rightarrow> pai_json_wb \<Rightarrow> int \<Rightarrow> (pai_json_wb, unit) run" where
  "put_c_string A d wb i =
     (if i < 0 then Fault else case c_string d (nat i) of None \<Rightarrow> Fault | Some s \<Rightarrow> pai_json_quote A wb s)"

function (sequential) serialize :: "jops \<Rightarrow> (nat \<Rightarrow> bool) \<Rightarrow> pai_json_doc \<Rightarrow> nat \<Rightarrow> int \<Rightarrow> pai_json_wb \<Rightarrow> (pai_json_wb, unit) run"
and children :: "jops \<Rightarrow> (nat \<Rightarrow> bool) \<Rightarrow> pai_json_doc \<Rightarrow> nat \<Rightarrow> bool \<Rightarrow> nat \<Rightarrow> int \<Rightarrow> pai_json_wb \<Rightarrow> (pai_json_wb, unit) run" where
  "serialize F A d 0 node wb = Diverges"
| "serialize F A d (Suc f) node wb =
     (if \<not> valid_node d node then jfail wb PAI_ERR_INVALID_ARG
      else
        (case pai_json_type d node of
           PAI_JSON_NULL \<Rightarrow> pai_json_wb_puts A wb [0x6E, 0x75, 0x6C, 0x6C]
         | PAI_JSON_BOOL \<Rightarrow>
             pai_json_wb_puts A wb (if pai_json_bool d node then [0x74, 0x72, 0x75, 0x65] else [0x66, 0x61, 0x6C, 0x73, 0x65])
         | PAI_JSON_NUMBER \<Rightarrow> pai_json_put_number F A wb (pai_json_num d node)
         | PAI_JSON_STRING \<Rightarrow>
             (case pai_json_str d node of
                None \<Rightarrow> pai_json_quote A wb []
              | Some k \<Rightarrow> put_c_string A d wb (int k))
         | PAI_JSON_ARRAY \<Rightarrow>
             jbind (pai_json_wb_putc A wb 0x5B)
               (\<lambda>wb _. jbind (children F A d f False 0 (first_child (nodes d ! nat node)) wb) (\<lambda>wb _. pai_json_wb_putc A wb 0x5D))
         | PAI_JSON_OBJECT \<Rightarrow>
             jbind (pai_json_wb_putc A wb 0x7B)
               (\<lambda>wb _. jbind (children F A d f True 0 (first_child (nodes d ! nat node)) wb) (\<lambda>wb _. pai_json_wb_putc A wb 0x7D))))"
| "children F A d 0 obj n child wb = Diverges"
| "children F A d (Suc f) obj n child wb =
     (if child < 0 then jret wb ()
      else if \<not> valid_node d child then Fault
      else
        jbind (if n \<noteq> 0 then pai_json_wb_putc A wb 0x2C else jret wb ())
          (\<lambda>wb _. jbind (if obj then jbind (put_c_string A d wb (key (nodes d ! nat child))) (\<lambda>wb _. pai_json_wb_putc A wb 0x3A)
                          else jret wb ())
             (\<lambda>wb _. jbind (serialize F A d f child wb)
                (\<lambda>wb _. children F A d f obj (Suc n) (next_node (nodes d ! nat child)) wb))))"
  by pat_completeness auto
termination
  by (relation "measure (case_sum (\<lambda>(F, A, d, f, _). f) (\<lambda>(F, A, d, f, _). f))") simp_all

definition pai_json_serialize ::
    "jops \<Rightarrow> (nat \<Rightarrow> bool) \<Rightarrow> pai_json_doc \<Rightarrow> int \<Rightarrow> pai_json_wb \<Rightarrow> (pai_json_wb, unit) run" where
  "pai_json_serialize F A d node wb = serialize F A d (2 * length (nodes d) + 2) node wb"

end
