(* ===== verification/Json_Spec.thy ===== *)
theory Json_Spec
  imports Json
begin

text \<open>
  What the parser of \<^verbatim>\<open>gateway/json.c\<close> accepts and builds: a grammar of texts with the values
  they denote, and the trees that the nodes of a document represent.
\<close>

section \<open>Values, slices and the grammar\<close>

datatype json =
    JNull
  | JBool bool
  | JNumber u64
  | JString bytes
  | JArray "json list"
  | JObject "(bytes \<times> json) list"

definition slice :: "bytes \<Rightarrow> nat \<Rightarrow> nat \<Rightarrow> bytes" where
  "slice s a b = take (b - a) (drop a s)"

lemma slice_nil [simp]: "slice s a a = []"
  by (simp add: slice_def)

lemma slice_length [simp]: "b \<le> length s \<Longrightarrow> length (slice s a b) = b - a"
  by (simp add: slice_def)

lemma slice_append:
  assumes "a \<le> b" "b \<le> c" shows "slice s a b @ slice s b c = slice s a c"
proof -
  have "c - a = (b - a) + (c - b)" "drop (b - a) (drop a s) = drop b s" using assms by simp_all
  then show ?thesis unfolding slice_def by (simp only: take_add)
qed

lemma slice_Cons: "a < b \<Longrightarrow> b \<le> length s \<Longrightarrow> slice s a b = s ! a # slice s (Suc a) b"
  unfolding slice_def by (simp add: Cons_nth_drop_Suc [symmetric] take_Cons' Suc_diff_Suc)

lemma slice_two: "a + 2 \<le> b \<Longrightarrow> b \<le> length s \<Longrightarrow> slice s a b = s ! a # s ! (a + 1) # slice s (a + 2) b"
  using slice_Cons [of a b s] slice_Cons [of "Suc a" b s] by simp

lemma slice_drop: "a \<le> b \<Longrightarrow> slice s a b @ drop b s = drop a s"
  unfolding slice_def by (metis append_take_drop_id drop_drop le_add_diff_inverse2)

lemma slice_all: "slice s 0 (length s) = s"
  by (simp add: slice_def)

inductive gstr :: "bytes \<Rightarrow> bytes \<Rightarrow> bool" where
  gstr_end: "gstr [0x22] []"
| gstr_plain: "c \<noteq> 0x22 \<Longrightarrow> c \<noteq> 0x5C \<Longrightarrow> 0x20 \<le> c \<Longrightarrow> gstr t u \<Longrightarrow> gstr (c # t) (c # u)"
| gstr_simple: "simple_escape e = Some c \<Longrightarrow> gstr t u \<Longrightarrow> gstr (0x5C # e # t) (c # u)"
| gstr_unicode: "length h = 4 \<Longrightarrow> hex4 h = Some cp \<Longrightarrow> \<not> high_surrogate cp \<Longrightarrow> \<not> low_surrogate cp \<Longrightarrow> gstr t u \<Longrightarrow>
    gstr (0x5C # 0x75 # h @ t) (utf8_encode cp @ u)"
| gstr_pair: "length h = 4 \<Longrightarrow> hex4 h = Some cp \<Longrightarrow> high_surrogate cp \<Longrightarrow> length l = 4 \<Longrightarrow> hex4 l = Some lo \<Longrightarrow>
    low_surrogate lo \<Longrightarrow> gstr t u \<Longrightarrow>
    gstr (0x5C # 0x75 # h @ 0x5C # 0x75 # l @ t) (utf8_encode (0x10000 + push_bit 10 (cp - 0xD800) + (lo - 0xDC00)) @ u)"
| gstr_lone: "length h = 4 \<Longrightarrow> hex4 h = Some cp \<Longrightarrow> low_surrogate cp \<or> high_surrogate cp \<and> low_escape t = None \<Longrightarrow>
    gstr t u \<Longrightarrow> gstr (0x5C # 0x75 # h @ t) (utf8_encode 0xFFFD @ u)"

lemma gstr_nonempty: "gstr t u \<Longrightarrow> t \<noteq> [] \<and> last t = 0x22"
  by (induction rule: gstr.induct) auto

lemma hex_val_quote [simp]: "hex_val 0x22 = None"
  by (simp add: hex_val_def)

lemma hex4_append: "length h = 4 \<Longrightarrow> hex4 (h @ t) = hex4 h"
  by (cases h rule: hex4.cases) auto

lemma hex4_length: "hex4 h = Some cp \<Longrightarrow> 4 \<le> length h"
  by (cases h rule: hex4.cases) auto

lemma hex4_take: "hex4 h = Some cp \<Longrightarrow> hex4 (take 4 h) = Some cp"
  by (cases h rule: hex4.cases) (auto simp: numeral_eq_Suc)

lemma hex4_quote: "0x22 \<in> set (take 4 h) \<Longrightarrow> hex4 h = None"
  by (cases h rule: hex4.cases) (auto simp: numeral_eq_Suc split: option.splits)

lemma low_escape_append:
  assumes "gstr t u" shows "low_escape (t @ r) = low_escape t"
proof (cases "6 \<le> length t")
  case True
  then have "length (take 4 (drop 2 t)) = 4" by simp
  from hex4_append [OF this] have h: "hex4 (take 4 (drop 2 t) @ x) = hex4 (take 4 (drop 2 t))" for x .
  have "take 4 (drop 2 t) @ drop 4 (drop 2 t) = drop 2 t" by (rule append_take_drop_id)
  then have "hex4 (drop 2 t) = hex4 (take 4 (drop 2 t))" "hex4 (drop 2 t @ r) = hex4 (take 4 (drop 2 t))"
    using h [of "drop 4 (drop 2 t)"] h [of "drop 4 (drop 2 t) @ r"] by (simp_all flip: append_assoc)
  then show ?thesis using True by (simp add: low_escape_def nth_append)
next
  case False
  define k where "k = length t - 1"
  have t: "t \<noteq> []" "last t = 0x22" using gstr_nonempty [OF assms] by auto
  then have k: "k < length t" "(t @ r) ! k = 0x22" "k < 6"
    using False by (simp_all add: k_def nth_append last_conv_nth)
  have "low_escape (t @ r) = None"
  proof (cases "k < 2")
    case True
    then show ?thesis using k(2) by (auto simp: low_escape_def less_2_cases_iff)
  next
    case f: False
    then have e: "Suc (Suc (k - 2)) = k" "k - 2 < length t - 2" "k - 2 < 4" using k by arith+
    then have "take 4 (drop 2 (t @ r)) ! (k - 2) = 0x22" "k - 2 < length (take 4 (drop 2 (t @ r)))"
      using k f by (simp_all add: nth_append)
    then have "0x22 \<in> set (take 4 (drop 2 (t @ r)))" by (metis nth_mem)
    then show ?thesis by (simp add: low_escape_def hex4_quote)
  qed
  then show ?thesis using False by (simp add: low_escape_def)
qed


section \<open>Runs\<close>

lemma jbind_simps [simp]:
  "jbind (Returns (d, Inr x)) f = f d x" "jbind (Returns (d, Inl e)) f = Returns (d, Inl e)"
  "jbind (jret d x) f = f d x" "jbind (jfail d e) f = jfail d e"
  by (simp_all add: jbind_def jret_def jfail_def)

text \<open>\<open>runs P Q r\<close>: the run ends, in a state and value that satisfy \<open>P\<close>, or with one of the two errors of the parser in
  a state that satisfies \<open>Q\<close>.\<close>

definition runs :: "('s \<Rightarrow> 'a \<Rightarrow> bool) \<Rightarrow> ('s \<Rightarrow> bool) \<Rightarrow> ('s, 'a) run \<Rightarrow> bool" where
  "runs P Q r \<longleftrightarrow>
     (\<exists>d x. r = Returns (d, Inr x) \<and> P d x) \<or>
     (\<exists>d e. r = Returns (d, Inl e) \<and> (e = PAI_ERR_PROTOCOL \<or> e = PAI_ERR_NOMEM) \<and> Q d)"

lemma runs_ret [simp]: "runs P Q (jret d x) \<longleftrightarrow> P d x"
  by (simp add: runs_def jret_def)

lemma runs_fail [simp]: "runs P Q (jfail d e) \<longleftrightarrow> (e = PAI_ERR_PROTOCOL \<or> e = PAI_ERR_NOMEM) \<and> Q d"
  by (simp add: runs_def jfail_def)

lemma runs_bind:
  assumes "runs P Q r" "\<And>d x. P d x \<Longrightarrow> runs P' Q' (f d x)" "\<And>d. Q d \<Longrightarrow> Q' d"
  shows "runs P' Q' (jbind r f)"
proof (cases "\<exists>d x. r = Returns (d, Inr x) \<and> P d x")
  case True
  then show ?thesis using assms(2) by auto
next
  case False
  then obtain d e where "r = Returns (d, Inl e)" "e = PAI_ERR_PROTOCOL \<or> e = PAI_ERR_NOMEM" "Q d"
    using assms(1) by (auto simp: runs_def)
  then show ?thesis using assms(3) by (auto simp: runs_def)
qed

lemma runs_mono:
  assumes "runs P Q r" "\<And>d x. P d x \<Longrightarrow> P' d x" "\<And>d. Q d \<Longrightarrow> Q' d" shows "runs P' Q' r"
  using assms unfolding runs_def by blast

section \<open>Allocation\<close>

text \<open>The allocation invariant of a document: what is used fits its capacity.\<close>

definition doc_ok :: "pai_json_doc \<Rightarrow> bool" where
  "doc_ok d \<longleftrightarrow> length (nodes d) \<le> cap_nodes d \<and> length (nodes d) \<le> 8192 \<and> length (strs d) \<le> unat (str_cap d)"

lemma double_until_Some:
  assumes "0 < c" "unat need \<le> 2 ^ 31"
  shows "\<exists>c'. double_until need c = Some c' \<and> need \<le> c' \<and> c \<le> c'"
  using assms(1)
proof (induction "unat need - unat c" arbitrary: c rule: less_induct)
  case less
  show ?case
  proof (cases "c < need")
    case False
    then show ?thesis by (subst double_until.simps) (auto simp: linorder_not_less)
  next
    case True
    have u: "unat c < 2 ^ 31" using True assms(2) by (simp add: word_less_nat_alt)
    have two: "unat (c * 2) = unat c * 2"
    proof -
      have "unat c * unat (2 :: u32) < 2 ^ LENGTH(32)" using u by simp
      then show ?thesis by (simp add: unat_mult_lem [THEN iffD1])
    qed
    have pos: "0 < unat c" using less.prems by (simp add: word_less_nat_alt)
    then have "0 < c * 2" "c \<le> c * 2" using two by (simp_all add: word_less_nat_alt word_le_nat_alt)
    moreover have "unat need - unat (c * 2) < unat need - unat c"
      using two pos True by (simp add: word_less_nat_alt)
    ultimately obtain c' where "double_until need (c * 2) = Some c'" "need \<le> c'" "c * 2 \<le> c'"
      using less.hyps by blast
    then show ?thesis using True \<open>c \<le> c * 2\<close> by (subst double_until.simps) auto
  qed
qed

definition same_doc :: "pai_json_doc \<Rightarrow> pai_json_doc \<Rightarrow> bool" where
  "same_doc d d' \<longleftrightarrow> nodes d' = nodes d \<and> cap_nodes d' = cap_nodes d \<and> strs d' = strs d \<and> str_cap d' = str_cap d \<and> root d' = root d"

lemma same_doc_refl [simp]: "same_doc d d" and same_doc_reallocs [simp]: "same_doc d (d\<lparr>reallocs := k\<rparr>)"
  by (simp_all add: same_doc_def)

lemma same_doc_trans [trans]: "same_doc d d' \<Longrightarrow> same_doc d' d'' \<Longrightarrow> same_doc d d''"
  by (simp add: same_doc_def)

lemma same_doc_ok: "same_doc d d' \<Longrightarrow> doc_ok d \<Longrightarrow> doc_ok d'"
  by (simp add: same_doc_def doc_ok_def)

lemma new_node_runs:
  assumes "doc_ok d"
  shows "runs (\<lambda>d' i. doc_ok d' \<and> i = length (nodes d) \<and> nodes d' = nodes d @ [blank_node t] \<and> strs d' = strs d \<and> root d' = root d)
     (\<lambda>d'. same_doc d d') (new_node A d t)"
proof -
  have l: "length (nodes d) \<le> cap_nodes d" "length (nodes d) \<le> 8192" using assms by (simp_all add: doc_ok_def)
  have w: "of_nat (length (nodes d)) \<ge> PAI_JSON_MAX_NODES \<longleftrightarrow> length (nodes d) \<ge> 8192"
    using l(2) by (simp add: PAI_JSON_MAX_NODES_def word_le_nat_alt unat_of_nat)
  show ?thesis
    using l assms unfolding new_node_def w by (auto simp: Let_def doc_ok_def)
qed

lemma new_str_runs:
  assumes "doc_ok d" "length (strs d) + length s < 2 ^ 31"
  shows "runs (\<lambda>d' i. doc_ok d' \<and> nodes d' = nodes d \<and> root d' = root d \<and>
       (i = - 1 \<and> strs d' = strs d \<or> i = int (length (strs d)) \<and> strs d' = strs d @ s @ [0]))
     (\<lambda>d'. False) (new_str A d s)"
proof -
  let ?total = "of_nat (length (strs d)) + (of_nat (length s) + 1) :: u32"
  have t: "unat ?total = length (strs d) + length s + 1"
  proof -
    have "?total = of_nat (length (strs d) + length s + 1)" by simp
    moreover have "unat (of_nat (length (strs d) + length s + 1) :: u32) = length (strs d) + length s + 1"
      using assms(2) by (intro unat_of_nat32) simp
    ultimately show ?thesis by (simp only:)
  qed
  have i: "sint (of_nat (length (strs d)) :: u32) = int (length (strs d))"
    using assms(2) by (simp add: sint_uint signed_take_bit_int_eq_self uint_nat unat_of_nat)
  show ?thesis
  proof (cases "?total > str_cap d")
    case True
    obtain c' where c: "double_until ?total (if str_cap d = 0 then 1024 else str_cap d) = Some c'" "?total \<le> c'"
    proof -
      have "0 < (if str_cap d = 0 then 1024 else str_cap d)" by (simp add: word_gt_0)
      moreover have "unat ?total \<le> 2 ^ 31" using t assms(2) by simp
      ultimately show thesis using double_until_Some that by blast
    qed
    have "length (strs d) + length s < unat c'" using c(2) t by (simp add: word_le_nat_alt)
    then show ?thesis using True c i assms(1) unfolding new_str_def store_str_def
      by (auto simp: Let_def doc_ok_def)
  next
    case False
    then have "length (strs d) + length s < unat (str_cap d)" using t by (simp add: word_less_nat_alt)
    then show ?thesis using False i assms(1) unfolding new_str_def store_str_def by (auto simp: Let_def doc_ok_def)
  qed
qed

section \<open>Strings\<close>

lemma utf8_length: "1 \<le> length (utf8_encode u)" "length (utf8_encode u) \<le> 4"
  by (simp_all add: utf8_encode_def)

definition tmp_ok :: "u32 \<Rightarrow> bytes \<Rightarrow> bool" where
  "tmp_ok cap tmp \<longleftrightarrow> length tmp \<le> unat cap \<and> (cap = 0 \<or> 64 \<le> unat cap)"

lemma push_tmp_runs:
  assumes "tmp_ok cap tmp" "length bs \<le> 4" "length tmp + length bs < 2 ^ 31"
  shows "runs (\<lambda>d' (cap', tmp'). same_doc d d' \<and> tmp' = tmp @ bs \<and> tmp_ok cap' tmp') (same_doc d) (push_tmp A d cap tmp bs)"
proof -
  have "of_nat (length tmp) + of_nat (length bs) = (of_nat (length tmp + length bs) :: u32)" by simp
  then have g: "of_nat (length tmp) + of_nat (length bs) > cap \<longleftrightarrow> length tmp + length bs > unat cap"
    using assms(3) by (simp add: word_less_nat_alt unat_of_nat del: of_nat_add)
  show ?thesis
  proof (cases "length tmp + length bs > unat cap")
    case False
    then show ?thesis using assms(1) unfolding push_tmp_def g by (auto simp: Let_def tmp_ok_def)
  next
    case True
    have c: "length tmp + length bs \<le> unat (if cap = 0 then 64 else cap * 2) \<and> 64 \<le> unat (if cap = 0 then 64 else cap * 2)"
    proof (cases "cap = 0")
      case True
      then show ?thesis using assms by (simp add: tmp_ok_def)
    next
      case False
      have "unat cap * unat (2 :: u32) < 2 ^ LENGTH(32)" using True assms(3) by simp
      then have "unat (cap * 2) = unat cap * 2" by (simp add: unat_mult_lem [THEN iffD1])
      then show ?thesis using False assms by (auto simp: tmp_ok_def)
    qed
    then show ?thesis using True unfolding push_tmp_def g by (auto simp: Let_def tmp_ok_def)
  qed
qed


lemma hex4_slice:
  assumes "hex4 (drop p s) = Some cp"
  shows "p + 4 \<le> length s" "length (slice s p (p + 4)) = 4" "hex4 (slice s p (p + 4)) = Some cp"
proof -
  show l: "p + 4 \<le> length s" using hex4_length [OF assms] by simp
  then show "length (slice s p (p + 4)) = 4" by simp
  show "hex4 (slice s p (p + 4)) = Some cp" using hex4_take [OF assms] by (simp add: slice_def)
qed

lemma low_escape_slice:
  assumes "low_escape (drop p s) = Some lo"
  shows "p + 6 \<le> length s" "s ! p = 0x5C" "s ! (p + 1) = 0x75" "hex4 (drop (p + 2) s) = Some lo" "low_surrogate lo"
  using assms by (auto simp: low_escape_def nth_drop add.commute split: if_splits option.splits)

text \<open>A string literal from its text: the slice after the opening quote, up to and with the closing one.\<close>

lemma gstr_unicode_slice:
  assumes "pos + 1 < length s" "s ! pos = 0x5C" "s ! (pos + 1) = 0x75" "hex4 (drop (pos + 2) s) = Some cp"
    "after_escape s cp (pos + 6) < q" "q \<le> length s" "gstr (slice s (after_escape s cp (pos + 6)) q) u"
  shows "gstr (slice s pos q) (utf8_encode (code_point s cp (pos + 6)) @ u)"
proof -
  let ?h = "slice s (pos + 2) (pos + 6)"
  have h: "pos + 6 \<le> length s" "length ?h = 4" "hex4 ?h = Some cp" using hex4_slice [OF assms(4)] by (simp_all add: add.commute)
  have q: "pos + 6 < q" using assms(5) by (simp add: after_escape_def split: if_splits)
  have sl: "slice s pos q = 0x5C # 0x75 # ?h @ slice s (pos + 6) q"
    using slice_two [of pos q s] slice_append [of "pos + 2" "pos + 6" q s] assms q by simp
  show ?thesis
  proof (cases "high_surrogate cp \<and> low_escape (drop (pos + 6) s) \<noteq> None")
    case True
    then obtain lo where lo: "low_escape (drop (pos + 6) s) = Some lo" by auto
    note e = low_escape_slice [OF lo]
    let ?l = "slice s (pos + 8) (pos + 12)"
    have a: "after_escape s cp (pos + 6) = pos + 12" using True by (simp add: after_escape_def)
    have l: "length ?l = 4" "hex4 ?l = Some lo" using hex4_slice [of "pos + 8" s lo] e by (simp_all add: add.assoc add.commute)
    have "slice s (pos + 6) q = 0x5C # 0x75 # ?l @ slice s (pos + 12) q"
      using slice_two [of "pos + 6" q s] slice_append [of "pos + 8" "pos + 12" q s] e assms(5,6) a by (simp add: add.commute)
    then show ?thesis
      using gstr_pair [OF h(2,3) _ l e(5)] True assms(7) lo unfolding sl a by (simp add: code_point_def)
  next
    case False
    then have a: "after_escape s cp (pos + 6) = pos + 6" by (auto simp: after_escape_def)
    have g: "gstr (slice s (pos + 6) q) u" using assms(7) a by simp
    have le: "low_escape (drop (pos + 6) s) = low_escape (slice s (pos + 6) q)"
      using low_escape_append [OF g, of "drop q s"] q by (simp add: slice_drop)
    show ?thesis
    proof (cases "high_surrogate cp \<or> low_surrogate cp")
      case True
      then have "code_point s cp (pos + 6) = 0xFFFD" using False by (auto simp: code_point_def)
      moreover have "low_surrogate cp \<or> high_surrogate cp \<and> low_escape (slice s (pos + 6) q) = None" using True False le by auto
      ultimately show ?thesis using gstr_lone [OF h(2,3) _ g] unfolding sl by simp
    next
      case n: False
      then show ?thesis using gstr_unicode [OF h(2,3) _ _ g] unfolding sl by (simp add: code_point_def)
    qed
  qed
qed

lemma string_loop_runs:
  assumes "tmp_ok cap tmp" "length tmp \<le> pos" "length s < 2 ^ 31"
  shows "runs (\<lambda>d' (p, t). same_doc d d' \<and> pos < p \<and> p \<le> length s \<and> length t < p \<and>
       (\<exists>u. t = tmp @ u \<and> gstr (slice s pos p) u)) (same_doc d) (string_loop A s d pos cap tmp)"
  using assms
proof (induction A s d pos cap tmp rule: string_loop.induct)
  case (1 A s d pos cap tmp)
  let ?P = "\<lambda>pos tmp d d' p t. same_doc d d' \<and> pos < p \<and> p \<le> length s \<and> length t < p \<and> (\<exists>u. t = tmp @ u \<and> gstr (slice s pos p) u)"
  have step: "runs (\<lambda>d' (p, t). ?P pos tmp d d' p t) (same_doc d)
      (jbind (push_tmp A d cap tmp bs) (\<lambda>d (cap, tmp). string_loop A s d pos' cap tmp))"
    if IH: "\<And>d' x cap' tmp'. x = (cap', tmp') \<Longrightarrow> tmp_ok cap' tmp' \<Longrightarrow> length tmp' \<le> pos' \<Longrightarrow> length s < 2 ^ 31 \<Longrightarrow>
        runs (\<lambda>d'' (p, t). ?P pos' tmp' d' d'' p t) (same_doc d') (string_loop A s d' pos' cap' tmp')"
      and b: "length bs \<le> 4" "pos + length bs \<le> pos'" "pos < pos'" "pos' \<le> length s"
      and g: "\<And>p u. pos' < p \<Longrightarrow> p \<le> length s \<Longrightarrow> gstr (slice s pos' p) u \<Longrightarrow> gstr (slice s pos p) (bs @ u)"
    for bs pos'
  proof (rule runs_bind [OF push_tmp_runs])
    show "tmp_ok cap tmp" by (rule "1.prems")
    show "length bs \<le> 4" by (rule b)
    show "length tmp + length bs < 2 ^ 31" using "1.prems" b by linarith
    show "same_doc d d' \<Longrightarrow> same_doc d d'" for d' .
    fix d' x assume x: "case x of (cap', tmp') \<Rightarrow> same_doc d d' \<and> tmp' = tmp @ bs \<and> tmp_ok cap' tmp'"
    obtain cap' tmp' where x': "x = (cap', tmp')" by fastforce
    have "runs (\<lambda>d'' (p, t). ?P pos' tmp' d' d'' p t) (same_doc d') (string_loop A s d' pos' cap' tmp')"
      using x x' b "1.prems" by (intro IH) auto
    then show "runs (\<lambda>d' (p, t). ?P pos tmp d d' p t) (same_doc d) (case x of (cap, tmp) \<Rightarrow> string_loop A s d' pos' cap tmp)"
      unfolding x' prod.case
      by (rule runs_mono) (use x x' b g in \<open>auto intro: same_doc_trans\<close>)
  qed
  consider "pos \<ge> length s" | "pos < length s" "s ! pos = 0x22"
    | "pos < length s" "s ! pos = 0x5C" "pos + 1 \<ge> length s"
    | "pos < length s" "s ! pos = 0x5C" "pos + 1 < length s" "s ! (pos + 1) = 0x75"
    | "pos < length s" "s ! pos = 0x5C" "pos + 1 < length s" "s ! (pos + 1) \<noteq> 0x75"
    | "pos < length s" "s ! pos \<noteq> 0x22" "s ! pos \<noteq> 0x5C" "s ! pos < 0x20"
    | "pos < length s" "s ! pos \<noteq> 0x22" "s ! pos \<noteq> 0x5C" "\<not> s ! pos < 0x20"
    by linarith
  then show ?case
  proof cases
    case 2
    have "slice s pos (Suc pos) = [0x22]" using slice_Cons [of pos "Suc pos" s] 2 by simp
    then show ?thesis using 2 "1.prems" gstr_end by (subst string_loop.simps) auto
  next
    case 4
    show ?thesis
    proof (cases "hex4 (drop (pos + 2) s)")
      case None
      then show ?thesis using 4 by (subst string_loop.simps) simp
    next
      case (Some cp)
      have a: "pos + 6 \<le> after_escape s cp (pos + 6)" "after_escape s cp (pos + 6) \<le> length s"
        using hex4_slice(1) [OF Some] low_escape_slice(1) [of "pos + 6" s] by (auto simp: after_escape_def)
      have "runs (\<lambda>d' (p, t). ?P pos tmp d d' p t) (same_doc d)
        (jbind (push_tmp A d cap tmp (utf8_encode (code_point s cp (pos + 6))))
          (\<lambda>d (cap, tmp). string_loop A s d (after_escape s cp (pos + 6)) cap tmp))"
      proof (rule step)
        show "length (utf8_encode (code_point s cp (pos + 6))) \<le> 4" by (rule utf8_length)
        show "pos + length (utf8_encode (code_point s cp (pos + 6))) \<le> after_escape s cp (pos + 6)"
          using utf8_length(2) [of "code_point s cp (pos + 6)"] a by linarith
        show "gstr (slice s pos p) (utf8_encode (code_point s cp (pos + 6)) @ u)"
          if "after_escape s cp (pos + 6) < p" "p \<le> length s" "gstr (slice s (after_escape s cp (pos + 6)) p) u" for p u
          by (rule gstr_unicode_slice [OF 4(3,2,4) Some that])
      qed (use "1.IH"(1) 4 Some a in auto)
      then show ?thesis using 4 Some by (subst string_loop.simps) simp
    qed
  next
    case 5
    show ?thesis
    proof (cases "simple_escape (s ! (pos + 1))")
      case None
      then show ?thesis using 5 by (subst string_loop.simps) simp
    next
      case (Some c)
      have "runs (\<lambda>d' (p, t). ?P pos tmp d d' p t) (same_doc d)
        (jbind (push_tmp A d cap tmp [c]) (\<lambda>d (cap, tmp). string_loop A s d (pos + 2) cap tmp))"
      proof (rule step)
        show "gstr (slice s pos p) ([c] @ u)" if "pos + 2 < p" "p \<le> length s" "gstr (slice s (pos + 2) p) u" for p u
          using gstr_simple [OF Some that(3)] slice_two [of pos p s] that 5 by simp
      qed (use "1.IH"(2) 5 Some in auto)
      then show ?thesis using 5 Some by (subst string_loop.simps) simp
    qed
  next
    case 7
    have "runs (\<lambda>d' (p, t). ?P pos tmp d d' p t) (same_doc d)
      (jbind (push_tmp A d cap tmp [s ! pos]) (\<lambda>d (cap, tmp). string_loop A s d (pos + 1) cap tmp))"
    proof (rule step)
      show "gstr (slice s pos p) ([s ! pos] @ u)" if "pos + 1 < p" "p \<le> length s" "gstr (slice s (pos + 1) p) u" for p u
        using gstr_plain [OF 7(2,3) _ that(3)] slice_Cons [of pos p s] that 7 by (simp add: linorder_not_less)
    qed (use "1.IH"(3) 7 in auto)
    then show ?thesis using 7 by (subst string_loop.simps) simp
  qed (subst string_loop.simps, simp)+
qed


lemma gstr_length: "gstr t u \<Longrightarrow> length u < length t"
proof (induction rule: gstr.induct)
  case (gstr_unicode h cp t u)
  then show ?case using utf8_length(2) [of cp] by simp
next
  case (gstr_pair h cp l lo t u)
  then show ?case using utf8_length(2) [of "0x10000 + push_bit 10 (cp - 0xD800) + (lo - 0xDC00)"] by (simp del: push_bit_of_0)
next
  case (gstr_lone h cp t u)
  then show ?case using utf8_length(2) [of "0xFFFD"] by simp
qed simp_all

text \<open>What an error leaves of the document.\<close>

definition left_ok :: "pai_json_doc \<Rightarrow> pai_json_doc \<Rightarrow> bool" where
  "left_ok d d' \<longleftrightarrow> doc_ok d' \<and> root d' = root d"

lemma parse_string_runs:
  assumes "doc_ok d" "length (strs d) \<le> pos" "length s < 2 ^ 31"
  shows "runs (\<lambda>d' (p, i). doc_ok d' \<and> nodes d' = nodes d \<and> root d' = root d \<and> pos < p \<and> p \<le> length s \<and>
       length (strs d') \<le> p \<and> i = int (length (strs d)) \<and>
       (\<exists>u. strs d' = strs d @ u @ [0] \<and> length u \<le> 2 ^ 20 \<and> gstr (slice s pos p) u)) (left_ok d) (parse_string A s d pos)"
  unfolding parse_string_def
proof (rule runs_bind [OF string_loop_runs])
  show "tmp_ok 0 []" "length [] \<le> pos" "length s < 2 ^ 31" using assms by (simp_all add: tmp_ok_def)
  show "left_ok d d'" if "same_doc d d'" for d'
    using that assms(1) same_doc_ok [OF that assms(1)] by (simp add: left_ok_def same_doc_def)
  fix d1 x
  assume "case x of (p, t) \<Rightarrow> same_doc d d1 \<and> pos < p \<and> p \<le> length s \<and> length t < p \<and> (\<exists>u. t = [] @ u \<and> gstr (slice s pos p) u)"
  then obtain p u where x: "x = (p, u)" and sd: "same_doc d d1" and p: "pos < p" "p \<le> length s" and g: "gstr (slice s pos p) u"
    by auto
  have l: "length u < p - pos" using gstr_length [OF g] p by simp
  have ok: "doc_ok d1" using same_doc_ok [OF sd assms(1)] .
  have st: "nodes d1 = nodes d" "strs d1 = strs d" "root d1 = root d" using sd by (simp_all add: same_doc_def)
  have m: "of_nat (length u) > PAI_JSON_MAX_STRING \<longleftrightarrow> length u > 2 ^ 20"
    using l p assms(3) by (simp add: PAI_JSON_MAX_STRING_def word_less_nat_alt unat_of_nat32)
  let ?P = "\<lambda>d' (p, i). doc_ok d' \<and> nodes d' = nodes d \<and> root d' = root d \<and> pos < p \<and> p \<le> length s \<and>
       length (strs d') \<le> p \<and> i = int (length (strs d)) \<and>
       (\<exists>u. strs d' = strs d @ u @ [0] \<and> length u \<le> 2 ^ 20 \<and> gstr (slice s pos p) u)"
  have "runs ?P (left_ok d) (jbind (new_str A d1 u) (\<lambda>d i. if i \<ge> 0 then jret d (p, i) else jfail d PAI_ERR_NOMEM))"
    if "length u \<le> 2 ^ 20"
  proof (rule runs_bind [OF new_str_runs [OF ok]])
    show "length (strs d1) + length u < 2 ^ 31" using st l p assms by simp
  qed (use st l p g assms(2) that in \<open>auto simp: left_ok_def\<close>)
  then show "runs ?P (left_ok d)
      (case x of (pos, tmp) \<Rightarrow> if of_nat (length tmp) > PAI_JSON_MAX_STRING then jfail d1 PAI_ERR_NOMEM
         else jbind (new_str A d1 tmp) (\<lambda>d i. if i \<ge> 0 then jret d (pos, i) else jfail d PAI_ERR_NOMEM))"
    using ok st unfolding x prod.case m by (auto simp: left_ok_def)
qed

section \<open>Trees of nodes\<close>

definition str_at :: "pai_json_doc \<Rightarrow> int \<Rightarrow> bytes \<Rightarrow> bool" where
  "str_at d i u \<longleftrightarrow> 0 \<le> i \<and> take (Suc (length u)) (drop (nat i) (strs d)) = u @ [0]"

text \<open>\<open>rep d i hi j\<close>: node \<open>i\<close> is the root of a tree for \<open>j\<close>, in the nodes from \<open>i\<close> below \<open>hi\<close>.
  \<open>reps\<close> is a chain of siblings with their keys.\<close>

definition key_ok :: "pai_json_doc \<Rightarrow> nat \<Rightarrow> bytes option \<Rightarrow> bool" where
  "key_ok d i k = (case k of None \<Rightarrow> True | Some u \<Rightarrow> str_at d (key (nodes d ! i)) u)"

inductive rep :: "pai_json_doc \<Rightarrow> nat \<Rightarrow> nat \<Rightarrow> json \<Rightarrow> bool"
  and reps :: "pai_json_doc \<Rightarrow> nat \<Rightarrow> nat \<Rightarrow> (bytes option \<times> json) list \<Rightarrow> bool" for d where
  rep_null: "i < length (nodes d) \<Longrightarrow> ntype (nodes d ! i) = PAI_JSON_NULL \<Longrightarrow> rep d i (Suc i) JNull"
| rep_bool: "i < length (nodes d) \<Longrightarrow> ntype (nodes d ! i) = PAI_JSON_BOOL \<Longrightarrow> boolean (nodes d ! i) = b \<Longrightarrow>
    rep d i (Suc i) (JBool b)"
| rep_number: "i < length (nodes d) \<Longrightarrow> ntype (nodes d ! i) = PAI_JSON_NUMBER \<Longrightarrow> num (nodes d ! i) = v \<Longrightarrow>
    rep d i (Suc i) (JNumber v)"
| rep_string: "i < length (nodes d) \<Longrightarrow> ntype (nodes d ! i) = PAI_JSON_STRING \<Longrightarrow> str_at d (str (nodes d ! i)) u \<Longrightarrow>
    rep d i (Suc i) (JString u)"
| rep_array: "i < length (nodes d) \<Longrightarrow> ntype (nodes d ! i) = PAI_JSON_ARRAY \<Longrightarrow>
    first_child (nodes d ! i) = (if js = [] then - 1 else int (Suc i)) \<Longrightarrow> reps d (Suc i) hi (map (Pair None) js) \<Longrightarrow>
    rep d i hi (JArray js)"
| rep_object: "i < length (nodes d) \<Longrightarrow> ntype (nodes d ! i) = PAI_JSON_OBJECT \<Longrightarrow>
    first_child (nodes d ! i) = (if ms = [] then - 1 else int (Suc i)) \<Longrightarrow>
    reps d (Suc i) hi (map (\<lambda>(k, j). (Some k, j)) ms) \<Longrightarrow> rep d i hi (JObject ms)"
| reps_nil: "reps d c c []"
| reps_last: "rep d c hi j \<Longrightarrow> key_ok d c k \<Longrightarrow> next_node (nodes d ! c) = - 1 \<Longrightarrow> reps d c hi [(k, j)]"
| reps_more: "rep d c mid j \<Longrightarrow> key_ok d c k \<Longrightarrow> next_node (nodes d ! c) = int mid \<Longrightarrow> reps d mid hi (x # xs) \<Longrightarrow>
    reps d c hi ((k, j) # x # xs)"

lemma rep_bounds:
  "rep d i hi j \<Longrightarrow> i < hi \<and> hi \<le> length (nodes d)"
  "reps d c hi xs \<Longrightarrow> c \<le> hi \<and> (xs \<noteq> [] \<longrightarrow> c < hi \<and> hi \<le> length (nodes d))"
proof (induction rule: rep_reps.inducts)
  case (rep_array i js hi)
  then show ?case by (cases "js = []") (auto elim: reps.cases)
next
  case (rep_object i ms hi)
  then show ?case by (cases "ms = []") (auto elim: reps.cases)
qed auto

text \<open>The tree only depends on the nodes after its root and on the root up to its key and link.\<close>

definition core :: "pai_json_node \<Rightarrow> pai_json_node" where
  "core n = n\<lparr>key := 0, next_node := 0\<rparr>"

definition agrees :: "pai_json_doc \<Rightarrow> pai_json_doc \<Rightarrow> nat \<Rightarrow> nat \<Rightarrow> bool" where
  "agrees d d' i hi \<longleftrightarrow> hi \<le> length (nodes d') \<and> (\<forall>k. i < k \<and> k < hi \<longrightarrow> nodes d' ! k = nodes d ! k) \<and>
     core (nodes d' ! i) = core (nodes d ! i) \<and> (\<exists>t. strs d' = strs d @ t)"

lemma core_eq:
  assumes "core n' = core n"
  shows "ntype n' = ntype n" "str n' = str n" "num n' = num n" "boolean n' = boolean n" "first_child n' = first_child n"
  using assms by (cases n; cases n'; simp add: core_def)+

lemma str_at_mono:
  assumes "str_at d i u" "strs d' = strs d @ t" shows "str_at d' i u"
proof -
  have t: "take (Suc (length u)) (drop (nat i) (strs d)) = u @ [0]" using assms(1) by (simp add: str_at_def)
  then have "length (take (Suc (length u)) (drop (nat i) (strs d))) = Suc (length u)" by simp
  then have "Suc (length u) \<le> length (strs d) - nat i" by simp
  then show ?thesis using t assms by (simp add: str_at_def)
qed

lemma str_at_new: "strs d' = strs d @ u @ [0] \<Longrightarrow> str_at d' (int (length (strs d))) u"
  by (simp add: str_at_def)

lemma key_ok_mono: "key_ok d i k \<Longrightarrow> key (nodes d' ! i) = key (nodes d ! i) \<Longrightarrow> strs d' = strs d @ t \<Longrightarrow> key_ok d' i k"
  by (auto simp: key_ok_def intro: str_at_mono split: option.splits)

lemma rep_agrees:
  "rep d i hi j \<Longrightarrow> agrees d d' i hi \<Longrightarrow> rep d' i hi j"
  "reps d c hi xs \<Longrightarrow> (\<forall>k. c \<le> k \<and> k < hi \<longrightarrow> nodes d' ! k = nodes d ! k) \<Longrightarrow> hi \<le> length (nodes d') \<Longrightarrow> (\<exists>t. strs d' = strs d @ t) \<Longrightarrow>
    reps d' c hi xs"
proof (induction rule: rep_reps.inducts)
  case (rep_array i js hi)
  then have "i < length (nodes d')" "reps d' (Suc i) hi (map (Pair None) js)"
    using rep_bounds(2) [OF rep_array(4)] by (auto simp: agrees_def)
  then show ?case using rep_array(1-3) rep_array.prems core_eq [of "nodes d' ! i" "nodes d ! i"]
    by (intro rep_reps.rep_array) (auto simp: agrees_def)
next
  case (rep_object i ms hi)
  then have "i < length (nodes d')" "reps d' (Suc i) hi (map (\<lambda>(k, j). (Some k, j)) ms)"
    using rep_bounds(2) [OF rep_object(4)] by (auto simp: agrees_def)
  then show ?case using rep_object(1-3) rep_object.prems core_eq [of "nodes d' ! i" "nodes d ! i"]
    by (intro rep_reps.rep_object) (auto simp: agrees_def)
next
  case (rep_string i u)
  then show ?case using core_eq [of "nodes d' ! i" "nodes d ! i"]
    by (auto simp: agrees_def intro!: rep_reps.rep_string intro: str_at_mono)
next
  case (reps_last c hi j k)
  then have b: "c < hi" "hi \<le> length (nodes d)" using rep_bounds(1) by auto
  obtain t where t: "strs d' = strs d @ t" using reps_last.prems by blast
  have n: "nodes d' ! c = nodes d ! c" using reps_last.prems b by simp
  have "rep d' c hi j" using reps_last(2) reps_last.prems b t by (auto simp: agrees_def)
  then show ?case using reps_last(3,4) n key_ok_mono [OF _ _ t] by (intro rep_reps.reps_last) auto
next
  case (reps_more c mid j k hi x xs)
  then have b: "c < mid" "mid \<le> length (nodes d)" "mid < hi" using rep_bounds by auto
  obtain t where t: "strs d' = strs d @ t" using reps_more.prems by blast
  have n: "nodes d' ! c = nodes d ! c" using reps_more.prems b by simp
  have "rep d' c mid j" using reps_more(2) reps_more.prems b t by (auto simp: agrees_def)
  moreover have "reps d' mid hi (x # xs)" using reps_more(6) reps_more.prems b by auto
  ultimately show ?case using reps_more(3,4) n key_ok_mono [OF _ _ t] by (intro rep_reps.reps_more) auto
next
  case (rep_null i)
  then show ?case using core_eq [of "nodes d' ! i" "nodes d ! i"] by (auto simp: agrees_def intro!: rep_reps.rep_null)
next
  case (rep_bool i b)
  then show ?case using core_eq [of "nodes d' ! i" "nodes d ! i"] by (auto simp: agrees_def intro!: rep_reps.rep_bool)
next
  case (rep_number i v)
  then show ?case using core_eq [of "nodes d' ! i" "nodes d ! i"] by (auto simp: agrees_def intro!: rep_reps.rep_number)
qed (rule rep_reps.reps_nil)

lemma reps_length: "reps d c hi xs \<Longrightarrow> length xs \<le> hi - c"
proof (induction c hi xs rule: rep_reps.inducts(2) [where ?P1.0 = "\<lambda>_ _ _. True"])
  case (reps_last c hi j k)
  then show ?case using rep_bounds(1) [of d c hi j] by (simp, linarith)
next
  case (reps_more c mid j k hi x xs)
  then show ?case using rep_bounds(1) [of d c mid j] rep_bounds(2) [of d mid hi "x # xs"] by simp
qed auto

lemma set_node_simps [simp]:
  "length (nodes (set_node d i f)) = length (nodes d)" "strs (set_node d i f) = strs d" "root (set_node d i f) = root d"
  "k \<noteq> i \<Longrightarrow> nodes (set_node d i f) ! k = nodes d ! k"
  "i < length (nodes d) \<Longrightarrow> nodes (set_node d i f) ! i = f (nodes d ! i)"
  "doc_ok (set_node d i f) \<longleftrightarrow> doc_ok d"
  by (simp_all add: set_node_def doc_ok_def)

lemma reps_snoc:
  assumes "reps d c l xs" "xs \<noteq> []" "rep d l hi j" "key_ok d l k" "next_node (nodes d ! l) = - 1" "length xs \<le> f"
  shows "\<exists>m. last_sibling (nodes d) f c = Returns m \<and> c \<le> m \<and> m < l \<and>
     reps (set_node d m (\<lambda>n. n\<lparr>next_node := int l\<rparr>)) c hi (xs @ [(k, j)])"
  using assms
proof (induction c l xs arbitrary: f rule: rep_reps.inducts(2) [where ?P1.0 = "\<lambda>_ _ _. True"])
  case (reps_last c l j1 k1)
  let ?d = "set_node d c (\<lambda>n. n\<lparr>next_node := int l\<rparr>)"
  have b: "c < l" "l \<le> length (nodes d)" "l < hi" "hi \<le> length (nodes d)"
    using rep_bounds(1) [OF reps_last(1)] rep_bounds(1) [OF reps_last.prems(2)] by auto
  have r1: "rep ?d c l j1" by (rule rep_agrees(1) [OF reps_last(1)]) (use b in \<open>auto simp: agrees_def core_def\<close>)
  have r2: "rep ?d l hi j" by (rule rep_agrees(1) [OF reps_last.prems(2)]) (use b in \<open>auto simp: agrees_def\<close>)
  have k: "key_ok ?d c k1" "key_ok ?d l k" using reps_last(2-4) reps_last.prems b by (auto simp: key_ok_def str_at_def split: option.splits)
  have "reps ?d l hi [(k, j)]" using r2 k reps_last.prems b by (intro rep_reps.reps_last) auto
  then have "reps ?d c hi ([(k1, j1)] @ [(k, j)])" using r1 k b by (auto intro!: rep_reps.reps_more)
  moreover have "last_sibling (nodes d) f c = Returns c" using reps_last b by (cases f) auto
  ultimately show ?case using b by blast
next
  case (reps_more c mid j1 k1 l x xs)
  obtain f' where f: "f = Suc f'" using reps_more.prems by (cases f) auto
  obtain m where m: "last_sibling (nodes d) f' mid = Returns m" "mid \<le> m" "m < l"
    "reps (set_node d m (\<lambda>n. n\<lparr>next_node := int l\<rparr>)) mid hi ((x # xs) @ [(k, j)])"
    using reps_more.IH [of f'] reps_more.prems f by auto
  let ?d = "set_node d m (\<lambda>n. n\<lparr>next_node := int l\<rparr>)"
  have b: "c < mid" "mid \<le> length (nodes d)" using rep_bounds(1) [OF reps_more(1)] by auto
  have "rep ?d c mid j1" by (rule rep_agrees(1) [OF reps_more(1)]) (use b m in \<open>auto simp: agrees_def\<close>)
  moreover have "key_ok ?d c k1" using reps_more(2-4) m b by (auto simp: key_ok_def str_at_def split: option.splits)
  ultimately have "reps ?d c hi (((k1, j1) # x # xs) @ [(k, j)])"
    using m b reps_more(2-4) by (auto intro!: rep_reps.reps_more)
  moreover have "last_sibling (nodes d) f c = Returns m" using m reps_more(2-4) b f by auto
  ultimately show ?case using m b by auto
qed auto


text \<open>A container that is being filled: its node \<open>nd\<close> and the children \<open>xs\<close> it has so far, the last nodes of the
  document.\<close>

definition open_node :: "pai_json_doc \<Rightarrow> nat \<Rightarrow> pai_json_type_t \<Rightarrow> (bytes option \<times> json) list \<Rightarrow> bool" where
  "open_node d nd t xs \<longleftrightarrow> nd < length (nodes d) \<and> ntype (nodes d ! nd) = t \<and> next_node (nodes d ! nd) = - 1 \<and>
     first_child (nodes d ! nd) = (if xs = [] then - 1 else int (Suc nd)) \<and> reps d (Suc nd) (length (nodes d)) xs"

text \<open>\<open>extends d d' l\<close>: \<open>d'\<close> keeps the first \<open>l\<close> nodes and the strings of \<open>d\<close>.\<close>

definition extends :: "pai_json_doc \<Rightarrow> pai_json_doc \<Rightarrow> nat \<Rightarrow> bool" where
  "extends d d' l \<longleftrightarrow> l \<le> length (nodes d') \<and> (\<forall>k < l. nodes d' ! k = nodes d ! k) \<and> (\<exists>t. strs d' = strs d @ t) \<and> root d' = root d"

lemma doc_extends_trans: "extends d d' l \<Longrightarrow> extends d' d'' l' \<Longrightarrow> l \<le> l' \<Longrightarrow> extends d d'' l"
  by (auto simp: extends_def)

lemma append_child_open:
  assumes "nd < l" "ntype (nodes d ! nd) = t" "next_node (nodes d ! nd) = - 1"
    "first_child (nodes d ! nd) = (if xs = [] then - 1 else int (Suc nd))" "reps d (Suc nd) l xs"
    "rep d l (length (nodes d)) j" "key_ok d l k" "next_node (nodes d ! l) = - 1"
  obtains d' where "append_child d nd l = jret d' ()" "open_node d' nd t (xs @ [(k, j)])" "length (nodes d') = length (nodes d)"
    "extends d d' nd" "strs d' = strs d" "doc_ok d' = doc_ok d"
proof (cases "xs = []")
  case True
  let ?d = "set_node d nd (\<lambda>n. n\<lparr>first_child := int l\<rparr>)"
  have l: "l = Suc nd" "l < length (nodes d)" using assms(5) True rep_bounds(1) [OF assms(6)] by (auto elim: reps.cases)
  have "rep ?d l (length (nodes d)) j" by (rule rep_agrees(1) [OF assms(6)]) (use assms(1) in \<open>auto simp: agrees_def\<close>)
  then have "reps ?d (Suc nd) (length (nodes d)) [(k, j)]"
    using assms l by (auto intro!: reps_last simp: key_ok_def str_at_def split: option.splits)
  then show thesis using assms True l that [of ?d]
    by (auto simp: append_child_def open_node_def extends_def set_node_def doc_ok_def)
next
  case False
  have l: "l < length (nodes d)" using rep_bounds(1) [OF assms(6)] by auto
  have "length xs \<le> Suc (length (nodes d))" using reps_length [OF assms(5)] l by simp
  from reps_snoc [OF assms(5) False assms(6-8) this]
  obtain m where m: "last_sibling (nodes d) (Suc (length (nodes d))) (Suc nd) = Returns m" "Suc nd \<le> m" "m < l"
    "reps (set_node d m (\<lambda>n. n\<lparr>next_node := int l\<rparr>)) (Suc nd) (length (nodes d)) (xs @ [(k, j)])" by blast
  have fc: "first_child (nodes d ! nd) = int (Suc nd)" using assms(4) False by simp
  have a: "append_child d nd l = jret (set_node d m (\<lambda>n. n\<lparr>next_node := int l\<rparr>)) ()"
  proof -
    have "nat (first_child (nodes d ! nd)) = Suc nd" "\<not> first_child (nodes d ! nd) < 0" using fc by simp_all
    then show ?thesis using m(1) assms(1) l by (simp add: append_child_def set_node_def del: last_sibling.simps)
  qed
  show thesis using that [OF a] m assms fc False l
    by (auto simp: open_node_def extends_def)
qed

section \<open>The grammar\<close>

definition blank :: "bytes \<Rightarrow> bool" where "blank w \<longleftrightarrow> (\<forall>c \<in> set w. is_ws c)"
definition all_digits :: "bytes \<Rightarrow> bool" where "all_digits ds \<longleftrightarrow> ds \<noteq> [] \<and> (\<forall>c \<in> set ds. is_digit c)"

definition gexp :: "jops \<Rightarrow> u64 \<Rightarrow> bytes \<Rightarrow> u64 \<Rightarrow> bool" where
  "gexp F v t w \<longleftrightarrow> t = [] \<and> w = v \<or>
     (\<exists>e sg ds x. t = e # sg @ ds \<and> (e = 0x65 \<or> e = 0x45) \<and> (sg = [] \<or> sg = [0x2B] \<or> sg = [0x2D]) \<and> all_digits ds \<and>
        exp_digits 0 ds = Some x \<and> w = scale_exp F v (sg = [0x2D]) x)"

definition gfrac :: "jops \<Rightarrow> u64 \<Rightarrow> bytes \<Rightarrow> u64 \<Rightarrow> bool" where
  "gfrac F v t w \<longleftrightarrow> gexp F v t w \<or> (\<exists>ds r. t = 0x2E # ds @ r \<and> all_digits ds \<and> gexp F (frac_digits F v ds) r w)"

definition gint :: "bytes \<Rightarrow> bool" where
  "gint ds \<longleftrightarrow> ds = [0x30] \<or> all_digits ds \<and> hd ds \<noteq> 0x30"

definition gnum :: "jops \<Rightarrow> bytes \<Rightarrow> u64 \<Rightarrow> bool" where
  "gnum F t w \<longleftrightarrow>
     (\<exists>m ds r v. t = m @ ds @ r \<and> (m = [] \<or> m = [0x2D]) \<and> gint ds \<and> gfrac F (if ds = [0x30] then 0 else int_digits F ds) r v \<and>
        w = (if m = [] then v else jneg F v))"

text \<open>The texts of values, of the members of an object after its opening brace (up to and with the closing one) and of the
  elements of an array likewise, at a nesting depth. White space may follow every token except the comma between
  members.\<close>

inductive gval :: "jops \<Rightarrow> nat \<Rightarrow> bytes \<Rightarrow> json \<Rightarrow> bool"
  and gmembers :: "jops \<Rightarrow> nat \<Rightarrow> bytes \<Rightarrow> (bytes \<times> json) list \<Rightarrow> bool"
  and gelems :: "jops \<Rightarrow> nat \<Rightarrow> bytes \<Rightarrow> json list \<Rightarrow> bool" for F where
  gval_null: "blank w \<Longrightarrow> n \<le> 32 \<Longrightarrow> gval F n (w @ [0x6E, 0x75, 0x6C, 0x6C]) JNull"
| gval_true: "blank w \<Longrightarrow> n \<le> 32 \<Longrightarrow> gval F n (w @ [0x74, 0x72, 0x75, 0x65]) (JBool True)"
| gval_false: "blank w \<Longrightarrow> n \<le> 32 \<Longrightarrow> gval F n (w @ [0x66, 0x61, 0x6C, 0x73, 0x65]) (JBool False)"
| gval_number: "blank w \<Longrightarrow> n \<le> 32 \<Longrightarrow> gnum F t v \<Longrightarrow> gval F n (w @ t) (JNumber v)"
| gval_string: "blank w \<Longrightarrow> n \<le> 32 \<Longrightarrow> gstr t u \<Longrightarrow> length u \<le> 2 ^ 20 \<Longrightarrow> gval F n (w @ 0x22 # t) (JString u)"
| gval_empty_array: "blank w \<Longrightarrow> n \<le> 32 \<Longrightarrow> blank x \<Longrightarrow> gval F n (w @ 0x5B # x @ [0x5D]) (JArray [])"
| gval_array: "blank w \<Longrightarrow> n \<le> 32 \<Longrightarrow> blank x \<Longrightarrow> gelems F n t js \<Longrightarrow> gval F n (w @ 0x5B # x @ t) (JArray js)"
| gval_empty_object: "blank w \<Longrightarrow> n \<le> 32 \<Longrightarrow> blank x \<Longrightarrow> gval F n (w @ 0x7B # x @ [0x7D]) (JObject [])"
| gval_object: "blank w \<Longrightarrow> n \<le> 32 \<Longrightarrow> blank x \<Longrightarrow> gmembers F n t ms \<Longrightarrow> gval F n (w @ 0x7B # x @ t) (JObject ms)"
| gelems_last: "gval F (Suc n) t j \<Longrightarrow> blank w \<Longrightarrow> gelems F n (t @ w @ [0x5D]) [j]"
| gelems_more: "gval F (Suc n) t j \<Longrightarrow> blank w \<Longrightarrow> gelems F n r js \<Longrightarrow> gelems F n (t @ w @ 0x2C # r) (j # js)"
| gmembers_last: "gstr k u \<Longrightarrow> length u \<le> 2 ^ 20 \<Longrightarrow> blank x \<Longrightarrow> gval F (Suc n) t j \<Longrightarrow> blank w \<Longrightarrow>
    gmembers F n (0x22 # k @ x @ 0x3A # t @ w @ [0x7D]) [(u, j)]"
| gmembers_more: "gstr k u \<Longrightarrow> length u \<le> 2 ^ 20 \<Longrightarrow> blank x \<Longrightarrow> gval F (Suc n) t j \<Longrightarrow> blank w \<Longrightarrow> gmembers F n r ms \<Longrightarrow>
    gmembers F n (0x22 # k @ x @ 0x3A # t @ w @ 0x2C # r) ((u, j) # ms)"

lemma skip_ws_slice:
  assumes "pos \<le> length s"
  shows "pos \<le> skip_ws s pos" "skip_ws s pos \<le> length s" "blank (slice s pos (skip_ws s pos))"
    "at s (skip_ws s pos) = Some c \<Longrightarrow> \<not> is_ws c"
proof -
  let ?w = "takeWhile is_ws (drop pos s)"
  have l: "length ?w \<le> length s - pos" using length_takeWhile_le [of is_ws "drop pos s"] by simp
  show "pos \<le> skip_ws s pos" "skip_ws s pos \<le> length s" using l assms by (simp_all add: skip_ws_def)
  have "slice s pos (skip_ws s pos) = ?w" by (simp add: slice_def skip_ws_def takeWhile_eq_take [symmetric])
  then show "blank (slice s pos (skip_ws s pos))" by (auto simp: blank_def dest: set_takeWhileD)
  show "\<not> is_ws c" if "at s (skip_ws s pos) = Some c"
    using that nth_length_takeWhile [of is_ws "drop pos s"] by (simp add: at_def skip_ws_def split: if_splits)
qed

lemma at_slice: "at s p = Some c \<Longrightarrow> p < q \<Longrightarrow> q \<le> length s \<Longrightarrow> slice s p q = c # slice s (Suc p) q"
  by (simp add: at_def slice_Cons split: if_splits)

lemma at_Some_less: "at s p = Some c \<Longrightarrow> p < length s"
  by (simp add: at_def split: if_splits)

lemma digits_slice:
  assumes "i \<le> length s" "digits_at s i = ds" "ds \<noteq> []"
  shows "i + length ds \<le> length s" "slice s i (i + length ds) = ds" "all_digits ds"
  using assms length_takeWhile_le [of is_digit "drop i s"]
  by (auto simp: digits_at_def slice_def all_digits_def takeWhile_eq_take [symmetric] dest: set_takeWhileD)


lemma parse_exponent_slice:
  assumes "parse_exponent F s i v = Inr (p, w)" "i \<le> length s"
  shows "i \<le> p \<and> p \<le> length s \<and> gexp F v (slice s i p) w"
proof (cases "at s i = Some 0x65 \<or> at s i = Some 0x45")
  case False
  then show ?thesis using assms by (auto simp: parse_exponent_def gexp_def)
next
  case True
  define neg sign where "neg = (at s (i + 1) = Some 0x2D)" and "sign = (at s (i + 1) = Some 0x2B \<or> at s (i + 1) = Some 0x2D)"
  define j where "j = (if sign then i + 2 else i + 1)"
  define ds where "ds = digits_at s j"
  obtain x where x: "ds \<noteq> []" "exp_digits 0 ds = Some x" "p = j + length ds" "w = scale_exp F v neg x"
    using assms(1) True unfolding parse_exponent_def Let_def neg_def sign_def j_def ds_def by (auto split: if_splits option.splits)
  have i: "i < length s" using True at_Some_less by auto
  have j: "i < j" "j \<le> length s"
    using i at_Some_less [of s "i + 1"] by (auto simp: j_def sign_def)
  have ds: "j + length ds \<le> length s" "slice s j (j + length ds) = ds" "all_digits ds"
    using digits_slice [OF j(2) ds_def [symmetric] x(1)] by auto
  have sg: "slice s (Suc i) j = (if at s (i + 1) = Some 0x2B then [0x2B] else if neg then [0x2D] else [])"
    using at_slice [of s "Suc i" _ "Suc (Suc i)"] j by (auto simp: j_def sign_def neg_def)
  have "slice s i p = s ! i # slice s (Suc i) j @ ds"
    using slice_Cons [of i p s] slice_append [of "Suc i" j p s] x(1,3) ds j by simp
  moreover have "s ! i = 0x65 \<or> s ! i = 0x45" using True i by (auto simp: at_def)
  ultimately have "gexp F v (slice s i p) w"
    unfolding gexp_def using ds(3) x sg
    by (intro disjI2 exI [of _ "s ! i"] exI [of _ "slice s (Suc i) j"] exI [of _ ds] exI [of _ x]) (auto simp: neg_def)
  then show ?thesis using ds j x(3) by simp
qed

lemma parse_fraction_slice:
  assumes "parse_fraction F s i v = Inr (p, w)" "i \<le> length s"
  shows "i \<le> p \<and> p \<le> length s \<and> gfrac F v (slice s i p) w"
proof (cases "at s i = Some 0x2E")
  case False
  then show ?thesis using assms parse_exponent_slice by (auto simp: parse_fraction_def gfrac_def)
next
  case True
  define ds where "ds = digits_at s (i + 1)"
  have i: "i + 1 \<le> length s" using at_Some_less [OF True] by simp
  have ne: "ds \<noteq> []" and e: "parse_exponent F s (i + 1 + length ds) (frac_digits F v ds) = Inr (p, w)"
    using assms(1) True unfolding parse_fraction_def Let_def ds_def by (auto split: if_splits)
  have d: "i + 1 + length ds \<le> length s" "slice s (i + 1) (i + 1 + length ds) = ds" "all_digits ds"
    using digits_slice [OF i ds_def [symmetric] ne] by auto
  have r: "i + 1 + length ds \<le> p" "p \<le> length s" "gexp F (frac_digits F v ds) (slice s (i + 1 + length ds) p) w"
    using parse_exponent_slice [OF e d(1)] by auto
  have "slice s i p = 0x2E # ds @ slice s (i + 1 + length ds) p"
    using at_slice [OF True, of p] slice_append [of "i + 1" "i + 1 + length ds" p s] d r by simp
  then show ?thesis using r d(3) unfolding gfrac_def by auto
qed

lemma parse_number_slice:
  assumes "parse_number F s pos = Inr (p, w)" "pos \<le> length s"
  shows "pos < p \<and> p \<le> length s \<and> gnum F (slice s pos p) w"
proof -
  define neg where "neg = (at s pos = Some 0x2D)"
  define i where "i = (if neg then pos + 1 else pos)"
  define ds where "ds = (if at s i = Some 0x30 then [0x30] else digits_at s i)"
  have ne: "ds \<noteq> []" using assms(1) unfolding parse_number_def Let_def neg_def i_def ds_def by (auto split: if_splits)
  then obtain v where f: "parse_fraction F s (i + length ds) (if at s i = Some 0x30 then 0 else int_digits F ds) = Inr (p, v)"
    "w = (if neg then jneg F v else v)"
    using assms(1) unfolding parse_number_def Let_def neg_def i_def ds_def by (auto split: if_splits sum.splits)
  have i: "i \<le> length s" "pos \<le> i" "slice s pos i = (if neg then [0x2D] else [])"
    using assms(2) at_slice [of s pos "0x2D" "pos + 1"] at_Some_less [of s pos] by (auto simp: i_def neg_def)
  have d: "i + length ds \<le> length s \<and> slice s i (i + length ds) = ds \<and> gint ds \<and> (at s i = Some 0x30 \<longleftrightarrow> ds = [0x30])"
  proof (cases "at s i = Some 0x30")
    case True
    then show ?thesis using at_slice [of s i "0x30" "i + 1"] at_Some_less [OF True] by (simp add: ds_def gint_def)
  next
    case False
    then have "digits_at s i = ds" by (simp add: ds_def)
    note q = digits_slice [OF i(1) this ne]
    have "i < length s" using q(1) ne by (cases ds) auto
    then have "hd ds = s ! i" using q(2) slice_Cons [of i "i + length ds" s] ne q(1) by (metis le_add1 length_greater_0_conv less_add_same_cancel1 list.sel(1))
    then have "hd ds \<noteq> 0x30" using False \<open>i < length s\<close> by (auto simp: at_def)
    then show ?thesis using q False by (auto simp: gint_def)
  qed
  then have r: "i + length ds \<le> p" "p \<le> length s" "gfrac F (if ds = [0x30] then 0 else int_digits F ds) (slice s (i + length ds) p) v"
    using parse_fraction_slice [OF f(1)] by auto
  have "slice s pos p = (if neg then [0x2D] else []) @ ds @ slice s (i + length ds) p"
    using slice_append [of pos i p s] slice_append [of i "i + length ds" p s] i d r by simp
  then have "gnum F (slice s pos p) w"
    unfolding gnum_def using r(3) d f(2)
    by (intro exI [of _ "if neg then [0x2D] else []"] exI [of _ ds] exI [of _ "slice s (i + length ds) p"] exI [of _ v]) auto
  then show ?thesis using r i(2) ne by (cases ds) auto
qed

end
