(* ===== verification/Json_Parse.thy ===== *)
theory Json_Parse
  imports Json_Spec
begin

text \<open>
  The parser of \<^verbatim>\<open>gateway/json.c\<close> is safe and sound: on every text it ends without an access outside its
  arrays, and a document it returns is the tree of a value that the grammar assigns to the text.
\<close>

section \<open>Specifications of the three functions\<close>

definition value_post :: "jops \<Rightarrow> bytes \<Rightarrow> pai_json_doc \<Rightarrow> nat \<Rightarrow> nat \<Rightarrow> pai_json_doc \<Rightarrow> nat \<times> nat \<Rightarrow> bool" where
  "value_post F s d pos dep d' = (\<lambda>(i, p). doc_ok d' \<and> i = length (nodes d) \<and> pos < p \<and> p \<le> length s \<and> length (strs d') \<le> p \<and>
     extends d d' (length (nodes d)) \<and> next_node (nodes d' ! i) = - 1 \<and>
     (\<exists>j. rep d' i (length (nodes d')) j \<and> gval F dep (slice s pos p) j))"

definition elems_post ::
    "jops \<Rightarrow> bytes \<Rightarrow> pai_json_doc \<Rightarrow> nat \<Rightarrow> nat \<Rightarrow> nat \<Rightarrow> (bytes option \<times> json) list \<Rightarrow> pai_json_doc \<Rightarrow> nat \<times> nat \<Rightarrow> bool" where
  "elems_post F s d pos dep nd xs d' = (\<lambda>(i, p). doc_ok d' \<and> i = nd \<and> pos < p \<and> p \<le> length s \<and> length (strs d') \<le> p \<and>
     extends d d' nd \<and>
     (\<exists>js. js \<noteq> [] \<and> open_node d' nd PAI_JSON_ARRAY (xs @ map (Pair None) js) \<and> gelems F dep (slice s pos p) js))"

definition members_post ::
    "jops \<Rightarrow> bytes \<Rightarrow> pai_json_doc \<Rightarrow> nat \<Rightarrow> nat \<Rightarrow> nat \<Rightarrow> (bytes option \<times> json) list \<Rightarrow> pai_json_doc \<Rightarrow> nat \<times> nat \<Rightarrow> bool" where
  "members_post F s d pos dep nd xs d' = (\<lambda>(i, p). doc_ok d' \<and> i = nd \<and> pos < p \<and> p \<le> length s \<and> length (strs d') \<le> p \<and>
     extends d d' nd \<and>
     (\<exists>ms. ms \<noteq> [] \<and> open_node d' nd PAI_JSON_OBJECT (xs @ map (\<lambda>(k, j). (Some k, j)) ms) \<and> gmembers F dep (slice s pos p) ms))"

definition ready :: "bytes \<Rightarrow> pai_json_doc \<Rightarrow> nat \<Rightarrow> bool" where
  "ready s d pos \<longleftrightarrow> doc_ok d \<and> length (strs d) \<le> pos \<and> pos \<le> length s"

definition value_spec :: "jops \<Rightarrow> (nat \<Rightarrow> bool) \<Rightarrow> bytes \<Rightarrow> nat \<Rightarrow> bool" where
  "value_spec F A s f \<longleftrightarrow>
     (\<forall>d pos dep. ready s d pos \<and> 2 * (length s - pos) + 2 \<le> f \<longrightarrow>
        runs (value_post F s d pos dep) (left_ok d) (parse_value F A s f d pos dep))"

definition elems_spec :: "jops \<Rightarrow> (nat \<Rightarrow> bool) \<Rightarrow> bytes \<Rightarrow> nat \<Rightarrow> bool" where
  "elems_spec F A s f \<longleftrightarrow>
     (\<forall>d pos dep nd xs. ready s d pos \<and> open_node d nd PAI_JSON_ARRAY xs \<and> 2 * (length s - pos) + 3 \<le> f \<longrightarrow>
        runs (elems_post F s d pos dep nd xs) (left_ok d) (parse_elements F A s f d pos dep nd))"

definition members_spec :: "jops \<Rightarrow> (nat \<Rightarrow> bool) \<Rightarrow> bytes \<Rightarrow> nat \<Rightarrow> bool" where
  "members_spec F A s f \<longleftrightarrow>
     (\<forall>d pos dep nd xs. ready s d pos \<and> open_node d nd PAI_JSON_OBJECT xs \<and> 2 * (length s - pos) + 1 \<le> f \<longrightarrow>
        runs (members_post F s d pos dep nd xs) (left_ok d) (parse_members F A s f d pos dep nd))"

text \<open>A parsed value becomes the next child of the open container.\<close>

lemma attach_child:
  assumes "open_node d nd t xs" "extends d d1 (length (nodes d))" "rep d1 (length (nodes d)) (length (nodes d1)) j"
    "key_ok d1 (length (nodes d)) k" "next_node (nodes d1 ! length (nodes d)) = - 1" "doc_ok d1"
  obtains d2 where "append_child d1 nd (length (nodes d)) = jret d2 ()" "open_node d2 nd t (xs @ [(k, j)])"
    "extends d d2 nd" "strs d2 = strs d1" "doc_ok d2" "length (nodes d2) = length (nodes d1)"
proof -
  have nd: "nd < length (nodes d)" "nodes d1 ! nd = nodes d ! nd" using assms(1,2) by (auto simp: open_node_def extends_def)
  have o: "ntype (nodes d1 ! nd) = t" "next_node (nodes d1 ! nd) = - 1"
    "first_child (nodes d1 ! nd) = (if xs = [] then - 1 else int (Suc nd))"
    using assms(1) nd(2) by (auto simp: open_node_def)
  have "reps d1 (Suc nd) (length (nodes d)) xs"
    by (rule rep_agrees(2) [of d]) (use assms(1,2) in \<open>auto simp: open_node_def extends_def\<close>)
  from append_child_open [OF nd(1) o this assms(3-5)]
  obtain d2 where "append_child d1 nd (length (nodes d)) = jret d2 ()" "open_node d2 nd t (xs @ [(k, j)])"
    "length (nodes d2) = length (nodes d1)" "extends d1 d2 nd" "strs d2 = strs d1" "doc_ok d2 = doc_ok d1" by blast
  moreover have "extends d d2 nd" using calculation(4) assms(2) nd by (auto simp: extends_def)
  ultimately show thesis using that assms(6) by blast
qed

lemma elems_step:
  assumes V: "value_spec F A s f" and E: "elems_spec F A s f"
  shows "elems_spec F A s (Suc f)"
  unfolding elems_spec_def
proof (intro allI impI, elim conjE)
  fix d pos dep nd xs
  assume r: "ready s d pos" and o: "open_node d nd PAI_JSON_ARRAY xs" and f: "2 * (length s - pos) + 3 \<le> Suc f"
  show "runs (elems_post F s d pos dep nd xs) (left_ok d) (parse_elements F A s (Suc f) d pos dep nd)"
    unfolding parse_elements.simps
  proof (rule runs_bind)
    show "runs (value_post F s d pos (dep + 1)) (left_ok d) (parse_value F A s f d pos (dep + 1))"
      using V r f by (auto simp: value_spec_def)
    fix d1 x assume "value_post F s d pos (dep + 1) d1 x"
    then obtain p1 j where x: "x = (length (nodes d), p1)" and d1: "doc_ok d1" "pos < p1" "p1 \<le> length s" "length (strs d1) \<le> p1"
      "extends d d1 (length (nodes d))" "next_node (nodes d1 ! length (nodes d)) = - 1"
      "rep d1 (length (nodes d)) (length (nodes d1)) j" "gval F (Suc dep) (slice s pos p1) j"
      by (auto simp: value_post_def)
    obtain d2 where d2: "append_child d1 nd (length (nodes d)) = jret d2 ()" "open_node d2 nd PAI_JSON_ARRAY (xs @ [(None, j)])"
      "extends d d2 nd" "strs d2 = strs d1" "doc_ok d2"
      using attach_child [OF o d1(5,7) _ d1(6,1), of None] by (auto simp: key_ok_def)
    let ?p = "skip_ws s p1"
    note w = skip_ws_slice [OF d1(3)]
    have more: "runs (elems_post F s d pos dep nd xs) (left_ok d) (parse_elements F A s f d2 (?p + 1) dep nd)" if c: "at s ?p = Some 0x2C"
    proof (rule runs_mono)
      have lt: "?p < length s" using at_Some_less [OF c] .
      show "runs (elems_post F s d2 (?p + 1) dep nd (xs @ [(None, j)])) (left_ok d2) (parse_elements F A s f d2 (?p + 1) dep nd)"
        using E d2 d1 w lt f by (auto simp: elems_spec_def ready_def)
      show "left_ok d d3" if "left_ok d2 d3" for d3 using that d2(3) by (simp add: left_ok_def extends_def)
      fix d3 y assume "elems_post F s d2 (?p + 1) dep nd (xs @ [(None, j)]) d3 y"
      then obtain p js where y: "y = (nd, p)" and d3: "doc_ok d3" "?p + 1 < p" "p \<le> length s" "length (strs d3) \<le> p" "extends d2 d3 nd"
        "open_node d3 nd PAI_JSON_ARRAY ((xs @ [(None, j)]) @ map (Pair None) js)" "gelems F dep (slice s (?p + 1) p) js"
        by (auto simp: elems_post_def)
      have "slice s pos p = slice s pos p1 @ slice s p1 ?p @ 0x2C # slice s (?p + 1) p"
        using at_slice [OF c, of p] slice_append [of pos p1 p s] slice_append [of p1 ?p p s] d1 d3 w by simp
      then have "gelems F dep (slice s pos p) (j # js)" using gelems_more [OF d1(8) w(3) d3(7)] by simp
      then show "elems_post F s d pos dep nd xs d3 y"
        unfolding y elems_post_def using d3 d1 w doc_extends_trans [OF d2(3) d3(5)] by (auto intro!: exI [of _ "j # js"])
    qed
    have stop: "elems_post F s d pos dep nd xs d2 (nd, ?p + 1)" if c: "at s ?p = Some 0x5D"
    proof -
      have lt: "?p < length s" using at_Some_less [OF c] .
      have "slice s pos (?p + 1) = slice s pos p1 @ slice s p1 ?p @ [0x5D]"
        using at_slice [OF c, of "?p + 1"] slice_append [of pos p1 "?p + 1" s] slice_append [of p1 ?p "?p + 1" s] d1 w lt by simp
      then have "gelems F dep (slice s pos (?p + 1)) [j]" using gelems_last [OF d1(8) w(3)] by simp
      then show ?thesis unfolding elems_post_def using d2 d1 w lt by (auto intro!: exI [of _ "[j]"])
    qed
    show "runs (elems_post F s d pos dep nd xs) (left_ok d)
        (case x of (val_idx, pos) \<Rightarrow> jbind (append_child d1 nd val_idx)
            (\<lambda>d _. let pos = skip_ws s pos
                   in if at s pos = Some 0x2C then parse_elements F A s f d (pos + 1) dep nd
                      else if at s pos = Some 0x5D then jret d (nd, pos + 1) else jfail d PAI_ERR_PROTOCOL))"
      using more stop d2 unfolding x prod.case by (auto simp: Let_def left_ok_def extends_def)
  qed
qed

text \<open>The part of a member up to its colon.\<close>

definition key_post :: "bytes \<Rightarrow> pai_json_doc \<Rightarrow> nat \<Rightarrow> pai_json_doc \<Rightarrow> nat \<Rightarrow> int \<Rightarrow> bytes \<Rightarrow> bool" where
  "key_post s d pos d0 p0 i u \<longleftrightarrow> doc_ok d0 \<and> nodes d0 = nodes d \<and> root d0 = root d \<and> pos < p0 \<and> p0 \<le> length s \<and>
     length (strs d0) \<le> p0 \<and> strs d0 = strs d @ u @ [0] \<and> i = int (length (strs d)) \<and> length u \<le> 2 ^ 20 \<and> gstr (slice s (pos + 1) p0) u"

lemma open_node_strs:
  assumes "open_node d nd t xs" "nodes d0 = nodes d" "strs d0 = strs d @ w" shows "open_node d0 nd t xs"
  using assms rep_agrees(2) [of d "Suc nd" "length (nodes d)" xs d0] by (auto simp: open_node_def)

lemma members_tail:
  assumes V: "value_spec F A s f" and M: "members_spec F A s f" and s: "length s < 2 ^ 31"
    and o: "open_node d nd PAI_JSON_OBJECT xs" and q: "at s pos = Some 0x22" and k: "key_post s d pos d0 p0 i u"
    and c: "at s (skip_ws s p0) = Some 0x3A" and f: "2 * (length s - pos) + 1 \<le> Suc f"
  shows "runs (members_post F s d pos dep nd xs) (left_ok d)
     (jbind (parse_value F A s f d0 (skip_ws s p0 + 1) (dep + 1))
        (\<lambda>d (val_idx, pos).
           if val_idx \<ge> length (nodes d) then Fault
           else
             jbind (append_child (set_node d val_idx (\<lambda>n. n\<lparr>key := i\<rparr>)) nd val_idx)
               (\<lambda>d _. let pos = skip_ws s pos
                      in if at s pos = Some 0x2C then parse_members F A s f d (pos + 1) dep nd
                         else if at s pos = Some 0x7D then jret d (nd, pos + 1)
                         else jfail d PAI_ERR_PROTOCOL)))"
proof -
  have d0: "doc_ok d0" "nodes d0 = nodes d" "root d0 = root d" "pos < p0" "p0 \<le> length s" "length (strs d0) \<le> p0"
    "strs d0 = strs d @ u @ [0]" "i = int (length (strs d))" "length u \<le> 2 ^ 20" "gstr (slice s (pos + 1) p0) u"
    using k by (auto simp: key_post_def)
  let ?c = "skip_ws s p0"
  note wc = skip_ws_slice [OF d0(5)]
  have cl: "?c < length s" using at_Some_less [OF c] .
  have pp: "pos + 1 < p0" using gstr_nonempty [OF d0(10)] d0(4) by (cases "pos + 1 = p0") auto
  have o0: "open_node d0 nd PAI_JSON_OBJECT xs" using open_node_strs [OF o d0(2,7)] .
  show ?thesis
  proof (rule runs_bind)
    show "runs (value_post F s d0 (?c + 1) (dep + 1)) (left_ok d0) (parse_value F A s f d0 (?c + 1) (dep + 1))"
      using V d0 wc cl f by (auto simp: value_spec_def ready_def)
    show "left_ok d d1" if "left_ok d0 d1" for d1 using that d0(3) by (simp add: left_ok_def)
    fix d1 x assume "value_post F s d0 (?c + 1) (dep + 1) d1 x"
    then obtain p1 j where x: "x = (length (nodes d), p1)" and d1: "doc_ok d1" "?c + 1 < p1" "p1 \<le> length s" "length (strs d1) \<le> p1"
      "extends d0 d1 (length (nodes d))" "next_node (nodes d1 ! length (nodes d)) = - 1"
      "rep d1 (length (nodes d)) (length (nodes d1)) j" "gval F (Suc dep) (slice s (?c + 1) p1) j"
      using d0(2) by (auto simp: value_post_def)
    have len: "length (nodes d) < length (nodes d1)" using rep_bounds(1) [OF d1(7)] by simp
    let ?d = "set_node d1 (length (nodes d)) (\<lambda>n. n\<lparr>key := i\<rparr>)"
    have e: "extends d0 ?d (length (nodes d0))" using d1(5) d0(2) len by (auto simp: extends_def)
    have rp: "rep ?d (length (nodes d0)) (length (nodes ?d)) j"
      using rep_agrees(1) [OF d1(7), of ?d] d0(2) len by (auto simp: agrees_def core_def)
    have "str_at d0 i u" using str_at_new [OF d0(7)] d0(8) by simp
    then have ky: "key_ok ?d (length (nodes d0)) (Some u)"
      using str_at_mono [of d0 i u ?d] d1(5) d0(2) len by (auto simp: key_ok_def extends_def)
    have nx: "next_node (nodes ?d ! length (nodes d0)) = - 1" "doc_ok ?d" using d1 d0(2) len by auto
    obtain d2 where d2: "append_child ?d nd (length (nodes d)) = jret d2 ()" "open_node d2 nd PAI_JSON_OBJECT (xs @ [(Some u, j)])"
      "extends d0 d2 nd" "strs d2 = strs d1" "doc_ok d2"
      using attach_child [OF o0 e rp ky nx] d0(2) by auto
    have e2: "extends d d2 nd" using d2(3) d0 by (auto simp: extends_def)
    let ?p = "skip_ws s p1"
    note w = skip_ws_slice [OF d1(3)]
    have pre: "slice s pos p = 0x22 # slice s (pos + 1) p0 @ slice s p0 ?c @ 0x3A # slice s (?c + 1) p1 @ slice s p1 ?p @ slice s ?p p"
      if "?p \<le> p" "p \<le> length s" for p
      using at_slice [OF q, of p] at_slice [OF c, of p] slice_append [of "pos + 1" p0 p s] slice_append [of p0 ?c p s]
        slice_append [of "?c + 1" p1 p s] slice_append [of p1 ?p p s] that d0 d1 w wc pp by simp
    have more: "runs (members_post F s d pos dep nd xs) (left_ok d) (parse_members F A s f d2 (?p + 1) dep nd)" if b: "at s ?p = Some 0x2C"
    proof (rule runs_mono)
      have lt: "?p < length s" using at_Some_less [OF b] .
      show "runs (members_post F s d2 (?p + 1) dep nd (xs @ [(Some u, j)])) (left_ok d2) (parse_members F A s f d2 (?p + 1) dep nd)"
        using M d2 d1 d0 w wc lt f by (auto simp: members_spec_def ready_def)
      show "left_ok d d3" if "left_ok d2 d3" for d3 using that e2 by (simp add: left_ok_def extends_def)
      fix d3 y assume "members_post F s d2 (?p + 1) dep nd (xs @ [(Some u, j)]) d3 y"
      then obtain p ms where y: "y = (nd, p)" and d3: "doc_ok d3" "?p + 1 < p" "p \<le> length s" "length (strs d3) \<le> p" "extends d2 d3 nd"
        "open_node d3 nd PAI_JSON_OBJECT ((xs @ [(Some u, j)]) @ map (\<lambda>(k, j). (Some k, j)) ms)" "gmembers F dep (slice s (?p + 1) p) ms"
        by (auto simp: members_post_def)
      have "gmembers F dep (slice s pos p) ((u, j) # ms)"
        using gmembers_more [OF d0(10,9) wc(3) d1(8) w(3) d3(7)] pre [of p] at_slice [OF b, of p] d3 by simp
      then show "members_post F s d pos dep nd xs d3 y"
        unfolding y members_post_def using d3 d1 d0 w wc doc_extends_trans [OF e2 d3(5)] by (auto intro!: exI [of _ "(u, j) # ms"])
    qed
    have stop: "members_post F s d pos dep nd xs d2 (nd, ?p + 1)" if b: "at s ?p = Some 0x7D"
    proof -
      have lt: "?p < length s" using at_Some_less [OF b] .
      have "gmembers F dep (slice s pos (?p + 1)) [(u, j)]"
        using gmembers_last [OF d0(10,9) wc(3) d1(8) w(3)] pre [of "?p + 1"] at_slice [OF b, of "?p + 1"] lt by simp
      then show ?thesis unfolding members_post_def using d2 e2 d1 d0 w wc lt by (auto intro!: exI [of _ "[(u, j)]"])
    qed
    show "runs (members_post F s d pos dep nd xs) (left_ok d)
        (case x of (val_idx, pos) \<Rightarrow>
           if val_idx \<ge> length (nodes d1) then Fault
           else
             jbind (append_child (set_node d1 val_idx (\<lambda>n. n\<lparr>key := i\<rparr>)) nd val_idx)
               (\<lambda>d _. let pos = skip_ws s pos
                      in if at s pos = Some 0x2C then parse_members F A s f d (pos + 1) dep nd
                         else if at s pos = Some 0x7D then jret d (nd, pos + 1)
                         else jfail d PAI_ERR_PROTOCOL))"
      using more stop d2 e2 len unfolding x prod.case by (auto simp: Let_def left_ok_def extends_def)
  qed
qed

lemma members_step:
  assumes V: "value_spec F A s f" and M: "members_spec F A s f" and s: "length s < 2 ^ 31"
  shows "members_spec F A s (Suc f)"
  unfolding members_spec_def
proof (intro allI impI, elim conjE)
  fix d pos dep nd xs
  assume r: "ready s d pos" and o: "open_node d nd PAI_JSON_OBJECT xs" and f: "2 * (length s - pos) + 1 \<le> Suc f"
  show "runs (members_post F s d pos dep nd xs) (left_ok d) (parse_members F A s (Suc f) d pos dep nd)"
  proof (cases "at s pos = Some 0x22")
    case False
    then show ?thesis using r by (simp add: left_ok_def ready_def)
  next
    case True
    have lt: "pos < length s" using at_Some_less [OF True] .
    have ps: "runs (\<lambda>d' (p, i). \<exists>u. key_post s d pos d' p i u) (left_ok d) (parse_string A s d (pos + 1))"
      by (rule runs_mono [OF parse_string_runs]) (use r lt s in \<open>auto simp: ready_def key_post_def\<close>)
    have rest: "runs (members_post F s d pos dep nd xs) (left_ok d)
       (case x of (pos, key_idx) \<Rightarrow>
          let pos = skip_ws s pos
          in if at s pos \<noteq> Some 0x3A then jfail d0 PAI_ERR_PROTOCOL
             else
               jbind (parse_value F A s f d0 (pos + 1) (dep + 1))
                 (\<lambda>d (val_idx, pos).
                    if val_idx \<ge> length (nodes d) then Fault
                    else
                      jbind (append_child (set_node d val_idx (\<lambda>n. n\<lparr>key := key_idx\<rparr>)) nd val_idx)
                        (\<lambda>d _. let pos = skip_ws s pos
                               in if at s pos = Some 0x2C then parse_members F A s f d (pos + 1) dep nd
                                  else if at s pos = Some 0x7D then jret d (nd, pos + 1)
                                  else jfail d PAI_ERR_PROTOCOL)))"
      if kp: "case x of (p, i) \<Rightarrow> \<exists>u. key_post s d pos d0 p i u" for d0 x
    proof -
      obtain p0 i u where x: "x = (p0, i)" "key_post s d pos d0 p0 i u" using kp by auto
      show ?thesis
      proof (cases "at s (skip_ws s p0) = Some 0x3A")
        case False
        then show ?thesis using x by (simp add: Let_def left_ok_def key_post_def)
      next
        case c: True
        show ?thesis using members_tail [OF V M s o True x(2) c f] c unfolding x prod.case Let_def by simp
      qed
    qed
    show ?thesis
      unfolding parse_members.simps using runs_bind [OF ps rest] True by simp
  qed
qed

section \<open>Values\<close>

lemma value_post_leaf:
  assumes "doc_ok d1" "nodes d1 = nodes d @ [n]" "strs d1 = strs d @ w" "root d1 = root d" "next_node (g n) = - 1"
    "pos < p" "p \<le> length s" "length (strs d1) \<le> p" "rep (set_node d1 (length (nodes d)) g) (length (nodes d)) (Suc (length (nodes d))) j"
    "gval F dep (slice s pos p) j"
  shows "value_post F s d pos dep (set_node d1 (length (nodes d)) g) (length (nodes d), p)"
  using assms by (auto simp: value_post_def extends_def nth_append set_node_def doc_ok_def)

lemma literal_runs:
  assumes r: "ready s d pos0" and p: "pos = skip_ws s pos0" and lt: "pos < length s" and l: "0 < length lit"
    and t: "(t = PAI_JSON_NULL \<and> j = JNull) \<or> (t = PAI_JSON_BOOL \<and> j = JBool b)"
    and g: "\<And>w. blank w \<Longrightarrow> gval F dep (w @ lit) j"
  shows "runs (value_post F s d pos0 dep) (left_ok d) (parse_literal A s d pos lit t b)"
proof (cases "take (length lit) (drop pos s) = lit")
  case False
  then show ?thesis using r by (simp add: parse_literal_def left_ok_def ready_def)
next
  case True
  have ok: "doc_ok d" "length (strs d) \<le> pos0" "pos0 \<le> length s" using r by (auto simp: ready_def)
  note w = skip_ws_slice [OF ok(3), folded p]
  have "length (take (length lit) (drop pos s)) = length lit" using True by simp
  then have ll: "pos + length lit \<le> length s" using lt by simp
  have sl: "slice s pos0 (pos + length lit) = slice s pos0 pos @ lit"
    using slice_append [of pos0 pos "pos + length lit" s] w True by (simp add: slice_def)
  have lt0: "pos0 < pos + length lit" using w(1) l by linarith
  have post: "value_post F s d pos0 dep (set_node d1 (length (nodes d)) (\<lambda>n. n\<lparr>boolean := b\<rparr>)) (length (nodes d), pos + length lit)"
    if "doc_ok d1" "nodes d1 = nodes d @ [blank_node t]" "strs d1 = strs d" "root d1 = root d" for d1
    using that ok w ll lt0 t sl g [OF w(3)]
    by (intro value_post_leaf [where w = "[]" and j = j]) (auto simp: blank_node_def set_node_def intro!: rep_null rep_bool)
  show ?thesis
    unfolding parse_literal_def if_P [OF True]
    by (rule runs_bind [OF new_node_runs [OF ok(1)]]) (use post ok in \<open>auto simp: left_ok_def same_doc_def doc_ok_def\<close>)
qed

lemma number_runs:
  assumes r: "ready s d pos0" and p: "pos = skip_ws s pos0" and dep: "dep \<le> 32"
  shows "runs (value_post F s d pos0 dep) (left_ok d)
     (case parse_number F s pos of
        Inl e \<Rightarrow> jfail d e
      | Inr (pos, v) \<Rightarrow> jbind (new_node A d PAI_JSON_NUMBER) (\<lambda>d node. jret (set_node d node (\<lambda>n. n\<lparr>num := v\<rparr>)) (node, pos)))"
proof -
  have ok: "doc_ok d" "length (strs d) \<le> pos0" "pos0 \<le> length s" using r by (auto simp: ready_def)
  note w = skip_ws_slice [OF ok(3), folded p]
  show ?thesis
  proof (cases "parse_number F s pos")
    case (Inl e)
    then have "e = PAI_ERR_PROTOCOL"
      by (auto simp: parse_number_def parse_fraction_def parse_exponent_def Let_def split: if_splits sum.splits option.splits)
    then show ?thesis using Inl ok by (simp add: left_ok_def)
  next
    case (Inr pv)
    obtain q v where pv: "pv = (q, v)" by fastforce
    have n: "pos < q" "q \<le> length s" "gnum F (slice s pos q) v" using parse_number_slice [of F s pos q v] Inr pv w by auto
    have g: "gval F dep (slice s pos0 q) (JNumber v)"
      using gval_number [OF w(3) dep n(3)] slice_append [of pos0 pos q s] w n by simp
    have post: "value_post F s d pos0 dep (set_node d1 (length (nodes d)) (\<lambda>n. n\<lparr>num := v\<rparr>)) (length (nodes d), q)"
      if "doc_ok d1" "nodes d1 = nodes d @ [blank_node PAI_JSON_NUMBER]" "strs d1 = strs d" "root d1 = root d" for d1
      using that ok w n g
      by (intro value_post_leaf [where w = "[]" and j = "JNumber v"]) (auto simp: blank_node_def set_node_def intro!: rep_number)
    show ?thesis unfolding Inr pv sum.case prod.case
      by (rule runs_bind [OF new_node_runs [OF ok(1)]]) (use post ok in \<open>auto simp: left_ok_def same_doc_def doc_ok_def\<close>)
  qed
qed

lemma string_runs:
  assumes r: "ready s d pos0" and p: "pos = skip_ws s pos0" and dep: "dep \<le> 32" and c: "at s pos = Some 0x22" and s: "length s < 2 ^ 31"
  shows "runs (value_post F s d pos0 dep) (left_ok d)
     (jbind (new_node A d PAI_JSON_STRING)
        (\<lambda>d node. jbind (parse_string A s d (pos + 1))
                    (\<lambda>d (pos, i). jret (set_node d node (\<lambda>n. n\<lparr>str := i\<rparr>)) (node, pos))))"
proof -
  have ok: "doc_ok d" "length (strs d) \<le> pos0" "pos0 \<le> length s" using r by (auto simp: ready_def)
  note w = skip_ws_slice [OF ok(3), folded p]
  have lt: "pos < length s" using at_Some_less [OF c] .
  show ?thesis
  proof (rule runs_bind [OF new_node_runs [OF ok(1)]])
    show "left_ok d d1" if "same_doc d d1" for d1 using that ok by (auto simp: left_ok_def same_doc_def doc_ok_def)
    fix d1 i
    assume "doc_ok d1 \<and> i = length (nodes d) \<and> nodes d1 = nodes d @ [blank_node PAI_JSON_STRING] \<and> strs d1 = strs d \<and> root d1 = root d"
    then have d1: "doc_ok d1" "i = length (nodes d)" "nodes d1 = nodes d @ [blank_node PAI_JSON_STRING]" "strs d1 = strs d" "root d1 = root d"
      by auto
    have "length (strs d1) \<le> pos + 1" using d1 ok w by simp
    from parse_string_runs [OF d1(1) this s, of A]
    show "runs (value_post F s d pos0 dep) (left_ok d)
        (jbind (parse_string A s d1 (pos + 1)) (\<lambda>d (pos, k). jret (set_node d i (\<lambda>n. n\<lparr>str := k\<rparr>)) (i, pos)))"
    proof (rule runs_bind)
      show "left_ok d d2" if "left_ok d1 d2" for d2 using that d1 by (simp add: left_ok_def)
      fix d2 x
      assume "case x of (q, k) \<Rightarrow> doc_ok d2 \<and> nodes d2 = nodes d1 \<and> root d2 = root d1 \<and> pos + 1 < q \<and> q \<le> length s \<and>
        length (strs d2) \<le> q \<and> k = int (length (strs d1)) \<and>
        (\<exists>u. strs d2 = strs d1 @ u @ [0] \<and> length u \<le> 2 ^ 20 \<and> gstr (slice s (pos + 1) q) u)"
      then obtain q k u where x: "x = (q, k)" and d2: "doc_ok d2" "nodes d2 = nodes d1" "root d2 = root d1" "pos + 1 < q" "q \<le> length s"
        "length (strs d2) \<le> q" "k = int (length (strs d1))" "strs d2 = strs d1 @ u @ [0]" "length u \<le> 2 ^ 20" "gstr (slice s (pos + 1) q) u"
        by auto
      have g: "gval F dep (slice s pos0 q) (JString u)"
        using gval_string [OF w(3) dep d2(10,9)] slice_append [of pos0 pos q s] at_slice [OF c, of q] w d2 by simp
      have st: "str_at d2 k u" using str_at_new [OF d2(8)] d2(7) by simp
      have "value_post F s d pos0 dep (set_node d2 (length (nodes d)) (\<lambda>n. n\<lparr>str := k\<rparr>)) (length (nodes d), q)"
        using d1 d2 ok w g st
        by (intro value_post_leaf [where w = "u @ [0]" and j = "JString u"])
          (auto simp: blank_node_def set_node_def str_at_def intro!: rep_string)
      then show "runs (value_post F s d pos0 dep) (left_ok d) (case x of (pos, k) \<Rightarrow> jret (set_node d2 i (\<lambda>n. n\<lparr>str := k\<rparr>)) (i, pos))"
        using d1(2) x by simp
    qed
  qed
qed


lemma new_container_runs:
  assumes r: "ready s d pos0"
  shows "runs (\<lambda>d1 i. doc_ok d1 \<and> i = length (nodes d) \<and> strs d1 = strs d \<and> open_node d1 i t [] \<and> extends d d1 i \<and> length (nodes d1) = Suc i)
     (left_ok d) (new_node A d t)"
  by (rule runs_mono [OF new_node_runs])
    (use r in \<open>auto simp: ready_def open_node_def extends_def blank_node_def nth_append left_ok_def same_doc_def doc_ok_def intro: reps_nil\<close>)

lemma container_close:
  assumes "doc_ok d'" "pos0 < p" "p \<le> length s" "length (strs d') \<le> p" "extends d d' (length (nodes d))"
    "t = PAI_JSON_ARRAY \<and> xs = map (Pair None) js \<and> j = JArray js \<or> t = PAI_JSON_OBJECT \<and> xs = map (\<lambda>(k, j). (Some k, j)) ms \<and> j = JObject ms"
    "open_node d' (length (nodes d)) t xs" "gval F dep (slice s pos0 p) j"
  shows "value_post F s d pos0 dep d' (length (nodes d), p)"
  using assms unfolding value_post_def open_node_def
  by (auto intro!: exI [of _ j] rep_array rep_object)

lemma array_runs:
  assumes E: "elems_spec F A s f" and r: "ready s d pos0" and p: "pos = skip_ws s pos0" and dep: "dep \<le> 32"
    and c: "at s pos = Some 0x5B" and f: "2 * (length s - pos0) + 2 \<le> Suc f"
  shows "runs (value_post F s d pos0 dep) (left_ok d)
     (jbind (new_node A d PAI_JSON_ARRAY)
        (\<lambda>d node. let pos = skip_ws s (pos + 1)
                   in if at s pos = Some 0x5D then jret d (node, pos + 1) else parse_elements F A s f d pos dep node))"
proof (rule runs_bind [OF new_container_runs [OF r]])
  have ok: "doc_ok d" "length (strs d) \<le> pos0" "pos0 \<le> length s" using r by (auto simp: ready_def)
  note w = skip_ws_slice [OF ok(3), folded p]
  have lt: "pos + 1 \<le> length s" using at_Some_less [OF c] by simp
  let ?q = "skip_ws s (pos + 1)"
  note x = skip_ws_slice [OF lt]
  have sl: "slice s pos0 e = slice s pos0 pos @ 0x5B # slice s (pos + 1) ?q @ slice s ?q e" if "?q \<le> e" "e \<le> length s" for e
    using at_slice [OF c, of e] slice_append [of pos0 pos e s] slice_append [of "pos + 1" ?q e s] that w x by simp
  fix d1 i assume "doc_ok d1 \<and> i = length (nodes d) \<and> strs d1 = strs d \<and> open_node d1 i PAI_JSON_ARRAY [] \<and> extends d d1 i \<and> length (nodes d1) = Suc i"
  then have d1: "doc_ok d1" "i = length (nodes d)" "strs d1 = strs d" "open_node d1 i PAI_JSON_ARRAY []" "extends d d1 i" by auto
  have empty: "value_post F s d pos0 dep d1 (i, ?q + 1)" if b: "at s ?q = Some 0x5D"
  proof -
    have "gval F dep (slice s pos0 (?q + 1)) (JArray [])"
      using gval_empty_array [OF w(3) dep x(3)] sl [of "?q + 1"] at_slice [OF b, of "?q + 1"] at_Some_less [OF b] by simp
    then show ?thesis unfolding d1(2)
      by (intro container_close [where t = PAI_JSON_ARRAY and xs = "[]"]) (use d1 ok w x at_Some_less [OF b] in auto)
  qed
  have full: "runs (value_post F s d pos0 dep) (left_ok d) (parse_elements F A s f d1 ?q dep i)"
  proof (rule runs_mono)
    show "runs (elems_post F s d1 ?q dep i []) (left_ok d1) (parse_elements F A s f d1 ?q dep i)"
      using E d1 ok w x lt f by (auto simp: elems_spec_def ready_def)
    show "left_ok d d2" if "left_ok d1 d2" for d2 using that d1(5) by (simp add: left_ok_def extends_def)
    fix d2 y assume "elems_post F s d1 ?q dep i [] d2 y"
    then obtain e js where y: "y = (i, e)" and d2: "doc_ok d2" "?q < e" "e \<le> length s" "length (strs d2) \<le> e" "extends d1 d2 i"
      "open_node d2 i PAI_JSON_ARRAY (map (Pair None) js)" "gelems F dep (slice s ?q e) js" by (auto simp: elems_post_def)
    have "gval F dep (slice s pos0 e) (JArray js)" using gval_array [OF w(3) dep x(3) d2(7)] sl [of e] d2 by simp
    then show "value_post F s d pos0 dep d2 y" unfolding y d1(2)
      by (intro container_close [where t = PAI_JSON_ARRAY and xs = "map (Pair None) js"])
        (use d1 d2 w x doc_extends_trans [OF d1(5) d2(5)] in auto)
  qed
  show "runs (value_post F s d pos0 dep) (left_ok d)
     (let pos = ?q in if at s pos = Some 0x5D then jret d1 (i, pos + 1) else parse_elements F A s f d1 pos dep i)"
    using empty full by (simp add: Let_def)
qed

lemma object_runs:
  assumes M: "members_spec F A s f" and r: "ready s d pos0" and p: "pos = skip_ws s pos0" and dep: "dep \<le> 32"
    and c: "at s pos = Some 0x7B" and f: "2 * (length s - pos0) + 2 \<le> Suc f"
  shows "runs (value_post F s d pos0 dep) (left_ok d)
     (jbind (new_node A d PAI_JSON_OBJECT)
        (\<lambda>d node. let pos = skip_ws s (pos + 1)
                   in if at s pos = Some 0x7D then jret d (node, pos + 1) else parse_members F A s f d pos dep node))"
proof (rule runs_bind [OF new_container_runs [OF r]])
  have ok: "doc_ok d" "length (strs d) \<le> pos0" "pos0 \<le> length s" using r by (auto simp: ready_def)
  note w = skip_ws_slice [OF ok(3), folded p]
  have lt: "pos + 1 \<le> length s" using at_Some_less [OF c] by simp
  let ?q = "skip_ws s (pos + 1)"
  note x = skip_ws_slice [OF lt]
  have sl: "slice s pos0 e = slice s pos0 pos @ 0x7B # slice s (pos + 1) ?q @ slice s ?q e" if "?q \<le> e" "e \<le> length s" for e
    using at_slice [OF c, of e] slice_append [of pos0 pos e s] slice_append [of "pos + 1" ?q e s] that w x by simp
  fix d1 i assume "doc_ok d1 \<and> i = length (nodes d) \<and> strs d1 = strs d \<and> open_node d1 i PAI_JSON_OBJECT [] \<and> extends d d1 i \<and> length (nodes d1) = Suc i"
  then have d1: "doc_ok d1" "i = length (nodes d)" "strs d1 = strs d" "open_node d1 i PAI_JSON_OBJECT []" "extends d d1 i" by auto
  have empty: "value_post F s d pos0 dep d1 (i, ?q + 1)" if b: "at s ?q = Some 0x7D"
  proof -
    have "gval F dep (slice s pos0 (?q + 1)) (JObject [])"
      using gval_empty_object [OF w(3) dep x(3)] sl [of "?q + 1"] at_slice [OF b, of "?q + 1"] at_Some_less [OF b] by simp
    then show ?thesis unfolding d1(2)
      by (intro container_close [where t = PAI_JSON_OBJECT and xs = "[]"]) (use d1 ok w x at_Some_less [OF b] in auto)
  qed
  have full: "runs (value_post F s d pos0 dep) (left_ok d) (parse_members F A s f d1 ?q dep i)"
  proof (rule runs_mono)
    show "runs (members_post F s d1 ?q dep i []) (left_ok d1) (parse_members F A s f d1 ?q dep i)"
      using M d1 ok w x lt f by (auto simp: members_spec_def ready_def)
    show "left_ok d d2" if "left_ok d1 d2" for d2 using that d1(5) by (simp add: left_ok_def extends_def)
    fix d2 y assume "members_post F s d1 ?q dep i [] d2 y"
    then obtain e ms where y: "y = (i, e)" and d2: "doc_ok d2" "?q < e" "e \<le> length s" "length (strs d2) \<le> e" "extends d1 d2 i"
      "open_node d2 i PAI_JSON_OBJECT (map (\<lambda>(k, j). (Some k, j)) ms)" "gmembers F dep (slice s ?q e) ms" by (auto simp: members_post_def)
    have "gval F dep (slice s pos0 e) (JObject ms)" using gval_object [OF w(3) dep x(3) d2(7)] sl [of e] d2 by simp
    then show "value_post F s d pos0 dep d2 y" unfolding y d1(2)
      by (intro container_close [where t = PAI_JSON_OBJECT and xs = "map (\<lambda>(k, j). (Some k, j)) ms"])
        (use d1 d2 w x doc_extends_trans [OF d1(5) d2(5)] in auto)
  qed
  show "runs (value_post F s d pos0 dep) (left_ok d)
     (let pos = ?q in if at s pos = Some 0x7D then jret d1 (i, pos + 1) else parse_members F A s f d1 pos dep i)"
    using empty full by (simp add: Let_def)
qed

lemma runs_if: "(b \<Longrightarrow> runs P Q r1) \<Longrightarrow> (\<not> b \<Longrightarrow> runs P Q r2) \<Longrightarrow> runs P Q (if b then r1 else r2)"
  by simp

lemma value_step:
  assumes M: "members_spec F A s f" and E: "elems_spec F A s f" and s: "length s < 2 ^ 31"
  shows "value_spec F A s (Suc f)"
  unfolding value_spec_def
proof (intro allI impI, elim conjE)
  fix d pos0 dep
  assume r: "ready s d pos0" and f: "2 * (length s - pos0) + 2 \<le> Suc f"
  have ok: "doc_ok d" "pos0 \<le> length s" using r by (auto simp: ready_def)
  define pos where "pos = skip_ws s pos0"
  show "runs (value_post F s d pos0 dep) (left_ok d) (parse_value F A s (Suc f) d pos0 dep)"
  proof (cases "dep \<le> 32 \<and> at s pos \<noteq> None")
    case False
    then show ?thesis using ok by (auto simp: PAI_JSON_MAX_DEPTH_def Let_def left_ok_def pos_def)
  next
    case True
    then obtain c where dep: "dep \<le> 32" and c: "at s pos = Some c" by auto
    have nd: "\<not> dep > PAI_JSON_MAX_DEPTH" using dep by (simp add: PAI_JSON_MAX_DEPTH_def)
    have lit: "pos < length s" using at_Some_less [OF c] .
    show ?thesis
      unfolding parse_value.simps pos_def [symmetric] if_not_P [OF nd] Let_def [of pos] c option.case
    proof (rule runs_if, goal_cases)
      case 1
      then show ?case using object_runs [OF M r pos_def dep _ f] c by simp
    next
      case 2
      show ?case
      proof (rule runs_if, goal_cases)
        case 1
        then show ?case using array_runs [OF E r pos_def dep _ f] c by simp
      next
        case 2
        have t: "runs (value_post F s d pos0 dep) (left_ok d) (parse_literal A s d pos [0x74, 0x72, 0x75, 0x65] PAI_JSON_BOOL True)"
          by (rule literal_runs [OF r pos_def lit, where j = "JBool True"]) (use gval_true dep in auto)
        have f: "runs (value_post F s d pos0 dep) (left_ok d) (parse_literal A s d pos [0x66, 0x61, 0x6C, 0x73, 0x65] PAI_JSON_BOOL False)"
          by (rule literal_runs [OF r pos_def lit, where j = "JBool False"]) (use gval_false dep in auto)
        have n: "runs (value_post F s d pos0 dep) (left_ok d) (parse_literal A s d pos [0x6E, 0x75, 0x6C, 0x6C] PAI_JSON_NULL False)"
          by (rule literal_runs [OF r pos_def lit, where j = JNull]) (use gval_null dep in auto)
        show ?case using string_runs [OF r pos_def dep _ s, of F A] c by (intro runs_if t f n number_runs [OF r pos_def dep]) simp_all
      qed
    qed
  qed
qed


lemma parse_specs:
  assumes "length s < 2 ^ 31"
  shows "value_spec F A s f \<and> members_spec F A s f \<and> elems_spec F A s f"
proof (induction f)
  case 0
  show ?case by (simp add: value_spec_def members_spec_def elems_spec_def)
next
  case (Suc f)
  then show ?case using value_step elems_step members_step assms by blast
qed

text \<open>A document of a text: the tree of a value the grammar assigns to it, between white space.\<close>

definition gdoc :: "jops \<Rightarrow> bytes \<Rightarrow> json \<Rightarrow> bool" where
  "gdoc F s j \<longleftrightarrow> (\<exists>t w. s = t @ w \<and> gval F 0 t j \<and> blank w)"

definition tree_of :: "pai_json_doc \<Rightarrow> json \<Rightarrow> bool" where
  "tree_of d j \<longleftrightarrow> root d = 0 \<and> rep d 0 (length (nodes d)) j"

lemma rep_root: "rep d i hi j \<Longrightarrow> rep (d\<lparr>root := r\<rparr>) i hi j"
  by (rule rep_agrees(1)) (use rep_bounds(1) in \<open>auto simp: agrees_def\<close>)

lemma parse_runs:
  assumes "length s < 2 ^ 31"
  shows "runs (\<lambda>d _. doc_ok d \<and> (\<exists>j. tree_of d j \<and> gdoc F s j)) (\<lambda>d. doc_ok d \<and> root d = - 1) (pai_json_parse F A s)"
  unfolding pai_json_parse_def
proof (rule runs_bind)
  have "ready s empty_doc 0" by (simp add: ready_def doc_ok_def empty_doc_def)
  then show "runs (value_post F s empty_doc 0 0) (left_ok empty_doc) (parse_value F A s (2 * length s + 2) empty_doc 0 0)"
    using parse_specs [OF assms, of F A "2 * length s + 2"] by (auto simp: value_spec_def simp del: parse_value.simps)
  show "doc_ok d \<and> root d = - 1" if "left_ok empty_doc d" for d using that by (simp add: left_ok_def empty_doc_def)
  fix d x assume "value_post F s empty_doc 0 0 d x"
  then obtain p j where x: "x = (0, p)" and d: "doc_ok d" "p \<le> length s" "root d = - 1" "rep d 0 (length (nodes d)) j" "gval F 0 (slice s 0 p) j"
    by (auto simp: value_post_def empty_doc_def extends_def)
  have "gdoc F s j" if "skip_ws s p = length s"
    using skip_ws_slice(3) [OF d(2)] slice_append [of 0 p "length s" s] d(2,5) that
    unfolding gdoc_def by (intro exI [of _ "slice s 0 p"] exI [of _ "slice s p (length s)"]) (simp add: slice_all)
  then show "runs (\<lambda>d _. doc_ok d \<and> (\<exists>j. tree_of d j \<and> gdoc F s j)) (\<lambda>d. doc_ok d \<and> root d = - 1)
      (case x of (r, pos) \<Rightarrow> if skip_ws s pos \<noteq> length s then jfail d PAI_ERR_PROTOCOL else jret (d\<lparr>root := int r\<rparr>) ())"
    using d unfolding x by (auto simp: tree_of_def doc_ok_def intro: rep_root)
qed


text \<open>C4. The parser is memory safe, ends and is sound: for every text of fewer than $2^{31}$ bytes and whatever requests to
  \<^verbatim>\<open>realloc\<close> succeed, \<^verbatim>\<open>pai_json_parse\<close> returns without an access outside its arrays. On
  success the nodes form the tree of a value that the grammar assigns to the text; on failure the status is
  PAI_ERR_PROTOCOL or PAI_ERR_NOMEM and the document has no root.\<close>

theorem json_parse_sound:
  assumes "length s < 2 ^ 31"
  shows "\<exists>d r. pai_json_parse F A s = Returns (d, r) \<and> doc_ok d \<and>
     (case r of Inr _ \<Rightarrow> \<exists>j. tree_of d j \<and> gdoc F s j
              | Inl e \<Rightarrow> (e = PAI_ERR_PROTOCOL \<or> e = PAI_ERR_NOMEM) \<and> pai_json_root d = - 1)"
  using parse_runs [OF assms, of F A] unfolding runs_def pai_json_root_def by fastforce

text \<open>Numbers read as integers modulo $2^{64}$, for examples.\<close>

definition demo_jops :: jops where
  "demo_jops = \<lparr>jadd = (+), jmul = (\<lambda>a b. if b = d_ten then 10 * a else a * b), jneg = uminus, jdigit = of_nat, jpow10 = (\<lambda>_. 1),
     jfmt = (\<lambda>v. [0x30 + ucast v])\<rparr>"

text \<open>\<open>[7, true]\<close> in an object.\<close>

definition demo_json :: bytes where
  "demo_json = [0x7B, 0x22, 0x61, 0x22, 0x3A, 0x5B, 0x37, 0x2C, 0x20, 0x74, 0x72, 0x75, 0x65, 0x5D, 0x7D]"

theorem json_parse_sound_witness:
  "\<exists>d j. pai_json_parse demo_jops (\<lambda>_. True) demo_json = Returns (d, Inr ()) \<and> tree_of d j \<and> gdoc demo_jops demo_json j"
proof -
  have l: "length demo_json < 2 ^ 31" by (simp add: demo_json_def)
  obtain d r where p: "pai_json_parse demo_jops (\<lambda>_. True) demo_json = Returns (d, r)"
    "case r of Inr _ \<Rightarrow> \<exists>j. tree_of d j \<and> gdoc demo_jops demo_json j
       | Inl e \<Rightarrow> (e = PAI_ERR_PROTOCOL \<or> e = PAI_ERR_NOMEM) \<and> pai_json_root d = - 1"
    using json_parse_sound [OF l] by blast
  have "case pai_json_parse demo_jops (\<lambda>_. True) demo_json of Returns (_, Inr _) \<Rightarrow> True | _ \<Rightarrow> False" by code_simp
  then obtain u where "r = Inr u" using p(1) by (cases r) auto
  then show ?thesis using p by auto
qed

end
