(* ===== verification/Json_Complete.thy ===== *)
theory Json_Complete
  imports Json_Parse
begin

text \<open>
  The parser of \<^verbatim>\<open>gateway/json.c\<close> is complete: a text of the grammar is parsed to the tree of its value, when
  the allocations succeed and the value fits the node pool.
\<close>

section \<open>Runs that succeed\<close>

lemma runs_succ: "runs P (\<lambda>_. False) r \<longleftrightarrow> (\<exists>d x. r = jret d x \<and> P d x)"
  by (simp add: runs_def jret_def)

lemma new_node_succ:
  assumes "doc_ok d" "\<forall>k. A k" "length (nodes d) < 8192"
  shows "runs (\<lambda>d' i. doc_ok d' \<and> i = length (nodes d) \<and> nodes d' = nodes d @ [blank_node t] \<and> strs d' = strs d \<and> root d' = root d)
     (\<lambda>_. False) (new_node A d t)"
proof -
  have "\<not> of_nat (length (nodes d)) \<ge> PAI_JSON_MAX_NODES"
    using assms(3) by (simp add: PAI_JSON_MAX_NODES_def word_le_nat_alt unat_of_nat)
  then have "new_node A d t \<noteq> jfail d' e" for d' e
    using assms(2) by (auto simp: new_node_def Let_def jfail_def jret_def split: if_splits)
  then show ?thesis using new_node_runs [OF assms(1), of t A] by (auto simp: runs_def jfail_def)
qed

lemma new_str_succ:
  assumes "doc_ok d" "length (strs d) + length s < 2 ^ 31" "\<forall>k. A k" "length s \<le> 2 ^ 20"
  shows "runs (\<lambda>d' i. doc_ok d' \<and> nodes d' = nodes d \<and> root d' = root d \<and> i = int (length (strs d)) \<and> strs d' = strs d @ s @ [0])
     (\<lambda>_. False) (new_str A d s)"
proof -
  have "\<not> of_nat (length s) > PAI_JSON_MAX_STRING"
    using assms(4) by (simp add: PAI_JSON_MAX_STRING_def word_less_nat_alt unat_of_nat)
  moreover have "sint (of_nat (length (strs d)) :: u32) \<noteq> - 1"
    using assms(2) by (simp add: sint_uint signed_take_bit_int_eq_self uint_nat unat_of_nat)
  ultimately have "new_str A d s \<noteq> jret d' (- 1)" for d'
    using assms(3) by (auto simp: new_str_def store_str_def Let_def jret_def split: if_splits option.splits)
  then show ?thesis using new_str_runs [OF assms(1,2), of A] by (auto simp: runs_def jret_def)
qed

lemma push_tmp_succ:
  assumes "tmp_ok cap tmp" "length bs \<le> 4" "length tmp + length bs < 2 ^ 31" "\<forall>k. A k"
  shows "runs (\<lambda>d' (cap', tmp'). same_doc d d' \<and> tmp' = tmp @ bs \<and> tmp_ok cap' tmp') (\<lambda>_. False) (push_tmp A d cap tmp bs)"
proof -
  have "push_tmp A d cap tmp bs \<noteq> jfail d' e" for d' e
    using assms(4) by (auto simp: push_tmp_def Let_def jfail_def jret_def split: if_splits)
  then show ?thesis using push_tmp_runs [OF assms(1-3), of d A] by (auto simp: runs_def jfail_def)
qed

section \<open>Texts at a position\<close>

lemma at_drop: "drop pos s = w @ c # r \<Longrightarrow> at s (pos + length w) = Some c"
  by (metis (no_types, lifting) add_diff_cancel_left' append_eq_conv_conj at_def drop_drop drop_eq_Nil2 hd_drop_conv_nth
      leI length_append length_drop list.distinct(1) list.sel(1) append_Nil2 add.commute)

lemma drop_more: "drop pos s = w @ r \<Longrightarrow> drop (pos + length w) s = r"
  by (metis add.commute append_eq_conv_conj drop_drop)

lemma drop_len: "drop pos s = w @ r \<Longrightarrow> w \<noteq> [] \<Longrightarrow> pos + length w \<le> length s"
  by (metis (no_types, lifting) append_is_Nil_conv drop_eq_Nil2 le_add_diff_inverse le_cases length_append length_drop nat_add_left_cancel_le le_add1)

lemma skip_ws_drop:
  assumes "drop pos s = w @ c # r" "blank w" "\<not> is_ws c" shows "skip_ws s pos = pos + length w"
proof -
  have "takeWhile is_ws (drop pos s) = w" unfolding assms(1) using assms(2,3) by (simp add: blank_def takeWhile_append2)
  then show ?thesis by (simp add: skip_ws_def)
qed

lemma string_loop_step:
  assumes e: "string_loop A s d pos cap tmp = jbind (push_tmp A d cap tmp bs) (\<lambda>d (cap, tmp). string_loop A s d pos' cap tmp)"
    and b: "length bs \<le> 4" "pos + length bs \<le> pos'" "pos' \<le> length s"
    and t: "tmp_ok cap tmp" "length tmp \<le> pos" "length s < 2 ^ 31" "\<forall>k. A k"
    and IH: "\<And>d cap tmp. tmp_ok cap tmp \<Longrightarrow> length tmp \<le> pos' \<Longrightarrow>
       runs (\<lambda>d' (p, v). same_doc d d' \<and> p = pos' + n \<and> v = tmp @ u) (\<lambda>_. False) (string_loop A s d pos' cap tmp)"
    and eq: "q = pos' + n" "w = tmp @ bs @ u"
  shows "runs (\<lambda>d' (p, v). same_doc d d' \<and> p = q \<and> v = w) (\<lambda>_. False) (string_loop A s d pos cap tmp)"
  unfolding e eq
proof (rule runs_bind [OF push_tmp_succ [OF t(1) b(1) _ t(4)]])
  show "length tmp + length bs < 2 ^ 31" using t b by linarith
  fix d1 x assume "case x of (cap', tmp') \<Rightarrow> same_doc d d1 \<and> tmp' = tmp @ bs \<and> tmp_ok cap' tmp'"
  then obtain c where x: "x = (c, tmp @ bs)" "same_doc d d1" "tmp_ok c (tmp @ bs)" by auto
  have "runs (\<lambda>d' (p, v). same_doc d1 d' \<and> p = pos' + n \<and> v = (tmp @ bs) @ u) (\<lambda>_. False) (string_loop A s d1 pos' c (tmp @ bs))"
    by (rule IH) (use x t b in auto)
  then show "runs (\<lambda>d' (p, v). same_doc d d' \<and> p = pos' + n \<and> v = tmp @ bs @ u) (\<lambda>_. False)
      (case x of (cap, tmp) \<Rightarrow> string_loop A s d1 pos' cap tmp)"
    unfolding x prod.case by (rule runs_mono) (use x in \<open>auto intro: same_doc_trans\<close>)
qed

lemma drop_is_Cons: "drop pos s = c # r \<Longrightarrow> pos < length s \<and> s ! pos = c \<and> drop (Suc pos) s = r"
  by (metis Cons_nth_drop_Suc drop_eq_Nil2 leI list.distinct(1) list.inject)

lemma drop_unicode:
  assumes "drop pos s = 0x5C # 0x75 # h @ t" "length h = 4"
  shows "pos + 6 \<le> length s" "s ! pos = 0x5C" "s ! (pos + 1) = 0x75" "drop (pos + 2) s = h @ t" "drop (pos + 6) s = t"
proof -
  show a: "s ! pos = 0x5C" "s ! (pos + 1) = 0x75" "drop (pos + 2) s = h @ t"
    using drop_is_Cons [OF assms(1)] drop_is_Cons [of "Suc pos" s] by auto
  show "drop (pos + 6) s = t" using drop_more [OF a(3)] assms(2) by (simp add: add.commute)
  show "pos + 6 \<le> length s" using drop_len [OF a(3)] assms(2) by (cases h) auto
qed

lemma high_not_low: "high_surrogate cp \<Longrightarrow> \<not> low_surrogate cp"
  unfolding high_surrogate_def low_surrogate_def by (auto simp: word_le_nat_alt)

lemma string_loop_unicode:
  assumes "drop pos s = 0x5C # 0x75 # h @ t" "length h = 4" "hex4 h = Some cp"
  shows "string_loop A s d pos cap tmp =
     jbind (push_tmp A d cap tmp (utf8_encode (code_point s cp (pos + 6)))) (\<lambda>d (cap, tmp). string_loop A s d (after_escape s cp (pos + 6)) cap tmp)"
proof -
  note d = drop_unicode [OF assms(1,2)]
  have "hex4 (drop (pos + 2) s) = Some cp" unfolding d(4) using hex4_append [OF assms(2)] assms(3) by simp
  then show ?thesis using d by (subst string_loop.simps) simp
qed

lemma string_loop_succ:
  assumes "gstr t u" "drop pos s = t @ r" "tmp_ok cap tmp" "length tmp \<le> pos" "length s < 2 ^ 31" "\<forall>k. A k"
  shows "runs (\<lambda>d' (p, v). same_doc d d' \<and> p = pos + length t \<and> v = tmp @ u) (\<lambda>_. False) (string_loop A s d pos cap tmp)"
  using assms(1-4)
proof (induction t u arbitrary: pos cap tmp d rule: gstr.induct)
  case gstr_end
  then show ?case using drop_is_Cons [of pos s "0x22" r] by (subst string_loop.simps) simp
next
  case (gstr_plain c t u)
  have d: "pos < length s" "s ! pos = c" "drop (pos + 1) s = t @ r" using drop_is_Cons [of pos s c "t @ r"] gstr_plain.prems by auto
  have e: "string_loop A s d pos cap tmp = jbind (push_tmp A d cap tmp [c]) (\<lambda>d (cap, tmp). string_loop A s d (pos + 1) cap tmp)"
    using d gstr_plain.hyps leD [OF gstr_plain.hyps(3)] by (subst string_loop.simps) simp
  show ?case
    by (rule string_loop_step [OF e _ _ _ gstr_plain.prems(2,3) assms(5,6) gstr_plain.IH [OF d(3)]]) (use d in auto)
next
  case (gstr_simple e c t u)
  have d: "pos + 1 < length s" "s ! pos = 0x5C" "s ! (pos + 1) = e" "drop (pos + 2) s = t @ r"
    using drop_is_Cons [of pos s "0x5C" "e # t @ r"] drop_is_Cons [of "Suc pos" s e "t @ r"] gstr_simple.prems by auto
  have ne: "e \<noteq> 0x75" using gstr_simple.hyps by (auto simp: simple_escape_def)
  have e: "string_loop A s d pos cap tmp = jbind (push_tmp A d cap tmp [c]) (\<lambda>d (cap, tmp). string_loop A s d (pos + 2) cap tmp)"
    using d gstr_simple.hyps ne by (subst string_loop.simps) simp
  show ?case
    by (rule string_loop_step [OF e _ _ _ gstr_simple.prems(2,3) assms(5,6) gstr_simple.IH [OF d(4)]]) (use d in auto)
next
  case (gstr_unicode h cp t u)
  have p: "drop pos s = 0x5C # 0x75 # h @ t @ r" using gstr_unicode.prems by simp
  note d = drop_unicode [OF p gstr_unicode.hyps(1)]
  have c: "code_point s cp (pos + 6) = cp" "after_escape s cp (pos + 6) = pos + 6"
    using gstr_unicode.hyps by (simp_all add: code_point_def after_escape_def)
  note e = string_loop_unicode [OF p gstr_unicode.hyps(1,2), where A = A and d = d and cap = cap and tmp = tmp, unfolded c]
  show ?case
    by (rule string_loop_step [OF e _ _ _ gstr_unicode.prems(2,3) assms(5,6) gstr_unicode.IH [OF d(5)]]) (use d gstr_unicode.hyps(1) utf8_length(2) [of cp] in auto)
next
  case (gstr_lone h cp t u)
  have p: "drop pos s = 0x5C # 0x75 # h @ t @ r" using gstr_lone.prems by simp
  note d = drop_unicode [OF p gstr_lone.hyps(1)]
  have "low_escape (drop (pos + 6) s) = low_escape t" unfolding d(5) by (rule low_escape_append [OF gstr_lone.hyps(4)])
  then have c: "code_point s cp (pos + 6) = 0xFFFD" "after_escape s cp (pos + 6) = pos + 6"
    using gstr_lone.hyps high_not_low by (auto simp: code_point_def after_escape_def)
  note e = string_loop_unicode [OF p gstr_lone.hyps(1,2), where A = A and d = d and cap = cap and tmp = tmp, unfolded c]
  show ?case
    by (rule string_loop_step [OF e _ _ _ gstr_lone.prems(2,3) assms(5,6) gstr_lone.IH [OF d(5)]]) (use d gstr_lone.hyps(1) utf8_length(2) [of "0xFFFD"] in auto)
next
  case (gstr_pair h cp l lo t u)
  have p: "drop pos s = 0x5C # 0x75 # h @ 0x5C # 0x75 # l @ t @ r" using gstr_pair.prems by simp
  note d = drop_unicode [OF p gstr_pair.hyps(1)]
  note d2 = drop_unicode [OF d(5) gstr_pair.hyps(4)]
  have "low_escape (drop (pos + 6) s) = Some lo"
    using d2 gstr_pair.hyps hex4_append [OF gstr_pair.hyps(4), of "t @ r"] unfolding d(5) low_escape_def by auto
  then have c: "code_point s cp (pos + 6) = 0x10000 + push_bit 10 (cp - 0xD800) + (lo - 0xDC00)" "after_escape s cp (pos + 6) = pos + 12"
    using gstr_pair.hyps by (simp_all add: code_point_def after_escape_def)
  note e = string_loop_unicode [OF p gstr_pair.hyps(1,2), where A = A and d = d and cap = cap and tmp = tmp, unfolded c]
  have d12: "drop (pos + 12) s = t @ r" "pos + 12 \<le> length s" using d2 by (simp_all add: add.assoc)
  show ?case
    by (rule string_loop_step [OF e _ _ _ gstr_pair.prems(2,3) assms(5,6) gstr_pair.IH [OF d12(1)]]) (use d12 gstr_pair.hyps(1,4) utf8_length(2) [of "0x10000 + push_bit 10 (cp - 0xD800) + (lo - 0xDC00)"] in auto)
qed


lemma parse_string_succ:
  assumes "gstr t u" "drop pos s = t @ r" "doc_ok d" "length (strs d) \<le> pos" "length s < 2 ^ 31" "\<forall>k. A k" "length u \<le> 2 ^ 20"
  shows "runs (\<lambda>d' (p, i). doc_ok d' \<and> nodes d' = nodes d \<and> root d' = root d \<and> p = pos + length t \<and>
       i = int (length (strs d)) \<and> strs d' = strs d @ u @ [0]) (\<lambda>_. False) (parse_string A s d pos)"
  unfolding parse_string_def
proof (rule runs_bind [OF string_loop_succ [OF assms(1,2) _ _ assms(5,6)]])
  fix d1 x assume "case x of (p, v) \<Rightarrow> same_doc d d1 \<and> p = pos + length t \<and> v = [] @ u"
  then have x: "x = (pos + length t, u)" and sd: "same_doc d d1" by auto
  have st: "doc_ok d1" "nodes d1 = nodes d" "strs d1 = strs d" "root d1 = root d"
    using same_doc_ok [OF sd assms(3)] sd by (simp_all add: same_doc_def)
  have "pos + length t \<le> length s" using drop_len [OF assms(2)] gstr_nonempty [OF assms(1)] by simp
  then have l: "length (strs d1) + length u < 2 ^ 31" using gstr_length [OF assms(1)] assms(4,5) st by simp
  have m: "\<not> of_nat (length u) > PAI_JSON_MAX_STRING"
    using assms(7) by (simp add: PAI_JSON_MAX_STRING_def word_less_nat_alt unat_of_nat)
  show "runs (\<lambda>d' (p, i). doc_ok d' \<and> nodes d' = nodes d \<and> root d' = root d \<and> p = pos + length t \<and>
       i = int (length (strs d)) \<and> strs d' = strs d @ u @ [0]) (\<lambda>_. False)
      (case x of (pos, tmp) \<Rightarrow> if of_nat (length tmp) > PAI_JSON_MAX_STRING then jfail d1 PAI_ERR_NOMEM
         else jbind (new_str A d1 tmp) (\<lambda>d i. if i \<ge> 0 then jret d (pos, i) else jfail d PAI_ERR_NOMEM))"
    unfolding x prod.case if_not_P [OF m]
    by (rule runs_bind [OF new_str_succ [OF st(1) l assms(6,7)]]) (use st in auto)
qed (use assms in \<open>auto simp: tmp_ok_def\<close>)

section \<open>Numbers\<close>

definition num_char :: "u8 \<Rightarrow> bool" where
  "num_char c \<longleftrightarrow> is_digit c \<or> c = 0x2E \<or> c = 0x65 \<or> c = 0x45"

text \<open>What may follow a number.\<close>

definition follow :: "bytes \<Rightarrow> bool" where
  "follow r \<longleftrightarrow> (case r of [] \<Rightarrow> True | c # _ \<Rightarrow> \<not> num_char c)"

lemma digits_at_drop:
  assumes "drop i s = ds @ r" "\<forall>c \<in> set ds. is_digit c" "case r of [] \<Rightarrow> True | c # _ \<Rightarrow> \<not> is_digit c"
  shows "digits_at s i = ds"
  using assms by (cases r) (simp_all add: digits_at_def)

lemma at_hd: "drop i s = r \<Longrightarrow> at s i = (case r of [] \<Rightarrow> None | c # _ \<Rightarrow> Some c)"
  by (cases r) (auto simp: at_def dest: drop_is_Cons)

lemma parse_exponent_succ:
  assumes "gexp F v t w" "drop i s = t @ r" "follow r"
  shows "parse_exponent F s i v = Inr (i + length t, w)"
proof (cases "t = [] \<and> w = v")
  case True
  then show ?thesis using at_hd [OF assms(2)] assms(3)
    by (auto simp: parse_exponent_def follow_def num_char_def split: list.splits)
next
  case False
  then obtain e sg ds x where 2: "t = e # sg @ ds" "e = 0x65 \<or> e = 0x45" "sg = [] \<or> sg = [0x2B] \<or> sg = [0x2D]" "all_digits ds"
    "exp_digits 0 ds = Some x" "w = scale_exp F v (sg = [0x2D]) x"
    using assms(1) unfolding gexp_def by blast
  have t: "drop i s = e # sg @ ds @ r" using assms(2) 2 by simp
  have r: "case r of [] \<Rightarrow> True | c # _ \<Rightarrow> \<not> is_digit c" using assms(3) by (auto simp: follow_def num_char_def split: list.splits)
  obtain c cs where ds: "ds = c # cs" "is_digit c" using 2 by (cases ds) (auto simp: all_digits_def)
  then have nc: "c \<noteq> 0x2B" "c \<noteq> 0x2D" by (auto simp: is_digit_def)
  have a: "at s i = Some e" "at s (i + 1) = Some (hd (sg @ ds))"
    using at_drop [of i s "[]" e] at_drop [of i s "[e]" "hd (sg @ ds)" "tl (sg @ ds) @ r"] t ds by (cases sg; simp)+
  have j: "digits_at s (i + 1 + length sg) = ds"
    using digits_at_drop [of "i + 1 + length sg" s ds r] drop_more [of i s "e # sg" "ds @ r"] t r 2 by (auto simp: all_digits_def)
  show ?thesis
    using 2 a j ds nc unfolding parse_exponent_def Let_def by (auto simp: all_digits_def)
qed

lemma gexp_hd: "gexp F v t w \<Longrightarrow> follow r \<Longrightarrow> case t @ r of [] \<Rightarrow> True | c # _ \<Rightarrow> \<not> is_digit c \<and> c \<noteq> 0x2E"
  by (auto simp: gexp_def follow_def num_char_def is_digit_def split: list.splits)

lemma gfrac_hd: "gfrac F v t w \<Longrightarrow> follow r \<Longrightarrow> case t @ r of [] \<Rightarrow> True | c # _ \<Rightarrow> \<not> is_digit c"
  using gexp_hd [of F v t w r] by (auto simp: gfrac_def is_digit_def split: list.splits)

lemma parse_fraction_succ:
  assumes "gfrac F v t w" "drop i s = t @ r" "follow r"
  shows "parse_fraction F s i v = Inr (i + length t, w)"
  using assms(1) unfolding gfrac_def
proof (elim disjE exE conjE, goal_cases)
  case 1
  then have "at s i \<noteq> Some 0x2E" using at_hd [OF assms(2)] gexp_hd [OF 1 assms(3)] by (auto split: list.splits)
  then show ?case using parse_exponent_succ [OF 1 assms(2,3)] by (simp add: parse_fraction_def)
next
  case (2 ds q)
  have t: "drop i s = 0x2E # ds @ q @ r" using assms(2) 2 by simp
  have a: "at s i = Some 0x2E" using at_drop [of i s "[]"] t by simp
  have d1: "drop (i + 1) s = ds @ q @ r" using drop_more [of i s "[0x2E]"] t by simp
  have g: "case q @ r of [] \<Rightarrow> True | c # _ \<Rightarrow> \<not> is_digit c" using gexp_hd [OF 2(3) assms(3)] by (auto split: list.splits)
  have ds: "digits_at s (i + 1) = ds" using digits_at_drop [OF d1 _ g] 2(2) by (simp add: all_digits_def)
  have "parse_exponent F s (i + 1 + length ds) (frac_digits F v ds) = Inr (i + 1 + length ds + length q, w)"
    by (rule parse_exponent_succ [OF 2(3) drop_more [OF d1] assms(3)])
  then show ?case using 2 a ds by (simp add: parse_fraction_def all_digits_def)
qed

lemma parse_number_succ:
  assumes "gnum F t w" "drop i s = t @ r" "follow r"
  shows "parse_number F s i = Inr (i + length t, w)"
proof -
  obtain m ds q v where t: "t = m @ ds @ q" and m: "m = [] \<or> m = [0x2D]" and ds: "gint ds"
    and q: "gfrac F (if ds = [0x30] then 0 else int_digits F ds) q v" and w: "w = (if m = [] then v else jneg F v)"
    using assms(1) unfolding gnum_def by blast
  obtain c cs where c: "ds = c # cs" "is_digit c" using ds by (cases ds) (auto simp: gint_def all_digits_def is_digit_def)
  have nm: "c \<noteq> 0x2D" using c by (auto simp: is_digit_def)
  have dr: "drop i s = m @ ds @ q @ r" using assms(2) t by simp
  let ?j = "i + length m"
  have neg: "at s i = Some 0x2D \<longleftrightarrow> m \<noteq> []" using at_hd [OF dr] m c nm by auto
  have j: "(if at s i = Some 0x2D then i + 1 else i) = ?j" using neg m by auto
  have dj: "drop ?j s = ds @ q @ r" by (rule drop_more [OF dr])
  have aj: "at s ?j = Some c" using at_hd [OF dj] c by simp
  have zero: "at s ?j = Some 0x30 \<longleftrightarrow> ds = [0x30]" using aj c ds by (auto simp: gint_def)
  have dd: "(if at s ?j = Some 0x30 then [0x30] else digits_at s ?j) = ds"
  proof (cases "ds = [0x30]")
    case True
    then show ?thesis using zero by simp
  next
    case False
    then have "\<forall>c \<in> set ds. is_digit c" using ds by (auto simp: gint_def all_digits_def)
    then show ?thesis using digits_at_drop [OF dj _ gfrac_hd [OF q assms(3)]] zero False by simp
  qed
  have "parse_fraction F s (?j + length ds) (if ds = [0x30] then 0 else int_digits F ds) = Inr (?j + length ds + length q, v)"
    by (rule parse_fraction_succ [OF q drop_more [OF dj] assms(3)])
  then show ?thesis using c neg w t zero unfolding parse_number_def Let_def j dd by auto
qed

section \<open>Values\<close>

fun node_count :: "json \<Rightarrow> nat" where
  "node_count (JArray js) = Suc (sum_list (map node_count js))"
| "node_count (JObject ms) = Suc (sum_list (map (\<lambda>(k, j). node_count j) ms))"
| "node_count _ = 1"

definition value_done :: "pai_json_doc \<Rightarrow> nat \<Rightarrow> bytes \<Rightarrow> json \<Rightarrow> pai_json_doc \<Rightarrow> nat \<times> nat \<Rightarrow> bool" where
  "value_done d pos t j d' = (\<lambda>(i, p). doc_ok d' \<and> i = length (nodes d) \<and> p = pos + length t \<and> length (strs d') \<le> p \<and>
     extends d d' (length (nodes d)) \<and> next_node (nodes d' ! i) = - 1 \<and> rep d' i (length (nodes d')) j \<and>
     length (nodes d') = length (nodes d) + node_count j)"

definition container_done ::
    "pai_json_doc \<Rightarrow> nat \<Rightarrow> bytes \<Rightarrow> nat \<Rightarrow> pai_json_type_t \<Rightarrow> (bytes option \<times> json) list \<Rightarrow> nat \<Rightarrow> pai_json_doc \<Rightarrow> nat \<times> nat \<Rightarrow> bool" where
  "container_done d pos t nd ty xs k d' = (\<lambda>(i, p). doc_ok d' \<and> i = nd \<and> p = pos + length t \<and> length (strs d') \<le> p \<and>
     extends d d' nd \<and> open_node d' nd ty xs \<and> length (nodes d') = length (nodes d) + k)"

lemma value_done_leaf:
  assumes "doc_ok d1" "nodes d1 = nodes d @ [n]" "strs d1 = strs d @ w" "root d1 = root d" "next_node (g n) = - 1" "p = pos + length t"
    "length (strs d1) \<le> p" "rep (set_node d1 (length (nodes d)) g) (length (nodes d)) (Suc (length (nodes d))) j" "node_count j = 1"
  shows "value_done d pos t j (set_node d1 (length (nodes d)) g) (length (nodes d), p)"
  using assms by (auto simp: value_done_def extends_def nth_append set_node_def doc_ok_def)

lemma num_char_ends: "\<not> num_char 0x5D" "\<not> num_char 0x7D" "\<not> num_char 0x2C" "is_ws c \<Longrightarrow> \<not> num_char c"
  by (auto simp: num_char_def is_digit_def is_ws_def)

lemma not_ws: "\<not> is_ws 0x5D" "\<not> is_ws 0x7D" "\<not> is_ws 0x2C" "\<not> is_ws 0x5B" "\<not> is_ws 0x7B" "\<not> is_ws 0x22" "\<not> is_ws 0x3A"
  "\<not> is_ws 0x74" "\<not> is_ws 0x66" "\<not> is_ws 0x6E"
  by (simp_all add: is_ws_def)

lemma follow_blank: "blank w \<Longrightarrow> \<not> num_char c \<Longrightarrow> follow (w @ c # r)"
  by (cases w) (auto simp: follow_def blank_def num_char_ends)

lemma gnum_hd:
  assumes "gnum F t v" obtains c r where "t = c # r" "is_digit c \<or> c = 0x2D"
proof -
  obtain m ds q where t: "t = m @ ds @ q" "m = [] \<or> m = [0x2D]" "gint ds" using assms unfolding gnum_def by blast
  obtain c cs where "ds = c # cs" "is_digit c" using t(3) by (cases ds) (auto simp: gint_def all_digits_def is_digit_def)
  then show thesis using t that by auto
qed

lemma digit_char:
  assumes "is_digit c \<or> c = 0x2D"
  shows "\<not> is_ws c" "c \<noteq> 0x7B" "c \<noteq> 0x5B" "c \<noteq> 0x22" "c \<noteq> 0x74" "c \<noteq> 0x66" "c \<noteq> 0x6E" "c \<noteq> 0x5D" "c \<noteq> 0x7D"
  using assms by (auto simp: is_digit_def is_ws_def)

lemma gval_hd:
  assumes "gval F n t j" obtains w c r where "t = w @ c # r" "blank w" "\<not> is_ws c" "c \<noteq> 0x5D" "c \<noteq> 0x7D"
  using assms
proof (cases rule: gval.cases)
  case (gval_number w t' v)
  obtain c r where "t' = c # r" "is_digit c \<or> c = 0x2D" using gnum_hd [OF gval_number(5)] .
  then show thesis using that [of w c r] gval_number digit_char [of c] by simp
qed (use that not_ws in fastforce)+

lemma literal_succ:
  assumes r: "ready s d pos" and A: "\<forall>k. A k" and n: "length (nodes d) < 8192" and p: "drop pos s = (w @ lit) @ r"
    and t: "(t = PAI_JSON_NULL \<and> j = JNull) \<or> (t = PAI_JSON_BOOL \<and> j = JBool b)"
  shows "runs (value_done d pos (w @ lit) j) (\<lambda>_. False) (parse_literal A s d (pos + length w) lit t b)"
proof -
  have "drop (pos + length w) s = lit @ r" using drop_more [of pos s w "lit @ r"] p by simp
  then have e: "take (length lit) (drop (pos + length w) s) = lit" by simp
  have ok: "doc_ok d" "length (strs d) \<le> pos" using r by (auto simp: ready_def)
  have post: "value_done d pos (w @ lit) j (set_node d1 (length (nodes d)) (\<lambda>n. n\<lparr>boolean := b\<rparr>)) (length (nodes d), pos + length w + length lit)"
    if "doc_ok d1" "nodes d1 = nodes d @ [blank_node t]" "strs d1 = strs d" "root d1 = root d" for d1
    using that ok t
    by (intro value_done_leaf [where w = "[]"]) (auto simp: blank_node_def set_node_def intro!: rep_null rep_bool)
  show ?thesis unfolding parse_literal_def if_P [OF e]
    by (rule runs_bind [OF new_node_succ [OF ok(1) A n]]) (use post in auto)
qed

lemma number_succ:
  assumes r: "ready s d pos" and A: "\<forall>k. A k" and n: "length (nodes d) < 8192" and p: "drop pos s = (w @ t) @ r"
    and g: "gnum F t v" and f: "follow r"
  shows "runs (value_done d pos (w @ t) (JNumber v)) (\<lambda>_. False)
     (case parse_number F s (pos + length w) of
        Inl e \<Rightarrow> jfail d e
      | Inr (pos, v) \<Rightarrow> jbind (new_node A d PAI_JSON_NUMBER) (\<lambda>d node. jret (set_node d node (\<lambda>n. n\<lparr>num := v\<rparr>)) (node, pos)))"
proof -
  have "drop (pos + length w) s = t @ r" using drop_more [of pos s w "t @ r"] p by simp
  from parse_number_succ [OF g this f]
  have e: "parse_number F s (pos + length w) = Inr (pos + length w + length t, v)" .
  have ok: "doc_ok d" "length (strs d) \<le> pos" using r by (auto simp: ready_def)
  have post: "value_done d pos (w @ t) (JNumber v) (set_node d1 (length (nodes d)) (\<lambda>n. n\<lparr>num := v\<rparr>)) (length (nodes d), pos + length w + length t)"
    if "doc_ok d1" "nodes d1 = nodes d @ [blank_node PAI_JSON_NUMBER]" "strs d1 = strs d" "root d1 = root d" for d1
    using that ok by (intro value_done_leaf [where w = "[]"]) (auto simp: blank_node_def set_node_def intro!: rep_number)
  show ?thesis unfolding e sum.case prod.case
    by (rule runs_bind [OF new_node_succ [OF ok(1) A n]]) (use post in auto)
qed

lemma string_succ:
  assumes r: "ready s d pos" and A: "\<forall>k. A k" and n: "length (nodes d) < 8192" and p: "drop pos s = (w @ 0x22 # t) @ r"
    and g: "gstr t u" "length u \<le> 2 ^ 20" and s: "length s < 2 ^ 31"
  shows "runs (value_done d pos (w @ 0x22 # t) (JString u)) (\<lambda>_. False)
     (jbind (new_node A d PAI_JSON_STRING)
        (\<lambda>d node. jbind (parse_string A s d (pos + length w + 1))
                    (\<lambda>d (pos, i). jret (set_node d node (\<lambda>n. n\<lparr>str := i\<rparr>)) (node, pos))))"
proof -
  have dr: "drop (pos + length w + 1) s = t @ r" using drop_more [of pos s "w @ [0x22]" "t @ r"] p by simp
  have ok: "doc_ok d" "length (strs d) \<le> pos" using r by (auto simp: ready_def)
  show ?thesis
  proof (rule runs_bind [OF new_node_succ [OF ok(1) A n]])
    fix d1 i
    assume "doc_ok d1 \<and> i = length (nodes d) \<and> nodes d1 = nodes d @ [blank_node PAI_JSON_STRING] \<and> strs d1 = strs d \<and> root d1 = root d"
    then have d1: "doc_ok d1" "i = length (nodes d)" "nodes d1 = nodes d @ [blank_node PAI_JSON_STRING]" "strs d1 = strs d" "root d1 = root d"
      by auto
    have l: "length (strs d1) \<le> pos + length w + 1" using d1 ok by simp
    show "runs (value_done d pos (w @ 0x22 # t) (JString u)) (\<lambda>_. False)
        (jbind (parse_string A s d1 (pos + length w + 1)) (\<lambda>d (pos, k). jret (set_node d i (\<lambda>n. n\<lparr>str := k\<rparr>)) (i, pos)))"
    proof (rule runs_bind [OF parse_string_succ [OF g(1) dr d1(1) l s A g(2)]])
      fix d2 x
      assume "case x of (q, k) \<Rightarrow> doc_ok d2 \<and> nodes d2 = nodes d1 \<and> root d2 = root d1 \<and> q = pos + length w + 1 + length t \<and>
        k = int (length (strs d1)) \<and> strs d2 = strs d1 @ u @ [0]"
      then obtain k where x: "x = (pos + length w + 1 + length t, k)" and d2: "doc_ok d2" "nodes d2 = nodes d1" "root d2 = root d1"
        "k = int (length (strs d1))" "strs d2 = strs d1 @ u @ [0]" by auto
      have st: "str_at d2 k u" using str_at_new [OF d2(5)] d2(4) by simp
      have "value_done d pos (w @ 0x22 # t) (JString u) (set_node d2 (length (nodes d)) (\<lambda>n. n\<lparr>str := k\<rparr>)) (length (nodes d), pos + length w + 1 + length t)"
        using d1 d2 ok st gstr_length [OF g(1)]
        by (intro value_done_leaf [where w = "u @ [0]"]) (auto simp: blank_node_def set_node_def str_at_def intro!: rep_string)
      then show "runs (value_done d pos (w @ 0x22 # t) (JString u)) (\<lambda>_. False) (case x of (pos, k) \<Rightarrow> jret (set_node d2 i (\<lambda>n. n\<lparr>str := k\<rparr>)) (i, pos))"
        using d1(2) x by simp
    qed
  qed
qed


definition value_ok :: "jops \<Rightarrow> (nat \<Rightarrow> bool) \<Rightarrow> bytes \<Rightarrow> nat \<Rightarrow> bytes \<Rightarrow> json \<Rightarrow> bool" where
  "value_ok F A s n t j \<longleftrightarrow>
     (\<forall>d pos r f. drop pos s = t @ r \<and> follow r \<and> ready s d pos \<and> length (nodes d) + node_count j \<le> 8192 \<and> 2 * (length s - pos) + 2 \<le> f \<longrightarrow>
        runs (value_done d pos t j) (\<lambda>_. False) (parse_value F A s f d pos n))"

definition elems_ok :: "jops \<Rightarrow> (nat \<Rightarrow> bool) \<Rightarrow> bytes \<Rightarrow> nat \<Rightarrow> bytes \<Rightarrow> json list \<Rightarrow> bool" where
  "elems_ok F A s n t js \<longleftrightarrow>
     (\<forall>d pos r f nd xs. drop pos s = t @ r \<and> ready s d pos \<and> open_node d nd PAI_JSON_ARRAY xs \<and>
        length (nodes d) + sum_list (map node_count js) \<le> 8192 \<and> 2 * (length s - pos) + 3 \<le> f \<longrightarrow>
        runs (container_done d pos t nd PAI_JSON_ARRAY (xs @ map (Pair None) js) (sum_list (map node_count js))) (\<lambda>_. False)
          (parse_elements F A s f d pos n nd))"

definition members_ok :: "jops \<Rightarrow> (nat \<Rightarrow> bool) \<Rightarrow> bytes \<Rightarrow> nat \<Rightarrow> bytes \<Rightarrow> (bytes \<times> json) list \<Rightarrow> bool" where
  "members_ok F A s n t ms \<longleftrightarrow>
     (\<forall>d pos r f nd xs. drop pos s = t @ r \<and> ready s d pos \<and> open_node d nd PAI_JSON_OBJECT xs \<and>
        length (nodes d) + sum_list (map (\<lambda>(k, j). node_count j) ms) \<le> 8192 \<and> 2 * (length s - pos) + 1 \<le> f \<longrightarrow>
        runs (container_done d pos t nd PAI_JSON_OBJECT (xs @ map (\<lambda>(k, j). (Some k, j)) ms) (sum_list (map (\<lambda>(k, j). node_count j) ms)))
          (\<lambda>_. False) (parse_members F A s f d pos n nd))"

text \<open>One element, up to the token that follows it.\<close>

lemma element_succ:
  assumes V: "value_ok F A s (Suc n) t j" and d: "drop pos s = t @ w @ c # r" "blank w" "\<not> num_char c" "\<not> is_ws c" "t \<noteq> []"
    and pre: "ready s d pos" "open_node d nd PAI_JSON_ARRAY xs" "length (nodes d) + node_count j \<le> 8192" "2 * (length s - pos) + 3 \<le> Suc f"
    and rest: "\<And>d2. open_node d2 nd PAI_JSON_ARRAY (xs @ [(None, j)]) \<Longrightarrow> extends d d2 nd \<Longrightarrow> ready s d2 (pos + length (t @ w @ [c])) \<Longrightarrow>
       length (nodes d2) = length (nodes d) + node_count j \<Longrightarrow>
       runs P (\<lambda>_. False) (let p = pos + length (t @ w) in if at s p = Some 0x2C then parse_elements F A s f d2 (p + 1) n nd
         else if at s p = Some 0x5D then jret d2 (nd, p + 1) else jfail d2 PAI_ERR_PROTOCOL)"
  shows "runs P (\<lambda>_. False) (parse_elements F A s (Suc f) d pos n nd)"
  unfolding parse_elements.simps
proof (rule runs_bind)
  show "runs (value_done d pos t j) (\<lambda>_. False) (parse_value F A s f d pos (n + 1))"
    using V d pre follow_blank [OF d(2,3), of r] unfolding value_ok_def by fastforce
  fix d1 x assume "value_done d pos t j d1 x"
  then have x: "x = (length (nodes d), pos + length t)" and d1: "doc_ok d1" "length (strs d1) \<le> pos + length t"
      "extends d d1 (length (nodes d))" "next_node (nodes d1 ! length (nodes d)) = - 1"
      "rep d1 (length (nodes d)) (length (nodes d1)) j" "length (nodes d1) = length (nodes d) + node_count j"
    by (auto simp: value_done_def)
  obtain d2 where d2: "append_child d1 nd (length (nodes d)) = jret d2 ()" "open_node d2 nd PAI_JSON_ARRAY (xs @ [(None, j)])"
      "extends d d2 nd" "strs d2 = strs d1" "doc_ok d2" "length (nodes d2) = length (nodes d1)"
    using attach_child [OF pre(2) d1(3,5) _ d1(4,1), of None] by (auto simp: key_ok_def)
  have sk: "skip_ws s (pos + length t) = pos + length (t @ w)"
    using skip_ws_drop [OF drop_more [OF d(1)] d(2,4)] by simp
  have "pos + length (t @ w @ [c]) \<le> length s" using drop_len [of pos s "t @ w @ [c]" r] d(1) by simp
  then have "ready s d2 (pos + length (t @ w @ [c]))" using d2 d1 by (simp add: ready_def)
  from rest [OF d2(2,3) this] d2 d1
  show "runs P (\<lambda>_. False)
      (case x of (val_idx, pos) \<Rightarrow> jbind (append_child d1 nd val_idx)
          (\<lambda>d _. let pos = skip_ws s pos
                 in if at s pos = Some 0x2C then parse_elements F A s f d (pos + 1) n nd
                    else if at s pos = Some 0x5D then jret d (nd, pos + 1) else jfail d PAI_ERR_PROTOCOL))"
    unfolding x prod.case d2(1) jbind_simps sk by simp
qed simp


text \<open>One member, up to the token that follows it.\<close>

lemma member_succ:
  assumes V: "value_ok F A s (Suc n) t j" and A: "\<forall>k. A k" and s: "length s < 2 ^ 31" and g: "gstr k u" "length u \<le> 2 ^ 20"
    and d: "drop pos s = 0x22 # k @ x @ 0x3A # t @ w @ c # r" "blank x" "blank w" "\<not> num_char c" "\<not> is_ws c"
    and pre: "ready s d pos" "open_node d nd PAI_JSON_OBJECT xs" "length (nodes d) + node_count j \<le> 8192" "2 * (length s - pos) + 1 \<le> Suc f"
    and rest: "\<And>d2. open_node d2 nd PAI_JSON_OBJECT (xs @ [(Some u, j)]) \<Longrightarrow> extends d d2 nd \<Longrightarrow>
       ready s d2 (pos + length (0x22 # k @ x @ 0x3A # t @ w @ [c])) \<Longrightarrow> length (nodes d2) = length (nodes d) + node_count j \<Longrightarrow>
       runs P (\<lambda>_. False) (let p = pos + length (0x22 # k @ x @ 0x3A # t @ w) in if at s p = Some 0x2C then parse_members F A s f d2 (p + 1) n nd
         else if at s p = Some 0x7D then jret d2 (nd, p + 1) else jfail d2 PAI_ERR_PROTOCOL)"
  shows "runs P (\<lambda>_. False) (parse_members F A s (Suc f) d pos n nd)"
proof -
  let ?c = "pos + 1 + length k + length x"
  have q: "at s pos = Some 0x22" using at_drop [of pos s "[]"] d(1) by simp
  have dk: "drop (pos + 1) s = k @ x @ 0x3A # t @ w @ c # r" using drop_more [of pos s "[0x22]"] d(1) by simp
  have dx: "drop (pos + 1 + length k) s = x @ 0x3A # t @ w @ c # r" by (rule drop_more [OF dk])
  have sx: "skip_ws s (pos + 1 + length k) = ?c" using skip_ws_drop [OF dx d(2)] by (simp add: not_ws)
  have ax: "at s ?c = Some 0x3A" using at_drop [OF dx] .
  have dt: "drop (?c + 1) s = t @ w @ c # r" using drop_more [of "pos + 1 + length k" s "x @ [0x3A]"] dx by simp
  have sw: "skip_ws s (?c + 1 + length t) = ?c + 1 + length t + length w" using skip_ws_drop [OF drop_more [OF dt] d(3,5)] .
  have ls: "pos + length (0x22 # k @ x @ 0x3A # t @ w @ [c]) \<le> length s"
    using drop_len [of pos s "0x22 # k @ x @ 0x3A # t @ w @ [c]" r] d(1) by simp
  have ok: "doc_ok d" "length (strs d) \<le> pos + 1" using pre(1) by (auto simp: ready_def)
  have ps: "runs (\<lambda>d' (p, i). doc_ok d' \<and> nodes d' = nodes d \<and> root d' = root d \<and> p = pos + 1 + length k \<and>
       i = int (length (strs d)) \<and> strs d' = strs d @ u @ [0]) (\<lambda>_. False) (parse_string A s d (pos + 1))"
    by (rule parse_string_succ [OF g(1) dk ok s A g(2)])
  have "runs P (\<lambda>_. False)
      (jbind (parse_string A s d (pos + 1))
          (\<lambda>d (pos, key_idx).
             let pos = skip_ws s pos
             in if at s pos \<noteq> Some 0x3A then jfail d PAI_ERR_PROTOCOL
                else
                  jbind (parse_value F A s f d (pos + 1) (n + 1))
                    (\<lambda>d (val_idx, pos).
                       if val_idx \<ge> length (nodes d) then Fault
                       else
                         jbind (append_child (set_node d val_idx (\<lambda>n. n\<lparr>key := key_idx\<rparr>)) nd val_idx)
                           (\<lambda>d _. let pos = skip_ws s pos
                                  in if at s pos = Some 0x2C then parse_members F A s f d (pos + 1) n nd
                                     else if at s pos = Some 0x7D then jret d (nd, pos + 1)
                                     else jfail d PAI_ERR_PROTOCOL))))"
  proof (rule runs_bind [OF ps])
    fix d0 y
    assume "case y of (p, i) \<Rightarrow> doc_ok d0 \<and> nodes d0 = nodes d \<and> root d0 = root d \<and> p = pos + 1 + length k \<and>
       i = int (length (strs d)) \<and> strs d0 = strs d @ u @ [0]"
    then obtain i where y: "y = (pos + 1 + length k, i)" and d0: "doc_ok d0" "nodes d0 = nodes d" "root d0 = root d"
      "i = int (length (strs d))" "strs d0 = strs d @ u @ [0]" by auto
    have o0: "open_node d0 nd PAI_JSON_OBJECT xs" using open_node_strs [OF pre(2) d0(2,5)] .
    have r0: "ready s d0 (?c + 1)" using d0 gstr_length [OF g(1)] ls pre(1) by (simp add: ready_def)
    have v: "runs (value_done d0 (?c + 1) t j) (\<lambda>_. False) (parse_value F A s f d0 (?c + 1) (n + 1))"
    proof -
      have "2 * (length s - (?c + 1)) + 2 \<le> f" using pre(4) ls by simp
      then show ?thesis
        using V [unfolded value_ok_def, rule_format, of "?c + 1" "w @ c # r" d0 f] dt r0 pre(3) d0(2) follow_blank [OF d(3,4), of r] by simp
    qed
    have "runs P (\<lambda>_. False) (jbind (parse_value F A s f d0 (?c + 1) (n + 1))
        (\<lambda>d (val_idx, pos).
           if val_idx \<ge> length (nodes d) then Fault
           else
             jbind (append_child (set_node d val_idx (\<lambda>n. n\<lparr>key := i\<rparr>)) nd val_idx)
               (\<lambda>d _. let pos = skip_ws s pos
                      in if at s pos = Some 0x2C then parse_members F A s f d (pos + 1) n nd
                         else if at s pos = Some 0x7D then jret d (nd, pos + 1)
                         else jfail d PAI_ERR_PROTOCOL)))"
    proof (rule runs_bind [OF v])
      fix d1 z assume "value_done d0 (?c + 1) t j d1 z"
      then have z: "z = (length (nodes d), ?c + 1 + length t)" and d1: "doc_ok d1" "length (strs d1) \<le> ?c + 1 + length t"
          "extends d0 d1 (length (nodes d))" "next_node (nodes d1 ! length (nodes d)) = - 1"
          "rep d1 (length (nodes d)) (length (nodes d1)) j" "length (nodes d1) = length (nodes d) + node_count j"
        using d0(2) by (auto simp: value_done_def)
      have len: "length (nodes d) < length (nodes d1)" using rep_bounds(1) [OF d1(5)] by simp
      let ?d = "set_node d1 (length (nodes d)) (\<lambda>n. n\<lparr>key := i\<rparr>)"
      have e: "extends d0 ?d (length (nodes d0))" using d1(3) d0(2) len by (auto simp: extends_def)
      have rp: "rep ?d (length (nodes d0)) (length (nodes ?d)) j"
        using rep_agrees(1) [OF d1(5), of ?d] d0(2) len by (auto simp: agrees_def core_def)
      have "str_at d0 i u" using str_at_new [OF d0(5)] d0(4) by simp
      then have ky: "key_ok ?d (length (nodes d0)) (Some u)"
        using str_at_mono [of d0 i u ?d] d1(3) d0(2) len by (auto simp: key_ok_def extends_def)
      have nx: "next_node (nodes ?d ! length (nodes d0)) = - 1" "doc_ok ?d" using d1 d0(2) len by auto
      obtain d2 where d2: "append_child ?d nd (length (nodes d)) = jret d2 ()" "open_node d2 nd PAI_JSON_OBJECT (xs @ [(Some u, j)])"
        "extends d0 d2 nd" "strs d2 = strs d1" "doc_ok d2" "length (nodes d2) = length (nodes d1)"
        using attach_child [OF o0 e rp ky nx] d0(2) by auto
      have e2: "extends d d2 nd" using d2(3) d0 by (auto simp: extends_def)
      have "ready s d2 (pos + length (0x22 # k @ x @ 0x3A # t @ w @ [c]))" using d2 d1 ls by (simp add: ready_def)
      from rest [OF d2(2) e2 this]
      have "runs P (\<lambda>_. False) (let p = ?c + 1 + length t + length w in if at s p = Some 0x2C then parse_members F A s f d2 (p + 1) n nd
         else if at s p = Some 0x7D then jret d2 (nd, p + 1) else jfail d2 PAI_ERR_PROTOCOL)"
        using d2(6) d1(6) by (simp add: add.assoc)
      then show "runs P (\<lambda>_. False) (case z of (val_idx, pos) \<Rightarrow>
           if val_idx \<ge> length (nodes d1) then Fault
           else
             jbind (append_child (set_node d1 val_idx (\<lambda>n. n\<lparr>key := i\<rparr>)) nd val_idx)
               (\<lambda>d _. let pos = skip_ws s pos
                      in if at s pos = Some 0x2C then parse_members F A s f d (pos + 1) n nd
                         else if at s pos = Some 0x7D then jret d (nd, pos + 1)
                         else jfail d PAI_ERR_PROTOCOL))"
        using len unfolding z prod.case d2(1) jbind_simps sw by simp
    qed simp
    then show "runs P (\<lambda>_. False)
       (case y of (pos, key_idx) \<Rightarrow>
          let pos = skip_ws s pos
          in if at s pos \<noteq> Some 0x3A then jfail d0 PAI_ERR_PROTOCOL
             else
               jbind (parse_value F A s f d0 (pos + 1) (n + 1))
                 (\<lambda>d (val_idx, pos).
                    if val_idx \<ge> length (nodes d) then Fault
                    else
                      jbind (append_child (set_node d val_idx (\<lambda>n. n\<lparr>key := key_idx\<rparr>)) nd val_idx)
                        (\<lambda>d _. let pos = skip_ws s pos
                               in if at s pos = Some 0x2C then parse_members F A s f d (pos + 1) n nd
                                  else if at s pos = Some 0x7D then jret d (nd, pos + 1)
                                  else jfail d PAI_ERR_PROTOCOL)))"
      using ax unfolding y prod.case sx Let_def [of ?c] by simp
  qed simp
  then show ?thesis unfolding parse_members.simps using q by simp
qed


section \<open>Completeness\<close>

lemma skip_ws_idem: "skip_ws s (skip_ws s p) = skip_ws s p"
proof -
  have "drop (skip_ws s p) s = dropWhile is_ws (drop p s)"
    by (simp add: skip_ws_def dropWhile_eq_drop add.commute)
  then have "takeWhile is_ws (drop (skip_ws s p) s) = []" by (metis hd_dropWhile takeWhile.simps(1) takeWhile_eq_Nil_iff)
  then show ?thesis by (simp add: skip_ws_def)
qed

lemma parse_elements_skip: "parse_elements F A s f d (skip_ws s p) n nd = parse_elements F A s f d p n nd"
proof (cases f)
  case (Suc f')
  have "parse_value F A s f' d (skip_ws s p) (n + 1) = parse_value F A s f' d p (n + 1)"
    by (cases f') (simp_all add: skip_ws_idem)
  then show ?thesis using Suc by (simp del: parse_value.simps)
qed simp

lemma skip_ws_blank: "drop p s = x @ r \<Longrightarrow> blank x \<Longrightarrow> skip_ws s p = skip_ws s (p + length x)"
  using drop_more [of p s x r] by (simp add: skip_ws_def blank_def takeWhile_append)

lemma new_container_succ:
  assumes "ready s d pos" "\<forall>k. A k" "length (nodes d) < 8192"
  shows "runs (\<lambda>d1 i. doc_ok d1 \<and> i = length (nodes d) \<and> strs d1 = strs d \<and> open_node d1 i t [] \<and> extends d d1 i \<and> length (nodes d1) = Suc i)
     (\<lambda>_. False) (new_node A d t)"
  by (rule runs_mono [OF new_node_succ [OF _ assms(2,3)]])
    (use assms in \<open>auto simp: ready_def open_node_def extends_def blank_node_def nth_append intro: reps_nil\<close>)

lemma container_value:
  assumes "container_done d1 p t (length (nodes d)) ty xs k d' (i, q)" "extends d d1 (length (nodes d))" "length (nodes d1) = Suc (length (nodes d))"
    "ty = PAI_JSON_ARRAY \<and> xs = map (Pair None) js \<and> j = JArray js \<or> ty = PAI_JSON_OBJECT \<and> xs = map (\<lambda>(k, j). (Some k, j)) ms \<and> j = JObject ms"
    "node_count j = Suc k" "q = pos + length t'"
  shows "value_done d pos t' j d' (i, q)"
  using assms doc_extends_trans [of d d1 "length (nodes d)" d' "length (nodes d)"] unfolding value_done_def container_done_def open_node_def
  by (auto intro!: rep_array rep_object)

lemma array_succ:
  assumes E: "elems_ok F A s n t js" and A: "\<forall>k. A k" and d: "drop pos s = w @ 0x5B # x @ t @ r" "blank w" "blank x" "n \<le> 32"
    and h: "t = w' @ c # t'" "blank w'" "\<not> is_ws c" "c \<noteq> 0x5D"
    and pre: "ready s d pos" "length (nodes d) + node_count (JArray js) \<le> 8192" "2 * (length s - pos) + 2 \<le> f"
  shows "runs (value_done d pos (w @ 0x5B # x @ t) (JArray js)) (\<lambda>_. False) (parse_value F A s f d pos n)"
proof -
  obtain f' where f: "f = Suc f'" using pre(3) by (cases f) auto
  let ?p = "pos + length w" and ?q = "pos + length w + 1 + length x"
  have sk: "skip_ws s pos = ?p" using skip_ws_drop [OF d(1,2)] by (simp add: not_ws)
  have a: "at s ?p = Some 0x5B" using at_drop [OF d(1)] .
  have d1: "drop (?p + 1) s = x @ t @ r" using drop_more [of pos s "w @ [0x5B]"] d(1) by simp
  have dq: "drop ?q s = t @ r" by (rule drop_more [OF d1])
  have sq: "skip_ws s (?p + 1) = skip_ws s ?q" by (rule skip_ws_blank [OF d1 d(3)])
  have "drop ?q s = w' @ c # t' @ r" using dq h(1) by simp
  then have ac: "at s (skip_ws s ?q) \<noteq> Some 0x5D" using skip_ws_drop [OF _ h(2,3)] at_drop [of ?q s w'] h(4) by auto
  have ls: "?q + length t \<le> length s" using drop_len [OF dq] h(1) by simp
  have dep: "\<not> n > PAI_JSON_MAX_DEPTH" using d(4) by (simp add: PAI_JSON_MAX_DEPTH_def)
  have e: "parse_value F A s f d pos n = jbind (new_node A d PAI_JSON_ARRAY) (\<lambda>d node. parse_elements F A s f' d ?q n node)"
    unfolding f parse_value.simps using dep a ac by (simp add: sk Let_def sq [simplified] parse_elements_skip del: parse_elements.simps)
  show ?thesis unfolding e
  proof (rule runs_bind [OF new_container_succ [OF pre(1) A]])
    show "length (nodes d) < 8192" using pre(2) by simp
    fix d1 i assume "doc_ok d1 \<and> i = length (nodes d) \<and> strs d1 = strs d \<and> open_node d1 i PAI_JSON_ARRAY [] \<and> extends d d1 i \<and> length (nodes d1) = Suc i"
    then have n1: "doc_ok d1" "i = length (nodes d)" "strs d1 = strs d" "open_node d1 i PAI_JSON_ARRAY []" "extends d d1 i" "length (nodes d1) = Suc i"
      by auto
    have rq: "ready s d1 ?q" "2 * (length s - ?q) + 3 \<le> f'" using n1 pre ls f by (auto simp: ready_def)
    have "runs (container_done d1 ?q t i PAI_JSON_ARRAY ([] @ map (Pair None) js) (sum_list (map node_count js))) (\<lambda>_. False)
        (parse_elements F A s f' d1 ?q n i)"
      by (rule E [unfolded elems_ok_def, rule_format, of ?q r]) (use dq n1 rq pre(2) in auto)
    then show "runs (value_done d pos (w @ 0x5B # x @ t) (JArray js)) (\<lambda>_. False) (parse_elements F A s f' d1 ?q n i)"
    proof (rule runs_mono)
      fix d2 y assume y: "container_done d1 ?q t i PAI_JSON_ARRAY ([] @ map (Pair None) js) (sum_list (map node_count js)) d2 y"
      obtain a b where ab: "y = (a, b)" by fastforce
      have b: "b = pos + length (w @ 0x5B # x @ t)" using y ab by (simp add: container_done_def)
      have "container_done d1 ?q t (length (nodes d)) PAI_JSON_ARRAY (map (Pair None) js) (sum_list (map node_count js)) d2 (a, b)" using y ab n1(2) by simp
      from container_value [OF this _ _ _ _ b, where js = js and j = "JArray js" and ms = "[]"]
      show "value_done d pos (w @ 0x5B # x @ t) (JArray js) d2 y" using n1 unfolding ab by simp
    qed
  qed
qed


lemma object_succ:
  assumes M: "members_ok F A s n t ms" and A: "\<forall>k. A k" and d: "drop pos s = w @ 0x7B # x @ t @ r" "blank w" "blank x" "n \<le> 32"
    and h: "t = 0x22 # t'"
    and pre: "ready s d pos" "length (nodes d) + node_count (JObject ms) \<le> 8192" "2 * (length s - pos) + 2 \<le> f"
  shows "runs (value_done d pos (w @ 0x7B # x @ t) (JObject ms)) (\<lambda>_. False) (parse_value F A s f d pos n)"
proof -
  obtain f' where f: "f = Suc f'" using pre(3) by (cases f) auto
  let ?p = "pos + length w" and ?q = "pos + length w + 1 + length x"
  have sk: "skip_ws s pos = ?p" using skip_ws_drop [OF d(1,2)] by (simp add: not_ws)
  have a: "at s ?p = Some 0x7B" using at_drop [OF d(1)] .
  have d1: "drop (?p + 1) s = x @ t @ r" using drop_more [of pos s "w @ [0x7B]"] d(1) by simp
  have dq: "drop ?q s = t @ r" by (rule drop_more [OF d1])
  have sq: "skip_ws s (?p + 1) = ?q" using skip_ws_drop [of "?p + 1" s x "0x22" "t' @ r"] d1 d(3) h by (simp add: not_ws)
  have ac: "at s ?q = Some 0x22" using at_drop [of ?q s "[]"] dq h by simp
  have ls: "?q + length t \<le> length s" using drop_len [OF dq] h(1) by simp
  have dep: "\<not> n > PAI_JSON_MAX_DEPTH" using d(4) by (simp add: PAI_JSON_MAX_DEPTH_def)
  have e: "parse_value F A s f d pos n = jbind (new_node A d PAI_JSON_OBJECT) (\<lambda>d node. parse_members F A s f' d ?q n node)"
    unfolding f parse_value.simps using dep a ac by (simp add: sk Let_def sq [simplified] del: parse_members.simps)
  show ?thesis unfolding e
  proof (rule runs_bind [OF new_container_succ [OF pre(1) A]])
    show "length (nodes d) < 8192" using pre(2) by simp
    fix d1 i assume "doc_ok d1 \<and> i = length (nodes d) \<and> strs d1 = strs d \<and> open_node d1 i PAI_JSON_OBJECT [] \<and> extends d d1 i \<and> length (nodes d1) = Suc i"
    then have n1: "doc_ok d1" "i = length (nodes d)" "strs d1 = strs d" "open_node d1 i PAI_JSON_OBJECT []" "extends d d1 i" "length (nodes d1) = Suc i"
      by auto
    let ?xs = "map (\<lambda>(k, j). (Some k, j)) ms" and ?k = "sum_list (map (\<lambda>(k, j). node_count j) ms)"
    have rq: "ready s d1 ?q" "2 * (length s - ?q) + 1 \<le> f'" using n1 pre ls f by (auto simp: ready_def)
    have "runs (container_done d1 ?q t i PAI_JSON_OBJECT ([] @ ?xs) ?k) (\<lambda>_. False) (parse_members F A s f' d1 ?q n i)"
      by (rule M [unfolded members_ok_def, rule_format, of ?q r]) (use dq n1 rq pre(2) in auto)
    then show "runs (value_done d pos (w @ 0x7B # x @ t) (JObject ms)) (\<lambda>_. False) (parse_members F A s f' d1 ?q n i)"
    proof (rule runs_mono)
      fix d2 y assume y: "container_done d1 ?q t i PAI_JSON_OBJECT ([] @ ?xs) ?k d2 y"
      obtain a b where ab: "y = (a, b)" by fastforce
      have b: "b = pos + length (w @ 0x7B # x @ t)" using y ab by (simp add: container_done_def)
      have "container_done d1 ?q t (length (nodes d)) PAI_JSON_OBJECT (?xs) (?k) d2 (a, b)" using y ab n1(2) by simp
      from container_value [OF this _ _ _ _ b, where js = "[]" and j = "JObject ms" and ms = ms]
      show "value_done d pos (w @ 0x7B # x @ t) (JObject ms) d2 y" using n1 unfolding ab by simp
    qed
  qed
qed

lemma empty_succ:
  assumes A: "\<forall>k. A k" and d: "drop pos s = (w @ o1 # x @ [o2]) @ r" "blank w" "blank x" "n \<le> 32"
    and o: "o1 = 0x5B \<and> o2 = 0x5D \<and> j = JArray [] \<or> o1 = 0x7B \<and> o2 = 0x7D \<and> j = JObject []"
    and pre: "ready s d pos" "length (nodes d) + node_count j \<le> 8192" "2 * (length s - pos) + 2 \<le> f"
  shows "runs (value_done d pos (w @ o1 # x @ [o2]) j) (\<lambda>_. False) (parse_value F A s f d pos n)"
proof -
  obtain f' where f: "f = Suc f'" using pre(3) by (cases f) auto
  let ?p = "pos + length w" and ?q = "pos + length w + 1 + length x"
  have nw: "\<not> is_ws o1" "\<not> is_ws o2" using o not_ws by auto
  have d': "drop pos s = w @ o1 # x @ o2 # r" using d(1) by simp
  have sk: "skip_ws s pos = ?p" using skip_ws_drop [OF d' d(2) nw(1)] .
  have a: "at s ?p = Some o1" using at_drop [OF d'] .
  have d1: "drop (?p + 1) s = x @ o2 # r" using drop_more [of pos s "w @ [o1]"] d' by simp
  have sq: "skip_ws s (?p + 1) = ?q" using skip_ws_drop [OF d1 d(3) nw(2)] .
  have ac: "at s ?q = Some o2" using at_drop [OF d1] .
  have dep: "\<not> n > PAI_JSON_MAX_DEPTH" using d(4) by (simp add: PAI_JSON_MAX_DEPTH_def)
  have e: "parse_value F A s f d pos n =
      jbind (new_node A d (if o1 = 0x5B then PAI_JSON_ARRAY else PAI_JSON_OBJECT)) (\<lambda>d node. jret d (node, ?q + 1))"
    unfolding f parse_value.simps using dep a ac o by (auto simp: sk Let_def sq [simplified])
  have ok: "doc_ok d" "length (strs d) \<le> pos" using pre(1) by (auto simp: ready_def)
  have n: "length (nodes d) < 8192" using pre(2) o by auto
  have post: "value_done d pos (w @ o1 # x @ [o2]) j d1 (length (nodes d), ?q + 1)"
    if "doc_ok d1" "nodes d1 = nodes d @ [blank_node (if o1 = 0x5B then PAI_JSON_ARRAY else PAI_JSON_OBJECT)]" "strs d1 = strs d" "root d1 = root d" for d1
    using that ok o by (auto simp: value_done_def extends_def nth_append blank_node_def intro!: rep_array rep_object intro: reps_nil)
  show ?thesis unfolding e
    by (rule runs_bind [OF new_node_succ [OF ok(1) A n]]) (use post in auto)
qed

text \<open>The fuel has one for the call.\<close>

lemma leaf_value:
  assumes "drop pos s = (w @ t) @ r" "t = c # t'" "blank w" "\<not> is_ws c" "n \<le> 32" "2 * (length s - pos) + 2 \<le> f"
  obtains f' where "f = Suc f'" "\<not> n > PAI_JSON_MAX_DEPTH" "skip_ws s pos = pos + length w" "at s (pos + length w) = Some c"
proof -
  obtain f' where f: "f = Suc f'" using assms(6) by (cases f) auto
  have d: "drop pos s = w @ c # t' @ r" using assms(1,2) by simp
  show thesis using that [OF f] assms(5) skip_ws_drop [OF d assms(3,4)] at_drop [OF d] by (simp add: PAI_JSON_MAX_DEPTH_def)
qed

lemma literal_ok:
  assumes "\<forall>k. A k" "blank w" "n \<le> 32"
  shows "value_ok F A s n (w @ [0x6E, 0x75, 0x6C, 0x6C]) JNull" "value_ok F A s n (w @ [0x74, 0x72, 0x75, 0x65]) (JBool True)"
    "value_ok F A s n (w @ [0x66, 0x61, 0x6C, 0x73, 0x65]) (JBool False)"
  unfolding value_ok_def
proof (safe, goal_cases)
  case (1 d pos r f)
  obtain f' where f: "f = Suc f'" "\<not> n > PAI_JSON_MAX_DEPTH" "skip_ws s pos = pos + length w" "at s (pos + length w) = Some 0x6E"
    using leaf_value [OF 1(1) refl assms(2) _ assms(3) 1(5)] by (auto simp: not_ws)
  show ?case using literal_succ [OF 1(3) assms(1) _ 1(1), of PAI_JSON_NULL JNull False] 1 f by (simp add: Let_def)
next
  case (2 d pos r f)
  obtain f' where f: "f = Suc f'" "\<not> n > PAI_JSON_MAX_DEPTH" "skip_ws s pos = pos + length w" "at s (pos + length w) = Some 0x74"
    using leaf_value [OF 2(1) refl assms(2) _ assms(3) 2(5)] by (auto simp: not_ws)
  show ?case using literal_succ [OF 2(3) assms(1) _ 2(1), of PAI_JSON_BOOL "JBool True" True] 2 f by (simp add: Let_def)
next
  case (3 d pos r f)
  obtain f' where f: "f = Suc f'" "\<not> n > PAI_JSON_MAX_DEPTH" "skip_ws s pos = pos + length w" "at s (pos + length w) = Some 0x66"
    using leaf_value [OF 3(1) refl assms(2) _ assms(3) 3(5)] by (auto simp: not_ws)
  show ?case using literal_succ [OF 3(3) assms(1) _ 3(1), of PAI_JSON_BOOL "JBool False" False] 3 f by (simp add: Let_def)
qed

lemma number_ok:
  assumes "\<forall>k. A k" "blank w" "n \<le> 32" "gnum F t v" shows "value_ok F A s n (w @ t) (JNumber v)"
  unfolding value_ok_def
proof (safe, goal_cases)
  case (1 d pos r f)
  obtain c t' where c: "t = c # t'" "is_digit c \<or> c = 0x2D" using gnum_hd [OF assms(4)] .
  note dc = digit_char [OF c(2)]
  obtain f' where f: "f = Suc f'" "\<not> n > PAI_JSON_MAX_DEPTH" "skip_ws s pos = pos + length w" "at s (pos + length w) = Some c"
    using leaf_value [OF 1(1) c(1) assms(2) dc(1) assms(3) 1(5)] .
  show ?case using number_succ [OF 1(3) assms(1) _ 1(1) assms(4) 1(2)] 1(4) f dc by (simp add: Let_def)
qed

lemma string_ok:
  assumes "\<forall>k. A k" "blank w" "n \<le> 32" "gstr t u" "length u \<le> 2 ^ 20" "length s < 2 ^ 31"
  shows "value_ok F A s n (w @ 0x22 # t) (JString u)"
  unfolding value_ok_def
proof (safe, goal_cases)
  case (1 d pos r f)
  obtain f' where f: "f = Suc f'" "\<not> n > PAI_JSON_MAX_DEPTH" "skip_ws s pos = pos + length w" "at s (pos + length w) = Some 0x22"
    using leaf_value [OF 1(1) refl assms(2) _ assms(3) 1(5)] by (auto simp: not_ws)
  show ?case using string_succ [OF 1(3) assms(1) _ 1(1) assms(4-6)] 1(4) f by (simp add: Let_def)
qed

lemma gval_ne: "gval F n t j \<Longrightarrow> t \<noteq> []"
  using gval_hd [of F n t j] by auto

lemma elems_last_ok:
  assumes V: "value_ok F A s (Suc n) t j" and t: "t \<noteq> []" and w: "blank w"
  shows "elems_ok F A s n (t @ w @ [0x5D]) [j]"
  unfolding elems_ok_def
proof (safe, goal_cases)
  case (1 d pos r f nd xs)
  have d: "drop pos s = t @ w @ 0x5D # r" using 1(1) by simp
  obtain f' where f: "f = Suc f'" using 1(5) by (cases f) auto
  have a: "at s (pos + length (t @ w)) = Some 0x5D" using at_drop [of pos s "t @ w" "0x5D" r] d by simp
  show ?case unfolding f
    by (rule element_succ [OF V d w num_char_ends(1) not_ws(1) t 1(2,3)])
      (use 1 f a in \<open>auto simp: Let_def container_done_def ready_def add.assoc\<close>)
qed

lemma elems_more_ok:
  assumes V: "value_ok F A s (Suc n) t j" and t: "t \<noteq> []" and w: "blank w" and E: "elems_ok F A s n q js"
  shows "elems_ok F A s n (t @ w @ 0x2C # q) (j # js)"
  unfolding elems_ok_def
proof (safe, goal_cases)
  case (1 d pos r f nd xs)
  have d: "drop pos s = t @ w @ 0x2C # q @ r" using 1(1) by simp
  obtain f' where f: "f = Suc f'" using 1(5) by (cases f) auto
  let ?p = "pos + length (t @ w)"
  have a: "at s ?p = Some 0x2C" using at_drop [of pos s "t @ w" "0x2C" "q @ r"] d by simp
  have dq: "drop (?p + 1) s = q @ r" using drop_more [of pos s "t @ w @ [0x2C]"] d by simp
  have lt: "?p < length s" using at_Some_less [OF a] .
  show ?case unfolding f
  proof (rule element_succ [OF V d w num_char_ends(3) not_ws(3) t 1(2,3)])
    show "length (nodes d) + node_count j \<le> 8192" using 1(4) by simp
    show "2 * (length s - pos) + 3 \<le> Suc f'" using 1(5) f by simp
    fix d2 assume d2: "open_node d2 nd PAI_JSON_ARRAY (xs @ [(None, j)])" "extends d d2 nd" "ready s d2 (pos + length (t @ w @ [0x2C]))"
      "length (nodes d2) = length (nodes d) + node_count j"
    have r2: "ready s d2 (?p + 1)" using d2(3) by (simp add: add.assoc)
    have "runs (container_done d2 (?p + 1) q nd PAI_JSON_ARRAY ((xs @ [(None, j)]) @ map (Pair None) js) (sum_list (map node_count js))) (\<lambda>_. False)
        (parse_elements F A s f' d2 (?p + 1) n nd)"
      by (rule E [unfolded elems_ok_def, rule_format, of "?p + 1" r]) (use dq r2 d2 1(4,5) f t lt in \<open>auto simp: neq_Nil_conv\<close>)
    then have "runs (container_done d pos (t @ w @ 0x2C # q) nd PAI_JSON_ARRAY (xs @ map (Pair None) (j # js)) (sum_list (map node_count (j # js)))) (\<lambda>_. False)
        (parse_elements F A s f' d2 (?p + 1) n nd)"
      by (rule runs_mono) (use d2 in \<open>auto simp: container_done_def intro: doc_extends_trans\<close>)
    then show "runs (container_done d pos (t @ w @ 0x2C # q) nd PAI_JSON_ARRAY (xs @ map (Pair None) (j # js)) (sum_list (map node_count (j # js)))) (\<lambda>_. False)
        (let p = ?p in if at s p = Some 0x2C then parse_elements F A s f' d2 (p + 1) n nd
         else if at s p = Some 0x5D then jret d2 (nd, p + 1) else jfail d2 PAI_ERR_PROTOCOL)"
      using a by (simp add: Let_def)
  qed
qed

lemma members_last_ok:
  assumes A: "\<forall>k. A k" and s: "length s < 2 ^ 31" and V: "value_ok F A s (Suc n) t j" and g: "gstr k u" "length u \<le> 2 ^ 20" and b: "blank x" "blank w"
  shows "members_ok F A s n (0x22 # k @ x @ 0x3A # t @ w @ [0x7D]) [(u, j)]"
  unfolding members_ok_def
proof (safe, goal_cases)
  case (1 d pos r f nd xs)
  have d: "drop pos s = 0x22 # k @ x @ 0x3A # t @ w @ 0x7D # r" using 1(1) by simp
  obtain f' where f: "f = Suc f'" using 1(5) by (cases f) auto
  have a: "at s (pos + length (0x22 # k @ x @ 0x3A # t @ w)) = Some 0x7D"
    using at_drop [of pos s "0x22 # k @ x @ 0x3A # t @ w" "0x7D" r] d by simp
  show ?case unfolding f
    by (rule member_succ [OF V A s g d b num_char_ends(2) not_ws(2) 1(2,3)])
      (use 1 f a in \<open>auto simp: Let_def container_done_def ready_def add.assoc\<close>)
qed

lemma members_more_ok:
  assumes A: "\<forall>k. A k" and s: "length s < 2 ^ 31" and V: "value_ok F A s (Suc n) t j" and g: "gstr k u" "length u \<le> 2 ^ 20" and b: "blank x" "blank w"
    and M: "members_ok F A s n q ms"
  shows "members_ok F A s n (0x22 # k @ x @ 0x3A # t @ w @ 0x2C # q) ((u, j) # ms)"
  unfolding members_ok_def
proof (safe, goal_cases)
  case (1 d pos r f nd xs)
  have d: "drop pos s = 0x22 # k @ x @ 0x3A # t @ w @ 0x2C # q @ r" using 1(1) by simp
  obtain f' where f: "f = Suc f'" using 1(5) by (cases f) auto
  let ?p = "pos + length (0x22 # k @ x @ 0x3A # t @ w)" and ?c = "\<lambda>(k, j). node_count j"
  have a: "at s ?p = Some 0x2C" using at_drop [of pos s "0x22 # k @ x @ 0x3A # t @ w" "0x2C" "q @ r"] d by simp
  have dq: "drop (?p + 1) s = q @ r" using drop_more [of pos s "0x22 # k @ x @ 0x3A # t @ w @ [0x2C]"] d by simp
  have lt: "?p < length s" using at_Some_less [OF a] .
  let ?P = "container_done d pos (0x22 # k @ x @ 0x3A # t @ w @ 0x2C # q) nd PAI_JSON_OBJECT (xs @ map (\<lambda>(k, j). (Some k, j)) ((u, j) # ms))
      (sum_list (map ?c ((u, j) # ms)))"
  show ?case unfolding f
  proof (rule member_succ [OF V A s g d b num_char_ends(3) not_ws(3) 1(2,3)])
    show "length (nodes d) + node_count j \<le> 8192" using 1(4) by simp
    show "2 * (length s - pos) + 1 \<le> Suc f'" using 1(5) f by simp
    fix d2 assume d2: "open_node d2 nd PAI_JSON_OBJECT (xs @ [(Some u, j)])" "extends d d2 nd"
      "ready s d2 (pos + length (0x22 # k @ x @ 0x3A # t @ w @ [0x2C]))" "length (nodes d2) = length (nodes d) + node_count j"
    have r2: "ready s d2 (?p + 1)" using d2(3) by (simp add: add.assoc)
    have "runs (container_done d2 (?p + 1) q nd PAI_JSON_OBJECT ((xs @ [(Some u, j)]) @ map (\<lambda>(k, j). (Some k, j)) ms) (sum_list (map ?c ms))) (\<lambda>_. False)
        (parse_members F A s f' d2 (?p + 1) n nd)"
      by (rule M [unfolded members_ok_def, rule_format, of "?p + 1" r]) (use dq r2 d2 1(4,5) f lt in auto)
    then have "runs ?P (\<lambda>_. False) (parse_members F A s f' d2 (?p + 1) n nd)"
      by (rule runs_mono) (use d2 in \<open>auto simp: container_done_def intro: doc_extends_trans\<close>)
    then show "runs ?P (\<lambda>_. False)
        (let p = ?p in if at s p = Some 0x2C then parse_members F A s f' d2 (p + 1) n nd
         else if at s p = Some 0x7D then jret d2 (nd, p + 1) else jfail d2 PAI_ERR_PROTOCOL)"
      using a by (simp add: Let_def)
  qed
qed

lemma gelems_hd:
  assumes "gelems F n t js" obtains w c r where "t = w @ c # r" "blank w" "\<not> is_ws c" "c \<noteq> 0x5D"
  using assms by (cases rule: gelems.cases) (metis append_Cons append_assoc gval_hd)+

lemma gmembers_hd: "gmembers F n t ms \<Longrightarrow> \<exists>t'. t = 0x22 # t'"
  by (auto elim: gmembers.cases)

lemma parse_complete:
  assumes A: "\<forall>k. A k" and s: "length s < 2 ^ 31"
  shows "gval F n t j \<Longrightarrow> value_ok F A s n t j" "gmembers F n t ms \<Longrightarrow> members_ok F A s n t ms" "gelems F n t js \<Longrightarrow> elems_ok F A s n t js"
proof (induction rule: gval_gmembers_gelems.inducts)
  case (gval_array w n x t js)
  obtain w' c t' where h: "t = w' @ c # t'" "blank w'" "\<not> is_ws c" "c \<noteq> 0x5D" using gelems_hd [OF gval_array(4)] .
  show ?case unfolding value_ok_def
    using array_succ [OF gval_array(5) A _ gval_array(1,3,2) h] by (auto simp del: parse_value.simps node_count.simps)
next
  case (gval_object w n x t ms)
  obtain t' where h: "t = 0x22 # t'" using gmembers_hd [OF gval_object(4)] by blast
  show ?case unfolding value_ok_def
    using object_succ [OF gval_object(5) A _ gval_object(1,3,2) h] by (auto simp del: parse_value.simps node_count.simps)
next
  case (gelems_last n t j w)
  then show ?case using elems_last_ok gval_ne by blast
next
  case (gelems_more n t j w r js)
  then show ?case using elems_more_ok gval_ne by blast
next
  case (gmembers_last k u x n t j w)
  then show ?case using members_last_ok [OF A s] by blast
next
  case (gmembers_more k u x n t j w r ms)
  then show ?case using members_more_ok [OF A s] by blast
next
  case (gval_empty_array w n x)
  then show ?case unfolding value_ok_def using empty_succ [OF A _ gval_empty_array(1,3,2), where ?o1.0 = "0x5B" and ?o2.0 = "0x5D"] by (simp del: parse_value.simps)
next
  case (gval_empty_object w n x)
  then show ?case unfolding value_ok_def using empty_succ [OF A _ gval_empty_object(1,3,2), where ?o1.0 = "0x7B" and ?o2.0 = "0x7D"] by (simp del: parse_value.simps)
qed (use literal_ok [OF A] number_ok [OF A] string_ok [OF A _ _ _ _ s] in auto)

lemma parse_succ:
  assumes "\<forall>k. A k" "length s < 2 ^ 31" "gdoc F s j" "node_count j \<le> 8192"
  shows "runs (\<lambda>d _. doc_ok d \<and> tree_of d j) (\<lambda>_. False) (pai_json_parse F A s)"
proof -
  obtain t w where t: "s = t @ w" "gval F 0 t j" "blank w" using assms(3) by (auto simp: gdoc_def)
  have f: "follow w" using t(3) num_char_ends(4) by (auto simp: follow_def blank_def split: list.splits)
  have r: "ready s empty_doc 0" by (simp add: ready_def doc_ok_def empty_doc_def)
  have sk: "skip_ws s (length t) = length s" using t by (simp add: skip_ws_def blank_def takeWhile_eq_all_conv [THEN iffD2])
  have v: "runs (value_done empty_doc 0 t j) (\<lambda>_. False) (parse_value F A s (2 * length s + 2) empty_doc 0 0)"
    by (rule parse_complete(1) [OF assms(1,2) t(2), unfolded value_ok_def, rule_format, of 0 w])
      (use t f r assms(4) in \<open>auto simp: empty_doc_def\<close>)
  show ?thesis unfolding pai_json_parse_def
    by (rule runs_bind [OF v]) (use sk in \<open>auto simp: value_done_def empty_doc_def tree_of_def doc_ok_def intro: rep_root\<close>)
qed


text \<open>C20. The parser is complete for the grammar: when every request to \<^verbatim>\<open>realloc\<close> succeeds, a text the grammar
  derives, nested at most 33 deep and with at most 8192 values, is accepted and the document is the tree of its
  value.\<close>

theorem json_parse_complete:
  assumes "\<forall>k. A k" "length s < 2 ^ 31" "gdoc F s j" "node_count j \<le> 8192"
  shows "\<exists>d. pai_json_parse F A s = Returns (d, Inr ()) \<and> tree_of d j"
  using parse_succ [OF assms] by (auto simp: runs_succ jret_def)

theorem json_parse_complete_witness:
  "\<exists>d. pai_json_parse demo_jops (\<lambda>_. True) [0x20, 0x5B, 0x5D, 0x0A] = Returns (d, Inr ()) \<and> tree_of d (JArray [])"
proof (rule json_parse_complete)
  show "gdoc demo_jops [0x20, 0x5B, 0x5D, 0x0A] (JArray [])"
    unfolding gdoc_def using gval_empty_array [of "[0x20]" 0 "[]" demo_jops]
    by (intro exI [of _ "[0x20, 0x5B, 0x5D]"] exI [of _ "[0x0A]"]) (simp add: blank_def is_ws_def)
qed simp_all

text \<open>White space after the comma between two members is refused: \<open>{"a":1, "b":2}\<close> gives PAI_ERR_PROTOCOL, while the
  same text without the space, and an array with one, are accepted.\<close>

definition spaced_object :: bytes where
  "spaced_object = [0x7B, 0x22, 0x61, 0x22, 0x3A, 0x31, 0x2C, 0x20, 0x22, 0x62, 0x22, 0x3A, 0x32, 0x7D]"

theorem json_member_space_refused:
  "(case pai_json_parse demo_jops (\<lambda>_. True) spaced_object of Returns (_, Inl e) \<Rightarrow> e = PAI_ERR_PROTOCOL | _ \<Rightarrow> False) \<and>
   (case pai_json_parse demo_jops (\<lambda>_. True) (filter (\<lambda>c. c \<noteq> 0x20) spaced_object) of Returns (_, Inr _) \<Rightarrow> True | _ \<Rightarrow> False) \<and>
   (case pai_json_parse demo_jops (\<lambda>_. True) [0x5B, 0x31, 0x2C, 0x20, 0x32, 0x5D] of Returns (_, Inr _) \<Rightarrow> True | _ \<Rightarrow> False)"
  by code_simp

end
