(* ===== verification/Json_Write.thy ===== *)
theory Json_Write
  imports Json_Complete
begin

text \<open>
  The writer of \<^verbatim>\<open>gateway/json.c\<close>: the text it makes of a tree, its memory safety, and the round trip through
  the parser.
\<close>

section \<open>The text of a value\<close>

text \<open>A string is written up to its first NUL.\<close>

definition cut :: "bytes \<Rightarrow> bytes" where
  "cut u = takeWhile (\<lambda>c. c \<noteq> 0) u"

definition quoted :: "bytes \<Rightarrow> bytes" where
  "quoted u = 0x22 # concat (map escape u) @ [0x22]"

fun commas :: "bytes list \<Rightarrow> bytes" where
  "commas [] = []"
| "commas [t] = t"
| "commas (t # ts) = t @ 0x2C # commas ts"

fun json_text :: "jops \<Rightarrow> json \<Rightarrow> bytes" where
  "json_text F JNull = [0x6E, 0x75, 0x6C, 0x6C]"
| "json_text F (JBool b) = (if b then [0x74, 0x72, 0x75, 0x65] else [0x66, 0x61, 0x6C, 0x73, 0x65])"
| "json_text F (JNumber v) = jfmt F v"
| "json_text F (JString u) = quoted (cut u)"
| "json_text F (JArray js) = 0x5B # commas (map (json_text F) js) @ [0x5D]"
| "json_text F (JObject ms) = 0x7B # commas (map (\<lambda>(k, j). quoted (cut k) @ 0x3A # json_text F j) ms) @ [0x7D]"

section \<open>The write buffer\<close>

definition wb_ok :: "pai_json_wb \<Rightarrow> bool" where
  "wb_ok wb \<longleftrightarrow> length (buf wb) \<le> unat (wcap wb)"

text \<open>\<open>appends A wb t\<close>: the run adds \<open>t\<close> to the buffer, or stops for lack of memory.\<close>

definition appends :: "(nat \<Rightarrow> bool) \<Rightarrow> pai_json_wb \<Rightarrow> bytes \<Rightarrow> (pai_json_wb, unit) run \<Rightarrow> bool" where
  "appends A wb t r \<longleftrightarrow> runs (\<lambda>wb' _. wb_ok wb' \<and> buf wb' = buf wb @ t) (\<lambda>wb'. wb_ok wb' \<and> (\<exists>k. \<not> A k)) r"

lemma appends_nil [simp]: "wb_ok wb \<Longrightarrow> appends A wb [] (jret wb ())"
  by (simp add: appends_def)

lemma appends_bind:
  assumes "appends A wb t r" "\<And>wb'. wb_ok wb' \<Longrightarrow> buf wb' = buf wb @ t \<Longrightarrow> appends A wb' t' (f wb' ())"
  shows "appends A wb (t @ t') (jbind r f)"
  unfolding appends_def
proof (rule runs_bind [OF assms(1) [unfolded appends_def]])
  fix wb' x assume w: "wb_ok wb' \<and> buf wb' = buf wb @ t"
  have "appends A wb' t' (f wb' x)" using assms(2) [of wb'] w by simp
  then show "runs (\<lambda>wb' _. wb_ok wb' \<and> buf wb' = buf wb @ t @ t') (\<lambda>wb'. wb_ok wb' \<and> (\<exists>k. \<not> A k)) (f wb' x)"
    using w by (simp add: appends_def)
qed simp

lemma reserve_runs:
  assumes "wb_ok wb" "length (buf wb) + unat n \<le> 2 ^ 31"
  shows "runs (\<lambda>wb' _. buf wb' = buf wb \<and> length (buf wb) + unat n \<le> unat (wcap wb')) (\<lambda>wb'. wb_ok wb' \<and> (\<exists>k. \<not> A k)) (pai_json_wb_reserve A wb n)"
proof -
  let ?need = "of_nat (length (buf wb)) + n"
  have "unat (of_nat (length (buf wb)) :: u32) = length (buf wb)" using assms(2) by (intro unat_of_nat32) simp
  then have need: "unat ?need = length (buf wb) + unat n"
    using assms(2) by (simp add: unat_add_lem [THEN iffD1])
  show ?thesis
  proof (cases "?need \<le> wcap wb")
    case True
    then show ?thesis using need by (simp add: pai_json_wb_reserve_def word_le_nat_alt)
  next
    case False
    have "0 < (if wcap wb = 0 then 256 else wcap wb)" by (simp add: word_gt_0)
    then obtain c where c: "double_until ?need (if wcap wb = 0 then 256 else wcap wb) = Some c" "?need \<le> c"
      using double_until_Some need assms(2) by metis
    then show ?thesis using False need assms(1) by (auto simp: pai_json_wb_reserve_def Let_def word_le_nat_alt wb_ok_def)
  qed
qed

lemma putc_appends:
  assumes "wb_ok wb" "length (buf wb) < 2 ^ 31" shows "appends A wb [c] (pai_json_wb_putc A wb c)"
  unfolding appends_def pai_json_wb_putc_def
  by (rule runs_bind [OF reserve_runs [OF assms(1)]]) (use assms in \<open>auto simp: wb_store_def wb_ok_def\<close>)

lemma putn_appends:
  assumes "wb_ok wb" "length (buf wb) + length t \<le> 2 ^ 31" shows "appends A wb t (pai_json_wb_putn A wb t)"
proof -
  have n: "unat (of_nat (length t) :: u32) = length t" using assms(2) by (intro unat_of_nat32) simp
  show ?thesis unfolding appends_def pai_json_wb_putn_def
    by (rule runs_bind [OF reserve_runs [OF assms(1)]]) (use assms n in \<open>auto simp: wb_store_def wb_ok_def\<close>)
qed

lemma putf_appends:
  assumes "wb_ok wb" "length (buf wb) + length t \<le> 2 ^ 31" shows "appends A wb t (pai_json_wb_putf A wb t)"
proof -
  let ?wb = "wb\<lparr>wreallocs := Suc (wreallocs wb)\<rparr>"
  have "appends A ?wb t (pai_json_wb_putn A ?wb t)" using assms by (intro putn_appends) (auto simp: wb_ok_def)
  then have "appends A wb t (pai_json_wb_putn A ?wb t)" by (simp add: appends_def)
  moreover have "appends A wb t (jfail ?wb PAI_ERR_NOMEM)" if "\<not> A (wreallocs wb)"
    using that assms by (auto simp: appends_def wb_ok_def)
  ultimately show ?thesis using putn_appends [OF assms] by (simp add: pai_json_wb_putf_def Let_def)
qed

lemma escape_ne: "escape c \<noteq> []"
  by (simp add: escape_def)

lemma quote_loop_appends:
  assumes "wb_ok wb" "length (buf wb) + length (concat (map escape s)) \<le> 2 ^ 31"
  shows "appends A wb (concat (map escape s)) (quote_loop A s wb)"
  using assms
proof (induction s arbitrary: wb)
  case (Cons c s)
  have one: "appends A wb (escape c) (case escape c of [c] \<Rightarrow> pai_json_wb_putc A wb c | e \<Rightarrow> pai_json_wb_puts A wb e)"
  proof (cases "escape c")
    case Nil
    then show ?thesis using escape_ne by simp
  next
    case e: (Cons a as)
    show ?thesis using putc_appends [of wb A a] putn_appends [of wb "escape c" A] Cons.prems e
      by (cases as) (auto simp: pai_json_wb_puts_def)
  qed
  show ?case unfolding quote_loop.simps list.map concat.simps
    by (rule appends_bind [OF one Cons.IH]) (use Cons.prems in auto)
qed simp

lemma quote_appends:
  assumes "wb_ok wb" "length (buf wb) + length (quoted s) \<le> 2 ^ 31" shows "appends A wb (quoted s) (pai_json_quote A wb s)"
proof -
  have "appends A wb ([0x22] @ concat (map escape s) @ [0x22]) (pai_json_quote A wb s)"
    unfolding pai_json_quote_def
    by (intro appends_bind putc_appends quote_loop_appends) (use assms in \<open>auto simp: quoted_def\<close>)
  then show ?thesis by (simp add: quoted_def)
qed


section \<open>Trees\<close>

lemma c_string_at:
  assumes "str_at d i u" shows "c_string d (nat i) = Some (cut u)"
proof -
  have "drop (nat i) (strs d) = (u @ [0]) @ drop (Suc (length u)) (drop (nat i) (strs d))"
    using assms append_take_drop_id [of "Suc (length u)" "drop (nat i) (strs d)"] by (simp add: str_at_def del: drop_drop)
  then obtain r where r: "drop (nat i) (strs d) = u @ 0 # r" by auto
  have "takeWhile (\<lambda>c. c \<noteq> 0) (u @ 0 # r) = takeWhile (\<lambda>c. c \<noteq> 0) u"
    by (cases "0 \<in> set u") (auto simp: takeWhile_append takeWhile_eq_all_conv [THEN iffD2])
  then show ?thesis using r by (simp add: c_string_def cut_def)
qed

lemma put_c_string_appends:
  assumes "str_at d i u" "wb_ok wb" "length (buf wb) + length (quoted (cut u)) \<le> 2 ^ 31"
  shows "appends A wb (quoted (cut u)) (put_c_string A d wb i)"
  using c_string_at [OF assms(1)] quote_appends [OF assms(2,3)] assms(1) by (simp add: put_c_string_def str_at_def)

text \<open>The texts of a chain of siblings, and of one with its separator.\<close>

definition child_text :: "jops \<Rightarrow> bytes option \<times> json \<Rightarrow> bytes" where
  "child_text F x = (case fst x of None \<Rightarrow> [] | Some k \<Rightarrow> quoted (cut k) @ [0x3A]) @ json_text F (snd x)"

lemma commas_Cons: "commas (t # ts) = t @ concat (map ((#) 0x2C) ts)"
  by (induction ts arbitrary: t) (auto simp: neq_Nil_conv)

definition chain_text :: "jops \<Rightarrow> nat \<Rightarrow> (bytes option \<times> json) list \<Rightarrow> bytes" where
  "chain_text F n xs = (if n = 0 then commas (map (child_text F) xs) else concat (map (\<lambda>x. 0x2C # child_text F x) xs))"

lemma chain_text_Cons: "chain_text F n (x # xs) = (if n = 0 then [] else [0x2C]) @ child_text F x @ chain_text F (Suc n) xs"
  by (auto simp: chain_text_def commas_Cons comp_def)

lemma text_containers:
  "json_text F (JArray js) = 0x5B # chain_text F 0 (map (Pair None) js) @ [0x5D]"
  "json_text F (JObject ms) = 0x7B # chain_text F 0 (map (\<lambda>(k, j). (Some k, j)) ms) @ [0x7D]"
proof -
  have "child_text F \<circ> Pair None = json_text F" by (auto simp: child_text_def)
  then show "json_text F (JArray js) = 0x5B # chain_text F 0 (map (Pair None) js) @ [0x5D]" by (simp add: chain_text_def)
  have "child_text F \<circ> (\<lambda>(k, j). (Some k, j)) = (\<lambda>(k, j). quoted (cut k) @ 0x3A # json_text F j)"
    by (auto simp: child_text_def)
  then show "json_text F (JObject ms) = 0x7B # chain_text F 0 (map (\<lambda>(k, j). (Some k, j)) ms) @ [0x7D]" by (simp add: chain_text_def)
qed

definition keyed :: "bool \<Rightarrow> (bytes option \<times> json) list \<Rightarrow> bool" where
  "keyed obj xs \<longleftrightarrow> (\<forall>x \<in> set xs. (fst x \<noteq> None) = obj)"

lemma key_nonneg: "key_ok d c (Some k) \<Longrightarrow> str_at d (key (nodes d ! c)) k"
  by (simp add: key_ok_def)

text \<open>One turn of the loop over children.\<close>

lemma child_appends:
  assumes "rep d c mid j" "key_ok d c k" "(k \<noteq> None) = obj" "wb_ok wb"
    "length (buf wb) + length ((if n = 0 then [] else [0x2C]) @ child_text F (k, j) @ rest) \<le> 2 ^ 31"
    and S: "\<And>wb. wb_ok wb \<Longrightarrow> length (buf wb) + length (json_text F j) \<le> 2 ^ 31 \<Longrightarrow> appends A wb (json_text F j) (serialize F A d f (int c) wb)"
    and C: "\<And>wb. wb_ok wb \<Longrightarrow> length (buf wb) + length rest \<le> 2 ^ 31 \<Longrightarrow> appends A wb rest (children F A d f obj (Suc n) (next_node (nodes d ! c)) wb)"
  shows "appends A wb ((if n = 0 then [] else [0x2C]) @ child_text F (k, j) @ rest) (children F A d (Suc f) obj n (int c) wb)"
proof -
  have v: "valid_node d (int c)" using rep_bounds(1) [OF assms(1)] by (simp add: valid_node_def)
  let ?sep = "if n = 0 then [] else [0x2C]" and ?key = "case k of None \<Rightarrow> [] | Some k \<Rightarrow> quoted (cut k) @ [0x3A]"
  have t: "?sep @ child_text F (k, j) @ rest = ?sep @ ?key @ json_text F j @ rest" by (simp add: child_text_def)
  have sep: "appends A wb ?sep (if n \<noteq> 0 then pai_json_wb_putc A wb 0x2C else jret wb ())"
    using assms(4,5) putc_appends [of wb A "0x2C"] by auto
  have ky: "appends A wb' ?key (if obj then jbind (put_c_string A d wb' (key (nodes d ! nat (int c)))) (\<lambda>wb _. pai_json_wb_putc A wb 0x3A) else jret wb' ())"
    if "wb_ok wb'" "length (buf wb') + length ?key \<le> 2 ^ 31" for wb'
  proof (cases k)
    case None
    then show ?thesis using that assms(3) by simp
  next
    case (Some u)
    have "appends A wb' (quoted (cut u) @ [0x3A]) (jbind (put_c_string A d wb' (key (nodes d ! c))) (\<lambda>wb _. pai_json_wb_putc A wb 0x3A))"
      by (intro appends_bind put_c_string_appends putc_appends) (use that Some assms(2) in \<open>auto simp: key_ok_def\<close>)
    then show ?thesis using Some assms(3) by simp
  qed
  have e: "children F A d (Suc f) obj n (int c) wb =
      jbind (if n \<noteq> 0 then pai_json_wb_putc A wb 0x2C else jret wb ())
        (\<lambda>wb _. jbind (if obj then jbind (put_c_string A d wb (key (nodes d ! nat (int c)))) (\<lambda>wb _. pai_json_wb_putc A wb 0x3A) else jret wb ())
           (\<lambda>wb _. jbind (serialize F A d f (int c) wb) (\<lambda>wb _. children F A d f obj (Suc n) (next_node (nodes d ! c)) wb)))"
    using v by simp
  have l: "length (buf wb) + length (?sep @ ?key @ json_text F j @ rest) \<le> 2 ^ 31" using assms(5) unfolding t .
  show ?thesis unfolding t e
  proof (rule appends_bind [OF sep])
    fix wb1 assume w1: "wb_ok wb1" "buf wb1 = buf wb @ ?sep"
    show "appends A wb1 (?key @ json_text F j @ rest)
       (jbind (if obj then jbind (put_c_string A d wb1 (key (nodes d ! nat (int c)))) (\<lambda>wb _. pai_json_wb_putc A wb 0x3A) else jret wb1 ())
           (\<lambda>wb _. jbind (serialize F A d f (int c) wb) (\<lambda>wb _. children F A d f obj (Suc n) (next_node (nodes d ! c)) wb)))"
    proof (rule appends_bind [OF ky])
      show "wb_ok wb1" by (rule w1)
      show "length (buf wb1) + length ?key \<le> 2 ^ 31" using l w1 by simp
      fix wb2 assume w2: "wb_ok wb2" "buf wb2 = buf wb1 @ ?key"
      show "appends A wb2 (json_text F j @ rest) (jbind (serialize F A d f (int c) wb2) (\<lambda>wb _. children F A d f obj (Suc n) (next_node (nodes d ! c)) wb))"
        by (intro appends_bind S C) (use l w1 w2 in auto)
    qed
  qed
qed


lemma serialize_container:
  assumes "i < length (nodes d)" "ntype (nodes d ! i) = (if obj then PAI_JSON_OBJECT else PAI_JSON_ARRAY)"
    "first_child (nodes d ! i) = (if xs = [] then - 1 else int (Suc i))" "wb_ok wb"
    "length (buf wb) + length ((if obj then 0x7B else 0x5B) # chain_text F 0 xs @ [if obj then 0x7D else 0x5D]) \<le> 2 ^ 31"
    and C: "\<And>wb. wb_ok wb \<Longrightarrow> length (buf wb) + length (chain_text F 0 xs) \<le> 2 ^ 31 \<Longrightarrow>
       appends A wb (chain_text F 0 xs) (children F A d f obj 0 (if xs = [] then - 1 else int (Suc i)) wb)"
  shows "appends A wb ((if obj then 0x7B else 0x5B) # chain_text F 0 xs @ [if obj then 0x7D else 0x5D]) (serialize F A d (Suc f) (int i) wb)"
proof -
  have e: "serialize F A d (Suc f) (int i) wb = jbind (pai_json_wb_putc A wb (if obj then 0x7B else 0x5B))
      (\<lambda>wb _. jbind (children F A d f obj 0 (if xs = [] then - 1 else int (Suc i)) wb) (\<lambda>wb _. pai_json_wb_putc A wb (if obj then 0x7D else 0x5D)))"
    using assms(1-3) by (simp add: valid_node_def pai_json_type_def del: children.simps)
  have "appends A wb ([if obj then 0x7B else 0x5B] @ chain_text F 0 xs @ [if obj then 0x7D else 0x5D]) (serialize F A d (Suc f) (int i) wb)"
    unfolding e by (intro appends_bind putc_appends C) (use assms(4,5) in auto)
  then show ?thesis by simp
qed

lemma serialize_appends:
  "rep d i hi j \<Longrightarrow> 2 * (hi - i) \<le> f \<Longrightarrow> wb_ok wb \<Longrightarrow> length (buf wb) + length (json_text F j) \<le> 2 ^ 31 \<Longrightarrow>
     appends A wb (json_text F j) (serialize F A d f (int i) wb)"
  "reps d c hi xs \<Longrightarrow> keyed obj xs \<Longrightarrow> 2 * (hi - c) + 1 \<le> f \<Longrightarrow> wb_ok wb \<Longrightarrow> length (buf wb) + length (chain_text F n xs) \<le> 2 ^ 31 \<Longrightarrow>
     appends A wb (chain_text F n xs) (children F A d f obj n (if xs = [] then - 1 else int c) wb)"
proof (induction arbitrary: f wb and obj f wb n rule: rep_reps.inducts)
  case (rep_null i)
  then show ?case using putn_appends [of wb "[0x6E, 0x75, 0x6C, 0x6C]" A] by (cases f) (auto simp: valid_node_def pai_json_type_def pai_json_wb_puts_def)
next
  case (rep_bool i b)
  then show ?case using putn_appends [of wb "json_text F (JBool b)" A]
    by (cases f) (auto simp: valid_node_def pai_json_type_def pai_json_bool_def pai_json_wb_puts_def)
next
  case (rep_number i v)
  then show ?case using putf_appends [of wb "jfmt F v" A]
    by (cases f) (auto simp: valid_node_def pai_json_type_def pai_json_num_def pai_json_put_number_def)
next
  case (rep_string i u)
  have "0 \<le> str (nodes d ! i)" using rep_string(3) by (simp add: str_at_def)
  then show ?case using put_c_string_appends [OF rep_string(3), of wb A] rep_string
    by (cases f) (auto simp: valid_node_def pai_json_type_def pai_json_str_def)
next
  case (rep_array i js hi)
  obtain f' where f: "f = Suc f'" using rep_array.prems(1) rep_bounds(2) [OF rep_array(4)] rep_array(1) by (cases f) auto
  have b: "Suc i \<le> hi" using rep_bounds(2) [OF rep_array(4)] by simp
  let ?xs = "map (Pair None) js"
  have k: "keyed False ?xs" by (auto simp: keyed_def)
  have "2 * (hi - Suc i) + 1 \<le> f'" using rep_array.prems(1) f b by simp
  then have ch: "appends A wb (chain_text F 0 ?xs) (children F A d f' False 0 (if ?xs = [] then - 1 else int (Suc i)) wb)"
    if "wb_ok wb" "length (buf wb) + length (chain_text F 0 ?xs) \<le> 2 ^ 31" for wb
    using rep_array(5) [OF k _ that] by simp
  have l: "length (buf wb) + length ((if False then 0x7B else 0x5B) # chain_text F 0 ?xs @ [if False then 0x7D else 0x5D]) \<le> 2 ^ 31"
    using rep_array.prems(3) unfolding text_containers by simp
  from serialize_container [OF rep_array(1) _ _ rep_array.prems(2) l ch]
  show ?case using rep_array(2,3) unfolding f text_containers by (simp del: children.simps serialize.simps)
next
  case (rep_object i ms hi)
  obtain f' where f: "f = Suc f'" using rep_object.prems(1) rep_bounds(2) [OF rep_object(4)] rep_object(1) by (cases f) auto
  have b: "Suc i \<le> hi" using rep_bounds(2) [OF rep_object(4)] by simp
  let ?xs = "map (\<lambda>(k, j). (Some k, j)) ms"
  have k: "keyed True ?xs" by (auto simp: keyed_def)
  have "2 * (hi - Suc i) + 1 \<le> f'" using rep_object.prems(1) f b by simp
  then have ch: "appends A wb (chain_text F 0 ?xs) (children F A d f' True 0 (if ?xs = [] then - 1 else int (Suc i)) wb)"
    if "wb_ok wb" "length (buf wb) + length (chain_text F 0 ?xs) \<le> 2 ^ 31" for wb
    using rep_object(5) [OF k _ that] by simp
  have l: "length (buf wb) + length ((if True then 0x7B else 0x5B) # chain_text F 0 ?xs @ [if True then 0x7D else 0x5D]) \<le> 2 ^ 31"
    using rep_object.prems(3) unfolding text_containers by simp
  from serialize_container [OF rep_object(1) _ _ rep_object.prems(2) l ch]
  show ?case using rep_object(2,3) unfolding f text_containers by (simp del: children.simps serialize.simps)
next
  case (reps_nil c)
  then show ?case by (cases f) (auto simp: chain_text_def)
next
  case (reps_last c hi j k)
  obtain f' where f: "f = Suc f'" using reps_last.prems by (cases f) auto
  have "f' \<noteq> 0" using reps_last.prems rep_bounds(1) [OF reps_last(1)] f by auto
  then obtain f'' where f': "f' = Suc f''" by (cases f') auto
  have t: "chain_text F n [(k, j)] = (if n = 0 then [] else [0x2C]) @ child_text F (k, j) @ []" by (simp add: chain_text_Cons) (simp add: chain_text_def)
  have nx: "appends A wb [] (children F A d f' obj (Suc n) (next_node (nodes d ! c)) wb)" if "wb_ok wb" for wb
    using that reps_last(4) f' by simp
  have "appends A wb ((if n = 0 then [] else [0x2C]) @ child_text F (k, j) @ []) (children F A d (Suc f') obj n (int c) wb)"
    by (rule child_appends [OF reps_last(1,3)]) (use reps_last(2) reps_last.prems nx f t in \<open>auto simp: keyed_def simp del: children.simps serialize.simps\<close>)
  then show ?case unfolding t f by simp
next
  case (reps_more c mid j k hi x xs)
  obtain f' where f: "f = Suc f'" using reps_more.prems by (cases f) auto
  have b: "c < mid" "mid < hi" using rep_bounds(1) [OF reps_more(1)] rep_bounds(2) [OF reps_more(5)] by auto
  note t = chain_text_Cons [of F n "(k, j)" "x # xs"]
  have nx: "appends A wb (chain_text F (Suc n) (x # xs)) (children F A d f' obj (Suc n) (next_node (nodes d ! c)) wb)"
    if "wb_ok wb" "length (buf wb) + length (chain_text F (Suc n) (x # xs)) \<le> 2 ^ 31" for wb
    using reps_more(6) [of obj f' wb "Suc n"] that reps_more(4) reps_more.prems f b by (simp add: keyed_def del: children.simps)
  have "appends A wb ((if n = 0 then [] else [0x2C]) @ child_text F (k, j) @ chain_text F (Suc n) (x # xs)) (children F A d (Suc f') obj n (int c) wb)"
    by (rule child_appends [OF reps_more(1,3)]) (use reps_more(2) reps_more.prems nx f t b in \<open>auto simp: keyed_def simp del: children.simps serialize.simps\<close>)
  then show ?case unfolding t f by simp
qed


section \<open>The text is in the grammar\<close>

text \<open>What \<open>%.7g\<close> prints of a finite double: an optional minus sign, digits without a leading zero, an optional
  fraction, an optional exponent. The parser takes exponents up to 300. Nothing is said about
  the value.\<close>

definition num_text :: "bytes \<Rightarrow> bool" where
  "num_text t \<longleftrightarrow>
     (\<exists>m ds fr ex. t = m @ ds @ fr @ ex \<and> (m = [] \<or> m = [0x2D]) \<and> gint ds \<and>
        (fr = [] \<or> (\<exists>fd. fr = 0x2E # fd \<and> all_digits fd)) \<and>
        (ex = [] \<or> (\<exists>e sg xs. ex = e # sg @ xs \<and> (e = 0x65 \<or> e = 0x45) \<and> (sg = [] \<or> sg = [0x2B] \<or> sg = [0x2D]) \<and>
           all_digits xs \<and> foldl (\<lambda>e c. e * 10 + digit c) 0 xs \<le> 300)))"

lemma foldl_exp_ge: "e \<le> foldl (\<lambda>e c. e * 10 + digit c) e xs"
proof (induction xs arbitrary: e)
  case (Cons x xs)
  show ?case using Cons.IH [of "e * 10 + digit x"] by simp
qed simp

lemma exp_digits_value:
  "e \<le> 300 \<Longrightarrow> exp_digits e xs = (let n = foldl (\<lambda>e c. e * 10 + digit c) e xs in if n \<le> 300 then Some n else None)"
proof (induction xs arbitrary: e)
  case (Cons x xs)
  show ?case
  proof (cases "e * 10 + digit x \<le> 300")
    case True
    then show ?thesis using Cons.IH [of "e * 10 + digit x"] by (simp add: Let_def)
  next
    case False
    then show ?thesis using foldl_exp_ge [of "e * 10 + digit x" xs] by (simp add: Let_def)
  qed
qed simp

lemma num_text_read:
  assumes "num_text t" shows "\<exists>w. gnum F t w"
proof -
  from assms obtain m ds fr ex where t: "t = m @ ds @ fr @ ex" "m = [] \<or> m = [0x2D]" "gint ds"
    and fr: "fr = [] \<or> (\<exists>fd. fr = 0x2E # fd \<and> all_digits fd)"
    and ex: "ex = [] \<or> (\<exists>e sg xs. ex = e # sg @ xs \<and> (e = 0x65 \<or> e = 0x45) \<and> (sg = [] \<or> sg = [0x2B] \<or> sg = [0x2D]) \<and>
      all_digits xs \<and> foldl (\<lambda>e c. e * 10 + digit c) 0 xs \<le> 300)"
    unfolding num_text_def by blast
  have e: "\<exists>w. gexp F v ex w" for v
    using ex
  proof
    assume "ex = []"
    then show ?thesis by (simp add: gexp_def)
  next
    assume "\<exists>e sg xs. ex = e # sg @ xs \<and> (e = 0x65 \<or> e = 0x45) \<and> (sg = [] \<or> sg = [0x2B] \<or> sg = [0x2D]) \<and>
      all_digits xs \<and> foldl (\<lambda>e c. e * 10 + digit c) 0 xs \<le> 300"
    then obtain e sg xs where x: "ex = e # sg @ xs" "e = 0x65 \<or> e = 0x45" "sg = [] \<or> sg = [0x2B] \<or> sg = [0x2D]"
      "all_digits xs" "foldl (\<lambda>e c. e * 10 + digit c) 0 xs \<le> 300" by blast
    then have "exp_digits 0 xs = Some (foldl (\<lambda>e c. e * 10 + digit c) 0 xs)" by (simp add: exp_digits_value)
    with x show ?thesis unfolding gexp_def by blast
  qed
  have "\<exists>w. gfrac F v (fr @ ex) w" for v
    using fr e by (fastforce simp: gfrac_def)
  with t show ?thesis unfolding gnum_def by blast
qed

lemma gnum_unique: "gnum F t v \<Longrightarrow> gnum F t w \<Longrightarrow> v = w"
  using parse_number_succ [of F t v 0 t "[]"] parse_number_succ [of F t w 0 t "[]"] by (simp add: follow_def)

text \<open>The numbers of a value, and the value with each number replaced.\<close>

fun numbers :: "json \<Rightarrow> u64 set" where
  "numbers (JNumber v) = {v}"
| "numbers (JArray js) = (\<Union>j \<in> set js. numbers j)"
| "numbers (JObject ms) = (\<Union>(k, j) \<in> set ms. numbers j)"
| "numbers _ = {}"

fun map_numbers :: "(u64 \<Rightarrow> u64) \<Rightarrow> json \<Rightarrow> json" where
  "map_numbers f (JNumber v) = JNumber (f v)"
| "map_numbers f (JArray js) = JArray (map (map_numbers f) js)"
| "map_numbers f (JObject ms) = JObject (map (\<lambda>(k, j). (k, map_numbers f j)) ms)"
| "map_numbers f j = j"

lemma map_numbers_id: "(\<And>v. v \<in> numbers j \<Longrightarrow> f v = v) \<Longrightarrow> map_numbers f j = j"
  by (induction f j rule: map_numbers.induct) (force intro!: map_idI)+

lemma map_numbers_count: "node_count (map_numbers f j) = node_count j"
  by (induction f j rule: map_numbers.induct)
    (auto simp: comp_def case_prod_unfold intro!: arg_cong [of _ _ sum_list] map_cong)

fun json_ok :: "jops \<Rightarrow> nat \<Rightarrow> json \<Rightarrow> bool" where
  "json_ok F n (JNumber v) \<longleftrightarrow> n \<le> 32 \<and> num_text (jfmt F v)"
| "json_ok F n (JString u) \<longleftrightarrow> n \<le> 32 \<and> 0 \<notin> set u \<and> length u \<le> 2 ^ 20"
| "json_ok F n (JArray js) \<longleftrightarrow> n \<le> 32 \<and> (\<forall>j \<in> set js. json_ok F (Suc n) j)"
| "json_ok F n (JObject ms) \<longleftrightarrow> n \<le> 32 \<and> (\<forall>(k, j) \<in> set ms. 0 \<notin> set k \<and> length k \<le> 2 ^ 20 \<and> json_ok F (Suc n) j)"
| "json_ok F n _ \<longleftrightarrow> n \<le> 32"

lemma blank_nil [simp]: "blank []"
  by (simp add: blank_def)

text \<open>The 32 control characters, one by one.\<close>

definition control_ok :: "u8 \<Rightarrow> bool" where
  "control_ok c \<longleftrightarrow> hex4 [0x30, 0x30, hex_digit (drop_bit 4 c), hex_digit (c AND 0x0F)] = Some (ucast c) \<and> utf8_encode (ucast c) = [c] \<and>
     \<not> high_surrogate (ucast c) \<and> \<not> low_surrogate (ucast c)"

lemma controls_ok: "list_all (\<lambda>n. control_ok (of_nat n)) [0 ..< 32]"
  by code_simp

lemma control_escape:
  assumes "c < 0x20"
  shows "hex4 [0x30, 0x30, hex_digit (drop_bit 4 c), hex_digit (c AND 0x0F)] = Some (ucast c)" "utf8_encode (ucast c) = [c]"
    "\<not> high_surrogate (ucast c)" "\<not> low_surrogate (ucast c)"
proof -
  have "unat c < 32" using assms by (simp add: word_less_nat_alt)
  then have "unat c \<in> set [0 ..< 32]" by simp
  with controls_ok have "control_ok (of_nat (unat c))" unfolding list_all_iff by (rule bspec)
  then have "control_ok c" by simp
  then show "hex4 [0x30, 0x30, hex_digit (drop_bit 4 c), hex_digit (c AND 0x0F)] = Some (ucast c)" "utf8_encode (ucast c) = [c]"
    "\<not> high_surrogate (ucast c)" "\<not> low_surrogate (ucast c)" unfolding control_ok_def by blast+
qed

lemma gstr_escape:
  assumes "gstr t u" shows "gstr (escape c @ t) (c # u)"
proof -
  let ?simple = "c = 0x22 \<or> c = 0x5C \<or> c = 0x08 \<or> c = 0x0C \<or> c = 0x0A \<or> c = 0x0D \<or> c = 0x09"
  consider ?simple | "\<not> ?simple" "c < 0x20" | "\<not> ?simple" "0x20 \<le> c" by (meson linorder_not_less)
  then show ?thesis
  proof cases
    case 1
    then show ?thesis using gstr_simple [OF _ assms] by (auto simp: escape_def simple_escape_def)
  next
    case 2
    have "escape c = [0x5C, 0x75, 0x30, 0x30, hex_digit (drop_bit 4 c), hex_digit (c AND 0x0F)]" using 2 by (simp add: escape_def)
    then show ?thesis
      using gstr_unicode [OF _ control_escape(1) [OF 2(2)] control_escape(3,4) [OF 2(2)] assms] control_escape(2) [OF 2(2)] by simp
  next
    case 3
    then have "escape c = [c]" using leD [OF 3(2)] by (simp add: escape_def)
    then show ?thesis using gstr_plain [OF _ _ 3(2) assms] 3(1) by simp
  qed
qed

lemma gstr_quoted: "gstr (concat (map escape u) @ [0x22]) u"
  by (induction u) (auto intro: gstr_end gstr_escape)

lemma cut_id: "0 \<notin> set u \<Longrightarrow> cut u = u"
  by (auto simp: cut_def takeWhile_eq_all_conv)

lemma gelems_commas:
  assumes "js \<noteq> []" "\<forall>j \<in> set js. gval F (Suc n) (json_text F j) (g j)"
  shows "gelems F n (commas (map (json_text F) js) @ [0x5D]) (map g js)"
  using assms
proof (induction js rule: list_nonempty_induct)
  case (single j)
  then show ?case using gelems_last [of F n "json_text F j" "g j" "[]"] by simp
next
  case (cons j js)
  then show ?case using gelems_more [of F n "json_text F j" "g j" "[]" _ "map g js"] by (cases js) auto
qed

lemma gmembers_commas:
  assumes "ms \<noteq> []" "\<forall>(k, j) \<in> set ms. 0 \<notin> set k \<and> length k \<le> 2 ^ 20 \<and> gval F (Suc n) (json_text F j) (g j)"
  shows "gmembers F n (commas (map (\<lambda>(k, j). quoted (cut k) @ 0x3A # json_text F j) ms) @ [0x7D]) (map (\<lambda>(k, j). (k, g j)) ms)"
  using assms
proof (induction ms rule: list_nonempty_induct)
  case (single x)
  then show ?case
    using gmembers_last [OF gstr_quoted, of "fst x" "[]" F n "json_text F (snd x)" "g (snd x)" "[]"] by (cases x) (simp add: quoted_def cut_id)
next
  case (cons x ms)
  then have g: "gmembers F n (commas (map (\<lambda>(k, j). quoted (cut k) @ 0x3A # json_text F j) ms) @ [0x7D]) (map (\<lambda>(k, j). (k, g j)) ms)" by simp
  have c: "commas (t # map f ms) = t @ 0x2C # commas (map f ms)" for t :: bytes and f using cons(1) by (cases ms) auto
  show ?case
    using gmembers_more [OF gstr_quoted _ _ _ _ g, of "fst x" "[]" "json_text F (snd x)" "g (snd x)" "[]"] cons(3)
    by (cases x) (simp add: quoted_def cut_id c)
qed

lemma text_gval:
  "json_ok F n j \<Longrightarrow> (\<And>v. v \<in> numbers j \<Longrightarrow> gnum F (jfmt F v) (f v)) \<Longrightarrow> gval F n (json_text F j) (map_numbers f j)"
proof (induction F n j rule: json_ok.induct)
  case (1 F n v)
  then show ?case using gval_number [of "[]" n F "jfmt F v" "f v"] by simp
next
  case (2 F n u)
  then show ?case using gval_string [of "[]" n, OF _ _ gstr_quoted] by (simp add: quoted_def cut_id)
next
  case (3 F n js)
  show ?case
  proof (cases "js = []")
    case True
    then show ?thesis using 3 gval_empty_array [of "[]" n "[]" F] by simp
  next
    case False
    have "\<forall>j \<in> set js. gval F (Suc n) (json_text F j) (map_numbers f j)" using 3 by auto
    then show ?thesis using gval_array [of "[]" n "[]" F, OF _ _ _ gelems_commas [OF False]] 3 by simp
  qed
next
  case (4 F n ms)
  show ?case
  proof (cases "ms = []")
    case True
    then show ?thesis using 4 gval_empty_object [of "[]" n "[]" F] by simp
  next
    case False
    have "\<forall>(k, j) \<in> set ms. 0 \<notin> set k \<and> length k \<le> 2 ^ 20 \<and> gval F (Suc n) (json_text F j) (map_numbers f j)"
      using 4 by fastforce
    then show ?thesis using gval_object [of "[]" n "[]" F, OF _ _ _ gmembers_commas [OF False]] 4 by simp
  qed
qed (use gval_null [of "[]"] gval_true [of "[]"] gval_false [of "[]"] in auto)

lemma json_ok_numbers: "json_ok F n j \<Longrightarrow> v \<in> numbers j \<Longrightarrow> num_text (jfmt F v)"
  by (induction F n j rule: json_ok.induct) fastforce+

text \<open>What re-reading makes of the numbers of a value.\<close>

lemma reread_numbers:
  assumes "json_ok F n j" shows "\<exists>f. \<forall>v \<in> numbers j. gnum F (jfmt F v) (f v)"
  using json_ok_numbers [OF assms] num_text_read by (intro bchoice) blast

lemma rep_count:
  "rep d i hi j \<Longrightarrow> hi = i + node_count j"
  "reps d c hi xs \<Longrightarrow> hi = c + sum_list (map (\<lambda>x. node_count (snd x)) xs)"
  by (induction rule: rep_reps.inducts) (auto simp: comp_def case_prod_unfold)


text \<open>C22. Serializing and parsing again. For the document of any value whose strings and keys have no NUL and at most
  $2^{20}$ bytes, which is nested at most 33 deep and whose numbers \<open>%.7g\<close> prints as decimal numbers (finite ones, with an
  exponent of at most 300), when its text is below $2^{31}$ bytes and memory is available: the writer produces the text of the value, the parser accepts it,
  and the document it builds is the same value with the same shape, strings, keys and order, in which each number is
  the value that the grammar gives to its printed text. A value all of whose numbers survive their own seven digits
  comes back unchanged. Nothing is assumed of what \<open>%.7g\<close> prints beyond its being a decimal number.\<close>

theorem json_roundtrip:
  assumes "\<forall>k. A k" "doc_ok d" "tree_of d j" "json_ok F 0 j" "length (json_text F j) < 2 ^ 31"
  shows "\<exists>wb d' f. pai_json_serialize F A d (pai_json_root d) pai_json_wb_init = Returns (wb, Inr ()) \<and> buf wb = json_text F j \<and>
     pai_json_parse F A (buf wb) = Returns (d', Inr ()) \<and> tree_of d' (map_numbers f j) \<and>
     (\<forall>v \<in> numbers j. gnum F (jfmt F v) (f v)) \<and>
     ((\<forall>v \<in> numbers j. gnum F (jfmt F v) v) \<longrightarrow> tree_of d' j)"
proof -
  obtain f where f: "\<forall>v \<in> numbers j. gnum F (jfmt F v) (f v)" using reread_numbers [OF assms(4)] by blast
  have r: "root d = 0" "rep d 0 (length (nodes d)) j" using assms(3) by (simp_all add: tree_of_def)
  have "appends A pai_json_wb_init (json_text F j) (serialize F A d (2 * length (nodes d) + 2) (int 0) pai_json_wb_init)"
    by (rule serialize_appends(1) [OF r(2)]) (use assms(5) in \<open>auto simp: wb_ok_def pai_json_wb_init_def\<close>)
  then obtain wb where wb: "pai_json_serialize F A d (root d) pai_json_wb_init = Returns (wb, Inr ())" "buf wb = json_text F j"
    using assms(1) r(1) by (auto simp: appends_def runs_def pai_json_serialize_def pai_json_wb_init_def)
  have g: "gdoc F (json_text F j) (map_numbers f j)"
    using text_gval [OF assms(4), of f] f unfolding gdoc_def by (intro exI [of _ "json_text F j"] exI [of _ "[]"]) simp
  have n: "node_count (map_numbers f j) \<le> 8192"
    using rep_count(1) [OF r(2)] assms(2) by (simp add: doc_ok_def map_numbers_count)
  obtain d' where d': "pai_json_parse F A (json_text F j) = Returns (d', Inr ())" "tree_of d' (map_numbers f j)"
    using parse_succ [OF assms(1,5) g n] by (auto simp: runs_succ jret_def)
  have "(\<forall>v \<in> numbers j. gnum F (jfmt F v) v) \<longrightarrow> map_numbers f j = j"
    using f by (blast intro: map_numbers_id gnum_unique)
  with wb d' f show ?thesis unfolding pai_json_root_def by metis
qed

text \<open>The bound on the exponent is needed: \<open>%.7g\<close> prints the double 1e308 as \<open>1e+308\<close>, and the parser refuses it.\<close>

lemma json_large_exponent_refused:
  "parse_number F [0x31, 0x65, 0x2B, 0x33, 0x30, 0x38] 0 = Inl PAI_ERR_PROTOCOL"
  by (simp add: parse_number_def parse_fraction_def parse_exponent_def at_def digits_at_def is_digit_def digit_def Let_def)

text \<open>A printer that loses a digit: 7 is printed as 6.\<close>

definition even_jops :: jops where
  "even_jops = demo_jops\<lparr>jfmt := (\<lambda>v. [if v = 7 then 0x36 else 0x30])\<rparr>"

definition demo_tree :: json where
  "demo_tree = JObject [([0x61], JArray [JNumber 7, JBool True])]"

lemma even_jops_text [simp]: "jfmt even_jops v = [if v = 7 then 0x36 else 0x30]"
  by (simp add: even_jops_def)

lemma digit_num_text: "is_digit c \<Longrightarrow> num_text [c]"
  unfolding num_text_def
  by (intro exI [of _ "[]"] exI [of _ "[c]"]) (auto simp: gint_def all_digits_def)

lemma digit_gnum: "gnum even_jops [0x36] w \<longleftrightarrow> w = 6"
proof
  have "gnum even_jops [0x36] 6"
    unfolding gnum_def by (intro exI [of _ "[]"] exI [of _ "[0x36]"] exI [of _ 6])
      (simp add: gint_def all_digits_def is_digit_def gfrac_def gexp_def int_digits_def even_jops_def demo_jops_def digit_def)
  then show "gnum even_jops [0x36] w \<Longrightarrow> w = 6" "w = 6 \<Longrightarrow> gnum even_jops [0x36] w"
    by (blast intro: gnum_unique)+
qed

lemma demo_tree_ok: "json_ok even_jops 0 demo_tree"
  by (simp add: demo_tree_def digit_num_text is_digit_def)

lemma demo_tree_short: "length (json_text even_jops demo_tree) < 2 ^ 31"
  by (simp add: demo_tree_def quoted_def cut_def escape_def)

text \<open>A document of it, by parsing a text with 7 in it.\<close>

definition seven_jops :: jops where
  "seven_jops = even_jops\<lparr>jfmt := (\<lambda>_. [0x37])\<rparr>"

lemma demo_tree_doc:
  obtains d where "doc_ok d" "tree_of d demo_tree"
proof -
  have g: "gnum seven_jops [0x37] 7"
    unfolding gnum_def by (intro exI [of _ "[]"] exI [of _ "[0x37]"] exI [of _ 7])
      (simp add: gint_def all_digits_def is_digit_def gfrac_def gexp_def int_digits_def seven_jops_def even_jops_def
        demo_jops_def digit_def)
  have ok: "json_ok seven_jops 0 demo_tree"
    by (simp add: demo_tree_def digit_num_text is_digit_def seven_jops_def)
  have "map_numbers (\<lambda>v. v) demo_tree = demo_tree" by (simp add: map_numbers_id)
  then have "gdoc seven_jops (json_text seven_jops demo_tree) demo_tree"
    using text_gval [OF ok, of "\<lambda>v. v"] g unfolding gdoc_def
    by (intro exI [of _ "json_text seven_jops demo_tree"] exI [of _ "[]"]) (simp add: demo_tree_def seven_jops_def)
  from parse_succ [OF _ _ this, of "\<lambda>_. True"] that show thesis
    by (auto simp: runs_succ demo_tree_def quoted_def cut_def escape_def seven_jops_def)
qed

theorem json_roundtrip_witness:
  "\<exists>d wb d'. tree_of d demo_tree \<and>
     pai_json_serialize even_jops (\<lambda>_. True) d (pai_json_root d) pai_json_wb_init = Returns (wb, Inr ()) \<and>
     pai_json_parse even_jops (\<lambda>_. True) (buf wb) = Returns (d', Inr ()) \<and>
     tree_of d' (JObject [([0x61], JArray [JNumber 6, JBool True])])"
proof -
  obtain d where d: "doc_ok d" "tree_of d demo_tree" using demo_tree_doc .
  from json_roundtrip [OF _ d demo_tree_ok demo_tree_short, of "\<lambda>_. True"]
  obtain wb d' f where "pai_json_serialize even_jops (\<lambda>_. True) d (pai_json_root d) pai_json_wb_init = Returns (wb, Inr ())"
    "pai_json_parse even_jops (\<lambda>_. True) (buf wb) = Returns (d', Inr ())" "tree_of d' (map_numbers f demo_tree)"
    and "\<forall>v \<in> numbers demo_tree. gnum even_jops (jfmt even_jops v) (f v)"
    by blast
  moreover from this(4) have "f 7 = 6" by (simp add: demo_tree_def digit_gnum)
  ultimately show ?thesis using d(2) by (auto simp: demo_tree_def)
qed

section \<open>Accessors\<close>

text \<open>The children of a container as a list of nodes.\<close>

lemma member_loop_finds:
  "reps d c hi xs \<Longrightarrow> keyed True xs \<Longrightarrow> length xs < f \<Longrightarrow>
     \<exists>m. member_loop d k f (if xs = [] then - 1 else int c) = Returns m \<and>
       (case find (\<lambda>x. map_option cut (fst x) = Some k) xs of None \<Rightarrow> m = - 1 | Some x \<Rightarrow> \<exists>n h. m = int n \<and> rep d n h (snd x))"
proof (induction c hi xs arbitrary: f rule: rep_reps.inducts(2) [where ?P1.0 = "\<lambda>_ _ _. True"])
  case (reps_nil c)
  then show ?case by (cases f) auto
next
  case (reps_last c hi j ko)
  obtain k' where k': "ko = Some k'" using reps_last.prems(1) by (auto simp: keyed_def)
  obtain f' where f: "f = Suc (Suc f')" using reps_last.prems(2) by (metis Suc_less_eq2 length_Cons list.size(3) gr0_conv_Suc One_nat_def)
  have s: "str_at d (key (nodes d ! c)) k'" using reps_last(2,3) k' by (auto simp: key_ok_def)
  show ?case using reps_last rep_bounds(1) [OF reps_last(1)] c_string_at [OF s] s k' f
    by (auto simp: valid_node_def str_at_def)
next
  case (reps_more c mid j ko hi x xs)
  obtain k' where k': "ko = Some k'" using reps_more.prems(1) by (auto simp: keyed_def)
  obtain f' where f: "f = Suc f'" using reps_more.prems(2) by (cases f) auto
  have s: "str_at d (key (nodes d ! c)) k'" using reps_more(2,3) k' by (auto simp: key_ok_def)
  have b: "c < length (nodes d)" using rep_bounds(1) [OF reps_more(1)] by simp
  have step: "member_loop d k f (int c) = (if cut k' = k then Returns (int c) else member_loop d k f' (int mid))"
    using b s c_string_at [OF s] reps_more(4) f by (simp add: valid_node_def str_at_def)
  obtain m where m: "member_loop d k f' (int mid) = Returns m"
    "case find (\<lambda>x. map_option cut (fst x) = Some k) (x # xs) of None \<Rightarrow> m = - 1 | Some x \<Rightarrow> \<exists>n h. m = int n \<and> rep d n h (snd x)"
    using reps_more(6) [of f'] reps_more.prems f by (auto simp: keyed_def simp del: find.simps)
  show ?case
  proof (cases "cut k' = k")
    case True
    then show ?thesis using step k' reps_more(1) by auto
  next
    case False
    then show ?thesis using step k' m by (simp del: member_loop.simps)
  qed
qed auto

lemma at_loop_finds:
  "reps d c hi xs \<Longrightarrow> length xs < f \<Longrightarrow>
     \<exists>m. at_loop d f (if xs = [] then - 1 else int c) n i = Returns m \<and>
       (if n \<le> i \<and> i < n + length xs then \<exists>h. m \<ge> 0 \<and> rep d (nat m) h (snd (xs ! (i - n))) else n \<le> i \<longrightarrow> m = - 1)"
proof (induction c hi xs arbitrary: f n rule: rep_reps.inducts(2) [where ?P1.0 = "\<lambda>_ _ _. True"])
  case (reps_nil c)
  then show ?case by (cases f) auto
next
  case (reps_last c hi j ko)
  obtain f' where f: "f = Suc (Suc f')" using reps_last.prems by (cases f; cases "f - 1") auto
  show ?case using reps_last(1,3,4) rep_bounds(1) [OF reps_last(1)] f by (auto simp: valid_node_def)
next
  case (reps_more c mid j ko hi x xs)
  obtain f' where f: "f = Suc f'" using reps_more.prems by (cases f) auto
  have b: "c < length (nodes d)" using rep_bounds(1) [OF reps_more(1)] by simp
  have step: "at_loop d f (int c) n i = (if n = i then Returns (int c) else at_loop d f' (int mid) (Suc n) i)"
    using b reps_more(4) f by (simp add: valid_node_def)
  obtain m where m: "at_loop d f' (int mid) (Suc n) i = Returns m"
    "if Suc n \<le> i \<and> i < Suc n + length (x # xs) then \<exists>h. m \<ge> 0 \<and> rep d (nat m) h (snd ((x # xs) ! (i - Suc n))) else Suc n \<le> i \<longrightarrow> m = - 1"
    using reps_more(6) [of f' "Suc n"] reps_more.prems f by auto
  show ?case
  proof (cases "n = i")
    case True
    then show ?thesis using step reps_more(1) by auto
  next
    case False
    then have "i - n = Suc (i - Suc n)" if "n \<le> i" using that by simp
    then show ?thesis using step m False by (auto simp del: at_loop.simps split: if_splits)
  qed
qed auto

lemma len_loop_counts:
  "reps d c hi xs \<Longrightarrow> length xs < f \<Longrightarrow> len_loop d f (if xs = [] then - 1 else int c) n = Returns (int (n + length xs))"
proof (induction c hi xs arbitrary: f n rule: rep_reps.inducts(2) [where ?P1.0 = "\<lambda>_ _ _. True"])
  case (reps_nil c)
  then show ?case by (cases f) auto
next
  case (reps_last c hi j ko)
  obtain f' where f: "f = Suc (Suc f')" using reps_last.prems by (cases f; cases "f - 1") auto
  show ?case using reps_last(1,3,4) rep_bounds(1) [OF reps_last(1)] f by (auto simp: valid_node_def)
next
  case (reps_more c mid j ko hi x xs)
  obtain f' where f: "f = Suc f'" using reps_more.prems by (cases f) auto
  show ?case using reps_more(4) reps_more(6) [of f' "Suc n"] reps_more.prems rep_bounds(1) [OF reps_more(1)] f by (simp add: valid_node_def)
qed auto

text \<open>The accessors read a parsed document: the lookup of a key in an object returns the first member whose key, as a C
  string, is the one asked for, and $-1$ when there is none; the length of an array and its elements by index are those of
  the array, and an index out of range gives $-1$.\<close>

theorem json_accessors:
  assumes "rep d i hi j"
  shows "(\<forall>ms k. j = JObject ms \<longrightarrow>
       (\<exists>m. pai_json_member d (int i) k = Returns m \<and>
          (case find (\<lambda>(k', _). cut k' = k) ms of None \<Rightarrow> m = - 1 | Some (_, v) \<Rightarrow> m \<ge> 0 \<and> (\<exists>h. rep d (nat m) h v)))) \<and>
     (\<forall>js. j = JArray js \<longrightarrow> pai_json_array_len d (int i) = Returns (int (length js)) \<and>
       (\<forall>n. \<exists>m. pai_json_array_at d (int i) n = Returns m \<and> (if n < length js then m \<ge> 0 \<and> (\<exists>h. rep d (nat m) h (js ! n)) else m = - 1)))"
proof (intro conjI allI impI)
  fix ms k assume "j = JObject ms"
  with assms have o: "i < length (nodes d)" "ntype (nodes d ! i) = PAI_JSON_OBJECT" "first_child (nodes d ! i) = (if ms = [] then - 1 else int (Suc i))"
    "reps d (Suc i) hi (map (\<lambda>(k, j). (Some k, j)) ms)" by (auto elim: rep.cases)
  let ?xs = "map (\<lambda>(k, j). (Some k, j)) ms"
  have kx: "keyed True ?xs" by (auto simp: keyed_def)
  have "length ?xs \<le> length (nodes d)" using reps_length [OF o(4)] rep_bounds(1) [OF assms, THEN conjunct2] by simp
  then obtain m where m: "member_loop d k (Suc (Suc (length (nodes d)))) (if ?xs = [] then - 1 else int (Suc i)) = Returns m"
    "case find (\<lambda>x. map_option cut (fst x) = Some k) ?xs of None \<Rightarrow> m = - 1 | Some x \<Rightarrow> \<exists>n h. m = int n \<and> rep d n h (snd x)"
    using member_loop_finds [OF o(4) kx, of "Suc (Suc (length (nodes d)))" k] by auto
  have "find (\<lambda>x. map_option cut (fst x) = Some k) ?xs = map_option (\<lambda>(k, j). (Some k, j)) (find (\<lambda>(k', _). cut k' = k) ms)"
    by (induction ms) auto
  then show "\<exists>m. pai_json_member d (int i) k = Returns m \<and>
      (case find (\<lambda>(k', _). cut k' = k) ms of None \<Rightarrow> m = - 1 | Some (_, v) \<Rightarrow> m \<ge> 0 \<and> (\<exists>h. rep d (nat m) h v))"
    using m o by (intro exI [of _ m]) (auto simp: pai_json_member_def valid_node_def simp del: member_loop.simps split: option.splits)
next
  fix js n assume "j = JArray js"
  with assms have o: "i < length (nodes d)" "ntype (nodes d ! i) = PAI_JSON_ARRAY" "first_child (nodes d ! i) = (if js = [] then - 1 else int (Suc i))"
    "reps d (Suc i) hi (map (Pair None) js)" by (auto elim: rep.cases)
  have l: "length (map (Pair None) js) < Suc (Suc (length (nodes d)))" using reps_length [OF o(4)] rep_bounds(1) [OF assms, THEN conjunct2] by simp
  show "pai_json_array_len d (int i) = Returns (int (length js))"
    using len_loop_counts [OF o(4) l, of 0] o by (simp add: pai_json_array_len_def valid_node_def del: len_loop.simps)
  show "\<exists>m. pai_json_array_at d (int i) n = Returns m \<and> (if n < length js then m \<ge> 0 \<and> (\<exists>h. rep d (nat m) h (js ! n)) else m = - 1)"
    using at_loop_finds [OF o(4) l, of 0 n] o by (auto simp: pai_json_array_at_def valid_node_def simp del: at_loop.simps split: if_splits)
qed

theorem json_accessors_witness:
  "\<exists>d m. tree_of d demo_tree \<and> pai_json_member d 0 [0x61] = Returns m \<and> m \<ge> 0 \<and> (\<exists>h. rep d (nat m) h (JArray [JNumber 7, JBool True]))"
proof -
  obtain d where d: "tree_of d demo_tree" using demo_tree_doc .
  then have "rep d 0 (length (nodes d)) demo_tree" by (simp add: tree_of_def)
  from json_accessors [OF this] have "\<exists>m. pai_json_member d (int 0) [0x61] = Returns m \<and>
     (case find (\<lambda>(k', _). cut k' = [0x61]) [([0x61], JArray [JNumber 7, JBool True])] of
        None \<Rightarrow> m = - 1 | Some (_, v) \<Rightarrow> m \<ge> 0 \<and> (\<exists>h. rep d (nat m) h v))" unfolding demo_tree_def by blast
  then show ?thesis using d by (auto simp: cut_def)
qed

end
