(* ===== verification/Tokenizer.thy ===== *)
theory Tokenizer
  imports Ir_Codec
begin

text \<open>
  \<^verbatim>\<open>models/tokenizer.c\<close>: the byte-level BPE tokenizer and its serialized form. \<open>toks\<close> holds the
  token texts (C strings, without the terminator) and \<open>token_ids\<close> their ids, at the same positions;
  \<open>num_tokens\<close> and \<open>num_merges\<close> are the lengths of the lists. The arrays are allocated by the call
  that adds their first entry, so NULL is the empty list; whether that allocation succeeds is an argument.
  A text to encode is its buffer of \<open>nbytes\<close> bytes.
\<close>

section \<open>Definitions\<close>

definition PAI_TOK_MAX_TOKENS :: nat where "PAI_TOK_MAX_TOKENS = 65536"
definition PAI_TOK_MAX_MERGES :: nat where "PAI_TOK_MAX_MERGES = 8192"
definition PAI_TOK_MAX_TOKEN_LEN :: nat where "PAI_TOK_MAX_TOKEN_LEN = 255"
definition PAI_TOK_MAX_INPUT :: nat where "PAI_TOK_MAX_INPUT = 65536"
definition PAI_TOK_MAGIC :: u32 where "PAI_TOK_MAGIC = 0x314B5450"
definition PAI_TOK_VERSION :: u32 where "PAI_TOK_VERSION = 1"

lemmas tok_consts = PAI_TOK_MAX_TOKENS_def PAI_TOK_MAX_MERGES_def PAI_TOK_MAX_TOKEN_LEN_def PAI_TOK_MAX_INPUT_def

record pai_tok_merge =
  mleft :: u32
  mright :: u32
  mresult :: u32

record pai_tok =
  toks :: "bytes list"
  token_ids :: "u32 list"
  merges :: "pai_tok_merge list"
  byte_fallback_base :: u32
  max_id :: u32

definition pai_tok_init :: pai_tok where
  "pai_tok_init = \<lparr>toks = [], token_ids = [], merges = [], byte_fallback_base = 256, max_id = 0\<rparr>"

text \<open>The freed tokenizer is all zero.\<close>

definition pai_tok_destroy :: pai_tok where
  "pai_tok_destroy = \<lparr>toks = [], token_ids = [], merges = [], byte_fallback_base = 0, max_id = 0\<rparr>"

definition pai_tok_add_token :: "pai_tok \<Rightarrow> u32 \<Rightarrow> bytes option \<Rightarrow> bool \<Rightarrow> pai_tok res" where
  "pai_tok_add_token tok i text mem =
     (case text of None \<Rightarrow> Inl PAI_ERR_INVALID_ARG
      | Some t \<Rightarrow>
          let len = unat (of_nat (length t) :: u32)
          in if len = 0 \<or> len > PAI_TOK_MAX_TOKEN_LEN then Inl PAI_ERR_INVALID_ARG
             else if i \<in> set (token_ids tok) then Inl PAI_ERR_INVALID_ARG
             else if length (toks tok) \<ge> PAI_TOK_MAX_TOKENS then Inl PAI_ERR_NOMEM
             else if toks tok = [] \<and> \<not> mem then Inl PAI_ERR_NOMEM
             else Inr (tok\<lparr>toks := toks tok @ [take len t], token_ids := token_ids tok @ [i],
                           max_id := if i > max_id tok then i else max_id tok\<rparr>))"

definition pai_tok_add_merge :: "pai_tok \<Rightarrow> u32 \<Rightarrow> u32 \<Rightarrow> u32 \<Rightarrow> bool \<Rightarrow> pai_tok res" where
  "pai_tok_add_merge tok left right result mem =
     (if left \<notin> set (token_ids tok) \<or> right \<notin> set (token_ids tok) then Inl PAI_ERR_INVALID_ARG
      else if length (merges tok) \<ge> PAI_TOK_MAX_MERGES then Inl PAI_ERR_NOMEM
      else if merges tok = [] \<and> \<not> mem then Inl PAI_ERR_NOMEM
      else Inr (tok\<lparr>merges := merges tok @ [\<lparr>mleft = left, mright = right, mresult = result\<rparr>],
                    max_id := if result > max_id tok then result else max_id tok\<rparr>))"

definition pai_tok_finalize :: "pai_tok \<Rightarrow> pai_tok" where
  "pai_tok_finalize tok = tok\<lparr>byte_fallback_base := if max_id tok \<ge> 256 then max_id tok + 1 else 256\<rparr>"

definition is_fallback :: "pai_tok \<Rightarrow> u32 \<Rightarrow> bool" where
  "is_fallback tok i \<longleftrightarrow> i \<ge> byte_fallback_base tok \<and> i < byte_fallback_base tok + 256"

definition pai_tok_id_valid :: "pai_tok \<Rightarrow> u32 \<Rightarrow> bool" where
  "pai_tok_id_valid tok i \<longleftrightarrow> i \<in> set (token_ids tok) \<or> is_fallback tok i"

text \<open>The loop of \<open>match_prefix\<close> over the tokens from index \<open>i\<close> on.\<close>

fun match_loop :: "bytes \<Rightarrow> nat \<Rightarrow> nat \<Rightarrow> nat \<Rightarrow> bytes list \<Rightarrow> nat \<times> nat" where
  "match_loop text i best best_len [] = (best, best_len)"
| "match_loop text i best best_len (t # ts) =
     (if length t > length text \<or> length t \<le> best_len then match_loop text (Suc i) best best_len ts
      else if take (length t) text = t then match_loop text (Suc i) i (length t) ts
      else match_loop text (Suc i) best best_len ts)"

definition match_prefix :: "bytes list \<Rightarrow> bytes \<Rightarrow> nat option" where
  "match_prefix ts text = (let (best, best_len) = match_loop text 0 0 0 ts in if best_len > 0 then Some best else None)"

text \<open>The invariant of the scan: the best token so far is the first of the longest matches.\<close>

definition best_at :: "bytes \<Rightarrow> bytes list \<Rightarrow> nat \<Rightarrow> nat \<Rightarrow> bool" where
  "best_at text ts best best_len \<longleftrightarrow>
     (best_len = 0 \<or> best < length ts \<and> length (ts ! best) = best_len \<and> take best_len text = ts ! best) \<and>
     (\<forall>t \<in> set ts. take (length t) text = t \<longrightarrow> length t \<le> best_len)"

lemma match_loop_best:
  assumes "best_at text ps best bl"
  shows "case match_loop text (length ps) best bl ts of (b, l) \<Rightarrow> best_at text (ps @ ts) b l"
  using assms
proof (induction ts arbitrary: ps best bl)
  case Nil
  then show ?case by simp
next
  case (Cons t ts)
  have long: "take (length t) text = t \<Longrightarrow> length t \<le> length text"
    by (metis length_take min.cobounded1)
  have snoc: "best_at text (ps @ [t]) best bl" if "length t > length text \<or> length t \<le> bl \<or> take (length t) text \<noteq> t"
    using Cons.prems that long by (auto simp: best_at_def nth_append)
  have new: "best_at text (ps @ [t]) (length ps) (length t)" if "take (length t) text = t" "bl < length t"
    using Cons.prems that by (auto simp: best_at_def nth_append)
  show ?case
    using Cons.IH [of "ps @ [t]" best bl] Cons.IH [of "ps @ [t]" "length ps" "length t"] snoc new
    by (cases "length t > length text \<or> length t \<le> bl"; cases "take (length t) text = t") auto
qed

lemma match_prefix_Some:
  assumes "match_prefix ts text = Some i"
  shows "i < length ts" "ts ! i \<noteq> []" "take (length (ts ! i)) text = ts ! i"
    "\<forall>t \<in> set ts. take (length t) text = t \<longrightarrow> length t \<le> length (ts ! i)"
proof -
  obtain b l where m: "match_loop text 0 0 0 ts = (b, l)" by force
  with assms have il: "i = b" "l > 0" by (auto simp: match_prefix_def split: if_splits)
  have "best_at text ts b l"
    using match_loop_best [of "text" "[]" 0 0 ts] m by (simp add: best_at_def)
  with il show "i < length ts" "ts ! i \<noteq> []" "take (length (ts ! i)) text = ts ! i"
    "\<forall>t \<in> set ts. take (length t) text = t \<longrightarrow> length t \<le> length (ts ! i)"
    by (auto simp: best_at_def)
qed

lemma match_prefix_None:
  assumes "match_prefix ts text = None" "t \<in> set ts" "take (length t) text = t"
  shows "t = []"
proof -
  obtain b l where m: "match_loop text 0 0 0 ts = (b, l)" by force
  with assms(1) have "l = 0" by (auto simp: match_prefix_def split: if_splits)
  moreover have "best_at text ts b l"
    using match_loop_best [of "text" "[]" 0 0 ts] m by (simp add: best_at_def)
  ultimately show ?thesis using assms by (auto simp: best_at_def)
qed

text \<open>The first loop of \<open>pai_tok_encode\<close>, over the text that is left.\<close>

function greedy :: "pai_tok \<Rightarrow> bytes \<Rightarrow> u32 list" where
  "greedy tok [] = []"
| "greedy tok (c # cs) =
     (case match_prefix (toks tok) (c # cs) of
        Some idx \<Rightarrow> token_ids tok ! idx # greedy tok (drop (length (toks tok ! idx)) (c # cs))
      | None \<Rightarrow> (byte_fallback_base tok + ucast c) # greedy tok cs)"
  by pat_completeness auto
termination
  by (relation "measure (\<lambda>(tok, text). length text)") (auto dest: match_prefix_Some(2))

declare greedy.simps(2) [simp del]

text \<open>One search for the pair of a merge, and the loop that repeats it until none is left.\<close>

fun merge_once :: "pai_tok_merge \<Rightarrow> u32 list \<Rightarrow> u32 list option" where
  "merge_once m (a # b # ids) =
     (if a = mleft m \<and> b = mright m then Some (mresult m # ids) else map_option ((#) a) (merge_once m (b # ids)))"
| "merge_once m ids = None"

lemma merge_once_length: "merge_once m ids = Some ids' \<Longrightarrow> Suc (length ids') = length ids"
  by (induction m ids arbitrary: ids' rule: merge_once.induct) (auto split: if_splits)

function merge_all :: "pai_tok_merge \<Rightarrow> u32 list \<Rightarrow> u32 list" where
  "merge_all m ids = (case merge_once m ids of None \<Rightarrow> ids | Some ids' \<Rightarrow> merge_all m ids')"
  by pat_completeness auto
termination
  by (relation "measure (\<lambda>(m, ids). length ids)") (auto dest: merge_once_length)

declare merge_all.simps [simp del]

definition pai_tok_encode :: "pai_tok \<Rightarrow> bytes option \<Rightarrow> nat \<Rightarrow> bool \<Rightarrow> u32 list res" where
  "pai_tok_encode tok text cap mem =
     (case text of
        None \<Rightarrow> if \<not> mem then Inl PAI_ERR_NOMEM else Inr []
      | Some t \<Rightarrow>
          if length t > PAI_TOK_MAX_INPUT then Inl PAI_ERR_INVALID_ARG
          else if \<not> mem then Inl PAI_ERR_NOMEM
          else let ids = foldl (\<lambda>ids m. merge_all m ids) (greedy tok t) (merges tok)
               in if length ids > cap then Inl PAI_ERR_NOMEM else Inr ids)"

text \<open>The loop of \<open>pai_tok_decode\<close>: \<open>out\<close> holds the bytes written so far. \<open>written\<close> and \<open>cap\<close> are 32-bit;
  the buffer has \<open>cap\<close> bytes.\<close>

fun decode_loop :: "pai_tok \<Rightarrow> u32 \<Rightarrow> u32 list \<Rightarrow> bytes \<Rightarrow> bytes res outcome" where
  "decode_loop tok cap [] out = (if length out < unat cap then Returns (Inr out) else Fault)"
| "decode_loop tok cap (i # ids) out =
     (if is_fallback tok i then
        (if of_nat (length out) + 1 \<ge> cap then Returns (Inl PAI_ERR_NOMEM)
         else if length out < unat cap then decode_loop tok cap ids (out @ [ucast (i - byte_fallback_base tok)])
         else Fault)
      else
        (case find_index (\<lambda>j. j = i) (token_ids tok) of
           None \<Rightarrow> Returns (Inl PAI_ERR_MISMATCH)
         | Some t \<Rightarrow>
             if of_nat (length out) + of_nat (length (toks tok ! t)) \<ge> cap then Returns (Inl PAI_ERR_NOMEM)
             else if length out + length (toks tok ! t) \<le> unat cap then decode_loop tok cap ids (out @ toks tok ! t)
             else Fault))"

definition pai_tok_decode :: "pai_tok \<Rightarrow> u32 list \<Rightarrow> u32 \<Rightarrow> bytes res outcome" where
  "pai_tok_decode tok ids cap =
     (if cap = 0 then Returns (Inl PAI_ERR_INVALID_ARG) else decode_loop tok cap ids [])"

section \<open>Serialization\<close>

definition pai_tok_blob_size :: "pai_tok \<Rightarrow> nat" where
  "pai_tok_blob_size tok =
     (let total = 16 + (\<Sum>t \<leftarrow> toks tok. 4 + 1 + length t) + 12 * length (merges tok)
      in if total > 2 ^ 32 - 1 then 0 else total)"

definition put_token :: "u32 \<times> bytes \<Rightarrow> bytes" where
  "put_token it = put_le32 (fst it) @ [of_nat (length (snd it))] @ snd it"

definition put_merge :: "pai_tok_merge \<Rightarrow> bytes" where
  "put_merge m = put_le32 (mleft m) @ put_le32 (mright m) @ put_le32 (mresult m)"

definition pai_tok_serialize :: "pai_tok \<Rightarrow> nat \<Rightarrow> bytes res" where
  "pai_tok_serialize tok cap =
     (let total = pai_tok_blob_size tok
      in if total = 0 \<or> total > cap then Inl PAI_ERR_INVALID_ARG
         else Inr (put_le32 PAI_TOK_MAGIC @ put_le32 PAI_TOK_VERSION @
                   put_le32 (of_nat (length (toks tok))) @ put_le32 (of_nat (length (merges tok))) @
                   concat (map put_token (zip (token_ids tok) (toks tok))) @ concat (map put_merge (merges tok))))"

text \<open>The loops over the token and merge records at offset \<open>p\<close>. The caller destroys the tokenizer on an error.\<close>

fun get_tokens :: "bytes \<Rightarrow> bool \<Rightarrow> nat \<Rightarrow> nat \<Rightarrow> pai_tok \<Rightarrow> (pai_tok \<times> nat) res outcome" where
  "get_tokens blob mem 0 p tok = Returns (Inr (tok, p))"
| "get_tokens blob mem (Suc n) p tok =
     (if p + 5 > length blob then Returns (Inl PAI_ERR_PROTOCOL)
      else rd blob p 5 (\<lambda>r.
        let len = unat (r ! 4)
        in if len = 0 \<or> len > PAI_TOK_MAX_TOKEN_LEN \<or> p + 5 + len > length blob then Returns (Inl PAI_ERR_PROTOCOL)
           else rd blob (p + 5) len (\<lambda>text.
             case pai_tok_add_token tok (get_le32 r) (Some (cstr text)) mem of
               Inl e \<Rightarrow> Returns (Inl e)
             | Inr tok' \<Rightarrow> get_tokens blob mem n (p + 5 + len) tok')))"

fun get_merges :: "bytes \<Rightarrow> bool \<Rightarrow> nat \<Rightarrow> nat \<Rightarrow> pai_tok \<Rightarrow> pai_tok res outcome" where
  "get_merges blob mem 0 p tok = Returns (Inr tok)"
| "get_merges blob mem (Suc n) p tok =
     (if p + 12 > length blob then Returns (Inl PAI_ERR_PROTOCOL)
      else rd blob p 12 (\<lambda>r.
        case pai_tok_add_merge tok (get_le32 r) (get_le32 (drop 4 r)) (get_le32 (drop 8 r)) mem of
          Inl e \<Rightarrow> Returns (Inl e)
        | Inr tok' \<Rightarrow> get_merges blob mem n (p + 12) tok'))"

text \<open>The outcome is the tokenizer and the status; \<open>tok\<close> is the tokenizer whose contents are replaced.\<close>

definition pai_tok_deserialize :: "pai_tok \<Rightarrow> bytes \<Rightarrow> bool \<Rightarrow> bool \<Rightarrow> (pai_tok \<times> unit res) outcome" where
  "pai_tok_deserialize tok blob mem_t mem_m =
     (if length blob < 16 then Returns (tok, Inl PAI_ERR_INVALID_ARG)
      else if get_le32 blob \<noteq> PAI_TOK_MAGIC \<or> get_le32 (drop 4 blob) \<noteq> PAI_TOK_VERSION
      then Returns (tok, Inl PAI_ERR_PROTOCOL)
      else
        let nt = unat (get_le32 (drop 8 blob)); nm = unat (get_le32 (drop 12 blob))
        in if nt > PAI_TOK_MAX_TOKENS \<or> nm > PAI_TOK_MAX_MERGES then Returns (tok, Inl PAI_ERR_PROTOCOL)
           else
             (case get_tokens blob mem_t nt 16 pai_tok_init of
                Returns (Inr (tok1, p)) \<Rightarrow>
                  (case get_merges blob mem_m nm p tok1 of
                     Returns (Inr tok2) \<Rightarrow> Returns (pai_tok_finalize tok2, Inr ())
                   | Returns (Inl e) \<Rightarrow> Returns (pai_tok_destroy, Inl e)
                   | Fault \<Rightarrow> Fault
                   | Diverges \<Rightarrow> Diverges)
              | Returns (Inl e) \<Rightarrow> Returns (pai_tok_destroy, Inl e)
              | Fault \<Rightarrow> Fault
              | Diverges \<Rightarrow> Diverges))"

section \<open>Tokenizers that are built through the interface\<close>

inductive tok_built :: "pai_tok \<Rightarrow> bool" where
  init: "tok_built pai_tok_init"
| token: "tok_built tok \<Longrightarrow> pai_tok_add_token tok i (Some (cstr t)) mem = Inr tok' \<Longrightarrow> tok_built tok'"
| merge: "tok_built tok \<Longrightarrow> pai_tok_add_merge tok l r res mem = Inr tok' \<Longrightarrow> tok_built tok'"

definition text_ok :: "bytes \<Rightarrow> bool" where
  "text_ok t \<longleftrightarrow> t \<noteq> [] \<and> length t \<le> PAI_TOK_MAX_TOKEN_LEN \<and> 0 \<notin> set t"

definition tok_ok :: "pai_tok \<Rightarrow> bool" where
  "tok_ok tok \<longleftrightarrow>
     length (token_ids tok) = length (toks tok) \<and> distinct (token_ids tok) \<and>
     length (toks tok) \<le> PAI_TOK_MAX_TOKENS \<and> length (merges tok) \<le> PAI_TOK_MAX_MERGES \<and>
     (\<forall>t \<in> set (toks tok). text_ok t) \<and>
     (\<forall>m \<in> set (merges tok). mleft m \<in> set (token_ids tok) \<and> mright m \<in> set (token_ids tok)) \<and>
     max_id tok = fold max (map mresult (merges tok)) (fold max (token_ids tok) 0)"

lemma fold_max_max: "fold max xs (max a b) = max a (fold max xs (b::'a::linorder))"
proof (induction xs arbitrary: b)
  case (Cons x xs)
  then show ?case by (metis fold_simps(2) max.left_commute)
qed simp

lemma fold_max_ge: "x \<in> set xs \<or> x \<le> a \<Longrightarrow> x \<le> fold max xs (a::'a::linorder)"
proof (induction xs arbitrary: a)
  case (Cons y xs)
  then show ?case by (simp add: fold_max_max) (metis le_max_iff_disj order_refl)
qed simp

lemma max_word_if: "(if (a::u32) > b then a else b) = max a b"
  by (cases "a > b") (auto simp: max_def)

lemma add_token_ok:
  assumes "pai_tok_add_token tok i (Some t) mem = Inr tok'" "0 \<notin> set t"
  shows "\<exists>u. text_ok u \<and> i \<notin> set (token_ids tok) \<and> length (toks tok) < PAI_TOK_MAX_TOKENS \<and>
    tok' = tok\<lparr>toks := toks tok @ [u], token_ids := token_ids tok @ [i], max_id := max i (max_id tok)\<rparr>"
proof -
  let ?n = "unat (of_nat (length t) :: u32)"
  have "?n \<le> length t" by (simp add: unat_of_nat)
  then have "text_ok (take ?n t)" if "?n \<noteq> 0" "?n \<le> PAI_TOK_MAX_TOKEN_LEN"
    using that assms(2) by (auto simp: text_ok_def dest: in_set_takeD)
  with assms(1) show ?thesis
    by (intro exI [of _ "take ?n t"]) (auto simp: pai_tok_add_token_def Let_def max_word_if split: if_splits)
qed

lemma add_merge_ok:
  assumes "pai_tok_add_merge tok l r res mem = Inr tok'"
  shows "l \<in> set (token_ids tok) \<and> r \<in> set (token_ids tok) \<and> length (merges tok) < PAI_TOK_MAX_MERGES \<and>
    tok' = tok\<lparr>merges := merges tok @ [\<lparr>mleft = l, mright = r, mresult = res\<rparr>], max_id := max res (max_id tok)\<rparr>"
  using assms by (auto simp: pai_tok_add_merge_def max_word_if split: if_splits)

lemma tok_built_ok: "tok_built tok \<Longrightarrow> tok_ok tok"
proof (induction rule: tok_built.induct)
  case init
  then show ?case by (simp add: tok_ok_def pai_tok_init_def)
next
  case (token tok i t mem tok')
  from add_token_ok [OF token.hyps(2)] token.IH show ?case
    by (auto simp: tok_ok_def fold_max_max)
next
  case (merge tok l r res mem tok')
  from add_merge_ok [OF merge.hyps(2)] merge.IH show ?case
    by (auto simp: tok_ok_def)
qed

lemma finalize_simps [simp]:
  "toks (pai_tok_finalize tok) = toks tok" "token_ids (pai_tok_finalize tok) = token_ids tok"
  "merges (pai_tok_finalize tok) = merges tok" "max_id (pai_tok_finalize tok) = max_id tok"
  by (simp_all add: pai_tok_finalize_def)

lemma tok_ok_finalize [simp]: "tok_ok (pai_tok_finalize tok) \<longleftrightarrow> tok_ok tok"
  by (simp add: tok_ok_def)

lemma tok_ok_max: "tok_ok tok \<Longrightarrow> i \<in> set (token_ids tok) \<Longrightarrow> i \<le> max_id tok"
  by (auto simp: tok_ok_def intro!: fold_max_ge)

section \<open>What a sequence of ids spells\<close>

definition text_of :: "pai_tok \<Rightarrow> u32 \<Rightarrow> bytes option" where
  "text_of tok i =
     (if is_fallback tok i then Some [ucast (i - byte_fallback_base tok)]
      else map_option ((!) (toks tok)) (find_index (\<lambda>j. j = i) (token_ids tok)))"

fun spell :: "pai_tok \<Rightarrow> u32 list \<Rightarrow> bytes option" where
  "spell tok [] = Some []"
| "spell tok (i # ids) =
     (case text_of tok i of None \<Rightarrow> None | Some t \<Rightarrow> map_option ((@) t) (spell tok ids))"

text \<open>The ids of the tokens lie below the fallback range, which does not wrap.\<close>

definition base_ok :: "pai_tok \<Rightarrow> bool" where
  "base_ok tok \<longleftrightarrow> unat (byte_fallback_base tok) + 256 < 2 ^ 32 \<and>
     (\<forall>i \<in> set (token_ids tok). i < byte_fallback_base tok)"

lemma base_ok_finalize:
  assumes "tok_ok tok" "unat (max_id tok) + 257 < 2 ^ 32"
  shows "base_ok (pai_tok_finalize tok)"
proof -
  let ?b = "byte_fallback_base (pai_tok_finalize tok)"
  have "unat (max_id tok + 1) = unat (max_id tok) + 1"
    using assms(2) by (subst unat_add_lem [THEN iffD1]) simp_all
  then have b: "unat ?b = max 256 (unat (max_id tok) + 1)"
    by (auto simp: pai_tok_finalize_def word_le_nat_alt)
  have "i < ?b" if "i \<in> set (token_ids tok)" for i
    using tok_ok_max [OF assms(1) that] b by (simp add: word_less_nat_alt word_le_nat_alt)
  with b assms(2) show ?thesis by (simp add: base_ok_def)
qed

lemma is_fallback_iff:
  assumes "base_ok tok"
  shows "is_fallback tok i \<longleftrightarrow> unat (byte_fallback_base tok) \<le> unat i \<and> unat i < unat (byte_fallback_base tok) + 256"
proof -
  have "unat (byte_fallback_base tok + 256) = unat (byte_fallback_base tok) + 256"
    using assms unfolding base_ok_def by (subst unat_add_lem [THEN iffD1]) simp_all
  then show ?thesis by (simp add: is_fallback_def word_le_nat_alt word_less_nat_alt)
qed

lemma fallback_byte:
  assumes "base_ok tok"
  shows "text_of tok (byte_fallback_base tok + ucast (c::u8)) = Some [c]"
proof -
  have c: "unat (ucast c :: u32) = unat c" "unat c < 256"
    using unsigned_less [of c, where 'a = nat] by (simp_all add: unsigned_ucast_eq take_bit_nat_eq_self)
  then have "unat (byte_fallback_base tok + ucast c) = unat (byte_fallback_base tok) + unat c"
    using assms unfolding base_ok_def by (subst unat_add_lem [THEN iffD1]) simp_all
  with c have "is_fallback tok (byte_fallback_base tok + ucast c)"
    by (simp add: is_fallback_iff [OF assms])
  moreover have "(ucast (ucast c :: u32) :: u8) = c" by (rule bit_word_eqI) (auto simp: bit_simps)
  ultimately show ?thesis by (simp add: text_of_def)
qed

lemma find_index_nth:
  "distinct xs \<Longrightarrow> i < length xs \<Longrightarrow> find_index (\<lambda>j. j = xs ! i) xs = Some i"
  using find_index_exists [of "xs ! i" xs "\<lambda>j. j = xs ! i"] find_index_Some [of "\<lambda>j. j = xs ! i" xs]
  by (auto simp: nth_eq_iff_index_eq)

lemma text_of_token:
  assumes "tok_ok tok" "base_ok tok" "k < length (toks tok)"
  shows "text_of tok (token_ids tok ! k) = Some (toks tok ! k)"
proof -
  have k: "k < length (token_ids tok)" "distinct (token_ids tok)" using assms by (auto simp: tok_ok_def)
  then have "token_ids tok ! k < byte_fallback_base tok" using assms(2) by (simp add: base_ok_def)
  then have "\<not> is_fallback tok (token_ids tok ! k)" by (auto simp: is_fallback_def)
  with find_index_nth [OF k(2,1)] show ?thesis by (simp add: text_of_def)
qed

lemma spell_greedy:
  assumes "tok_ok tok" "base_ok tok"
  shows "spell tok (greedy tok t) = Some t"
proof (induction t rule: length_induct)
  case (1 t)
  show ?case
  proof (cases t)
    case (Cons c cs)
    show ?thesis
    proof (cases "match_prefix (toks tok) t")
      case None
      with Cons "1.IH" fallback_byte [OF assms(2)] show ?thesis by (simp add: greedy.simps(2))
    next
      case (Some k)
      let ?u = "toks tok ! k"
      note m = match_prefix_Some [OF Some]
      have "length (drop (length ?u) t) < length t" using m(2) Cons by (cases ?u) simp_all
      then have "spell tok (greedy tok (drop (length ?u) t)) = Some (drop (length ?u) t)" using "1.IH" by blast
      moreover have "?u @ drop (length ?u) t = t" using m(3) by (metis append_take_drop_id)
      ultimately show ?thesis
        using Cons Some text_of_token [OF assms m(1)] by (simp add: greedy.simps(2))
    qed
  qed simp
qed

text \<open>Every id of the first pass covers at least one byte, so \<open>ids\<close> with room for \<open>nbytes\<close> is large enough.\<close>

lemma greedy_length: "length (greedy tok t) \<le> length t"
proof (induction t rule: length_induct)
  case (1 t)
  show ?case
  proof (cases t)
    case (Cons c cs)
    show ?thesis
    proof (cases "match_prefix (toks tok) t")
      case None
      with Cons "1.IH" show ?thesis by (simp add: greedy.simps(2))
    next
      case (Some k)
      obtain n where n: "length (toks tok ! k) = Suc n" using match_prefix_Some(2) [OF Some] by (cases "toks tok ! k") auto
      have "length (drop n cs) < length t" using Cons by simp
      then have "length (greedy tok (drop n cs)) \<le> length (drop n cs)" using "1.IH" by blast
      with Cons Some n show ?thesis by (simp add: greedy.simps(2))
    qed
  qed simp
qed

lemma merge_all_length: "length (merge_all m ids) \<le> length ids"
proof (induction m ids rule: merge_all.induct)
  case (1 m ids)
  show ?case
    using 1 merge_once_length [of m ids] by (subst merge_all.simps) (fastforce split: option.split)
qed

lemma merges_length: "length (foldl (\<lambda>ids m. merge_all m ids) ids ms) \<le> length ids"
  by (induction ms arbitrary: ids) (auto intro: order_trans [OF _ merge_all_length])

text \<open>A merge that replaces two tokens by a token with the joined text.\<close>

definition merge_spells :: "pai_tok \<Rightarrow> pai_tok_merge \<Rightarrow> bool" where
  "merge_spells tok m \<longleftrightarrow> text_of tok (mresult m) = spell tok [mleft m, mright m]"

lemma spell_Cons_cong: "spell tok ids = spell tok ids' \<Longrightarrow> spell tok (i # ids) = spell tok (i # ids')"
  by (simp split: option.split)

lemma merge_once_spell: "merge_spells tok m \<Longrightarrow> merge_once m ids = Some ids' \<Longrightarrow> spell tok ids' = spell tok ids"
proof (induction m ids arbitrary: ids' rule: merge_once.induct)
  case (1 m a b ids)
  show ?case
  proof (cases "a = mleft m \<and> b = mright m")
    case True
    with "1.prems" show ?thesis
      by (cases "text_of tok (mleft m)"; cases "text_of tok (mright m)"; cases "spell tok ids")
        (auto simp: merge_spells_def)
  next
    case False
    with "1.prems" obtain ids1 where "merge_once m (b # ids) = Some ids1" "ids' = a # ids1"
      by (auto split: if_splits)
    with "1.IH" [OF False "1.prems"(1)] show ?thesis by (metis spell_Cons_cong)
  qed
qed simp_all

lemma merge_all_spell: "merge_spells tok m \<Longrightarrow> spell tok (merge_all m ids) = spell tok ids"
proof (induction m ids rule: merge_all.induct)
  case (1 m ids)
  then show ?case
    using merge_once_spell [of tok m ids] by (subst merge_all.simps) (auto split: option.split)
qed

lemma merges_spell:
  "\<forall>m \<in> set ms. merge_spells tok m \<Longrightarrow> spell tok (foldl (\<lambda>ids m. merge_all m ids) ids ms) = spell tok ids"
  by (induction ms arbitrary: ids) (auto simp: merge_all_spell)

lemma decode_spell:
  assumes "spell tok ids = Some t" "length out + length t < unat cap"
  shows "decode_loop tok cap ids out = Returns (Inr (out @ t))"
  using assms
proof (induction ids arbitrary: out t)
  case (Cons i ids)
  from Cons.prems(1) obtain u v where uv: "text_of tok i = Some u" "spell tok ids = Some v" "t = u @ v"
    by (auto split: option.splits)
  have cap: "unat cap < 2 ^ 32" using unsigned_less [of cap, where 'a = nat] by simp
  have lt: "\<not> cap \<le> of_nat (length out) + of_nat (length u)"
    using Cons.prems(2) uv(3) cap
    by (simp add: word_le_nat_alt unat_of_nat32 flip: of_nat_add)
  show ?case
  proof (cases "is_fallback tok i")
    case True
    then have "u = [ucast (i - byte_fallback_base tok)]" using uv(1) by (simp add: text_of_def)
    with True Cons.IH [OF uv(2), of "out @ u"] Cons.prems(2) uv(3) lt show ?thesis by simp
  next
    case False
    then obtain k where "find_index (\<lambda>j. j = i) (token_ids tok) = Some k" "u = toks tok ! k"
      using uv(1) by (auto simp: text_of_def)
    with False Cons.IH [OF uv(2), of "out @ u"] Cons.prems(2) uv(3) lt show ?thesis by simp
  qed
qed simp

text \<open>With room for the longest texts, the decoder computes \<open>spell\<close>, and refuses exactly the ids that spell nothing.\<close>

lemma text_of_valid: "text_of tok i = None \<longleftrightarrow> \<not> pai_tok_id_valid tok i"
proof -
  have "find_index (\<lambda>j. j = i) xs = None \<longleftrightarrow> i \<notin> set xs" for xs :: "u32 list"
    using find_index_exists [of i xs "\<lambda>j. j = i"] find_index_Some [of "\<lambda>j. j = i" xs]
    by (cases "find_index (\<lambda>j. j = i) xs") (auto dest: nth_mem)
  then show ?thesis by (simp add: text_of_def pai_tok_id_valid_def)
qed

lemma text_of_short:
  assumes "tok_ok tok" "text_of tok i = Some u"
  shows "length u \<le> 255"
proof (cases "is_fallback tok i")
  case False
  then obtain k where "find_index (\<lambda>j. j = i) (token_ids tok) = Some k" "u = toks tok ! k"
    using assms(2) by (auto simp: text_of_def)
  moreover from this have "k < length (toks tok)"
    using assms(1) find_index_Some [of "\<lambda>j. j = i" "token_ids tok" k] by (simp add: tok_ok_def)
  ultimately show ?thesis using assms(1) by (auto simp: tok_ok_def text_ok_def tok_consts)
qed (use assms(2) in \<open>auto simp: text_of_def\<close>)

lemma spell_None: "spell tok ids = None \<longleftrightarrow> (\<exists>i \<in> set ids. text_of tok i = None)"
  by (induction ids) (auto split: option.splits)

lemma decode_loop_spell:
  assumes "tok_ok tok" "length out + 255 * length ids < unat cap"
  shows "decode_loop tok cap ids out =
    (case spell tok ids of None \<Rightarrow> Returns (Inl PAI_ERR_MISMATCH) | Some t \<Rightarrow> Returns (Inr (out @ t)))"
  using assms(2)
proof (induction ids arbitrary: out)
  case (Cons i ids)
  have cap: "unat cap < 2 ^ 32" using unsigned_less [of cap, where 'a = nat] by simp
  show ?case
  proof (cases "text_of tok i")
    case None
    then have "\<not> is_fallback tok i" "find_index (\<lambda>j. j = i) (token_ids tok) = None"
      by (auto simp: text_of_def split: if_splits)
    with None show ?thesis by simp
  next
    case (Some u)
    note short = text_of_short [OF assms(1) Some]
    have lt: "\<not> cap \<le> of_nat (length out) + of_nat (length u)"
      using Cons.prems short cap by (simp add: word_le_nat_alt unat_of_nat32 flip: of_nat_add)
    have IH: "decode_loop tok cap ids (out @ u) =
        (case spell tok ids of None \<Rightarrow> Returns (Inl PAI_ERR_MISMATCH) | Some t \<Rightarrow> Returns (Inr ((out @ u) @ t)))"
      using Cons.prems short by (intro Cons.IH) simp
    show ?thesis
    proof (cases "is_fallback tok i")
      case True
      then have "u = [ucast (i - byte_fallback_base tok)]" using Some by (simp add: text_of_def)
      with True Some IH lt Cons.prems show ?thesis by (auto split: option.split)
    next
      case False
      then obtain k where "find_index (\<lambda>j. j = i) (token_ids tok) = Some k" "u = toks tok ! k"
        using Some by (auto simp: text_of_def)
      with False Some IH lt Cons.prems short show ?thesis by (auto split: option.split)
    qed
  qed
qed simp

text \<open>Merging brings in no other ids than the results of the merges.\<close>

lemma merge_once_ids: "merge_once m ids = Some ids' \<Longrightarrow> set ids' \<subseteq> insert (mresult m) (set ids)"
  by (induction m ids arbitrary: ids' rule: merge_once.induct) (fastforce split: if_splits)+

lemma merge_all_ids: "set (merge_all m ids) \<subseteq> insert (mresult m) (set ids)"
proof (induction m ids rule: merge_all.induct)
  case (1 m ids)
  then show ?case using merge_once_ids [of m ids] by (subst merge_all.simps) (auto split: option.split)
qed

lemma merges_ids: "set (foldl (\<lambda>ids m. merge_all m ids) ids ms) \<subseteq> mresult ` set ms \<union> set ids"
proof (induction ms arbitrary: ids)
  case (Cons m ms)
  from Cons.IH [of "merge_all m ids"] merge_all_ids [of m ids] show ?case by auto
qed simp

section \<open>The loop of a merge is one pass with a stack\<close>

text \<open>The reference: one pass over the ids that keeps the ones already passed, last first.\<close>

function stack_pass :: "pai_tok_merge \<Rightarrow> u32 list \<Rightarrow> u32 list \<Rightarrow> u32 list" where
  "stack_pass m st [] = rev st"
| "stack_pass m st (b # ids) =
     (case st of
        a # st' \<Rightarrow> if a = mleft m \<and> b = mright m then stack_pass m st' (mresult m # ids) else stack_pass m (b # st) ids
      | [] \<Rightarrow> stack_pass m [b] ids)"
  by pat_completeness auto
termination
  by (relation "measure (\<lambda>(m, st, ids). length st + 2 * length ids)") auto

lemma merge_once_join:
  "merge_once m (xs @ [a]) = None \<Longrightarrow>
   merge_once m (xs @ a # b # ys) =
     (if a = mleft m \<and> b = mright m then Some (xs @ mresult m # ys) else map_option ((@) (xs @ [a])) (merge_once m (b # ys)))"
proof (induction xs)
  case Nil
  have "(@) [a] = (#) a" by (rule ext) simp
  then show ?case by simp
next
  case (Cons x xs)
  then show ?case by (cases xs) (auto simp: option.map_comp comp_def split: if_splits)
qed

lemma merge_once_prefix: "merge_once m (xs @ ys) = None \<Longrightarrow> merge_once m xs = None"
  by (induction m xs rule: merge_once.induct) (auto split: if_splits)

lemma stack_pass_eq:
  "merge_once m (rev st) = None \<Longrightarrow> merge_all m (rev st @ ids) = stack_pass m st ids"
proof (induction m st ids rule: stack_pass.induct)
  case (1 m st)
  then show ?case by (simp add: merge_all.simps)
next
  case (2 m st b ids)
  show ?case
  proof (cases st)
    case Nil
    with "2.IH" show ?thesis by simp
  next
    case (Cons a st')
    have none: "merge_once m (rev st' @ [a]) = None" using "2.prems" Cons by simp
    show ?thesis
    proof (cases "a = mleft m \<and> b = mright m")
      case True
      then have "merge_once m (rev st @ b # ids) = Some (rev st' @ mresult m # ids)"
        using merge_once_join [OF none, of b ids] Cons by simp
      moreover have "merge_once m (rev st') = None" using none by (rule merge_once_prefix)
      ultimately show ?thesis
        using "2.IH"(2) [OF Cons True] Cons True by (subst merge_all.simps) simp
    next
      case False
      then have "merge_once m (rev (b # st)) = None"
        using merge_once_join [OF none, of b "[]"] Cons by auto
      with "2.IH"(3) [OF Cons False] Cons False show ?thesis by (cases "a = mleft m") auto
    qed
  qed
qed


section \<open>The serialized form\<close>

lemma length_put_token [simp]: "length (put_token it) = 5 + length (snd it)"
  by (simp add: put_token_def)

lemma length_put_merge [simp]: "length (put_merge m) = 12"
  by (simp add: put_merge_def)

lemma add_token_Inr:
  "text_ok t \<Longrightarrow> i \<notin> set (token_ids tok) \<Longrightarrow> length (toks tok) < PAI_TOK_MAX_TOKENS \<Longrightarrow>
   pai_tok_add_token tok i (Some t) True =
     Inr (tok\<lparr>toks := toks tok @ [t], token_ids := token_ids tok @ [i], max_id := max i (max_id tok)\<rparr>)"
  by (auto simp: pai_tok_add_token_def text_ok_def tok_consts max_word_if unat_of_nat32)

definition add_tokens :: "(u32 \<times> bytes) list \<Rightarrow> pai_tok \<Rightarrow> pai_tok" where
  "add_tokens its tok = tok\<lparr>toks := toks tok @ map snd its, token_ids := token_ids tok @ map fst its,
     max_id := fold max (map fst its) (max_id tok)\<rparr>"

definition add_merges :: "pai_tok_merge list \<Rightarrow> pai_tok \<Rightarrow> pai_tok" where
  "add_merges ms tok = tok\<lparr>merges := merges tok @ ms, max_id := fold max (map mresult ms) (max_id tok)\<rparr>"

lemma get_put_tokens:
  assumes "blob = pre @ concat (map put_token its) @ post" "p = length pre"
    and "\<forall>t \<in> snd ` set its. text_ok t" "distinct (token_ids tok @ map fst its)"
    and "length (toks tok) + length its \<le> PAI_TOK_MAX_TOKENS"
  shows "get_tokens blob True (length its) p tok =
    Returns (Inr (add_tokens its tok, p + length (concat (map put_token its))))"
  using assms
proof (induction its arbitrary: pre p tok)
  case Nil
  then show ?case by (simp add: add_tokens_def)
next
  case (Cons it its)
  obtain i t where it: "it = (i, t)" by force
  have t: "text_ok t" using Cons.prems(3) it by simp
  then have len: "0 < length t" "length t \<le> 255" "unat (of_nat (length t) :: u8) = length t"
    by (auto simp: text_ok_def tok_consts unat_of_nat)
  let ?rest = "concat (map put_token its) @ post"
  have blob: "blob = pre @ (put_le32 i @ [of_nat (length t)]) @ t @ ?rest"
    using Cons.prems(1) it by (simp add: put_token_def [of "(i, t)"])
  have r1: "rd blob p 5 k = k (put_le32 i @ [of_nat (length t)])" for k :: "bytes \<Rightarrow> (pai_tok \<times> nat) res outcome"
    unfolding blob by (rule rd_at) (simp_all add: Cons.prems(2))
  have r2: "rd blob (p + 5) (length t) k = k t" for k :: "bytes \<Rightarrow> (pai_tok \<times> nat) res outcome"
    using rd_at [of "p + 5" "pre @ put_le32 i @ [of_nat (length t)]" "length t" t ?rest k] blob Cons.prems(2) by simp
  have n4: "(put_le32 i @ [of_nat (length t)]) ! 4 = (of_nat (length t) :: u8)" by (simp add: nth_append)
  have long: "p + 5 + length t \<le> length blob" unfolding blob by (simp add: Cons.prems(2))
  let ?tok = "add_tokens [(i, t)] tok"
  have add: "pai_tok_add_token tok i (Some t) True = Inr ?tok"
    using add_token_Inr [OF t, of i tok] Cons.prems(4,5) it by (simp add: add_tokens_def)
  have "get_tokens blob True (length its) (p + 5 + length t) ?tok =
      Returns (Inr (add_tokens its ?tok, p + 5 + length t + length (concat (map put_token its))))"
    using Cons.prems it
    by (intro Cons.IH [where pre = "pre @ put_token it"]) (auto simp: add_tokens_def)
  moreover have "add_tokens its ?tok = add_tokens (it # its) tok" by (simp add: add_tokens_def it)
  ultimately show ?case
    using len long t it add by (simp add: r1 r2 n4 Let_def tok_consts text_ok_def)
qed

lemma get_put_merges:
  assumes "blob = pre @ concat (map put_merge ms) @ post" "p = length pre"
    and "\<forall>m \<in> set ms. mleft m \<in> set (token_ids tok) \<and> mright m \<in> set (token_ids tok)"
    and "length (merges tok) + length ms \<le> PAI_TOK_MAX_MERGES"
  shows "get_merges blob True (length ms) p tok = Returns (Inr (add_merges ms tok))"
  using assms
proof (induction ms arbitrary: pre p tok)
  case Nil
  then show ?case by (simp add: add_merges_def)
next
  case (Cons m ms)
  have r: "rd blob p 12 k = k (put_merge m)" for k :: "bytes \<Rightarrow> pai_tok res outcome"
    using rd_at [of p pre 12 "put_merge m" "concat (map put_merge ms) @ post" k] Cons.prems(1,2) by simp
  have len: "p + 12 \<le> length blob" using Cons.prems(1,2) by simp
  have f: "get_le32 (put_merge m) = mleft m" "get_le32 (drop 4 (put_merge m)) = mright m"
    "get_le32 (drop 8 (put_merge m)) = mresult m"
    by (simp_all add: put_merge_def)
  have add: "pai_tok_add_merge tok (mleft m) (mright m) (mresult m) True = Inr (add_merges [m] tok)"
    using Cons.prems(3,4) by (auto simp: pai_tok_add_merge_def add_merges_def max_word_if)
  have "get_merges blob True (length ms) (p + 12) (add_merges [m] tok) = Returns (Inr (add_merges ms (add_merges [m] tok)))"
    using Cons.prems
    by (intro Cons.IH [where pre = "pre @ put_merge m"]) (auto simp: add_merges_def)
  moreover have "add_merges ms (add_merges [m] tok) = add_merges (m # ms) tok" by (simp add: add_merges_def)
  ultimately show ?case
    using len by (simp add: r f add)
qed

lemma tok_blob_size_ok:
  assumes "tok_ok tok"
  shows "pai_tok_blob_size tok = 16 + (\<Sum>t \<leftarrow> toks tok. 5 + length t) + 12 * length (merges tok)"
proof -
  have "(\<Sum>t \<leftarrow> toks tok. 5 + length t) \<le> (\<Sum>t \<leftarrow> toks tok. 260)"
    using assms by (intro sum_list_mono) (auto simp: tok_ok_def text_ok_def tok_consts)
  also have "\<dots> \<le> 260 * 65536" using assms by (simp add: tok_ok_def tok_consts sum_list_triv)
  finally show ?thesis using assms by (simp add: pai_tok_blob_size_def tok_ok_def tok_consts)
qed

lemma rebuild:
  assumes "tok_ok tok"
  shows "pai_tok_finalize (add_merges (merges tok) (add_tokens (zip (token_ids tok) (toks tok)) pai_tok_init)) =
    pai_tok_finalize tok"
  using assms
  by (simp add: tok_ok_def add_merges_def add_tokens_def pai_tok_init_def pai_tok_finalize_def)

lemma get_tokens_yields:
  assumes "tok_built tok"
  shows "yields (get_tokens blob mem n p tok) (\<lambda>(tok', p'). tok_built tok')"
  using assms
proof (induction n arbitrary: p tok)
  case (Suc n)
  let ?r = "take 5 (drop p blob)"
  let ?len = "unat (?r ! 4)"
  let ?t = "take ?len (drop (p + 5) blob)"
  show ?case
  proof (cases "p + 5 > length blob \<or> ?len = 0 \<or> ?len > PAI_TOK_MAX_TOKEN_LEN \<or> p + 5 + ?len > length blob")
    case True
    then show ?thesis by (auto simp: rd_def Let_def)
  next
    case False
    then show ?thesis
      using Suc tok_built.token [OF Suc.prems, of "get_le32 ?r" ?t mem]
      by (auto simp: rd_def Let_def split: sum.split)
  qed
qed simp

lemma get_merges_yields:
  assumes "tok_built tok"
  shows "yields (get_merges blob mem n p tok) tok_built"
  using assms
proof (induction n arbitrary: p tok)
  case (Suc n)
  then show ?case by (auto simp: rd_def Let_def split: sum.split dest: tok_built.merge)
qed simp


section \<open>Properties\<close>

lemmas tok_eval = pai_tok_encode_def pai_tok_decode_def pai_tok_finalize_def greedy.simps(2) match_prefix_def
  merge_all.simps is_fallback_def tok_consts

text \<open>C6. A finalized tokenizer is lossless: when its highest id leaves room for the 256 byte ids and every merge
  replaces two tokens by a token with the joined text, any text of at most \<open>PAI_TOK_MAX_INPUT\<close> bytes is encoded to no
  more ids than it has bytes, and decoding these ids gives the text back.\<close>

theorem tok_roundtrip:
  assumes "tok_built tok0" "tok = pai_tok_finalize tok0" "unat (max_id tok0) + 257 < 2 ^ 32"
    and "\<forall>m \<in> set (merges tok). merge_spells tok m"
    and "length t \<le> PAI_TOK_MAX_INPUT" "length t \<le> cap" "length t < unat cap2"
  shows "\<exists>ids. pai_tok_encode tok (Some t) cap True = Inr ids \<and> length ids \<le> length t \<and>
    pai_tok_decode tok ids cap2 = Returns (Inr t)"
proof -
  have ok: "tok_ok tok" "base_ok tok" using assms(1-3) tok_built_ok base_ok_finalize by auto
  let ?ids = "foldl (\<lambda>ids m. merge_all m ids) (greedy tok t) (merges tok)"
  have "spell tok ?ids = Some t" using merges_spell [OF assms(4)] spell_greedy [OF ok] by simp
  then have "pai_tok_decode tok ?ids cap2 = Returns (Inr t)"
    using decode_spell [of tok ?ids t "[]" cap2] assms(7) by (auto simp: pai_tok_decode_def)
  moreover have "length ?ids \<le> length t" using merges_length greedy_length by (rule order_trans)
  ultimately show ?thesis using assms(5,6) by (simp add: pai_tok_encode_def Let_def)
qed

definition demo_tok :: pai_tok where
  "demo_tok = \<lparr>toks = [[97], [98], [97, 98]], token_ids = [1, 2, 3],
     merges = [\<lparr>mleft = 1, mright = 2, mresult = 3\<rparr>], byte_fallback_base = 256, max_id = 3\<rparr>"

lemma demo_tok_built: "tok_built demo_tok"
proof -
  let ?t1 = "\<lparr>toks = [[97]], token_ids = [1], merges = [], byte_fallback_base = 256, max_id = 1\<rparr>"
  let ?t2 = "\<lparr>toks = [[97], [98]], token_ids = [1, 2], merges = [], byte_fallback_base = 256, max_id = 2\<rparr>"
  let ?t3 = "\<lparr>toks = [[97], [98], [97, 98]], token_ids = [1, 2, 3], merges = [], byte_fallback_base = 256, max_id = 3\<rparr>"
  note tok_built.init
  then have "tok_built ?t1"
    by (rule tok_built.token [of _ 1 "[97]" True])
      (simp add: pai_tok_add_token_def pai_tok_init_def cstr_def tok_consts)
  then have "tok_built ?t2"
    by (rule tok_built.token [of _ 2 "[98]" True]) (simp add: pai_tok_add_token_def cstr_def tok_consts)
  then have "tok_built ?t3"
    by (rule tok_built.token [of _ 3 "[97, 98]" True]) (simp add: pai_tok_add_token_def cstr_def tok_consts)
  then show ?thesis
    by (rule tok_built.merge [of _ 1 2 3 True]) (simp add: pai_tok_add_merge_def demo_tok_def tok_consts)
qed

lemma demo_tok_final [simp]: "pai_tok_finalize demo_tok = demo_tok"
  by (simp add: pai_tok_finalize_def demo_tok_def)

theorem tok_roundtrip_witness:
  "\<exists>ids. pai_tok_encode demo_tok (Some [98, 97, 98, 0]) 4 True = Inr ids \<and> length ids \<le> length [98, 97, 98, 0 :: u8] \<and>
    pai_tok_decode demo_tok ids 5 = Returns (Inr [98, 97, 98, 0])"
proof -
  have "unat (max_id demo_tok) + 257 < 2 ^ 32" by (simp add: demo_tok_def)
  moreover have "\<forall>m \<in> set (merges demo_tok). merge_spells demo_tok m"
    by (simp add: demo_tok_def merge_spells_def text_of_def is_fallback_def word_le_nat_alt)
  ultimately show ?thesis
    using tok_roundtrip [OF demo_tok_built, of demo_tok "[98, 97, 98, 0]" 4 5] by (simp add: tok_consts)
qed

definition pair_tok :: pai_tok where
  "pair_tok = \<lparr>toks = [[97], [98]], token_ids = [1, 2], merges = [\<lparr>mleft = 1, mright = 2, mresult = 3\<rparr>],
     byte_fallback_base = 256, max_id = 3\<rparr>"

definition high_tok :: pai_tok where
  "high_tok = \<lparr>toks = [[97], [99]], token_ids = [98, 0xFFFFFFFF], merges = [], byte_fallback_base = 256,
     max_id = 0xFFFFFFFF\<rparr>"

lemma lossy_toks_built: "tok_built pair_tok" "tok_built high_tok"
proof -
  have one: "tok_built \<lparr>toks = [[97]], token_ids = [i], merges = [], byte_fallback_base = 256, max_id = i\<rparr>" for i
    by (rule tok_built.token [OF tok_built.init, of i "[97]" True])
      (auto simp: pai_tok_add_token_def pai_tok_init_def cstr_def tok_consts word_gt_0)
  have "tok_built \<lparr>toks = [[97], [98]], token_ids = [1, 2], merges = [], byte_fallback_base = 256, max_id = 2\<rparr>"
    by (rule tok_built.token [OF one, of 1 2 "[98]" True]) (simp add: pai_tok_add_token_def cstr_def tok_consts)
  then show "tok_built pair_tok"
    by (rule tok_built.merge [of _ 1 2 3 True]) (simp add: pai_tok_add_merge_def pair_tok_def tok_consts)
  show "tok_built high_tok"
    by (rule tok_built.token [OF one, of 98 "0xFFFFFFFF" "[99]" True])
      (simp add: pai_tok_add_token_def cstr_def high_tok_def tok_consts)
qed

text \<open>C40. What becomes of an encoded text when a merge does not give a token: \<open>pai_tok_add_merge\<close> does not check that its
  result is registered. For every finalized tokenizer whose highest id leaves room for the byte ids, and the ids that
  \<open>pai_tok_encode\<close> returns for any text: with room for the longest tokens, \<open>pai_tok_decode\<close> always returns; it refuses
  the ids exactly when the result of some merge is among them and is not a valid id, and it gives the text back exactly
  when the texts of the ids join to it.\<close>

theorem tok_lossy:
  assumes "tok_built tok0" "tok = pai_tok_finalize tok0" "unat (max_id tok0) + 257 < 2 ^ 32"
    and "pai_tok_encode tok (Some t) cap mem = Inr ids" "255 * length ids < unat cap2"
  shows "(pai_tok_decode tok ids cap2 = Returns (Inl PAI_ERR_MISMATCH) \<longleftrightarrow>
      (\<exists>m \<in> set (merges tok). mresult m \<in> set ids \<and> \<not> pai_tok_id_valid tok (mresult m))) \<and>
    (pai_tok_decode tok ids cap2 = Returns (Inr t) \<longleftrightarrow> spell tok ids = Some t) \<and>
    (\<exists>r. pai_tok_decode tok ids cap2 = Returns r)"
proof -
  have ok: "tok_ok tok" "base_ok tok" using assms(1-3) tok_built_ok base_ok_finalize by auto
  have ids: "ids = foldl (\<lambda>ids m. merge_all m ids) (greedy tok t) (merges tok)"
    using assms(4) by (auto simp: pai_tok_encode_def Let_def split: if_splits)
  have "\<forall>i \<in> set (greedy tok t). pai_tok_id_valid tok i"
    using spell_greedy [OF ok, of t] spell_None [of tok "greedy tok t"] text_of_valid by fastforce
  then have "spell tok ids = None \<longleftrightarrow> (\<exists>m \<in> set (merges tok). mresult m \<in> set ids \<and> \<not> pai_tok_id_valid tok (mresult m))"
    using merges_ids [of "greedy tok t" "merges tok"] unfolding spell_None text_of_valid ids by blast
  moreover have "pai_tok_decode tok ids cap2 =
      (case spell tok ids of None \<Rightarrow> Returns (Inl PAI_ERR_MISMATCH) | Some u \<Rightarrow> Returns (Inr u))"
    using decode_loop_spell [OF ok(1), of "[]" ids cap2] assms(5) by (auto simp: pai_tok_decode_def split: option.split)
  ultimately show ?thesis by (cases "spell tok ids") auto
qed

text \<open>A tokenizer with a merge to an id that is not a token: its pair is encoded to ids that are refused.\<close>

theorem tok_lossy_witness:
  "tok_built pair_tok \<and> pai_tok_encode pair_tok (Some [97, 98]) 2 True = Inr [3] \<and>
   pai_tok_decode pair_tok [3] 1000 = Returns (Inl PAI_ERR_MISMATCH)"
proof -
  have f: "pai_tok_finalize pair_tok = pair_tok" by (simp add: pai_tok_finalize_def pair_tok_def)
  have e: "pai_tok_encode pair_tok (Some [97, 98]) 2 True = Inr [3]" by (simp add: tok_eval pair_tok_def)
  have "unat (max_id pair_tok) + 257 < 2 ^ 32" "255 * length [3 :: u32] < unat (1000 :: u32)"
    "\<not> pai_tok_id_valid pair_tok 3"
    by (simp_all add: pair_tok_def pai_tok_id_valid_def is_fallback_def word_le_nat_alt)
  then show ?thesis
    using tok_lossy [OF lossy_toks_built(1) f [symmetric] _ e, of 1000] e lossy_toks_built(1) by (simp add: pair_tok_def)
qed

text \<open>The room for the byte ids is needed: in \<open>high_tok\<close>, with a token of id \<open>2 ^ 32 - 1\<close>, the byte ids start at 0, and
  the token 98 for byte 97 decodes to byte 98.\<close>

lemma high_ids_wrap:
  "pai_tok_encode (pai_tok_finalize high_tok) (Some [97]) 1 True = Inr [98]"
  "pai_tok_decode (pai_tok_finalize high_tok) [98] 2 = Returns (Inr [98])"
  by (simp_all add: tok_eval high_tok_def word_le_nat_alt)

text \<open>C39. The restarting search of a merge computes what one pass with a stack computes.\<close>

theorem tok_merge_pass: "merge_all m ids = stack_pass m [] ids"
  using stack_pass_eq [of m "[]" ids] by simp

lemma serialize_deserialize:
  assumes "tok_built tok" "pai_tok_blob_size tok \<le> cap"
  shows "\<exists>blob. pai_tok_serialize tok cap = Inr blob \<and> length blob = pai_tok_blob_size tok \<and>
    pai_tok_deserialize old blob True True = Returns (pai_tok_finalize tok, Inr ())"
proof -
  have ok: "tok_ok tok" using assms(1) by (rule tok_built_ok)
  note lens = ok [unfolded tok_ok_def]
  let ?its = "zip (token_ids tok) (toks tok)"
  let ?hd = "put_le32 PAI_TOK_MAGIC @ put_le32 PAI_TOK_VERSION @
    put_le32 (of_nat (length (toks tok))) @ put_le32 (of_nat (length (merges tok)))"
  let ?T = "concat (map put_token ?its)" and ?M = "concat (map put_merge (merges tok))"
  let ?blob = "?hd @ ?T @ ?M"
  have its: "map fst ?its = token_ids tok" "map snd ?its = toks tok" "length ?its = length (toks tok)"
    using lens by simp_all
  have lT: "length ?T = (\<Sum>t \<leftarrow> toks tok. 5 + length t)"
    by (simp add: length_concat comp_def) (metis (no_types, lifting) its(2) map_map comp_apply map_eq_conv)
  have lM: "length ?M = 12 * length (merges tok)" by (simp add: length_concat comp_def sum_list_triv)
  have ser: "pai_tok_serialize tok cap = Inr ?blob"
    using assms(2) tok_blob_size_ok [OF ok] by (simp add: pai_tok_serialize_def Let_def)
  have n: "unat (of_nat (length (toks tok)) :: u32) = length (toks tok)"
    "unat (of_nat (length (merges tok)) :: u32) = length (merges tok)"
    using lens by (simp_all add: unat_of_nat32 tok_consts)
  let ?tok1 = "add_tokens ?its pai_tok_init"
  have t1: "get_tokens ?blob True (length (toks tok)) 16 pai_tok_init = Returns (Inr (?tok1, 16 + length ?T))"
  proof -
    have "\<forall>t \<in> snd ` set ?its. text_ok t" using lens by (auto dest: set_zip_rightD)
    moreover have "distinct (token_ids pai_tok_init @ map fst ?its)" using lens its by (simp add: pai_tok_init_def)
    moreover have "length (toks pai_tok_init) + length ?its \<le> PAI_TOK_MAX_TOKENS"
      using lens its by (simp add: pai_tok_init_def)
    ultimately show ?thesis using get_put_tokens [of ?blob ?hd ?its ?M 16 pai_tok_init] its(3) by simp
  qed
  have t2: "get_merges ?blob True (length (merges tok)) (16 + length ?T) ?tok1 = Returns (Inr (add_merges (merges tok) ?tok1))"
    using lens its by (intro get_put_merges [where pre = "?hd @ ?T" and post = "[]"])
      (auto simp: add_tokens_def pai_tok_init_def)
  have "pai_tok_deserialize old ?blob True True = Returns (pai_tok_finalize tok, Inr ())"
    using lens n t1 t2 rebuild [OF ok] by (simp add: pai_tok_deserialize_def Let_def)
  moreover have "length ?blob = pai_tok_blob_size tok" using lT lM tok_blob_size_ok [OF ok] by simp
  ultimately show ?thesis using ser by blast
qed

text \<open>C24. A tokenizer survives serialization: the blob has the announced size and gives the finalized tokenizer back.\<close>

theorem tok_blob_roundtrip:
  assumes "tok_built tok" "pai_tok_blob_size tok \<le> cap"
  shows "\<exists>blob. pai_tok_serialize tok cap = Inr blob \<and> length blob = pai_tok_blob_size tok \<and>
    pai_tok_deserialize old blob True True = Returns (pai_tok_finalize tok, Inr ())"
  using assms by (rule serialize_deserialize)

theorem tok_blob_roundtrip_witness:
  "\<exists>blob. pai_tok_serialize demo_tok 100 = Inr blob \<and> length blob = pai_tok_blob_size demo_tok \<and>
    pai_tok_deserialize pai_tok_init blob True True = Returns (demo_tok, Inr ())"
proof -
  have "pai_tok_blob_size demo_tok \<le> 100" by (simp add: pai_tok_blob_size_def demo_tok_def)
  then show ?thesis using tok_blob_roundtrip [OF demo_tok_built, of 100 pai_tok_init] by simp
qed

text \<open>On every blob the reader ends without leaving it; it leaves the tokenizer as it was, destroys it, or replaces
  it by one that the interface can build.\<close>

theorem tok_deserialize_safe:
  "\<exists>tok' r. pai_tok_deserialize tok blob mt mm = Returns (tok', r) \<and>
     (case r of Inl e \<Rightarrow> tok' = tok \<or> tok' = pai_tok_destroy
      | Inr _ \<Rightarrow> \<exists>b. tok_built b \<and> tok' = pai_tok_finalize b)"
proof -
  let ?nt = "unat (get_le32 (drop 8 blob))" and ?nm = "unat (get_le32 (drop 12 blob))"
  show ?thesis
  proof (rule yields_cases [OF get_tokens_yields [OF tok_built.init, of blob mt ?nt 16]])
    fix a assume a: "case a of (tok', p') \<Rightarrow> tok_built tok'" "get_tokens blob mt ?nt 16 pai_tok_init = Returns (Inr a)"
    obtain t1 p where "a = (t1, p)" by force
    with a show ?thesis
      using get_merges_yields [of t1 blob mm ?nm p]
      by (auto simp: pai_tok_deserialize_def Let_def elim!: yields_cases)
  qed (auto simp: pai_tok_deserialize_def Let_def)
qed

end
