(* ===== verification/Pai_Format.thy ===== *)
theory Pai_Format
  imports Ir_Codec
begin

text \<open>
  \<^verbatim>\<open>pai/pai.c\<close>: the \<^verbatim>\<open>.pai\<close> container format. A builder is the list of its sections, each with the
  payload bytes that its pointer and size describe; a container is the table of sections over the buffer it was opened
  on. Reads of the buffer go through \<open>rd\<close>, which is \<open>Fault\<close> outside it. The \<^verbatim>\<open>stdio\<close> calls of the file
  helpers are the record \<open>stdio\<close> of their results.
\<close>

section \<open>Definitions\<close>

definition PAI_PAI_MAGIC :: u32 where "PAI_PAI_MAGIC = 0x43494150"
definition PAI_PAI_VERSION :: u32 where "PAI_PAI_VERSION = 1"
definition PAI_PAI_HEADER_SIZE :: nat where "PAI_PAI_HEADER_SIZE = 16"
definition PAI_PAI_MAX_SECTIONS :: nat where "PAI_PAI_MAX_SECTIONS = 8"
definition PAI_PAI_SEC_WEIGHTS :: u32 where "PAI_PAI_SEC_WEIGHTS = 3"
definition PAI_PAI_SEC_PROFILE :: u32 where "PAI_PAI_SEC_PROFILE = 7"
definition PAI_PAI_SEC_FLAG_COMPRESSED :: u32 where "PAI_PAI_SEC_FLAG_COMPRESSED = 1"
definition PAI_PAI_META_SIZE :: nat where "PAI_PAI_META_SIZE = 64"
definition PAI_PAI_NAME_MAX :: nat where "PAI_PAI_NAME_MAX = 31"
definition PAI_PAI_MAX_TENSORS :: nat where "PAI_PAI_MAX_TENSORS = 512"

lemmas pai_consts = PAI_PAI_HEADER_SIZE_def PAI_PAI_MAX_SECTIONS_def PAI_PAI_SEC_WEIGHTS_def
  PAI_PAI_SEC_PROFILE_def PAI_PAI_SEC_FLAG_COMPRESSED_def PAI_PAI_META_SIZE_def PAI_PAI_NAME_MAX_def
  PAI_PAI_MAX_TENSORS_def

definition k_section_names :: "string list" where
  "k_section_names = [''?'', ''meta'', ''manifest'', ''weights'', ''ir'', ''tokenizer'', ''target'', ''profile'']"

definition pai_pai_section_name :: "u32 \<Rightarrow> string" where
  "pai_pai_section_name ty = (if ty = 0 \<or> ty > PAI_PAI_SEC_PROFILE then ''?'' else k_section_names ! unat ty)"

record pai_section =
  stype :: u32
  sflags :: u32
  spayload :: bytes

type_synonym pai_pai_builder = "pai_section list"

definition pai_pai_builder_init :: pai_pai_builder where
  "pai_pai_builder_init = []"

text \<open>\<open>d\<close> is the buffer behind the pointer, \<open>None\<close> for NULL.\<close>

definition pai_pai_builder_add_flags ::
    "pai_pai_builder \<Rightarrow> u32 \<Rightarrow> u32 \<Rightarrow> bytes option \<Rightarrow> u32 \<Rightarrow> pai_pai_builder res" where
  "pai_pai_builder_add_flags b ty fl d sz =
     (if ty = 0 \<or> ty > PAI_PAI_SEC_PROFILE \<or> d = None \<and> sz > 0 \<or> length b \<ge> PAI_PAI_MAX_SECTIONS
      then Inl PAI_ERR_INVALID_ARG
      else Inr (b @ [\<lparr>stype = ty, sflags = fl,
                     spayload = (case d of None \<Rightarrow> [] | Some bs \<Rightarrow> take (unat sz) bs)\<rparr>]))"

definition pai_pai_builder_add :: "pai_pai_builder \<Rightarrow> u32 \<Rightarrow> bytes option \<Rightarrow> u32 \<Rightarrow> pai_pai_builder res" where
  "pai_pai_builder_add b ty d sz = pai_pai_builder_add_flags b ty 0 d sz"

definition pai_pai_encoded_size :: "pai_pai_builder \<Rightarrow> nat" where
  "pai_pai_encoded_size b =
     (let total = PAI_PAI_HEADER_SIZE + length b * 16 + (\<Sum>s \<leftarrow> b. length (spayload s))
      in if total > 2 ^ 32 - 1 then 0 else total)"

text \<open>The section table: the payloads follow each other from \<open>cursor\<close> on.\<close>

fun put_table :: "u32 \<Rightarrow> pai_section list \<Rightarrow> bytes" where
  "put_table cursor [] = []"
| "put_table cursor (s # ss) =
     put_le32 (stype s) @ put_le32 (sflags s) @ put_le32 cursor @ put_le32 (of_nat (length (spayload s))) @
     put_table (cursor + of_nat (length (spayload s))) ss"

definition pai_crc :: "bytes \<Rightarrow> bytes \<Rightarrow> u32" where
  "pai_crc head rest =
     pai_proto_crc32_fin (pai_proto_crc32_upd (pai_proto_crc32_upd pai_proto_crc32_init head) rest)"

definition put_head :: "nat \<Rightarrow> bytes" where
  "put_head n = put_le32 PAI_PAI_MAGIC @ put_le16 (ucast PAI_PAI_VERSION) @ [0, 0] @ put_le32 (of_nat n)"

definition pai_pai_build :: "pai_pai_builder \<Rightarrow> nat \<Rightarrow> bytes res" where
  "pai_pai_build b cap =
     (if length b = 0 then Inl PAI_ERR_INVALID_ARG
      else let total = pai_pai_encoded_size b
      in if total = 0 \<or> total > cap then Inl PAI_ERR_INVALID_ARG
      else
        let head = put_head (length b);
            rest = put_table (of_nat (PAI_PAI_HEADER_SIZE + length b * 16)) b @ concat (map spayload b)
        in Inr (head @ put_le32 (pai_crc head rest) @ rest))"

record pai_entry =
  etype :: u32
  eflags :: u32
  eoffset :: u32
  esize :: u32

record pai_pai_container =
  cversion :: u32
  cflags :: u32
  csections :: "pai_entry list"
  cdata :: bytes

definition get_entry :: "bytes \<Rightarrow> pai_entry" where
  "get_entry t = \<lparr>etype = get_le32 t, eflags = get_le32 (drop 4 t), eoffset = get_le32 (drop 8 t),
                  esize = get_le32 (drop 12 t)\<rparr>"

definition entry_bad :: "nat \<Rightarrow> u32 \<Rightarrow> pai_entry list \<Rightarrow> pai_entry \<Rightarrow> bool" where
  "entry_bad nbytes table_bytes prev e \<longleftrightarrow>
     etype e = 0 \<or> etype e > PAI_PAI_SEC_PROFILE \<or>
     eflags e \<noteq> 0 \<and> (etype e \<noteq> PAI_PAI_SEC_WEIGHTS \<or> eflags e AND NOT PAI_PAI_SEC_FLAG_COMPRESSED \<noteq> 0) \<or>
     eoffset e < of_nat PAI_PAI_HEADER_SIZE + table_bytes \<or>
     unat (eoffset e) + unat (esize e) > nbytes \<or>
     list_ex (\<lambda>p. etype p = etype e \<or>
       eoffset e < eoffset p + esize p \<and> eoffset p < eoffset e + esize e) prev"

text \<open>The validation loop; \<open>prev\<close> holds the entries before the one at hand, which the inner loop reads again.\<close>

fun check_entries :: "bytes \<Rightarrow> u32 \<Rightarrow> nat \<Rightarrow> pai_entry list \<Rightarrow> pai_entry list res outcome" where
  "check_entries blob tb 0 prev = Returns (Inr prev)"
| "check_entries blob tb (Suc n) prev =
     rd blob (PAI_PAI_HEADER_SIZE + length prev * 16) 16 (\<lambda>t.
       if entry_bad (length blob) tb prev (get_entry t) then Returns (Inl PAI_ERR_PROTOCOL)
       else check_entries blob tb n (prev @ [get_entry t]))"

definition pai_pai_open :: "bytes \<Rightarrow> pai_pai_container res outcome" where
  "pai_pai_open blob =
     (if length blob < PAI_PAI_HEADER_SIZE then Returns (Inl PAI_ERR_INVALID_ARG)
      else if get_le32 blob \<noteq> PAI_PAI_MAGIC then Returns (Inl PAI_ERR_PROTOCOL)
      else if ucast (get_le16 (drop 4 blob)) \<noteq> PAI_PAI_VERSION \<or> blob ! 6 \<noteq> 0 \<or> blob ! 7 \<noteq> 0
      then Returns (Inl PAI_ERR_PROTOCOL)
      else
        let n = get_le32 (drop 8 blob)
        in if n = 0 \<or> unat n > PAI_PAI_MAX_SECTIONS then Returns (Inl PAI_ERR_PROTOCOL)
           else if PAI_PAI_HEADER_SIZE + unat (n * 16) > length blob then Returns (Inl PAI_ERR_PROTOCOL)
           else
             (case check_entries blob (n * 16) (unat n) [] of
                Returns (Inr es) \<Rightarrow>
                  if pai_crc (take 12 blob) (drop PAI_PAI_HEADER_SIZE blob) \<noteq> get_le32 (drop 12 blob)
                  then Returns (Inl PAI_ERR_PROTOCOL)
                  else Returns (Inr \<lparr>cversion = ucast (get_le16 (drop 4 blob)), cflags = 0, csections = es, cdata = blob\<rparr>)
              | Returns (Inl e) \<Rightarrow> Returns (Inl e)
              | Fault \<Rightarrow> Fault
              | Diverges \<Rightarrow> Diverges))"

text \<open>The pointer is an offset into the buffer.\<close>

definition pai_pai_section :: "pai_pai_container \<Rightarrow> u32 \<Rightarrow> (u32 \<times> u32) option" where
  "pai_pai_section c ty = map_option (\<lambda>e. (eoffset e, esize e)) (find (\<lambda>e. etype e = ty) (csections c))"

definition pai_pai_section_flags :: "pai_pai_container \<Rightarrow> u32 \<Rightarrow> u32" where
  "pai_pai_section_flags c ty = (case find (\<lambda>e. etype e = ty) (csections c) of Some e \<Rightarrow> eflags e | None \<Rightarrow> 0)"

section \<open>Metadata\<close>

record pai_pai_meta =
  mname :: bytes
  family :: u32
  context_len :: u32
  mlayers :: u32
  kv_bytes_per_token :: u32
  vocab_size :: u32
  reserved :: u32

definition pai_pai_meta_encode :: "pai_pai_meta \<Rightarrow> nat \<Rightarrow> bytes res" where
  "pai_pai_meta_encode m cap =
     (if cap < PAI_PAI_META_SIZE then Inl PAI_ERR_INVALID_ARG
      else if length (mname m) > PAI_PAI_NAME_MAX then Inl PAI_ERR_INVALID_ARG
      else Inr (put_le16 (of_nat (length (mname m))) @ mname m @
                replicate (PAI_PAI_NAME_MAX + 1 - length (mname m)) 0 @
                put_le32 (family m) @ put_le32 (context_len m) @ put_le32 (mlayers m) @
                put_le32 (kv_bytes_per_token m) @ put_le32 (vocab_size m) @ put_le32 (reserved m) @ replicate 6 0))"

definition pai_pai_meta_decode :: "bytes \<Rightarrow> pai_pai_meta res" where
  "pai_pai_meta_decode d =
     (if length d < PAI_PAI_META_SIZE then Inl PAI_ERR_INVALID_ARG
      else
        let name_len = unat (get_le16 d)
        in if name_len > PAI_PAI_NAME_MAX then Inl PAI_ERR_PROTOCOL
           else Inr \<lparr>mname = cstr (take name_len (drop 2 d)), family = get_le32 (drop 34 d),
                     context_len = get_le32 (drop 38 d), mlayers = get_le32 (drop 42 d),
                     kv_bytes_per_token = get_le32 (drop 46 d), vocab_size = get_le32 (drop 50 d),
                     reserved = get_le32 (drop 54 d)\<rparr>)"

section \<open>Manifest\<close>

record pai_pai_tensor =
  tname :: bytes
  tvalue_id :: u32
  tdtype :: pai_dtype
  trank :: u32
  tshape :: "u64 list"
  toffset :: u64
  tsize_bytes :: u64

definition put_tensor :: "pai_pai_tensor \<Rightarrow> bytes" where
  "put_tensor t =
     put_le16 (of_nat (length (tname t))) @ tname t @ put_le32 (tvalue_id t) @
     [dtype_code (tdtype t), ucast (trank t), 0, 0] @ concat (map put_le64 (tshape t)) @
     put_le64 (toffset t) @ put_le64 (tsize_bytes t)"

definition pai_pai_manifest_encode :: "pai_pai_tensor list \<Rightarrow> nat \<Rightarrow> bytes res" where
  "pai_pai_manifest_encode ts cap =
     (if length ts = 0 \<or> length ts > PAI_PAI_MAX_TENSORS then Inl PAI_ERR_INVALID_ARG
      else if 4 + (\<Sum>t \<leftarrow> ts. 2 + length (tname t) + 4 + 4 + 6 * 8 + 8 + 8) > cap then Inl PAI_ERR_INVALID_ARG
      else Inr (put_le32 (of_nat (length ts)) @ concat (map put_tensor ts)))"

text \<open>The fixed part of an entry, after the name.\<close>

definition get_tensor :: "bytes \<Rightarrow> bytes \<Rightarrow> pai_pai_tensor res" where
  "get_tensor name r =
     (let dt = r ! 4; rank = ucast (r ! 5) :: u32
      in if rank = 0 \<or> unat rank > PAI_TENSOR_MAX_RANK \<or> unat dt \<ge> 9 then Inl PAI_ERR_PROTOCOL
         else
           let t = \<lparr>tname = cstr name, tvalue_id = get_le32 r, tdtype = dtype_of_code dt, trank = rank,
                    tshape = map (\<lambda>d. le_get_u64 (drop (8 + 8 * d) r)) [0 ..< PAI_TENSOR_MAX_RANK],
                    toffset = le_get_u64 (drop 56 r), tsize_bytes = le_get_u64 (drop 64 r)\<rparr>
           in if tsize_bytes t = 0 then Inl PAI_ERR_PROTOCOL else Inr t)"

fun get_tensors :: "bytes \<Rightarrow> nat \<Rightarrow> nat \<Rightarrow> pai_pai_tensor list res outcome" where
  "get_tensors blob 0 p = Returns (Inr [])"
| "get_tensors blob (Suc n) p =
     (if p + 2 > length blob then Returns (Inl PAI_ERR_PROTOCOL)
      else rd blob p 2 (\<lambda>l.
        let name_len = unat (get_le16 l)
        in if name_len = 0 \<or> name_len \<ge> 64 \<or> p + 2 + name_len + 72 > length blob then Returns (Inl PAI_ERR_PROTOCOL)
           else rd blob (p + 2) name_len (\<lambda>name. rd blob (p + 2 + name_len) 72 (\<lambda>r.
             case get_tensor name r of
               Inl e \<Rightarrow> Returns (Inl e)
             | Inr t \<Rightarrow>
                 (case get_tensors blob n (p + 2 + name_len + 72) of
                    Returns (Inr ts) \<Rightarrow> Returns (Inr (t # ts))
                  | Returns (Inl e) \<Rightarrow> Returns (Inl e)
                  | Fault \<Rightarrow> Fault
                  | Diverges \<Rightarrow> Diverges)))))"

definition pai_pai_manifest_decode :: "bytes \<Rightarrow> nat \<Rightarrow> pai_pai_tensor list res outcome" where
  "pai_pai_manifest_decode blob max_tensors =
     (if length blob < 4 \<or> max_tensors = 0 then Returns (Inl PAI_ERR_INVALID_ARG)
      else
        let count = unat (get_le32 blob)
        in if count = 0 \<or> count > PAI_PAI_MAX_TENSORS \<or> count > max_tensors then Returns (Inl PAI_ERR_PROTOCOL)
           else get_tensors blob count 4)"

section \<open>Files\<close>

text \<open>What the calls of \<^verbatim>\<open>stdio\<close> and \<^verbatim>\<open>malloc\<close> return: \<open>wrote\<close> and \<open>contents\<close> are the bytes that
  \<open>fwrite\<close> and \<open>fread\<close> transfer.\<close>

record stdio =
  opens :: bool
  wrote :: nat
  seeks_end :: bool
  tells :: int
  seeks_start :: bool
  mallocs :: bool
  contents :: bytes
  closes :: bool

definition pai_pai_write_file :: "stdio \<Rightarrow> bytes \<Rightarrow> unit res" where
  "pai_pai_write_file f blob =
     (if length blob = 0 then Inl PAI_ERR_INVALID_ARG
      else if \<not> opens f then Inl PAI_ERR_IO
      else if wrote f \<noteq> length blob then Inl PAI_ERR_IO
      else if \<not> closes f then Inl PAI_ERR_IO
      else Inr ())"

definition pai_pai_read_file :: "stdio \<Rightarrow> bytes res" where
  "pai_pai_read_file f =
     (if \<not> opens f then Inl PAI_ERR_IO
      else if \<not> seeks_end f then Inl PAI_ERR_IO
      else if tells f \<le> 0 \<or> tells f > 2 ^ 32 - 1 then Inl PAI_ERR_IO
      else if \<not> seeks_start f then Inl PAI_ERR_IO
      else if \<not> mallocs f then Inl PAI_ERR_NOMEM
      else if int (length (contents f)) \<noteq> tells f then Inl PAI_ERR_IO
      else if \<not> closes f then Inl PAI_ERR_IO
      else Inr (contents f))"


section \<open>The section table\<close>

definition sections_apart :: "pai_entry \<Rightarrow> pai_entry \<Rightarrow> bool" where
  "sections_apart p e \<longleftrightarrow> unat (eoffset p) + unat (esize p) \<le> unat (eoffset e) \<or>
     unat (eoffset e) + unat (esize e) \<le> unat (eoffset p)"

definition flags_ok :: "u32 \<Rightarrow> u32 \<Rightarrow> bool" where
  "flags_ok ty fl \<longleftrightarrow> fl = 0 \<or> ty = PAI_PAI_SEC_WEIGHTS \<and> fl AND NOT PAI_PAI_SEC_FLAG_COMPRESSED = 0"

definition type_ok :: "u32 \<Rightarrow> bool" where
  "type_ok ty \<longleftrightarrow> 0 < ty \<and> ty \<le> PAI_PAI_SEC_PROFILE"

definition entries_ok :: "nat \<Rightarrow> nat \<Rightarrow> pai_entry list \<Rightarrow> bool" where
  "entries_ok nbytes start es \<longleftrightarrow>
     (\<forall>e \<in> set es. type_ok (etype e) \<and> flags_ok (etype e) (eflags e) \<and> start \<le> unat (eoffset e) \<and>
        unat (eoffset e) + unat (esize e) \<le> nbytes) \<and>
     distinct (map etype es) \<and> sorted_wrt sections_apart es"

lemma overlap_sections:
  assumes "unat (eoffset p) + unat (esize p) < 2 ^ 32" "unat (eoffset e) + unat (esize e) < 2 ^ 32"
  shows "(eoffset e < eoffset p + esize p \<and> eoffset p < eoffset e + esize e) \<longleftrightarrow> \<not> sections_apart p e"
proof -
  have "unat (eoffset p + esize p) = unat (eoffset p) + unat (esize p)"
    "unat (eoffset e + esize e) = unat (eoffset e) + unat (esize e)"
    using assms by (simp_all add: unat_add_lem [THEN iffD1])
  then show ?thesis by (auto simp: sections_apart_def word_less_nat_alt)
qed

lemma entry_bad_iff:
  assumes "nbytes < 2 ^ 32" "\<forall>p \<in> set prev. unat (eoffset p) + unat (esize p) \<le> nbytes" "unat tb + 16 < 2 ^ 32"
  shows "entry_bad nbytes tb prev e \<longleftrightarrow>
    \<not> (type_ok (etype e) \<and> flags_ok (etype e) (eflags e) \<and> 16 + unat tb \<le> unat (eoffset e) \<and>
       unat (eoffset e) + unat (esize e) \<le> nbytes \<and> (\<forall>p \<in> set prev. etype p \<noteq> etype e \<and> sections_apart p e))"
proof (cases "unat (eoffset e) + unat (esize e) \<le> nbytes")
  case True
  have t: "unat (of_nat PAI_PAI_HEADER_SIZE + tb) = 16 + unat tb"
    using assms(3) by (subst unat_add_lem [THEN iffD1]) (simp_all add: pai_consts)
  have "list_ex (\<lambda>p. etype p = etype e \<or> eoffset e < eoffset p + esize p \<and> eoffset p < eoffset e + esize e) prev
      \<longleftrightarrow> (\<exists>p \<in> set prev. etype p = etype e \<or> \<not> sections_apart p e)"
    unfolding list_ex_iff using True assms(1,2) by (intro bex_cong refl) (subst overlap_sections, auto)
  with True show ?thesis
    unfolding entry_bad_def type_ok_def flags_ok_def
    by (auto simp: word_less_nat_alt word_le_nat_alt t not_le unat_eq_0 word_gt_0)
qed (simp add: entry_bad_def)

lemma check_entries_ok:
  assumes "length blob < 2 ^ 32" "entries_ok (length blob) (16 + unat tb) prev" "unat tb + 16 < 2 ^ 32"
    and "16 + (length prev + n) * 16 \<le> length blob"
  shows "yields (check_entries blob tb n prev)
    (\<lambda>es. entries_ok (length blob) (16 + unat tb) es \<and> length es = length prev + n)"
  using assms(2,4)
proof (induction n arbitrary: prev)
  case (Suc n)
  let ?t = "take 16 (drop (16 + length prev * 16) blob)"
  let ?e = "get_entry ?t"
  have rd: "rd blob (PAI_PAI_HEADER_SIZE + length prev * 16) 16 k = k ?t" for k :: "bytes \<Rightarrow> pai_entry list res outcome"
    using Suc.prems(2) by (simp add: rd_def pai_consts)
  show ?case
  proof (cases "entry_bad (length blob) tb prev ?e")
    case True
    then show ?thesis by (simp add: rd)
  next
    case False
    then have "entries_ok (length blob) (16 + unat tb) (prev @ [?e])"
      using Suc.prems(1) entry_bad_iff [OF assms(1) _ assms(3), of prev ?e]
      by (auto simp: entries_ok_def sorted_wrt_append)
    with Suc.IH [of "prev @ [?e]"] Suc.prems(2) False show ?thesis by (simp add: rd)
  qed
qed simp

text \<open>The table that the builder writes.\<close>

fun entries :: "nat \<Rightarrow> pai_section list \<Rightarrow> pai_entry list" where
  "entries cur [] = []"
| "entries cur (s # ss) =
     \<lparr>etype = stype s, eflags = sflags s, eoffset = of_nat cur, esize = of_nat (length (spayload s))\<rparr> #
     entries (cur + length (spayload s)) ss"

definition payload_size :: "pai_section list \<Rightarrow> nat" where
  "payload_size ss = (\<Sum>s \<leftarrow> ss. length (spayload s))"

lemma payload_size_simps [simp]:
  "payload_size [] = 0" "payload_size (s # ss) = length (spayload s) + payload_size ss"
  by (simp_all add: payload_size_def)

lemma length_payloads [simp]: "length (concat (map spayload ss)) = payload_size ss"
  by (induction ss) simp_all

lemma length_put_table [simp]: "length (put_table cur ss) = 16 * length ss"
  by (induction ss arbitrary: cur) simp_all

lemma entries_types [simp]: "map etype (entries cur ss) = map stype ss" "length (entries cur ss) = length ss"
  by (induction ss arbitrary: cur) simp_all

lemma entries_nth:
  "i < length ss \<Longrightarrow> etype (entries cur ss ! i) = stype (ss ! i) \<and> eflags (entries cur ss ! i) = sflags (ss ! i)"
proof (induction ss arbitrary: cur i)
  case (Cons s ss)
  then show ?case by (cases i) simp_all
qed simp

definition sections_ok :: "pai_section list \<Rightarrow> bool" where
  "sections_ok ss \<longleftrightarrow> (\<forall>s \<in> set ss. flags_ok (stype s) (sflags s)) \<and> distinct (map stype ss)"

lemma check_table:
  assumes "blob = pre @ put_table (of_nat cur) ss @ post" "length pre = 16 + length prev * 16"
    and "length blob < 2 ^ 32" "cur + payload_size ss \<le> length blob" "16 + unat tb \<le> cur"
    and "\<forall>p \<in> set prev. unat (eoffset p) + unat (esize p) \<le> cur" "\<forall>s \<in> set ss. type_ok (stype s)"
  shows "check_entries blob tb (length ss) prev =
    Returns (if sections_ok ss \<and> set (map stype ss) \<inter> set (map etype prev) = {} then Inr (prev @ entries cur ss)
             else Inl PAI_ERR_PROTOCOL)"
  using assms
proof (induction ss arbitrary: pre cur prev)
  case Nil
  then show ?case by (simp add: sections_ok_def)
next
  case (Cons s ss)
  let ?n = "length (spayload s)"
  let ?e = "\<lparr>etype = stype s, eflags = sflags s, eoffset = of_nat cur, esize = of_nat ?n\<rparr> :: pai_entry"
  let ?t = "put_le32 (stype s) @ put_le32 (sflags s) @ put_le32 (of_nat cur) @ put_le32 (of_nat ?n)"
  have blob: "blob = pre @ ?t @ put_table (of_nat (cur + ?n)) ss @ post"
    using Cons.prems(1) by simp
  have rd: "rd blob (PAI_PAI_HEADER_SIZE + length prev * 16) 16 k = k ?t" for k :: "bytes \<Rightarrow> pai_entry list res outcome"
    unfolding blob using Cons.prems(2) by (intro rd_at) (simp_all add: pai_consts)
  have e: "get_entry ?t = ?e" by (simp add: get_entry_def)
  have u: "unat (of_nat cur :: u32) = cur" "unat (of_nat ?n :: u32) = ?n"
    using Cons.prems(3,4) by (simp_all add: unat_of_nat32)
  have bad: "entry_bad (length blob) tb prev ?e \<longleftrightarrow>
      \<not> (flags_ok (stype s) (sflags s) \<and> stype s \<notin> set (map etype prev))"
    using Cons.prems u by (subst entry_bad_iff) (auto simp: sections_apart_def image_iff eq_commute [of "stype s"])
  have IH: "check_entries blob tb (length ss) (prev @ [?e]) =
      Returns (if sections_ok ss \<and> set (map stype ss) \<inter> set (map etype (prev @ [?e])) = {}
               then Inr ((prev @ [?e]) @ entries (cur + ?n) ss) else Inl PAI_ERR_PROTOCOL)"
    using Cons.prems blob u by (intro Cons.IH [where pre = "pre @ ?t"]) auto
  have "sections_ok (s # ss) \<and> set (map stype (s # ss)) \<inter> set (map etype prev) = {} \<longleftrightarrow>
      flags_ok (stype s) (sflags s) \<and> stype s \<notin> set (map etype prev) \<and>
      sections_ok ss \<and> set (map stype ss) \<inter> set (map etype (prev @ [?e])) = {}"
    by (auto simp: sections_ok_def)
  then show ?case by (simp add: rd e bad IH del: set_map)
qed

lemma entries_payload:
  assumes "blob = pre @ concat (map spayload ss) @ post" "length pre = cur" "length blob < 2 ^ 32" "i < length ss"
  shows "take (unat (esize (entries cur ss ! i))) (drop (unat (eoffset (entries cur ss ! i))) blob) = spayload (ss ! i)"
  using assms
proof (induction ss arbitrary: pre cur i)
  case (Cons s ss)
  show ?case
  proof (cases i)
    case 0
    have "unat (of_nat cur :: u32) = cur" "unat (of_nat (length (spayload s)) :: u32) = length (spayload s)"
      using Cons.prems(1-3) by (simp_all add: unat_of_nat32)
    with 0 Cons.prems(1,2) show ?thesis by simp
  next
    case (Suc j)
    with Cons.IH [of "pre @ spayload s" "cur + length (spayload s)" j] Cons.prems show ?thesis by simp
  qed
qed simp


section \<open>Building and opening\<close>

inductive pai_built :: "pai_pai_builder \<Rightarrow> bool" where
  init: "pai_built pai_pai_builder_init"
| add: "pai_built b \<Longrightarrow> pai_pai_builder_add_flags b ty fl d sz = Inr b' \<Longrightarrow> pai_built b'"

lemma pai_built_ok: "pai_built b \<Longrightarrow> length b \<le> 8 \<and> (\<forall>s \<in> set b. type_ok (stype s))"
proof (induction rule: pai_built.induct)
  case (add b ty fl d sz b')
  then show ?case
    by (auto simp: pai_pai_builder_add_flags_def type_ok_def pai_consts word_gt_0 not_less split: if_splits)
qed (simp add: pai_pai_builder_init_def)

lemma length_put_head [simp]: "length (put_head n) = 12"
  by (simp add: put_head_def)

lemma put_head_fields:
  "get_le32 (put_head n @ x) = PAI_PAI_MAGIC" "get_le16 (drop 4 (put_head n @ x)) = ucast PAI_PAI_VERSION"
  "(put_head n @ x) ! 6 = 0" "(put_head n @ x) ! 7 = 0" "get_le32 (drop 8 (put_head n @ x)) = of_nat n"
  by (simp_all add: put_head_def nth_append)

text \<open>What the builder's blob opens to.\<close>

lemma open_build:
  assumes "pai_built b" "pai_pai_build b cap = Inr blob"
  defines "cur \<equiv> 16 + length b * 16"
  shows "pai_pai_open blob =
      Returns (if sections_ok b then Inr \<lparr>cversion = 1, cflags = 0, csections = entries cur b, cdata = blob\<rparr>
               else Inl PAI_ERR_PROTOCOL)"
    and "\<exists>pre. blob = pre @ concat (map spayload b) \<and> length pre = cur" "length blob < 2 ^ 32"
proof -
  let ?h = "put_head (length b)"
  let ?rest = "put_table (of_nat cur) b @ concat (map spayload b)"
  let ?c = "put_le32 (pai_crc ?h ?rest)"
  have bl: "blob = ?h @ ?c @ ?rest" and tot: "pai_pai_encoded_size b \<noteq> 0" and b0: "b \<noteq> []"
    using assms(2) by (auto simp: pai_pai_build_def cur_def pai_consts Let_def split: if_splits)
  note ok = pai_built_ok [OF assms(1)]
  have "length blob = pai_pai_encoded_size b"
    using tot bl by (auto simp: pai_pai_encoded_size_def payload_size_def Let_def pai_consts cur_def split: if_splits)
  with tot show len: "length blob < 2 ^ 32" by (auto simp: pai_pai_encoded_size_def Let_def split: if_splits)
  have lb: "length blob = cur + payload_size b" by (simp add: bl cur_def)
  show "\<exists>pre. blob = pre @ concat (map spayload b) \<and> length pre = cur"
    by (rule exI [of _ "?h @ ?c @ put_table (of_nat cur) b"]) (simp add: bl cur_def)
  have n: "unat (of_nat (length b) :: u32) = length b" "unat (of_nat (length b) * 16 :: u32) = length b * 16"
    using ok by (simp_all add: unat_of_nat32 unat_mult_lem [THEN iffD1])
  have t: "check_entries blob (of_nat (length b) * 16) (length b) [] =
      Returns (if sections_ok b then Inr (entries cur b) else Inl PAI_ERR_PROTOCOL)"
    using check_table [of blob "?h @ ?c" cur b "concat (map spayload b)" "[]" "of_nat (length b) * 16"] bl len lb ok n
    by (simp add: cur_def)
  have f: "drop 16 blob = ?rest" "take 12 blob = ?h" "get_le32 (drop 12 blob) = pai_crc ?h ?rest" by (simp_all add: bl)
  have h: "get_le32 blob = PAI_PAI_MAGIC" "get_le16 (drop 4 blob) = ucast PAI_PAI_VERSION" "blob ! 6 = 0" "blob ! 7 = 0"
    "get_le32 (drop 8 blob) = of_nat (length b)"
    unfolding bl by (rule put_head_fields)+
  have "\<not> length blob < 16" "16 + length b * 16 \<le> length blob" "(of_nat (length b) :: u32) \<noteq> 0"
    using lb n b0 by (auto simp: cur_def)
  then show "pai_pai_open blob =
      Returns (if sections_ok b then Inr \<lparr>cversion = 1, cflags = 0, csections = entries cur b, cdata = blob\<rparr>
               else Inl PAI_ERR_PROTOCOL)"
    using t ok n by (simp add: pai_pai_open_def h f Let_def pai_consts PAI_PAI_VERSION_def)
qed

lemma find_distinct_nth:
  "distinct (map f xs) \<Longrightarrow> i < length xs \<Longrightarrow> find (\<lambda>x. f x = f (xs ! i)) xs = Some (xs ! i)"
proof (induction xs arbitrary: i)
  case (Cons x xs)
  then show ?case by (cases i) (auto simp: image_iff)
qed simp

section \<open>Manifest entries\<close>

definition tensor_ok :: "pai_pai_tensor \<Rightarrow> bool" where
  "tensor_ok t \<longleftrightarrow> tname t \<noteq> [] \<and> length (tname t) < 64 \<and> 0 \<notin> set (tname t) \<and> tdtype t \<noteq> PAI_DTYPE_COUNT \<and>
     0 < trank t \<and> unat (trank t) \<le> PAI_TENSOR_MAX_RANK \<and> length (tshape t) = PAI_TENSOR_MAX_RANK \<and> tsize_bytes t \<noteq> 0"

definition tensor_tail :: "pai_pai_tensor \<Rightarrow> bytes" where
  "tensor_tail t = put_le32 (tvalue_id t) @ [dtype_code (tdtype t), ucast (trank t), 0, 0] @
     concat (map put_le64 (tshape t)) @ put_le64 (toffset t) @ put_le64 (tsize_bytes t)"

lemma length_tensor_tail: "length (tshape t) = PAI_TENSOR_MAX_RANK \<Longrightarrow> length (tensor_tail t) = 72"
  by (simp add: tensor_tail_def length_concat comp_def sum_list_triv PAI_TENSOR_MAX_RANK_def)

lemma get_tensor_tail:
  assumes "tensor_ok t"
  shows "get_tensor (tname t) (tensor_tail t) = Inr t"
proof -
  obtain a b c d e f where sh: "tshape t = [a, b, c, d, e, f]"
    using assms six_elements [of "tshape t"] by (auto simp: tensor_ok_def PAI_TENSOR_MAX_RANK_def)
  have r: "unat (trank t) \<le> 6" "trank t \<noteq> 0" using assms by (auto simp: tensor_ok_def PAI_TENSOR_MAX_RANK_def)
  then have "take_bit 8 (trank t) = trank t" by (simp add: take_bit_eq_mod word_unat_eq_iff unat_mod)
  then have rk: "ucast (ucast (trank t) :: u8) = trank t"
    by (simp add: unsigned_ucast_eq word_unat_eq_iff)
  have n: "tensor_tail t ! 4 = dtype_code (tdtype t)" "tensor_tail t ! 5 = ucast (trank t)"
    by (simp_all add: tensor_tail_def nth_append)
  have "[0 ..< PAI_TENSOR_MAX_RANK] = [0, 1, 2, 3, 4, 5]" by (simp add: PAI_TENSOR_MAX_RANK_def upt_rec)
  then have "map (\<lambda>d. le_get_u64 (drop (8 + 8 * d) (tensor_tail t))) [0 ..< PAI_TENSOR_MAX_RANK] = tshape t"
    by (simp add: tensor_tail_def sh)
  moreover have "get_le32 (tensor_tail t) = tvalue_id t" "le_get_u64 (drop 56 (tensor_tail t)) = toffset t"
    "le_get_u64 (drop 64 (tensor_tail t)) = tsize_bytes t"
    by (simp_all add: tensor_tail_def sh)
  ultimately show ?thesis
    using assms r dtype_code_less [of "tdtype t"]
    by (simp add: get_tensor_def Let_def n rk tensor_ok_def PAI_TENSOR_MAX_RANK_def del: le_get_u64_eq)
qed

lemma put_tensor_parts: "put_tensor t = put_le16 (of_nat (length (tname t))) @ tname t @ tensor_tail t"
  by (simp add: put_tensor_def tensor_tail_def)

lemma get_put_tensors:
  assumes "blob = pre @ concat (map put_tensor ts) @ post" "p = length pre" "\<forall>t \<in> set ts. tensor_ok t"
  shows "get_tensors blob (length ts) p = Returns (Inr ts)"
  using assms
proof (induction ts arbitrary: pre p)
  case (Cons t ts)
  let ?n = "length (tname t)"
  let ?rest = "concat (map put_tensor ts) @ post"
  have t: "tensor_ok t" using Cons.prems(3) by simp
  then have tl: "length (tensor_tail t) = 72" by (simp add: tensor_ok_def length_tensor_tail)
  have u: "unat (of_nat ?n :: u16) = ?n" "0 < ?n" "?n < 64" using t by (auto simp: tensor_ok_def unat_of_nat)
  have blob: "blob = pre @ put_le16 (of_nat ?n) @ tname t @ tensor_tail t @ ?rest"
    using Cons.prems(1) by (simp add: put_tensor_parts [of t])
  have r1: "rd blob p 2 k = k (put_le16 (of_nat ?n))" for k :: "bytes \<Rightarrow> pai_pai_tensor list res outcome"
    unfolding blob by (rule rd_at) (simp_all add: Cons.prems(2))
  have r2: "rd blob (p + 2) ?n k = k (tname t)" for k :: "bytes \<Rightarrow> pai_pai_tensor list res outcome"
    using rd_at [of "p + 2" "pre @ put_le16 (of_nat ?n)" ?n "tname t" "tensor_tail t @ ?rest" k] blob Cons.prems(2) by simp
  have r3: "rd blob (p + 2 + ?n) 72 k = k (tensor_tail t)" for k :: "bytes \<Rightarrow> pai_pai_tensor list res outcome"
    using rd_at [of "p + 2 + ?n" "pre @ put_le16 (of_nat ?n) @ tname t" 72 "tensor_tail t" ?rest k] blob Cons.prems(2) tl
    by simp
  have long: "p + 2 + ?n + 72 \<le> length blob" unfolding blob using tl Cons.prems(2) by simp
  have IH: "get_tensors blob (length ts) (p + 2 + ?n + 72) = Returns (Inr ts)"
    using Cons.prems tl by (intro Cons.IH [where pre = "pre @ put_tensor t"]) (auto simp: put_tensor_parts [of t])
  show ?case
    using u long IH by (simp add: r1 r2 r3 get_tensor_tail [OF t] Let_def del: add_2_eq_Suc')
qed simp

text \<open>What the decoder guarantees of an entry: a name whose first byte is zero is read as an empty name.\<close>

definition tensor_wf :: "pai_pai_tensor \<Rightarrow> bool" where
  "tensor_wf t \<longleftrightarrow> length (tname t) < 64 \<and> 0 \<notin> set (tname t) \<and> tdtype t \<noteq> PAI_DTYPE_COUNT \<and>
     0 < trank t \<and> unat (trank t) \<le> PAI_TENSOR_MAX_RANK \<and> length (tshape t) = PAI_TENSOR_MAX_RANK \<and> tsize_bytes t \<noteq> 0"

lemma dtype_of_code_known: "unat c < 9 \<Longrightarrow> dtype_of_code c \<noteq> PAI_DTYPE_COUNT"
proof -
  assume c: "unat c < 9"
  then have "unat c \<in> {0, 1, 2, 3, 4, 5, 6, 7, 8}" by auto
  with c show ?thesis by (auto simp: dtype_of_code_def)
qed

lemma length_cstr: "length (cstr t) \<le> length t"
  by (simp add: cstr_def length_takeWhile_le)

lemma get_tensor_wf: "get_tensor name r = Inr t \<Longrightarrow> length name < 64 \<Longrightarrow> tensor_wf t"
  using length_cstr [of name] dtype_of_code_known [of "r ! 4"]
  by (auto simp: get_tensor_def Let_def tensor_wf_def not_le word_gt_0 split: if_splits)

lemma get_tensors_yields:
  "yields (get_tensors blob n p) (\<lambda>ts. length ts = n \<and> (\<forall>t \<in> set ts. tensor_wf t))"
proof (induction n arbitrary: p)
  case (Suc n)
  let ?n = "unat (get_le16 (take 2 (drop p blob)))"
  let ?name = "take ?n (drop (p + 2) blob)" and ?r = "take 72 (drop (p + 2 + ?n) blob)"
  show ?case
  proof (cases "p + 2 > length blob \<or> ?n = 0 \<or> ?n \<ge> 64 \<or> p + 2 + ?n + 72 > length blob")
    case True
    then show ?thesis by (auto simp: rd_def Let_def)
  next
    case False
    then have eq: "get_tensors blob (Suc n) p =
        (case get_tensor ?name ?r of
           Inl e \<Rightarrow> Returns (Inl e)
         | Inr t \<Rightarrow>
             (case get_tensors blob n (p + 2 + ?n + 72) of
                Returns (Inr ts) \<Rightarrow> Returns (Inr (t # ts))
              | Returns (Inl e) \<Rightarrow> Returns (Inl e)
              | Fault \<Rightarrow> Fault
              | Diverges \<Rightarrow> Diverges))"
      by (simp add: rd_def Let_def)
    have "tensor_wf t" if "get_tensor ?name ?r = Inr t" for t
      using get_tensor_wf [OF that] False by (simp add: min_less_iff_disj)
    then show ?thesis
      unfolding eq using Suc.IH [of "p + 2 + ?n + 72"]
      by (cases "get_tensor ?name ?r") (auto elim!: yields_cases)
  qed
qed simp

section \<open>Properties\<close>

text \<open>C8. Opening any buffer ends without a read outside it. A container that opens has at most eight sections, of
  different known types, whose flags are known; every section lies in the buffer behind the table, and two of them do
  not share a byte.\<close>

theorem pai_open_safe:
  assumes "length blob < 2 ^ 32"
  shows "\<exists>r. pai_pai_open blob = Returns r \<and>
    (\<forall>c. r = Inr c \<longrightarrow> cdata c = blob \<and> length (csections c) \<le> PAI_PAI_MAX_SECTIONS \<and>
       distinct (map etype (csections c)) \<and>
       (\<forall>e \<in> set (csections c). type_ok (etype e) \<and> flags_ok (etype e) (eflags e) \<and>
          PAI_PAI_HEADER_SIZE + length (csections c) * 16 \<le> unat (eoffset e) \<and>
          unat (eoffset e) + unat (esize e) \<le> length blob) \<and>
       (\<forall>i < length (csections c). \<forall>j < i. sections_apart (csections c ! j) (csections c ! i)))"
proof -
  let ?n = "get_le32 (drop 8 blob)"
  show ?thesis
  proof (cases "16 \<le> length blob \<and> unat ?n \<le> 8 \<and> 16 + unat (?n * 16) \<le> length blob")
    case False
    then show ?thesis
      by (cases "length blob < 16"; cases "unat ?n > 8") (auto simp: pai_pai_open_def Let_def pai_consts)
  next
    case True
    have m: "unat (?n * 16) = unat ?n * 16" using True by (subst unat_mult_lem [THEN iffD1]) simp_all
    have "yields (check_entries blob (?n * 16) (unat ?n) [])
        (\<lambda>es. entries_ok (length blob) (16 + unat ?n * 16) es \<and> length es = unat ?n)"
      using check_entries_ok [OF assms, of "?n * 16" "[]" "unat ?n"] True m by (simp add: entries_ok_def)
    then show ?thesis
    proof (rule yields_cases)
      fix es assume "entries_ok (length blob) (16 + unat ?n * 16) es \<and> length es = unat ?n"
        "check_entries blob (?n * 16) (unat ?n) [] = Returns (Inr es)"
      with True show ?thesis
        by (auto simp: pai_pai_open_def Let_def pai_consts entries_ok_def sorted_wrt_iff_nth_less)
    qed (use True in \<open>auto simp: pai_pai_open_def Let_def pai_consts\<close>)
  qed
qed

theorem pai_open_safe_witness:
  "\<exists>r. pai_pai_open [1, 2, 3] = Returns r \<and> (\<forall>c. r = Inr c \<longrightarrow> cdata c = [1, 2, 3])"
proof -
  have "length [1, 2, 3 :: u8] < 2 ^ 32" by simp
  from pai_open_safe [OF this] show ?thesis by blast
qed

lemma opened_sections:
  assumes "pai_built b" "pai_pai_build b cap = Inr blob" "sections_ok b"
  shows "\<exists>c. pai_pai_open blob = Returns (Inr c) \<and>
      (\<forall>s \<in> set b. pai_pai_section_flags c (stype s) = sflags s \<and>
         (\<exists>off sz. pai_pai_section c (stype s) = Some (off, sz) \<and> take (unat sz) (drop (unat off) blob) = spayload s)) \<and>
      (\<forall>ty. ty \<notin> stype ` set b \<longrightarrow> pai_pai_section c ty = None)"
proof -
  let ?cur = "16 + length b * 16"
  let ?es = "entries ?cur b"
  let ?c = "\<lparr>cversion = 1, cflags = 0, csections = ?es, cdata = blob\<rparr>"
  have dist: "distinct (map etype ?es)" using assms(3) by (simp add: sections_ok_def)
  have nth: "etype (?es ! i) = stype (b ! i) \<and> eflags (?es ! i) = sflags (b ! i)" if "i < length b" for i
    using that by (rule entries_nth)
  have "pai_pai_section_flags ?c (stype s) = sflags s \<and>
      (\<exists>off sz. pai_pai_section ?c (stype s) = Some (off, sz) \<and> take (unat sz) (drop (unat off) blob) = spayload s)"
    if s: "s \<in> set b" for s
  proof -
    obtain i where i: "i < length b" "s = b ! i" using s by (auto simp: in_set_conv_nth)
    then have "find (\<lambda>e. etype e = stype s) ?es = Some (?es ! i)"
      using find_distinct_nth [OF dist, of i] nth by simp
    moreover obtain pre where "blob = pre @ concat (map spayload b)" "length pre = ?cur"
      using open_build(2) [OF assms(1,2)] by blast
    ultimately show ?thesis
      using entries_payload [of blob pre b "[]" ?cur i] open_build(3) [OF assms(1,2)] i nth
      by (simp add: pai_pai_section_def pai_pai_section_flags_def)
  qed
  moreover have "pai_pai_section ?c ty = None" if "ty \<notin> stype ` set b" for ty
  proof -
    have "etype ` set ?es = stype ` set b" by (simp flip: set_map)
    then show ?thesis using that by (auto simp: pai_pai_section_def find_None_iff)
  qed
  ultimately show ?thesis using assms(3) open_build(1) [OF assms(1,2)] by auto
qed

text \<open>C14. A built container opens again, and every section is found with its payload and flags, exactly when the types
  of its sections are different and only the weights carry the known flag: the builder checks neither.\<close>

theorem pai_file_roundtrip:
  assumes "pai_built b" "pai_pai_build b cap = Inr blob"
  shows "if sections_ok b
    then \<exists>c. pai_pai_open blob = Returns (Inr c) \<and>
      (\<forall>s \<in> set b. pai_pai_section_flags c (stype s) = sflags s \<and>
         (\<exists>off sz. pai_pai_section c (stype s) = Some (off, sz) \<and> take (unat sz) (drop (unat off) blob) = spayload s)) \<and>
      (\<forall>ty. ty \<notin> stype ` set b \<longrightarrow> pai_pai_section c ty = None)
    else pai_pai_open blob = Returns (Inl PAI_ERR_PROTOCOL)"
  using opened_sections [OF assms] open_build(1) [OF assms] by simp

definition demo_sections :: pai_pai_builder where
  "demo_sections = [\<lparr>stype = 1, sflags = 0, spayload = [7, 8]\<rparr>, \<lparr>stype = 3, sflags = 1, spayload = [9]\<rparr>]"

lemma demo_sections_built: "pai_built demo_sections"
proof -
  have "pai_built [\<lparr>stype = 1, sflags = 0, spayload = [7, 8]\<rparr>]"
    by (rule pai_built.add [OF pai_built.init, of 1 0 "Some [7, 8]" 2])
      (simp add: pai_pai_builder_add_flags_def pai_pai_builder_init_def pai_consts word_less_nat_alt)
  then show ?thesis
    by (rule pai_built.add [of _ 3 1 "Some [9]" 1])
      (simp add: pai_pai_builder_add_flags_def demo_sections_def pai_consts word_less_nat_alt)
qed

lemma demo_sections_ok: "sections_ok demo_sections"
  by (simp add: sections_ok_def demo_sections_def flags_ok_def pai_consts)

definition demo_blob :: bytes where
  "demo_blob = (case pai_pai_build demo_sections 100 of Inr d \<Rightarrow> d | Inl _ \<Rightarrow> [])"

lemma demo_blob_built: "pai_pai_build demo_sections 100 = Inr demo_blob" "length demo_blob = 51"
  by (simp_all add: demo_blob_def pai_pai_build_def Let_def pai_pai_encoded_size_def pai_consts)
    (simp_all add: demo_sections_def)

theorem pai_file_roundtrip_witness:
  "\<exists>c. pai_pai_open demo_blob = Returns (Inr c) \<and>
     (\<exists>off sz. pai_pai_section c 3 = Some (off, sz) \<and> take (unat sz) (drop (unat off) demo_blob) = [9])"
  using pai_file_roundtrip [OF demo_sections_built demo_blob_built(1)] demo_sections_ok
  by (auto simp: demo_sections_def)

text \<open>Corruption behind the header: changing bytes inside a window of four makes a container that opened refused.\<close>

theorem pai_corruption_detected:
  assumes "pai_pai_open (pre @ ms @ post) = Returns (Inr c)" "length ms = 4" "length ms' = 4" "ms \<noteq> ms'" "16 \<le> length pre"
  shows "pai_pai_open (pre @ ms' @ post) \<noteq> Returns (Inr c')"
proof
  assume op: "pai_pai_open (pre @ ms' @ post) = Returns (Inr c')"
  have crc: "pai_crc (take 12 pre) (drop 16 pre @ xs @ post) = get_le32 (drop 12 pre @ xs @ post)"
    if "pai_pai_open (pre @ xs @ post) = Returns (Inr d)" for xs d
    using that assms(5)
    by (auto simp: pai_pai_open_def Let_def pai_consts split: if_splits outcome.splits sum.splits)
  have "get_le32 (drop 12 pre @ ms @ post) = get_le32 (drop 12 pre @ ms' @ post)"
    using assms(5) by (simp add: get_le32_def nth_append)
  then have "pai_crc (take 12 pre) (drop 16 pre @ ms @ post) = pai_crc (take 12 pre) (drop 16 pre @ ms' @ post)"
    using crc [OF assms(1)] crc [OF op] by simp
  then show False
    using crc_upd_burst [OF assms(2-4)] by (simp only: pai_crc_def crc_fin_inj)
qed

theorem pai_corruption_detected_witness:
  "\<exists>ms ms'. ms \<noteq> ms' \<and> length ms = 4 \<and> length ms' = 4 \<and> demo_blob = take 20 demo_blob @ ms @ drop 24 demo_blob \<and>
     (\<forall>c'. pai_pai_open (take 20 demo_blob @ ms' @ drop 24 demo_blob) \<noteq> Returns (Inr c'))"
proof -
  let ?ms = "take 4 (drop 20 demo_blob)"
  let ?ms' = "map (\<lambda>b. b XOR 1) ?ms"
  have "take 20 demo_blob @ ?ms @ drop 4 (drop 20 demo_blob) = demo_blob" by (simp only: append_take_drop_id)
  then have eq: "demo_blob = take 20 demo_blob @ ?ms @ drop 24 demo_blob" by simp
  have l: "length ?ms = 4" "length ?ms' = 4" "16 \<le> length (take 20 demo_blob)" using demo_blob_built(2) by simp_all
  have ne: "?ms \<noteq> ?ms'"
  proof
    assume "?ms = ?ms'"
    then have "?ms ! 0 = ?ms ! 0 XOR 1" using l by (metis nth_map zero_less_numeral)
    then have "bit (?ms ! 0) 0 = bit (?ms ! 0 XOR 1) 0" by simp
    then show False by (simp only: bit_xor_iff bit_1_iff simp_thms)
  qed
  obtain c where "pai_pai_open demo_blob = Returns (Inr c)"
    using open_build(1) [OF demo_sections_built demo_blob_built(1)] demo_sections_ok by auto
  then have "pai_pai_open (take 20 demo_blob @ ?ms @ drop 24 demo_blob) = Returns (Inr c)" using eq by simp
  from pai_corruption_detected [OF this l(1,2) ne l(3)] show ?thesis using ne l eq by blast
qed

text \<open>Metadata survives its codec.\<close>

theorem pai_meta_roundtrip:
  assumes "0 \<notin> set (mname m)" "length (mname m) \<le> PAI_PAI_NAME_MAX" "PAI_PAI_META_SIZE \<le> cap"
  shows "\<exists>d. pai_pai_meta_encode m cap = Inr d \<and> length d = PAI_PAI_META_SIZE \<and> pai_pai_meta_decode (d @ rest) = Inr m"
proof -
  let ?n = "length (mname m)"
  let ?pad = "replicate (32 - ?n) 0 :: bytes"
  let ?fields = "put_le32 (family m) @ put_le32 (context_len m) @ put_le32 (mlayers m) @
    put_le32 (kv_bytes_per_token m) @ put_le32 (vocab_size m) @ put_le32 (reserved m) @ replicate 6 0"
  let ?pre = "put_le16 (of_nat ?n) @ mname m @ ?pad"
  let ?d = "?pre @ ?fields"
  have n: "?n \<le> 31" "unat (of_nat ?n :: u16) = ?n" using assms(2) by (simp_all add: unat_of_nat pai_consts)
  have pre: "length ?pre = 34" using n by simp
  define d where "d = ?d @ rest"
  have f: "drop (34 + k) d = drop k (?fields @ rest)" for k
    using pre unfolding d_def by (simp only: append_assoc drop_append) simp
  have h: "take ?n (drop 2 d) = mname m" "get_le16 d = of_nat ?n" "64 \<le> length d" using n by (simp_all add: d_def)
  have "pai_pai_meta_decode (?d @ rest) = Inr m"
    using n assms(1) f [of 0] f [of 4] f [of 8] f [of 12] f [of 16] f [of 20] h unfolding d_def [symmetric]
    by (simp add: pai_pai_meta_decode_def Let_def pai_consts)
  moreover have "length ?d = 64" using pre by (simp only: length_append) simp
  ultimately show ?thesis using assms(2,3) by (simp add: pai_pai_meta_encode_def pai_consts)
qed

theorem pai_meta_roundtrip_witness:
  "\<exists>d. pai_pai_meta_encode \<lparr>mname = [65], family = 1, context_len = 8, mlayers = 2, kv_bytes_per_token = 16,
      vocab_size = 300, reserved = 0\<rparr> 64 = Inr d \<and>
    pai_pai_meta_decode d = Inr \<lparr>mname = [65], family = 1, context_len = 8, mlayers = 2, kv_bytes_per_token = 16,
      vocab_size = 300, reserved = 0\<rparr>"
  using pai_meta_roundtrip [of "\<lparr>mname = [65], family = 1, context_len = 8, mlayers = 2, kv_bytes_per_token = 16,
      vocab_size = 300, reserved = 0\<rparr>" 64 "[]"] by (auto simp: pai_consts)

lemma manifest_roundtrip:
  assumes "\<forall>t \<in> set ts. tensor_ok t" "pai_pai_manifest_encode ts cap = Inr d" "length ts \<le> n"
  shows "pai_pai_manifest_decode (d @ rest) n = Returns (Inr ts)"
proof -
  from assms have l: "0 < length ts" "length ts \<le> 512" and d: "d = put_le32 (of_nat (length ts)) @ concat (map put_tensor ts)"
    by (auto simp: pai_pai_manifest_encode_def pai_consts split: if_splits)
  have "get_tensors (d @ rest) (length ts) 4 = Returns (Inr ts)"
    using assms(1) by (intro get_put_tensors [where pre = "put_le32 (of_nat (length ts))" and post = rest]) (simp_all add: d)
  moreover have "unat (get_le32 (d @ rest)) = length ts" using l by (simp add: d unat_of_nat32)
  moreover have "4 \<le> length (d @ rest)" by (simp add: d)
  ultimately show ?thesis
    using assms(3) l by (cases n) (auto simp: pai_pai_manifest_decode_def Let_def pai_consts)
qed

text \<open>A manifest of entries with a name, a known datatype, a rank and a size survives its codec; decoding any buffer
  ends inside it and returns at most \<open>max_tensors\<close> entries, each with a known datatype, a rank and a size.\<close>

theorem pai_manifest_codec:
  "(\<forall>t \<in> set ts. tensor_ok t) \<and> pai_pai_manifest_encode ts cap = Inr d \<and> length ts \<le> n \<longrightarrow>
     pai_pai_manifest_decode (d @ rest) n = Returns (Inr ts)"
  "yields (pai_pai_manifest_decode blob n) (\<lambda>us. 0 < length us \<and> length us \<le> n \<and> (\<forall>u \<in> set us. tensor_wf u))"
  using manifest_roundtrip [of ts cap d n rest] get_tensors_yields [of blob "unat (get_le32 blob)" 4]
  by (auto simp: pai_pai_manifest_decode_def Let_def yields_def)


definition demo_tensor :: pai_pai_tensor where
  "demo_tensor = \<lparr>tname = [119], tvalue_id = 1, tdtype = PAI_DTYPE_F32, trank = 1, tshape = [4, 0, 0, 0, 0, 0],
     toffset = 0, tsize_bytes = 16\<rparr>"

theorem pai_manifest_codec_witness:
  "\<exists>d. pai_pai_manifest_encode [demo_tensor] 100 = Inr d \<and> pai_pai_manifest_decode d 4 = Returns (Inr [demo_tensor])"
proof -
  have "\<forall>t \<in> set [demo_tensor]. tensor_ok t" by (simp add: tensor_ok_def demo_tensor_def PAI_TENSOR_MAX_RANK_def)
  moreover obtain d where "pai_pai_manifest_encode [demo_tensor] 100 = Inr d"
    by (simp add: pai_pai_manifest_encode_def demo_tensor_def pai_consts)
  ultimately show ?thesis using pai_manifest_codec(1) [of "[demo_tensor]" 100 d 4 "[]"] by auto
qed

end
