(* ===== verification/Http.thy ===== *)
theory Http
  imports Prelude
begin

text \<open>
  \<^verbatim>\<open>gateway/http.c\<close>: the request parser, the response writer and the connection loop of the gateway's HTTP
  server. A request is parsed from the bytes received so far; a position in them is a natural number and their
  number is below \<open>2 ^ 32\<close>. A string field of the request is the list of its characters before the terminator. The
  lines of the code end at the first zero byte, as its string functions see them.

  The wire sink (\<open>send\<close>) is a function on its context that tells whether the bytes went out. The sockets, the
  handler, \<^verbatim>\<open>realloc\<close> and thread creation are parameters.
\<close>

section \<open>Definitions\<close>

definition ascii :: "string \<Rightarrow> bytes" where
  "ascii s = map of_char s"

definition PAI_HTTP_MAX_HEADER_BYTES :: nat where "PAI_HTTP_MAX_HEADER_BYTES = 1048576"
definition PAI_HTTP_MAX_BODY :: nat where "PAI_HTTP_MAX_BODY = 16777216"
definition PAI_HTTP_MAX_HEADERS :: nat where "PAI_HTTP_MAX_HEADERS = 32"

lemmas http_consts = PAI_HTTP_MAX_HEADER_BYTES_def PAI_HTTP_MAX_BODY_def PAI_HTTP_MAX_HEADERS_def

definition pai_http_status_text :: "int \<Rightarrow> string" where
  "pai_http_status_text status =
     (if status = 200 then ''OK''
      else if status = 400 then ''Bad Request''
      else if status = 404 then ''Not Found''
      else if status = 405 then ''Method Not Allowed''
      else if status = 411 then ''Length Required''
      else if status = 413 then ''Payload Too Large''
      else if status = 500 then ''Internal Server Error''
      else if status = 502 then ''Bad Gateway''
      else if status = 501 then ''Not Implemented''
      else ''Unknown'')"

text \<open>\<open>body\<close> is the offset of the body in the parsed buffer, \<open>None\<close> for NULL.\<close>

record pai_http_req =
  rmethod :: bytes
  rtarget :: bytes
  rpath :: bytes
  rquery :: bytes
  rversion :: bytes
  rheaders :: "(bytes \<times> bytes) list"
  rbody :: "nat option"
  rbody_len :: nat

definition ascii_lower :: "u8 \<Rightarrow> u8" where
  "ascii_lower c = (if 0x41 \<le> c \<and> c \<le> 0x5A then c - 0x41 + 0x61 else c)"

fun ascii_ieq :: "bytes \<Rightarrow> bytes \<Rightarrow> bool" where
  "ascii_ieq (a # as) (b # bs) = (if ascii_lower a \<noteq> ascii_lower b then False else ascii_ieq as bs)"
| "ascii_ieq as bs \<longleftrightarrow> as = [] \<and> bs = []"

definition pai_http_header :: "(bytes \<times> bytes) list \<Rightarrow> bytes \<Rightarrow> bytes option" where
  "pai_http_header hs name = map_option snd (find (\<lambda>h. ascii_ieq (fst h) name) hs)"

text \<open>\<open>out\<close> is what has been copied; its buffer has 1024 bytes.\<close>

function next_line :: "bytes \<Rightarrow> nat \<Rightarrow> bytes \<Rightarrow> (bytes \<times> nat) option" where
  "next_line d i out =
     (if i < length d \<and> length out + 1 < 1024 then
        (if d ! i = 0x0D \<and> i + 1 < length d \<and> d ! (i + 1) = 0x0A then Some (out, i + 2)
         else if d ! i = 0x0A then Some (out, i + 1)
         else next_line d (Suc i) (out @ [d ! i]))
      else None)"
  by pat_completeness auto
termination
  by (relation "measure (\<lambda>(d, i, out). length d - i)") auto

declare next_line.simps [simp del]

fun parse_digits :: "nat \<Rightarrow> bytes \<Rightarrow> nat option" where
  "parse_digits v [] = Some v"
| "parse_digits v (c # cs) =
     (if c < 0x30 \<or> c > 0x39 then None
      else let v' = v * 10 + unat (c - 0x30) in if v' > PAI_HTTP_MAX_BODY then None else parse_digits v' cs)"

definition parse_u64 :: "bytes \<Rightarrow> nat option" where
  "parse_u64 s = (if s = [] then None else parse_digits 0 s)"

text \<open>\<open>strchr\<close>: the parts before and after the first occurrence.\<close>

fun split_at :: "u8 \<Rightarrow> bytes \<Rightarrow> (bytes \<times> bytes) option" where
  "split_at c [] = None"
| "split_at c (x # xs) = (if x = c then Some ([], xs) else map_option (\<lambda>(a, b). (x # a, b)) (split_at c xs))"

text \<open>The request line. The stored target is cut at its question mark.\<close>

definition request_line :: "bytes \<Rightarrow> pai_http_req res" where
  "request_line line =
     (case split_at 0x20 line of
        None \<Rightarrow> Inl PAI_ERR_PROTOCOL
      | Some (m, rest) \<Rightarrow>
          if length m = 0 \<or> length m \<ge> 16 then Inl PAI_ERR_PROTOCOL
          else
            (case split_at 0x20 rest of
               None \<Rightarrow> Inl PAI_ERR_PROTOCOL
             | Some (target, version) \<Rightarrow>
                 if target = [] \<or> length target \<ge> 1024 then Inl PAI_ERR_PROTOCOL
                 else if length version \<ge> 16 then Inl PAI_ERR_PROTOCOL
                 else if take 7 version \<noteq> ascii ''HTTP/1.'' then Inl PAI_ERR_PROTOCOL
                 else
                   (let (path, query) = (case split_at 0x3F target of None \<Rightarrow> (target, []) | Some pq \<Rightarrow> pq)
                    in if length query \<ge> 512 then Inl PAI_ERR_PROTOCOL
                       else if path = [] \<or> length path \<ge> 1024 then Inl PAI_ERR_PROTOCOL
                       else Inr \<lparr>rmethod = m, rtarget = path, rpath = path, rquery = query, rversion = version,
                                 rheaders = [], rbody = None, rbody_len = 0\<rparr>)))"

definition header_line :: "bytes \<Rightarrow> (bytes \<times> bytes) res" where
  "header_line line =
     (case split_at 0x3A line of
        None \<Rightarrow> Inl PAI_ERR_PROTOCOL
      | Some (name, rest) \<Rightarrow>
          if name = [] \<or> length name \<ge> 64 then Inl PAI_ERR_PROTOCOL
          else
            let v = dropWhile (\<lambda>c. c = 0x20 \<or> c = 0x09) rest
            in if length v \<ge> 511 then Inl PAI_ERR_PROTOCOL else Inr (name, v))"

definition line_missing :: "bytes \<Rightarrow> pai_err" where
  "line_missing d = (if length d \<ge> PAI_HTTP_MAX_HEADER_BYTES then PAI_ERR_NOMEM else PAI_ERR_MISMATCH)"

lemma next_line_progress: "next_line d i out = Some (line, p) \<Longrightarrow> i < p \<and> p \<le> length d"
proof (induction d i out rule: next_line.induct)
  case (1 d i out)
  then show ?case
    by (subst (asm) (2) next_line.simps) (auto split: if_splits dest: Suc_lessD)
qed

function header_lines :: "bytes \<Rightarrow> nat \<Rightarrow> (bytes \<times> bytes) list \<Rightarrow> ((bytes \<times> bytes) list \<times> nat) res" where
  "header_lines d pos hs =
     (case next_line d pos [] of
        None \<Rightarrow> Inl (line_missing d)
      | Some (raw, pos') \<Rightarrow>
          let line = cstr raw
          in if line = [] then Inr (hs, pos')
             else if length hs \<ge> PAI_HTTP_MAX_HEADERS then Inl PAI_ERR_NOMEM
             else
               (case header_line line of
                  Inl e \<Rightarrow> Inl e
                | Inr h \<Rightarrow> header_lines d pos' (hs @ [h])))"
  by pat_completeness auto
termination
  by (relation "measure (\<lambda>(d, pos, hs). length d - pos)") (auto dest: next_line_progress)

declare header_lines.simps [simp del]

text \<open>The sum of position and body length is a 32-bit sum.\<close>

definition request_body :: "bytes \<Rightarrow> nat \<Rightarrow> pai_http_req \<Rightarrow> pai_http_req res" where
  "request_body d pos r =
     (case pai_http_header (rheaders r) (ascii ''Content-Length'') of
        Some cl \<Rightarrow>
          (case parse_u64 cl of
             None \<Rightarrow> Inl PAI_ERR_PROTOCOL
           | Some n \<Rightarrow>
               if n > PAI_HTTP_MAX_BODY then Inl PAI_ERR_NOMEM
               else if unat (of_nat pos + of_nat n :: u32) > length d then Inl PAI_ERR_MISMATCH
               else Inr (r\<lparr>rbody := Some pos, rbody_len := n\<rparr>))
      | None \<Rightarrow>
          if pai_http_header (rheaders r) (ascii ''Transfer-Encoding'') \<noteq> None then Inl PAI_ERR_UNSUPPORTED else Inr r)"

definition pai_http_parse_request :: "bytes \<Rightarrow> pai_http_req res" where
  "pai_http_parse_request d =
     (case next_line d 0 [] of
        None \<Rightarrow> Inl (line_missing d)
      | Some (raw, pos) \<Rightarrow>
          (case request_line (cstr raw) of
             Inl e \<Rightarrow> Inl e
           | Inr r \<Rightarrow>
               (case header_lines d pos [] of
                  Inl e \<Rightarrow> Inl e
                | Inr (hs, pos') \<Rightarrow> request_body d pos' (r\<lparr>rheaders := hs\<rparr>))))"

section \<open>Responses\<close>

record 'c pai_http_resp =
  status :: int
  streaming :: bool
  begun :: bool
  ctx :: 'c

type_synonym 'c sink = "bytes \<Rightarrow> 'c \<Rightarrow> 'c \<times> bool"

definition pai_http_resp_init :: "'c \<Rightarrow> 'c pai_http_resp" where
  "pai_http_resp_init c = \<lparr>status = 0, streaming = False, begun = False, ctx = c\<rparr>"

text \<open>\<open>printf\<close> of a decimal and of a hexadecimal number.\<close>

definition digit_char :: "nat \<Rightarrow> u8" where
  "digit_char n = (if n < 10 then 0x30 + of_nat n else 0x61 + of_nat (n - 10))"

fun print_dec :: "nat \<Rightarrow> bytes" where
  "print_dec n = (if n < 10 then [digit_char n] else print_dec (n div 10) @ [digit_char (n mod 10)])"

fun print_hex :: "nat \<Rightarrow> bytes" where
  "print_hex n = (if n < 16 then [digit_char n] else print_hex (n div 16) @ [digit_char (n mod 16)])"

declare print_dec.simps [simp del] print_hex.simps [simp del]

definition print_int :: "int \<Rightarrow> bytes" where
  "print_int i = (if i < 0 then 0x2D # print_dec (nat (- i)) else print_dec (nat i))"

definition crlf :: bytes where "crlf = [0x0D, 0x0A]"

definition response_head :: "int \<Rightarrow> bytes option \<Rightarrow> bool \<Rightarrow> bytes" where
  "response_head st content_type strm =
     ascii ''HTTP/1.1 '' @ print_int st @ [0x20] @ ascii (pai_http_status_text st) @ crlf @
     ascii ''Content-Type: '' @ (case content_type of Some t \<Rightarrow> t | None \<Rightarrow> ascii ''text/plain'') @ crlf @
     (if strm then ascii ''Transfer-Encoding: chunked'' @ crlf else []) @
     ascii ''Connection: close'' @ crlf @ ascii ''Server: ProsperoAI'' @ crlf @ crlf"

text \<open>The header text is printed to a buffer of 512 bytes, which keeps 511 characters and the terminator, and as many
  bytes as the whole text has are sent from it.\<close>

definition pai_http_resp_begin ::
    "'c sink \<Rightarrow> 'c pai_http_resp \<Rightarrow> int \<Rightarrow> bytes option \<Rightarrow> bool \<Rightarrow> ('c pai_http_resp \<times> unit res) outcome" where
  "pai_http_resp_begin send r st content_type strm =
     (let r1 = r\<lparr>status := st, streaming := strm, begun := True\<rparr>;
          text = response_head st content_type strm; n = length text; hdr = take 511 text @ [0]
      in if n > 512 then Fault
         else case send (take n hdr) (ctx r1) of
                (c, ok) \<Rightarrow> Returns (r1\<lparr>ctx := c\<rparr>, if ok then Inr () else Inl PAI_ERR_IO))"

text \<open>The sends of a chunk, until one fails.\<close>

fun send_all :: "'c sink \<Rightarrow> bytes list \<Rightarrow> 'c \<Rightarrow> 'c \<times> bool" where
  "send_all send [] c = (c, True)"
| "send_all send (b # bs) c = (case send b c of (c', ok) \<Rightarrow> if ok then send_all send bs c' else (c', False))"

definition pai_http_resp_write :: "'c sink \<Rightarrow> 'c pai_http_resp \<Rightarrow> bytes \<Rightarrow> 'c pai_http_resp \<times> unit res" where
  "pai_http_resp_write send r d =
     (if \<not> begun r then (r, Inl PAI_ERR_INVALID_ARG)
      else if length d = 0 then (r, Inr ())
      else
        (case (if streaming r then send_all send [print_hex (length d) @ crlf, d, crlf] (ctx r) else send d (ctx r)) of
           (c, ok) \<Rightarrow> (r\<lparr>ctx := c\<rparr>, if ok then Inr () else Inl PAI_ERR_IO)))"

definition pai_http_resp_end :: "'c sink \<Rightarrow> 'c pai_http_resp \<Rightarrow> 'c pai_http_resp \<times> unit res" where
  "pai_http_resp_end send r =
     (if streaming r then
        (case send (ascii ''0'' @ crlf @ crlf) (ctx r) of (c, ok) \<Rightarrow> (r\<lparr>ctx := c\<rparr>, if ok then Inr () else Inl PAI_ERR_IO))
      else (r, Inr ()))"

section \<open>The connection thread\<close>

text \<open>Capacity of the receive buffer: doubled until the bytes fit.\<close>

fun grow :: "nat \<Rightarrow> nat \<Rightarrow> nat \<Rightarrow> nat" where
  "grow 0 ncap need = ncap"
| "grow (Suc k) ncap need = (if ncap < need then grow k (ncap * 2) need else ncap)"

text \<open>An answer with a plain body, as the loop gives to requests it refuses.\<close>

definition plain_answer :: "'c sink \<Rightarrow> 'c \<Rightarrow> int \<Rightarrow> bytes option \<Rightarrow> bytes \<Rightarrow> 'c outcome" where
  "plain_answer send c st ct text =
     (case pai_http_resp_begin send (pai_http_resp_init c) st ct False of
        Returns (r, _) \<Rightarrow>
          Returns (ctx (fst (pai_http_resp_end send (fst (pai_http_resp_write send r text)))))
      | Fault \<Rightarrow> Fault | Diverges \<Rightarrow> Diverges)"

definition refuse_status :: "pai_err \<Rightarrow> int" where
  "refuse_status e = (if e = PAI_ERR_UNSUPPORTED then 501 else if e = PAI_ERR_NOMEM then 413 else 400)"

text \<open>The receive loop: \<open>recvs\<close> are the results of the successive \<open>recv\<close> calls, an error or end of stream being an
  empty result, and \<open>mem\<close> tells which \<open>realloc\<close> calls succeed. The result is the request with its buffer,
  or none, and the context of the socket after what was sent.\<close>

fun recv_loop :: "'c sink \<Rightarrow> (nat \<Rightarrow> bool) \<Rightarrow> bytes list \<Rightarrow> bytes \<Rightarrow> nat \<Rightarrow> nat \<Rightarrow> 'c \<Rightarrow>
    ((pai_http_req \<times> bytes) option \<times> 'c) outcome" where
  "recv_loop send mem [] buf cap k c = Returns (None, c)"
| "recv_loop send mem (tmp # recvs) buf cap k c =
     (if tmp = [] then Returns (None, c)
      else if length buf + length tmp > cap \<and> \<not> mem k then Returns (None, c)
      else
        let need = length buf + length tmp;
            cap' = (if need > cap then grow 32 (if cap = 0 then 8192 else cap * 2) need else cap);
            k' = (if need > cap then Suc k else k);
            buf' = buf @ tmp
        in if need > cap' then Fault
           else
             (case pai_http_parse_request buf' of
                Inr req \<Rightarrow> Returns (Some (req, buf'), c)
              | Inl e \<Rightarrow>
                  if e = PAI_ERR_MISMATCH then
                    (if length buf' \<ge> PAI_HTTP_MAX_HEADER_BYTES + PAI_HTTP_MAX_BODY then
                       (case plain_answer send c 413 (Some (ascii ''text/plain'')) (ascii ''request too large'' @ [0x0A]) of
                          Returns c' \<Rightarrow> Returns (None, c') | Fault \<Rightarrow> Fault | Diverges \<Rightarrow> Diverges)
                     else recv_loop send mem recvs buf' cap' k' c)
                  else
                    (case plain_answer send c (refuse_status e) (Some (ascii ''text/plain'')) (ascii ''bad request'' @ [0x0A]) of
                       Returns c' \<Rightarrow> Returns (None, c') | Fault \<Rightarrow> Fault | Diverges \<Rightarrow> Diverges)))"

definition internal_error :: bytes where
  "internal_error = ascii ''{\"error\":{\"message\":\"internal error\",\"type\":\"server_error\"}}''"

text \<open>The handler is given the request, its buffer and the response, and returns the response and a status.\<close>

definition gw_conn_thread ::
    "'c sink \<Rightarrow> (nat \<Rightarrow> bool) \<Rightarrow> (pai_http_req \<Rightarrow> bytes \<Rightarrow> 'c pai_http_resp \<Rightarrow> 'c pai_http_resp \<times> unit res) \<Rightarrow>
     bytes list \<Rightarrow> 'c \<Rightarrow> 'c outcome" where
  "gw_conn_thread send mem handler recvs c =
     (case recv_loop send mem recvs [] 0 0 c of
        Fault \<Rightarrow> Fault
      | Diverges \<Rightarrow> Diverges
      | Returns (None, c') \<Rightarrow> Returns c'
      | Returns (Some (req, buf), c') \<Rightarrow>
          (case handler req buf (pai_http_resp_init c') of
             (resp, st) \<Rightarrow>
               (case (if st \<noteq> Inr () \<and> \<not> begun resp then
                        (case pai_http_resp_begin send resp 500 (Some (ascii ''application/json'')) False of
                           Returns (r1, _) \<Rightarrow> Returns (fst (pai_http_resp_write send r1 (take 57 internal_error)))
                         | Fault \<Rightarrow> Fault | Diverges \<Rightarrow> Diverges)
                      else Returns resp) of
                  Returns r \<Rightarrow> Returns (ctx (fst (pai_http_resp_end send r)))
                | Fault \<Rightarrow> Fault
                | Diverges \<Rightarrow> Diverges)))"


section \<open>The server\<close>

text \<open>A listener is \<open>None\<close> when invalid. Starting a server takes the results of the socket layer's initialization and of
  \<open>listen\<close>; the accept loop takes the results of \<open>accept\<close> with whether the allocation and the thread succeed, and
  tells which connections were handed to a thread; it ends only when \<open>accept\<close> fails.\<close>

record pai_http_server =
  listener :: "nat option"
  idle_timeout_ms :: nat

definition pai_http_server_init :: "unit res \<Rightarrow> nat res \<Rightarrow> pai_http_server \<times> unit res" where
  "pai_http_server_init sys lis =
     (let s = \<lparr>listener = None, idle_timeout_ms = 15000\<rparr>
      in case sys of
           Inl e \<Rightarrow> (s, Inl e)
         | Inr _ \<Rightarrow> (case lis of Inl e \<Rightarrow> (s, Inl e) | Inr l \<Rightarrow> (s\<lparr>listener := Some l\<rparr>, Inr ())))"

datatype conn_event = Served nat | Closed nat

fun accept_loop :: "(nat res \<times> bool \<times> bool) list \<Rightarrow> conn_event list \<times> unit res option" where
  "accept_loop [] = ([], None)"
| "accept_loop ((Inl e, mem, thread) # as) = ([], Some (Inl e))"
| "accept_loop ((Inr c, mem, thread) # as) =
     (case accept_loop as of (evs, r) \<Rightarrow> ((if mem \<and> thread then Served c else Closed c) # evs, r))"

definition pai_http_server_run ::
    "pai_http_server \<Rightarrow> (nat res \<times> bool \<times> bool) list \<Rightarrow> conn_event list \<times> unit res option" where
  "pai_http_server_run s as = (if listener s = None then ([], Some (Inl PAI_ERR_INVALID_ARG)) else accept_loop as)"

definition pai_http_server_close :: "pai_http_server \<Rightarrow> pai_http_server" where
  "pai_http_server_close s = s\<lparr>listener := None\<rparr>"

section \<open>Lines\<close>

lemma next_line_append: "next_line d i out = Some x \<Longrightarrow> next_line (d @ e) i out = Some x"
proof (induction d i out rule: next_line.induct)
  case (1 d i out)
  show ?case
  proof (cases "i < length d \<and> length out + 1 < 1024")
    case True
    show ?thesis
    proof (cases "d ! i = 0x0D \<and> \<not> i + 1 < length d")
      case c: True
      then have "next_line d (Suc i) (out @ [d ! i]) = None" by (subst next_line.simps) simp
      with "1.prems" True c show ?thesis by (subst (asm) next_line.simps) simp
    next
      case False
      with True have "i + 1 < length d \<or> d ! i \<noteq> 0x0D" by auto
      with "1.prems" "1.IH" True show ?thesis
        by (subst next_line.simps, subst (asm) next_line.simps) (auto simp: nth_append split: if_splits)
    qed
  next
    case False
    with "1.prems" show ?thesis by (subst (asm) next_line.simps) auto
  qed
qed

lemma next_line_take:
  "next_line d i out = Some (line, p) \<Longrightarrow> p \<le> n \<Longrightarrow> next_line (take n d) i out = Some (line, p)"
proof (induction d i out rule: next_line.induct)
  case (1 d i out)
  have "i < p" using next_line_progress [OF "1.prems"(1)] by simp
  with "1.prems" "1.IH" show ?case
    by (subst next_line.simps, subst (asm) (3) next_line.simps) (auto split: if_splits)
qed

lemma next_line_short: "next_line d i out = Some (line, p) \<Longrightarrow> length out < 1024 \<Longrightarrow> p + length out \<le> i + 1024"
proof (induction d i out rule: next_line.induct)
  case (1 d i out)
  then show ?case
    using next_line.simps [of d i out] by (auto split: if_splits)
qed

lemma next_line_plain:
  assumes "d = pre @ line @ crlf @ post" "i = length pre" "0x0A \<notin> set line" "0x0D \<notin> set line"
    and "length out + length line < 1023"
  shows "next_line d i out = Some (out @ line, i + length line + 2)"
  using assms
proof (induction line arbitrary: pre i out)
  case Nil
  then show ?case by (subst next_line.simps) (simp add: crlf_def nth_append)
next
  case (Cons c line)
  have "d ! i = c" "i < length d" using Cons.prems(1,2) by (simp_all add: nth_append)
  moreover have "next_line d (Suc i) (out @ [c]) = Some ((out @ [c]) @ line, Suc i + length line + 2)"
    using Cons.prems by (intro Cons.IH [where pre = "pre @ [c]"]) auto
  ultimately show ?case using Cons.prems(3-5) by (subst next_line.simps) auto
qed

section \<open>More bytes do not change a verdict\<close>

lemma line_missing_cases: "line_missing d = PAI_ERR_NOMEM \<or> line_missing d = PAI_ERR_MISMATCH"
  by (simp add: line_missing_def)

definition final :: "'a res \<Rightarrow> bool" where
  "final r \<longleftrightarrow> r \<noteq> Inl PAI_ERR_MISMATCH \<and> r \<noteq> Inl PAI_ERR_NOMEM"

lemma final_simps [simp]: "final (Inr a)" "final (Inl e) \<longleftrightarrow> e \<noteq> PAI_ERR_MISMATCH \<and> e \<noteq> PAI_ERR_NOMEM"
  by (auto simp: final_def)

lemma header_lines_progress: "header_lines d pos hs = Inr (hs', p) \<Longrightarrow> pos < p"
proof (induction d pos hs rule: header_lines.induct)
  case (1 d pos hs)
  then show ?case
    using header_lines.simps [of d pos hs] next_line_progress [of d pos "[]"]
    by (fastforce simp: Let_def split: option.splits sum.splits if_splits)
qed

lemma header_lines_append: "final (header_lines d pos hs) \<Longrightarrow> header_lines (d @ e) pos hs = header_lines d pos hs"
proof (induction d pos hs rule: header_lines.induct)
  case (1 d pos hs)
  show ?case
  proof (cases "next_line d pos []")
    case None
    with "1.prems" line_missing_cases [of d] show ?thesis by (subst (asm) header_lines.simps) auto
  next
    case (Some rp)
    obtain raw p where rp: "rp = (raw, p)" by force
    note n = Some [unfolded rp]
    show ?thesis
      using "1.IH" [OF n [THEN trans [OF _ refl]]] "1.prems" n next_line_append [OF n, of e]
      by (subst (1 2) header_lines.simps, subst (asm) (2) header_lines.simps)
        (auto simp: Let_def split: sum.splits)
  qed
qed


lemma request_body_append:
  "final (request_body d pos r) \<Longrightarrow> request_body (d @ e) pos r = request_body d pos r"
  by (auto simp: request_body_def split: option.splits if_splits)

lemma parse_append:
  assumes "final (pai_http_parse_request d)"
  shows "pai_http_parse_request (d @ e) = pai_http_parse_request d"
proof (cases "next_line d 0 []")
  case None
  with assms line_missing_cases [of d] show ?thesis by (auto simp: pai_http_parse_request_def)
next
  case (Some rp)
  obtain raw p where rp: "rp = (raw, p)" by force
  note n = Some [unfolded rp]
  show ?thesis
    using assms n next_line_append [OF n, of e] header_lines_append [of d p "[]" e] request_body_append
    by (auto simp: pai_http_parse_request_def split: sum.splits prod.splits)
qed

text \<open>The header of a request that parses is short, so a long prefix of its bytes contains it.\<close>

lemma header_lines_short:
  "header_lines d pos hs = Inr (hs', p) \<Longrightarrow> length hs \<le> 32 \<Longrightarrow> p \<le> pos + 1024 * (33 - length hs)"
proof (induction d pos hs rule: header_lines.induct)
  case (1 d pos hs)
  obtain raw q where n: "next_line d pos [] = Some (raw, q)"
    using "1.prems"(1) by (subst (asm) header_lines.simps) (auto split: option.splits)
  have q: "q \<le> pos + 1024" using next_line_short [OF n] by simp
  show ?case
  proof (cases "cstr raw = []")
    case True
    with "1.prems" n have "p = q" by (subst (asm) header_lines.simps) (auto simp: Let_def)
    with q "1.prems"(2) show ?thesis by (cases "33 - length hs") auto
  next
    case False
    then obtain h where h: "header_line (cstr raw) = Inr h" "length hs < 32" "header_lines d q (hs @ [h]) = Inr (hs', p)"
      using "1.prems" n by (subst (asm) header_lines.simps) (auto simp: Let_def http_consts split: if_splits sum.splits)
    have "p \<le> q + 1024 * (33 - length (hs @ [h]))"
      using "1.IH" [OF n refl refl False _ h(1,3)] h(2) by (simp add: http_consts)
    moreover have "33 - length hs = Suc (33 - length (hs @ [h]))" using h(2) by simp
    ultimately show ?thesis using q by simp
  qed
qed

lemma header_lines_take:
  "header_lines d pos hs = Inr (hs', p) \<Longrightarrow> p \<le> n \<Longrightarrow> header_lines (take n d) pos hs = Inr (hs', p)"
proof (induction d pos hs rule: header_lines.induct)
  case (1 d pos hs)
  obtain raw q where nl: "next_line d pos [] = Some (raw, q)"
    using "1.prems"(1) by (subst (asm) header_lines.simps) (auto split: option.splits)
  show ?case
  proof (cases "cstr raw = []")
    case True
    with "1.prems" nl have "p = q" "hs' = hs" by (subst (asm) header_lines.simps, auto simp: Let_def)+
    with True next_line_take [OF nl, of n] "1.prems"(2) show ?thesis by (subst header_lines.simps) simp
  next
    case False
    then obtain h where h: "header_line (cstr raw) = Inr h" "length hs < 32" "header_lines d q (hs @ [h]) = Inr (hs', p)"
      using "1.prems" nl by (subst (asm) header_lines.simps) (auto simp: Let_def http_consts split: if_splits sum.splits)
    have "q < p" using header_lines_progress [OF h(3)] .
    then have "next_line (take n d) pos [] = Some (raw, q)" using next_line_take [OF nl] "1.prems"(2) by simp
    moreover have "header_lines (take n d) q (hs @ [h]) = Inr (hs', p)"
      using "1.IH" [OF nl refl refl False _ h(1,3)] "1.prems"(2) h(2) by (simp add: http_consts)
    ultimately show ?thesis using False h(1,2) by (subst header_lines.simps) (simp add: Let_def http_consts)
  qed
qed

text \<open>A request with too many headers stays refused.\<close>

lemma header_lines_count:
  "header_lines d pos hs = Inl PAI_ERR_NOMEM \<Longrightarrow> length d < PAI_HTTP_MAX_HEADER_BYTES \<Longrightarrow>
   header_lines (d @ e) pos hs = Inl PAI_ERR_NOMEM"
proof (induction d pos hs rule: header_lines.induct)
  case (1 d pos hs)
  then obtain raw q where n: "next_line d pos [] = Some (raw, q)"
    using header_lines.simps [of d pos hs] by (auto simp: line_missing_def split: option.splits)
  show ?case
    using "1.IH" [OF n refl refl] "1.prems" n next_line_append [OF n, of e]
      header_lines.simps [of d pos hs] header_lines.simps [of "d @ e" pos hs]
    by (auto simp: Let_def split: sum.splits if_splits)
qed

lemma parse_digits_bound: "parse_digits v s = Some n \<Longrightarrow> v \<le> PAI_HTTP_MAX_BODY \<Longrightarrow> n \<le> PAI_HTTP_MAX_BODY"
  by (induction v s rule: parse_digits.induct) (auto simp: Let_def split: if_splits)

lemma parse_u64_bound: "parse_u64 s = Some n \<Longrightarrow> n \<le> PAI_HTTP_MAX_BODY"
  by (auto simp: parse_u64_def intro: parse_digits_bound split: if_splits)

lemma request_body_no_nomem: "request_body d pos r \<noteq> Inl PAI_ERR_NOMEM"
  by (auto simp: request_body_def dest: parse_u64_bound split: option.splits)

lemma parse_prefix:
  assumes "pai_http_parse_request (q @ e) = Inr r"
  shows "pai_http_parse_request q = Inr r \<or> pai_http_parse_request q = Inl PAI_ERR_MISMATCH"
proof (cases "final (pai_http_parse_request q)")
  case True
  with parse_append [OF True, of e] assms show ?thesis by simp
next
  case False
  have "pai_http_parse_request q \<noteq> Inl PAI_ERR_NOMEM"
  proof
    assume no: "pai_http_parse_request q = Inl PAI_ERR_NOMEM"
    let ?d = "q @ e"
    obtain raw p0 r0 hs p where
      d: "next_line ?d 0 [] = Some (raw, p0)" "request_line (cstr raw) = Inr r0" "header_lines ?d p0 [] = Inr (hs, p)"
      using assms by (auto simp: pai_http_parse_request_def split: option.splits sum.splits)
    have p: "p0 < p" "p0 \<le> 1024" "p \<le> 34816"
      using header_lines_progress [OF d(3)] next_line_short [OF d(1)] header_lines_short [OF d(3)] by simp_all
    have q: "take (length q) ?d = q" by simp
    show False
    proof (cases "length q < PAI_HTTP_MAX_HEADER_BYTES")
      case True
      then obtain raw' p0' where n: "next_line q 0 [] = Some (raw', p0')"
        using no by (auto simp: pai_http_parse_request_def line_missing_def split: option.splits)
      with next_line_append [OF n, of e] d(1) have "raw' = raw" "p0' = p0" by simp_all
      with n d(2) no have "header_lines q p0 [] = Inl PAI_ERR_NOMEM"
        by (auto simp: pai_http_parse_request_def request_body_no_nomem split: sum.splits prod.splits)
      from header_lines_count [OF this True, of e] d(3) show False by simp
    next
      case False
      then have "p \<le> length q" "p0 \<le> length q" using p by (simp_all add: http_consts)
      then have "next_line q 0 [] = Some (raw, p0)" "header_lines q p0 [] = Inr (hs, p)"
        using next_line_take [OF d(1), of "length q"] header_lines_take [OF d(3), of "length q"] by simp_all
      with no d(2) show False by (simp add: pai_http_parse_request_def request_body_no_nomem)
    qed
  qed
  with False show ?thesis by (simp add: final_def)
qed

lemma grow_enough: "need \<le> ncap * 2 ^ k \<Longrightarrow> need \<le> grow k ncap need"
  by (induction k ncap need rule: grow.induct) auto

lemma recv_loop_finds:
  assumes "pai_http_parse_request d = Inr r" "length d < PAI_HTTP_MAX_HEADER_BYTES + PAI_HTTP_MAX_BODY"
    and "d = buf @ concat recvs" "recvs \<noteq> []" "[] \<notin> set recvs"
  shows "\<exists>n. recv_loop send (\<lambda>_. True) recvs buf cap k c = Returns (Some (r, take n d), c) \<and>
    pai_http_parse_request (take n d) = Inr r"
  using assms(3-5)
proof (induction recvs arbitrary: buf cap k)
  case (Cons tmp recvs)
  let ?buf = "buf @ tmp"
  let ?need = "length buf + length tmp"
  let ?cap = "if ?need > cap then grow 32 (if cap = 0 then 8192 else cap * 2) ?need else cap"
  have d: "d = ?buf @ concat recvs" using Cons.prems(1) by simp
  have "?need < 2 ^ 32" using assms(2) d by (auto simp: http_consts)
  then have cap: "\<not> ?need > ?cap"
    using grow_enough [of ?need "if cap = 0 then 8192 else cap * 2" 32] by auto
  have buf: "?buf = take ?need d" using d by simp
  have tmp: "tmp \<noteq> []" using Cons.prems(3) by auto
  from parse_prefix [of ?buf "concat recvs" r] assms(1) d
  consider "pai_http_parse_request ?buf = Inr r" | "pai_http_parse_request ?buf = Inl PAI_ERR_MISMATCH" by auto
  then show ?case
  proof cases
    case 1
    then have "recv_loop send (\<lambda>_. True) (tmp # recvs) buf cap k c = Returns (Some (r, ?buf), c)"
      using tmp cap by (simp add: Let_def)
    then show ?thesis using 1 buf by metis
  next
    case 2
    have small: "length ?buf < PAI_HTTP_MAX_HEADER_BYTES + PAI_HTTP_MAX_BODY" using assms(2) d by simp
    have "recvs \<noteq> []" using 2 assms(1) d by auto
    then obtain n where n: "recv_loop send (\<lambda>_. True) recvs ?buf ?cap (if ?need > cap then Suc k else k) c =
        Returns (Some (r, take n d), c)" "pai_http_parse_request (take n d) = Inr r"
      using Cons.IH [OF d _, of ?cap "if ?need > cap then Suc k else k"] Cons.prems(3) by auto
    moreover have "recv_loop send (\<lambda>_. True) (tmp # recvs) buf cap k c =
        recv_loop send (\<lambda>_. True) recvs ?buf ?cap (if ?need > cap then Suc k else k) c"
      using tmp cap small 2 by (simp add: Let_def)
    ultimately show ?thesis by auto
  qed
qed simp


section \<open>What a parsed request satisfies\<close>

definition header_fits :: "bytes \<times> bytes \<Rightarrow> bool" where
  "header_fits h \<longleftrightarrow> fst h \<noteq> [] \<and> length (fst h) < 64 \<and> length (snd h) < 511"

lemma header_line_fits: "header_line line = Inr h \<Longrightarrow> header_fits h"
  by (auto simp: header_line_def header_fits_def Let_def split: option.splits if_splits)

lemma header_lines_fit:
  "header_lines d pos hs = Inr (hs', p) \<Longrightarrow> length hs \<le> 32 \<Longrightarrow> \<forall>h \<in> set hs. header_fits h \<Longrightarrow>
   length hs' \<le> 32 \<and> (\<forall>h \<in> set hs'. header_fits h) \<and> p \<le> length d"
proof (induction d pos hs rule: header_lines.induct)
  case (1 d pos hs)
  obtain raw q where n: "next_line d pos [] = Some (raw, q)"
    using "1.prems"(1) by (subst (asm) header_lines.simps) (auto split: option.splits)
  show ?case
  proof (cases "cstr raw = []")
    case True
    with "1.prems" n next_line_progress [OF n] show ?thesis by (subst (asm) header_lines.simps) (auto simp: Let_def)
  next
    case False
    then obtain h where h: "header_line (cstr raw) = Inr h" "length hs < 32" "header_lines d q (hs @ [h]) = Inr (hs', p)"
      using "1.prems" n by (subst (asm) header_lines.simps) (auto simp: Let_def http_consts split: if_splits sum.splits)
    then show ?thesis
      using "1.IH" [OF n refl refl False _ h(1,3)] header_line_fits [OF h(1)] "1.prems"(3) by (auto simp: http_consts)
  qed
qed

definition line_fits :: "pai_http_req \<Rightarrow> bool" where
  "line_fits r \<longleftrightarrow> rmethod r \<noteq> [] \<and> length (rmethod r) < 16 \<and> rpath r \<noteq> [] \<and> length (rpath r) < 1024 \<and>
     rtarget r = rpath r \<and> length (rquery r) < 512 \<and> length (rversion r) < 16"

lemma request_line_fits: "request_line line = Inr r \<Longrightarrow> line_fits r \<and> rbody r = None \<and> rbody_len r = 0"
  by (auto simp: request_line_def line_fits_def Let_def split: option.splits if_splits prod.splits)

section \<open>Requests as a client writes them\<close>

definition plain :: "bytes \<Rightarrow> bool" where
  "plain s \<longleftrightarrow> 0 \<notin> set s \<and> 0x0A \<notin> set s \<and> 0x0D \<notin> set s"

definition render_target :: "bytes \<Rightarrow> bytes option \<Rightarrow> bytes" where
  "render_target path q = path @ (case q of None \<Rightarrow> [] | Some s \<Rightarrow> 0x3F # s)"

definition render_header :: "bytes \<times> bytes \<Rightarrow> bytes" where
  "render_header h = fst h @ [0x3A, 0x20] @ snd h"

definition render_head :: "bytes \<Rightarrow> bytes \<Rightarrow> bytes option \<Rightarrow> bytes \<Rightarrow> (bytes \<times> bytes) list \<Rightarrow> bytes" where
  "render_head m path q v hs =
     (m @ [0x20] @ render_target path q @ [0x20] @ v) @ crlf @ concat (map (\<lambda>h. render_header h @ crlf) hs) @ crlf"

definition header_wf :: "bytes \<times> bytes \<Rightarrow> bool" where
  "header_wf h \<longleftrightarrow> plain (fst h) \<and> plain (snd h) \<and> fst h \<noteq> [] \<and> length (fst h) < 64 \<and> 0x3A \<notin> set (fst h) \<and>
     length (snd h) < 511 \<and> (snd h = [] \<or> hd (snd h) \<notin> {0x20, 0x09})"

definition request_wf :: "bytes \<Rightarrow> bytes \<Rightarrow> bytes option \<Rightarrow> bytes \<Rightarrow> (bytes \<times> bytes) list \<Rightarrow> bool" where
  "request_wf m path q v hs \<longleftrightarrow>
     plain m \<and> m \<noteq> [] \<and> length m < 16 \<and> 0x20 \<notin> set m \<and>
     plain path \<and> path \<noteq> [] \<and> 0x20 \<notin> set path \<and> 0x3F \<notin> set path \<and>
     (case q of None \<Rightarrow> True | Some s \<Rightarrow> plain s \<and> 0x20 \<notin> set s \<and> length s < 512) \<and>
     plain v \<and> length v < 16 \<and> take 7 v = ascii ''HTTP/1.'' \<and>
     length m + length (render_target path q) + length v < 1021 \<and>
     length hs \<le> PAI_HTTP_MAX_HEADERS \<and> (\<forall>h \<in> set hs. header_wf h)"

lemma split_at_first: "c \<notin> set a \<Longrightarrow> split_at c (a @ c # b) = Some (a, b)"
  by (induction a) auto

lemma split_at_none: "c \<notin> set a \<Longrightarrow> split_at c a = None"
  by (induction a) auto

lemma dropWhile_hd: "xs = [] \<or> \<not> P (hd xs) \<Longrightarrow> dropWhile P xs = xs"
  by (cases xs) auto

lemma header_line_render: "header_wf h \<Longrightarrow> header_line (render_header h) = Inr h"
proof -
  assume h: "header_wf h"
  then have "dropWhile (\<lambda>c. c = 0x20 \<or> c = 0x09) (snd h) = snd h"
    by (intro dropWhile_hd) (auto simp: header_wf_def)
  with h show ?thesis
    using split_at_first [of "0x3A" "fst h" "0x20 # snd h"]
    by (simp add: header_line_def render_header_def header_wf_def Let_def)
qed

lemma header_lines_render:
  assumes "d = pre @ concat (map (\<lambda>h. render_header h @ crlf) hs) @ crlf @ post" "pos = length pre"
    and "\<forall>h \<in> set hs. header_wf h" "length hs0 + length hs \<le> PAI_HTTP_MAX_HEADERS"
  shows "header_lines d pos hs0 = Inr (hs0 @ hs, length d - length post)"
  using assms
proof (induction hs arbitrary: pre pos hs0)
  case Nil
  have "next_line d pos [] = Some ([], pos + 2)"
    using Nil.prems(1,2) next_line_plain [of d pre "[]" post pos "[]"] by simp
  then show ?case using Nil.prems(1,2) by (subst header_lines.simps) (simp add: cstr_def crlf_def)
next
  case (Cons h hs)
  let ?line = "render_header h"
  have h: "header_wf h" using Cons.prems(3) by simp
  then have line: "0x0A \<notin> set ?line" "0x0D \<notin> set ?line" "0 \<notin> set ?line" "?line \<noteq> []" "length ?line < 1023"
    by (auto simp: render_header_def header_wf_def plain_def)
  have n: "next_line d pos [] = Some (?line, pos + length ?line + 2)"
    using next_line_plain [of d pre ?line "concat (map (\<lambda>h. render_header h @ crlf) hs) @ crlf @ post" pos "[]"] Cons.prems(1,2) line
    by simp
  have "header_lines d (pos + length ?line + 2) (hs0 @ [h]) = Inr ((hs0 @ [h]) @ hs, length d - length post)"
    using Cons.prems by (intro Cons.IH [where pre = "pre @ ?line @ crlf"]) (auto simp: crlf_def)
  then show ?case
    using n line header_line_render [OF h] Cons.prems(4) by (subst header_lines.simps) (simp add: Let_def)
qed

lemma request_line_render:
  assumes "request_wf m path q v hs"
  shows "request_line (m @ [0x20] @ render_target path q @ [0x20] @ v) =
    Inr \<lparr>rmethod = m, rtarget = path, rpath = path, rquery = (case q of None \<Rightarrow> [] | Some s \<Rightarrow> s), rversion = v,
         rheaders = [], rbody = None, rbody_len = 0\<rparr>"
proof -
  let ?t = "render_target path q"
  note w = assms [unfolded request_wf_def]
  have "0x20 \<notin> set ?t" using w by (auto simp: render_target_def split: option.splits)
  then have s2: "split_at 0x20 (?t @ 0x20 # v) = Some (?t, v)" by (rule split_at_first)
  have s1: "split_at 0x20 (m @ 0x20 # ?t @ 0x20 # v) = Some (m, ?t @ 0x20 # v)" using w by (intro split_at_first) simp
  have s3: "(case split_at 0x3F ?t of None \<Rightarrow> (?t, []) | Some pq \<Rightarrow> pq) = (path, case q of None \<Rightarrow> [] | Some s \<Rightarrow> s)"
    using w by (auto simp: render_target_def split_at_first split_at_none split: option.split)
  have "length ?t < 1024" "?t \<noteq> []" "length path < 1024" using w by (auto simp: render_target_def)
  with w s3 show ?thesis by (auto simp: request_line_def s1 s2 Let_def split: option.splits)
qed

lemma digit_char_parse: "k < 10 \<Longrightarrow> \<not> digit_char k < 0x30 \<and> \<not> digit_char k > 0x39 \<and> unat (digit_char k - 0x30) = k"
proof -
  assume "k < 10"
  then have "k \<in> {0, 1, 2, 3, 4, 5, 6, 7, 8, 9}" by auto
  then show ?thesis by (auto simp: digit_char_def)
qed

lemma parse_digits_snoc:
  "parse_digits v (xs @ [c]) = (case parse_digits v xs of None \<Rightarrow> None | Some w \<Rightarrow> parse_digits w [c])"
  by (induction v xs rule: parse_digits.induct) (auto simp: Let_def)

lemma parse_print_dec: "n \<le> PAI_HTTP_MAX_BODY \<Longrightarrow> parse_digits 0 (print_dec n) = Some n"
proof (induction n rule: print_dec.induct)
  case (1 n)
  show ?case
  proof (cases "n < 10")
    case True
    with digit_char_parse [OF True] "1.prems" show ?thesis by (simp add: print_dec.simps Let_def)
  next
    case False
    with 1 have "parse_digits 0 (print_dec (n div 10)) = Some (n div 10)" by (simp add: http_consts)
    with False digit_char_parse [of "n mod 10"] "1.prems" show ?thesis
      by (simp add: print_dec.simps [of n] parse_digits_snoc Let_def)
  qed
qed

lemma parse_print_large: "n > PAI_HTTP_MAX_BODY \<Longrightarrow> parse_digits 0 (print_dec n) = None"
proof (induction n rule: print_dec.induct)
  case (1 n)
  have big: "\<not> n < 10" using "1.prems" by (simp add: http_consts)
  show ?case
  proof (cases "n div 10 > PAI_HTTP_MAX_BODY")
    case True
    with "1.IH" [OF big] show ?thesis by (simp add: print_dec.simps [of n] big parse_digits_snoc)
  next
    case False
    with "1.prems" digit_char_parse [of "n mod 10"] show ?thesis
      by (simp add: print_dec.simps [of n] big parse_digits_snoc parse_print_dec Let_def)
  qed
qed

lemma print_dec_nonempty: "print_dec n \<noteq> []"
  by (subst print_dec.simps) simp

lemma parse_render:
  assumes "request_wf m path q v hs"
  shows "pai_http_parse_request (render_head m path q v hs @ rest) =
    request_body (render_head m path q v hs @ rest) (length (render_head m path q v hs))
      \<lparr>rmethod = m, rtarget = path, rpath = path, rquery = (case q of None \<Rightarrow> [] | Some s \<Rightarrow> s), rversion = v,
       rheaders = hs, rbody = None, rbody_len = 0\<rparr>"
proof -
  let ?line = "m @ [0x20] @ render_target path q @ [0x20] @ v"
  let ?hl = "concat (map (\<lambda>h. render_header h @ crlf) hs)"
  let ?d = "render_head m path q v hs @ rest"
  note w = assms [unfolded request_wf_def]
  have d: "?d = [] @ ?line @ crlf @ (?hl @ crlf @ rest)" by (simp add: render_head_def)
  have line: "0x0A \<notin> set ?line" "0x0D \<notin> set ?line" "0 \<notin> set ?line" "length ?line < 1023"
    using w by (auto simp: plain_def render_target_def split: option.splits)
  have n: "next_line ?d 0 [] = Some (?line, length ?line + 2)"
    using next_line_plain [OF d, of 0 "[]"] line by simp
  have h: "header_lines ?d (length ?line + 2) [] = Inr ([] @ hs, length ?d - length rest)"
    using w by (intro header_lines_render [where pre = "?line @ crlf"]) (simp_all add: render_head_def crlf_def)
  show ?thesis
    using n h request_line_render [OF assms] line(3) by (simp add: pai_http_parse_request_def del: append_assoc)
qed

section \<open>Chunked bodies\<close>

text \<open>A decoder of the chunked transfer coding, the reference for what the response writer emits.\<close>

definition hex_value :: "u8 \<Rightarrow> nat option" where
  "hex_value c = (if 0x30 \<le> c \<and> c \<le> 0x39 then Some (unat c - 48)
                  else if 0x61 \<le> c \<and> c \<le> 0x66 then Some (unat c - 87) else None)"

fun parse_hex :: "nat \<Rightarrow> bytes \<Rightarrow> nat option" where
  "parse_hex v [] = Some v"
| "parse_hex v (c # cs) = (case hex_value c of None \<Rightarrow> None | Some k \<Rightarrow> parse_hex (16 * v + k) cs)"

lemma split_at_length: "split_at c s = Some (a, b) \<Longrightarrow> length b < length s"
  by (induction s arbitrary: a) (auto split: if_splits dest: less_Suc_eq_le [THEN iffD2, OF less_imp_le])

function dechunk :: "bytes \<Rightarrow> bytes option" where
  "dechunk s =
     (case split_at 0x0D s of
        None \<Rightarrow> None
      | Some (h, rest) \<Rightarrow>
          (case parse_hex 0 h of
             None \<Rightarrow> None
           | Some n \<Rightarrow>
               if take 1 rest \<noteq> [0x0A] then None
               else if n = 0 then (if drop 1 rest = crlf then Some [] else None)
               else if length rest < n + 3 \<or> take 2 (drop (n + 1) rest) \<noteq> crlf then None
               else map_option ((@) (take n (drop 1 rest))) (dechunk (drop (n + 3) rest))))"
  by pat_completeness auto
termination
  by (relation "measure length") (auto dest: split_at_length)

declare dechunk.simps [simp del]

definition capture :: "bytes sink" where
  "capture b c = (c @ b, True)"

lemma hex_digit_value: "k < 16 \<Longrightarrow> hex_value (digit_char k) = Some k \<and> digit_char k \<noteq> 0x0D"
proof -
  assume "k < 16"
  then have "k \<in> {0, 1, 2, 3, 4, 5, 6, 7, 8, 9, 10, 11, 12, 13, 14, 15}"
    by (simp only: insert_iff empty_iff) presburger
  then show ?thesis by (auto simp: digit_char_def hex_value_def word_le_nat_alt)
qed

lemma parse_hex_snoc:
  "parse_hex v (xs @ [c]) = (case parse_hex v xs of None \<Rightarrow> None | Some w \<Rightarrow> parse_hex w [c])"
  by (induction v xs rule: parse_hex.induct) (auto split: option.splits)

lemma parse_print_hex: "parse_hex 0 (print_hex n) = Some n \<and> 0x0D \<notin> set (print_hex n)"
proof (induction n rule: print_hex.induct)
  case (1 n)
  show ?case
  proof (cases "n < 16")
    case True
    with hex_digit_value [OF True] show ?thesis by (simp add: print_hex.simps)
  next
    case False
    with 1 hex_digit_value [of "n mod 16"] show ?thesis
      by (simp add: print_hex.simps [of n] parse_hex_snoc)
  qed
qed

lemma dechunk_chunk:
  assumes "d \<noteq> []"
  shows "dechunk (print_hex (length d) @ crlf @ d @ crlf @ s) = map_option ((@) d) (dechunk s)"
proof -
  have "split_at 0x0D (print_hex (length d) @ crlf @ d @ crlf @ s) = Some (print_hex (length d), 0x0A # d @ crlf @ s)"
    using split_at_first [of "0x0D" "print_hex (length d)" "0x0A # d @ crlf @ s"] parse_print_hex
    by (simp add: crlf_def)
  moreover have "drop (length d + 3) (0x0A # d @ crlf @ s) = s" by (simp add: crlf_def numeral_3_eq_3)
  ultimately show ?thesis
    using assms parse_print_hex [of "length d"] by (subst dechunk.simps) (simp add: crlf_def)
qed

lemma dechunk_end: "dechunk (ascii ''0'' @ crlf @ crlf) = Some []"
  by (subst dechunk.simps) (simp add: ascii_def crlf_def hex_value_def)

lemma write_chunk:
  assumes "begun r" "streaming r"
  shows "\<exists>w. pai_http_resp_write capture r d = (r\<lparr>ctx := ctx r @ w\<rparr>, Inr ()) \<and>
    (\<forall>s. dechunk (w @ s) = map_option ((@) d) (dechunk s))"
proof (cases "d = []")
  case True
  then have "pai_http_resp_write capture r d = (r\<lparr>ctx := ctx r @ []\<rparr>, Inr ())"
    using assms(1) by (simp add: pai_http_resp_write_def)
  moreover have "dechunk ([] @ s) = map_option ((@) d) (dechunk s)" for s
    using True by (cases "dechunk s") simp_all
  ultimately show ?thesis by blast
next
  case False
  let ?w = "print_hex (length d) @ crlf @ d @ crlf"
  have "pai_http_resp_write capture r d = (r\<lparr>ctx := ctx r @ ?w\<rparr>, Inr ())"
    using assms False by (simp add: pai_http_resp_write_def capture_def)
  then show ?thesis using dechunk_chunk [OF False] by (intro exI [of _ ?w]) simp
qed

definition write_all :: "'c sink \<Rightarrow> 'c pai_http_resp \<Rightarrow> bytes list \<Rightarrow> 'c pai_http_resp" where
  "write_all send r ds = foldl (\<lambda>r d. fst (pai_http_resp_write send r d)) r ds"

lemma write_all_chunks:
  assumes "begun r" "streaming r"
  shows "\<exists>w. write_all capture r ds = r\<lparr>ctx := ctx r @ w\<rparr> \<and>
    (\<forall>s. dechunk (w @ s) = map_option ((@) (concat ds)) (dechunk s))"
  using assms
proof (induction ds arbitrary: r)
  case Nil
  have "dechunk s = map_option ((@) []) (dechunk s)" for s by (cases "dechunk s") simp_all
  then show ?case by (intro exI [of _ "[]"]) (simp add: write_all_def option.map_ident)
next
  case (Cons d ds)
  obtain w where w: "pai_http_resp_write capture r d = (r\<lparr>ctx := ctx r @ w\<rparr>, Inr ())"
    "\<forall>s. dechunk (w @ s) = map_option ((@) d) (dechunk s)"
    using write_chunk [OF Cons.prems] by blast
  obtain w' where w': "write_all capture (r\<lparr>ctx := ctx r @ w\<rparr>) ds = r\<lparr>ctx := (ctx r @ w) @ w'\<rparr>"
    "\<forall>s. dechunk (w' @ s) = map_option ((@) (concat ds)) (dechunk s)"
    using Cons.IH [of "r\<lparr>ctx := ctx r @ w\<rparr>"] Cons.prems by auto
  have "write_all capture r (d # ds) = r\<lparr>ctx := ctx r @ (w @ w')\<rparr>"
    using w(1) w'(1) by (simp add: write_all_def)
  moreover have "dechunk ((w @ w') @ s) = map_option ((@) (concat (d # ds))) (dechunk s)" for s
    using w(2) w'(2) by (cases "dechunk s") simp_all
  ultimately show ?case by blast
qed

section \<open>Properties\<close>

text \<open>C5. How the bytes of a request arrive does not matter: when they parse as a whole, the receive loop ends with the
  same request whatever the pieces, having answered nothing; a verdict that is not ``incomplete'' or ``too large'' on
  some bytes is the verdict on every continuation of them.\<close>

theorem http_pieces:
  assumes "pai_http_parse_request (concat recvs) = Inr r" "[] \<notin> set recvs"
    and "length (concat recvs) < PAI_HTTP_MAX_HEADER_BYTES + PAI_HTTP_MAX_BODY"
  shows "(\<exists>n. recv_loop send (\<lambda>_. True) recvs [] 0 0 c = Returns (Some (r, take n (concat recvs)), c) \<and>
      pai_http_parse_request (take n (concat recvs)) = Inr r) \<and>
    (\<forall>e. pai_http_parse_request d = Inl e \<and> e \<noteq> PAI_ERR_MISMATCH \<and> e \<noteq> PAI_ERR_NOMEM \<longrightarrow>
      pai_http_parse_request (d @ rest) = Inl e)"
proof (intro conjI)
  have "recvs \<noteq> []"
    using assms(1) by (auto simp: pai_http_parse_request_def next_line.simps)
  then show "\<exists>n. recv_loop send (\<lambda>_. True) recvs [] 0 0 c = Returns (Some (r, take n (concat recvs)), c) \<and>
      pai_http_parse_request (take n (concat recvs)) = Inr r"
    using assms by (intro recv_loop_finds) simp_all
  show "\<forall>e. pai_http_parse_request d = Inl e \<and> e \<noteq> PAI_ERR_MISMATCH \<and> e \<noteq> PAI_ERR_NOMEM \<longrightarrow>
      pai_http_parse_request (d @ rest) = Inl e"
    using parse_append [of d rest] by (auto simp: final_def)
qed

definition demo_head :: bytes where
  "demo_head = render_head (ascii ''POST'') (ascii ''/v1'') (Some (ascii ''a=1'')) (ascii ''HTTP/1.1'') [(ascii ''content-length'', ascii ''2'')]"

lemma demo_request_wf:
  "request_wf (ascii ''POST'') (ascii ''/v1'') (Some (ascii ''a=1'')) (ascii ''HTTP/1.1'') [(ascii ''content-length'', ascii ''2'')]"
  by (simp add: request_wf_def header_wf_def plain_def ascii_def render_target_def http_consts)

lemma demo_header: "pai_http_header [(ascii ''content-length'', ascii ''2'')] (ascii ''Content-Length'') = Some (print_dec 2)"
  by (simp add: pai_http_header_def ascii_def ascii_lower_def print_dec.simps digit_char_def word_le_nat_alt)

text \<open>The value a \<open>Content-Length\<close> text stands for: a non-empty sequence of decimal digits, read in base ten.\<close>

definition dec_digit :: "u8 \<Rightarrow> bool" where
  "dec_digit c \<longleftrightarrow> 0x30 \<le> c \<and> c \<le> 0x39"

definition decimal_value :: "bytes \<Rightarrow> nat option" where
  "decimal_value s =
     (if s \<noteq> [] \<and> list_all dec_digit s then Some (foldl (\<lambda>v c. 10 * v + unat (c - 0x30)) 0 s) else None)"

lemma foldl_decimal_ge: "v \<le> foldl (\<lambda>v c. 10 * v + unat (c - 0x30 :: u8)) v s"
proof (induction s arbitrary: v)
  case (Cons c s)
  show ?case using Cons.IH [of "10 * v + unat (c - 0x30)"] by simp
qed simp

lemma parse_digits_value:
  "v \<le> PAI_HTTP_MAX_BODY \<Longrightarrow> parse_digits v s = (let n = foldl (\<lambda>v c. 10 * v + unat (c - 0x30)) v s
     in if list_all dec_digit s \<and> n \<le> PAI_HTTP_MAX_BODY then Some n else None)"
proof (induction s arbitrary: v)
  case (Cons c s)
  let ?v = "10 * v + unat (c - 0x30)"
  show ?case
  proof (cases "dec_digit c \<and> ?v \<le> PAI_HTTP_MAX_BODY")
    case True
    then show ?thesis using Cons.IH [of ?v] by (simp add: dec_digit_def mult.commute linorder_not_less Let_def)
  next
    case False
    then show ?thesis
      using foldl_decimal_ge [of ?v s] by (auto simp: dec_digit_def mult.commute linorder_not_less Let_def)
  qed
qed simp

lemma parse_u64_value:
  "parse_u64 s = (case decimal_value s of None \<Rightarrow> None | Some n \<Rightarrow> if n \<le> PAI_HTTP_MAX_BODY then Some n else None)"
  by (simp add: parse_u64_def decimal_value_def parse_digits_value Let_def)

lemma render_head_short:
  assumes "request_wf m path q v hs"
  shows "length (render_head m path q v hs) < PAI_HTTP_MAX_HEADER_BYTES"
proof -
  have line: "length m + length (render_target path q) + length v < 1021" and hs: "length hs \<le> 32"
    and h: "\<forall>h \<in> set hs. length (render_header h @ crlf) \<le> 600"
    using assms by (auto simp: request_wf_def header_wf_def render_header_def crlf_def http_consts)
  have "length (concat (map (\<lambda>h. render_header h @ crlf) hs)) \<le> 600 * length hs"
    using h by (induction hs) auto
  with line hs show ?thesis by (simp add: render_head_def crlf_def http_consts)
qed

text \<open>C15. Every request a client may write within the limits of the header, whatever its headers say of a body and
  whatever bytes follow the empty line: a request without \<open>Content-Length\<close> and \<open>Transfer-Encoding\<close> (a plain GET) is
  parsed to its parts with no body; with only a \<open>Transfer-Encoding\<close> it is unsupported; a \<open>Content-Length\<close> that is not
  a decimal number of at most \<open>PAI_HTTP_MAX_BODY\<close> is malformed; one whose body has not arrived in full is
  incomplete; otherwise the body starts after the empty line and has the announced size. The parts are the method,
  the path and the query of the target, the version and the headers in order. The stored \<open>rtarget\<close> is the path alone:
  the parser cuts the target at its question mark in place, where \<open>http.h\<close> calls it the raw target, path and query.\<close>

theorem http_parse_exact:
  assumes wf: "request_wf m path q v hs"
  shows "pai_http_parse_request (render_head m path q v hs @ rest) =
    (let r = \<lparr>rmethod = m, rtarget = path, rpath = path, rquery = (case q of None \<Rightarrow> [] | Some s \<Rightarrow> s), rversion = v,
              rheaders = hs, rbody = None, rbody_len = 0\<rparr>
     in case pai_http_header hs (ascii ''Content-Length'') of
          None \<Rightarrow> (if pai_http_header hs (ascii ''Transfer-Encoding'') = None then Inr r else Inl PAI_ERR_UNSUPPORTED)
        | Some text \<Rightarrow>
            (case decimal_value text of
               None \<Rightarrow> Inl PAI_ERR_PROTOCOL
             | Some n \<Rightarrow>
                 if n > PAI_HTTP_MAX_BODY then Inl PAI_ERR_PROTOCOL
                 else if n > length rest then Inl PAI_ERR_MISMATCH
                 else Inr (r\<lparr>rbody := Some (length (render_head m path q v hs)), rbody_len := n\<rparr>)))"
proof -
  let ?h = "length (render_head m path q v hs)"
  show ?thesis
  proof (cases "pai_http_header hs (ascii ''Content-Length'')")
    case None
    then show ?thesis unfolding parse_render [OF wf] by (simp add: request_body_def)
  next
    case (Some t)
    have sum: "unat (of_nat ?h + of_nat n :: u32) = ?h + n" if "n \<le> PAI_HTTP_MAX_BODY" for n
      using that render_head_short [OF wf] by (simp add: unat_of_nat32 http_consts flip: of_nat_add)
    show ?thesis
    proof (cases "decimal_value t")
      case None
      then show ?thesis
        unfolding parse_render [OF wf] using Some by (simp add: request_body_def parse_u64_value)
    next
      case (Some n)
      with sum [of n] \<open>_ = Some t\<close> show ?thesis
        unfolding parse_render [OF wf] by (simp add: request_body_def parse_u64_value)
    qed
  qed
qed

text \<open>A GET without a body, a POST with one, and the same POST before its last byte has arrived.\<close>

theorem http_parse_exact_witness:
  "pai_http_parse_request (render_head (ascii ''GET'') (ascii ''/'') None (ascii ''HTTP/1.1'') [] @ []) =
    Inr \<lparr>rmethod = ascii ''GET'', rtarget = ascii ''/'', rpath = ascii ''/'', rquery = [], rversion = ascii ''HTTP/1.1'',
         rheaders = [], rbody = None, rbody_len = 0\<rparr> \<and>
   pai_http_parse_request (demo_head @ [123, 125]) =
    Inr \<lparr>rmethod = ascii ''POST'', rtarget = ascii ''/v1'', rpath = ascii ''/v1'', rquery = ascii ''a=1'', rversion = ascii ''HTTP/1.1'',
         rheaders = [(ascii ''content-length'', ascii ''2'')], rbody = Some (length demo_head), rbody_len = 2\<rparr> \<and>
   pai_http_parse_request (demo_head @ [123]) = Inl PAI_ERR_MISMATCH"
proof -
  have get: "request_wf (ascii ''GET'') (ascii ''/'') None (ascii ''HTTP/1.1'') []"
    by (simp add: request_wf_def plain_def ascii_def render_target_def http_consts)
  have two: "decimal_value (print_dec 2) = Some 2"
    by (simp add: decimal_value_def dec_digit_def print_dec.simps digit_char_def)
  show ?thesis
    using http_parse_exact [OF get, of "[]"] http_parse_exact [OF demo_request_wf, of "[123, 125]"]
      http_parse_exact [OF demo_request_wf, of "[123]"]
    by (simp add: demo_header two http_consts flip: demo_head_def) (simp add: pai_http_header_def)
qed

lemma demo_parse: "\<exists>r. pai_http_parse_request (demo_head @ [123, 125]) = Inr r"
proof -
  have l: "length (render_head (ascii ''POST'') (ascii ''/v1'') (Some (ascii ''a=1'')) (ascii ''HTTP/1.1'')
      [(ascii ''content-length'', ascii ''2'')]) = 44"
    by (simp add: render_head_def render_target_def render_header_def ascii_def crlf_def)
  have "parse_u64 (print_dec 2) = Some 2"
    using parse_print_dec [of 2] print_dec_nonempty by (simp add: parse_u64_def http_consts)
  then show ?thesis
    unfolding demo_head_def parse_render [OF demo_request_wf] l
    using l by (simp add: request_body_def demo_header http_consts)
qed

theorem http_pieces_witness:
  "\<exists>r n. recv_loop capture (\<lambda>_. True) [demo_head, [123], [125]] [] 0 0 [] =
     Returns (Some (r, take n (demo_head @ [123, 125])), [])"
proof -
  obtain r where r: "pai_http_parse_request (concat [demo_head, [123], [125]]) = Inr r" using demo_parse by auto
  have "[] \<notin> set [demo_head, [123], [125 :: u8]]"
    "length (concat [demo_head, [123], [125 :: u8]]) < PAI_HTTP_MAX_HEADER_BYTES + PAI_HTTP_MAX_BODY"
    by (simp_all add: demo_head_def render_head_def render_target_def render_header_def ascii_def crlf_def http_consts)
  from conjunct1 [OF http_pieces [OF r this, of capture "[]"]] show ?thesis by auto
qed

text \<open>C25. The chunks that a streaming response writes decode to the bytes that were written.\<close>

theorem http_chunked_roundtrip:
  assumes "begun r" "streaming r"
  shows "\<exists>w. pai_http_resp_end capture (write_all capture r ds) = (r\<lparr>ctx := ctx r @ w\<rparr>, Inr ()) \<and>
    dechunk w = Some (concat ds)"
proof -
  let ?e = "ascii ''0'' @ crlf @ crlf"
  obtain w where w: "write_all capture r ds = r\<lparr>ctx := ctx r @ w\<rparr>"
    "\<forall>s. dechunk (w @ s) = map_option ((@) (concat ds)) (dechunk s)"
    using write_all_chunks [OF assms] by blast
  have "pai_http_resp_end capture (write_all capture r ds) = (r\<lparr>ctx := ctx r @ (w @ ?e)\<rparr>, Inr ())"
    using w(1) assms(2) by (simp add: pai_http_resp_end_def capture_def)
  moreover have "dechunk (w @ ?e) = Some (concat ds)" using w(2) dechunk_end by simp
  ultimately show ?thesis by blast
qed

theorem http_chunked_roundtrip_witness:
  "\<exists>w. pai_http_resp_end capture (write_all capture \<lparr>status = 200, streaming = True, begun = True, ctx = [1]\<rparr> [[7], [8, 9]])
      = (\<lparr>status = 200, streaming = True, begun = True, ctx = 1 # w\<rparr>, Inr ()) \<and> dechunk w = Some [7, 8, 9]"
  using http_chunked_roundtrip [of "\<lparr>status = 200, streaming = True, begun = True, ctx = [1]\<rparr>" "[[7], [8, 9]]"] by simp


text \<open>What the parser stores fits the fields of the request, and the body lies in the parsed bytes. The stored
  target is always the path: the query is cut off.\<close>

theorem http_parse_safe:
  assumes "pai_http_parse_request d = Inr r" "length d + PAI_HTTP_MAX_BODY < 2 ^ 32"
  shows "line_fits r \<and> length (rheaders r) \<le> PAI_HTTP_MAX_HEADERS \<and> (\<forall>h \<in> set (rheaders r). header_fits h) \<and>
    rbody_len r \<le> PAI_HTTP_MAX_BODY \<and>
    (case rbody r of None \<Rightarrow> rbody_len r = 0 | Some p \<Rightarrow> p + rbody_len r \<le> length d)"
proof -
  obtain raw p0 r0 hs p where d: "next_line d 0 [] = Some (raw, p0)" "request_line (cstr raw) = Inr r0"
    "header_lines d p0 [] = Inr (hs, p)" "request_body d p (r0\<lparr>rheaders := hs\<rparr>) = Inr r"
    using assms(1) by (auto simp: pai_http_parse_request_def split: option.splits sum.splits)
  note r0 = request_line_fits [OF d(2)]
  have hs: "length hs \<le> 32" "\<forall>h \<in> set hs. header_fits h" "p \<le> length d" using header_lines_fit [OF d(3)] by simp_all
  have sum: "unat (of_nat p + of_nat n :: u32) = p + n" if "n \<le> PAI_HTTP_MAX_BODY" for n
    using that hs(3) assms(2) by (simp add: unat_of_nat32 flip: of_nat_add)
  show ?thesis
  proof (cases "pai_http_header hs (ascii ''Content-Length'')")
    case None
    with d(4) have "r = r0\<lparr>rheaders := hs\<rparr>" by (auto simp: request_body_def split: if_splits)
    with r0 hs show ?thesis by (simp add: line_fits_def http_consts)
  next
    case (Some cl)
    with d(4) obtain n where n: "parse_u64 cl = Some n" "\<not> unat (of_nat p + of_nat n :: u32) > length d"
      "r = r0\<lparr>rheaders := hs, rbody := Some p, rbody_len := n\<rparr>"
      by (auto simp: request_body_def split: option.splits if_splits)
    with r0 hs parse_u64_bound [OF n(1)] sum show ?thesis by (simp add: line_fits_def http_consts)
  qed
qed

theorem http_parse_safe_witness:
  "\<exists>r. pai_http_parse_request (demo_head @ [123, 125]) = Inr r \<and> line_fits r"
proof -
  obtain r where r: "pai_http_parse_request (demo_head @ [123, 125]) = Inr r" using demo_parse by blast
  have "length (demo_head @ [123, 125]) + PAI_HTTP_MAX_BODY < 2 ^ 32"
    by (simp add: demo_head_def render_head_def render_target_def render_header_def ascii_def crlf_def http_consts)
  from http_parse_safe [OF r this] r show ?thesis by blast
qed

text \<open>A request that announces a body above the limit is refused as malformed, not as too large: the number is
  refused while it is read, and the comparison after it never holds.\<close>

theorem http_oversize_malformed:
  assumes "request_wf m path q v hs" "pai_http_header hs (ascii ''Content-Length'') = Some (print_dec n)"
    and "n > PAI_HTTP_MAX_BODY"
  shows "pai_http_parse_request (render_head m path q v hs @ rest) = Inl PAI_ERR_PROTOCOL"
  unfolding parse_render [OF assms(1)]
  using assms(2) parse_print_large [OF assms(3)] by (simp add: request_body_def parse_u64_def)

theorem http_oversize_malformed_witness:
  "pai_http_parse_request (render_head (ascii ''POST'') (ascii ''/'') None (ascii ''HTTP/1.1'')
      [(ascii ''Content-Length'', print_dec 99999999)] @ [1]) = Inl PAI_ERR_PROTOCOL"
proof (rule http_oversize_malformed)
  have p: "print_dec 99999999 = ascii ''99999999''" by (simp add: print_dec.simps digit_char_def ascii_def)
  show "request_wf (ascii ''POST'') (ascii ''/'') None (ascii ''HTTP/1.1'') [(ascii ''Content-Length'', print_dec 99999999)]"
    unfolding p by (simp add: request_wf_def header_wf_def plain_def ascii_def render_target_def http_consts)
  show "pai_http_header [(ascii ''Content-Length'', print_dec 99999999)] (ascii ''Content-Length'') = Some (print_dec 99999999)"
    by (simp add: pai_http_header_def ascii_def)
  show "99999999 > PAI_HTTP_MAX_BODY" by (simp add: http_consts)
qed

end
