(* ===== verification/Gateway_Http.thy ===== *)
theory Gateway_Http
  imports Http Json_Parse
begin

text \<open>
  The HTTP server of \<^verbatim>\<open>gateway/http.c\<close> seen by its clients, who read the JSON of \<^verbatim>\<open>gateway/json.c\<close>.
\<close>

lemma error_parse:
  "case pai_json_parse F (\<lambda>_. True) (take 57 internal_error) of
     Returns (d, r) \<Rightarrow> r = Inl PAI_ERR_PROTOCOL | Fault \<Rightarrow> False | Diverges \<Rightarrow> False"
  "case pai_json_parse F (\<lambda>_. True) internal_error of Returns (d, r) \<Rightarrow> r = Inr () | Fault \<Rightarrow> False | Diverges \<Rightarrow> False"
  by code_simp+

lemma head_500: "length (response_head 500 (Some (ascii ''application/json'')) False) \<le> 511"
  by (simp add: response_head_def ascii_def crlf_def print_int_def print_dec.simps pai_http_status_text_def)

text \<open>C30. When the handler fails without having begun a response, the client is sent the header of a JSON answer and the
  first 57 of the 60 bytes of the error object, which the JSON parser refuses.\<close>

theorem http_error_body_truncated:
  assumes "recv_loop capture mem recvs [] 0 0 c = Returns (Some (req, bf), c')"
    and "handler req bf (pai_http_resp_init c') = (resp, Inl e)" "\<not> begun resp"
  shows "gw_conn_thread capture mem handler recvs c =
      Returns (ctx resp @ response_head 500 (Some (ascii ''application/json'')) False @ take 57 internal_error) \<and>
    length internal_error = 60 \<and>
    (\<exists>d. pai_json_parse F (\<lambda>_. True) (take 57 internal_error) = Returns (d, Inl PAI_ERR_PROTOCOL)) \<and>
    (\<exists>d. pai_json_parse F (\<lambda>_. True) internal_error = Returns (d, Inr ()))"
proof (intro conjI)
  have "take 57 internal_error \<noteq> []" by (simp add: internal_error_def ascii_def)
  with assms head_500 show "gw_conn_thread capture mem handler recvs c =
      Returns (ctx resp @ response_head 500 (Some (ascii ''application/json'')) False @ take 57 internal_error)"
    by (simp add: gw_conn_thread_def pai_http_resp_begin_def pai_http_resp_write_def pai_http_resp_end_def capture_def Let_def)
  show "length internal_error = 60" by (simp add: internal_error_def ascii_def)
  show "\<exists>d. pai_json_parse F (\<lambda>_. True) (take 57 internal_error) = Returns (d, Inl PAI_ERR_PROTOCOL)"
    "\<exists>d. pai_json_parse F (\<lambda>_. True) internal_error = Returns (d, Inr ())"
    using error_parse [of F] by (auto split: outcome.splits)
qed

theorem http_error_body_truncated_witness:
  "\<exists>w. gw_conn_thread capture (\<lambda>_. True) (\<lambda>req bf r. (r, Inl PAI_ERR_IO)) [demo_head @ [123, 125]] [] =
     Returns (w @ take 57 internal_error)"
proof -
  obtain r where r: "pai_http_parse_request (demo_head @ [123, 125]) = Inr r" using demo_parse by blast
  have l: "length demo_head = 44"
    by (simp add: demo_head_def render_head_def render_target_def render_header_def ascii_def crlf_def)
  then have "demo_head \<noteq> []" by auto
  with r l have "recv_loop capture (\<lambda>_. True) [demo_head @ [123, 125]] [] 0 0 [] =
      Returns (Some (r, demo_head @ [123, 125]), [])"
    using grow_enough [of 46 8192 32] by (simp add: Let_def)
  from http_error_body_truncated [OF this, of "\<lambda>req bf r. (r, Inl PAI_ERR_IO)"] show ?thesis
    by (simp add: pai_http_resp_init_def)
qed

end
