(* ===== verification/Sampler.thy ===== *)
theory Sampler
  imports Ref_Ops "HOL-Library.Multiset"
begin

text \<open>
  \<^verbatim>\<open>models/sampler.c\<close>: sampling of the next token from logits or probabilities, with temperature, top-k and
  top-p, and its xorshift64* generator. Floats are bit patterns and their arithmetic the parameter \<open>F\<close>, the record of
  the reference kernels extended by the two comparisons this file needs. The arrays of \<open>n\<close> floats are lists; whether the
  allocations of a function succeed is an argument.
\<close>

section \<open>Definitions\<close>

record sops = fops +
  fle :: "u32 \<Rightarrow> u32 \<Rightarrow> bool"
  dle :: "u64 \<Rightarrow> u64 \<Rightarrow> bool"

record pai_sampler =
  seed :: u64
  temperature :: u32
  top_k :: u32
  top_p :: u32

definition pai_sampler_init :: "u64 \<Rightarrow> pai_sampler" where
  "pai_sampler_init s =
     \<lparr>seed = (if s \<noteq> 0 then s else 0x9E3779B97F4A7C15), temperature = f0, top_k = 0, top_p = f1\<rparr>"

definition xorshift :: "u64 \<Rightarrow> u64" where
  "xorshift x =
     (let x1 = x XOR drop_bit 12 x;
          x2 = x1 XOR push_bit 25 x1
      in x2 XOR drop_bit 27 x2)"

definition pai_sampler_next_u64 :: "pai_sampler \<Rightarrow> pai_sampler \<times> u64" where
  "pai_sampler_next_u64 s = (s\<lparr>seed := xorshift (seed s)\<rparr>, xorshift (seed s) * 0x2545F4914F6CDD1D)"

text \<open>\<open>0x3CA0000000000000\<close> is the double \<open>1 / 2 ^ 53\<close>.\<close>

definition pai_sampler_next_double :: "sops \<Rightarrow> pai_sampler \<Rightarrow> pai_sampler \<times> u64" where
  "pai_sampler_next_double F s =
     (case pai_sampler_next_u64 s of
        (s', x) \<Rightarrow> (s', dmul F (d_of_nat F (unat (drop_bit 11 x))) 0x3CA0000000000000))"

definition pai_sampler_mode_name :: "sops \<Rightarrow> pai_sampler \<Rightarrow> string" where
  "pai_sampler_mode_name F s =
     (if feq F (temperature s) f0 then ''greedy''
      else if fgt F f1 (top_p s) then ''nucleus'' else ''temperature'')"

definition swap_step :: "('a \<Rightarrow> 'a \<Rightarrow> bool) \<Rightarrow> 'a list \<Rightarrow> nat \<Rightarrow> nat list \<Rightarrow> nat \<Rightarrow> nat list" where
  "swap_step gt vals i ord j =
     (if gt (vals ! (ord ! j)) (vals ! (ord ! i)) then ord[i := ord ! j, j := ord ! i] else ord)"

definition inner_pass :: "('a \<Rightarrow> 'a \<Rightarrow> bool) \<Rightarrow> 'a list \<Rightarrow> nat list \<Rightarrow> nat \<Rightarrow> nat list" where
  "inner_pass gt vals ord i = foldl (swap_step gt vals i) ord [Suc i ..< length vals]"

definition sort_desc :: "('a \<Rightarrow> 'a \<Rightarrow> bool) \<Rightarrow> 'a list \<Rightarrow> nat list" where
  "sort_desc gt vals = foldl (inner_pass gt vals) [0 ..< length vals] [0 ..< length vals]"

text \<open>The scan for the greatest value from index \<open>i\<close> on.\<close>

fun argmax_loop :: "('a \<Rightarrow> 'a \<Rightarrow> bool) \<Rightarrow> 'a list \<Rightarrow> nat \<Rightarrow> 'a \<Rightarrow> nat \<Rightarrow> nat" where
  "argmax_loop gt [] i best chosen = chosen"
| "argmax_loop gt (x # xs) i best chosen =
     (if gt x best then argmax_loop gt xs (Suc i) x i else argmax_loop gt xs (Suc i) best chosen)"

definition argmax :: "('a \<Rightarrow> 'a \<Rightarrow> bool) \<Rightarrow> 'a list \<Rightarrow> nat" where
  "argmax gt vals = argmax_loop gt (tl vals) 1 (hd vals) 0"

text \<open>The top-p prefix: how many of the first \<open>keep\<close> candidates are taken until the mass reaches the threshold.\<close>

fun nucleus :: "sops \<Rightarrow> u32 \<Rightarrow> u32 list \<Rightarrow> u32 \<Rightarrow> nat" where
  "nucleus F p [] acc = 0"
| "nucleus F p (x # xs) acc = (if fgt F p acc then Suc (nucleus F p xs (fadd F acc x)) else 0)"

fun cumulate :: "sops \<Rightarrow> u32 \<Rightarrow> u32 list \<Rightarrow> u32 list" where
  "cumulate F c [] = []"
| "cumulate F c (x # xs) = fadd F c x # cumulate F (fadd F c x) xs"

definition keep_count :: "sops \<Rightarrow> pai_sampler \<Rightarrow> u32 list \<Rightarrow> nat list \<Rightarrow> nat" where
  "keep_count F s w ord =
     (let n = length w;
          keep = (if top_k s > 0 \<and> unat (top_k s) < n then unat (top_k s) else n)
      in if fgt F f1 (top_p s) then
           (let k = nucleus F (top_p s) (map ((!) w) (take keep ord)) f0 in if k > 0 then k else keep)
         else keep)"

text \<open>The running sums of the kept weights divided by their sum, and the first of them that reaches \<open>r\<close>.\<close>

definition cdf_of :: "sops \<Rightarrow> u32 list \<Rightarrow> u32 \<Rightarrow> u32 list" where
  "cdf_of F ws mass =
     (let ps = map (\<lambda>x. fdiv F x mass) ws in hd ps # cumulate F (hd ps) (tl ps))"

definition draw :: "sops \<Rightarrow> nat list \<Rightarrow> nat \<Rightarrow> u32 list \<Rightarrow> u64 \<Rightarrow> nat" where
  "draw F ord keep cdf r =
     (case find_index (\<lambda>c. dle F r (f2d F c)) cdf of Some i \<Rightarrow> ord ! i | None \<Rightarrow> ord ! (keep - 1))"

definition pai_sampler_sample_probs :: "sops \<Rightarrow> pai_sampler \<Rightarrow> u32 list \<Rightarrow> bool \<Rightarrow> pai_sampler \<times> nat res" where
  "pai_sampler_sample_probs F s probs mem =
     (if probs = [] \<or> fgt F f0 (temperature s) then (s, Inl PAI_ERR_INVALID_ARG)
      else if feq F (temperature s) f0 then (s, Inr (argmax (fgt F) probs))
      else if \<not> mem then (s, Inl PAI_ERR_NOMEM)
      else
        let ord = sort_desc (fgt F) probs;
            keep = keep_count F s probs ord;
            ws = map ((!) probs) (take keep ord);
            sum = foldl (fadd F) f0 ws
        in if fle F sum f0 then (s, Inl PAI_ERR_INVALID_ARG)
           else
             case pai_sampler_next_double F s of
               (s', r) \<Rightarrow> (s', Inr (draw F ord keep (cdf_of F ws sum) r)))"

text \<open>\<open>0xC2A00000\<close> is the float -80. The status of the sampling itself is not looked at: \<open>chosen\<close> keeps its
  initial 0.\<close>

definition pai_sampler_sample_logits ::
    "sops \<Rightarrow> pai_sampler \<Rightarrow> u32 list \<Rightarrow> bool \<Rightarrow> bool \<Rightarrow> pai_sampler \<times> nat res" where
  "pai_sampler_sample_logits F s logits mem mem' =
     (if logits = [] \<or> fgt F f0 (temperature s) then (s, Inl PAI_ERR_INVALID_ARG)
      else if feq F (temperature s) f0 then (s, Inr (argmax (fgt F) logits))
      else if \<not> mem then (s, Inl PAI_ERR_NOMEM)
      else
        let maxv = foldl (\<lambda>m x. if fgt F x m then x else m) (hd logits) (tl logits);
            es = map (\<lambda>x. let v = fdiv F (fsub F x maxv) (temperature s)
                          in expf F (if fgt F 0xC2A00000 v then 0xC2A00000 else v)) logits;
            sum = foldl (fadd F) f0 es;
            w = map (\<lambda>x. fdiv F x sum) es
        in case pai_sampler_sample_probs F s w mem' of
             (s', r) \<Rightarrow> (s', Inr (case r of Inr i \<Rightarrow> i | Inl _ \<Rightarrow> 0)))"

section \<open>The generator\<close>

lemma xor_eq_zero: "(a :: u64) XOR b = 0 \<longleftrightarrow> a = b"
proof
  assume "a XOR b = 0"
  then have "\<not> bit (a XOR b) i" for i by simp
  then show "a = b" by (intro bit_word_eqI) (auto simp: bit_xor_iff)
qed simp

lemma xor_drop_zero:
  fixes x :: u64
  assumes "0 < k" "x XOR drop_bit k x = 0"
  shows "x = 0"
proof -
  have step: "bit x i = bit x (k + i)" for i
    using assms(2) by (simp add: xor_eq_zero) (metis bit_drop_bit_eq comp_apply)
  have "\<not> bit x i" for i
  proof (induction "64 - i" arbitrary: i rule: less_induct)
    case less
    show ?case
    proof (cases "i < 64")
      case True
      with less [of "k + i"] assms(1) step show ?thesis by simp
    next
      case False
      then show ?thesis by (auto dest: bit_imp_le_length)
    qed
  qed
  then show ?thesis by (intro bit_word_eqI) simp
qed

lemma xor_push_zero:
  fixes x :: u64
  assumes "0 < k" "x XOR push_bit k x = 0"
  shows "x = 0"
proof -
  have step: "bit x i \<longleftrightarrow> k \<le> i \<and> i < 64 \<and> bit x (i - k)" for i
  proof -
    have "x = push_bit k x" using assms(2) by (simp add: xor_eq_zero)
    then have "bit x i \<longleftrightarrow> bit (push_bit k x) i" by simp
    then show ?thesis by (auto simp: bit_push_bit_iff bit_simps dest: bit_imp_le_length)
  qed
  have "\<not> bit x i" for i
  proof (induction i rule: less_induct)
    case (less i)
    show ?case
      using step [of i] less [of "i - k"] assms(1) by (cases "k \<le> i") auto
  qed
  then show ?thesis by (intro bit_word_eqI) simp
qed

lemma xorshift_nonzero: "x \<noteq> 0 \<Longrightarrow> xorshift x \<noteq> 0"
proof
  let ?x1 = "x XOR drop_bit 12 x"
  let ?x2 = "?x1 XOR push_bit 25 ?x1"
  assume x: "x \<noteq> 0" and "xorshift x = 0"
  from this(2) have "?x2 XOR drop_bit 27 ?x2 = 0" by (simp only: xorshift_def Let_def)
  then have "?x2 = 0" by (rule xor_drop_zero [rotated]) simp
  then have "?x1 = 0" by (rule xor_push_zero [rotated]) simp
  then have "x = 0" by (rule xor_drop_zero [rotated]) simp
  with x show False by simp
qed

lemma next_seed_nonzero: "seed s \<noteq> 0 \<Longrightarrow> seed (fst (pai_sampler_next_u64 s)) \<noteq> 0"
  by (simp add: pai_sampler_next_u64_def xorshift_nonzero)

section \<open>The sort\<close>

lemma length_swap_step [simp]: "length (swap_step gt vals i ord j) = length ord"
  by (simp add: swap_step_def)

lemma swap_step_mset: "i < length ord \<Longrightarrow> j < length ord \<Longrightarrow> mset (swap_step gt vals i ord j) = mset ord"
  using mset_swap [of j ord i] by (simp add: swap_step_def)


lemma swap_step_prefix: "a < i \<Longrightarrow> i < j \<Longrightarrow> swap_step gt vals i ord j ! a = ord ! a"
  by (simp add: swap_step_def)

lemma swap_step_drop:
  assumes "i < j" "j < length ord"
  shows "mset (drop i (swap_step gt vals i ord j)) = mset (drop i ord)"
proof -
  have "drop i (ord[i := ord ! j, j := ord ! i]) = (drop i ord)[0 := drop i ord ! (j - i), j - i := drop i ord ! 0]"
    using assms by (simp add: drop_update_swap drop_update_cancel)
  then show ?thesis
    using assms mset_swap [of "j - i" "drop i ord" 0] by (simp add: swap_step_def)
qed

text \<open>What the sort needs of the comparison, on the values at hand: it holds for floats that are not NaN.\<close>

definition ordered :: "('a \<Rightarrow> 'a \<Rightarrow> bool) \<Rightarrow> 'a list \<Rightarrow> bool" where
  "ordered gt vals \<longleftrightarrow> (\<forall>x \<in> set vals. \<forall>y \<in> set vals. gt x y \<longrightarrow> \<not> gt y x) \<and>
     (\<forall>x \<in> set vals. \<forall>y \<in> set vals. \<forall>z \<in> set vals. gt x y \<longrightarrow> gt y z \<longrightarrow> gt x z)"

definition above :: "('a \<Rightarrow> 'a \<Rightarrow> bool) \<Rightarrow> 'a list \<Rightarrow> nat \<Rightarrow> nat \<Rightarrow> bool" where
  "above gt vals k l \<longleftrightarrow> gt (vals ! k) (vals ! l)"

lemma above_asym: "ordered gt vals \<Longrightarrow> k < length vals \<Longrightarrow> l < length vals \<Longrightarrow> above gt vals k l \<Longrightarrow> \<not> above gt vals l k"
  unfolding ordered_def above_def by (meson nth_mem)

lemma above_trans:
  "ordered gt vals \<Longrightarrow> k < length vals \<Longrightarrow> l < length vals \<Longrightarrow> m < length vals \<Longrightarrow>
   above gt vals k l \<Longrightarrow> above gt vals l m \<Longrightarrow> above gt vals k m"
  unfolding ordered_def above_def by (meson nth_mem)

text \<open>A pass keeps what is before position \<open>i\<close> and permutes the rest; afterwards no later value is greater than the one
  at \<open>i\<close>.\<close>

definition pass_to :: "('a \<Rightarrow> 'a \<Rightarrow> bool) \<Rightarrow> 'a list \<Rightarrow> nat list \<Rightarrow> nat \<Rightarrow> nat \<Rightarrow> nat list" where
  "pass_to gt vals ord i m = foldl (swap_step gt vals i) ord [Suc i ..< m]"

lemma pass_to_Suc: "i < m \<Longrightarrow> pass_to gt vals ord i (Suc m) = swap_step gt vals i (pass_to gt vals ord i m) m"
  by (simp add: pass_to_def)

lemma pass_to_perm:
  assumes "i < m" "m \<le> length ord"
  shows "length (pass_to gt vals ord i m) = length ord \<and> mset (drop i (pass_to gt vals ord i m)) = mset (drop i ord) \<and>
    (\<forall>a < i. pass_to gt vals ord i m ! a = ord ! a)"
  using assms
proof (induction m)
  case (Suc m)
  show ?case
  proof (cases "i < m")
    case True
    with Suc show ?thesis by (simp add: pass_to_Suc swap_step_drop swap_step_prefix)
  next
    case False
    with Suc.prems have "m = i" by simp
    then show ?thesis by (simp add: pass_to_def)
  qed
qed simp

lemma perm_of_drop:
  fixes o' ord :: "nat list"
  assumes "length o' = length ord" "mset (drop i o') = mset (drop i ord)" "\<forall>a < i. o' ! a = ord ! a" "b \<le> i"
  shows "mset (drop b o') = mset (drop b ord)"
proof -
  have t: "take (i - b) (drop b o') = take (i - b) (drop b ord)" using assms(1,3) by (intro nth_equalityI) auto
  have "take (i - b) (drop b xs) @ drop i xs = drop b xs" for xs :: "nat list"
    using append_take_drop_id [of "i - b" "drop b xs"] assms(4) by simp
  then have d: "mset (drop b xs) = mset (take (i - b) (drop b xs)) + mset (drop i xs)" for xs :: "nat list"
    by (metis mset_append)
  show ?thesis using d [of o'] d [of ord] t assms(2) by simp
qed

lemma pass_to_best:
  assumes "ordered gt vals" "set ord \<subseteq> {..< length vals}" "i < m" "m \<le> length ord"
  shows "\<forall>k. i < k \<and> k < m \<longrightarrow>
    \<not> above gt vals (pass_to gt vals ord i m ! k) (pass_to gt vals ord i m ! i)"
  using assms(3,4)
proof (induction m)
  case (Suc m)
  show ?case
  proof (cases "i < m")
    case True
    let ?o = "pass_to gt vals ord i m"
    have q: "length ?o = length ord \<and> mset (drop i ?o) = mset (drop i ord) \<and> (\<forall>a < i. ?o ! a = ord ! a)"
      using Suc.prems by (intro pass_to_perm [OF True]) simp
    have p: "length ?o = length ord" "mset ?o = mset ord"
      using q perm_of_drop [OF q [THEN conjunct1] q [THEN conjunct2, THEN conjunct1] q [THEN conjunct2, THEN conjunct2], of 0]
      by (blast, simp)
    have "set ?o = set ord" using p(2) by (rule mset_eq_setD)
    then have r: "?o ! k < length vals" if "k < length ord" for k
      using that p(1) assms(2) by (metis lessThan_iff nth_mem subsetD)
    have IH: "\<not> above gt vals (?o ! k) (?o ! i)" if "i < k" "k < m" for k using Suc.IH True Suc.prems that by simp
    show ?thesis
    proof (intro allI impI)
      fix k assume k: "i < k \<and> k < Suc m"
      show "\<not> above gt vals (pass_to gt vals ord i (Suc m) ! k) (pass_to gt vals ord i (Suc m) ! i)"
      proof (cases "above gt vals (?o ! m) (?o ! i)")
        case sw: True
        then have o': "pass_to gt vals ord i (Suc m) = ?o[i := ?o ! m, m := ?o ! i]"
          by (simp add: pass_to_Suc [OF True] swap_step_def above_def)
        show ?thesis
        proof (cases "k = m")
          case True
          then show ?thesis
            using o' p(1) Suc.prems \<open>i < m\<close> above_asym [OF assms(1) r r sw] by simp
        next
          case False
          then have "\<not> above gt vals (?o ! k) (?o ! m)"
            using IH [of k] k above_trans [OF assms(1) r r r _ sw, of k] Suc.prems by auto
          then show ?thesis using o' p(1) k False Suc.prems \<open>i < m\<close> by simp
        qed
      next
        case False
        then have "pass_to gt vals ord i (Suc m) = ?o" by (simp add: pass_to_Suc [OF True] swap_step_def above_def)
        with False IH [of k] k show ?thesis by (cases "k = m") auto
      qed
    qed
  next
    case False
    then show ?thesis by auto
  qed
qed simp

definition sort_to :: "('a \<Rightarrow> 'a \<Rightarrow> bool) \<Rightarrow> 'a list \<Rightarrow> nat \<Rightarrow> nat list" where
  "sort_to gt vals m = foldl (inner_pass gt vals) [0 ..< length vals] [0 ..< m]"

lemma sort_to_Suc: "m < length vals \<Longrightarrow> sort_to gt vals (Suc m) = pass_to gt vals (sort_to gt vals m) m (length vals)"
  by (simp add: sort_to_def inner_pass_def pass_to_def)

lemma sort_to_perm: "m \<le> length vals \<Longrightarrow> mset (sort_to gt vals m) = mset [0 ..< length vals]"
proof (induction m)
  case (Suc m)
  have l: "length (sort_to gt vals m) = length vals" using Suc by (metis Suc_leD length_upt minus_nat.diff_0 size_mset)
  then show ?case
    using Suc pass_to_perm [of m "length vals" "sort_to gt vals m" gt vals] sort_to_Suc [of m vals gt]
    perm_of_drop [of "sort_to gt vals (Suc m)" "sort_to gt vals m" m 0] by simp
qed (simp add: sort_to_def)

lemma sort_to_sorted:
  assumes "ordered gt vals"
  shows "m \<le> length vals \<Longrightarrow>
    \<forall>a < m. \<forall>x \<in> set (drop (Suc a) (sort_to gt vals m)). \<not> above gt vals x (sort_to gt vals m ! a)"
proof (induction m)
  case (Suc m)
  let ?o = "sort_to gt vals m" and ?o' = "sort_to gt vals (Suc m)"
  have mp: "mset ?o = mset [0 ..< length vals]" using Suc.prems by (intro sort_to_perm) simp
  then have l: "length ?o = length vals" by (metis length_upt minus_nat.diff_0 size_mset)
  have rng: "set ?o \<subseteq> {..< length vals}" using mset_eq_setD [OF mp] by auto
  have eq: "?o' = pass_to gt vals ?o m (length vals)" using Suc.prems by (intro sort_to_Suc) simp
  have p: "length ?o' = length vals" "mset (drop m ?o') = mset (drop m ?o)" "\<forall>a < m. ?o' ! a = ?o ! a"
    using pass_to_perm [of m "length vals" ?o gt vals] Suc.prems l eq by auto
  show ?case
  proof (intro allI impI ballI)
    fix a x assume a: "a < Suc m" and x: "x \<in> set (drop (Suc a) ?o')"
    show "\<not> above gt vals x (?o' ! a)"
    proof (cases "a = m")
      case True
      from x obtain t where "t < length vals - Suc a" "x = ?o' ! (Suc a + t)"
        using p(1) by (auto simp: in_set_conv_nth)
      then show ?thesis
        using True pass_to_best [OF assms rng, of m "length vals"] Suc.prems l eq by simp
    next
      case False
      with a have am: "a < m" by simp
      have "mset (drop (Suc a) ?o') = mset (drop (Suc a) ?o)"
        using am p l perm_of_drop [of ?o' ?o m "Suc a"] by simp
      with x have "x \<in> set (drop (Suc a) ?o)" by (metis mset_eq_setD)
      with Suc am p(3) show ?thesis by simp
    qed
  qed
qed simp


lemma sort_desc_eq: "sort_desc gt vals = sort_to gt vals (length vals)"
  by (simp add: sort_desc_def sort_to_def)

lemma sort_desc_perm: "mset (sort_desc gt vals) = mset [0 ..< length vals]"
  by (simp add: sort_desc_eq sort_to_perm)

lemma sort_desc_simps [simp]:
  "length (sort_desc gt vals) = length vals" "set (sort_desc gt vals) = {..< length vals}" "distinct (sort_desc gt vals)"
  using sort_desc_perm [of gt vals] mset_eq_length mset_eq_setD mset_eq_imp_distinct_iff
  by (metis length_upt minus_nat.diff_0, metis atLeast_upt, metis distinct_upt)

lemma sort_desc_sorted:
  assumes "ordered gt vals" "a < b" "b < length vals"
  shows "\<not> above gt vals (sort_desc gt vals ! b) (sort_desc gt vals ! a)"
proof -
  have "sort_desc gt vals ! b \<in> set (drop (Suc a) (sort_desc gt vals))"
    using assms(2,3) by (auto simp: in_set_conv_nth intro!: exI [of _ "b - Suc a"])
  then show ?thesis
    using sort_to_sorted [OF assms(1), of "length vals"] assms(2,3) by (simp add: sort_desc_eq)
qed

text \<open>A candidate at position \<open>c\<close> has at most \<open>c\<close> greater ones.\<close>

lemma rank_bound:
  assumes "ordered gt vals" "c < length vals"
  shows "card {j. j < length vals \<and> above gt vals j (sort_desc gt vals ! c)} \<le> c"
proof -
  let ?o = "sort_desc gt vals"
  have "{j. j < length vals \<and> above gt vals j (?o ! c)} \<subseteq> (!) ?o ` {..< c}"
  proof
    fix j assume j: "j \<in> {j. j < length vals \<and> above gt vals j (?o ! c)}"
    then have "j \<in> set ?o" by simp
    then obtain b where b: "b < length vals" "j = ?o ! b" by (auto simp: in_set_conv_nth simp del: sort_desc_simps(2))
    have "?o ! c < length vals" using assms(2) nth_mem [of c ?o] by simp
    then have "b \<noteq> c" using j b above_asym [OF assms(1), of j j] by auto
    moreover have "\<not> c < b" using j b sort_desc_sorted [OF assms(1), of c b] by auto
    ultimately show "j \<in> (!) ?o ` {..< c}" using b by auto
  qed
  then have "card {j. j < length vals \<and> above gt vals j (?o ! c)} \<le> card ((!) ?o ` {..< c})"
    by (intro card_mono) auto
  also have "\<dots> \<le> c" using card_image_le [of "{..< c}" "(!) ?o"] by simp
  finally show ?thesis .
qed

section \<open>Greedy choice\<close>

lemma argmax_loop_spec:
  assumes "ordered gt (ps @ xs)" "chosen < length ps" "best = ps ! chosen" "\<forall>y \<in> set ps. \<not> gt y best"
  shows "argmax_loop gt xs (length ps) best chosen < length (ps @ xs) \<and>
    (\<forall>y \<in> set (ps @ xs). \<not> gt y ((ps @ xs) ! argmax_loop gt xs (length ps) best chosen))"
  using assms
proof (induction xs arbitrary: ps best chosen)
  case Nil
  then show ?case by simp
next
  case (Cons x xs)
  have best: "best \<in> set ps" using Cons.prems(2,3) by simp
  show ?case
  proof (cases "gt x best")
    case True
    have "\<not> gt y x" if y: "y \<in> set (ps @ [x])" for y
    proof
      assume g: "gt y x"
      have i: "y \<in> set (ps @ x # xs)" "x \<in> set (ps @ x # xs)" "best \<in> set (ps @ x # xs)" using y best by auto
      have "y \<noteq> x" using g i Cons.prems(1) unfolding ordered_def by blast
      moreover have "gt y best" using g True i Cons.prems(1) unfolding ordered_def by blast
      ultimately show False using y Cons.prems(4) by auto
    qed
    then show ?thesis
      using Cons.IH [of "ps @ [x]" "length ps" x] Cons.prems(1) True by (simp add: nth_append)
  next
    case False
    then have "\<forall>y \<in> set (ps @ [x]). \<not> gt y best" using Cons.prems(4) by simp
    then show ?thesis
      using Cons.IH [of "ps @ [x]" chosen best] Cons.prems(1-3) False by (simp add: nth_append)
  qed
qed

lemma argmax_range: "vals \<noteq> [] \<Longrightarrow> argmax gt vals < length vals"
proof -
  have "argmax_loop gt xs i b c < i + length xs" if "c < i" for xs i b c
    using that
  proof (induction xs arbitrary: i b c)
    case (Cons x xs)
    from Cons.IH [of i "Suc i" x] Cons.IH [of c "Suc i" b] Cons.prems show ?case by simp
  qed simp
  from this [of 0 1 "tl vals" "hd vals"] show "vals \<noteq> [] \<Longrightarrow> argmax gt vals < length vals"
    by (cases vals) (auto simp: argmax_def)
qed

lemma argmax_max: "ordered gt vals \<Longrightarrow> vals \<noteq> [] \<Longrightarrow> \<not> (\<exists>y \<in> set vals. gt y (vals ! argmax gt vals))"
proof (cases vals)
  case (Cons x xs)
  assume o: "ordered gt vals"
  then have "\<not> gt x x" using Cons unfolding ordered_def by (meson list.set_intros(1))
  then show ?thesis
    using argmax_loop_spec [of gt "[x]" xs 0 x] o Cons by (auto simp: argmax_def)
qed simp

section \<open>What is chosen\<close>

lemma keep_count_bounds:
  assumes "w \<noteq> []"
  shows "0 < keep_count F s w ord" "keep_count F s w ord \<le> length w"
    "top_k s > 0 \<Longrightarrow> keep_count F s w ord \<le> unat (top_k s)"
proof -
  have nuc: "nucleus F p xs acc \<le> length xs" for p xs acc
    by (induction F p xs acc rule: nucleus.induct) auto
  let ?k = "if top_k s > 0 \<and> unat (top_k s) < length w then unat (top_k s) else length w"
  have k: "0 < ?k" "?k \<le> length w" "top_k s > 0 \<Longrightarrow> ?k \<le> unat (top_k s)"
    using assms by (auto simp: word_greater_zero_iff unat_gt_0)
  have "nucleus F (top_p s) (map ((!) w) (take ?k ord)) f0 \<le> ?k"
    using nuc [of "top_p s" "map ((!) w) (take ?k ord)" f0] by simp
  with k show "0 < keep_count F s w ord" "keep_count F s w ord \<le> length w"
    "top_k s > 0 \<Longrightarrow> keep_count F s w ord \<le> unat (top_k s)"
    unfolding keep_count_def Let_def by (auto simp del: not_less)
qed

lemma length_cumulate [simp]: "length (cumulate F c xs) = length xs"
  by (induction F c xs rule: cumulate.induct) auto

text \<open>Outside the greedy mode a sample is one of the kept candidates.\<close>

lemma sample_probs_kept:
  assumes "pai_sampler_sample_probs F s probs mem = (s', Inr i)" "\<not> feq F (temperature s) f0"
  shows "\<exists>c < keep_count F s probs (sort_desc (fgt F) probs). i = sort_desc (fgt F) probs ! c"
proof -
  let ?ord = "sort_desc (fgt F) probs"
  let ?keep = "keep_count F s probs ?ord"
  let ?ws = "map ((!) probs) (take ?keep ?ord)"
  let ?cdf = "cdf_of F ?ws (foldl (fadd F) f0 ?ws)"
  have ne: "probs \<noteq> []" using assms(1) by (auto simp: pai_sampler_sample_probs_def)
  note k = keep_count_bounds [OF ne, where F = F and s = s and ord = ?ord]
  have len: "length ?cdf = ?keep" using k(1,2) by (simp add: cdf_of_def Let_def min_absorb2)
  obtain r where i: "i = draw F ?ord ?keep ?cdf r"
    using assms by (auto simp: pai_sampler_sample_probs_def Let_def split: if_splits prod.splits)
  show ?thesis
  proof (cases "find_index (\<lambda>c. dle F r (f2d F c)) ?cdf")
    case None
    with i k(1) show ?thesis by (intro exI [of _ "?keep - 1"]) (simp add: draw_def)
  next
    case (Some c)
    then have "c < ?keep" using find_index_Some [OF Some] len by simp
    with i Some show ?thesis by (intro exI [of _ c]) (simp add: draw_def)
  qed
qed

lemma sample_probs_cases:
  "snd (pai_sampler_sample_probs F s probs mem) = Inr i \<Longrightarrow> probs \<noteq> [] \<and> (feq F (temperature s) f0 \<longrightarrow> i = argmax (fgt F) probs)"
  by (auto simp: pai_sampler_sample_probs_def split: if_splits)

section \<open>Properties\<close>

text \<open>C23. A sampled id is an index of the distribution, whatever the arithmetic. On comparable values, greedy sampling
  returns an id with no greater value, and with a top-k bound fewer than \<open>k\<close> ids have a greater value than the
  sampled one.\<close>

theorem sampler_choice:
  assumes "pai_sampler_sample_probs F s probs mem = (s', Inr i)"
  shows "i < length probs \<and>
    (ordered (fgt F) probs \<longrightarrow>
      (feq F (temperature s) f0 \<longrightarrow> (\<forall>y \<in> set probs. \<not> fgt F y (probs ! i))) \<and>
      (\<not> feq F (temperature s) f0 \<and> top_k s > 0 \<longrightarrow>
        card {j. j < length probs \<and> fgt F (probs ! j) (probs ! i)} < unat (top_k s)))"
proof (intro conjI impI)
  have ne: "probs \<noteq> []" "feq F (temperature s) f0 \<longrightarrow> i = argmax (fgt F) probs"
    using sample_probs_cases [of F s probs mem i] assms by simp_all
  note k = keep_count_bounds [OF ne(1), where F = F and s = s and ord = "sort_desc (fgt F) probs"]
  show "i < length probs"
  proof (cases "feq F (temperature s) f0")
    case True
    with ne argmax_range show ?thesis by simp
  next
    case False
    from sample_probs_kept [OF assms False] k(2) show ?thesis
      by (metis lessThan_iff nth_mem order_less_le_trans sort_desc_simps(1,2))
  qed
  show "\<forall>y \<in> set probs. \<not> fgt F y (probs ! i)" if "ordered (fgt F) probs" "feq F (temperature s) f0"
    using argmax_max [of "fgt F" probs] ne that by auto
  assume o: "ordered (fgt F) probs" and ft: "\<not> feq F (temperature s) f0 \<and> top_k s > 0"
  then have f: "\<not> feq F (temperature s) f0" and t: "top_k s > 0" by simp_all
  obtain c where c: "c < keep_count F s probs (sort_desc (fgt F) probs)" "i = sort_desc (fgt F) probs ! c"
    using sample_probs_kept [OF assms f] by blast
  then have "card {j. j < length probs \<and> above (fgt F) probs j i} \<le> c" using rank_bound [OF o, of c] k(2) by simp
  with c k(3) [OF t] show "card {j. j < length probs \<and> fgt F (probs ! j) (probs ! i)} < unat (top_k s)"
    by (simp add: above_def)
qed

definition demo_sops :: sops where
  "demo_sops = \<lparr>fadd = (+), fsub = (-), fmul = (*), fdiv = (\<lambda>a b. a), fneg = (\<lambda>a. a), fgt = (\<lambda>a b. b < a), feq = (=),
     fabsf = (\<lambda>a. a), expf = (\<lambda>a. a), sqrtf = (\<lambda>a. a), f_of_nat = of_nat, f_of_int = of_int, f2d = ucast, d2f = ucast,
     dadd = (+), dsub = (-), dmul = (*), ddiv = (\<lambda>a b. a), d_of_nat = of_nat, dneg = (\<lambda>a. a), dpow = (\<lambda>a b. a),
     dcos = (\<lambda>a. a), dsin = (\<lambda>a. a), fle = (\<le>), dle = (\<lambda>a b. True)\<rparr>"

definition demo_sampler :: pai_sampler where
  "demo_sampler = \<lparr>seed = 7, temperature = f1, top_k = 2, top_p = f1\<rparr>"

theorem sampler_choice_witness:
  "card {j. j < length [1, 5, 3 :: u32] \<and> fgt demo_sops ([1, 5, 3] ! j) ([1, 5, 3] ! 1)} < 2"
proof -
  have "snd (pai_sampler_sample_probs demo_sops demo_sampler [1, 5, 3] True) = Inr 1"
  proof -
    have "sort_desc (fgt demo_sops) [1, 5, 3] = [1, 2, 0]"
      by (simp add: sort_desc_def inner_pass_def swap_step_def demo_sops_def upt_rec)
    moreover have "keep_count demo_sops demo_sampler [1, 5, 3] ord = 2" for ord
      by (simp add: keep_count_def demo_sops_def demo_sampler_def Let_def)
    ultimately show ?thesis
      by (simp add: pai_sampler_sample_probs_def Let_def split: prod.split)
        (simp add: demo_sops_def demo_sampler_def f0_def f1_def draw_def cdf_of_def Let_def)
  qed
  then obtain s' where s: "pai_sampler_sample_probs demo_sops demo_sampler [1, 5, 3] True = (s', Inr 1)"
    by (metis prod.collapse)
  have "ordered (fgt demo_sops) [1, 5, 3]" by (auto simp: ordered_def demo_sops_def)
  moreover have "\<not> feq demo_sops (temperature demo_sampler) f0" "top_k demo_sampler > 0" "unat (top_k demo_sampler) = 2"
    by (simp_all add: demo_sops_def demo_sampler_def f0_def f1_def)
  ultimately show ?thesis using sampler_choice [OF s] by simp
qed

text \<open>The state of the generator never becomes zero: xorshift would stay there.\<close>

theorem sampler_seed_nonzero:
  "seed (pai_sampler_init x) \<noteq> 0 \<and> (seed s \<noteq> 0 \<longrightarrow> seed (fst (pai_sampler_sample_logits F s logits mem mem')) \<noteq> 0)"
proof -
  have p: "seed s' \<noteq> 0" if "seed s \<noteq> 0" "pai_sampler_sample_probs F s w mem' = (s', r)" for w s' r
    using that next_seed_nonzero [OF that(1)]
    by (auto simp: pai_sampler_sample_probs_def pai_sampler_next_double_def Let_def split: prod.splits if_splits)
  then show ?thesis
    by (auto simp: pai_sampler_init_def pai_sampler_sample_logits_def Let_def split: prod.splits)
qed

theorem sampler_seed_nonzero_witness:
  "seed (pai_sampler_init 0) \<noteq> 0 \<and> seed (fst (pai_sampler_sample_logits demo_sops demo_sampler [9, 8] True True)) \<noteq> 0"
  using sampler_seed_nonzero [of 0 demo_sampler demo_sops "[9, 8]" True True] by (simp add: demo_sampler_def)

text \<open>Sampling from logits reports success with id 0 when the sampling behind it fails, for lack of memory or of
  probability mass.\<close>

theorem sampler_hides_failure:
  assumes "logits \<noteq> []" "\<not> fgt F f0 (temperature s)" "\<not> feq F (temperature s) f0"
  shows "pai_sampler_sample_logits F s logits True False = (s, Inr 0)"
  using assms by (simp add: pai_sampler_sample_logits_def pai_sampler_sample_probs_def Let_def)


theorem sampler_hides_failure_witness:
  "pai_sampler_sample_logits demo_sops demo_sampler [9, 8] True False = (demo_sampler, Inr 0)"
  by (rule sampler_hides_failure) (simp_all add: demo_sops_def demo_sampler_def f0_def f1_def)

end
