(* ===== verification/Quantize.thy ===== *)
theory Quantize
  imports Ref_Ops
begin

text \<open>
  \<^verbatim>\<open>models/quantize.c\<close>: symmetric quantization of weights by groups, to bytes or to nibbles. Buffers are lists; a
  store or load outside one is \<open>None\<close>. A float is its bit pattern; \<open>F\<close> is the float arithmetic and \<open>lrint\<close> the
  rounding of \<^verbatim>\<open>lrintf\<close>, whose result is converted to a 32-bit integer. The number of elements is that of an
  array of floats, so index arithmetic does not wrap.
\<close>

section \<open>Definitions\<close>

definition PAI_QUANT_GROUP_AUTO :: u16 where "PAI_QUANT_GROUP_AUTO = 0"

record pai_quant_scheme =
  bit_width :: u8
  is_signed :: u8
  group_size :: u16

definition quant_group_size :: "pai_quant_scheme \<Rightarrow> nat \<Rightarrow> nat res" where
  "quant_group_size sc n =
     (if bit_width sc \<noteq> 8 \<and> bit_width sc \<noteq> 4 then Inl PAI_ERR_UNSUPPORTED
      else if is_signed sc = 0 then Inl PAI_ERR_UNSUPPORTED
      else
        let gs = (if group_size sc = PAI_QUANT_GROUP_AUTO then n else unat (group_size sc))
        in if gs = 0 then Inl PAI_ERR_INVALID_ARG else Inr gs)"

definition pai_quant_scheme_check :: "pai_quant_scheme \<Rightarrow> unit res" where
  "pai_quant_scheme_check sc = (case quant_group_size sc 1 of Inl e \<Rightarrow> Inl e | Inr _ \<Rightarrow> Inr ())"

definition pai_quant_num_groups :: "nat \<Rightarrow> pai_quant_scheme \<Rightarrow> nat" where
  "pai_quant_num_groups n sc =
     (if n = 0 then 0
      else case quant_group_size sc n of
             Inl e \<Rightarrow> 0
           | Inr gs \<Rightarrow> n div gs + (if n mod gs \<noteq> 0 then 1 else 0))"

definition pai_quant_value_bytes :: "nat \<Rightarrow> pai_quant_scheme \<Rightarrow> nat" where
  "pai_quant_value_bytes n sc = (if n = 0 then 0 else if bit_width sc = 4 then (n + 1) div 2 else n)"

definition pai_quant_scale_bytes :: "nat \<Rightarrow> pai_quant_scheme \<Rightarrow> nat" where
  "pai_quant_scale_bytes n sc = pai_quant_num_groups n sc * 4"

definition pai_quant_weights_bytes :: "nat \<Rightarrow> pai_quant_scheme \<Rightarrow> nat" where
  "pai_quant_weights_bytes n sc = pai_quant_value_bytes n sc + pai_quant_scale_bytes n sc"

definition set_at :: "'a list \<Rightarrow> nat \<Rightarrow> 'a \<Rightarrow> 'a list option" where
  "set_at xs i x = (if i < length xs then Some (xs[i := x]) else None)"

definition get_at :: "'a list \<Rightarrow> nat \<Rightarrow> 'a option" where
  "get_at xs i = (if i < length xs then Some (xs ! i) else None)"

definition max_abs :: "fops \<Rightarrow> u32 list \<Rightarrow> u32" where
  "max_abs F xs = foldl (\<lambda>m x. let av = fabsf F x in if fgt F av m then av else m) f0 xs"

definition group_scale :: "fops \<Rightarrow> int \<Rightarrow> u32 list \<Rightarrow> u32" where
  "group_scale F qmax xs = (let m = max_abs F xs in if fgt F m f0 then fdiv F m (f_of_int F qmax) else f0)"

definition quant_code :: "fops \<Rightarrow> (u32 \<Rightarrow> int) \<Rightarrow> int \<Rightarrow> u32 \<Rightarrow> u32 \<Rightarrow> int" where
  "quant_code F lrint qmax scale x =
     (if fgt F scale f0 then
        (let q = signed_take_bit 31 (lrint (fdiv F x scale));
             q1 = (if q > qmax then qmax else q)
         in if q1 < - qmax then - qmax else q1)
      else 0)"

text \<open>Storing element \<open>i\<close>: a byte, or a nibble of byte \<open>i div 2\<close>, the low one when \<open>i\<close> is even.\<close>

definition put_code :: "u8 \<Rightarrow> bytes \<Rightarrow> nat \<Rightarrow> int \<Rightarrow> bytes option" where
  "put_code bw out i q =
     (if bw = 4 then do {
        byte \<leftarrow> get_at out (i div 2);
        let nib = (word_of_int q :: u8) AND 0x0F;
        set_at out (i div 2)
          (if even i then (byte AND 0xF0) OR (nib AND 0x0F) else (byte AND 0x0F) OR push_bit 4 nib) }
      else set_at out i (word_of_int q))"

text \<open>The elements from \<open>i\<close> on, the group that starts at \<open>t\<close>, and the loop over the groups.\<close>

fun put_codes :: "u8 \<Rightarrow> bytes \<Rightarrow> nat \<Rightarrow> int list \<Rightarrow> bytes option" where
  "put_codes bw out i [] = Some out"
| "put_codes bw out i (q # qs) = do { out' \<leftarrow> put_code bw out i q; put_codes bw out' (Suc i) qs }"

function quant_groups ::
    "fops \<Rightarrow> (u32 \<Rightarrow> int) \<Rightarrow> u8 \<Rightarrow> int \<Rightarrow> nat \<Rightarrow> u32 list \<Rightarrow> nat \<Rightarrow> nat \<Rightarrow> bytes \<Rightarrow> u32 list \<Rightarrow>
     (bytes \<times> u32 list \<times> nat) option" where
  "quant_groups F lrint bw qmax gs src t g out_q scales =
     (if t < length src \<and> 0 < gs then
        (let xs = take gs (drop t src); scale = group_scale F qmax xs
         in do {
           scales' \<leftarrow> set_at scales g scale;
           out_q' \<leftarrow> put_codes bw out_q t (map (quant_code F lrint qmax scale) xs);
           quant_groups F lrint bw qmax gs src (t + gs) (Suc g) out_q' scales' })
      else Some (out_q, scales, g))"
  by pat_completeness auto
termination
  by (relation "measure (\<lambda>(F, lrint, bw, qmax, gs, src, t, g, q, s). length src - t)") auto

declare quant_groups.simps [simp del]

definition pai_quantize_f32 ::
    "fops \<Rightarrow> (u32 \<Rightarrow> int) \<Rightarrow> u32 list \<Rightarrow> pai_quant_scheme \<Rightarrow> bytes \<Rightarrow> u32 list \<Rightarrow> (bytes \<times> u32 list \<times> nat) res option" where
  "pai_quantize_f32 F lrint src sc out_q scales =
     (case quant_group_size sc (length src) of
        Inl e \<Rightarrow> Some (Inl e)
      | Inr gs \<Rightarrow>
          let qmax = (if bit_width sc = 8 then 127 else 7); vb = pai_quant_value_bytes (length src) sc
          in if length out_q < vb then None
             else map_option Inr
               (quant_groups F lrint (bit_width sc) qmax gs src 0 0 (replicate vb 0 @ drop vb out_q) scales))"

definition get_code :: "u8 \<Rightarrow> bytes \<Rightarrow> nat \<Rightarrow> int option" where
  "get_code bw q i =
     (if bw = 4 then do {
        byte \<leftarrow> get_at q (i div 2);
        let nib = (if even i then byte AND 0x0F else drop_bit 4 byte AND 0x0F);
        Some (if nib AND 0x08 \<noteq> 0 then uint nib - 16 else uint nib) }
      else map_option sint (get_at q i))"

fun dequant_elems :: "fops \<Rightarrow> u8 \<Rightarrow> bytes \<Rightarrow> u32 \<Rightarrow> nat \<Rightarrow> nat \<Rightarrow> u32 list \<Rightarrow> u32 list option" where
  "dequant_elems F bw q scale 0 i out = Some out"
| "dequant_elems F bw q scale (Suc k) i out = do {
     qv \<leftarrow> get_code bw q i;
     out' \<leftarrow> set_at out i (fmul F scale (f_of_int F qv));
     dequant_elems F bw q scale k (Suc i) out' }"

function dequant_groups :: "fops \<Rightarrow> u8 \<Rightarrow> nat \<Rightarrow> bytes \<Rightarrow> u32 list \<Rightarrow> nat \<Rightarrow> nat \<Rightarrow> nat \<Rightarrow> u32 list \<Rightarrow> u32 list option" where
  "dequant_groups F bw gs q scales n t g out =
     (if t < n \<and> 0 < gs then
        (let t1 = (if t + gs < n then t + gs else n)
         in do {
           scale \<leftarrow> get_at scales g;
           out' \<leftarrow> dequant_elems F bw q scale (t1 - t) t out;
           dequant_groups F bw gs q scales n (t + gs) (Suc g) out' })
      else Some out)"
  by pat_completeness auto
termination
  by (relation "measure (\<lambda>(F, bw, gs, q, s, n, t, g, out). n - t)") auto

declare dequant_groups.simps [simp del]

definition pai_dequantize_f32 ::
    "fops \<Rightarrow> bytes \<Rightarrow> u32 list \<Rightarrow> nat \<Rightarrow> pai_quant_scheme \<Rightarrow> u32 list \<Rightarrow> u32 list res option" where
  "pai_dequantize_f32 F q scales n sc out =
     (case quant_group_size sc n of
        Inl e \<Rightarrow> Some (Inl e)
      | Inr gs \<Rightarrow> map_option Inr (dequant_groups F (bit_width sc) gs q scales n 0 0 out))"

text \<open>\<open>sqrt\<close> of a double is a parameter. The result is the greatest difference and the root of the mean square.\<close>

definition pai_quant_error_f32 :: "fops \<Rightarrow> (u64 \<Rightarrow> u64) \<Rightarrow> u32 list \<Rightarrow> u32 list \<Rightarrow> u32 \<times> u32" where
  "pai_quant_error_f32 F dsqrt a b =
     (let ds = map (\<lambda>(x, y). fabsf F (fsub F x y)) (zip a b);
          mx = foldl (\<lambda>m d. if fgt F d m then d else m) f0 ds;
          acc = foldl (\<lambda>s d. dadd F s (dmul F (f2d F d) (f2d F d))) d0 ds
      in (mx, if length a > 0 then d2f F (dsqrt (ddiv F acc (d_of_nat F (length a)))) else f0))"

section \<open>Codes in bytes and nibbles\<close>

lemma quant_code_range: "0 \<le> qmax \<Longrightarrow> - qmax \<le> quant_code F lrint qmax scale x \<and> quant_code F lrint qmax scale x \<le> qmax"
  by (auto simp: quant_code_def Let_def)

lemma nibble_masks: "(0x0F :: u8) = mask 4" "(0xF0 :: u8) = push_bit 4 (mask 4)" "(0x08 :: u8) = 2 ^ 3"
  by (simp_all add: mask_eq_exp_minus_1 push_bit_eq_mult)

lemma nibble_bits:
  fixes b x :: u8
  shows "((b AND 0xF0) OR ((x AND 0x0F) AND 0x0F)) AND 0x0F = x AND 0x0F"
    and "drop_bit 4 ((b AND 0xF0) OR ((x AND 0x0F) AND 0x0F)) AND 0x0F = drop_bit 4 b AND 0x0F"
    and "drop_bit 4 ((b AND 0x0F) OR push_bit 4 (x AND 0x0F)) AND 0x0F = x AND 0x0F"
    and "((b AND 0x0F) OR push_bit 4 (x AND 0x0F)) AND 0x0F = b AND 0x0F"
  unfolding nibble_masks by (rule bit_word_eqI, auto simp: bit_simps)+

definition nibble_value :: "u8 \<Rightarrow> int" where
  "nibble_value nib = (if nib AND 0x08 \<noteq> 0 then uint nib - 16 else uint nib)"

lemma nibble_value_code:
  assumes "-7 \<le> q" "q \<le> 7"
  shows "nibble_value (word_of_int q AND 0x0F) = q"
proof -
  have "q \<in> {-7, -6, -5, -4, -3, -2, -1, 0, 1, 2, 3, 4, 5, 6, 7}"
    using assms by (simp only: insert_iff empty_iff) presburger
  then show ?thesis by (auto simp: nibble_value_def)
qed

definition room :: "u8 \<Rightarrow> nat \<Rightarrow> bytes \<Rightarrow> bool" where
  "room bw n out \<longleftrightarrow> (if bw = 4 then (n + 1) div 2 \<le> length out else n \<le> length out)"

lemma get_code_4: "get_code 4 q i =
    map_option (\<lambda>byte. nibble_value (if even i then byte AND 0x0F else drop_bit 4 byte AND 0x0F)) (get_at q (i div 2))"
  by (cases "get_at q (i div 2)") (simp_all add: get_code_def nibble_value_def)

lemma put_code_spec:
  assumes "room bw n out" "i < n" "bw = 4 \<or> bw = 8" "- (if bw = 8 then 127 else 7) \<le> q" "q \<le> (if bw = 8 then 127 else 7)"
  shows "\<exists>out'. put_code bw out i q = Some out' \<and> length out' = length out \<and>
    (\<forall>j. get_code bw out' j = (if j = i then Some q else get_code bw out j))"
proof (cases "bw = 4")
  case True
  let ?b = "out ! (i div 2)" and ?nib = "(word_of_int q :: u8) AND 0x0F"
  let ?v = "if even i then (?b AND 0xF0) OR (?nib AND 0x0F) else (?b AND 0x0F) OR push_bit 4 ?nib"
  have l: "i div 2 < length out" using assms(1,2) True by (simp add: room_def)
  have p: "put_code bw out i q = Some (out[i div 2 := ?v])"
    using True l by (simp add: put_code_def get_at_def set_at_def)
  have q: "nibble_value ?nib = q" using assms(4,5) True by (intro nibble_value_code) simp_all
  have "get_code bw (out[i div 2 := ?v]) j = (if j = i then Some q else get_code bw out j)" for j
  proof (cases "j div 2 = i div 2")
    case jd: True
    have gj: "get_at (out[i div 2 := ?v]) (j div 2) = Some ?v" "get_at out (j div 2) = Some ?b"
      using l jd by (simp_all add: get_at_def)
    show ?thesis
    proof (cases "j = i")
      case True
      with \<open>bw = 4\<close> gj(1) q show ?thesis
        by (cases "even i") (simp_all only: get_code_4 nibble_bits if_True if_False option.simps simp_thms)
    next
      case False
      then have "even j \<longleftrightarrow> odd i" using jd by presburger
      with False \<open>bw = 4\<close> gj show ?thesis
        by (cases "even i") (simp_all only: get_code_4 nibble_bits if_True if_False option.simps simp_thms)
    qed
  next
    case False
    then have "j \<noteq> i" by auto
    with False True show ?thesis by (simp add: get_code_4 get_at_def)
  qed
  with p show ?thesis by auto
next
  case False
  then have b8: "bw = 8" using assms(3) by simp
  have l: "i < length out" using assms(1,2) False by (simp add: room_def)
  have "sint (word_of_int q :: u8) = q"
    using assms(4,5) b8 by (simp add: sint_sbintrunc' signed_take_bit_int_eq_self)
  then show ?thesis
    using l b8 by (auto simp: put_code_def get_code_def set_at_def get_at_def)
qed

lemma put_codes_spec:
  assumes "bw = 4 \<or> bw = 8" "room bw n out" "i + length qs \<le> n"
    and "\<forall>q \<in> set qs. - (if bw = 8 then 127 else 7) \<le> q \<and> q \<le> (if bw = 8 then 127 else 7)"
  shows "\<exists>out'. put_codes bw out i qs = Some out' \<and> length out' = length out \<and>
    (\<forall>j. get_code bw out' j = (if i \<le> j \<and> j < i + length qs then Some (qs ! (j - i)) else get_code bw out j))"
  using assms(2-4)
proof (induction qs arbitrary: out i)
  case Nil
  then show ?case by auto
next
  case (Cons q qs)
  obtain o1 where o1: "put_code bw out i q = Some o1" "length o1 = length out"
    "\<forall>j. get_code bw o1 j = (if j = i then Some q else get_code bw out j)"
    using put_code_spec [OF Cons.prems(1) _ assms(1), of i q] Cons.prems(2,3) by auto
  have "room bw n o1" using Cons.prems(1) by (simp only: room_def o1(2))
  then obtain o2 where o2: "put_codes bw o1 (Suc i) qs = Some o2" "length o2 = length o1"
    "\<forall>j. get_code bw o2 j = (if Suc i \<le> j \<and> j < Suc i + length qs then Some (qs ! (j - Suc i)) else get_code bw o1 j)"
    using Cons.IH [of o1 "Suc i"] Cons.prems(2,3) by auto
  have "get_code bw o2 j = (if i \<le> j \<and> j < i + length (q # qs) then Some ((q # qs) ! (j - i)) else get_code bw out j)" for j
  proof (cases "j = i")
    case True
    then show ?thesis using o1(3) o2(3) by simp
  next
    case False
    then have "(q # qs) ! (j - i) = qs ! (j - Suc i)" if "i \<le> j" using that by (simp add: nth_Cons')
    with False o1(3) o2(3) show ?thesis by auto
  qed
  with o1 o2 show ?case by auto
qed


section \<open>Groups\<close>

definition group_of :: "nat \<Rightarrow> u32 list \<Rightarrow> nat \<Rightarrow> u32 list" where
  "group_of gs src k = take gs (drop (k * gs) src)"

text \<open>The reference: the scale of a group and the code of an element.\<close>

definition scale_of :: "fops \<Rightarrow> int \<Rightarrow> nat \<Rightarrow> u32 list \<Rightarrow> nat \<Rightarrow> u32" where
  "scale_of F qmax gs src k = group_scale F qmax (group_of gs src k)"

definition code_of :: "fops \<Rightarrow> (u32 \<Rightarrow> int) \<Rightarrow> int \<Rightarrow> nat \<Rightarrow> u32 list \<Rightarrow> nat \<Rightarrow> int" where
  "code_of F lrint qmax gs src i = quant_code F lrint qmax (scale_of F qmax gs src (i div gs)) (src ! i)"

definition num_groups :: "nat \<Rightarrow> nat \<Rightarrow> nat" where
  "num_groups n gs = n div gs + (if n mod gs \<noteq> 0 then 1 else 0)"

lemma less_num_groups: "0 < gs \<Longrightarrow> g * gs < n \<longleftrightarrow> g < num_groups n gs"
proof -
  assume gs: "0 < gs"
  have n: "n = n div gs * gs + n mod gs" by simp
  have m: "n mod gs < gs" using gs by simp
  show ?thesis
  proof (cases "n mod gs = 0")
    case True
    then have "n = n div gs * gs" using n by simp
    then have "g * gs < n \<longleftrightarrow> g * gs < n div gs * gs" by metis
    then show ?thesis using True gs by (simp add: num_groups_def)
  next
    case False
    have "g * gs < n \<longleftrightarrow> g \<le> n div gs"
    proof
      assume "g * gs < n"
      then show "g \<le> n div gs" using gs by (simp add: less_eq_div_iff_mult_less_eq)
    next
      assume "g \<le> n div gs"
      then have "g * gs \<le> n div gs * gs" by simp
      then show "g * gs < n" using n False by linarith
    qed
    then show ?thesis using False by (simp add: num_groups_def less_Suc_eq_le)
  qed
qed

lemma quant_groups_spec:
  assumes gs: "0 < gs" and bw: "bw = 4 \<or> bw = 8" and qm: "qmax = (if bw = 8 then 127 else 7)"
    and "room bw (length src) out_q" "num_groups (length src) gs \<le> length scales" "t = g * gs"
    and "\<forall>j < min t (length src). get_code bw out_q j = Some (code_of F lrint qmax gs src j)"
    and "\<forall>k < g. k < num_groups (length src) gs \<longrightarrow> scales ! k = scale_of F qmax gs src k"
  shows "\<exists>q s g'. quant_groups F lrint bw qmax gs src t g out_q scales = Some (q, s, g') \<and>
    length q = length out_q \<and> length s = length scales \<and>
    (g \<le> num_groups (length src) gs \<longrightarrow> g' = num_groups (length src) gs) \<and>
    (\<forall>j < length src. get_code bw q j = Some (code_of F lrint qmax gs src j)) \<and>
    (\<forall>k < num_groups (length src) gs. s ! k = scale_of F qmax gs src k)"
  using assms(4-8)
proof (induction "length src - t" arbitrary: t g out_q scales rule: less_induct)
  case less
  let ?n = "length src"
  let ?G = "num_groups ?n gs"
  show ?case
  proof (cases "t < ?n")
    case False
    then have "\<not> g < ?G" using less_num_groups [OF gs, of g ?n] less.prems(3) by simp
    moreover have "quant_groups F lrint bw qmax gs src t g out_q scales = Some (out_q, scales, g)"
      using False by (subst quant_groups.simps) simp
    ultimately show ?thesis using less.prems(4,5) False by auto
  next
    case True
    then have g: "g < ?G" using less_num_groups [OF gs, of g ?n] less.prems(3) by simp
    let ?xs = "take gs (drop t src)"
    let ?sc = "group_scale F qmax ?xs"
    let ?qs = "map (quant_code F lrint qmax ?sc) ?xs"
    have sc: "?sc = scale_of F qmax gs src g" using less.prems(3) by (simp add: scale_of_def group_of_def)
    have len: "t + length ?qs \<le> ?n" "length ?qs = min gs (?n - t)" using True by auto
    have "\<forall>q \<in> set ?qs. - (if bw = 8 then 127 else 7) \<le> q \<and> q \<le> (if bw = 8 then 127 else 7)"
      using quant_code_range [of qmax F lrint ?sc] qm by auto
    then obtain o1 where o1: "put_codes bw out_q t ?qs = Some o1" "length o1 = length out_q"
      "\<forall>j. get_code bw o1 j = (if t \<le> j \<and> j < t + length ?qs then Some (?qs ! (j - t)) else get_code bw out_q j)"
      using put_codes_spec [OF bw less.prems(1) len(1)] by auto
    let ?s1 = "scales[g := ?sc]"
    have step: "quant_groups F lrint bw qmax gs src t g out_q scales =
        quant_groups F lrint bw qmax gs src (t + gs) (Suc g) o1 ?s1"
      using True gs o1(1) g less.prems(2) by (subst quant_groups.simps) (simp add: Let_def set_at_def)
    have codes: "get_code bw o1 j = Some (code_of F lrint qmax gs src j)" if "j < min (t + gs) ?n" for j
    proof (cases "j < t")
      case True
      then show ?thesis using o1(3) less.prems(4) that by simp
    next
      case False
      then have j: "t \<le> j" "j < t + length ?qs" using that len(2) by auto
      have "j div gs = g" using j that less.prems(3) gs by (intro div_nat_eqI) (auto simp: mult.commute)
      moreover have "?qs ! (j - t) = quant_code F lrint qmax ?sc (src ! j)"
      proof -
        have "j - t < length ?xs" using j by auto
        moreover have "?xs ! (j - t) = src ! j" using j by (subst nth_take) auto
        ultimately show ?thesis by (simp only: nth_map)
      qed
      ultimately show ?thesis using o1(3) j sc by (simp add: code_of_def)
    qed
    have "\<exists>q s g'. quant_groups F lrint bw qmax gs src (t + gs) (Suc g) o1 ?s1 = Some (q, s, g') \<and>
        length q = length o1 \<and> length s = length ?s1 \<and> (Suc g \<le> ?G \<longrightarrow> g' = ?G) \<and>
        (\<forall>j < ?n. get_code bw q j = Some (code_of F lrint qmax gs src j)) \<and> (\<forall>k < ?G. s ! k = scale_of F qmax gs src k)"
    proof (rule less.hyps)
      show "?n - (t + gs) < ?n - t" using True gs by simp
      show "room bw ?n o1" using less.prems(1) by (simp only: room_def o1(2))
      show "?G \<le> length ?s1" "t + gs = Suc g * gs" using less.prems(2,3) by simp_all
      show "\<forall>j < min (t + gs) ?n. get_code bw o1 j = Some (code_of F lrint qmax gs src j)" using codes by blast
      show "\<forall>k < Suc g. k < ?G \<longrightarrow> ?s1 ! k = scale_of F qmax gs src k"
        using less.prems(2,5) sc by (auto simp: less_Suc_eq nth_list_update)
    qed
    then show ?thesis using step g o1(2) by auto
  qed
qed

lemma dequant_elems_spec:
  assumes "i + k \<le> length out" "\<forall>j. i \<le> j \<and> j < i + k \<longrightarrow> get_code bw q j = Some (code j)"
  shows "\<exists>out'. dequant_elems F bw q scale k i out = Some out' \<and> length out' = length out \<and>
    (\<forall>j < length out. out' ! j = (if i \<le> j \<and> j < i + k then fmul F scale (f_of_int F (code j)) else out ! j))"
  using assms
proof (induction k arbitrary: i out)
  case (Suc k)
  let ?o1 = "out[i := fmul F scale (f_of_int F (code i))]"
  obtain o2 where o2: "dequant_elems F bw q scale k (Suc i) ?o1 = Some o2" "length o2 = length ?o1"
    "\<forall>j < length ?o1. o2 ! j = (if Suc i \<le> j \<and> j < Suc i + k then fmul F scale (f_of_int F (code j)) else ?o1 ! j)"
    using Suc.IH [of "Suc i" ?o1] Suc.prems by auto
  have "dequant_elems F bw q scale (Suc k) i out = Some o2"
    using o2(1) Suc.prems by (simp add: set_at_def)
  moreover have "o2 ! j = (if i \<le> j \<and> j < i + Suc k then fmul F scale (f_of_int F (code j)) else out ! j)" if "j < length out" for j
    using o2(3) that by (cases "j = i") auto
  ultimately show ?case using o2(2) by auto
qed auto

lemma dequant_groups_spec:
  assumes gs: "0 < gs" and codes: "\<forall>j < n. get_code bw q j = Some (code j)" and sl: "num_groups n gs \<le> length scales"
    and "n \<le> length out" "t = g * gs"
    and "\<forall>j < min t n. out ! j = fmul F (scales ! (j div gs)) (f_of_int F (code j))"
  shows "\<exists>out'. dequant_groups F bw gs q scales n t g out = Some out' \<and> length out' = length out \<and>
    (\<forall>j < n. out' ! j = fmul F (scales ! (j div gs)) (f_of_int F (code j)))"
  using assms(4-6)
proof (induction "n - t" arbitrary: t g out rule: less_induct)
  case less
  show ?case
  proof (cases "t < n")
    case False
    then have "dequant_groups F bw gs q scales n t g out = Some out" by (subst dequant_groups.simps) simp
    then show ?thesis using less.prems(3) False by auto
  next
    case True
    then have g: "g < length scales" using less_num_groups [OF gs, of g n] less.prems(2) sl by simp
    let ?k = "(if t + gs < n then t + gs else n) - t"
    have k: "t + ?k \<le> n" using True by auto
    have l: "t + ?k \<le> length out" using k less.prems(1) by (rule order_trans)
    have c: "\<forall>j. t \<le> j \<and> j < t + ?k \<longrightarrow> get_code bw q j = Some (code j)"
      using codes k by (meson order_less_le_trans)
    obtain o1 where o1: "dequant_elems F bw q (scales ! g) ?k t out = Some o1" "length o1 = length out"
      "\<forall>j < length out. o1 ! j = (if t \<le> j \<and> j < t + ?k then fmul F (scales ! g) (f_of_int F (code j)) else out ! j)"
      using dequant_elems_spec [OF l c, of F "scales ! g"] by blast
    have step: "dequant_groups F bw gs q scales n t g out = dequant_groups F bw gs q scales n (t + gs) (Suc g) o1"
      using True gs o1(1) g by (subst dequant_groups.simps) (simp add: Let_def get_at_def)
    have vals: "o1 ! j = fmul F (scales ! (j div gs)) (f_of_int F (code j))" if "j < min (t + gs) n" for j
    proof (cases "j < t")
      case True
      then show ?thesis using o1(3) less.prems(1,3) that by simp
    next
      case False
      moreover have "j div gs = g" using False that less.prems(2) gs by (intro div_nat_eqI) (auto simp: mult.commute)
      ultimately show ?thesis using o1(3) less.prems(1) that by auto
    qed
    have "\<exists>out'. dequant_groups F bw gs q scales n (t + gs) (Suc g) o1 = Some out' \<and> length out' = length o1 \<and>
        (\<forall>j < n. out' ! j = fmul F (scales ! (j div gs)) (f_of_int F (code j)))"
    proof (rule less.hyps)
      show "n - (t + gs) < n - t" using True gs by simp
    qed (use less.prems(1,2) o1(2) vals in auto)
    then show ?thesis using step o1(2) by auto
  qed
qed

lemma set_at_length: "set_at xs i x = Some ys \<Longrightarrow> length ys = length xs"
  by (auto simp: set_at_def split: if_splits)

lemma put_code_length: "put_code bw out i q = Some out' \<Longrightarrow> length out' = length out"
  by (auto simp: put_code_def Let_def bind_eq_Some_conv set_at_length split: if_splits)

lemma put_codes_length: "put_codes bw out i qs = Some out' \<Longrightarrow> length out' = length out"
  by (induction bw out i qs rule: put_codes.induct) (auto simp: bind_eq_Some_conv put_code_length)

lemma quant_groups_length:
  "quant_groups F lrint bw qmax gs src t g out_q scales = Some (q, s, g') \<Longrightarrow>
   length q = length out_q \<and> length s = length scales"
proof (induction F lrint bw qmax gs src t g out_q scales rule: quant_groups.induct)
  case (1 F lrint bw qmax gs src t g out_q scales)
  show ?case
  proof (cases "t < length src \<and> 0 < gs")
    case True
    let ?xs = "take gs (drop t src)"
    from "1.prems" True obtain s1 q1 where s: "set_at scales g (group_scale F qmax ?xs) = Some s1"
      "put_codes bw out_q t (map (quant_code F lrint qmax (group_scale F qmax ?xs)) ?xs) = Some q1"
      "quant_groups F lrint bw qmax gs src (t + gs) (Suc g) q1 s1 = Some (q, s, g')"
      by (subst (asm) quant_groups.simps) (auto simp: Let_def bind_eq_Some_conv)
    from "1.IH" [OF True refl refl s(1,2,3)] set_at_length [OF s(1)] put_codes_length [OF s(2)] show ?thesis by simp
  next
    case False
    with "1.prems" show ?thesis by (subst (asm) quant_groups.simps) auto
  qed
qed

lemma quantize_lengths:
  "pai_quantize_f32 F lrint src sc out_q scales = Some (Inr (q, s, g)) \<Longrightarrow> length q = length out_q \<and> length s = length scales"
  by (auto simp: pai_quantize_f32_def Let_def dest!: quant_groups_length split: sum.splits if_splits)

lemma quantize_defined:
  assumes "quant_group_size sc (length src) = Inr gs" "src \<noteq> []"
  shows "\<exists>q s g. pai_quantize_f32 F lrint src sc (replicate (pai_quant_value_bytes (length src) sc) 0)
      (replicate (pai_quant_num_groups (length src) sc) 0) = Some (Inr (q, s, g))"
proof -
  let ?n = "length src" and ?bw = "pai_quant_scheme.bit_width sc"
  have gs: "0 < gs" and bw: "?bw = 4 \<or> ?bw = 8"
    using assms(1) by (auto simp: quant_group_size_def Let_def split: if_splits)
  have "room ?bw ?n (replicate (pai_quant_value_bytes ?n sc) 0)"
    using assms(2) bw by (auto simp: room_def pai_quant_value_bytes_def)
  from quant_groups_spec [OF gs bw refl this, of "replicate (pai_quant_num_groups ?n sc) 0" 0 0 F lrint]
  show ?thesis
    using assms by (auto simp: pai_quantize_f32_def Let_def pai_quant_num_groups_def num_groups_def)
qed

section \<open>Properties\<close>

text \<open>C21. Quantizing and dequantizing stay inside buffers of the announced sizes, and give every element the product of
  its group's scale and its code: packing two codes in a byte loses nothing. A code lies in the range of its width.\<close>

theorem quantize_exact:
  assumes "quant_group_size sc (length src) = Inr gs" "src \<noteq> []"
    and "pai_quant_value_bytes (length src) sc \<le> length out_q" "pai_quant_num_groups (length src) sc \<le> length scales"
    and "length src \<le> length out" "qmax = (if bit_width sc = 8 then 127 else 7)"
  shows "\<exists>q s out'. pai_quantize_f32 F lrint src sc out_q scales = Some (Inr (q, s, pai_quant_num_groups (length src) sc)) \<and>
    pai_dequantize_f32 F q s (length src) sc out = Some (Inr out') \<and>
    (\<forall>i < length src. out' ! i = fmul F (scale_of F qmax gs src (i div gs)) (f_of_int F (code_of F lrint qmax gs src i)) \<and>
       \<bar>code_of F lrint qmax gs src i\<bar> \<le> qmax)"
proof -
  let ?n = "length src" and ?bw = "bit_width sc"
  let ?vb = "pai_quant_value_bytes ?n sc"
  have gs: "0 < gs" and bw: "?bw = 4 \<or> ?bw = 8"
    using assms(1) by (auto simp: quant_group_size_def Let_def split: if_splits)
  have G: "pai_quant_num_groups ?n sc = num_groups ?n gs"
    using assms(1,2) by (simp add: pai_quant_num_groups_def num_groups_def)
  have rm: "room ?bw ?n (replicate ?vb 0 @ drop ?vb out_q)"
    using assms(2,3) bw by (auto simp: room_def pai_quant_value_bytes_def)
  obtain q s g' where q: "quant_groups F lrint ?bw qmax gs src 0 0 (replicate ?vb 0 @ drop ?vb out_q) scales = Some (q, s, g')"
    "length s = length scales" "g' = num_groups ?n gs"
    "\<forall>j < ?n. get_code ?bw q j = Some (code_of F lrint qmax gs src j)"
    "\<forall>k < num_groups ?n gs. s ! k = scale_of F qmax gs src k"
    using quant_groups_spec [OF gs bw assms(6) rm, of scales 0 0 F lrint] assms(4) G by auto
  obtain out' where o': "dequant_groups F ?bw gs q s ?n 0 0 out = Some out'"
    "\<forall>j < ?n. out' ! j = fmul F (s ! (j div gs)) (f_of_int F (code_of F lrint qmax gs src j))"
    using dequant_groups_spec [OF gs q(4), of s out 0 0 F] q(2) assms(4,5) G by auto
  have "i div gs < num_groups ?n gs" if "i < ?n" for i
    using that less_num_groups [OF gs, of "i div gs" ?n] by (meson div_times_less_eq_dividend order_le_less_trans)
  moreover have "\<bar>code_of F lrint qmax gs src i\<bar> \<le> qmax" for i
    using quant_code_range [of qmax F lrint "scale_of F qmax gs src (i div gs)" "src ! i"] assms(6)
    by (auto simp: code_of_def)
  moreover have "pai_quantize_f32 F lrint src sc out_q scales = Some (Inr (q, s, pai_quant_num_groups ?n sc))"
    using assms(1,3,6) q(1,3) G by (simp add: pai_quantize_f32_def Let_def)
  moreover have "pai_dequantize_f32 F q s ?n sc out = Some (Inr out')"
    using assms(1) o'(1) by (simp add: pai_dequantize_f32_def)
  ultimately show ?thesis using o'(2) q(5) by auto
qed


definition demo_fops :: fops where
  "demo_fops = \<lparr>fadd = (+), fsub = (-), fmul = (*), fdiv = (\<lambda>a b. a), fneg = (\<lambda>a. a), fgt = (\<lambda>a b. b < a), feq = (=),
     fabsf = (\<lambda>a. a), expf = (\<lambda>a. a), sqrtf = (\<lambda>a. a), f_of_nat = of_nat, f_of_int = of_int, f2d = ucast, d2f = ucast,
     dadd = (+), dsub = (-), dmul = (*), ddiv = (\<lambda>a b. a), d_of_nat = of_nat, dneg = (\<lambda>a. a), dpow = (\<lambda>a b. a),
     dcos = (\<lambda>a. a), dsin = (\<lambda>a. a)\<rparr>"

theorem quantize_exact_witness:
  "\<exists>q s out'. pai_quantize_f32 demo_fops uint [3, 4, 5] \<lparr>bit_width = 4, is_signed = 1, group_size = 2\<rparr> [0, 0] [0, 0] =
      Some (Inr (q, s, 2)) \<and>
    pai_dequantize_f32 demo_fops q s 3 \<lparr>bit_width = 4, is_signed = 1, group_size = 2\<rparr> [0, 0, 0] = Some (Inr out')"
proof -
  let ?sc = "\<lparr>bit_width = 4, is_signed = 1, group_size = 2\<rparr> :: pai_quant_scheme"
  have "quant_group_size ?sc (length [3, 4, 5 :: u32]) = Inr 2"
    by (simp add: quant_group_size_def PAI_QUANT_GROUP_AUTO_def)
  moreover have g: "pai_quant_num_groups (length [3, 4, 5 :: u32]) ?sc = 2"
    by (simp add: pai_quant_num_groups_def quant_group_size_def PAI_QUANT_GROUP_AUTO_def)
  moreover have "pai_quant_value_bytes (length [3, 4, 5 :: u32]) ?sc \<le> length [0, 0 :: u8]"
    by (simp add: pai_quant_value_bytes_def)
  ultimately show ?thesis
    using quantize_exact [of ?sc "[3, 4, 5]" 2 "[0, 0]" "[0, 0]" "[0, 0, 0]" 7 demo_fops uint]
    by (auto simp: numeral_3_eq_3)
qed

end
