(* ===== verification/Container.thy ===== *)
theory Container
  imports Tokenizer Pai_Format Ir_Graph Quantize
begin

text \<open>
  \<^verbatim>\<open>models/container.c\<close>: packing a model. A list of tensors and ops becomes a compute graph, the graph an IR program,
  the weights of the parameters (quantized or not) and their manifest, the tokenizer and the metadata become sections of a
  container. \<open>A\<close> tells which allocations succeed: one index per place of the code, and per tensor, token or merge where
  the place is in a loop. The weight compressor
  \<^verbatim>\<open>pai_compress_encode\<close> is the parameter \<open>compress\<close>, given the bytes and the size of its output buffer; \<open>F\<close> and
  \<open>lrint\<close> are the float arithmetic.
\<close>

section \<open>Definitions\<close>

record pai_container_quant =
  cq_quant :: "string option"
  cq_group :: u16
  cq_compress :: u32

record pai_container_tensor =
  ct_id :: u32
  ct_dtype :: pai_dtype
  ct_rank :: u32
  ct_shape :: "u64 list"
  ct_kind :: u32
  ct_name :: "bytes option"
  ct_data :: "u32 list option"
  ct_n :: u64
  ct_quantize :: bool

record pai_container_op =
  co_id :: u32
  co_kind :: u32
  co_in :: "u32 list option"
  co_out :: "u32 list option"

record pai_container_token =
  ck_id :: u32
  ck_text :: "bytes option"

record pai_container_merge =
  cm_left :: u32
  cm_right :: u32
  cm_result :: u32

text \<open>Sequencing of steps that may fail, fault or not end.\<close>

definition obind :: "'a res outcome \<Rightarrow> ('a \<Rightarrow> 'b res outcome) \<Rightarrow> 'b res outcome" where
  "obind m f =
     (case m of
        Returns (Inr a) \<Rightarrow> f a
      | Returns (Inl e) \<Rightarrow> Returns (Inl e)
      | Fault \<Rightarrow> Fault
      | Diverges \<Rightarrow> Diverges)"

lemma obind_Inr: "obind m f = Returns (Inr b) \<longleftrightarrow> (\<exists>a. m = Returns (Inr a) \<and> f a = Returns (Inr b))"
  by (auto simp: obind_def split: outcome.splits sum.splits)

lemma obind_ret [simp]: "obind (Returns (Inr a)) f = f a"
  by (simp add: obind_def)

definition tensor_numel :: "pai_container_tensor \<Rightarrow> u64 outcome" where
  "tensor_numel t =
     (if unat (ct_rank t) > length (ct_shape t) then Fault
      else Returns (foldl (*) 1 (take (unat (ct_rank t)) (ct_shape t))))"

definition add_tensor :: "nat \<Rightarrow> pai_graph \<Rightarrow> pai_container_tensor \<Rightarrow> pai_graph res outcome" where
  "add_tensor i g t =
     (case tensor_numel t of
        Fault \<Rightarrow> Fault
      | Diverges \<Rightarrow> Diverges
      | Returns n \<Rightarrow>
          if unat (ct_id t) \<noteq> i + 1 \<or> ct_rank t = 0 \<or> unat (ct_rank t) > PAI_TENSOR_MAX_RANK \<or> n = 0
          then Returns (Inl PAI_ERR_INVALID_ARG)
          else if ct_kind t = 1 \<and> (ct_name t = None \<or> ct_data t = None \<or> ct_n t = 0 \<or> ct_n t \<noteq> n)
          then Returns (Inl PAI_ERR_INVALID_ARG)
          else
            (case pai_graph_add_value g (ct_dtype t) (take (unat (ct_rank t)) (ct_shape t)) 16 of
               (g', v) \<Rightarrow>
                 if v \<noteq> unat (ct_id t) then Returns (Inl PAI_ERR_MISMATCH)
                 else Returns (Inr (if ct_kind t = 0 then pai_graph_set_input g' v
                                    else if ct_kind t = 3 then pai_graph_set_output g' v else g'))))"

fun add_tensors :: "nat \<Rightarrow> pai_graph \<Rightarrow> pai_container_tensor list \<Rightarrow> pai_graph res outcome" where
  "add_tensors i g [] = Returns (Inr g)"
| "add_tensors i g (t # ts) = obind (add_tensor i g t) (\<lambda>g'. add_tensors (Suc i) g' ts)"

definition add_one_op :: "nat \<Rightarrow> pai_graph \<Rightarrow> pai_container_op \<Rightarrow> pai_graph res" where
  "add_one_op i g p =
     (case (co_in p, co_out p) of
        (Some ins, Some outs) \<Rightarrow>
          if unat (co_id p) \<noteq> i + 1 \<or> length ins = 0 \<or> length outs = 0 \<or>
             length ins > PAI_GRAPH_MAX_ARITY \<or> length outs > PAI_GRAPH_MAX_ARITY
          then Inl PAI_ERR_INVALID_ARG
          else
            (case pai_graph_add_op g (uint (co_kind p)) (map unat ins) (map unat outs) of
               (g', u) \<Rightarrow> if u \<noteq> unat (co_id p) then Inl PAI_ERR_MISMATCH else Inr g')
      | _ \<Rightarrow> Inl PAI_ERR_INVALID_ARG)"

fun add_graph_ops :: "nat \<Rightarrow> pai_graph \<Rightarrow> pai_container_op list \<Rightarrow> pai_graph res" where
  "add_graph_ops i g [] = Inr g"
| "add_graph_ops i g (p # ps) = (case add_one_op i g p of Inl e \<Rightarrow> Inl e | Inr g' \<Rightarrow> add_graph_ops (Suc i) g' ps)"

definition sort_graph :: "pai_graph \<Rightarrow> pai_graph res outcome" where
  "sort_graph g =
     (case pai_graph_topo_sort g of
        None \<Rightarrow> Diverges
      | Some (g', Inl e) \<Rightarrow> Returns (Inl e)
      | Some (g', Inr _) \<Rightarrow> Returns (Inr g'))"

text \<open>Whether weights are quantized, and whether to four bits.\<close>

definition quant_mode :: "pai_container_quant option \<Rightarrow> (bool \<times> bool) res" where
  "quant_mode quant =
     (case quant of
        None \<Rightarrow> Inr (False, False)
      | Some c \<Rightarrow>
          (case cq_quant c of
             None \<Rightarrow> Inr (False, False)
           | Some s \<Rightarrow>
               if s = ''none'' then Inr (False, False)
               else if s \<noteq> ''q8'' \<and> s \<noteq> ''q4'' then Inl PAI_ERR_INVALID_ARG
               else Inr (True, s = ''q4'')))"

definition quant_group :: "pai_container_quant option \<Rightarrow> u16" where
  "quant_group quant = (case quant of None \<Rightarrow> 0 | Some c \<Rightarrow> cq_group c)"

definition ir_quant :: "bool \<Rightarrow> u16 \<Rightarrow> pai_ir_quant" where
  "ir_quant q4 grp =
     \<lparr>present = 1, bit_width = (if q4 then 4 else 8), scale_repr = 0, zero_point_repr = 0, is_signed = 1,
      block_structure = (if grp = 0 then 0 else 2), group_size = grp\<rparr>"

fun set_quants :: "pai_ir_quant \<Rightarrow> pai_ir_program \<Rightarrow> pai_container_tensor list \<Rightarrow> pai_ir_program res" where
  "set_quants q ir [] = Inr ir"
| "set_quants q ir (t # ts) =
     (if ct_kind t = 1 \<and> ct_data t \<noteq> None \<and> ct_quantize t then
        (case pai_ir_value_set_quant ir (unat (ct_id t)) q of Inl e \<Rightarrow> Inl e | Inr ir' \<Rightarrow> set_quants q ir' ts)
      else set_quants q ir ts)"

definition scheme_of :: "bool \<Rightarrow> u16 \<Rightarrow> pai_quant_scheme" where
  "scheme_of q4 grp =
     \<lparr>pai_quant_scheme.bit_width = (if q4 then 4 else 8), is_signed = 1, group_size = grp\<rparr>"

definition float_bytes :: "u32 list \<Rightarrow> bytes" where
  "float_bytes xs = concat (map put_le32 xs)"

text \<open>The bytes of one parameter in the weights section.\<close>

definition weight_bytes ::
    "fops \<Rightarrow> (u32 \<Rightarrow> int) \<Rightarrow> bool \<Rightarrow> bool \<Rightarrow> pai_quant_scheme \<Rightarrow> pai_container_tensor \<Rightarrow> u32 list \<Rightarrow> bytes res outcome" where
  "weight_bytes F lrint quant_on mem sc t d =
     (let n = unat (ct_n t)
      in if length d < n then Fault
         else if \<not> (quant_on \<and> ct_quantize t) then Returns (Inr (float_bytes (take n d)))
         else if \<not> mem then Returns (Inl PAI_ERR_NOMEM)
         else
           (case pai_quantize_f32 F lrint (take n d) sc (replicate (pai_quant_value_bytes n sc) 0)
                  (replicate (pai_quant_num_groups n sc) 0) of
              None \<Rightarrow> Fault
            | Some (Inl e) \<Rightarrow> Returns (Inl e)
            | Some (Inr (q, s, _)) \<Rightarrow> Returns (Inr (q @ float_bytes s))))"

definition manifest_entry :: "pai_container_tensor \<Rightarrow> bytes \<Rightarrow> nat \<Rightarrow> nat \<Rightarrow> pai_pai_tensor" where
  "manifest_entry t name off sz =
     \<lparr>tname = take 63 (cstr name), tvalue_id = ct_id t, tdtype = PAI_DTYPE_F32, trank = ct_rank t, tshape = ct_shape t,
      toffset = of_nat off, tsize_bytes = of_nat sz\<rparr>"

fun put_weights ::
    "fops \<Rightarrow> (u32 \<Rightarrow> int) \<Rightarrow> (nat \<Rightarrow> bool) \<Rightarrow> bool \<Rightarrow> pai_quant_scheme \<Rightarrow> nat \<Rightarrow> bytes \<Rightarrow> pai_pai_tensor list \<Rightarrow>
     pai_container_tensor list \<Rightarrow> (bytes \<times> pai_pai_tensor list) res outcome" where
  "put_weights F lrint A quant_on sc i weights metas [] = Returns (Inr (weights, metas))"
| "put_weights F lrint A quant_on sc i weights metas (t # ts) =
     (case (ct_data t, ct_name t) of
        (Some d, name) \<Rightarrow>
          if ct_kind t \<noteq> 1 then put_weights F lrint A quant_on sc (Suc i) weights metas ts
          else if \<not> A (8 + 4 * i) then Returns (Inl PAI_ERR_NOMEM)
          else
            (case name of
               None \<Rightarrow> Fault
             | Some nm \<Rightarrow>
                 obind (weight_bytes F lrint quant_on (A (9 + 4 * i)) sc t d) (\<lambda>w.
                   put_weights F lrint A quant_on sc (Suc i) (weights @ w)
                     (metas @ [manifest_entry t nm (length weights) (length w)]) ts))
      | (None, _) \<Rightarrow> put_weights F lrint A quant_on sc (Suc i) weights metas ts)"

fun add_vocab :: "(nat \<Rightarrow> bool) \<Rightarrow> nat \<Rightarrow> pai_tok \<Rightarrow> pai_container_token list \<Rightarrow> pai_tok res" where
  "add_vocab A i tok [] = Inr tok"
| "add_vocab A i tok (k # ks) =
     (case pai_tok_add_token tok (ck_id k) (map_option cstr (ck_text k)) (A (10 + 4 * i)) of
        Inl e \<Rightarrow> Inl e | Inr tok' \<Rightarrow> add_vocab A (Suc i) tok' ks)"

fun add_rules :: "(nat \<Rightarrow> bool) \<Rightarrow> nat \<Rightarrow> pai_tok \<Rightarrow> pai_container_merge list \<Rightarrow> pai_tok res" where
  "add_rules A i tok [] = Inr tok"
| "add_rules A i tok (m # ms) =
     (case pai_tok_add_merge tok (cm_left m) (cm_right m) (cm_result m) (A (11 + 4 * i)) of
        Inl e \<Rightarrow> Inl e | Inr tok' \<Rightarrow> add_rules A (Suc i) tok' ms)"

definition pai_compress_bound :: "u64 \<Rightarrow> u64" where
  "pai_compress_bound len = len + len div 0x40000 * 8 + 0x10000"

text \<open>A section whose addition is not checked, and the weights section: raw with its size cut to 32 bits, or compressed.\<close>

definition add_section :: "pai_pai_builder \<Rightarrow> u32 \<Rightarrow> bytes \<Rightarrow> pai_pai_builder" where
  "add_section b ty d =
     (case pai_pai_builder_add b ty (Some d) (of_nat (length d)) of Inr b' \<Rightarrow> b' | Inl _ \<Rightarrow> b)"

definition add_weights ::
    "(bytes \<Rightarrow> u64 \<Rightarrow> bytes res) \<Rightarrow> (nat \<Rightarrow> bool) \<Rightarrow> pai_container_quant option \<Rightarrow> pai_pai_builder \<Rightarrow> bytes \<Rightarrow>
     pai_pai_builder res" where
  "add_weights compress A quant b weights =
     (if quant \<noteq> None \<and> cq_compress (the quant) \<noteq> 0 \<and> length weights > 0 then
        (if \<not> A 4 then Inl PAI_ERR_NOMEM
         else
           (case compress weights (pai_compress_bound (of_nat (length weights)) + 16) of
              Inl e \<Rightarrow> Inl e
            | Inr cw \<Rightarrow>
                pai_pai_builder_add_flags b PAI_PAI_SEC_WEIGHTS PAI_PAI_SEC_FLAG_COMPRESSED (Some cw) (of_nat (length cw))))
      else Inr (add_section b PAI_PAI_SEC_WEIGHTS weights))"

definition pai_container_build ::
    "fops \<Rightarrow> (u32 \<Rightarrow> int) \<Rightarrow> (bytes \<Rightarrow> u64 \<Rightarrow> bytes res) \<Rightarrow> (nat \<Rightarrow> bool) \<Rightarrow> pai_pai_meta \<Rightarrow> pai_container_tensor list \<Rightarrow>
     pai_container_op list \<Rightarrow> pai_container_token list \<Rightarrow> pai_container_merge list \<Rightarrow> pai_container_quant option \<Rightarrow>
     bytes res outcome" where
  "pai_container_build F lrint compress A meta ts ps ks ms quant =
     (if ts = [] then Returns (Inl PAI_ERR_INVALID_ARG)
      else obind (Returns (quant_mode quant)) (\<lambda>(quant_on, q4).
        obind (add_tensors 0 pai_graph_init ts) (\<lambda>g0.
        obind (Returns (add_graph_ops 0 g0 ps)) (\<lambda>g1.
        obind (sort_graph g1) (\<lambda>g.
        obind (Returns (pai_ir_from_graph g)) (\<lambda>ir0.
        obind (Returns (if quant_on then set_quants (ir_quant q4 (quant_group quant)) ir0 ts else Inr ir0)) (\<lambda>ir.
        if \<not> A 0 then Returns (Inl PAI_ERR_NOMEM)
        else obind (put_weights F lrint A quant_on (scheme_of q4 (quant_group quant)) 0 [] [] ts) (\<lambda>(weights, metas).
        obind (Returns (add_vocab A 0 pai_tok_init ks)) (\<lambda>tok0.
        obind (Returns (add_rules A 0 tok0 ms)) (\<lambda>tok1.
        obind (Returns (pai_pai_meta_encode meta PAI_PAI_META_SIZE)) (\<lambda>meta_blob.
        if \<not> A 1 then Returns (Inl PAI_ERR_NOMEM)
        else obind (Returns (pai_pai_manifest_encode metas (8 + length metas * 160))) (\<lambda>manifest_blob.
        if pai_ir_encoded_size ir = 0 then Returns (Inl PAI_ERR_MISMATCH)
        else if \<not> A 2 then Returns (Inl PAI_ERR_NOMEM)
        else obind (Returns (pai_ir_encode ir (pai_ir_encoded_size ir))) (\<lambda>ir_blob.
        if \<not> A 3 then Returns (Inl PAI_ERR_NOMEM)
        else
          let tok = pai_tok_finalize tok1; tok_n = pai_tok_blob_size tok
          in obind (Returns (if tok_n > 0 then pai_tok_serialize tok tok_n else Inr [])) (\<lambda>tok_blob.
        let b2 = add_section (add_section pai_pai_builder_init 1 meta_blob) 2 manifest_blob
        in obind (Returns (add_weights compress A quant b2 weights)) (\<lambda>b3.
        let b4 = add_section b3 4 ir_blob;
            b5 = (if tok_n > 0 then add_section b4 5 tok_blob else b4);
            sz = pai_pai_encoded_size b5
        in if sz = 0 then Returns (Inl PAI_ERR_MISMATCH)
           else if \<not> A 5 then Returns (Inl PAI_ERR_NOMEM)
           else Returns (pai_pai_build b5 sz))))))))))))))))"

section \<open>The graph\<close>

definition shape_of :: "pai_container_tensor \<Rightarrow> u64 list" where
  "shape_of t = take (unat (ct_rank t)) (ct_shape t)"

definition tensor_good :: "nat \<Rightarrow> pai_container_tensor \<Rightarrow> bool" where
  "tensor_good i t \<longleftrightarrow> unat (ct_id t) = Suc i \<and> 0 < ct_rank t \<and> unat (ct_rank t) \<le> PAI_TENSOR_MAX_RANK \<and>
     (ct_kind t = 1 \<longrightarrow> ct_name t \<noteq> None \<and> ct_data t \<noteq> None \<and> ct_n t \<noteq> 0)"

definition val_matches :: "pai_container_tensor \<Rightarrow> pai_graph_value \<Rightarrow> bool" where
  "val_matches t x \<longleftrightarrow> vdtype x = ct_dtype t \<and> vshape x = shape_of t"

definition gop_matches :: "pai_container_op \<Rightarrow> pai_graph_op \<Rightarrow> bool" where
  "gop_matches p u \<longleftrightarrow> (\<exists>ins outs. co_in p = Some ins \<and> co_out p = Some outs \<and> ins \<noteq> [] \<and> outs \<noteq> [] \<and>
     kind u = uint (co_kind p) \<and> inputs u = map unat ins \<and> outputs u = map unat outs)"

lemma matches_update:
  "list_all2 val_matches ts xs \<Longrightarrow> vdtype y = vdtype (xs ! k) \<Longrightarrow> vshape y = vshape (xs ! k) \<Longrightarrow>
   list_all2 val_matches ts (xs[k := y])"
  by (cases "k < length xs") (auto simp: list_all2_conv_all_nth nth_list_update val_matches_def list_update_beyond)

lemma matches_producers: "list_all2 val_matches ts xs \<Longrightarrow> list_all2 val_matches ts (foldl (set_producer u) xs vs)"
  by (induction vs arbitrary: xs) (simp_all add: set_producer_def matches_update)

lemma add_tensor_spec:
  assumes "add_tensor i g t = Returns (Inr g')" "built g" "list_all2 val_matches ts (vals g)"
  shows "built g' \<and> list_all2 val_matches (ts @ [t]) (vals g') \<and> ops g' = ops g \<and> tensor_good i t"
proof -
  let ?r = "pai_graph_add_value g (ct_dtype t) (shape_of t) 16"
  have good: "tensor_good i t" and v: "snd ?r = unat (ct_id t)" "snd ?r \<noteq> 0"
    and g': "g' = (if ct_kind t = 0 then pai_graph_set_input (fst ?r) (snd ?r)
      else if ct_kind t = 3 then pai_graph_set_output (fst ?r) (snd ?r) else fst ?r)"
    using assms(1) unfolding add_tensor_def tensor_good_def
    by (auto simp: shape_of_def word_gt_0 split: outcome.splits prod.splits if_splits)
  obtain x where x: "vals (fst ?r) = vals g @ [x]" "ops (fst ?r) = ops g" "val_matches t x"
    using v(2) by (auto simp: pai_graph_add_value_def val_matches_def split: sum.splits if_splits)
  then have m: "list_all2 val_matches (ts @ [t]) (vals (fst ?r))" using assms(3) by (simp add: list_all2_appendI)
  then show ?thesis unfolding g'
    using good x(2) built_value [OF assms(2)] built_input built_output
    by (auto simp: pai_graph_set_input_def pai_graph_set_output_def intro!: matches_update)
qed

lemma add_tensors_spec:
  assumes "add_tensors i g us = Returns (Inr g')" "built g" "list_all2 val_matches ts (vals g)"
  shows "built g' \<and> list_all2 val_matches (ts @ us) (vals g') \<and> ops g' = ops g \<and>
    (\<forall>k < length us. tensor_good (i + k) (us ! k))"
  using assms
proof (induction us arbitrary: i g ts)
  case (Cons u us)
  from Cons.prems(1) obtain g1 where g1: "add_tensor i g u = Returns (Inr g1)" "add_tensors (Suc i) g1 us = Returns (Inr g')"
    by (auto simp: obind_Inr)
  from add_tensor_spec [OF g1(1) Cons.prems(2,3)] Cons.IH [OF g1(2), of "ts @ [u]"] show ?case
    by (auto simp: nth_Cons split: nat.splits)
qed simp

lemma add_one_op_spec:
  assumes "add_one_op i g p = Inr g'" "built g" "list_all2 val_matches ts (vals g)" "list_all2 gop_matches ps (ops g)"
  shows "built g' \<and> list_all2 val_matches ts (vals g') \<and> list_all2 gop_matches (ps @ [p]) (ops g')"
proof -
  obtain ins outs where io: "co_in p = Some ins" "co_out p = Some outs" "ins \<noteq> []" "outs \<noteq> []"
    and r: "pai_graph_add_op g (uint (co_kind p)) (map unat ins) (map unat outs) = (g', unat (co_id p))" "unat (co_id p) \<noteq> 0"
    using assms(1) by (auto simp: add_one_op_def split: option.splits prod.splits if_splits)
  have "built g'" using built_op [OF assms(2), of "uint (co_kind p)" "map unat ins" "map unat outs"] r(1) by simp
  moreover have "vals g' = foldl (set_producer (num_ops g + 1)) (vals g) (map unat outs) \<and>
      ops g' = ops g @ [\<lparr>kind = uint (co_kind p), inputs = map unat ins, outputs = map unat outs, epoch = 0\<rparr>]"
    using r by (auto simp: pai_graph_add_op_def Let_def split: if_splits)
  ultimately show ?thesis
    using assms(3,4) io by (simp add: matches_producers list_all2_appendI gop_matches_def)
qed

lemma add_graph_ops_spec:
  assumes "add_graph_ops i g us = Inr g'" "built g" "list_all2 val_matches ts (vals g)" "list_all2 gop_matches ps (ops g)"
  shows "built g' \<and> list_all2 val_matches ts (vals g') \<and> list_all2 gop_matches (ps @ us) (ops g')"
  using assms
proof (induction us arbitrary: i g ps)
  case (Cons u us)
  from Cons.prems(1) obtain g1 where g1: "add_one_op i g u = Inr g1" "add_graph_ops (Suc i) g1 us = Inr g'"
    by (auto split: sum.splits)
  from add_one_op_spec [OF g1(1) Cons.prems(2-4)] Cons.IH [OF g1(2), of "ps @ [u]"] show ?case by simp
qed simp

lemma sort_graph_spec:
  assumes "sort_graph g = Returns (Inr g')" "built g" "list_all2 gop_matches ps (ops g)"
  shows "built g' \<and> vals g' = vals g \<and> list_all2 gop_matches ps (ops g')"
proof -
  from assms(1) have s: "pai_graph_topo_sort g = Some (g', Inr ())"
    by (auto simp: sort_graph_def split: option.splits prod.splits sum.splits)
  obtain t where t: "while_option (\<lambda>t. head t < length (queue t)) (topo_step g) (topo_start g) = Some t"
    "topo_inv g t" "order t = queue t" using topo_loop_ends [OF built_wf [OF assms(2)]] .
  then have o: "ops g' = set_epochs g (order t)" "length (order t) = num_ops g"
    using s by (auto simp: pai_graph_topo_sort_def split: if_splits)
  have d: "distinct (order t)" "set (order t) \<subseteq> {1 .. num_ops g}" using t(2,3) unfolding topo_inv_def by auto
  note se = set_epochs_spec [OF d o(2)]
  have "list_all2 gop_matches ps (ops g')"
    using assms(3) se(1) se(2) [of "Suc i" for i] unfolding list_all2_conv_all_nth o(1) by (simp add: gop_matches_def)
  with built_sort [OF assms(2) s] topo_sort_cases [OF built_wf [OF assms(2)]] s show ?thesis by auto
qed

section \<open>The IR program\<close>

definition packed :: "pai_container_tensor \<Rightarrow> bool" where
  "packed t \<longleftrightarrow> ct_kind t = 1 \<and> ct_data t \<noteq> None \<and> ct_quantize t"

definition ir_value_matches :: "pai_ir_quant option \<Rightarrow> pai_container_tensor \<Rightarrow> pai_ir_value \<Rightarrow> bool" where
  "ir_value_matches q t v \<longleftrightarrow> ivdtype v = ct_dtype t \<and> take (unat (ivrank v)) (ivshape v) = shape_of t \<and>
     ivquant v = (case q of Some x \<Rightarrow> if packed t then x else zero_quant | None \<Rightarrow> zero_quant)"

definition ir_op_matches :: "pai_container_op \<Rightarrow> pai_ir_op \<Rightarrow> bool" where
  "ir_op_matches p u \<longleftrightarrow> iokind u = ucast (co_kind p) \<and> (\<exists>ins outs. co_in p = Some ins \<and> co_out p = Some outs \<and>
     ins \<noteq> [] \<and> outs \<noteq> [] \<and> ioinputs u = map ucast ins \<and> iooutputs u = map ucast outs)"

lemma ir_add_ops_kinds: "ir_add_ops m prog gos = Inr prog' \<Longrightarrow> go \<in> set gos \<Longrightarrow> 0 \<le> kind go \<and> kind go < 18"
  by (induction gos arbitrary: prog) (auto split: if_splits prod.splits)

lemma from_graph_spec:
  assumes "pai_ir_from_graph g = Inr ir" "built g" "list_all2 val_matches ts (vals g)" "list_all2 gop_matches ps (ops g)"
  shows "ir_valid ir \<and> list_all2 (ir_value_matches None) ts (ivalues ir) \<and> list_all2 ir_op_matches ps (iops ir)"
proof -
  have wf: "graph_wf g" using built_wf [OF assms(2)] .
  have kn: "kinds_known g"
    using assms(1) ir_add_ops_kinds by (auto simp: pai_ir_from_graph_def kinds_known_def split: sum.splits)
  have ir: "ir = ir_of_graph g" using from_graph_eq [OF wf kn] assms(1) by simp
  have "ir_value_matches None t (ir_value_of x)" if "val_matches t x" "x \<in> set (vals g)" for t x
    using that shape_of_ir [OF all_vals [OF wf that(2)]]
    by (simp add: ir_value_matches_def val_matches_def) (simp add: ir_value_of_def)
  moreover have "ir_op_matches p (ir_op_of u)" if "gop_matches p u" for p u
    using that by (auto simp: ir_op_matches_def gop_matches_def ir_op_of_def)
  ultimately show ?thesis
    using ir_of_graph_valid [OF wf kn] assms(3,4) unfolding ir
    by (auto simp: ir_of_graph_def list_all2_conv_all_nth)
qed

lemma set_quant_valid: "ir_valid prog \<Longrightarrow> pai_ir_value_set_quant prog v q = Inr prog' \<Longrightarrow> ir_valid prog'"
  by (auto simp: ir_valid_def pai_ir_value_set_quant_def value_valid_def split: if_splits
      dest!: set_update_subset_insert [THEN subsetD])

lemma set_quants_spec:
  assumes "set_quants q ir us = Inr ir'" "\<forall>k < length us. unat (ct_id (us ! k)) = Suc (i + k)"
    and "ir_valid ir" "list_all2 (ir_value_matches (Some q)) ts (take i (ivalues ir))"
    and "list_all2 (ir_value_matches None) us (drop i (ivalues ir))" "i \<le> length (ivalues ir)"
  shows "ir_valid ir' \<and> iops ir' = iops ir \<and> list_all2 (ir_value_matches (Some q)) (ts @ us) (ivalues ir')"
  using assms
proof (induction us arbitrary: i ir ts)
  case (Cons u us)
  obtain v vs where v: "drop i (ivalues ir) = v # vs" "ir_value_matches None u v" "list_all2 (ir_value_matches None) us vs"
    using Cons.prems(5) by (auto simp: list_all2_Cons1)
  have i: "i < length (ivalues ir)" "ivalues ir ! i = v" "drop (Suc i) (ivalues ir) = vs"
    using v(1) by (metis drop_all not_le list.distinct(1), metis hd_drop_conv_nth drop_all list.distinct(1) list.sel(1) not_le,
        metis drop_Suc tl_drop list.sel(3))
  define ir1 where "ir1 = (if packed u then ir\<lparr>ivalues := (ivalues ir)[i := v\<lparr>ivquant := q\<rparr>]\<rparr> else ir)"
  have id: "unat (ct_id u) = Suc i" using Cons.prems(2) by force
  have ids: "\<forall>k < length us. unat (ct_id (us ! k)) = Suc (Suc i + k)"
    using Cons.prems(2) [rule_format, of "Suc k" for k] by simp
  have 1: "set_quants q ir1 us = Inr ir'" "ir_valid ir1"
    using Cons.prems(1,3) id i set_quant_valid [OF Cons.prems(3), of "Suc i" q ir1]
    by (auto simp: ir1_def packed_def pai_ir_value_set_quant_def split: if_splits sum.splits)
  have "take (Suc i) (ivalues ir1) = take i (ivalues ir) @ [if packed u then v\<lparr>ivquant := q\<rparr> else v]"
    "drop (Suc i) (ivalues ir1) = vs" "iops ir1 = iops ir" "length (ivalues ir1) = length (ivalues ir)"
    using i by (auto simp: ir1_def take_Suc_conv_app_nth)
  moreover have "ir_value_matches (Some q) u (if packed u then v\<lparr>ivquant := q\<rparr> else v)"
    using v(2) by (simp add: ir_value_matches_def)
  ultimately show ?case
    using Cons.IH [OF 1(1) ids 1(2), of "ts @ [u]"] Cons.prems(4) v(3) i(1)
    by (auto simp: list_all2_appendI)
qed simp

section \<open>Weights and manifest\<close>

definition weighted :: "pai_container_tensor \<Rightarrow> bool" where
  "weighted t \<longleftrightarrow> ct_kind t = 1 \<and> ct_data t \<noteq> None"

text \<open>Entry \<open>m\<close> of the manifest describes tensor \<open>t\<close>, whose bytes lie where it says.\<close>

definition entry_holds ::
    "fops \<Rightarrow> (u32 \<Rightarrow> int) \<Rightarrow> bool \<Rightarrow> pai_quant_scheme \<Rightarrow> bytes \<Rightarrow> pai_container_tensor \<Rightarrow> pai_pai_tensor \<Rightarrow> bool" where
  "entry_holds F lrint quant_on sc weights t m \<longleftrightarrow>
     (\<exists>nm d w off. ct_name t = Some nm \<and> ct_data t = Some d \<and> weight_bytes F lrint quant_on True sc t d = Returns (Inr w) \<and>
        m = manifest_entry t nm off (length w) \<and> off + length w \<le> length weights \<and> take (length w) (drop off weights) = w)"

lemma entry_holds_append: "entry_holds F lrint quant_on sc weights t m \<Longrightarrow> entry_holds F lrint quant_on sc (weights @ w) t m"
  unfolding entry_holds_def by (elim exE conjE) (intro exI conjI, assumption+, simp_all)

lemma weight_bytes_mem: "weight_bytes F lrint quant_on mem sc t d = Returns (Inr w) \<Longrightarrow>
    weight_bytes F lrint quant_on True sc t d = Returns (Inr w)"
  by (auto simp: weight_bytes_def Let_def split: if_splits)

lemma length_float_bytes: "length (float_bytes xs) = 4 * length xs"
  by (simp add: float_bytes_def length_concat comp_def sum_list_triv)

lemma float_bytes_Nil: "float_bytes xs = [] \<longleftrightarrow> xs = []"
  using length_float_bytes [of xs] by (metis length_0_conv mult_is_0 zero_neq_numeral)

lemma groups_le: "pai_quant_num_groups n sc \<le> n"
proof -
  have "n div gs + (if n mod gs \<noteq> 0 then 1 else 0) \<le> n" if "0 < gs" for gs
  proof -
    have "n = gs * (n div gs) + n mod gs" by simp
    moreover have "n div gs \<le> gs * (n div gs)" using that by (cases gs) simp_all
    ultimately have "n div gs + n mod gs \<le> n" by linarith
    then show ?thesis by (simp split: if_split)
  qed
  moreover have "0 < gs" if "quant_group_size sc n = Inr gs" for gs
    using that by (auto simp: quant_group_size_def Let_def split: if_splits)
  ultimately show ?thesis by (auto simp: pai_quant_num_groups_def split: sum.splits)
qed

lemma value_bytes_range: "n \<noteq> 0 \<Longrightarrow> 0 < pai_quant_value_bytes n sc \<and> pai_quant_value_bytes n sc \<le> n"
  by (auto simp: pai_quant_value_bytes_def)

lemma weight_bytes_length:
  assumes "weight_bytes F lrint quant_on mem sc t d = Returns (Inr w)" "ct_n t \<noteq> 0"
  shows "0 < length w \<and> length w \<le> 5 * unat (ct_n t)"
proof -
  let ?n = "unat (ct_n t)"
  have n: "0 < ?n" using assms(2) by (simp add: unat_gt_0)
  from assms(1) show ?thesis
    using n value_bytes_range [of ?n sc] groups_le [of ?n sc]
    by (auto simp: weight_bytes_def Let_def length_float_bytes float_bytes_Nil split: if_splits option.splits sum.splits
        dest!: quantize_lengths)
qed

lemma put_weights_spec:
  assumes "put_weights F lrint A quant_on sc i weights metas us = Returns (Inr (w', metas'))"
    and "list_all2 (entry_holds F lrint quant_on sc weights) ts metas"
  shows "list_all2 (entry_holds F lrint quant_on sc w') (ts @ filter weighted us) metas'"
  using assms
proof (induction us arbitrary: i weights metas ts)
  case (Cons u us)
  show ?case
  proof (cases "weighted u")
    case True
    then obtain d nm w where w: "ct_data u = Some d" "ct_name u = Some nm"
      "weight_bytes F lrint quant_on (A (9 + 4 * i)) sc u d = Returns (Inr w)"
      "put_weights F lrint A quant_on sc (Suc i) (weights @ w) (metas @ [manifest_entry u nm (length weights) (length w)]) us =
        Returns (Inr (w', metas'))"
      using Cons.prems(1) by (auto simp: weighted_def obind_Inr split: option.splits if_splits)
    have "entry_holds F lrint quant_on sc (weights @ w) u (manifest_entry u nm (length weights) (length w))"
      using w weight_bytes_mem [OF w(3)] unfolding entry_holds_def
      by (intro exI [of _ nm] exI [of _ d] exI [of _ w] exI [of _ "length weights"]) simp
    moreover have "list_all2 (entry_holds F lrint quant_on sc (weights @ w)) ts metas"
      using Cons.prems(2) entry_holds_append by (rule list_all2_mono)
    ultimately show ?thesis
      using Cons.IH [OF w(4), of "ts @ [u]"] True by (simp add: list_all2_appendI)
  next
    case False
    then have "put_weights F lrint A quant_on sc (Suc i) weights metas us = Returns (Inr (w', metas'))"
      using Cons.prems(1) by (auto simp: weighted_def split: option.splits if_splits)
    from Cons.IH [OF this Cons.prems(2)] False show ?thesis by simp
  qed
qed simp

lemma put_weights_length:
  assumes "put_weights F lrint A quant_on sc i weights metas us = Returns (Inr (w', metas'))"
    and "\<forall>u \<in> set us. weighted u \<longrightarrow> ct_n u \<noteq> 0"
  shows "length w' \<le> length weights + (\<Sum>u \<leftarrow> filter weighted us. 5 * unat (ct_n u))"
  using assms
proof (induction us arbitrary: i weights metas)
  case (Cons u us)
  show ?case
  proof (cases "weighted u")
    case True
    then obtain d w m where w: "weight_bytes F lrint quant_on (A (9 + 4 * i)) sc u d = Returns (Inr w)"
      "put_weights F lrint A quant_on sc (Suc i) (weights @ w) m us = Returns (Inr (w', metas'))"
      using Cons.prems(1) by (auto simp: weighted_def obind_Inr split: option.splits if_splits)
    from Cons.IH [OF w(2)] weight_bytes_length [OF w(1)] Cons.prems(2) True show ?thesis by simp
  next
    case False
    then have "put_weights F lrint A quant_on sc (Suc i) weights metas us = Returns (Inr (w', metas'))"
      using Cons.prems(1) by (auto simp: weighted_def split: option.splits if_splits)
    from Cons.IH [OF this] Cons.prems(2) False show ?thesis by simp
  qed
qed simp

text \<open>What a reader of the manifest finds for a tensor.\<close>

definition entry_reads ::
    "fops \<Rightarrow> (u32 \<Rightarrow> int) \<Rightarrow> bool \<Rightarrow> pai_quant_scheme \<Rightarrow> bytes \<Rightarrow> pai_container_tensor \<Rightarrow> pai_pai_tensor \<Rightarrow> bool" where
  "entry_reads F lrint quant_on sc weights t m \<longleftrightarrow>
     tname m = take 63 (cstr (the (ct_name t))) \<and> tvalue_id m = ct_id t \<and> tdtype m = PAI_DTYPE_F32 \<and> trank m = ct_rank t \<and>
     tshape m = ct_shape t \<and> unat (toffset m) + unat (tsize_bytes m) \<le> length weights \<and>
     weight_bytes F lrint quant_on True sc t (the (ct_data t)) =
       Returns (Inr (take (unat (tsize_bytes m)) (drop (unat (toffset m)) weights)))"

lemma entry_holds_reads:
  assumes "entry_holds F lrint quant_on sc weights t m" "length weights < 2 ^ 32"
  shows "entry_reads F lrint quant_on sc weights t m"
proof -
  obtain nm d w off where e: "ct_name t = Some nm" "ct_data t = Some d"
    "weight_bytes F lrint quant_on True sc t d = Returns (Inr w)" "m = manifest_entry t nm off (length w)"
    "off + length w \<le> length weights" "take (length w) (drop off weights) = w"
    using assms(1) unfolding entry_holds_def by blast
  then have "unat (toffset m) = off" "unat (tsize_bytes m) = length w"
    using assms(2) by (simp_all add: manifest_entry_def unat_of_nat)
  with e show ?thesis by (simp add: entry_reads_def manifest_entry_def)
qed

lemma entry_holds_ok:
  assumes "entry_holds F lrint quant_on sc weights t m" "length weights < 2 ^ 32" "tensor_good i t" "weighted t"
    and "length (ct_shape t) = PAI_TENSOR_MAX_RANK" "cstr (the (ct_name t)) \<noteq> []"
  shows "tensor_ok m"
proof -
  obtain nm d w off where e: "ct_name t = Some nm"
    "weight_bytes F lrint quant_on True sc t d = Returns (Inr w)" "m = manifest_entry t nm off (length w)"
    "off + length w \<le> length weights"
    using assms(1) unfolding entry_holds_def by blast
  have "0 < length w" using weight_bytes_length [OF e(2)] assms(3,4) by (simp add: tensor_good_def weighted_def)
  moreover have "length w < 2 ^ 32" using e(4) assms(2) by linarith
  ultimately have "(of_nat (length w) :: u64) \<noteq> 0" by (auto simp: word_unat_eq_iff unat_of_nat)
  moreover have "0 \<notin> set (take 63 (cstr nm))" using cstr_no_zero by (metis in_set_takeD)
  ultimately show ?thesis
    using assms(3,5,6) e(1) by (simp add: tensor_ok_def e(3) manifest_entry_def tensor_good_def)
qed

lemma manifest_length:
  assumes "pai_pai_manifest_encode ms cap = Inr d" "\<forall>m \<in> set ms. tensor_ok m"
  shows "length d \<le> cap"
proof -
  have "length (put_tensor m) = 2 + length (tname m) + 4 + 4 + 6 * 8 + 8 + 8" if "m \<in> set ms" for m
    using assms(2) that by (simp add: put_tensor_parts tensor_ok_def length_tensor_tail)
  then have "length (concat (map put_tensor ms)) = (\<Sum>m \<leftarrow> ms. 2 + length (tname m) + 4 + 4 + 6 * 8 + 8 + 8)"
    by (simp add: length_concat comp_def cong: map_cong)
  then show ?thesis using assms(1) by (auto simp: pai_pai_manifest_encode_def split: if_splits)
qed

section \<open>The tokenizer\<close>

definition token_matches :: "pai_container_token \<Rightarrow> bytes \<Rightarrow> bool" where
  "token_matches k t \<longleftrightarrow> (\<exists>x. ck_text k = Some x \<and> (length (cstr x) < 2 ^ 32 \<longrightarrow> t = cstr x))"

definition rule_of :: "pai_container_merge \<Rightarrow> pai_tok_merge" where
  "rule_of m = \<lparr>mleft = cm_left m, mright = cm_right m, mresult = cm_result m\<rparr>"

lemma add_vocab_spec:
  assumes "add_vocab A i tok us = Inr tok'" "tok_built tok" "list_all2 token_matches ks (toks tok)"
  shows "tok_built tok' \<and> token_ids tok' = token_ids tok @ map ck_id us \<and> list_all2 token_matches (ks @ us) (toks tok') \<and>
    merges tok' = merges tok"
  using assms
proof (induction us arbitrary: i tok ks)
  case (Cons u us)
  obtain x t1 where x: "ck_text u = Some x" "pai_tok_add_token tok (ck_id u) (Some (cstr x)) (A (10 + 4 * i)) = Inr t1"
    "add_vocab A (Suc i) t1 us = Inr tok'"
    using Cons.prems(1) by (auto simp: pai_tok_add_token_def split: sum.splits option.splits)
  have "list_all2 token_matches (ks @ [u]) (toks t1) \<and> token_ids t1 = token_ids tok @ [ck_id u] \<and> merges t1 = merges tok"
  proof -
    have "token_matches u (take (unat (of_nat (length (cstr x)) :: u32)) (cstr x))"
      using x(1) by (simp add: token_matches_def unat_of_nat32)
    with Cons.prems(3) have "list_all2 token_matches (ks @ [u]) (toks tok @ [take (unat (of_nat (length (cstr x)) :: u32)) (cstr x)])"
      by (intro list_all2_appendI) simp_all
    then show ?thesis using x(2) by (auto simp: pai_tok_add_token_def Let_def split: if_splits)
  qed
  then show ?case using Cons.IH [OF x(3) tok_built.token [OF Cons.prems(2) x(2)], of "ks @ [u]"] by simp
qed simp

lemma add_rules_spec:
  assumes "add_rules A i tok us = Inr tok'" "tok_built tok"
  shows "tok_built tok' \<and> token_ids tok' = token_ids tok \<and> toks tok' = toks tok \<and> merges tok' = merges tok @ map rule_of us"
  using assms
proof (induction us arbitrary: i tok)
  case (Cons u us)
  obtain t1 where t1: "pai_tok_add_merge tok (cm_left u) (cm_right u) (cm_result u) (A (11 + 4 * i)) = Inr t1"
    "add_rules A (Suc i) t1 us = Inr tok'"
    using Cons.prems(1) by (auto split: sum.splits)
  then have "token_ids t1 = token_ids tok \<and> toks t1 = toks tok \<and> merges t1 = merges tok @ [rule_of u]"
    by (auto simp: pai_tok_add_merge_def rule_of_def split: if_splits)
  with Cons.IH [OF t1(2) tok_built.merge [OF Cons.prems(2) t1(1)]] show ?case by simp
qed simp

lemma finalize_fields [simp]:
  "token_ids (pai_tok_finalize tok) = token_ids tok" "toks (pai_tok_finalize tok) = toks tok"
  "merges (pai_tok_finalize tok) = merges tok" "pai_tok_blob_size (pai_tok_finalize tok) = pai_tok_blob_size tok"
  "pai_tok_serialize (pai_tok_finalize tok) cap = pai_tok_serialize tok cap"
  by (simp_all add: pai_tok_finalize_def pai_tok_blob_size_def pai_tok_serialize_def)

section \<open>The container\<close>

lemma add_section_eq:
  assumes "pai_built b" "length b < 8" "type_ok ty" "length d < 2 ^ 32"
  shows "add_section b ty d = b @ [\<lparr>stype = ty, sflags = 0, spayload = d\<rparr>] \<and> pai_built (add_section b ty d)"
proof -
  have a: "pai_pai_builder_add_flags b ty 0 (Some d) (of_nat (length d)) = Inr (b @ [\<lparr>stype = ty, sflags = 0, spayload = d\<rparr>])"
    using assms(2-4) by (auto simp: pai_pai_builder_add_flags_def type_ok_def pai_consts unat_of_nat32)
  then show ?thesis using pai_built.add [OF assms(1) a] by (simp add: add_section_def pai_pai_builder_add_def)
qed

definition section_bytes :: "bytes \<Rightarrow> pai_pai_container \<Rightarrow> u32 \<Rightarrow> bytes option" where
  "section_bytes blob c ty = map_option (\<lambda>(off, sz). take (unat sz) (drop (unat off) blob)) (pai_pai_section c ty)"

definition compressed :: "pai_container_quant option \<Rightarrow> bool" where
  "compressed quant \<longleftrightarrow> (\<exists>q. quant = Some q \<and> cq_compress q \<noteq> 0)"

definition stored :: "(bytes \<Rightarrow> u64 \<Rightarrow> bytes res) \<Rightarrow> pai_container_quant option \<Rightarrow> bytes \<Rightarrow> bytes res" where
  "stored compress quant weights =
     (if compressed quant then compress weights (pai_compress_bound (of_nat (length weights)) + 16) else Inr weights)"

lemma add_weights_eq:
  assumes "add_weights compress A quant b weights = Inr b'" "pai_built b" "length b < 8" "weights \<noteq> []"
    and "length weights < 2 ^ 32" "\<forall>w n d. compress w n = Inr d \<longrightarrow> length d < 2 ^ 32"
  shows "pai_built b' \<and> (\<exists>d. stored compress quant weights = Inr d \<and>
    b' = b @ [\<lparr>stype = PAI_PAI_SEC_WEIGHTS, sflags = (if compressed quant then 1 else 0), spayload = d\<rparr>])"
proof (cases "compressed quant")
  case True
  then obtain cw where cw: "compress weights (pai_compress_bound (of_nat (length weights)) + 16) = Inr cw"
    "pai_pai_builder_add_flags b PAI_PAI_SEC_WEIGHTS PAI_PAI_SEC_FLAG_COMPRESSED (Some cw) (of_nat (length cw)) = Inr b'"
    using assms(1,4) by (auto simp: add_weights_def compressed_def split: if_splits sum.splits)
  then have "unat (of_nat (length cw) :: u32) = length cw" using assms(6) by (simp add: unat_of_nat32)
  with cw True pai_built.add [OF assms(2) cw(2)] show ?thesis
    by (auto simp: stored_def pai_pai_builder_add_flags_def pai_consts split: if_splits)
next
  case False
  then have "b' = add_section b PAI_PAI_SEC_WEIGHTS weights" using assms(1) by (auto simp: add_weights_def compressed_def split: if_splits)
  with False add_section_eq [OF assms(2,3) _ assms(5), of PAI_PAI_SEC_WEIGHTS] show ?thesis
    by (auto simp: stored_def type_ok_def pai_consts)
qed

lemma obindE: "obind m f = Returns (Inr b) \<Longrightarrow> (\<And>a. m = Returns (Inr a) \<Longrightarrow> f a = Returns (Inr b) \<Longrightarrow> P) \<Longrightarrow> P"
  by (auto simp: obind_Inr)

lemma obind2E:
  "obind m (\<lambda>(x, y). f x y) = Returns (Inr b) \<Longrightarrow> (\<And>x y. m = Returns (Inr (x, y)) \<Longrightarrow> f x y = Returns (Inr b) \<Longrightarrow> P) \<Longrightarrow> P"
  by (auto simp: obind_Inr)

lemma guardE: "(if c then Returns (Inl e) else m) = Returns (Inr b) \<Longrightarrow> (\<not> c \<Longrightarrow> m = Returns (Inr b) \<Longrightarrow> P) \<Longrightarrow> P"
  by (auto split: if_splits)

text \<open>The steps of a successful call.\<close>

lemma build_steps:
  assumes "pai_container_build F lrint compress A meta ts ps ks ms quant = Returns (Inr blob)"
  obtains quant_on q4 g0 g1 g ir0 ir weights metas tok0 tok md man irb tkb b3 where
    "quant_mode quant = Inr (quant_on, q4)"
    "add_tensors 0 pai_graph_init ts = Returns (Inr g0)" "add_graph_ops 0 g0 ps = Inr g1" "sort_graph g1 = Returns (Inr g)"
    "pai_ir_from_graph g = Inr ir0"
    "(if quant_on then set_quants (ir_quant q4 (quant_group quant)) ir0 ts else Inr ir0) = Inr ir"
    "put_weights F lrint A quant_on (scheme_of q4 (quant_group quant)) 0 [] [] ts = Returns (Inr (weights, metas))"
    "add_vocab A 0 pai_tok_init ks = Inr tok0" "add_rules A 0 tok0 ms = Inr tok"
    "pai_pai_meta_encode meta PAI_PAI_META_SIZE = Inr md" "pai_pai_manifest_encode metas (8 + length metas * 160) = Inr man"
    "pai_ir_encode ir (pai_ir_encoded_size ir) = Inr irb"
    "(if pai_tok_blob_size tok > 0 then pai_tok_serialize tok (pai_tok_blob_size tok) else Inr []) = Inr tkb"
    "add_weights compress A quant (add_section (add_section pai_pai_builder_init 1 md) 2 man) weights = Inr b3"
    "pai_pai_build (if pai_tok_blob_size tok > 0 then add_section (add_section b3 4 irb) 5 tkb else add_section b3 4 irb)
       (pai_pai_encoded_size (if pai_tok_blob_size tok > 0 then add_section (add_section b3 4 irb) 5 tkb else add_section b3 4 irb)) =
       Inr blob"
  using assms unfolding pai_container_build_def Let_def
  by (elim guardE obind2E obindE) (simp only: outcome.inject finalize_fields)

lemma packed_ir:
  assumes "add_tensors 0 pai_graph_init ts = Returns (Inr g0)" "add_graph_ops 0 g0 ps = Inr g1" "sort_graph g1 = Returns (Inr g)"
    and "pai_ir_from_graph g = Inr ir0" "(if quant_on then set_quants q ir0 ts else Inr ir0) = Inr ir"
  shows "ir_valid ir \<and> list_all2 (ir_value_matches (if quant_on then Some q else None)) ts (ivalues ir) \<and>
    list_all2 ir_op_matches ps (iops ir) \<and> (\<forall>k < length ts. tensor_good k (ts ! k))"
proof -
  have i: "vals pai_graph_init = []" "ops pai_graph_init = []" by (simp_all add: pai_graph_init_def)
  have t: "built g0" "list_all2 val_matches ts (vals g0)" "ops g0 = []" "\<forall>k < length ts. tensor_good k (ts ! k)"
    using add_tensors_spec [OF assms(1) built_init, of "[]"] i by simp_all
  have o: "built g1" "list_all2 val_matches ts (vals g1)" "list_all2 gop_matches ps (ops g1)"
    using add_graph_ops_spec [OF assms(2) t(1,2), of "[]"] t(3) by simp_all
  have g: "built g" "list_all2 val_matches ts (vals g)" "list_all2 gop_matches ps (ops g)"
    using sort_graph_spec [OF assms(3) o(1,3)] o(2) by simp_all
  have f: "ir_valid ir0" "list_all2 (ir_value_matches None) ts (ivalues ir0)" "list_all2 ir_op_matches ps (iops ir0)"
    using from_graph_spec [OF assms(4) g] by simp_all
  show ?thesis
  proof (cases quant_on)
    case True
    have "\<forall>k < length ts. unat (ct_id (ts ! k)) = Suc (0 + k)" using t(4) by (simp add: tensor_good_def)
    from set_quants_spec [OF _ this f(1), of q ir "[]"] f(2,3) True assms(5) t(4) show ?thesis by simp
  next
    case False
    with f assms(5) t(4) show ?thesis by simp
  qed
qed

lemma ir_blob:
  assumes "ir_valid ir" "list_all2 ir_op_matches ps (iops ir)" "pai_ir_encode ir (pai_ir_encoded_size ir) = Inr d"
  shows "pai_ir_decode d = Returns (Inr ir) \<and> length d < 2 ^ 32"
proof -
  have "\<forall>p \<in> set (iops ir). op_nonempty p"
    using assms(2) by (fastforce simp: list_all2_conv_all_nth in_set_conv_nth ir_op_matches_def op_nonempty_def)
  then show ?thesis
    using encode_valid [OF assms(1), of "pai_ir_encoded_size ir"] encoded_size_valid [OF assms(1)] decode_encode_blob [OF assms(1)]
      assms(3) by simp
qed

lemma tok_blob:
  assumes "tok_built tok"
  shows "\<exists>d. pai_tok_blob_size tok > 0 \<and> pai_tok_serialize tok (pai_tok_blob_size tok) = Inr d \<and> length d < 2 ^ 32 \<and>
    (\<forall>old. pai_tok_deserialize old d True True = Returns (pai_tok_finalize tok, Inr ()))"
proof -
  obtain d where d: "pai_tok_serialize tok (pai_tok_blob_size tok) = Inr d" "length d = pai_tok_blob_size tok"
    using serialize_deserialize [OF assms, of "pai_tok_blob_size tok"] by blast
  moreover have "pai_tok_deserialize old d True True = Returns (pai_tok_finalize tok, Inr ())" for old
    using serialize_deserialize [OF assms, of "pai_tok_blob_size tok" old] d(1) by simp
  moreover have "0 < pai_tok_blob_size tok" using d(1) by (auto simp: pai_tok_serialize_def Let_def split: if_splits)
  moreover have "pai_tok_blob_size tok < 2 ^ 32" by (simp add: pai_tok_blob_size_def Let_def)
  ultimately show ?thesis by auto
qed

lemma list_all2_right: "list_all2 P xs ys \<Longrightarrow> y \<in> set ys \<Longrightarrow> \<exists>x \<in> set xs. P x y"
  by (induction rule: list_all2_induct) auto

lemma five_sections:
  assumes "pai_built b" "pai_pai_build b cap = Inr blob" "fl = 0 \<or> fl = 1"
    and "b = [\<lparr>stype = 1, sflags = 0, spayload = d1\<rparr>, \<lparr>stype = 2, sflags = 0, spayload = d2\<rparr>,
      \<lparr>stype = PAI_PAI_SEC_WEIGHTS, sflags = fl, spayload = d3\<rparr>, \<lparr>stype = 4, sflags = 0, spayload = d4\<rparr>,
      \<lparr>stype = 5, sflags = 0, spayload = d5\<rparr>]"
  shows "\<exists>c. pai_pai_open blob = Returns (Inr c) \<and> section_bytes blob c 1 = Some d1 \<and> section_bytes blob c 2 = Some d2 \<and>
    section_bytes blob c 3 = Some d3 \<and> pai_pai_section_flags c 3 = fl \<and> section_bytes blob c 4 = Some d4 \<and>
    section_bytes blob c 5 = Some d5"
proof -
  have "sections_ok b" using assms(3) unfolding assms(4) by (auto simp: sections_ok_def flags_ok_def pai_consts)
  from opened_sections [OF assms(1,2) this] obtain c where c: "pai_pai_open blob = Returns (Inr c)"
    "\<forall>s \<in> set b. pai_pai_section_flags c (stype s) = sflags s \<and>
       (\<exists>off sz. pai_pai_section c (stype s) = Some (off, sz) \<and> take (unat sz) (drop (unat off) blob) = spayload s)"
    by blast
  then have "\<forall>s \<in> set b. pai_pai_section_flags c (stype s) = sflags s \<and> section_bytes blob c (stype s) = Some (spayload s)"
    by (auto simp: section_bytes_def)
  then show ?thesis using c(1) unfolding assms(4) by (auto simp: pai_consts)
qed

section \<open>Properties\<close>

text \<open>C7. What is packed can be read back. The container of a successful call opens; its metadata section decodes to
  the metadata; its manifest describes exactly the parameters, each by the place of its bytes, quantized or not, in the
  weights; the weights section holds them, compressed and marked so when asked for; the IR section decodes to a
  program with the values and ops given and the quantization of packed parameters; the tokenizer section decodes to the
  tokenizer given. The weights must fit the 32-bit size of a section, and names of parameters must not be empty.\<close>

theorem container_roundtrip:
  assumes "pai_container_build F lrint compress A meta ts ps ks ms quant = Returns (Inr blob)"
    and "\<forall>t \<in> set ts. length (ct_shape t) = PAI_TENSOR_MAX_RANK \<and> (weighted t \<longrightarrow> cstr (the (ct_name t)) \<noteq> [])"
    and "(\<Sum>t \<leftarrow> filter weighted ts. 5 * unat (ct_n t)) < 2 ^ 32" "\<forall>w n d. compress w n = Inr d \<longrightarrow> length d < 2 ^ 32"
    and "0 \<notin> set (mname meta)"
  shows "\<exists>quant_on q4 c md man metas weights wd irb ir tkb tok.
    quant_mode quant = Inr (quant_on, q4) \<and> pai_pai_open blob = Returns (Inr c) \<and>
    section_bytes blob c 1 = Some md \<and> pai_pai_meta_decode md = Inr meta \<and>
    section_bytes blob c 2 = Some man \<and> pai_pai_manifest_decode man PAI_PAI_MAX_TENSORS = Returns (Inr metas) \<and>
    list_all2 (entry_reads F lrint quant_on (scheme_of q4 (quant_group quant)) weights) (filter weighted ts) metas \<and>
    section_bytes blob c 3 = Some wd \<and> stored compress quant weights = Inr wd \<and>
    pai_pai_section_flags c 3 = (if compressed quant then 1 else 0) \<and>
    section_bytes blob c 4 = Some irb \<and> pai_ir_decode irb = Returns (Inr ir) \<and>
    list_all2 (ir_value_matches (if quant_on then Some (ir_quant q4 (quant_group quant)) else None)) ts (ivalues ir) \<and>
    list_all2 ir_op_matches ps (iops ir) \<and>
    section_bytes blob c 5 = Some tkb \<and> (\<forall>old. pai_tok_deserialize old tkb True True = Returns (tok, Inr ())) \<and>
    token_ids tok = map ck_id ks \<and> list_all2 token_matches ks (toks tok) \<and> merges tok = map rule_of ms"
proof -
  obtain quant_on q4 g0 g1 g ir0 ir weights metas tok0 tok md man irb tkb b3 where
    m: "quant_mode quant = Inr (quant_on, q4)"
    and g: "add_tensors 0 pai_graph_init ts = Returns (Inr g0)" "add_graph_ops 0 g0 ps = Inr g1" "sort_graph g1 = Returns (Inr g)"
      "pai_ir_from_graph g = Inr ir0"
      "(if quant_on then set_quants (ir_quant q4 (quant_group quant)) ir0 ts else Inr ir0) = Inr ir"
    and w: "put_weights F lrint A quant_on (scheme_of q4 (quant_group quant)) 0 [] [] ts = Returns (Inr (weights, metas))"
    and t: "add_vocab A 0 pai_tok_init ks = Inr tok0" "add_rules A 0 tok0 ms = Inr tok"
    and e: "pai_pai_meta_encode meta PAI_PAI_META_SIZE = Inr md"
      "pai_pai_manifest_encode metas (8 + length metas * 160) = Inr man"
      "pai_ir_encode ir (pai_ir_encoded_size ir) = Inr irb"
      "(if pai_tok_blob_size tok > 0 then pai_tok_serialize tok (pai_tok_blob_size tok) else Inr []) = Inr tkb"
    and b3: "add_weights compress A quant (add_section (add_section pai_pai_builder_init 1 md) 2 man) weights = Inr b3"
    and bl: "pai_pai_build (if pai_tok_blob_size tok > 0 then add_section (add_section b3 4 irb) 5 tkb else add_section b3 4 irb)
       (pai_pai_encoded_size (if pai_tok_blob_size tok > 0 then add_section (add_section b3 4 irb) 5 tkb else add_section b3 4 irb)) =
       Inr blob"
    using assms(1) by (rule build_steps)
  let ?sc = "scheme_of q4 (quant_group quant)"
  note ir = packed_ir [OF g]
  have good: "\<exists>k. tensor_good k x" if "x \<in> set ts" for x using ir that by (auto simp: in_set_conv_nth)
  have tk: "tok_built tok" "token_ids tok = map ck_id ks" "list_all2 token_matches ks (toks tok)" "merges tok = map rule_of ms"
    using add_vocab_spec [OF t(1) tok_built.init, of "[]"] add_rules_spec [OF t(2)] by (simp_all add: pai_tok_init_def)
  have holds: "list_all2 (entry_holds F lrint quant_on ?sc weights) (filter weighted ts) metas"
    using put_weights_spec [OF w, of "[]"] by simp
  have "ct_n x \<noteq> 0" if "x \<in> set ts" "weighted x" for x using good [OF that(1)] that(2) by (auto simp: tensor_good_def weighted_def)
  then have "length weights \<le> length ([] :: bytes) + (\<Sum>u \<leftarrow> filter weighted ts. 5 * unat (ct_n u))"
    by (intro put_weights_length [OF w] ballI impI)
  then have wl: "length weights < 2 ^ 32" using assms(3) by simp
  have reads: "list_all2 (entry_reads F lrint quant_on ?sc weights) (filter weighted ts) metas"
    using holds entry_holds_reads [OF _ wl] by (rule list_all2_mono)
  have ok: "tensor_ok x" if xm: "x \<in> set metas" for x
  proof -
    obtain u where u: "u \<in> set (filter weighted ts)" "entry_holds F lrint quant_on ?sc weights u x"
      using list_all2_right [OF holds xm] by blast
    obtain k where "tensor_good k u" using good u(1) by auto
    from entry_holds_ok [OF u(2) wl this] u(1) assms(2) show ?thesis by auto
  qed
  have ml: "metas \<noteq> []" "length metas \<le> PAI_PAI_MAX_TENSORS"
    using e(2) by (auto simp: pai_pai_manifest_encode_def split: if_splits)
  have "weights \<noteq> []"
  proof
    assume "weights = []"
    moreover obtain x u where "entry_reads F lrint quant_on ?sc weights u x" "tensor_ok x"
      using reads ml(1) ok by (cases metas) (auto simp: list_all2_Cons2)
    ultimately show False by (auto simp: entry_reads_def tensor_ok_def unat_eq_0)
  qed
  have mdl: "length md < 2 ^ 32" "pai_pai_meta_decode md = Inr meta"
    using pai_meta_roundtrip [OF assms(5), of PAI_PAI_META_SIZE "[]"] e(1)
    by (auto simp: pai_consts pai_pai_meta_encode_def split: if_splits)
  have manl: "length man < 2 ^ 32" using manifest_length [OF e(2)] ok ml(2) by (auto simp: pai_consts)
  have man: "pai_pai_manifest_decode man PAI_PAI_MAX_TENSORS = Returns (Inr metas)"
    using manifest_roundtrip [OF _ e(2) ml(2), of "[]"] ok by simp
  have irb: "pai_ir_decode irb = Returns (Inr ir)" and irl: "length irb < 2 ^ 32"
    using ir_blob [OF _ _ e(3)] ir by blast+
  have irs: "list_all2 (ir_value_matches (if quant_on then Some (ir_quant q4 (quant_group quant)) else None)) ts (ivalues ir)"
    "list_all2 ir_op_matches ps (iops ir)" using ir by blast+
  obtain tkb' where tb: "0 < pai_tok_blob_size tok" "tkb' = tkb" "length tkb < 2 ^ 32"
    "\<forall>old. pai_tok_deserialize old tkb True True = Returns (pai_tok_finalize tok, Inr ())"
    using tok_blob [OF tk(1)] e(4) by auto
  have b: "pai_built pai_pai_builder_init" "pai_pai_builder_init = []" by (rule pai_built.init, simp add: pai_pai_builder_init_def)
  define b2 where "b2 = add_section (add_section pai_pai_builder_init 1 md) 2 man"
  have b2: "b2 = [\<lparr>stype = 1, sflags = 0, spayload = md\<rparr>, \<lparr>stype = 2, sflags = 0, spayload = man\<rparr>]" "pai_built b2"
    using add_section_eq [OF b(1), of 1 md] add_section_eq [of "add_section pai_pai_builder_init 1 md" 2 man] b(2) mdl(1) manl
    by (auto simp: b2_def type_ok_def pai_consts)
  obtain wd where wd: "pai_built b3" "stored compress quant weights = Inr wd"
    "b3 = b2 @ [\<lparr>stype = PAI_PAI_SEC_WEIGHTS, sflags = (if compressed quant then 1 else 0), spayload = wd\<rparr>]"
    using add_weights_eq [OF b3 [folded b2_def] b2(2) _ \<open>weights \<noteq> []\<close> wl assms(4)] b2(1) by auto
  have ty: "type_ok 4" "type_ok 5" by (simp_all add: type_ok_def pai_consts)
  have l3: "length b3 < 8" using wd(3) b2(1) by simp
  have b4: "add_section b3 4 irb = b3 @ [\<lparr>stype = 4, sflags = 0, spayload = irb\<rparr>]" "pai_built (add_section b3 4 irb)"
    using add_section_eq [OF wd(1) l3 ty(1) irl] by blast+
  have l4: "length (add_section b3 4 irb) < 8" using arg_cong [OF b4(1), of length] arg_cong [OF wd(3), of length] b2(1) by simp
  have b5: "add_section (add_section b3 4 irb) 5 tkb = add_section b3 4 irb @ [\<lparr>stype = 5, sflags = 0, spayload = tkb\<rparr>]"
    "pai_built (add_section (add_section b3 4 irb) 5 tkb)"
    using add_section_eq [OF b4(2) l4 ty(2) tb(3)] by blast+
  have bl5: "pai_pai_build (add_section (add_section b3 4 irb) 5 tkb)
      (pai_pai_encoded_size (add_section (add_section b3 4 irb) 5 tkb)) = Inr blob" using bl tb(1) by simp
  have eq5: "add_section (add_section b3 4 irb) 5 tkb = [\<lparr>stype = 1, sflags = 0, spayload = md\<rparr>,
      \<lparr>stype = 2, sflags = 0, spayload = man\<rparr>,
      \<lparr>stype = PAI_PAI_SEC_WEIGHTS, sflags = (if compressed quant then 1 else 0), spayload = wd\<rparr>,
      \<lparr>stype = 4, sflags = 0, spayload = irb\<rparr>, \<lparr>stype = 5, sflags = 0, spayload = tkb\<rparr>]"
    using b5(1) b4(1) wd(3) b2(1) by simp
  have fl: "(if compressed quant then 1 else 0 :: u32) = 0 \<or> (if compressed quant then 1 else 0 :: u32) = 1" by simp
  obtain c where c: "pai_pai_open blob = Returns (Inr c)" "section_bytes blob c 1 = Some md" "section_bytes blob c 2 = Some man"
    "section_bytes blob c 3 = Some wd" "pai_pai_section_flags c 3 = (if compressed quant then 1 else 0)"
    "section_bytes blob c 4 = Some irb" "section_bytes blob c 5 = Some tkb"
    using five_sections [OF b5(2) bl5 fl eq5] by blast
  show ?thesis
    by (intro exI conjI, rule m, rule c(1), rule c(2), rule mdl(2), rule c(3), rule man, rule reads, rule c(4), rule wd(2),
      rule c(5), rule c(6), rule irb, rule irs(1), rule irs(2), rule c(7), rule tb(4)) (simp_all add: tk)
qed


definition demo_tensor_of :: "u32 \<Rightarrow> u32 \<Rightarrow> pai_container_tensor" where
  "demo_tensor_of i k =
     \<lparr>ct_id = i, ct_dtype = PAI_DTYPE_F32, ct_rank = 1, ct_shape = [2, 0, 0, 0, 0, 0], ct_kind = k,
      ct_name = (if k = 1 then Some [119] else None), ct_data = (if k = 1 then Some [5, 9] else None),
      ct_n = (if k = 1 then 2 else 0), ct_quantize = False\<rparr>"

definition demo_tensors :: "pai_container_tensor list" where
  "demo_tensors = [demo_tensor_of 1 0, demo_tensor_of 2 1, demo_tensor_of 3 3]"

definition demo_op :: pai_container_op where
  "demo_op = \<lparr>co_id = 1, co_kind = 1, co_in = Some [1, 2], co_out = Some [3]\<rparr>"

definition demo_vocab :: "pai_container_token list" where
  "demo_vocab = [\<lparr>ck_id = 7, ck_text = Some [97]\<rparr>]"

definition demo_meta :: pai_pai_meta where
  "demo_meta = \<lparr>mname = [65], family = 1, context_len = 8, mlayers = 2, kv_bytes_per_token = 16, vocab_size = 300, reserved = 0\<rparr>"

definition demo_value :: "nat \<Rightarrow> bool \<Rightarrow> bool \<Rightarrow> pai_graph_value" where
  "demo_value u i k = \<lparr>vdtype = PAI_DTYPE_F32, vshape = [2], vsize = 8, valign = 16, producer = u, is_input = i, is_output = k\<rparr>"

definition demo_packed :: pai_graph where
  "demo_packed = \<lparr>vals = [demo_value 0 True False, demo_value 0 False False, demo_value 1 False True],
     ops = [\<lparr>kind = 1, inputs = [1, 2], outputs = [3], epoch = 0\<rparr>], is_sorted = True\<rparr>"

lemma demo_add_tensors: "add_tensors 0 pai_graph_init demo_tensors =
    Returns (Inr \<lparr>vals = [demo_value 0 True False, demo_value 0 False False, demo_value 0 False True], ops = [], is_sorted = False\<rparr>)"
proof -
  have c: "pai_tensor_contiguous_size PAI_DTYPE_F32 [2] = Inr 8"
    by (simp add: pai_tensor_contiguous_size_def PAI_TENSOR_MAX_RANK_def pai_dtype_size_def)
  show ?thesis
    by (simp add: demo_tensors_def demo_tensor_of_def add_tensor_def tensor_numel_def c pai_graph_add_value_def pai_graph_init_def
        PAI_TENSOR_MAX_RANK_def PAI_GRAPH_MAX_VALUES_def pai_graph_set_input_def pai_graph_set_output_def demo_value_def)
qed

lemma demo_add_ops: "add_graph_ops 0 \<lparr>vals = [demo_value 0 True False, demo_value 0 False False, demo_value 0 False True],
      ops = [], is_sorted = False\<rparr> [demo_op] = Inr (demo_packed\<lparr>is_sorted := False\<rparr>)"
  by (simp add: add_one_op_def demo_op_def demo_packed_def pai_graph_add_op_def PAI_GRAPH_MAX_ARITY_def PAI_GRAPH_MAX_OPS_def
      op_inputs_ok_def set_producer_def demo_value_def)

lemma demo_sort: "sort_graph (demo_packed\<lparr>is_sorted := False\<rparr>) = Returns (Inr demo_packed)"
proof -
  have t: "topo_start (demo_packed\<lparr>is_sorted := False\<rparr>) = \<lparr>indegree = [0, 0], queue = [1], head = 0, order = []\<rparr>"
    by (simp add: topo_start_def op_indegree_def demo_packed_def demo_value_def)
  have "pai_graph_topo_sort (demo_packed\<lparr>is_sorted := False\<rparr>) = Some (demo_packed, Inr ())"
    unfolding pai_graph_topo_sort_def t
    by (subst while_option_unfold, simp, subst while_option_unfold)
      (simp add: topo_step_def release_value_def release_op_def demo_packed_def set_epochs_def)
  then show ?thesis by (simp add: sort_graph_def)
qed

lemma demo_ir_of: "pai_ir_from_graph demo_packed = Inr (ir_of_graph demo_packed) \<and> ir_valid (ir_of_graph demo_packed)"
proof -
  have "built demo_packed"
    using add_tensors_spec [OF demo_add_tensors built_init, of "[]"] add_graph_ops_spec [OF demo_add_ops, of "demo_tensors" "[]"]
      sort_graph_spec [OF demo_sort, of "[demo_op]"] by (simp add: pai_graph_init_def)
  moreover have "kinds_known demo_packed" by (simp add: kinds_known_def demo_packed_def)
  ultimately show ?thesis using from_graph_eq built_wf ir_of_graph_valid by blast
qed

lemma demo_ir_size: "pai_ir_encoded_size (ir_of_graph demo_packed) \<noteq> 0 \<and> pai_ir_encoded_size (ir_of_graph demo_packed) < 1000"
  by (simp add: pai_ir_encoded_size_def ir_of_graph_def demo_packed_def demo_value_def ir_sizes op_record_size_def ir_op_of_def)

lemma demo_pack:
  "\<exists>blob. pai_container_build demo_fops (\<lambda>_. 0) (\<lambda>_ _. Inl PAI_ERR_UNSUPPORTED) (\<lambda>_. True) demo_meta demo_tensors [demo_op]
     demo_vocab [] None = Returns (Inr blob)"
proof -
  let ?ir = "ir_of_graph demo_packed" and ?F = "demo_fops :: fops" and ?A = "\<lambda>_ :: nat. True"
  have q: "quant_mode None = Inr (False, False)" by (simp add: quant_mode_def)
  obtain w where w: "put_weights ?F (\<lambda>_. 0) ?A False (scheme_of False (quant_group None)) 0 [] [] demo_tensors =
      Returns (Inr (w, [manifest_entry (demo_tensor_of 2 1) [119] 0 8]))" "length w = 8"
    by (simp add: demo_tensors_def demo_tensor_of_def weight_bytes_def length_float_bytes Let_def)
  obtain tok where tok: "add_vocab ?A 0 pai_tok_init demo_vocab = Inr tok" "add_rules ?A 0 tok [] = Inr tok"
    "pai_tok_blob_size tok = 22"
    by (simp add: demo_vocab_def pai_tok_add_token_def pai_tok_init_def tok_consts pai_tok_blob_size_def cstr_def)
  obtain tkb where tkb: "pai_tok_serialize tok 22 = Inr tkb" "length tkb = 22"
    using serialize_deserialize [of tok 22] add_vocab_spec [OF tok(1) tok_built.init, of "[]"] tok(3) by (auto simp: pai_tok_init_def)
  obtain md where md: "pai_pai_meta_encode demo_meta PAI_PAI_META_SIZE = Inr md" "length md = 64"
    by (simp add: pai_pai_meta_encode_def demo_meta_def pai_consts)
  obtain man where man: "pai_pai_manifest_encode [manifest_entry (demo_tensor_of 2 1) [119] 0 8] 168 = Inr man" "length man = 79"
    by (simp add: pai_pai_manifest_encode_def manifest_entry_def demo_tensor_of_def pai_consts put_tensor_def cstr_def)
  have irb: "pai_ir_encode ?ir (pai_ir_encoded_size ?ir) = Inr (encode_blob ?ir)" "length (encode_blob ?ir) < 1000"
    using encode_valid [of ?ir] encoded_size_valid [of ?ir] demo_ir_of demo_ir_size by simp_all
  have ne: "demo_tensors \<noteq> []" by (simp add: demo_tensors_def)
  show ?thesis
    using ne demo_ir_size irb tkb md man w tok demo_ir_of
    by (simp add: pai_container_build_def q demo_add_tensors demo_add_ops demo_sort add_weights_def add_section_def
        pai_pai_builder_add_def pai_pai_builder_add_flags_def pai_pai_builder_init_def pai_consts unat_of_nat32
        pai_pai_build_def pai_pai_encoded_size_def Let_def del: add_graph_ops.simps add_vocab.simps add_rules.simps)
qed

theorem container_roundtrip_witness:
  "\<exists>blob c md man metas. pai_container_build demo_fops (\<lambda>_. 0) (\<lambda>_ _. Inl PAI_ERR_UNSUPPORTED) (\<lambda>_. True) demo_meta demo_tensors
      [demo_op] demo_vocab [] None = Returns (Inr blob) \<and>
    pai_pai_open blob = Returns (Inr c) \<and> section_bytes blob c 1 = Some md \<and> pai_pai_meta_decode md = Inr demo_meta \<and>
    section_bytes blob c 2 = Some man \<and> pai_pai_manifest_decode man PAI_PAI_MAX_TENSORS = Returns (Inr metas)"
proof -
  obtain blob where b: "pai_container_build demo_fops (\<lambda>_. 0) (\<lambda>_ _. Inl PAI_ERR_UNSUPPORTED) (\<lambda>_. True) demo_meta demo_tensors
      [demo_op] demo_vocab [] None = Returns (Inr blob)" using demo_pack by blast
  have "\<forall>t \<in> set demo_tensors. length (ct_shape t) = PAI_TENSOR_MAX_RANK \<and> (weighted t \<longrightarrow> cstr (the (ct_name t)) \<noteq> [])"
    "(\<Sum>t \<leftarrow> filter weighted demo_tensors. 5 * unat (ct_n t)) < 2 ^ 32" "0 \<notin> set (mname demo_meta)"
    by (simp_all add: demo_tensors_def demo_tensor_of_def weighted_def PAI_TENSOR_MAX_RANK_def cstr_def demo_meta_def)
  from container_roundtrip [OF b this(1,2) _ this(3)] b show ?thesis by auto
qed

end
