(* ===== verification/Spec2Isabelle.thy ===== *)
theory Spec2Isabelle
  imports Mem Handshake Arena KvCache Ir_Graph Kir Host_Ref Sched_Gate Json_Write Tokenizer Pai_Format Gateway_Http Sampler Container
begin

text \<open>
  Verification development for the C code of ProsperoAI, an inference runtime for a game console with a host-side gateway.

  \<^bold>\<open>The program.\<close> A model file (\<^verbatim>\<open>pai/pai.c\<close>) holds sections: metadata, a tensor manifest, weights (packed by
  \<^verbatim>\<open>models/quantize.c\<close>), an IR program (\<^verbatim>\<open>ir/ir.c\<close>) and a tokenizer (\<^verbatim>\<open>models/tokenizer.c\<close>). The IR is converted to a
  compute graph (\<^verbatim>\<open>ir/ir_graph.c\<close>, \<^verbatim>\<open>graph/graph.c\<close>) or lowered to kernels (\<^verbatim>\<open>ir/kir.c\<close>); the graph is sorted, its value
  lifetimes are computed and its storage is laid out by the static planner (\<^verbatim>\<open>memory/planner.c\<close>). The scheduler
  (\<^verbatim>\<open>scheduler/scheduler.c\<close>) turns the graph into a plan and runs it with the reference kernels (\<^verbatim>\<open>cpu/reference/ref_ops.c\<close>),
  whose operations are listed in \<^verbatim>\<open>runtime/op_registry.c\<close>; GPU work is written as PM4 packets (\<^verbatim>\<open>gpu/pm4/pm4.c\<close>) and can be
  interpreted on the host (\<^verbatim>\<open>gpu/hal/backend_host_ref.c\<close>). Run-time memory comes from the arena, the buddy allocator and the
  key/value cache (\<^verbatim>\<open>memory/\<close>, \<^verbatim>\<open>cache/\<close>); the next token is drawn by \<^verbatim>\<open>models/sampler.c\<close>. Console and host talk through
  framed messages (\<^verbatim>\<open>protocol/\<close>), and the gateway answers HTTP with JSON (\<^verbatim>\<open>gateway/http.c\<close>, \<^verbatim>\<open>gateway/json.c\<close>).

  \<^bold>\<open>How code is modelled.\<close> A C struct is a \<open>record\<close>, an enum a \<open>datatype\<close> or the integer the code keeps, a fixed-width
  integer a \<open>word\<close> (or a natural number where the theory says that the code's range test or buffer bounds it), a byte buffer
  a list. A function that reports \<^verbatim>\<open>pai_status_t\<close> returns \<open>pai_status + 'a\<close>; one that changes its argument returns the new
  value. Memory errors are values too: an access outside an array is \<open>Fault\<close> (or \<open>None\<close>), a loop that runs out of fuel is
  \<open>Diverges\<close> (or \<open>None\<close>), and the safety theorems show that neither occurs. Names are those of the C code; a loop is a
  recursive function of its own with a name that says what it does.

  \<^bold>\<open>Theories.\<close>
  \<^item> \<open>Prelude\<close>: integer types, \<^verbatim>\<open>sdk/include/pai/error.h\<close>, little-endian codecs, C strings, results and outcomes, and the lemmas
    on lists, words and maps that the components share. \<open>Mem\<close>: \<^verbatim>\<open>memory/mem.h\<close>.
  \<^item> \<open>Crc32\<close>, \<open>Frame\<close>, \<open>Message\<close>, \<open>Pipe\<close>, \<open>Connection\<close>, \<open>Conn_Safety\<close>, \<open>Handshake\<close>: \<^verbatim>\<open>protocol/\<close>. The checksum equals the
    bitwise one and detects every error burst of four bytes; frames and payloads survive their codecs; the pipe is a FIFO,
    and its writes past the buffer are characterised exactly; the connection keeps its invariant under every poll, its life cycle only moves forward, and two sides over a pipe pair reach
    OPEN with the same session, window and features.
  \<^item> \<open>Alloc_Spec\<close>, \<open>Arena\<close>, \<open>Buddy\<close>, \<open>KvCache\<close>, \<open>Planner\<close>: \<^verbatim>\<open>memory/arena.c\<close>, \<^verbatim>\<open>memory/allocator.c\<close>, \<^verbatim>\<open>cache/kv_cache.c\<close>,
    \<^verbatim>\<open>memory/planner.c\<close>. Live blocks are aligned, disjoint and in the region; everything freed gives one block again; allocations
    of a plan that are live together are apart.
  \<^item> \<open>Tensor\<close>, \<open>Graph\<close>, \<open>Graph_Plan\<close>: \<^verbatim>\<open>tensor/\<close>, \<^verbatim>\<open>graph/graph.c\<close>. The topological sort decides acyclicity and orders every
    dependency, lifetimes are exact, and a planned graph never overwrites a value that is still needed.
  \<^item> \<open>Ir\<close>, \<open>Ir_Codec\<close>, \<open>Ir_Graph\<close>, \<open>Kir\<close>: \<^verbatim>\<open>ir/\<close>. What the builder makes is well-formed, the codec is exact, the decoder safe on
    every input, a graph survives the way through a blob, and the lowering has one kernel per op.
  \<^item> \<open>Op_Registry\<close>, \<open>Ref_Ops\<close>, \<open>Ref_Spec\<close>, \<open>Scheduler\<close>, \<open>Sched_Ops\<close>, \<open>Sched_Exec\<close>, \<open>Sched_Gate\<close>: \<^verbatim>\<open>runtime/op_registry.c\<close>,
    \<^verbatim>\<open>cpu/reference/ref_ops.c\<close>, \<^verbatim>\<open>scheduler/scheduler.c\<close>. The kernels compute list functions, the schedule is exact, and running
    it in the planned region refines the dataflow meaning of the graph.
  \<^item> \<open>Pm4\<close>, \<open>Host_Ref\<close>: \<^verbatim>\<open>gpu/pm4/pm4.c\<close>, \<^verbatim>\<open>gpu/hal/backend_host_ref.c\<close>. A built stream is interpreted as the calls it was made
    from; the interpreter ends on every stream. A \<^verbatim>\<open>memcpy\<close> between overlapping ranges is a fault.
  \<^item> \<open>Tokenizer\<close>, \<open>Sampler\<close>, \<open>Quantize\<close>, \<open>Pai_Format\<close>, \<open>Container\<close>: \<^verbatim>\<open>models/tokenizer.c\<close>, \<^verbatim>\<open>models/sampler.c\<close>, \<^verbatim>\<open>models/quantize.c\<close>,
    \<^verbatim>\<open>pai/pai.c\<close>, \<^verbatim>\<open>models/container.c\<close>. Texts, tokenizer blobs, containers, metadata and manifests round-trip; opening any buffer is safe;
    quantized weights are unpacked to scale times code; a sampled id respects the greedy and top-k settings; a packed model can be read back section by section.
  \<^item> \<open>Json\<close>, \<open>Json_Spec\<close>, \<open>Json_Parse\<close>, \<open>Json_Complete\<close>, \<open>Json_Write\<close>, \<open>Http\<close>, \<open>Gateway_Http\<close>: \<^verbatim>\<open>gateway/json.c\<close> and
    \<^verbatim>\<open>gateway/http.c\<close>. The JSON parser is sound and complete for a grammar with its limits; what the serializer
    writes is accepted and read back as the same value, up to the seven digits of its numbers. The HTTP parser's outcome is exact
    for every well-formed request and the same however its bytes arrive, and chunked responses decode to the bytes written.

  \<^bold>\<open>Interfaces.\<close> \<open>allocator\<close> and \<open>allocator_free\<close> (\<open>Alloc_Spec\<close>) state what an allocator promises; the arena and the buddy
  allocator (once for disjointness, once with the free lists tidy) interpret them, and \<open>KvCache\<close> is their client.
  \<open>byte_stream\<close> (\<open>Pipe\<close>) is the FIFO contract, interpreted by the pipe. \<open>conn_app\<close> (\<open>Conn_Safety\<close>) is what the connection needs
  of its transport and callbacks, interpreted by the ping client and by a bare endpoint (\<open>Handshake\<close>). \<open>payload_codec\<close>
  (\<open>Message\<close>) is the contract of an encoder and its decoder, interpreted by the eight message payloads.

  \<^bold>\<open>Fuel.\<close> Every loop with a bound in the code is structural or has a measure. Where the code's bound is not visible in the
  data, fuel stands for it and a theorem shows it is enough: the JSON parser gets two units per byte and two more, which its
  soundness theorem shows never to run out; the serializer two per node and two more, and sibling walks one more than there are
  nodes; the PM4 interpreter one step per dword of the stream at each of the nesting depths the code allows. Loops that may
  not end in C (the topological sort on any graph, doubling a 32-bit capacity, the search for a free session id) are
  \<open>while_option\<close> or \<open>partial_function\<close>, and their theorems show when they end.

  \<^bold>\<open>Parameters.\<close> Code outside the sources is an argument: whether \<^verbatim>\<open>malloc\<close>, \<^verbatim>\<open>calloc\<close> and \<^verbatim>\<open>realloc\<close> succeed; the order \<^verbatim>\<open>qsort\<close>
  produces (hypothesis: a sorted permutation); single and double arithmetic with the math library as records of operations
  (no law assumed, except where a theorem says so: comparisons of the sampled values behave as an order); \<^verbatim>\<open>lrintf\<close>;
  number formatting and \<^verbatim>\<open>strtod\<close> for JSON; the clock; the results of socket and stdio calls; the request handler; the weight compressor.
  Each theorem under such a hypothesis has a witness that instantiates it.

  \<^bold>\<open>Not modelled.\<close> The Kraken decoder and encoder (a bit-level third-party format of long table-driven loops), the GGUF reader
  and the llama adapter (float decoding of foreign block formats), the model object, importer and optimiser (file I/O around
  the modelled layers), the optimised kernels (vector intrinsics), the HAL's device backends, shader blobs, the gateway server
  and TCP transport (sockets and threads around the modelled parsers and connection), profiling and logging, the platform layer
  (system calls), the payload and command-line drivers, and the TypeScript desktop client. Threads are outside: a
  connection or request is one sequential run.
\<close>

end
